(* ===== verification/KV_Prelude.thy ===== *)
theory KV_Prelude
  imports Main "HOL-Library.Word" "HOL-Library.Code_Target_Nat"
begin

text \<open>
  What every component of the development shares.

  The C++ of the repository reports failure by exceptions, and an exception does not undo
  what the function has already written. An operation on a state of type \<open>'s\<close> is therefore
  a function \<open>'s \<Rightarrow> 'a res \<times> 's\<close>: the result is either \<open>Inl\<close> of the exception or \<open>Inr\<close>
  of the returned value, and the state is the one the call leaves behind in both cases.
  A \<open>const\<close> member function, which cannot write, is a function \<open>'s \<Rightarrow> 'a res\<close>.

  \<open>std::size_t\<close> is 64 bits wide, as on the platforms the repository supports. Counters and
  indices are natural numbers whose bound is tested where the code tests it (against
  \<open>size_max\<close>); quantities whose wrap-around matters are \<open>64 word\<close>s.
  Failure of the host allocator (\<open>std::bad_alloc\<close>) is modelled where vectors of references
  grow (\<open>Block_Table\<close> and its clients) and for the chunk pools; elsewhere host memory is
  taken to suffice. \<open>Code_Target_Nat\<close> only serves
  the witnesses: \<open>code_simp\<close> then computes with binary rather than unary numbers.
\<close>

section \<open>Exceptions and results\<close>

text \<open>
  One constructor per exception class the code throws. \<open>Undefined\<close> is not an exception: it
  marks the executions in which the C++ would have undefined behaviour (a dereferenced
  \<open>end()\<close>, an index outside a vector), which the lemmas show to be unreachable.
  \<open>Terminated\<close> is \<open>std::terminate\<close>, the result of an exception that leaves a
  \<open>noexcept\<close> function.
\<close>

datatype exn =
    CapacityError
  | InvalidArgument
  | OverflowError
  | OutOfRange
  | LogicError
  | RuntimeError
  | BadAlloc
  | ChunkStoreError
  | ChunkCorruptError
  | ChunkMissError
  | ChunkQuotaError
  | Undefined
  | Terminated

type_synonym 'a res = "exn + 'a"

text \<open>Sequencing: the first exception ends the sequence, with the state it left.\<close>

fun and_then :: "'a res \<times> 's \<Rightarrow> ('a \<Rightarrow> 's \<Rightarrow> 'b res \<times> 's) \<Rightarrow> 'b res \<times> 's" where
  "and_then (Inl e, s) f = (Inl e, s)"
| "and_then (Inr x, s) f = f x s"

text \<open>The same for code that has no state to write.\<close>

fun bind_res :: "'a res \<Rightarrow> ('a \<Rightarrow> 'b res) \<Rightarrow> 'b res" where
  "bind_res (Inl e) f = Inl e"
| "bind_res (Inr x) f = f x"

lemma bind_res_Inr_iff: "bind_res m f = Inr y \<longleftrightarrow> (\<exists>x. m = Inr x \<and> f x = Inr y)"
  by (cases m) auto

lemma bind_res_Inl_iff: "bind_res m f = Inl e \<longleftrightarrow> m = Inl e \<or> (\<exists>x. m = Inr x \<and> f x = Inl e)"
  by (cases m) auto

text \<open>A handler \<open>catch (...)\<close>: it runs on the state the exception left.\<close>

fun catch_all :: "'a res \<times> 's \<Rightarrow> (exn \<Rightarrow> 's \<Rightarrow> 'a res \<times> 's) \<Rightarrow> 'a res \<times> 's" where
  "catch_all (Inl e, s) f = f e s"
| "catch_all (Inr x, s) f = (Inr x, s)"

text \<open>A range-\<open>for\<close> whose body may throw.\<close>

fun for_each :: "('x \<Rightarrow> 's \<Rightarrow> unit res \<times> 's) \<Rightarrow> 'x list \<Rightarrow> 's \<Rightarrow> unit res \<times> 's" where
  "for_each f [] s = (Inr (), s)"
| "for_each f (x # xs) s = and_then (f x s) (\<lambda>_ s'. for_each f xs s')"

lemma and_then_Inr_iff:
  "and_then m f = (Inr y, s') \<longleftrightarrow> (\<exists>x s1. m = (Inr x, s1) \<and> f x s1 = (Inr y, s'))"
  by (cases "(m, f)" rule: and_then.cases) auto

lemma and_then_Inl_iff:
  "and_then m f = (Inl e, s') \<longleftrightarrow>
     m = (Inl e, s') \<or> (\<exists>x s1. m = (Inr x, s1) \<and> f x s1 = (Inl e, s'))"
  by (cases "(m, f)" rule: and_then.cases) auto

lemma catch_all_Inr_iff:
  "catch_all m f = (Inr y, s') \<longleftrightarrow>
     m = (Inr y, s') \<or> (\<exists>e s1. m = (Inl e, s1) \<and> f e s1 = (Inr y, s'))"
  by (cases "(m, f)" rule: catch_all.cases) auto

lemma catch_all_Inl_iff:
  "catch_all m f = (Inl e, s') \<longleftrightarrow> (\<exists>e1 s1. m = (Inl e1, s1) \<and> f e1 s1 = (Inl e, s'))"
  by (cases "(m, f)" rule: catch_all.cases) auto

lemmas res_iffs = bind_res_Inr_iff bind_res_Inl_iff and_then_Inr_iff and_then_Inl_iff catch_all_Inr_iff catch_all_Inl_iff

lemma and_then_split:
  "P (and_then m f) \<longleftrightarrow>
     (\<forall>e s. m = (Inl e, s) \<longrightarrow> P (Inl e, s)) \<and> (\<forall>x s. m = (Inr x, s) \<longrightarrow> P (f x s))"
  by (cases "(m, f)" rule: and_then.cases) auto

text \<open>
  A body that succeeds and keeps an invariant on every element makes the whole loop succeed
  and keep it; the predicate may speak about the elements still to come.
\<close>

lemma for_each_ok:
  assumes "P xs s"
    and "\<And>y ys t. P (y # ys) t \<Longrightarrow> \<exists>t'. f y t = (Inr (), t') \<and> P ys t'"
  shows "\<exists>s'. for_each f xs s = (Inr (), s') \<and> P [] s'"
  using assms(1)
proof (induction xs arbitrary: s)
  case Nil
  then show ?case by simp
next
  case (Cons x xs)
  from assms(2) [OF Cons.prems] obtain t' where "f x s = (Inr (), t')" and "P xs t'" by blast
  with Cons.IH show ?case by simp
qed

lemma for_each_append:
  "for_each f (xs @ ys) s = and_then (for_each f xs s) (\<lambda>_ s'. for_each f ys s')"
  by (induction xs arbitrary: s) (auto split: and_then_split)

section \<open>Machine integers\<close>

type_synonym u8 = "8 word"
type_synonym u32 = "32 word"
type_synonym u64 = "64 word"

text \<open>\<open>std::numeric_limits<T>::max()\<close> for \<open>std::size_t\<close> and \<open>std::uint64_t\<close>.\<close>

definition size_max :: nat where
  "size_max = 18446744073709551615"

definition u64_max :: nat where
  "u64_max = 18446744073709551615"

text \<open>
  \<open>IndexLru::none\<close>, \<open>BlockManager::none\<close> and \<open>SlotTier::none\<close>: the largest
  \<open>std::size_t\<close>, which is no index of any vector.
\<close>

definition none :: nat where
  "none = size_max"

lemma none_eq: "none = 18446744073709551615"
  by (simp add: none_def size_max_def)

text \<open>Sums and products that fit are exact.\<close>

lemma unat_u64_max: "unat (-1 :: u64) = u64_max"
  by (simp add: unsigned_minus_1_eq_mask mask_eq_exp_minus_1 u64_max_def)

lemma unat_u64_le: "unat (w :: u64) \<le> u64_max"
  using unsigned_less [of w, where 'a = nat] by (simp add: u64_max_def)

lemma unat_mult_exact: "unat a * unat b \<le> u64_max \<Longrightarrow> unat (a * b :: u64) = unat a * unat b"
  by (simp add: unat_word_ariths u64_max_def)

lemma unat_add_exact: "unat a + unat b \<le> u64_max \<Longrightarrow> unat (a + b :: u64) = unat a + unat b"
  by (simp add: unat_word_ariths u64_max_def)

text \<open>Unchecked \<open>std::size_t\<close> arithmetic on naturals wraps around.\<close>

definition size_wrap :: "nat \<Rightarrow> nat" where
  "size_wrap n = n mod 18446744073709551616"

definition size_inc :: "nat \<Rightarrow> nat" where
  "size_inc n = (if n = size_max then 0 else n + 1)"

definition size_dec :: "nat \<Rightarrow> nat" where
  "size_dec n = (if n = 0 then size_max else n - 1)"

lemma size_wrap_id: "n \<le> size_max \<Longrightarrow> size_wrap n = n"
  by (simp add: size_wrap_def size_max_def)

text \<open>The number of blocks of size \<open>b\<close> that \<open>n\<close> tokens occupy, as the code writes it.\<close>

definition ceil_blocks :: "nat \<Rightarrow> nat \<Rightarrow> nat" where
  "ceil_blocks n b = n div b + (if n mod b \<noteq> 0 then 1 else 0)"

lemma ceil_blocks_0 [simp]: "ceil_blocks 0 b = 0"
  by (simp add: ceil_blocks_def)

lemma ceil_blocks_bounds:
  assumes "0 < b"
  shows "n \<le> ceil_blocks n b * b" and "ceil_blocks n b * b < n + b"
proof -
  have n: "n div b * b + n mod b = n" by (rule div_mult_mod_eq)
  have m: "n mod b < b" using assms by simp
  have "n < n div b * b + b" using n m by linarith
  then show "n \<le> ceil_blocks n b * b"
    using n by (cases "n mod b = 0") (simp_all add: ceil_blocks_def)
  show "ceil_blocks n b * b < n + b"
  proof (cases "n mod b = 0")
    case True
    then show ?thesis using n assms by (simp add: ceil_blocks_def)
  next
    case False
    then have "n div b * b < n" using n by linarith
    then show ?thesis using False by (simp add: ceil_blocks_def)
  qed
qed

lemma ceil_blocks_div_less:
  assumes "0 < b" and "i < n"
  shows "i div b < ceil_blocks n b"
proof -
  have "i < ceil_blocks n b * b" using ceil_blocks_bounds(1) [OF assms(1), of n] assms(2) by linarith
  then show ?thesis by (simp add: less_mult_imp_div_less)
qed

lemma ceil_blocks_unique:
  assumes "0 < b" and "n \<le> k * b" and "k * b < n + b"
  shows "ceil_blocks n b = k"
proof -
  note c = ceil_blocks_bounds [OF assms(1), of n]
  have "ceil_blocks n b * b < (k + 1) * b" using c(2) assms(2) by simp
  moreover have "k * b < (ceil_blocks n b + 1) * b" using c(1) assms(3) by simp
  ultimately show ?thesis using assms(1) by (metis Suc_eq_plus1 le_antisym less_Suc_eq_le mult_less_cancel2)
qed

section \<open>Lists\<close>

text \<open>The ends of a list as the code stores them: \<open>none\<close> for the empty list.\<close>

definition first_or_none :: "nat list \<Rightarrow> nat" where
  "first_or_none xs = (if xs = [] then none else hd xs)"

definition last_or_none :: "nat list \<Rightarrow> nat" where
  "last_or_none xs = (if xs = [] then none else last xs)"

lemma first_or_none_simps [simp]:
  "first_or_none [] = none" "first_or_none (x # xs) = x"
  by (simp_all add: first_or_none_def)

lemma last_or_none_simps [simp]:
  "last_or_none [] = none" "last_or_none (xs @ [x]) = x"
  by (simp_all add: last_or_none_def)

lemma first_or_none_append:
  "first_or_none (xs @ ys) = (if xs = [] then first_or_none ys else hd xs)"
  by (cases xs) simp_all

lemma last_or_none_append:
  "last_or_none (xs @ ys) = (if ys = [] then last_or_none xs else last ys)"
  by (simp add: last_or_none_def)

lemma count_list_le_length: "count_list xs x \<le> length xs"
  by (induction xs) auto

lemma count_list_append_Cons:
  "count_list (xs @ [y]) x = count_list xs x + (if x = y then 1 else 0)"
  by simp

section \<open>Free lists\<close>

text \<open>
  \<open>chain n next h xs\<close>: following \<open>next\<close> from index \<open>h\<close> visits the indices \<open>xs\<close>, all below
  \<open>n\<close>, and ends at \<open>none\<close>.
\<close>

fun chain :: "nat \<Rightarrow> (nat \<Rightarrow> nat) \<Rightarrow> nat \<Rightarrow> nat list \<Rightarrow> bool" where
  "chain n nxt h [] \<longleftrightarrow> h = none"
| "chain n nxt h (x # xs) \<longleftrightarrow> h = x \<and> x < n \<and> chain n nxt (nxt x) xs"

lemma chain_cong: "(\<And>x. x \<in> set xs \<Longrightarrow> nxt x = nxt' x) \<Longrightarrow> chain n nxt h xs = chain n nxt' h xs"
  by (induction xs arbitrary: h) auto

lemma chain_head: "chain n nxt h xs \<Longrightarrow> h = first_or_none xs"
  by (cases xs) simp_all

lemma chain_upto:
  assumes "k \<le> n" and "\<And>i. Suc i < n \<Longrightarrow> nxt i = Suc i" and "\<And>i. Suc i = n \<Longrightarrow> nxt i = none"
  shows "chain n nxt (if k < n then k else none) [k..<n]"
  using assms(1)
proof (induction "n - k" arbitrary: k)
  case 0
  then show ?case by simp
next
  case (Suc d)
  then have k: "k < n" by simp
  then have u: "[k..<n] = k # [Suc k..<n]" by (rule upt_conv_Cons)
  have "d = n - Suc k" "Suc k \<le> n" using Suc(2) k by simp_all
  note ih = Suc(1) [OF this]
  have "nxt k = (if Suc k < n then Suc k else none)" using assms(2,3) [of k] k by auto
  then show ?case using ih k unfolding u by simp
qed

end
