(* ===== verification/Index_Lru.thy ===== *)
theory Index_Lru
  imports KV_Prelude
begin

text \<open>
  \<open>include/kvflux/detail/index_lru.h\<close>: a doubly linked list threaded through an array of
  nodes, shared by the idle cache of \<open>BlockManager\<close> and the residency policy of
  \<open>TieredBlockManager\<close>. The class asks its callers for \<open>id < capacity\<close>; under that
  contract the operations refine operations on plain lists, oldest element first. The locale
  \<open>recency_queue\<close> is the interface its clients rely on.
\<close>

section \<open>Nodes and operations\<close>

record lru_node =
  n_prev :: nat
  n_next :: nat
  n_present :: bool

record index_lru =
  l_nodes :: "lru_node list"
  l_oldest :: nat
  l_newest :: nat

definition fresh_node :: lru_node where
  "fresh_node = \<lparr>n_prev = none, n_next = none, n_present = False\<rparr>"

definition lru_create :: "nat \<Rightarrow> index_lru" where
  "lru_create capacity =
     \<lparr>l_nodes = replicate capacity fresh_node, l_oldest = none, l_newest = none\<rparr>"

definition lru_oldest :: "index_lru \<Rightarrow> nat" where
  "lru_oldest l = l_oldest l"

definition lru_next :: "nat \<Rightarrow> index_lru \<Rightarrow> nat" where
  "lru_next i l = n_next (l_nodes l ! i)"

text \<open>Assigning one field of the node at an index.\<close>

definition set_next :: "nat \<Rightarrow> nat \<Rightarrow> index_lru \<Rightarrow> index_lru" where
  "set_next i v l = l\<lparr>l_nodes := (l_nodes l)[i := (l_nodes l ! i)\<lparr>n_next := v\<rparr>]\<rparr>"

definition set_prev :: "nat \<Rightarrow> nat \<Rightarrow> index_lru \<Rightarrow> index_lru" where
  "set_prev i v l = l\<lparr>l_nodes := (l_nodes l)[i := (l_nodes l ! i)\<lparr>n_prev := v\<rparr>]\<rparr>"

definition lru_erase :: "nat \<Rightarrow> index_lru \<Rightarrow> index_lru" where
  "lru_erase i l =
     (let n = l_nodes l ! i in
      if \<not> n_present n then l
      else
        let l1 = (if n_prev n = none then l\<lparr>l_oldest := n_next n\<rparr>
                  else set_next (n_prev n) (n_next n) l);
            l2 = (if n_next n = none then l1\<lparr>l_newest := n_prev n\<rparr>
                  else set_prev (n_next n) (n_prev n) l1)
        in l2\<lparr>l_nodes := (l_nodes l2)[i := fresh_node]\<rparr>)"

definition lru_touch :: "nat \<Rightarrow> index_lru \<Rightarrow> index_lru" where
  "lru_touch i l =
     (let l1 = lru_erase i l;
          n = (l_nodes l1 ! i)\<lparr>n_present := True, n_prev := l_newest l1\<rparr>;
          l2 = l1\<lparr>l_nodes := (l_nodes l1)[i := n]\<rparr>;
          l3 = (if l_newest l1 = none then l2\<lparr>l_oldest := i\<rparr>
                else set_next (l_newest l1) i l2)
      in l3\<lparr>l_newest := i\<rparr>)"

section \<open>The list a queue represents\<close>

text \<open>
  \<open>lru_rep l xs\<close>: the array \<open>l\<close> holds exactly the list \<open>xs\<close>, oldest first. Around every
  element, the links name its neighbours.
\<close>

definition lru_links :: "lru_node list \<Rightarrow> nat list \<Rightarrow> bool" where
  "lru_links ns xs \<longleftrightarrow>
     (\<forall>as x bs. xs = as @ x # bs \<longrightarrow>
        ns ! x = \<lparr>n_prev = last_or_none as, n_next = first_or_none bs, n_present = True\<rparr>)"

definition lru_rep :: "index_lru \<Rightarrow> nat list \<Rightarrow> bool" where
  "lru_rep l xs \<longleftrightarrow>
     length (l_nodes l) \<le> none \<and> distinct xs \<and> set xs \<subseteq> {..<length (l_nodes l)} \<and>
     (\<forall>i < length (l_nodes l). i \<notin> set xs \<longrightarrow> l_nodes l ! i = fresh_node) \<and>
     lru_links (l_nodes l) xs \<and>
     l_oldest l = first_or_none xs \<and> l_newest l = last_or_none xs"

lemma lru_rep_present:
  assumes "lru_rep l xs" and "i < length (l_nodes l)"
  shows "n_present (l_nodes l ! i) \<longleftrightarrow> i \<in> set xs"
proof (cases "i \<in> set xs")
  case True
  then obtain as bs where "xs = as @ i # bs" by (meson split_list)
  with assms(1) True show ?thesis by (auto simp: lru_rep_def lru_links_def)
next
  case False
  with assms show ?thesis by (auto simp: lru_rep_def fresh_node_def)
qed

lemma lru_links_at:
  "lru_links ns (as @ x # bs) \<Longrightarrow>
     ns ! x = \<lparr>n_prev = last_or_none as, n_next = first_or_none bs, n_present = True\<rparr>"
  by (auto simp: lru_links_def)

lemma lru_create_rep: "n \<le> none \<Longrightarrow> lru_rep (lru_create n) []"
  by (simp add: lru_rep_def lru_create_def lru_links_def)

text \<open>Writing a node that no element links to leaves the links alone.\<close>

lemma lru_links_update_other:
  "lru_links ns xs \<Longrightarrow> i \<notin> set xs \<Longrightarrow> lru_links (ns[i := n]) xs"
  unfolding lru_links_def by (metis in_set_conv_decomp nth_list_update_neq)


text \<open>Taking an element out: its neighbours are linked to each other.\<close>

lemma lru_links_join:
  assumes links: "lru_links ns (as @ i # bs)" and dist: "distinct (as @ i # bs)"
    and other: "\<And>x. x \<in> set as \<union> set bs \<Longrightarrow> (as \<noteq> [] \<longrightarrow> x \<noteq> last as) \<Longrightarrow>
                  (bs \<noteq> [] \<longrightarrow> x \<noteq> hd bs) \<Longrightarrow> ns' ! x = ns ! x"
    and left: "as \<noteq> [] \<Longrightarrow> ns' ! last as = (ns ! last as)\<lparr>n_next := first_or_none bs\<rparr>"
    and right: "bs \<noteq> [] \<Longrightarrow> ns' ! hd bs = (ns ! hd bs)\<lparr>n_prev := last_or_none as\<rparr>"
  shows "lru_links ns' (as @ bs)"
  unfolding lru_links_def
proof (intro allI impI)
  fix cs x ds
  assume "as @ bs = cs @ x # ds"
  then consider (l) us where "as = cs @ x # us" "ds = us @ bs"
    | (r) us where "cs = as @ us" "bs = us @ x # ds"
    by (auto simp: append_eq_append_conv2 append_eq_Cons_conv)
  then show "ns' ! x = \<lparr>n_prev = last_or_none cs, n_next = first_or_none ds, n_present = True\<rparr>"
  proof cases
    case l
    have n: "ns ! x = \<lparr>n_prev = last_or_none cs, n_next = first_or_none (us @ i # bs), n_present = True\<rparr>"
      using links l by (auto intro: lru_links_at)
    show ?thesis
    proof (cases "us = []")
      case True
      then show ?thesis using left l n by simp
    next
      case False
      then have "ns' ! x = ns ! x" using dist l by (intro other) auto
      then show ?thesis using n l False by (simp add: first_or_none_append)
    qed
  next
    case r
    have n: "ns ! x = \<lparr>n_prev = last_or_none (as @ i # us), n_next = first_or_none ds, n_present = True\<rparr>"
      using links r by (auto intro: lru_links_at [of _ "as @ i # us"])
    show ?thesis
    proof (cases "us = []")
      case True
      then show ?thesis using right r n by simp
    next
      case False
      then have "ns' ! x = ns ! x" using dist r by (intro other) auto
      then show ?thesis using n r False by (simp add: last_or_none_append)
    qed
  qed
qed

lemma lru_links_snoc:
  assumes links: "lru_links ns as" and dist: "distinct (as @ [i])"
    and other: "\<And>x. x \<in> set as \<Longrightarrow> x \<noteq> last as \<Longrightarrow> ns' ! x = ns ! x"
    and left: "as \<noteq> [] \<Longrightarrow> ns' ! last as = (ns ! last as)\<lparr>n_next := i\<rparr>"
    and new: "ns' ! i = \<lparr>n_prev = last_or_none as, n_next = none, n_present = True\<rparr>"
  shows "lru_links ns' (as @ [i])"
  unfolding lru_links_def
proof (intro allI impI)
  fix cs x ds
  assume "as @ [i] = cs @ x # ds"
  then consider (l) us where "as = cs @ x # us" "ds = us @ [i]" | (r) "cs = as" "x = i" "ds = []"
    by (auto simp: append_eq_append_conv2 append_eq_Cons_conv Cons_eq_append_conv)
  then show "ns' ! x = \<lparr>n_prev = last_or_none cs, n_next = first_or_none ds, n_present = True\<rparr>"
  proof cases
    case l
    have n: "ns ! x = \<lparr>n_prev = last_or_none cs, n_next = first_or_none us, n_present = True\<rparr>"
      using links l by (auto intro: lru_links_at)
    show ?thesis
    proof (cases "us = []")
      case True
      then show ?thesis using left l n by simp
    next
      case False
      then have "ns' ! x = ns ! x" using dist l by (intro other) auto
      then show ?thesis using n l False by (simp add: first_or_none_append first_or_none_def)
    qed
  next
    case r
    then show ?thesis using new by simp
  qed
qed

section \<open>The operations refine operations on lists\<close>

lemma lru_erase_length [simp]: "length (l_nodes (lru_erase i l)) = length (l_nodes l)"
  by (simp add: lru_erase_def set_next_def set_prev_def Let_def)

lemma lru_touch_length [simp]: "length (l_nodes (lru_touch i l)) = length (l_nodes l)"
  by (simp add: lru_touch_def set_next_def Let_def)

lemma last_or_none_eq_none:
  "set xs \<subseteq> {..<n} \<Longrightarrow> n \<le> none \<Longrightarrow> last_or_none xs = none \<longleftrightarrow> xs = []"
  by (metis last_in_set last_or_none_def lessThan_iff linorder_not_less subsetD)

lemma first_or_none_eq_none:
  "set xs \<subseteq> {..<n} \<Longrightarrow> n \<le> none \<Longrightarrow> first_or_none xs = none \<longleftrightarrow> xs = []"
  by (metis hd_in_set first_or_none_def lessThan_iff linorder_not_less subsetD)

text \<open>\<open>erase\<close> of a present element, field by field.\<close>

lemma lru_erase_present:
  assumes rep: "lru_rep l (as @ i # bs)"
  shows "l_oldest (lru_erase i l) = first_or_none (as @ bs)"
    and "l_newest (lru_erase i l) = last_or_none (as @ bs)"
    and "l_nodes (lru_erase i l) =
      (let ns = (if as = [] then l_nodes l
                 else (l_nodes l)[last as := (l_nodes l ! last as)\<lparr>n_next := first_or_none bs\<rparr>])
       in (if bs = [] then ns else ns[hd bs := (ns ! hd bs)\<lparr>n_prev := last_or_none as\<rparr>])
            [i := fresh_node])"
proof -
  have n: "l_nodes l ! i = \<lparr>n_prev = last_or_none as, n_next = first_or_none bs, n_present = True\<rparr>"
    using rep by (auto simp: lru_rep_def intro: lru_links_at)
  have len: "length (l_nodes l) \<le> none"
    and sub: "set as \<subseteq> {..<length (l_nodes l)}" "set bs \<subseteq> {..<length (l_nodes l)}"
    and ends: "l_oldest l = first_or_none (as @ i # bs)" "l_newest l = last_or_none (as @ i # bs)"
    using rep by (auto simp: lru_rep_def)
  have e: "last_or_none as = none \<longleftrightarrow> as = []" "first_or_none bs = none \<longleftrightarrow> bs = []"
    using last_or_none_eq_none [OF sub(1) len] first_or_none_eq_none [OF sub(2) len] by simp_all
  show "l_oldest (lru_erase i l) = first_or_none (as @ bs)"
    using n e ends by (simp add: lru_erase_def set_next_def set_prev_def first_or_none_append Let_def)
  show "l_newest (lru_erase i l) = last_or_none (as @ bs)"
    using n e ends by (simp add: lru_erase_def set_next_def set_prev_def last_or_none_append Let_def)
  show "l_nodes (lru_erase i l) =
      (let ns = (if as = [] then l_nodes l
                 else (l_nodes l)[last as := (l_nodes l ! last as)\<lparr>n_next := first_or_none bs\<rparr>])
       in (if bs = [] then ns else ns[hd bs := (ns ! hd bs)\<lparr>n_prev := last_or_none as\<rparr>])
            [i := fresh_node])"
    using n e by (simp add: lru_erase_def set_next_def set_prev_def
        last_or_none_def first_or_none_def Let_def)
qed

lemma lru_erase_rep_split:
  assumes rep: "lru_rep l (as @ i # bs)"
  shows "lru_rep (lru_erase i l) (as @ bs)"
proof -
  let ?ns = "l_nodes l" and ?ns' = "l_nodes (lru_erase i l)"
  note nodes = lru_erase_present(3) [OF rep]
  have dist: "distinct (as @ i # bs)" and sub: "set (as @ i # bs) \<subseteq> {..<length ?ns}"
    and links: "lru_links ?ns (as @ i # bs)" and len: "length ?ns \<le> none"
    and fresh: "\<And>j. j < length ?ns \<Longrightarrow> j \<notin> set (as @ i # bs) \<Longrightarrow> ?ns ! j = fresh_node"
    using rep by (auto simp: lru_rep_def)
  have ends: "as \<noteq> [] \<Longrightarrow> last as \<in> set as" "bs \<noteq> [] \<Longrightarrow> hd bs \<in> set bs" by auto
  have lt: "as \<noteq> [] \<Longrightarrow> last as < length ?ns" "bs \<noteq> [] \<Longrightarrow> hd bs < length ?ns" "i < length ?ns"
    using sub ends by (simp_all add: subset_iff)
  have ne: "as \<noteq> [] \<Longrightarrow> last as \<noteq> i" "bs \<noteq> [] \<Longrightarrow> hd bs \<noteq> i"
    "as \<noteq> [] \<Longrightarrow> bs \<noteq> [] \<Longrightarrow> last as \<noteq> hd bs"
    using dist ends by (auto, metis disjoint_iff)
  have "lru_links ?ns' (as @ bs)"
  proof (rule lru_links_join [OF links dist])
    fix x assume "x \<in> set as \<union> set bs" "as \<noteq> [] \<longrightarrow> x \<noteq> last as" "bs \<noteq> [] \<longrightarrow> x \<noteq> hd bs"
    then have "i \<noteq> x" "as \<noteq> [] \<longrightarrow> last as \<noteq> x" "bs \<noteq> [] \<longrightarrow> hd bs \<noteq> x" using dist by auto
    then show "?ns' ! x = ?ns ! x" unfolding nodes by (simp add: Let_def)
  next
    assume "as \<noteq> []"
    then show "?ns' ! last as = (?ns ! last as)\<lparr>n_next := first_or_none bs\<rparr>"
      using lt ne unfolding nodes by (auto simp: Let_def nth_list_update)
  next
    assume "bs \<noteq> []"
    then show "?ns' ! hd bs = (?ns ! hd bs)\<lparr>n_prev := last_or_none as\<rparr>"
      using lt ne unfolding nodes by (auto simp: Let_def nth_list_update)
  qed
  moreover have "?ns' ! j = fresh_node" if "j < length ?ns" "j \<notin> set (as @ bs)" for j
  proof (cases "j = i")
    case True
    then show ?thesis using lt unfolding nodes by (auto simp: Let_def)
  next
    case False
    then have "i \<noteq> j" "as \<noteq> [] \<longrightarrow> last as \<noteq> j" "bs \<noteq> [] \<longrightarrow> hd bs \<noteq> j"
      using that ends by auto
    then show ?thesis using fresh [of j] that unfolding nodes by (simp add: Let_def)
  qed
  ultimately show ?thesis
    using dist sub len lru_erase_present(1,2) [OF rep] unfolding lru_rep_def by auto
qed

lemma lru_erase_absent:
  "lru_rep l xs \<Longrightarrow> i < length (l_nodes l) \<Longrightarrow> i \<notin> set xs \<Longrightarrow> lru_erase i l = l"
  by (simp add: lru_erase_def lru_rep_present)

lemma lru_erase_rep:
  assumes rep: "lru_rep l xs" and i: "i < length (l_nodes l)"
  shows "lru_rep (lru_erase i l) (removeAll i xs)"
proof (cases "i \<in> set xs")
  case False
  then show ?thesis using rep i by (simp add: lru_erase_absent)
next
  case True
  then obtain as bs where xs: "xs = as @ i # bs" by (meson split_list)
  then have "i \<notin> set as" "i \<notin> set bs" using rep by (auto simp: lru_rep_def)
  then show ?thesis using lru_erase_rep_split rep xs by simp
qed

lemma lru_touch_rep:
  assumes rep: "lru_rep l xs" and i: "i < length (l_nodes l)"
  shows "lru_rep (lru_touch i l) (removeAll i xs @ [i])"
proof -
  let ?l = "lru_erase i l" and ?xs = "removeAll i xs"
  let ?ns = "l_nodes ?l" and ?ns' = "l_nodes (lru_touch i l)"
  have r: "lru_rep ?l ?xs" using rep i by (rule lru_erase_rep)
  then have links: "lru_links ?ns ?xs" and dist: "distinct (?xs @ [i])"
    and sub: "set ?xs \<subseteq> {..<length ?ns}" and len: "length ?ns \<le> none"
    and ends: "l_oldest ?l = first_or_none ?xs" "l_newest ?l = last_or_none ?xs"
    and fresh: "\<And>j. j < length ?ns \<Longrightarrow> j \<notin> set ?xs \<Longrightarrow> ?ns ! j = fresh_node"
    by (simp_all add: lru_rep_def)
  have ni: "i \<notin> set ?xs" by simp
  have fi: "?ns ! i = fresh_node" using fresh i by simp
  have e: "last_or_none ?xs = none \<longleftrightarrow> ?xs = []" using last_or_none_eq_none sub len by blast
  have lst: "?xs \<noteq> [] \<Longrightarrow> last ?xs < length ?ns \<and> last ?xs \<noteq> i"
    using sub ni last_in_set by (metis lessThan_iff subsetD)
  define n where "n = \<lparr>n_prev = last_or_none ?xs, n_next = none, n_present = True\<rparr>"
  have nodes: "?ns' = (if ?xs = [] then ?ns[i := n]
      else ?ns[i := n, last ?xs := (?ns ! last ?xs)\<lparr>n_next := i\<rparr>])"
    using e ends fi lst
    by (auto simp: lru_touch_def Let_def set_next_def fresh_node_def n_def last_or_none_def)
  have "lru_links ?ns' (?xs @ [i])"
  proof (rule lru_links_snoc [OF links dist])
    fix x assume "x \<in> set ?xs" "x \<noteq> last ?xs"
    then have "i \<noteq> x" "last ?xs \<noteq> x" using ni by auto
    then show "?ns' ! x = ?ns ! x" unfolding nodes by simp
  next
    assume "?xs \<noteq> []"
    then show "?ns' ! last ?xs = (?ns ! last ?xs)\<lparr>n_next := i\<rparr>" using lst unfolding nodes by simp
  next
    show "?ns' ! i = \<lparr>n_prev = last_or_none ?xs, n_next = none, n_present = True\<rparr>"
      using lst i unfolding nodes by (auto simp: n_def nth_list_update)
  qed
  moreover have "?ns' ! j = fresh_node" if "j < length ?ns" "j \<notin> set (?xs @ [i])" for j
  proof -
    have "i \<noteq> j" "?xs \<noteq> [] \<longrightarrow> last ?xs \<noteq> j" using that last_in_set [of ?xs] by auto
    then show ?thesis using fresh [of j] that unfolding nodes by simp
  qed
  moreover have "l_oldest (lru_touch i l) = first_or_none (?xs @ [i])"
    "l_newest (lru_touch i l) = last_or_none (?xs @ [i])"
    using e ends by (auto simp: lru_touch_def Let_def set_next_def first_or_none_def hd_append)
  ultimately show ?thesis
    using dist sub len i unfolding lru_rep_def by auto
qed

lemma lru_oldest_rep: "lru_rep l xs \<Longrightarrow> lru_oldest l = first_or_none xs"
  by (simp add: lru_oldest_def lru_rep_def)

lemma lru_next_rep: "lru_rep l (as @ x # bs) \<Longrightarrow> lru_next x l = first_or_none bs"
  by (auto simp: lru_next_def lru_rep_def dest: lru_links_at)

section \<open>The interface the clients use\<close>

text \<open>
  A recency queue over the indices below a capacity: every index occurs at most once,
  \<open>erase\<close> takes one out, \<open>touch\<close> makes it the newest, \<open>oldest\<close> is the victim.
\<close>

locale recency_queue =
  fixes erase :: "nat \<Rightarrow> 'q \<Rightarrow> 'q"
    and touch :: "nat \<Rightarrow> 'q \<Rightarrow> 'q"
    and oldest :: "'q \<Rightarrow> nat"
    and cap :: "'q \<Rightarrow> nat"
    and rep :: "'q \<Rightarrow> nat list \<Rightarrow> bool"
  assumes rep_distinct: "rep q xs \<Longrightarrow> distinct xs"
    and rep_bound: "rep q xs \<Longrightarrow> set xs \<subseteq> {..<cap q}"
    and cap_bound: "rep q xs \<Longrightarrow> cap q \<le> none"
    and oldest_rep: "rep q xs \<Longrightarrow> oldest q = first_or_none xs"
    and erase_rep: "rep q xs \<Longrightarrow> i < cap q \<Longrightarrow> rep (erase i q) (removeAll i xs)"
    and touch_rep: "rep q xs \<Longrightarrow> i < cap q \<Longrightarrow> rep (touch i q) (removeAll i xs @ [i])"
    and erase_cap: "cap (erase i q) = cap q"
    and touch_cap: "cap (touch i q) = cap q"
begin

lemma oldest_none_iff: "rep q xs \<Longrightarrow> oldest q = none \<longleftrightarrow> xs = []"
  using rep_bound cap_bound oldest_rep first_or_none_eq_none by metis

lemma oldest_Cons:
  assumes "rep q xs" and "oldest q \<noteq> none"
  obtains ys where "xs = oldest q # ys" and "oldest q < cap q" and "oldest q \<notin> set ys"
proof (cases xs)
  case Nil
  then show ?thesis using assms oldest_none_iff by blast
next
  case (Cons y ys)
  then show ?thesis
    using that assms(1) oldest_rep rep_bound rep_distinct by fastforce
qed

lemma erase_new: "rep q xs \<Longrightarrow> i < cap q \<Longrightarrow> i \<notin> set xs \<Longrightarrow> rep (erase i q) xs"
  using erase_rep by fastforce

lemma touch_new: "rep q xs \<Longrightarrow> i < cap q \<Longrightarrow> i \<notin> set xs \<Longrightarrow> rep (touch i q) (xs @ [i])"
  using touch_rep by fastforce

lemma erase_oldest: "rep q (x # xs) \<Longrightarrow> rep (erase x q) xs"
  using erase_rep [of q "x # xs" x] rep_bound [of q "x # xs"] rep_distinct [of q "x # xs"]
  by simp

text \<open>After any run of touches the queue is ordered by last touch.\<close>

lemma fold_touch_rep:
  "rep q xs \<Longrightarrow> set is \<subseteq> {..<cap q} \<Longrightarrow>
     rep (fold touch is q) (filter (\<lambda>x. x \<notin> set is) xs @ remdups is)"
proof (induction "is" arbitrary: q xs)
  case Nil
  then show ?case by simp
next
  case (Cons i "is")
  have "rep (touch i q) (removeAll i xs @ [i])" using Cons.prems touch_rep by simp
  then have "rep (fold touch is (touch i q))
      (filter (\<lambda>x. x \<notin> set is) (removeAll i xs @ [i]) @ remdups is)"
    using Cons.prems touch_cap by (intro Cons.IH) simp_all
  moreover have "filter (\<lambda>x. x \<notin> set is) (removeAll i xs) = filter (\<lambda>x. x \<noteq> i \<and> x \<notin> set is) xs"
    by (induction xs) auto
  ultimately show ?case by (cases "i \<in> set is") (simp_all add: conj_commute)
qed

end

interpretation lru: recency_queue lru_erase lru_touch lru_oldest "\<lambda>l. length (l_nodes l)" lru_rep
proof unfold_locales
  fix q xs i
  assume r: "lru_rep q xs"
  then show "distinct xs" "set xs \<subseteq> {..<length (l_nodes q)}" "length (l_nodes q) \<le> none"
    by (simp_all add: lru_rep_def)
  from r show "lru_oldest q = first_or_none xs" by (rule lru_oldest_rep)
  assume "i < length (l_nodes q)"
  with r show "lru_rep (lru_erase i q) (removeAll i xs)"
    and "lru_rep (lru_touch i q) (removeAll i xs @ [i])"
    by (simp_all add: lru_erase_rep lru_touch_rep)
qed simp_all

end
