(* ===== verification/Ref_Counting.thy ===== *)
theory Ref_Counting
  imports KV_Prelude
begin

text \<open>
  The interface between a pool of reference-counted blocks and the code that holds the
  references: \<open>BlockManager\<close> and its wrapper \<open>PhysicalBlockPool\<close> provide it; block tables,
  sequences and the whole-sequence operations of \<open>BlockManager\<close> rely on it. The locale
  states what each call does to the reference counts; what follows for the loops over
  several references (giving all of them back, taking all of them or none) is proved once.
\<close>

text \<open>
  Take a reference on every handle in turn; when one cannot be taken, give back those that
  were taken and pass the exception on.
\<close>

fun retain_all ::
  "('h \<Rightarrow> 's \<Rightarrow> unit res \<times> 's) \<Rightarrow> ('h \<Rightarrow> 's \<Rightarrow> unit res \<times> 's)
     \<Rightarrow> 'h list \<Rightarrow> 'h list \<Rightarrow> 's \<Rightarrow> unit res \<times> 's" where
  "retain_all retain free retained [] s = (Inr (), s)"
| "retain_all retain free retained (h # hs) s =
     (case retain h s of
        (Inr u, s1) \<Rightarrow> retain_all retain free (retained @ [h]) hs s1
      | (Inl e, s1) \<Rightarrow> and_then (for_each free retained s1) (\<lambda>_ s2. (Inl e, s2)))"

locale ref_counted =
  fixes inv :: "'s \<Rightarrow> bool"
    and refs :: "'s \<Rightarrow> 'h \<Rightarrow> nat"
    and live :: "'s \<Rightarrow> 'h \<Rightarrow> bool"
    and pub :: "'s \<Rightarrow> 'h \<Rightarrow> bool"
    and cfg :: "'s \<Rightarrow> 'c"
    and alloc :: "'s \<Rightarrow> 'h res \<times> 's"
    and retain :: "'h \<Rightarrow> 's \<Rightarrow> unit res \<times> 's"
    and free :: "'h \<Rightarrow> 's \<Rightarrow> unit res \<times> 's"
  assumes refs_le: "inv s \<Longrightarrow> refs s h \<le> size_max"
    and refs_live: "0 < refs s h \<Longrightarrow> live s h"
    and alloc_ok: "inv s \<Longrightarrow> alloc s = (Inr h, s') \<Longrightarrow>
      inv s' \<and> refs s h = 0 \<and> refs s' = (refs s)(h := 1) \<and> \<not> pub s' h \<and> cfg s' = cfg s"
    and alloc_pub: "inv s \<Longrightarrow> alloc s = (Inr h, s') \<Longrightarrow> 0 < refs s g \<Longrightarrow> pub s' g = pub s g"
    and alloc_err: "inv s \<Longrightarrow> alloc s = (Inl e, s') \<Longrightarrow> s' = s"
    and retain_ok: "inv s \<Longrightarrow> retain h s = (Inr (), s') \<Longrightarrow>
      inv s' \<and> refs s' = (refs s)(h := refs s h + 1) \<and> cfg s' = cfg s"
    and retain_pub: "inv s \<Longrightarrow> retain h s = (Inr (), s') \<Longrightarrow> pub s' g = pub s g"
    and retain_total: "inv s \<Longrightarrow> live s h \<Longrightarrow> refs s h < size_max \<Longrightarrow>
      \<exists>s'. retain h s = (Inr (), s')"
    and retain_live: "inv s \<Longrightarrow> retain h s = (Inr (), s') \<Longrightarrow> live s h \<and> (live s g \<longrightarrow> live s' g)"
    and retain_err: "inv s \<Longrightarrow> retain h s = (Inl e, s') \<Longrightarrow> s' = s"
    and free_ok: "inv s \<Longrightarrow> free h s = (Inr (), s') \<Longrightarrow>
      inv s' \<and> refs s' = (refs s)(h := refs s h - 1) \<and> cfg s' = cfg s"
    and free_pub: "inv s \<Longrightarrow> free h s = (Inr (), s') \<Longrightarrow> pub s' g = pub s g"
    and free_total: "inv s \<Longrightarrow> 0 < refs s h \<Longrightarrow> \<exists>s'. free h s = (Inr (), s')"
begin

text \<open>Giving back references one holds always succeeds.\<close>

lemma free_all_ex:
  assumes "inv s" and "\<And>h. count_list hs h \<le> refs s h"
  shows "\<exists>s'. for_each free hs s = (Inr (), s') \<and> inv s' \<and> cfg s' = cfg s \<and>
           refs s' = (\<lambda>h. refs s h - count_list hs h) \<and> (\<forall>h. pub s' h = pub s h)"
  using assms
proof (induction hs arbitrary: s)
  case Nil
  then show ?case by simp
next
  case (Cons y ys)
  have "0 < refs s y" using Cons.prems(2) [of y] by simp
  then obtain t where t: "free y s = (Inr (), t)" using free_total Cons.prems(1) by blast
  note ok = free_ok [OF Cons.prems(1) t] free_pub [OF Cons.prems(1) t]
  have le: "count_list ys h \<le> refs t h" for h
    using Cons.prems(2) [of h] ok by (auto split: if_splits)
  obtain s' where "for_each free ys t = (Inr (), s')" "inv s'" "cfg s' = cfg t"
      "refs s' = (\<lambda>h. refs t h - count_list ys h)" "\<forall>h. pub s' h = pub t h"
    using Cons.IH [of t] ok le by blast
  then show ?case using t ok by (auto simp: fun_eq_iff)
qed

lemma free_all:
  assumes "inv s" and "\<And>h. count_list hs h \<le> refs s h"
  obtains s' where "for_each free hs s = (Inr (), s')" and "inv s'" and "cfg s' = cfg s"
    and "refs s' = (\<lambda>h. refs s h - count_list hs h)" and "\<And>h. pub s' h = pub s h"
  using free_all_ex [OF assms] by blast

text \<open>Taking references: all of them, or none.\<close>

lemma retain_all_ok:
  assumes "inv s" and "retain_all retain free retained hs s = (Inr (), s')"
  shows "inv s' \<and> cfg s' = cfg s \<and> refs s' = (\<lambda>h. refs s h + count_list hs h) \<and>
         (\<forall>h. pub s' h = pub s h)"
  using assms
proof (induction hs arbitrary: s retained)
  case Nil
  then show ?case by simp
next
  case (Cons y ys)
  from Cons.prems(2) obtain t where t: "retain y s = (Inr (), t)"
    and rest: "retain_all retain free (retained @ [y]) ys t = (Inr (), s')"
    by (auto split: prod.splits sum.splits simp: and_then_Inr_iff)
  note ok = retain_ok [OF Cons.prems(1) t] retain_pub [OF Cons.prems(1) t]
  show ?case using Cons.IH [OF _ rest] ok by (auto simp: fun_eq_iff)
qed

lemma retain_all_err:
  assumes "inv s" and "\<And>h. count_list retained h \<le> refs s h"
    and "retain_all retain free retained hs s = (Inl e, s')"
  shows "inv s' \<and> cfg s' = cfg s \<and> refs s' = (\<lambda>h. refs s h - count_list retained h) \<and>
         (\<forall>h. pub s' h = pub s h)"
  using assms
proof (induction hs arbitrary: s retained)
  case Nil
  then show ?case by simp
next
  case (Cons y ys)
  show ?case
  proof (cases "retain y s")
    case (Pair r t)
    show ?thesis
    proof (cases r)
      case (Inl e')
      then have "t = s" using retain_err Pair Cons.prems(1) by blast
      obtain s2 where s2: "for_each free retained s = (Inr (), s2)" "inv s2" "cfg s2 = cfg s"
        "refs s2 = (\<lambda>h. refs s h - count_list retained h)" "\<And>h. pub s2 h = pub s h"
        using free_all [OF Cons.prems(1,2)] by blast
      then show ?thesis using Cons.prems(3) Pair Inl \<open>t = s\<close> by simp
    next
      case (Inr u)
      then have t: "retain y s = (Inr (), t)" using Pair by simp
      note ok = retain_ok [OF Cons.prems(1) t] retain_pub [OF Cons.prems(1) t]
      have le: "count_list (retained @ [y]) h \<le> refs t h" for h
        using Cons.prems(2) [of h] ok by (cases "h = y") auto
      have "retain_all retain free (retained @ [y]) ys t = (Inl e, s')" using Cons.prems(3) t by simp
      then show ?thesis using Cons.IH [OF _ le] ok by (auto simp: fun_eq_iff)
    qed
  qed
qed

lemma retain_all_total:
  assumes "inv s" and "\<And>h. h \<in> set hs \<Longrightarrow> live s h \<and> refs s h + count_list hs h \<le> size_max"
  shows "\<exists>s'. retain_all retain free retained hs s = (Inr (), s')"
  using assms
proof (induction hs arbitrary: s retained)
  case Nil
  then show ?case by simp
next
  case (Cons y ys)
  have "live s y" "refs s y < size_max" using Cons.prems(2) [of y] by auto
  then obtain t where t: "retain y s = (Inr (), t)" using retain_total Cons.prems(1) by blast
  note ok = retain_ok [OF Cons.prems(1) t] retain_live [OF Cons.prems(1) t]
  have "live t h \<and> refs t h + count_list ys h \<le> size_max" if "h \<in> set ys" for h
    using Cons.prems(2) [of h] ok that by (auto split: if_splits)
  then show ?case using Cons.IH [of t] ok t by simp
qed

end

end
