(* ===== verification/Block_Manager.thy ===== *)
theory Block_Manager
  imports Index_Lru Ref_Counting
begin

text \<open>
  \<open>include/kvflux/block_manager.h\<close>, \<open>src/block_manager.cpp\<close>: the slot pool of v0 with its
  free list, reference counts, generations, prefix index and idle (LRU) cache. First the
  definitions in the order of the source, then the representation invariant \<open>bm_rep\<close>, then
  one group of lemmas per operation.
\<close>

unbundle bit_operations_syntax

section \<open>Data\<close>

type_synonym token = "32 word"
type_synonym tokens = "token list"

record block_handle =
  h_id :: nat
  h_generation :: nat

record block_table =
  t_blocks :: "block_handle list"
  t_token_count :: nat

record slot =
  s_generation :: nat
  s_refs :: nat
  s_free :: bool
  s_cached :: bool
  s_prefix :: tokens
  s_hash :: u64
  s_next_free :: nat

record bm_stats_t =
  st_capacity :: nat
  st_free :: nat
  st_active :: nat
  st_cached_idle :: nat

record block_manager =
  bm_slots :: "slot list"
  bm_block_size :: nat
  bm_hasher :: "tokens \<Rightarrow> u64"
  bm_free_head :: nat
  bm_idle_lru :: index_lru
  bm_index :: "u64 \<rightharpoonup> nat list"

definition fresh_slot :: slot where
  "fresh_slot = \<lparr>s_generation = 0, s_refs = 0, s_free = True, s_cached = False,
                 s_prefix = [], s_hash = 0, s_next_free = none\<rparr>"

section \<open>The prefix hash\<close>

text \<open>
  One round per byte of the token, lowest byte first. A token is a \<open>std::int32_t\<close>; the code
  casts it to \<open>std::uint32_t\<close>, which keeps its 32 bits.
\<close>

definition hash_round :: "token \<Rightarrow> u64 \<Rightarrow> nat \<Rightarrow> u64" where
  "hash_round value h byte =
     (h XOR ucast (drop_bit (byte * 8) value AND 0xff)) * 1099511628211"

definition hash_token :: "u64 \<Rightarrow> token \<Rightarrow> u64" where
  "hash_token h value = foldl (hash_round value) h [0, 1, 2, 3]"

definition prefix_hash :: "tokens \<Rightarrow> u64" where
  "prefix_hash prefix = foldl hash_token 14695981039346656037 prefix"

section \<open>Construction and handle checks\<close>

text \<open>
  The hasher is a \<open>std::function\<close>; an empty one is \<open>None\<close>. The free list initially runs
  through all slots in order.
\<close>

definition bm_create :: "nat \<Rightarrow> nat \<Rightarrow> (tokens \<Rightarrow> u64) option \<Rightarrow> block_manager res" where
  "bm_create capacity block_size hasher =
     (case hasher of
        None \<Rightarrow> Inl InvalidArgument
      | Some f \<Rightarrow>
          if capacity = 0 \<or> block_size = 0 then Inl InvalidArgument
          else Inr \<lparr>bm_slots = map (\<lambda>i. fresh_slot\<lparr>s_next_free :=
                                  (if i + 1 < capacity then i + 1 else none)\<rparr>) [0..<capacity],
                    bm_block_size = block_size, bm_hasher = f, bm_free_head = 0,
                    bm_idle_lru = lru_create capacity, bm_index = Map.empty\<rparr>)"

definition bm_capacity :: "block_manager \<Rightarrow> nat" where
  "bm_capacity s = length (bm_slots s)"

definition bm_checked :: "block_handle \<Rightarrow> block_manager \<Rightarrow> slot res" where
  "bm_checked h s =
     (if h_id h \<ge> length (bm_slots s) \<or> s_free (bm_slots s ! h_id h) \<or>
         s_generation (bm_slots s ! h_id h) \<noteq> h_generation h
      then Inl InvalidArgument
      else Inr (bm_slots s ! h_id h))"

definition bm_unlink_idle :: "nat \<Rightarrow> block_manager \<Rightarrow> block_manager" where
  "bm_unlink_idle i s = s\<lparr>bm_idle_lru := lru_erase i (bm_idle_lru s)\<rparr>"

definition bm_append_idle :: "nat \<Rightarrow> block_manager \<Rightarrow> block_manager" where
  "bm_append_idle i s = s\<lparr>bm_idle_lru := lru_touch i (bm_idle_lru s)\<rparr>"

definition bm_put :: "nat \<Rightarrow> slot \<Rightarrow> block_manager \<Rightarrow> block_manager" where
  "bm_put i sl s = s\<lparr>bm_slots := (bm_slots s)[i := sl]\<rparr>"

text \<open>
  The code dereferences \<open>index_.find(s.hash)\<close> and erases the position \<open>std::find\<close> returns
  without comparing either with \<open>end()\<close>.
\<close>

definition bm_erase_cache :: "nat \<Rightarrow> block_manager \<Rightarrow> unit res \<times> block_manager" where
  "bm_erase_cache i s =
     (let sl = bm_slots s ! i in
      case bm_index s (s_hash sl) of
        None \<Rightarrow> (Inl Undefined, s)
      | Some bucket \<Rightarrow>
          if i \<notin> set bucket then (Inl Undefined, s)
          else
            let bucket' = remove1 i bucket;
                index' = (if bucket' = [] then (bm_index s)(s_hash sl := None)
                          else (bm_index s)(s_hash sl \<mapsto> bucket'))
            in (Inr (), bm_put i (sl\<lparr>s_cached := False, s_prefix := []\<rparr>) (s\<lparr>bm_index := index'\<rparr>)))"

section \<open>Allocation, retain, release\<close>

definition bm_allocate :: "block_manager \<Rightarrow> block_handle res \<times> block_manager" where
  "bm_allocate s =
     (let i = (if bm_free_head s \<noteq> none then bm_free_head s else lru_oldest (bm_idle_lru s)) in
      if i = none then (Inl CapacityError, s)
      else if i \<ge> length (bm_slots s) then (Inl Undefined, s)
      else
        let sl = bm_slots s ! i in
        if s_generation sl = u64_max then (Inl OverflowError, s)
        else
          and_then
            (if s_free sl
             then (Inr (), bm_put i (sl\<lparr>s_next_free := none\<rparr>) (s\<lparr>bm_free_head := s_next_free sl\<rparr>))
             else bm_erase_cache i (bm_unlink_idle i s))
            (\<lambda>_ s1.
               let sl1 = (bm_slots s1 ! i)\<lparr>s_free := False, s_refs := 1,
                          s_generation := s_generation (bm_slots s1 ! i) + 1\<rparr>
               in (Inr \<lparr>h_id = i, h_generation = s_generation sl1\<rparr>, bm_put i sl1 s1)))"

definition bm_retain :: "block_handle \<Rightarrow> block_manager \<Rightarrow> unit res \<times> block_manager" where
  "bm_retain h s =
     (case bm_checked h s of
        Inl e \<Rightarrow> (Inl e, s)
      | Inr sl \<Rightarrow>
          if s_refs sl = size_max then (Inl OverflowError, s)
          else
            let s1 = (if s_refs sl = 0 then bm_unlink_idle (h_id h) s else s)
            in (Inr (), bm_put (h_id h) (sl\<lparr>s_refs := s_refs sl + 1\<rparr>) s1))"

definition bm_release :: "block_handle \<Rightarrow> block_manager \<Rightarrow> unit res \<times> block_manager" where
  "bm_release h s =
     (case bm_checked h s of
        Inl e \<Rightarrow> (Inl e, s)
      | Inr sl \<Rightarrow>
          if s_refs sl = 0 then (Inl InvalidArgument, s)
          else
            let sl1 = sl\<lparr>s_refs := s_refs sl - 1\<rparr>;
                s1 = bm_put (h_id h) sl1 s
            in if s_refs sl1 \<noteq> 0 then (Inr (), s1)
               else if s_cached sl1 then (Inr (), bm_append_idle (h_id h) s1)
               else (Inr (), (bm_put (h_id h) (sl1\<lparr>s_free := True, s_next_free := bm_free_head s1\<rparr>) s1)
                               \<lparr>bm_free_head := h_id h\<rparr>))"

definition bm_ref_count :: "block_handle \<Rightarrow> block_manager \<Rightarrow> nat res" where
  "bm_ref_count h s = (case bm_checked h s of Inl e \<Rightarrow> Inl e | Inr sl \<Rightarrow> Inr (s_refs sl))"

definition bm_is_published :: "block_handle \<Rightarrow> block_manager \<Rightarrow> bool res" where
  "bm_is_published h s = (case bm_checked h s of Inl e \<Rightarrow> Inl e | Inr sl \<Rightarrow> Inr (s_cached sl))"

section \<open>The prefix cache\<close>

text \<open>The slots of one bucket, in publication order; an absent bucket is empty.\<close>

definition bm_bucket :: "u64 \<Rightarrow> block_manager \<Rightarrow> nat list" where
  "bm_bucket hash s = (case bm_index s hash of None \<Rightarrow> [] | Some ids \<Rightarrow> ids)"

text \<open>The scan of a bucket for an exactly equal prefix.\<close>

definition bm_scan :: "tokens \<Rightarrow> block_manager \<Rightarrow> nat option" where
  "bm_scan prefix s =
     List.find (\<lambda>i. s_prefix (bm_slots s ! i) = prefix) (bm_bucket (bm_hasher s prefix) s)"

text \<open>
  The \<open>catch\<close> of the code erases the new, empty bucket again when \<open>push_back\<close> cannot get
  memory, so that the failed call changes nothing; host allocation failure is not modelled here.
\<close>

definition bm_publish :: "block_handle \<Rightarrow> tokens \<Rightarrow> block_manager \<Rightarrow> unit res \<times> block_manager" where
  "bm_publish h prefix s =
     (case bm_checked h s of
        Inl e \<Rightarrow> (Inl e, s)
      | Inr sl \<Rightarrow>
          if s_refs sl \<noteq> 1 \<or> s_cached sl \<or> prefix = [] \<or> length prefix mod bm_block_size s \<noteq> 0
          then (Inl InvalidArgument, s)
          else if bm_scan prefix s \<noteq> None then (Inl InvalidArgument, s)
          else
            let hash = bm_hasher s prefix;
                index' = (bm_index s)(hash \<mapsto> bm_bucket hash s @ [h_id h])
            in (Inr (), bm_put (h_id h) (sl\<lparr>s_prefix := prefix, s_hash := hash, s_cached := True\<rparr>)
                          (s\<lparr>bm_index := index'\<rparr>)))"

text \<open>\<open>Some h\<close> is the return value \<open>true\<close> with the out-parameter set to \<open>h\<close>.\<close>

definition bm_lookup :: "tokens \<Rightarrow> block_manager \<Rightarrow> block_handle option res \<times> block_manager" where
  "bm_lookup prefix s =
     (if prefix = [] \<or> length prefix mod bm_block_size s \<noteq> 0 then (Inr None, s)
      else
        case bm_scan prefix s of
          None \<Rightarrow> (Inr None, s)
        | Some i \<Rightarrow>
            let h = \<lparr>h_id = i, h_generation = s_generation (bm_slots s ! i)\<rparr>
            in and_then (bm_retain h s) (\<lambda>_ s1. (Inr (Some h), s1)))"

section \<open>Whole sequences\<close>

text \<open>
  One turn of the loop of \<open>acquire\<close> finds or allocates the block for the tokens up to and
  including the next chunk. \<open>blocks\<close> is \<open>table.blocks\<close>, which the handler needs.
\<close>

definition bm_acquire_block ::
  "bool \<Rightarrow> tokens \<Rightarrow> block_handle list \<Rightarrow> block_manager
     \<Rightarrow> (exn + unit) \<times> block_handle list \<times> block_manager" where
  "bm_acquire_block full prefix blocks s =
     (let allocate_new = (\<lambda>s1.
            case bm_allocate s1 of
              (Inl e, s2) \<Rightarrow> (Inl e, blocks, s2)
            | (Inr h, s2) \<Rightarrow>
                if full
                then (case bm_publish h prefix s2 of (r, s3) \<Rightarrow> (r, blocks @ [h], s3))
                else (Inr (), blocks @ [h], s2))
      in if full
         then (case bm_lookup prefix s of
                 (Inl e, s1) \<Rightarrow> (Inl e, blocks, s1)
               | (Inr (Some h), s1) \<Rightarrow> (Inr (), blocks @ [h], s1)
               | (Inr None, s1) \<Rightarrow> allocate_new s1)
         else allocate_new s)"

text \<open>
  The loop itself. \<open>rest\<close> are the tokens from \<open>offset\<close> on. With a block size of 0, which the
  constructor rejects, the C++ loop would not end; the model calls that \<open>Undefined\<close>.
\<close>

function bm_acquire_loop ::
  "tokens \<Rightarrow> tokens \<Rightarrow> block_handle list \<Rightarrow> block_manager
     \<Rightarrow> (exn + unit) \<times> block_handle list \<times> block_manager" where
  "bm_acquire_loop rest prefix blocks s =
     (if rest = [] then (Inr (), blocks, s)
      else if bm_block_size s = 0 then (Inl Undefined, blocks, s)
      else
        let count = min (bm_block_size s) (length rest);
            prefix' = prefix @ take count rest
        in case bm_acquire_block (count = bm_block_size s) prefix' blocks s of
             (Inl e, blocks', s') \<Rightarrow> (Inl e, blocks', s')
           | (Inr u, blocks', s') \<Rightarrow> bm_acquire_loop (drop count rest) prefix' blocks' s')"
  by pat_completeness auto
termination
  by (relation "measure (\<lambda>(rest, prefix, blocks, s). length rest)") auto

declare bm_acquire_loop.simps [simp del]

definition bm_acquire :: "tokens \<Rightarrow> block_manager \<Rightarrow> block_table res \<times> block_manager" where
  "bm_acquire toks s =
     (case bm_acquire_loop toks [] [] s of
        (Inr u, blocks, s1) \<Rightarrow> (Inr \<lparr>t_blocks = blocks, t_token_count = length toks\<rparr>, s1)
      | (Inl e, blocks, s1) \<Rightarrow> and_then (for_each bm_release blocks s1) (\<lambda>_ s2. (Inl e, s2)))"

text \<open>\<open>validate\<close> examines block \<open>i\<close> against the blocks before it.\<close>

fun bm_validate_blocks ::
  "block_handle list \<Rightarrow> block_handle list \<Rightarrow> block_manager \<Rightarrow> unit res" where
  "bm_validate_blocks before [] s = Inr ()"
| "bm_validate_blocks before (h # hs) s =
     (case bm_checked h s of
        Inl e \<Rightarrow> Inl e
      | Inr sl \<Rightarrow>
          if s_refs sl = 0 then Inl InvalidArgument
          else if h \<in> set before then Inl InvalidArgument
          else bm_validate_blocks (before @ [h]) hs s)"

definition bm_validate :: "block_table \<Rightarrow> block_manager \<Rightarrow> unit res" where
  "bm_validate table s =
     (if ceil_blocks (t_token_count table) (bm_block_size s) \<noteq> length (t_blocks table)
      then Inl InvalidArgument
      else bm_validate_blocks [] (t_blocks table) s)"

text \<open>
  \<open>share\<close> retains the blocks one by one and gives back the retained ones when it fails.
\<close>

definition bm_share :: "block_table \<Rightarrow> block_manager \<Rightarrow> block_table res \<times> block_manager" where
  "bm_share table s =
     (case bm_validate table s of
        Inl e \<Rightarrow> (Inl e, s)
      | Inr u \<Rightarrow> and_then (retain_all bm_retain bm_release [] (t_blocks table) s) (\<lambda>_ s1. (Inr table, s1)))"

text \<open>\<open>release(BlockTable&)\<close> returns the emptied table.\<close>

definition bm_release_table :: "block_table \<Rightarrow> block_manager \<Rightarrow> block_table res \<times> block_manager" where
  "bm_release_table table s =
     (case bm_validate table s of
        Inl e \<Rightarrow> (Inl e, s)
      | Inr u \<Rightarrow> and_then (for_each bm_release (t_blocks table) s)
                   (\<lambda>_ s1. (Inr \<lparr>t_blocks = [], t_token_count = 0\<rparr>, s1)))"

definition bm_block_at :: "block_table \<Rightarrow> nat \<Rightarrow> block_manager \<Rightarrow> block_handle res" where
  "bm_block_at table token_index s =
     (if token_index \<ge> t_token_count table then Inl OutOfRange
      else if token_index div bm_block_size s \<ge> length (t_blocks table) then Inl OutOfRange
      else
        let h = t_blocks table ! (token_index div bm_block_size s)
        in case bm_checked h s of
             Inl e \<Rightarrow> Inl e
           | Inr sl \<Rightarrow> if s_refs sl = 0 then Inl InvalidArgument else Inr h)"

definition bm_stats :: "block_manager \<Rightarrow> bm_stats_t" where
  "bm_stats s =
     foldl (\<lambda>r sl. if s_free sl then r\<lparr>st_free := st_free r + 1\<rparr>
                   else if s_refs sl \<noteq> 0 then r\<lparr>st_active := st_active r + 1\<rparr>
                   else r\<lparr>st_cached_idle := st_cached_idle r + 1\<rparr>)
       \<lparr>st_capacity = length (bm_slots s), st_free = 0, st_active = 0, st_cached_idle = 0\<rparr>
       (bm_slots s)"

section \<open>The representation invariant\<close>

text \<open>
  \<open>fl\<close> is the free list and \<open>il\<close> the idle queue, oldest first. Every slot is free (on the
  free list), idle (unreferenced but cached, on the queue) or active. The index holds
  exactly the cached slots, each in the bucket of its hash, and no two of them share a
  prefix.
\<close>

fun free_chain :: "slot list \<Rightarrow> nat \<Rightarrow> nat list \<Rightarrow> bool" where
  "free_chain sl h [] \<longleftrightarrow> h = none"
| "free_chain sl h (x # xs) \<longleftrightarrow> h = x \<and> x < length sl \<and> free_chain sl (s_next_free (sl ! x)) xs"

definition slot_ok :: "nat \<Rightarrow> (tokens \<Rightarrow> u64) \<Rightarrow> slot \<Rightarrow> bool" where
  "slot_ok bs f x \<longleftrightarrow>
     (s_free x \<longrightarrow> \<not> s_cached x \<and> s_refs x = 0) \<and>
     (\<not> s_free x \<and> s_refs x = 0 \<longrightarrow> s_cached x) \<and>
     s_refs x \<le> size_max \<and> s_generation x \<le> u64_max \<and>
     (s_cached x \<longrightarrow> s_prefix x \<noteq> [] \<and> length (s_prefix x) mod bs = 0 \<and> s_hash x = f (s_prefix x))"

definition free_ok :: "slot list \<Rightarrow> nat \<Rightarrow> nat list \<Rightarrow> bool" where
  "free_ok sl h fl \<longleftrightarrow>
     free_chain sl h fl \<and> distinct fl \<and> set fl = {i. i < length sl \<and> s_free (sl ! i)}"

definition idle_ok :: "slot list \<Rightarrow> index_lru \<Rightarrow> nat list \<Rightarrow> bool" where
  "idle_ok sl l il \<longleftrightarrow>
     lru_rep l il \<and> length (l_nodes l) = length sl \<and>
     set il = {i. i < length sl \<and> \<not> s_free (sl ! i) \<and> s_refs (sl ! i) = 0}"

definition index_ok :: "slot list \<Rightarrow> (u64 \<rightharpoonup> nat list) \<Rightarrow> bool" where
  "index_ok sl idx \<longleftrightarrow>
     (\<forall>h ids. idx h = Some ids \<longrightarrow>
        ids \<noteq> [] \<and> distinct ids \<and>
        (\<forall>i \<in> set ids. i < length sl \<and> s_cached (sl ! i) \<and> s_hash (sl ! i) = h)) \<and>
     (\<forall>i < length sl. s_cached (sl ! i) \<longrightarrow>
        (\<exists>ids. idx (s_hash (sl ! i)) = Some ids \<and> i \<in> set ids)) \<and>
     (\<forall>i < length sl. \<forall>j < length sl. s_cached (sl ! i) \<longrightarrow> s_cached (sl ! j) \<longrightarrow>
        s_prefix (sl ! i) = s_prefix (sl ! j) \<longrightarrow> i = j)"

definition bm_rep :: "block_manager \<Rightarrow> nat list \<Rightarrow> nat list \<Rightarrow> bool" where
  "bm_rep s fl il \<longleftrightarrow>
     0 < length (bm_slots s) \<and> length (bm_slots s) \<le> none \<and> 0 < bm_block_size s \<and>
     (\<forall>x \<in> set (bm_slots s). slot_ok (bm_block_size s) (bm_hasher s) x) \<and>
     free_ok (bm_slots s) (bm_free_head s) fl \<and>
     idle_ok (bm_slots s) (bm_idle_lru s) il \<and>
     index_ok (bm_slots s) (bm_index s)"

definition bm_inv :: "block_manager \<Rightarrow> bool" where
  "bm_inv s \<longleftrightarrow> (\<exists>fl il. bm_rep s fl il)"

lemma bm_repD:
  assumes "bm_rep s fl il"
  shows "0 < length (bm_slots s)" "length (bm_slots s) \<le> none" "0 < bm_block_size s"
    "free_ok (bm_slots s) (bm_free_head s) fl" "idle_ok (bm_slots s) (bm_idle_lru s) il"
    "index_ok (bm_slots s) (bm_index s)"
    "i < length (bm_slots s) \<Longrightarrow> slot_ok (bm_block_size s) (bm_hasher s) (bm_slots s ! i)"
  using assms by (auto simp: bm_rep_def)

lemma bm_put_simps [simp]:
  "bm_slots (bm_put i x s) = (bm_slots s)[i := x]"
  "bm_block_size (bm_put i x s) = bm_block_size s"
  "bm_hasher (bm_put i x s) = bm_hasher s"
  "bm_free_head (bm_put i x s) = bm_free_head s"
  "bm_idle_lru (bm_put i x s) = bm_idle_lru s"
  "bm_index (bm_put i x s) = bm_index s"
  by (simp_all add: bm_put_def)

lemma bm_idle_simps [simp]:
  "bm_slots (bm_unlink_idle i s) = bm_slots s" "bm_slots (bm_append_idle i s) = bm_slots s"
  "bm_block_size (bm_unlink_idle i s) = bm_block_size s"
  "bm_block_size (bm_append_idle i s) = bm_block_size s"
  "bm_hasher (bm_unlink_idle i s) = bm_hasher s" "bm_hasher (bm_append_idle i s) = bm_hasher s"
  "bm_free_head (bm_unlink_idle i s) = bm_free_head s"
  "bm_free_head (bm_append_idle i s) = bm_free_head s"
  "bm_idle_lru (bm_unlink_idle i s) = lru_erase i (bm_idle_lru s)"
  "bm_idle_lru (bm_append_idle i s) = lru_touch i (bm_idle_lru s)"
  "bm_index (bm_unlink_idle i s) = bm_index s" "bm_index (bm_append_idle i s) = bm_index s"
  by (simp_all add: bm_unlink_idle_def bm_append_idle_def)

subsection \<open>Writing one slot\<close>

lemma free_chain_update_other: "i \<notin> set fl \<Longrightarrow> free_chain (sl[i := x]) h fl = free_chain sl h fl"
  by (induction sl h fl rule: free_chain.induct) auto

lemma free_ok_update:
  assumes "free_ok sl h fl" and "i < length sl" and "\<not> s_free (sl ! i)" and "\<not> s_free x"
  shows "free_ok (sl[i := x]) h fl"
proof -
  have "i \<notin> set fl" using assms by (auto simp: free_ok_def)
  moreover have "{j. j < length (sl[i := x]) \<and> s_free (sl[i := x] ! j)} = {j. j < length sl \<and> s_free (sl ! j)}"
    using assms by (auto simp: nth_list_update)
  ultimately show ?thesis using assms(1) by (simp add: free_ok_def free_chain_update_other)
qed

lemma free_ok_pop:
  assumes "free_ok sl h (i # fl)" and "\<not> s_free x"
  shows "free_ok (sl[i := x]) (s_next_free (sl ! i)) fl"
proof -
  have "i \<notin> set fl" "i < length sl" using assms by (auto simp: free_ok_def)
  moreover have "{j. j < length (sl[i := x]) \<and> s_free (sl[i := x] ! j)}
      = {j. j < length sl \<and> s_free (sl ! j)} - {i}"
    using assms \<open>i < length sl\<close> by (auto simp: nth_list_update split: if_splits)
  moreover have "set fl = {j. j < length sl \<and> s_free (sl ! j)} - {i}"
    using assms(1) \<open>i \<notin> set fl\<close> by (auto simp: free_ok_def)
  ultimately show ?thesis using assms(1) by (simp add: free_ok_def free_chain_update_other)
qed

lemma free_ok_push:
  assumes "free_ok sl h fl" and "i < length sl" and "\<not> s_free (sl ! i)"
    and "s_free x" and "s_next_free x = h"
  shows "free_ok (sl[i := x]) i (i # fl)"
proof -
  have "i \<notin> set fl" using assms by (auto simp: free_ok_def)
  moreover have "{j. j < length (sl[i := x]) \<and> s_free (sl[i := x] ! j)}
      = insert i {j. j < length sl \<and> s_free (sl ! j)}"
    using assms by (auto simp: nth_list_update split: if_splits)
  ultimately show ?thesis using assms by (simp add: free_ok_def free_chain_update_other)
qed

lemma idle_ok_update:
  assumes "idle_ok sl l il" and "i < length sl"
    and "(\<not> s_free x \<and> s_refs x = 0) = (\<not> s_free (sl ! i) \<and> s_refs (sl ! i) = 0)"
  shows "idle_ok (sl[i := x]) l il"
proof -
  have "(\<not> s_free (sl[i := x] ! j) \<and> s_refs (sl[i := x] ! j) = 0) =
        (\<not> s_free (sl ! j) \<and> s_refs (sl ! j) = 0)" for j
    using assms(2,3) by (cases "i = j") auto
  then show ?thesis using assms(1) by (simp add: idle_ok_def)
qed

lemma idle_ok_erase:
  assumes "idle_ok sl l il" and "i < length sl" and "s_free x \<or> s_refs x \<noteq> 0"
  shows "idle_ok (sl[i := x]) (lru_erase i l) (removeAll i il)"
proof -
  have "{j. j < length (sl[i := x]) \<and> \<not> s_free (sl[i := x] ! j) \<and> s_refs (sl[i := x] ! j) = 0}
      = {j. j < length sl \<and> \<not> s_free (sl ! j) \<and> s_refs (sl ! j) = 0} - {i}"
    using assms(2,3) by (auto simp: nth_list_update split: if_splits)
  then show ?thesis using assms(1,2) by (simp add: idle_ok_def lru.erase_rep)
qed

lemma idle_ok_touch:
  assumes "idle_ok sl l il" and "i < length sl" and "s_free (sl ! i) \<or> s_refs (sl ! i) \<noteq> 0"
    and "\<not> s_free x" and "s_refs x = 0"
  shows "idle_ok (sl[i := x]) (lru_touch i l) (il @ [i])"
proof -
  have "{j. j < length (sl[i := x]) \<and> \<not> s_free (sl[i := x] ! j) \<and> s_refs (sl[i := x] ! j) = 0}
      = insert i {j. j < length sl \<and> \<not> s_free (sl ! j) \<and> s_refs (sl ! j) = 0}"
    using assms(2,4,5) by (auto simp: nth_list_update split: if_splits)
  moreover have "i \<notin> set il" using assms(1,3) by (auto simp: idle_ok_def)
  ultimately show ?thesis using assms(1,2) by (simp add: idle_ok_def lru.touch_new)
qed

subsection \<open>The index\<close>

lemma index_okD:
  assumes "index_ok sl idx"
  shows "idx h = Some ids \<Longrightarrow> i \<in> set ids \<Longrightarrow> i < length sl \<and> s_cached (sl ! i) \<and> s_hash (sl ! i) = h"
    and "i < length sl \<Longrightarrow> s_cached (sl ! i) \<Longrightarrow> \<exists>ids. idx (s_hash (sl ! i)) = Some ids \<and> i \<in> set ids"
    and "i < length sl \<Longrightarrow> j < length sl \<Longrightarrow> s_cached (sl ! i) \<Longrightarrow> s_cached (sl ! j) \<Longrightarrow>
           s_prefix (sl ! i) = s_prefix (sl ! j) \<Longrightarrow> i = j"
    and "idx h = Some ids \<Longrightarrow> ids \<noteq> [] \<and> distinct ids"
  using assms unfolding index_ok_def by blast+

lemma index_ok_update:
  assumes "index_ok sl idx" and "s_cached x = s_cached (sl ! i)"
    and "s_cached x \<Longrightarrow> s_hash x = s_hash (sl ! i) \<and> s_prefix x = s_prefix (sl ! i)"
  shows "index_ok (sl[i := x]) idx"
proof (cases "i < length sl")
  case True
  have c: "s_cached (sl[i := x] ! j) = s_cached (sl ! j)" for j
    using True assms(2) by (cases "i = j") auto
  have h: "s_hash (sl[i := x] ! j) = s_hash (sl ! j)" and p: "s_prefix (sl[i := x] ! j) = s_prefix (sl ! j)"
    if "s_cached (sl ! j)" for j
    using True assms(2,3) that by (cases "i = j"; simp)+
  note d = index_okD [OF assms(1)]
  show ?thesis unfolding index_ok_def length_list_update c
  proof (intro conjI allI impI ballI)
    fix k ids j assume ids: "idx k = Some ids"
    show "ids \<noteq> []" and "distinct ids" using d(4) ids by blast+
    assume "j \<in> set ids"
    then have "j < length sl \<and> s_cached (sl ! j) \<and> s_hash (sl ! j) = k" using d(1) ids by blast
    then show "j < length sl" "s_cached (sl ! j)" "s_hash (sl[i := x] ! j) = k" using h by auto
  next
    fix j assume "j < length sl" "s_cached (sl ! j)"
    then show "\<exists>ids. idx (s_hash (sl[i := x] ! j)) = Some ids \<and> j \<in> set ids" using d(2) h by simp
  next
    fix j k assume "j < length sl" "k < length sl" "s_cached (sl ! j)" "s_cached (sl ! k)"
      "s_prefix (sl[i := x] ! j) = s_prefix (sl[i := x] ! k)"
    then show "j = k" using d(3) p by simp
  qed
next
  case False
  then show ?thesis using assms(1) by (simp add: list_update_beyond)
qed

lemma index_ok_remove:
  assumes ok: "index_ok sl idx" and i: "i < length sl" "s_cached (sl ! i)" and x: "\<not> s_cached x"
    and bucket: "idx (s_hash (sl ! i)) = Some bucket"
  shows "index_ok (sl[i := x])
           (if remove1 i bucket = [] then idx(s_hash (sl ! i) := None)
            else idx(s_hash (sl ! i) \<mapsto> remove1 i bucket))"
    (is "index_ok ?sl ?idx")
proof -
  note d = index_okD [OF ok]
  have dist: "distinct bucket" using d(4) bucket by blast
  have sl: "?sl ! j = (if j = i then x else sl ! j)" for j using i(1) by auto
  have mem: "?idx h = Some ids \<Longrightarrow> ids \<noteq> [] \<and> distinct ids \<and>
      (\<exists>ids0. idx h = Some ids0 \<and> set ids = set ids0 - {i})" for h ids
    using d(4) [of h ids] d(1) [of h ids i] dist bucket
    by (auto split: if_splits)
  have bwd: "\<exists>ids. ?idx (s_hash (sl ! j)) = Some ids \<and> j \<in> set ids"
    if j: "j < length sl" "s_cached (sl ! j)" "j \<noteq> i" for j
  proof -
    obtain ids where ids: "idx (s_hash (sl ! j)) = Some ids" "j \<in> set ids" using d(2) j by blast
    show ?thesis
    proof (cases "s_hash (sl ! j) = s_hash (sl ! i)")
      case True
      then have "ids = bucket" using ids bucket by simp
      then have "j \<in> set (remove1 i bucket)" using ids j dist by simp
      then have "remove1 i bucket \<noteq> []" by auto
      then show ?thesis using True \<open>j \<in> set (remove1 i bucket)\<close> by simp
    next
      case False
      then show ?thesis using ids by simp
    qed
  qed
  show ?thesis
    unfolding index_ok_def
  proof (intro conjI allI impI ballI)
    fix h ids assume ids: "?idx h = Some ids"
    note m = mem [OF ids]
    show "ids \<noteq> []" and "distinct ids" using m by blast+
    fix k assume "k \<in> set ids"
    then obtain ids0 where k: "idx h = Some ids0" "k \<in> set ids0" "k \<noteq> i" using m by blast
    then have "k < length sl \<and> s_cached (sl ! k) \<and> s_hash (sl ! k) = h" using d(1) by blast
    then show "k < length ?sl" "s_cached (?sl ! k)" "s_hash (?sl ! k) = h" using k(3) by (simp_all add: sl)
  next
    fix k assume "k < length ?sl" "s_cached (?sl ! k)"
    then have "k < length sl" "s_cached (sl ! k)" "k \<noteq> i" using x by (auto simp: sl split: if_splits)
    then show "\<exists>ids. ?idx (s_hash (?sl ! k)) = Some ids \<and> k \<in> set ids" using bwd by (simp add: sl)
  next
    fix k j assume "k < length ?sl" "j < length ?sl" "s_cached (?sl ! k)" "s_cached (?sl ! j)"
      "s_prefix (?sl ! k) = s_prefix (?sl ! j)"
    then show "k = j" using x d(3) [of k j] by (auto simp: sl split: if_splits)
  qed
qed

lemma index_ok_add:
  assumes ok: "index_ok sl idx" and i: "i < length sl" "\<not> s_cached (sl ! i)" and x: "s_cached x"
    and fresh: "\<And>j. j < length sl \<Longrightarrow> s_cached (sl ! j) \<Longrightarrow> s_prefix (sl ! j) \<noteq> s_prefix x"
    and bucket: "bucket = (case idx (s_hash x) of None \<Rightarrow> [] | Some ids \<Rightarrow> ids)"
  shows "index_ok (sl[i := x]) (idx(s_hash x \<mapsto> bucket @ [i]))"
    (is "index_ok ?sl ?idx")
proof -
  note d = index_okD [OF ok]
  have sl: "?sl ! j = (if j = i then x else sl ! j)" for j using i(1) by auto
  have bmem: "distinct bucket" "k \<in> set bucket \<Longrightarrow> k < length sl \<and> s_cached (sl ! k) \<and> s_hash (sl ! k) = s_hash x" for k
    using d(4) [of "s_hash x"] d(1) [of "s_hash x"]
    by (cases "idx (s_hash x)"; simp add: bucket)+
  have "i \<notin> set bucket" using bmem(2) i(2) by blast
  show ?thesis
    unfolding index_ok_def
  proof (intro conjI allI impI ballI)
    fix h ids assume ids: "?idx h = Some ids"
    show "ids \<noteq> []" and "distinct ids"
      using ids d(4) [of h ids] bmem(1) \<open>i \<notin> set bucket\<close> by (auto split: if_splits)
    fix k assume "k \<in> set ids"
    then show "k < length ?sl" "s_cached (?sl ! k)" "s_hash (?sl ! k) = h"
      using ids d(1) [of h ids k] bmem(2) [of k] i x by (auto simp: sl split: if_splits)
  next
    fix k assume k: "k < length ?sl" "s_cached (?sl ! k)"
    show "\<exists>ids. ?idx (s_hash (?sl ! k)) = Some ids \<and> k \<in> set ids"
    proof (cases "k = i")
      case True
      then show ?thesis by (simp add: sl)
    next
      case False
      then obtain ids where "idx (s_hash (sl ! k)) = Some ids" "k \<in> set ids" using k d(2) by (auto simp: sl)
      then show ?thesis using False by (auto simp: sl bucket)
    qed
  next
    fix k j assume "k < length ?sl" "j < length ?sl" "s_cached (?sl ! k)" "s_cached (?sl ! j)"
      "s_prefix (?sl ! k) = s_prefix (?sl ! j)"
    then show "k = j" using d(3) [of k j] fresh [of k] fresh [of j] i by (auto simp: sl split: if_splits)
  qed
qed

section \<open>Allocation, retain and release\<close>

text \<open>
  What a successful \<open>allocate\<close> does to the slots: slot \<open>i\<close> is taken over with a new
  generation, one reference and no cached prefix; nothing else changes.
\<close>

definition bm_claims :: "block_manager \<Rightarrow> nat \<Rightarrow> block_manager \<Rightarrow> bool" where
  "bm_claims s i s' \<longleftrightarrow>
     bm_block_size s' = bm_block_size s \<and> bm_hasher s' = bm_hasher s \<and>
     i < length (bm_slots s) \<and> s_refs (bm_slots s ! i) = 0 \<and>
     (\<exists>x. bm_slots s' = (bm_slots s)[i := x] \<and> \<not> s_free x \<and> s_refs x = 1 \<and> \<not> s_cached x \<and>
          s_generation x = s_generation (bm_slots s ! i) + 1)"

lemma free_okD:
  "free_ok sl h fl \<Longrightarrow> i \<in> set fl \<longleftrightarrow> i < length sl \<and> s_free (sl ! i)"
  "free_ok sl h fl \<Longrightarrow> h = first_or_none fl"
  by (simp add: free_ok_def) (cases fl; simp add: free_ok_def)

lemma idle_okD:
  "idle_ok sl l il \<Longrightarrow> i \<in> set il \<longleftrightarrow> i < length sl \<and> \<not> s_free (sl ! i) \<and> s_refs (sl ! i) = 0"
  "idle_ok sl l il \<Longrightarrow> lru_oldest l = first_or_none il"
  by (auto simp: idle_ok_def dest: lru.oldest_rep)

lemma bm_allocate_empty:
  assumes "bm_rep s [] []"
  shows "bm_allocate s = (Inl CapacityError, s)"
  using free_okD(2) [OF bm_repD(4) [OF assms]] idle_okD(2) [OF bm_repD(5) [OF assms]]
  by (simp add: bm_allocate_def)

lemma bm_allocate_free:
  assumes rep: "bm_rep s (i # fl) il"
  defines "x \<equiv> bm_slots s ! i"
  shows "s_generation x = u64_max \<Longrightarrow> bm_allocate s = (Inl OverflowError, s)"
    and "s_generation x < u64_max \<Longrightarrow>
      \<exists>s'. bm_allocate s = (Inr \<lparr>h_id = i, h_generation = s_generation x + 1\<rparr>, s') \<and>
           bm_rep s' fl il \<and> bm_claims s i s'"
proof -
  note d = bm_repD [OF rep]
  have i: "i < length (bm_slots s)" "s_free x" using free_okD(1) [OF d(4), of i] by (auto simp: x_def)
  then have so: "slot_ok (bm_block_size s) (bm_hasher s) x" using d(7) by (simp add: x_def)
  have h: "bm_free_head s = i" "i \<noteq> none" using free_okD(2) [OF d(4)] i d(2) by auto
  show "s_generation x = u64_max \<Longrightarrow> bm_allocate s = (Inl OverflowError, s)"
    using h i by (simp add: bm_allocate_def Let_def x_def)
  assume g: "s_generation x < u64_max"
  define y where "y = x\<lparr>s_next_free := none, s_free := False, s_refs := 1,
                        s_generation := s_generation x + 1\<rparr>"
  define s' where "s' = s\<lparr>bm_free_head := s_next_free x, bm_slots := (bm_slots s)[i := y]\<rparr>"
  have a: "bm_allocate s = (Inr \<lparr>h_id = i, h_generation = s_generation x + 1\<rparr>, s')"
    using h i g by (simp add: bm_allocate_def Let_def x_def [symmetric] s'_def y_def bm_put_def)
  have "slot_ok (bm_block_size s) (bm_hasher s) y"
    using so i(2) g by (simp add: slot_ok_def y_def size_max_def)
  then have "\<forall>z \<in> set (bm_slots s'). slot_ok (bm_block_size s') (bm_hasher s') z"
    using rep set_update_subset_insert [of "bm_slots s" i y] by (auto simp: s'_def bm_rep_def)
  moreover have "free_ok (bm_slots s') (bm_free_head s') fl"
    using free_ok_pop [of _ _ i fl y] d(4) h(1) by (simp add: s'_def x_def y_def)
  moreover have "idle_ok (bm_slots s') (bm_idle_lru s') il"
    using idle_ok_update [OF d(5) i(1), of y] i(2) by (simp add: s'_def x_def y_def)
  moreover have "index_ok (bm_slots s') (bm_index s')"
    using index_ok_update [OF d(6), of y i] by (simp add: s'_def x_def y_def)
  ultimately have "bm_rep s' fl il" using d(1-3) by (simp add: bm_rep_def s'_def)
  moreover have "bm_claims s i s'"
    using i so unfolding bm_claims_def by (auto simp: s'_def y_def x_def slot_ok_def)
  ultimately show "\<exists>s'. bm_allocate s = (Inr \<lparr>h_id = i, h_generation = s_generation x + 1\<rparr>, s') \<and>
           bm_rep s' fl il \<and> bm_claims s i s'"
    using a by blast
qed

lemma bm_slots_ok_update:
  assumes "bm_rep s fl il" and "slot_ok (bm_block_size s) (bm_hasher s) y"
  shows "\<forall>z \<in> set ((bm_slots s)[i := y]). slot_ok (bm_block_size s) (bm_hasher s) z"
  using assms set_update_subset_insert [of "bm_slots s" i y] by (auto simp: bm_rep_def)

text \<open>The idle slot at the head of the queue is evicted when the free list is empty.\<close>

lemma bm_erase_cache_cached:
  assumes "index_ok (bm_slots s) (bm_index s)" and "i < length (bm_slots s)"
    and "s_cached (bm_slots s ! i)"
  obtains bucket where "bm_index s (s_hash (bm_slots s ! i)) = Some bucket" and "i \<in> set bucket"
    and "bm_erase_cache i s =
      (Inr (), bm_put i ((bm_slots s ! i)\<lparr>s_cached := False, s_prefix := []\<rparr>)
        (s\<lparr>bm_index := (if remove1 i bucket = [] then (bm_index s)(s_hash (bm_slots s ! i) := None)
                        else (bm_index s)(s_hash (bm_slots s ! i) \<mapsto> remove1 i bucket))\<rparr>))"
proof -
  obtain bucket where "bm_index s (s_hash (bm_slots s ! i)) = Some bucket" "i \<in> set bucket"
    using index_okD(2) [OF assms(1)] assms(2,3) by blast
  then show ?thesis using that by (simp add: bm_erase_cache_def Let_def)
qed

lemma bm_allocate_idle:
  assumes rep: "bm_rep s [] (i # il)"
  defines "x \<equiv> bm_slots s ! i"
  shows "s_generation x = u64_max \<Longrightarrow> bm_allocate s = (Inl OverflowError, s)"
    and "s_generation x < u64_max \<Longrightarrow>
      \<exists>s'. bm_allocate s = (Inr \<lparr>h_id = i, h_generation = s_generation x + 1\<rparr>, s') \<and>
           bm_rep s' [] il \<and> bm_claims s i s'"
proof -
  note d = bm_repD [OF rep]
  have i: "i < length (bm_slots s)" "\<not> s_free x" "s_refs x = 0"
    using idle_okD(1) [OF d(5), of i] by (auto simp: x_def)
  then have so: "slot_ok (bm_block_size s) (bm_hasher s) x" using d(7) by (simp add: x_def)
  then have c: "s_cached x" using i by (simp add: slot_ok_def)
  have h: "bm_free_head s = none" "lru_oldest (bm_idle_lru s) = i" "i \<noteq> none"
    using free_okD(2) [OF d(4)] idle_okD(2) [OF d(5)] i d(2) by auto
  show "s_generation x = u64_max \<Longrightarrow> bm_allocate s = (Inl OverflowError, s)"
    using h i by (simp add: bm_allocate_def Let_def x_def)
  assume g: "s_generation x < u64_max"
  let ?t = "bm_unlink_idle i s"
  obtain bucket where b: "bm_index ?t (s_hash (bm_slots ?t ! i)) = Some bucket"
    and e: "bm_erase_cache i ?t =
      (Inr (), bm_put i ((bm_slots ?t ! i)\<lparr>s_cached := False, s_prefix := []\<rparr>)
        (?t\<lparr>bm_index := (if remove1 i bucket = [] then (bm_index ?t)(s_hash (bm_slots ?t ! i) := None)
                        else (bm_index ?t)(s_hash (bm_slots ?t ! i) \<mapsto> remove1 i bucket))\<rparr>))"
    using bm_erase_cache_cached [of ?t i] d(6) i(1) c by (auto simp: x_def)
  define y where "y = x\<lparr>s_cached := False, s_prefix := [], s_free := False, s_refs := 1,
                        s_generation := s_generation x + 1\<rparr>"
  define s' where "s' = s\<lparr>bm_idle_lru := lru_erase i (bm_idle_lru s),
    bm_index := (if remove1 i bucket = [] then (bm_index s)(s_hash x := None)
                 else (bm_index s)(s_hash x \<mapsto> remove1 i bucket)),
    bm_slots := (bm_slots s)[i := y]\<rparr>"
  have a: "bm_allocate s = (Inr \<lparr>h_id = i, h_generation = s_generation x + 1\<rparr>, s')"
    using h i g e by (simp add: bm_allocate_def Let_def x_def [symmetric] s'_def y_def bm_put_def
        bm_unlink_idle_def)
  have "slot_ok (bm_block_size s) (bm_hasher s) y"
    using g by (simp add: slot_ok_def y_def size_max_def)
  from bm_slots_ok_update [OF rep this, of i]
  have "\<forall>z \<in> set (bm_slots s'). slot_ok (bm_block_size s') (bm_hasher s') z"
    by (simp add: s'_def)
  moreover have "free_ok (bm_slots s') (bm_free_head s') []"
    using free_ok_update [OF d(4) i(1), of y] i(2) by (simp add: s'_def x_def y_def)
  moreover have "idle_ok (bm_slots s') (bm_idle_lru s') il"
  proof -
    have "i \<notin> set il" using d(5) lru.rep_distinct by (force simp: idle_ok_def)
    then show ?thesis using idle_ok_erase [OF d(5) i(1), of y] by (simp add: s'_def y_def)
  qed
  moreover have "index_ok (bm_slots s') (bm_index s')"
    using index_ok_remove [OF d(6) i(1), of y bucket] b c
    by (cases "remove1 i bucket = []") (simp_all add: s'_def x_def y_def)
  ultimately have "bm_rep s' [] il" using d(1-3) by (simp add: bm_rep_def s'_def)
  moreover have "bm_claims s i s'"
    using i unfolding bm_claims_def by (auto simp: s'_def y_def x_def)
  ultimately show "\<exists>s'. bm_allocate s = (Inr \<lparr>h_id = i, h_generation = s_generation x + 1\<rparr>, s') \<and>
           bm_rep s' [] il \<and> bm_claims s i s'"
    using a by blast
qed

text \<open>The outcomes of \<open>allocate\<close>, as one elimination rule.\<close>

lemma bm_allocate_cases:
  assumes "bm_rep s fl il"
  obtains (full) "fl = []" "il = []" "bm_allocate s = (Inl CapacityError, s)"
  | (exhausted) i where "i = hd (fl @ il)" "fl @ il \<noteq> []" "s_generation (bm_slots s ! i) = u64_max"
      "bm_allocate s = (Inl OverflowError, s)"
  | (ok) i s' fl' il' where "fl @ il = i # fl' @ il'" "length il' = length il - (if fl = [] then 1 else 0)"
      "s_generation (bm_slots s ! i) < u64_max"
      "bm_allocate s = (Inr \<lparr>h_id = i, h_generation = s_generation (bm_slots s ! i) + 1\<rparr>, s')"
      "bm_rep s' fl' il'" "bm_claims s i s'"
proof -
  have le: "s_generation (bm_slots s ! i) \<le> u64_max" if "i < length (bm_slots s)" for i
    using bm_repD(7) [OF assms that] by (simp add: slot_ok_def)
  consider "fl = []" "il = []" | i fl' where "fl = i # fl'" | i il' where "fl = []" "il = i # il'"
    by (cases fl; cases il) auto
  then show ?thesis
  proof cases
    case 1
    then show ?thesis using full bm_allocate_empty assms by blast
  next
    case 2
    then have r: "bm_rep s (i # fl') il" using assms by simp
    then have "s_generation (bm_slots s ! i) \<le> u64_max"
      using le [of i] free_okD(1) [OF bm_repD(4) [OF r], of i] by simp
    then show ?thesis
      using bm_allocate_free [OF r] exhausted [of i] ok [of i fl' il] 2 by fastforce
  next
    case 3
    then have r: "bm_rep s [] (i # il')" using assms by simp
    then have "s_generation (bm_slots s ! i) \<le> u64_max"
      using le [of i] idle_okD(1) [OF bm_repD(5) [OF r], of i] by simp
    then show ?thesis
      using bm_allocate_idle [OF r] exhausted [of i] ok [of i "[]" il'] 3 by fastforce
  qed
qed

subsection \<open>The abstract state: live handles, reference counts, published blocks\<close>

definition bm_live :: "block_manager \<Rightarrow> block_handle \<Rightarrow> bool" where
  "bm_live s h \<longleftrightarrow>
     h_id h < length (bm_slots s) \<and> \<not> s_free (bm_slots s ! h_id h) \<and>
     s_generation (bm_slots s ! h_id h) = h_generation h"

definition bm_refs :: "block_manager \<Rightarrow> block_handle \<Rightarrow> nat" where
  "bm_refs s h = (if bm_live s h then s_refs (bm_slots s ! h_id h) else 0)"

definition bm_pub :: "block_manager \<Rightarrow> block_handle \<Rightarrow> bool" where
  "bm_pub s h \<longleftrightarrow> bm_live s h \<and> s_cached (bm_slots s ! h_id h)"

lemma bm_checked_live:
  "bm_checked h s = (if bm_live s h then Inr (bm_slots s ! h_id h) else Inl InvalidArgument)"
  by (auto simp: bm_checked_def bm_live_def)

lemma bm_refs_live: "0 < bm_refs s h \<Longrightarrow> bm_live s h"
  by (simp add: bm_refs_def split: if_splits)

text \<open>\<open>s'\<close> differs from \<open>s\<close> at most in slot \<open>i\<close> (and in the list structure).\<close>

definition bm_writes :: "block_manager \<Rightarrow> nat \<Rightarrow> slot \<Rightarrow> block_manager \<Rightarrow> bool" where
  "bm_writes s i x s' \<longleftrightarrow>
     i < length (bm_slots s) \<and> bm_slots s' = (bm_slots s)[i := x] \<and>
     bm_block_size s' = bm_block_size s \<and> bm_hasher s' = bm_hasher s"

lemma bm_writesD:
  assumes "bm_writes s i x s'"
  shows "bm_live s' g \<longleftrightarrow>
      (if h_id g = i then \<not> s_free x \<and> s_generation x = h_generation g else bm_live s g)"
    and "bm_refs s' g =
      (if h_id g = i then (if \<not> s_free x \<and> s_generation x = h_generation g then s_refs x else 0)
       else bm_refs s g)"
    and "bm_pub s' g \<longleftrightarrow>
      (if h_id g = i then \<not> s_free x \<and> s_generation x = h_generation g \<and> s_cached x
       else bm_pub s g)"
    and "length (bm_slots s') = length (bm_slots s)"
  using assms by (auto simp: bm_writes_def bm_live_def bm_refs_def bm_pub_def nth_list_update)

lemma bm_claims_writes:
  assumes "bm_claims s i s'"
  obtains x where "bm_writes s i x s'" "\<not> s_free x" "s_refs x = 1" "\<not> s_cached x"
    "s_generation x = s_generation (bm_slots s ! i) + 1" "s_refs (bm_slots s ! i) = 0"
  using assms by (auto simp: bm_claims_def bm_writes_def)

lemma handle_eqI: "h_id g = h_id h \<Longrightarrow> h_generation g = h_generation h \<Longrightarrow> g = (h :: block_handle)"
  by simp

lemma bm_allocate_spec:
  assumes "bm_inv s" and "bm_allocate s = (Inr h, s')"
  shows "bm_inv s'" and "\<not> bm_live s h" and "bm_live s' h" and "\<not> bm_pub s' h"
    and "bm_refs s' = (bm_refs s)(h := 1)" and "bm_refs s h = 0"
    and "bm_pub s' g \<Longrightarrow> bm_pub s g"
    and "0 < bm_refs s g \<Longrightarrow> bm_pub s' g = bm_pub s g"
    and "bm_block_size s' = bm_block_size s" and "bm_hasher s' = bm_hasher s"
    and "length (bm_slots s') = length (bm_slots s)"
proof -
  obtain fl il where rep: "bm_rep s fl il" using assms(1) by (auto simp: bm_inv_def)
  from rep obtain i fl' il' where h: "h = \<lparr>h_id = i, h_generation = s_generation (bm_slots s ! i) + 1\<rparr>"
    and rep': "bm_rep s' fl' il'" and c: "bm_claims s i s'"
    by (cases rule: bm_allocate_cases) (use assms(2) in auto)
  show "bm_inv s'" using rep' by (auto simp: bm_inv_def)
  obtain x where w: "bm_writes s i x s'" and x: "\<not> s_free x" "s_refs x = 1" "\<not> s_cached x"
    "s_generation x = s_generation (bm_slots s ! i) + 1" "s_refs (bm_slots s ! i) = 0"
    using c by (rule bm_claims_writes)
  note d = bm_writesD [OF w]
  show nl: "\<not> bm_live s h" using h by (simp add: bm_live_def)
  then show "bm_refs s h = 0" by (simp add: bm_refs_def)
  show "bm_live s' h" "\<not> bm_pub s' h" using d x h by simp_all
  have old: "bm_refs s g = 0" if "h_id g = i" for g using x(5) that by (simp add: bm_refs_def)
  show "bm_refs s' = (bm_refs s)(h := 1)"
  proof
    fix g
    have "h_id g = i \<Longrightarrow> h_generation g = s_generation x \<Longrightarrow> g = h" using x h by (cases g) simp
    then show "bm_refs s' g = ((bm_refs s)(h := 1)) g"
      using d(2) [of g] x h old [of g] by auto
  qed
  show "bm_pub s' g \<Longrightarrow> bm_pub s g" using d(3) [of g] x(3) by (auto split: if_splits)
  show "0 < bm_refs s g \<Longrightarrow> bm_pub s' g = bm_pub s g"
    using d(3) [of g] old [of g] by auto
  show "bm_block_size s' = bm_block_size s" "bm_hasher s' = bm_hasher s"
    "length (bm_slots s') = length (bm_slots s)"
    using w by (auto simp: bm_writes_def)
qed

lemma bm_allocate_fails:
  assumes "bm_inv s" and "bm_allocate s = (Inl e, s')"
  shows "s' = s \<and> (e = CapacityError \<or> e = OverflowError)"
proof -
  obtain fl il where "bm_rep s fl il" using assms(1) by (auto simp: bm_inv_def)
  then show ?thesis by (cases rule: bm_allocate_cases) (use assms(2) in auto)
qed

subsection \<open>Retain\<close>

lemma bm_retain_ok:
  assumes rep: "bm_rep s fl il" and live: "bm_live s h" and lt: "bm_refs s h < size_max"
  defines "x \<equiv> bm_slots s ! h_id h"
  shows "\<exists>s'. bm_retain h s = (Inr (), s') \<and> bm_rep s' fl (removeAll (h_id h) il) \<and>
              bm_writes s (h_id h) (x\<lparr>s_refs := s_refs x + 1\<rparr>) s' \<and> bm_index s' = bm_index s"
proof -
  note d = bm_repD [OF rep]
  define y where "y = x\<lparr>s_refs := s_refs x + 1\<rparr>"
  have i: "h_id h < length (bm_slots s)" "\<not> s_free x" "s_refs x < size_max"
    using live lt by (auto simp: bm_live_def bm_refs_def x_def)
  let ?i = "h_id h"
  define s' where "s' = bm_put ?i y (if s_refs x = 0 then bm_unlink_idle ?i s else s)"
  have r: "bm_retain h s = (Inr (), s')"
    using live i by (simp add: bm_retain_def bm_checked_live Let_def s'_def x_def y_def)
  have sl: "bm_slots s' = (bm_slots s)[?i := y]" "bm_block_size s' = bm_block_size s"
    "bm_hasher s' = bm_hasher s" "bm_index s' = bm_index s" "bm_free_head s' = bm_free_head s"
    by (simp_all add: s'_def)
  have "slot_ok (bm_block_size s) (bm_hasher s) y"
    using d(7) [OF i(1)] i by (auto simp: slot_ok_def y_def x_def)
  from bm_slots_ok_update [OF rep this, of ?i]
  have "\<forall>z \<in> set (bm_slots s'). slot_ok (bm_block_size s') (bm_hasher s') z" by (simp add: sl)
  moreover have "free_ok (bm_slots s') (bm_free_head s') fl"
    using free_ok_update [OF d(4) i(1), of y] i(2) by (simp add: sl x_def y_def)
  moreover have "idle_ok (bm_slots s') (bm_idle_lru s') (removeAll ?i il)"
  proof (cases "s_refs x = 0")
    case True
    then show ?thesis using idle_ok_erase [OF d(5) i(1), of y] by (simp add: s'_def y_def)
  next
    case False
    then have "?i \<notin> set il" using idle_okD(1) [OF d(5), of ?i] by (simp add: x_def)
    then show ?thesis using False idle_ok_update [OF d(5) i(1), of y] by (simp add: s'_def y_def x_def)
  qed
  moreover have "index_ok (bm_slots s') (bm_index s')"
    using index_ok_update [OF d(6), of y ?i] by (simp add: sl x_def y_def)
  ultimately have "bm_rep s' fl (removeAll ?i il)" using d(1-3) by (simp add: bm_rep_def sl)
  moreover have "bm_writes s ?i y s'" using i sl by (simp add: bm_writes_def)
  ultimately show ?thesis using r sl(4) by (auto simp: y_def)
qed

lemma bm_retain_fails:
  "\<not> bm_live s h \<Longrightarrow> bm_retain h s = (Inl InvalidArgument, s)"
  "bm_live s h \<Longrightarrow> bm_refs s h = size_max \<Longrightarrow> bm_retain h s = (Inl OverflowError, s)"
  by (simp_all add: bm_retain_def bm_checked_live bm_refs_def)

lemma bm_refs_le: "bm_inv s \<Longrightarrow> bm_refs s h \<le> size_max"
  by (auto simp: bm_inv_def bm_refs_def bm_live_def slot_ok_def dest!: bm_repD(7))

text \<open>The effect of an operation that changes one live slot's reference count only.\<close>

lemma bm_writes_refs:
  assumes w: "bm_writes s (h_id h) x s'" and live: "bm_live s h"
    and x: "s_generation x = h_generation h" "s_cached x = s_cached (bm_slots s ! h_id h)"
    and fr: "s_free x \<Longrightarrow> s_refs x = 0 \<and> \<not> s_cached x"
  shows "bm_refs s' = (bm_refs s)(h := s_refs x)"
    and "bm_pub s' g = bm_pub s g"
    and "\<not> s_free x \<Longrightarrow> bm_live s' g = bm_live s g"
proof -
  note d = bm_writesD [OF w]
  have same: "h_id g = h_id h \<Longrightarrow> h_generation g = h_generation h \<Longrightarrow> g = h" for g :: block_handle
    by simp
  have dead: "h_id g = h_id h \<Longrightarrow> g \<noteq> h \<Longrightarrow> bm_refs s g = 0 \<and> h_generation g \<noteq> h_generation h" for g
    using live same [of g] by (auto simp: bm_refs_def bm_live_def)
  show "bm_refs s' = (bm_refs s)(h := s_refs x)"
    using d(2) x fr dead by (auto simp: fun_eq_iff)
  show "bm_pub s' g = bm_pub s g"
    using d(3) [of g] x fr live by (auto simp: bm_pub_def bm_live_def)
  show "\<not> s_free x \<Longrightarrow> bm_live s' g = bm_live s g"
    using d(1) [of g] x live by (auto simp: bm_live_def)
qed

lemma bm_retain_spec:
  assumes "bm_inv s" and "bm_retain h s = (Inr (), s')"
  shows "bm_inv s'" and "bm_live s h" and "bm_refs s h < size_max"
    and "bm_refs s' = (bm_refs s)(h := bm_refs s h + 1)"
    and "bm_pub s' g = bm_pub s g" and "bm_live s' g = bm_live s g"
    and "bm_block_size s' = bm_block_size s" and "bm_hasher s' = bm_hasher s"
    and "length (bm_slots s') = length (bm_slots s)" and "bm_index s' = bm_index s"
proof -
  obtain fl il where rep: "bm_rep s fl il" using assms(1) by (auto simp: bm_inv_def)
  show live: "bm_live s h" using bm_retain_fails(1) assms(2) by fastforce
  show lt: "bm_refs s h < size_max"
    using bm_retain_fails(2) [OF live] bm_refs_le [OF assms(1), of h] assms(2) by fastforce
  define x where "x = (bm_slots s ! h_id h)\<lparr>s_refs := bm_refs s h + 1\<rparr>"
  have xx: "x = (bm_slots s ! h_id h)\<lparr>s_refs := s_refs (bm_slots s ! h_id h) + 1\<rparr>"
    using live by (simp add: x_def bm_refs_def)
  have w: "bm_writes s (h_id h) x s'" and r: "bm_rep s' fl (removeAll (h_id h) il)"
    and idx: "bm_index s' = bm_index s"
    using bm_retain_ok [OF rep live lt] assms(2) by (auto simp: xx)
  show "bm_inv s'" using r by (auto simp: bm_inv_def)
  note e = bm_writes_refs [OF w live]
  show "bm_refs s' = (bm_refs s)(h := bm_refs s h + 1)"
    using e(1) live by (simp add: x_def bm_live_def)
  show "bm_pub s' g = bm_pub s g" "bm_live s' g = bm_live s g"
    using e(2,3) [of g] live by (simp_all add: x_def bm_live_def)
  show "bm_block_size s' = bm_block_size s" "bm_hasher s' = bm_hasher s"
    "length (bm_slots s') = length (bm_slots s)" "bm_index s' = bm_index s"
    using w idx by (simp_all add: bm_writes_def)
qed

lemma bm_retain_total:
  "bm_inv s \<Longrightarrow> bm_live s h \<Longrightarrow> bm_refs s h < size_max \<Longrightarrow> \<exists>s'. bm_retain h s = (Inr (), s')"
  using bm_retain_ok [of s] unfolding bm_inv_def by blast

lemma bm_retain_error:
  assumes "bm_inv s" and "bm_retain h s = (Inl e, s')"
  shows "s' = s" and "e = InvalidArgument \<and> \<not> bm_live s h \<or> e = OverflowError \<and> bm_refs s h = size_max"
proof -
  have "bm_live s h \<Longrightarrow> bm_refs s h = size_max"
    using bm_retain_total [OF assms(1), of h] bm_refs_le [OF assms(1), of h] assms(2) by fastforce
  then show "s' = s" "e = InvalidArgument \<and> \<not> bm_live s h \<or> e = OverflowError \<and> bm_refs s h = size_max"
    using assms(2) bm_retain_fails by (cases "bm_live s h"; auto)+
qed

subsection \<open>Release\<close>

lemma bm_release_ok:
  assumes rep: "bm_rep s fl il" and pos: "0 < bm_refs s h"
  defines "x \<equiv> bm_slots s ! h_id h"
  shows "\<exists>s' y fl' il'. bm_release h s = (Inr (), s') \<and> bm_rep s' fl' il' \<and>
     bm_writes s (h_id h) y s' \<and> bm_index s' = bm_index s \<and>
     s_refs y = s_refs x - 1 \<and> s_generation y = s_generation x \<and> s_cached y = s_cached x \<and>
     s_prefix y = s_prefix x \<and> s_free y = (s_refs x = 1 \<and> \<not> s_cached x) \<and>
     fl' = (if s_free y then h_id h # fl else fl) \<and>
     il' = (if s_refs x = 1 \<and> s_cached x then il @ [h_id h] else il)"
proof -
  note d = bm_repD [OF rep]
  let ?i = "h_id h"
  have live: "bm_live s h" using pos by (rule bm_refs_live)
  have i: "?i < length (bm_slots s)" "\<not> s_free x" "0 < s_refs x"
    using live pos by (auto simp: bm_live_def bm_refs_def x_def)
  have so: "slot_ok (bm_block_size s) (bm_hasher s) x" using d(7) i(1) by (simp add: x_def)
  define fr where "fr = (s_refs x = 1 \<and> \<not> s_cached x)"
  define y where "y = (if fr then x\<lparr>s_refs := s_refs x - 1, s_free := True, s_next_free := bm_free_head s\<rparr>
                       else x\<lparr>s_refs := s_refs x - 1\<rparr>)"
  define s' where "s' = s\<lparr>bm_slots := (bm_slots s)[?i := y],
     bm_free_head := (if fr then ?i else bm_free_head s),
     bm_idle_lru := (if s_refs x = 1 \<and> s_cached x then lru_touch ?i (bm_idle_lru s) else bm_idle_lru s)\<rparr>"
  define fl' where "fl' = (if s_free y then ?i # fl else fl)"
  define il' where "il' = (if s_refs x = 1 \<and> s_cached x then il @ [?i] else il)"
  have y: "s_refs y = s_refs x - 1" "s_generation y = s_generation x" "s_cached y = s_cached x"
    "s_prefix y = s_prefix x" "s_hash y = s_hash x" "s_free y = fr"
    using i(2) by (auto simp: y_def)
  have r: "bm_release h s = (Inr (), s')"
    using live i by (auto simp: bm_release_def bm_checked_live Let_def s'_def y_def fr_def x_def
        bm_append_idle_def bm_put_def)
  have "slot_ok (bm_block_size s) (bm_hasher s) y"
    using so i y by (auto simp: slot_ok_def fr_def)
  from bm_slots_ok_update [OF rep this, of ?i]
  have "\<forall>z \<in> set (bm_slots s'). slot_ok (bm_block_size s') (bm_hasher s') z" by (simp add: s'_def)
  moreover have "free_ok (bm_slots s') (bm_free_head s') fl'"
  proof (cases fr)
    case True
    then show ?thesis using free_ok_push [OF d(4) i(1), of y] i(2) y
      by (simp add: s'_def fl'_def x_def) (simp add: y_def)
  next
    case False
    then show ?thesis using free_ok_update [OF d(4) i(1), of y] i(2) y
      by (simp add: s'_def fl'_def x_def)
  qed
  moreover have "idle_ok (bm_slots s') (bm_idle_lru s') il'"
  proof (cases "s_refs x = 1 \<and> s_cached x")
    case True
    then show ?thesis using idle_ok_touch [OF d(5) i(1), of y] i y
      by (simp add: s'_def il'_def x_def fr_def)
  next
    case False
    then show ?thesis using idle_ok_update [OF d(5) i(1), of y] i y
      by (auto simp: s'_def il'_def x_def fr_def)
  qed
  moreover have "index_ok (bm_slots s') (bm_index s')"
    using index_ok_update [OF d(6), of y ?i] y by (simp add: s'_def x_def)
  ultimately have "bm_rep s' fl' il'" using d(1-3) by (simp add: bm_rep_def s'_def)
  moreover have "bm_writes s ?i y s'" using i by (simp add: bm_writes_def s'_def)
  moreover have "bm_index s' = bm_index s" by (simp add: s'_def)
  ultimately show ?thesis using r y fr_def fl'_def il'_def by blast
qed

lemma bm_release_fails:
  "bm_refs s h = 0 \<Longrightarrow> bm_release h s = (Inl InvalidArgument, s)"
  by (cases "bm_live s h") (simp_all add: bm_release_def bm_checked_live bm_refs_def)

lemma bm_release_spec:
  assumes inv: "bm_inv s" and r: "bm_release h s = (Inr (), s')"
  shows "bm_inv s'" and "0 < bm_refs s h"
    and "bm_refs s' = (bm_refs s)(h := bm_refs s h - 1)"
    and "bm_pub s' g = bm_pub s g"
    and "bm_live s' g \<Longrightarrow> bm_live s g"
    and "bm_block_size s' = bm_block_size s" and "bm_hasher s' = bm_hasher s"
    and "length (bm_slots s') = length (bm_slots s)"
proof -
  obtain fl il where rep: "bm_rep s fl il" using inv by (auto simp: bm_inv_def)
  show pos: "0 < bm_refs s h" using bm_release_fails [of s h] r by (cases "bm_refs s h") auto
  then have live: "bm_live s h" by (rule bm_refs_live)
  define x where "x = bm_slots s ! h_id h"
  obtain y fl' il' where rep': "bm_rep s' fl' il'" and w: "bm_writes s (h_id h) y s'"
    and y: "s_refs y = s_refs x - 1" "s_generation y = s_generation x" "s_cached y = s_cached x"
      "s_free y = (s_refs x = 1 \<and> \<not> s_cached x)"
    using bm_release_ok [OF rep pos] r by (auto simp: x_def)
  show "bm_inv s'" using rep' by (auto simp: bm_inv_def)
  have g: "s_generation y = h_generation h" using y live by (simp add: bm_live_def x_def)
  note e = bm_writes_refs [OF w live g]
  show "bm_refs s' = (bm_refs s)(h := bm_refs s h - 1)"
    using e(1) y live by (simp add: x_def bm_refs_def)
  show "bm_pub s' g = bm_pub s g" using e(2) [of g] y by (simp add: x_def)
  show "bm_live s' g \<Longrightarrow> bm_live s g"
    using bm_writesD(1) [OF w, of g] y live by (auto simp: bm_live_def x_def split: if_splits)
  show "bm_block_size s' = bm_block_size s" "bm_hasher s' = bm_hasher s"
    "length (bm_slots s') = length (bm_slots s)"
    using w by (simp_all add: bm_writes_def)
qed

lemma bm_release_total: "bm_inv s \<Longrightarrow> 0 < bm_refs s h \<Longrightarrow> \<exists>s'. bm_release h s = (Inr (), s')"
  using bm_release_ok [of s] unfolding bm_inv_def by blast

lemma bm_release_error:
  assumes "bm_inv s" and "bm_release h s = (Inl e, s')"
  shows "s' = s" and "e = InvalidArgument" and "bm_refs s h = 0"
proof -
  show z: "bm_refs s h = 0" using bm_release_total [OF assms(1), of h] assms(2) by (cases "bm_refs s h") auto
  then show "s' = s" "e = InvalidArgument" using assms(2) bm_release_fails by auto
qed

section \<open>The prefix cache as a map\<close>

text \<open>
  The specification of the index: an exact search through all slots, which no hash function
  enters.
\<close>

definition bm_cache :: "block_manager \<Rightarrow> tokens \<Rightarrow> block_handle option" where
  "bm_cache s p =
     map_option (\<lambda>i. \<lparr>h_id = i, h_generation = s_generation (bm_slots s ! i)\<rparr>)
       (List.find (\<lambda>i. s_cached (bm_slots s ! i) \<and> s_prefix (bm_slots s ! i) = p)
          [0..<length (bm_slots s)])"

lemma find_unique:
  assumes "\<And>k l. P k \<Longrightarrow> k \<in> set xs \<Longrightarrow> P l \<Longrightarrow> l \<in> set xs \<Longrightarrow> k = l"
  shows "List.find P xs = Some i \<longleftrightarrow> i \<in> set xs \<and> P i"
  using assms by (induction xs) (auto split: if_splits)

lemma bm_scan_iff:
  assumes "bm_rep s fl il"
  shows "bm_scan p s = Some i \<longleftrightarrow>
           i < length (bm_slots s) \<and> s_cached (bm_slots s ! i) \<and> s_prefix (bm_slots s ! i) = p"
proof -
  note d = bm_repD [OF assms] and x = index_okD [OF bm_repD(6) [OF assms]]
  let ?b = "bm_bucket (bm_hasher s p) s"
  have mem: "i \<in> set ?b \<longleftrightarrow> i < length (bm_slots s) \<and> s_cached (bm_slots s ! i) \<and>
      s_hash (bm_slots s ! i) = bm_hasher s p" for i
    using x(1) [of "bm_hasher s p"] x(2) [of i]
    by (cases "bm_index s (bm_hasher s p)") (simp add: bm_bucket_def, force, simp add: bm_bucket_def, force)
  have "bm_scan p s = Some i \<longleftrightarrow> i \<in> set ?b \<and> s_prefix (bm_slots s ! i) = p"
    unfolding bm_scan_def by (rule find_unique) (use mem x(3) in auto)
  moreover have "s_hash (bm_slots s ! i) = bm_hasher s (s_prefix (bm_slots s ! i))"
    if "i < length (bm_slots s)" "s_cached (bm_slots s ! i)"
    using d(7) [OF that(1)] that(2) by (simp add: slot_ok_def)
  ultimately show ?thesis using mem [of i] by auto
qed

lemma bm_scan_cache:
  assumes "bm_inv s"
  shows "map_option (\<lambda>i. \<lparr>h_id = i, h_generation = s_generation (bm_slots s ! i)\<rparr>) (bm_scan p s)
           = bm_cache s p"
proof -
  obtain fl il where rep: "bm_rep s fl il" using assms by (auto simp: bm_inv_def)
  have "List.find (\<lambda>i. s_cached (bm_slots s ! i) \<and> s_prefix (bm_slots s ! i) = p)
          [0..<length (bm_slots s)] = Some i \<longleftrightarrow> bm_scan p s = Some i" for i
    unfolding bm_scan_iff [OF rep]
    by (subst find_unique) (use index_okD(3) [OF bm_repD(6) [OF rep]] in auto)
  then have "bm_scan p s = List.find (\<lambda>i. s_cached (bm_slots s ! i) \<and> s_prefix (bm_slots s ! i) = p)
          [0..<length (bm_slots s)]"
    by (metis not_Some_eq)
  then show ?thesis by (simp add: bm_cache_def)
qed

lemma bm_cache_iff:
  assumes "bm_inv s"
  shows "bm_cache s p = Some h \<longleftrightarrow> bm_pub s h \<and> s_prefix (bm_slots s ! h_id h) = p"
proof -
  obtain fl il where rep: "bm_rep s fl il" using assms by (auto simp: bm_inv_def)
  have nf: "i < length (bm_slots s) \<Longrightarrow> s_cached (bm_slots s ! i) \<Longrightarrow> \<not> s_free (bm_slots s ! i)" for i
    using bm_repD(7) [OF rep, of i] by (auto simp: slot_ok_def)
  show ?thesis
    unfolding bm_scan_cache [OF assms, symmetric] map_option_eq_Some bm_scan_iff [OF rep]
    using nf by (auto simp: bm_pub_def bm_live_def intro!: exI [of _ "h_id h"])
qed

lemma bm_cache_cong:
  assumes "bm_inv s" "bm_inv s'" "\<And>h. bm_pub s' h = bm_pub s h"
    and "\<And>h. bm_pub s h \<Longrightarrow> s_prefix (bm_slots s' ! h_id h) = s_prefix (bm_slots s ! h_id h)"
  shows "bm_cache s' = bm_cache s"
proof
  fix p
  have "bm_cache s' p = Some h \<longleftrightarrow> bm_cache s p = Some h" for h
    using assms by (auto simp: bm_cache_iff)
  then show "bm_cache s' p = bm_cache s p" by (metis not_Some_eq)
qed

lemma bm_retain_cache:
  assumes "bm_inv s" and "bm_retain h s = (Inr (), s')"
  shows "bm_cache s' = bm_cache s"
proof -
  note r = bm_retain_spec [OF assms]
  obtain fl il where rep: "bm_rep s fl il" using assms(1) by (auto simp: bm_inv_def)
  have w: "bm_writes s (h_id h) ((bm_slots s ! h_id h)\<lparr>s_refs := s_refs (bm_slots s ! h_id h) + 1\<rparr>) s'"
    using bm_retain_ok [OF rep r(2,3)] assms(2) by auto
  show ?thesis
    by (rule bm_cache_cong [OF assms(1) r(1,5)]) (use w in \<open>auto simp: bm_writes_def nth_list_update\<close>)
qed

lemma bm_release_cache:
  assumes "bm_inv s" and "bm_release h s = (Inr (), s')"
  shows "bm_cache s' = bm_cache s"
proof -
  note r = bm_release_spec [OF assms]
  obtain fl il where rep: "bm_rep s fl il" using assms(1) by (auto simp: bm_inv_def)
  obtain y where w: "bm_writes s (h_id h) y s'" "s_prefix y = s_prefix (bm_slots s ! h_id h)"
    using bm_release_ok [OF rep r(2)] assms(2) by auto
  show ?thesis
    by (rule bm_cache_cong [OF assms(1) r(1,4)]) (use w in \<open>auto simp: bm_writes_def nth_list_update\<close>)
qed

lemma bm_allocate_cache:
  assumes inv: "bm_inv s" and a: "bm_allocate s = (Inr h, s')"
  shows "bm_cache s' p = Some g \<Longrightarrow> bm_cache s p = Some g"
    and "bm_cache s p = Some g \<Longrightarrow> 0 < bm_refs s g \<Longrightarrow> bm_cache s' p = Some g"
proof -
  note r = bm_allocate_spec [OF inv a]
  obtain fl il where rep: "bm_rep s fl il" using inv by (auto simp: bm_inv_def)
  then obtain i where c: "bm_claims s i s'" and i: "h_id h = i"
    by (cases rule: bm_allocate_cases) (use a in auto)
  then obtain x where x: "bm_slots s' = (bm_slots s)[i := x]" "\<not> s_cached x" "s_refs (bm_slots s ! i) = 0"
    by (auto simp: bm_claims_def)
  have same: "bm_slots s' ! h_id g = bm_slots s ! h_id g" if "h_id g \<noteq> i" for g :: block_handle
    using x(1) that by simp
  have ne: "h_id g \<noteq> i" if "bm_pub s' g" for g
    using that x by (auto simp: bm_pub_def bm_live_def)
  have ne': "h_id g \<noteq> i" if "0 < bm_refs s g" for g
    using that x(3) by (auto simp: bm_refs_def split: if_splits)
  show "bm_cache s' p = Some g \<Longrightarrow> bm_cache s p = Some g"
    using r(1,7) ne [of g] same by (auto simp: bm_cache_iff inv)
  show "bm_cache s p = Some g \<Longrightarrow> 0 < bm_refs s g \<Longrightarrow> bm_cache s' p = Some g"
    using r(1,8) ne' [of g] same by (auto simp: bm_cache_iff inv)
qed

subsection \<open>Publish and lookup\<close>

definition full_prefix :: "block_manager \<Rightarrow> tokens \<Rightarrow> bool" where
  "full_prefix s p \<longleftrightarrow> p \<noteq> [] \<and> length p mod bm_block_size s = 0"

lemma bm_publish_ok:
  assumes inv: "bm_inv s" and one: "bm_refs s h = 1" and priv: "\<not> bm_pub s h"
    and full: "full_prefix s p" and new: "bm_cache s p = None"
  obtains s' where "bm_publish h p s = (Inr (), s')" and "bm_inv s'" and "bm_refs s' = bm_refs s"
    and "bm_cache s' = (bm_cache s)(p \<mapsto> h)" and "\<And>g. bm_pub s' g \<longleftrightarrow> g = h \<or> bm_pub s g"
    and "\<And>g. bm_live s' g = bm_live s g"
    and "bm_block_size s' = bm_block_size s" and "bm_hasher s' = bm_hasher s"
    and "length (bm_slots s') = length (bm_slots s)"
proof -
  obtain fl il where rep: "bm_rep s fl il" using inv by (auto simp: bm_inv_def)
  note d = bm_repD [OF rep]
  let ?i = "h_id h" and ?hash = "bm_hasher s p"
  define x where "x = bm_slots s ! ?i"
  have live: "bm_live s h" using one by (intro bm_refs_live) simp
  have i: "?i < length (bm_slots s)" "\<not> s_free x" "s_refs x = 1" "\<not> s_cached x"
    "s_generation x = h_generation h"
    using live one priv by (auto simp: bm_live_def bm_refs_def bm_pub_def x_def)
  have scan: "bm_scan p s = None" using bm_scan_cache [OF inv, of p] new by simp
  have fresh: "s_prefix (bm_slots s ! j) \<noteq> p" if "j < length (bm_slots s)" "s_cached (bm_slots s ! j)" for j
    using bm_scan_iff [OF rep, of p j] scan that by simp
  define y where "y = x\<lparr>s_prefix := p, s_hash := ?hash, s_cached := True\<rparr>"
  define s' where "s' = s\<lparr>bm_index := (bm_index s)(?hash \<mapsto> bm_bucket ?hash s @ [?i]),
                          bm_slots := (bm_slots s)[?i := y]\<rparr>"
  have r: "bm_publish h p s = (Inr (), s')"
    using live i full scan
    by (simp add: bm_publish_def bm_checked_live Let_def s'_def y_def x_def full_prefix_def bm_put_def)
  have so: "slot_ok (bm_block_size s) (bm_hasher s) y"
    using d(7) [OF i(1)] i full by (simp add: slot_ok_def y_def x_def full_prefix_def)
  from bm_slots_ok_update [OF rep this, of ?i]
  have "\<forall>z \<in> set (bm_slots s'). slot_ok (bm_block_size s') (bm_hasher s') z" by (simp add: s'_def)
  moreover have "free_ok (bm_slots s') (bm_free_head s') fl"
    using free_ok_update [OF d(4) i(1), of y] i(2) by (simp add: s'_def y_def x_def)
  moreover have "idle_ok (bm_slots s') (bm_idle_lru s') il"
    using idle_ok_update [OF d(5) i(1), of y] i by (simp add: s'_def y_def x_def)
  moreover have "index_ok (bm_slots s') (bm_index s')"
    using index_ok_add [OF d(6) i(1), of y "bm_bucket ?hash s"] i(4) fresh
    by (simp add: s'_def y_def x_def bm_bucket_def)
  ultimately have rep': "bm_rep s' fl il" using d(1-3) by (simp add: bm_rep_def s'_def)
  then have inv': "bm_inv s'" by (auto simp: bm_inv_def)
  have w: "bm_writes s ?i y s'" using i by (simp add: bm_writes_def s'_def)
  note e = bm_writesD [OF w]
  have same: "h_id g = ?i \<Longrightarrow> h_generation g = s_generation x \<Longrightarrow> g = h" for g :: block_handle
    using i by simp
  have pub: "bm_pub s' g \<longleftrightarrow> g = h \<or> bm_pub s g" for g
    using e(3) [of g] i same [of g] by (auto simp: y_def bm_pub_def x_def bm_live_def)
  have refs: "bm_refs s' = bm_refs s"
    using e(2) i by (auto simp: fun_eq_iff bm_refs_def bm_live_def y_def x_def)
  have cache: "bm_cache s' = (bm_cache s)(p \<mapsto> h)"
  proof
    fix q
    have sl: "bm_slots s' = (bm_slots s)[?i := y]" by (simp add: s'_def)
    have "bm_cache s' q = Some g \<longleftrightarrow> ((bm_cache s)(p \<mapsto> h)) q = Some g" for g
    proof -
      have "g \<noteq> h \<Longrightarrow> bm_pub s g \<Longrightarrow> h_id g \<noteq> ?i" using i same [of g] by (auto simp: bm_pub_def bm_live_def x_def)
      then show ?thesis
        using pub [of g] new i bm_cache_iff [OF inv, of q g] bm_cache_iff [OF inv, of p] priv
        by (cases "g = h") (auto simp: bm_cache_iff [OF inv'] sl y_def)
    qed
    then show "bm_cache s' q = ((bm_cache s)(p \<mapsto> h)) q" by (metis not_Some_eq)
  qed
  show thesis
  proof (rule that [OF r inv' refs cache pub])
    show "bm_live s' g = bm_live s g" for g
      using e(1) [of g] i by (auto simp: y_def x_def bm_live_def)
  qed (simp_all add: s'_def)
qed

lemma bm_publish_fails:
  assumes "bm_inv s"
    and "\<not> bm_live s h \<or> bm_refs s h \<noteq> 1 \<or> bm_pub s h \<or> \<not> full_prefix s p \<or> bm_cache s p \<noteq> None"
  shows "bm_publish h p s = (Inl InvalidArgument, s)"
  using assms(2) bm_scan_cache [OF assms(1), of p]
  by (cases "bm_live s h"; cases "bm_scan p s")
     (auto simp: bm_publish_def bm_checked_live bm_refs_def bm_pub_def full_prefix_def)

lemma bm_publish_cases:
  assumes "bm_inv s" and "bm_publish h p s = (r, s')"
  shows "(r = Inr () \<and> bm_refs s h = 1 \<and> \<not> bm_pub s h \<and> full_prefix s p \<and> bm_cache s p = None \<and>
          bm_cache s' = (bm_cache s)(p \<mapsto> h)) \<or> (r = Inl InvalidArgument \<and> s' = s)"
    and "bm_inv s'" and "bm_refs s' = bm_refs s" and "bm_block_size s' = bm_block_size s"
    and "bm_hasher s' = bm_hasher s" and "length (bm_slots s') = length (bm_slots s)"
    and "bm_live s' g = bm_live s g" and "g \<noteq> h \<Longrightarrow> bm_pub s' g = bm_pub s g"
proof -
  let ?bad = "\<not> bm_live s h \<or> bm_refs s h \<noteq> 1 \<or> bm_pub s h \<or> \<not> full_prefix s p \<or> bm_cache s p \<noteq> None"
  have "((r = Inr () \<and> bm_refs s h = 1 \<and> \<not> bm_pub s h \<and> full_prefix s p \<and> bm_cache s p = None \<and>
          bm_cache s' = (bm_cache s)(p \<mapsto> h)) \<or> (r = Inl InvalidArgument \<and> s' = s)) \<and>
        bm_inv s' \<and> bm_refs s' = bm_refs s \<and> bm_block_size s' = bm_block_size s \<and>
        bm_hasher s' = bm_hasher s \<and> length (bm_slots s') = length (bm_slots s) \<and>
        bm_live s' g = bm_live s g \<and> (g \<noteq> h \<longrightarrow> bm_pub s' g = bm_pub s g)"
  proof (cases ?bad)
    case True
    then show ?thesis using bm_publish_fails [OF assms(1) True] assms by simp
  next
    case False
    then have "bm_refs s h = 1" "\<not> bm_pub s h" "full_prefix s p" "bm_cache s p = None" by simp_all
    from bm_publish_ok [OF assms(1) this] show ?thesis
      using assms(2) \<open>bm_refs s h = 1\<close> \<open>\<not> bm_pub s h\<close> \<open>full_prefix s p\<close> \<open>bm_cache s p = None\<close>
      by (metis Pair_inject)
  qed
  then show "(r = Inr () \<and> bm_refs s h = 1 \<and> \<not> bm_pub s h \<and> full_prefix s p \<and> bm_cache s p = None \<and>
          bm_cache s' = (bm_cache s)(p \<mapsto> h)) \<or> (r = Inl InvalidArgument \<and> s' = s)"
    "bm_inv s'" "bm_refs s' = bm_refs s" "bm_block_size s' = bm_block_size s"
    "bm_hasher s' = bm_hasher s" "length (bm_slots s') = length (bm_slots s)"
    "bm_live s' g = bm_live s g" "g \<noteq> h \<Longrightarrow> bm_pub s' g = bm_pub s g"
    by blast+
qed

text \<open>\<open>lookup\<close> is a reference-counting read of the abstract cache.\<close>

lemma bm_lookup_eq:
  assumes "bm_inv s"
  shows "bm_lookup p s =
    (if \<not> full_prefix s p then (Inr None, s)
     else case bm_cache s p of
       None \<Rightarrow> (Inr None, s)
     | Some h \<Rightarrow> and_then (bm_retain h s) (\<lambda>_ s1. (Inr (Some h), s1)))"
  unfolding bm_lookup_def full_prefix_def bm_scan_cache [OF assms, symmetric]
  by (auto simp: Let_def split: option.splits)

lemma bm_cache_live: "bm_inv s \<Longrightarrow> bm_cache s p = Some h \<Longrightarrow> bm_live s h \<and> bm_pub s h"
  by (auto simp: bm_cache_iff bm_pub_def)

lemma bm_cache_full: "bm_inv s \<Longrightarrow> bm_cache s p = Some h \<Longrightarrow> full_prefix s p"
  by (auto simp: bm_cache_iff bm_pub_def bm_live_def bm_inv_def full_prefix_def slot_ok_def
      dest!: bm_repD(7))

section \<open>The reference-counting interface\<close>

definition bm_config :: "block_manager \<Rightarrow> nat \<times> nat \<times> (tokens \<Rightarrow> u64)" where
  "bm_config s = (bm_capacity s, bm_block_size s, bm_hasher s)"

interpretation bm: ref_counted bm_inv bm_refs bm_live bm_pub bm_config
  bm_allocate bm_retain bm_release
proof unfold_locales
  fix s s' :: block_manager and h g :: block_handle and e
  show "bm_refs s h \<le> size_max" if "bm_inv s" using that by (rule bm_refs_le)
  show "bm_live s h" if "0 < bm_refs s h" using that by (rule bm_refs_live)
  show "bm_inv s' \<and> bm_refs s h = 0 \<and> bm_refs s' = (bm_refs s)(h := 1) \<and> \<not> bm_pub s' h \<and>
      bm_config s' = bm_config s" if "bm_inv s" "bm_allocate s = (Inr h, s')"
    using bm_allocate_spec [OF that] by (simp add: bm_config_def bm_capacity_def)
  show "bm_pub s' g = bm_pub s g" if "bm_inv s" "bm_allocate s = (Inr h, s')" "0 < bm_refs s g"
    using bm_allocate_spec(8) that by blast
  show "s' = s" if "bm_inv s" "bm_allocate s = (Inl e, s')"
    using bm_allocate_fails that by blast
  show "bm_inv s' \<and> bm_refs s' = (bm_refs s)(h := bm_refs s h + 1) \<and> bm_config s' = bm_config s"
    "bm_pub s' g = bm_pub s g" "bm_live s h \<and> (bm_live s g \<longrightarrow> bm_live s' g)"
    if "bm_inv s" "bm_retain h s = (Inr (), s')"
    using bm_retain_spec [OF that] by (simp_all add: bm_config_def bm_capacity_def)
  show "\<exists>s'. bm_retain h s = (Inr (), s')" if "bm_inv s" "bm_live s h" "bm_refs s h < size_max"
    using that by (rule bm_retain_total)
  show "s' = s" if "bm_inv s" "bm_retain h s = (Inl e, s')" using bm_retain_error that by blast
  show "bm_inv s' \<and> bm_refs s' = (bm_refs s)(h := bm_refs s h - 1) \<and> bm_config s' = bm_config s"
    "bm_pub s' g = bm_pub s g"
    if "bm_inv s" "bm_release h s = (Inr (), s')"
    using bm_release_spec [OF that] by (simp_all add: bm_config_def bm_capacity_def)
  show "\<exists>s'. bm_release h s = (Inr (), s')" if "bm_inv s" "0 < bm_refs s h"
    using that by (rule bm_release_total)
qed

section \<open>Construction\<close>

lemma bm_create_eq:
  "bm_create capacity block_size (Some f) = Inr s \<longleftrightarrow>
     0 < capacity \<and> 0 < block_size \<and>
     s = \<lparr>bm_slots = map (\<lambda>i. fresh_slot\<lparr>s_next_free :=
                   (if i + 1 < capacity then i + 1 else none)\<rparr>) [0..<capacity],
                 bm_block_size = block_size, bm_hasher = f, bm_free_head = 0,
                 bm_idle_lru = lru_create capacity, bm_index = Map.empty\<rparr>"
  by (auto simp: bm_create_def)

lemma free_chain_initial:
  assumes "k \<le> capacity"
  shows "free_chain (map (\<lambda>i. fresh_slot\<lparr>s_next_free := (if i + 1 < capacity then i + 1 else none)\<rparr>)
           [0..<capacity]) (if k < capacity then k else none) [k..<capacity]"
  using assms
proof (induction "capacity - k" arbitrary: k)
  case 0
  then show ?case by simp
next
  case (Suc d)
  then have k: "k < capacity" by simp
  then have "[k..<capacity] = k # [Suc k..<capacity]" by (rule upt_conv_Cons)
  moreover have "d = capacity - Suc k" "Suc k \<le> capacity" using Suc(2) k by simp_all
  note Suc(1) [OF this]
  ultimately show ?case using k by (cases "Suc k < capacity") simp_all
qed

lemma bm_create_inv:
  assumes "bm_create capacity block_size (Some f) = Inr s" and "capacity \<le> none"
  shows "bm_rep s [0..<capacity] []" and "bm_inv s" and "bm_refs s h = 0" and "bm_cache s p = None"
    and "bm_config s = (capacity, block_size, f)"
proof -
  have pos: "0 < capacity" "0 < block_size" using assms(1) by (auto simp: bm_create_eq)
  define sl where "sl = map (\<lambda>i. fresh_slot\<lparr>s_next_free :=
                   (if i + 1 < capacity then i + 1 else none)\<rparr>) [0..<capacity]"
  have s: "bm_slots s = sl" "bm_block_size s = block_size" "bm_hasher s = f" "bm_free_head s = 0"
    "bm_idle_lru s = lru_create capacity" "bm_index s = Map.empty"
    using assms(1) by (simp_all add: bm_create_eq sl_def)
  have len: "length sl = capacity" by (simp add: sl_def)
  have nth: "s_free (sl ! i)" "s_refs (sl ! i) = 0" "\<not> s_cached (sl ! i)" "s_generation (sl ! i) = 0"
    if "i < capacity" for i
    using that by (simp_all add: sl_def fresh_slot_def)
  have "free_ok sl 0 [0..<capacity]"
    using free_chain_initial [of 0 capacity] pos nth unfolding sl_def [symmetric]
    by (auto simp: free_ok_def len)
  moreover have "idle_ok sl (lru_create capacity) []"
    using lru_create_rep [OF assms(2)] nth by (auto simp: idle_ok_def lru_create_def len)
  moreover have "index_ok sl Map.empty" using nth by (auto simp: index_ok_def len)
  moreover have "\<forall>x \<in> set sl. slot_ok block_size f x"
    using nth by (auto simp: in_set_conv_nth slot_ok_def len)
  ultimately show rep: "bm_rep s [0..<capacity] []"
    using pos assms(2) by (simp add: bm_rep_def s len)
  then show inv: "bm_inv s" by (auto simp: bm_inv_def)
  show "bm_refs s h = 0" using nth by (simp add: bm_refs_def bm_live_def s len)
  have "\<not> bm_pub s h" for h using nth by (simp add: bm_pub_def bm_live_def s len)
  then show "bm_cache s p = None" using bm_cache_iff [OF inv] by (metis not_Some_eq)
  show "bm_config s = (capacity, block_size, f)" by (simp add: bm_config_def bm_capacity_def s len)
qed

section \<open>Whole sequences\<close>

lemma bm_lookup_spec:
  assumes inv: "bm_inv s"
  shows "bm_lookup p s = (Inr None, s') \<Longrightarrow> s' = s \<and> (full_prefix s p \<longrightarrow> bm_cache s p = None)"
    and "bm_lookup p s = (Inr (Some h), s') \<Longrightarrow>
      bm_cache s p = Some h \<and> full_prefix s p \<and> bm_inv s' \<and>
      bm_refs s' = (bm_refs s)(h := bm_refs s h + 1) \<and> bm_cache s' = bm_cache s \<and>
      bm_config s' = bm_config s \<and> (\<forall>g. bm_pub s' g = bm_pub s g) \<and> (\<forall>g. bm_live s' g = bm_live s g)"
    and "bm_lookup p s = (Inl e, s') \<Longrightarrow>
      s' = s \<and> e = OverflowError \<and> (\<exists>h. bm_cache s p = Some h \<and> bm_refs s h = size_max)"
proof -
  show "bm_lookup p s = (Inr None, s') \<Longrightarrow> s' = s \<and> (full_prefix s p \<longrightarrow> bm_cache s p = None)"
    by (auto simp: bm_lookup_eq [OF inv] and_then_Inr_iff split: if_splits option.splits)
  show "bm_lookup p s = (Inl e, s') \<Longrightarrow>
      s' = s \<and> e = OverflowError \<and> (\<exists>h. bm_cache s p = Some h \<and> bm_refs s h = size_max)"
    using bm_cache_live [OF inv] bm_retain_error [OF inv]
    by (auto simp: bm_lookup_eq [OF inv] and_then_Inl_iff split: if_splits option.splits) blast+
  assume "bm_lookup p s = (Inr (Some h), s')"
  then have c: "bm_cache s p = Some h" "full_prefix s p" and r: "bm_retain h s = (Inr (), s')"
    by (auto simp: bm_lookup_eq [OF inv] and_then_Inr_iff split: if_splits option.splits)
  then show "bm_cache s p = Some h \<and> full_prefix s p \<and> bm_inv s' \<and>
      bm_refs s' = (bm_refs s)(h := bm_refs s h + 1) \<and> bm_cache s' = bm_cache s \<and>
      bm_config s' = bm_config s \<and> (\<forall>g. bm_pub s' g = bm_pub s g) \<and> (\<forall>g. bm_live s' g = bm_live s g)"
    using bm_retain_spec [OF inv r] bm_retain_cache [OF inv r]
    by (simp add: bm_config_def bm_capacity_def)
qed

text \<open>One turn of the loop of \<open>acquire\<close>, on a whole block and on the partial tail.\<close>

lemma bm_acquire_block_full:
  assumes inv: "bm_inv s" and full: "full_prefix s p"
    and r: "bm_acquire_block True p blocks s = (r, blocks', s')"
  shows "bm_inv s'" and "bm_config s' = bm_config s"
    and "r = Inr () \<Longrightarrow> \<exists>h. blocks' = blocks @ [h] \<and> bm_refs s' = (bm_refs s)(h := bm_refs s h + 1) \<and>
           bm_cache s' p = Some h"
    and "r = Inl e \<Longrightarrow> blocks' = blocks \<and> s' = s \<and> (e = CapacityError \<or> e = OverflowError)"
    and "bm_cache s q = Some g \<Longrightarrow> 0 < bm_refs s g \<Longrightarrow> bm_cache s' q = Some g"
proof -
  let ?P = "bm_inv s' \<and> bm_config s' = bm_config s \<and>
    (r = Inr () \<longrightarrow> (\<exists>h. blocks' = blocks @ [h] \<and> bm_refs s' = (bm_refs s)(h := bm_refs s h + 1) \<and>
           bm_cache s' p = Some h)) \<and>
    (\<forall>e. r = Inl e \<longrightarrow> blocks' = blocks \<and> s' = s \<and> (e = CapacityError \<or> e = OverflowError)) \<and>
    (bm_cache s q = Some g \<longrightarrow> 0 < bm_refs s g \<longrightarrow> bm_cache s' q = Some g)"
  obtain lr s1 where l: "bm_lookup p s = (lr, s1)" by (cases "bm_lookup p s")
  consider (err) e where "lr = Inl e" | (hit) h where "lr = Inr (Some h)" | (miss) "lr = Inr None"
    by (metis option.exhaust sum.exhaust)
  then have ?P
  proof cases
    case err
    then show ?thesis using r l bm_lookup_spec(3) [OF inv] inv by (auto simp: bm_acquire_block_def)
  next
    case hit
    then show ?thesis using r l bm_lookup_spec(2) [OF inv] by (auto simp: bm_acquire_block_def)
  next
    case miss
    then have s1: "s1 = s" "bm_cache s p = None" using l bm_lookup_spec(1) [OF inv] full by auto
    obtain ar s2 where a: "bm_allocate s = (ar, s2)" by (cases "bm_allocate s")
    show ?thesis
    proof (cases ar)
      case (Inl e)
      then show ?thesis using r l miss s1 a bm_allocate_fails [OF inv] inv
        by (auto simp: bm_acquire_block_def)
    next
      case (Inr h)
      then have a: "bm_allocate s = (Inr h, s2)" using a by simp
      note sp = bm_allocate_spec [OF inv a] and ca = bm_allocate_cache [OF inv a]
      have c2: "bm_cache s2 p = None" using ca(1) [of p] s1(2) by (cases "bm_cache s2 p") auto
      have f2: "full_prefix s2 p" using full sp(9) by (simp add: full_prefix_def)
      obtain s3 where p3: "bm_publish h p s2 = (Inr (), s3)" "bm_inv s3" "bm_refs s3 = bm_refs s2"
        "bm_cache s3 = (bm_cache s2)(p \<mapsto> h)" "bm_block_size s3 = bm_block_size s2"
        "bm_hasher s3 = bm_hasher s2" "length (bm_slots s3) = length (bm_slots s2)"
        using bm_publish_ok [OF sp(1) _ sp(4) f2 c2] sp(5) by (metis fun_upd_same)
      have "r = Inr ()" "blocks' = blocks @ [h]" "s' = s3"
        using r l miss s1 a p3 by (auto simp: bm_acquire_block_def)
      then show ?thesis using p3 sp ca(2) [of q g] s1(2)
        by (auto simp: bm_config_def bm_capacity_def)
    qed
  qed
  then show "bm_inv s'" "bm_config s' = bm_config s"
    "r = Inr () \<Longrightarrow> \<exists>h. blocks' = blocks @ [h] \<and> bm_refs s' = (bm_refs s)(h := bm_refs s h + 1) \<and>
           bm_cache s' p = Some h"
    "r = Inl e \<Longrightarrow> blocks' = blocks \<and> s' = s \<and> (e = CapacityError \<or> e = OverflowError)"
    "bm_cache s q = Some g \<Longrightarrow> 0 < bm_refs s g \<Longrightarrow> bm_cache s' q = Some g"
    by blast+
qed

lemma bm_acquire_block_tail:
  assumes inv: "bm_inv s" and r: "bm_acquire_block False p blocks s = (r, blocks', s')"
  shows "bm_inv s'" and "bm_config s' = bm_config s"
    and "r = Inr () \<Longrightarrow> \<exists>h. blocks' = blocks @ [h] \<and> bm_refs s' = (bm_refs s)(h := bm_refs s h + 1) \<and>
           bm_refs s h = 0 \<and> \<not> bm_pub s' h"
    and "r = Inl e \<Longrightarrow> blocks' = blocks \<and> s' = s \<and> (e = CapacityError \<or> e = OverflowError)"
    and "bm_cache s q = Some g \<Longrightarrow> 0 < bm_refs s g \<Longrightarrow> bm_cache s' q = Some g"
proof -
  obtain ar s2 where a: "bm_allocate s = (ar, s2)" by (cases "bm_allocate s")
  have "bm_inv s' \<and> bm_config s' = bm_config s \<and>
    (r = Inr () \<longrightarrow> (\<exists>h. blocks' = blocks @ [h] \<and> bm_refs s' = (bm_refs s)(h := bm_refs s h + 1) \<and>
           bm_refs s h = 0 \<and> \<not> bm_pub s' h)) \<and>
    (r = Inl e \<longrightarrow> blocks' = blocks \<and> s' = s \<and> (e = CapacityError \<or> e = OverflowError)) \<and>
    (bm_cache s q = Some g \<longrightarrow> 0 < bm_refs s g \<longrightarrow> bm_cache s' q = Some g)"
  proof (cases ar)
    case (Inl e')
    then show ?thesis using r a bm_allocate_fails [OF inv] inv by (auto simp: bm_acquire_block_def)
  next
    case (Inr h)
    then have a: "bm_allocate s = (Inr h, s2)" using a by simp
    show ?thesis
      using r a bm_allocate_spec [OF inv a] bm_allocate_cache(2) [OF inv a, of q g]
      by (auto simp: bm_acquire_block_def bm_config_def bm_capacity_def)
  qed
  then show "bm_inv s'" "bm_config s' = bm_config s"
    "r = Inr () \<Longrightarrow> \<exists>h. blocks' = blocks @ [h] \<and> bm_refs s' = (bm_refs s)(h := bm_refs s h + 1) \<and>
           bm_refs s h = 0 \<and> \<not> bm_pub s' h"
    "r = Inl e \<Longrightarrow> blocks' = blocks \<and> s' = s \<and> (e = CapacityError \<or> e = OverflowError)"
    "bm_cache s q = Some g \<Longrightarrow> 0 < bm_refs s g \<Longrightarrow> bm_cache s' q = Some g"
    by blast+
qed

text \<open>
  The loop, from any state between two turns: \<open>blocks\<close> holds one reference per entry and is
  the cached block of every whole prefix handled so far.
\<close>

definition acquired :: "block_manager \<Rightarrow> tokens \<Rightarrow> block_handle list \<Rightarrow> bool" where
  "acquired s toks blocks \<longleftrightarrow>
     (\<forall>i < length blocks. (i + 1) * bm_block_size s \<le> length toks \<longrightarrow>
        bm_cache s (take ((i + 1) * bm_block_size s) toks) = Some (blocks ! i))"

lemma count_list_pos: "x \<in> set xs \<Longrightarrow> 0 < count_list xs x"
  by (induction xs) auto

lemma bm_config_block_size: "bm_config s' = bm_config s \<Longrightarrow> bm_block_size s' = bm_block_size s"
  by (simp add: bm_config_def)

lemma acquired_mono:
  assumes "acquired s toks blocks" and "bm_config s' = bm_config s"
    and own: "\<And>h. count_list blocks h \<le> bm_refs s h"
    and keep: "\<And>q g. bm_cache s q = Some g \<Longrightarrow> 0 < bm_refs s g \<Longrightarrow> bm_cache s' q = Some g"
  shows "acquired s' toks blocks"
  unfolding acquired_def bm_config_block_size [OF assms(2)]
proof (intro allI impI)
  fix i
  assume i: "i < length blocks" "(i + 1) * bm_block_size s \<le> length toks"
  have "0 < bm_refs s (blocks ! i)"
    using own [of "blocks ! i"] count_list_pos [OF nth_mem [OF i(1)]] by linarith
  moreover have "bm_cache s (take ((i + 1) * bm_block_size s) toks) = Some (blocks ! i)"
    using assms(1) i by (simp only: acquired_def)
  ultimately show "bm_cache s' (take ((i + 1) * bm_block_size s) toks) = Some (blocks ! i)"
    using keep by blast
qed

lemma acquired_snoc:
  assumes "acquired s prefix blocks" and "length prefix = length blocks * bm_block_size s"
    and "length chunk \<le> bm_block_size s"
    and "length chunk = bm_block_size s \<Longrightarrow> bm_cache s (prefix @ chunk) = Some h"
  shows "acquired s (prefix @ chunk) (blocks @ [h])"
  unfolding acquired_def
proof (intro allI impI)
  fix i
  let ?b = "bm_block_size s"
  assume i: "i < length (blocks @ [h])" "(i + 1) * ?b \<le> length (prefix @ chunk)"
  show "bm_cache s (take ((i + 1) * ?b) (prefix @ chunk)) = Some ((blocks @ [h]) ! i)"
  proof (cases "i < length blocks")
    case True
    then have "(i + 1) * ?b \<le> length prefix" unfolding assms(2) by (intro mult_le_mono1) simp
    then show ?thesis using assms(1) True by (simp add: acquired_def nth_append)
  next
    case False
    then have "i = length blocks" using i by simp
    then have "length chunk = ?b" "(i + 1) * ?b = length (prefix @ chunk)" using i assms(2,3) by simp_all
    then show ?thesis using assms(4) \<open>i = length blocks\<close> by simp
  qed
qed

lemma bm_acquire_loop_Nil [simp]: "bm_acquire_loop [] prefix blocks s = (Inr (), blocks, s)"
  by (subst bm_acquire_loop.simps) simp

lemma bm_acquire_loop_step:
  assumes "rest \<noteq> []" and "0 < bm_block_size s"
    and "count = min (bm_block_size s) (length rest)" and "p = prefix @ take count rest"
    and "bm_acquire_block (count = bm_block_size s) p blocks s = (r1, bl1, s1)"
  shows "bm_acquire_loop rest prefix blocks s =
    (case r1 of Inl e \<Rightarrow> (Inl e, bl1, s1) | Inr u \<Rightarrow> bm_acquire_loop (drop count rest) p bl1 s1)"
  unfolding bm_acquire_loop.simps [of rest] Let_def assms(3) [symmetric] assms(4) [symmetric] assms(5)
  using assms(1,2) by (cases r1) simp_all

lemma bm_acquire_loop_spec:
  assumes "bm_inv s" and "length prefix = length blocks * bm_block_size s"
    and "\<And>h. count_list blocks h \<le> bm_refs s h" and "acquired s prefix blocks"
    and "bm_acquire_loop rest prefix blocks s = (r, blocks', s')"
  shows "bm_inv s' \<and> bm_config s' = bm_config s \<and>
    (\<exists>new. blocks' = blocks @ new \<and> bm_refs s' = (\<lambda>h. bm_refs s h + count_list new h)) \<and>
    (r = Inr () \<longrightarrow>
       length blocks' = ceil_blocks (length (prefix @ rest)) (bm_block_size s) \<and>
       acquired s' (prefix @ rest) blocks' \<and>
       (length (prefix @ rest) mod bm_block_size s \<noteq> 0 \<longrightarrow>
          bm_refs s' (last blocks') = 1 \<and> \<not> bm_pub s' (last blocks'))) \<and>
    (\<forall>e. r = Inl e \<longrightarrow> e = CapacityError \<or> e = OverflowError)"
  using assms
proof (induction "length rest" arbitrary: rest prefix blocks s rule: less_induct)
  case (less rest prefix blocks s)
  let ?b = "bm_block_size s"
  have b: "0 < ?b" using less.prems(1) by (auto simp: bm_inv_def dest: bm_repD(3))
  show ?case
  proof (cases "rest = []")
    case True
    then have "r = Inr ()" "blocks' = blocks" "s' = s" using less.prems(5) by simp_all
    moreover have "length blocks = ceil_blocks (length prefix) ?b"
      using less.prems(2) b by (simp add: ceil_blocks_def)
    ultimately show ?thesis using less.prems True by simp
  next
    case ne: False
    define count where "count = min ?b (length rest)"
    define p where "p = prefix @ take count rest"
    obtain r1 bl1 s1 where step: "bm_acquire_block (count = ?b) p blocks s = (r1, bl1, s1)"
      by (cases "bm_acquire_block (count = ?b) p blocks s")
    note loop = bm_acquire_loop_step [OF ne b count_def p_def step]
    show ?thesis
    proof (cases "count = ?b")
      case True
      have lp: "length p = (length blocks + 1) * ?b"
        using less.prems(2) True by (simp add: p_def count_def min_def split: if_splits)
      then have "full_prefix s p" using b by (auto simp: full_prefix_def)
      note blk = bm_acquire_block_full [OF less.prems(1) this, of blocks r1 bl1 s1]
      have blk': "bm_acquire_block True p blocks s = (r1, bl1, s1)" using step True by simp
      note blk = blk [OF blk']
      show ?thesis
      proof (cases r1)
        case (Inl e)
        then show ?thesis using blk(1,2,4) loop less.prems(1,5) by (auto intro!: exI [of _ "[]"])
      next
        case (Inr u)
        then obtain h where h: "bl1 = blocks @ [h]" "bm_refs s1 = (bm_refs s)(h := bm_refs s h + 1)"
          "bm_cache s1 p = Some h"
          using blk(3) by auto
        have b1: "bm_block_size s1 = ?b" using blk(2) by (rule bm_config_block_size)
        have own: "count_list bl1 g \<le> bm_refs s1 g" for g using less.prems(3) [of g] h by auto
        have "acquired s1 prefix blocks"
          by (rule acquired_mono [OF less.prems(4) blk(2) less.prems(3) blk(5)])
        then have acq: "acquired s1 p bl1"
          using acquired_snoc [of s1 prefix blocks "take count rest" h] h(1,3) lp less.prems(2) b1
          by (simp add: p_def)
        have len: "length p = length bl1 * bm_block_size s1" using lp h(1) b1 by simp
        have "bm_acquire_loop (drop count rest) p bl1 s1 = (r, blocks', s')"
          using loop Inr less.prems(5) by simp
        moreover have "length (drop count rest) < length rest" using b True ne by simp
        ultimately have ih: "bm_inv s' \<and> bm_config s' = bm_config s1 \<and>
          (\<exists>new. blocks' = bl1 @ new \<and> bm_refs s' = (\<lambda>h. bm_refs s1 h + count_list new h)) \<and>
          (r = Inr () \<longrightarrow>
             length blocks' = ceil_blocks (length (p @ drop count rest)) (bm_block_size s1) \<and>
             acquired s' (p @ drop count rest) blocks' \<and>
             (length (p @ drop count rest) mod bm_block_size s1 \<noteq> 0 \<longrightarrow>
                bm_refs s' (last blocks') = 1 \<and> \<not> bm_pub s' (last blocks'))) \<and>
          (\<forall>e. r = Inl e \<longrightarrow> e = CapacityError \<or> e = OverflowError)"
          using less.hyps blk(1) len own acq by blast
        have pr: "p @ drop count rest = prefix @ rest" by (simp add: p_def)
        obtain new where new: "blocks' = bl1 @ new" "bm_refs s' = (\<lambda>h. bm_refs s1 h + count_list new h)"
          using ih by blast
        then have "blocks' = blocks @ (h # new) \<and>
          bm_refs s' = (\<lambda>g. bm_refs s g + count_list (h # new) g)"
          using h by (auto simp: fun_eq_iff)
        then have ex: "\<exists>new. blocks' = blocks @ new \<and> bm_refs s' = (\<lambda>h. bm_refs s h + count_list new h)"
          by (rule exI)
        note ih = ih [unfolded pr b1]
        show ?thesis
          using ih [THEN conjunct1] ih [THEN conjunct2, THEN conjunct1] blk(2) ex
            ih [THEN conjunct2, THEN conjunct2, THEN conjunct2]
          by (simp only: simp_thms)
      qed
    next
      case False
      then have short: "length rest < ?b" "count = length rest" "p = prefix @ rest"
        by (auto simp: count_def p_def)
      have blk': "bm_acquire_block False p blocks s = (r1, bl1, s1)" using step False by simp
      note blk = bm_acquire_block_tail [OF less.prems(1) blk']
      show ?thesis
      proof (cases r1)
        case (Inl e)
        then show ?thesis using blk(1,2,4) loop less.prems(1,5) by (auto intro!: exI [of _ "[]"])
      next
        case (Inr u)
        then obtain h where h: "bl1 = blocks @ [h]" "bm_refs s1 = (bm_refs s)(h := bm_refs s h + 1)"
          "bm_refs s h = 0" "\<not> bm_pub s1 h"
          using blk(3) by auto
        have b1: "bm_block_size s1 = ?b" using blk(2) by (rule bm_config_block_size)
        have res: "r = Inr ()" "blocks' = bl1" "s' = s1"
          using loop Inr less.prems(5) short by simp_all
        have lr: "0 < length rest" using ne by simp
        have len: "length (prefix @ rest) = length blocks * ?b + length rest"
          using less.prems(2) by simp
        have "ceil_blocks (length (prefix @ rest)) ?b = length blocks + 1"
          unfolding len using short lr by (simp add: ceil_blocks_def)
        moreover have "acquired s1 prefix blocks"
          by (rule acquired_mono [OF less.prems(4) blk(2) less.prems(3) blk(5)])
        then have "acquired s1 (prefix @ rest) bl1"
          using acquired_snoc [of s1 prefix blocks rest h] h(1) short less.prems(2) b1 by simp
        ultimately show ?thesis using res blk h by (auto simp: fun_eq_iff)
      qed
    qed
  qed
qed

lemma acquired_Nil [simp]: "acquired s toks []"
  by (simp add: acquired_def)

text \<open>
  \<open>acquire\<close>: on success the table has one block per chunk, each holding one new reference,
  the whole chunks are the cached blocks of their prefixes and the partial tail is private;
  on failure every reference is given back.
\<close>

lemma bm_acquire_ok:
  assumes inv: "bm_inv s" and r: "bm_acquire toks s = (Inr table, s')"
  shows "bm_inv s'" and "bm_config s' = bm_config s" and "t_token_count table = length toks"
    and "length (t_blocks table) = ceil_blocks (length toks) (bm_block_size s)"
    and "bm_refs s' = (\<lambda>h. bm_refs s h + count_list (t_blocks table) h)"
    and "acquired s' toks (t_blocks table)"
    and "length toks mod bm_block_size s \<noteq> 0 \<Longrightarrow>
      bm_refs s' (last (t_blocks table)) = 1 \<and> \<not> bm_pub s' (last (t_blocks table))"
proof -
  obtain lr blocks s1 where l: "bm_acquire_loop toks [] [] s = (lr, blocks, s1)"
    by (cases "bm_acquire_loop toks [] [] s")
  note spec = bm_acquire_loop_spec [OF inv _ _ _ l, simplified]
  obtain u where "lr = Inr u" using l r by (cases lr) (auto simp: bm_acquire_def and_then_Inr_iff)
  then have "table = \<lparr>t_blocks = blocks, t_token_count = length toks\<rparr>" "s' = s1" "lr = Inr ()"
    using l r by (simp_all add: bm_acquire_def)
  then show "bm_inv s'" "bm_config s' = bm_config s" "t_token_count table = length toks"
    "length (t_blocks table) = ceil_blocks (length toks) (bm_block_size s)"
    "bm_refs s' = (\<lambda>h. bm_refs s h + count_list (t_blocks table) h)"
    "acquired s' toks (t_blocks table)"
    "length toks mod bm_block_size s \<noteq> 0 \<Longrightarrow>
      bm_refs s' (last (t_blocks table)) = 1 \<and> \<not> bm_pub s' (last (t_blocks table))"
    using spec by (simp_all add: \<open>lr = Inr ()\<close>) metis
qed

lemma bm_acquire_fails:
  assumes inv: "bm_inv s" and r: "bm_acquire toks s = (Inl e, s')"
  shows "bm_inv s'" and "bm_config s' = bm_config s" and "bm_refs s' = bm_refs s"
    and "e = CapacityError \<or> e = OverflowError"
proof -
  obtain lr blocks s1 where l: "bm_acquire_loop toks [] [] s = (lr, blocks, s1)"
    by (cases "bm_acquire_loop toks [] [] s")
  note spec = bm_acquire_loop_spec [OF inv _ _ _ l, simplified]
  obtain e' where lr: "lr = Inl e'" using l r by (cases lr) (auto simp: bm_acquire_def)
  have refs: "bm_refs s1 = (\<lambda>h. bm_refs s h + count_list blocks h)" using spec by blast
  have "count_list blocks h \<le> bm_refs s1 h" for h by (simp add: refs)
  then obtain s2 where s2: "for_each bm_release blocks s1 = (Inr (), s2)" "bm_inv s2"
    "bm_config s2 = bm_config s1" "bm_refs s2 = (\<lambda>h. bm_refs s1 h - count_list blocks h)"
    using bm.free_all [of s1 blocks] spec by blast
  then have "s' = s2" "e = e'" using l r lr by (simp_all add: bm_acquire_def)
  then show "bm_inv s'" "bm_config s' = bm_config s" "bm_refs s' = bm_refs s"
    "e = CapacityError \<or> e = OverflowError"
    using s2 refs spec lr by (simp_all add: fun_eq_iff)
qed

text \<open>What \<open>validate\<close> accepts: a table of the right length of distinct referenced blocks.\<close>

definition table_valid :: "block_table \<Rightarrow> block_manager \<Rightarrow> bool" where
  "table_valid table s \<longleftrightarrow>
     length (t_blocks table) = ceil_blocks (t_token_count table) (bm_block_size s) \<and>
     distinct (t_blocks table) \<and> (\<forall>h \<in> set (t_blocks table). 0 < bm_refs s h)"

lemma bm_refs_pos:
  "0 < bm_refs s h \<longleftrightarrow> (\<exists>sl. bm_checked h s = Inr sl \<and> s_refs sl \<noteq> 0)"
  by (auto simp: bm_refs_def bm_checked_live)

lemma bm_validate_blocks_iff:
  "bm_validate_blocks before hs s = Inr () \<longleftrightarrow>
     distinct hs \<and> set hs \<inter> set before = {} \<and> (\<forall>h \<in> set hs. 0 < bm_refs s h)"
  by (induction before hs s rule: bm_validate_blocks.induct)
     (auto simp: bm_refs_pos split: sum.splits)

lemma bm_validate_iff: "bm_validate table s = Inr () \<longleftrightarrow> table_valid table s"
  by (auto simp: bm_validate_def bm_validate_blocks_iff table_valid_def)

lemma bm_validate_blocks_error: "bm_validate_blocks before hs s = Inl e \<Longrightarrow> e = InvalidArgument"
  by (induction before hs s rule: bm_validate_blocks.induct)
     (auto simp: bm_checked_def split: sum.splits if_splits)

lemma bm_validate_cases:
  obtains "table_valid table s" and "bm_validate table s = Inr ()"
  | "\<not> table_valid table s" and "bm_validate table s = Inl InvalidArgument"
  using bm_validate_iff [of table s] bm_validate_blocks_error [of "[]" "t_blocks table" s]
  by (cases "bm_validate table s") (auto simp: bm_validate_def split: if_splits)

lemma count_list_distinct: "distinct xs \<Longrightarrow> count_list xs x = (if x \<in> set xs then 1 else 0)"
  by (induction xs) auto

text \<open>Releasing a table never stops half way.\<close>

lemma bm_release_table_cases:
  assumes inv: "bm_inv s"
  obtains (ok) s' where "table_valid table s"
      and "bm_release_table table s = (Inr \<lparr>t_blocks = [], t_token_count = 0\<rparr>, s')"
      and "bm_inv s'" and "bm_config s' = bm_config s"
      and "bm_refs s' = (\<lambda>h. bm_refs s h - (if h \<in> set (t_blocks table) then 1 else 0))"
  | (invalid) "\<not> table_valid table s" and "bm_release_table table s = (Inl InvalidArgument, s)"
proof (cases rule: bm_validate_cases [of table s])
  case 1
  then have c: "count_list (t_blocks table) h = (if h \<in> set (t_blocks table) then 1 else 0)" for h
    by (simp add: count_list_distinct table_valid_def)
  then have "count_list (t_blocks table) h \<le> bm_refs s h" for h
    using 1 by (auto simp: table_valid_def Suc_le_eq)
  then obtain s' where "for_each bm_release (t_blocks table) s = (Inr (), s')" "bm_inv s'"
    "bm_config s' = bm_config s" "bm_refs s' = (\<lambda>h. bm_refs s h - count_list (t_blocks table) h)"
    using bm.free_all [OF inv] by blast
  then show thesis using 1 ok [of s'] c by (simp add: bm_release_table_def)
next
  case 2
  then show thesis using invalid by (simp add: bm_release_table_def)
qed

text \<open>Sharing a table takes one reference on every block, or none at all.\<close>

lemma bm_share_cases:
  assumes inv: "bm_inv s"
  obtains (ok) s' where "table_valid table s" and "bm_share table s = (Inr table, s')"
      and "bm_inv s'" and "bm_config s' = bm_config s"
      and "bm_refs s' = (\<lambda>h. bm_refs s h + (if h \<in> set (t_blocks table) then 1 else 0))"
  | (exhausted) e s' h where "table_valid table s" and "bm_share table s = (Inl e, s')"
      and "bm_inv s'" and "bm_config s' = bm_config s" and "bm_refs s' = bm_refs s"
      and "h \<in> set (t_blocks table)" and "bm_refs s h = size_max"
  | (invalid) "\<not> table_valid table s" and "bm_share table s = (Inl InvalidArgument, s)"
proof (cases rule: bm_validate_cases [of table s])
  case 1
  obtain r s' where r: "retain_all bm_retain bm_release [] (t_blocks table) s = (r, s')"
    by (cases "retain_all bm_retain bm_release [] (t_blocks table) s")
  have c: "count_list (t_blocks table) h = (if h \<in> set (t_blocks table) then 1 else 0)" for h
    using 1 by (simp add: count_list_distinct table_valid_def)
  show thesis
  proof (cases r)
    case (Inr u)
    then have "retain_all bm_retain bm_release [] (t_blocks table) s = (Inr (), s')" using r by simp
    from bm.retain_all_ok [OF inv this] show thesis
      using 1 ok [of s'] r Inr c by (simp add: bm_share_def)
  next
    case (Inl e)
    have "\<exists>h \<in> set (t_blocks table). bm_refs s h = size_max"
    proof (rule ccontr)
      assume no: "\<not> ?thesis"
      have "bm_live s h \<and> bm_refs s h + count_list (t_blocks table) h \<le> size_max"
        if "h \<in> set (t_blocks table)" for h
        using that no 1 bm_refs_le [OF inv, of h] bm_refs_live [of s h]
        by (simp add: c table_valid_def) (metis le_neq_implies_less Suc_leI)
      then have "\<exists>t. retain_all bm_retain bm_release [] (t_blocks table) s = (Inr (), t)"
        by (rule bm.retain_all_total [OF inv])
      then show False using r Inl by auto
    qed
    moreover have "bm_inv s' \<and> bm_config s' = bm_config s \<and> bm_refs s' = bm_refs s"
      using bm.retain_all_err [OF inv _ r [unfolded Inl]] by simp
    ultimately show thesis using exhausted [of e s'] 1 r Inl by (auto simp: bm_share_def)
  qed
next
  case 2
  then show thesis using invalid by (simp add: bm_share_def)
qed

text \<open>A table whose handles are valid translates every token index it holds.\<close>

lemma bm_block_at_ok:
  assumes "bm_inv s" and "table_valid table s" and "i < t_token_count table"
  shows "bm_block_at table i s = Inr (t_blocks table ! (i div bm_block_size s))"
    and "t_blocks table ! (i div bm_block_size s) \<in> set (t_blocks table)"
proof -
  have "0 < bm_block_size s" using assms(1) by (auto simp: bm_inv_def dest: bm_repD(3))
  then have lt: "i div bm_block_size s < length (t_blocks table)"
    using assms(2,3) by (simp add: table_valid_def ceil_blocks_div_less)
  then show "t_blocks table ! (i div bm_block_size s) \<in> set (t_blocks table)" by simp
  then obtain sl where "bm_checked (t_blocks table ! (i div bm_block_size s)) s = Inr sl" "s_refs sl \<noteq> 0"
    using assms(2) unfolding table_valid_def bm_refs_pos by blast
  then show "bm_block_at table i s = Inr (t_blocks table ! (i div bm_block_size s))"
    using assms(2,3) lt by (auto simp: bm_block_at_def Let_def table_valid_def bm_refs_pos)
qed

section \<open>Statistics\<close>

lemma bm_stats_count:
  "bm_stats s = \<lparr>st_capacity = length (bm_slots s),
     st_free = length (filter s_free (bm_slots s)),
     st_active = length (filter (\<lambda>x. \<not> s_free x \<and> s_refs x \<noteq> 0) (bm_slots s)),
     st_cached_idle = length (filter (\<lambda>x. \<not> s_free x \<and> s_refs x = 0) (bm_slots s))\<rparr>"
proof -
  define f where "f = (\<lambda>r (sl :: slot). if s_free sl then r\<lparr>st_free := st_free r + 1\<rparr>
                   else if s_refs sl \<noteq> 0 then r\<lparr>st_active := st_active r + 1\<rparr>
                   else r\<lparr>st_cached_idle := st_cached_idle r + 1\<rparr> :: bm_stats_t)"
  have "foldl f \<lparr>st_capacity = c, st_free = a, st_active = b, st_cached_idle = d\<rparr> xs =
    \<lparr>st_capacity = c, st_free = a + length (filter s_free xs),
     st_active = b + length (filter (\<lambda>x. \<not> s_free x \<and> s_refs x \<noteq> 0) xs),
     st_cached_idle = d + length (filter (\<lambda>x. \<not> s_free x \<and> s_refs x = 0) xs)\<rparr>" for c a b d and xs :: "slot list"
    by (induction xs arbitrary: a b d) (simp_all add: f_def)
  from this [of "length (bm_slots s)" 0 0 0 "bm_slots s"] show ?thesis
    unfolding bm_stats_def f_def by simp
qed

lemma length_filter_distinct:
  assumes "distinct xs" and "set xs = {i. i < length ys \<and> P (ys ! i)}"
  shows "length (filter P ys) = length xs"
  using assms by (metis length_filter_conv_card distinct_card)

lemma bm_stats_rep:
  assumes "bm_rep s fl il"
  shows "st_free (bm_stats s) = length fl" and "st_cached_idle (bm_stats s) = length il"
    and "st_free (bm_stats s) + st_active (bm_stats s) + st_cached_idle (bm_stats s) = bm_capacity s"
proof -
  show "st_free (bm_stats s) = length fl"
    using bm_repD(4) [OF assms] length_filter_distinct [of fl "bm_slots s" s_free]
    by (simp add: bm_stats_count free_ok_def)
  show "st_cached_idle (bm_stats s) = length il"
    using bm_repD(5) [OF assms] length_filter_distinct [of il "bm_slots s" "\<lambda>x. \<not> s_free x \<and> s_refs x = 0"]
    by (simp add: bm_stats_count idle_ok_def lru_rep_def)
  have "length (filter s_free xs) + length (filter (\<lambda>x. \<not> s_free x \<and> s_refs x \<noteq> 0) xs) +
    length (filter (\<lambda>x. \<not> s_free x \<and> s_refs x = 0) xs) = length xs" for xs :: "slot list"
    by (induction xs) auto
  then show "st_free (bm_stats s) + st_active (bm_stats s) + st_cached_idle (bm_stats s) = bm_capacity s"
    by (simp add: bm_stats_count bm_capacity_def)
qed

end
