(* ===== verification/Block_Manager_Runs.thy ===== *)
theory Block_Manager_Runs
  imports Block_Manager
begin

text \<open>
  Runs of \<open>BlockManager\<close>: the step relation of its public operations, the invariant of the
  reachable states, what never changes along a run (generations, dead handles, referenced
  cached blocks), and the properties of the component with their witnesses.
\<close>

section \<open>Runs of the manager\<close>

text \<open>
  The four operations that write slots, with any arguments and any outcome. Every public
  operation is a sequence of them (\<open>bm_step_prims\<close>), so what each of the four keeps, all
  keep.
\<close>

inductive bm_prim :: "block_manager \<Rightarrow> block_manager \<Rightarrow> bool" where
  allocate: "bm_allocate s = (r, s') \<Longrightarrow> bm_prim s s'"
| retain: "bm_retain h s = (r, s') \<Longrightarrow> bm_prim s s'"
| release: "bm_release h s = (r, s') \<Longrightarrow> bm_prim s s'"
| publish: "bm_publish h p s = (r, s') \<Longrightarrow> bm_prim s s'"

inductive bm_step :: "block_manager \<Rightarrow> block_manager \<Rightarrow> bool" where
  allocate: "bm_allocate s = (r, s') \<Longrightarrow> bm_step s s'"
| retain: "bm_retain h s = (r, s') \<Longrightarrow> bm_step s s'"
| release: "bm_release h s = (r, s') \<Longrightarrow> bm_step s s'"
| publish: "bm_publish h p s = (r, s') \<Longrightarrow> bm_step s s'"
| lookup: "bm_lookup p s = (r, s') \<Longrightarrow> bm_step s s'"
| acquire: "bm_acquire toks s = (r, s') \<Longrightarrow> bm_step s s'"
| share: "bm_share table s = (r, s') \<Longrightarrow> bm_step s s'"
| release_table: "bm_release_table table s = (r, s') \<Longrightarrow> bm_step s s'"

text \<open>The states a manager built by the constructor can reach.\<close>

inductive bm_reachable :: "block_manager \<Rightarrow> bool" where
  create: "bm_create capacity block_size hasher = Inr s \<Longrightarrow> capacity \<le> none \<Longrightarrow> bm_reachable s"
| step: "bm_reachable s \<Longrightarrow> bm_step s s' \<Longrightarrow> bm_reachable s'"

lemmas bm_prim_intros = bm_prim.intros [THEN r_into_rtranclp [where r = bm_prim]]

lemma for_each_release_prims: "for_each bm_release hs s = (r, s') \<Longrightarrow> bm_prim\<^sup>*\<^sup>* s s'"
proof (induction hs arbitrary: s)
  case Nil
  then show ?case by simp
next
  case (Cons h hs)
  obtain r1 s1 where 1: "bm_release h s = (r1, s1)" by (cases "bm_release h s")
  note p = bm_prim_intros(3) [OF 1]
  show ?case
  proof (cases r1)
    case (Inl e)
    then show ?thesis using Cons.prems 1 p by simp
  next
    case (Inr u)
    then have "bm_prim\<^sup>*\<^sup>* s1 s'" using Cons 1 by simp
    then show ?thesis using p by (rule rtranclp_trans [rotated])
  qed
qed

lemma retain_all_prims:
  "retain_all bm_retain bm_release held hs s = (r, s') \<Longrightarrow> bm_prim\<^sup>*\<^sup>* s s'"
proof (induction hs arbitrary: held s)
  case Nil
  then show ?case by simp
next
  case (Cons h hs)
  obtain r1 s1 where 1: "bm_retain h s = (r1, s1)" by (cases "bm_retain h s")
  obtain r2 s2 where 2: "for_each bm_release held s1 = (r2, s2)" by (cases "for_each bm_release held s1")
  have p: "bm_prim\<^sup>*\<^sup>* s s1" "bm_prim\<^sup>*\<^sup>* s1 s2"
    using bm_prim_intros(2) [OF 1] for_each_release_prims [OF 2] .
  show ?case
  proof (cases r1)
    case (Inl e)
    then have "s' = s2" using Cons.prems 1 2 by (cases r2) auto
    then show ?thesis using p by (auto intro: rtranclp_trans)
  next
    case (Inr u)
    then have "bm_prim\<^sup>*\<^sup>* s1 s'" using Cons 1 by simp
    then show ?thesis using p by (auto intro: rtranclp_trans)
  qed
qed

lemma bm_lookup_prims:
  assumes "bm_lookup p s = (r, s')"
  shows "bm_prim\<^sup>*\<^sup>* s s'"
proof -
  have "s' = s \<or> (\<exists>h r1. bm_retain h s = (r1, s'))"
  proof (cases "p = [] \<or> length p mod bm_block_size s \<noteq> 0 \<or> bm_scan p s = None")
    case True
    then show ?thesis using assms by (auto simp: bm_lookup_def split: if_splits)
  next
    case False
    then obtain i where i: "bm_scan p s = Some i" by auto
    define h where "h = \<lparr>h_id = i, h_generation = s_generation (bm_slots s ! i)\<rparr>"
    obtain r1 s1 where "bm_retain h s = (r1, s1)" by (cases "bm_retain h s")
    then show ?thesis using assms False i
      by (cases r1) (auto simp: bm_lookup_def Let_def h_def [symmetric])
  qed
  then show ?thesis by (auto intro: bm_prim_intros)
qed

lemma bm_acquire_block_prims:
  assumes "bm_acquire_block full p blocks s = (r, blocks', s')"
  shows "bm_prim\<^sup>*\<^sup>* s s'"
proof -
  obtain lr s1 where l: "bm_lookup p s = (lr, s1)" by (cases "bm_lookup p s")
  define s1' where "s1' = (if full then s1 else s)"
  have p1: "bm_prim\<^sup>*\<^sup>* s s1'" using bm_lookup_prims [OF l] by (simp add: s1'_def)
  obtain ar s2 where a: "bm_allocate s1' = (ar, s2)" by (cases "bm_allocate s1'")
  have "s' = s1' \<or> s' = s2 \<or> (\<exists>h pr. bm_publish h p s2 = (pr, s'))"
    using assms l a by (auto simp: bm_acquire_block_def s1'_def split: if_splits sum.splits option.splits prod.splits)
  moreover have "bm_prim\<^sup>*\<^sup>* s s2" using p1 bm_prim_intros(1) [OF a] by (rule rtranclp_trans)
  ultimately show ?thesis using p1 bm_prim_intros(4) by (auto intro: rtranclp_trans)
qed

lemma bm_acquire_loop_prims:
  "bm_acquire_loop rest prefix blocks s = (r, blocks', s') \<Longrightarrow> bm_prim\<^sup>*\<^sup>* s s'"
proof (induction "length rest" arbitrary: rest prefix blocks s rule: less_induct)
  case less
  show ?case
  proof (cases "rest = [] \<or> bm_block_size s = 0")
    case True
    then show ?thesis using less.prems by (subst (asm) bm_acquire_loop.simps) (auto split: if_splits)
  next
    case False
    define count where "count = min (bm_block_size s) (length rest)"
    define p where "p = prefix @ take count rest"
    obtain r1 bl1 s1 where step: "bm_acquire_block (count = bm_block_size s) p blocks s = (r1, bl1, s1)"
      by (cases "bm_acquire_block (count = bm_block_size s) p blocks s")
    note loop = bm_acquire_loop_step [OF _ _ count_def p_def step]
    have "0 < count" using False by (simp add: count_def)
    then have "length (drop count rest) < length rest" using False by simp
    from less.hyps [OF this] have "bm_prim\<^sup>*\<^sup>* s1 s'" if "r1 = Inr u" for u
      using that loop less.prems False by simp
    then show ?thesis using bm_acquire_block_prims [OF step] loop less.prems False
      by (cases r1) (auto intro: rtranclp_trans)
  qed
qed

theorem bm_step_prims: "bm_step s s' \<Longrightarrow> bm_prim\<^sup>*\<^sup>* s s'"
proof (induction rule: bm_step.induct)
  case (acquire toks s r s')
  obtain lr blocks s1 where l: "bm_acquire_loop toks [] [] s = (lr, blocks, s1)"
    by (cases "bm_acquire_loop toks [] [] s")
  obtain rr s2 where f: "for_each bm_release blocks s1 = (rr, s2)"
    by (cases "for_each bm_release blocks s1")
  have "s' = s1 \<or> s' = s2" using acquire l f by (cases lr; cases rr) (auto simp: bm_acquire_def)
  then show ?case using bm_acquire_loop_prims [OF l] for_each_release_prims [OF f]
    by (auto intro: rtranclp_trans)
next
  case (share table s r s')
  obtain rr s1 where f: "retain_all bm_retain bm_release [] (t_blocks table) s = (rr, s1)"
    by (cases "retain_all bm_retain bm_release [] (t_blocks table) s")
  then have "s' = s \<or> s' = s1" using share by (cases rr) (auto simp: bm_share_def split: sum.splits)
  then show ?case using retain_all_prims [OF f] by auto
next
  case (release_table table s r s')
  obtain rr s1 where f: "for_each bm_release (t_blocks table) s = (rr, s1)"
    by (cases "for_each bm_release (t_blocks table) s")
  then have "s' = s \<or> s' = s1" using release_table
    by (cases rr) (auto simp: bm_release_table_def split: sum.splits)
  then show ?case using for_each_release_prims [OF f] by auto
qed (auto intro: bm_prim_intros bm_lookup_prims)

lemma bm_prim_inv: "bm_prim s s' \<Longrightarrow> bm_inv s \<Longrightarrow> bm_inv s' \<and> bm_config s' = bm_config s"
proof (induction rule: bm_prim.induct)
  case (allocate s r s')
  then show ?case using bm.alloc_ok bm_allocate_fails by (cases r) blast+
next
  case (retain h s r s')
  then show ?case using bm.retain_ok bm.retain_err by (cases r) (blast | auto)+
next
  case (release h s r s')
  then show ?case using bm.free_ok bm_release_error(1) by (cases r) (blast | auto)+
next
  case (publish h p s r s')
  then show ?case using bm_publish_cases(2,4-6) [of s h p r s'] by (simp add: bm_config_def bm_capacity_def)
qed

lemma bm_prims_inv: "bm_prim\<^sup>*\<^sup>* s s' \<Longrightarrow> bm_inv s \<Longrightarrow> bm_inv s' \<and> bm_config s' = bm_config s"
  by (induction rule: rtranclp_induct) (use bm_prim_inv in auto)

lemma bm_reachable_inv: "bm_reachable s \<Longrightarrow> bm_inv s"
proof (induction rule: bm_reachable.induct)
  case (create capacity block_size hasher s)
  then show ?case by (cases hasher) (auto simp: bm_create_inv(2) bm_create_def)
qed (use bm_prims_inv bm_step_prims in blast)

text \<open>A slot's generation never decreases, and a free slot is reused under a new one.\<close>

definition bm_ages :: "block_manager \<Rightarrow> block_manager \<Rightarrow> bool" where
  "bm_ages s s' \<longleftrightarrow> length (bm_slots s') = length (bm_slots s) \<and>
     (\<forall>i < length (bm_slots s). s_generation (bm_slots s ! i) \<le> s_generation (bm_slots s' ! i) \<and>
        (s_generation (bm_slots s' ! i) = s_generation (bm_slots s ! i) \<longrightarrow>
           s_free (bm_slots s ! i) \<longrightarrow> s_free (bm_slots s' ! i)))"

lemma bm_ages_refl: "bm_ages s s"
  by (simp add: bm_ages_def)

lemma bm_ages_trans: "bm_ages s1 s2 \<Longrightarrow> bm_ages s2 s3 \<Longrightarrow> bm_ages s1 s3"
  unfolding bm_ages_def by (metis le_antisym order_trans)

lemma bm_ages_write:
  assumes "bm_writes s i x s'" and "s_generation (bm_slots s ! i) \<le> s_generation x"
    and "s_generation x = s_generation (bm_slots s ! i) \<Longrightarrow> \<not> s_free (bm_slots s ! i)"
  shows "bm_ages s s'"
  using assms by (auto simp: bm_ages_def bm_writes_def nth_list_update)

lemma bm_prim_ages: "bm_prim s s' \<Longrightarrow> bm_inv s \<Longrightarrow> bm_ages s s'"
proof (induction rule: bm_prim.induct)
  case (allocate s r s')
  obtain fl il where "bm_rep s fl il" using allocate by (auto simp: bm_inv_def)
  then show ?case
  proof (cases rule: bm_allocate_cases)
    case (ok i s1 fl' il')
    from ok(6) obtain x where w: "bm_writes s i x s1" and "s_generation x = s_generation (bm_slots s ! i) + 1"
      by (rule bm_claims_writes)
    then show ?thesis using bm_ages_write [OF w] ok(4) allocate(1) by simp
  qed (use allocate bm_ages_refl in auto)
next
  case (retain h s r s')
  show ?case
  proof (cases r)
    case (Inl e)
    then show ?thesis using bm_retain_error(1) retain bm_ages_refl by blast
  next
    case (Inr u)
    then have r: "bm_retain h s = (Inr (), s')" using retain by simp
    obtain fl il where "bm_rep s fl il" using retain by (auto simp: bm_inv_def)
    note ok = bm_retain_ok [OF this bm_retain_spec(2,3) [OF retain(2) r]]
    then have w: "bm_writes s (h_id h) ((bm_slots s ! h_id h)\<lparr>s_refs := s_refs (bm_slots s ! h_id h) + 1\<rparr>) s'"
      using r by auto
    show ?thesis by (rule bm_ages_write [OF w]) (use bm_retain_spec(2) [OF retain(2) r] in \<open>auto simp: bm_live_def\<close>)
  qed
next
  case (release h s r s')
  show ?case
  proof (cases r)
    case (Inl e)
    then show ?thesis using bm_release_error(1) release bm_ages_refl by blast
  next
    case (Inr u)
    then have r: "bm_release h s = (Inr (), s')" using release by simp
    obtain fl il where rep: "bm_rep s fl il" using release by (auto simp: bm_inv_def)
    have live: "bm_live s h" using bm_release_spec(2) [OF release(2) r] by (rule bm_refs_live)
    from bm_release_ok [OF rep bm_release_spec(2) [OF release(2) r]]
    obtain y where w: "bm_writes s (h_id h) y s'" and y: "s_generation y = s_generation (bm_slots s ! h_id h)"
      using r by auto
    show ?thesis by (rule bm_ages_write [OF w]) (use y live in \<open>auto simp: bm_live_def\<close>)
  qed
next
  case (publish h p s r s')
  then have "s' = s \<or> (\<exists>x. bm_writes s (h_id h) x s' \<and> s_generation x = s_generation (bm_slots s ! h_id h) \<and>
      \<not> s_free (bm_slots s ! h_id h))"
    by (auto simp: bm_publish_def bm_checked_def bm_writes_def Let_def split: if_splits)
  then show ?case using bm_ages_refl bm_ages_write by fastforce
qed

lemma bm_prims_ages: "bm_prim\<^sup>*\<^sup>* s s' \<Longrightarrow> bm_inv s \<Longrightarrow> bm_ages s s'"
proof (induction rule: rtranclp_induct)
  case base
  show ?case by (rule bm_ages_refl)
next
  case (step s1 s2)
  then show ?case using bm_prims_inv bm_prim_ages bm_ages_trans by blast
qed

text \<open>A handle that was issued once and is no longer live.\<close>

definition bm_dead :: "block_manager \<Rightarrow> block_handle \<Rightarrow> bool" where
  "bm_dead s h \<longleftrightarrow> h_id h < length (bm_slots s) \<and>
     h_generation h \<le> s_generation (bm_slots s ! h_id h) \<and> \<not> bm_live s h"

lemma bm_dead_ages: "bm_dead s h \<Longrightarrow> bm_ages s s' \<Longrightarrow> bm_dead s' h"
  by (auto simp: bm_dead_def bm_ages_def bm_live_def)

lemma bm_dead_fails:
  assumes "bm_dead s h"
  shows "bm_retain h s = (Inl InvalidArgument, s)" and "bm_release h s = (Inl InvalidArgument, s)"
    and "bm_ref_count h s = Inl InvalidArgument" and "bm_publish h p s = (Inl InvalidArgument, s)"
  using assms
  by (simp_all add: bm_dead_def bm_retain_fails bm_release_fails bm_ref_count_def bm_checked_live
      bm_refs_def bm_publish_def)

section \<open>Sharing between sequences\<close>

text \<open>While a cached block is referenced, \<open>acquire\<close> leaves it cached.\<close>

lemma bm_acquire_loop_keeps:
  "bm_inv s \<Longrightarrow> length prefix = length blocks * bm_block_size s \<Longrightarrow>
   bm_acquire_loop rest prefix blocks s = (r, blocks', s') \<Longrightarrow>
   bm_cache s q = Some g \<Longrightarrow> 0 < bm_refs s g \<Longrightarrow> bm_cache s' q = Some g"
proof (induction "length rest" arbitrary: rest prefix blocks s rule: less_induct)
  case (less rest prefix blocks s)
  let ?b = "bm_block_size s"
  have b: "0 < ?b" using less.prems(1) by (auto simp: bm_inv_def dest: bm_repD(3))
  show ?case
  proof (cases "rest = []")
    case True
    then show ?thesis using less.prems by simp
  next
    case ne: False
    define count where "count = min ?b (length rest)"
    define p where "p = prefix @ take count rest"
    obtain r1 bl1 s1 where step: "bm_acquire_block (count = ?b) p blocks s = (r1, bl1, s1)"
      by (cases "bm_acquire_block (count = ?b) p blocks s")
    note loop = bm_acquire_loop_step [OF ne b count_def p_def step]
    show ?thesis
    proof (cases "count = ?b")
      case True
      have lp: "length p = (length blocks + 1) * ?b"
        using less.prems(2) True by (simp add: p_def count_def min_def split: if_splits)
      then have full: "full_prefix s p" using b by (auto simp: full_prefix_def)
      have blk': "bm_acquire_block True p blocks s = (r1, bl1, s1)" using step True by simp
      note blk = bm_acquire_block_full [OF less.prems(1) full blk']
      have keep: "bm_cache s1 q = Some g" by (rule blk(5) [OF less.prems(4,5)])
      show ?thesis
      proof (cases r1)
        case (Inl e)
        then show ?thesis using loop less.prems(3) keep by simp
      next
        case (Inr u)
        then obtain h where h: "bl1 = blocks @ [h]" "bm_refs s1 = (bm_refs s)(h := bm_refs s h + 1)"
          using blk(3) by auto
        have "bm_acquire_loop (drop count rest) p bl1 s1 = (r, blocks', s')"
          using loop Inr less.prems(3) by simp
        moreover have "length (drop count rest) < length rest" using b True ne by simp
        moreover have "length p = length bl1 * bm_block_size s1"
          using lp h(1) bm_config_block_size [OF blk(2)] by simp
        moreover have "0 < bm_refs s1 g" using h(2) less.prems(5) by simp
        ultimately show ?thesis using less.hyps blk(1) keep by blast
      qed
    next
      case False
      then have "drop count rest = []" by (simp add: count_def)
      moreover have "bm_acquire_block False p blocks s = (r1, bl1, s1)" using step False by simp
      note bm_acquire_block_tail(5) [OF less.prems(1) this less.prems(4,5)]
      ultimately show ?thesis using loop less.prems(3) by (cases r1) simp_all
    qed
  qed
qed

lemma bm_acquire_keeps:
  assumes "bm_inv s" and "bm_acquire toks s = (Inr table, s')" and "bm_cache s q = Some g" and "0 < bm_refs s g"
  shows "bm_cache s' q = Some g"
proof -
  obtain lr blocks s1 where l: "bm_acquire_loop toks [] [] s = (lr, blocks, s1)"
    by (cases "bm_acquire_loop toks [] [] s")
  then have "s' = s1" using assms(2) by (cases lr) (auto simp: bm_acquire_def and_then_Inr_iff)
  then show ?thesis using bm_acquire_loop_keeps [OF assms(1) _ l assms(3,4)] by simp
qed

section \<open>The hash as FNV-1a\<close>

text \<open>
  The reference: FNV-1a over a byte string (offset basis and prime of the 64-bit variant), and
  the bytes of a token, lowest first.
\<close>

definition fnv1a :: "u8 list \<Rightarrow> u64" where
  "fnv1a bytes = foldl (\<lambda>h b. (h XOR ucast b) * 0x100000001b3) 0xcbf29ce484222325 bytes"

definition token_bytes :: "token \<Rightarrow> u8 list" where
  "token_bytes t = map (\<lambda>k. ucast (drop_bit (8 * k) t)) [0, 1, 2, 3]"

lemma ucast_low_byte: "(ucast (w AND 0xff) :: u64) = ucast (ucast w :: u8)" for w :: u32
proof -
  have "(0xff :: u32) = mask 8" by (simp add: mask_eq_exp_minus_1)
  then have "w AND 0xff = take_bit 8 w" by (simp add: take_bit_eq_mask)
  moreover have "(ucast (take_bit 8 w) :: u64) = ucast (ucast w :: u8)"
    by (rule bit_word_eqI) (auto simp: bit_simps)
  ultimately show ?thesis by simp
qed

lemma hash_token_bytes:
  "hash_token h t = foldl (\<lambda>h b. (h XOR ucast b) * 0x100000001b3) h (token_bytes t)"
  by (simp add: hash_token_def token_bytes_def hash_round_def ucast_low_byte mult.commute)

lemma prefix_hash_foldl:
  "foldl hash_token h ts = foldl (\<lambda>h b. (h XOR ucast b) * 0x100000001b3) h (concat (map token_bytes ts))"
  by (induction ts arbitrary: h) (simp_all add: hash_token_bytes)

section \<open>Properties\<close>

text \<open>
  A small manager for the witnesses: two slots, blocks of two tokens, and a hasher that maps
  every prefix to the same bucket.
\<close>

definition small_bm :: block_manager where
  "small_bm = (case bm_create 2 2 (Some (\<lambda>p. 0)) of Inr s \<Rightarrow> s)"

lemma small_bm_create: "bm_create 2 2 (Some (\<lambda>p. 0)) = Inr small_bm"
  by (simp add: small_bm_def bm_create_def)

lemma small_bm_inv: "bm_rep small_bm [0, 1] []" "bm_inv small_bm"
  using bm_create_inv(1,2) [OF small_bm_create] by (simp_all add: none_eq upt_rec)

lemma small_bm_capacity: "2 \<le> none"
  by (simp add: none_eq)

lemma small_bm_reachable: "bm_reachable small_bm"
  by (rule bm_reachable.create [OF small_bm_create small_bm_capacity])

lemma full_chunk_bounds:
  assumes "i < n div b"
  shows "(i + 1) * b \<le> n" and "i < ceil_blocks n b"
proof -
  have "(i + 1) * b \<le> n div b * b" using assms by (intro mult_le_mono1) simp
  then show "(i + 1) * b \<le> n" using div_times_less_eq_dividend [of n b] by linarith
  show "i < ceil_blocks n b" using assms by (simp add: ceil_blocks_def)
qed

text \<open>\<open>allocate\<close> never issues a handle again, and evicts nothing but its own slot.\<close>

lemma bm_dead_allocate: "bm_inv s \<and> bm_dead s h \<Longrightarrow> fst (bm_allocate s) \<noteq> Inr h"
proof
  assume s: "bm_inv s \<and> bm_dead s h" and a: "fst (bm_allocate s) = Inr h"
  then obtain fl il where "bm_rep s fl il" by (auto simp: bm_inv_def)
  then show False by (cases rule: bm_allocate_cases) (use s a in \<open>auto simp: bm_dead_def\<close>)
qed

text \<open>The readers of a dead handle, the operations on a table that holds it, and the operations
  that hand out handles.\<close>

lemma bm_dead_reads:
  assumes "bm_dead s h"
  shows "bm_is_published h s = Inl InvalidArgument"
    and "k < t_token_count table \<Longrightarrow> k div bm_block_size s < length (t_blocks table) \<Longrightarrow>
      t_blocks table ! (k div bm_block_size s) = h \<Longrightarrow> bm_block_at table k s = Inl InvalidArgument"
  using assms by (simp_all add: bm_dead_def bm_is_published_def bm_block_at_def bm_checked_live)

lemma bm_dead_tables:
  assumes "bm_dead s h" and "h \<in> set (t_blocks table)"
  shows "bm_share table s = (Inl InvalidArgument, s)"
    and "bm_release_table table s = (Inl InvalidArgument, s)"
proof -
  have "\<not> table_valid table s" using assms by (auto simp: bm_dead_def table_valid_def bm_refs_def)
  then have "bm_validate table s = Inl InvalidArgument" by (cases rule: bm_validate_cases [of table s]) auto
  then show "bm_share table s = (Inl InvalidArgument, s)"
    "bm_release_table table s = (Inl InvalidArgument, s)"
    by (simp_all add: bm_share_def bm_release_table_def)
qed

lemma bm_dead_issues:
  assumes "bm_inv s \<and> bm_dead s h"
  shows "fst (bm_lookup q s) \<noteq> Inr (Some h)"
    and "fst (bm_acquire toks s) = Inr table \<Longrightarrow> h \<notin> set (t_blocks table)"
proof -
  have inv: "bm_inv s" and dead: "bm_dead s h" using assms by simp_all
  show "fst (bm_lookup q s) \<noteq> Inr (Some h)"
  proof
    assume "fst (bm_lookup q s) = Inr (Some h)"
    then have "bm_cache s q = Some h" using bm_lookup_spec(2) [OF inv, of q h] by (cases "bm_lookup q s") simp
    then show False using bm_cache_live [OF inv] dead by (auto simp: bm_dead_def)
  qed
  assume "fst (bm_acquire toks s) = Inr table"
  then obtain s' where a: "bm_acquire toks s = (Inr table, s')" by (cases "bm_acquire toks s") simp
  then have "bm_dead s' h"
    using bm_dead_ages [OF dead] bm_prims_ages [OF bm_step_prims [OF bm_step.acquire [OF a]] inv] by simp
  then have "bm_refs s' h = 0" by (simp add: bm_dead_def bm_refs_def)
  then show "h \<notin> set (t_blocks table)"
    using bm_acquire_ok(5) [OF inv a] count_list_pos [of h "t_blocks table"] by auto
qed

lemma bm_allocate_cache_eq:
  assumes inv: "bm_inv s" and a: "bm_allocate s = (Inr h, s')"
  shows "bm_cache s' p =
    (case bm_cache s p of None \<Rightarrow> None | Some g \<Rightarrow> if h_id g = h_id h then None else Some g)"
proof -
  note sp = bm_allocate_spec [OF inv a]
  obtain fl il where rep: "bm_rep s fl il" using inv by (auto simp: bm_inv_def)
  then obtain x where w: "bm_writes s (h_id h) x s'" and x: "\<not> s_cached x"
    by (cases rule: bm_allocate_cases) (use a in \<open>auto elim!: bm_claims_writes\<close>)
  have ne: "h_id g \<noteq> h_id h" if "bm_cache s' p = Some g" for g
    using bm_cache_live [OF sp(1) that] x bm_writesD(3) [OF w, of g] by auto
  have keep: "bm_cache s' p = Some g" if "bm_cache s p = Some g" "h_id g \<noteq> h_id h" for g
    using that bm_writesD(3) [OF w, of g] w
    by (simp add: bm_cache_iff inv sp(1) bm_writes_def)
  note old = bm_allocate_cache(1) [OF inv a, of p]
  show ?thesis
  proof (cases "bm_cache s p")
    case None
    then show ?thesis using old by (cases "bm_cache s' p") simp_all
  next
    case (Some g)
    show ?thesis
    proof (cases "h_id g = h_id h")
      case True
      then have "bm_cache s' p = None" using ne old Some by (cases "bm_cache s' p") auto
      then show ?thesis using Some True by simp
    next
      case False
      then show ?thesis using keep Some by simp
    qed
  qed
qed

section \<open>How long a block has been idle\<close>

text \<open>
  The history the eviction policy is about, read off the slots alone and not off the queue: a
  clock counts the operations, and \<open>since i\<close> is the tick at which slot \<open>i\<close> last turned idle
  (cached, with no reference). The ticks are those of the four operations that write slots, so
  that the blocks of one table, which turn idle in one call, have times of their own.
\<close>

definition bm_idle :: "block_manager \<Rightarrow> nat \<Rightarrow> bool" where
  "bm_idle s i \<longleftrightarrow> i < length (bm_slots s) \<and> \<not> s_free (bm_slots s ! i) \<and> s_refs (bm_slots s ! i) = 0"

inductive bm_clocked :: "block_manager \<Rightarrow> nat \<Rightarrow> (nat \<Rightarrow> nat) \<Rightarrow> bool" where
  create: "bm_create capacity block_size hasher = Inr s \<Longrightarrow> capacity \<le> none \<Longrightarrow>
    bm_clocked s 0 (\<lambda>i. 0)"
| step: "bm_clocked s t since \<Longrightarrow> bm_prim s s' \<Longrightarrow>
    bm_clocked s' (t + 1) (\<lambda>i. if bm_idle s' i \<and> \<not> bm_idle s i then t + 1 else since i)"

lemma bm_idle_queue: "bm_rep s fl il \<Longrightarrow> bm_idle s i \<longleftrightarrow> i \<in> set il"
  using idle_okD(1) [OF bm_repD(5)] by (simp add: bm_idle_def)

text \<open>One operation takes blocks out of the queue or puts one that was not idle at its end.\<close>

lemma bm_prim_queue:
  assumes "bm_prim s s'" and rep: "bm_rep s fl il"
  obtains P fl' where "bm_rep s' fl' (filter P il)"
  | j fl' where "j \<notin> set il" and "bm_rep s' fl' (il @ [j])"
  using assms(1)
proof cases
  case (allocate r)
  from rep show ?thesis
  proof (cases rule: bm_allocate_cases)
    case (ok i s1 fl' il')
    have d: "distinct il" using bm_repD(5) [OF rep] by (simp add: idle_ok_def lru_rep_def)
    have "il' = il \<or> il = i # il'"
      using ok(1,2) by (cases fl) (auto simp: append_eq_append_conv)
    then have "\<exists>P. il' = filter P il"
    proof
      assume "il' = il"
      then show ?thesis by (intro exI [of _ "\<lambda>x. True"]) simp
    next
      assume "il = i # il'"
      then have "il' = filter (\<lambda>x. x \<noteq> i) il" using d by (auto intro!: filter_True [symmetric])
      then show ?thesis by blast
    qed
    then show ?thesis using that(1) ok(4,5) allocate by auto
  qed (use that(1) [of fl "\<lambda>x. True"] rep allocate in auto)
next
  case (retain h r)
  have inv: "bm_inv s" using rep by (auto simp: bm_inv_def)
  show ?thesis
  proof (cases r)
    case (Inl e)
    then show ?thesis
      using that(1) [of fl "\<lambda>x. True"] rep retain bm_retain_error(1) [OF inv, of h e s'] by simp
  next
    case (Inr u)
    then have r: "bm_retain h s = (Inr (), s')" using retain by simp
    have "bm_rep s' fl (removeAll (h_id h) il)"
      using bm_retain_ok [OF rep bm_retain_spec(2,3) [OF inv r]] r by auto
    then show ?thesis using that(1) [of fl "\<lambda>x. h_id h \<noteq> x"] by (simp add: removeAll_filter_not_eq)
  qed
next
  case (release h r)
  have inv: "bm_inv s" using rep by (auto simp: bm_inv_def)
  show ?thesis
  proof (cases r)
    case (Inl e)
    then show ?thesis
      using that(1) [of fl "\<lambda>x. True"] rep release bm_release_error(1) [OF inv, of h e s'] by simp
  next
    case (Inr u)
    then have r: "bm_release h s = (Inr (), s')" using release by simp
    have pos: "0 < bm_refs s h" by (rule bm_release_spec(2) [OF inv r])
    then have "s_refs (bm_slots s ! h_id h) \<noteq> 0" by (simp add: bm_refs_def split: if_splits)
    then have "h_id h \<notin> set il" using bm_idle_queue [OF rep, of "h_id h"] by (simp add: bm_idle_def)
    moreover obtain fl' il' where "bm_rep s' fl' il'" "il' = il \<or> il' = il @ [h_id h]"
      using bm_release_ok [OF rep pos] unfolding r by (metis Pair_inject)
    ultimately show ?thesis using that(1) [of fl' "\<lambda>x. True"] that(2) [of "h_id h" fl'] by auto
  qed
next
  case (publish h p r)
  have inv: "bm_inv s" using rep by (auto simp: bm_inv_def)
  obtain fl' il' where rep': "bm_rep s' fl' il'" using bm_publish_cases(2) [OF inv publish] by (auto simp: bm_inv_def)
  have lru: "bm_idle_lru s' = bm_idle_lru s" and idle: "bm_idle s' i = bm_idle s i" for i
    using publish by (auto simp: bm_publish_def bm_checked_def bm_idle_def Let_def nth_list_update
        split: sum.splits if_splits)
  have "length (bm_slots s') = length (bm_slots s)" by (rule bm_publish_cases(6) [OF inv publish])
  then have "idle_ok (bm_slots s') (bm_idle_lru s') il"
    using bm_repD(5) [OF rep] idle unfolding lru by (simp add: idle_ok_def bm_idle_def set_eq_iff)
  then have "bm_rep s' fl' il" using rep' by (simp add: bm_rep_def)
  then show ?thesis using that(1) [of fl' "\<lambda>x. True"] by simp
qed

lemma bm_clocked_queue:
  assumes "bm_clocked s t since"
  shows "\<exists>fl il. bm_rep s fl il \<and> sorted_wrt (\<lambda>i j. since i < since j) il \<and> (\<forall>i. since i \<le> t)"
  using assms
proof (induction rule: bm_clocked.induct)
  case (create capacity block_size hasher s)
  then obtain f where "hasher = Some f" by (cases hasher) (auto simp: bm_create_def)
  then have "bm_rep s [0..<capacity] []" using create bm_create_inv(1) by blast
  then show ?case by (intro exI [of _ "[0..<capacity]"] exI [of _ "[]"]) simp
next
  case (step s t since s')
  then obtain fl il where rep: "bm_rep s fl il" and old: "sorted_wrt (\<lambda>i j. since i < since j) il"
    and le: "\<And>i. since i \<le> t" by blast
  define w where "w = (\<lambda>i. if bm_idle s' i \<and> \<not> bm_idle s i then t + 1 else since i)"
  note idle = bm_idle_queue [OF rep]
  have w: "w i = since i" if "i \<in> set il" for i using that idle by (simp add: w_def)
  have lew: "w i \<le> t + 1" for i using le [of i] by (simp add: w_def)
  have oldw: "sorted_wrt (\<lambda>i j. w i < w j) il"
    using old by (rule sorted_wrt_mono_rel [rotated]) (simp add: w)
  from step(2) rep have "\<exists>fl il. bm_rep s' fl il \<and> sorted_wrt (\<lambda>i j. w i < w j) il \<and> (\<forall>i. w i \<le> t + 1)"
  proof (cases rule: bm_prim_queue)
    case (1 P fl')
    then show "\<exists>fl il. bm_rep s' fl il \<and> sorted_wrt (\<lambda>i j. w i < w j) il \<and> (\<forall>i. w i \<le> t + 1)"
      using sorted_wrt_filter [OF oldw] lew by blast
  next
    case (2 j fl')
    have "w j = t + 1" using 2 idle bm_idle_queue [OF 2(2)] by (simp add: w_def)
    then have "sorted_wrt (\<lambda>i j. w i < w j) (il @ [j])"
      using oldw w le by (auto simp: sorted_wrt_append less_Suc_eq_le)
    then show "\<exists>fl il. bm_rep s' fl il \<and> sorted_wrt (\<lambda>i j. w i < w j) il \<and> (\<forall>i. w i \<le> t + 1)"
      using 2(2) lew by blast
  qed
  then show ?case by (simp add: w_def)
qed

text \<open>Every state the public operations reach has such a history.\<close>

lemma bm_clocked_prims: "bm_prim\<^sup>*\<^sup>* s s' \<Longrightarrow> bm_clocked s t since \<Longrightarrow> \<exists>t' since'. bm_clocked s' t' since'"
  by (induction arbitrary: t since rule: converse_rtranclp_induct) (blast intro: bm_clocked.step)+

lemma bm_clocked_steps:
  "bm_clocked s t since \<Longrightarrow> bm_step\<^sup>*\<^sup>* s s' \<Longrightarrow> \<exists>t' since'. bm_clocked s' t' since'"
proof (rotate_tac, induction arbitrary: t since rule: converse_rtranclp_induct)
  case base
  then show ?case by blast
next
  case (step s s1)
  then show ?case using bm_clocked_prims [OF bm_step_prims] by metis
qed

lemma bm_reachable_clocked: "bm_reachable s \<Longrightarrow> \<exists>t since. bm_clocked s t since"
proof (induction rule: bm_reachable.induct)
  case (create capacity block_size hasher s)
  then show ?case using bm_clocked.create by blast
next
  case (step s s')
  then show ?case using bm_clocked_prims [OF bm_step_prims] by blast
qed

lemma bm_total_steps:
  assumes "bm_inv s"
  shows "fst (bm_allocate s) \<noteq> Inl Undefined" and "fst (bm_acquire toks s) \<noteq> Inl Undefined"
proof -
  show "fst (bm_allocate s) \<noteq> Inl Undefined"
    using bm_allocate_fails [OF assms] by (cases "bm_allocate s") auto
  show "fst (bm_acquire toks s) \<noteq> Inl Undefined"
    using bm_acquire_fails(4) [OF assms, of toks] by (cases "bm_acquire toks s") auto
qed

text \<open>C1: In every state a \<open>BlockManager\<close> can reach through its public operations, whatever
  their outcome, each slot is exactly one of free, active and idle, so the statistics add up
  to the capacity; the free list and the LRU queue hold exactly the slots the statistics
  count; and neither \<open>allocate\<close> nor \<open>acquire\<close> has undefined behaviour (no index
  outside \<open>slots_\<close>, no \<open>end()\<close> dereferenced in \<open>erase_cache\<close>).\<close>

theorem bm_reachable_safe:
  assumes "bm_reachable s"
  shows "\<exists>fl il. bm_rep s fl il \<and>
      st_free (bm_stats s) = length fl \<and> st_cached_idle (bm_stats s) = length il \<and>
      st_free (bm_stats s) + st_active (bm_stats s) + st_cached_idle (bm_stats s) = bm_capacity s \<and>
      fst (bm_allocate s) \<noteq> Inl Undefined \<and> fst (bm_acquire toks s) \<noteq> Inl Undefined"
proof -
  have "bm_inv s" using assms by (rule bm_reachable_inv)
  then show ?thesis using bm_stats_rep bm_total_steps unfolding bm_inv_def by blast
qed

definition small_bm_full :: block_manager where
  "small_bm_full = snd (bm_acquire [1, 2, 3] small_bm)"

lemma small_bm_full_reachable: "bm_reachable small_bm_full"
  unfolding small_bm_full_def
  using small_bm_reachable by (rule bm_reachable.step) (rule bm_step.acquire, rule surjective_pairing)

lemmas small_bm_full_inv = small_bm_full_reachable [THEN bm_reachable_inv]

lemma bm_reachable_safe_witness:
  "fst (bm_acquire [7] small_bm_full) = Inl CapacityError \<and>
   (\<exists>fl il. bm_rep small_bm_full fl il \<and>
      st_free (bm_stats small_bm_full) = length fl \<and> st_cached_idle (bm_stats small_bm_full) = length il \<and>
      st_free (bm_stats small_bm_full) + st_active (bm_stats small_bm_full) +
      st_cached_idle (bm_stats small_bm_full) = bm_capacity small_bm_full \<and>
      fst (bm_allocate small_bm_full) \<noteq> Inl Undefined \<and> fst (bm_acquire [7] small_bm_full) \<noteq> Inl Undefined)"
proof
  show "fst (bm_acquire [7] small_bm_full) = Inl CapacityError" by code_simp
qed (rule bm_reachable_safe [OF small_bm_full_reachable])

text \<open>C2: \<open>acquire(tokens)\<close> is all or nothing. When it returns, the table has one block per
  chunk of \<open>block_size\<close> tokens, every entry holds exactly one new reference, block \<open>i\<close> is
  the cached block of the first \<open>i + 1\<close> chunks, and a partial tail block is private to this
  table. When it throws, every reference count is what it was before.\<close>

theorem bm_acquire_atomic:
  assumes "bm_inv s" and "bm_acquire toks s = (r, s')"
  shows "bm_inv s' \<and>
    (case r of
       Inr table \<Rightarrow>
         t_token_count table = length toks \<and>
         length (t_blocks table) = ceil_blocks (length toks) (bm_block_size s) \<and>
         (\<forall>h. bm_refs s' h = bm_refs s h + count_list (t_blocks table) h) \<and>
         (\<forall>i < length toks div bm_block_size s.
            bm_cache s' (take ((i + 1) * bm_block_size s) toks) = Some (t_blocks table ! i)) \<and>
         (length toks mod bm_block_size s \<noteq> 0 \<longrightarrow>
            bm_refs s' (last (t_blocks table)) = 1 \<and> \<not> bm_pub s' (last (t_blocks table)))
     | Inl e \<Rightarrow> (e = CapacityError \<or> e = OverflowError) \<and> bm_refs s' = bm_refs s)"
proof (cases r)
  case (Inl e)
  then show ?thesis using bm_acquire_fails [OF assms(1)] assms(2) by simp
next
  case (Inr table)
  note ok = bm_acquire_ok [OF assms(1) assms(2) [unfolded Inr]]
  have "bm_cache s' (take ((i + 1) * bm_block_size s) toks) = Some (t_blocks table ! i)"
    if "i < length toks div bm_block_size s" for i
    using ok(6) bm_config_block_size [OF ok(2)] that full_chunk_bounds [OF that] ok(4)
    unfolding acquired_def by simp
  then show ?thesis using ok Inr by (simp add: fun_eq_iff)
qed

lemma bm_acquire_atomic_witness:
  "bm_inv small_bm \<and> length (t_blocks (projr (fst (bm_acquire [1, 2, 3] small_bm)))) = ceil_blocks 3 2 \<and>
   bm_refs (snd (bm_acquire [5] small_bm_full)) = bm_refs small_bm_full"
proof -
  obtain r s' where 1: "bm_acquire [1, 2, 3] small_bm = (r, s')" by (cases "bm_acquire [1, 2, 3] small_bm")
  have "isl (fst (bm_acquire [1, 2, 3] small_bm)) = False" "bm_block_size small_bm = 2" by code_simp+
  moreover obtain r2 s2 where 2: "bm_acquire [5] small_bm_full = (r2, s2)" by (cases "bm_acquire [5] small_bm_full")
  have "isl (fst (bm_acquire [5] small_bm_full))" by code_simp
  ultimately show ?thesis
    using bm_acquire_atomic [OF small_bm_inv(2) 1] bm_acquire_atomic [OF small_bm_full_inv 2] 1 2
      small_bm_inv(2)
    by (cases r; cases r2) (simp_all add: ceil_blocks_def)
qed

text \<open>C3: Two sequences that start with the same whole chunks share their physical blocks: while
  the first table is held, a later \<open>acquire\<close> of a sequence with the same first \<open>k\<close> chunks
  returns the same handles for them.\<close>

theorem bm_acquire_shares:
  assumes "bm_inv s" and "bm_acquire xs s = (Inr t1, s1)" and "bm_acquire ys s1 = (Inr t2, s2)"
    and "take (k * bm_block_size s) xs = take (k * bm_block_size s) ys"
    and "k * bm_block_size s \<le> length xs" and "k * bm_block_size s \<le> length ys"
  shows "take k (t_blocks t1) = take k (t_blocks t2)"
proof -
  let ?b = "bm_block_size s"
  note a = bm_acquire_ok [OF assms(1,2)]
  note c = bm_acquire_ok [OF a(1) assms(3)]
  have b: "bm_block_size s1 = ?b" "bm_block_size s2 = ?b"
    using bm_config_block_size a(2) c(2) by metis+
  have pos: "0 < ?b" using assms(1) by (auto simp: bm_inv_def dest: bm_repD(3))
  have "k * ?b \<le> ceil_blocks (length xs) ?b * ?b" "k * ?b \<le> ceil_blocks (length ys) ?b * ?b"
    using ceil_blocks_bounds(1) [OF pos] assms(5,6) le_trans by blast+
  then have len: "k \<le> length (t_blocks t1)" "k \<le> length (t_blocks t2)"
    using a(4) c(4) pos b by simp_all
  have "t_blocks t1 ! i = t_blocks t2 ! i" if "i < k" for i
  proof -
    have m: "(i + 1) * ?b \<le> k * ?b" using that by (intro mult_le_mono1) simp
    have i: "i < length (t_blocks t1)" "i < length (t_blocks t2)" using that len by simp_all
    let ?p = "take ((i + 1) * ?b) xs"
    have "bm_cache s1 ?p = Some (t_blocks t1 ! i)"
      using a(6) i(1) m assms(5) b(1) unfolding acquired_def by simp
    moreover have "0 < bm_refs s1 (t_blocks t1 ! i)"
      using a(5) count_list_pos [OF nth_mem [OF i(1)]] by simp
    ultimately have "bm_cache s2 ?p = Some (t_blocks t1 ! i)"
      by (rule bm_acquire_keeps [OF a(1) assms(3)])
    moreover have "bm_cache s2 (take ((i + 1) * ?b) ys) = Some (t_blocks t2 ! i)"
      using c(6) i(2) m assms(6) b(2) unfolding acquired_def by simp
    moreover have "?p = take ((i + 1) * ?b) ys"
      using arg_cong [OF assms(4), of "take ((i + 1) * ?b)"] m by (simp only: take_take min.absorb1)
    ultimately show ?thesis by simp
  qed
  then show ?thesis by (intro nth_take_lemma [OF len]) blast
qed

lemma bm_acquire_shares_witness:
  "\<exists>t1 s1 t2 s2. bm_acquire [1, 2] small_bm = (Inr t1, s1) \<and> bm_acquire [1, 2, 3] s1 = (Inr t2, s2) \<and>
     take 1 (t_blocks t1) = take 1 (t_blocks t2)"
proof -
  obtain r1 s1 where 1: "bm_acquire [1, 2] small_bm = (r1, s1)" by (cases "bm_acquire [1, 2] small_bm")
  obtain r2 s2 where 2: "bm_acquire [1, 2, 3] s1 = (r2, s2)" by (cases "bm_acquire [1, 2, 3] s1")
  have "\<not> isl (fst (bm_acquire [1, 2] small_bm))"
    "\<not> isl (fst (bm_acquire [1, 2, 3] (snd (bm_acquire [1, 2] small_bm))))" "bm_block_size small_bm = 2"
    by code_simp+
  moreover from calculation obtain t1 t2 where "r1 = Inr t1" "r2 = Inr t2"
    using 1 2 by (cases r1; cases r2) auto
  ultimately show ?thesis
    using 1 2 bm_acquire_shares [OF small_bm_inv(2), of "[1, 2]" t1 s1 "[1, 2, 3]" t2 s2 1] by simp
qed

text \<open>\<open>share\<close> and \<open>release(table)\<close> are inverse: releasing the copy that \<open>share\<close> returned
  succeeds as a whole, empties it, and puts every reference count back; a failed \<open>share\<close>
  leaves all counts as they were.\<close>

theorem bm_share_release:
  assumes "bm_inv s" and "bm_share table s = (r, s1)"
  shows "bm_inv s1 \<and>
    (case r of
       Inr copy \<Rightarrow> copy = table \<and> (\<forall>h \<in> set (t_blocks table). bm_refs s1 h = bm_refs s h + 1) \<and>
         (\<exists>s2. bm_release_table copy s1 = (Inr \<lparr>t_blocks = [], t_token_count = 0\<rparr>, s2) \<and>
               bm_inv s2 \<and> bm_refs s2 = bm_refs s)
     | Inl e \<Rightarrow> bm_refs s1 = bm_refs s)"
proof (cases rule: bm_share_cases [OF assms(1), of table])
  case ok: (1 s')
  then have eq: "r = Inr table" "s1 = s'" using assms(2) by simp_all
  have tv: "table_valid table s'"
    using ok(1,5) bm_config_block_size [OF ok(4)] by (simp add: table_valid_def)
  obtain s2 where "bm_release_table table s' = (Inr \<lparr>t_blocks = [], t_token_count = 0\<rparr>, s2)" "bm_inv s2"
    "bm_refs s2 = (\<lambda>h. bm_refs s' h - (if h \<in> set (t_blocks table) then 1 else 0))"
    by (rule bm_release_table_cases [OF ok(3), of table]) (use tv in auto)
  then show ?thesis using eq ok(3,5) by (auto simp: fun_eq_iff)
next
  case (2 e s' h)
  then show ?thesis using assms(2) by simp
next
  case 3
  then show ?thesis using assms by simp
qed

lemma bm_share_release_witness:
  "\<exists>table s1 s2. t_blocks table \<noteq> [] \<and> bm_share table small_bm_full = (Inr table, s1) \<and>
     bm_release_table table s1 = (Inr \<lparr>t_blocks = [], t_token_count = 0\<rparr>, s2) \<and>
     bm_refs s2 = bm_refs small_bm_full"
proof -
  define t where "t = \<lparr>t_blocks = [\<lparr>h_id = 0, h_generation = 1\<rparr>, \<lparr>h_id = 1, h_generation = 1\<rparr>], t_token_count = 3\<rparr>"
  obtain r s1 where s: "bm_share t small_bm_full = (r, s1)" by (cases "bm_share t small_bm_full")
  have "\<not> isl (fst (bm_share t small_bm_full))" unfolding t_def by code_simp
  moreover have "t_blocks t \<noteq> []" by (simp add: t_def)
  ultimately show ?thesis using bm_share_release [OF small_bm_full_inv s] s by (cases r) auto
qed

text \<open>C4: A handle whose slot was freed or reused stays dead: in every later state each operation
  that takes a handle (\<open>retain\<close>, \<open>release\<close>, \<open>publish\<close>, \<open>ref_count\<close>, \<open>is_published\<close>)
  throws \<open>invalid_argument\<close> and changes nothing, \<open>block_at\<close> throws for the tokens a table
  places in it, \<open>share\<close> and \<open>release\<close> of a table that lists it throw and change nothing, and
  no operation that hands out handles (\<open>allocate\<close>, \<open>lookup\<close>, \<open>acquire\<close>) returns it again.\<close>

theorem bm_stale_handles:
  assumes "bm_inv s" and "bm_dead s h" and "bm_step\<^sup>*\<^sup>* s s'"
  shows "bm_retain h s' = (Inl InvalidArgument, s') \<and> bm_release h s' = (Inl InvalidArgument, s') \<and>
    bm_publish h p s' = (Inl InvalidArgument, s') \<and> bm_ref_count h s' = Inl InvalidArgument \<and>
    bm_is_published h s' = Inl InvalidArgument \<and>
    (\<forall>table k. k < t_token_count table \<and> k div bm_block_size s' < length (t_blocks table) \<and>
       t_blocks table ! (k div bm_block_size s') = h \<longrightarrow> bm_block_at table k s' = Inl InvalidArgument) \<and>
    (\<forall>table. h \<in> set (t_blocks table) \<longrightarrow>
       bm_share table s' = (Inl InvalidArgument, s') \<and>
       bm_release_table table s' = (Inl InvalidArgument, s')) \<and>
    fst (bm_allocate s') \<noteq> Inr h \<and> (\<forall>q. fst (bm_lookup q s') \<noteq> Inr (Some h)) \<and>
    (\<forall>toks table. fst (bm_acquire toks s') = Inr table \<longrightarrow> h \<notin> set (t_blocks table))"
proof -
  have "bm_inv s' \<and> bm_dead s' h" using assms(3)
  proof (induction rule: rtranclp_induct)
    case base
    show ?case using assms(1,2) by simp
  next
    case (step t u)
    then show ?case using bm_step_prims bm_prims_inv bm_prims_ages bm_dead_ages by metis
  qed
  then show ?thesis
    by (intro conjI) (auto simp: bm_dead_fails bm_dead_reads bm_dead_tables bm_dead_issues bm_dead_allocate)
qed

lemma bm_stale_handles_witness:
  "let s = snd (bm_release \<lparr>h_id = 1, h_generation = 1\<rparr> small_bm_full);
       s' = snd (bm_allocate s) in
   fst (bm_allocate s) = Inr \<lparr>h_id = 1, h_generation = 2\<rparr> \<and>
   fst (bm_retain \<lparr>h_id = 1, h_generation = 1\<rparr> s') = Inl InvalidArgument"
proof -
  define s where "s = snd (bm_release \<lparr>h_id = 1, h_generation = 1\<rparr> small_bm_full)"
  have st: "bm_step small_bm_full s"
    unfolding s_def by (rule bm_step.release) (rule surjective_pairing)
  have inv: "bm_inv s" by (rule bm_reachable_inv, rule bm_reachable.step [OF small_bm_full_reachable st])
  have "bm_dead s \<lparr>h_id = 1, h_generation = 1\<rparr>" unfolding s_def by code_simp
  moreover have "bm_step\<^sup>*\<^sup>* s (snd (bm_allocate s))"
    by (rule r_into_rtranclp, rule bm_step.allocate, rule surjective_pairing)
  moreover have "fst (bm_allocate s) = Inr \<lparr>h_id = 1, h_generation = 2\<rparr>" unfolding s_def by code_simp
  ultimately show ?thesis unfolding Let_def s_def [symmetric]
    using bm_stale_handles [OF inv] by (metis fst_conv)
qed

text \<open>C5: \<open>allocate\<close> takes a free slot while there is one. Otherwise it evicts the block that
  has been idle for the longest time: every other idle block turned idle at a later tick of the
  history \<open>bm_clocked\<close>, which any sequence of operations from the constructor on has. Exactly
  the evicted block's cached prefix disappears, and no referenced block changes.\<close>

theorem bm_lru_eviction:
  assumes "bm_clocked s t since" and "bm_allocate s = (Inr h, s')"
  shows "(if \<exists>i < length (bm_slots s). s_free (bm_slots s ! i)
      then s_free (bm_slots s ! h_id h) \<and> bm_cache s' = bm_cache s
      else bm_idle s (h_id h) \<and> (\<forall>j. bm_idle s j \<longrightarrow> j = h_id h \<or> since (h_id h) < since j)) \<and>
    bm_refs s' = (bm_refs s)(h := 1) \<and>
    (\<forall>p. bm_cache s' p =
       (case bm_cache s p of
          None \<Rightarrow> None
        | Some g \<Rightarrow> if h_id g = h_id h then None else Some g))"
proof -
  from bm_clocked_queue [OF assms(1)] obtain fl il where rep: "bm_rep s fl il"
    and old: "sorted_wrt (\<lambda>i j. since i < since j) il" by blast
  have inv: "bm_inv s" using rep by (auto simp: bm_inv_def)
  note sp = bm_allocate_spec [OF inv assms(2)]
  have i: "h_id h = hd (fl @ il)" "fl @ il \<noteq> []"
    using rep by (cases rule: bm_allocate_cases; use assms(2) in auto)+
  note fr = free_okD(1) [OF bm_repD(4) [OF rep]] and id = bm_idle_queue [OF rep]
  note cache = bm_allocate_cache_eq [OF inv assms(2)]
  show ?thesis
  proof (cases "fl = []")
    case True
    then have "\<not> (\<exists>i < length (bm_slots s). s_free (bm_slots s ! i))" using fr by auto
    moreover obtain il' where "il = h_id h # il'" using i True by (cases il) auto
    ultimately show ?thesis using old id cache sp(5) by auto
  next
    case False
    then have "h_id h \<in> set fl" using i(1) by (cases fl) auto
    then have f: "h_id h < length (bm_slots s)" "s_free (bm_slots s ! h_id h)" using fr by auto
    have "h_id g \<noteq> h_id h" if "bm_cache s p = Some g" for p g
      using f bm_cache_live [OF inv that] by (auto simp: bm_live_def)
    then have "bm_cache s' = bm_cache s" by (auto simp: fun_eq_iff cache split: option.splits)
    then show ?thesis using f cache sp(5) by auto
  qed
qed

lemma bm_lru_eviction_witness:
  "\<exists>s t since. bm_clocked s t since \<and> bm_idle s 0 \<and> bm_idle s 1 \<and> since 1 < since 0 \<and>
     fst (bm_allocate s) = Inr \<lparr>h_id = 1, h_generation = 2\<rparr> \<and>
     bm_cache s [1, 2, 3, 4] \<noteq> None \<and> bm_cache (snd (bm_allocate s)) [1, 2, 3, 4] = None"
proof -
  define h0 h1 :: block_handle where "h0 = \<lparr>h_id = 0, h_generation = 1\<rparr>" and "h1 = \<lparr>h_id = 1, h_generation = 1\<rparr>"
  define s0 where "s0 = snd (bm_acquire [1, 2, 3, 4] small_bm)"
  define s1 where "s1 = snd (bm_release h1 s0)"
  define s2 where "s2 = snd (bm_release h0 s1)"
  have "bm_step\<^sup>*\<^sup>* small_bm s0"
    unfolding s0_def by (rule r_into_rtranclp, rule bm_step.acquire, rule surjective_pairing)
  then obtain t w where 0: "bm_clocked s0 t w"
    using bm_clocked_steps [OF bm_clocked.create [OF small_bm_create small_bm_capacity]] by blast
  have "bm_prim s0 s1" "bm_prim s1 s2"
    unfolding s1_def s2_def by (rule bm_prim.release, rule surjective_pairing)+
  note 2 = bm_clocked.step [OF bm_clocked.step [OF 0 this(1)] this(2)]
  have idle: "\<not> bm_idle s0 0" "\<not> bm_idle s0 1" "\<not> bm_idle s1 0" "bm_idle s1 1" "bm_idle s2 0" "bm_idle s2 1"
    unfolding s2_def s1_def s0_def h0_def h1_def by code_simp+
  have full: "\<not> (\<exists>i < length (bm_slots s2). s_free (bm_slots s2 ! i))"
    unfolding s2_def s1_def s0_def h0_def h1_def by code_simp
  have al: "fst (bm_allocate s2) = Inr \<lparr>h_id = 1, h_generation = 2\<rparr>"
    unfolding s2_def s1_def s0_def h0_def h1_def by code_simp
  then have a: "bm_allocate s2 = (Inr \<lparr>h_id = 1, h_generation = 2\<rparr>, snd (bm_allocate s2))"
    by (metis surjective_pairing)
  have "bm_pub s2 h1" "s_prefix (bm_slots s2 ! 1) = [1, 2, 3, 4]"
    unfolding s2_def s1_def s0_def h0_def h1_def by code_simp+
  moreover have "bm_inv s2" using bm_clocked_queue [OF 2] by (auto simp: bm_inv_def)
  ultimately have c: "bm_cache s2 [1, 2, 3, 4] = Some h1" by (simp add: bm_cache_iff h1_def)
  define since where "since = (\<lambda>i. if bm_idle s2 i \<and> \<not> bm_idle s1 i then t + 1 + 1
    else if bm_idle s1 i \<and> \<not> bm_idle s0 i then t + 1 else w i)"
  have "bm_clocked s2 (t + 1 + 1) since" using 2 unfolding since_def .
  moreover from bm_lru_eviction [OF this a] have "bm_cache (snd (bm_allocate s2)) [1, 2, 3, 4] = None"
    using c full by (simp add: h1_def)
  ultimately show ?thesis using idle al c by (intro exI [of _ s2] exI [of _ "t + 1 + 1"] exI [of _ since])
    (simp add: since_def)
qed

text \<open>C6: \<open>lookup\<close> is exact whatever the hasher does: it hits exactly on whole non-empty prefixes
  whose tokens equal the ones stored at publication, returns the block that stores them with
  one more reference, and otherwise returns \<open>false\<close> and changes nothing.\<close>

theorem bm_lookup_exact:
  assumes "bm_inv s" and "bm_lookup p s = (r, s')"
  shows "(\<forall>h. r = Inr (Some h) \<longrightarrow>
      p \<noteq> [] \<and> length p mod bm_block_size s = 0 \<and> bm_pub s h \<and> s_prefix (bm_slots s ! h_id h) = p \<and>
      bm_refs s' = (bm_refs s)(h := bm_refs s h + 1)) \<and>
    (r = Inr None \<longrightarrow> s' = s \<and> (\<forall>h. bm_pub s h \<longrightarrow> s_prefix (bm_slots s ! h_id h) \<noteq> p)) \<and>
    (\<forall>e. r = Inl e \<longrightarrow> s' = s \<and> e = OverflowError)"
proof -
  have "bm_cache s p = None" if "r = Inr None"
    using bm_lookup_spec(1) [OF assms(1), of p] bm_cache_full [OF assms(1), of p] assms(2) that
    by (cases "bm_cache s p") auto
  then have miss: "r = Inr None \<Longrightarrow> s' = s \<and> (\<forall>h. bm_pub s h \<longrightarrow> s_prefix (bm_slots s ! h_id h) \<noteq> p)"
    using bm_lookup_spec(1) [OF assms(1), of p] assms(2) bm_cache_iff [OF assms(1), of p] by auto
  have hit: "r = Inr (Some h) \<Longrightarrow> full_prefix s p \<and> bm_pub s h \<and> s_prefix (bm_slots s ! h_id h) = p \<and>
      bm_refs s' = (bm_refs s)(h := bm_refs s h + 1)" for h
    using bm_lookup_spec(2) [OF assms(1), of p] assms(2) bm_cache_iff [OF assms(1), of p h] by auto
  have err: "r = Inl e \<Longrightarrow> s' = s \<and> e = OverflowError" for e
    using bm_lookup_spec(3) [OF assms(1), of p] assms(2) by auto
  show ?thesis using hit miss err unfolding full_prefix_def by blast
qed

lemma bm_lookup_exact_witness:
  "\<exists>h s'. bm_lookup [1, 2] small_bm_full = (Inr (Some h), s') \<and>
     s_prefix (bm_slots small_bm_full ! h_id h) = [1, 2] \<and>
     fst (bm_lookup [1, 3] small_bm_full) = Inr None"
proof -
  obtain r s' where l: "bm_lookup [1, 2] small_bm_full = (r, s')" by (cases "bm_lookup [1, 2] small_bm_full")
  have "fst (bm_lookup [1, 2] small_bm_full) = Inr (Some \<lparr>h_id = 0, h_generation = 1\<rparr>)"
    "fst (bm_lookup [1, 3] small_bm_full) = Inr None"
    by code_simp+
  then show ?thesis using bm_lookup_exact [OF small_bm_full_inv l] l by auto
qed

text \<open>C7: \<open>prefix_hash\<close> is 64-bit FNV-1a over the tokens' little-endian bytes.\<close>

theorem prefix_hash_fnv1a: "prefix_hash toks = fnv1a (concat (map token_bytes toks))"
  unfolding prefix_hash_def fnv1a_def by (simp add: prefix_hash_foldl)

end
