(* ===== verification/Kv_Layout.thy ===== *)
theory Kv_Layout
  imports KV_Prelude
begin

text \<open>
  \<open>include/kvflux/kv_layout.h\<close>, \<open>src/kv_layout.cpp\<close>: the byte layout of one KV block of all
  layers, with 64-bit arithmetic. The overflow checks of the constructor are shown to make
  every later product and sum exact, so that the offsets are the row-major ones.
\<close>

section \<open>Checked multiplication\<close>

definition kv_multiply :: "u64 \<Rightarrow> u64 \<Rightarrow> u64 res" where
  "kv_multiply a b = (if b \<noteq> 0 \<and> a > -1 div b then Inl OverflowError else Inr (a * b))"

lemma kv_multiply_iff: "kv_multiply a b = Inr c \<longleftrightarrow> unat a * unat b \<le> u64_max \<and> c = a * b"
proof -
  have "a > -1 div b \<longleftrightarrow> u64_max div unat b < unat a"
    by (simp add: word_less_nat_alt unat_div_distrib unat_u64_max)
  also have "b \<noteq> 0 \<Longrightarrow> \<dots> \<longleftrightarrow> u64_max < unat a * unat b"
    by (simp add: div_less_iff_less_mult unat_gt_0)
  finally show ?thesis by (cases "b = 0") (auto simp: kv_multiply_def)
qed

lemma kv_multiply_cases:
  "kv_multiply a b = (if unat a * unat b \<le> u64_max then Inr (a * b) else Inl OverflowError)"
  using kv_multiply_iff [of a b "a * b"] by (cases "kv_multiply a b") (auto simp: kv_multiply_def split: if_splits)

text \<open>A product taken one factor at a time.\<close>

fun kv_multiply_all :: "u64 \<Rightarrow> u64 list \<Rightarrow> u64 res" where
  "kv_multiply_all acc [] = Inr acc"
| "kv_multiply_all acc (x # xs) = bind_res (kv_multiply acc x) (\<lambda>acc'. kv_multiply_all acc' xs)"

lemma kv_multiply_all_exact:
  "kv_multiply_all acc xs = Inr c \<Longrightarrow> unat c = unat acc * prod_list (map unat xs)"
  by (induction xs arbitrary: acc)
     (auto simp: bind_res_Inr_iff kv_multiply_iff unat_mult_exact mult.assoc)

lemma prod_list_pos: "\<forall>x \<in> set xs. 0 < x \<Longrightarrow> 0 < prod_list xs" for xs :: "nat list"
  by (induction xs) auto

lemma kv_multiply_all_cases:
  assumes "\<forall>x \<in> set xs. x \<noteq> 0" and "unat acc \<le> u64_max"
  shows "kv_multiply_all acc xs = Inl OverflowError \<and> u64_max < unat acc * prod_list (map unat xs) \<or>
    (\<exists>c. kv_multiply_all acc xs = Inr c \<and> unat acc * prod_list (map unat xs) \<le> u64_max)"
  using assms
proof (induction xs arbitrary: acc)
  case Nil
  then show ?case by simp
next
  case (Cons x xs)
  have pos: "0 < prod_list (map unat xs)" using Cons.prems by (intro prod_list_pos) (auto simp: unat_gt_0)
  show ?case
  proof (cases "unat acc * unat x \<le> u64_max")
    case True
    then show ?thesis using Cons.IH [of "acc * x"] Cons.prems
      by (auto simp: kv_multiply_cases unat_mult_exact mult.assoc)
  next
    case False
    then have "u64_max < unat acc * unat x * prod_list (map unat xs)"
      using pos by (metis leI less_le_trans mult.right_neutral mult_le_mono2 Suc_leI One_nat_def not_le)
    then show ?thesis using False by (simp add: kv_multiply_cases mult.assoc)
  qed
qed

section \<open>Row-major indices\<close>

text \<open>
  The index of a coordinate in a row-major array: for each dimension, its size and the
  position in it, outermost first.
\<close>

fun horner :: "nat \<Rightarrow> (nat \<times> nat) list \<Rightarrow> nat" where
  "horner acc [] = acc"
| "horner acc ((n, i) # r) = horner (acc * n + i) r"

lemma horner_step_less: "acc < A \<Longrightarrow> i < n \<Longrightarrow> acc * n + i < A * n" for n :: nat
proof -
  assume a: "acc < A" "i < n"
  have "acc * n + i < (acc + 1) * n" using a by simp
  also have "\<dots> \<le> A * n" using a by (intro mult_le_mono1) simp
  finally show ?thesis .
qed

lemma horner_less:
  "acc < A \<Longrightarrow> \<forall>(n, i) \<in> set r. i < n \<Longrightarrow> horner acc r < A * prod_list (map fst r)"
proof (induction r arbitrary: acc A)
  case Nil
  then show ?case by simp
next
  case (Cons x r)
  obtain n i where x: "x = (n, i)" by (cases x)
  then have "acc * n + i < A * n" using Cons.prems by (intro horner_step_less) auto
  from Cons.IH [OF this] show ?case using Cons.prems x by (simp add: mult.assoc)
qed

lemma horner_inject:
  assumes "map fst r = map fst r'" and "\<forall>(n, i) \<in> set r. i < n" and "\<forall>(n, i) \<in> set r'. i < n"
    and "horner acc r = horner acc' r'"
  shows "acc = acc' \<and> r = r'"
  using assms
proof (induction r arbitrary: acc acc' r')
  case Nil
  then show ?case by simp
next
  case (Cons x r)
  obtain n i where x: "x = (n, i)" by (cases x)
  obtain i' t where r': "r' = (n, i') # t" "map fst r = map fst t" using Cons.prems(1) x by (cases r') auto
  have lt: "i < n" "i' < n" using Cons.prems x r' by auto
  have "acc * n + i = acc' * n + i' \<and> r = t"
    using Cons.IH [OF r'(2), of "acc * n + i" "acc' * n + i'"] Cons.prems x r' by auto
  moreover from this have "acc = acc'"
    using lt by (metis div_mult_self3 div_less add.right_neutral gr_implies_not0)
  ultimately show ?case using x r' by simp
qed

text \<open>The same index in 64-bit arithmetic is exact when the array has at most \<open>2 ^ 64 - 1\<close> elements.\<close>

fun horner_word :: "u64 \<Rightarrow> (u64 \<times> u64) list \<Rightarrow> u64" where
  "horner_word acc [] = acc"
| "horner_word acc ((n, i) # r) = horner_word (acc * n + i) r"

lemma horner_word_exact:
  "unat acc < A \<Longrightarrow> \<forall>(n, i) \<in> set r. i < n \<Longrightarrow> A * prod_list (map (\<lambda>p. unat (fst p)) r) \<le> u64_max \<Longrightarrow>
   unat (horner_word acc r) = horner (unat acc) (map (map_prod unat unat) r)"
proof (induction r arbitrary: acc A)
  case Nil
  then show ?case by simp
next
  case (Cons x r)
  obtain n i where x: "x = (n, i)" by (cases x)
  have lt: "unat i < unat n" using Cons.prems(2) x by (auto simp: word_less_nat_alt)
  have pos: "0 < prod_list (map (\<lambda>p. unat (fst p)) r)"
    using Cons.prems(2) by (intro prod_list_pos) (auto simp: word_less_nat_alt unat_gt_0)
  note less = horner_step_less [OF Cons.prems(1) lt]
  have "A * unat n \<le> A * unat n * prod_list (map (\<lambda>p. unat (fst p)) r)" using pos by simp
  also have "\<dots> \<le> u64_max" using Cons.prems(3) x by (simp add: mult.assoc)
  finally have "unat acc * unat n + unat i \<le> u64_max" using less by linarith
  then have "unat (acc * n + i) = unat acc * unat n + unat i"
    by (subst unat_add_exact) (simp_all add: unat_mult_exact)
  then show ?case using Cons.IH [of "acc * n + i" "A * unat n"] Cons.prems less x
    by (simp add: mult.assoc)
qed

section \<open>The layout\<close>

text \<open>
  A value of an enumeration need not be one of its enumerators; the code has a branch for the
  others, so the models have a constructor for them.
\<close>

datatype dtype = Float16 | BFloat16 | Float32 | OtherDType int
datatype kv_kind = Key | Value | OtherKind int

record model_config =
  num_layers :: u64
  num_heads :: u64
  head_dim :: u64
  block_size :: u64
  cfg_dtype :: dtype

record capacity_plan =
  plan_block_bytes :: u64
  plan_total_blocks :: u64
  plan_allocated_bytes :: u64
  plan_unused_bytes :: u64
  plan_token_capacity :: u64

record kv_block_layout =
  kl_config :: model_config
  kl_element_bytes :: u64
  kl_block_bytes :: u64

fun dtype_bytes :: "dtype \<Rightarrow> u64 res" where
  "dtype_bytes Float16 = Inr 2"
| "dtype_bytes BFloat16 = Inr 2"
| "dtype_bytes Float32 = Inr 4"
| "dtype_bytes (OtherDType v) = Inl InvalidArgument"

definition kv_layout_create :: "model_config \<Rightarrow> kv_block_layout res" where
  "kv_layout_create c =
     bind_res (dtype_bytes (cfg_dtype c)) (\<lambda>element_bytes.
       if num_layers c = 0 \<or> num_heads c = 0 \<or> head_dim c = 0 \<or> block_size c = 0
       then Inl InvalidArgument
       else bind_res (kv_multiply_all 2 [num_layers c, num_heads c, block_size c, head_dim c, element_bytes])
              (\<lambda>bytes. Inr \<lparr>kl_config = c, kl_element_bytes = element_bytes, kl_block_bytes = bytes\<rparr>))"

definition kl_value_offset :: "kv_block_layout \<Rightarrow> u64" where
  "kl_value_offset l = kl_block_bytes l div 2"

definition kl_byte_offset :: "kv_block_layout \<Rightarrow> kv_kind \<Rightarrow> u64 \<Rightarrow> u64 \<Rightarrow> u64 \<Rightarrow> u64 \<Rightarrow> u64 res" where
  "kl_byte_offset l kind layer head token dimension =
     (let c = kl_config l in
      if kind \<noteq> Key \<and> kind \<noteq> Value then Inl InvalidArgument
      else if layer \<ge> num_layers c \<or> head \<ge> num_heads c \<or> token \<ge> block_size c \<or> dimension \<ge> head_dim c
      then Inl OutOfRange
      else
        let offset = (if kind = Key then 0 else 1);
            offset = offset * num_layers c + layer;
            offset = offset * num_heads c + head;
            offset = offset * block_size c + token;
            offset = offset * head_dim c + dimension
        in Inr (offset * kl_element_bytes l))"

definition kl_capacity_for :: "kv_block_layout \<Rightarrow> u64 \<Rightarrow> capacity_plan res" where
  "kl_capacity_for l budget =
     (let blocks = budget div kl_block_bytes l;
          allocated = blocks * kl_block_bytes l
      in bind_res (kv_multiply blocks (block_size (kl_config l)))
           (\<lambda>tokens. Inr \<lparr>plan_block_bytes = kl_block_bytes l, plan_total_blocks = blocks,
              plan_allocated_bytes = allocated, plan_unused_bytes = budget - allocated,
              plan_token_capacity = tokens\<rparr>))"

section \<open>What the constructor establishes\<close>

definition kl_elements :: "model_config \<Rightarrow> nat" where
  "kl_elements c = 2 * unat (num_layers c) * unat (num_heads c) * unat (block_size c) * unat (head_dim c)"

lemma dtype_bytes_cases:
  "dtype_bytes t = Inr b \<Longrightarrow> b = 2 \<or> b = 4"
  "dtype_bytes t = Inl e \<Longrightarrow> e = InvalidArgument"
  by (cases t; auto)+

lemma kv_layout_create_facts:
  assumes "kv_layout_create c = Inr l"
  shows "kl_config l = c" and "kl_element_bytes l = 2 \<or> kl_element_bytes l = 4"
    and "unat (kl_block_bytes l) = kl_elements c * unat (kl_element_bytes l)"
    and "num_layers c \<noteq> 0" "num_heads c \<noteq> 0" "head_dim c \<noteq> 0" "block_size c \<noteq> 0"
    and "kl_elements c * unat (kl_element_bytes l) \<le> u64_max"
proof -
  obtain eb bytes where eb: "dtype_bytes (cfg_dtype c) = Inr eb"
    and d: "num_layers c \<noteq> 0" "num_heads c \<noteq> 0" "head_dim c \<noteq> 0" "block_size c \<noteq> 0"
    and m: "kv_multiply_all 2 [num_layers c, num_heads c, block_size c, head_dim c, eb] = Inr bytes"
    and l: "l = \<lparr>kl_config = c, kl_element_bytes = eb, kl_block_bytes = bytes\<rparr>"
    using assms by (auto simp: kv_layout_create_def bind_res_Inr_iff simp del: kv_multiply_all.simps split: if_splits)
  have b: "unat bytes = kl_elements c * unat eb"
    using kv_multiply_all_exact [OF m] by (simp add: kl_elements_def mult.assoc)
  have le: "unat bytes \<le> u64_max" by (rule unat_u64_le)
  show "kl_config l = c" "kl_element_bytes l = 2 \<or> kl_element_bytes l = 4"
    "unat (kl_block_bytes l) = kl_elements c * unat (kl_element_bytes l)"
    "num_layers c \<noteq> 0" "num_heads c \<noteq> 0" "head_dim c \<noteq> 0" "block_size c \<noteq> 0"
    "kl_elements c * unat (kl_element_bytes l) \<le> u64_max"
    using l d b le dtype_bytes_cases(1) [OF eb] by simp_all
qed

lemma kv_layout_create_cases:
  assumes "num_layers c \<noteq> 0" "num_heads c \<noteq> 0" "head_dim c \<noteq> 0" "block_size c \<noteq> 0"
    and eb: "dtype_bytes (cfg_dtype c) = Inr eb"
  shows "kl_elements c * unat eb \<le> u64_max \<Longrightarrow> \<exists>l. kv_layout_create c = Inr l"
    and "u64_max < kl_elements c * unat eb \<Longrightarrow> kv_layout_create c = Inl OverflowError"
proof -
  let ?xs = "[num_layers c, num_heads c, block_size c, head_dim c, eb]"
  have "\<forall>x \<in> set ?xs. x \<noteq> 0" using assms dtype_bytes_cases(1) [OF eb] by auto
  note m = kv_multiply_all_cases [OF this, of 2]
  have p: "unat (2 :: u64) * prod_list (map unat ?xs) = kl_elements c * unat eb"
    by (simp add: kl_elements_def mult.assoc)
  have "unat (2 :: u64) \<le> u64_max" by (simp add: u64_max_def)
  note m = m [OF this, unfolded p]
  show "kl_elements c * unat eb \<le> u64_max \<Longrightarrow> \<exists>l. kv_layout_create c = Inr l"
    "u64_max < kl_elements c * unat eb \<Longrightarrow> kv_layout_create c = Inl OverflowError"
    using m assms by (auto simp: kv_layout_create_def simp del: kv_multiply_all.simps)
qed

text \<open>The coordinate as sizes and positions.\<close>

definition kl_coordinate :: "model_config \<Rightarrow> u64 \<Rightarrow> u64 \<Rightarrow> u64 \<Rightarrow> u64 \<Rightarrow> (nat \<times> nat) list" where
  "kl_coordinate c layer head token dimension =
     [(unat (num_layers c), unat layer), (unat (num_heads c), unat head),
      (unat (block_size c), unat token), (unat (head_dim c), unat dimension)]"

definition kind_index :: "kv_kind \<Rightarrow> nat" where
  "kind_index kind = (if kind = Key then 0 else 1)"

lemma kl_byte_offset_ok:
  assumes c: "kv_layout_create c = Inr l" and r: "kl_byte_offset l kind layer head token dimension = Inr x"
  defines "r \<equiv> kl_coordinate c layer head token dimension"
  shows "kind = Key \<or> kind = Value" and "\<forall>(n, i) \<in> set r. i < n"
    and "unat x = horner (kind_index kind) r * unat (kl_element_bytes l)"
    and "horner (kind_index kind) r < kl_elements c"
proof -
  note f = kv_layout_create_facts [OF c]
  let ?w = "[(num_layers c, layer), (num_heads c, head), (block_size c, token), (head_dim c, dimension)]"
  let ?k = "if kind = Key then 0 else 1 :: u64"
  have k: "kind = Key \<or> kind = Value" and lt: "\<forall>(n, i) \<in> set ?w. i < n"
    and x: "x = horner_word ?k ?w * kl_element_bytes l"
    using r f(1) by (auto simp: kl_byte_offset_def Let_def split: if_splits)
  show "kind = Key \<or> kind = Value" by (rule k)
  have ki: "unat ?k = kind_index kind" "kind_index kind < 2" by (simp_all add: kind_index_def)
  have rw: "map (map_prod unat unat) ?w = r" by (simp add: r_def kl_coordinate_def)
  show lt': "\<forall>(n, i) \<in> set r. i < n" using lt by (simp add: r_def kl_coordinate_def word_less_nat_alt)
  have prod: "2 * prod_list (map fst r) = kl_elements c" "2 * prod_list (map (\<lambda>p. unat (fst p)) ?w) = kl_elements c"
    by (simp_all add: r_def kl_coordinate_def kl_elements_def mult.assoc)
  show less: "horner (kind_index kind) r < kl_elements c"
    using horner_less [OF ki(2) lt'] prod by simp
  have "0 < unat (kl_element_bytes l)" using f(2) by auto
  then have "kl_elements c \<le> kl_elements c * unat (kl_element_bytes l)" by simp
  then have "kl_elements c \<le> u64_max" using f(8) by linarith
  then have h: "unat (horner_word ?k ?w) = horner (kind_index kind) r"
    using horner_word_exact [of ?k 2 ?w] ki lt prod(2) rw by (simp only: ki)
  have "horner (kind_index kind) r * unat (kl_element_bytes l) \<le> u64_max"
    using less f(8) by (meson le_trans less_imp_le mult_le_mono1)
  then show "unat x = horner (kind_index kind) r * unat (kl_element_bytes l)"
    unfolding x using h by (simp add: unat_mult_exact)
qed

lemma scaled_disjoint:
  "i \<noteq> j \<Longrightarrow> i * w + w \<le> j * w \<or> j * w + w \<le> i * w" for i j w :: nat
proof -
  assume "i \<noteq> j"
  then consider "i + 1 \<le> j" | "j + 1 \<le> i" by linarith
  then show ?thesis
  proof cases
    case 1
    then have "(i + 1) * w \<le> j * w" by (rule mult_le_mono1)
    then show ?thesis by simp
  next
    case 2
    then have "(j + 1) * w \<le> i * w" by (rule mult_le_mono1)
    then show ?thesis by simp
  qed
qed

section \<open>Properties\<close>

text \<open>The constructor accepts exactly the configurations with a supported dtype, positive
  dimensions and a block that fits in \<open>std::size_t\<close>; then \<open>block_bytes\<close> is the exact
  product, never one that wrapped around. Otherwise it reports which of the two is wrong.\<close>

theorem kv_layout_create_exact:
  "(case kv_layout_create c of
      Inr l \<Rightarrow> \<exists>eb. dtype_bytes (cfg_dtype c) = Inr eb \<and> kl_element_bytes l = eb \<and>
        unat (kl_block_bytes l) = 2 * unat (num_layers c) * unat (num_heads c) * unat (block_size c) *
          unat (head_dim c) * unat eb
    | Inl e \<Rightarrow>
        (e = InvalidArgument \<and> ((\<exists>v. cfg_dtype c = OtherDType v) \<or>
           0 \<in> {num_layers c, num_heads c, head_dim c, block_size c})) \<or>
        (e = OverflowError \<and> (\<exists>eb. dtype_bytes (cfg_dtype c) = Inr eb \<and>
           u64_max < 2 * unat (num_layers c) * unat (num_heads c) * unat (block_size c) *
             unat (head_dim c) * unat eb)))"
proof (cases "dtype_bytes (cfg_dtype c)")
  case (Inl e)
  then have "\<exists>v. cfg_dtype c = OtherDType v" "e = InvalidArgument" by (cases "cfg_dtype c"; simp)+
  then show ?thesis using Inl by (simp add: kv_layout_create_def)
next
  case (Inr eb)
  show ?thesis
  proof (cases "0 \<in> {num_layers c, num_heads c, head_dim c, block_size c}")
    case True
    then show ?thesis using Inr by (auto simp: kv_layout_create_def)
  next
    case False
    then have "num_layers c \<noteq> 0" "num_heads c \<noteq> 0" "head_dim c \<noteq> 0" "block_size c \<noteq> 0" by auto
    note cases = kv_layout_create_cases [OF this Inr]
    show ?thesis
    proof (cases "kl_elements c * unat eb \<le> u64_max")
      case True
      then obtain l where l: "kv_layout_create c = Inr l" using cases(1) by blast
      have "kl_element_bytes l = eb"
        using l Inr by (auto simp: kv_layout_create_def bind_res_Inr_iff split: if_splits)
      then show ?thesis using kv_layout_create_facts(3) [OF l] l Inr by (simp add: kl_elements_def)
    next
      case False
      then show ?thesis using cases(2) Inr by (simp add: kl_elements_def not_le)
    qed
  qed
qed

text \<open>C8: The elements of a block lie inside it, keys in the first half and values in the second
  (from \<open>value_offset\<close> on), and two different coordinates never share a byte.\<close>

theorem kl_byte_offset_disjoint:
  assumes "kv_layout_create c = Inr l"
    and "kl_byte_offset l kind layer head token dim = Inr x"
    and "kl_byte_offset l kind' layer' head' token' dim' = Inr y"
  shows "unat x + unat (kl_element_bytes l) \<le> unat (kl_block_bytes l) \<and>
    (if kind = Key then unat x + unat (kl_element_bytes l) \<le> unat (kl_value_offset l)
     else unat (kl_value_offset l) \<le> unat x) \<and>
    ((kind, layer, head, token, dim) \<noteq> (kind', layer', head', token', dim') \<longrightarrow>
       unat x + unat (kl_element_bytes l) \<le> unat y \<or> unat y + unat (kl_element_bytes l) \<le> unat x)"
proof -
  note f = kv_layout_create_facts [OF assms(1)]
  note a = kl_byte_offset_ok [OF assms(1,2)] and b = kl_byte_offset_ok [OF assms(1,3)]
  let ?w = "unat (kl_element_bytes l)"
  let ?r = "kl_coordinate c layer head token dim" and ?r' = "kl_coordinate c layer' head' token' dim'"
  have half: "unat (kl_value_offset l) = kl_elements c div 2 * ?w"
    using f(3) by (simp add: kl_value_offset_def unat_div_distrib kl_elements_def)
  have even: "kl_elements c div 2 = prod_list (map fst ?r)"
    by (simp add: kl_elements_def kl_coordinate_def)
  have key: "kind = Key \<Longrightarrow> horner (kind_index kind) ?r < kl_elements c div 2"
    unfolding even using horner_less [of 0 1 ?r] a(2) by (simp add: kind_index_def)
  have val: "kind \<noteq> Key \<Longrightarrow> kl_elements c div 2 \<le> horner (kind_index kind) ?r"
    by (simp add: kind_index_def kl_elements_def kl_coordinate_def algebra_simps)
  have in_range: "i < n \<Longrightarrow> i * ?w + ?w \<le> n * ?w" for i n
    using mult_le_mono1 [of "i + 1" n ?w] by simp
  have "(kind, layer, head, token, dim) \<noteq> (kind', layer', head', token', dim') \<Longrightarrow>
      horner (kind_index kind) ?r \<noteq> horner (kind_index kind') ?r'"
  proof
    assume ne: "(kind, layer, head, token, dim) \<noteq> (kind', layer', head', token', dim')"
      and eq: "horner (kind_index kind) ?r = horner (kind_index kind') ?r'"
    have "map fst ?r = map fst ?r'" by (simp add: kl_coordinate_def)
    from horner_inject [OF this a(2) b(2) eq] have "kind_index kind = kind_index kind'" "?r = ?r'" by simp_all
    then show False using ne a(1) b(1) by (auto simp: kind_index_def kl_coordinate_def word_unat_eq_iff split: if_splits)
  qed
  then have dis: "(kind, layer, head, token, dim) \<noteq> (kind', layer', head', token', dim') \<Longrightarrow>
      unat x + ?w \<le> unat y \<or> unat y + ?w \<le> unat x"
    using scaled_disjoint a(3) b(3) by metis
  moreover have "unat x + ?w \<le> unat (kl_block_bytes l)" unfolding a(3) f(3) by (rule in_range [OF a(4)])
  moreover have "if kind = Key then unat x + ?w \<le> unat (kl_value_offset l)
     else unat (kl_value_offset l) \<le> unat x"
    unfolding a(3) half using in_range [OF key] val by (simp add: mult_le_mono1)
  ultimately show ?thesis by blast
qed

definition small_config :: model_config where
  "small_config = \<lparr>num_layers = 2, num_heads = 2, head_dim = 4, block_size = 2, cfg_dtype = Float16\<rparr>"

lemma kl_byte_offset_disjoint_witness:
  "\<exists>l. kv_layout_create small_config = Inr l \<and>
     kl_byte_offset l Key 1 1 1 3 = Inr 62 \<and> kl_byte_offset l Value 0 0 0 0 = Inr 64 \<and>
     unat (62 :: u64) + unat (kl_element_bytes l) \<le> unat (kl_value_offset l)"
proof -
  define l where "l = \<lparr>kl_config = small_config, kl_element_bytes = 2, kl_block_bytes = 128\<rparr>"
  have l: "kv_layout_create small_config = Inr l" unfolding l_def by code_simp
  have x: "kl_byte_offset l Key 1 1 1 3 = Inr 62" unfolding l_def by code_simp
  have y: "kl_byte_offset l Value 0 0 0 0 = Inr 64" unfolding l_def by code_simp
  show ?thesis using kl_byte_offset_disjoint [OF l x y] l x y by (simp del: unat_numeral)
qed

text \<open>\<open>capacity_for\<close> never fails: it returns the largest number of whole blocks that fit in
  the budget, splits the budget exactly into allocated and unused bytes, and its overflow
  check on the token capacity can never fire.\<close>

theorem kl_capacity_for_total:
  assumes "kv_layout_create c = Inr l"
  shows "\<exists>plan. kl_capacity_for l budget = Inr plan \<and>
    unat (plan_total_blocks plan) = unat budget div unat (kl_block_bytes l) \<and>
    unat (plan_allocated_bytes plan) = unat (plan_total_blocks plan) * unat (kl_block_bytes l) \<and>
    unat (plan_allocated_bytes plan) + unat (plan_unused_bytes plan) = unat budget \<and>
    unat (plan_unused_bytes plan) < unat (kl_block_bytes l) \<and>
    unat (plan_token_capacity plan) = unat (plan_total_blocks plan) * unat (block_size c)"
proof -
  note f = kv_layout_create_facts [OF assms]
  let ?b = "unat (kl_block_bytes l)" and ?n = "budget div kl_block_bytes l"
  have n: "unat ?n = unat budget div ?b" by (rule unat_div_distrib)
  have le: "unat ?n * ?b \<le> unat budget" by (simp add: n)
  have pos: "0 < unat (num_layers c)" "0 < unat (num_heads c)" "0 < unat (head_dim c)"
    "0 < unat (block_size c)" "0 < unat (kl_element_bytes l)"
    using f(2,4-7) by (auto simp: unat_gt_0)
  have "unat (block_size c) \<le> ?b"
    unfolding f(3) kl_elements_def using pos by (simp add: Suc_le_eq)
  then have tok: "unat ?n * unat (block_size c) \<le> unat budget"
    using le by (meson le_trans mult_le_mono2)
  then have m: "kv_multiply ?n (block_size c) = Inr (?n * block_size c)"
    using unat_u64_le [of budget] by (simp add: kv_multiply_cases)
  have a: "unat (?n * kl_block_bytes l) = unat ?n * ?b"
    using le unat_u64_le [of budget] by (intro unat_mult_exact) simp
  have "?n * kl_block_bytes l \<le> budget" using a le by (simp add: word_le_nat_alt)
  then have u: "unat (budget - ?n * kl_block_bytes l) = unat budget - unat ?n * ?b"
    using a by (simp add: unat_sub)
  have "unat budget - unat ?n * ?b = unat budget mod ?b" by (simp add: n minus_div_mult_eq_mod)
  moreover have "0 < ?b" unfolding f(3) kl_elements_def using pos by simp
  ultimately have "unat budget - unat ?n * ?b < ?b" by simp
  moreover have "unat (?n * block_size c) = unat ?n * unat (block_size c)"
    using tok unat_u64_le [of budget] by (intro unat_mult_exact) simp
  ultimately show ?thesis using m a u le n f(1) by (simp add: kl_capacity_for_def Let_def)
qed

lemma kl_capacity_for_total_witness:
  "\<exists>l plan. kv_layout_create small_config = Inr l \<and> kl_capacity_for l 1000 = Inr plan \<and>
     unat (plan_allocated_bytes plan) + unat (plan_unused_bytes plan) = unat (1000 :: u64)"
proof -
  define l where "l = \<lparr>kl_config = small_config, kl_element_bytes = 2, kl_block_bytes = 128\<rparr>"
  have l: "kv_layout_create small_config = Inr l" unfolding l_def by code_simp
  show ?thesis using kl_capacity_for_total [OF l, of 1000] l by blast
qed

end
