(* ===== verification/Physical_Block_Pool.thy ===== *)
theory Physical_Block_Pool
  imports Block_Manager
begin

text \<open>
  \<open>include/kvflux/physical_block_pool.h\<close>, \<open>src/physical_block_pool.cpp\<close>: the metadata pool of
  v2, a \<open>BlockManager\<close> behind a narrower interface. Its operations satisfy the same
  reference-counting contract, shown by an interpretation of \<open>ref_counted\<close>.
\<close>

record physical_block_pool =
  pp_manager :: block_manager

text \<open>A call of the wrapped manager.\<close>

definition pp_call :: "(block_manager \<Rightarrow> 'a res \<times> block_manager) \<Rightarrow>
    physical_block_pool \<Rightarrow> 'a res \<times> physical_block_pool" where
  "pp_call f p = (case f (pp_manager p) of (r, m) \<Rightarrow> (r, p\<lparr>pp_manager := m\<rparr>))"

definition pp_create :: "nat \<Rightarrow> nat \<Rightarrow> (tokens \<Rightarrow> u64) option \<Rightarrow> physical_block_pool res" where
  "pp_create capacity block_size hasher =
     bind_res (bm_create capacity block_size hasher) (\<lambda>m. Inr \<lparr>pp_manager = m\<rparr>)"

definition pp_allocate :: "physical_block_pool \<Rightarrow> block_handle res \<times> physical_block_pool" where
  "pp_allocate = pp_call bm_allocate"

definition pp_retain :: "block_handle \<Rightarrow> physical_block_pool \<Rightarrow> unit res \<times> physical_block_pool" where
  "pp_retain h = pp_call (bm_retain h)"

definition pp_free :: "block_handle \<Rightarrow> physical_block_pool \<Rightarrow> unit res \<times> physical_block_pool" where
  "pp_free h = pp_call (bm_release h)"

definition pp_publish :: "block_handle \<Rightarrow> tokens \<Rightarrow> physical_block_pool \<Rightarrow> unit res \<times> physical_block_pool" where
  "pp_publish h prefix = pp_call (bm_publish h prefix)"

definition pp_lookup :: "tokens \<Rightarrow> physical_block_pool \<Rightarrow> block_handle option res \<times> physical_block_pool" where
  "pp_lookup prefix = pp_call (bm_lookup prefix)"

definition pp_is_published :: "block_handle \<Rightarrow> physical_block_pool \<Rightarrow> bool res" where
  "pp_is_published h p = bm_is_published h (pp_manager p)"

definition pp_ref_count :: "block_handle \<Rightarrow> physical_block_pool \<Rightarrow> nat res" where
  "pp_ref_count h p = bm_ref_count h (pp_manager p)"

definition pp_id :: "block_handle \<Rightarrow> physical_block_pool \<Rightarrow> nat res" where
  "pp_id h p =
     bind_res (bm_ref_count h (pp_manager p))
       (\<lambda>n. if n = 0 then Inl InvalidArgument else Inr (h_id h))"

definition pp_capacity :: "physical_block_pool \<Rightarrow> nat" where
  "pp_capacity p = bm_capacity (pp_manager p)"

definition pp_block_size :: "physical_block_pool \<Rightarrow> nat" where
  "pp_block_size p = bm_block_size (pp_manager p)"

definition pp_available :: "physical_block_pool \<Rightarrow> nat" where
  "pp_available p = (let stats = bm_stats (pp_manager p) in st_free stats + st_cached_idle stats)"

section \<open>The contract\<close>

abbreviation "pp_inv p \<equiv> bm_inv (pp_manager p)"
abbreviation "pp_refs p \<equiv> bm_refs (pp_manager p)"
abbreviation "pp_live p \<equiv> bm_live (pp_manager p)"
abbreviation "pp_pub p \<equiv> bm_pub (pp_manager p)"
abbreviation "pp_config p \<equiv> bm_config (pp_manager p)"
abbreviation "pp_cache p \<equiv> bm_cache (pp_manager p)"

lemma pp_call_iff:
  "pp_call f p = (r, p') \<longleftrightarrow> f (pp_manager p) = (r, pp_manager p')"
  by (cases p; cases p') (auto simp: pp_call_def split: prod.splits)

lemma pp_eq_iff: "p' = p \<longleftrightarrow> pp_manager p' = pp_manager (p :: physical_block_pool)"
  by (cases p; cases p') auto

lemmas pp_call_defs = pp_allocate_def pp_retain_def pp_free_def pp_publish_def pp_lookup_def

lemma pp_call_ex: "(\<exists>p'. pp_call f p = (r, p')) \<longleftrightarrow> (\<exists>m. f (pp_manager p) = (r, m))"
  by (auto simp: pp_call_def split: prod.splits)

interpretation pp: ref_counted pp_inv pp_refs pp_live pp_pub pp_config pp_allocate pp_retain pp_free
  unfolding pp_call_defs
proof unfold_locales
  fix p p' :: physical_block_pool and h g :: block_handle and e
  show "\<exists>p'. pp_call (bm_retain h) p = (Inr (), p')"
    if "pp_inv p" "pp_live p h" "pp_refs p h < size_max"
    using bm.retain_total that by (simp add: pp_call_ex)
  show "\<exists>p'. pp_call (bm_release h) p = (Inr (), p')" if "pp_inv p" "0 < pp_refs p h"
    using bm.free_total that by (simp add: pp_call_ex)
qed (auto simp: pp_call_iff pp_eq_iff bm.refs_le
      dest: bm.refs_live bm.alloc_ok bm.alloc_pub bm.alloc_err bm.retain_ok bm.retain_pub bm.retain_live
        bm.retain_err bm.free_ok bm.free_pub)

section \<open>Handles and availability\<close>

lemma pp_id_cases:
  "pp_id h p = (if 0 < pp_refs p h then Inr (h_id h) else Inl InvalidArgument)"
  by (auto simp: pp_id_def bm_ref_count_def bm_checked_live bm_refs_def)

lemma pp_ref_count_cases:
  "pp_ref_count h p = (if pp_live p h then Inr (pp_refs p h) else Inl InvalidArgument)"
  by (auto simp: pp_ref_count_def bm_ref_count_def bm_checked_live bm_refs_def)

lemma pp_is_published_cases:
  "pp_is_published h p = (if pp_live p h then Inr (pp_pub p h) else Inl InvalidArgument)"
  by (auto simp: pp_is_published_def bm_is_published_def bm_checked_live bm_pub_def)

lemma pp_available_rep:
  "bm_rep (pp_manager p) fl il \<Longrightarrow> pp_available p = length fl + length il"
  by (simp add: pp_available_def Let_def bm_stats_rep)

lemma pp_allocate_available:
  assumes "pp_inv p"
  shows "pp_allocate p = (Inr h, p') \<Longrightarrow> pp_available p = pp_available p' + 1"
    and "pp_allocate p = (Inl e, p') \<Longrightarrow>
      p' = p \<and> (e = CapacityError \<and> pp_available p = 0 \<or> e = OverflowError \<and> 0 < pp_available p)"
proof -
  obtain fl il where rep: "bm_rep (pp_manager p) fl il" using assms by (auto simp: bm_inv_def)
  note av = pp_available_rep [OF rep]
  from rep have "(pp_allocate p = (Inr h, p') \<longrightarrow> pp_available p = pp_available p' + 1) \<and>
    (pp_allocate p = (Inl e, p') \<longrightarrow>
      p' = p \<and> (e = CapacityError \<and> pp_available p = 0 \<or> e = OverflowError \<and> 0 < pp_available p))"
  proof (cases rule: bm_allocate_cases)
    case full
    then show ?thesis using av by (simp add: pp_allocate_def pp_call_iff pp_eq_iff)
  next
    case (exhausted i)
    then have "0 < length fl + length il" by (cases fl; cases il) simp_all
    then show ?thesis using exhausted av by (simp add: pp_allocate_def pp_call_iff pp_eq_iff)
  next
    case (ok i s' fl' il')
    have "length fl + length il = length (fl @ il)" by simp
    also have "\<dots> = length fl' + length il' + 1" using ok(1) by simp
    finally show ?thesis
      using ok(4) av pp_available_rep [of p' fl' il'] ok(5) by (auto simp: pp_allocate_def pp_call_iff)
  qed
  then show "pp_allocate p = (Inr h, p') \<Longrightarrow> pp_available p = pp_available p' + 1"
    "pp_allocate p = (Inl e, p') \<Longrightarrow>
      p' = p \<and> (e = CapacityError \<and> pp_available p = 0 \<or> e = OverflowError \<and> 0 < pp_available p)"
    by blast+
qed

lemma pp_free_available:
  assumes "pp_inv p" and f: "pp_free h p = (Inr (), p')"
  shows "pp_available p' = pp_available p + (if pp_refs p h = 1 then 1 else 0)"
proof -
  let ?s = "pp_manager p" and ?x = "bm_slots (pp_manager p) ! h_id h"
  obtain fl il where rep: "bm_rep ?s fl il" using assms by (auto simp: bm_inv_def)
  have r: "bm_release h ?s = (Inr (), pp_manager p')" using f by (simp add: pp_free_def pp_call_iff)
  have pos: "0 < bm_refs ?s h" using bm_release_spec(2) [OF assms(1) r] .
  then have refs: "bm_refs ?s h = s_refs ?x" "bm_live ?s h" by (auto simp: bm_refs_def split: if_splits)
  obtain m and y :: slot and fl' il' where m: "bm_release h ?s = (Inr (), m)" and "bm_rep m fl' il'"
    and y: "s_free y = (s_refs ?x = 1 \<and> \<not> s_cached ?x)"
    and fl': "fl' = (if s_free y then h_id h # fl else fl)"
    and il': "il' = (if s_refs ?x = 1 \<and> s_cached ?x then il @ [h_id h] else il)"
    using bm_release_ok [OF rep pos] by blast
  then have rep': "bm_rep (pp_manager p') fl' il'" using r by simp
  show ?thesis using pp_available_rep [OF rep] pp_available_rep [OF rep'] y fl' il' refs by simp
qed

section \<open>Properties\<close>

definition small_pool :: physical_block_pool where
  "small_pool = (case pp_create 2 2 (Some (\<lambda>p. 0)) of Inr p \<Rightarrow> p)"

lemma small_pool_inv: "pp_inv small_pool"
proof -
  obtain m where m: "bm_create 2 2 (Some (\<lambda>p. 0)) = Inr m" by (auto simp: bm_create_def)
  then have "pp_manager small_pool = m" by (simp add: small_pool_def pp_create_def)
  then show ?thesis using bm_create_inv(2) [OF m] by (simp add: none_eq)
qed

text \<open>\<open>available()\<close> is exact: a successful \<open>allocate\<close> lowers it by one, \<open>allocate\<close> throws
  \<open>CapacityError\<close> exactly when it is 0 (the only other failure is an exhausted generation),
  a \<open>free\<close> raises it exactly when it returns the last reference, and \<open>id\<close> accepts exactly the
  handles with a reference.\<close>

theorem pp_available_exact:
  assumes "pp_inv p"
  shows "(case pp_allocate p of
      (Inr h, p') \<Rightarrow> pp_available p = pp_available p' + 1 \<and> pp_id h p' = Inr (h_id h)
    | (Inl e, p') \<Rightarrow> p' = p \<and> (e = CapacityError \<longleftrightarrow> pp_available p = 0) \<and>
        (e = OverflowError \<longleftrightarrow> 0 < pp_available p)) \<and>
   (case pp_free g p of
      (Inr u, p') \<Rightarrow> pp_available p' = pp_available p + (if pp_ref_count g p = Inr 1 then 1 else 0)
    | (Inl e, p') \<Rightarrow> e = InvalidArgument \<and> p' = p \<and> pp_id g p = Inl InvalidArgument)"
proof (rule conjI)
  obtain r p1 where a: "pp_allocate p = (r, p1)" by (cases "pp_allocate p")
  show "case pp_allocate p of
      (Inr h, p') \<Rightarrow> pp_available p = pp_available p' + 1 \<and> pp_id h p' = Inr (h_id h)
    | (Inl e, p') \<Rightarrow> p' = p \<and> (e = CapacityError \<longleftrightarrow> pp_available p = 0) \<and>
        (e = OverflowError \<longleftrightarrow> 0 < pp_available p)"
    using pp_allocate_available [OF assms] pp.alloc_ok [OF assms] a
    by (cases r) (auto simp: pp_id_cases)
  obtain q p2 where f: "pp_free g p = (q, p2)" by (cases "pp_free g p")
  show "case pp_free g p of
      (Inr u, p') \<Rightarrow> pp_available p' = pp_available p + (if pp_ref_count g p = Inr 1 then 1 else 0)
    | (Inl e, p') \<Rightarrow> e = InvalidArgument \<and> p' = p \<and> pp_id g p = Inl InvalidArgument"
  proof (cases q)
    case (Inl e)
    then have f: "pp_free g p = (Inl e, p2)" using f by simp
    then have "e = InvalidArgument" "p2 = p" "pp_refs p g = 0"
      using bm_release_error [OF assms, of g e "pp_manager p2"]
      by (simp_all add: pp_free_def pp_call_iff pp_eq_iff)
    then show ?thesis using f by (simp add: pp_id_cases)
  next
    case (Inr u)
    then have f: "pp_free g p = (Inr (), p2)" using f by simp
    then have "0 < pp_refs p g"
      using bm_release_spec(2) [OF assms, of g "pp_manager p2"] by (simp add: pp_free_def pp_call_iff)
    then show ?thesis
      using pp_free_available [OF assms f] bm_refs_live [of "pp_manager p" g] f
      by (simp add: pp_ref_count_cases)
  qed
qed

lemma pp_available_exact_witness:
  "pp_inv small_pool \<and> pp_available small_pool = 2 \<and>
   pp_available small_pool = pp_available (snd (pp_allocate small_pool)) + 1"
proof -
  have "fst (pp_allocate small_pool) = Inr \<lparr>h_id = 0, h_generation = 1\<rparr>" "pp_available small_pool = 2"
    by code_simp+
  moreover then obtain p where "pp_allocate small_pool = (Inr \<lparr>h_id = 0, h_generation = 1\<rparr>, p)"
    by (cases "pp_allocate small_pool") auto
  ultimately show ?thesis
    using conjunct1 [OF pp_available_exact [OF small_pool_inv]] small_pool_inv by auto
qed

end
