(* ===== verification/Block_Table.thy ===== *)
theory Block_Table
  imports Physical_Block_Pool
begin

text \<open>
  \<open>include/kvflux/v2/block_table.h\<close>, \<open>src/v2/block_table.cpp\<close>: the logical-to-physical block
  map of one sequence, which owns one pool reference per entry.

  A \<open>PhysicalBlockPool*\<close> is \<open>None\<close> for the null pointer and otherwise the address of the pool;
  the operations act on the pair of the table and the pool its pointer designates. A vector's
  \<open>push_back\<close> may throw \<open>bad_alloc\<close>: \<open>grow n\<close> says that it does for a vector of \<open>n\<close> elements.
\<close>

type_synonym pool_ref = nat

record v2_table =
  bt_pool :: "pool_ref option"
  bt_blocks :: "block_handle list"

type_synonym table_state = "v2_table \<times> physical_block_pool"

definition bt_create :: "pool_ref \<Rightarrow> v2_table" where
  "bt_create p = \<lparr>bt_pool = Some p, bt_blocks = []\<rparr>"

definition bt_push_back :: "(nat \<Rightarrow> bool) \<Rightarrow> block_handle \<Rightarrow> v2_table \<Rightarrow> unit res \<times> v2_table" where
  "bt_push_back grow h t =
     (if grow (length (bt_blocks t)) then (Inl BadAlloc, t)
      else (Inr (), t\<lparr>bt_blocks := bt_blocks t @ [h]\<rparr>))"

text \<open>\<open>clear\<close> is \<open>noexcept\<close>: an exception of \<open>free\<close> would end the program.\<close>

definition bt_clear :: "table_state \<Rightarrow> unit res \<times> table_state" where
  "bt_clear st =
     (case st of (t, p) \<Rightarrow>
        case for_each pp_free (bt_blocks t) p of
          (Inl e, p') \<Rightarrow> (Inl Terminated, (t, p'))
        | (Inr u, p') \<Rightarrow> (Inr (), (t\<lparr>bt_blocks := []\<rparr>, p')))"

text \<open>The move constructor: the new table and what is left of the source.\<close>

definition bt_move :: "v2_table \<Rightarrow> v2_table \<times> v2_table" where
  "bt_move other =
     (\<lparr>bt_pool = bt_pool other, bt_blocks = bt_blocks other\<rparr>, \<lparr>bt_pool = None, bt_blocks = []\<rparr>)"

text \<open>
  The move assignment of two distinct tables; \<open>p\<close> is the pool of the target, whose references
  are given back first.
\<close>

definition bt_move_assign :: "v2_table \<Rightarrow> table_state \<Rightarrow> unit res \<times> v2_table \<times> table_state" where
  "bt_move_assign other st =
     (case bt_clear st of
        (Inl e, st') \<Rightarrow> (Inl e, other, st')
      | (Inr u, (t, p)) \<Rightarrow>
          (Inr (), other\<lparr>bt_pool := None, bt_blocks := bt_blocks t\<rparr>,
             (t\<lparr>bt_pool := bt_pool other, bt_blocks := bt_blocks other\<rparr>, p)))"

definition bt_append_new :: "(nat \<Rightarrow> bool) \<Rightarrow> table_state \<Rightarrow> nat res \<times> table_state" where
  "bt_append_new grow st =
     (case st of (t, p) \<Rightarrow>
        if bt_pool t = None then (Inl LogicError, (t, p))
        else case pp_allocate p of
          (Inl e, p1) \<Rightarrow> (Inl e, (t, p1))
        | (Inr h, p1) \<Rightarrow>
            (case bt_push_back grow h t of
               (Inr u, t1) \<Rightarrow> (Inr (h_id h), (t1, p1))
             | (Inl e, t1) \<Rightarrow> (case pp_free h p1 of
                   (Inl e', p2) \<Rightarrow> (Inl e', (t1, p2))
                 | (Inr u, p2) \<Rightarrow> (Inl e, (t1, p2)))))"

definition bt_append_existing :: "(nat \<Rightarrow> bool) \<Rightarrow> block_handle \<Rightarrow> table_state \<Rightarrow> unit res \<times> table_state" where
  "bt_append_existing grow h st =
     (case st of (t, p) \<Rightarrow>
        if bt_pool t = None then (Inl LogicError, (t, p))
        else case pp_retain h p of
          (Inl e, p1) \<Rightarrow> (Inl e, (t, p1))
        | (Inr u, p1) \<Rightarrow>
            (case bt_push_back grow h t of
               (Inr u, t1) \<Rightarrow> (Inr (), (t1, p1))
             | (Inl e, t1) \<Rightarrow> (case pp_free h p1 of
                   (Inl e', p2) \<Rightarrow> (Inl e', (t1, p2))
                 | (Inr u, p2) \<Rightarrow> (Inl e, (t1, p2)))))"

definition bt_at :: "nat \<Rightarrow> v2_table \<Rightarrow> block_handle res" where
  "bt_at i t = (if i \<ge> length (bt_blocks t) then Inl OutOfRange else Inr (bt_blocks t ! i))"

definition bt_append_shared :: "(nat \<Rightarrow> bool) \<Rightarrow> v2_table \<Rightarrow> nat \<Rightarrow> table_state \<Rightarrow> unit res \<times> table_state" where
  "bt_append_shared grow source i st =
     (case st of (t, p) \<Rightarrow>
        if bt_pool t = None \<or> bt_pool t \<noteq> bt_pool source then (Inl InvalidArgument, (t, p))
        else case bt_at i source of
          Inl e \<Rightarrow> (Inl e, (t, p))
        | Inr h \<Rightarrow> bt_append_existing grow h (t, p))"

text \<open>The queries dereference \<open>pool_\<close> without a check.\<close>

definition bt_deref :: "v2_table \<Rightarrow> 'a res \<Rightarrow> 'a res" where
  "bt_deref t r = (if bt_pool t = None then Inl Undefined else r)"

definition bt_physical_id :: "nat \<Rightarrow> table_state \<Rightarrow> nat res" where
  "bt_physical_id i st =
     (case st of (t, p) \<Rightarrow> bind_res (bt_at i t) (\<lambda>h. bt_deref t (pp_id h p)))"

definition bt_handle :: "nat \<Rightarrow> table_state \<Rightarrow> block_handle res" where
  "bt_handle i st =
     (case st of (t, p) \<Rightarrow> bind_res (bt_at i t) (\<lambda>h. bind_res (bt_deref t (pp_id h p)) (\<lambda>u. Inr h)))"

definition bt_ref_count :: "nat \<Rightarrow> table_state \<Rightarrow> nat res" where
  "bt_ref_count i st =
     (case st of (t, p) \<Rightarrow> bind_res (bt_at i t) (\<lambda>h. bt_deref t (pp_ref_count h p)))"

definition bt_shares_pool_with :: "v2_table \<Rightarrow> v2_table \<Rightarrow> bool" where
  "bt_shares_pool_with t other \<longleftrightarrow> bt_pool t \<noteq> None \<and> bt_pool t = bt_pool other"

definition bt_uses_pool :: "pool_ref \<Rightarrow> v2_table \<Rightarrow> bool" where
  "bt_uses_pool p t \<longleftrightarrow> bt_pool t = Some p"

definition bt_get_pool :: "v2_table \<Rightarrow> pool_ref res" where
  "bt_get_pool t = (case bt_pool t of None \<Rightarrow> Inl LogicError | Some p \<Rightarrow> Inr p)"

definition bt_pop_back :: "table_state \<Rightarrow> unit res \<times> table_state" where
  "bt_pop_back st =
     (case st of (t, p) \<Rightarrow>
        if bt_blocks t = [] then (Inl OutOfRange, (t, p))
        else if bt_pool t = None then (Inl Undefined, (t, p))
        else case pp_free (last (bt_blocks t)) p of
          (Inl e, p1) \<Rightarrow> (Inl e, (t, p1))
        | (Inr u, p1) \<Rightarrow> (Inr (), (t\<lparr>bt_blocks := butlast (bt_blocks t)\<rparr>, p1)))"

definition bt_replace_last_owned :: "block_handle \<Rightarrow> table_state \<Rightarrow> unit res \<times> table_state" where
  "bt_replace_last_owned h st =
     (case st of (t, p) \<Rightarrow>
        if bt_blocks t = [] then (Inl OutOfRange, (t, p))
        else if bt_pool t = None then (Inl Undefined, (t, p))
        else case bind_res (pp_id h p) (\<lambda>u.
                    if h = last (bt_blocks t) then Inr True
                    else bind_res (pp_ref_count h p) (\<lambda>n.
                      if n \<noteq> 1 then Inr True else pp_is_published h p)) of
          Inl e \<Rightarrow> (Inl e, (t, p))
        | Inr refused \<Rightarrow>
            if refused then (Inl InvalidArgument, (t, p))
            else case pp_free (last (bt_blocks t)) p of
              (Inl e, p1) \<Rightarrow> (Inl e, (t, p1))
            | (Inr u, p1) \<Rightarrow> (Inr (), (t\<lparr>bt_blocks := butlast (bt_blocks t) @ [h]\<rparr>, p1)))"

section \<open>Ownership\<close>

text \<open>
  The table owns one reference per entry; \<open>others\<close> counts the references held elsewhere. A
  table without a pool (moved from) is empty.
\<close>

fun bt_inv :: "(block_handle \<Rightarrow> nat) \<Rightarrow> table_state \<Rightarrow> bool" where
  "bt_inv others (t, p) \<longleftrightarrow>
     pp_inv p \<and> (bt_pool t = None \<longrightarrow> bt_blocks t = []) \<and>
     (\<forall>h. pp_refs p h = count_list (bt_blocks t) h + others h)"

declare bt_inv.simps [simp del]

lemma bt_invD:
  assumes "bt_inv others (t, p)"
  shows "pp_inv p" and "bt_pool t = None \<Longrightarrow> bt_blocks t = []"
    and "pp_refs p h = count_list (bt_blocks t) h + others h"
  using assms by (simp_all add: bt_inv.simps)

lemma bt_inv_owned: "bt_inv others (t, p) \<Longrightarrow> h \<in> set (bt_blocks t) \<Longrightarrow> 0 < pp_refs p h"
  using count_list_pos [of h "bt_blocks t"] by (simp add: bt_inv.simps)

lemma bt_create_inv: "pp_inv p \<Longrightarrow> bt_inv (pp_refs p) (bt_create r, p)"
  by (simp add: bt_inv.simps bt_create_def)

lemma fun_upd_Suc_undo: "(f(h := Suc (f h)))(h := f h) = f" for f :: "'a \<Rightarrow> nat"
  by simp

lemma bt_append_new_ok:
  assumes inv: "bt_inv others (t, p)" and r: "bt_append_new grow (t, p) = (Inr i, (t', p'))"
  shows "bt_inv others (t', p')" and "pp_config p' = pp_config p" and "bt_pool t' = bt_pool t"
    and "\<exists>h. bt_blocks t' = bt_blocks t @ [h] \<and> i = h_id h \<and> pp_refs p h = 0 \<and> \<not> pp_pub p' h"
proof -
  obtain h where a: "pp_allocate p = (Inr h, p')" and t: "t' = t\<lparr>bt_blocks := bt_blocks t @ [h]\<rparr>" "i = h_id h"
    and pool: "bt_pool t \<noteq> None"
    using r by (auto simp: bt_append_new_def bt_push_back_def split: if_splits sum.splits prod.splits)
  note al = pp.alloc_ok [OF bt_invD(1) [OF inv] a]
  show "bt_inv others (t', p')" using al bt_invD(3) [OF inv] pool
    by (auto simp: bt_inv.simps t)
  show "pp_config p' = pp_config p" "bt_pool t' = bt_pool t"
    "\<exists>h. bt_blocks t' = bt_blocks t @ [h] \<and> i = h_id h \<and> pp_refs p h = 0 \<and> \<not> pp_pub p' h"
    using al t by auto
qed

lemma bt_append_new_err:
  assumes inv: "bt_inv others (t, p)" and r: "bt_append_new grow (t, p) = (Inl e, (t', p'))"
  shows "bt_inv others (t', p')" and "pp_config p' = pp_config p" and "t' = t"
    and "e = LogicError \<and> bt_pool t = None \<or> e = CapacityError \<or> e = OverflowError \<or>
         e = BadAlloc \<and> grow (length (bt_blocks t))"
proof -
  note p = bt_invD(1) [OF inv]
  have "bt_inv others (t', p') \<and> pp_config p' = pp_config p \<and> t' = t \<and>
    (e = LogicError \<and> bt_pool t = None \<or> e = CapacityError \<or> e = OverflowError \<or>
         e = BadAlloc \<and> grow (length (bt_blocks t)))"
  proof (cases "bt_pool t = None")
    case True
    then show ?thesis using r inv by (simp add: bt_append_new_def)
  next
    case pool: False
    obtain ar p1 where a: "pp_allocate p = (ar, p1)" by (cases "pp_allocate p")
    show ?thesis
    proof (cases ar)
      case (Inl e')
      then show ?thesis using r a pool inv pp_allocate_available(2) [OF p, of e' p1]
        by (auto simp: bt_append_new_def)
    next
      case (Inr h)
      then have a: "pp_allocate p = (Inr h, p1)" using a by simp
      note al = pp.alloc_ok [OF p a]
      have g: "grow (length (bt_blocks t))"
        using r a pool by (auto simp: bt_append_new_def bt_push_back_def split: if_splits)
      obtain p2 where f: "pp_free h p1 = (Inr (), p2)" using pp.free_total [of p1 h] al by auto
      note fr = pp.free_ok [OF _ f]
      have "pp_refs p2 = pp_refs p" using fr al by (auto simp: fun_eq_iff)
      then show ?thesis using r a pool g f fr al inv
        by (auto simp: bt_append_new_def bt_push_back_def bt_inv.simps)
    qed
  qed
  then show "bt_inv others (t', p')" "pp_config p' = pp_config p" "t' = t"
    "e = LogicError \<and> bt_pool t = None \<or> e = CapacityError \<or> e = OverflowError \<or>
         e = BadAlloc \<and> grow (length (bt_blocks t))"
    by blast+
qed

lemma bt_append_existing_ok:
  assumes inv: "bt_inv others (t, p)" and r: "bt_append_existing grow h (t, p) = (Inr u, (t', p'))"
  shows "bt_inv others (t', p')" and "pp_config p' = pp_config p" and "bt_pool t' = bt_pool t"
    and "bt_blocks t' = bt_blocks t @ [h]" and "pp_live p h"
    and "pp_pub p' g = pp_pub p g" and "pp_cache p' = pp_cache p"
proof -
  have a: "pp_retain h p = (Inr (), p')" and t: "t' = t\<lparr>bt_blocks := bt_blocks t @ [h]\<rparr>"
    and pool: "bt_pool t \<noteq> None"
    using r by (auto simp: bt_append_existing_def bt_push_back_def split: if_splits sum.splits prod.splits)
  note al = pp.retain_ok [OF bt_invD(1) [OF inv] a] pp.retain_live [OF bt_invD(1) [OF inv] a]
  show "bt_inv others (t', p')" using al bt_invD(3) [OF inv] pool by (auto simp: bt_inv.simps t)
  show "pp_config p' = pp_config p" "bt_pool t' = bt_pool t" "bt_blocks t' = bt_blocks t @ [h]" "pp_live p h"
    using al t by auto
  show "pp_pub p' g = pp_pub p g" using pp.retain_pub [OF bt_invD(1) [OF inv] a] .
  show "pp_cache p' = pp_cache p"
    using bm_retain_cache [OF bt_invD(1) [OF inv]] a by (simp add: pp_retain_def pp_call_iff)
qed

lemma bt_append_existing_err:
  assumes inv: "bt_inv others (t, p)" and r: "bt_append_existing grow h (t, p) = (Inl e, (t', p'))"
  shows "bt_inv others (t', p')" and "pp_config p' = pp_config p" and "t' = t"
    and "e \<in> {LogicError, InvalidArgument, OverflowError, BadAlloc}" and "pp_pub p' g = pp_pub p g"
proof -
  note p = bt_invD(1) [OF inv]
  have "bt_inv others (t', p') \<and> pp_config p' = pp_config p \<and> t' = t \<and>
    e \<in> {LogicError, InvalidArgument, OverflowError, BadAlloc} \<and> pp_pub p' g = pp_pub p g"
  proof (cases "bt_pool t = None")
    case True
    then show ?thesis using r inv by (simp add: bt_append_existing_def)
  next
    case pool: False
    obtain ar p1 where a: "pp_retain h p = (ar, p1)" by (cases "pp_retain h p")
    show ?thesis
    proof (cases ar)
      case (Inl e')
      then have "p1 = p" "e' = InvalidArgument \<or> e' = OverflowError"
        using a bm_retain_error [OF p, of h e' "pp_manager p1"]
        by (auto simp: pp_retain_def pp_call_iff pp_eq_iff)
      then show ?thesis using r a Inl pool inv by (auto simp: bt_append_existing_def)
    next
      case (Inr u)
      then have a: "pp_retain h p = (Inr (), p1)" using a by simp
      note al = pp.retain_ok [OF p a] pp.retain_pub [OF p a]
      have g: "grow (length (bt_blocks t))"
        using r a pool by (auto simp: bt_append_existing_def bt_push_back_def split: if_splits)
      obtain p2 where f: "pp_free h p1 = (Inr (), p2)" using pp.free_total [of p1 h] al by auto
      note fr = pp.free_ok [OF _ f] pp.free_pub [OF _ f]
      have "pp_refs p2 = pp_refs p" using fr al by (auto simp: fun_eq_iff)
      then show ?thesis using r a pool g f fr al inv
        by (auto simp: bt_append_existing_def bt_push_back_def bt_inv.simps)
    qed
  qed
  then show "bt_inv others (t', p')" "pp_config p' = pp_config p" "t' = t"
    "e \<in> {LogicError, InvalidArgument, OverflowError, BadAlloc}" "pp_pub p' g = pp_pub p g"
    by blast+
qed

lemma count_list_butlast:
  "xs \<noteq> [] \<Longrightarrow> count_list (butlast xs) h = count_list xs h - (if h = last xs then 1 else 0)"
  by (cases xs rule: rev_cases) auto

lemma bt_pop_back_total:
  assumes inv: "bt_inv others (t, p)" and ne: "bt_blocks t \<noteq> []"
  obtains p' where "bt_pop_back (t, p) = (Inr (), (t\<lparr>bt_blocks := butlast (bt_blocks t)\<rparr>, p'))"
    and "bt_inv others (t\<lparr>bt_blocks := butlast (bt_blocks t)\<rparr>, p')" and "pp_config p' = pp_config p"
    and "\<And>g. pp_pub p' g = pp_pub p g"
proof -
  note p = bt_invD(1) [OF inv]
  have pool: "bt_pool t \<noteq> None" using bt_invD(2) [OF inv] ne by blast
  have "0 < pp_refs p (last (bt_blocks t))" using bt_inv_owned [OF inv] ne by simp
  then obtain p' where f: "pp_free (last (bt_blocks t)) p = (Inr (), p')" using pp.free_total [OF p] by blast
  note fr = pp.free_ok [OF p f]
  have "0 < count_list (bt_blocks t) (last (bt_blocks t))" using ne by (simp add: count_list_pos)
  then have "bt_inv others (t\<lparr>bt_blocks := butlast (bt_blocks t)\<rparr>, p')"
    using fr bt_invD(3) [OF inv] ne pool by (auto simp: bt_inv.simps count_list_butlast)
  then show thesis using that [of p'] f fr pp.free_pub [OF p f] ne pool by (auto simp: bt_pop_back_def)
qed

lemma bt_clear_total:
  assumes inv: "bt_inv others (t, p)"
  obtains p' where "bt_clear (t, p) = (Inr (), (t\<lparr>bt_blocks := []\<rparr>, p'))"
    and "bt_inv others (t\<lparr>bt_blocks := []\<rparr>, p')" and "pp_config p' = pp_config p"
    and "pp_refs p' = others" and "\<And>g. pp_pub p' g = pp_pub p g"
proof -
  have "count_list (bt_blocks t) h \<le> pp_refs p h" for h using bt_invD(3) [OF inv, of h] by simp
  then obtain p' where f: "for_each pp_free (bt_blocks t) p = (Inr (), p')" "pp_inv p'"
    "pp_config p' = pp_config p" "pp_refs p' = (\<lambda>h. pp_refs p h - count_list (bt_blocks t) h)"
    "\<And>h. pp_pub p' h = pp_pub p h"
    using pp.free_all [OF bt_invD(1) [OF inv]] by blast
  then have "pp_refs p' = others" using bt_invD(3) [OF inv] by (auto simp: fun_eq_iff)
  then show thesis using that [of p'] f by (simp add: bt_clear_def bt_inv.simps)
qed

lemma bt_replace_ok:
  assumes inv: "bt_inv others (t, p)" and own: "0 < others h"
    and r: "bt_replace_last_owned h (t, p) = (Inr u, (t', p'))"
  shows "bt_inv (others(h := others h - 1)) (t', p')" and "pp_config p' = pp_config p"
    and "t' = t\<lparr>bt_blocks := butlast (bt_blocks t) @ [h]\<rparr>" and "bt_blocks t \<noteq> []"
    and "pp_refs p h = 1" and "\<not> pp_pub p h" and "\<And>g. pp_pub p' g = pp_pub p g"
proof -
  note p = bt_invD(1) [OF inv]
  let ?l = "last (bt_blocks t)"
  have ne: "bt_blocks t \<noteq> []" and neq: "h \<noteq> ?l" and one: "pp_refs p h = 1" and np: "\<not> pp_pub p h"
    and f: "pp_free ?l p = (Inr (), p')" and t: "t' = t\<lparr>bt_blocks := butlast (bt_blocks t) @ [h]\<rparr>"
    using r by (auto simp: bt_replace_last_owned_def bind_res_Inr_iff pp_id_cases pp_ref_count_cases
        pp_is_published_cases split: if_splits sum.splits prod.splits)
  note fr = pp.free_ok [OF p f]
  have pos: "0 < count_list (bt_blocks t) ?l" using ne by (simp add: count_list_pos)
  have z: "count_list (bt_blocks t) h = 0" "others h = 1" using bt_invD(3) [OF inv, of h] one own by simp_all
  show "bt_inv (others(h := others h - 1)) (t', p')"
    using fr bt_invD(3) [OF inv] ne neq pos z bt_invD(2) [OF inv]
    by (auto simp: bt_inv.simps t count_list_butlast)
  show "pp_config p' = pp_config p" "t' = t\<lparr>bt_blocks := butlast (bt_blocks t) @ [h]\<rparr>" "bt_blocks t \<noteq> []"
    "pp_refs p h = 1" "\<not> pp_pub p h" "\<And>g. pp_pub p' g = pp_pub p g"
    using fr t ne one np pp.free_pub [OF p f] by auto
qed

lemma bt_replace_err:
  assumes inv: "bt_inv others (t, p)" and r: "bt_replace_last_owned h (t, p) = (Inl e, (t', p'))"
  shows "t' = t" and "p' = p" and "e = OutOfRange \<and> bt_blocks t = [] \<or> e = InvalidArgument"
proof -
  note p = bt_invD(1) [OF inv]
  have "t' = t \<and> p' = p \<and> (e = OutOfRange \<and> bt_blocks t = [] \<or> e = InvalidArgument)"
  proof (cases "bt_blocks t = []")
    case True
    then show ?thesis using r by (simp add: bt_replace_last_owned_def)
  next
    case ne: False
    then have pool: "bt_pool t \<noteq> None" using bt_invD(2) [OF inv] by blast
    have "0 < pp_refs p (last (bt_blocks t))" using bt_inv_owned [OF inv] ne by simp
    then obtain p2 where "pp_free (last (bt_blocks t)) p = (Inr (), p2)" using pp.free_total [OF p] by blast
    then show ?thesis using r ne pool bm_refs_live [of "pp_manager p" h]
      by (auto simp: bt_replace_last_owned_def pp_id_cases pp_ref_count_cases pp_is_published_cases
          split: if_splits)
  qed
  then show "t' = t" "p' = p" "e = OutOfRange \<and> bt_blocks t = [] \<or> e = InvalidArgument" by blast+
qed

lemma bt_queries:
  assumes inv: "bt_inv others (t, p)"
  shows "bt_physical_id i (t, p) =
      (if i < length (bt_blocks t) then Inr (h_id (bt_blocks t ! i)) else Inl OutOfRange)"
    and "bt_handle i (t, p) =
      (if i < length (bt_blocks t) then Inr (bt_blocks t ! i) else Inl OutOfRange)"
    and "bt_ref_count i (t, p) =
      (if i < length (bt_blocks t) then Inr (pp_refs p (bt_blocks t ! i)) else Inl OutOfRange)"
proof -
  have "bt_pool t \<noteq> None \<and> 0 < pp_refs p (bt_blocks t ! i) \<and> pp_live p (bt_blocks t ! i)"
    if "i < length (bt_blocks t)"
    using bt_inv_owned [OF inv nth_mem [OF that]] bt_invD(2) [OF inv] that bm_refs_live by fastforce
  then show "bt_physical_id i (t, p) =
      (if i < length (bt_blocks t) then Inr (h_id (bt_blocks t ! i)) else Inl OutOfRange)"
    "bt_handle i (t, p) =
      (if i < length (bt_blocks t) then Inr (bt_blocks t ! i) else Inl OutOfRange)"
    "bt_ref_count i (t, p) =
      (if i < length (bt_blocks t) then Inr (pp_refs p (bt_blocks t ! i)) else Inl OutOfRange)"
    by (auto simp: bt_physical_id_def bt_handle_def bt_ref_count_def bt_at_def bt_deref_def
        pp_id_cases pp_ref_count_cases)
qed

lemma bt_append_shared_ok:
  assumes inv: "bt_inv others (t, p)" and r: "bt_append_shared grow source i (t, p) = (Inr u, (t', p'))"
  shows "bt_inv others (t', p')" and "pp_config p' = pp_config p" and "bt_pool t' = bt_pool t"
    and "i < length (bt_blocks source)" and "bt_blocks t' = bt_blocks t @ [bt_blocks source ! i]"
    and "bt_pool t = bt_pool source" and "pp_cache p' = pp_cache p"
proof -
  have i: "i < length (bt_blocks source)" "bt_pool t = bt_pool source"
    and a: "bt_append_existing grow (bt_blocks source ! i) (t, p) = (Inr u, (t', p'))"
    using r by (auto simp: bt_append_shared_def bt_at_def split: if_splits)
  show "bt_inv others (t', p')" "pp_config p' = pp_config p" "bt_pool t' = bt_pool t"
    "i < length (bt_blocks source)" "bt_blocks t' = bt_blocks t @ [bt_blocks source ! i]"
    "bt_pool t = bt_pool source" "pp_cache p' = pp_cache p"
    using bt_append_existing_ok [OF inv a] i by simp_all
qed

lemma bt_append_shared_err:
  assumes inv: "bt_inv others (t, p)" and r: "bt_append_shared grow source i (t, p) = (Inl e, (t', p'))"
  shows "bt_inv others (t', p')" and "pp_config p' = pp_config p" and "t' = t"
proof -
  consider "t' = t" "p' = p" | "bt_append_existing grow (bt_blocks source ! i) (t, p) = (Inl e, (t', p'))"
    using r by (auto simp: bt_append_shared_def bt_at_def split: if_splits)
  then have "bt_inv others (t', p') \<and> pp_config p' = pp_config p \<and> t' = t"
    using inv bt_append_existing_err [OF inv] by cases auto
  then show "bt_inv others (t', p')" "pp_config p' = pp_config p" "t' = t" by blast+
qed

text \<open>Moving transfers the entries with their references.\<close>

lemma bt_move_inv:
  assumes "bt_inv others (t, p)" and "bt_move t = (new, rest)"
  shows "bt_inv others (new, p)" and "bt_blocks rest = []" and "bt_pool rest = None"
  using assms by (auto simp: bt_move_def bt_inv.simps)

lemma bt_move_assign_eq:
  assumes inv: "bt_inv others (t, p)"
  obtains p' where "bt_move_assign other (t, p) =
      (Inr (), other\<lparr>bt_pool := None, bt_blocks := []\<rparr>, (t\<lparr>bt_pool := bt_pool other, bt_blocks := bt_blocks other\<rparr>, p'))"
    and "pp_inv p'" and "pp_refs p' = others"
proof -
  obtain p' where "bt_clear (t, p) = (Inr (), (t\<lparr>bt_blocks := []\<rparr>, p'))"
    "bt_inv others (t\<lparr>bt_blocks := []\<rparr>, p')" "pp_refs p' = others"
    using bt_clear_total [OF inv] by blast
  then show thesis using that [of p'] by (simp add: bt_move_assign_def bt_inv.simps)
qed

lemma bt_move_assign_same:
  assumes inv: "bt_inv (\<lambda>g. count_list (bt_blocks t) g + rest g) (other, p)"
    and "bt_pool other = bt_pool t" and t: "bt_inv others (t, p)"
  shows "case bt_move_assign other (t, p) of (r, other', (t', p')) \<Rightarrow>
    r = Inr () \<and> bt_inv rest (t', p') \<and> bt_blocks t' = bt_blocks other \<and>
    bt_blocks other' = [] \<and> bt_pool other' = None"
proof -
  have "others g = count_list (bt_blocks other) g + rest g" for g
    using bt_invD(3) [OF inv, of g] bt_invD(3) [OF t, of g] by simp
  moreover obtain p' where "bt_move_assign other (t, p) =
      (Inr (), other\<lparr>bt_pool := None, bt_blocks := []\<rparr>, (t\<lparr>bt_pool := bt_pool other, bt_blocks := bt_blocks other\<rparr>, p'))"
    "pp_inv p'" "pp_refs p' = others"
    by (rule bt_move_assign_eq [OF t])
  ultimately show ?thesis using bt_invD(2) [OF inv] by (simp add: bt_inv.simps)
qed

lemma bt_move_assign_other:
  assumes t: "bt_inv others (t, p)" and inv: "bt_inv rest (other, q)"
  shows "case bt_move_assign other (t, p) of (r, other', (t', p')) \<Rightarrow>
    r = Inr () \<and> pp_inv p' \<and> pp_refs p' = others \<and> bt_inv rest (t', q) \<and>
    bt_blocks t' = bt_blocks other \<and> bt_blocks other' = [] \<and> bt_pool other' = None"
proof -
  obtain p' where "bt_move_assign other (t, p) =
      (Inr (), other\<lparr>bt_pool := None, bt_blocks := []\<rparr>, (t\<lparr>bt_pool := bt_pool other, bt_blocks := bt_blocks other\<rparr>, p'))"
    "pp_inv p'" "pp_refs p' = others"
    by (rule bt_move_assign_eq [OF t])
  then show ?thesis using inv by (simp add: bt_inv.simps)
qed

lemma bt_replace_outcome:
  assumes "bt_inv others (t, p)"
  shows "case bt_replace_last_owned h (t, p) of (r, (t', p')) \<Rightarrow>
    (isl r \<longrightarrow> t' = t \<and> p' = p) \<and>
    (\<not> isl r \<and> 0 < others h \<longrightarrow>
       bt_inv (others(h := others h - 1)) (t', p') \<and> bt_blocks t \<noteq> [] \<and>
       bt_blocks t' = butlast (bt_blocks t) @ [h] \<and> pp_refs p h = 1 \<and> \<not> pp_pub p h)"
proof (cases "bt_replace_last_owned h (t, p)" rule: prod_cases3)
  case (fields r t' p')
  then show ?thesis
    using bt_replace_err [OF assms, of h _ t' p'] bt_replace_ok [OF assms, of h _ t' p']
    by (cases r) auto
qed

section \<open>Properties\<close>

text \<open>C9: Every mutating operation of \<open>BlockTable\<close> keeps the account exact: whatever its outcome
  (out of pages, invalid handle, \<open>bad_alloc\<close> while growing the vector), each page's reference
  count is the number of its entries in this table plus what others hold; a failed operation
  leaves the table unchanged. \<open>replace_last_owned\<close> of a page the caller holds takes over the
  caller's reference and gives back the one of the old last page; it accepts only a private,
  unpublished page. Moving hands the entries over with their references and leaves the source
  empty, a move assignment first gives back the references of the target, from the same pool or
  from another one, and \<open>clear\<close>, which is \<open>noexcept\<close>, cannot terminate the program.\<close>

theorem bt_operations_account:
  assumes "bt_inv others (t, p)"
  shows "(case bt_append_new grow (t, p) of (r, (t', p')) \<Rightarrow>
      bt_inv others (t', p') \<and> (isl r \<longrightarrow> t' = t) \<and>
      (\<forall>i. r = Inr i \<longrightarrow> (\<exists>h. bt_blocks t' = bt_blocks t @ [h] \<and> i = h_id h \<and> pp_refs p h = 0))) \<and>
    (case bt_append_existing grow h (t, p) of (r, (t', p')) \<Rightarrow>
      bt_inv others (t', p') \<and> (isl r \<longrightarrow> t' = t) \<and> (\<not> isl r \<longrightarrow> bt_blocks t' = bt_blocks t @ [h])) \<and>
    (case bt_append_shared grow source i (t, p) of (r, (t', p')) \<Rightarrow>
      bt_inv others (t', p') \<and> (isl r \<longrightarrow> t' = t) \<and>
      (\<not> isl r \<longrightarrow> bt_blocks t' = bt_blocks t @ [bt_blocks source ! i])) \<and>
    (case bt_pop_back (t, p) of (r, (t', p')) \<Rightarrow>
      bt_inv others (t', p') \<and> bt_blocks t' = butlast (bt_blocks t) \<and>
      r = (if bt_blocks t = [] then Inl OutOfRange else Inr ())) \<and>
    (case bt_replace_last_owned h (t, p) of (r, (t', p')) \<Rightarrow>
      (isl r \<longrightarrow> t' = t \<and> p' = p) \<and>
      (\<not> isl r \<and> 0 < others h \<longrightarrow>
         bt_inv (others(h := others h - 1)) (t', p') \<and> bt_blocks t \<noteq> [] \<and>
         bt_blocks t' = butlast (bt_blocks t) @ [h] \<and> pp_refs p h = 1 \<and> \<not> pp_pub p h)) \<and>
    (case bt_clear (t, p) of (r, (t', p')) \<Rightarrow>
      r = Inr () \<and> bt_inv others (t', p') \<and> bt_blocks t' = [] \<and> pp_refs p' = others) \<and>
    (case bt_move t of (new, rest) \<Rightarrow>
      bt_inv others (new, p) \<and> bt_blocks new = bt_blocks t \<and> bt_pool new = bt_pool t \<and>
      bt_blocks rest = [] \<and> bt_pool rest = None) \<and>
    (\<forall>rest. bt_pool other = bt_pool t \<and> bt_inv (\<lambda>g. count_list (bt_blocks t) g + rest g) (other, p) \<longrightarrow>
      (case bt_move_assign other (t, p) of (r, other', (t', p')) \<Rightarrow>
         r = Inr () \<and> bt_inv rest (t', p') \<and> bt_blocks t' = bt_blocks other \<and>
         bt_blocks other' = [] \<and> bt_pool other' = None)) \<and>
    (\<forall>rest q. bt_inv rest (other, q) \<longrightarrow>
      (case bt_move_assign other (t, p) of (r, other', (t', p')) \<Rightarrow>
         r = Inr () \<and> pp_inv p' \<and> pp_refs p' = others \<and> bt_inv rest (t', q) \<and>
         bt_blocks t' = bt_blocks other \<and> bt_blocks other' = [] \<and> bt_pool other' = None))"
proof (intro conjI)
  show "case bt_append_new grow (t, p) of (r, (t', p')) \<Rightarrow>
      bt_inv others (t', p') \<and> (isl r \<longrightarrow> t' = t) \<and>
      (\<forall>i. r = Inr i \<longrightarrow> (\<exists>h. bt_blocks t' = bt_blocks t @ [h] \<and> i = h_id h \<and> pp_refs p h = 0))"
  proof (cases "bt_append_new grow (t, p)" rule: prod_cases3)
    case (fields r t' p')
    then show ?thesis
      using bt_append_new_ok [OF assms, of grow _ t' p'] bt_append_new_err [OF assms, of grow _ t' p']
      by (cases r) auto
  qed
  show "case bt_append_existing grow h (t, p) of (r, (t', p')) \<Rightarrow>
      bt_inv others (t', p') \<and> (isl r \<longrightarrow> t' = t) \<and> (\<not> isl r \<longrightarrow> bt_blocks t' = bt_blocks t @ [h])"
  proof (cases "bt_append_existing grow h (t, p)" rule: prod_cases3)
    case (fields r t' p')
    then show ?thesis
      using bt_append_existing_ok [OF assms, of grow h _ t' p'] bt_append_existing_err [OF assms, of grow h _ t' p']
      by (cases r) auto
  qed
  show "case bt_append_shared grow source i (t, p) of (r, (t', p')) \<Rightarrow>
      bt_inv others (t', p') \<and> (isl r \<longrightarrow> t' = t) \<and>
      (\<not> isl r \<longrightarrow> bt_blocks t' = bt_blocks t @ [bt_blocks source ! i])"
  proof (cases "bt_append_shared grow source i (t, p)" rule: prod_cases3)
    case (fields r t' p')
    then show ?thesis
      using bt_append_shared_ok [OF assms, of grow source i _ t' p']
        bt_append_shared_err [OF assms, of grow source i _ t' p']
      by (cases r) auto
  qed
  show "case bt_pop_back (t, p) of (r, (t', p')) \<Rightarrow>
      bt_inv others (t', p') \<and> bt_blocks t' = butlast (bt_blocks t) \<and>
      r = (if bt_blocks t = [] then Inl OutOfRange else Inr ())"
  proof (cases "bt_blocks t = []")
    case True
    then show ?thesis using assms by (simp add: bt_pop_back_def)
  next
    case False
    then show ?thesis using bt_pop_back_total [OF assms False] by fastforce
  qed
  show "case bt_clear (t, p) of (r, (t', p')) \<Rightarrow>
      r = Inr () \<and> bt_inv others (t', p') \<and> bt_blocks t' = [] \<and> pp_refs p' = others"
    using bt_clear_total [OF assms] by fastforce
  show "case bt_replace_last_owned h (t, p) of (r, (t', p')) \<Rightarrow>
      (isl r \<longrightarrow> t' = t \<and> p' = p) \<and>
      (\<not> isl r \<and> 0 < others h \<longrightarrow>
         bt_inv (others(h := others h - 1)) (t', p') \<and> bt_blocks t \<noteq> [] \<and>
         bt_blocks t' = butlast (bt_blocks t) @ [h] \<and> pp_refs p h = 1 \<and> \<not> pp_pub p h)"
    by (rule bt_replace_outcome [OF assms])
  show "case bt_move t of (new, rest) \<Rightarrow>
      bt_inv others (new, p) \<and> bt_blocks new = bt_blocks t \<and> bt_pool new = bt_pool t \<and>
      bt_blocks rest = [] \<and> bt_pool rest = None"
    using bt_move_inv(1) [OF assms] by (simp add: bt_move_def)
qed (use bt_move_assign_same [OF _ _ assms] bt_move_assign_other [OF assms] in simp_all)

lemma bt_operations_account_witness:
  "bt_inv (\<lambda>h. 0) (bt_create 0, small_pool) \<and>
   (case bt_append_new (\<lambda>n. True) (bt_create 0, small_pool) of (r, (t', p')) \<Rightarrow>
      r = Inl BadAlloc \<and> t' = bt_create 0 \<and> bt_inv (\<lambda>h. 0) (t', p'))"
proof -
  have "pp_refs small_pool = (\<lambda>h. 0)"
  proof -
    obtain m where m: "bm_create 2 2 (Some (\<lambda>p. 0)) = Inr m" by (auto simp: bm_create_def)
    then have "pp_manager small_pool = m" by (simp add: small_pool_def pp_create_def)
    then show ?thesis using bm_create_inv(3) [OF m] by (simp add: none_eq fun_eq_iff)
  qed
  then have inv: "bt_inv (\<lambda>h. 0) (bt_create 0, small_pool)" using bt_create_inv [OF small_pool_inv, of 0] by simp
  moreover have "fst (bt_append_new (\<lambda>n. True) (bt_create 0, small_pool)) = Inl BadAlloc" by code_simp
  ultimately show ?thesis
    using conjunct1 [OF bt_operations_account [OF inv, where grow = "\<lambda>n. True"]]
    by (cases "bt_append_new (\<lambda>n. True) (bt_create 0, small_pool)" rule: prod_cases3) auto
qed

end
