(* ===== verification/Sequence_State.thy ===== *)
theory Sequence_State
  imports Block_Table
begin

text \<open>
  \<open>include/kvflux/v2/sequence_state.h\<close>, \<open>src/v2/sequence_state.cpp\<close>: the logical address space
  of one request. The operations act on the pair of the sequence and the pool of its table;
  \<open>append_token_with_copy\<close> also threads the memory its callback writes.
\<close>

section \<open>Data\<close>

record token_location =
  tl_physical_block :: nat
  tl_offset_in_block :: nat

record sequence_state =
  ss_request_id :: u64
  ss_num_tokens :: nat
  ss_block_size :: nat
  ss_table :: v2_table

type_synonym seq_state = "sequence_state \<times> physical_block_pool"

definition ss_create :: "u64 \<Rightarrow> pool_ref \<Rightarrow> physical_block_pool \<Rightarrow> sequence_state" where
  "ss_create request_id r p =
     \<lparr>ss_request_id = request_id, ss_num_tokens = 0, ss_block_size = pp_block_size p,
      ss_table = bt_create r\<rparr>"

text \<open>The move constructor: the new sequence and what is left of the source.\<close>

definition ss_move :: "sequence_state \<Rightarrow> sequence_state \<times> sequence_state" where
  "ss_move other =
     (case bt_move (ss_table other) of (t, rest) \<Rightarrow>
        (\<lparr>ss_request_id = ss_request_id other, ss_num_tokens = ss_num_tokens other,
          ss_block_size = ss_block_size other, ss_table = t\<rparr>,
         other\<lparr>ss_num_tokens := 0, ss_table := rest\<rparr>))"

definition ss_num_allocated_blocks :: "sequence_state \<Rightarrow> nat" where
  "ss_num_allocated_blocks q = length (bt_blocks (ss_table q))"

definition ss_last_block_num_tokens :: "sequence_state \<Rightarrow> nat" where
  "ss_last_block_num_tokens q =
     (if ss_num_tokens q = 0 then 0 else (ss_num_tokens q - 1) mod ss_block_size q + 1)"

text \<open>A call on the member \<open>block_table_\<close>.\<close>

definition ss_on_table :: "(table_state \<Rightarrow> 'a res \<times> table_state) \<Rightarrow> seq_state \<Rightarrow> 'a res \<times> seq_state" where
  "ss_on_table f st =
     (case st of (q, p) \<Rightarrow> case f (ss_table q, p) of (r, (t, p')) \<Rightarrow> (r, (q\<lparr>ss_table := t\<rparr>, p')))"

section \<open>Growing and shrinking the table\<close>

text \<open>The two loops of \<open>append_tokens\<close>: \<open>while (size() < needed)\<close> and \<open>while (size() > original)\<close>.\<close>

lemma and_then_cong [fundef_cong]:
  assumes "m = m'" and "\<And>x s. m' = (Inr x, s) \<Longrightarrow> f x s = g x s"
  shows "and_then m f = and_then m' g"
  using assms by (cases "(m', f)" rule: and_then.cases) auto

lemma bt_append_new_length:
  "bt_append_new grow st = (Inr i, st') \<Longrightarrow> length (bt_blocks (fst st')) = Suc (length (bt_blocks (fst st)))"
  by (cases st) (auto simp: bt_append_new_def bt_push_back_def split: if_splits sum.splits prod.splits)

lemma bt_pop_back_length:
  "bt_pop_back st = (Inr u, st') \<Longrightarrow> length (bt_blocks (fst st')) = length (bt_blocks (fst st)) - 1"
  by (cases st) (auto simp: bt_pop_back_def split: if_splits sum.splits prod.splits)

function bt_grow_to :: "(nat \<Rightarrow> bool) \<Rightarrow> nat \<Rightarrow> table_state \<Rightarrow> unit res \<times> table_state" where
  "bt_grow_to grow needed st =
     (if length (bt_blocks (fst st)) < needed
      then and_then (bt_append_new grow st) (\<lambda>_ st'. bt_grow_to grow needed st')
      else (Inr (), st))"
  by pat_completeness auto
termination
  by (relation "measure (\<lambda>(grow, needed, st). needed - length (bt_blocks (fst st)))")
     (auto dest!: bt_append_new_length)

function bt_shrink_to :: "nat \<Rightarrow> table_state \<Rightarrow> unit res \<times> table_state" where
  "bt_shrink_to original st =
     (if length (bt_blocks (fst st)) > original
      then and_then (bt_pop_back st) (\<lambda>_ st'. bt_shrink_to original st')
      else (Inr (), st))"
  by pat_completeness auto
termination
  by (relation "measure (\<lambda>(original, st). length (bt_blocks (fst st)))")
     (auto dest!: bt_pop_back_length)

declare bt_grow_to.simps [simp del] bt_shrink_to.simps [simp del]

section \<open>Operations\<close>

definition ss_append_tokens :: "(nat \<Rightarrow> bool) \<Rightarrow> nat \<Rightarrow> seq_state \<Rightarrow> unit res \<times> seq_state" where
  "ss_append_tokens grow count st =
     (case st of (q, p) \<Rightarrow>
        if count = 0 then (Inr (), st)
        else if count > size_max - ss_num_tokens q then (Inl OverflowError, st)
        else
          case (if ss_num_tokens q mod ss_block_size q \<noteq> 0
                then bind_res (bt_ref_count (length (bt_blocks (ss_table q)) - 1) (ss_table q, p))
                       (\<lambda>n. Inr (n > 1))
                else Inr False) of
            Inl e \<Rightarrow> (Inl e, st)
          | Inr shared_tail \<Rightarrow>
              if shared_tail then (Inl LogicError, st)
              else
                let next_tokens = ss_num_tokens q + count;
                    needed = ceil_blocks next_tokens (ss_block_size q);
                    original = length (bt_blocks (ss_table q))
                in and_then
                     (catch_all (ss_on_table (bt_grow_to grow needed) st)
                        (\<lambda>e st1. and_then (ss_on_table (bt_shrink_to original) st1)
                                    (\<lambda>_ st2. (Inl e, st2))))
                     (\<lambda>_ (q', p'). (Inr (), (q'\<lparr>ss_num_tokens := next_tokens\<rparr>, p'))))"

definition ss_physical_block_id :: "nat \<Rightarrow> seq_state \<Rightarrow> nat res" where
  "ss_physical_block_id i st = (case st of (q, p) \<Rightarrow> bt_physical_id i (ss_table q, p))"

definition ss_block_handle :: "nat \<Rightarrow> seq_state \<Rightarrow> block_handle res" where
  "ss_block_handle i st = (case st of (q, p) \<Rightarrow> bt_handle i (ss_table q, p))"

definition ss_token_location :: "nat \<Rightarrow> seq_state \<Rightarrow> token_location res" where
  "ss_token_location i st =
     (case st of (q, p) \<Rightarrow>
        if i \<ge> ss_num_tokens q then Inl OutOfRange
        else bind_res (ss_physical_block_id (i div ss_block_size q) st)
               (\<lambda>b. Inr \<lparr>tl_physical_block = b, tl_offset_in_block = i mod ss_block_size q\<rparr>))"

definition ss_append_token :: "(nat \<Rightarrow> bool) \<Rightarrow> seq_state \<Rightarrow> token_location res \<times> seq_state" where
  "ss_append_token grow st =
     (let token_index = ss_num_tokens (fst st)
      in and_then (ss_append_tokens grow 1 st) (\<lambda>_ st'. (ss_token_location token_index st', st')))"

text \<open>
  \<open>fork_shared\<close>: on an exception the destructor of the unfinished fork gives its references
  back. The source is \<open>const\<close>; the new sequence is the result.
\<close>

fun ss_fork_loop :: "(nat \<Rightarrow> bool) \<Rightarrow> v2_table \<Rightarrow> nat list \<Rightarrow> table_state \<Rightarrow> unit res \<times> table_state" where
  "ss_fork_loop grow source [] st = (Inr (), st)"
| "ss_fork_loop grow source (i # is) st =
     and_then (bt_append_shared grow source i st) (\<lambda>_ st'. ss_fork_loop grow source is st')"

definition ss_fork_shared :: "(nat \<Rightarrow> bool) \<Rightarrow> u64 \<Rightarrow> seq_state \<Rightarrow> sequence_state res \<times> physical_block_pool" where
  "ss_fork_shared grow new_id st =
     (case st of (q, p) \<Rightarrow>
        case bt_get_pool (ss_table q) of
          Inl e \<Rightarrow> (Inl e, p)
        | Inr r \<Rightarrow>
            let fork = ss_create new_id r p in
            case ss_fork_loop grow (ss_table q) [0..<length (bt_blocks (ss_table q))] (ss_table fork, p) of
              (Inr u, (t, p1)) \<Rightarrow> (Inr (fork\<lparr>ss_table := t, ss_num_tokens := ss_num_tokens q\<rparr>), p1)
            | (Inl e, (t, p1)) \<Rightarrow> (case bt_clear (t, p1) of
                (Inl e', (t', p2)) \<Rightarrow> (Inl e', p2)
              | (Inr u, (t', p2)) \<Rightarrow> (Inl e, p2)))"

text \<open>
  \<open>append_token_with_copy\<close>; the callback copies one page in a memory of type \<open>'m\<close> and may throw.
\<close>

type_synonym 'm copier = "block_handle \<Rightarrow> block_handle \<Rightarrow> 'm \<Rightarrow> unit res \<times> 'm"

definition ss_append_token_with_copy ::
  "(nat \<Rightarrow> bool) \<Rightarrow> 'm copier option \<Rightarrow> seq_state \<times> 'm \<Rightarrow> token_location res \<times> seq_state \<times> 'm" where
  "ss_append_token_with_copy grow copy s =
     (case s of ((q, p), m) \<Rightarrow>
        if ss_num_tokens q = size_max then (Inl OverflowError, s)
        else
          let offset = ss_num_tokens q mod ss_block_size q;
              last_block = length (bt_blocks (ss_table q)) - 1
          in case (if offset = 0 then Inr True
                   else bind_res (bt_ref_count last_block (ss_table q, p)) (\<lambda>n. Inr (n = 1))) of
               Inl e \<Rightarrow> (Inl e, s)
             | Inr True \<Rightarrow> (case ss_append_token grow (q, p) of (r, st') \<Rightarrow> (r, st', m))
             | Inr False \<Rightarrow>
                 (case copy of
                    None \<Rightarrow> (Inl InvalidArgument, s)
                  | Some cp \<Rightarrow>
                      (case bind_res (bt_handle last_block (ss_table q, p))
                              (\<lambda>old. bind_res (bt_get_pool (ss_table q)) (\<lambda>u. Inr old)) of
                         Inl e \<Rightarrow> (Inl e, s)
                       | Inr old \<Rightarrow>
                           (case pp_allocate p of
                              (Inl e, p1) \<Rightarrow> (Inl e, (q, p1), m)
                            | (Inr new, p1) \<Rightarrow>
                                (case (case cp old new m of
                                         (Inl e, m1) \<Rightarrow> (Inl e, (q, p1), m1)
                                       | (Inr u, m1) \<Rightarrow>
                                           (case ss_on_table (bt_replace_last_owned new) (q, p1) of
                                              (r, st1) \<Rightarrow> (r, st1, m1))) of
                                   (Inl e, (q1, p2), m1) \<Rightarrow>
                                     (case pp_free new p2 of
                                        (Inl e', p3) \<Rightarrow> (Inl e', (q1, p3), m1)
                                      | (Inr u, p3) \<Rightarrow> (Inl e, (q1, p3), m1))
                                 | (Inr u, (q1, p2), m1) \<Rightarrow>
                                     (Inr \<lparr>tl_physical_block = h_id new, tl_offset_in_block = offset\<rparr>,
                                      (q1\<lparr>ss_num_tokens := ss_num_tokens q1 + 1\<rparr>, p2), m1))))))"

definition ss_append_cached_full_block ::
  "(nat \<Rightarrow> bool) \<Rightarrow> block_handle \<Rightarrow> seq_state \<Rightarrow> unit res \<times> seq_state" where
  "ss_append_cached_full_block grow h st =
     (case st of (q, p) \<Rightarrow>
        if ss_num_tokens q mod ss_block_size q \<noteq> 0 \<or> ss_block_size q > size_max - ss_num_tokens q
        then (Inl InvalidArgument, st)
        else and_then (ss_on_table (bt_append_existing grow h) st)
               (\<lambda>_ (q', p'). (Inr (), (q'\<lparr>ss_num_tokens := ss_num_tokens q' + ss_block_size q'\<rparr>, p'))))"

text \<open>Move assignment of two distinct sequences: what is left of the source, and the target.\<close>

definition ss_move_assign :: "sequence_state \<Rightarrow> seq_state \<Rightarrow> unit res \<times> sequence_state \<times> seq_state" where
  "ss_move_assign other st =
     (case st of (q, p) \<Rightarrow>
        case bt_move_assign (ss_table other) (ss_table q, p) of
          (Inl e, rest, (t, p')) \<Rightarrow> (Inl e, other\<lparr>ss_table := rest\<rparr>, (q\<lparr>ss_table := t\<rparr>, p'))
        | (Inr u, rest, (t, p')) \<Rightarrow>
            (Inr (), other\<lparr>ss_table := rest, ss_num_tokens := 0\<rparr>,
             (\<lparr>ss_request_id = ss_request_id other, ss_num_tokens = ss_num_tokens other,
               ss_block_size = ss_block_size other, ss_table = t\<rparr>, p')))"

section \<open>The loops\<close>

lemma bt_inv_new_block:
  assumes "bt_inv others (t, p)" and "pp_refs p h = 0"
  shows "h \<notin> set (bt_blocks t)" and "others h = 0"
  using assms bt_inv_owned [OF assms(1), of h] by (auto simp: bt_inv.simps)

lemma bt_grow_to_spec:
  assumes "bt_inv others (t, p)" and "distinct (bt_blocks t)"
    and "bt_grow_to grow needed (t, p) = (r, (t', p'))"
  shows "bt_inv others (t', p') \<and> pp_config p' = pp_config p \<and>
    (\<exists>new. t' = t\<lparr>bt_blocks := bt_blocks t @ new\<rparr> \<and> distinct (bt_blocks t @ new) \<and>
           (\<forall>h \<in> set new. pp_refs p h = 0)) \<and>
    (r = Inr () \<longrightarrow> length (bt_blocks t') = max (length (bt_blocks t)) needed)"
  using assms
proof (induction "needed - length (bt_blocks t)" arbitrary: t p)
  case 0
  then have "r = Inr ()" "t' = t" "p' = p"
    by (simp_all add: bt_grow_to.simps [of grow needed "(t, p)"])
  then show ?case using 0 by (auto intro!: exI [of _ "[]"])
next
  case (Suc n)
  then have lt: "length (bt_blocks t) < needed" by simp
  obtain ar t1 p1 where a: "bt_append_new grow (t, p) = (ar, (t1, p1))"
    by (cases "bt_append_new grow (t, p)" rule: prod_cases3)
  have g: "bt_grow_to grow needed (t, p) =
      and_then (ar, (t1, p1)) (\<lambda>_ st'. bt_grow_to grow needed st')"
    using lt a by (simp add: bt_grow_to.simps [of grow needed "(t, p)"])
  show ?case
  proof (cases ar)
    case (Inl e)
    note er = bt_append_new_err [OF Suc.prems(1) a [unfolded Inl]]
    show ?thesis using g Inl er Suc.prems by (auto intro!: exI [of _ "[]"])
  next
    case (Inr i)
    note ok = bt_append_new_ok [OF Suc.prems(1) a [unfolded Inr]]
    then obtain h where h: "bt_blocks t1 = bt_blocks t @ [h]" "pp_refs p h = 0" by blast
    have t1: "t1 = t\<lparr>bt_blocks := bt_blocks t @ [h]\<rparr>" using ok(3) h(1) by (cases t; cases t1) simp
    have nh: "h \<notin> set (bt_blocks t)" by (rule bt_inv_new_block [OF Suc.prems(1) h(2)])
    have d1: "distinct (bt_blocks t1)" using Suc.prems(2) h(1) nh by simp
    have "n = needed - length (bt_blocks t1)" using Suc.hyps(2) h(1) by simp
    note ih = Suc.hyps(1) [OF this ok(1) d1]
    have "bt_grow_to grow needed (t1, p1) = (r, (t', p'))" using g Inr Suc.prems(3) by simp
    from ih [OF this] obtain new where new: "t' = t1\<lparr>bt_blocks := bt_blocks t1 @ new\<rparr>"
      "distinct (bt_blocks t1 @ new)" "\<forall>h \<in> set new. pp_refs p1 h = 0"
      and rest: "bt_inv others (t', p')" "pp_config p' = pp_config p1"
      "r = Inr () \<longrightarrow> length (bt_blocks t') = max (length (bt_blocks t1)) needed"
      by blast
    have z: "pp_refs p g = 0" if "g \<in> set new" for g
      using new(3) that bt_invD(3) [OF ok(1), of g] bt_invD(3) [OF Suc.prems(1), of g] h(1) by simp
    have "t' = t\<lparr>bt_blocks := bt_blocks t @ h # new\<rparr>" "distinct (bt_blocks t @ h # new)"
      using new t1 h(1) by simp_all
    moreover have "\<forall>g \<in> set (h # new). pp_refs p g = 0" using z h(2) by simp
    moreover have "r = Inr () \<longrightarrow> length (bt_blocks t') = max (length (bt_blocks t)) needed"
      using rest(3) h(1) lt by simp
    ultimately show ?thesis using rest(1,2) ok(2) by (intro conjI exI [of _ "h # new"]) simp_all
  qed
qed

lemma bt_shrink_to_spec:
  assumes "bt_inv others (t, p)" and "original \<le> length (bt_blocks t)"
  shows "\<exists>p'. bt_shrink_to original (t, p) = (Inr (), (t\<lparr>bt_blocks := take original (bt_blocks t)\<rparr>, p')) \<and>
    bt_inv others (t\<lparr>bt_blocks := take original (bt_blocks t)\<rparr>, p') \<and> pp_config p' = pp_config p"
  using assms
proof (induction "length (bt_blocks t) - original" arbitrary: t p)
  case 0
  then show ?case by (simp add: bt_shrink_to.simps [of original "(t, p)"])
next
  case (Suc n)
  then have gt: "original < length (bt_blocks t)" by simp
  then have "bt_blocks t \<noteq> []" by auto
  from bt_pop_back_total [OF Suc.prems(1) this]
  obtain p1 where pop: "bt_pop_back (t, p) = (Inr (), (t\<lparr>bt_blocks := butlast (bt_blocks t)\<rparr>, p1))"
    "bt_inv others (t\<lparr>bt_blocks := butlast (bt_blocks t)\<rparr>, p1)" "pp_config p1 = pp_config p" by blast
  let ?t1 = "t\<lparr>bt_blocks := butlast (bt_blocks t)\<rparr>"
  have tk: "take original (butlast (bt_blocks t)) = take original (bt_blocks t)"
    using gt by (simp add: butlast_conv_take)
  have "n = length (bt_blocks ?t1) - original" "original \<le> length (bt_blocks ?t1)"
    using Suc.hyps(2) gt by simp_all
  from Suc.hyps(1) [OF this(1) pop(2) this(2)] show ?case
    using gt pop(1,3) tk by (simp add: bt_shrink_to.simps [of original "(t, p)"])
qed

section \<open>The invariant\<close>

text \<open>
  A sequence of \<open>n\<close> tokens holds \<open>ceil (n / block_size)\<close> different pages, each with one
  reference of its own.
\<close>

fun ss_inv :: "(block_handle \<Rightarrow> nat) \<Rightarrow> seq_state \<Rightarrow> bool" where
  "ss_inv others (q, p) \<longleftrightarrow>
     bt_inv others (ss_table q, p) \<and> 0 < ss_block_size q \<and>
     length (bt_blocks (ss_table q)) = ceil_blocks (ss_num_tokens q) (ss_block_size q) \<and>
     ss_num_tokens q \<le> size_max \<and> distinct (bt_blocks (ss_table q)) \<and>
     (bt_pool (ss_table q) \<noteq> None \<longrightarrow> ss_block_size q = pp_block_size p)"

declare ss_inv.simps [simp del]

lemma ss_invD:
  assumes "ss_inv others (q, p)"
  shows "bt_inv others (ss_table q, p)" and "0 < ss_block_size q"
    and "length (bt_blocks (ss_table q)) = ceil_blocks (ss_num_tokens q) (ss_block_size q)"
    and "ss_num_tokens q \<le> size_max" and "distinct (bt_blocks (ss_table q))"
    and "bt_pool (ss_table q) \<noteq> None \<Longrightarrow> ss_block_size q = pp_block_size p"
  using assms by (simp_all add: ss_inv.simps)

lemma pp_config_block_size: "pp_config p' = pp_config p \<Longrightarrow> pp_block_size p' = pp_block_size p"
  by (simp add: pp_block_size_def bm_config_def)

lemma pp_block_size_pos: "pp_inv p \<Longrightarrow> 0 < pp_block_size p"
  by (auto simp: pp_block_size_def bm_inv_def dest: bm_repD(3))

lemma ss_create_inv: "pp_inv p \<Longrightarrow> ss_inv (pp_refs p) (ss_create i r p, p)"
  using bt_create_inv [of p r] pp_block_size_pos [of p]
  by (simp add: ss_inv.simps ss_create_def bt_create_def)

text \<open>With the same other owners and the same sequence, every reference count is the same.\<close>

lemma ss_inv_refs: "ss_inv others (q, p) \<Longrightarrow> ss_inv others (q, p') \<Longrightarrow> pp_refs p' = pp_refs p"
  by (auto simp: ss_inv.simps bt_inv.simps fun_eq_iff)

lemma ceil_blocks_mono: "m \<le> n \<Longrightarrow> 0 < b \<Longrightarrow> ceil_blocks m b \<le> ceil_blocks n b"
proof -
  assume m: "m \<le> n" "0 < b"
  have "ceil_blocks m b * b < (ceil_blocks n b + 1) * b"
    using ceil_blocks_bounds [OF m(2), of m] ceil_blocks_bounds [OF m(2), of n] m(1) by simp
  then have "ceil_blocks m b < ceil_blocks n b + 1" using m(2) by (simp only: mult_less_cancel2)
  then show ?thesis by simp
qed

lemma ss_tail_block:
  assumes "ss_inv others (q, p)" and "ss_num_tokens q mod ss_block_size q \<noteq> 0"
  shows "bt_blocks (ss_table q) \<noteq> []"
    and "ceil_blocks (ss_num_tokens q + 1) (ss_block_size q) = length (bt_blocks (ss_table q))"
    and "length (bt_blocks (ss_table q)) = ss_num_tokens q div ss_block_size q + 1"
proof -
  note d = ss_invD [OF assms(1)]
  show l: "length (bt_blocks (ss_table q)) = ss_num_tokens q div ss_block_size q + 1"
    using d(3) assms(2) by (simp add: ceil_blocks_def)
  then show "bt_blocks (ss_table q) \<noteq> []" by auto
  have "(ss_num_tokens q + 1) \<le> length (bt_blocks (ss_table q)) * ss_block_size q"
    using l assms(2) d(2) by (metis Suc_eq_plus1 Suc_leI dividend_less_div_times mult.commute mult_Suc_right)
  then show "ceil_blocks (ss_num_tokens q + 1) (ss_block_size q) = length (bt_blocks (ss_table q))"
    using ceil_blocks_bounds(2) [OF d(2), of "ss_num_tokens q"] d(2,3) by (intro ceil_blocks_unique) auto
qed

lemma ceil_blocks_next:
  "0 < b \<Longrightarrow> n mod b = 0 \<Longrightarrow> ceil_blocks (n + 1) b = ceil_blocks n b + 1"
  by (intro ceil_blocks_unique) (auto simp: ceil_blocks_def mod_eq_0_iff_dvd elim!: dvdE)

section \<open>Appending\<close>

lemma ss_on_table_eq: "ss_on_table f (q, p) = (r, (q', p')) \<longleftrightarrow>
   (\<exists>t. f (ss_table q, p) = (r, (t, p')) \<and> q' = q\<lparr>ss_table := t\<rparr>)"
  by (auto simp: ss_on_table_def split: prod.splits)

text \<open>The check of the tail: the reference count of the last page when it is partly filled.\<close>

lemma ss_tail_refs:
  assumes "ss_inv others (q, p)" and "ss_num_tokens q mod ss_block_size q \<noteq> 0"
  shows "bt_ref_count (length (bt_blocks (ss_table q)) - 1) (ss_table q, p) =
    Inr (pp_refs p (last (bt_blocks (ss_table q))))"
  using bt_queries(3) [OF ss_invD(1) [OF assms(1)]] ss_tail_block(1) [OF assms]
  by (simp add: last_conv_nth)

definition ss_shared_tail :: "seq_state \<Rightarrow> bool" where
  "ss_shared_tail st =
     (case st of (q, p) \<Rightarrow> ss_num_tokens q mod ss_block_size q \<noteq> 0 \<and>
        1 < pp_refs p (last (bt_blocks (ss_table q))))"

text \<open>The whole of \<open>append_tokens\<close>: all the tokens and pages, or no change at all.\<close>

lemma ss_append_tokens_spec:
  assumes inv: "ss_inv others (q, p)" and r: "ss_append_tokens grow count (q, p) = (r, (q', p'))"
  shows "ss_inv others (q', p') \<and> pp_config p' = pp_config p \<and>
    (case r of
       Inl e \<Rightarrow> q' = q
     | Inr u \<Rightarrow> (\<exists>new. q' = q\<lparr>ss_num_tokens := ss_num_tokens q + count,
                  ss_table := (ss_table q)\<lparr>bt_blocks := bt_blocks (ss_table q) @ new\<rparr>\<rparr> \<and>
                  (\<forall>h \<in> set new. pp_refs p h = 0 \<and> pp_refs p' h = 1)) \<and>
               (0 < count \<longrightarrow> \<not> ss_shared_tail (q, p)))"
proof (cases "count = 0 \<or> count > size_max - ss_num_tokens q \<or> ss_shared_tail (q, p)")
  case True
  then show ?thesis using r inv ss_tail_refs [OF inv]
    by (auto simp: ss_append_tokens_def ss_shared_tail_def intro!: exI [of _ "[]"] split: if_splits)
next
  case False
  note d = ss_invD [OF inv]
  let ?next = "ss_num_tokens q + count" and ?b = "ss_block_size q" and ?t = "ss_table q"
  define needed where "needed = ceil_blocks ?next ?b"
  obtain gr t1 p1 where g: "bt_grow_to grow needed (?t, p) = (gr, (t1, p1))"
    by (cases "bt_grow_to grow needed (?t, p)" rule: prod_cases3)
  note gs = bt_grow_to_spec [OF d(1,5) g]
  obtain new where new: "t1 = ?t\<lparr>bt_blocks := bt_blocks ?t @ new\<rparr>" "distinct (bt_blocks ?t @ new)"
    "\<forall>h \<in> set new. pp_refs p h = 0" using gs by blast
  have le: "length (bt_blocks ?t) \<le> needed" unfolding needed_def d(3) using d(2) by (intro ceil_blocks_mono) auto
  have tail: "ss_num_tokens q mod ?b \<noteq> 0 \<Longrightarrow> \<not> 1 < pp_refs p (last (bt_blocks ?t))"
    using False by (simp add: ss_shared_tail_def)
  have eq: "ss_append_tokens grow count (q, p) =
      and_then (catch_all (gr, (q\<lparr>ss_table := t1\<rparr>, p1))
         (\<lambda>e st1. and_then (ss_on_table (bt_shrink_to (length (bt_blocks ?t))) st1) (\<lambda>_ st2. (Inl e, st2))))
       (\<lambda>_ (q', p'). (Inr (), (q'\<lparr>ss_num_tokens := ?next\<rparr>, p')))"
    using False tail ss_tail_refs [OF inv] g
    by (auto simp: ss_append_tokens_def ss_on_table_def needed_def Let_def)
  show ?thesis
  proof (cases gr)
    case (Inl e)
    have t1': "length (bt_blocks ?t) \<le> length (bt_blocks t1)" using new(1) by simp
    from bt_shrink_to_spec [OF conjunct1 [OF gs] t1'] obtain p2 where
      sh: "bt_shrink_to (length (bt_blocks ?t)) (t1, p1) =
          (Inr (), (t1\<lparr>bt_blocks := take (length (bt_blocks ?t)) (bt_blocks t1)\<rparr>, p2))"
        "bt_inv others (t1\<lparr>bt_blocks := take (length (bt_blocks ?t)) (bt_blocks t1)\<rparr>, p2)"
        "pp_config p2 = pp_config p1" by blast
    have t: "t1\<lparr>bt_blocks := take (length (bt_blocks ?t)) (bt_blocks t1)\<rparr> = ?t"
      using new(1) by simp
    have "r = Inl e" "q' = q" "p' = p2"
      using r Inl sh(1) unfolding eq by (simp_all add: ss_on_table_def t)
    moreover have "ss_inv others (q, p2)"
      using sh(2) inv gs sh(3) pp_config_block_size [of p2 p] by (simp add: t ss_inv.simps)
    ultimately show ?thesis using gs sh(3) by simp
  next
    case (Inr u)
    have q': "r = Inr ()" "q' = q\<lparr>ss_num_tokens := ?next, ss_table := t1\<rparr>" "p' = p1"
      using r Inr unfolding eq by auto
    have len: "length (bt_blocks t1) = needed" using gs Inr le by simp
    have "?next \<le> size_max" using False d(4) by auto
    then have "ss_inv others (q', p')"
      using q' gs new len d(2,6) False pp_config_block_size [of p1 p]
      by (simp add: ss_inv.simps needed_def)
    moreover have "\<forall>h \<in> set new. pp_refs p h = 0 \<and> pp_refs p1 h = 1"
    proof
      fix h
      assume h: "h \<in> set new"
      have "others h = 0" using new(3) h bt_invD(3) [OF d(1), of h] by simp
      moreover have "bt_blocks t1 = bt_blocks ?t @ new" using new(1) by simp
      then have "count_list (bt_blocks t1) h = 1" using new(2) h by (subst count_list_distinct) auto
      ultimately show "pp_refs p h = 0 \<and> pp_refs p1 h = 1"
        using new(3) h bt_invD(3) [OF conjunct1 [OF gs], of h] by simp
    qed
    ultimately show ?thesis using q' gs new(1) False by auto
  qed
qed

lemma ss_token_location_ok:
  assumes inv: "ss_inv others (q, p)"
  shows "ss_token_location i (q, p) =
    (if i < ss_num_tokens q
     then Inr \<lparr>tl_physical_block = h_id (bt_blocks (ss_table q) ! (i div ss_block_size q)),
               tl_offset_in_block = i mod ss_block_size q\<rparr>
     else Inl OutOfRange)"
  using ceil_blocks_div_less [OF ss_invD(2) [OF inv], of i "ss_num_tokens q"]
    bt_queries(1) [OF ss_invD(1) [OF inv]] ss_invD(3) [OF inv]
  by (simp add: ss_token_location_def ss_physical_block_id_def)

lemma ss_live_ids_distinct:
  assumes "ss_inv others (q, p)" and "g \<in> set (bt_blocks (ss_table q))" "h \<in> set (bt_blocks (ss_table q))"
    and "h_id g = h_id h"
  shows "g = h"
proof -
  have "pp_live p g" "pp_live p h"
    using bt_inv_owned [OF ss_invD(1) [OF assms(1)]] assms(2,3) bm_refs_live by blast+
  then show ?thesis using assms(4) by (intro handle_eqI) (auto simp: bm_live_def)
qed

lemma ss_token_location_inj:
  assumes inv: "ss_inv others (q, p)" and "ss_token_location i (q, p) = Inr l" "ss_token_location j (q, p) = Inr l"
  shows "i = j"
proof -
  let ?b = "ss_block_size q" and ?bs = "bt_blocks (ss_table q)"
  have ij: "i < ss_num_tokens q" "j < ss_num_tokens q" "h_id (?bs ! (i div ?b)) = h_id (?bs ! (j div ?b))"
    "i mod ?b = j mod ?b"
    using assms(2,3) by (auto simp: ss_token_location_ok [OF inv] split: if_splits)
  have lt: "i div ?b < length ?bs" "j div ?b < length ?bs"
    using ceil_blocks_div_less [OF ss_invD(2) [OF inv]] ij(1,2) ss_invD(3) [OF inv] by simp_all
  then have "?bs ! (i div ?b) = ?bs ! (j div ?b)"
    using ss_live_ids_distinct [OF inv] ij(3) nth_mem by metis
  then have "i div ?b = j div ?b" using lt ss_invD(5) [OF inv] by (simp add: nth_eq_iff_index_eq)
  then show ?thesis using ij(4) by (metis div_mult_mod_eq)
qed

text \<open>After \<open>append_token\<close> the page of the new token belongs to this sequence alone.\<close>

lemma ss_append_token_spec:
  assumes inv: "ss_inv others (q, p)" and r: "ss_append_token grow (q, p) = (r, (q', p'))"
  shows "ss_inv others (q', p') \<and> pp_config p' = pp_config p \<and>
    (case r of
       Inl e \<Rightarrow> q' = q
     | Inr l \<Rightarrow> ss_num_tokens q' = ss_num_tokens q + 1 \<and>
         ss_token_location (ss_num_tokens q) (q', p') = Inr l \<and>
         tl_offset_in_block l = ss_num_tokens q mod ss_block_size q \<and>
         tl_physical_block l = h_id (last (bt_blocks (ss_table q'))) \<and>
         bt_blocks (ss_table q') \<noteq> [] \<and> pp_refs p' (last (bt_blocks (ss_table q'))) = 1 \<and>
         (\<forall>i < ss_num_tokens q. ss_token_location i (q', p') = ss_token_location i (q, p)))"
proof -
  let ?n = "ss_num_tokens q" and ?b = "ss_block_size q" and ?bs = "bt_blocks (ss_table q)"
  note d = ss_invD [OF inv]
  obtain ar q1 p1 where a: "ss_append_tokens grow 1 (q, p) = (ar, (q1, p1))"
    by (cases "ss_append_tokens grow 1 (q, p)" rule: prod_cases3)
  note sp = ss_append_tokens_spec [OF inv a]
  show ?thesis
  proof (cases ar)
    case (Inl e)
    then have "r = Inl e" "q' = q1" "p' = p1" using r a by (auto simp: ss_append_token_def)
    then show ?thesis using Inl sp by auto
  next
    case (Inr u)
    then obtain new where new: "q1 = q\<lparr>ss_num_tokens := ?n + 1,
        ss_table := (ss_table q)\<lparr>bt_blocks := ?bs @ new\<rparr>\<rparr>"
      "\<forall>h \<in> set new. pp_refs p h = 0 \<and> pp_refs p1 h = 1" and tail: "\<not> ss_shared_tail (q, p)"
      using sp by auto
    have inv1: "ss_inv others (q1, p1)" using sp by simp
    have q': "q' = q1" "p' = p1" "r = ss_token_location ?n (q1, p1)"
      using r a Inr by (auto simp: ss_append_token_def)
    have n1: "ss_num_tokens q1 = ?n + 1" "ss_block_size q1 = ?b" "bt_blocks (ss_table q1) = ?bs @ new"
      using new(1) by simp_all
    have lenq1: "length (?bs @ new) = ceil_blocks (?n + 1) ?b" using ss_invD(3) [OF inv1] n1 by simp
    have last: "?bs @ new \<noteq> [] \<and> (?bs @ new) ! (?n div ?b) = last (?bs @ new) \<and>
        pp_refs p1 (last (?bs @ new)) = 1"
    proof (cases "?n mod ?b = 0")
      case True
      then have "length new = 1" using ceil_blocks_next [OF d(2) True] lenq1 d(3) by simp
      then obtain h where "new = [h]" by (auto simp: length_Suc_conv)
      moreover have "length ?bs = ?n div ?b" using True d(3) by (simp add: ceil_blocks_def)
      ultimately show ?thesis using new(2) by (simp add: nth_append)
    next
      case False
      note t = ss_tail_block [OF inv False]
      have "new = []" using lenq1 t(2) by simp
      moreover have "?bs ! (?n div ?b) = last ?bs" using t(1,3) by (simp add: last_conv_nth)
      moreover have "pp_refs p1 (last ?bs) = 1"
      proof -
        have "pp_refs p1 (last ?bs) = pp_refs p (last ?bs)"
          using bt_invD(3) [OF ss_invD(1) [OF inv1]] bt_invD(3) [OF d(1)] n1 \<open>new = []\<close> by simp
        moreover have "0 < pp_refs p (last ?bs)" using bt_inv_owned [OF d(1)] t(1) by simp
        ultimately show ?thesis using tail False by (simp add: ss_shared_tail_def)
      qed
      ultimately show ?thesis using t(1) by simp
    qed
    have loc: "r = Inr \<lparr>tl_physical_block = h_id (last (?bs @ new)), tl_offset_in_block = ?n mod ?b\<rparr>"
      using q'(3) last by (simp add: ss_token_location_ok [OF inv1] n1)
    have "ss_token_location i (q1, p1) = ss_token_location i (q, p)" if "i < ?n" for i
      using that ceil_blocks_div_less [OF d(2) that] d(3)
      by (simp add: ss_token_location_ok [OF inv1] ss_token_location_ok [OF inv] n1 nth_append)
    then show ?thesis using loc last q' inv1 sp n1 by simp
  qed
qed

section \<open>Forking\<close>

lemma ss_fork_loop_spec:
  assumes "bt_inv others (t, p)" and "bt_pool t \<noteq> None" and "bt_pool t = bt_pool source"
    and "ss_fork_loop grow source is (t, p) = (r, (t', p'))"
  shows "bt_inv others (t', p') \<and> pp_config p' = pp_config p \<and> bt_pool t' = bt_pool t \<and>
    (r = Inr () \<longrightarrow> bt_blocks t' = bt_blocks t @ map ((!) (bt_blocks source)) is)"
  using assms
proof (induction "is" arbitrary: t p)
  case Nil
  then show ?case by simp
next
  case (Cons i "is")
  obtain ar t1 p1 where a: "bt_append_shared grow source i (t, p) = (ar, (t1, p1))"
    by (cases "bt_append_shared grow source i (t, p)" rule: prod_cases3)
  show ?case
  proof (cases ar)
    case (Inl e)
    then show ?thesis using bt_append_shared_err [OF Cons.prems(1), of grow source i e t1 p1] a Cons.prems(4)
      by auto
  next
    case (Inr u)
    note ok = bt_append_shared_ok [OF Cons.prems(1) a [unfolded Inr]]
    have "ss_fork_loop grow source is (t1, p1) = (r, (t', p'))" using a Inr Cons.prems(4) by simp
    from Cons.IH [OF ok(1) _ _ this] show ?thesis using ok Cons.prems(2,3) by simp
  qed
qed

lemma ss_fork_spec:
  assumes inv: "ss_inv others (q, p)" and r: "ss_fork_shared grow i (q, p) = (r, p')"
  shows "pp_config p' = pp_config p \<and>
    (case r of
       Inl e \<Rightarrow> ss_inv others (q, p')
     | Inr f \<Rightarrow> ss_num_tokens f = ss_num_tokens q \<and> bt_blocks (ss_table f) = bt_blocks (ss_table q) \<and>
         ss_request_id f = i \<and> ss_block_size f = ss_block_size q \<and>
         ss_inv (\<lambda>h. others h + count_list (bt_blocks (ss_table f)) h) (q, p') \<and>
         ss_inv (\<lambda>h. others h + count_list (bt_blocks (ss_table q)) h) (f, p'))"
proof (cases "bt_pool (ss_table q)")
  case None
  then show ?thesis using r inv by (auto simp: ss_fork_shared_def bt_get_pool_def)
next
  case (Some a)
  note d = ss_invD [OF inv]
  let ?t0 = "bt_create a" and ?bs = "bt_blocks (ss_table q)"
  have inv0: "bt_inv (pp_refs p) (?t0, p)" using bt_invD(1) [OF d(1)] by (rule bt_create_inv)
  obtain lr t1 p1 where l: "ss_fork_loop grow (ss_table q) [0..<length ?bs] (?t0, p) = (lr, (t1, p1))"
    by (cases "ss_fork_loop grow (ss_table q) [0..<length ?bs] (?t0, p)" rule: prod_cases3)
  have "bt_pool ?t0 \<noteq> None" "bt_pool ?t0 = bt_pool (ss_table q)" using Some by (simp_all add: bt_create_def)
  note ls = ss_fork_loop_spec [OF inv0 this l]
  have refs: "pp_refs p h = count_list ?bs h + others h" for h using bt_invD(3) [OF d(1)] .
  show ?thesis
  proof (cases lr)
    case (Inl e)
    from bt_clear_total [OF conjunct1 [OF ls]] obtain p2 where
      c: "bt_clear (t1, p1) = (Inr (), (t1\<lparr>bt_blocks := []\<rparr>, p2))"
        "bt_inv (pp_refs p) (t1\<lparr>bt_blocks := []\<rparr>, p2)" "pp_config p2 = pp_config p1" "pp_refs p2 = pp_refs p"
      by blast
    have rp: "r = Inl e" "p' = p2"
      using r Some l Inl c(1) by (auto simp: ss_fork_shared_def bt_get_pool_def ss_create_def)
    have cfg: "pp_config p2 = pp_config p" using c(3) ls by simp
    have "bt_inv others (ss_table q, p2)"
      using c(2,4) refs d(1) by (simp add: bt_inv.simps)
    then have "ss_inv others (q, p2)"
      using inv pp_config_block_size [OF cfg] by (simp add: ss_inv.simps)
    then show ?thesis using rp cfg by simp
  next
    case (Inr u)
    define f where "f = (ss_create i a p)\<lparr>ss_table := t1, ss_num_tokens := ss_num_tokens q\<rparr>"
    have rp: "r = Inr f" "p' = p1"
      using r Some l Inr by (auto simp: ss_fork_shared_def bt_get_pool_def ss_create_def f_def)
    have bl: "bt_blocks t1 = ?bs" using ls Inr by (simp add: bt_create_def map_nth)
    have cfg: "pp_config p1 = pp_config p" using ls by simp
    have b: "ss_block_size q = pp_block_size p" using d(6) Some by simp
    have f: "ss_num_tokens f = ss_num_tokens q" "ss_table f = t1" "ss_block_size f = ss_block_size q"
      "ss_request_id f = i"
      using b by (simp_all add: f_def ss_create_def)
    have 1: "bt_inv (\<lambda>h. others h + count_list ?bs h) (t1, p1)"
      using conjunct1 [OF ls] refs by (simp add: bt_inv.simps add_ac)
    then have 2: "bt_inv (\<lambda>h. others h + count_list ?bs h) (ss_table q, p1)"
      using bl Some by (simp add: bt_inv.simps)
    show ?thesis
      using rp f bl 1 2 cfg d(2-6) pp_config_block_size [OF cfg] b by (simp add: ss_inv.simps)
  qed
qed

section \<open>Copy on write\<close>

lemma bt_inv_take_over:
  "bt_inv others (t, p) \<Longrightarrow> pp_inv p' \<Longrightarrow> pp_refs p' = (pp_refs p)(h := pp_refs p h + 1) \<Longrightarrow>
   bt_inv (others(h := others h + 1)) (t, p')"
  by (auto simp: bt_inv.simps)

lemma ss_cow_spec:
  assumes inv: "ss_inv others (q, p)"
    and r: "ss_append_token_with_copy grow copy ((q, p), m) = (r, (q', p'), m')"
  shows "ss_inv others (q', p') \<and> pp_config p' = pp_config p \<and>
    (case r of
       Inl e \<Rightarrow> q' = q
     | Inr l \<Rightarrow> ss_num_tokens q' = ss_num_tokens q + 1 \<and> ss_block_size q' = ss_block_size q \<and>
         ss_token_location (ss_num_tokens q) (q', p') = Inr l \<and>
         bt_blocks (ss_table q') \<noteq> [] \<and>
         tl_physical_block l = h_id (last (bt_blocks (ss_table q'))) \<and>
         pp_refs p' (last (bt_blocks (ss_table q'))) = 1 \<and>
         (if ss_shared_tail (q, p)
          then \<exists>cp. copy = Some cp \<and>
                 cp (last (bt_blocks (ss_table q))) (last (bt_blocks (ss_table q'))) m = (Inr (), m') \<and>
                 pp_refs p (last (bt_blocks (ss_table q'))) = 0 \<and>
                 \<not> pp_pub p' (last (bt_blocks (ss_table q'))) \<and>
                 bt_blocks (ss_table q') =
                   butlast (bt_blocks (ss_table q)) @ [last (bt_blocks (ss_table q'))]
          else m' = m \<and> (\<exists>new. bt_blocks (ss_table q') = bt_blocks (ss_table q) @ new)))"
proof -
  let ?n = "ss_num_tokens q" and ?b = "ss_block_size q" and ?bs = "bt_blocks (ss_table q)"
  note d = ss_invD [OF inv]
  show ?thesis
  proof (cases "?n = size_max")
    case True
    then show ?thesis using r inv by (auto simp: ss_append_token_with_copy_def)
  next
    case lt: False
    show ?thesis
    proof (cases "ss_shared_tail (q, p)")
      case False
      have one: "(if ?n mod ?b = 0 then Inr True
          else bind_res (bt_ref_count (length ?bs - 1) (ss_table q, p)) (\<lambda>n. Inr (n = 1))) = (Inr True :: bool res)"
      proof (cases "?n mod ?b = 0")
        case nz: False
        have "0 < pp_refs p (last ?bs)"
          using bt_inv_owned [OF d(1)] ss_tail_block(1) [OF inv nz] by simp
        then have "pp_refs p (last ?bs) = 1" using False nz by (simp add: ss_shared_tail_def)
        then show ?thesis using nz ss_tail_refs [OF inv nz] by simp
      qed simp
      obtain ar st1 where a: "ss_append_token grow (q, p) = (ar, st1)" by (cases "ss_append_token grow (q, p)")
      have eq: "r = ar" "(q', p') = st1" "m' = m"
        using r lt a unfolding ss_append_token_with_copy_def prod.case Let_def one by auto
      then have a: "ss_append_token grow (q, p) = (r, (q', p'))" using a by simp
      have ext: "\<exists>new. q' = q\<lparr>ss_num_tokens := ?n + 1,
          ss_table := (ss_table q)\<lparr>bt_blocks := ?bs @ new\<rparr>\<rparr>" if "\<not> isl r"
      proof -
        obtain br q2 p2 where "ss_append_tokens grow 1 (q, p) = (br, (q2, p2))"
          by (cases "ss_append_tokens grow 1 (q, p)" rule: prod_cases3)
        then show ?thesis using ss_append_tokens_spec [OF inv] a that
          by (cases br) (fastforce simp: ss_append_token_def)+
      qed
      show ?thesis using ss_append_token_spec [OF inv a] ext eq(3) False
        by (cases r) auto
    next
      case shared: True
      then have nz: "?n mod ?b \<noteq> 0" and many: "1 < pp_refs p (last ?bs)" by (simp_all add: ss_shared_tail_def)
      note t = ss_tail_block [OF inv nz]
      have nt: "(if ?n mod ?b = 0 then Inr True
          else bind_res (bt_ref_count (length ?bs - 1) (ss_table q, p)) (\<lambda>n. Inr (n = 1))) = (Inr False :: bool res)"
        using nz many ss_tail_refs [OF inv nz] by simp
      have old: "bind_res (bt_handle (length ?bs - 1) (ss_table q, p))
          (\<lambda>old. bind_res (bt_get_pool (ss_table q)) (\<lambda>u. Inr old)) = Inr (last ?bs)"
        using bt_queries(2) [OF d(1)] t(1) bt_invD(2) [OF d(1)]
        by (auto simp: last_conv_nth bt_get_pool_def split: option.splits)
      note step = r [unfolded ss_append_token_with_copy_def prod.case Let_def nt old, simplified lt if_False sum.case bool.case]
      show ?thesis
      proof (cases copy)
        case None
        then show ?thesis using step inv by auto
      next
        case (Some cp)
        obtain ar p1 where a: "pp_allocate p = (ar, p1)" by (cases "pp_allocate p")
        note pinv = bt_invD(1) [OF d(1)]
        show ?thesis
        proof (cases ar)
          case (Inl e)
          then show ?thesis using step Some a inv pp_allocate_available(2) [OF pinv, of e p1] by auto
        next
          case (Inr new)
          have a: "pp_allocate p = (Inr new, p1)" using a Inr by simp
          note al = pp.alloc_ok [OF pinv a]
          have o0: "others new = 0" "new \<notin> set ?bs" using bt_inv_new_block [OF d(1), of new] al by auto
          have ti: "bt_inv (others(new := 1)) (ss_table q, p1)"
            using bt_inv_take_over [OF d(1), of p1 new] al o0 by simp
          have give_back: "\<exists>p3. pp_free new p1 = (Inr (), p3) \<and> ss_inv others (q, p3) \<and> pp_config p3 = pp_config p"
          proof -
            obtain p3 where f: "pp_free new p1 = (Inr (), p3)" using pp.free_total [of p1 new] al by auto
            note fr = pp.free_ok [OF _ f]
            have "pp_refs p3 = pp_refs p" using fr al by (auto simp: fun_eq_iff)
            then have "bt_inv others (ss_table q, p3)" using d(1) fr al by (simp add: bt_inv.simps)
            then show ?thesis using f fr al inv pp_config_block_size [of p3 p] by (simp add: ss_inv.simps)
          qed
          obtain cr m1 where c: "cp (last ?bs) new m = (cr, m1)" by (cases "cp (last ?bs) new m")
          show ?thesis
          proof (cases cr)
            case (Inl e)
            then show ?thesis using step Some a c give_back by auto
          next
            case (Inr u)
            obtain rr t1 p2 where rp: "bt_replace_last_owned new (ss_table q, p1) = (rr, (t1, p2))"
              by (cases "bt_replace_last_owned new (ss_table q, p1)" rule: prod_cases3)
            show ?thesis
            proof (cases rr)
              case (Inl e)
              then have "t1 = ss_table q" "p2 = p1" using bt_replace_err [OF ti, of new e t1 p2] rp by simp_all
              then show ?thesis using step Some a c Inr rp Inl give_back by (auto simp: ss_on_table_def)
            next
              case (Inr u)
              have rp: "bt_replace_last_owned new (ss_table q, p1) = (Inr u, (t1, p2))" using rp Inr by simp
              note ok = bt_replace_ok [OF ti _ rp, simplified]
              have oo: "(others(new := 1))(new := 0) = others" using o0 by (simp add: fun_upd_idem)
              define q2 where "q2 = q\<lparr>ss_table := t1, ss_num_tokens := ?n + 1\<rparr>"
              have res: "r = Inr \<lparr>tl_physical_block = h_id new, tl_offset_in_block = ?n mod ?b\<rparr>"
                "q' = q2" "p' = p2" "m' = m1"
                using step Some a c \<open>cr = Inr _\<close> rp by (auto simp: ss_on_table_def q2_def)
              have bl: "bt_blocks t1 = butlast ?bs @ [new]" "bt_pool t1 = bt_pool (ss_table q)"
                using ok(3) by simp_all
              have bi: "bt_inv others (t1, p2)" using ok(1) o0 by (simp add: fun_upd_idem)
              have cfg: "pp_config p2 = pp_config p" using ok(2) al by simp
              have len: "length (butlast ?bs @ [new]) = length ?bs" using t(1) by simp
              have "distinct (butlast ?bs @ [new])"
                using d(5) o0(2) t(1) by (auto simp: distinct_butlast dest: in_set_butlastD)
              then have inv2: "ss_inv others (q2, p2)"
                using bi bl len t(2) d(2,4,6) lt pp_config_block_size [OF cfg]
                by (simp add: ss_inv.simps q2_def)
              have "count_list (bt_blocks t1) new = 1"
                using o0(2) t(1) bl(1) by (subst count_list_distinct) (use \<open>distinct (butlast ?bs @ [new])\<close> in auto)
              then have one: "pp_refs p2 new = 1" using bt_invD(3) [OF bi, of new] o0 by simp
              have f2: "ss_num_tokens q2 = ?n + 1" "ss_block_size q2 = ?b" "ss_table q2 = t1"
                by (simp_all add: q2_def)
              have "ss_token_location ?n (q2, p2) = r"
                using t(1,3) res(1) bl(1) len
                by (simp add: ss_token_location_ok [OF inv2] f2 nth_append)
              moreover have "\<not> pp_pub p2 new" using ok(7) al by simp
              ultimately show ?thesis
                using res inv2 one cfg shared Some c \<open>cr = Inr _\<close> al bl by (simp add: q2_def)
            qed
          qed
        qed
      qed
    qed
  qed
qed

section \<open>What the operations do to the prefix cache\<close>

text \<open>
  Taking a page may evict a cached page that nobody references, and giving the page back does
  not undo that. The cache loses such entries at most: it gains none, and every entry of a
  referenced page stays.
\<close>

definition pp_keeps :: "physical_block_pool \<Rightarrow> physical_block_pool \<Rightarrow> bool" where
  "pp_keeps p p' \<longleftrightarrow>
     (\<forall>x g. (pp_cache p' x = Some g \<longrightarrow> pp_cache p x = Some g) \<and>
            (pp_cache p x = Some g \<and> 0 < pp_refs p g \<longrightarrow> pp_cache p' x = Some g))"

lemma pp_keeps_same: "pp_cache p' = pp_cache p \<Longrightarrow> pp_keeps p p'"
  unfolding pp_keeps_def by metis

lemma pp_keeps_trans:
  "pp_keeps p p1 \<Longrightarrow> pp_keeps p1 p2 \<Longrightarrow> (\<And>h. pp_refs p h \<le> pp_refs p1 h) \<Longrightarrow> pp_keeps p p2"
  unfolding pp_keeps_def by (metis order_less_le_trans)

lemma pp_free_cache: "pp_inv p \<Longrightarrow> pp_free h p = (Inr (), p') \<Longrightarrow> pp_cache p' = pp_cache p"
  by (simp add: pp_free_def pp_call_iff bm_release_cache)

lemma pp_keeps_cache: "pp_keeps p p1 \<Longrightarrow> pp_cache p2 = pp_cache p1 \<Longrightarrow> pp_keeps p p2"
  unfolding pp_keeps_def by metis

lemma pp_allocate_keeps:
  assumes "pp_inv p" and "pp_allocate p = (r, p')"
  shows "pp_keeps p p'"
proof (cases r)
  case (Inl e)
  then show ?thesis using pp_allocate_available(2) [OF assms(1), of e p'] assms(2) by (simp add: pp_keeps_same)
next
  case (Inr h)
  then have "bm_allocate (pp_manager p) = (Inr h, pp_manager p')"
    using assms(2) by (simp add: pp_allocate_def pp_call_iff)
  from bm_allocate_cache [OF assms(1) this] show ?thesis unfolding pp_keeps_def by blast
qed

lemma bt_append_new_keeps:
  assumes inv: "bt_inv others (t, p)" and r: "bt_append_new grow (t, p) = (r, (t', p'))"
  shows "pp_keeps p p'"
proof -
  note p = bt_invD(1) [OF inv]
  obtain ar p1 where a: "pp_allocate p = (ar, p1)" by (cases "pp_allocate p")
  note k = pp_allocate_keeps [OF p a]
  show ?thesis
  proof (cases "\<exists>h. ar = Inr h \<and> bt_pool t \<noteq> None \<and> grow (length (bt_blocks t))")
    case False
    then show ?thesis using r a k
      by (auto simp: bt_append_new_def bt_push_back_def pp_keeps_same split: sum.splits if_splits)
  next
    case True
    then obtain h where h: "pp_allocate p = (Inr h, p1)" "bt_pool t \<noteq> None" "grow (length (bt_blocks t))"
      using a by auto
    note al = pp.alloc_ok [OF p h(1)]
    obtain p2 where f: "pp_free h p1 = (Inr (), p2)" using pp.free_total [of p1 h] al by auto
    have "pp_cache p2 = pp_cache p1" using pp_free_cache [OF _ f] al by simp
    moreover have "p' = p2" using r h f by (auto simp: bt_append_new_def bt_push_back_def)
    ultimately show ?thesis using k pp_keeps_cache by simp
  qed
qed

lemma bt_pop_back_cache:
  "bt_inv others (t, p) \<Longrightarrow> bt_pop_back (t, p) = (Inr u, (t', p')) \<Longrightarrow> pp_cache p' = pp_cache p"
  using pp_free_cache [of p "last (bt_blocks t)"] bt_invD(1)
  by (auto simp: bt_pop_back_def split: if_splits prod.splits sum.splits)

lemma bt_grow_to_keeps:
  "bt_inv others (t, p) \<Longrightarrow> bt_grow_to grow needed (t, p) = (r, (t', p')) \<Longrightarrow> pp_keeps p p'"
proof (induction "needed - length (bt_blocks t)" arbitrary: t p)
  case 0
  then show ?case by (simp add: bt_grow_to.simps [of grow needed "(t, p)"] pp_keeps_same)
next
  case (Suc n)
  obtain ar t1 p1 where a: "bt_append_new grow (t, p) = (ar, (t1, p1))"
    by (cases "bt_append_new grow (t, p)" rule: prod_cases3)
  have g: "bt_grow_to grow needed (t, p) =
      and_then (ar, (t1, p1)) (\<lambda>_ st'. bt_grow_to grow needed st')"
    using Suc.hyps(2) a by (subst bt_grow_to.simps) auto
  note k = bt_append_new_keeps [OF Suc.prems(1) a]
  show ?case
  proof (cases ar)
    case (Inl e)
    then show ?thesis using g Suc.prems(2) k by simp
  next
    case (Inr i)
    note ok = bt_append_new_ok [OF Suc.prems(1) a [unfolded Inr]]
    then obtain h where h: "bt_blocks t1 = bt_blocks t @ [h]" by blast
    then have "n = needed - length (bt_blocks t1)" using Suc.hyps(2) by simp
    then have "pp_keeps p1 p'" using Suc.hyps(1) ok(1) g Inr Suc.prems(2) by simp
    moreover have "pp_refs p g \<le> pp_refs p1 g" for g
      using bt_invD(3) [OF ok(1), of g] bt_invD(3) [OF Suc.prems(1), of g] h by simp
    ultimately show ?thesis using pp_keeps_trans [OF k] by blast
  qed
qed

lemma bt_shrink_to_cache:
  "bt_inv others (t, p) \<Longrightarrow> bt_shrink_to original (t, p) = (Inr u, (t', p')) \<Longrightarrow> pp_cache p' = pp_cache p"
proof (induction "length (bt_blocks t)" arbitrary: t p)
  case 0
  then show ?case by (simp add: bt_shrink_to.simps [of original "(t, p)"])
next
  case (Suc n)
  then have "bt_blocks t \<noteq> []" by auto
  from bt_pop_back_total [OF Suc.prems(1) this]
  obtain p1 where pop: "bt_pop_back (t, p) = (Inr (), (t\<lparr>bt_blocks := butlast (bt_blocks t)\<rparr>, p1))"
    "bt_inv others (t\<lparr>bt_blocks := butlast (bt_blocks t)\<rparr>, p1)" by blast
  have "pp_cache p1 = pp_cache p" by (rule bt_pop_back_cache [OF Suc.prems(1) pop(1)])
  moreover have "n = length (bt_blocks (t\<lparr>bt_blocks := butlast (bt_blocks t)\<rparr>))" using Suc.hyps(2) by simp
  note Suc.hyps(1) [OF this pop(2)]
  ultimately show ?case using Suc.prems(2) pop(1)
    by (auto simp: bt_shrink_to.simps [of original "(t, p)"] split: if_splits)
qed

lemma ss_append_tokens_keeps:
  assumes inv: "ss_inv others (q, p)" and r: "ss_append_tokens grow count (q, p) = (r, (q', p'))"
  shows "pp_keeps p p'"
proof (cases "p' = p")
  case True
  then show ?thesis by (simp add: pp_keeps_same)
next
  case False
  note d = ss_invD [OF inv]
  let ?t = "ss_table q" and ?needed = "ceil_blocks (ss_num_tokens q + count) (ss_block_size q)"
  obtain gr t1 p1 where g: "bt_grow_to grow ?needed (?t, p) = (gr, (t1, p1))"
    by (cases "bt_grow_to grow ?needed (?t, p)" rule: prod_cases3)
  note k = bt_grow_to_keeps [OF d(1) g] and gs = bt_grow_to_spec [OF d(1,5) g]
  show ?thesis
  proof (cases gr)
    case (Inr u)
    then have "p' = p1" using r g False
      by (auto simp: ss_append_tokens_def ss_on_table_def Let_def split: if_splits sum.splits)
    then show ?thesis using k by simp
  next
    case (Inl e)
    have "length (bt_blocks ?t) \<le> length (bt_blocks t1)" using gs by auto
    from bt_shrink_to_spec [OF conjunct1 [OF gs] this] obtain t2 p2 where
      sh: "bt_shrink_to (length (bt_blocks ?t)) (t1, p1) = (Inr (), (t2, p2))" by blast
    then have "p' = p2" using r g Inl False
      by (auto simp: ss_append_tokens_def ss_on_table_def Let_def split: if_splits sum.splits)
    then show ?thesis using pp_keeps_cache [OF k bt_shrink_to_cache [OF conjunct1 [OF gs] sh]] by simp
  qed
qed

text \<open>\<open>append_token_with_copy\<close>: what it does to the cache and, when it throws, to the memory.\<close>

lemma pp_free_cache_any:
  assumes "pp_inv p" and "pp_free h p = (r, p')"
  shows "pp_cache p' = pp_cache p"
proof (cases r)
  case (Inl e)
  then show ?thesis
    using assms bm_release_error(1) [OF assms(1), of h e "pp_manager p'"] by (simp add: pp_free_def pp_call_iff)
qed (use pp_free_cache assms in simp)

lemma bt_replace_cache:
  assumes inv: "bt_inv others (t, p)" and r: "bt_replace_last_owned h (t, p) = (r, (t', p'))"
  shows "pp_cache p' = pp_cache p" and "pp_inv p'"
proof -
  have "p' = p \<or> (\<exists>x. pp_free (last (bt_blocks t)) p = (x, p'))"
    using r by (auto simp: bt_replace_last_owned_def split: if_splits sum.splits prod.splits)
  moreover have "pp_inv p'" if f: "pp_free (last (bt_blocks t)) p = (x, p')" for x
  proof (cases x)
    case (Inl e)
    then show ?thesis using bt_invD(1) [OF inv] f bm_release_error(1) [of "pp_manager p" "last (bt_blocks t)" e "pp_manager p'"]
      by (simp add: pp_free_def pp_call_iff)
  qed (use pp.free_ok [OF bt_invD(1) [OF inv]] f in simp)
  ultimately show "pp_cache p' = pp_cache p" "pp_inv p'"
    using pp_free_cache_any [OF bt_invD(1) [OF inv]] bt_invD(1) [OF inv] by blast+
qed

lemma ss_append_token_keeps:
  assumes inv: "ss_inv others (q, p)" and r: "ss_append_token grow (q, p) = (r, (q', p'))"
  shows "pp_keeps p p'"
proof (cases "ss_append_tokens grow 1 (q, p)" rule: prod_cases3)
  case (fields ar q1 p1)
  then have "p' = p1" using r by (cases ar) (auto simp: ss_append_token_def)
  then show ?thesis using ss_append_tokens_keeps [OF inv fields] by simp
qed

lemma ss_cow_raw:
  assumes r: "ss_append_token_with_copy grow copy ((q, p), m) = (r, (q', p'), m')"
  obtains (early) "p' = p" "m' = m"
  | (plain) "ss_append_token grow (q, p) = (r, (q', p'))" "m' = m"
  | (full) e where "pp_allocate p = (Inl e, p')" "m' = m"
  | (copied) cp new p1 p2 rr t old where "copy = Some cp" "pp_allocate p = (Inr new, p1)"
      "m' = snd (cp old new m)" "ss_num_tokens q mod ss_block_size q \<noteq> 0"
      "bt_ref_count (length (bt_blocks (ss_table q)) - 1) (ss_table q, p) \<noteq> Inr 1"
      "bt_handle (length (bt_blocks (ss_table q)) - 1) (ss_table q, p) = Inr old"
      "p2 = p1 \<or> bt_replace_last_owned new (ss_table q, p1) = (rr, (t, p2))"
      "p' = p2 \<or> (\<exists>x. pp_free new p2 = (x, p'))"
proof -
  let ?lb = "length (bt_blocks (ss_table q)) - 1"
  show thesis
  proof (cases "ss_num_tokens q = size_max")
    case True
    then show thesis using r early by (simp add: ss_append_token_with_copy_def)
  next
    case lt: False
    define test where "test = (if ss_num_tokens q mod ss_block_size q = 0 then Inr True
      else bind_res (bt_ref_count ?lb (ss_table q, p)) (\<lambda>n. Inr (n = 1)))"
    note step = r [unfolded ss_append_token_with_copy_def prod.case Let_def, folded test_def, simplified lt if_False]
    show thesis
    proof (cases test)
      case (Inl e)
      then show thesis using step early by simp
    next
      case (Inr b)
      show thesis
      proof (cases b)
        case True
        then show thesis using step Inr plain by (auto split: prod.splits)
      next
        case False
        then have nz: "ss_num_tokens q mod ss_block_size q \<noteq> 0"
          and rc: "bt_ref_count ?lb (ss_table q, p) \<noteq> Inr 1"
          using Inr by (auto simp: test_def split: if_splits)
        note step = step [unfolded Inr, simplified False sum.case bool.case]
        show thesis
        proof (cases copy)
          case None
          then show thesis using step early by simp
        next
          case (Some cp)
          note step = step [unfolded Some option.case]
          show thesis
          proof (cases "bind_res (bt_handle ?lb (ss_table q, p)) (\<lambda>old. bind_res (bt_get_pool (ss_table q)) (\<lambda>u. Inr old))")
            case (Inl e)
            then show thesis using step early by simp
          next
            case (Inr old)
            then have old: "bt_handle ?lb (ss_table q, p) = Inr old" by (auto simp: bind_res_Inr_iff)
            obtain ar p1 where a: "pp_allocate p = (ar, p1)" by (cases "pp_allocate p")
            note step = step [unfolded Inr a sum.case prod.case]
            show thesis
            proof (cases ar)
              case (Inl e)
              then show thesis using step full [of e] a by simp
            next
              case (Inr new)
              note step = step [unfolded Inr sum.case]
              note fin = copied [OF Some a [unfolded Inr] _ nz rc old]
              show thesis
              proof (cases "cp old new m")
                case (Pair cr m1)
                note step = step [unfolded Pair prod.case]
                show thesis
                proof (cases cr)
                  case (Inl e)
                  then show thesis using step Pair fin [of p1]
                    by (auto split: prod.splits sum.splits)
                next
                  case (Inr u)
                  obtain rr t p2 where rp: "bt_replace_last_owned new (ss_table q, p1) = (rr, (t, p2))"
                    by (cases "bt_replace_last_owned new (ss_table q, p1)" rule: prod_cases3)
                  show thesis
                    using step [unfolded Inr sum.case ss_on_table_def prod.case rp] Pair fin [of p2 rr t] rp
                    by (cases rr) (auto split: prod.splits sum.splits)
                qed
              qed
            qed
          qed
        qed
      qed
    qed
  qed
qed

lemma ss_cow_effects:
  assumes inv: "ss_inv others (q, p)"
    and r: "ss_append_token_with_copy grow copy ((q, p), m) = (r, (q', p'), m')"
  shows "pp_keeps p p'"
    and "m' = m \<or> (\<exists>cp new. copy = Some cp \<and> ss_shared_tail (q, p) \<and> pp_refs p new = 0 \<and>
      m' = snd (cp (last (bt_blocks (ss_table q))) new m))"
proof -
  note d = ss_invD [OF inv]
  note pinv = bt_invD(1) [OF d(1)]
  from r have "pp_keeps p p' \<and> (m' = m \<or> (\<exists>cp new. copy = Some cp \<and> ss_shared_tail (q, p) \<and> pp_refs p new = 0 \<and>
      m' = snd (cp (last (bt_blocks (ss_table q))) new m)))"
  proof (cases rule: ss_cow_raw)
    case early
    then show ?thesis by (simp add: pp_keeps_same)
  next
    case plain
    then show ?thesis using ss_append_token_keeps [OF inv] by simp
  next
    case (full e)
    then show ?thesis using pp_allocate_keeps [OF pinv] by simp
  next
    case (copied cp new p1 p2 rr t old)
    note al = pp.alloc_ok [OF pinv copied(2)]
    note tl = ss_tail_block [OF inv copied(4)]
    have old: "old = last (bt_blocks (ss_table q))"
      using copied(6) bt_queries(2) [OF d(1)] tl(1) by (simp add: last_conv_nth split: if_splits)
    have "0 < pp_refs p (last (bt_blocks (ss_table q)))" using bt_inv_owned [OF d(1)] tl(1) by simp
    then have sh: "ss_shared_tail (q, p)"
      using copied(4,5) ss_tail_refs [OF inv copied(4)] by (simp add: ss_shared_tail_def)
    have o0: "others new = 0" "new \<notin> set (bt_blocks (ss_table q))"
      using bt_inv_new_block [OF d(1), of new] al by auto
    then have ti: "bt_inv (others(new := 1)) (ss_table q, p1)"
      using bt_inv_take_over [OF d(1), of p1 new] al by simp
    have 2: "pp_cache p2 = pp_cache p1 \<and> pp_inv p2"
      using copied(7) bt_replace_cache [OF ti] al by auto
    then have "pp_cache p' = pp_cache p1" using copied(8) pp_free_cache_any by auto
    then have "pp_keeps p p'" using pp_keeps_cache [OF pp_allocate_keeps [OF pinv copied(2)]] by simp
    then show ?thesis using sh al copied(1,3) old by auto
  qed
  then show "pp_keeps p p'" "m' = m \<or> (\<exists>cp new. copy = Some cp \<and> ss_shared_tail (q, p) \<and> pp_refs p new = 0 \<and>
      m' = snd (cp (last (bt_blocks (ss_table q))) new m))" by blast+
qed

section \<open>Properties\<close>

text \<open>For the witnesses: a pool of four pages of two tokens, and a sequence of three tokens in it.\<close>

definition demo_pool :: physical_block_pool where
  "demo_pool = (case pp_create 4 2 (Some (\<lambda>p. 0)) of Inr p \<Rightarrow> p)"

definition demo_q :: sequence_state where
  "demo_q = fst (snd (ss_append_tokens (\<lambda>n. False) 3 (ss_create 1 0 demo_pool, demo_pool)))"

definition demo_p :: physical_block_pool where
  "demo_p = snd (snd (ss_append_tokens (\<lambda>n. False) 3 (ss_create 1 0 demo_pool, demo_pool)))"

lemma demo_pool_start: "pp_inv demo_pool" "pp_refs demo_pool = (\<lambda>h. 0)"
proof -
  obtain m where m: "bm_create 4 2 (Some (\<lambda>p. 0)) = Inr m" by (auto simp: bm_create_def)
  then have "pp_manager demo_pool = m" by (simp add: demo_pool_def pp_create_def)
  then show "pp_inv demo_pool" "pp_refs demo_pool = (\<lambda>h. 0)"
    using bm_create_inv(2,3) [OF m] by (simp_all add: none_eq fun_eq_iff)
qed

lemma demo_empty_inv: "ss_inv (\<lambda>h. 0) (ss_create 1 0 demo_pool, demo_pool)"
  using ss_create_inv [OF demo_pool_start(1), of 1 0] demo_pool_start(2) by simp

lemma demo_inv: "ss_inv (\<lambda>h. 0) (demo_q, demo_p)"
proof (cases "ss_append_tokens (\<lambda>n. False) 3 (ss_create 1 0 demo_pool, demo_pool)" rule: prod_cases3)
  case (fields r q p)
  show ?thesis unfolding demo_q_def demo_p_def fields fst_conv snd_conv
    by (rule conjunct1 [OF ss_append_tokens_spec [OF demo_empty_inv fields]])
qed

text \<open>C10: \<open>append_tokens\<close> is atomic in the sequence and in the reference counts. It reserves
  exactly \<open>count\<close> more positions, adding only fresh pages that no one else holds, and then the
  table has exactly \<open>ceil (num_tokens / block_size)\<close> pages; or it throws (overflow, shared
  partial tail, pool exhausted, \<open>bad_alloc\<close> in the middle) and the sequence and every reference
  count are as before. The pages it takes on the way may have been evicted from the idle cache,
  which a failure does not restore: in either case the prefix cache gains nothing and loses
  prefixes of unreferenced pages only.\<close>

theorem ss_append_tokens_atomic:
  assumes "ss_inv others (q, p)" and "ss_append_tokens grow count (q, p) = (r, (q', p'))"
  shows "ss_inv others (q', p') \<and>
    (\<forall>x g. (pp_cache p' x = Some g \<longrightarrow> pp_cache p x = Some g) \<and>
           (pp_cache p x = Some g \<and> 0 < pp_refs p g \<longrightarrow> pp_cache p' x = Some g)) \<and>
    (case r of
       Inl e \<Rightarrow> q' = q \<and> pp_refs p' = pp_refs p
     | Inr u \<Rightarrow> ss_num_tokens q' = ss_num_tokens q + count \<and>
         ss_num_allocated_blocks q' = ceil_blocks (ss_num_tokens q + count) (ss_block_size q) \<and>
         (\<exists>new. bt_blocks (ss_table q') = bt_blocks (ss_table q) @ new \<and>
            (\<forall>h \<in> set new. pp_refs p h = 0 \<and> pp_refs p' h = 1)))"
proof -
  note keeps = ss_append_tokens_keeps [OF assms, unfolded pp_keeps_def]
  show ?thesis
  proof (cases r)
    case (Inl e)
    then have *: "ss_inv others (q', p')" "q' = q" using ss_append_tokens_spec [OF assms] by auto
    then have "ss_inv others (q, p')" by simp
    note refs = ss_inv_refs [OF assms(1) this]
    show ?thesis
      by (intro conjI keeps) (use * refs Inl in simp_all)
  next
    case (Inr u)
    have inv': "ss_inv others (q', p')" using ss_append_tokens_spec [OF assms] by simp
    show ?thesis
      by (intro conjI keeps)
        (use ss_append_tokens_spec [OF assms] ss_invD(3) [OF inv'] Inr in \<open>auto simp: ss_num_allocated_blocks_def\<close>)
  qed
qed

lemma ss_append_tokens_atomic_witness:
  "ss_num_tokens demo_q = 3 \<and> ss_num_allocated_blocks demo_q = 2 \<and>
   (\<exists>q' p'. ss_append_tokens (\<lambda>n. False) 10 (demo_q, demo_p) = (Inl CapacityError, (q', p')) \<and>
      q' = demo_q \<and> pp_refs p' = pp_refs demo_p)"
proof -
  obtain r q' p' where a: "ss_append_tokens (\<lambda>n. False) 10 (demo_q, demo_p) = (r, (q', p'))"
    by (cases "ss_append_tokens (\<lambda>n. False) 10 (demo_q, demo_p)" rule: prod_cases3)
  have "fst (ss_append_tokens (\<lambda>n. False) 10 (demo_q, demo_p)) = Inl CapacityError"
    "ss_num_tokens demo_q = 3" "ss_num_allocated_blocks demo_q = 2"
    by code_simp+
  then show ?thesis using ss_append_tokens_atomic [OF demo_inv a] a by simp
qed

text \<open>C11: \<open>token_location\<close> is a one-to-one placement: every position below \<open>num_tokens\<close> has a
  location inside a page, every other position is rejected, and two positions of a sequence
  never share a slot.\<close>

theorem ss_token_location_placement:
  assumes "ss_inv others (q, p)"
  shows "(i < ss_num_tokens q \<longrightarrow> (\<exists>l. ss_token_location i (q, p) = Inr l \<and>
       tl_offset_in_block l < pp_block_size p \<and> tl_physical_block l < pp_capacity p)) \<and>
    (ss_num_tokens q \<le> i \<longrightarrow> ss_token_location i (q, p) = Inl OutOfRange) \<and>
    (i < ss_num_tokens q \<longrightarrow> j < ss_num_tokens q \<longrightarrow>
       ss_token_location i (q, p) = ss_token_location j (q, p) \<longrightarrow> i = j)"
proof -
  note d = ss_invD [OF assms]
  have "tl_offset_in_block l < pp_block_size p \<and> tl_physical_block l < pp_capacity p"
    if i: "i < ss_num_tokens q" and l: "ss_token_location i (q, p) = Inr l" for l
  proof -
    let ?h = "bt_blocks (ss_table q) ! (i div ss_block_size q)"
    have in_table: "?h \<in> set (bt_blocks (ss_table q))"
      using ceil_blocks_div_less [OF d(2) i] d(3) by simp
    then have "bt_blocks (ss_table q) \<noteq> []" by auto
    then have "ss_block_size q = pp_block_size p" using d(6) bt_invD(2) [OF d(1)] by blast
    moreover have "pp_live p ?h" using bt_inv_owned [OF d(1) in_table] by (rule bm_refs_live)
    ultimately show ?thesis using l i d(2)
      by (auto simp: ss_token_location_ok [OF assms] bm_live_def pp_capacity_def bm_capacity_def)
  qed
  then show ?thesis using ss_token_location_inj [OF assms, of i _ j] ss_token_location_ok [OF assms]
    by (metis linorder_not_less)
qed

lemma ss_token_location_placement_witness:
  "ss_token_location 2 (demo_q, demo_p) = Inr \<lparr>tl_physical_block = 1, tl_offset_in_block = 0\<rparr> \<and>
   ss_token_location 2 (demo_q, demo_p) \<noteq> ss_token_location 1 (demo_q, demo_p)"
proof -
  have "ss_token_location 2 (demo_q, demo_p) = Inr \<lparr>tl_physical_block = 1, tl_offset_in_block = 0\<rparr>"
    "ss_num_tokens demo_q = 3" by code_simp+
  then show ?thesis using ss_token_location_placement [OF demo_inv, of 2 1] by auto
qed

text \<open>C12: \<open>fork_shared\<close> gives a sequence with the same tokens and the same pages, each page with
  one more reference; source and fork then both satisfy the sequence invariant with the other
  one among the other owners. If it throws half way, the references it took are given back.\<close>

theorem ss_fork_shared_exact:
  assumes "ss_inv others (q, p)" and "ss_fork_shared grow i (q, p) = (r, p')"
  shows "case r of
       Inl e \<Rightarrow> ss_inv others (q, p') \<and> pp_refs p' = pp_refs p
     | Inr f \<Rightarrow> ss_num_tokens f = ss_num_tokens q \<and>
         (\<forall>k. ss_token_location k (f, p') = ss_token_location k (q, p)) \<and>
         ss_inv (\<lambda>h. others h + count_list (bt_blocks (ss_table f)) h) (q, p') \<and>
         ss_inv (\<lambda>h. others h + count_list (bt_blocks (ss_table q)) h) (f, p')"
proof (cases r)
  case (Inl e)
  then show ?thesis using ss_fork_spec [OF assms] ss_inv_refs [OF assms(1)] by simp
next
  case (Inr f)
  then have f: "ss_num_tokens f = ss_num_tokens q" "bt_blocks (ss_table f) = bt_blocks (ss_table q)"
    "ss_block_size f = ss_block_size q" "ss_inv (\<lambda>h. others h + count_list (bt_blocks (ss_table f)) h) (q, p')"
    "ss_inv (\<lambda>h. others h + count_list (bt_blocks (ss_table q)) h) (f, p')"
    using ss_fork_spec [OF assms, unfolded Inr sum.case] by blast+
  then show ?thesis
    using Inr ss_token_location_ok [OF f(5)] ss_token_location_ok [OF assms(1)] by simp
qed

definition demo_fork :: "sequence_state res \<times> physical_block_pool" where
  "demo_fork = ss_fork_shared (\<lambda>n. False) 2 (demo_q, demo_p)"

lemma demo_fork_ok:
  obtains f p' where "ss_fork_shared (\<lambda>n. False) 2 (demo_q, demo_p) = (Inr f, p')"
    and "demo_fork = (Inr f, p')"
proof -
  have "\<not> isl (fst demo_fork)" by code_simp
  then show thesis using that by (cases demo_fork; cases "fst demo_fork") (auto simp: demo_fork_def)
qed

lemma ss_fork_shared_exact_witness:
  "\<exists>f p'. demo_fork = (Inr f, p') \<and> ss_num_tokens f = ss_num_tokens demo_q \<and>
     ss_inv (\<lambda>h. count_list (bt_blocks (ss_table f)) h) (demo_q, p')"
proof -
  obtain f p' where f: "ss_fork_shared (\<lambda>n. False) 2 (demo_q, demo_p) = (Inr f, p')"
    "demo_fork = (Inr f, p')" by (rule demo_fork_ok)
  show ?thesis using ss_fork_shared_exact [OF demo_inv f(1)] f(2) by auto
qed

text \<open>C13: Copy on write isolates sequences. When \<open>append_token_with_copy\<close> returns, the page of
  the new position is referenced by this sequence alone, the positions before the tail page
  keep their slots, and if the tail was shared the callback has copied the old tail page into
  a page that was unreferenced before and is unpublished. When it throws (also from inside the
  callback), the sequence and every reference count are as before, and the memory is as before
  or what the callback left after being pointed at a page that nobody references. The page for
  the copy may come from the idle cache, and a failure does not put the evicted prefix back: in
  every case the prefix cache gains nothing and loses prefixes of unreferenced pages only.\<close>

theorem ss_copy_on_write_isolates:
  assumes "ss_inv others (q, p)"
    and "ss_append_token_with_copy grow copy ((q, p), m) = (r, (q', p'), m')"
  shows "ss_inv others (q', p') \<and>
    (\<forall>x g. (pp_cache p' x = Some g \<longrightarrow> pp_cache p x = Some g) \<and>
           (pp_cache p x = Some g \<and> 0 < pp_refs p g \<longrightarrow> pp_cache p' x = Some g)) \<and>
    (case r of
       Inl e \<Rightarrow> q' = q \<and> pp_refs p' = pp_refs p \<and>
         (m' = m \<or> (\<exists>cp new. copy = Some cp \<and> ss_shared_tail (q, p) \<and> pp_refs p new = 0 \<and>
            m' = snd (cp (last (bt_blocks (ss_table q))) new m)))
     | Inr l \<Rightarrow> ss_token_location (ss_num_tokens q) (q', p') = Inr l \<and>
         (let tail = last (bt_blocks (ss_table q')) in
          tl_physical_block l = h_id tail \<and> pp_refs p' tail = 1 \<and> others tail = 0 \<and>
          (\<forall>i. i div ss_block_size q < ss_num_tokens q div ss_block_size q \<longrightarrow>
             ss_token_location i (q', p') = ss_token_location i (q, p)) \<and>
          (if ss_shared_tail (q, p)
           then pp_refs p tail = 0 \<and> \<not> pp_pub p' tail \<and>
             (\<exists>cp. copy = Some cp \<and> cp (last (bt_blocks (ss_table q))) tail m = (Inr (), m'))
           else m' = m)))"
proof -
  note keeps = ss_cow_effects(1) [OF assms, unfolded pp_keeps_def]
  show ?thesis
  proof (cases r)
    case (Inl e)
    then have *: "ss_inv others (q', p')" "q' = q" using ss_cow_spec [OF assms] by auto
    then have "ss_inv others (q, p')" by simp
    note refs = ss_inv_refs [OF assms(1) this]
    then show ?thesis by (intro conjI keeps) (use * refs Inl ss_cow_effects(2) [OF assms] in simp_all)
  next
    case (Inr l)
    let ?bs = "bt_blocks (ss_table q)" and ?bs' = "bt_blocks (ss_table q')" and ?b = "ss_block_size q"
    have inv': "ss_inv others (q', p')" and l: "ss_num_tokens q' = ss_num_tokens q + 1"
      "ss_block_size q' = ?b" "ss_token_location (ss_num_tokens q) (q', p') = Inr l" "?bs' \<noteq> []"
      "tl_physical_block l = h_id (last ?bs')" "pp_refs p' (last ?bs') = 1"
      using ss_cow_spec [OF assms] Inr by simp_all
    have "count_list ?bs' (last ?bs') = 1" using ss_invD(5) [OF inv'] l(4) by (simp add: count_list_distinct)
    then have "others (last ?bs') = 0"
      using bt_invD(3) [OF ss_invD(1) [OF inv'], of "last ?bs'"] l(6) by simp
    moreover have "ss_token_location i (q', p') = ss_token_location i (q, p)"
      if i: "i div ?b < ss_num_tokens q div ?b" for i
    proof -
      have "i < ss_num_tokens q" using i by (meson div_le_mono linorder_not_less)
      moreover have len: "ss_num_tokens q div ?b \<le> length ?bs"
        using ss_invD(3) [OF assms(1)] by (simp add: ceil_blocks_def)
      have "?bs' ! (i div ?b) = ?bs ! (i div ?b)"
      proof (cases "ss_shared_tail (q, p)")
        case True
        then have "?bs' = butlast ?bs @ [last ?bs']" using ss_cow_spec [OF assms] Inr by auto
        moreover have "i div ?b < length (butlast ?bs)"
          using ss_tail_block(3) [OF assms(1)] True i by (simp add: ss_shared_tail_def)
        ultimately show ?thesis by (metis nth_append nth_butlast)
      next
        case False
        then obtain new where "?bs' = ?bs @ new" using ss_cow_spec [OF assms] Inr by auto
        then show ?thesis using i len by (simp add: nth_append)
      qed
      ultimately show ?thesis
        by (simp add: ss_token_location_ok [OF inv'] ss_token_location_ok [OF assms(1)] l)
    qed
    ultimately show ?thesis by (intro conjI keeps) (use ss_cow_spec [OF assms] Inr in \<open>auto simp: Let_def\<close>)
  qed
qed

text \<open>In the witness the memory is the list of the copies made.\<close>

lemma ss_copy_on_write_isolates_witness:
  "let p = snd demo_fork; q = demo_q;
       copy = Some (\<lambda>old new m. (Inr (), (h_id old, h_id new) # m));
       res = ss_append_token_with_copy (\<lambda>n. False) copy ((q, p), []) in
   ss_shared_tail (q, p) \<and> fst res = Inr \<lparr>tl_physical_block = 2, tl_offset_in_block = 1\<rparr> \<and>
   snd (snd res) = [(1, 2)] \<and>
   pp_refs (snd (fst (snd res))) (last (bt_blocks (ss_table (fst (fst (snd res)))))) = 1"
proof -
  let ?copy = "Some (\<lambda>old new m. (Inr (), (h_id old, h_id new) # m))"
  let ?res = "ss_append_token_with_copy (\<lambda>n. False) ?copy ((demo_q, snd demo_fork), [])"
  obtain f p' where f: "ss_fork_shared (\<lambda>n. False) 2 (demo_q, demo_p) = (Inr f, p')"
    "demo_fork = (Inr f, p')" by (rule demo_fork_ok)
  have f: "ss_inv (\<lambda>h. 0 + count_list (bt_blocks (ss_table f)) h) (demo_q, snd demo_fork)"
    unfolding f(2) snd_conv using ss_fork_spec [OF demo_inv f(1)] by auto
  obtain r q1 p1 m1 where res: "?res = (r, (q1, p1), m1)" by (cases ?res) auto
  have c: "ss_shared_tail (demo_q, snd demo_fork)"
    "fst ?res = Inr \<lparr>tl_physical_block = 2, tl_offset_in_block = 1\<rparr>" "snd (snd ?res) = [(1, 2)]"
    by code_simp+
  then show ?thesis using ss_copy_on_write_isolates [OF f res] res by (simp add: Let_def)
qed

end
