(* ===== verification/Tier.thy ===== *)
theory Tier
  imports Physical_Block_Pool
begin

text \<open>
  \<open>include/kvflux/v3/tier.h\<close>, \<open>src/v3/tier.cpp\<close>: one storage level as a pool of chunk slots.
  The abstract class \<open>Tier\<close> is the locale \<open>chunk_tier\<close>; \<open>SlotTier\<close> (with \<open>CpuTier\<close> and
  \<open>NvmeTier\<close>) and \<open>GpuTier\<close> interpret it, and so does the type \<open>tier\<close>, which is the dynamic
  dispatch of a \<open>Tier*\<close>. The pool a \<open>GpuTier\<close> borrows is a field of its model: the tier is
  its only user.
\<close>

section \<open>Data\<close>

datatype storage_tier = GPU | CPU | NVME | OtherTier int

record tier_location =
  loc_slot :: nat
  loc_generation :: nat

record tier_slot =
  ts_generation :: nat
  ts_free :: bool
  ts_next_free :: nat

record slot_tier =
  sl_kind :: storage_tier
  sl_chunk_bytes :: nat
  sl_slots :: "tier_slot list"
  sl_free_head :: nat
  sl_allocated :: nat

record gpu_tier =
  gt_pool :: physical_block_pool
  gt_chunk_bytes :: nat
  gt_allocated :: nat

section \<open>SlotTier\<close>

definition slot_tier_create :: "storage_tier \<Rightarrow> nat \<Rightarrow> nat \<Rightarrow> slot_tier res" where
  "slot_tier_create kind chunk_slots chunk_bytes =
     (if chunk_slots = 0 \<or> chunk_bytes = 0 then Inl InvalidArgument
      else Inr \<lparr>sl_kind = kind, sl_chunk_bytes = chunk_bytes,
                sl_slots = map (\<lambda>i. \<lparr>ts_generation = 0, ts_free = True,
                                     ts_next_free = (if i + 1 < chunk_slots then i + 1 else none)\<rparr>)
                             [0..<chunk_slots],
                sl_free_head = 0, sl_allocated = 0\<rparr>)"

definition slot_tier_available :: "slot_tier \<Rightarrow> nat" where
  "slot_tier_available t = length (sl_slots t) - sl_allocated t"

definition slot_tier_used_bytes :: "slot_tier \<Rightarrow> nat" where
  "slot_tier_used_bytes t = size_wrap (sl_allocated t * sl_chunk_bytes t)"

definition slot_tier_available_bytes :: "slot_tier \<Rightarrow> nat" where
  "slot_tier_available_bytes t = size_wrap (slot_tier_available t * sl_chunk_bytes t)"

text \<open>
  \<open>allocate\<close> has unlinked the slot and marked it as taken before it looks at the generation.
\<close>

definition slot_tier_allocate :: "slot_tier \<Rightarrow> tier_location res \<times> slot_tier" where
  "slot_tier_allocate t =
     (let i = sl_free_head t in
      if i = none then (Inl CapacityError, t)
      else if i \<ge> length (sl_slots t) then (Inl Undefined, t)
      else
        let s = sl_slots t ! i;
            s1 = s\<lparr>ts_next_free := none, ts_free := False\<rparr>;
            t1 = t\<lparr>sl_free_head := ts_next_free s, sl_slots := (sl_slots t)[i := s1]\<rparr>
        in if ts_generation s1 = u64_max then (Inl OverflowError, t1)
           else
             let s2 = s1\<lparr>ts_generation := ts_generation s1 + 1\<rparr>
             in (Inr \<lparr>loc_slot = i, loc_generation = ts_generation s2\<rparr>,
                 t1\<lparr>sl_slots := (sl_slots t1)[i := s2], sl_allocated := size_inc (sl_allocated t1)\<rparr>))"

definition slot_tier_release :: "tier_location \<Rightarrow> slot_tier \<Rightarrow> unit res \<times> slot_tier" where
  "slot_tier_release l t =
     (if loc_slot l \<ge> length (sl_slots t) \<or>
         ts_generation (sl_slots t ! loc_slot l) \<noteq> loc_generation l
      then (Inl InvalidArgument, t)
      else
        let s = sl_slots t ! loc_slot l in
        if ts_free s then (Inl InvalidArgument, t)
        else (Inr (), t\<lparr>sl_slots := (sl_slots t)[loc_slot l := s\<lparr>ts_free := True, ts_next_free := sl_free_head t\<rparr>],
                        sl_free_head := loc_slot l, sl_allocated := size_dec (sl_allocated t)\<rparr>))"

definition cpu_tier_create :: "nat \<Rightarrow> nat \<Rightarrow> slot_tier res" where
  "cpu_tier_create = slot_tier_create CPU"

definition nvme_tier_create :: "nat \<Rightarrow> nat \<Rightarrow> slot_tier res" where
  "nvme_tier_create = slot_tier_create NVME"

section \<open>GpuTier\<close>

definition gpu_tier_create :: "physical_block_pool \<Rightarrow> nat \<Rightarrow> gpu_tier res" where
  "gpu_tier_create p chunk_bytes =
     (if chunk_bytes = 0 then Inl InvalidArgument
      else Inr \<lparr>gt_pool = p, gt_chunk_bytes = chunk_bytes, gt_allocated = 0\<rparr>)"

definition gpu_tier_capacity :: "gpu_tier \<Rightarrow> nat" where
  "gpu_tier_capacity t = pp_capacity (gt_pool t)"

definition gpu_tier_available :: "gpu_tier \<Rightarrow> nat" where
  "gpu_tier_available t = pp_available (gt_pool t)"

definition gpu_tier_used_bytes :: "gpu_tier \<Rightarrow> nat" where
  "gpu_tier_used_bytes t = size_wrap (gt_allocated t * gt_chunk_bytes t)"

definition gpu_tier_available_bytes :: "gpu_tier \<Rightarrow> nat" where
  "gpu_tier_available_bytes t = size_wrap (gpu_tier_available t * gt_chunk_bytes t)"

definition gpu_tier_allocate :: "gpu_tier \<Rightarrow> tier_location res \<times> gpu_tier" where
  "gpu_tier_allocate t =
     (case pp_allocate (gt_pool t) of
        (Inl e, p) \<Rightarrow> (Inl e, t\<lparr>gt_pool := p\<rparr>)
      | (Inr h, p) \<Rightarrow>
          (bind_res (pp_id h p) (\<lambda>i. Inr \<lparr>loc_slot = i, loc_generation = h_generation h\<rparr>),
           t\<lparr>gt_pool := p, gt_allocated := size_inc (gt_allocated t)\<rparr>))"

definition gpu_tier_release :: "tier_location \<Rightarrow> gpu_tier \<Rightarrow> unit res \<times> gpu_tier" where
  "gpu_tier_release l t =
     (case pp_free \<lparr>h_id = loc_slot l, h_generation = loc_generation l\<rparr> (gt_pool t) of
        (Inl e, p) \<Rightarrow> (Inl e, t\<lparr>gt_pool := p\<rparr>)
      | (Inr u, p) \<Rightarrow> (Inr (), t\<lparr>gt_pool := p, gt_allocated := size_dec (gt_allocated t)\<rparr>))"

section \<open>Dynamic dispatch\<close>

datatype tier = SlotT slot_tier | GpuT gpu_tier

fun tier_kind :: "tier \<Rightarrow> storage_tier" where
  "tier_kind (SlotT t) = sl_kind t"
| "tier_kind (GpuT t) = GPU"

fun tier_chunk_bytes :: "tier \<Rightarrow> nat" where
  "tier_chunk_bytes (SlotT t) = sl_chunk_bytes t"
| "tier_chunk_bytes (GpuT t) = gt_chunk_bytes t"

fun tier_capacity :: "tier \<Rightarrow> nat" where
  "tier_capacity (SlotT t) = length (sl_slots t)"
| "tier_capacity (GpuT t) = gpu_tier_capacity t"

fun tier_allocated_chunks :: "tier \<Rightarrow> nat" where
  "tier_allocated_chunks (SlotT t) = sl_allocated t"
| "tier_allocated_chunks (GpuT t) = gt_allocated t"

fun tier_available :: "tier \<Rightarrow> nat" where
  "tier_available (SlotT t) = slot_tier_available t"
| "tier_available (GpuT t) = gpu_tier_available t"

fun tier_used_bytes :: "tier \<Rightarrow> nat" where
  "tier_used_bytes (SlotT t) = slot_tier_used_bytes t"
| "tier_used_bytes (GpuT t) = gpu_tier_used_bytes t"

fun tier_available_bytes :: "tier \<Rightarrow> nat" where
  "tier_available_bytes (SlotT t) = slot_tier_available_bytes t"
| "tier_available_bytes (GpuT t) = gpu_tier_available_bytes t"

fun tier_allocate :: "tier \<Rightarrow> tier_location res \<times> tier" where
  "tier_allocate (SlotT t) = (case slot_tier_allocate t of (r, t') \<Rightarrow> (r, SlotT t'))"
| "tier_allocate (GpuT t) = (case gpu_tier_allocate t of (r, t') \<Rightarrow> (r, GpuT t'))"

fun tier_release :: "tier_location \<Rightarrow> tier \<Rightarrow> unit res \<times> tier" where
  "tier_release l (SlotT t) = (case slot_tier_release l t of (r, t') \<Rightarrow> (r, SlotT t'))"
| "tier_release l (GpuT t) = (case gpu_tier_release l t of (r, t') \<Rightarrow> (r, GpuT t'))"

section \<open>The interface\<close>

text \<open>
  What the clients of a tier rely on: the live locations are a set that \<open>allocate\<close> extends by
  a new location and \<open>release\<close> shrinks, \<open>count\<close> is its size, and failed calls change nothing.
  The one exception is a slot whose 64-bit generation is used up (\<open>OverflowError\<close>), about
  which \<open>SlotTier\<close> promises nothing.
\<close>

locale chunk_tier =
  fixes inv :: "'t \<Rightarrow> bool"
    and live :: "'t \<Rightarrow> tier_location set"
    and count :: "'t \<Rightarrow> nat"
    and cap :: "'t \<Rightarrow> nat"
    and cfg :: "'t \<Rightarrow> 'c"
    and alloc :: "'t \<Rightarrow> tier_location res \<times> 't"
    and release :: "tier_location \<Rightarrow> 't \<Rightarrow> unit res \<times> 't"
  assumes count_card: "inv t \<Longrightarrow> finite (live t) \<and> card (live t) = count t \<and> count t \<le> cap t"
    and live_slot: "inv t \<Longrightarrow> l \<in> live t \<Longrightarrow> loc_slot l < cap t"
    and slot_unique: "inv t \<Longrightarrow> l \<in> live t \<Longrightarrow> l' \<in> live t \<Longrightarrow> loc_slot l = loc_slot l' \<Longrightarrow> l = l'"
    and alloc_ok: "inv t \<Longrightarrow> alloc t = (Inr l, t') \<Longrightarrow>
      inv t' \<and> l \<notin> live t \<and> live t' = insert l (live t) \<and> cfg t' = cfg t \<and> cap t' = cap t"
    and alloc_err: "inv t \<Longrightarrow> alloc t = (Inl e, t') \<Longrightarrow>
      e = CapacityError \<and> t' = t \<and> count t = cap t \<or> e = OverflowError"
    and release_ok: "inv t \<Longrightarrow> l \<in> live t \<Longrightarrow>
      \<exists>t'. release l t = (Inr (), t') \<and> inv t' \<and> live t' = live t - {l} \<and> cfg t' = cfg t \<and> cap t' = cap t"
    and release_err: "inv t \<Longrightarrow> l \<notin> live t \<Longrightarrow> release l t = (Inl InvalidArgument, t)"
begin

text \<open>A location can be given back exactly once.\<close>

lemma release_twice:
  assumes "inv t" and "release l t = (Inr (), t')"
  shows "l \<in> live t" and "release l t' = (Inl InvalidArgument, t')"
proof -
  show l: "l \<in> live t" using assms release_err by fastforce
  then have "inv t'" "l \<notin> live t'" using release_ok [OF assms(1) l] assms(2) by auto
  then show "release l t' = (Inl InvalidArgument, t')" by (rule release_err)
qed

lemma alloc_release:
  assumes "inv t" and "alloc t = (Inr l, t')"
  shows "\<exists>t''. release l t' = (Inr (), t'') \<and> inv t'' \<and> live t'' = live t \<and> count t'' = count t"
proof -
  note a = alloc_ok [OF assms]
  then obtain t'' where t: "release l t' = (Inr (), t'')" "inv t''" "live t'' = live t' - {l}"
    using release_ok [of t' l] by blast
  then have "live t'' = live t" using a by auto
  then show ?thesis using t count_card [OF assms(1)] count_card [OF t(2)] by auto
qed

lemma full_iff:
  assumes "inv t" and "alloc t = (Inl CapacityError, t')"
  shows "card (live t) = cap t" and "t' = t"
  using alloc_err [OF assms] count_card [OF assms(1)] by auto

end


section \<open>The invariant of a slot tier\<close>

definition slot_rep :: "slot_tier \<Rightarrow> nat list \<Rightarrow> bool" where
  "slot_rep t fl \<longleftrightarrow>
     length (sl_slots t) \<le> none \<and>
     chain (length (sl_slots t)) (\<lambda>i. ts_next_free (sl_slots t ! i)) (sl_free_head t) fl \<and>
     distinct fl \<and> set fl = {i. i < length (sl_slots t) \<and> ts_free (sl_slots t ! i)} \<and>
     sl_allocated t + length fl = length (sl_slots t) \<and>
     (\<forall>s \<in> set (sl_slots t). ts_generation s \<le> u64_max)"

definition slot_inv :: "slot_tier \<Rightarrow> bool" where
  "slot_inv t \<longleftrightarrow> (\<exists>fl. slot_rep t fl)"

definition slot_live :: "slot_tier \<Rightarrow> tier_location set" where
  "slot_live t = {l. loc_slot l < length (sl_slots t) \<and> \<not> ts_free (sl_slots t ! loc_slot l) \<and>
                     ts_generation (sl_slots t ! loc_slot l) = loc_generation l}"

definition slot_cfg :: "slot_tier \<Rightarrow> storage_tier \<times> nat" where
  "slot_cfg t = (sl_kind t, sl_chunk_bytes t)"

lemma location_eqI:
  "loc_slot l = loc_slot l' \<Longrightarrow> loc_generation l = loc_generation l' \<Longrightarrow> l = (l' :: tier_location)"
  by (cases l; cases l') simp

lemma slot_rep_head:
  assumes "slot_rep t fl"
  shows "sl_free_head t = first_or_none fl"
  using assms chain_head unfolding slot_rep_def by blast

lemma slot_rep_card:
  assumes "slot_rep t fl"
  shows "finite (slot_live t) \<and> card (slot_live t) = sl_allocated t"
proof -
  let ?n = "length (sl_slots t)"
  let ?loc = "\<lambda>i. \<lparr>loc_slot = i, loc_generation = ts_generation (sl_slots t ! i)\<rparr>"
  have "l \<in> ?loc ` ({..<?n} - set fl)" if "l \<in> slot_live t" for l
    using that assms
    by (intro image_eqI [where x = "loc_slot l"]) (auto simp: slot_live_def slot_rep_def intro: location_eqI)
  then have eq: "slot_live t = ?loc ` ({..<?n} - set fl)"
    using assms by (auto simp: slot_live_def slot_rep_def)
  have "inj_on ?loc ({..<?n} - set fl)" by (rule inj_onI) simp
  then have "card (slot_live t) = card ({..<?n} - set fl)" unfolding eq by (rule card_image)
  also have "\<dots> = ?n - length fl"
  proof -
    have "set fl \<subseteq> {..<?n}" "distinct fl" using assms unfolding slot_rep_def by auto
    then have "set fl \<subseteq> {..<?n}" "card (set fl) = length fl" by (simp_all only: distinct_card)
    then show ?thesis by (simp add: card_Diff_subset)
  qed
  finally have "card (slot_live t) = ?n - length fl" .
  moreover have "sl_allocated t + length fl = ?n" using assms unfolding slot_rep_def by blast
  moreover have "finite (slot_live t)" unfolding eq by simp
  ultimately show ?thesis by linarith
qed

lemma slot_create_inv:
  assumes "slot_tier_create kind n bytes = Inr t" and "n \<le> none"
  shows "slot_inv t \<and> slot_live t = {} \<and> sl_allocated t = 0 \<and> length (sl_slots t) = n \<and>
         slot_cfg t = (kind, bytes) \<and> 0 < n \<and> 0 < bytes"
proof -
  let ?s = "\<lambda>i. \<lparr>ts_generation = 0, ts_free = True, ts_next_free = (if i + 1 < n then i + 1 else none)\<rparr>"
  have n: "0 < n" "0 < bytes" and t: "t = \<lparr>sl_kind = kind, sl_chunk_bytes = bytes,
      sl_slots = map ?s [0..<n], sl_free_head = 0, sl_allocated = 0\<rparr>"
    using assms(1) unfolding slot_tier_create_def by (simp_all split: if_splits)
  have "chain n (\<lambda>i. ts_next_free (?s i)) (if 0 < n then 0 else none) [0..<n]"
    by (rule chain_upto) simp_all
  moreover have "chain n (\<lambda>i. ts_next_free (map ?s [0..<n] ! i)) 0 [0..<n] =
      chain n (\<lambda>i. ts_next_free (?s i)) 0 [0..<n]"
    by (rule chain_cong) simp
  ultimately have "slot_rep t [0..<n]"
    using n assms(2) by (auto simp: slot_rep_def t)
  then show ?thesis using n by (auto simp: slot_inv_def slot_live_def slot_cfg_def t)
qed

text \<open>The three outcomes of \<open>allocate\<close>.\<close>

lemma slot_allocate_cases:
  assumes "slot_rep t fl"
  obtains (full) "fl = []" and "slot_tier_allocate t = (Inl CapacityError, t)"
  | (exhausted) i fl' where "fl = i # fl'" and "ts_generation (sl_slots t ! i) = u64_max"
      and "slot_tier_allocate t = (Inl OverflowError,
        t\<lparr>sl_free_head := ts_next_free (sl_slots t ! i),
          sl_slots := (sl_slots t)[i := (sl_slots t ! i)\<lparr>ts_next_free := none, ts_free := False\<rparr>]\<rparr>)"
  | (ok) i fl' where "fl = i # fl'" and "ts_generation (sl_slots t ! i) < u64_max"
      and "slot_tier_allocate t = (Inr \<lparr>loc_slot = i, loc_generation = ts_generation (sl_slots t ! i) + 1\<rparr>,
        t\<lparr>sl_free_head := ts_next_free (sl_slots t ! i),
          sl_slots := (sl_slots t)[i := \<lparr>ts_generation = ts_generation (sl_slots t ! i) + 1,
                                        ts_free = False, ts_next_free = none\<rparr>],
          sl_allocated := sl_allocated t + 1\<rparr>)"
proof (cases fl)
  case Nil
  then show ?thesis using full slot_rep_head [OF assms] by (simp add: slot_tier_allocate_def)
next
  case (Cons i fl')
  then have i: "sl_free_head t = i" "i < length (sl_slots t)" and n: "length (sl_slots t) \<le> none"
    and a: "sl_allocated t < length (sl_slots t)" and g: "ts_generation (sl_slots t ! i) \<le> u64_max"
    using assms by (auto simp: slot_rep_def)
  then have neq: "i \<noteq> none" "sl_allocated t \<noteq> size_max" by (simp_all add: none_def)
  obtain gen fr nx where s: "sl_slots t ! i = \<lparr>ts_generation = gen, ts_free = fr, ts_next_free = nx\<rparr>"
    by (cases "sl_slots t ! i") auto
  show ?thesis
  proof (cases "ts_generation (sl_slots t ! i) = u64_max")
    case True
    then show ?thesis
      using exhausted [OF Cons True] i neq by (simp add: slot_tier_allocate_def Let_def)
  next
    case False
    then have "ts_generation (sl_slots t ! i) < u64_max" using g by simp
    from ok [OF Cons this] show ?thesis
      using i neq False s by (simp add: slot_tier_allocate_def Let_def size_inc_def)
  qed
qed

lemma slot_allocate_ok:
  assumes rep: "slot_rep t fl" and a: "slot_tier_allocate t = (Inr l, t')"
  shows "\<exists>fl'. slot_rep t' fl' \<and> l \<notin> slot_live t \<and> slot_live t' = insert l (slot_live t) \<and>
    slot_cfg t' = slot_cfg t \<and> length (sl_slots t') = length (sl_slots t)"
  using rep
proof (cases rule: slot_allocate_cases)
  case (ok i fl')
  let ?s = "\<lparr>ts_generation = ts_generation (sl_slots t ! i) + 1, ts_free = False, ts_next_free = none\<rparr>"
  have l: "l = \<lparr>loc_slot = i, loc_generation = ts_generation ?s\<rparr>"
    and t': "t' = t\<lparr>sl_free_head := ts_next_free (sl_slots t ! i),
      sl_slots := (sl_slots t)[i := ?s], sl_allocated := sl_allocated t + 1\<rparr>"
    using a ok(3) by simp_all
  have i: "i < length (sl_slots t)" "ts_free (sl_slots t ! i)" "i \<notin> set fl'"
    and c: "chain (length (sl_slots t)) (\<lambda>j. ts_next_free (sl_slots t ! j)) (ts_next_free (sl_slots t ! i)) fl'"
    using rep ok(1) by (auto simp: slot_rep_def)
  have "chain (length (sl_slots t)) (\<lambda>j. ts_next_free ((sl_slots t)[i := ?s] ! j)) (ts_next_free (sl_slots t ! i)) fl'"
    using c i by (subst chain_cong [where nxt' = "\<lambda>j. ts_next_free (sl_slots t ! j)"])
      (auto simp: nth_list_update)
  moreover have "set fl' = {j. j < length (sl_slots t) \<and> ts_free ((sl_slots t)[i := ?s] ! j)}"
  proof -
    have "set fl' = set fl - {i}" using ok(1) i(3) by simp
    then show ?thesis using rep i(1) by (auto simp: slot_rep_def nth_list_update)
  qed
  ultimately have "slot_rep t' fl'"
    using rep ok(1,2) by (auto simp: slot_rep_def t' dest!: set_update_subset_insert [THEN subsetD])
  moreover have "l \<notin> slot_live t" using i by (simp add: slot_live_def l)
  moreover have "slot_live t' = insert l (slot_live t)"
    using i by (auto simp: slot_live_def t' l nth_list_update intro: location_eqI split: if_splits)
  ultimately show ?thesis by (auto simp: slot_cfg_def t')
qed (use a in simp_all)

lemma slot_release_ok:
  assumes rep: "slot_rep t fl" and l: "l \<in> slot_live t"
  obtains t' where "slot_tier_release l t = (Inr (), t')" and "slot_rep t' (loc_slot l # fl)"
    and "slot_live t' = slot_live t - {l}" and "slot_cfg t' = slot_cfg t"
    and "length (sl_slots t') = length (sl_slots t)"
proof -
  let ?i = "loc_slot l" and ?n = "length (sl_slots t)"
  define ss where "ss = (sl_slots t)[?i := (sl_slots t ! ?i)\<lparr>ts_free := True, ts_next_free := sl_free_head t\<rparr>]"
  let ?t = "t\<lparr>sl_slots := ss, sl_free_head := ?i, sl_allocated := sl_allocated t - 1\<rparr>"
  have i: "?i < ?n" "\<not> ts_free (sl_slots t ! ?i)" "ts_generation (sl_slots t ! ?i) = loc_generation l"
    using l by (auto simp: slot_live_def)
  have ss: "ss ! j = (if j = ?i then (sl_slots t ! ?i)\<lparr>ts_free := True, ts_next_free := sl_free_head t\<rparr>
      else sl_slots t ! j)" for j
    using i(1) by (simp add: ss_def nth_list_update)
  have len: "length ss = ?n" by (simp add: ss_def)
  have notin: "?i \<notin> set fl" using rep i by (simp add: slot_rep_def)
  have pos: "0 < sl_allocated t"
    using slot_rep_card [OF rep] l by (metis card_gt_0_iff empty_iff)
  then have released: "slot_tier_release l t = (Inr (), ?t)"
    using i by (simp add: slot_tier_release_def Let_def size_dec_def ss_def)
  have "chain ?n (\<lambda>j. ts_next_free (ss ! j)) (sl_free_head t) fl"
  proof -
    have "ts_next_free (ss ! j) = ts_next_free (sl_slots t ! j)" if "j \<in> set fl" for j
      using that notin by (auto simp: ss)
    moreover have "chain ?n (\<lambda>j. ts_next_free (sl_slots t ! j)) (sl_free_head t) fl"
      using rep by (simp only: slot_rep_def)
    ultimately show ?thesis using chain_cong [of fl "\<lambda>j. ts_next_free (ss ! j)" "\<lambda>j. ts_next_free (sl_slots t ! j)"] by simp
  qed
  then have "chain (length ss) (\<lambda>j. ts_next_free (ss ! j)) ?i (?i # fl)"
    using i(1) by (simp add: ss len)
  moreover have "set (?i # fl) = {j. j < length ss \<and> ts_free (ss ! j)}"
    using rep i(1,2) by (auto simp: slot_rep_def ss len)
  moreover have "\<forall>s \<in> set ss. ts_generation s \<le> u64_max"
    using rep nth_mem [OF i(1)] by (auto simp: slot_rep_def ss_def dest!: set_update_subset_insert [THEN subsetD])
  moreover have "distinct (?i # fl)" "length ss \<le> none" "sl_allocated t - 1 + length (?i # fl) = length ss"
    using rep notin pos len unfolding slot_rep_def by auto
  ultimately have rep': "slot_rep ?t (?i # fl)" unfolding slot_rep_def by simp
  have "slot_live ?t = slot_live t - {l}"
    using i by (auto simp: slot_live_def ss len intro: location_eqI split: if_splits)
  then show ?thesis using that [OF released rep'] len by (simp add: slot_cfg_def)
qed

interpretation slot: chunk_tier slot_inv slot_live sl_allocated "\<lambda>t. length (sl_slots t)" slot_cfg
  slot_tier_allocate slot_tier_release
proof unfold_locales
  fix t t' l l' e
  assume inv: "slot_inv t"
  then obtain fl where rep: "slot_rep t fl" by (auto simp: slot_inv_def)
  show "finite (slot_live t) \<and> card (slot_live t) = sl_allocated t \<and> sl_allocated t \<le> length (sl_slots t)"
    using slot_rep_card [OF rep] rep by (auto simp: slot_rep_def)
  show "loc_slot l < length (sl_slots t)" if "l \<in> slot_live t"
    using that by (simp add: slot_live_def)
  show "l = l'" if "l \<in> slot_live t" "l' \<in> slot_live t" "loc_slot l = loc_slot l'"
    using that by (auto simp: slot_live_def intro: location_eqI)
  show "slot_inv t' \<and> l \<notin> slot_live t \<and> slot_live t' = insert l (slot_live t) \<and>
      slot_cfg t' = slot_cfg t \<and> length (sl_slots t') = length (sl_slots t)"
    if "slot_tier_allocate t = (Inr l, t')"
    using slot_allocate_ok [OF rep that] by (auto simp: slot_inv_def)
  show "e = CapacityError \<and> t' = t \<and> sl_allocated t = length (sl_slots t) \<or> e = OverflowError"
    if a: "slot_tier_allocate t = (Inl e, t')"
    using rep by (cases rule: slot_allocate_cases) (use a rep in \<open>auto simp: slot_rep_def\<close>)
  show "\<exists>t'. slot_tier_release l t = (Inr (), t') \<and> slot_inv t' \<and> slot_live t' = slot_live t - {l} \<and>
      slot_cfg t' = slot_cfg t \<and> length (sl_slots t') = length (sl_slots t)"
    if "l \<in> slot_live t"
    using slot_release_ok [OF rep that] by (metis slot_inv_def)
  show "slot_tier_release l t = (Inl InvalidArgument, t)" if "l \<notin> slot_live t"
    using that by (auto simp: slot_tier_release_def slot_live_def Let_def)
qed


section \<open>The invariant of a GPU tier\<close>

definition gpu_live :: "gpu_tier \<Rightarrow> tier_location set" where
  "gpu_live t = {l. 0 < pp_refs (gt_pool t) \<lparr>h_id = loc_slot l, h_generation = loc_generation l\<rparr>}"

definition gpu_inv :: "gpu_tier \<Rightarrow> bool" where
  "gpu_inv t \<longleftrightarrow> pp_inv (gt_pool t) \<and> (\<forall>h. pp_refs (gt_pool t) h \<le> 1) \<and> gt_allocated t = card (gpu_live t)"

definition gpu_cfg :: "gpu_tier \<Rightarrow> storage_tier \<times> nat" where
  "gpu_cfg t = (GPU, gt_chunk_bytes t)"

lemma gpu_live_card:
  "finite (gpu_live t)" "card (gpu_live t) = st_active (bm_stats (pp_manager (gt_pool t)))"
proof -
  let ?sl = "bm_slots (pp_manager (gt_pool t))"
  let ?loc = "\<lambda>i. \<lparr>loc_slot = i, loc_generation = s_generation (?sl ! i)\<rparr>"
  let ?A = "{i. i < length ?sl \<and> \<not> s_free (?sl ! i) \<and> s_refs (?sl ! i) \<noteq> 0}"
  have "l \<in> ?loc ` ?A" if "l \<in> gpu_live t" for l
    using that by (intro image_eqI [where x = "loc_slot l"])
      (auto simp: gpu_live_def bm_refs_def bm_live_def intro: location_eqI split: if_splits)
  then have eq: "gpu_live t = ?loc ` ?A"
    by (auto simp: gpu_live_def bm_refs_def bm_live_def)
  have "inj_on ?loc ?A" by (rule inj_onI) simp
  then have "card (gpu_live t) = card ?A" unfolding eq by (rule card_image)
  then show "card (gpu_live t) = st_active (bm_stats (pp_manager (gt_pool t)))"
    by (simp add: bm_stats_count length_filter_conv_card)
  show "finite (gpu_live t)" unfolding eq by simp
qed

lemma gpu_capacity_split:
  assumes "gpu_inv t"
  shows "gpu_tier_available t + gt_allocated t = gpu_tier_capacity t"
proof -
  obtain fl il where rep: "bm_rep (pp_manager (gt_pool t)) fl il"
    using assms by (auto simp: gpu_inv_def bm_inv_def)
  then show ?thesis
    using bm_stats_rep [OF rep] pp_available_rep [OF rep] assms gpu_live_card [of t]
    by (simp add: gpu_tier_available_def gpu_tier_capacity_def pp_capacity_def gpu_inv_def)
qed

lemma gpu_create_inv:
  assumes "pp_create capacity block_size (Some f) = Inr p" and "gpu_tier_create p bytes = Inr t"
    and "capacity \<le> none"
  shows "gpu_inv t \<and> gpu_live t = {} \<and> gt_allocated t = 0 \<and> gpu_tier_capacity t = capacity \<and>
         gpu_cfg t = (GPU, bytes)"
proof -
  obtain m where m: "bm_create capacity block_size (Some f) = Inr m" and p: "pp_manager p = m"
    using assms(1) by (auto simp: pp_create_def bind_res_Inr_iff)
  have t: "t = \<lparr>gt_pool = p, gt_chunk_bytes = bytes, gt_allocated = 0\<rparr>"
    using assms(2) unfolding gpu_tier_create_def by (simp split: if_splits)
  show ?thesis
    using bm_create_inv [OF m assms(3)] p
    by (simp add: t gpu_inv_def gpu_live_def gpu_cfg_def gpu_tier_capacity_def pp_capacity_def bm_config_def)
qed

lemma pp_alloc_capacity: "pp_config p' = pp_config p \<Longrightarrow> pp_capacity p' = pp_capacity p"
  by (simp add: bm_config_def pp_capacity_def)

lemma handle_location_neq:
  "\<lparr>h_id = loc_slot l, h_generation = loc_generation l\<rparr> = h \<longleftrightarrow>
   l = \<lparr>loc_slot = h_id h, loc_generation = h_generation h\<rparr>"
  by (cases l; cases h) auto

text \<open>With at most one reference per page a live location determines the page's reference count.\<close>

lemma gpu_allocate_ok:
  assumes inv: "gpu_inv t" and a: "gpu_tier_allocate t = (Inr l, t')"
  shows "gpu_inv t' \<and> l \<notin> gpu_live t \<and> gpu_live t' = insert l (gpu_live t) \<and>
         gpu_cfg t' = gpu_cfg t \<and> gpu_tier_capacity t' = gpu_tier_capacity t"
proof -
  from a obtain h p where h: "pp_allocate (gt_pool t) = (Inr h, p)"
    and l: "bind_res (pp_id h p) (\<lambda>i. Inr \<lparr>loc_slot = i, loc_generation = h_generation h\<rparr>) = Inr l"
    and t': "t' = t\<lparr>gt_pool := p, gt_allocated := size_inc (gt_allocated t)\<rparr>"
    by (auto simp: gpu_tier_allocate_def split: prod.splits sum.splits)
  have pinv: "pp_inv (gt_pool t)" using inv by (simp add: gpu_inv_def)
  note ok = pp.alloc_ok [OF pinv h]
  have l: "l = \<lparr>loc_slot = h_id h, loc_generation = h_generation h\<rparr>"
    using l ok by (simp add: pp_id_cases)
  have hl: "\<lparr>h_id = loc_slot l, h_generation = loc_generation l\<rparr> = h" by (simp add: l)
  have notin: "l \<notin> gpu_live t" using ok by (simp add: gpu_live_def hl)
  have live: "gpu_live t' = insert l (gpu_live t)"
    using ok by (auto simp: gpu_live_def t' handle_location_neq l)
  have "gt_allocated t < gpu_tier_capacity t"
    using gpu_capacity_split [OF inv] pp_allocate_available(1) [OF pinv h]
    by (simp add: gpu_tier_available_def)
  moreover have "gpu_tier_capacity t \<le> none"
    using pinv by (auto simp: gpu_tier_capacity_def pp_capacity_def bm_capacity_def bm_inv_def bm_rep_def)
  ultimately have "gt_allocated t' = gt_allocated t + 1"
    by (simp add: t' size_inc_def none_def)
  moreover have "card (gpu_live t') = card (gpu_live t) + 1"
    using live notin gpu_live_card(1) [of t] by simp
  moreover have "pp_refs (gt_pool t') g \<le> 1" for g
    using inv ok by (simp add: gpu_inv_def t')
  moreover have "pp_inv (gt_pool t')" "gt_allocated t = card (gpu_live t)"
    using inv ok by (simp_all add: gpu_inv_def t')
  ultimately have "gpu_inv t'" unfolding gpu_inv_def by simp
  then show ?thesis
    using notin live pp_alloc_capacity [of p "gt_pool t"] ok
    by (simp add: gpu_cfg_def t' gpu_tier_capacity_def)
qed

lemma gpu_release_ok:
  assumes inv: "gpu_inv t" and l: "l \<in> gpu_live t"
  shows "\<exists>t'. gpu_tier_release l t = (Inr (), t') \<and> gpu_inv t' \<and> gpu_live t' = gpu_live t - {l} \<and>
    gpu_cfg t' = gpu_cfg t \<and> gpu_tier_capacity t' = gpu_tier_capacity t"
proof -
  let ?h = "\<lparr>h_id = loc_slot l, h_generation = loc_generation l\<rparr>"
  have pinv: "pp_inv (gt_pool t)" using inv by (simp add: gpu_inv_def)
  have one: "pp_refs (gt_pool t) ?h = 1"
  proof -
    have "pp_refs (gt_pool t) ?h \<le> 1" using inv unfolding gpu_inv_def by blast
    moreover have "0 < pp_refs (gt_pool t) ?h" using l by (simp add: gpu_live_def)
    ultimately show ?thesis by linarith
  qed
  then obtain p where f: "pp_free ?h (gt_pool t) = (Inr (), p)" using pp.free_total [OF pinv, of ?h] by auto
  note ok = pp.free_ok [OF pinv f]
  let ?t = "t\<lparr>gt_pool := p, gt_allocated := size_dec (gt_allocated t)\<rparr>"
  have live: "gpu_live ?t = gpu_live t - {l}"
    using ok one by (auto simp: gpu_live_def intro: location_eqI split: if_splits)
  have "gt_allocated t \<noteq> 0" using inv l gpu_live_card(1) [of t] by (auto simp: gpu_inv_def)
  then have "gt_allocated ?t = gt_allocated t - 1" by (simp add: size_dec_def)
  moreover have "card (gpu_live ?t) = card (gpu_live t) - 1"
    unfolding live using l gpu_live_card(1) [of t] by simp
  moreover have "pp_refs (gt_pool ?t) g \<le> 1" for g
    using inv ok by (simp add: gpu_inv_def)
  moreover have "pp_inv (gt_pool ?t)" "gt_allocated t = card (gpu_live t)"
    using inv ok by (simp_all add: gpu_inv_def)
  ultimately have "gpu_inv ?t" unfolding gpu_inv_def by simp
  then show ?thesis
    using f live pp_alloc_capacity [of p "gt_pool t"] ok
    by (simp add: gpu_tier_release_def gpu_cfg_def gpu_tier_capacity_def)
qed

interpretation gpu: chunk_tier gpu_inv gpu_live gt_allocated gpu_tier_capacity gpu_cfg
  gpu_tier_allocate gpu_tier_release
proof unfold_locales
  fix t t' l l' e
  assume inv: "gpu_inv t"
  then have pinv: "pp_inv (gt_pool t)" by (simp add: gpu_inv_def)
  show "finite (gpu_live t) \<and> card (gpu_live t) = gt_allocated t \<and> gt_allocated t \<le> gpu_tier_capacity t"
    using inv gpu_live_card(1) gpu_capacity_split [OF inv] by (simp add: gpu_inv_def)
  show "loc_slot l < gpu_tier_capacity t" if "l \<in> gpu_live t"
    using that by (auto simp: gpu_live_def bm_refs_def bm_live_def gpu_tier_capacity_def pp_capacity_def
        bm_capacity_def split: if_splits)
  show "l = l'" if "l \<in> gpu_live t" "l' \<in> gpu_live t" "loc_slot l = loc_slot l'"
    using that by (auto simp: gpu_live_def bm_refs_def bm_live_def intro: location_eqI split: if_splits)
  show "gpu_inv t' \<and> l \<notin> gpu_live t \<and> gpu_live t' = insert l (gpu_live t) \<and> gpu_cfg t' = gpu_cfg t \<and>
      gpu_tier_capacity t' = gpu_tier_capacity t" if "gpu_tier_allocate t = (Inr l, t')"
    using gpu_allocate_ok [OF inv that] .
  show "e = CapacityError \<and> t' = t \<and> gt_allocated t = gpu_tier_capacity t \<or> e = OverflowError"
    if a: "gpu_tier_allocate t = (Inl e, t')"
  proof (cases "pp_allocate (gt_pool t)")
    case (Pair r p)
    show ?thesis
    proof (cases r)
      case (Inl e')
      then show ?thesis
        using Pair a pp_allocate_available(2) [OF pinv, of e' p] gpu_capacity_split [OF inv]
        by (auto simp: gpu_tier_allocate_def gpu_tier_available_def)
    next
      case (Inr h)
      then show ?thesis
        using Pair a pp.alloc_ok [OF pinv, of h p] by (simp add: gpu_tier_allocate_def pp_id_cases)
    qed
  qed
  show "\<exists>t'. gpu_tier_release l t = (Inr (), t') \<and> gpu_inv t' \<and> gpu_live t' = gpu_live t - {l} \<and>
      gpu_cfg t' = gpu_cfg t \<and> gpu_tier_capacity t' = gpu_tier_capacity t" if "l \<in> gpu_live t"
    using gpu_release_ok [OF inv that] .
  show "gpu_tier_release l t = (Inl InvalidArgument, t)" if "l \<notin> gpu_live t"
  proof -
    have "pp_free \<lparr>h_id = loc_slot l, h_generation = loc_generation l\<rparr> (gt_pool t) =
        (Inl InvalidArgument, gt_pool t)"
      using that bm_release_fails by (simp add: gpu_live_def pp_free_def pp_call_iff)
    then show ?thesis by (simp add: gpu_tier_release_def)
  qed
qed

section \<open>A tier behind its base class\<close>

fun tier_inv :: "tier \<Rightarrow> bool" where
  "tier_inv (SlotT t) = slot_inv t"
| "tier_inv (GpuT t) = gpu_inv t"

fun tier_live :: "tier \<Rightarrow> tier_location set" where
  "tier_live (SlotT t) = slot_live t"
| "tier_live (GpuT t) = gpu_live t"

definition tier_cfg :: "tier \<Rightarrow> storage_tier \<times> nat" where
  "tier_cfg t = (tier_kind t, tier_chunk_bytes t)"

lemma tier_cfg_simps:
  "tier_cfg (SlotT s) = slot_cfg s" "tier_cfg (GpuT g) = gpu_cfg g"
  by (simp_all add: tier_cfg_def slot_cfg_def gpu_cfg_def)

lemma dispatch_iff:
  "(case m of (r, t) \<Rightarrow> (r, SlotT t)) = (r', x) \<longleftrightarrow> (\<exists>t. m = (r', t) \<and> x = SlotT t)"
  "(case n of (r, t) \<Rightarrow> (r, GpuT t)) = (r', x) \<longleftrightarrow> (\<exists>t. n = (r', t) \<and> x = GpuT t)"
  by (auto split: prod.splits)

interpretation tier: chunk_tier tier_inv tier_live tier_allocated_chunks tier_capacity tier_cfg
  tier_allocate tier_release
proof unfold_locales
  fix t t' l l' e
  assume inv: "tier_inv t"
  show "finite (tier_live t) \<and> card (tier_live t) = tier_allocated_chunks t \<and>
      tier_allocated_chunks t \<le> tier_capacity t"
    using inv slot.count_card gpu.count_card by (cases t) simp_all
  show "loc_slot l < tier_capacity t" if "l \<in> tier_live t"
    using inv that slot.live_slot gpu.live_slot by (cases t) auto
  show "l = l'" if "l \<in> tier_live t" "l' \<in> tier_live t" "loc_slot l = loc_slot l'"
    using inv that slot.slot_unique gpu.slot_unique by (cases t) auto
  show "tier_inv t' \<and> l \<notin> tier_live t \<and> tier_live t' = insert l (tier_live t) \<and> tier_cfg t' = tier_cfg t \<and>
      tier_capacity t' = tier_capacity t" if "tier_allocate t = (Inr l, t')"
    using inv that by (cases t) (auto simp: dispatch_iff tier_cfg_simps dest: slot.alloc_ok gpu.alloc_ok)
  show "e = CapacityError \<and> t' = t \<and> tier_allocated_chunks t = tier_capacity t \<or> e = OverflowError"
    if "tier_allocate t = (Inl e, t')"
    using inv that by (cases t) (auto simp: dispatch_iff dest: slot.alloc_err gpu.alloc_err)
  show "\<exists>t'. tier_release l t = (Inr (), t') \<and> tier_inv t' \<and> tier_live t' = tier_live t - {l} \<and>
      tier_cfg t' = tier_cfg t \<and> tier_capacity t' = tier_capacity t" if l: "l \<in> tier_live t"
  proof (cases t)
    case (SlotT s)
    then show ?thesis using slot.release_ok [of s l] inv l by (force simp: tier_cfg_simps)
  next
    case (GpuT g)
    then show ?thesis using gpu.release_ok [of g l] inv l by (force simp: tier_cfg_simps)
  qed
  show "tier_release l t = (Inl InvalidArgument, t)" if "l \<notin> tier_live t"
    using inv that slot.release_err gpu.release_err by (cases t) auto
qed


text \<open>
  When \<open>allocate\<close> throws \<open>OverflowError\<close>, some slot has used up its generations and the tier is
  not full.
\<close>

fun tier_worn :: "tier \<Rightarrow> bool" where
  "tier_worn (SlotT t) \<longleftrightarrow> (\<exists>x \<in> set (sl_slots t). ts_generation x = u64_max)"
| "tier_worn (GpuT t) \<longleftrightarrow> (\<exists>x \<in> set (bm_slots (pp_manager (gt_pool t))). s_generation x = u64_max)"

lemma slot_allocate_err:
  assumes "slot_inv t" and "slot_tier_allocate t = (Inl e, t')"
  shows "if sl_allocated t = length (sl_slots t) then e = CapacityError \<and> t' = t
    else e = OverflowError \<and> tier_worn (SlotT t)"
proof -
  obtain fl where rep: "slot_rep t fl" using assms(1) by (auto simp: slot_inv_def)
  have len: "sl_allocated t + length fl = length (sl_slots t)" and lt: "set fl \<subseteq> {..<length (sl_slots t)}"
    using rep by (auto simp: slot_rep_def)
  from rep show ?thesis
  proof (cases rule: slot_allocate_cases)
    case full
    then show ?thesis using assms(2) len by simp
  next
    case (exhausted i fl')
    then have "i < length (sl_slots t)" "sl_allocated t \<noteq> length (sl_slots t)" using lt len by auto
    then show ?thesis using exhausted assms(2) by (auto intro!: bexI [of _ "sl_slots t ! i"])
  qed (use assms(2) in simp)
qed

lemma gpu_allocate_err:
  assumes inv: "gpu_inv t" and a: "gpu_tier_allocate t = (Inl e, t')"
  shows "t' = t \<and> (if gt_allocated t = gpu_tier_capacity t then e = CapacityError
    else e = OverflowError \<and> tier_worn (GpuT t))"
proof -
  have pinv: "pp_inv (gt_pool t)" using inv by (simp add: gpu_inv_def)
  have p: "\<exists>p. pp_allocate (gt_pool t) = (Inl e, p) \<and> t' = t\<lparr>gt_pool := p\<rparr>"
  proof (cases "pp_allocate (gt_pool t)")
    case (Pair r p)
    then show ?thesis using a pp.alloc_ok [OF pinv, of _ p]
      by (cases r) (auto simp: gpu_tier_allocate_def pp_id_cases bind_res_Inl_iff)
  qed
  then have al: "pp_allocate (gt_pool t) = (Inl e, gt_pool t)" and t': "t' = t"
    using pp_allocate_available(2) [OF pinv] by auto
  have av: "e = CapacityError \<and> gt_allocated t = gpu_tier_capacity t \<or>
      e = OverflowError \<and> gt_allocated t \<noteq> gpu_tier_capacity t"
    using pp_allocate_available(2) [OF pinv al] gpu_capacity_split [OF inv]
    by (auto simp: gpu_tier_available_def)
  have "tier_worn (GpuT t)" if "e = OverflowError"
  proof -
    obtain fl il where rep: "bm_rep (pp_manager (gt_pool t)) fl il" using pinv by (auto simp: bm_inv_def)
    then show ?thesis
    proof (cases rule: bm_allocate_cases)
      case (exhausted i)
      then have "i \<in> set fl \<or> i \<in> set il" by (metis hd_in_set Un_iff set_append)
      then have "i < length (bm_slots (pp_manager (gt_pool t)))"
        using free_okD(1) [OF bm_repD(4) [OF rep]] idle_okD(1) [OF bm_repD(5) [OF rep]] by blast
      then show ?thesis using exhausted(3) by (auto intro!: bexI [of _ "bm_slots (pp_manager (gt_pool t)) ! i"])
    qed (use al that in \<open>auto simp: pp_allocate_def pp_call_iff\<close>)
  qed
  then show ?thesis using av t' by auto
qed

lemma tier_allocate_err:
  assumes "tier_inv t" and "tier_allocate t = (Inl e, t')"
  shows "if tier_allocated_chunks t = tier_capacity t then e = CapacityError \<and> t' = t
    else e = OverflowError \<and> tier_worn t \<and> (\<forall>g. t = GpuT g \<longrightarrow> t' = t)"
proof (cases t)
  case (SlotT s)
  then obtain s' where "slot_tier_allocate s = (Inl e, s')" "t' = SlotT s'" using assms by (auto simp: dispatch_iff)
  then show ?thesis using slot_allocate_err [of s e s'] assms(1) SlotT by (simp split: if_splits)
next
  case (GpuT g)
  then obtain g' where "gpu_tier_allocate g = (Inl e, g')" "t' = GpuT g'" using assms by (auto simp: dispatch_iff)
  then show ?thesis using gpu_allocate_err [of g e g'] assms(1) GpuT by (simp split: if_splits)
qed

section \<open>Properties\<close>

text \<open>The contract is met from the start: both constructors establish the invariant.\<close>

definition demo_tier :: tier where
  "demo_tier = (case cpu_tier_create 2 64 of Inr t \<Rightarrow> SlotT t)"

lemma demo_tier_inv: "tier_inv demo_tier \<and> tier_live demo_tier = {}"
proof -
  obtain t where t: "slot_tier_create CPU 2 64 = Inr t" by (auto simp: slot_tier_create_def)
  then show ?thesis using slot_create_inv [OF t] by (simp add: demo_tier_def cpu_tier_create_def none_eq)
qed

text \<open>C14: A tier hands out each location once and takes it back once: \<open>allocate\<close> returns a
  location that was not live and adds exactly it; a full tier throws \<open>CapacityError\<close> and changes
  nothing; a tier that is not full fails only with \<open>OverflowError\<close>, which needs a slot with a
  used-up 64-bit generation and leaves a \<open>GpuTier\<close> unchanged (what it does to a \<open>SlotTier\<close> is
  the next property); \<open>release\<close> succeeds exactly on the live locations, removes exactly the one
  given, and rejects it from then on.\<close>

theorem tier_contract:
  assumes "tier_inv t"
  shows "(case tier_allocate t of
      (Inr l, t') \<Rightarrow> tier_inv t' \<and> l \<notin> tier_live t \<and> tier_live t' = insert l (tier_live t) \<and>
        tier_allocated_chunks t' = tier_allocated_chunks t + 1 \<and> tier_allocated_chunks t < tier_capacity t
    | (Inl e, t') \<Rightarrow>
        if tier_allocated_chunks t = tier_capacity t then e = CapacityError \<and> t' = t
        else e = OverflowError \<and> tier_worn t \<and> (\<forall>b. t = GpuT b \<longrightarrow> t' = t)) \<and>
   (case tier_release g t of
      (Inr u, t') \<Rightarrow> tier_inv t' \<and> g \<in> tier_live t \<and> tier_live t' = tier_live t - {g} \<and>
        tier_allocated_chunks t' = tier_allocated_chunks t - 1 \<and>
        tier_release g t' = (Inl InvalidArgument, t')
    | (Inl e, t') \<Rightarrow> e = InvalidArgument \<and> t' = t \<and> g \<notin> tier_live t)"
proof (rule conjI)
  note card = tier.count_card [OF assms]
  obtain r t1 where a: "tier_allocate t = (r, t1)" by (cases "tier_allocate t")
  show "case tier_allocate t of
      (Inr l, t') \<Rightarrow> tier_inv t' \<and> l \<notin> tier_live t \<and> tier_live t' = insert l (tier_live t) \<and>
        tier_allocated_chunks t' = tier_allocated_chunks t + 1 \<and> tier_allocated_chunks t < tier_capacity t
    | (Inl e, t') \<Rightarrow>
        if tier_allocated_chunks t = tier_capacity t then e = CapacityError \<and> t' = t
        else e = OverflowError \<and> tier_worn t \<and> (\<forall>b. t = GpuT b \<longrightarrow> t' = t)"
  proof (cases r)
    case (Inl e)
    then show ?thesis using tier_allocate_err [OF assms, of e t1] a by simp
  next
    case (Inr l)
    then have ok: "tier_inv t1 \<and> l \<notin> tier_live t \<and> tier_live t1 = insert l (tier_live t) \<and>
        tier_capacity t1 = tier_capacity t"
      using tier.alloc_ok [OF assms] a by blast
    then show ?thesis using a Inr card tier.count_card [of t1] by auto
  qed
  show "case tier_release g t of
      (Inr u, t') \<Rightarrow> tier_inv t' \<and> g \<in> tier_live t \<and> tier_live t' = tier_live t - {g} \<and>
        tier_allocated_chunks t' = tier_allocated_chunks t - 1 \<and>
        tier_release g t' = (Inl InvalidArgument, t')
    | (Inl e, t') \<Rightarrow> e = InvalidArgument \<and> t' = t \<and> g \<notin> tier_live t"
  proof (cases "g \<in> tier_live t")
    case True
    then obtain t2 where f: "tier_release g t = (Inr (), t2)" "tier_inv t2" "tier_live t2 = tier_live t - {g}"
      using tier.release_ok [OF assms True] by blast
    then show ?thesis using True card tier.count_card [of t2] tier.release_twice [OF assms f(1)] by simp
  next
    case False
    then show ?thesis using tier.release_err [OF assms] by simp
  qed
qed

lemma tier_contract_witness:
  "let t1 = snd (tier_allocate demo_tier); t2 = snd (tier_allocate t1) in
   tier_inv demo_tier \<and> tier_live t1 = {\<lparr>loc_slot = 0, loc_generation = 1\<rparr>} \<and>
   tier_allocated_chunks t2 = 2 \<and> tier_allocate t2 = (Inl CapacityError, t2)"
proof -
  define t1 where "t1 = snd (tier_allocate demo_tier)"
  define t2 where "t2 = snd (tier_allocate t1)"
  note start = demo_tier_inv
  have "fst (tier_allocate demo_tier) = Inr \<lparr>loc_slot = 0, loc_generation = 1\<rparr>" by code_simp
  then have 1: "tier_allocate demo_tier = (Inr \<lparr>loc_slot = 0, loc_generation = 1\<rparr>, t1)"
    by (simp add: t1_def prod_eq_iff)
  have i1: "tier_inv t1" "tier_live t1 = {\<lparr>loc_slot = 0, loc_generation = 1\<rparr>}"
    using conjunct1 [OF tier_contract [of demo_tier]] start 1 by simp_all
  have "fst (tier_allocate t1) = Inr \<lparr>loc_slot = 1, loc_generation = 1\<rparr>" unfolding t1_def by code_simp
  then have 2: "tier_allocate t1 = (Inr \<lparr>loc_slot = 1, loc_generation = 1\<rparr>, t2)"
    by (simp add: t2_def prod_eq_iff)
  have i2: "tier_inv t2" using conjunct1 [OF tier_contract [OF i1(1)]] 2 by simp
  have n: "tier_allocated_chunks t2 = 2" "tier_capacity t2 = 2" unfolding t2_def t1_def by code_simp+
  have "isl (fst (tier_allocate t2))" unfolding t2_def t1_def by code_simp
  then obtain e t3 where "tier_allocate t2 = (Inl e, t3)"
    by (cases "tier_allocate t2"; cases "fst (tier_allocate t2)") auto
  then have "tier_allocate t2 = (Inl CapacityError, t2)"
    using conjunct1 [OF tier_contract [OF i2]] n by simp
  then show ?thesis unfolding Let_def t1_def [symmetric] t2_def [symmetric] using start i1 n by simp
qed

text \<open>A tier whose next slot has used up its generations.\<close>

definition worn_tier :: slot_tier where
  "worn_tier = \<lparr>sl_kind = NVME, sl_chunk_bytes = 8,
     sl_slots = [\<lparr>ts_generation = u64_max, ts_free = True, ts_next_free = 1\<rparr>,
                 \<lparr>ts_generation = 0, ts_free = True, ts_next_free = none\<rparr>],
     sl_free_head = 0, sl_allocated = 0\<rparr>"

lemma worn_tier_inv: "slot_inv worn_tier"
proof -
  have "{i. i < Suc (Suc 0) \<and> ts_free ([\<lparr>ts_generation = u64_max, ts_free = True, ts_next_free = 1\<rparr>,
      \<lparr>ts_generation = 0, ts_free = True, ts_next_free = none\<rparr>] ! i)} = {0, 1}"
    by (auto simp: less_Suc_eq)
  then have "slot_rep worn_tier [0, 1]"
    by (simp add: slot_rep_def worn_tier_def none_eq u64_max_def)
  then show ?thesis by (auto simp: slot_inv_def)
qed

text \<open>C15: When \<open>SlotTier::allocate\<close> meets a slot whose generation is used up, it throws after
  it has unlinked the slot: the slot is taken although the caller never got a location for it,
  \<open>allocated_chunks\<close> does not count it, so \<open>available\<close> promises one slot too many, and the
  location with the last generation, which an earlier owner has already released, becomes live
  again.\<close>

theorem slot_tier_exhausted_leaks:
  assumes "slot_inv t" and "slot_tier_allocate t = (Inl OverflowError, t')"
  shows "let l = \<lparr>loc_slot = sl_free_head t, loc_generation = u64_max\<rparr> in
     slot_tier_release l t = (Inl InvalidArgument, t) \<and>
     slot_live t' = insert l (slot_live t) \<and>
     card (slot_live t') = sl_allocated t' + 1 \<and> slot_tier_available t' = slot_tier_available t \<and>
     (\<exists>t''. slot_tier_release l t' = (Inr (), t''))"
proof -
  obtain fl where rep: "slot_rep t fl" using assms(1) by (auto simp: slot_inv_def)
  let ?l = "\<lparr>loc_slot = sl_free_head t, loc_generation = u64_max\<rparr>"
  show ?thesis
    using rep
  proof (cases rule: slot_allocate_cases)
    case (exhausted i fl')
    have i: "sl_free_head t = i" using slot_rep_head [OF rep] exhausted(1) by simp
    have fr: "i < length (sl_slots t)" "ts_free (sl_slots t ! i)"
      using rep exhausted(1) by (auto simp: slot_rep_def)
    have t': "t' = t\<lparr>sl_free_head := ts_next_free (sl_slots t ! i),
        sl_slots := (sl_slots t)[i := (sl_slots t ! i)\<lparr>ts_next_free := none, ts_free := False\<rparr>]\<rparr>"
      using assms(2) exhausted(3) by simp
    have notin: "?l \<notin> slot_live t" using fr by (simp add: slot_live_def i)
    have live: "slot_live t' = insert ?l (slot_live t)"
      using fr exhausted(2) by (auto simp: slot_live_def t' i nth_list_update intro: location_eqI split: if_splits)
    then have "card (slot_live t') = sl_allocated t' + 1"
      using slot_rep_card [OF rep] notin by (simp add: t')
    moreover have "\<exists>t''. slot_tier_release ?l t' = (Inr (), t'')"
      using fr exhausted(2) by (simp add: slot_tier_release_def t' i Let_def)
    moreover have "slot_tier_available t' = slot_tier_available t" by (simp add: slot_tier_available_def t')
    ultimately show ?thesis using live slot.release_err [OF assms(1) notin] unfolding Let_def by blast
  qed (use assms(2) in auto)
qed

lemma slot_tier_exhausted_leaks_witness:
  "slot_live (snd (slot_tier_allocate worn_tier)) =
     insert \<lparr>loc_slot = 0, loc_generation = u64_max\<rparr> (slot_live worn_tier)"
proof -
  obtain t' where t': "slot_tier_allocate worn_tier = (Inl OverflowError, t')"
    by (simp add: slot_tier_allocate_def worn_tier_def none_eq Let_def)
  have "sl_free_head worn_tier = 0" by (simp add: worn_tier_def)
  then show ?thesis
    using slot_tier_exhausted_leaks [OF worn_tier_inv t'] t' unfolding Let_def by simp
qed

end
