(* ===== verification/Cache_Directory.thy ===== *)
theory Cache_Directory
  imports Tier Kv_Layout "HOL-Library.AList"
begin

text \<open>
  \<open>include/kvflux/v3/cache_directory.h\<close>, \<open>src/v3/cache_directory.cpp\<close>: the register of all
  chunks. The three \<open>Tier*\<close> of the class are fields of the record, the hash map is an
  association list (its order is not observable through the interface), and the reading of the
  steady clock is an argument of the operations that stamp \<open>last_access\<close>. The specification is
  a much smaller object: for each storage level a partial map from keys to locations. The
  directory refines it, and in step with it the tiers hold exactly the registered locations.
\<close>

section \<open>Data\<close>

datatype chunk_state = READY | COPYING | LOADING | EVICTING | ERROR

record cache_key =
  ck_model_id :: string
  ck_layout_version :: u32
  ck_dtype :: dtype
  ck_first_layer :: u32
  ck_last_layer :: u32
  ck_prefix_hash :: u64
  ck_prefix :: tokens

record replica =
  rp_location :: tier_location
  rp_state :: chunk_state

record chunk_record =
  cr_key :: cache_key
  cr_version :: u64
  cr_ref_count :: nat
  cr_pin_count :: nat
  cr_last_access :: nat
  cr_gpu :: "replica option"
  cr_cpu :: "replica option"
  cr_nvme :: "replica option"

record cache_directory =
  cd_gpu :: tier
  cd_cpu :: tier
  cd_nvme :: tier
  cd_records :: "(cache_key \<times> chunk_record) list"

section \<open>Keys\<close>

text \<open>
  \<open>std::hash\<close> of strings is not specified, so it is an argument. The value of an enum converts
  to 64 bits modulo \<open>2 ^ 64\<close>.
\<close>

fun dtype_value :: "dtype \<Rightarrow> int" where
  "dtype_value Float16 = 0"
| "dtype_value BFloat16 = 1"
| "dtype_value Float32 = 2"
| "dtype_value (OtherDType i) = i"

unbundle bit_operations_syntax

definition hash_mix :: "u64 \<Rightarrow> u64 \<Rightarrow> u64" where
  "hash_mix h v = h XOR (v + 0x9e3779b97f4a7c15 + push_bit 6 h + drop_bit 2 h)"

definition cache_key_hash :: "(string \<Rightarrow> u64) \<Rightarrow> cache_key \<Rightarrow> u64" where
  "cache_key_hash string_hash key =
     foldl hash_mix (string_hash (ck_model_id key))
       [ucast (ck_layout_version key), word_of_int (dtype_value (ck_dtype key)),
        ucast (ck_first_layer key), ucast (ck_last_layer key), ck_prefix_hash key]"

definition make_cache_key :: "string \<Rightarrow> u32 \<Rightarrow> dtype \<Rightarrow> u32 \<Rightarrow> u32 \<Rightarrow> tokens \<Rightarrow> cache_key res" where
  "make_cache_key model_id layout_version dt first_layer last_layer prefix =
     (if first_layer \<ge> last_layer then Inl InvalidArgument
      else Inr \<lparr>ck_model_id = model_id, ck_layout_version = layout_version, ck_dtype = dt,
                ck_first_layer = first_layer, ck_last_layer = last_layer,
                ck_prefix_hash = prefix_hash prefix, ck_prefix = prefix\<rparr>)"

section \<open>The operations\<close>

definition cd_init :: "tier \<Rightarrow> tier \<Rightarrow> tier \<Rightarrow> cache_directory res" where
  "cd_init gpu cpu nvme =
     (if tier_kind gpu \<noteq> GPU \<or> tier_kind cpu \<noteq> CPU \<or> tier_kind nvme \<noteq> NVME then Inl InvalidArgument
      else Inr \<lparr>cd_gpu = gpu, cd_cpu = cpu, cd_nvme = nvme, cd_records = []\<rparr>)"

definition cd_put :: "cache_key \<Rightarrow> chunk_record \<Rightarrow> cache_directory \<Rightarrow> cache_directory" where
  "cd_put key r d = d\<lparr>cd_records := AList.update key r (cd_records d)\<rparr>"

definition cd_contains :: "cache_key \<Rightarrow> cache_directory \<Rightarrow> bool" where
  "cd_contains key d \<longleftrightarrow> map_of (cd_records d) key \<noteq> None"

definition cd_create :: "nat \<Rightarrow> cache_key \<Rightarrow> cache_directory \<Rightarrow> unit res \<times> cache_directory" where
  "cd_create now key d =
     (if cd_contains key d then (Inl InvalidArgument, d)
      else (Inr (), cd_put key \<lparr>cr_key = key, cr_version = 1, cr_ref_count = 0, cr_pin_count = 0,
                                cr_last_access = now, cr_gpu = None, cr_cpu = None, cr_nvme = None\<rparr> d))"

definition cd_at :: "cache_key \<Rightarrow> cache_directory \<Rightarrow> chunk_record res" where
  "cd_at key d = (case map_of (cd_records d) key of None \<Rightarrow> Inl OutOfRange | Some r \<Rightarrow> Inr r)"

definition cd_size :: "cache_directory \<Rightarrow> nat" where
  "cd_size d = length (cd_records d)"

text \<open>
  \<open>lookup\<close> returns a reference into the map. A function that writes through it is a change of
  the record found, or the exception of \<open>lookup\<close>.
\<close>

definition cd_lookup :: "cache_key \<Rightarrow> cache_directory \<Rightarrow>
    (chunk_record \<Rightarrow> unit res \<times> chunk_record) \<Rightarrow> unit res \<times> cache_directory" where
  "cd_lookup key d f =
     (case map_of (cd_records d) key of
        None \<Rightarrow> (Inl OutOfRange, d)
      | Some r \<Rightarrow> (case f r of (x, r') \<Rightarrow> (x, cd_put key r' d)))"

fun tier_for :: "storage_tier \<Rightarrow> cache_directory \<Rightarrow> tier res" where
  "tier_for GPU d = Inr (cd_gpu d)"
| "tier_for CPU d = Inr (cd_cpu d)"
| "tier_for NVME d = Inr (cd_nvme d)"
| "tier_for (OtherTier i) d = Inl Undefined"

fun tier_put :: "storage_tier \<Rightarrow> tier \<Rightarrow> cache_directory \<Rightarrow> cache_directory" where
  "tier_put GPU t d = d\<lparr>cd_gpu := t\<rparr>"
| "tier_put CPU t d = d\<lparr>cd_cpu := t\<rparr>"
| "tier_put NVME t d = d\<lparr>cd_nvme := t\<rparr>"
| "tier_put (OtherTier i) t d = d"

definition tier_call :: "storage_tier \<Rightarrow> (tier \<Rightarrow> 'a res \<times> tier) \<Rightarrow> cache_directory \<Rightarrow> 'a res \<times> cache_directory" where
  "tier_call s f d =
     (case tier_for s d of
        Inl e \<Rightarrow> (Inl e, d)
      | Inr t \<Rightarrow> (case f t of (r, t') \<Rightarrow> (r, tier_put s t' d)))"

fun replica_slot :: "chunk_record \<Rightarrow> storage_tier \<Rightarrow> replica option res" where
  "replica_slot r GPU = Inr (cr_gpu r)"
| "replica_slot r CPU = Inr (cr_cpu r)"
| "replica_slot r NVME = Inr (cr_nvme r)"
| "replica_slot r (OtherTier i) = Inl InvalidArgument"

fun replica_put :: "storage_tier \<Rightarrow> replica option \<Rightarrow> chunk_record \<Rightarrow> chunk_record" where
  "replica_put GPU x r = r\<lparr>cr_gpu := x\<rparr>"
| "replica_put CPU x r = r\<lparr>cr_cpu := x\<rparr>"
| "replica_put NVME x r = r\<lparr>cr_nvme := x\<rparr>"
| "replica_put (OtherTier i) x r = r"

definition cd_place :: "nat \<Rightarrow> cache_key \<Rightarrow> storage_tier \<Rightarrow> chunk_state \<Rightarrow> cache_directory \<Rightarrow>
    tier_location res \<times> cache_directory" where
  "cd_place now key s state d =
     (case cd_at key d of
        Inl e \<Rightarrow> (Inl e, d)
      | Inr r \<Rightarrow>
        (case replica_slot r s of
           Inl e \<Rightarrow> (Inl e, d)
         | Inr (Some x) \<Rightarrow> (Inl LogicError, d)
         | Inr None \<Rightarrow>
             and_then (tier_call s tier_allocate d)
               (\<lambda>l d1. (Inr l,
                  cd_put key ((replica_put s (Some \<lparr>rp_location = l, rp_state = state\<rparr>) r)
                                \<lparr>cr_last_access := now\<rparr>) d1))))"

definition cd_remove :: "nat \<Rightarrow> cache_key \<Rightarrow> storage_tier \<Rightarrow> cache_directory \<Rightarrow> unit res \<times> cache_directory" where
  "cd_remove now key s d =
     (case cd_at key d of
        Inl e \<Rightarrow> (Inl e, d)
      | Inr r \<Rightarrow>
        (case replica_slot r s of
           Inl e \<Rightarrow> (Inl e, d)
         | Inr None \<Rightarrow> (Inl LogicError, d)
         | Inr (Some x) \<Rightarrow>
             if rp_state x \<noteq> READY \<and> rp_state x \<noteq> ERROR then (Inl LogicError, d)
             else and_then (tier_call s (tier_release (rp_location x)) d)
               (\<lambda>_ d1. (Inr (), cd_put key ((replica_put s None r)\<lparr>cr_last_access := now\<rparr>) d1))))"

definition cd_set_state :: "cache_key \<Rightarrow> storage_tier \<Rightarrow> chunk_state \<Rightarrow> cache_directory \<Rightarrow> unit res \<times> cache_directory" where
  "cd_set_state key s state d =
     cd_lookup key d (\<lambda>r.
       case replica_slot r s of
         Inl e \<Rightarrow> (Inl e, r)
       | Inr None \<Rightarrow> (Inl LogicError, r)
       | Inr (Some x) \<Rightarrow> (Inr (), replica_put s (Some (x\<lparr>rp_state := state\<rparr>)) r))"

definition cd_add_ref :: "cache_key \<Rightarrow> cache_directory \<Rightarrow> unit res \<times> cache_directory" where
  "cd_add_ref key d = cd_lookup key d (\<lambda>r. (Inr (), r\<lparr>cr_ref_count := size_inc (cr_ref_count r)\<rparr>))"

definition cd_release_ref :: "cache_key \<Rightarrow> cache_directory \<Rightarrow> unit res \<times> cache_directory" where
  "cd_release_ref key d = cd_lookup key d (\<lambda>r.
     if cr_ref_count r = 0 then (Inl LogicError, r) else (Inr (), r\<lparr>cr_ref_count := cr_ref_count r - 1\<rparr>))"

definition cd_pin :: "cache_key \<Rightarrow> cache_directory \<Rightarrow> unit res \<times> cache_directory" where
  "cd_pin key d = cd_lookup key d (\<lambda>r. (Inr (), r\<lparr>cr_pin_count := size_inc (cr_pin_count r)\<rparr>))"

definition cd_unpin :: "cache_key \<Rightarrow> cache_directory \<Rightarrow> unit res \<times> cache_directory" where
  "cd_unpin key d = cd_lookup key d (\<lambda>r.
     if cr_pin_count r = 0 then (Inl LogicError, r) else (Inr (), r\<lparr>cr_pin_count := cr_pin_count r - 1\<rparr>))"

definition cd_touch :: "nat \<Rightarrow> cache_key \<Rightarrow> cache_directory \<Rightarrow> unit res \<times> cache_directory" where
  "cd_touch now key d = cd_lookup key d (\<lambda>r. (Inr (), r\<lparr>cr_last_access := now\<rparr>))"

definition cd_bump_version :: "cache_key \<Rightarrow> cache_directory \<Rightarrow> unit res \<times> cache_directory" where
  "cd_bump_version key d = cd_lookup key d (\<lambda>r. (Inr (), r\<lparr>cr_version := cr_version r + 1\<rparr>))"

definition cd_replica_count :: "cache_key \<Rightarrow> cache_directory \<Rightarrow> nat res" where
  "cd_replica_count key d =
     bind_res (cd_at key d) (\<lambda>r. Inr (of_bool (cr_gpu r \<noteq> None) + of_bool (cr_cpu r \<noteq> None) +
                                      of_bool (cr_nvme r \<noteq> None)))"

record tier_stats =
  tst_capacity :: nat
  tst_available :: nat
  tst_allocated_chunks :: nat
  tst_used_bytes :: nat
  tst_available_bytes :: nat
  tst_replicas :: nat

definition cd_stats :: "storage_tier \<Rightarrow> cache_directory \<Rightarrow> tier_stats res" where
  "cd_stats s d =
     bind_res (tier_for s d) (\<lambda>t.
       let replicas = foldl (\<lambda>n (k, r).
             let slot = (if s = GPU then cr_gpu r else if s = CPU then cr_cpu r else cr_nvme r)
             in if slot \<noteq> None then n + 1 else n) 0 (cd_records d)
       in Inr \<lparr>tst_capacity = tier_capacity t, tst_available = tier_available t,
               tst_allocated_chunks = tier_allocated_chunks t, tst_used_bytes = tier_used_bytes t,
               tst_available_bytes = tier_available_bytes t, tst_replicas = replicas\<rparr>)"

definition cd_destroy :: "cache_key \<Rightarrow> cache_directory \<Rightarrow> unit res \<times> cache_directory" where
  "cd_destroy key d =
     (case cd_at key d of
        Inl e \<Rightarrow> (Inl e, d)
      | Inr r \<Rightarrow>
          if cr_gpu r \<noteq> None \<or> cr_cpu r \<noteq> None \<or> cr_nvme r \<noteq> None then (Inl LogicError, d)
          else if cr_ref_count r \<noteq> 0 \<or> cr_pin_count r \<noteq> 0 then (Inl LogicError, d)
          else (Inr (), d\<lparr>cd_records := AList.delete key (cd_records d)\<rparr>))"


section \<open>Specification\<close>

text \<open>
  What a client sees: for every level a partial map from keys to locations. \<open>cd_locs\<close> reads it
  off the directory, \<open>cd_op\<close> names the operations that write, \<open>cd_apply\<close> runs them.
\<close>

definition replica_at :: "storage_tier \<Rightarrow> chunk_record \<Rightarrow> replica option" where
  "replica_at s r = (case replica_slot r s of Inl e \<Rightarrow> None | Inr x \<Rightarrow> x)"

definition loc_of :: "storage_tier \<Rightarrow> chunk_record \<Rightarrow> tier_location option" where
  "loc_of s r = map_option rp_location (replica_at s r)"

definition cd_locs :: "cache_directory \<Rightarrow> storage_tier \<Rightarrow> cache_key \<rightharpoonup> tier_location" where
  "cd_locs d s key = Option.bind (map_of (cd_records d) key) (loc_of s)"

datatype cd_op =
    Create cache_key
  | Place cache_key storage_tier chunk_state
  | Remove cache_key storage_tier
  | SetState cache_key storage_tier chunk_state
  | AddRef cache_key
  | ReleaseRef cache_key
  | Pin cache_key
  | Unpin cache_key
  | Touch cache_key
  | BumpVersion cache_key
  | Destroy cache_key

fun cd_apply :: "nat \<Rightarrow> cd_op \<Rightarrow> cache_directory \<Rightarrow> tier_location option res \<times> cache_directory" where
  "cd_apply now (Place key s st) d = and_then (cd_place now key s st d) (\<lambda>l d'. (Inr (Some l), d'))"
| "cd_apply now (Create key) d = and_then (cd_create now key d) (\<lambda>_ d'. (Inr None, d'))"
| "cd_apply now (Remove key s) d = and_then (cd_remove now key s d) (\<lambda>_ d'. (Inr None, d'))"
| "cd_apply now (SetState key s st) d = and_then (cd_set_state key s st d) (\<lambda>_ d'. (Inr None, d'))"
| "cd_apply now (AddRef key) d = and_then (cd_add_ref key d) (\<lambda>_ d'. (Inr None, d'))"
| "cd_apply now (ReleaseRef key) d = and_then (cd_release_ref key d) (\<lambda>_ d'. (Inr None, d'))"
| "cd_apply now (Pin key) d = and_then (cd_pin key d) (\<lambda>_ d'. (Inr None, d'))"
| "cd_apply now (Unpin key) d = and_then (cd_unpin key d) (\<lambda>_ d'. (Inr None, d'))"
| "cd_apply now (Touch key) d = and_then (cd_touch now key d) (\<lambda>_ d'. (Inr None, d'))"
| "cd_apply now (BumpVersion key) d = and_then (cd_bump_version key d) (\<lambda>_ d'. (Inr None, d'))"
| "cd_apply now (Destroy key) d = and_then (cd_destroy key d) (\<lambda>_ d'. (Inr None, d'))"

text \<open>The same calls on the maps alone.\<close>

fun spec_apply :: "cd_op \<Rightarrow> tier_location option res \<Rightarrow> (storage_tier \<Rightarrow> cache_key \<rightharpoonup> tier_location) \<Rightarrow>
    (storage_tier \<Rightarrow> cache_key \<rightharpoonup> tier_location)" where
  "spec_apply (Place key s st) (Inr (Some l)) m = m(s := (m s)(key \<mapsto> l))"
| "spec_apply (Remove key s) (Inr x) m = m(s := (m s)(key := None))"
| "spec_apply op r m = m"

text \<open>The invariant: the levels hold exactly the registered locations, each for one key.\<close>

definition tier_matches :: "storage_tier \<Rightarrow> tier \<Rightarrow> (cache_key \<rightharpoonup> tier_location) \<Rightarrow> bool" where
  "tier_matches s t m \<longleftrightarrow>
     tier_inv t \<and> tier_kind t = s \<and> ran m = tier_live t \<and> inj_on m (dom m)"

definition cd_inv :: "cache_directory \<Rightarrow> bool" where
  "cd_inv d \<longleftrightarrow>
     tier_matches GPU (cd_gpu d) (cd_locs d GPU) \<and> tier_matches CPU (cd_cpu d) (cd_locs d CPU) \<and>
     tier_matches NVME (cd_nvme d) (cd_locs d NVME) \<and> distinct (map fst (cd_records d)) \<and>
     (\<forall>(k, r) \<in> set (cd_records d). cr_key r = k)"

text \<open>Maps whose values are distinct, under the two changes a directory makes.\<close>

lemma inj_map_upd:
  assumes "inj_on m (dom m)" and "l \<notin> ran m" and "m k = None"
  shows "inj_on (m(k \<mapsto> l)) (dom (m(k \<mapsto> l))) \<and> ran (m(k \<mapsto> l)) = insert l (ran m)"
proof -
  have "m x \<noteq> Some l" for x using assms(2) by (metis ranI)
  then show ?thesis using assms(1,3) by (auto simp: inj_on_def)
qed

lemma inj_map_del:
  assumes "inj_on m (dom m)" and "m k = Some l"
  shows "inj_on (m(k := None)) (dom (m(k := None))) \<and> ran (m(k := None)) = ran m - {l}"
proof -
  have u: "x = k" if "m x = Some l" for x
    using assms(2) that by (intro inj_onD [OF assms(1)]) auto
  have "inj_on (m(k := None)) (dom (m(k := None)))"
  proof -
    have "inj_on m (dom (m(k := None)))" by (rule inj_on_subset [OF assms(1)]) auto
    moreover have "inj_on (m(k := None)) A = inj_on m A" if "k \<notin> A" for A
      by (rule inj_on_cong) (use that in auto)
    ultimately show ?thesis by (metis domIff fun_upd_same)
  qed
  moreover have "ran (m(k := None)) = ran m - {l}"
  proof (rule set_eqI)
    fix z
    have "(\<exists>x. x \<noteq> k \<and> m x = Some z) \<longleftrightarrow> (\<exists>x. m x = Some z) \<and> z \<noteq> l"
      using u assms(2) by (metis option.inject)
    then show "z \<in> ran (m(k := None)) \<longleftrightarrow> z \<in> ran m - {l}" by (auto simp: ran_def)
  qed
  ultimately show ?thesis by blast
qed

lemma tier_matches_alloc:
  assumes "tier_matches s t m" and "m k = None" and "tier_allocate t = (Inr l, t')"
  shows "tier_matches s t' (m(k \<mapsto> l))"
proof -
  have inv: "tier_inv t" using assms(1) by (simp add: tier_matches_def)
  note ok = tier.alloc_ok [OF inv assms(3)]
  have "tier_kind t' = s" using ok assms(1) by (auto simp: tier_matches_def tier_cfg_def)
  then show ?thesis
    using ok assms(1,2) inj_map_upd [of m l k] unfolding tier_matches_def by blast
qed

lemma tier_matches_release:
  assumes "tier_matches s t m" and "m k = Some l"
  obtains t' where "tier_release l t = (Inr (), t')" and "tier_matches s t' (m(k := None))"
proof -
  have inv: "tier_inv t" and l: "l \<in> tier_live t" using assms by (auto simp: tier_matches_def ran_def)
  obtain t' where f: "tier_release l t = (Inr (), t')"
    and ok: "tier_inv t'" "tier_live t' = tier_live t - {l}" "tier_cfg t' = tier_cfg t"
    using tier.release_ok [OF inv l] by blast
  have "tier_kind t' = s" using ok(3) assms(1) by (auto simp: tier_matches_def tier_cfg_def)
  then have "tier_matches s t' (m(k := None))"
    using ok(1,2) assms inj_map_del [of m k l] unfolding tier_matches_def by blast
  then show ?thesis using that f by blast
qed

section \<open>The operations and the specification\<close>

lemma replica_slot_put:
  "replica_slot r s = Inr x \<Longrightarrow> replica_slot (replica_put s y r) s = Inr y"
  "s' \<noteq> s \<Longrightarrow> replica_slot (replica_put s y r) s' = replica_slot r s'"
  "cr_key (replica_put s y r) = cr_key r"
  by (cases s; cases s'; simp)+

lemma loc_of_simps [simp]:
  "loc_of s (r\<lparr>cr_last_access := n\<rparr>) = loc_of s r" "loc_of s (r\<lparr>cr_version := v\<rparr>) = loc_of s r"
  "loc_of s (r\<lparr>cr_ref_count := n\<rparr>) = loc_of s r" "loc_of s (r\<lparr>cr_pin_count := n\<rparr>) = loc_of s r"
  by (cases s; simp add: loc_of_def replica_at_def)+

lemma loc_of_put:
  assumes "replica_slot r s = Inr x"
  shows "loc_of s' (replica_put s y r) = (if s' = s then map_option rp_location y else loc_of s' r)"
  using replica_slot_put(1) [OF assms] replica_slot_put(2) [of s' s]
  by (simp add: loc_of_def replica_at_def)

lemma cd_locs_put:
  "cd_locs (cd_put key r d) s = (cd_locs d s)(key := loc_of s r)"
  by (rule ext) (simp add: cd_locs_def cd_put_def update_conv')

lemma cd_put_tiers [simp]:
  "cd_gpu (cd_put key r d) = cd_gpu d" "cd_cpu (cd_put key r d) = cd_cpu d"
  "cd_nvme (cd_put key r d) = cd_nvme d"
  by (simp_all add: cd_put_def)

lemma cd_put_same:
  assumes "map_of (cd_records d) key = Some r"
  shows "cd_put key r d = d"
proof -
  have "AList.update key r xs = xs" if "map_of xs key = Some r" for xs
    using that by (induction xs) (auto split: if_splits)
  then show ?thesis using assms by (simp add: cd_put_def)
qed

text \<open>Writing a record of the same key keeps the shape of the table.\<close>

definition cd_shape :: "cache_directory \<Rightarrow> bool" where
  "cd_shape d \<longleftrightarrow> distinct (map fst (cd_records d)) \<and> (\<forall>(k, r) \<in> set (cd_records d). cr_key r = k)"

lemma set_update_subset: "set (AList.update k v xs) \<subseteq> insert (k, v) (set xs)"
  by (induction xs) auto

lemma cd_shape_put:
  assumes "cd_shape d" and "cr_key r = key"
  shows "cd_shape (cd_put key r d)"
  using assms set_update_subset [of key r "cd_records d"]
  by (auto simp: cd_shape_def cd_put_def distinct_update)

lemma cd_inv_shape: "cd_inv d \<Longrightarrow> cd_shape d"
  by (simp add: cd_inv_def cd_shape_def)

lemma cd_key: "cd_shape d \<Longrightarrow> map_of (cd_records d) key = Some r \<Longrightarrow> cr_key r = key"
  by (auto simp: cd_shape_def dest: map_of_SomeD)

text \<open>Operations that move no replica: the levels and the maps stay as they are.\<close>

lemma cd_inv_same:
  assumes "cd_inv d" and "cd_locs d' = cd_locs d" and "cd_shape d'"
    and "cd_gpu d' = cd_gpu d" "cd_cpu d' = cd_cpu d" "cd_nvme d' = cd_nvme d"
  shows "cd_inv d'"
  using assms by (simp add: cd_inv_def cd_shape_def)

lemma cd_lookup_inv:
  assumes inv: "cd_inv d" and f: "\<And>r. cr_key (snd (f r)) = cr_key r \<and> (\<forall>s. loc_of s (snd (f r)) = loc_of s r)"
    and c: "cd_lookup key d f = (x, d')"
  shows "cd_inv d' \<and> cd_locs d' = cd_locs d"
proof (cases "map_of (cd_records d) key")
  case None
  then show ?thesis using inv c by (simp add: cd_lookup_def)
next
  case (Some r)
  then have d': "d' = cd_put key (snd (f r)) d" using c by (auto simp: cd_lookup_def split: prod.splits)
  have "cd_shape d'"
    using cd_shape_put cd_inv_shape [OF inv] f [of r] cd_key [OF cd_inv_shape [OF inv] Some] by (simp add: d')
  moreover have "cd_locs d' s k = cd_locs d s k" for s k
    using f [of r] Some by (simp add: d' cd_locs_put) (simp add: cd_locs_def)
  then have "cd_locs d' = cd_locs d" by (intro ext)
  ultimately show ?thesis using cd_inv_same [OF inv] by (simp add: d')
qed

lemma replica_put_state:
  "replica_slot r s = Inr (Some x) \<Longrightarrow>
     loc_of s' (replica_put s (Some (x\<lparr>rp_state := st\<rparr>)) r) = loc_of s' r"
  by (simp add: loc_of_put) (simp add: loc_of_def replica_at_def)

lemma cd_set_state_inv:
  assumes "cd_inv d" and "cd_set_state key s st d = (x, d')"
  shows "cd_inv d' \<and> cd_locs d' = cd_locs d"
proof (rule cd_lookup_inv [OF assms(1) _ assms(2) [unfolded cd_set_state_def]])
  fix r
  show "cr_key (snd (case replica_slot r s of Inl e \<Rightarrow> (Inl e, r) | Inr None \<Rightarrow> (Inl LogicError, r)
       | Inr (Some x) \<Rightarrow> (Inr (), replica_put s (Some (x\<lparr>rp_state := st\<rparr>)) r))) = cr_key r \<and>
     (\<forall>s'. loc_of s' (snd (case replica_slot r s of Inl e \<Rightarrow> (Inl e, r) | Inr None \<Rightarrow> (Inl LogicError, r)
       | Inr (Some x) \<Rightarrow> (Inr (), replica_put s (Some (x\<lparr>rp_state := st\<rparr>)) r))) = loc_of s' r)"
    by (auto simp: replica_slot_put(3) replica_put_state split: sum.splits option.splits)
qed

lemma cd_lookup_ops_inv:
  assumes "cd_inv d"
  shows "cd_add_ref key d = (x, d') \<Longrightarrow> cd_inv d' \<and> cd_locs d' = cd_locs d"
    and "cd_release_ref key d = (x, d') \<Longrightarrow> cd_inv d' \<and> cd_locs d' = cd_locs d"
    and "cd_pin key d = (x, d') \<Longrightarrow> cd_inv d' \<and> cd_locs d' = cd_locs d"
    and "cd_unpin key d = (x, d') \<Longrightarrow> cd_inv d' \<and> cd_locs d' = cd_locs d"
    and "cd_touch now key d = (x, d') \<Longrightarrow> cd_inv d' \<and> cd_locs d' = cd_locs d"
    and "cd_bump_version key d = (x, d') \<Longrightarrow> cd_inv d' \<and> cd_locs d' = cd_locs d"
  unfolding cd_add_ref_def cd_release_ref_def cd_pin_def cd_unpin_def cd_touch_def cd_bump_version_def
  by (rule cd_lookup_inv [OF assms], simp_all)+


text \<open>The invariant, one level at a time.\<close>

lemma cd_inv_alt:
  "cd_inv d \<longleftrightarrow> cd_shape d \<and> (\<forall>s t. tier_for s d = Inr t \<longrightarrow> tier_matches s t (cd_locs d s))"
proof -
  have "(\<forall>s. P s) \<longleftrightarrow> P GPU \<and> P CPU \<and> P NVME \<and> (\<forall>i. P (OtherTier i))" for P
    by (metis storage_tier.exhaust)
  note all = this [of "\<lambda>s. \<forall>t. tier_for s d = Inr t \<longrightarrow> tier_matches s t (cd_locs d s)"]
  show ?thesis unfolding all by (auto simp: cd_inv_def cd_shape_def)
qed

lemma tier_for_put:
  "tier_for s d = Inr t \<Longrightarrow> tier_for s (tier_put s t' d) = Inr t'"
  "s' \<noteq> s \<Longrightarrow> tier_for s' (tier_put s t' d) = tier_for s' d"
  "tier_for s' (cd_put key r d) = tier_for s' d"
  by (cases s; cases s'; simp)+

lemma tier_put_records [simp]: "cd_records (tier_put s t d) = cd_records d"
  by (cases s) simp_all

lemma tier_put_locs [simp]: "cd_locs (tier_put s t d) = cd_locs d"
  by (simp add: cd_locs_def fun_eq_iff)

lemma cd_shape_tier_put [simp]: "cd_shape (tier_put s t d) = cd_shape d"
  by (simp add: cd_shape_def)

lemma replica_tier: "replica_slot r s = Inr x \<Longrightarrow> \<exists>t. tier_for s d = Inr t"
  by (cases s) auto

text \<open>A level and the entry of one key change together.\<close>

lemma cd_inv_replace:
  assumes inv: "cd_inv d" and r: "map_of (cd_records d) key = Some r" and x: "replica_slot r s = Inr x"
    and t': "tier_matches s t' ((cd_locs d s)(key := map_option rp_location y))"
  shows "let d' = cd_put key ((replica_put s y r)\<lparr>cr_last_access := now\<rparr>) (tier_put s t' d) in
    cd_inv d' \<and> cd_locs d' = (cd_locs d)(s := (cd_locs d s)(key := map_option rp_location y))"
proof -
  let ?d = "cd_put key ((replica_put s y r)\<lparr>cr_last_access := now\<rparr>) (tier_put s t' d)"
  obtain t where t: "tier_for s d = Inr t" using replica_tier [OF x] by blast
  have locs: "cd_locs ?d = (cd_locs d)(s := (cd_locs d s)(key := map_option rp_location y))"
  proof (intro ext)
    fix s' k
    have "cd_locs d s' key = loc_of s' r" using r by (simp add: cd_locs_def)
    then show "cd_locs ?d s' k = ((cd_locs d)(s := (cd_locs d s)(key := map_option rp_location y))) s' k"
      using loc_of_put [OF x, of s' y] by (simp add: cd_locs_put)
  qed
  have "cr_key r = key" using cd_key [OF cd_inv_shape [OF inv] r] .
  then have "cd_shape ?d" using cd_inv_shape [OF inv] by (simp add: cd_shape_put replica_slot_put(3))
  moreover have "tier_matches s' t2 (cd_locs ?d s')" if "tier_for s' ?d = Inr t2" for s' t2
  proof (cases "s' = s")
    case True
    then have "t2 = t'" using that tier_for_put(1) [OF t] by (simp add: tier_for_put(3))
    then show ?thesis using True t' by (simp add: locs)
  next
    case False
    then have "tier_for s' d = Inr t2" using that by (simp add: tier_for_put(2,3))
    then show ?thesis using False inv by (simp add: locs cd_inv_alt)
  qed
  ultimately show ?thesis using locs unfolding Let_def cd_inv_alt by blast
qed

lemma cd_at_iff: "cd_at key d = Inr r \<longleftrightarrow> map_of (cd_records d) key = Some r"
  by (simp add: cd_at_def split: option.splits)

lemma cd_at_Inl: "cd_at key d = Inl e \<longleftrightarrow> map_of (cd_records d) key = None \<and> e = OutOfRange"
  by (auto simp: cd_at_def split: option.splits)

lemma cd_place_cases:
  assumes "cd_inv d" and p: "cd_place now key s st d = (x, d')"
  shows "(\<exists>l. x = Inr l \<and> cd_inv d' \<and> cd_locs d' = (cd_locs d)(s := (cd_locs d s)(key \<mapsto> l)) \<and>
            cd_locs d s key = None \<and> l \<notin> ran (cd_locs d s)) \<or>
         (\<exists>e. x = Inl e \<and> (e = OverflowError \<or> d' = d))"
proof (cases "cd_at key d")
  case (Inl e)
  then have "x = Inl e \<and> d' = d" using p by (auto simp: cd_place_def)
  then show ?thesis by blast
next
  case (Inr r)
  note r = Inr [unfolded cd_at_iff]
  show ?thesis
  proof (cases "replica_slot r s")
    case (Inl e)
    then have "x = Inl e \<and> d' = d" using p \<open>cd_at key d = Inr r\<close> by (auto simp: cd_place_def)
    then show ?thesis by blast
  next
    case slot: (Inr y)
    show ?thesis
    proof (cases y)
      case (Some z)
      then have "x = Inl LogicError \<and> d' = d" using p \<open>cd_at key d = Inr r\<close> slot by (auto simp: cd_place_def)
      then show ?thesis by blast
    next
      case None
      obtain t where t: "tier_for s d = Inr t" using replica_tier [OF slot] by blast
      have m: "tier_matches s t (cd_locs d s)" using assms(1) t by (simp add: cd_inv_alt)
      then have tinv: "tier_inv t" by (simp add: tier_matches_def)
      have none: "cd_locs d s key = None"
        using r slot None by (simp add: cd_locs_def loc_of_def replica_at_def)
      obtain a t' where a: "tier_allocate t = (a, t')" by (cases "tier_allocate t")
      have p': "(x, d') = and_then (a, tier_put s t' d) (\<lambda>l d1. (Inr l,
          cd_put key ((replica_put s (Some \<lparr>rp_location = l, rp_state = st\<rparr>) r)\<lparr>cr_last_access := now\<rparr>) d1))"
        using p \<open>cd_at key d = Inr r\<close> slot None t a by (simp add: cd_place_def tier_call_def)
      show ?thesis
      proof (cases a)
        case (Inl e)
        have "tier_put s t d = d" using t by (cases s) auto
        then show ?thesis using tier.alloc_err [OF tinv] a Inl p' by auto
      next
        case (Inr l)
        have "l \<notin> tier_live t" "tier_live t = ran (cd_locs d s)"
          using tier.alloc_ok [OF tinv] a Inr m by (auto simp: tier_matches_def)
        moreover have "tier_matches s t' ((cd_locs d s)(key := map_option rp_location (Some \<lparr>rp_location = l, rp_state = st\<rparr>)))"
          using tier_matches_alloc [OF m none] a Inr by simp
        note cd_inv_replace [OF assms(1) r slot this, of now]
        ultimately show ?thesis using p' Inr none by (simp add: Let_def)
      qed
    qed
  qed
qed

lemma cd_remove_cases:
  assumes "cd_inv d" and p: "cd_remove now key s d = (x, d')"
  shows "x = Inr () \<and> cd_inv d' \<and> cd_locs d' = (cd_locs d)(s := (cd_locs d s)(key := None)) \<and>
           (\<exists>r y. map_of (cd_records d) key = Some r \<and> replica_slot r s = Inr (Some y) \<and> rp_state y \<in> {READY, ERROR}) \<or>
         d' = d \<and> (x = Inl OutOfRange \<and> \<not> cd_contains key d \<or>
           x = Inl InvalidArgument \<and> (\<exists>i. s = OtherTier i) \<or>
           x = Inl LogicError \<and> (\<exists>r. map_of (cd_records d) key = Some r \<and>
             (replica_slot r s = Inr None \<or>
              (\<exists>y. replica_slot r s = Inr (Some y) \<and> rp_state y \<in> {COPYING, LOADING, EVICTING}))))"
proof (cases "cd_at key d")
  case (Inl e)
  then have "x = Inl e \<and> d' = d" using p by (auto simp: cd_remove_def)
  then show ?thesis using Inl by (simp add: cd_at_Inl cd_contains_def)
next
  case (Inr r)
  note r = Inr [unfolded cd_at_iff]
  show ?thesis
  proof (cases "replica_slot r s")
    case (Inl e)
    then have "e = InvalidArgument" "\<exists>i. s = OtherTier i" by (cases s; simp)+
    then show ?thesis using p \<open>cd_at key d = Inr r\<close> Inl by (simp add: cd_remove_def)
  next
    case slot: (Inr y)
    show ?thesis
    proof (cases y)
      case None
      then show ?thesis using p \<open>cd_at key d = Inr r\<close> slot r by (simp add: cd_remove_def)
    next
      case (Some z)
      show ?thesis
      proof (cases "rp_state z \<in> {READY, ERROR}")
        case False
        then have "rp_state z \<in> {COPYING, LOADING, EVICTING}" by (cases "rp_state z") simp_all
        then show ?thesis using p \<open>cd_at key d = Inr r\<close> slot r Some False by (simp add: cd_remove_def)
      next
        case True
        obtain t where t: "tier_for s d = Inr t" using replica_tier [OF slot] by blast
        have m: "tier_matches s t (cd_locs d s)" using assms(1) t by (simp add: cd_inv_alt)
        have "cd_locs d s key = Some (rp_location z)"
          using r slot Some by (simp add: cd_locs_def loc_of_def replica_at_def)
        then obtain t' where f: "tier_release (rp_location z) t = (Inr (), t')"
          and m': "tier_matches s t' ((cd_locs d s)(key := map_option rp_location (None :: replica option)))"
          using tier_matches_release [OF m] by auto
        have "(x, d') = (Inr (), cd_put key ((replica_put s None r)\<lparr>cr_last_access := now\<rparr>) (tier_put s t' d))"
          using p \<open>cd_at key d = Inr r\<close> slot Some True t f by (auto simp: cd_remove_def tier_call_def)
        then show ?thesis
          using cd_inv_replace [OF assms(1) r slot m', of now] r slot Some True by (simp add: Let_def)
      qed
    qed
  qed
qed

lemma cd_create_inv:
  assumes "cd_inv d" and c: "cd_create now key d = (x, d')"
  shows "cd_inv d' \<and> cd_locs d' = cd_locs d"
proof (cases "cd_contains key d")
  case True
  then show ?thesis using assms by (simp add: cd_create_def)
next
  case False
  let ?r = "\<lparr>cr_key = key, cr_version = 1, cr_ref_count = 0, cr_pin_count = 0,
             cr_last_access = now, cr_gpu = None, cr_cpu = None, cr_nvme = None\<rparr>"
  have d': "d' = cd_put key ?r d" using c False by (simp add: cd_create_def)
  have none: "map_of (cd_records d) key = None" using False by (simp add: cd_contains_def)
  have "loc_of s ?r = None" for s by (cases s) (simp_all add: loc_of_def replica_at_def)
  then have "cd_locs d' s k = cd_locs d s k" for s k
    using none by (simp add: d' cd_locs_put) (simp add: cd_locs_def)
  then have "cd_locs d' = cd_locs d" by (intro ext)
  moreover have "cd_shape d'" using cd_shape_put [OF cd_inv_shape [OF assms(1)], of ?r key] by (simp add: d')
  ultimately show ?thesis using cd_inv_same [OF assms(1)] by (simp add: d')
qed

lemma set_delete_subset: "set (AList.delete k xs) \<subseteq> set xs"
  by (induction xs) auto

lemma cd_destroy_cases:
  assumes "cd_inv d" and c: "cd_destroy key d = (x, d')"
  shows "cd_inv d' \<and> cd_locs d' = cd_locs d"
    and "x = Inr () \<Longrightarrow> \<not> cd_contains key d' \<and> (\<forall>s. cd_locs d s key = None) \<and>
           (\<exists>r. map_of (cd_records d) key = Some r \<and> cr_ref_count r = 0 \<and> cr_pin_count r = 0)"
    and "x \<noteq> Inr () \<Longrightarrow> d' = d"
proof -
  have "(x = Inr () \<longrightarrow> cd_inv d' \<and> cd_locs d' = cd_locs d \<and> \<not> cd_contains key d' \<and> (\<forall>s. cd_locs d s key = None) \<and>
     (\<exists>r. map_of (cd_records d) key = Some r \<and> cr_ref_count r = 0 \<and> cr_pin_count r = 0)) \<and> (x \<noteq> Inr () \<longrightarrow> d' = d)"
  proof (cases "x = Inr ()")
    case False
    then show ?thesis using c by (auto simp: cd_destroy_def split: sum.splits if_splits)
  next
    case True
    then obtain r where r: "map_of (cd_records d) key = Some r"
      and z: "cr_gpu r = None" "cr_cpu r = None" "cr_nvme r = None" "cr_ref_count r = 0" "cr_pin_count r = 0"
      and d': "d' = d\<lparr>cd_records := AList.delete key (cd_records d)\<rparr>"
      using c by (auto simp: cd_destroy_def cd_at_iff split: sum.splits if_splits)
    have none: "loc_of s r = None" for s using z by (cases s) (simp_all add: loc_of_def replica_at_def)
    have "cd_locs d' s k = cd_locs d s k" for s k
      using r none by (simp add: d' cd_locs_def delete_conv')
    then have locs: "cd_locs d' = cd_locs d" by (intro ext)
    have "cd_shape d'"
      using cd_inv_shape [OF assms(1)] set_delete_subset [of key "cd_records d"]
      by (auto simp: cd_shape_def d' distinct_delete)
    then have "cd_inv d'" using cd_inv_same [OF assms(1) locs] by (simp add: d')
    then show ?thesis
      using True locs r none z by (simp add: cd_locs_def) (simp add: d' cd_contains_def delete_conv')
  qed
  then show "cd_inv d' \<and> cd_locs d' = cd_locs d"
    and "x = Inr () \<Longrightarrow> \<not> cd_contains key d' \<and> (\<forall>s. cd_locs d s key = None) \<and>
           (\<exists>r. map_of (cd_records d) key = Some r \<and> cr_ref_count r = 0 \<and> cr_pin_count r = 0)"
    and "x \<noteq> Inr () \<Longrightarrow> d' = d"
    using assms(1) by blast+
qed


section \<open>Counting\<close>

lemma foldl_count: "foldl (\<lambda>n x. if P x then n + 1 else n) k xs = k + length (filter P xs)"
  by (induction xs arbitrary: k) auto

lemma distinct_keys_card:
  "distinct (map fst xs) \<Longrightarrow> length (filter (\<lambda>(k, r). P r) xs) = card {k. \<exists>r. map_of xs k = Some r \<and> P r}"
proof -
  assume d: "distinct (map fst xs)"
  have "{k. \<exists>r. map_of xs k = Some r \<and> P r} = fst ` set (filter (\<lambda>(k, r). P r) xs)"
    using d by (force simp: image_iff)
  moreover have "inj_on fst (set (filter (\<lambda>(k, r). P r) xs))"
    using d by (auto simp: distinct_map intro: inj_on_subset)
  moreover have "distinct (filter (\<lambda>(k, r). P r) xs)" using d by (simp add: distinct_map)
  ultimately show ?thesis by (metis card_image distinct_card)
qed

lemma cd_stats_replicas:
  assumes inv: "cd_inv d" and t: "tier_for s d = Inr t" and st: "cd_stats s d = Inr st"
  shows "tst_replicas st = tier_allocated_chunks t"
proof -
  have s: "s = GPU \<or> s = CPU \<or> s = NVME" using t by (cases s) simp_all
  have shape: "distinct (map fst (cd_records d))" using inv by (simp add: cd_inv_def)
  define P where "P = (\<lambda>r :: chunk_record. (if s = GPU then cr_gpu r else if s = CPU then cr_cpu r else cr_nvme r) \<noteq> None)"
  have "(\<lambda>n (k :: cache_key, r). if P r then n + 1 else n :: nat) = (\<lambda>n x. if (\<lambda>(k, r). P r) x then n + 1 else n)"
    by (auto simp: fun_eq_iff)
  moreover have "tst_replicas st = foldl (\<lambda>n (k, r). if P r then n + 1 else n) 0 (cd_records d)"
    using st t by (auto simp: cd_stats_def P_def Let_def)
  ultimately have "tst_replicas st = foldl (\<lambda>n x. if (\<lambda>(k, r). P r) x then n + 1 else n) 0 (cd_records d)"
    by simp
  also have "\<dots> = card {k. \<exists>r. map_of (cd_records d) k = Some r \<and> P r}"
    unfolding foldl_count distinct_keys_card [OF shape] by simp
  also have "{k. \<exists>r. map_of (cd_records d) k = Some r \<and> P r} = dom (cd_locs d s)"
    using s by (auto simp: cd_locs_def loc_of_def replica_at_def P_def dom_def bind_eq_Some_conv)
  also have "card (dom (cd_locs d s)) = card (ran (cd_locs d s))"
  proof -
    have m: "inj_on (cd_locs d s) (dom (cd_locs d s))" using inv t by (simp add: cd_inv_alt tier_matches_def)
    have "Some ` ran (cd_locs d s) = cd_locs d s ` dom (cd_locs d s)" by (force simp: ran_def dom_def)
    then have "card (Some ` ran (cd_locs d s)) = card (dom (cd_locs d s))" using card_image [OF m] by simp
    then show ?thesis by (simp add: card_image)
  qed
  also have "\<dots> = tier_allocated_chunks t"
    using inv t tier.count_card [of t] by (simp add: cd_inv_alt tier_matches_def)
  finally show ?thesis .
qed

section \<open>Properties\<close>

definition demo_gpu :: tier where
  "demo_gpu = (case gpu_tier_create small_pool 64 of Inr t \<Rightarrow> GpuT t)"

definition demo_nvme :: tier where
  "demo_nvme = (case nvme_tier_create 1 64 of Inr t \<Rightarrow> SlotT t)"

definition demo_directory :: cache_directory where
  "demo_directory = (case cd_init demo_gpu demo_tier demo_nvme of Inr d \<Rightarrow> d)"

definition demo_key :: cache_key where
  "demo_key = \<lparr>ck_model_id = ''m'', ck_layout_version = 1, ck_dtype = Float16, ck_first_layer = 0,
     ck_last_layer = 1, ck_prefix_hash = 0, ck_prefix = [7]\<rparr>"

lemma cd_init_inv:
  assumes "cd_init g c n = Inr d" and "tier_inv g" "tier_inv c" "tier_inv n"
    and "tier_live g = {}" "tier_live c = {}" "tier_live n = {}"
  shows "cd_inv d" and "cd_locs d = (\<lambda>s. Map.empty)"
proof -
  have d: "d = \<lparr>cd_gpu = g, cd_cpu = c, cd_nvme = n, cd_records = []\<rparr>"
    and k: "tier_kind g = GPU" "tier_kind c = CPU" "tier_kind n = NVME"
    using assms(1) by (simp_all add: cd_init_def split: if_splits)
  show locs: "cd_locs d = (\<lambda>s. Map.empty)" by (simp add: d cd_locs_def fun_eq_iff)
  show "cd_inv d" using assms(2-) k by (simp add: cd_inv_def tier_matches_def locs) (simp add: d)
qed

lemma demo_directory_inv: "cd_inv demo_directory"
proof -
  have pool: "pp_create 2 2 (Some (\<lambda>p. 0)) = Inr small_pool"
    by (simp add: small_pool_def pp_create_def bm_create_def)
  obtain g where g: "gpu_tier_create small_pool 64 = Inr g" by (simp add: gpu_tier_create_def)
  obtain n where n: "slot_tier_create NVME 1 64 = Inr n" by (auto simp: slot_tier_create_def)
  have gi: "tier_inv demo_gpu \<and> tier_live demo_gpu = {}"
    using gpu_create_inv [OF pool g] by (simp add: demo_gpu_def g none_eq)
  have ni: "tier_inv demo_nvme \<and> tier_live demo_nvme = {}"
    using slot_create_inv [OF n] unfolding demo_nvme_def nvme_tier_create_def n by (simp add: none_eq)
  have "tier_kind demo_gpu = GPU" "tier_kind demo_tier = CPU" "tier_kind demo_nvme = NVME"
    by code_simp+
  then have "cd_init demo_gpu demo_tier demo_nvme = Inr demo_directory"
    by (simp add: demo_directory_def cd_init_def)
  then show ?thesis using cd_init_inv(1) gi ni demo_tier_inv by blast
qed

text \<open>C16: The directory refines three partial maps from keys to locations: every operation that
  does not end in an exhausted generation keeps the invariant (each level holds exactly the
  registered locations, each for one key), and changes the maps as the specification says: a
  \<open>place\<close> adds one entry, a \<open>remove\<close> deletes one, everything else, and every operation that
  throws, changes none. A location that \<open>place\<close> returns is in use by no other chunk of that
  level.\<close>

theorem cd_refines_maps:
  assumes "cd_inv d" and "cd_apply now op d = (x, d')" and "x \<noteq> Inl OverflowError"
  shows "cd_inv d' \<and> cd_locs d' = spec_apply op x (cd_locs d) \<and>
    (\<forall>l. x = Inr (Some l) \<longrightarrow> (\<exists>key s st. op = Place key s st \<and> l \<notin> ran (cd_locs d s)))"
proof (cases op)
  case (Place key s st)
  then obtain y where p: "cd_place now key s st d = (y, d')"
    and x: "x = (case y of Inl e \<Rightarrow> Inl e | Inr l \<Rightarrow> Inr (Some l))"
    using assms(2) by (cases "cd_place now key s st d"; cases "fst (cd_place now key s st d)") auto
  from cd_place_cases [OF assms(1) p] show ?thesis
    using Place x assms(1,3) by (auto simp: fun_upd_def)
next
  case (Remove key s)
  then obtain y where p: "cd_remove now key s d = (y, d')" and x: "x = map_sum id (\<lambda>_. None) y"
    using assms(2) by (cases "cd_remove now key s d"; cases "fst (cd_remove now key s d)") auto
  from cd_remove_cases [OF assms(1) p] show ?thesis
    using Remove x assms(1) by auto
next
  case (Create key)
  then obtain y where "cd_create now key d = (y, d')" and "x = map_sum id (\<lambda>_. None) y"
    using assms(2) by (cases "cd_create now key d"; cases "fst (cd_create now key d)") auto
  then show ?thesis using cd_create_inv [OF assms(1)] Create by (cases y) auto
next
  case (SetState key s st)
  then obtain y where "cd_set_state key s st d = (y, d')" and "x = map_sum id (\<lambda>_. None) y"
    using assms(2) by (cases "cd_set_state key s st d"; cases "fst (cd_set_state key s st d)") auto
  then show ?thesis using cd_set_state_inv [OF assms(1)] SetState by (cases y) auto
next
  case (Destroy key)
  then obtain y where "cd_destroy key d = (y, d')" and "x = map_sum id (\<lambda>_. None) y"
    using assms(2) by (cases "cd_destroy key d"; cases "fst (cd_destroy key d)") auto
  then show ?thesis using cd_destroy_cases(1) [OF assms(1)] Destroy by (cases y) auto
qed (use assms(2) in \<open>auto simp: and_then_Inr_iff dest!: cd_lookup_ops_inv [OF assms(1)] elim!: and_then.elims\<close>)

lemma cd_refines_maps_witness:
  "cd_inv (snd (cd_apply 5 (Create demo_key) demo_directory))"
proof -
  obtain x d' where a: "cd_apply 5 (Create demo_key) demo_directory = (x, d')"
    by (cases "cd_apply 5 (Create demo_key) demo_directory")
  have "fst (cd_apply 5 (Create demo_key) demo_directory) = Inr None" by code_simp
  then have "x \<noteq> Inl OverflowError" using a by simp
  then show ?thesis using cd_refines_maps [OF demo_directory_inv a] a by simp
qed


lemma tier_capacity_split:
  assumes "tier_inv t"
  shows "tier_available t + tier_allocated_chunks t = tier_capacity t"
  using assms tier.count_card [OF assms] gpu_capacity_split
  by (cases t) (auto simp: slot_tier_available_def)

text \<open>The statistics are exact in every state the operations reach: the number of chunks
  with a replica on a level equals the number of slots the level has handed out, and with the
  available slots they make up its capacity.\<close>

theorem cd_stats_exact:
  assumes "cd_inv d" and "s \<in> {GPU, CPU, NVME}"
  shows "\<exists>st. cd_stats s d = Inr st \<and> tst_replicas st = tst_allocated_chunks st \<and>
    tst_available st + tst_allocated_chunks st = tst_capacity st"
proof -
  obtain t where t: "tier_for s d = Inr t" using assms(2) by auto
  obtain st where st: "cd_stats s d = Inr st" using t by (simp add: cd_stats_def Let_def)
  have "tier_inv t" using assms(1) t by (simp add: cd_inv_alt tier_matches_def)
  note split = tier_capacity_split [OF this]
  have "tst_allocated_chunks st = tier_allocated_chunks t" "tst_available st = tier_available t"
    "tst_capacity st = tier_capacity t"
    using st t by (auto simp: cd_stats_def Let_def)
  then show ?thesis using cd_stats_replicas [OF assms(1) t st] st split by auto
qed

lemma cd_stats_exact_witness:
  "cd_inv demo_directory \<and> CPU \<in> {GPU, CPU, NVME} \<and>
   (\<exists>st. cd_stats CPU demo_directory = Inr st \<and> tst_replicas st = tst_allocated_chunks st)"
  using cd_stats_exact [OF demo_directory_inv, of CPU] demo_directory_inv by auto

lemma cd_guards_iff:
  assumes "cd_inv d" and "map_of (cd_records d) key = Some r"
  shows "(\<exists>d'. cd_remove now key s d = (Inr (), d')) \<longleftrightarrow>
           (\<exists>y. replica_slot r s = Inr (Some y) \<and> rp_state y \<in> {READY, ERROR})"
    and "(\<exists>d'. cd_destroy key d = (Inr (), d')) \<longleftrightarrow>
           (\<forall>s. cd_locs d s key = None) \<and> cr_ref_count r = 0 \<and> cr_pin_count r = 0"
    and "cd_remove now key s d = (Inl e, d') \<or> cd_destroy key d = (Inl e, d') \<Longrightarrow> d' = d"
proof -
  obtain x d1 where rm: "cd_remove now key s d = (x, d1)" by (cases "cd_remove now key s d")
  from cd_remove_cases [OF assms(1) rm] show "(\<exists>d'. cd_remove now key s d = (Inr (), d')) \<longleftrightarrow>
      (\<exists>y. replica_slot r s = Inr (Some y) \<and> rp_state y \<in> {READY, ERROR})"
    using rm assms(2) by (auto simp: cd_contains_def)
  obtain y d2 where ds: "cd_destroy key d = (y, d2)" by (cases "cd_destroy key d")
  have locs: "(\<forall>s. cd_locs d s key = None) \<longleftrightarrow> cr_gpu r = None \<and> cr_cpu r = None \<and> cr_nvme r = None"
  proof
    assume none: "\<forall>s. cd_locs d s key = None"
    then have "loc_of GPU r = None" "loc_of CPU r = None" "loc_of NVME r = None"
      using assms(2) by (simp_all add: cd_locs_def)
    then show "cr_gpu r = None \<and> cr_cpu r = None \<and> cr_nvme r = None"
      by (simp add: loc_of_def replica_at_def)
  next
    assume "cr_gpu r = None \<and> cr_cpu r = None \<and> cr_nvme r = None"
    then have "loc_of s r = None" for s by (cases s) (simp_all add: loc_of_def replica_at_def)
    then show "\<forall>s. cd_locs d s key = None" using assms(2) by (simp add: cd_locs_def)
  qed
  show "(\<exists>d'. cd_destroy key d = (Inr (), d')) \<longleftrightarrow>
      (\<forall>s. cd_locs d s key = None) \<and> cr_ref_count r = 0 \<and> cr_pin_count r = 0"
    unfolding locs using assms(2) by (auto simp: cd_destroy_def cd_at_iff [THEN iffD2])
  show "cd_remove now key s d = (Inl e, d') \<or> cd_destroy key d = (Inl e, d') \<Longrightarrow> d' = d"
    using cd_remove_cases [OF assms(1), of now key s "Inl e" d'] cd_destroy_cases(3) [OF assms(1), of key "Inl e" d']
    by auto
qed

text \<open>C17: No replica disappears under a running transfer and no identity while it is in use:
  \<open>remove\<close> succeeds exactly on replicas that are READY or ERROR, \<open>destroy\<close> exactly on chunks
  without replicas, references and pins, and a call that throws changes nothing.\<close>

theorem cd_guards:
  assumes "cd_inv d" and "map_of (cd_records d) key = Some r"
  shows "((\<exists>d'. cd_remove now key s d = (Inr (), d')) \<longleftrightarrow>
           (\<exists>y. replica_slot r s = Inr (Some y) \<and> rp_state y \<in> {READY, ERROR})) \<and>
    ((\<exists>d'. cd_destroy key d = (Inr (), d')) \<longleftrightarrow>
           (\<forall>s. cd_locs d s key = None) \<and> cr_ref_count r = 0 \<and> cr_pin_count r = 0) \<and>
    (\<forall>e d'. cd_remove now key s d = (Inl e, d') \<or> cd_destroy key d = (Inl e, d') \<longrightarrow> d' = d)"
  using cd_guards_iff [OF assms] by blast

lemma cd_guards_witness:
  "cd_inv demo_directory \<and> map_of (cd_records (snd (cd_create 5 demo_key demo_directory))) demo_key \<noteq> None \<and>
   (\<exists>d'. cd_destroy demo_key (snd (cd_create 5 demo_key demo_directory)) = (Inr (), d'))"
proof -
  let ?d = "snd (cd_create 5 demo_key demo_directory)"
  have inv: "cd_inv ?d"
    using cd_create_inv [OF demo_directory_inv, of 5 demo_key] by (cases "cd_create 5 demo_key demo_directory") simp
  have s: "map_of (cd_records ?d) demo_key \<noteq> None" by code_simp
  then obtain r where r: "map_of (cd_records ?d) demo_key = Some r" by blast
  have "cr_ref_count (the (map_of (cd_records ?d) demo_key)) = 0"
    "cr_pin_count (the (map_of (cd_records ?d) demo_key)) = 0" by code_simp+
  moreover have "cd_locs ?d s demo_key = None" for s
  proof -
    have "cr_gpu (the (map_of (cd_records ?d) demo_key)) = None" "cr_cpu (the (map_of (cd_records ?d) demo_key)) = None"
      "cr_nvme (the (map_of (cd_records ?d) demo_key)) = None" by code_simp+
    then show ?thesis using r by (cases s) (simp_all add: cd_locs_def loc_of_def replica_at_def)
  qed
  ultimately show ?thesis using cd_guards [OF inv r] s r demo_directory_inv by simp
qed

end
