(* ===== verification/Chunk_File_Store.thy ===== *)
theory Chunk_File_Store
  imports Cache_Directory
begin

text \<open>
  \<open>include/kvflux/v3/chunk_file_store.h\<close>, \<open>src/v3/chunk_file_store.cpp\<close>: chunks as checksummed
  files. The file format is modelled byte for byte. The file system is the content of the
  directory \<open>root/chunks\<close>, an association list from file names to bytes; a failing system call
  is a flag of the record \<open>io\<close>, and the partial transfers of \<open>::read\<close> and \<open>::write\<close> are a list of
  answers. As in POSIX, a \<open>read\<close> or \<open>write\<close> that does not fail transfers at least one byte unless
  the file has ended, \<open>open\<close> for reading reports \<open>ENOENT\<close> exactly when there is no file, and
  \<open>stat\<close> of a file in the directory succeeds exactly when it exists.
\<close>

type_synonym bytes = "u8 list"

section \<open>Integers and strings as bytes\<close>

definition put_u32 :: "u32 \<Rightarrow> bytes" where
  "put_u32 v = map (\<lambda>i. ucast (drop_bit (8 * i) v)) [0..<4]"

definition put_u64 :: "u64 \<Rightarrow> bytes" where
  "put_u64 v = map (\<lambda>i. ucast (drop_bit (8 * i) v)) [0..<8]"

text \<open>The pointer that \<open>take\<close> advances is the rest of the list.\<close>

definition take_u32 :: "bytes \<Rightarrow> u32 \<times> bytes" where
  "take_u32 p = (foldl (\<lambda>v i. v OR push_bit (8 * i) (ucast (p ! i))) 0 [0..<4], drop 4 p)"

definition take_u64 :: "bytes \<Rightarrow> u64 \<times> bytes" where
  "take_u64 p = (foldl (\<lambda>v i. v OR push_bit (8 * i) (ucast (p ! i))) 0 [0..<8], drop 8 p)"

definition byte_of_char :: "char \<Rightarrow> u8" where
  "byte_of_char c = of_nat (of_char c)"

definition char_of_byte :: "u8 \<Rightarrow> char" where
  "char_of_byte b = char_of (unat b)"

section \<open>The file format\<close>

record chunk_file_meta =
  fm_model_id :: string
  fm_layout_version :: u32
  fm_dtype :: dtype
  fm_first_layer :: u32
  fm_last_layer :: u32
  fm_prefix_hash :: u64
  fm_prefix :: tokens
  fm_valid_token_count :: u64
  fm_payload_size :: u64

definition kMagic :: bytes where
  "kMagic = map byte_of_char ''KVFX''"

definition format_version :: u32 where
  "format_version = 1"

definition serialize_header :: "chunk_file_meta \<Rightarrow> bytes" where
  "serialize_header m =
     kMagic @ put_u32 format_version @
     put_u32 (of_nat (length (fm_model_id m))) @ map byte_of_char (fm_model_id m) @
     put_u32 (fm_layout_version m) @ put_u32 (word_of_int (dtype_value (fm_dtype m))) @
     put_u32 (fm_first_layer m) @ put_u32 (fm_last_layer m) @ put_u64 (fm_prefix_hash m) @
     put_u64 (of_nat (length (fm_prefix m))) @ concat (map put_u32 (fm_prefix m)) @
     put_u64 (fm_valid_token_count m) @ put_u64 (fm_payload_size m) @ put_u64 0"

definition make_file_meta :: "cache_key \<Rightarrow> u64 \<Rightarrow> u64 \<Rightarrow> chunk_file_meta" where
  "make_file_meta key valid_tokens payload_size =
     \<lparr>fm_model_id = ck_model_id key, fm_layout_version = ck_layout_version key, fm_dtype = ck_dtype key,
      fm_first_layer = ck_first_layer key, fm_last_layer = ck_last_layer key,
      fm_prefix_hash = ck_prefix_hash key, fm_prefix = ck_prefix key,
      fm_valid_token_count = valid_tokens, fm_payload_size = payload_size\<rparr>"

definition chunk_checksum :: "bytes \<Rightarrow> u64" where
  "chunk_checksum data = foldl (\<lambda>h b. (h XOR ucast b) * 1099511628211) 1469598103934665603 data"

text \<open>The placeholder at the end of the header is overwritten with the checksum of the payload.\<close>

definition fill_checksum :: "bytes \<Rightarrow> u64 \<Rightarrow> bytes" where
  "fill_checksum header payload_sum = take (length header - 8) header @ put_u64 payload_sum"

definition file_header :: "chunk_file_meta \<Rightarrow> bytes \<Rightarrow> bytes" where
  "file_header meta payload =
     (let header = fill_checksum (serialize_header meta) (chunk_checksum payload)
      in header @ put_u64 (chunk_checksum header))"

section \<open>System calls\<close>

datatype answer = Fails | Short nat

record io =
  io_mkdir :: bool
  io_opendir :: bool
  io_open :: bool
  io_answers :: "answer list"
  io_fsync :: bool
  io_close :: bool
  io_rename :: bool
  io_unlink :: bool

text \<open>
  \<open>Short n\<close>: the call transfers at most \<open>n + 1\<close> bytes. When the list is used up, every call
  transfers all it is asked to.
\<close>

fun write_all :: "bytes \<Rightarrow> bytes \<times> answer list \<Rightarrow> unit res \<times> bytes \<times> answer list" where
  "write_all [] (file, as) = (Inr (), file, as)"
| "write_all data (file, []) = (Inr (), file @ data, [])"
| "write_all data (file, Fails # as) = (Inl ChunkStoreError, file, as)"
| "write_all data (file, Short n # as) = write_all (drop (n + 1) data) (file @ take (n + 1) data, as)"

fun read_all :: "nat \<Rightarrow> bytes \<times> answer list \<Rightarrow> bytes res \<times> bytes \<times> answer list" where
  "read_all n (rest, []) =
     (if length rest < n then (Inl ChunkCorruptError, [], []) else (Inr (take n rest), drop n rest, []))"
| "read_all n (rest, Fails # as) =
     (if n = 0 then (Inr [], rest, Fails # as) else (Inl ChunkStoreError, rest, as))"
| "read_all n (rest, Short k # as) =
     (if n = 0 then (Inr [], rest, Short k # as)
      else
        let m = min (k + 1) (min n (length rest)) in
        if m = 0 then (Inl ChunkCorruptError, rest, as)
        else and_then (read_all (n - m) (drop m rest, as)) (\<lambda>data st. (Inr (take m rest @ data), st)))"

declare read_all.simps [simp del]

section \<open>The store\<close>

record chunk_file_store =
  cs_root_dir :: string
  cs_quota_bytes :: u64
  cs_stored_bytes :: u64
  cs_files :: "(string \<times> bytes) list"

fun digits :: "nat \<Rightarrow> string" where
  "digits n = (if n < 10 then [char_of (48 + n)] else digits (n div 10) @ [char_of (48 + n mod 10)])"

declare digits.simps [simp del]

definition chunk_name :: "nat \<Rightarrow> string" where
  "chunk_name slot =
     (let d = digits slot in ''chunk_'' @ replicate (6 - length d) (char_of (48 :: nat)) @ d @ ''.bin'')"

definition path_for :: "chunk_file_store \<Rightarrow> nat \<Rightarrow> string" where
  "path_for s slot = cs_root_dir s @ ''/chunks/'' @ chunk_name slot"

definition published :: "string \<Rightarrow> bool" where
  "published name \<longleftrightarrow> \<not> (length name < 4 \<or> drop (length name - 4) name \<noteq> ''.bin'')"

definition file_size :: "bytes \<Rightarrow> u64" where
  "file_size content = of_nat (length content)"

definition cs_create :: "io \<Rightarrow> string \<Rightarrow> u64 \<Rightarrow> (string \<times> bytes) list \<Rightarrow> chunk_file_store res" where
  "cs_create env root quota files =
     (if \<not> io_mkdir env then Inl ChunkStoreError
      else if \<not> io_opendir env then Inl ChunkStoreError
      else Inr \<lparr>cs_root_dir = root, cs_quota_bytes = quota,
                cs_stored_bytes = foldl (\<lambda>b (name, content).
                    if \<not> published name then b else b + file_size content) 0 files,
                cs_files = files\<rparr>)"

definition cs_file :: "nat \<Rightarrow> chunk_file_store \<Rightarrow> bytes option" where
  "cs_file slot s = map_of (cs_files s) (chunk_name slot)"

definition tmp_name :: "nat \<Rightarrow> string" where
  "tmp_name slot = chunk_name slot @ ''.tmp''"

text \<open>The handler that removes the temporary file; nobody looks whether \<open>unlink\<close> succeeds.\<close>

definition discard_tmp :: "io \<Rightarrow> string \<Rightarrow> bytes \<Rightarrow> chunk_file_store \<Rightarrow> chunk_file_store" where
  "discard_tmp env tmp file s =
     s\<lparr>cs_files := if io_unlink env then AList.delete tmp (cs_files s) else AList.update tmp file (cs_files s)\<rparr>"

text \<open>
  \<open>payload\<close> is the memory at the pointer; reading more of it than there is is undefined.
\<close>

definition cs_write :: "io \<Rightarrow> nat \<Rightarrow> chunk_file_meta \<Rightarrow> bytes \<Rightarrow> chunk_file_store \<Rightarrow> unit res \<times> chunk_file_store" where
  "cs_write env slot meta payload s =
     (if length payload < unat (fm_payload_size meta) then (Inl Undefined, s)
      else
        let payload = take (unat (fm_payload_size meta)) payload;
            header = file_header meta payload;
            file_bytes = of_nat (length header) + fm_payload_size meta;
            replaced = (case cs_file slot s of Some old \<Rightarrow> file_size old | None \<Rightarrow> 0);
            tmp = tmp_name slot
        in if file_bytes > cs_quota_bytes s \<or> cs_stored_bytes s - replaced + file_bytes > cs_quota_bytes s
           then (Inl ChunkQuotaError, s)
           else if \<not> io_open env then (Inl ChunkStoreError, s)
           else
             (case and_then (write_all header ([], io_answers env)) (\<lambda>_. write_all payload) of
                (Inl e, file, _) \<Rightarrow> (Inl e, discard_tmp env tmp file s)
              | (Inr u, file, _) \<Rightarrow>
                  if \<not> io_fsync env then (Inl ChunkStoreError, discard_tmp env tmp file s)
                  else if \<not> io_close env \<or> \<not> io_rename env
                  then (Inl ChunkStoreError, s\<lparr>cs_files := AList.update tmp file (cs_files s)\<rparr>)
                  else (Inr (), s\<lparr>cs_files := AList.update (chunk_name slot) file (AList.delete tmp (cs_files s)),
                                  cs_stored_bytes := cs_stored_bytes s - replaced + file_bytes\<rparr>)))"

definition dtype_of :: "u32 \<Rightarrow> dtype" where
  "dtype_of d = (if d = 0 then Float16 else if d = 1 then BFloat16 else Float32)"

definition same_identity :: "chunk_file_meta \<Rightarrow> chunk_file_meta \<Rightarrow> bool" where
  "same_identity meta expected \<longleftrightarrow>
     \<not> (fm_model_id meta \<noteq> fm_model_id expected \<or> fm_layout_version meta \<noteq> fm_layout_version expected \<or>
        fm_dtype meta \<noteq> fm_dtype expected \<or> fm_first_layer meta \<noteq> fm_first_layer expected \<or>
        fm_last_layer meta \<noteq> fm_last_layer expected \<or> fm_prefix_hash meta \<noteq> fm_prefix_hash expected \<or>
        fm_prefix meta \<noteq> fm_prefix expected)"

type_synonym reader = "bytes \<times> answer list"

text \<open>\<open>read\<close>, first part: the header up to the length of the prefix.\<close>

definition read_lead :: "reader \<Rightarrow> u32 res \<times> reader" where
  "read_lead = (\<lambda>st. and_then (read_all 12 st) (\<lambda>lead st.
     if take 4 lead \<noteq> kMagic then (Inl ChunkCorruptError, st)
     else
       let (version, p) = take_u32 (drop 4 lead) in
       if version \<noteq> format_version then (Inl ChunkCorruptError, st)
       else
         let (model_len, p) = take_u32 p in
         if model_len > 4096 then (Inl ChunkCorruptError, st) else (Inr model_len, st)))"

fun take_tokens :: "nat \<Rightarrow> bytes \<Rightarrow> tokens" where
  "take_tokens 0 p = []"
| "take_tokens (Suc n) p = (let (t, p) = take_u32 p in t # take_tokens n p)"

definition read_header :: "reader \<Rightarrow> (chunk_file_meta \<times> u64) res \<times> reader" where
  "read_header = (\<lambda>st.
     and_then (read_lead st) (\<lambda>model_len st.
     and_then (read_all (unat model_len) st) (\<lambda>model st.
     and_then (read_all 32 st) (\<lambda>fixed st.
       let (layout_version, p) = take_u32 fixed;
           (dt, p) = take_u32 p
       in if dt > 2 then (Inl ChunkCorruptError, st)
          else
            let (first_layer, p) = take_u32 p;
                (last_layer, p) = take_u32 p;
                (prefix_hash, p) = take_u64 p;
                (prefix_len, p) = take_u64 p
            in if prefix_len > push_bit 22 1 then (Inl ChunkCorruptError, st)
               else
                 and_then (read_all (unat prefix_len * 4) st) (\<lambda>token_bytes st.
                 and_then (read_all 24 st) (\<lambda>tail st.
                   let (valid_tokens, p) = take_u64 tail;
                       (payload_size, p) = take_u64 p;
                       (payload_sum, p) = take_u64 p
                   in (Inr (\<lparr>fm_model_id = map char_of_byte model, fm_layout_version = layout_version,
                             fm_dtype = dtype_of dt, fm_first_layer = first_layer, fm_last_layer = last_layer,
                             fm_prefix_hash = prefix_hash,
                             fm_prefix = take_tokens (unat prefix_len) token_bytes,
                             fm_valid_token_count = valid_tokens, fm_payload_size = payload_size\<rparr>,
                            payload_sum), st)))))))"

text \<open>
  Second part: the checks. The result \<open>None\<close> is the return value \<open>false\<close>; on success the bytes are
  those written to the destination, and the metadata is what goes to \<open>file_meta\<close>. What a failing
  \<open>read\<close> leaves in the destination is not modelled.
\<close>

definition read_body :: "chunk_file_meta \<Rightarrow> nat \<Rightarrow> reader \<Rightarrow> (bytes \<times> chunk_file_meta) option res \<times> reader" where
  "read_body expected out_capacity = (\<lambda>st.
     and_then (read_header st) (\<lambda>(meta, payload_sum) st.
     and_then (read_all 8 st) (\<lambda>sum_bytes st.
       let (header_sum, p) = take_u64 sum_bytes in
       if chunk_checksum (fill_checksum (serialize_header meta) payload_sum) \<noteq> header_sum
       then (Inl ChunkCorruptError, st)
       else if \<not> same_identity meta expected then (Inl ChunkCorruptError, st)
       else if unat (fm_payload_size meta) > out_capacity then (Inl ChunkCorruptError, st)
       else
         and_then (read_all (unat (fm_payload_size meta)) st) (\<lambda>out st.
           if chunk_checksum out \<noteq> payload_sum then (Inl ChunkCorruptError, st)
           else (Inr (Some (out, meta)), st)))))"

definition cs_read :: "io \<Rightarrow> nat \<Rightarrow> chunk_file_meta \<Rightarrow> nat \<Rightarrow> chunk_file_store \<Rightarrow>
    (bytes \<times> chunk_file_meta) option res" where
  "cs_read env slot expected out_capacity s =
     (case cs_file slot s of
        None \<Rightarrow> Inr None
      | Some content \<Rightarrow>
          if \<not> io_open env then Inl ChunkStoreError
          else fst (read_body expected out_capacity (content, io_answers env)))"

definition cs_exists :: "nat \<Rightarrow> chunk_file_store \<Rightarrow> bool" where
  "cs_exists slot s \<longleftrightarrow> cs_file slot s \<noteq> None"

definition cs_erase :: "io \<Rightarrow> nat \<Rightarrow> chunk_file_store \<Rightarrow> unit res \<times> chunk_file_store" where
  "cs_erase env slot s =
     (case cs_file slot s of
        None \<Rightarrow> (Inl ChunkMissError, s)
      | Some content \<Rightarrow>
          if \<not> io_unlink env then (Inl ChunkStoreError, s)
          else (Inr (), s\<lparr>cs_files := AList.delete (chunk_name slot) (cs_files s),
                          cs_stored_bytes := cs_stored_bytes s - file_size content\<rparr>))"


section \<open>Integers and strings\<close>

lemma put_length [simp]: "length (put_u32 v) = 4" "length (put_u64 w) = 8"
  by (simp_all add: put_u32_def put_u64_def)

lemma bit_or_bytes:
  "bit (foldl (\<lambda>w i. w OR push_bit (8 * i) (f i)) (0 :: 'a::len word) [0..<k]) n \<longleftrightarrow>
     n < LENGTH('a) \<and> (\<exists>i<k. 8 * i \<le> n \<and> bit (f i) (n - 8 * i))"
  by (induction k) (auto simp: bit_simps less_Suc_eq dest: bit_imp_le_length)

lemma bit_byte:
  fixes v :: "'a::len word"
  shows "bit (ucast (ucast (drop_bit (8 * i) v) :: u8) :: 'a word) m \<longleftrightarrow>
    m < LENGTH('a) \<and> m < 8 \<and> bit v (8 * i + m)"
  by (auto simp: bit_simps)

lemma or_bytes_eq:
  fixes v :: "'a::len word"
  assumes "8 * k = LENGTH('a)"
    and "\<And>i. i < k \<Longrightarrow> p ! i = (ucast (drop_bit (8 * i) v) :: u8)"
  shows "foldl (\<lambda>w i. w OR push_bit (8 * i) (ucast (p ! i))) 0 [0..<k] = v"
proof (rule bit_word_eqI)
  fix n
  assume n: "n < LENGTH('a)"
  let ?i = "n div 8"
  have i: "?i < k" "8 * ?i \<le> n" "n - 8 * ?i < 8" using n assms(1) by linarith+
  have b: "bit (ucast (p ! i) :: 'a word) (n - 8 * i) \<longleftrightarrow> n - 8 * i < 8 \<and> bit v n"
    if "i < k" "8 * i \<le> n" for i
    unfolding assms(2) [OF \<open>i < k\<close>] bit_byte using n \<open>8 * i \<le> n\<close> by (simp add: less_imp_diff_less)
  have "(\<exists>i<k. 8 * i \<le> n \<and> bit (ucast (p ! i) :: 'a word) (n - 8 * i)) \<longleftrightarrow> bit v n"
  proof
    assume "\<exists>i<k. 8 * i \<le> n \<and> bit (ucast (p ! i) :: 'a word) (n - 8 * i)"
    then show "bit v n" using b by blast
  next
    assume "bit v n"
    then have "bit (ucast (p ! ?i) :: 'a word) (n - 8 * ?i)" using b [OF i(1,2)] i(3) by simp
    then show "\<exists>i<k. 8 * i \<le> n \<and> bit (ucast (p ! i) :: 'a word) (n - 8 * i)"
      using i(1,2) by blast
  qed
  then show "bit (foldl (\<lambda>w i. w OR push_bit (8 * i) (ucast (p ! i))) (0 :: 'a word) [0..<k]) n = bit v n"
    using n by (simp add: bit_or_bytes)
qed

lemma take_put_u32 [simp]: "take_u32 (put_u32 v @ r) = (v, r)"
  using or_bytes_eq [of 4 "put_u32 v @ r" v] by (simp add: take_u32_def put_u32_def nth_append)

lemma take_put_u64 [simp]: "take_u64 (put_u64 v @ r) = (v, r)"
  using or_bytes_eq [of 8 "put_u64 v @ r" v] by (simp add: take_u64_def put_u64_def nth_append)

lemma byte_of_or_bytes:
  assumes "8 * k = LENGTH('a::len)" and "i < k"
  shows "ucast (drop_bit (8 * i) (foldl (\<lambda>w i. w OR push_bit (8 * i) (ucast (p ! i))) (0 :: 'a word) [0..<k]))
           = (p ! i :: u8)"
proof (rule bit_word_eqI)
  fix n
  assume n: "n < LENGTH(8)"
  then have "8 * i + n < LENGTH('a)" using assms by simp
  moreover have "(\<exists>i'<k. 8 * i' \<le> 8 * i + n \<and> bit (ucast (p ! i') :: 'a word) (8 * i + n - 8 * i')) \<longleftrightarrow>
      bit (p ! i) n"
  proof
    assume "\<exists>i'<k. 8 * i' \<le> 8 * i + n \<and> bit (ucast (p ! i') :: 'a word) (8 * i + n - 8 * i')"
    then obtain i' where i': "8 * i' \<le> 8 * i + n" "bit (p ! i') (8 * i + n - 8 * i')"
      by (auto simp: bit_simps)
    then have "i' = i" using \<open>n < LENGTH(8)\<close> bit_imp_le_length [OF i'(2)] by simp
    then show "bit (p ! i) n" using i' by simp
  next
    assume "bit (p ! i) n"
    then show "\<exists>i'<k. 8 * i' \<le> 8 * i + n \<and> bit (ucast (p ! i') :: 'a word) (8 * i + n - 8 * i')"
      using assms calculation by (intro exI [of _ i]) (simp add: bit_simps)
  qed
  ultimately show "bit (ucast (drop_bit (8 * i) (foldl (\<lambda>w i. w OR push_bit (8 * i) (ucast (p ! i))) (0 :: 'a word) [0..<k])) :: u8) n
      = bit (p ! i) n"
    using n by (simp add: bit_simps bit_or_bytes)
qed

lemma put_take_u32:
  assumes "take_u32 p = (v, r)" and "4 \<le> length p"
  shows "p = put_u32 v @ r"
proof -
  have v: "v = foldl (\<lambda>w i. w OR push_bit (8 * i) (ucast (p ! i))) 0 [0..<4]" and r: "r = drop 4 p"
    using assms(1) by (auto simp: take_u32_def)
  have "put_u32 v = take 4 p"
    using assms(2) byte_of_or_bytes [where 'a = 32 and k = 4 and p = p]
    by (intro nth_equalityI) (simp_all add: v put_u32_def)
  then show ?thesis by (simp add: r)
qed

lemma put_take_u64:
  assumes "take_u64 p = (v, r)" and "8 \<le> length p"
  shows "p = put_u64 v @ r"
proof -
  have v: "v = foldl (\<lambda>w i. w OR push_bit (8 * i) (ucast (p ! i))) 0 [0..<8]" and r: "r = drop 8 p"
    using assms(1) by (auto simp: take_u64_def)
  have "put_u64 v = take 8 p"
    using assms(2) byte_of_or_bytes [where 'a = 64 and k = 8 and p = p]
    by (intro nth_equalityI) (simp_all add: v put_u64_def)
  then show ?thesis by (simp add: r)
qed

lemma char_of_byte_of_char [simp]: "char_of_byte (byte_of_char c) = c"
  by (simp add: char_of_byte_def byte_of_char_def unat_of_nat)

lemma byte_of_char_of_byte [simp]: "byte_of_char (char_of_byte b) = b"
  using unsigned_less [of b, where 'a = nat]
  by (simp add: char_of_byte_def byte_of_char_def)

lemma chars_bytes [simp]:
  "map char_of_byte (map byte_of_char s) = s" "map byte_of_char (map char_of_byte bs) = bs"
  by (simp_all add: comp_def)

lemma take_put_tokens: "take_tokens (length ts) (concat (map put_u32 ts) @ r) = ts"
  by (induction ts) simp_all

lemma put_take_tokens:
  "4 * n \<le> length p \<Longrightarrow> concat (map put_u32 (take_tokens n p)) = take (4 * n) p \<and> length (take_tokens n p) = n"
proof (induction n arbitrary: p)
  case 0
  then show ?case by simp
next
  case (Suc n)
  obtain t q where t: "take_u32 p = (t, q)" by (cases "take_u32 p")
  then have p: "p = put_u32 t @ q" using put_take_u32 Suc.prems by simp
  then have "4 * n \<le> length q" using Suc.prems by simp
  from Suc.IH [OF this] show ?case using p by (simp add: t [simplified p])
qed


section \<open>Transfers\<close>

lemma write_all_step:
  assumes "data \<noteq> []"
  shows "write_all data (out, []) = (Inr (), out @ data, [])"
    and "write_all data (out, Fails # as) = (Inl ChunkStoreError, out, as)"
    and "write_all data (out, Short n # as) = write_all (drop (n + 1) data) (out @ take (n + 1) data, as)"
  using assms by (cases data; simp)+

lemma write_all_ok:
  "write_all data (out, as) = (Inr u, st) \<Longrightarrow> fst st = out @ data"
proof (induction "as" arbitrary: data out)
  case Nil
  then show ?case by (cases "data = []") (auto simp: write_all_step(1))
next
  case (Cons a as)
  then show ?case by (cases "data = []"; cases a) (fastforce simp: write_all_step(2,3))+
qed

lemma write_all_total:
  "Fails \<notin> set as \<Longrightarrow> \<exists>as'. write_all data (out, as) = (Inr (), out @ data, as') \<and> Fails \<notin> set as'"
proof (induction "as" arbitrary: data out)
  case Nil
  then show ?case by (cases "data = []") (auto simp: write_all_step(1))
next
  case (Cons a as)
  then obtain n where a: "a = Short n" by (cases a) auto
  show ?case
  proof (cases "data = []")
    case True
    then show ?thesis using Cons.prems by simp
  next
    case False
    then show ?thesis
      using Cons.IH [of "drop (n + 1) data" "out @ take (n + 1) data"] Cons.prems
      by (simp add: a write_all_step(3) del: take_Suc drop_Suc)
  qed
qed

lemma write_all_err: "write_all data (out, as) = (Inl e, st) \<Longrightarrow> e = ChunkStoreError \<and> Fails \<in> set as"
proof (induction "as" arbitrary: data out)
  case Nil
  then show ?case by (cases "data = []") (auto simp: write_all_step(1))
next
  case (Cons a as)
  then show ?case by (cases "data = []"; cases a) (fastforce simp: write_all_step(2,3))+
qed

text \<open>A transfer that succeeds delivers the next \<open>n\<close> bytes, whatever the answers were.\<close>

lemma read_all_Nil:
  "read_all n (rest, []) =
     (if length rest < n then (Inl ChunkCorruptError, [], []) else (Inr (take n rest), drop n rest, []))"
  by (simp add: read_all.simps)

lemma read_all_Fails: "0 < n \<Longrightarrow> read_all n (rest, Fails # as) = (Inl ChunkStoreError, rest, as)"
  by (simp add: read_all.simps)

lemma read_all_Short:
  assumes "0 < n" and "m = min (k + 1) (min n (length rest))"
  shows "read_all n (rest, Short k # as) =
     (if m = 0 then (Inl ChunkCorruptError, rest, as)
      else and_then (read_all (n - m) (drop m rest, as)) (\<lambda>data st. (Inr (take m rest @ data), st)))"
  unfolding read_all.simps assms(2) Let_def using assms(1) by simp

lemma read_all_0: "read_all 0 st = (Inr [], st)"
  by (cases "(0 :: nat, st)" rule: read_all.cases) (simp_all add: read_all.simps)

lemma read_all_ok:
  "read_all n (rest, as) = (Inr data, rest', as') \<Longrightarrow> rest = data @ rest' \<and> length data = n"
proof (induction "as" arbitrary: n rest data)
  case Nil
  then show ?case by (auto simp: read_all_Nil split: if_splits)
next
  case (Cons a as)
  show ?case
  proof (cases "n = 0")
    case True
    then show ?thesis using Cons.prems by (simp add: read_all_0)
  next
    case n: False
    show ?thesis
    proof (cases a)
      case Fails
      then show ?thesis using Cons.prems n by (simp add: read_all_Fails)
    next
      case (Short k)
      define m where "m = min (k + 1) (min n (length rest))"
      have le: "m \<le> n" "m \<le> length rest" by (simp_all add: m_def)
      note r = Cons.prems [unfolded Short read_all_Short [OF n [unfolded neq0_conv] m_def]]
      then have "m \<noteq> 0" by (auto split: if_splits)
      then obtain d where d: "read_all (n - m) (drop m rest, as) = (Inr d, rest', as')"
        and data: "data = take m rest @ d"
        using r by (auto simp: and_then_Inr_iff)
      from Cons.IH [OF d] have e: "drop m rest = d @ rest'" "length d = n - m" by blast+
      have "rest = take m rest @ drop m rest" by simp
      then show ?thesis using e le data by (metis append_assoc le_add_diff_inverse length_append length_take min.absorb2)
    qed
  qed
qed

lemma read_all_total:
  "Fails \<notin> set as \<Longrightarrow> n \<le> length rest \<Longrightarrow>
     \<exists>as'. read_all n (rest, as) = (Inr (take n rest), drop n rest, as') \<and> Fails \<notin> set as'"
proof (induction "as" arbitrary: n rest)
  case Nil
  then show ?case by (auto simp: read_all_Nil)
next
  case (Cons a as)
  show ?case
  proof (cases "n = 0")
    case True
    then show ?thesis using Cons.prems by (simp add: read_all_0)
  next
    case n: False
    obtain k where k: "a = Short k" using Cons.prems by (cases a) auto
    define m where "m = min (k + 1) (min n (length rest))"
    have m: "m \<noteq> 0" "m \<le> n" using n Cons.prems by (auto simp: m_def)
    have le: "n - m \<le> length (drop m rest)" "Fails \<notin> set as"
      using Cons.prems diff_le_mono [OF Cons.prems(2), of m] by auto
    obtain as' where r: "read_all (n - m) (drop m rest, as) =
        (Inr (take (n - m) (drop m rest)), drop (n - m) (drop m rest), as')" "Fails \<notin> set as'"
      using Cons.IH [OF le(2,1)] by blast
    have "take m rest @ take (n - m) (drop m rest) = take n rest"
      using m by (metis le_add_diff_inverse take_add)
    then show ?thesis
      using r m n by (simp add: k read_all_Short [OF n [unfolded neq0_conv] m_def])
  qed
qed

lemma read_all_append:
  assumes "Fails \<notin> set as" and "length data = n"
  obtains as' where "read_all n (data @ rest, as) = (Inr data, rest, as')" and "Fails \<notin> set as'"
  using read_all_total [OF assms(1), of n "data @ rest"] assms by auto

lemma read_all_err:
  "read_all n (rest, as) = (Inl e, st) \<Longrightarrow> e = ChunkCorruptError \<or> e = ChunkStoreError \<and> Fails \<in> set as"
proof (induction "as" arbitrary: n rest)
  case Nil
  then show ?case by (auto simp: read_all_Nil split: if_splits)
next
  case (Cons a as)
  show ?case
  proof (cases "n = 0")
    case True
    then show ?thesis using Cons.prems by (simp add: read_all_0)
  next
    case n: False
    then show ?thesis
      using Cons by (cases a) (auto simp: read_all_Fails read_all_Short and_then_Inl_iff split: if_splits)
  qed
qed

section \<open>File names\<close>

definition number :: "string \<Rightarrow> nat" where
  "number = foldl (\<lambda>n c. 10 * n + (of_char c - 48)) 0"

lemma number_digits: "number (digits n) = n"
proof (induction n rule: digits.induct)
  case (1 n)
  have d: "of_char (char_of (48 + k) :: char) = 48 + k" if "k < 10" for k :: nat
    using that by simp
  show ?case
  proof (cases "n < 10")
    case True
    then show ?thesis using d [of n] by (simp add: digits.simps [of n] number_def)
  next
    case False
    then show ?thesis using 1 d [of "n mod 10"] by (simp add: digits.simps [of n] number_def)
  qed
qed

lemma number_zeros: "number (replicate k (char_of (48 :: nat)) @ s) = number s"
  by (induction k) (simp_all add: number_def)

lemma chunk_name_inj: "chunk_name i = chunk_name j \<Longrightarrow> i = j"
proof -
  assume "chunk_name i = chunk_name j"
  then have "replicate (6 - length (digits i)) (char_of (48 :: nat)) @ digits i =
      replicate (6 - length (digits j)) (char_of (48 :: nat)) @ digits j"
    by (simp add: chunk_name_def Let_def)
  from arg_cong [OF this, of number] show "i = j" by (simp add: number_zeros number_digits)
qed

lemma suffix_names:
  "published (chunk_name slot)" "\<not> published (tmp_name slot)" "chunk_name i \<noteq> tmp_name j"
proof -
  show p: "published (chunk_name slot)" for slot
    by (simp add: published_def chunk_name_def Let_def)
  show t: "\<not> published (tmp_name slot)" for slot
    by (simp add: published_def tmp_name_def)
  show "chunk_name i \<noteq> tmp_name j" using p [of i] t [of j] by metis
qed


section \<open>Parsing and printing headers\<close>

text \<open>The metadata the format can carry: what the sanity checks of \<open>read\<close> let through.\<close>

definition meta_ok :: "chunk_file_meta \<Rightarrow> bool" where
  "meta_ok m \<longleftrightarrow> length (fm_model_id m) \<le> 4096 \<and> length (fm_prefix m) \<le> 4194304 \<and>
     (\<forall>i. fm_dtype m \<noteq> OtherDType i)"

definition header_fields :: "chunk_file_meta \<Rightarrow> bytes" where
  "header_fields m =
     put_u32 (fm_layout_version m) @ put_u32 (word_of_int (dtype_value (fm_dtype m))) @
     put_u32 (fm_first_layer m) @ put_u32 (fm_last_layer m) @ put_u64 (fm_prefix_hash m) @
     put_u64 (of_nat (length (fm_prefix m)))"

text \<open>The header with its payload checksum filled in, cut where \<open>read\<close> cuts it.\<close>

lemma fill_checksum_parts:
  "fill_checksum (serialize_header m) c =
     (kMagic @ put_u32 format_version @ put_u32 (of_nat (length (fm_model_id m)))) @
     map byte_of_char (fm_model_id m) @ header_fields m @ concat (map put_u32 (fm_prefix m)) @
     (put_u64 (fm_valid_token_count m) @ put_u64 (fm_payload_size m) @ put_u64 c)"
proof -
  have "take (length (xs @ put_u64 0) - 8) (xs @ put_u64 0) = xs" for xs by simp
  from this [of "kMagic @ put_u32 format_version @ put_u32 (of_nat (length (fm_model_id m))) @
     map byte_of_char (fm_model_id m) @ header_fields m @ concat (map put_u32 (fm_prefix m)) @
     put_u64 (fm_valid_token_count m) @ put_u64 (fm_payload_size m)"]
  show ?thesis by (simp add: fill_checksum_def serialize_header_def header_fields_def)
qed

lemma kMagic_length [simp]: "length kMagic = 4"
  by (simp add: kMagic_def)

lemma header_fields_length [simp]: "length (header_fields m) = 32"
  by (simp add: header_fields_def)

lemma tokens_length [simp]: "length (concat (map put_u32 ts)) = 4 * length ts"
  by (induction ts) simp_all

lemma length_u32: "n \<le> 4194304 \<Longrightarrow> unat (of_nat n :: u32) = n"
  and length_u64: "n \<le> 4194304 \<Longrightarrow> unat (of_nat n :: u64) = n"
  by (simp_all add: unat_of_nat)

lemma dtype_of_value: "(\<forall>i. dt \<noteq> OtherDType i) \<Longrightarrow>
    dtype_of (word_of_int (dtype_value dt)) = dt \<and> (word_of_int (dtype_value dt) :: u32) \<le> 2"
  by (cases dt) (simp_all add: dtype_of_def)

lemma dtype_value_of: "d \<le> 2 \<Longrightarrow> word_of_int (dtype_value (dtype_of d)) = d \<and> dtype_of d \<noteq> OtherDType i"
proof -
  assume d: "d \<le> 2"
  have "unat d \<le> 2" using d by (simp add: word_le_nat_alt)
  then have "unat d = 0 \<or> unat d = 1 \<or> unat d = 2" by linarith
  then have "d = 0 \<or> d = 1 \<or> d = 2" by (auto simp: word_unat_eq_iff)
  then show ?thesis by (auto simp: dtype_of_def)
qed

lemma read_header_print:
  assumes ok: "meta_ok m" and as: "Fails \<notin> set as"
  obtains as' where "read_header (fill_checksum (serialize_header m) c @ rest, as) = (Inr (m, c), rest, as')"
    and "Fails \<notin> set as'"
proof -
  let ?lead = "kMagic @ put_u32 format_version @ put_u32 (of_nat (length (fm_model_id m)))"
  let ?model = "map byte_of_char (fm_model_id m)" and ?toks = "concat (map put_u32 (fm_prefix m))"
  let ?tail = "put_u64 (fm_valid_token_count m) @ put_u64 (fm_payload_size m) @ put_u64 c"
  have len: "unat (of_nat (length (fm_model_id m)) :: u32) = length (fm_model_id m)"
    "unat (of_nat (length (fm_prefix m)) :: u64) = length (fm_prefix m)"
    using ok by (simp_all add: meta_ok_def length_u32 length_u64)
  have small: "\<not> (of_nat (length (fm_model_id m)) :: u32) > 4096"
    "\<not> (of_nat (length (fm_prefix m)) :: u64) > push_bit 22 1"
    using ok len by (simp_all add: meta_ok_def word_less_nat_alt)
  have dt: "dtype_of (word_of_int (dtype_value (fm_dtype m))) = fm_dtype m"
    "\<not> (word_of_int (dtype_value (fm_dtype m)) :: u32) > 2"
    using ok dtype_of_value [of "fm_dtype m"] by (simp_all add: meta_ok_def not_less)
  obtain as1 where r1: "read_all 12 (?lead @ ?model @ header_fields m @ ?toks @ ?tail @ rest, as) =
      (Inr ?lead, ?model @ header_fields m @ ?toks @ ?tail @ rest, as1)" and as1: "Fails \<notin> set as1"
    using read_all_append [OF as, of ?lead 12] by auto
  obtain as2 where r2: "read_all (length (fm_model_id m)) (?model @ header_fields m @ ?toks @ ?tail @ rest, as1) =
      (Inr ?model, header_fields m @ ?toks @ ?tail @ rest, as2)" and as2: "Fails \<notin> set as2"
    using read_all_append [OF as1, of ?model "length (fm_model_id m)"] by auto
  obtain as3 where r3: "read_all 32 (header_fields m @ ?toks @ ?tail @ rest, as2) =
      (Inr (header_fields m), ?toks @ ?tail @ rest, as3)" and as3: "Fails \<notin> set as3"
    using read_all_append [OF as2, of "header_fields m" 32] by auto
  obtain as4 where r4: "read_all (length (fm_prefix m) * 4) (?toks @ ?tail @ rest, as3) =
      (Inr ?toks, ?tail @ rest, as4)" and as4: "Fails \<notin> set as4"
    using read_all_append [OF as3, of ?toks "length (fm_prefix m) * 4"] by auto
  obtain as5 where r5: "read_all 24 (?tail @ rest, as4) = (Inr ?tail, rest, as5)" and as5: "Fails \<notin> set as5"
    using read_all_append [OF as4, of ?tail 24] by auto
  have lead: "read_lead (?lead @ ?model @ header_fields m @ ?toks @ ?tail @ rest, as) =
      (Inr (of_nat (length (fm_model_id m))), ?model @ header_fields m @ ?toks @ ?tail @ rest, as1)"
    using r1 small(1) by (simp add: read_lead_def take_put_u32 [where r = "[]", simplified])
  have f: "take_u64 (put_u64 v) = (v, [])" for v using take_put_u64 [of v "[]"] by simp
  have "read_header (?lead @ ?model @ header_fields m @ ?toks @ ?tail @ rest, as) = (Inr (m, c), rest, as5)"
    using r2 r3 r4 r5 dt len small(2) take_put_tokens [of "fm_prefix m" "[]"]
    unfolding read_header_def lead
    by (simp add: header_fields_def f comp_def)
  then show ?thesis using that as5 by (simp add: fill_checksum_parts)
qed


lemma taken_u32:
  assumes "take_u32 p = (v, r)" and "length p = k" and "4 \<le> k"
  shows "p = put_u32 v @ r" and "length r = k - 4"
  using put_take_u32 [OF assms(1)] assms(2,3) by auto

lemma taken_u64:
  assumes "take_u64 p = (v, r)" and "length p = k" and "8 \<le> k"
  shows "p = put_u64 v @ r" and "length r = k - 8"
  using put_take_u64 [OF assms(1)] assms(2,3) by auto

text \<open>Conversely, what the parser accepts is the header it returns.\<close>

lemma read_lead_sound:
  assumes "read_lead (content, as) = (Inr n, rest, as')"
  shows "content = (kMagic @ put_u32 format_version @ put_u32 n) @ rest \<and> n \<le> 4096"
proof -
  obtain lead as1 where r: "read_all 12 (content, as) = (Inr lead, rest, as1)"
    and c: "take 4 lead = kMagic" "fst (take_u32 (drop 4 lead)) = format_version"
      "fst (take_u32 (snd (take_u32 (drop 4 lead)))) = n" "n \<le> 4096"
    using assms unfolding read_lead_def
    by (auto simp: and_then_Inr_iff Let_def not_less split: if_splits prod.splits)
  note ok = read_all_ok [OF r]
  have l: "length (drop 4 lead) = 8" using ok by simp
  obtain q where q: "take_u32 (drop 4 lead) = (format_version, q)" using c(2) by (metis prod.collapse)
  obtain q' where q': "take_u32 q = (n, q')" using c(3) q by (metis prod.collapse snd_conv)
  have l1: "drop 4 lead = put_u32 format_version @ q" and lq: "length q = 4" using taken_u32 [OF q l] by simp_all
  have l2: "q = put_u32 n @ q'" and "length q' = 0" using taken_u32 [OF q' lq] by simp_all
  then have "drop 4 lead = put_u32 format_version @ put_u32 n" using l1 by simp
  then have "lead = kMagic @ put_u32 format_version @ put_u32 n"
    using c(1) append_take_drop_id [of 4 lead] by simp
  then show ?thesis using ok c(4) by simp
qed

lemma read_header_sound:
  assumes "read_header (content, as) = (Inr (m, c), rest, as')"
  shows "content = fill_checksum (serialize_header m) c @ rest \<and> meta_ok m"
proof -
  obtain ml st1 where r1: "read_lead (content, as) = (Inr ml, st1)"
    and s1: "and_then (read_all (unat ml) st1) (\<lambda>model st.
     and_then (read_all 32 st) (\<lambda>fixed st.
       let (layout_version, p) = take_u32 fixed;
           (dt, p) = take_u32 p
       in if dt > 2 then (Inl ChunkCorruptError, st)
          else
            let (first_layer, p) = take_u32 p;
                (last_layer, p) = take_u32 p;
                (prefix_hash, p) = take_u64 p;
                (prefix_len, p) = take_u64 p
            in if prefix_len > push_bit 22 1 then (Inl ChunkCorruptError, st)
               else
                 and_then (read_all (unat prefix_len * 4) st) (\<lambda>token_bytes st.
                 and_then (read_all 24 st) (\<lambda>tail st.
                   let (valid_tokens, p) = take_u64 tail;
                       (payload_size, p) = take_u64 p;
                       (payload_sum, p) = take_u64 p
                   in (Inr (\<lparr>fm_model_id = map char_of_byte model, fm_layout_version = layout_version,
                             fm_dtype = dtype_of dt, fm_first_layer = first_layer, fm_last_layer = last_layer,
                             fm_prefix_hash = prefix_hash,
                             fm_prefix = take_tokens (unat prefix_len) token_bytes,
                             fm_valid_token_count = valid_tokens, fm_payload_size = payload_size\<rparr>,
                            payload_sum), st))))) = (Inr (m, c), rest, as')"
    using assms unfolding read_header_def by (auto simp: and_then_Inr_iff)
  then obtain model st2 where r2: "read_all (unat ml) st1 = (Inr model, st2)" by (auto simp: and_then_Inr_iff)
  note s2 = s1 [unfolded r2 and_then.simps]
  then obtain fixed st3 where r3: "read_all 32 st2 = (Inr fixed, st3)" by (auto simp: and_then_Inr_iff)
  obtain lv p1 where t1: "take_u32 fixed = (lv, p1)" by (cases "take_u32 fixed")
  obtain dt p2 where t2: "take_u32 p1 = (dt, p2)" by (cases "take_u32 p1")
  obtain fl p3 where t3: "take_u32 p2 = (fl, p3)" by (cases "take_u32 p2")
  obtain ll p4 where t4: "take_u32 p3 = (ll, p4)" by (cases "take_u32 p3")
  obtain ph p5 where t5: "take_u64 p4 = (ph, p5)" by (cases "take_u64 p4")
  obtain pl p6 where t6: "take_u64 p5 = (pl, p6)" by (cases "take_u64 p5")
  note s3 = s2 [unfolded r3 and_then.simps Let_def t1 t2 t3 t4 t5 t6 prod.case]
  then have dt: "dt \<le> 2" and pl: "pl \<le> push_bit 22 1" by (auto split: if_splits simp: not_less)
  obtain tb st4 where r4: "read_all (unat pl * 4) st3 = (Inr tb, st4)"
    using s3 by (auto simp: and_then_Inr_iff split: if_splits)
  obtain tail st5 where r5: "read_all 24 st4 = (Inr tail, st5)"
    using s3 unfolding r4 by (auto simp: and_then_Inr_iff split: if_splits)
  obtain vt q1 where u1: "take_u64 tail = (vt, q1)" by (cases "take_u64 tail")
  obtain ps q2 where u2: "take_u64 q1 = (ps, q2)" by (cases "take_u64 q1")
  obtain cs q3 where u3: "take_u64 q2 = (cs, q3)" by (cases "take_u64 q2")
  have m: "m = \<lparr>fm_model_id = map char_of_byte model, fm_layout_version = lv,
       fm_dtype = dtype_of dt, fm_first_layer = fl, fm_last_layer = ll, fm_prefix_hash = ph,
       fm_prefix = take_tokens (unat pl) tb, fm_valid_token_count = vt, fm_payload_size = ps\<rparr>"
    and c: "c = cs" and st5: "st5 = (rest, as')"
    using s3 unfolding r4 r5 u1 u2 u3 and_then.simps prod.case by (auto split: if_splits)
  obtain c1 a1 c2 a2 c3 a3 c4 a4 where st: "st1 = (c1, a1)" "st2 = (c2, a2)" "st3 = (c3, a3)" "st4 = (c4, a4)"
    by (metis surj_pair)
  note o1 = read_lead_sound [OF r1 [unfolded st]]
  note o2 = read_all_ok [OF r2 [unfolded st]]
  note o3 = read_all_ok [OF r3 [unfolded st]]
  note o4 = read_all_ok [OF r4 [unfolded st]]
  note o5 = read_all_ok [OF r5 [unfolded st st5]]
  have lf: "length fixed = 32" and lt: "length tail = 24" using o3 o5 by simp_all
  note l1 = taken_u32 [OF t1 lf, simplified]
  note l2 = taken_u32 [OF t2 l1(2), simplified]
  note l3 = taken_u32 [OF t3 l2(2), simplified]
  note l4 = taken_u32 [OF t4 l3(2), simplified]
  note l5 = taken_u64 [OF t5 l4(2), simplified]
  note l6 = taken_u64 [OF t6 l5(2), simplified]
  note k1 = taken_u64 [OF u1 lt, simplified]
  note k2 = taken_u64 [OF u2 k1(2), simplified]
  note k3 = taken_u64 [OF u3 k2(2), simplified]
  have fixed: "fixed = put_u32 lv @ put_u32 dt @ put_u32 fl @ put_u32 ll @ put_u64 ph @ put_u64 pl"
    using l1 l2 l3 l4 l5 l6 by simp
  have tail: "tail = put_u64 vt @ put_u64 ps @ put_u64 cs" using k1 k2 k3 by simp
  have toks: "concat (map put_u32 (take_tokens (unat pl) tb)) = tb \<and> length (take_tokens (unat pl) tb) = unat pl"
    using put_take_tokens [of "unat pl" tb] o4 by simp
  have model: "length model = unat ml" using o2 by blast
  have "fill_checksum (serialize_header m) c =
      (kMagic @ put_u32 format_version @ put_u32 ml) @ model @ fixed @ tb @ tail"
    using toks model dtype_value_of [OF dt] unfolding fill_checksum_parts header_fields_def m c fixed tail
    by (simp add: comp_def)
  moreover have "content = (kMagic @ put_u32 format_version @ put_u32 ml) @ model @ fixed @ tb @ tail @ rest"
    using o1 o2 o3 o4 o5 by simp
  moreover have "meta_ok m"
    using o1 model toks pl dtype_value_of [OF dt]
    by (simp add: meta_ok_def m word_le_nat_alt)
  ultimately show ?thesis by simp
qed


text \<open>The two directions for a whole file.\<close>

lemma read_body_print:
  assumes "meta_ok m" and "length payload = unat (fm_payload_size m)" and "same_identity m expected"
    and "length payload \<le> cap" and as: "Fails \<notin> set as"
  shows "fst (read_body expected cap (file_header m payload @ payload, as)) = Inr (Some (payload, m))"
proof -
  let ?c = "chunk_checksum payload"
  let ?h = "fill_checksum (serialize_header m) ?c"
  obtain as1 where r1: "read_header (?h @ put_u64 (chunk_checksum ?h) @ payload, as) =
      (Inr (m, ?c), put_u64 (chunk_checksum ?h) @ payload, as1)" and as1: "Fails \<notin> set as1"
    using read_header_print [OF assms(1) as, of ?c "put_u64 (chunk_checksum ?h) @ payload"] by auto
  obtain as2 where r2: "read_all 8 (put_u64 (chunk_checksum ?h) @ payload, as1) =
      (Inr (put_u64 (chunk_checksum ?h)), payload, as2)" and as2: "Fails \<notin> set as2"
    using read_all_append [OF as1, of "put_u64 (chunk_checksum ?h)" 8 payload] by auto
  obtain as3 where r3: "read_all (unat (fm_payload_size m)) (payload, as2) = (Inr payload, [], as3)"
    using read_all_append [OF as2 assms(2), of "[]"] by auto
  have t: "take_u64 (put_u64 v) = (v, [])" for v using take_put_u64 [of v "[]"] by simp
  show ?thesis
    using r1 r2 r3 assms(2-4) by (simp add: read_body_def file_header_def Let_def t)
qed

lemma read_body_sound:
  assumes "read_body expected cap (content, as) = (Inr (Some (out, m)), st)"
  shows "content = file_header m out @ out @ fst st" and "meta_ok m" and "same_identity m expected"
    and "length out = unat (fm_payload_size m)" and "length out \<le> cap"
proof -
  obtain c rest as1 where r1: "read_header (content, as) = (Inr (m, c), rest, as1)"
    and s1: "\<exists>sum_bytes rest2 as2. read_all 8 (rest, as1) = (Inr sum_bytes, rest2, as2) \<and>
      chunk_checksum (fill_checksum (serialize_header m) c) = fst (take_u64 sum_bytes) \<and>
      same_identity m expected \<and> unat (fm_payload_size m) \<le> cap \<and> 
      read_all (unat (fm_payload_size m)) (rest2, as2) = (Inr out, st) \<and> chunk_checksum out = c"
    using assms unfolding read_body_def
    by (auto simp: and_then_Inr_iff Let_def not_less split: if_splits prod.splits)
  then obtain sb rest2 as2 where r2: "read_all 8 (rest, as1) = (Inr sb, rest2, as2)"
    and hs: "chunk_checksum (fill_checksum (serialize_header m) c) = fst (take_u64 sb)"
    and id: "same_identity m expected" "unat (fm_payload_size m) \<le> cap"
    and r3: "read_all (unat (fm_payload_size m)) (rest2, as2) = (Inr out, st)" and c: "chunk_checksum out = c"
    by blast
  note h = read_header_sound [OF r1]
  note o2 = read_all_ok [OF r2]
  obtain v q where v: "take_u64 sb = (v, q)" by (cases "take_u64 sb")
  have sb: "sb = put_u64 v @ q" "length q = 0" using taken_u64 [OF v] o2 by simp_all
  obtain r a where st: "st = (r, a)" by (cases st)
  note o3 = read_all_ok [OF r3 [unfolded st]]
  show "content = file_header m out @ out @ fst st"
    using h o2 o3 sb hs v c by (simp add: file_header_def Let_def st)
  show "meta_ok m" "same_identity m expected" "length out = unat (fm_payload_size m)" "length out \<le> cap"
    using h id o3 by simp_all
qed

section \<open>The operations\<close>

lemma cs_file_delete: "k \<noteq> chunk_name slot \<Longrightarrow> cs_file slot (s\<lparr>cs_files := AList.delete k (cs_files s)\<rparr>) = cs_file slot s"
  by (simp add: cs_file_def delete_conv')

lemma cs_file_update: "k \<noteq> chunk_name slot \<Longrightarrow> cs_file slot (s\<lparr>cs_files := AList.update k v (cs_files s)\<rparr>) = cs_file slot s"
  by (simp add: cs_file_def update_conv')

lemma discard_tmp_simps [simp]:
  "cs_file i (discard_tmp env (tmp_name j) out s) = cs_file i s"
  "cs_stored_bytes (discard_tmp env tmp out s) = cs_stored_bytes s"
  "cs_quota_bytes (discard_tmp env tmp out s) = cs_quota_bytes s"
  using suffix_names(3) [of i j] by (simp_all add: discard_tmp_def cs_file_def delete_conv' update_conv')

text \<open>What \<open>write\<close> does, with the file it publishes.\<close>

definition file_content :: "chunk_file_meta \<Rightarrow> bytes \<Rightarrow> bytes" where
  "file_content meta payload =
     (let p = take (unat (fm_payload_size meta)) payload in file_header meta p @ p)"

lemma cs_write_cases:
  assumes "cs_write env slot meta payload s = (r, s')"
  shows "r = Inr () \<and> unat (fm_payload_size meta) \<le> length payload \<and>
      (let replaced = (case cs_file slot s of Some old \<Rightarrow> file_size old | None \<Rightarrow> 0);
           bytes = of_nat (length (file_header meta (take (unat (fm_payload_size meta)) payload))) + fm_payload_size meta
       in bytes \<le> cs_quota_bytes s \<and> cs_stored_bytes s - replaced + bytes \<le> cs_quota_bytes s \<and>
          s' = s\<lparr>cs_files := AList.update (chunk_name slot) (file_content meta payload)
                              (AList.delete (tmp_name slot) (cs_files s)),
                 cs_stored_bytes := cs_stored_bytes s - replaced + bytes\<rparr>) \<or>
    (\<exists>e. r = Inl e \<and> e \<in> {Undefined, ChunkQuotaError, ChunkStoreError} \<and>
       (s' = s \<or> s' = s\<lparr>cs_files := AList.delete (tmp_name slot) (cs_files s)\<rparr> \<or>
        (\<exists>out. s' = s\<lparr>cs_files := AList.update (tmp_name slot) out (cs_files s)\<rparr>)))"
proof (cases "length payload < unat (fm_payload_size meta)")
  case True
  then show ?thesis using assms by (auto simp: cs_write_def)
next
  case len: False
  let ?p = "take (unat (fm_payload_size meta)) payload"
  let ?h = "file_header meta ?p"
  let ?bytes = "of_nat (length ?h) + fm_payload_size meta"
  let ?replaced = "case cs_file slot s of Some old \<Rightarrow> file_size old | None \<Rightarrow> 0"
  let ?w = "and_then (write_all ?h ([], io_answers env)) (\<lambda>_. write_all ?p)"
  show ?thesis
  proof (cases "?bytes > cs_quota_bytes s \<or> cs_stored_bytes s - ?replaced + ?bytes > cs_quota_bytes s \<or> \<not> io_open env")
    case True
    then show ?thesis using assms len by (auto simp: cs_write_def Let_def split: if_splits)
  next
    case go: False
    obtain x out as where w: "?w = (x, out, as)" by (metis surj_pair)
    show ?thesis
    proof (cases x)
      case (Inl e)
      have "e = ChunkStoreError"
        using w Inl by (auto simp: and_then_Inl_iff dest: write_all_err)
      then show ?thesis
        using assms len go w Inl by (auto simp: cs_write_def Let_def discard_tmp_def split: if_splits)
    next
      case (Inr u)
      have "out = ?h @ ?p" using w Inr by (auto simp: and_then_Inr_iff dest!: write_all_ok)
      then have out: "out = file_content meta payload" by (simp add: file_content_def Let_def)
      show ?thesis
      proof (cases "io_fsync env \<and> io_close env \<and> io_rename env")
        case True
        then show ?thesis using assms len go w Inr by (auto simp: cs_write_def Let_def out split: if_splits)
      next
        case False
        then show ?thesis
          using assms len go w Inr by (auto simp: cs_write_def Let_def discard_tmp_def split: if_splits)
      qed
    qed
  qed
qed


section \<open>Quota\<close>

definition weight :: "string \<times> bytes \<Rightarrow> nat" where
  "weight x = (if published (fst x) then length (snd x) else 0)"

definition stored_size :: "(string \<times> bytes) list \<Rightarrow> nat" where
  "stored_size fs = sum_list (map weight fs)"

definition size_at :: "(string \<times> bytes) list \<Rightarrow> string \<Rightarrow> nat" where
  "size_at fs k = (case map_of fs k of None \<Rightarrow> 0 | Some c \<Rightarrow> weight (k, c))"

lemma stored_size_update:
  "stored_size (AList.update k v fs) + size_at fs k = stored_size fs + weight (k, v)"
  by (induction fs) (auto simp: stored_size_def size_at_def)

lemma size_at_le: "size_at fs k \<le> stored_size fs"
  by (induction fs) (auto simp: stored_size_def size_at_def)

lemma delete_absent: "map_of fs k = None \<Longrightarrow> AList.delete k fs = fs"
  by (induction fs) (auto split: if_splits)

lemma stored_size_delete:
  "distinct (map fst fs) \<Longrightarrow> stored_size (AList.delete k fs) + size_at fs k = stored_size fs"
proof (induction fs)
  case Nil
  then show ?case by (simp add: stored_size_def size_at_def)
next
  case (Cons x fs)
  obtain j c where x: "x = (j, c)" by (cases x)
  show ?case
  proof (cases "j = k")
    case True
    then have "map_of fs k = None" using Cons.prems x by (simp add: map_of_eq_None_iff)
    then show ?thesis using x True by (simp add: stored_size_def size_at_def delete_absent)
  next
    case False
    then show ?thesis using Cons x by (auto simp: stored_size_def size_at_def)
  qed
qed

lemma size_at_delete: "j \<noteq> k \<Longrightarrow> size_at (AList.delete j fs) k = size_at fs k"
  by (simp add: size_at_def delete_conv')

lemma size_at_tmp: "size_at fs (tmp_name slot) = 0"
  using suffix_names(2) [of slot] by (simp add: size_at_def weight_def split: option.split)

text \<open>The counter is exact and within the quota, and file names are unique.\<close>

definition cs_inv :: "chunk_file_store \<Rightarrow> bool" where
  "cs_inv s \<longleftrightarrow> distinct (map fst (cs_files s)) \<and>
     unat (cs_stored_bytes s) = stored_size (cs_files s) \<and> cs_stored_bytes s \<le> cs_quota_bytes s \<and>
     unat (cs_quota_bytes s) < 2 ^ 63"

lemma cs_inv_replaced:
  assumes "cs_inv s" and "r = (case cs_file slot s of Some old \<Rightarrow> file_size old | None \<Rightarrow> 0)"
  shows "unat r = size_at (cs_files s) (chunk_name slot)" and "r \<le> cs_stored_bytes s"
proof -
  have q: "stored_size (cs_files s) < 2 ^ 63"
    using assms(1) by (simp add: cs_inv_def word_le_nat_alt)
  show "unat r = size_at (cs_files s) (chunk_name slot)"
  proof (cases "cs_file slot s")
    case None
    then show ?thesis using assms(2) by (simp add: size_at_def cs_file_def)
  next
    case (Some old)
    then have "size_at (cs_files s) (chunk_name slot) = length old"
      using suffix_names(1) [of slot] by (simp add: size_at_def cs_file_def weight_def)
    moreover have "size_at (cs_files s) (chunk_name slot) < 2 ^ 64"
      using size_at_le [of "cs_files s" "chunk_name slot"] q by simp
    ultimately show ?thesis using assms(2) Some by (simp add: file_size_def unat_of_nat)
  qed
  then show "r \<le> cs_stored_bytes s"
    using size_at_le [of "cs_files s" "chunk_name slot"] assms(1) by (simp add: word_le_nat_alt cs_inv_def)
qed

lemma cs_inv_tmp:
  assumes "cs_inv s"
  shows "cs_inv (s\<lparr>cs_files := AList.delete (tmp_name slot) (cs_files s)\<rparr>)"
    and "cs_inv (s\<lparr>cs_files := AList.update (tmp_name slot) out (cs_files s)\<rparr>)"
proof -
  have d: "distinct (map fst (cs_files s))" using assms by (simp add: cs_inv_def)
  show "cs_inv (s\<lparr>cs_files := AList.delete (tmp_name slot) (cs_files s)\<rparr>)"
    using stored_size_delete [OF d, of "tmp_name slot"] assms
    by (simp add: cs_inv_def size_at_tmp distinct_delete)
  have "weight (tmp_name slot, out) = 0" using suffix_names(2) by (simp add: weight_def)
  then show "cs_inv (s\<lparr>cs_files := AList.update (tmp_name slot) out (cs_files s)\<rparr>)"
    using stored_size_update [of "tmp_name slot" out "cs_files s"] assms
    by (simp add: cs_inv_def size_at_tmp distinct_update)
qed

lemma file_content_length:
  "unat (fm_payload_size m) \<le> length p \<Longrightarrow>
     length (file_content m p) = length (file_header m (take (unat (fm_payload_size m)) p)) + unat (fm_payload_size m)"
  by (simp add: file_content_def Let_def)

lemma cs_write_inv:
  assumes inv: "cs_inv s" and w: "cs_write env slot meta payload s = (r, s')"
    and fits: "length (file_content meta payload) \<le> u64_max"
  shows "cs_inv s'"
proof (cases "r = Inr ()")
  case False
  then have "s' = s \<or> s' = s\<lparr>cs_files := AList.delete (tmp_name slot) (cs_files s)\<rparr> \<or>
      (\<exists>out. s' = s\<lparr>cs_files := AList.update (tmp_name slot) out (cs_files s)\<rparr>)"
    using cs_write_cases [OF w] by blast
  then show ?thesis using inv cs_inv_tmp [OF inv] by blast
next
  case True
  define r0 where "r0 = (case cs_file slot s of Some old \<Rightarrow> file_size old | None \<Rightarrow> 0)"
  define b where "b = of_nat (length (file_header meta (take (unat (fm_payload_size meta)) payload))) + fm_payload_size meta"
  define fs where "fs = AList.delete (tmp_name slot) (cs_files s)"
  have c: "unat (fm_payload_size meta) \<le> length payload" "b \<le> cs_quota_bytes s"
      "cs_stored_bytes s - r0 + b \<le> cs_quota_bytes s"
    and s': "s' = s\<lparr>cs_files := AList.update (chunk_name slot) (file_content meta payload) fs,
                    cs_stored_bytes := cs_stored_bytes s - r0 + b\<rparr>"
    using cs_write_cases [OF w] True by (simp_all add: r0_def b_def fs_def Let_def)
  have d: "distinct (map fst (cs_files s))" using inv by (simp add: cs_inv_def)
  have ub: "unat b = length (file_content meta payload)"
    using fits unfolding file_content_length [OF c(1)] b_def
    by (subst unat_add_exact) (simp_all add: unat_of_nat u64_max_def)
  note r0 = cs_inv_replaced [OF inv r0_def]
  have q: "unat (cs_stored_bytes s) < 2 ^ 63" "unat b < 2 ^ 63"
    using inv c(2) by (auto simp: cs_inv_def word_le_nat_alt)
  have "unat (cs_stored_bytes s - r0 + b) = unat (cs_stored_bytes s) - unat r0 + unat b"
    using q r0(2) by (subst unat_add_exact) (simp_all add: unat_sub_if' word_le_nat_alt u64_max_def)
  moreover have "stored_size fs = stored_size (cs_files s)"
    using stored_size_delete [OF d, of "tmp_name slot"] by (simp add: fs_def size_at_tmp)
  moreover have "size_at fs (chunk_name slot) = size_at (cs_files s) (chunk_name slot)"
    using size_at_delete suffix_names(3) unfolding fs_def by metis
  moreover have "weight (chunk_name slot, file_content meta payload) = length (file_content meta payload)"
    using suffix_names(1) by (simp add: weight_def)
  ultimately have "unat (cs_stored_bytes s - r0 + b) =
      stored_size (AList.update (chunk_name slot) (file_content meta payload) fs)"
    using stored_size_update [of "chunk_name slot" "file_content meta payload" fs]
      size_at_le [of "cs_files s" "chunk_name slot"] r0(1) ub inv by (simp add: cs_inv_def)
  moreover have "distinct (map fst (AList.update (chunk_name slot) (file_content meta payload) fs))"
    using d by (simp add: fs_def distinct_update distinct_delete)
  ultimately show ?thesis using c(3) inv unfolding cs_inv_def s' by simp
qed

lemma cs_erase_inv:
  assumes inv: "cs_inv s" and w: "cs_erase env slot s = (r, s')"
  shows "cs_inv s'"
proof (cases "cs_file slot s = None \<or> \<not> io_unlink env")
  case True
  then show ?thesis using inv w by (auto simp: cs_erase_def split: option.splits)
next
  case False
  then obtain c where c: "cs_file slot s = Some c" "io_unlink env" by auto
  define r0 where "r0 = (case cs_file slot s of Some old \<Rightarrow> file_size old | None \<Rightarrow> 0)"
  have s': "s' = s\<lparr>cs_files := AList.delete (chunk_name slot) (cs_files s), cs_stored_bytes := cs_stored_bytes s - r0\<rparr>"
    using w c by (auto simp: cs_erase_def r0_def)
  note r0 = cs_inv_replaced [OF inv r0_def]
  have d: "distinct (map fst (cs_files s))" using inv by (simp add: cs_inv_def)
  have u: "unat (cs_stored_bytes s - r0) = unat (cs_stored_bytes s) - unat r0"
    using r0(2) by (simp add: unat_sub_if' word_le_nat_alt)
  have le: "cs_stored_bytes s \<le> cs_quota_bytes s" using inv by (simp add: cs_inv_def)
  have "cs_stored_bytes s - r0 \<le> cs_quota_bytes s"
    using le unfolding word_le_nat_alt u by linarith
  then show ?thesis
    using u stored_size_delete [OF d, of "chunk_name slot"] r0(1) inv d
    unfolding cs_inv_def s' by (simp add: distinct_delete)
qed

lemma cs_create_inv:
  assumes "cs_create env root quota fs = Inr s" and "distinct (map fst fs)"
    and "stored_size fs \<le> unat quota" and "unat quota < 2 ^ 63"
  shows "cs_inv s \<and> cs_files s = fs"
proof -
  have sum: "foldl (\<lambda>b (name, content). if \<not> published name then b else b + file_size content) b xs =
      b + of_nat (stored_size xs)" for b and xs :: "(string \<times> bytes) list"
    by (induction xs arbitrary: b) (auto simp: stored_size_def weight_def file_size_def)
  have "stored_size fs < 2 ^ 63" using assms(3,4) by linarith
  then have u: "unat (of_nat (stored_size fs) :: u64) = stored_size fs" by (simp add: unat_of_nat)
  have s: "s = \<lparr>cs_root_dir = root, cs_quota_bytes = quota, cs_stored_bytes = of_nat (stored_size fs), cs_files = fs\<rparr>"
    using assms(1) sum [of 0 fs] by (simp add: cs_create_def split: if_splits)
  show ?thesis using assms(2-) u by (simp add: cs_inv_def s word_le_nat_alt)
qed


section \<open>Properties\<close>

definition good_io :: io where
  "good_io = \<lparr>io_mkdir = True, io_opendir = True, io_open = True, io_answers = [Short 2, Short 0],
     io_fsync = True, io_close = True, io_rename = True, io_unlink = True\<rparr>"

definition demo_meta :: chunk_file_meta where
  "demo_meta = make_file_meta demo_key 1 2"

definition demo_store :: chunk_file_store where
  "demo_store = \<lparr>cs_root_dir = ''r'', cs_quota_bytes = 1000, cs_stored_bytes = 0, cs_files = []\<rparr>"

lemma demo_store_inv: "cs_inv demo_store"
  by (simp add: cs_inv_def demo_store_def stored_size_def)

lemma cs_write_publishes:
  assumes "cs_write env slot meta payload s = (Inr (), s')"
  shows "cs_file i s' = (if i = slot then Some (file_content meta payload) else cs_file i s)"
    and "unat (fm_payload_size meta) \<le> length payload"
proof -
  obtain b where s': "s' = s\<lparr>cs_files := AList.update (chunk_name slot) (file_content meta payload)
                              (AList.delete (tmp_name slot) (cs_files s)), cs_stored_bytes := b\<rparr>"
    using cs_write_cases [OF assms] by (auto simp: Let_def)
  show "cs_file i s' = (if i = slot then Some (file_content meta payload) else cs_file i s)"
    using chunk_name_inj [of i slot] suffix_names(3) [of i slot]
    by (auto simp: s' cs_file_def update_conv' delete_conv')
  show "unat (fm_payload_size meta) \<le> length payload" using cs_write_cases [OF assms] by blast
qed

lemma cs_read_written:
  assumes "cs_write env slot meta payload s = (Inr (), s')" and "meta_ok meta"
    and "same_identity meta expected" and "unat (fm_payload_size meta) \<le> cap"
    and "io_open env'" and "Fails \<notin> set (io_answers env')"
  shows "cs_read env' slot expected cap s' = Inr (Some (take (unat (fm_payload_size meta)) payload, meta))"
proof -
  let ?p = "take (unat (fm_payload_size meta)) payload"
  note f = cs_write_publishes [OF assms(1)]
  have "length ?p = unat (fm_payload_size meta)" using f(2) by simp
  then have "fst (read_body expected cap (file_header meta ?p @ ?p, io_answers env')) = Inr (Some (?p, meta))"
    using read_body_print [OF assms(2) _ assms(3) _ assms(6), of ?p cap] assms(4) by simp
  then show ?thesis
    using f(1) [of slot] assms(5) by (simp add: cs_read_def file_content_def Let_def)
qed

text \<open>C18: A chunk that was written reads back, byte for byte and with its metadata, however the
  system splits the transfers, as long as no call fails, the expected identity is the one
  written and the destination is large enough; every other slot reads as before.\<close>

theorem chunk_write_read:
  assumes "cs_write env slot meta payload s = (Inr (), s')" and "meta_ok meta"
    and "same_identity meta expected" and "unat (fm_payload_size meta) \<le> cap"
    and "io_open env'" and "Fails \<notin> set (io_answers env')"
  shows "cs_read env' slot expected cap s' = Inr (Some (take (unat (fm_payload_size meta)) payload, meta)) \<and>
    (\<forall>i. i \<noteq> slot \<longrightarrow> cs_read env' i expected cap s' = cs_read env' i expected cap s)"
proof (intro conjI allI impI)
  show "cs_read env' slot expected cap s' = Inr (Some (take (unat (fm_payload_size meta)) payload, meta))"
    by (rule cs_read_written [OF assms])
  show "cs_read env' i expected cap s' = cs_read env' i expected cap s" if "i \<noteq> slot" for i
    using cs_write_publishes(1) [OF assms(1), of i] that by (simp add: cs_read_def)
qed

lemma demo_write: "fst (cs_write good_io 3 demo_meta [65, 66] demo_store) = Inr ()"
  by code_simp

lemma demo_meta_ok: "meta_ok demo_meta" "same_identity demo_meta demo_meta" "unat (fm_payload_size demo_meta) = 2"
  by (simp_all add: meta_ok_def same_identity_def demo_meta_def make_file_meta_def demo_key_def)

lemma chunk_write_read_witness:
  "cs_read good_io 3 demo_meta 2 (snd (cs_write good_io 3 demo_meta [65, 66] demo_store)) =
     Inr (Some ([65, 66], demo_meta))"
proof -
  obtain s' where w: "cs_write good_io 3 demo_meta [65, 66] demo_store = (Inr (), s')"
    using demo_write by (cases "cs_write good_io 3 demo_meta [65, 66] demo_store") auto
  show ?thesis
    using chunk_write_read [OF w demo_meta_ok(1,2), of 2 good_io] demo_meta_ok(3) w by (simp add: good_io_def)
qed

text \<open>C19: \<open>read\<close> returns only well-formed chunks: the metadata is within the limits of the
  format and has the expected identity, the payload has the size the metadata states and fits
  the destination, and the file starts with exactly the header that \<open>write\<close> would have produced
  for this metadata and payload, checksums included, followed by the payload.\<close>

theorem chunk_read_sound:
  assumes "cs_read env slot expected cap s = Inr (Some (out, m))"
  shows "meta_ok m \<and> same_identity m expected \<and> length out = unat (fm_payload_size m) \<and> length out \<le> cap \<and>
    (\<exists>rest. cs_file slot s = Some (file_header m out @ out @ rest))"
proof -
  obtain content where c: "cs_file slot s = Some content"
    and r: "fst (read_body expected cap (content, io_answers env)) = Inr (Some (out, m))"
    using assms by (auto simp: cs_read_def split: option.splits if_splits)
  obtain st where b: "read_body expected cap (content, io_answers env) = (Inr (Some (out, m)), st)"
    using r by (metis prod.collapse)
  show ?thesis using read_body_sound [OF b] c by blast
qed

lemma chunk_read_sound_witness:
  "\<exists>rest. cs_file 3 (snd (cs_write good_io 3 demo_meta [65, 66] demo_store)) =
     Some (file_header demo_meta [65, 66] @ [65, 66] @ rest)"
proof -
  obtain s' where w: "cs_write good_io 3 demo_meta [65, 66] demo_store = (Inr (), s')"
    using demo_write by (cases "cs_write good_io 3 demo_meta [65, 66] demo_store") auto
  have "cs_read good_io 3 demo_meta 2 s' = Inr (Some ([65, 66], demo_meta))"
    using cs_read_written [OF w demo_meta_ok(1,2), of 2 good_io] demo_meta_ok(3) by (simp add: good_io_def)
  from chunk_read_sound [OF this] show ?thesis using w by simp
qed

text \<open>C20: The store stays within its quota and its counter exact, whatever system calls fail:
  the counter is the total size of the published files. A \<open>write\<close> that throws changes no
  published file and not the counter; one that returns replaces one file.\<close>

theorem chunk_store_quota:
  assumes "cs_inv s" and "cs_write env slot meta payload s = (r, s')"
    and "length (file_content meta payload) \<le> u64_max"
  shows "cs_inv s' \<and>
    (case r of
       Inr u \<Rightarrow> (\<forall>i. cs_file i s' = (if i = slot then Some (file_content meta payload) else cs_file i s))
     | Inl e \<Rightarrow> e \<in> {Undefined, ChunkQuotaError, ChunkStoreError} \<and>
         (\<forall>i. cs_file i s' = cs_file i s) \<and> cs_stored_bytes s' = cs_stored_bytes s) \<and>
    (\<forall>i. cs_inv (snd (cs_erase env i s)))"
proof (intro conjI allI)
  show "cs_inv s'" using cs_write_inv [OF assms] .
  show "cs_inv (snd (cs_erase env i s))" for i
    using cs_erase_inv [OF assms(1)] by (metis prod.collapse)
  show "case r of
       Inr u \<Rightarrow> (\<forall>i. cs_file i s' = (if i = slot then Some (file_content meta payload) else cs_file i s))
     | Inl e \<Rightarrow> e \<in> {Undefined, ChunkQuotaError, ChunkStoreError} \<and>
         (\<forall>i. cs_file i s' = cs_file i s) \<and> cs_stored_bytes s' = cs_stored_bytes s"
  proof (cases r)
    case (Inr u)
    then show ?thesis using cs_write_publishes(1) [of env slot meta payload s s'] assms(2) by simp
  next
    case (Inl e)
    then have e: "e \<in> {Undefined, ChunkQuotaError, ChunkStoreError}"
      and s': "s' = s \<or> s' = s\<lparr>cs_files := AList.delete (tmp_name slot) (cs_files s)\<rparr> \<or>
        (\<exists>out. s' = s\<lparr>cs_files := AList.update (tmp_name slot) out (cs_files s)\<rparr>)"
      using cs_write_cases [OF assms(2)] by blast+
    have "cs_file i s' = cs_file i s" for i
      using s' suffix_names(3) [of i slot] by (auto simp: cs_file_delete cs_file_update)
    then show ?thesis using e s' Inl by auto
  qed
qed

lemma chunk_store_quota_witness:
  "cs_inv demo_store \<and> cs_inv (snd (cs_write good_io 3 demo_meta [65, 66] demo_store))"
proof -
  obtain r s' where w: "cs_write good_io 3 demo_meta [65, 66] demo_store = (r, s')"
    by (cases "cs_write good_io 3 demo_meta [65, 66] demo_store")
  have "length (file_content demo_meta [65, 66]) \<le> u64_max" by code_simp
  from chunk_store_quota [OF demo_store_inv w this] show ?thesis using w demo_store_inv by simp
qed

lemma put_u32_inj [simp]: "put_u32 v = put_u32 w \<longleftrightarrow> v = w"
  by (metis Pair_inject take_put_u32)

text \<open>C21: \<open>write\<close> accepts what \<open>read\<close> rejects: a chunk whose model id is longer than 4096 bytes
  is published without an error, and no \<open>read\<close> of it ever succeeds.\<close>

theorem chunk_long_model_unreadable:
  assumes "cs_write env slot meta payload s = (Inr (), s')"
    and "4096 < length (fm_model_id meta)" and "length (fm_model_id meta) < 2 ^ 32"
  shows "\<exists>e. cs_read env' slot expected cap s' = Inl e"
proof -
  have f: "cs_file slot s' = Some (file_content meta payload)" using cs_write_publishes(1) [OF assms(1)] by simp
  have n: "unat (of_nat (length (fm_model_id meta)) :: u32) = length (fm_model_id meta)"
    using assms(3) by (simp add: unat_of_nat)
  have "cs_read env' slot expected cap s' \<noteq> Inr (Some (out, m))" for out m
  proof
    assume "cs_read env' slot expected cap s' = Inr (Some (out, m))"
    then obtain st where b: "read_body expected cap (file_content meta payload, io_answers env') = (Inr (Some (out, m)), st)"
      using f by (auto simp: cs_read_def split: if_splits) (metis prod.collapse)
    note p = fill_checksum_parts [of meta] fill_checksum_parts [of m]
    have "file_content meta payload = file_header m out @ out @ fst st" "meta_ok m"
      using read_body_sound [OF b] by blast+
    then have "(of_nat (length (fm_model_id meta)) :: u32) = of_nat (length (fm_model_id m))"
      unfolding file_content_def file_header_def Let_def p append_assoc by simp
    moreover have "length (fm_model_id m) \<le> 4096" using \<open>meta_ok m\<close> by (simp add: meta_ok_def)
    ultimately show False using n assms(2) length_u32 [of "length (fm_model_id m)"] by simp
  qed
  moreover have "cs_read env' slot expected cap s' \<noteq> Inr None"
  proof
    assume "cs_read env' slot expected cap s' = Inr None"
    then have "fst (read_body expected cap (file_content meta payload, io_answers env')) = Inr None"
      using f by (simp add: cs_read_def split: if_splits)
    then obtain st where "read_body expected cap (file_content meta payload, io_answers env') = (Inr None, st)"
      by (metis prod.collapse)
    then show False
      by (auto simp: read_body_def and_then_Inr_iff Let_def split: if_splits prod.splits)
  qed
  ultimately show ?thesis by (cases "cs_read env' slot expected cap s'"; cases "projr (cs_read env' slot expected cap s')") auto
qed

text \<open>A model id of 4097 characters.\<close>

definition long_meta :: chunk_file_meta where
  "long_meta = demo_meta\<lparr>fm_model_id := replicate 4097 (CHR ''x''), fm_payload_size := 0\<rparr>"

definition big_store :: chunk_file_store where
  "big_store = demo_store\<lparr>cs_quota_bytes := 100000\<rparr>"

lemma long_header: "length (file_header long_meta []) = 4177"
proof -
  have "length (serialize_header long_meta) = 4169"
    by (simp add: serialize_header_def long_meta_def demo_meta_def make_file_meta_def demo_key_def)
  then show ?thesis by (simp add: file_header_def fill_checksum_def Let_def)
qed

lemma long_write: "\<exists>s'. cs_write good_io 3 long_meta [] big_store = (Inr (), s')"
proof -
  obtain a where "and_then (write_all (file_header long_meta []) ([], io_answers good_io)) (\<lambda>_. write_all []) =
      (Inr (), file_header long_meta [], a)"
    using write_all_total [of "io_answers good_io" "file_header long_meta []" "[]"] by (auto simp: good_io_def)
  then show ?thesis
    by (simp add: cs_write_def Let_def long_header) 
      (simp add: big_store_def demo_store_def cs_file_def good_io_def long_meta_def)
qed

lemma chunk_long_model_unreadable_witness:
  "\<exists>s'. cs_write good_io 3 long_meta [] big_store = (Inr (), s') \<and>
     (\<exists>e. cs_read good_io 3 long_meta 2 s' = Inl e)"
proof -
  obtain s' where w: "cs_write good_io 3 long_meta [] big_store = (Inr (), s')" using long_write by blast
  have "4096 < length (fm_model_id long_meta)" "length (fm_model_id long_meta) < 2 ^ 32"
    by (simp_all add: long_meta_def)
  from chunk_long_model_unreadable [OF w this] show ?thesis using w by blast
qed

end
