(* ===== verification/Directory_View.thy ===== *)
theory Directory_View
  imports Cache_Directory
begin

text \<open>
  The cache directory as its movers see it. The transfer classes and the migration manager of
  v3 only ever look at two things: the replica of a chunk on a level, and the pin count of a
  chunk. This theory states every operation they call in these terms, so that the proofs about
  the movers never open the records.
\<close>

section \<open>The view\<close>

definition cd_rep :: "cache_directory \<Rightarrow> storage_tier \<Rightarrow> cache_key \<rightharpoonup> replica" where
  "cd_rep d s key = Option.bind (map_of (cd_records d) key) (replica_at s)"

definition cd_pins :: "cache_directory \<Rightarrow> cache_key \<rightharpoonup> nat" where
  "cd_pins d key = map_option cr_pin_count (map_of (cd_records d) key)"

abbreviation upd :: "('a \<Rightarrow> 'b \<Rightarrow> 'c) \<Rightarrow> 'a \<Rightarrow> 'b \<Rightarrow> 'c \<Rightarrow> 'a \<Rightarrow> 'b \<Rightarrow> 'c" where
  "upd f s k x \<equiv> f(s := (f s)(k := x))"

lemma upd_rollback:
  assumes "f d k = None" and "f s k = Some x" and "d \<noteq> s"
  shows "upd (upd (upd (upd f s k y) d k z) d k None) s k (Some x) = f"
  using assms by (auto simp: fun_eq_iff)

lemma cd_locs_rep: "cd_locs d s key = map_option rp_location (cd_rep d s key)"
  by (cases "map_of (cd_records d) key") (simp_all add: cd_locs_def cd_rep_def loc_of_def)

lemma cd_rep_record:
  "map_of (cd_records d) key = Some r \<Longrightarrow> cd_rep d s key = replica_at s r"
  by (simp add: cd_rep_def)

lemma cd_rep_exists: "cd_rep d s key = Some x \<Longrightarrow> \<exists>r. map_of (cd_records d) key = Some r \<and> replica_at s r = Some x"
  by (simp add: cd_rep_def bind_eq_Some_conv)

lemma replica_at_put:
  assumes "s \<in> {GPU, CPU, NVME}"
  shows "replica_at s' (replica_put s y r) = (if s' = s then y else replica_at s' r)"
  using assms by (cases s; cases s') (auto simp: replica_at_def)

lemma replica_at_simps [simp]:
  "replica_at s (r\<lparr>cr_last_access := n\<rparr>) = replica_at s r" "replica_at s (r\<lparr>cr_version := v\<rparr>) = replica_at s r"
  "replica_at s (r\<lparr>cr_ref_count := n\<rparr>) = replica_at s r" "replica_at s (r\<lparr>cr_pin_count := n\<rparr>) = replica_at s r"
  by (cases s; simp add: replica_at_def)+

lemma pin_count_put [simp]: "cr_pin_count (replica_put s y r) = cr_pin_count r"
  by (cases s) simp_all

lemma replica_level: "replica_at s r = Some x \<Longrightarrow> s \<in> {GPU, CPU, NVME} \<and> replica_slot r s = Inr (Some x)"
  by (cases s) (auto simp: replica_at_def)

lemma cd_rep_level: "cd_rep d s key = Some x \<Longrightarrow> s \<in> {GPU, CPU, NVME}"
  using cd_rep_exists replica_level by blast

lemma replica_slot_at: "replica_slot r s = Inr x \<Longrightarrow> replica_at s r = x"
  by (simp add: replica_at_def)

lemma cd_rep_put:
  "cd_rep (cd_put key r d) s k = (if k = key then replica_at s r else cd_rep d s k)"
  by (simp add: cd_rep_def cd_put_def update_conv')

lemma cd_pins_put:
  "cd_pins (cd_put key r d) = (cd_pins d)(key \<mapsto> cr_pin_count r)"
  by (rule ext) (simp add: cd_pins_def cd_put_def update_conv')

lemma tier_put_view [simp]: "cd_rep (tier_put s t d) = cd_rep d" "cd_pins (tier_put s t d) = cd_pins d"
  by (simp_all add: cd_rep_def cd_pins_def fun_eq_iff)

lemma cd_at_field:
  "cd_at key d = Inr r \<Longrightarrow>
     cr_gpu r = cd_rep d GPU key \<and> cr_cpu r = cd_rep d CPU key \<and> cr_nvme r = cd_rep d NVME key"
  by (simp add: cd_at_iff cd_rep_def replica_at_def)

lemma cd_at_rep: "cd_rep d s key = Some x \<Longrightarrow> \<exists>r. cd_at key d = Inr r"
  using cd_rep_exists [of d s key x] by (auto simp: cd_at_iff)

section \<open>The operations on the view\<close>

lemma cd_set_state_ok:
  assumes inv: "cd_inv d" and x: "cd_rep d s key = Some x"
  shows "\<exists>d'. cd_set_state key s st d = (Inr (), d') \<and> cd_inv d' \<and>
    cd_rep d' = upd (cd_rep d) s key (Some (x\<lparr>rp_state := st\<rparr>)) \<and> cd_pins d' = cd_pins d"
proof -
  obtain r where r: "map_of (cd_records d) key = Some r" and xr: "replica_at s r = Some x"
    using cd_rep_exists [OF x] by blast
  have lv: "s \<in> {GPU, CPU, NVME}" and slot: "replica_slot r s = Inr (Some x)" using replica_level [OF xr] by auto
  let ?d = "cd_put key (replica_put s (Some (x\<lparr>rp_state := st\<rparr>)) r) d"
  have e: "cd_set_state key s st d = (Inr (), ?d)" using r slot by (simp add: cd_set_state_def cd_lookup_def)
  have "cd_rep ?d s' k = upd (cd_rep d) s key (Some (x\<lparr>rp_state := st\<rparr>)) s' k" for s' k
    using replica_at_put [OF lv, of s'] cd_rep_record [OF r, of s'] by (cases "s' = s") (simp_all add: cd_rep_put)
  then have "cd_rep ?d = upd (cd_rep d) s key (Some (x\<lparr>rp_state := st\<rparr>))" by (intro ext)
  moreover have "cd_pins ?d = cd_pins d" using r by (simp add: cd_pins_put) (simp add: cd_pins_def fun_upd_idem)
  ultimately show ?thesis using e cd_set_state_inv [OF inv e] by blast
qed

lemma cd_set_state_none:
  assumes "cd_rep d s key = None"
  shows "\<exists>e. cd_set_state key s st d = (Inl e, d)"
proof (cases "map_of (cd_records d) key")
  case None
  then show ?thesis by (simp add: cd_set_state_def cd_lookup_def)
next
  case (Some r)
  then have "replica_at s r = None" using assms by (simp add: cd_rep_def)
  then consider e where "replica_slot r s = Inl e" | "replica_slot r s = Inr None"
    by (cases "replica_slot r s") (auto simp: replica_at_def)
  then show ?thesis
    using Some cd_put_same [OF Some] by cases (simp_all add: cd_set_state_def cd_lookup_def)
qed

lemma cd_place_view:
  assumes inv: "cd_inv d" and p: "cd_place now key s st d = (x, d')"
  shows "(\<exists>l. x = Inr l \<and> cd_inv d' \<and> cd_rep d s key = None \<and> s \<in> {GPU, CPU, NVME} \<and>
            cd_rep d' = upd (cd_rep d) s key (Some \<lparr>rp_location = l, rp_state = st\<rparr>) \<and>
            cd_pins d' = cd_pins d \<and> (\<forall>k y. cd_rep d s k = Some y \<longrightarrow> rp_location y \<noteq> l)) \<or>
         (\<exists>e. x = Inl e \<and> cd_rep d' = cd_rep d \<and> cd_pins d' = cd_pins d \<and> (e = OverflowError \<or> d' = d))"
proof (cases x)
  case (Inl e)
  have "cd_records d' = cd_records d"
    using p Inl by (auto simp: cd_place_def tier_call_def and_then_Inl_iff split: sum.splits option.splits prod.splits)
  then have "cd_rep d' = cd_rep d \<and> cd_pins d' = cd_pins d" by (simp add: cd_rep_def cd_pins_def fun_eq_iff)
  then show ?thesis using cd_place_cases [OF inv p] Inl by auto
next
  case (Inr l)
  note c = cd_place_cases [OF inv p] Inr
  then have inv': "cd_inv d'" and none: "cd_locs d s key = None" and ran: "l \<notin> ran (cd_locs d s)" by auto
  obtain r d1 where r: "cd_at key d = Inr r" and slot: "replica_slot r s = Inr None"
    and a: "tier_call s tier_allocate d = (Inr l, d1)"
    and d': "d' = cd_put key ((replica_put s (Some \<lparr>rp_location = l, rp_state = st\<rparr>) r)\<lparr>cr_last_access := now\<rparr>) d1"
    using p Inr unfolding cd_place_def
    by (auto simp: and_then_Inr_iff split: sum.splits option.splits)
  obtain t where d1: "d1 = tier_put s t d" using a by (auto simp: tier_call_def split: sum.splits prod.splits)
  have lv: "s \<in> {GPU, CPU, NVME}" using slot by (cases s) auto
  have "cd_rep d' s' k = upd (cd_rep d) s key (Some \<lparr>rp_location = l, rp_state = st\<rparr>) s' k" for s' k
    using replica_at_put [OF lv, of s'] cd_rep_record [OF r [unfolded cd_at_iff], of s']
    by (cases "s' = s") (simp_all add: d' d1 cd_rep_put)
  then have rep: "cd_rep d' = upd (cd_rep d) s key (Some \<lparr>rp_location = l, rp_state = st\<rparr>)" by (intro ext)
  have pins: "cd_pins d' = cd_pins d"
    using r by (simp add: d' d1 cd_pins_put) (simp add: cd_pins_def cd_at_iff fun_upd_idem)
  have "cd_rep d s key = None" using none by (simp add: cd_locs_rep)
  moreover have "rp_location y \<noteq> l" if "cd_rep d s k = Some y" for k y
    using ran that by (auto simp: ran_def cd_locs_rep)
  ultimately show ?thesis using Inr inv' rep pins lv by blast
qed

text \<open>
  The next slot of a level is not worn out: a slot whose generation counter is exhausted makes
  \<open>allocate\<close> throw after it has left the free list (\<open>slot_tier_exhausted_leaks\<close>), which no
  caller can undo.
\<close>

definition cd_spare :: "storage_tier \<Rightarrow> cache_directory \<Rightarrow> bool" where
  "cd_spare s d \<longleftrightarrow> (case tier_for s d of Inl e \<Rightarrow> True | Inr t \<Rightarrow> fst (tier_allocate t) \<noteq> Inl OverflowError)"

lemma cd_spare_place:
  assumes "cd_spare s d"
  shows "fst (cd_place now key s st d) \<noteq> Inl OverflowError"
proof -
  have n: "tier_for s d \<noteq> Inl OverflowError" by (cases s) simp_all
  have "replica_slot r s \<noteq> Inl OverflowError" for r by (cases s) simp_all
  moreover have "fst (tier_call s tier_allocate d) \<noteq> Inl OverflowError"
    using assms n by (auto simp: cd_spare_def tier_call_def split: sum.splits prod.splits)
  moreover have "cd_at key d \<noteq> Inl OverflowError" by (simp add: cd_at_def split: option.splits)
  ultimately show ?thesis
    by (cases "tier_call s tier_allocate d"; cases "fst (tier_call s tier_allocate d)")
      (auto simp: cd_place_def split: sum.splits option.splits)
qed

lemma cd_spare_put [simp]: "cd_spare s (cd_put key r d) = cd_spare s d"
proof -
  have "tier_for s (cd_put key r d) = tier_for s d" by (cases s) simp_all
  then show ?thesis by (simp add: cd_spare_def)
qed

lemma cd_spare_set_state: "cd_set_state key t st d = (r, d') \<Longrightarrow> cd_spare s d' = cd_spare s d"
  by (auto simp: cd_set_state_def cd_lookup_def split: option.splits sum.splits)

lemma cd_remove_ok:
  assumes inv: "cd_inv d" and x: "cd_rep d s key = Some x" and st: "rp_state x \<in> {READY, ERROR}"
  shows "\<exists>d'. cd_remove now key s d = (Inr (), d') \<and> cd_inv d' \<and>
    cd_rep d' = upd (cd_rep d) s key None \<and> cd_pins d' = cd_pins d"
proof -
  obtain r where r: "map_of (cd_records d) key = Some r" and xr: "replica_at s r = Some x"
    using cd_rep_exists [OF x] by blast
  have lv: "s \<in> {GPU, CPU, NVME}" and slot: "replica_slot r s = Inr (Some x)" using replica_level [OF xr] by auto
  obtain y d' where rm: "cd_remove now key s d = (y, d')" by (metis surj_pair)
  have ok: "y = Inr ()" "cd_inv d'"
    using cd_remove_cases [OF inv rm] slot r st lv by (auto simp: cd_contains_def)
  obtain t where d': "d' = cd_put key ((replica_put s None r)\<lparr>cr_last_access := now\<rparr>) (tier_put s t d)"
    using rm ok(1) r slot
    by (auto simp: cd_remove_def cd_at_iff [THEN iffD2] and_then_Inr_iff tier_call_def
        split: sum.splits prod.splits if_splits)
  have "cd_rep d' s' k = upd (cd_rep d) s key None s' k" for s' k
    using replica_at_put [OF lv, of s'] cd_rep_record [OF r, of s']
    by (cases "s' = s") (simp_all add: d' cd_rep_put)
  then have "cd_rep d' = upd (cd_rep d) s key None" by (intro ext)
  moreover have "cd_pins d' = cd_pins d"
    using r by (simp add: d' cd_pins_put) (simp add: cd_pins_def fun_upd_idem)
  ultimately show ?thesis using rm ok by blast
qed

lemma cd_remove_busy:
  assumes inv: "cd_inv d" and x: "cd_rep d s key = Some x" and st: "rp_state x \<notin> {READY, ERROR}"
  shows "cd_remove now key s d = (Inl LogicError, d)"
proof -
  obtain r where r: "map_of (cd_records d) key = Some r" and xr: "replica_at s r = Some x"
    using cd_rep_exists [OF x] by blast
  then show ?thesis using replica_level [OF xr] st by (simp add: cd_remove_def cd_at_iff [THEN iffD2])
qed

lemma cd_pin_ok:
  assumes inv: "cd_inv d" and n: "cd_pins d key = Some n"
  shows "\<exists>d'. cd_pin key d = (Inr (), d') \<and> cd_inv d' \<and> cd_rep d' = cd_rep d \<and>
    cd_pins d' = (cd_pins d)(key \<mapsto> size_inc n)"
proof -
  obtain r where r: "map_of (cd_records d) key = Some r" "cr_pin_count r = n"
    using n by (auto simp: cd_pins_def)
  let ?d = "cd_put key (r\<lparr>cr_pin_count := size_inc n\<rparr>) d"
  have e: "cd_pin key d = (Inr (), ?d)" using r by (simp add: cd_pin_def cd_lookup_def)
  have "cd_rep ?d s k = cd_rep d s k" for s k using cd_rep_record [OF r(1)] by (simp add: cd_rep_put)
  then have "cd_rep ?d = cd_rep d" by (intro ext)
  then show ?thesis using e cd_lookup_ops_inv(3) [OF inv e] by (simp add: cd_pins_put)
qed

lemma cd_unpin_ok:
  assumes inv: "cd_inv d" and n: "cd_pins d key = Some n" "0 < n"
  shows "\<exists>d'. cd_unpin key d = (Inr (), d') \<and> cd_inv d' \<and> cd_rep d' = cd_rep d \<and>
    cd_pins d' = (cd_pins d)(key \<mapsto> n - 1)"
proof -
  obtain r where r: "map_of (cd_records d) key = Some r" "cr_pin_count r = n"
    using n by (auto simp: cd_pins_def)
  let ?d = "cd_put key (r\<lparr>cr_pin_count := n - 1\<rparr>) d"
  have e: "cd_unpin key d = (Inr (), ?d)" using r n(2) by (simp add: cd_unpin_def cd_lookup_def)
  have "cd_rep ?d s k = cd_rep d s k" for s k using cd_rep_record [OF r(1)] by (simp add: cd_rep_put)
  then have "cd_rep ?d = cd_rep d" by (intro ext)
  then show ?thesis using e cd_lookup_ops_inv(4) [OF inv e] by (simp add: cd_pins_put)
qed

text \<open>
  Undoing a failed copy: the new replica is marked \<open>ERROR\<close> and removed, the source becomes
  readable again. All movers of v3 clean up in this way.
\<close>

definition cd_rollback :: "nat \<Rightarrow> cache_key \<Rightarrow> storage_tier \<Rightarrow> storage_tier \<Rightarrow> cache_directory \<Rightarrow> unit res \<times> cache_directory" where
  "cd_rollback now key source destination d =
     (case cd_at key d of
        Inl e \<Rightarrow> (Inl e, d)
      | Inr r \<Rightarrow>
          and_then
            (if replica_at destination r \<noteq> None
             then and_then (cd_set_state key destination ERROR d) (\<lambda>_. cd_remove now key destination)
             else (Inr (), d))
            (\<lambda>_. cd_set_state key source READY))"

lemma cd_rollback_ok:
  assumes inv: "cd_inv d" and x: "cd_rep d source key = Some x" and ne: "destination \<noteq> source"
  shows "\<exists>d'. cd_rollback now key source destination d = (Inr (), d') \<and> cd_inv d' \<and> cd_pins d' = cd_pins d \<and>
    cd_rep d' = upd (upd (cd_rep d) destination key None) source key (Some (x\<lparr>rp_state := READY\<rparr>))"
proof -
  obtain r where r: "cd_at key d = Inr r" using cd_at_rep [OF x] by blast
  then have ra: "replica_at s r = cd_rep d s key" for s by (simp add: cd_at_iff cd_rep_def)
  show ?thesis
  proof (cases "cd_rep d destination key")
    case None
    obtain d1 where d1: "cd_set_state key source READY d = (Inr (), d1)" "cd_inv d1" "cd_pins d1 = cd_pins d"
      "cd_rep d1 = upd (cd_rep d) source key (Some (x\<lparr>rp_state := READY\<rparr>))"
      using cd_set_state_ok [OF inv x] by blast
    have "upd (cd_rep d) destination key None = cd_rep d" using None by (simp add: fun_eq_iff)
    then show ?thesis using d1 r ra None by (simp add: cd_rollback_def)
  next
    case (Some y)
    obtain d1 where d1: "cd_set_state key destination ERROR d = (Inr (), d1)" "cd_inv d1" "cd_pins d1 = cd_pins d"
      "cd_rep d1 = upd (cd_rep d) destination key (Some (y\<lparr>rp_state := ERROR\<rparr>))"
      using cd_set_state_ok [OF inv Some] by blast
    have "cd_rep d1 destination key = Some (y\<lparr>rp_state := ERROR\<rparr>)" by (simp add: d1)
    then obtain d2 where d2: "cd_remove now key destination d1 = (Inr (), d2)" "cd_inv d2" "cd_pins d2 = cd_pins d1"
      "cd_rep d2 = upd (cd_rep d1) destination key None"
      using cd_remove_ok [OF d1(2)] by fastforce
    have "cd_rep d2 source key = Some x" using x ne by (simp add: d2(4) d1(4))
    then obtain d3 where d3: "cd_set_state key source READY d2 = (Inr (), d3)" "cd_inv d3" "cd_pins d3 = cd_pins d2"
      "cd_rep d3 = upd (cd_rep d2) source key (Some (x\<lparr>rp_state := READY\<rparr>))"
      using cd_set_state_ok [OF d2(2)] by blast
    have "cd_rep d3 = upd (upd (cd_rep d) destination key None) source key (Some (x\<lparr>rp_state := READY\<rparr>))"
      by (simp add: d3(4) d2(4) d1(4) fun_upd_idem_iff) 
    then show ?thesis using d1 d2 d3 r ra Some by (simp add: cd_rollback_def)
  qed
qed

end
