(* ===== verification/Gpu_Memory_Pool.thy ===== *)
theory Gpu_Memory_Pool
  imports Block_Manager Kv_Layout
begin

text \<open>
  \<open>include/kvflux/gpu_memory_pool.h\<close>, \<open>src/gpu_memory_pool.cpp\<close>: one device allocation cut into
  blocks, with a \<open>BlockManager\<close> for the block numbers. Device memory is a list of bytes and a
  device pointer an offset into it. The outcome of the CUDA calls is the argument of type
  \<open>cuda\<close>: a call that is not successful throws \<open>std::runtime_error\<close>, and a copy that fails has
  written some prefix of its bytes. A host pointer is \<open>None\<close> when it is null, and otherwise the
  memory behind it.
\<close>

section \<open>Memory regions\<close>

type_synonym memory = "u8 list"

definition peek :: "nat \<Rightarrow> nat \<Rightarrow> memory \<Rightarrow> memory" where
  "peek off n mem = take n (drop off mem)"

definition patch :: "nat \<Rightarrow> memory \<Rightarrow> memory \<Rightarrow> memory" where
  "patch off data mem = take off mem @ data @ drop (off + length data) mem"

lemma length_patch [simp]: "off + length data \<le> length mem \<Longrightarrow> length (patch off data mem) = length mem"
  by (simp add: patch_def)

lemma length_peek [simp]: "off + n \<le> length mem \<Longrightarrow> length (peek off n mem) = n"
  by (simp add: peek_def)

lemma peek_patch_same:
  "off + length data \<le> length mem \<Longrightarrow> n = length data \<Longrightarrow> peek off n (patch off data mem) = data"
  by (simp add: peek_def patch_def)

lemma peek_patch_other:
  assumes "off + length data \<le> length mem" and "a + n \<le> off \<or> off + length data \<le> a"
  shows "peek a n (patch off data mem) = peek a n mem"
  using assms(2)
proof
  assume "a + n \<le> off"
  then have "take (a + n) (patch off data mem) = take (a + n) mem"
    using assms(1) by (simp add: patch_def)
  then show ?thesis by (simp add: peek_def take_drop add.commute)
next
  assume a: "off + length data \<le> a"
  then have "drop a (patch off data mem) = drop a mem"
    using assms(1) by (simp add: patch_def)
  then show ?thesis by (simp add: peek_def)
qed

text \<open>Blocks of equal size do not overlap.\<close>

lemma block_end: "(i :: nat) < n \<Longrightarrow> i * b + b \<le> n * b"
  by (metis Suc_leI add.commute mult_Suc mult_le_mono1)

lemma peek_blocks:
  assumes "length mem = n * w" and "i < n" and "length bs = w"
  shows "peek (j * w) w (patch (i * w) bs mem) = (if j = i then bs else peek (j * w) w mem)"
proof -
  have le: "i * w + length bs \<le> length mem" using assms block_end [of i n w] by simp
  show ?thesis
  proof (cases "j = i")
    case True
    then show ?thesis using peek_patch_same [OF le] assms(3) by simp
  next
    case False
    then show ?thesis using scaled_disjoint [OF False, of w] peek_patch_other [OF le] assms(3) by auto
  qed
qed

section \<open>The pool\<close>

record cuda =
  cu_device_count :: "int option"
  cu_guard :: bool
  cu_malloc :: bool
  cu_copy :: "nat option"
  cu_sync :: bool

record gpu_memory_pool =
  gm_manager :: block_manager
  gm_block_bytes :: nat
  gm_allocated_bytes :: nat
  gm_device :: int
  gm_initialized :: "bool list"
  gm_in_flight :: "bool list"
  gm_base :: memory

definition checked_pool_bytes :: "nat \<Rightarrow> nat \<Rightarrow> nat res" where
  "checked_pool_bytes blocks bytes =
     (if blocks = 0 \<or> bytes = 0 then Inl InvalidArgument
      else if blocks > size_max div bytes then Inl OverflowError
      else Inr (blocks * bytes))"

text \<open>\<open>fill\<close> is what \<open>cudaMalloc\<close> leaves in fresh memory.\<close>

definition gm_create :: "cuda \<Rightarrow> (nat \<Rightarrow> u8) \<Rightarrow> nat \<Rightarrow> nat \<Rightarrow> nat \<Rightarrow> int \<Rightarrow> gpu_memory_pool res" where
  "gm_create env fill blocks bytes tokens_per_block device =
     bind_res (checked_pool_bytes blocks bytes) (\<lambda>total.
     bind_res (bm_create (total div bytes) tokens_per_block (Some prefix_hash)) (\<lambda>manager.
       if device < 0 then Inl InvalidArgument
       else
         (case cu_device_count env of
            None \<Rightarrow> Inl RuntimeError
          | Some device_count \<Rightarrow>
              if device \<ge> device_count then Inl InvalidArgument
              else if \<not> cu_guard env then Inl RuntimeError
              else if \<not> cu_malloc env then Inl RuntimeError
              else Inr \<lparr>gm_manager = manager, gm_block_bytes = bytes, gm_allocated_bytes = total,
                        gm_device = device, gm_initialized = replicate blocks False,
                        gm_in_flight = replicate blocks False, gm_base = map fill [0..<total]\<rparr>)))"

definition gm_create_layout :: "cuda \<Rightarrow> (nat \<Rightarrow> u8) \<Rightarrow> kv_block_layout \<Rightarrow> u64 \<Rightarrow> int \<Rightarrow> gpu_memory_pool res" where
  "gm_create_layout env fill layout budget device =
     bind_res (kl_capacity_for layout budget) (\<lambda>plan.
       gm_create env fill (unat (plan_total_blocks plan)) (unat (kl_block_bytes layout))
         (unat (block_size (kl_config layout))) device)"

definition gm_total_blocks :: "gpu_memory_pool \<Rightarrow> nat" where
  "gm_total_blocks m = bm_capacity (gm_manager m)"

definition gm_remaining_blocks :: "gpu_memory_pool \<Rightarrow> nat" where
  "gm_remaining_blocks m = (let s = bm_stats (gm_manager m) in st_free s + st_cached_idle s)"

definition gm_stats :: "gpu_memory_pool \<Rightarrow> bm_stats_t" where
  "gm_stats m = bm_stats (gm_manager m)"

text \<open>A call of the block manager.\<close>

definition gm_call :: "(block_manager \<Rightarrow> 'a res \<times> block_manager) \<Rightarrow> gpu_memory_pool \<Rightarrow> 'a res \<times> gpu_memory_pool" where
  "gm_call f m = (case f (gm_manager m) of (r, b) \<Rightarrow> (r, m\<lparr>gm_manager := b\<rparr>))"

definition gm_allocate :: "gpu_memory_pool \<Rightarrow> block_handle res \<times> gpu_memory_pool" where
  "gm_allocate m =
     and_then (gm_call bm_allocate m)
       (\<lambda>h m. (Inr h, m\<lparr>gm_initialized := (gm_initialized m)[h_id h := False]\<rparr>))"

definition gm_retain :: "block_handle \<Rightarrow> gpu_memory_pool \<Rightarrow> unit res \<times> gpu_memory_pool" where
  "gm_retain h = gm_call (bm_retain h)"

definition gm_release :: "block_handle \<Rightarrow> gpu_memory_pool \<Rightarrow> unit res \<times> gpu_memory_pool" where
  "gm_release h = gm_call (bm_release h)"

definition gm_ref_count :: "block_handle \<Rightarrow> gpu_memory_pool \<Rightarrow> nat res" where
  "gm_ref_count h m = bm_ref_count h (gm_manager m)"

definition gm_lookup :: "tokens \<Rightarrow> gpu_memory_pool \<Rightarrow> block_handle option res \<times> gpu_memory_pool" where
  "gm_lookup prefix = gm_call (bm_lookup prefix)"

definition gm_address_of_id :: "nat \<Rightarrow> gpu_memory_pool \<Rightarrow> nat res" where
  "gm_address_of_id i m =
     (if i \<ge> gm_total_blocks m then Inl OutOfRange else Inr (i * gm_block_bytes m))"

definition gm_device_address :: "block_handle \<Rightarrow> gpu_memory_pool \<Rightarrow> nat res" where
  "gm_device_address h m =
     bind_res (bm_ref_count h (gm_manager m)) (\<lambda>n.
       if n = 0 then Inl InvalidArgument else gm_address_of_id (h_id h) m)"

text \<open>A copy to the device: all bytes, or the prefix that was written before it failed.\<close>

definition cuda_memcpy :: "cuda \<Rightarrow> nat \<Rightarrow> memory \<Rightarrow> memory \<Rightarrow> unit res \<times> memory" where
  "cuda_memcpy env off data mem =
     (case cu_copy env of
        None \<Rightarrow> (Inr (), patch off data mem)
      | Some k \<Rightarrow> (Inl RuntimeError, patch off (take k data) mem))"

definition gm_write_block :: "cuda \<Rightarrow> block_handle \<Rightarrow> memory option \<Rightarrow> nat \<Rightarrow> gpu_memory_pool \<Rightarrow> unit res \<times> gpu_memory_pool" where
  "gm_write_block env h host bytes m =
     (case gm_device_address h m of
        Inl e \<Rightarrow> (Inl e, m)
      | Inr destination \<Rightarrow>
        if gm_in_flight m ! h_id h then (Inl LogicError, m)
        else if host = None \<or> bytes \<noteq> gm_block_bytes m then (Inl InvalidArgument, m)
        else if length (the host) < bytes then (Inl Undefined, m)
        else if bm_ref_count h (gm_manager m) \<noteq> Inr 1 \<or> bm_is_published h (gm_manager m) = Inr True
        then (Inl InvalidArgument, m)
        else if \<not> cu_guard env then (Inl RuntimeError, m)
        else
          let m = m\<lparr>gm_initialized := (gm_initialized m)[h_id h := False]\<rparr>;
              (r, mem) = cuda_memcpy env destination (take bytes (the host)) (gm_base m);
              m = m\<lparr>gm_base := mem\<rparr>
          in (case r of
                Inl e \<Rightarrow> (Inl e, m)
              | Inr u \<Rightarrow>
                  if \<not> cu_sync env then (Inl RuntimeError, m)
                  else (Inr (), m\<lparr>gm_initialized := (gm_initialized m)[h_id h := True]\<rparr>)))"

text \<open>The bytes that \<open>read_block\<close> leaves at the host pointer; \<open>host\<close> says whether it is not null.\<close>

definition gm_read_block :: "cuda \<Rightarrow> block_handle \<Rightarrow> bool \<Rightarrow> nat \<Rightarrow> gpu_memory_pool \<Rightarrow> memory res" where
  "gm_read_block env h host bytes m =
     bind_res (gm_device_address h m) (\<lambda>source.
       if gm_in_flight m ! h_id h then Inl LogicError
       else if \<not> host \<or> bytes \<noteq> gm_block_bytes m then Inl InvalidArgument
       else if \<not> gm_initialized m ! h_id h then Inl InvalidArgument
       else if \<not> cu_guard env then Inl RuntimeError
       else if cu_copy env \<noteq> None then Inl RuntimeError
       else Inr (peek source bytes (gm_base m)))"

definition gm_publish :: "block_handle \<Rightarrow> tokens \<Rightarrow> gpu_memory_pool \<Rightarrow> unit res \<times> gpu_memory_pool" where
  "gm_publish h prefix m =
     (case gm_device_address h m of
        Inl e \<Rightarrow> (Inl e, m)
      | Inr a \<Rightarrow>
        if gm_in_flight m ! h_id h then (Inl LogicError, m)
        else if \<not> gm_initialized m ! h_id h then (Inl InvalidArgument, m)
        else gm_call (bm_publish h prefix) m)"


section \<open>The invariant\<close>

definition gm_inv :: "gpu_memory_pool \<Rightarrow> bool" where
  "gm_inv m \<longleftrightarrow>
     bm_inv (gm_manager m) \<and> 0 < gm_block_bytes m \<and>
     gm_allocated_bytes m = gm_total_blocks m * gm_block_bytes m \<and> gm_allocated_bytes m \<le> size_max \<and>
     length (gm_base m) = gm_allocated_bytes m \<and>
     length (gm_initialized m) = gm_total_blocks m \<and> length (gm_in_flight m) = gm_total_blocks m"

abbreviation "gm_refs m \<equiv> bm_refs (gm_manager m)"
abbreviation "gm_live m \<equiv> bm_live (gm_manager m)"

definition gm_block :: "gpu_memory_pool \<Rightarrow> nat \<Rightarrow> memory" where
  "gm_block m i = peek (i * gm_block_bytes m) (gm_block_bytes m) (gm_base m)"

lemma gm_create_inv:
  assumes "gm_create env fill blocks bytes tokens device = Inr m"
  shows "gm_inv m" and "gm_total_blocks m = blocks" and "gm_block_bytes m = bytes" and "gm_refs m h = 0"
    and "\<forall>i < blocks. \<not> gm_initialized m ! i \<and> \<not> gm_in_flight m ! i"
proof -
  obtain b where dims: "blocks \<noteq> 0" "bytes \<noteq> 0" "blocks \<le> size_max div bytes"
    and b: "bm_create (blocks * bytes div bytes) tokens (Some prefix_hash) = Inr b"
    and m: "m = \<lparr>gm_manager = b, gm_block_bytes = bytes, gm_allocated_bytes = blocks * bytes,
                 gm_device = device, gm_initialized = replicate blocks False,
                 gm_in_flight = replicate blocks False, gm_base = map fill [0..<blocks * bytes]\<rparr>"
    using assms unfolding gm_create_def checked_pool_bytes_def
    by (auto simp: bind_res_Inr_iff split: if_splits option.splits)
  have le: "blocks * bytes \<le> size_max"
    using dims(3) by (metis div_mult_mod_eq le_add1 le_trans mult_le_mono1)
  have "blocks \<le> blocks * bytes" using dims by simp
  from le_trans [OF this le] have "blocks \<le> none" by (simp only: none_def)
  have b: "bm_create blocks tokens (Some prefix_hash) = Inr b" using b dims by simp
  note inv = bm_create_inv [OF b \<open>blocks \<le> none\<close>]
  have cap: "bm_capacity b = blocks" using inv(5) by (simp add: bm_config_def)
  show "gm_inv m" using inv(2) cap le dims by (simp add: gm_inv_def m gm_total_blocks_def)
  show "gm_total_blocks m = blocks" "gm_block_bytes m = bytes" "gm_refs m h = 0"
    "\<forall>i < blocks. \<not> gm_initialized m ! i \<and> \<not> gm_in_flight m ! i"
    using cap inv(3) by (simp_all add: m gm_total_blocks_def)
qed

lemma gm_refs_index: "0 < gm_refs m h \<Longrightarrow> h_id h < gm_total_blocks m"
  by (auto simp: bm_refs_def bm_live_def gm_total_blocks_def bm_capacity_def split: if_splits)

lemma bm_ref_count_cases:
  "bm_ref_count h s = (if bm_live s h then Inr (bm_refs s h) else Inl InvalidArgument)"
  by (simp add: bm_ref_count_def bm_checked_live bm_refs_def)

lemma bm_is_published_cases:
  "bm_is_published h s = (if bm_live s h then Inr (bm_pub s h) else Inl InvalidArgument)"
  by (simp add: bm_is_published_def bm_checked_live bm_pub_def)

lemma gm_device_address_cases:
  "gm_device_address h m =
     (if 0 < gm_refs m h then Inr (h_id h * gm_block_bytes m) else Inl InvalidArgument)"
proof (cases "0 < gm_refs m h")
  case True
  then show ?thesis
    using gm_refs_index [of m h] bm_refs_live [of "gm_manager m" h]
    by (simp add: gm_device_address_def gm_address_of_id_def bm_ref_count_cases)
next
  case False
  then show ?thesis by (simp add: gm_device_address_def bm_ref_count_cases)
qed

lemma gm_call_inv:
  assumes "gm_inv m" and "gm_call f m = (r, m')" and "bm_inv (gm_manager m')"
    and "bm_capacity (gm_manager m') = bm_capacity (gm_manager m)"
  shows "gm_inv m'"
  using assms by (auto simp: gm_call_def gm_inv_def gm_total_blocks_def split: prod.splits)

lemma gm_call_iff:
  "gm_call f m = (r, m') \<longleftrightarrow> (\<exists>b. f (gm_manager m) = (r, b) \<and> m' = m\<lparr>gm_manager := b\<rparr>)"
  by (auto simp: gm_call_def split: prod.splits)

lemma gm_put_inv:
  assumes "gm_inv m"
  shows "gm_inv (m\<lparr>gm_initialized := (gm_initialized m)[i := x]\<rparr>)"
    and "gm_inv (m\<lparr>gm_in_flight := (gm_in_flight m)[i := x]\<rparr>)"
    and "length mem = length (gm_base m) \<Longrightarrow> gm_inv (m\<lparr>gm_base := mem\<rparr>)"
  using assms by (simp_all add: gm_inv_def gm_total_blocks_def)

text \<open>The reference counts are those of the manager.\<close>

lemma gm_allocate_ok:
  assumes inv: "gm_inv m" and a: "gm_allocate m = (Inr h, m')"
  shows "gm_inv m'" and "gm_refs m h = 0" and "gm_refs m' = (gm_refs m)(h := 1)"
    and "\<not> bm_pub (gm_manager m') h" and "gm_base m' = gm_base m" and "gm_block_bytes m' = gm_block_bytes m"
    and "gm_initialized m' = (gm_initialized m)[h_id h := False]" and "gm_in_flight m' = gm_in_flight m"
    and "h_id h < gm_total_blocks m" and "gm_total_blocks m' = gm_total_blocks m"
proof -
  obtain b where b: "bm_allocate (gm_manager m) = (Inr h, b)"
    and m': "m' = m\<lparr>gm_manager := b, gm_initialized := (gm_initialized m)[h_id h := False]\<rparr>"
    using a by (auto simp: gm_allocate_def and_then_Inr_iff gm_call_iff)
  have binv: "bm_inv (gm_manager m)" using inv by (simp add: gm_inv_def)
  note ok = bm.alloc_ok [OF binv b]
  have cap: "bm_capacity b = bm_capacity (gm_manager m)" using ok by (simp add: bm_config_def)
  show "gm_inv m'" using inv ok cap by (simp add: gm_inv_def m' gm_total_blocks_def)
  show "gm_refs m h = 0" "\<not> bm_pub (gm_manager m') h" using ok by (simp_all add: m')
  show refs: "gm_refs m' = (gm_refs m)(h := 1)" using ok unfolding m' by simp
  show "gm_base m' = gm_base m" "gm_initialized m' = (gm_initialized m)[h_id h := False]"
    "gm_in_flight m' = gm_in_flight m" "gm_block_bytes m' = gm_block_bytes m" by (simp_all add: m')
  show tb: "gm_total_blocks m' = gm_total_blocks m" by (simp add: gm_total_blocks_def m' cap)
  show "h_id h < gm_total_blocks m" using gm_refs_index [of m' h] tb refs by simp
qed

text \<open>One block of the region, under a write to another or to the same.\<close>

lemma gm_region:
  assumes "gm_inv m" and "i < gm_total_blocks m"
  shows "i * gm_block_bytes m + gm_block_bytes m \<le> length (gm_base m)"
  using assms block_end [of i "gm_total_blocks m" "gm_block_bytes m"] by (simp add: gm_inv_def)

lemma gm_block_patch:
  assumes "gm_inv m" and "i < gm_total_blocks m" and "length data \<le> gm_block_bytes m"
  shows "length data = gm_block_bytes m \<Longrightarrow>
      gm_block (m\<lparr>gm_base := patch (i * gm_block_bytes m) data (gm_base m)\<rparr>) i = data"
    and "j \<noteq> i \<Longrightarrow>
      gm_block (m\<lparr>gm_base := patch (i * gm_block_bytes m) data (gm_base m)\<rparr>) j = gm_block m j"
    and "length (patch (i * gm_block_bytes m) data (gm_base m)) = length (gm_base m)"
proof -
  have le: "i * gm_block_bytes m + length data \<le> length (gm_base m)"
    using gm_region [OF assms(1,2)] assms(3) by linarith
  show "length (patch (i * gm_block_bytes m) data (gm_base m)) = length (gm_base m)"
    using le by simp
  show "length data = gm_block_bytes m \<Longrightarrow>
      gm_block (m\<lparr>gm_base := patch (i * gm_block_bytes m) data (gm_base m)\<rparr>) i = data"
    using peek_patch_same [OF le] by (simp add: gm_block_def)
  assume "j \<noteq> i"
  then have "j * gm_block_bytes m + gm_block_bytes m \<le> i * gm_block_bytes m \<or>
      i * gm_block_bytes m + length data \<le> j * gm_block_bytes m"
    using scaled_disjoint [of j i "gm_block_bytes m"] assms(3) by linarith
  then show "gm_block (m\<lparr>gm_base := patch (i * gm_block_bytes m) data (gm_base m)\<rparr>) j = gm_block m j"
    using peek_patch_other [OF le] by (simp add: gm_block_def)
qed

text \<open>What a write does, with every outcome of the CUDA calls.\<close>

lemma gm_write_cases:
  assumes inv: "gm_inv m" and w: "gm_write_block env h host n m = (r, m')"
  shows "m' = m \<and> r \<noteq> Inr () \<or>
    (gm_refs m h = 1 \<and> \<not> bm_pub (gm_manager m) h \<and> \<not> gm_in_flight m ! h_id h \<and>
     n = gm_block_bytes m \<and> host \<noteq> None \<and> n \<le> length (the host) \<and>
     gm_inv m' \<and> gm_manager m' = gm_manager m \<and> gm_block_bytes m' = gm_block_bytes m \<and>
     gm_in_flight m' = gm_in_flight m \<and> (\<forall>j. j \<noteq> h_id h \<longrightarrow> gm_block m' j = gm_block m j) \<and>
     gm_initialized m' = (gm_initialized m)[h_id h := (r = Inr ())] \<and>
     (r = Inr () \<longrightarrow> gm_block m' (h_id h) = take n (the host)))"
proof (cases "gm_refs m h = 1 \<and> \<not> gm_in_flight m ! h_id h \<and> host \<noteq> None \<and> n = gm_block_bytes m \<and>
    n \<le> length (the host) \<and> \<not> bm_pub (gm_manager m) h \<and> cu_guard env")
  case False
  have "m' = m \<and> r \<noteq> Inr ()"
  proof (cases "0 < gm_refs m h")
    case ref: True
    then have live: "bm_live (gm_manager m) h" by (rule bm_refs_live)
    consider "gm_in_flight m ! h_id h" | "\<not> gm_in_flight m ! h_id h" "host = None \<or> n \<noteq> gm_block_bytes m"
      | "\<not> gm_in_flight m ! h_id h" "host \<noteq> None" "n = gm_block_bytes m" "length (the host) < n"
      | "\<not> gm_in_flight m ! h_id h" "host \<noteq> None" "n = gm_block_bytes m" "n \<le> length (the host)"
        "gm_refs m h \<noteq> 1 \<or> bm_pub (gm_manager m) h"
      | "\<not> gm_in_flight m ! h_id h" "host \<noteq> None" "n = gm_block_bytes m" "n \<le> length (the host)"
        "gm_refs m h = 1" "\<not> bm_pub (gm_manager m) h" "\<not> cu_guard env"
      using False by linarith
    then show ?thesis
      by cases (use w ref live in \<open>auto simp: gm_write_block_def gm_device_address_cases
          bm_ref_count_cases bm_is_published_cases\<close>)
  qed (use w in \<open>auto simp: gm_write_block_def gm_device_address_cases\<close>)
  then show ?thesis by blast
next
  case go: True
  let ?i = "h_id h" and ?d = "take n (the host)"
  have i: "?i < gm_total_blocks m" using gm_refs_index [of m h] go by simp
  have live: "bm_live (gm_manager m) h" using bm_refs_live [of "gm_manager m" h] go by simp
  have guards: "bm_ref_count h (gm_manager m) = Inr 1" "bm_is_published h (gm_manager m) = Inr False"
    using go live by (simp_all add: bm_ref_count_cases bm_is_published_cases)
  define m1 where "m1 = m\<lparr>gm_initialized := (gm_initialized m)[?i := False]\<rparr>"
  have inv1: "gm_inv m1" and i1: "?i < gm_total_blocks m1" and bb: "gm_block_bytes m1 = gm_block_bytes m"
    and base: "gm_base m1 = gm_base m" and blk: "gm_block m1 = gm_block m"
    using gm_put_inv(1) [OF inv] i by (simp_all add: m1_def gm_total_blocks_def gm_block_def fun_eq_iff)
  define d where "d = (case cu_copy env of None \<Rightarrow> ?d | Some k \<Rightarrow> take k ?d)"
  define m2 where "m2 = m1\<lparr>gm_base := patch (?i * gm_block_bytes m1) d (gm_base m1)\<rparr>"
  have dle: "length d \<le> gm_block_bytes m1" using go by (auto simp: d_def bb split: option.split)
  note p = gm_block_patch [OF inv1 i1 dle]
  have inv2: "gm_inv m2" unfolding m2_def by (rule gm_put_inv(3) [OF inv1 p(3)])
  have others: "gm_block m2 j = gm_block m j" if "j \<noteq> ?i" for j
    using p(2) that by (simp add: m2_def blk)
  have mem: "cuda_memcpy env (?i * gm_block_bytes m) ?d (gm_base m1) =
      (if cu_copy env = None then Inr () else Inl RuntimeError, gm_base m2)"
    by (auto simp: cuda_memcpy_def m2_def d_def bb split: option.split)
  have fields: "gm_manager m2 = gm_manager m" "gm_block_bytes m2 = gm_block_bytes m"
    "gm_in_flight m2 = gm_in_flight m" "gm_initialized m2 = (gm_initialized m)[?i := False]"
    "m1\<lparr>gm_base := gm_base m2\<rparr> = m2" "gm_initialized m2 = gm_initialized m1"
    by (simp_all add: m2_def m1_def)
  show ?thesis
  proof (cases "cu_copy env = None \<and> cu_sync env")
    case True
    have m': "m' = m2\<lparr>gm_initialized := (gm_initialized m2)[?i := True]\<rparr>" and r: "r = Inr ()"
      using w go guards True mem fields(5,6)
      by (auto simp: gm_write_block_def gm_device_address_cases Let_def m1_def [symmetric])
    have "gm_block m2 ?i = ?d" using p(1) go True by (simp add: m2_def d_def bb)
    moreover have "gm_inv m'" unfolding m' by (rule gm_put_inv(1) [OF inv2])
    ultimately show ?thesis
      using go others fields r by (auto simp: m' gm_block_def)
  next
    case False
    have m': "m' = m2" and r: "r = Inl RuntimeError"
      using w go guards False mem fields(5)
      by (auto simp: gm_write_block_def gm_device_address_cases Let_def m1_def [symmetric] split: if_splits)
    show ?thesis using go inv2 others fields r by (simp add: m')
  qed
qed


lemma gm_read_iff:
  "gm_read_block env h host n m = Inr bs \<longleftrightarrow>
     0 < gm_refs m h \<and> \<not> gm_in_flight m ! h_id h \<and> host \<and> n = gm_block_bytes m \<and>
     gm_initialized m ! h_id h \<and> cu_guard env \<and> cu_copy env = None \<and> bs = gm_block m (h_id h)"
  by (auto simp: gm_read_block_def gm_device_address_cases gm_block_def)

lemma gm_write_ok:
  assumes "gm_inv m" and "gm_write_block env h host n m = (Inr (), m')"
  shows "gm_refs m h = 1" and "gm_block m' (h_id h) = take n (the host)" and "n = gm_block_bytes m"
    and "gm_inv m'" and "gm_initialized m' ! h_id h" and "\<not> gm_in_flight m ! h_id h"
    and "gm_manager m' = gm_manager m" and "gm_block_bytes m' = gm_block_bytes m"
    and "gm_in_flight m' = gm_in_flight m" and "j \<noteq> h_id h \<Longrightarrow> gm_block m' j = gm_block m j"
    and "j \<noteq> h_id h \<Longrightarrow> gm_initialized m' ! j = gm_initialized m ! j"
proof -
  note c = gm_write_cases [OF assms]
  have i: "h_id h < length (gm_initialized m)"
    using c gm_refs_index [of m h] assms(1) by (auto simp: gm_inv_def)
  show "gm_refs m h = 1" "gm_block m' (h_id h) = take n (the host)" "n = gm_block_bytes m"
    "gm_inv m'" "\<not> gm_in_flight m ! h_id h" "gm_manager m' = gm_manager m"
    "gm_block_bytes m' = gm_block_bytes m" "gm_in_flight m' = gm_in_flight m"
    "j \<noteq> h_id h \<Longrightarrow> gm_block m' j = gm_block m j"
    using c by blast+
  have "gm_initialized m' = (gm_initialized m)[h_id h := True]" using c by simp
  then show "gm_initialized m' ! h_id h"
    "j \<noteq> h_id h \<Longrightarrow> gm_initialized m' ! j = gm_initialized m ! j" using i by simp_all
qed

section \<open>Properties\<close>

definition good_cuda :: cuda where
  "good_cuda = \<lparr>cu_device_count = Some 1, cu_guard = True, cu_malloc = True, cu_copy = None, cu_sync = True\<rparr>"

definition demo_gpu_pool :: gpu_memory_pool where
  "demo_gpu_pool = (case gm_create good_cuda (\<lambda>i. 0) 2 3 4 0 of Inr m \<Rightarrow> m)"

definition demo_gpu_alloc :: "block_handle res \<times> gpu_memory_pool" where
  "demo_gpu_alloc = gm_allocate demo_gpu_pool"

definition demo_block :: block_handle where
  "demo_block = \<lparr>h_id = 0, h_generation = 1\<rparr>"

lemma demo_gpu_pool_inv: "gm_inv demo_gpu_pool"
proof -
  obtain m where m: "gm_create good_cuda (\<lambda>i. 0) 2 3 4 0 = Inr m"
    by (auto simp: gm_create_def checked_pool_bytes_def size_max_def good_cuda_def bm_create_def)
  from gm_create_inv(1) [OF m] show ?thesis unfolding demo_gpu_pool_def m by simp
qed

lemma demo_gpu_alloc_ok: "demo_gpu_alloc = (Inr demo_block, snd demo_gpu_alloc)" "gm_inv (snd demo_gpu_alloc)"
proof -
  have "fst demo_gpu_alloc = Inr demo_block" by code_simp
  then show a: "demo_gpu_alloc = (Inr demo_block, snd demo_gpu_alloc)" by (metis prod.collapse)
  show "gm_inv (snd demo_gpu_alloc)"
    using gm_allocate_ok(1) [OF demo_gpu_pool_inv] a unfolding demo_gpu_alloc_def by metis
qed

text \<open>A write that fails leaves everything as it was, or the block unreadable.\<close>

lemma gm_write_failed:
  assumes inv: "gm_inv m" and w: "gm_write_block env h host n m = (Inl e, m')"
  shows "m' = m \<or> (\<forall>env' host' k bs. gm_read_block env' h host' k m' \<noteq> Inr bs) \<and>
    (\<forall>j. j \<noteq> h_id h \<longrightarrow> gm_block m' j = gm_block m j)"
proof (cases "m' = m")
  case False
  with gm_write_cases [OF inv w] have c: "gm_refs m h = 1"
    "gm_initialized m' = (gm_initialized m)[h_id h := False]" "\<forall>j. j \<noteq> h_id h \<longrightarrow> gm_block m' j = gm_block m j"
    by auto
  then have "h_id h < length (gm_initialized m)"
    using gm_refs_index [of m h] inv by (simp add: gm_inv_def)
  then show ?thesis using c by (simp add: gm_read_iff)
qed simp

lemma gm_write_others:
  assumes inv: "gm_inv m" and w: "gm_write_block env h host n m = (r, m')" and "h_id g \<noteq> h_id h"
  shows "(gm_read_block env' g True k m' = Inr bs) = (gm_read_block env' g True k m = Inr bs)"
  using gm_write_cases [OF inv w] assms(3) by (auto simp: gm_read_iff)

text \<open>C22: What \<open>write_block\<close> stored \<open>read_block\<close> returns, byte for byte. A write that throws has
  changed nothing, or it failed part way and the block cannot be read until a later write
  succeeds; a block that is shared, published or under way is never written. Whatever the
  outcome, the other blocks read as before, whether or not they could be read.\<close>

theorem gm_write_read:
  assumes "gm_inv m" and "gm_write_block env h host n m = (r, m')"
    and "cu_guard env'" and "cu_copy env' = None"
  shows "(case r of
      Inr u \<Rightarrow> gm_read_block env' h True n m' = Inr (take n (the host))
    | Inl e \<Rightarrow> m' = m \<or>
        (\<forall>env'' host' k bs. gm_read_block env'' h host' k m' \<noteq> Inr bs) \<and>
        gm_refs m h = 1 \<and> \<not> bm_pub (gm_manager m) h \<and> \<not> gm_in_flight m ! h_id h) \<and>
    (gm_refs m h \<noteq> 1 \<or> bm_pub (gm_manager m) h \<or> gm_in_flight m ! h_id h \<longrightarrow> isl r \<and> m' = m) \<and>
    (\<forall>g k bs. h_id g \<noteq> h_id h \<longrightarrow>
       (gm_read_block env' g True k m' = Inr bs) = (gm_read_block env' g True k m = Inr bs))"
proof (intro conjI)
  note c = gm_write_cases [OF assms(1,2)]
  show "case r of
      Inr u \<Rightarrow> gm_read_block env' h True n m' = Inr (take n (the host))
    | Inl e \<Rightarrow> m' = m \<or>
        (\<forall>env'' host' k bs. gm_read_block env'' h host' k m' \<noteq> Inr bs) \<and>
        gm_refs m h = 1 \<and> \<not> bm_pub (gm_manager m) h \<and> \<not> gm_in_flight m ! h_id h"
  proof (cases r)
    case (Inl e)
    then have "m' = m \<or> (\<forall>env' host' k bs. gm_read_block env' h host' k m' \<noteq> Inr bs)"
      using gm_write_failed [OF assms(1)] assms(2) by blast
    then show ?thesis using c Inl by auto
  next
    case (Inr u)
    then have "gm_write_block env h host n m = (Inr (), m')" using assms(2) by simp
    then show ?thesis using Inr gm_write_ok [OF assms(1)] assms(3,4) by (simp add: gm_read_iff)
  qed
  show "gm_refs m h \<noteq> 1 \<or> bm_pub (gm_manager m) h \<or> gm_in_flight m ! h_id h \<longrightarrow> isl r \<and> m' = m"
    using c by (cases r) auto
qed (use gm_write_others [OF assms(1,2)] in blast)

lemma gm_write_read_witness:
  "gm_read_block good_cuda demo_block True 3
     (snd (gm_write_block good_cuda demo_block (Some [7, 8, 9]) 3 (snd demo_gpu_alloc))) = Inr [7, 8, 9] \<and>
   (\<forall>env host k bs. gm_read_block env demo_block host k
     (snd (gm_write_block (good_cuda\<lparr>cu_copy := Some 2\<rparr>) demo_block (Some [7, 8, 9]) 3 (snd demo_gpu_alloc))) \<noteq> Inr bs)"
proof -
  let ?m = "snd demo_gpu_alloc" and ?bad = "good_cuda\<lparr>cu_copy := Some 2\<rparr>"
  have env: "cu_guard good_cuda" "cu_copy good_cuda = None" by (simp_all add: good_cuda_def)
  have "fst (gm_write_block good_cuda demo_block (Some [7, 8, 9]) 3 ?m) = Inr ()"
    by code_simp
  then obtain m' where w: "gm_write_block good_cuda demo_block (Some [7, 8, 9]) 3 ?m = (Inr (), m')"
    by (metis prod.collapse)
  have "isl (fst (gm_write_block ?bad demo_block (Some [7, 8, 9]) 3 ?m))"
    "gm_block (snd (gm_write_block ?bad demo_block (Some [7, 8, 9]) 3 ?m)) 0 \<noteq> gm_block ?m 0" by code_simp+
  then obtain e m2 where f: "gm_write_block ?bad demo_block (Some [7, 8, 9]) 3 ?m = (Inl e, m2)" "m2 \<noteq> ?m"
    by (cases "gm_write_block ?bad demo_block (Some [7, 8, 9]) 3 ?m";
        cases "fst (gm_write_block ?bad demo_block (Some [7, 8, 9]) 3 ?m)") auto
  show ?thesis
    using gm_write_read [OF demo_gpu_alloc_ok(2) w env] gm_write_read [OF demo_gpu_alloc_ok(2) f(1) env] w f by auto
qed

text \<open>Stale device memory is never handed out and shared data never overwritten: a block fresh
  from \<open>allocate\<close> can neither be read nor published; a write that fails part way leaves the block
  unreadable and all others as they were; a write to a block with several owners, or one that
  is published, throws and changes nothing.\<close>

theorem gm_no_stale_data:
  assumes "gm_inv m"
  shows "(\<forall>h m'. gm_allocate m = (Inr h, m') \<longrightarrow>
      (\<forall>env host n bs. gm_read_block env h host n m' \<noteq> Inr bs) \<and>
      (\<forall>prefix. \<exists>e. gm_publish h prefix m' = (Inl e, m'))) \<and>
    (\<forall>env h host n e m'. gm_write_block env h host n m = (Inl e, m') \<longrightarrow>
      m' = m \<or> (\<forall>env' host' k bs. gm_read_block env' h host' k m' \<noteq> Inr bs) \<and>
                (\<forall>j. j \<noteq> h_id h \<longrightarrow> gm_block m' j = gm_block m j)) \<and>
    (\<forall>env h host n. gm_refs m h \<noteq> 1 \<or> bm_is_published h (gm_manager m) = Inr True \<longrightarrow>
      (\<exists>e. gm_write_block env h host n m = (Inl e, m)))"
proof (intro conjI)
  show "\<forall>h m'. gm_allocate m = (Inr h, m') \<longrightarrow>
      (\<forall>env host n bs. gm_read_block env h host n m' \<noteq> Inr bs) \<and>
      (\<forall>prefix. \<exists>e. gm_publish h prefix m' = (Inl e, m'))"
  proof (intro allI impI)
    fix h m'
    assume a: "gm_allocate m = (Inr h, m')"
    note ok = gm_allocate_ok [OF assms a]
    have "h_id h < length (gm_initialized m)" using ok(9) assms by (simp add: gm_inv_def)
    then have "\<not> gm_initialized m' ! h_id h" using ok(7) by simp
    then show "(\<forall>env host n bs. gm_read_block env h host n m' \<noteq> Inr bs) \<and>
        (\<forall>prefix. \<exists>e. gm_publish h prefix m' = (Inl e, m'))"
      using ok(3) by (auto simp: gm_read_iff gm_publish_def gm_device_address_cases)
  qed
  show "\<forall>env h host n e m'. gm_write_block env h host n m = (Inl e, m') \<longrightarrow>
      m' = m \<or> (\<forall>env' host' k bs. gm_read_block env' h host' k m' \<noteq> Inr bs) \<and>
                (\<forall>j. j \<noteq> h_id h \<longrightarrow> gm_block m' j = gm_block m j)"
    using gm_write_failed [OF assms] by blast
  show "\<forall>env h host n. gm_refs m h \<noteq> 1 \<or> bm_is_published h (gm_manager m) = Inr True \<longrightarrow>
      (\<exists>e. gm_write_block env h host n m = (Inl e, m))"
  proof (intro allI impI)
    fix env h host n
    assume g: "gm_refs m h \<noteq> 1 \<or> bm_is_published h (gm_manager m) = Inr True"
    obtain r m' where w: "gm_write_block env h host n m = (r, m')" by (metis surj_pair)
    have "m' = m \<and> r \<noteq> Inr ()"
      using gm_write_cases [OF assms w] g by (auto simp: bm_is_published_cases split: if_splits)
    then show "\<exists>e. gm_write_block env h host n m = (Inl e, m)" using w by (cases r) auto
  qed
qed

lemma gm_no_stale_data_witness:
  "gm_inv demo_gpu_pool \<and>
   gm_read_block good_cuda demo_block True 3 (snd demo_gpu_alloc) \<noteq> Inr [0, 0, 0]"
  using conjunct1 [OF gm_no_stale_data [OF demo_gpu_pool_inv]] demo_gpu_alloc_ok(1) demo_gpu_pool_inv
  unfolding demo_gpu_alloc_def by blast

end
