(* ===== verification/Host_Buffers.thy ===== *)
theory Host_Buffers
  imports Gpu_Memory_Pool Chunk_File_Store
begin

text \<open>
  \<open>pinned_storage.h\<close>, \<open>pinned_memory.cpp\<close>, \<open>v3/host_buffers\<close>, \<open>v3/pinned_chunk_pool\<close> and
  \<open>v3/gpu_chunk_store\<close>: the memory behind the chunk slots. The abstract class
  \<open>HostChunkBuffers\<close> is the type \<open>host_buffers\<close> with its two implementations; what its users
  need, that a slot keeps the chunk stored in it until it is overwritten, is the locale
  \<open>slot_memory\<close>, which the device memory of \<open>GpuChunkStore\<close> satisfies as well.
\<close>

section \<open>Pinned buffers\<close>

record pinned_buffer =
  pb_memory :: memory
  pb_busy :: bool

text \<open>\<open>cudaHostAlloc\<close> may fail and leaves the memory as \<open>fill\<close> says.\<close>

definition pb_create :: "bool \<Rightarrow> (nat \<Rightarrow> u8) \<Rightarrow> nat \<Rightarrow> pinned_buffer res" where
  "pb_create host_alloc fill bytes =
     (if bytes = 0 then Inl InvalidArgument
      else if \<not> host_alloc then Inl RuntimeError
      else Inr \<lparr>pb_memory = map fill [0..<bytes], pb_busy = False\<rparr>)"

definition pb_size :: "pinned_buffer \<Rightarrow> nat" where
  "pb_size b = length (pb_memory b)"

definition pb_data :: "pinned_buffer \<Rightarrow> nat res" where
  "pb_data b = (if pb_busy b then Inl LogicError else Inr 0)"

definition pb_copy_from :: "memory option \<Rightarrow> nat \<Rightarrow> nat \<Rightarrow> pinned_buffer \<Rightarrow> unit res \<times> pinned_buffer" where
  "pb_copy_from source n offset b =
     (if source = None \<or> offset > pb_size b \<or> n > pb_size b - offset then (Inl InvalidArgument, b)
      else case pb_data b of
        Inl e \<Rightarrow> (Inl e, b)
      | Inr p \<Rightarrow>
          if length (the source) < n then (Inl Undefined, b)
          else (Inr (), b\<lparr>pb_memory := patch (p + offset) (take n (the source)) (pb_memory b)\<rparr>))"

definition pb_copy_to :: "bool \<Rightarrow> nat \<Rightarrow> nat \<Rightarrow> pinned_buffer \<Rightarrow> memory res" where
  "pb_copy_to destination n offset b =
     (if \<not> destination \<or> offset > pb_size b \<or> n > pb_size b - offset then Inl InvalidArgument
      else bind_res (pb_data b) (\<lambda>p. Inr (peek (p + offset) n (pb_memory b))))"

section \<open>Chunk slots in host memory\<close>

record heap_chunk_pool =
  hp_slots :: nat
  hp_chunk_bytes :: nat
  hp_bytes :: memory

definition hp_create :: "nat \<Rightarrow> nat \<Rightarrow> heap_chunk_pool res" where
  "hp_create slots chunk_bytes =
     (if slots = 0 \<or> chunk_bytes = 0 then Inl InvalidArgument
      else if slots > size_max div chunk_bytes then Inl OverflowError
      else Inr \<lparr>hp_slots = slots, hp_chunk_bytes = chunk_bytes,
                hp_bytes = replicate (slots * chunk_bytes) 0\<rparr>)"

definition hp_data :: "nat \<Rightarrow> heap_chunk_pool \<Rightarrow> nat res" where
  "hp_data slot p = (if slot \<ge> hp_slots p then Inl InvalidArgument else Inr (slot * hp_chunk_bytes p))"

record pinned_chunk_pool =
  pc_chunk_bytes :: nat
  pc_buffers :: "pinned_buffer list"

text \<open>The answers of the calls of \<open>cudaHostAlloc\<close>, one for each slot.\<close>

fun pc_make_buffers :: "bool list \<Rightarrow> (nat \<Rightarrow> u8) \<Rightarrow> nat \<Rightarrow> pinned_buffer list res" where
  "pc_make_buffers [] fill n = Inr []"
| "pc_make_buffers (a # as) fill n =
     bind_res (pb_create a fill n) (\<lambda>b. bind_res (pc_make_buffers as fill n) (\<lambda>bs. Inr (b # bs)))"

definition pc_create :: "(nat \<Rightarrow> bool) \<Rightarrow> (nat \<Rightarrow> u8) \<Rightarrow> nat \<Rightarrow> nat \<Rightarrow> pinned_chunk_pool res" where
  "pc_create host_alloc fill slots chunk_bytes =
     (if slots = 0 \<or> chunk_bytes = 0 then Inl InvalidArgument
      else bind_res (pc_make_buffers (map host_alloc [0..<slots]) fill chunk_bytes)
             (\<lambda>bs. Inr \<lparr>pc_chunk_bytes = chunk_bytes, pc_buffers = bs\<rparr>))"

text \<open>The index of the buffer whose memory \<open>data\<close> points to.\<close>

definition pc_data :: "nat \<Rightarrow> pinned_chunk_pool \<Rightarrow> nat res" where
  "pc_data slot p =
     (if slot \<ge> length (pc_buffers p) then Inl InvalidArgument
      else bind_res (pb_data (pc_buffers p ! slot)) (\<lambda>z. Inr slot))"

datatype host_buffers = HeapPool heap_chunk_pool | PinnedPool pinned_chunk_pool

fun hb_chunk_bytes :: "host_buffers \<Rightarrow> nat" where
  "hb_chunk_bytes (HeapPool p) = hp_chunk_bytes p"
| "hb_chunk_bytes (PinnedPool p) = pc_chunk_bytes p"

fun hb_slots :: "host_buffers \<Rightarrow> nat" where
  "hb_slots (HeapPool p) = hp_slots p"
| "hb_slots (PinnedPool p) = length (pc_buffers p)"

text \<open>
  The chunk that the pointer \<open>data(slot)\<close> leads to, and the same memory overwritten.
\<close>

fun hb_load :: "nat \<Rightarrow> host_buffers \<Rightarrow> memory res" where
  "hb_load slot (HeapPool p) = bind_res (hp_data slot p) (\<lambda>off. Inr (peek off (hp_chunk_bytes p) (hp_bytes p)))"
| "hb_load slot (PinnedPool p) = bind_res (pc_data slot p) (\<lambda>i. Inr (pb_memory (pc_buffers p ! i)))"

fun hb_store :: "nat \<Rightarrow> memory \<Rightarrow> host_buffers \<Rightarrow> unit res \<times> host_buffers" where
  "hb_store slot bs (HeapPool p) =
     (case hp_data slot p of
        Inl e \<Rightarrow> (Inl e, HeapPool p)
      | Inr off \<Rightarrow> (Inr (), HeapPool (p\<lparr>hp_bytes := patch off bs (hp_bytes p)\<rparr>)))"
| "hb_store slot bs (PinnedPool p) =
     (case pc_data slot p of
        Inl e \<Rightarrow> (Inl e, PinnedPool p)
      | Inr i \<Rightarrow> (Inr (), PinnedPool (p\<lparr>pc_buffers := (pc_buffers p)[i :=
                    (pc_buffers p ! i)\<lparr>pb_memory := patch 0 bs (pb_memory (pc_buffers p ! i))\<rparr>]\<rparr>)))"

section \<open>Chunk slots in device memory\<close>

record gpu_chunk_store =
  gs_pool :: gpu_memory_pool

definition gs_create :: "cuda \<Rightarrow> (nat \<Rightarrow> u8) \<Rightarrow> nat \<Rightarrow> nat \<Rightarrow> int \<Rightarrow> gpu_chunk_store res" where
  "gs_create env fill total_slots chunk_bytes device =
     bind_res (gm_create env fill total_slots chunk_bytes 1 device) (\<lambda>p. Inr \<lparr>gs_pool = p\<rparr>)"

definition gs_chunk_bytes :: "gpu_chunk_store \<Rightarrow> nat" where
  "gs_chunk_bytes s = gm_block_bytes (gs_pool s)"

definition gs_slots :: "gpu_chunk_store \<Rightarrow> nat" where
  "gs_slots s = gm_total_blocks (gs_pool s)"

definition gs_device_ptr :: "nat \<Rightarrow> gpu_chunk_store \<Rightarrow> nat res" where
  "gs_device_ptr slot s = gm_address_of_id slot (gs_pool s)"

definition gs_location_ptr :: "tier_location \<Rightarrow> gpu_chunk_store \<Rightarrow> nat res" where
  "gs_location_ptr l s = gs_device_ptr (loc_slot l) s"

definition gs_load :: "nat \<Rightarrow> gpu_chunk_store \<Rightarrow> memory res" where
  "gs_load slot s = bind_res (gs_device_ptr slot s) (\<lambda>p. Inr (peek p (gs_chunk_bytes s) (gm_base (gs_pool s))))"

definition gs_store :: "nat \<Rightarrow> memory \<Rightarrow> gpu_chunk_store \<Rightarrow> unit res \<times> gpu_chunk_store" where
  "gs_store slot bs s =
     (case gs_device_ptr slot s of
        Inl e \<Rightarrow> (Inl e, s)
      | Inr p \<Rightarrow> (Inr (), s\<lparr>gs_pool := (gs_pool s)\<lparr>gm_base := patch p bs (gm_base (gs_pool s))\<rparr>\<rparr>))"

section \<open>The interface\<close>

locale slot_memory =
  fixes inv :: "'m \<Rightarrow> bool"
    and slots :: "'m \<Rightarrow> nat"
    and chunk_bytes :: "'m \<Rightarrow> nat"
    and load :: "nat \<Rightarrow> 'm \<Rightarrow> memory res"
    and store :: "nat \<Rightarrow> memory \<Rightarrow> 'm \<Rightarrow> unit res \<times> 'm"
  assumes load_ok: "inv m \<Longrightarrow> i < slots m \<Longrightarrow> \<exists>bs. load i m = Inr bs \<and> length bs = chunk_bytes m"
    and load_err: "inv m \<Longrightarrow> slots m \<le> i \<Longrightarrow> \<exists>e. load i m = Inl e"
    and store_ok: "inv m \<Longrightarrow> i < slots m \<Longrightarrow> length bs = chunk_bytes m \<Longrightarrow>
      \<exists>m'. store i bs m = (Inr (), m') \<and> inv m' \<and> slots m' = slots m \<and> chunk_bytes m' = chunk_bytes m \<and>
        (\<forall>j. load j m' = (if j = i then Inr bs else load j m))"
    and store_err: "inv m \<Longrightarrow> slots m \<le> i \<Longrightarrow> \<exists>e. store i bs m = (Inl e, m)"
begin

text \<open>Storing what a slot holds changes no slot; two stores to different slots commute.\<close>

lemma store_load:
  assumes "inv m" and "load i m = Inr bs"
  shows "\<exists>m'. store i bs m = (Inr (), m') \<and> (\<forall>j. load j m' = load j m)"
proof -
  have i: "i < slots m" using load_err [OF assms(1)] assms(2) by (metis Inl_Inr_False not_less)
  then have "length bs = chunk_bytes m" using load_ok [OF assms(1) i] assms(2) by auto
  then show ?thesis using store_ok [OF assms(1) i] assms(2) by fastforce
qed

lemma store_cases:
  assumes "inv m" and "store i bs m = (r, m')" and "length bs = chunk_bytes m"
  shows "inv m' \<and> slots m' = slots m \<and> chunk_bytes m' = chunk_bytes m \<and>
    (r = Inr () \<and> i < slots m \<and> (\<forall>j. load j m' = (if j = i then Inr bs else load j m)) \<or>
     (\<exists>e. r = Inl e) \<and> slots m \<le> i \<and> m' = m)"
proof (cases "i < slots m")
  case True
  then show ?thesis using store_ok [OF assms(1) True assms(3)] assms(2) by auto
next
  case False
  then show ?thesis using store_err [OF assms(1), of i bs] assms(1,2) by auto
qed

end

fun hb_inv :: "host_buffers \<Rightarrow> bool" where
  "hb_inv (HeapPool p) \<longleftrightarrow> length (hp_bytes p) = hp_slots p * hp_chunk_bytes p"
| "hb_inv (PinnedPool p) \<longleftrightarrow> (\<forall>b \<in> set (pc_buffers p). length (pb_memory b) = pc_chunk_bytes p \<and> \<not> pb_busy b)"

lemma patch_whole: "length bs = length mem \<Longrightarrow> patch 0 bs mem = bs"
  by (simp add: patch_def)

interpretation hb: slot_memory hb_inv hb_slots hb_chunk_bytes hb_load hb_store
proof unfold_locales
  fix m i bs
  assume inv: "hb_inv m"
  show "\<exists>bs. hb_load i m = Inr bs \<and> length bs = hb_chunk_bytes m" if "i < hb_slots m"
    using inv that block_end [of i] by (cases m) (auto simp: hp_data_def pc_data_def pb_data_def)
  show "\<exists>e. hb_load i m = Inl e" "\<exists>e. hb_store i bs m = (Inl e, m)" if "hb_slots m \<le> i"
    using that by (cases m; simp add: hp_data_def pc_data_def)+
  show "\<exists>m'. hb_store i bs m = (Inr (), m') \<and> hb_inv m' \<and> hb_slots m' = hb_slots m \<and>
      hb_chunk_bytes m' = hb_chunk_bytes m \<and> (\<forall>j. hb_load j m' = (if j = i then Inr bs else hb_load j m))"
    if i: "i < hb_slots m" and l: "length bs = hb_chunk_bytes m"
  proof (cases m)
    case (HeapPool p)
    then have le: "i * hp_chunk_bytes p + length bs \<le> length (hp_bytes p)"
      using inv i l block_end [of i "hp_slots p" "hp_chunk_bytes p"] by simp
    then show ?thesis
      using HeapPool inv i l peek_blocks [of "hp_bytes p" "hp_slots p" "hp_chunk_bytes p" i bs]
      by (auto simp: hp_data_def)
  next
    case (PinnedPool p)
    let ?b = "pc_buffers p ! i"
    have b: "length (pb_memory ?b) = pc_chunk_bytes p" "\<not> pb_busy ?b"
      using PinnedPool inv i by auto
    then have "patch 0 bs (pb_memory ?b) = bs" using patch_whole l PinnedPool by simp
    then show ?thesis
      using PinnedPool inv i l b
      by (auto simp: pc_data_def pb_data_def nth_list_update dest!: set_update_subset_insert [THEN subsetD])
  qed
qed

definition gs_inv :: "gpu_chunk_store \<Rightarrow> bool" where
  "gs_inv s \<longleftrightarrow> gm_inv (gs_pool s)"

lemma gs_ptr: "gs_device_ptr i s = (if i < gs_slots s then Inr (i * gs_chunk_bytes s) else Inl OutOfRange)"
  by (simp add: gs_device_ptr_def gm_address_of_id_def gs_slots_def gs_chunk_bytes_def)

interpretation gs: slot_memory gs_inv gs_slots gs_chunk_bytes gs_load gs_store
proof unfold_locales
  fix m i bs
  assume inv: "gs_inv m"
  then have len: "length (gm_base (gs_pool m)) = gs_slots m * gs_chunk_bytes m"
    by (simp add: gs_inv_def gm_inv_def gs_slots_def gs_chunk_bytes_def)
  show "\<exists>bs. gs_load i m = Inr bs \<and> length bs = gs_chunk_bytes m" if "i < gs_slots m"
    using that block_end [OF that, of "gs_chunk_bytes m"] len by (simp add: gs_load_def gs_ptr)
  show "\<exists>e. gs_load i m = Inl e" "\<exists>e. gs_store i bs m = (Inl e, m)" if "gs_slots m \<le> i"
    using that by (simp_all add: gs_load_def gs_store_def gs_ptr)
  show "\<exists>m'. gs_store i bs m = (Inr (), m') \<and> gs_inv m' \<and> gs_slots m' = gs_slots m \<and>
      gs_chunk_bytes m' = gs_chunk_bytes m \<and> (\<forall>j. gs_load j m' = (if j = i then Inr bs else gs_load j m))"
    if i: "i < gs_slots m" and l: "length bs = gs_chunk_bytes m"
  proof -
    let ?mem = "patch (i * gs_chunk_bytes m) bs (gm_base (gs_pool m))"
    let ?m = "m\<lparr>gs_pool := (gs_pool m)\<lparr>gm_base := ?mem\<rparr>\<rparr>"
    have s: "gs_store i bs m = (Inr (), ?m)" using i by (simp add: gs_store_def gs_ptr)
    have lm: "length ?mem = length (gm_base (gs_pool m))"
      using len l block_end [OF i, of "gs_chunk_bytes m"] by simp
    have inv': "gs_inv ?m" using gm_put_inv(3) [of "gs_pool m" ?mem] inv lm by (simp add: gs_inv_def)
    have f: "gs_slots ?m = gs_slots m" "gs_chunk_bytes ?m = gs_chunk_bytes m"
      by (simp_all add: gs_slots_def gm_total_blocks_def gs_chunk_bytes_def)
    have "gs_load j ?m = (if j = i then Inr bs else gs_load j m)" for j
      using peek_blocks [OF len i l, of j] i f by (cases "j = i") (simp_all add: gs_load_def gs_ptr)
    then show ?thesis using s inv' f by blast
  qed
qed

end
