(* ===== verification/Nvme_Transfer.thy ===== *)
theory Nvme_Transfer
  imports Directory_View Host_Buffers
begin

text \<open>
  \<open>include/kvflux/v3/nvme_transfer.h\<close>, \<open>src/v3/nvme_transfer.cpp\<close>: synchronous moves between
  the CPU level and chunk files. The three objects the class refers to are the fields of its
  state. A \<open>read\<close> that fails leaves the destination slot as it was in this model; the slot is
  given back in that case and its content is of no consequence.
\<close>

record nvme_transfer =
  nt_directory :: cache_directory
  nt_store :: chunk_file_store
  nt_cpu :: host_buffers

definition nt_dir :: "(cache_directory \<Rightarrow> 'a res \<times> cache_directory) \<Rightarrow> nvme_transfer \<Rightarrow> 'a res \<times> nvme_transfer" where
  "nt_dir f s = (case f (nt_directory s) of (r, d) \<Rightarrow> (r, s\<lparr>nt_directory := d\<rparr>))"

definition chunk_meta :: "cache_key \<Rightarrow> u64 \<Rightarrow> nvme_transfer \<Rightarrow> chunk_file_meta" where
  "chunk_meta key valid_tokens s = make_file_meta key valid_tokens (of_nat (hb_chunk_bytes (nt_cpu s)))"

text \<open>The bodies of the two \<open>try\<close> blocks.\<close>

definition nt_write_chunk :: "io \<Rightarrow> nat \<Rightarrow> cache_key \<Rightarrow> u64 \<Rightarrow> tier_location \<Rightarrow> nvme_transfer \<Rightarrow> unit res \<times> nvme_transfer" where
  "nt_write_chunk env now key valid_tokens source s =
     and_then (nt_dir (cd_place now key NVME COPYING) s) (\<lambda>destination s.
       case hb_load (loc_slot source) (nt_cpu s) of
         Inl e \<Rightarrow> (Inl e, s)
       | Inr payload \<Rightarrow>
           (case cs_write env (loc_slot destination) (chunk_meta key valid_tokens s) payload (nt_store s) of
              (r, st) \<Rightarrow> (r, s\<lparr>nt_store := st\<rparr>)))"

definition nt_read_chunk :: "io \<Rightarrow> nat \<Rightarrow> cache_key \<Rightarrow> tier_location \<Rightarrow> nvme_transfer \<Rightarrow> unit res \<times> nvme_transfer" where
  "nt_read_chunk env now key source s =
     and_then (nt_dir (cd_place now key CPU LOADING) s) (\<lambda>destination s.
       case hb_load (loc_slot destination) (nt_cpu s) of
         Inl e \<Rightarrow> (Inl e, s)
       | Inr old \<Rightarrow>
           (case cs_read env (loc_slot source) (chunk_meta key 0 s) (hb_chunk_bytes (nt_cpu s)) (nt_store s) of
              Inl e \<Rightarrow> (Inl e, s)
            | Inr None \<Rightarrow> (Inl ChunkMissError, s)
            | Inr (Some (out, meta)) \<Rightarrow>
                (case hb_store (loc_slot destination) (patch 0 out old) (nt_cpu s) of
                   (r, cpu) \<Rightarrow> (r, s\<lparr>nt_cpu := cpu\<rparr>))))"

definition nt_rollback :: "nat \<Rightarrow> cache_key \<Rightarrow> storage_tier \<Rightarrow> storage_tier \<Rightarrow> exn \<Rightarrow> nvme_transfer \<Rightarrow> unit res \<times> nvme_transfer" where
  "nt_rollback now key source destination e s =
     and_then (nt_dir (cd_rollback now key source destination) s) (\<lambda>_ s. (Inl e, s))"

definition nt_offload :: "io \<Rightarrow> nat \<Rightarrow> cache_key \<Rightarrow> u64 \<Rightarrow> bool \<Rightarrow> nvme_transfer \<Rightarrow> unit res \<times> nvme_transfer" where
  "nt_offload env now key valid_tokens release_cpu s =
     (case cd_at key (nt_directory s) of
        Inl e \<Rightarrow> (Inl e, s)
      | Inr r \<Rightarrow>
        (case cr_cpu r of
           None \<Rightarrow> (Inl LogicError, s)
         | Some cpu \<Rightarrow>
             if rp_state cpu \<noteq> READY then (Inl LogicError, s)
             else if cr_nvme r \<noteq> None then (Inl LogicError, s)
             else
               and_then (nt_dir (cd_set_state key CPU COPYING) s) (\<lambda>_ s.
               and_then (catch_all (nt_write_chunk env now key valid_tokens (rp_location cpu) s)
                           (nt_rollback now key CPU NVME)) (\<lambda>_ s.
               and_then (nt_dir (cd_set_state key NVME READY) s) (\<lambda>_ s.
               and_then (nt_dir (cd_set_state key CPU READY) s) (\<lambda>_ s.
                 if release_cpu then nt_dir (cd_remove now key CPU) s else (Inr (), s)))))))"

definition nt_onload :: "io \<Rightarrow> nat \<Rightarrow> cache_key \<Rightarrow> bool \<Rightarrow> nvme_transfer \<Rightarrow> unit res \<times> nvme_transfer" where
  "nt_onload env now key release_nvme s =
     (case cd_at key (nt_directory s) of
        Inl e \<Rightarrow> (Inl e, s)
      | Inr r \<Rightarrow>
        (case cr_nvme r of
           None \<Rightarrow> (Inl LogicError, s)
         | Some nvme \<Rightarrow>
             if rp_state nvme \<noteq> READY then (Inl LogicError, s)
             else if cr_cpu r \<noteq> None then (Inl LogicError, s)
             else
               and_then (nt_dir (cd_set_state key NVME COPYING) s) (\<lambda>_ s.
               and_then (catch_all (nt_read_chunk env now key (rp_location nvme) s)
                           (nt_rollback now key NVME CPU)) (\<lambda>_ s.
               and_then (nt_dir (cd_set_state key CPU READY) s) (\<lambda>_ s.
               and_then (nt_dir (cd_set_state key NVME READY) s) (\<lambda>_ s.
                 if release_nvme then
                   (case cs_erase env (loc_slot (rp_location nvme)) (nt_store s) of
                      (Inl e, st) \<Rightarrow> (Inl e, s\<lparr>nt_store := st\<rparr>)
                    | (Inr u, st) \<Rightarrow> nt_dir (cd_remove now key NVME) (s\<lparr>nt_store := st\<rparr>))
                 else (Inr (), s)))))))"

section \<open>The invariant\<close>

definition nt_inv :: "nvme_transfer \<Rightarrow> bool" where
  "nt_inv s \<longleftrightarrow> cd_inv (nt_directory s) \<and> hb_inv (nt_cpu s)"

abbreviation "nt_rep s \<equiv> cd_rep (nt_directory s)"
abbreviation "nt_pins s \<equiv> cd_pins (nt_directory s)"

lemma nt_dir_iff: "nt_dir f s = (r, s') \<longleftrightarrow> (\<exists>d. f (nt_directory s) = (r, d) \<and> s' = s\<lparr>nt_directory := d\<rparr>)"
  by (auto simp: nt_dir_def split: prod.splits)

lemma nt_put_dir: "nt_inv s \<Longrightarrow> cd_inv d \<Longrightarrow> nt_inv (s\<lparr>nt_directory := d\<rparr>)"
  by (simp add: nt_inv_def)

lemma nt_set_state:
  assumes "nt_inv s" and "nt_rep s t key = Some x"
  obtains d where "nt_dir (cd_set_state key t st) s = (Inr (), s\<lparr>nt_directory := d\<rparr>)"
    and "nt_inv (s\<lparr>nt_directory := d\<rparr>)"
    and "cd_rep d = upd (nt_rep s) t key (Some (x\<lparr>rp_state := st\<rparr>))" and "cd_pins d = nt_pins s"
    and "\<And>l. cd_spare l d = cd_spare l (nt_directory s)"
proof -
  have "cd_inv (nt_directory s)" using assms(1) by (simp add: nt_inv_def)
  from cd_set_state_ok [OF this assms(2)] obtain d where
    "cd_set_state key t st (nt_directory s) = (Inr (), d)" "cd_inv d"
    "cd_rep d = upd (nt_rep s) t key (Some (x\<lparr>rp_state := st\<rparr>))" "cd_pins d = nt_pins s" by blast
  then show ?thesis using that [of d] nt_put_dir [OF assms(1)] cd_spare_set_state by (simp add: nt_dir_def)
qed

lemma nt_remove:
  assumes "nt_inv s" and "nt_rep s t key = Some x" and "rp_state x = READY"
  obtains d where "nt_dir (cd_remove now key t) s = (Inr (), s\<lparr>nt_directory := d\<rparr>)"
    and "nt_inv (s\<lparr>nt_directory := d\<rparr>)" and "cd_rep d = upd (nt_rep s) t key None" and "cd_pins d = nt_pins s"
proof -
  have "cd_inv (nt_directory s)" using assms(1) by (simp add: nt_inv_def)
  from cd_remove_ok [OF this assms(2)] assms(3) obtain d where
    "cd_remove now key t (nt_directory s) = (Inr (), d)" "cd_inv d"
    "cd_rep d = upd (nt_rep s) t key None" "cd_pins d = nt_pins s" by auto
  then show ?thesis using that [of d] nt_put_dir [OF assms(1)] by (simp add: nt_dir_def)
qed

text \<open>The outcomes of the two copies.\<close>

lemma nt_write_chunk_cases:
  assumes inv: "nt_inv s" and w: "nt_write_chunk env now key valid src s = (r, s')" and no: "cd_spare NVME (nt_directory s)"
  shows "nt_inv s' \<and> nt_pins s' = nt_pins s \<and> nt_cpu s' = nt_cpu s \<and>
    ((\<exists>l payload. r = Inr () \<and> nt_rep s NVME key = None \<and>
        nt_rep s' = upd (nt_rep s) NVME key (Some \<lparr>rp_location = l, rp_state = COPYING\<rparr>) \<and>
        hb_load (loc_slot src) (nt_cpu s) = Inr payload \<and>
        cs_write env (loc_slot l) (chunk_meta key valid s) payload (nt_store s) = (Inr (), nt_store s')) \<or>
     (\<exists>e. r = Inl e \<and> (\<exists>y. nt_rep s' = upd (nt_rep s) NVME key y) \<and>
        (\<forall>i. cs_file i (nt_store s') = cs_file i (nt_store s))))"
proof -
  obtain p d where p: "cd_place now key NVME COPYING (nt_directory s) = (p, d)" by (metis surj_pair)
  have dinv: "cd_inv (nt_directory s)" using inv by (simp add: nt_inv_def)
  show ?thesis
  proof (cases p)
    case (Inl e)
    then have r: "r = Inl e" and s': "s' = s\<lparr>nt_directory := d\<rparr>"
      using w p by (auto simp: nt_write_chunk_def nt_dir_def)
    have "cd_rep d = nt_rep s \<and> cd_pins d = nt_pins s \<and> d = nt_directory s"
      using cd_place_view [OF dinv p] Inl cd_spare_place [OF no, of now key COPYING] p by auto
    then show ?thesis using inv r s' by (auto intro!: exI [of _ "nt_rep s NVME key"])
  next
    case (Inr l)
    then have c: "cd_inv d" "nt_rep s NVME key = None" "cd_pins d = nt_pins s"
      "cd_rep d = upd (nt_rep s) NVME key (Some \<lparr>rp_location = l, rp_state = COPYING\<rparr>)"
      using cd_place_view [OF dinv p] by auto
    let ?s = "s\<lparr>nt_directory := d\<rparr>"
    have inv1: "nt_inv ?s" using nt_put_dir [OF inv c(1)] .
    show ?thesis
    proof (cases "hb_load (loc_slot src) (nt_cpu s)")
      case (Inl e)
      then have "r = Inl e" "s' = ?s" using w p Inr by (auto simp: nt_write_chunk_def nt_dir_def)
      then show ?thesis using inv1 c by auto
    next
      case load: (Inr payload)
      obtain q st where q: "cs_write env (loc_slot l) (chunk_meta key valid s) payload (nt_store s) = (q, st)"
        by (metis surj_pair)
      have r: "r = q" and s': "s' = ?s\<lparr>nt_store := st\<rparr>"
        using w p Inr load q by (auto simp: nt_write_chunk_def nt_dir_def chunk_meta_def)
      have inv2: "nt_inv s'" using inv1 by (simp add: s' nt_inv_def)
      show ?thesis
      proof (cases q)
        case (Inl e)
        have "cs_file i st = cs_file i (nt_store s)" for i
          using cs_write_cases [OF q] Inl suffix_names(3) [of i "loc_slot l"]
          by (auto simp: cs_file_delete cs_file_update)
        then show ?thesis using inv2 c r s' Inl by auto
      next
        case (Inr u)
        then show ?thesis using inv2 c r s' load q by auto
      qed
    qed
  qed
qed

lemma nt_read_chunk_cases:
  assumes inv: "nt_inv s" and w: "nt_read_chunk env now key src s = (r, s')" and no: "cd_spare CPU (nt_directory s)"
  shows "nt_inv s' \<and> nt_pins s' = nt_pins s \<and> nt_store s' = nt_store s \<and>
    ((\<exists>l old out m. r = Inr () \<and> nt_rep s CPU key = None \<and>
        nt_rep s' = upd (nt_rep s) CPU key (Some \<lparr>rp_location = l, rp_state = LOADING\<rparr>) \<and>
        cs_read env (loc_slot src) (chunk_meta key 0 s) (hb_chunk_bytes (nt_cpu s)) (nt_store s) = Inr (Some (out, m)) \<and>
        hb_load (loc_slot l) (nt_cpu s) = Inr old \<and>
        (\<forall>j. hb_load j (nt_cpu s') = (if j = loc_slot l then Inr (patch 0 out old) else hb_load j (nt_cpu s)))) \<or>
     (\<exists>e. r = Inl e \<and> nt_cpu s' = nt_cpu s \<and> (\<exists>y. nt_rep s' = upd (nt_rep s) CPU key y)))"
proof -
  obtain p d where p: "cd_place now key CPU LOADING (nt_directory s) = (p, d)" by (metis surj_pair)
  have dinv: "cd_inv (nt_directory s)" using inv by (simp add: nt_inv_def)
  show ?thesis
  proof (cases p)
    case (Inl e)
    then have r: "r = Inl e" and s': "s' = s\<lparr>nt_directory := d\<rparr>"
      using w p by (auto simp: nt_read_chunk_def nt_dir_def)
    have "cd_rep d = nt_rep s \<and> cd_pins d = nt_pins s \<and> d = nt_directory s"
      using cd_place_view [OF dinv p] Inl cd_spare_place [OF no, of now key LOADING] p by auto
    then show ?thesis using inv r s' by (auto intro!: exI [of _ "nt_rep s CPU key"])
  next
    case (Inr l)
    then have c: "cd_inv d" "nt_rep s CPU key = None" "cd_pins d = nt_pins s"
      "cd_rep d = upd (nt_rep s) CPU key (Some \<lparr>rp_location = l, rp_state = LOADING\<rparr>)"
      using cd_place_view [OF dinv p] by auto
    let ?s = "s\<lparr>nt_directory := d\<rparr>"
    have inv1: "nt_inv ?s" using nt_put_dir [OF inv c(1)] .
    have hinv: "hb_inv (nt_cpu s)" using inv by (simp add: nt_inv_def)
    let ?read = "cs_read env (loc_slot src) (chunk_meta key 0 s) (hb_chunk_bytes (nt_cpu s)) (nt_store s)"
    show ?thesis
    proof (cases "hb_load (loc_slot l) (nt_cpu s)")
      case (Inl e)
      then have "r = Inl e" "s' = ?s" using w p Inr by (auto simp: nt_read_chunk_def nt_dir_def)
      then show ?thesis using inv1 c by auto
    next
      case load: (Inr old)
      show ?thesis
      proof (cases "\<exists>out m. ?read = Inr (Some (out, m))")
        case False
        then have "s' = ?s \<and> (\<exists>e. r = Inl e)"
          using w p Inr load by (auto simp: nt_read_chunk_def nt_dir_def chunk_meta_def split: sum.splits option.splits)
        then show ?thesis using inv1 c by auto
      next
        case True
        then obtain out m where rd: "?read = Inr (Some (out, m))" by blast
        obtain q cpu where q: "hb_store (loc_slot l) (patch 0 out old) (nt_cpu s) = (q, cpu)" by (metis surj_pair)
        have r: "r = q" and s': "s' = ?s\<lparr>nt_cpu := cpu\<rparr>"
          using w p Inr load rd q by (auto simp: nt_read_chunk_def nt_dir_def chunk_meta_def)
        have i: "loc_slot l < hb_slots (nt_cpu s)" and lo: "length old = hb_chunk_bytes (nt_cpu s)"
          using hb.load_err [OF hinv, of "loc_slot l"] hb.load_ok [OF hinv, of "loc_slot l"] load by fastforce+
        obtain content st where "fst (read_body (chunk_meta key 0 s) (hb_chunk_bytes (nt_cpu s)) (content, io_answers env))
            = Inr (Some (out, m))"
          using rd by (auto simp: cs_read_def split: option.splits if_splits)
        then have "length out \<le> hb_chunk_bytes (nt_cpu s)"
          by (metis prod.collapse read_body_sound(5))
        then have "length (patch 0 out old) = hb_chunk_bytes (nt_cpu s)" using lo by simp
        from hb.store_cases [OF hinv q this] i have "q = Inr ()" "hb_inv cpu"
          "\<forall>j. hb_load j cpu = (if j = loc_slot l then Inr (patch 0 out old) else hb_load j (nt_cpu s))" by auto
        then show ?thesis using inv1 c r s' rd load by (auto simp: nt_inv_def)
      qed
    qed
  qed
qed


lemma nt_rollback_ok:
  assumes "nt_inv s" and "nt_rep s source key = Some x" and "destination \<noteq> source"
  obtains d where "nt_rollback now key source destination e s = (Inl e, s\<lparr>nt_directory := d\<rparr>)"
    and "nt_inv (s\<lparr>nt_directory := d\<rparr>)" and "cd_pins d = nt_pins s"
    and "cd_rep d = upd (upd (nt_rep s) destination key None) source key (Some (x\<lparr>rp_state := READY\<rparr>))"
proof -
  have "cd_inv (nt_directory s)" using assms(1) by (simp add: nt_inv_def)
  from cd_rollback_ok [OF this assms(2,3)] obtain d where
    "cd_rollback now key source destination (nt_directory s) = (Inr (), d)" "cd_inv d" "cd_pins d = nt_pins s"
    "cd_rep d = upd (upd (nt_rep s) destination key None) source key (Some (x\<lparr>rp_state := READY\<rparr>))" by blast
  then show ?thesis
    using that [of d] nt_put_dir [OF assms(1)] by (simp add: nt_rollback_def nt_dir_def)
qed

lemma replica_eqI: "rp_location x = l \<Longrightarrow> rp_state x = st \<Longrightarrow> x = \<lparr>rp_location = l, rp_state = st\<rparr>"
  by (cases x) simp

lemma upd_idem: "upd (upd f s k x) s k (f s k) = f"
  by (auto simp: fun_eq_iff)

lemma nt_offload_enter:
  assumes "nt_offload env now key valid release_cpu s = (r, s')"
  obtains (refused) e where "r = Inl e" and "s' = s"
  | (go) src where "nt_rep s CPU key = Some \<lparr>rp_location = src, rp_state = READY\<rparr>" and "nt_rep s NVME key = None"
    and "and_then (nt_dir (cd_set_state key CPU COPYING) s) (\<lambda>_ s.
           and_then (catch_all (nt_write_chunk env now key valid src s) (nt_rollback now key CPU NVME)) (\<lambda>_ s.
           and_then (nt_dir (cd_set_state key NVME READY) s) (\<lambda>_ s.
           and_then (nt_dir (cd_set_state key CPU READY) s) (\<lambda>_ s.
             if release_cpu then nt_dir (cd_remove now key CPU) s else (Inr (), s))))) = (r, s')"
proof (cases "cd_at key (nt_directory s)")
  case (Inl e)
  then show ?thesis using assms refused [of e] by (auto simp: nt_offload_def)
next
  case (Inr rec)
  note f = cd_at_field [OF Inr]
  show ?thesis
  proof (cases "cr_cpu rec")
    case None
    then show ?thesis using assms Inr refused [of LogicError] by (auto simp: nt_offload_def)
  next
    case (Some cpu)
    show ?thesis
    proof (cases "rp_state cpu = READY \<and> cr_nvme rec = None")
      case False
      then show ?thesis using assms Inr Some refused [of LogicError] by (auto simp: nt_offload_def split: if_splits)
    next
      case True
      then have x: "cpu = \<lparr>rp_location = rp_location cpu, rp_state = READY\<rparr>" by (simp add: replica_eqI)
      show ?thesis
      proof (rule go)
        show "nt_rep s CPU key = Some \<lparr>rp_location = rp_location cpu, rp_state = READY\<rparr>" using f Some x by simp
        show "nt_rep s NVME key = None" using f True by simp
      qed (use assms in \<open>simp add: nt_offload_def Inr Some True\<close>)
    qed
  qed
qed

lemma nt_offload_spec:
  assumes inv: "nt_inv s" and c: "nt_offload env now key valid release_cpu s = (r, s')" and no: "cd_spare NVME (nt_directory s)"
  shows "nt_inv s' \<and> nt_pins s' = nt_pins s \<and> nt_cpu s' = nt_cpu s \<and>
    (case r of
       Inl e \<Rightarrow> nt_rep s' = nt_rep s \<and> (\<forall>i. cs_file i (nt_store s') = cs_file i (nt_store s))
     | Inr u \<Rightarrow> \<exists>src l payload.
         nt_rep s CPU key = Some \<lparr>rp_location = src, rp_state = READY\<rparr> \<and> nt_rep s NVME key = None \<and>
         nt_rep s' = upd (upd (nt_rep s) NVME key (Some \<lparr>rp_location = l, rp_state = READY\<rparr>)) CPU key
                       (if release_cpu then None else Some \<lparr>rp_location = src, rp_state = READY\<rparr>) \<and>
         hb_load (loc_slot src) (nt_cpu s) = Inr payload \<and>
         cs_write env (loc_slot l) (chunk_meta key valid s) payload (nt_store s) = (Inr (), nt_store s'))"
  using c
proof (cases rule: nt_offload_enter)
  case (refused e)
  then show ?thesis using inv by simp
next
  case (go src)
  let ?x = "\<lparr>rp_location = src, rp_state = READY\<rparr>"
  obtain d1 where d1: "nt_dir (cd_set_state key CPU COPYING) s = (Inr (), s\<lparr>nt_directory := d1\<rparr>)"
    "nt_inv (s\<lparr>nt_directory := d1\<rparr>)" "cd_pins d1 = nt_pins s"
    "cd_rep d1 = upd (nt_rep s) CPU key (Some (?x\<lparr>rp_state := COPYING\<rparr>))" "cd_spare NVME d1"
    using no by (auto intro: nt_set_state [OF inv go(1), of COPYING])
  define s1 where "s1 = s\<lparr>nt_directory := d1\<rparr>"
  have f1: "nt_cpu s1 = nt_cpu s" "nt_store s1 = nt_store s" "nt_inv s1" "nt_rep s1 = cd_rep d1" "nt_pins s1 = nt_pins s"
    using d1 by (simp_all add: s1_def)
  have no': "cd_spare NVME (nt_directory s1)" using d1(5) by (simp add: s1_def)
  have meta: "chunk_meta key valid s1 = chunk_meta key valid s" by (simp add: chunk_meta_def f1)
  obtain q s2 where w: "nt_write_chunk env now key valid src s1 = (q, s2)" by (metis surj_pair)
  note rest = go(3) [unfolded d1(1) and_then.simps s1_def [symmetric] w]
  show ?thesis
  proof (cases q)
    case (Inl e)
    from nt_write_chunk_cases [OF f1(3) w no'] Inl obtain y where
      s2: "nt_inv s2" "nt_pins s2 = nt_pins s1" "nt_cpu s2 = nt_cpu s1" "nt_rep s2 = upd (nt_rep s1) NVME key y"
      "\<forall>i. cs_file i (nt_store s2) = cs_file i (nt_store s1)" by auto
    have x2: "nt_rep s2 CPU key = Some (?x\<lparr>rp_state := COPYING\<rparr>)" by (simp add: s2(4) f1 d1(4))
    obtain d3 where d3: "nt_rollback now key CPU NVME e s2 = (Inl e, s2\<lparr>nt_directory := d3\<rparr>)"
      "nt_inv (s2\<lparr>nt_directory := d3\<rparr>)" "cd_pins d3 = nt_pins s2"
      "cd_rep d3 = upd (upd (nt_rep s2) NVME key None) CPU key (Some (?x\<lparr>rp_state := COPYING, rp_state := READY\<rparr>))"
      using nt_rollback_ok [OF s2(1) x2, of NVME now e] by auto
    have "cd_rep d3 = nt_rep s"
      using upd_rollback [of "nt_rep s" NVME key CPU, OF go(2) go(1), of "Some (?x\<lparr>rp_state := COPYING\<rparr>)" y] by (simp add: d3(4) s2(4) f1 d1(4))
    then show ?thesis using rest Inl d3 s2 f1 by auto
  next
    case (Inr u)
    from nt_write_chunk_cases [OF f1(3) w no'] Inr obtain l payload where
      s2: "nt_inv s2" "nt_pins s2 = nt_pins s1" "nt_cpu s2 = nt_cpu s1"
      "nt_rep s2 = upd (nt_rep s1) NVME key (Some \<lparr>rp_location = l, rp_state = COPYING\<rparr>)"
      "hb_load (loc_slot src) (nt_cpu s1) = Inr payload"
      "cs_write env (loc_slot l) (chunk_meta key valid s1) payload (nt_store s1) = (Inr (), nt_store s2)" by auto
    have n2: "nt_rep s2 NVME key = Some \<lparr>rp_location = l, rp_state = COPYING\<rparr>" by (simp add: s2(4))
    obtain d3 where d3: "nt_dir (cd_set_state key NVME READY) s2 = (Inr (), s2\<lparr>nt_directory := d3\<rparr>)"
      "nt_inv (s2\<lparr>nt_directory := d3\<rparr>)" "cd_pins d3 = nt_pins s2"
      "cd_rep d3 = upd (nt_rep s2) NVME key (Some \<lparr>rp_location = l, rp_state = READY\<rparr>)"
      by (rule nt_set_state [OF s2(1) n2, of READY]) simp
    let ?s3 = "s2\<lparr>nt_directory := d3\<rparr>"
    have c3: "nt_rep ?s3 CPU key = Some (?x\<lparr>rp_state := COPYING\<rparr>)" by (simp add: d3(4) s2(4) f1 d1(4))
    obtain d4 where d4: "nt_dir (cd_set_state key CPU READY) ?s3 = (Inr (), ?s3\<lparr>nt_directory := d4\<rparr>)"
      "nt_inv (?s3\<lparr>nt_directory := d4\<rparr>)" "cd_pins d4 = nt_pins ?s3"
      "cd_rep d4 = upd (cd_rep d3) CPU key (Some ?x)"
      by (rule nt_set_state [OF d3(2) c3, of READY]) simp
    let ?s4 = "?s3\<lparr>nt_directory := d4\<rparr>"
    have rep4: "cd_rep d4 = upd (upd (nt_rep s) NVME key (Some \<lparr>rp_location = l, rp_state = READY\<rparr>)) CPU key (Some ?x)"
      by (simp add: d4(4) d3(4) s2(4) f1 d1(4) fun_eq_iff)
    have c4: "nt_rep ?s4 CPU key = Some ?x" by (simp add: rep4)
    obtain d5 where d5: "nt_dir (cd_remove now key CPU) ?s4 = (Inr (), ?s4\<lparr>nt_directory := d5\<rparr>)"
      "nt_inv (?s4\<lparr>nt_directory := d5\<rparr>)" "cd_pins d5 = nt_pins ?s4" "cd_rep d5 = upd (nt_rep ?s4) CPU key None"
      using nt_remove [OF d4(2) c4] by auto
    have rr: "(if release_cpu then nt_dir (cd_remove now key CPU) ?s4 else (Inr (), ?s4)) = (r, s')"
      using rest Inr d3(1) d4(1) by (cases release_cpu) simp_all
    have w': "cs_write env (loc_slot l) (chunk_meta key valid s) payload (nt_store s) = (Inr (), nt_store s2)"
      using s2(6) by (simp add: meta f1)
    have p': "hb_load (loc_slot src) (nt_cpu s) = Inr payload" using s2(5) f1 by simp
    have f4: "nt_store ?s4 = nt_store s2" "nt_cpu ?s4 = nt_cpu s" "nt_pins ?s4 = nt_pins s"
      using s2(2,3) f1 d3(3) d4(3) by simp_all
    show ?thesis
    proof (cases release_cpu)
      case True
      then have r: "r = Inr ()" and s': "s' = ?s4\<lparr>nt_directory := d5\<rparr>" using rr d5(1) by auto
      have "nt_rep s' = upd (upd (nt_rep s) NVME key (Some \<lparr>rp_location = l, rp_state = READY\<rparr>)) CPU key None"
        by (simp add: s' d5(4) rep4)
      then show ?thesis using True r s' d5 f4 go p' w' by auto
    next
      case False
      then have r: "r = Inr ()" and s': "s' = ?s4" using rr by auto
      have "nt_rep s' = upd (upd (nt_rep s) NVME key (Some \<lparr>rp_location = l, rp_state = READY\<rparr>)) CPU key (Some ?x)"
        by (simp add: s' rep4)
      then show ?thesis using False r s' d4(2) f4 go p' w' by auto
    qed
  qed
qed


lemma nt_onload_enter:
  assumes "nt_onload env now key release_nvme s = (r, s')"
  obtains (refused) e where "r = Inl e" and "s' = s"
    and "\<And>src. nt_rep s NVME key = Some \<lparr>rp_location = src, rp_state = READY\<rparr> \<Longrightarrow> nt_rep s CPU key \<noteq> None"
  | (go) src where "nt_rep s NVME key = Some \<lparr>rp_location = src, rp_state = READY\<rparr>" and "nt_rep s CPU key = None"
    and "and_then (nt_dir (cd_set_state key NVME COPYING) s) (\<lambda>_ s.
           and_then (catch_all (nt_read_chunk env now key src s) (nt_rollback now key NVME CPU)) (\<lambda>_ s.
           and_then (nt_dir (cd_set_state key CPU READY) s) (\<lambda>_ s.
           and_then (nt_dir (cd_set_state key NVME READY) s) (\<lambda>_ s.
             if release_nvme then
               (case cs_erase env (loc_slot src) (nt_store s) of
                  (Inl e, st) \<Rightarrow> (Inl e, s\<lparr>nt_store := st\<rparr>)
                | (Inr u, st) \<Rightarrow> nt_dir (cd_remove now key NVME) (s\<lparr>nt_store := st\<rparr>))
             else (Inr (), s))))) = (r, s')"
proof (cases "cd_at key (nt_directory s)")
  case (Inl e)
  then show ?thesis using assms refused [of e] cd_at_rep [of "nt_directory s" NVME key] by (fastforce simp: nt_onload_def)
next
  case (Inr rec)
  note f = cd_at_field [OF Inr]
  show ?thesis
  proof (cases "cr_nvme rec")
    case None
    then show ?thesis using assms Inr f refused [of LogicError] by (simp add: nt_onload_def)
  next
    case (Some nvme)
    show ?thesis
    proof (cases "rp_state nvme = READY \<and> cr_cpu rec = None")
      case False
      then have "nt_rep s NVME key = Some \<lparr>rp_location = src, rp_state = READY\<rparr> \<Longrightarrow> nt_rep s CPU key \<noteq> None" for src
        using f Some by auto
      then show ?thesis
        using False assms Inr Some refused [of LogicError] by (auto simp: nt_onload_def split: if_splits)
    next
      case True
      then have x: "nvme = \<lparr>rp_location = rp_location nvme, rp_state = READY\<rparr>" by (simp add: replica_eqI)
      show ?thesis
      proof (rule go)
        show "nt_rep s NVME key = Some \<lparr>rp_location = rp_location nvme, rp_state = READY\<rparr>" using f Some x by simp
        show "nt_rep s CPU key = None" using f True by simp
      qed (use assms in \<open>simp add: nt_onload_def Inr Some True\<close>)
    qed
  qed
qed

text \<open>The state after the chunk of a file has been copied to a CPU slot.\<close>

definition nt_loaded :: "io \<Rightarrow> cache_key \<Rightarrow> tier_location \<Rightarrow> tier_location \<Rightarrow> nvme_transfer \<Rightarrow> nvme_transfer \<Rightarrow> bool" where
  "nt_loaded env key src l s s' \<longleftrightarrow>
     (\<exists>old out m. cs_read env (loc_slot src) (chunk_meta key 0 s) (hb_chunk_bytes (nt_cpu s)) (nt_store s) = Inr (Some (out, m)) \<and>
        hb_load (loc_slot l) (nt_cpu s) = Inr old \<and>
        (\<forall>j. hb_load j (nt_cpu s') = (if j = loc_slot l then Inr (patch 0 out old) else hb_load j (nt_cpu s))))"

lemma nt_onload_spec:
  assumes inv: "nt_inv s" and c: "nt_onload env now key release_nvme s = (r, s')" and no: "cd_spare CPU (nt_directory s)"
  shows "nt_inv s' \<and> nt_pins s' = nt_pins s \<and>
    ((\<exists>e. r = Inl e) \<and> nt_rep s' = nt_rep s \<and> nt_cpu s' = nt_cpu s \<and> nt_store s' = nt_store s \<and>
       (\<forall>src. nt_rep s NVME key = Some \<lparr>rp_location = src, rp_state = READY\<rparr> \<longrightarrow> nt_rep s CPU key = None \<longrightarrow>
          (\<exists>e. fst (nt_read_chunk env now key src (snd (nt_dir (cd_set_state key NVME COPYING) s))) = Inl e)) \<or>
     (\<exists>src l. nt_rep s NVME key = Some \<lparr>rp_location = src, rp_state = READY\<rparr> \<and> nt_rep s CPU key = None \<and>
        nt_rep s' = upd (upd (nt_rep s) CPU key (Some \<lparr>rp_location = l, rp_state = READY\<rparr>)) NVME key
                      (if release_nvme \<and> r = Inr () then None else Some \<lparr>rp_location = src, rp_state = READY\<rparr>) \<and>
        nt_loaded env key src l s s' \<and>
        (if release_nvme then cs_erase env (loc_slot src) (nt_store s) = (r, nt_store s')
         else r = Inr () \<and> nt_store s' = nt_store s)))"
  using c
proof (cases rule: nt_onload_enter)
  case (refused e)
  then show ?thesis using inv by (intro conjI disjI1) auto
next
  case (go src)
  let ?x = "\<lparr>rp_location = src, rp_state = READY\<rparr>"
  obtain d1 where d1: "nt_dir (cd_set_state key NVME COPYING) s = (Inr (), s\<lparr>nt_directory := d1\<rparr>)"
    "nt_inv (s\<lparr>nt_directory := d1\<rparr>)" "cd_pins d1 = nt_pins s"
    "cd_rep d1 = upd (nt_rep s) NVME key (Some (?x\<lparr>rp_state := COPYING\<rparr>))" "cd_spare CPU d1"
    using no by (auto intro: nt_set_state [OF inv go(1), of COPYING])
  define s1 where "s1 = s\<lparr>nt_directory := d1\<rparr>"
  have f1: "nt_cpu s1 = nt_cpu s" "nt_store s1 = nt_store s" "nt_inv s1" "nt_rep s1 = cd_rep d1" "nt_pins s1 = nt_pins s"
    using d1 by (simp_all add: s1_def)
  have no': "cd_spare CPU (nt_directory s1)" using d1(5) by (simp add: s1_def)
  have meta: "chunk_meta key 0 s1 = chunk_meta key 0 s" by (simp add: chunk_meta_def f1)
  obtain q s2 where w: "nt_read_chunk env now key src s1 = (q, s2)" by (metis surj_pair)
  note rest = go(3) [unfolded d1(1) and_then.simps s1_def [symmetric] w]
  show ?thesis
  proof (cases q)
    case (Inl e)
    from nt_read_chunk_cases [OF f1(3) w no'] Inl obtain y where
      s2: "nt_inv s2" "nt_pins s2 = nt_pins s1" "nt_cpu s2 = nt_cpu s1" "nt_store s2 = nt_store s1"
      "nt_rep s2 = upd (nt_rep s1) CPU key y" by auto
    have x2: "nt_rep s2 NVME key = Some (?x\<lparr>rp_state := COPYING\<rparr>)" by (simp add: s2(5) f1 d1(4))
    obtain d3 where d3: "nt_rollback now key NVME CPU e s2 = (Inl e, s2\<lparr>nt_directory := d3\<rparr>)"
      "nt_inv (s2\<lparr>nt_directory := d3\<rparr>)" "cd_pins d3 = nt_pins s2"
      "cd_rep d3 = upd (upd (nt_rep s2) CPU key None) NVME key (Some (?x\<lparr>rp_state := COPYING, rp_state := READY\<rparr>))"
      using nt_rollback_ok [OF s2(1) x2, of CPU now e] by auto
    have "cd_rep d3 = nt_rep s"
      using upd_rollback [of "nt_rep s" CPU key NVME, OF go(2) go(1), of "Some (?x\<lparr>rp_state := COPYING\<rparr>)" y]
      by (simp add: d3(4) s2(5) f1 d1(4))
    then show ?thesis using rest Inl d3 s2 f1 w go(1) by (auto simp: d1(1) s1_def [symmetric])
  next
    case (Inr u)
    from nt_read_chunk_cases [OF f1(3) w no'] Inr obtain l old out m where
      s2: "nt_inv s2" "nt_pins s2 = nt_pins s1" "nt_store s2 = nt_store s1"
      "nt_rep s2 = upd (nt_rep s1) CPU key (Some \<lparr>rp_location = l, rp_state = LOADING\<rparr>)"
      "cs_read env (loc_slot src) (chunk_meta key 0 s1) (hb_chunk_bytes (nt_cpu s1)) (nt_store s1) = Inr (Some (out, m))"
      "hb_load (loc_slot l) (nt_cpu s1) = Inr old"
      "\<forall>j. hb_load j (nt_cpu s2) = (if j = loc_slot l then Inr (patch 0 out old) else hb_load j (nt_cpu s1))" by auto
    have n2: "nt_rep s2 CPU key = Some \<lparr>rp_location = l, rp_state = LOADING\<rparr>" by (simp add: s2(4))
    obtain d3 where d3: "nt_dir (cd_set_state key CPU READY) s2 = (Inr (), s2\<lparr>nt_directory := d3\<rparr>)"
      "nt_inv (s2\<lparr>nt_directory := d3\<rparr>)" "cd_pins d3 = nt_pins s2"
      "cd_rep d3 = upd (nt_rep s2) CPU key (Some \<lparr>rp_location = l, rp_state = READY\<rparr>)"
      by (rule nt_set_state [OF s2(1) n2, of READY]) simp
    let ?s3 = "s2\<lparr>nt_directory := d3\<rparr>"
    have c3: "nt_rep ?s3 NVME key = Some (?x\<lparr>rp_state := COPYING\<rparr>)" by (simp add: d3(4) s2(4) f1 d1(4))
    obtain d4 where d4: "nt_dir (cd_set_state key NVME READY) ?s3 = (Inr (), ?s3\<lparr>nt_directory := d4\<rparr>)"
      "nt_inv (?s3\<lparr>nt_directory := d4\<rparr>)" "cd_pins d4 = nt_pins ?s3"
      "cd_rep d4 = upd (cd_rep d3) NVME key (Some ?x)"
      by (rule nt_set_state [OF d3(2) c3, of READY]) simp
    define s4 where "s4 = s2\<lparr>nt_directory := d4\<rparr>"
    let ?done = "upd (upd (nt_rep s) CPU key (Some \<lparr>rp_location = l, rp_state = READY\<rparr>)) NVME key"
    have rep4: "nt_rep s4 = ?done (Some ?x)"
      by (simp add: s4_def d4(4) d3(4) s2(4) f1 d1(4) fun_eq_iff)
    have f4: "nt_store s4 = nt_store s" "nt_cpu s4 = nt_cpu s2" "nt_pins s4 = nt_pins s" "nt_inv s4"
      using s2(2,3) f1 d3(3) d4(2,3) by (simp_all add: s4_def)
    have loaded: "nt_loaded env key src l s s''" if "nt_cpu s'' = nt_cpu s2" for s''
      using s2(5-7) that by (auto simp: nt_loaded_def meta f1)
    have rr: "(if release_nvme then
               (case cs_erase env (loc_slot src) (nt_store s4) of
                  (Inl e, st) \<Rightarrow> (Inl e, s4\<lparr>nt_store := st\<rparr>)
                | (Inr u, st) \<Rightarrow> nt_dir (cd_remove now key NVME) (s4\<lparr>nt_store := st\<rparr>))
             else (Inr (), s4)) = (r, s')"
      using rest Inr d3(1) d4(1) unfolding s4_def by (cases release_nvme) simp_all
    show ?thesis
    proof (cases release_nvme)
      case False
      then have r: "r = Inr ()" and s': "s' = s4" using rr by auto
      then show ?thesis using False f4 rep4 loaded [of s4] go by auto
    next
      case True
      obtain z st where er: "cs_erase env (loc_slot src) (nt_store s4) = (z, st)" by (metis surj_pair)
      show ?thesis
      proof (cases z)
        case (Inl e)
        then have r: "r = Inl e" and s': "s' = s4\<lparr>nt_store := st\<rparr>" using rr True er by auto
        have "nt_inv s'" using f4(4) by (simp add: s' nt_inv_def)
        then show ?thesis using r s' True f4 rep4 loaded [of s'] go er Inl by auto
      next
        case z: (Inr u)
        let ?s5 = "s4\<lparr>nt_store := st\<rparr>"
        have "nt_inv ?s5" "nt_rep ?s5 NVME key = Some ?x" using f4(4) rep4 by (simp_all add: nt_inv_def)
        from nt_remove [OF this, of now] obtain d6 where d6:
          "nt_dir (cd_remove now key NVME) ?s5 = (Inr (), ?s5\<lparr>nt_directory := d6\<rparr>)"
          "nt_inv (?s5\<lparr>nt_directory := d6\<rparr>)" "cd_rep d6 = upd (nt_rep ?s5) NVME key None" "cd_pins d6 = nt_pins ?s5"
          by auto
        then have r: "r = Inr ()" and s': "s' = ?s5\<lparr>nt_directory := d6\<rparr>" using rr True er z by auto
        have "nt_rep s' = ?done None" by (simp add: s' d6(3) rep4)
        then show ?thesis using r s' True f4 loaded [of s'] go er z d6 by auto
      qed
    qed
  qed
qed


text \<open>A place on one level does not depend on the state of the replica on another.\<close>

lemma cd_place_other_state:
  assumes "cd_set_state key t st d = (Inr (), d')" and "t \<noteq> s"
  shows "fst (cd_place now key s st' d') = fst (cd_place now key s st' d)"
proof -
  obtain r x where r: "map_of (cd_records d) key = Some r" and x: "replica_slot r t = Inr (Some x)"
    and d': "d' = cd_put key (replica_put t (Some (x\<lparr>rp_state := st\<rparr>)) r) d"
    using assms(1) by (auto simp: cd_set_state_def cd_lookup_def split: option.splits sum.splits)
  have lv: "t \<in> {GPU, CPU, NVME}" using x by (cases t) auto
  have at: "cd_at key d' = Inr (replica_put t (Some (x\<lparr>rp_state := st\<rparr>)) r)" "cd_at key d = Inr r"
    using r by (simp_all add: d' cd_at_iff cd_put_def update_conv')
  have slot: "replica_slot (replica_put t (Some (x\<lparr>rp_state := st\<rparr>)) r) s = replica_slot r s"
    using lv assms(2) by (cases s; cases t) auto
  have "tier_for s d' = tier_for s d" by (cases s) (simp_all add: d')
  then have call: "fst (tier_call s tier_allocate d') = fst (tier_call s tier_allocate d)"
    by (auto simp: tier_call_def split: sum.splits prod.splits)
  have fst_then: "fst (and_then m (\<lambda>l d1. (Inr l, h l d1))) = fst m" for m :: "tier_location res \<times> cache_directory" and h
    by (cases m; cases "fst m") auto
  show ?thesis
    using slot call by (auto simp: cd_place_def at fst_then split: sum.splits option.splits)
qed

lemma nt_read_chunk_ok:
  assumes inv: "nt_inv s" and p: "fst (cd_place now key CPU LOADING (nt_directory s)) = Inr l"
    and l: "loc_slot l < hb_slots (nt_cpu s)"
    and rd: "cs_read env (loc_slot src) (chunk_meta key 0 s) (hb_chunk_bytes (nt_cpu s)) (nt_store s) = Inr (Some (out, m))"
    and n: "length out \<le> hb_chunk_bytes (nt_cpu s)"
  shows "\<exists>cpu d. nt_read_chunk env now key src s = (Inr (), s\<lparr>nt_cpu := cpu, nt_directory := d\<rparr>) \<and>
    cd_rep d CPU key = Some \<lparr>rp_location = l, rp_state = LOADING\<rparr>"
proof -
  have hinv: "hb_inv (nt_cpu s)" and dinv: "cd_inv (nt_directory s)" using inv by (simp_all add: nt_inv_def)
  obtain d where d: "cd_place now key CPU LOADING (nt_directory s) = (Inr l, d)" using p by (metis prod.collapse)
  have rep: "cd_rep d CPU key = Some \<lparr>rp_location = l, rp_state = LOADING\<rparr>" using cd_place_view [OF dinv d] by auto
  obtain old where old: "hb_load (loc_slot l) (nt_cpu s) = Inr old" "length old = hb_chunk_bytes (nt_cpu s)"
    using hb.load_ok [OF hinv l] by blast
  have "length (patch 0 out old) = hb_chunk_bytes (nt_cpu s)" using n old(2) by simp
  then obtain cpu where "hb_store (loc_slot l) (patch 0 out old) (nt_cpu s) = (Inr (), cpu)"
    using hb.store_ok [OF hinv l] by blast
  then have "nt_read_chunk env now key src s = (Inr (), s\<lparr>nt_cpu := cpu, nt_directory := d\<rparr>)"
    using d old(1) rd by (simp add: nt_read_chunk_def nt_dir_def chunk_meta_def)
  then show ?thesis using rep by blast
qed

lemma nt_onload_runs:
  assumes inv: "nt_inv s" and c: "nt_onload env now key release_nvme s = (r, s')" and no: "cd_spare CPU (nt_directory s)"
    and rep: "nt_rep s NVME key = Some \<lparr>rp_location = src, rp_state = READY\<rparr>" "nt_rep s CPU key = None"
    and p: "fst (cd_place now key CPU LOADING (nt_directory s)) = Inr l" and l: "loc_slot l < hb_slots (nt_cpu s)"
    and rd: "cs_read env (loc_slot src) (chunk_meta key 0 s) (hb_chunk_bytes (nt_cpu s)) (nt_store s) = Inr (Some (out, m))"
    and n: "length out \<le> hb_chunk_bytes (nt_cpu s)"
  shows "\<exists>l. nt_rep s' CPU key = Some \<lparr>rp_location = l, rp_state = READY\<rparr> \<and> nt_loaded env key src l s s' \<and>
    (r = Inr () \<or> release_nvme \<and> (\<exists>st. cs_erase env (loc_slot src) (nt_store s) = (r, st)))"
proof -
  obtain d1 where d1: "nt_dir (cd_set_state key NVME COPYING) s = (Inr (), s\<lparr>nt_directory := d1\<rparr>)"
    "nt_inv (s\<lparr>nt_directory := d1\<rparr>)"
    using nt_set_state [OF inv rep(1), of COPYING] by metis
  then have "cd_set_state key NVME COPYING (nt_directory s) = (Inr (), d1)"
    by (auto simp: nt_dir_iff dest: arg_cong [of _ _ nt_directory])
  then have p1: "fst (cd_place now key CPU LOADING d1) = Inr l"
    using cd_place_other_state [of key NVME COPYING "nt_directory s" d1 CPU now LOADING] p by simp
  have "\<exists>t. nt_read_chunk env now key src (s\<lparr>nt_directory := d1\<rparr>) = (Inr (), t)"
    using nt_read_chunk_ok [OF d1(2), of now key l env src out m] p1 l rd n by (fastforce simp: chunk_meta_def)
  then have "\<not> (\<exists>e. fst (nt_read_chunk env now key src (snd (nt_dir (cd_set_state key NVME COPYING) s))) = Inl e)"
    by (auto simp: d1(1))
  then show ?thesis using nt_onload_spec [OF inv c no] rep by (auto split: if_splits)
qed


section \<open>Properties\<close>

definition demo_cpu_ready :: cache_directory where
  "demo_cpu_ready =
     snd (cd_set_state demo_key CPU READY (snd (cd_place 2 demo_key CPU LOADING (snd (cd_create 5 demo_key demo_directory)))))"

definition demo_mover :: nvme_transfer where
  "demo_mover = \<lparr>nt_directory = demo_cpu_ready, nt_store = demo_store,
     nt_cpu = HeapPool \<lparr>hp_slots = 2, hp_chunk_bytes = 2, hp_bytes = [10, 20, 30, 40]\<rparr>\<rparr>"

lemma demo_mover_inv: "nt_inv demo_mover"
proof -
  obtain x d1 where c: "cd_create 5 demo_key demo_directory = (x, d1)" by (metis surj_pair)
  have i1: "cd_inv d1" using cd_create_inv [OF demo_directory_inv c] by simp
  obtain y d2 where p: "cd_place 2 demo_key CPU LOADING d1 = (y, d2)" by (metis surj_pair)
  have "\<not> isl (fst (cd_place 2 demo_key CPU LOADING (snd (cd_create 5 demo_key demo_directory))))"
    by code_simp
  then have i2: "cd_inv d2" using cd_place_view [OF i1 p] by (auto simp add: c p)
  obtain z d3 where s: "cd_set_state demo_key CPU READY d2 = (z, d3)" by (metis surj_pair)
  have "cd_inv d3" using cd_set_state_inv [OF i2 s] by simp
  then show ?thesis by (simp add: demo_mover_def demo_cpu_ready_def nt_inv_def c p s)
qed

abbreviation demo_chunk_at :: "nat \<Rightarrow> replica" where
  "demo_chunk_at i \<equiv> \<lparr>rp_location = \<lparr>loc_slot = i, loc_generation = 1\<rparr>, rp_state = READY\<rparr>"

lemma demo_mover_state:
  "nt_rep demo_mover CPU demo_key = Some (demo_chunk_at 0)"
  "cd_spare NVME (nt_directory demo_mover)"
  "fst (nt_offload good_io 3 demo_key 1 True demo_mover) = Inr ()"
  "cd_spare CPU (nt_directory (snd (nt_offload good_io 3 demo_key 1 True demo_mover)))"
  "fst (cd_place 4 demo_key CPU LOADING (nt_directory (snd (nt_offload good_io 3 demo_key 1 True demo_mover)))) =
     Inr \<lparr>loc_slot = 0, loc_generation = 2\<rparr>"
  by code_simp+

text \<open>C23: Moving a chunk to a file is atomic, whichever check or system call fails. When
  \<open>offload\<close> throws, every replica, every pin count and every published file is as before. When
  it returns, the chunk had a READY CPU replica and no NVMe replica, it now has a READY NVMe
  replica whose file holds exactly the bytes of the CPU slot under the metadata of the key, the
  CPU replica is READY or, on request, gone, and nothing else has changed.\<close>

theorem nt_offload_atomic:
  assumes "nt_inv s" and "nt_offload env now key valid release_cpu s = (r, s')" and "cd_spare NVME (nt_directory s)"
  shows "nt_inv s' \<and> nt_pins s' = nt_pins s \<and> nt_cpu s' = nt_cpu s \<and>
    (case r of
       Inl e \<Rightarrow> nt_rep s' = nt_rep s \<and> (\<forall>i. cs_file i (nt_store s') = cs_file i (nt_store s))
     | Inr u \<Rightarrow> \<exists>src l payload.
         nt_rep s CPU key = Some \<lparr>rp_location = src, rp_state = READY\<rparr> \<and> nt_rep s NVME key = None \<and>
         nt_rep s' = upd (upd (nt_rep s) NVME key (Some \<lparr>rp_location = l, rp_state = READY\<rparr>)) CPU key
                       (if release_cpu then None else Some \<lparr>rp_location = src, rp_state = READY\<rparr>) \<and>
         hb_load (loc_slot src) (nt_cpu s) = Inr payload \<and>
         (\<forall>i. cs_file i (nt_store s') =
            (if i = loc_slot l then Some (file_content (chunk_meta key valid s) payload) else cs_file i (nt_store s))))"
proof -
  note spec = nt_offload_spec [OF assms]
  show ?thesis
  proof (cases r)
    case (Inl e)
    then show ?thesis using spec by simp
  next
    case (Inr u)
    with spec obtain src l payload where
      "nt_rep s CPU key = Some \<lparr>rp_location = src, rp_state = READY\<rparr>" "nt_rep s NVME key = None"
      "nt_rep s' = upd (upd (nt_rep s) NVME key (Some \<lparr>rp_location = l, rp_state = READY\<rparr>)) CPU key
                     (if release_cpu then None else Some \<lparr>rp_location = src, rp_state = READY\<rparr>)"
      "hb_load (loc_slot src) (nt_cpu s) = Inr payload"
      and w: "cs_write env (loc_slot l) (chunk_meta key valid s) payload (nt_store s) = (Inr (), nt_store s')"
      by (auto simp del: fun_upd_apply)
    moreover have "\<forall>i. cs_file i (nt_store s') =
        (if i = loc_slot l then Some (file_content (chunk_meta key valid s) payload) else cs_file i (nt_store s))"
      using cs_write_publishes(1) [OF w] by simp
    ultimately show ?thesis using spec Inr by (simp only: sum.case) blast
  qed
qed

lemma nt_offload_atomic_witness:
  "let s' = snd (nt_offload good_io 3 demo_key 1 True demo_mover) in
     nt_inv s' \<and> nt_rep s' CPU demo_key = None \<and> (\<exists>l. nt_rep s' NVME demo_key = Some \<lparr>rp_location = l, rp_state = READY\<rparr>)"
proof -
  obtain r s' where c: "nt_offload good_io 3 demo_key 1 True demo_mover = (r, s')" by (metis surj_pair)
  have "r = Inr ()" using demo_mover_state(3) by (simp add: c)
  then show ?thesis using nt_offload_atomic [OF demo_mover_inv c demo_mover_state(2)] by (auto simp: c)
qed

text \<open>C24: A chunk survives the way to a file and back. After a successful \<open>offload\<close> that gave
  the CPU slot back, \<open>onload\<close> restores in whatever free slot the directory picks exactly the
  bytes the chunk had, touches no other slot and makes the chunk READY on the CPU; it can only
  fail when the file cannot be deleted afterwards, and then the chunk is in both places.\<close>

theorem nt_round_trip:
  assumes "nt_inv s" and "nt_offload env now key valid True s = (Inr (), s1)" and "cd_spare NVME (nt_directory s)"
    and "nt_onload env' now' key release_nvme s1 = (r, s2)" and "cd_spare CPU (nt_directory s1)"
    and "fst (cd_place now' key CPU LOADING (nt_directory s1)) = Inr l" and "loc_slot l < hb_slots (nt_cpu s)"
    and "io_open env'" and "Fails \<notin> set (io_answers env')"
    and "meta_ok (chunk_meta key valid s)" and "hb_chunk_bytes (nt_cpu s) < 2 ^ 64"
    and "nt_rep s CPU key = Some \<lparr>rp_location = src, rp_state = READY\<rparr>"
  shows "\<exists>dst. nt_rep s2 CPU key = Some \<lparr>rp_location = dst, rp_state = READY\<rparr> \<and>
    hb_load (loc_slot dst) (nt_cpu s2) = hb_load (loc_slot src) (nt_cpu s) \<and>
    (\<forall>j. j \<noteq> loc_slot dst \<longrightarrow> hb_load j (nt_cpu s2) = hb_load j (nt_cpu s)) \<and>
    (r = Inr () \<or> release_nvme \<and> \<not> io_unlink env')"
proof -
  have hinv: "hb_inv (nt_cpu s)" using assms(1) by (simp add: nt_inv_def)
  from nt_offload_spec [OF assms(1-3)] obtain d payload where
    s1: "nt_inv s1" "nt_cpu s1 = nt_cpu s" "nt_rep s1 CPU key = None"
      "nt_rep s1 NVME key = Some \<lparr>rp_location = d, rp_state = READY\<rparr>"
    and p: "hb_load (loc_slot src) (nt_cpu s) = Inr payload"
    and w: "cs_write env (loc_slot d) (chunk_meta key valid s) payload (nt_store s) = (Inr (), nt_store s1)"
    using assms(12) by auto
  have meta: "same_identity (chunk_meta key valid s) (chunk_meta key 0 s1)"
    "unat (fm_payload_size (chunk_meta key valid s)) = hb_chunk_bytes (nt_cpu s)"
    using assms(11) by (simp_all add: chunk_meta_def make_file_meta_def same_identity_def unat_of_nat s1)
  have len: "length payload = hb_chunk_bytes (nt_cpu s)"
    using hb.load_err [OF hinv, of "loc_slot src"] hb.load_ok [OF hinv, of "loc_slot src"] p by fastforce
  have rd: "cs_read env' (loc_slot d) (chunk_meta key 0 s1) (hb_chunk_bytes (nt_cpu s1)) (nt_store s1) =
      Inr (Some (payload, chunk_meta key valid s))"
    using cs_read_written [OF w assms(10) meta(1), of "hb_chunk_bytes (nt_cpu s1)" env'] assms(8,9) meta(2) len s1(2) by simp
  from nt_onload_runs [OF s1(1) assms(4,5) s1(4,3) assms(6) _ rd] assms(7) len s1(2) obtain dst where
    dst: "nt_rep s2 CPU key = Some \<lparr>rp_location = dst, rp_state = READY\<rparr>" "nt_loaded env' key d dst s1 s2"
      "r = Inr () \<or> release_nvme \<and> (\<exists>st. cs_erase env' (loc_slot d) (nt_store s1) = (r, st))" by auto
  from dst(2) rd obtain old where old: "hb_load (loc_slot dst) (nt_cpu s) = Inr old"
    "\<forall>j. hb_load j (nt_cpu s2) = (if j = loc_slot dst then Inr (patch 0 payload old) else hb_load j (nt_cpu s))"
    by (auto simp: nt_loaded_def s1(2))
  have "length old = hb_chunk_bytes (nt_cpu s)"
    using hb.load_err [OF hinv, of "loc_slot dst"] hb.load_ok [OF hinv, of "loc_slot dst"] old(1) by fastforce
  then have new: "hb_load (loc_slot dst) (nt_cpu s2) = hb_load (loc_slot src) (nt_cpu s)"
    using old(2) p len patch_whole [of payload old] by simp
  have "r = Inr () \<or> release_nvme \<and> \<not> io_unlink env'"
    using dst(3) cs_write_publishes(1) [OF w, of "loc_slot d"] by (auto simp: cs_erase_def)
  then show ?thesis using dst(1) new old(2) by auto
qed

lemma nt_round_trip_witness:
  "\<exists>dst :: tier_location. hb_load (loc_slot dst)
      (nt_cpu (snd (nt_onload good_io 4 demo_key True (snd (nt_offload good_io 3 demo_key 1 True demo_mover))))) = Inr [10, 20]"
proof -
  obtain s1 where c: "nt_offload good_io 3 demo_key 1 True demo_mover = (Inr (), s1)"
    using demo_mover_state(3) by (metis prod.collapse)
  obtain r s2 where o: "nt_onload good_io 4 demo_key True s1 = (r, s2)" by (metis surj_pair)
  have f: "hb_slots (nt_cpu demo_mover) = 2" "hb_chunk_bytes (nt_cpu demo_mover) = 2"
    "hb_load 0 (nt_cpu demo_mover) = Inr [10, 20]"
    by (simp_all add: demo_mover_def hp_data_def peek_def)
  have "meta_ok (chunk_meta demo_key 1 demo_mover)"
    by (simp add: meta_ok_def chunk_meta_def make_file_meta_def demo_key_def)
  note nt_round_trip [OF demo_mover_inv c demo_mover_state(2) o _ _ _ _ _ this _ demo_mover_state(1)]
  moreover note demo_mover_state(4,5) [unfolded c snd_conv]
  moreover have "io_open good_io" "Fails \<notin> set (io_answers good_io)" by (simp_all add: good_io_def)
  ultimately show ?thesis using f by (auto simp: c o)
qed

end
