(* ===== verification/Prefix_Cache.thy ===== *)
theory Prefix_Cache
  imports Sequence_State
begin

text \<open>
  \<open>src/v2/prefix_cache.cpp\<close>: the class \<open>PrefixCache\<close>, whose only member is a reference to the
  pool; the pool itself is the second component of the state of a sequence. The search for the
  longest cached prefix with its two levels of rollback, and the publication of a page.
\<close>

section \<open>Attaching a cached prefix\<close>

lemma ss_pop_back_length:
  "ss_on_table bt_pop_back st = (Inr u, st') \<Longrightarrow>
     length (bt_blocks (ss_table (fst st'))) < length (bt_blocks (ss_table (fst st)))"
  by (cases st) (auto simp: ss_on_table_def bt_pop_back_def split: if_splits sum.splits prod.splits)

text \<open>The pages that were attached before a failure, given back from the last one.\<close>

function attach_undo :: "nat \<Rightarrow> seq_state \<Rightarrow> unit res \<times> seq_state" where
  "attach_undo bsize st =
     (if ss_num_tokens (fst st) \<noteq> 0
      then and_then (ss_on_table bt_pop_back st) (\<lambda>_ st'.
             attach_undo bsize (apfst (\<lambda>q. q\<lparr>ss_num_tokens := size_wrap (ss_num_tokens q + (size_max + 1 - bsize))\<rparr>) st'))
      else (Inr (), st))"
  by pat_completeness auto

termination
  by (relation "measure (\<lambda>(bsize, st). length (bt_blocks (ss_table (fst st))))")
     (auto dest!: ss_pop_back_length)

declare attach_undo.simps [simp del]

text \<open>One hit: the table takes a reference of its own, and the one of \<open>lookup\<close> is given back.\<close>

definition attach_hit :: "(nat \<Rightarrow> bool) \<Rightarrow> block_handle \<Rightarrow> seq_state \<Rightarrow> unit res \<times> seq_state" where
  "attach_hit grow h st =
     (case ss_append_cached_full_block grow h st of
        (Inl e, (q, p)) \<Rightarrow>
          (case pp_free h p of
             (Inl e', p') \<Rightarrow> (Inl e', (q, p'))
           | (Inr u, p') \<Rightarrow> (Inl e, (q, p')))
      | (Inr u, (q, p)) \<Rightarrow> (case pp_free h p of (r, p') \<Rightarrow> (r, (q, p'))))"

text \<open>
  The loop over the offsets. A pool has a positive block size, so the offset always advances.
\<close>

function attach_loop :: "(nat \<Rightarrow> bool) \<Rightarrow> nat \<Rightarrow> tokens \<Rightarrow> nat \<Rightarrow> tokens \<Rightarrow> seq_state \<Rightarrow> unit res \<times> seq_state" where
  "attach_loop grow bsize ts offset prefix st =
     (if bsize = 0 \<or> length ts < offset then (Inl Undefined, st)
      else if length ts - offset < bsize then (Inr (), st)
      else
        let prefix' = prefix @ take bsize (drop offset ts)
        in case pp_lookup prefix' (snd st) of
             (Inl e, p') \<Rightarrow> (Inl e, (fst st, p'))
           | (Inr None, p') \<Rightarrow> (Inr (), (fst st, p'))
           | (Inr (Some h), p') \<Rightarrow>
               and_then (attach_hit grow h (fst st, p')) (\<lambda>_ st.
                 attach_loop grow bsize ts (offset + bsize) prefix' st))"
  by pat_completeness auto
termination
  by (relation "measure (\<lambda>(grow, bsize, ts, offset, prefix, st). length ts - offset)") auto

declare attach_loop.simps [simp del]

definition attach_cached_prefix :: "(nat \<Rightarrow> bool) \<Rightarrow> pool_ref \<Rightarrow> tokens \<Rightarrow> seq_state \<Rightarrow> nat res \<times> seq_state" where
  "attach_cached_prefix grow pool ts st =
     (if \<not> bt_uses_pool pool (ss_table (fst st)) then (Inl InvalidArgument, st)
      else if ss_num_tokens (fst st) \<noteq> 0 then (Inl InvalidArgument, st)
      else
        let bsize = pp_block_size (snd st)
        in case attach_loop grow bsize ts 0 [] st of
             (Inl e, st1) \<Rightarrow> and_then (attach_undo bsize st1) (\<lambda>_ st2. (Inl e, st2))
           | (Inr u, st1) \<Rightarrow> (Inr (ss_num_tokens (fst st1)), st1))"

section \<open>Publishing a computed page\<close>

definition publish_computed_block :: "pool_ref \<Rightarrow> nat \<Rightarrow> tokens \<Rightarrow> seq_state \<Rightarrow> unit res \<times> seq_state" where
  "publish_computed_block pool logical_block prefix st =
     (case st of (q, p) \<Rightarrow>
        if \<not> bt_uses_pool pool (ss_table q) then (Inl InvalidArgument, st)
        else
          let bsize = pp_block_size p in
          if logical_block \<ge> ss_num_allocated_blocks q \<or> length prefix mod bsize \<noteq> 0 \<or>
             length prefix div bsize \<noteq> size_wrap (logical_block + 1) \<or> length prefix > ss_num_tokens q
          then (Inl InvalidArgument, st)
          else
            (case ss_block_handle logical_block st of
               Inl e \<Rightarrow> (Inl e, st)
             | Inr h \<Rightarrow> (case pp_publish h prefix p of (r, p') \<Rightarrow> (r, (q, p')))))"

section \<open>The cache behind the tables\<close>

lemma pp_lookup_spec:
  assumes inv: "pp_inv p"
  shows "pp_lookup ts p = (Inr None, p') \<Longrightarrow> p' = p \<and> (full_prefix (pp_manager p) ts \<longrightarrow> pp_cache p ts = None)"
    and "pp_lookup ts p = (Inr (Some h), p') \<Longrightarrow>
      pp_cache p ts = Some h \<and> pp_inv p' \<and> pp_refs p' = (pp_refs p)(h := pp_refs p h + 1) \<and>
      pp_cache p' = pp_cache p \<and> pp_config p' = pp_config p"
    and "pp_lookup ts p = (Inl e, p') \<Longrightarrow> p' = p"
  using bm_lookup_spec [OF inv] by (auto simp: pp_lookup_def pp_call_iff pp_eq_iff)

lemma pp_cache_inj: "pp_inv p \<Longrightarrow> pp_cache p ts = Some h \<Longrightarrow> pp_cache p us = Some h \<Longrightarrow> ts = us"
  by (simp add: bm_cache_iff)

lemma bt_append_existing_cache:
  assumes inv: "bt_inv others (t, p)" and r: "bt_append_existing grow h (t, p) = (r, (t', p'))"
  shows "pp_cache p' = pp_cache p"
proof (cases "bt_pool t = None")
  case True
  then show ?thesis using r by (simp add: bt_append_existing_def)
next
  case pool: False
  note p = bt_invD(1) [OF inv]
  obtain ar p1 where a: "pp_retain h p = (ar, p1)" by (cases "pp_retain h p")
  show ?thesis
  proof (cases ar)
    case (Inl e)
    then show ?thesis using pp.retain_err [OF p] a r pool by (auto simp: bt_append_existing_def)
  next
    case (Inr u)
    have a: "pp_retain h p = (Inr (), p1)" using a Inr by simp
    note al = pp.retain_ok [OF p a]
    have c: "pp_cache p1 = pp_cache p" using a bm_retain_cache [OF p] by (simp add: pp_retain_def pp_call_iff)
    obtain p2 where f: "pp_free h p1 = (Inr (), p2)" using pp.free_total [of p1 h] al by auto
    have "pp_cache p2 = pp_cache p" using pp_free_cache [OF _ f] al c by simp
    then show ?thesis using r a pool f c
      by (auto simp: bt_append_existing_def bt_push_back_def split: if_splits)
  qed
qed

text \<open>A reference that someone else gives back.\<close>

lemma ss_inv_free_other:
  assumes inv: "ss_inv (others(h := others h + 1)) (q, p)"
  obtains p' where "pp_free h p = (Inr (), p')" and "ss_inv others (q, p')"
    and "pp_config p' = pp_config p" and "pp_cache p' = pp_cache p"
proof -
  note b = ss_invD(1) [OF inv]
  note p = bt_invD(1) [OF b]
  have "0 < pp_refs p h" using bt_invD(3) [OF b, of h] by simp
  then obtain p' where f: "pp_free h p = (Inr (), p')" using pp.free_total [OF p] by blast
  note fr = pp.free_ok [OF p f]
  have "bt_inv others (ss_table q, p')" using b fr by (auto simp: bt_inv.simps)
  then have "ss_inv others (q, p')"
    using inv fr pp_config_block_size [of p' p] by (simp add: ss_inv.simps)
  then show thesis using that f fr pp_free_cache [OF p f] by blast
qed

section \<open>One hit\<close>

text \<open>The sequence with other pages.\<close>

definition ss_with :: "nat \<Rightarrow> block_handle list \<Rightarrow> sequence_state \<Rightarrow> sequence_state" where
  "ss_with n bl q = q\<lparr>ss_num_tokens := n, ss_table := (ss_table q)\<lparr>bt_blocks := bl\<rparr>\<rparr>"

lemma ss_with_simps [simp]:
  "ss_num_tokens (ss_with n bl q) = n" "bt_blocks (ss_table (ss_with n bl q)) = bl"
  "bt_pool (ss_table (ss_with n bl q)) = bt_pool (ss_table q)" "ss_block_size (ss_with n bl q) = ss_block_size q"
  "ss_with n' bl' (ss_with n bl q) = ss_with n' bl' q"
  by (simp_all add: ss_with_def)

lemma ss_with_self: "ss_num_tokens q = n \<Longrightarrow> bt_blocks (ss_table q) = bl \<Longrightarrow> ss_with n bl q = q"
  by (auto simp: ss_with_def)

lemma ss_append_cached_spec:
  assumes inv: "ss_inv others (q, p)" and new: "h \<notin> set (bt_blocks (ss_table q))"
    and r: "ss_append_cached_full_block grow h (q, p) = (r, (q', p'))"
  shows "ss_inv others (q', p') \<and> pp_config p' = pp_config p \<and> pp_cache p' = pp_cache p \<and>
    (case r of
       Inl e \<Rightarrow> q' = q
     | Inr u \<Rightarrow> ss_num_tokens q mod ss_block_size q = 0 \<and>
         q' = ss_with (ss_num_tokens q + ss_block_size q) (bt_blocks (ss_table q) @ [h]) q)"
proof (cases "ss_num_tokens q mod ss_block_size q \<noteq> 0 \<or> ss_block_size q > size_max - ss_num_tokens q")
  case True
  then show ?thesis using r inv by (auto simp: ss_append_cached_full_block_def)
next
  case False
  note d = ss_invD [OF inv]
  obtain ar t1 p1 where a: "bt_append_existing grow h (ss_table q, p) = (ar, (t1, p1))" by (metis prod_cases3)
  note c = bt_append_existing_cache [OF d(1) a]
  show ?thesis
  proof (cases ar)
    case (Inl e)
    note er = bt_append_existing_err [OF d(1) a [unfolded Inl]]
    show ?thesis
      using r a Inl False er(1-3) c inv pp_config_block_size [of p1 p]
      by (auto simp: ss_append_cached_full_block_def ss_on_table_def ss_inv.simps)
  next
    case (Inr u)
    note ok = bt_append_existing_ok [OF d(1) a [unfolded Inr]]
    have t: "t1 = (ss_table q)\<lparr>bt_blocks := bt_blocks (ss_table q) @ [h]\<rparr>" using ok(3,4) by simp
    have q': "q' = ss_with (ss_num_tokens q + ss_block_size q) (bt_blocks (ss_table q) @ [h]) q"
      and res: "r = Inr ()" "p' = p1"
      using r a Inr False by (auto simp: ss_append_cached_full_block_def ss_on_table_def ss_with_def t)
    have m: "ss_num_tokens q mod ss_block_size q = 0" using False by simp
    have "ceil_blocks (ss_num_tokens q + ss_block_size q) (ss_block_size q) = ceil_blocks (ss_num_tokens q) (ss_block_size q) + 1"
      using d(2) m div_add_self2 [of "ss_block_size q" "ss_num_tokens q"] by (simp add: ceil_blocks_def)
    then have "ss_inv others (q', p1)"
      unfolding q' using ok(1) d False new pp_config_block_size [OF ok(2)] by (auto simp: ss_inv.simps ss_with_def t)
    then show ?thesis using ok(2) c res q' m by simp
  qed
qed

lemma attach_hit_spec:
  assumes inv: "ss_inv (others(h := others h + 1)) (q, p)" and new: "h \<notin> set (bt_blocks (ss_table q))"
    and r: "attach_hit grow h (q, p) = (r, (q', p'))"
  shows "ss_inv others (q', p') \<and> pp_config p' = pp_config p \<and> pp_cache p' = pp_cache p \<and>
    (case r of
       Inl e \<Rightarrow> q' = q
     | Inr u \<Rightarrow> q' = ss_with (ss_num_tokens q + ss_block_size q) (bt_blocks (ss_table q) @ [h]) q)"
proof -
  obtain ar q1 p1 where a: "ss_append_cached_full_block grow h (q, p) = (ar, (q1, p1))" by (metis prod_cases3)
  note s = ss_append_cached_spec [OF inv new a]
  obtain p2 where f: "pp_free h p1 = (Inr (), p2)" "ss_inv others (q1, p2)" "pp_config p2 = pp_config p1"
    "pp_cache p2 = pp_cache p1" by (rule ss_inv_free_other [OF conjunct1 [OF s]])
  show ?thesis using r a s f by (cases ar) (auto simp: attach_hit_def)
qed

section \<open>The loop\<close>

text \<open>The pages \<open>bl\<close> are those that the cache holds for the first whole blocks of \<open>ts\<close>.\<close>

definition cached_pages :: "nat \<Rightarrow> tokens \<Rightarrow> physical_block_pool \<Rightarrow> block_handle list \<Rightarrow> bool" where
  "cached_pages bsize ts p bl \<longleftrightarrow>
     length bl * bsize \<le> length ts \<and>
     (\<forall>i < length bl. pp_cache p (take ((i + 1) * bsize) ts) = Some (bl ! i))"

lemma cached_pages_snoc:
  "cached_pages bsize ts p bl \<Longrightarrow> (length bl + 1) * bsize \<le> length ts \<Longrightarrow>
   pp_cache p (take ((length bl + 1) * bsize) ts) = Some h \<Longrightarrow> cached_pages bsize ts p (bl @ [h])"
  by (auto simp: cached_pages_def nth_append less_Suc_eq)

lemma cached_pages_new:
  assumes "cached_pages bsize ts p bl" and "pp_inv p" and "0 < bsize" and "(length bl + 1) * bsize \<le> length ts"
    and "pp_cache p (take ((length bl + 1) * bsize) ts) = Some h"
  shows "h \<notin> set bl"
proof
  assume "h \<in> set bl"
  then obtain i where i: "i < length bl" "bl ! i = h" by (auto simp: in_set_conv_nth)
  then have "pp_cache p (take ((i + 1) * bsize) ts) = Some h" using assms(1) by (simp add: cached_pages_def)
  from pp_cache_inj [OF assms(2) this assms(5)]
  have "length (take ((i + 1) * bsize) ts) = length (take ((length bl + 1) * bsize) ts)" by simp
  moreover have "i * bsize < length bl * bsize" using i(1) assms(3) by simp
  ultimately show False using assms(4) unfolding length_take add_mult_distrib nat_mult_1 by linarith
qed

definition attach_stops :: "nat \<Rightarrow> tokens \<Rightarrow> physical_block_pool \<Rightarrow> nat \<Rightarrow> bool" where
  "attach_stops bsize ts p k \<longleftrightarrow>
     ((k + 1) * bsize \<le> length ts \<longrightarrow> pp_cache p (take ((k + 1) * bsize) ts) = None)"

lemma attach_loop_spec:
  assumes "ss_inv others (ss_with (length bl * bsize) bl q, p)" and "bt_pool (ss_table q) \<noteq> None"
    and "bsize = ss_block_size q" and "cached_pages bsize ts p bl"
    and "attach_loop grow bsize ts (length bl * bsize) (take (length bl * bsize) ts)
           (ss_with (length bl * bsize) bl q, p) = (r, (q', p'))"
  shows "\<exists>bl'. q' = ss_with (length bl' * bsize) bl' q \<and> ss_inv others (q', p') \<and>
    pp_config p' = pp_config p \<and> pp_cache p' = pp_cache p \<and> cached_pages bsize ts p bl' \<and>
    (r = Inr () \<longrightarrow> attach_stops bsize ts p (length bl'))"
  using assms
proof (induction "length ts - length bl * bsize" arbitrary: bl p rule: less_induct)
  case less
  let ?n = "length bl * bsize"
  let ?q = "ss_with ?n bl q" and ?pre = "take ?n ts @ take bsize (drop ?n ts)"
  note d = ss_invD [OF less.prems(1)]
  have bs: "0 < bsize" "bsize = pp_block_size p" using d(2,6) less.prems(2,3) by simp_all
  have le: "?n \<le> length ts" using less.prems(4) by (simp add: cached_pages_def)
  have p: "pp_inv p" using bt_invD(1) [OF d(1)] .
  note step = less.prems(5) [unfolded attach_loop.simps [of _ _ _ ?n]]
  show ?case
  proof (cases "length ts - ?n < bsize")
    case True
    then have "q' = ?q \<and> p' = p \<and> r = Inr ()" using step bs(1) le by simp
    then show ?thesis using less.prems True by (auto simp: attach_stops_def intro!: exI [of _ bl])
  next
    case False
    then have fit: "(length bl + 1) * bsize \<le> length ts" using le unfolding add_mult_distrib nat_mult_1 by linarith
    have pre: "?pre = take ((length bl + 1) * bsize) ts" by (simp add: take_add [symmetric] add.commute)
    have full: "full_prefix (pp_manager p) ?pre"
      using bs fit unfolding pre full_prefix_def pp_block_size_def
      by (auto simp: min_absorb2)
    obtain lr p1 where l: "pp_lookup ?pre p = (lr, p1)" by (cases "pp_lookup ?pre p")
    note look = pp_lookup_spec [OF p, of ?pre]
    show ?thesis
    proof (cases lr)
      case (Inl e)
      then have "p1 = p" "q' = ?q" "p' = p1" "r \<noteq> Inr ()" using look(3) l step False bs(1) le by (auto simp: Let_def)
      then show ?thesis using less.prems by (auto intro!: exI [of _ bl])
    next
      case (Inr o')
      show ?thesis
      proof (cases o')
        case None
        then have "p1 = p" "q' = ?q" "p' = p1" "pp_cache p ?pre = None"
          using look(1) [of p1] l Inr step False bs(1) le full by (auto simp: Let_def)
        then have "q' = ?q" "p' = p" "attach_stops bsize ts p (length bl)" by (metis attach_stops_def pre)+
        then show ?thesis using less.prems(1,4) by (auto intro!: exI [of _ bl])
      next
        case (Some h)
        note hit = look(2) [of h p1, OF l [unfolded Inr Some]]
        have new: "h \<notin> set bl" by (rule cached_pages_new [OF less.prems(4) p bs(1) fit]) (use hit pre in simp)
        have binv: "bt_inv (others(h := others h + 1)) (ss_table ?q, p1)"
          using d(1) hit by (auto simp: bt_inv.simps)
        then have inv1: "ss_inv (others(h := others h + 1)) (?q, p1)"
          using less.prems(1) hit pp_config_block_size [of p1 p] by (simp add: ss_inv.simps)
        obtain ar q2 p2 where a: "attach_hit grow h (?q, p1) = (ar, (q2, p2))" by (metis prod_cases3)
        note s = attach_hit_spec [OF inv1 _ a, unfolded ss_with_simps, OF new, folded less.prems(3)]
        have s: "ss_inv others (q2, p2)" "pp_config p2 = pp_config p1" "pp_cache p2 = pp_cache p1"
          "case ar of Inl e \<Rightarrow> q2 = ?q | Inr u \<Rightarrow> q2 = ss_with (?n + bsize) (bl @ [h]) q"
          using s by - (elim conjE, assumption)+
        have same: "cached_pages bsize ts p2 = cached_pages bsize ts p" "attach_stops bsize ts p2 = attach_stops bsize ts p"
          "pp_config p2 = pp_config p" "pp_cache p2 = pp_cache p"
          using s(2,3) hit by (simp_all add: cached_pages_def attach_stops_def fun_eq_iff)
        show ?thesis
        proof (cases ar)
          case (Inl e)
          then have "q' = ?q" "p' = p2" "r \<noteq> Inr ()" using l \<open>lr = Inr o'\<close> Some a s(4) step False bs(1) le by (auto simp: Let_def)
          then show ?thesis using s(1,4) Inl same less.prems(4) by (auto intro!: exI [of _ bl])
        next
          case (Inr u)
          have q2: "q2 = ss_with (length (bl @ [h]) * bsize) (bl @ [h]) q" using s(4) Inr by (simp add: add.commute)
          have cp: "cached_pages bsize ts p2 (bl @ [h])"
            unfolding same(1) by (rule cached_pages_snoc [OF less.prems(4) fit]) (use hit pre in simp)
          have pre': "?pre = take (length (bl @ [h]) * bsize) ts" using pre by simp
          have rec: "attach_loop grow bsize ts (length (bl @ [h]) * bsize) (take (length (bl @ [h]) * bsize) ts)
              (ss_with (length (bl @ [h]) * bsize) (bl @ [h]) q, p2) = (r, (q', p'))"
            using l \<open>lr = Inr o'\<close> Some a Inr step False bs(1) le unfolding pre' [symmetric] q2
            by (simp add: Let_def add.commute)
          have dec: "length ts - length (bl @ [h]) * bsize < length ts - ?n" using bs(1) fit by simp
          show ?thesis
            using less.hyps [OF dec _ less.prems(2,3) cp rec] s(1) unfolding q2 same by simp
        qed
      qed
    qed
  qed
qed

section \<open>Undoing\<close>

lemma size_wrap_minus: "b \<le> n \<Longrightarrow> n \<le> size_max \<Longrightarrow> size_wrap (n + (size_max + 1 - b)) = n - b"
  by (auto simp: size_wrap_def size_max_def mod_if)

lemma attach_undo_spec:
  assumes "ss_inv others (ss_with (length bl * bsize) bl q, p)" and "bt_pool (ss_table q) \<noteq> None"
    and "bsize = ss_block_size q"
  shows "\<exists>p'. attach_undo bsize (ss_with (length bl * bsize) bl q, p) = (Inr (), (ss_with 0 [] q, p')) \<and>
    ss_inv others (ss_with 0 [] q, p') \<and> pp_config p' = pp_config p \<and> pp_cache p' = pp_cache p"
  using assms
proof (induction bl arbitrary: p rule: rev_induct)
  case Nil
  then show ?case by (simp add: attach_undo.simps)
next
  case (snoc h bl)
  let ?n = "length (bl @ [h]) * bsize"
  let ?q = "ss_with ?n (bl @ [h]) q"
  note d = ss_invD [OF snoc.prems(1)]
  have bs: "0 < bsize" using d(2) snoc.prems(3) by simp
  obtain p1 where pop: "bt_pop_back (ss_table ?q, p) = (Inr (), ((ss_table ?q)\<lparr>bt_blocks := butlast (bt_blocks (ss_table ?q))\<rparr>, p1))"
    "bt_inv others ((ss_table ?q)\<lparr>bt_blocks := butlast (bt_blocks (ss_table ?q))\<rparr>, p1)" "pp_config p1 = pp_config p"
    by (rule bt_pop_back_total [OF d(1)]) simp_all
  have wrap: "size_wrap (?n + (size_max + 1 - bsize)) = length bl * bsize"
    using size_wrap_minus [of bsize ?n] d(4) by simp
  have step: "attach_undo bsize (?q, p) = attach_undo bsize (ss_with (length bl * bsize) bl q, p1)"
  proof -
    have "ss_on_table bt_pop_back (?q, p) = (Inr (), (ss_with ?n bl q, p1))"
      using pop(1) by (simp add: ss_on_table_def ss_with_def)
    moreover have "(ss_with ?n bl q)\<lparr>ss_num_tokens := m\<rparr> = ss_with m bl q" for m by (simp add: ss_with_def)
    ultimately show ?thesis using bs wrap by (subst attach_undo.simps) simp
  qed
  have "ceil_blocks (length bl * bsize) bsize = length bl" using bs by (simp add: ceil_blocks_def)
  moreover have "length bl * bsize \<le> size_max" using d(4) by simp
  ultimately have inv: "ss_inv others (ss_with (length bl * bsize) bl q, p1)"
    using pop(2) d snoc.prems(3) pp_config_block_size [OF pop(3)] by (auto simp: ss_inv.simps ss_with_def)
  show ?case
    unfolding step using snoc.IH [OF inv snoc.prems(2,3)] pop(3) bt_pop_back_cache [OF d(1) pop(1)] by simp
qed

section \<open>Publishing\<close>

lemma pp_publish_cases:
  assumes "pp_inv p" and "pp_publish h prefix p = (r, p')"
  shows "pp_inv p'" "pp_refs p' = pp_refs p" "pp_config p' = pp_config p"
    and "r = Inr () \<and> pp_refs p h = 1 \<and> \<not> pp_pub p h \<and> pp_cache p prefix = None \<and> pp_cache p' = (pp_cache p)(prefix \<mapsto> h) \<or>
      r = Inl InvalidArgument \<and> p' = p"
  using bm_publish_cases [OF assms(1), of h prefix r "pp_manager p'"] assms(2)
  by (auto simp: pp_publish_def pp_call_iff pp_eq_iff bm_config_def bm_capacity_def)

lemma ceil_blocks_le: "0 < b \<Longrightarrow> ceil_blocks n b \<le> n"
proof (rule ccontr)
  assume b: "0 < b" and "\<not> ceil_blocks n b \<le> n"
  then have "(n + 1) * b \<le> ceil_blocks n b * b" by (intro mult_le_mono1) simp
  moreover have "n \<le> n * b" using b by simp
  ultimately show False using ceil_blocks_bounds(2) [OF b, of n] by simp
qed

text \<open>
  A page is published under the tokens up to its end, and only when the sequence holds those
  tokens and the page is its own.
\<close>

lemma publish_computed_block_spec:
  assumes inv: "ss_inv others (q, p)" and r: "publish_computed_block pool i prefix (q, p) = (r, (q', p'))"
  shows "q' = q \<and> ss_inv others (q', p') \<and> pp_config p' = pp_config p \<and>
    (case r of
       Inl e \<Rightarrow> e = InvalidArgument \<and> p' = p
     | Inr u \<Rightarrow> i < ss_num_allocated_blocks q \<and> length prefix = (i + 1) * ss_block_size q \<and>
         length prefix \<le> ss_num_tokens q \<and> pp_refs p (bt_blocks (ss_table q) ! i) = 1 \<and>
         pp_cache p prefix = None \<and> pp_cache p' = (pp_cache p)(prefix \<mapsto> bt_blocks (ss_table q) ! i))"
proof -
  note d = ss_invD [OF inv]
  let ?h = "bt_blocks (ss_table q) ! i" and ?b = "pp_block_size p"
  let ?bad = "i \<ge> ss_num_allocated_blocks q \<or> length prefix mod ?b \<noteq> 0 \<or>
             length prefix div ?b \<noteq> size_wrap (i + 1) \<or> length prefix > ss_num_tokens q"
  show ?thesis
  proof (cases "bt_uses_pool pool (ss_table q) \<and> \<not> ?bad")
    case False
    then have "publish_computed_block pool i prefix (q, p) = (Inl InvalidArgument, (q, p))"
      unfolding publish_computed_block_def Let_def prod.case by presburger
    then show ?thesis using r inv by simp
  next
    case True
    then have pool: "bt_pool (ss_table q) \<noteq> None" and ok: "\<not> ?bad" by (auto simp: bt_uses_pool_def)
    have eq: "publish_computed_block pool i prefix (q, p) =
        (case ss_block_handle i (q, p) of Inl e \<Rightarrow> (Inl e, (q, p))
         | Inr h \<Rightarrow> (case pp_publish h prefix p of (r, p') \<Rightarrow> (r, (q, p'))))"
      using True unfolding publish_computed_block_def Let_def prod.case by presburger
    have b: "?b = ss_block_size q" using d(6) [OF pool] by simp
    have i: "i < length (bt_blocks (ss_table q))" using ok by (simp add: ss_num_allocated_blocks_def)
    have "length (bt_blocks (ss_table q)) \<le> ss_num_tokens q"
      using ceil_blocks_le [OF d(2)] d(3) by simp
    then have wrap: "size_wrap (i + 1) = i + 1" using i d(4) by (intro size_wrap_id) linarith
    obtain ar p1 where a: "pp_publish ?h prefix p = (ar, p1)" by (cases "pp_publish ?h prefix p")
    have r': "r = ar" "q' = q" "p' = p1"
      using r a bt_queries(2) [OF d(1), of i] i unfolding eq by (auto simp: ss_block_handle_def)
    note c = pp_publish_cases [OF bt_invD(1) [OF d(1)] a]
    have len: "length prefix = (i + 1) * ss_block_size q"
      using ok wrap b mod_mult_div_eq [of "length prefix" ?b] by (simp add: mult.commute)
    have "ss_inv others (q, p1)"
      using inv c(1-3) pp_config_block_size [OF c(3)] by (auto simp: ss_inv.simps bt_inv.simps)
    then show ?thesis using c ok len r' by auto
  qed
qed

section \<open>Properties\<close>

text \<open>C30: \<open>attach_cached_prefix\<close> gives an empty sequence exactly the pages that the cache holds for
  the longest run of whole blocks of the tokens: page by page the one published under the
  tokens up to its end, and none is published for the next block. The sequence holds one
  reference to each of them and no temporary reference survives. When it throws, in whatever
  step, sequence and reference counts are as before; the cache is never changed.\<close>

theorem attach_longest_prefix:
  assumes "ss_inv others (q, p)" and "attach_cached_prefix grow pool ts (q, p) = (r, (q', p'))"
  shows "ss_inv others (q', p') \<and> pp_cache p' = pp_cache p \<and>
    (case r of
       Inl e \<Rightarrow> q' = q \<and> pp_refs p' = pp_refs p
     | Inr n \<Rightarrow> \<exists>k. n = k * ss_block_size q \<and> n \<le> length ts \<and> ss_num_tokens q' = n \<and>
         ss_num_allocated_blocks q' = k \<and>
         (\<forall>i < k. pp_cache p (take ((i + 1) * ss_block_size q) ts) = Some (bt_blocks (ss_table q') ! i)) \<and>
         ((k + 1) * ss_block_size q \<le> length ts \<longrightarrow> pp_cache p (take ((k + 1) * ss_block_size q) ts) = None))"
proof (cases "bt_uses_pool pool (ss_table q) \<and> ss_num_tokens q = 0")
  case False
  then have "attach_cached_prefix grow pool ts (q, p) = (Inl InvalidArgument, (q, p))"
    unfolding attach_cached_prefix_def fst_conv by presburger
  then show ?thesis using assms by simp
next
  case True
  note d = ss_invD [OF assms(1)]
  have pool: "bt_pool (ss_table q) \<noteq> None" using True by (auto simp: bt_uses_pool_def)
  have bs: "pp_block_size p = ss_block_size q" using d(6) [OF pool] by simp
  have q: "ss_with 0 [] q = q" by (rule ss_with_self) (use True d(3) in simp_all)
  obtain ar q1 p1 where l: "attach_loop grow (ss_block_size q) ts 0 [] (q, p) = (ar, (q1, p1))" by (metis prod_cases3)
  have "\<exists>bl. q1 = ss_with (length bl * ss_block_size q) bl q \<and> ss_inv others (q1, p1) \<and>
      pp_config p1 = pp_config p \<and> pp_cache p1 = pp_cache p \<and> cached_pages (ss_block_size q) ts p bl \<and>
      (ar = Inr () \<longrightarrow> attach_stops (ss_block_size q) ts p (length bl))"
    by (rule attach_loop_spec [where bl = "[]"]) (use assms(1) pool l q in \<open>simp_all add: cached_pages_def\<close>)
  then obtain bl where bl: "q1 = ss_with (length bl * ss_block_size q) bl q" "ss_inv others (q1, p1)"
    "pp_cache p1 = pp_cache p" "cached_pages (ss_block_size q) ts p bl"
    "ar = Inr () \<Longrightarrow> attach_stops (ss_block_size q) ts p (length bl)" by blast
  show ?thesis
  proof (cases ar)
    case (Inl e)
    obtain p2 where u: "attach_undo (ss_block_size q) (q1, p1) = (Inr (), (q, p2))" "ss_inv others (q, p2)"
      "pp_cache p2 = pp_cache p1"
      using attach_undo_spec [OF bl(2) [unfolded bl(1)] pool refl] unfolding q bl(1) [symmetric] by blast
    then have "r = Inl e" "q' = q" "p' = p2" using assms(2) True bs l Inl by (auto simp: attach_cached_prefix_def Let_def)
    then show ?thesis using u bl(3) ss_inv_refs [OF assms(1) u(2)] by simp
  next
    case (Inr u)
    then have "r = Inr (length bl * ss_block_size q)" "q' = q1" "p' = p1"
      using assms(2) True bs l bl(1) by (auto simp: attach_cached_prefix_def Let_def)
    then show ?thesis
      using bl Inr by (auto simp: cached_pages_def attach_stops_def ss_num_allocated_blocks_def intro!: exI [of _ "length bl"])
  qed
qed

text \<open>For the witness: the first page of \<open>demo_q\<close> is published under its two tokens.\<close>

definition demo_cached :: physical_block_pool where
  "demo_cached = snd (snd (publish_computed_block 0 0 [5, 6] (demo_q, demo_p)))"

lemma demo_cached_inv: "pp_inv demo_cached"
proof -
  obtain r q p where r: "publish_computed_block 0 0 [5, 6] (demo_q, demo_p) = (r, (q, p))" by (metis prod_cases3)
  have "ss_inv (\<lambda>h. 0) (q, p)"
    using publish_computed_block_spec [OF demo_inv r, THEN conjunct2, THEN conjunct1] .
  then show ?thesis using bt_invD(1) [OF ss_invD(1)] by (simp add: demo_cached_def r)
qed

lemma attach_longest_prefix_witness:
  "let st = attach_cached_prefix (\<lambda>n. False) 0 [5, 6, 7, 8] (ss_create 2 0 demo_cached, demo_cached)
   in fst st = Inr 2 \<and> pp_cache demo_cached [5, 6] = Some (bt_blocks (ss_table (fst (snd st))) ! 0) \<and>
      pp_cache demo_cached [5, 6, 7, 8] = None"
proof -
  let ?st = "attach_cached_prefix (\<lambda>n. False) 0 [5, 6, 7, 8] (ss_create 2 0 demo_cached, demo_cached)"
  have n: "fst ?st = Inr 2" "ss_block_size (ss_create 2 0 demo_cached) = 2" by code_simp+
  obtain r q p where st: "?st = (r, (q, p))" by (metis prod_cases3)
  have r: "r = Inr 2" using n(1) unfolding st by simp
  have "\<exists>k. 2 = k * 2 \<and> (\<forall>i < k. pp_cache demo_cached (take ((i + 1) * 2) [5, 6, 7, 8]) = Some (bt_blocks (ss_table q) ! i)) \<and>
      ((k + 1) * 2 \<le> length [5, 6, 7, 8 :: token] \<longrightarrow> pp_cache demo_cached (take ((k + 1) * 2) [5, 6, 7, 8]) = None)"
    using attach_longest_prefix [OF ss_create_inv [OF demo_cached_inv] st] unfolding r n(2) by auto
  then show ?thesis using n(1) by (auto simp: Let_def st)
qed

end
