(* ===== verification/Paged_Kv_Layout.thy ===== *)
theory Paged_Kv_Layout
  imports Kv_Layout
begin

text \<open>
  \<open>include/kvflux/v2/paged_kv_layout.h\<close>, \<open>src/v2/paged_kv_layout.cpp\<close>: the addresses of the
  keys and values of one layer in paged memory. Sizes are natural numbers; the products the
  constructor checks are exact, and the arithmetic that is not checked is taken modulo the word
  size (\<open>size_wrap\<close>), which is then shown to have no effect.
\<close>

section \<open>Layout\<close>

definition checked_multiply :: "nat \<Rightarrow> nat \<Rightarrow> nat res" where
  "checked_multiply a b = (if b \<noteq> 0 \<and> a > size_max div b then Inl OverflowError else Inr (a * b))"

lemma checked_multiply_iff: "checked_multiply a b = Inr c \<longleftrightarrow> a * b \<le> size_max \<and> c = a * b"
  by (cases "b = 0") (auto simp: checked_multiply_def div_less_iff_less_mult)

lemma checked_multiply_Inl: "checked_multiply a b = Inl e \<longleftrightarrow> size_max < a * b \<and> e = OverflowError"
  using checked_multiply_iff [of a b "a * b"] by (cases "checked_multiply a b") (auto simp: checked_multiply_def split: if_splits)

fun bytes_for_dtype :: "dtype \<Rightarrow> nat res" where
  "bytes_for_dtype Float16 = Inr 2"
| "bytes_for_dtype BFloat16 = Inr 2"
| "bytes_for_dtype Float32 = Inr 4"
| "bytes_for_dtype (OtherDType i) = Inl InvalidArgument"

record paged_kv_layout =
  pl_num_blocks :: nat
  pl_num_kv_heads :: nat
  pl_block_size :: nat
  pl_head_size :: nat
  pl_dtype :: dtype
  pl_element_bytes :: nat
  pl_page_bytes :: nat
  pl_cache_bytes :: nat
  pl_total_bytes :: nat
  pl_slot_count :: nat

definition pl_create :: "nat \<Rightarrow> nat \<Rightarrow> nat \<Rightarrow> nat \<Rightarrow> dtype \<Rightarrow> paged_kv_layout res" where
  "pl_create num_blocks num_kv_heads bsize head_size dt =
     bind_res (bytes_for_dtype dt) (\<lambda>element_bytes.
       if num_blocks = 0 \<or> num_kv_heads = 0 \<or> bsize = 0 \<or> head_size = 0 then Inl InvalidArgument
       else
         bind_res (checked_multiply num_kv_heads bsize) (\<lambda>n.
         bind_res (checked_multiply n head_size) (\<lambda>n.
         bind_res (checked_multiply n element_bytes) (\<lambda>page_bytes.
         bind_res (checked_multiply num_blocks page_bytes) (\<lambda>cache_bytes.
         bind_res (checked_multiply 2 cache_bytes) (\<lambda>total_bytes.
         bind_res (checked_multiply num_blocks bsize) (\<lambda>slot_count.
           Inr \<lparr>pl_num_blocks = num_blocks, pl_num_kv_heads = num_kv_heads, pl_block_size = bsize,
                pl_head_size = head_size, pl_dtype = dt, pl_element_bytes = element_bytes,
                pl_page_bytes = page_bytes, pl_cache_bytes = cache_bytes, pl_total_bytes = total_bytes,
                pl_slot_count = slot_count\<rparr>)))))))"

definition pl_page_byte_offset :: "kv_kind \<Rightarrow> nat \<Rightarrow> paged_kv_layout \<Rightarrow> nat res" where
  "pl_page_byte_offset kind block l =
     (if kind \<noteq> Key \<and> kind \<noteq> Value then Inl InvalidArgument
      else if block \<ge> pl_num_blocks l then Inl OutOfRange
      else Inr (size_wrap ((if kind = Value then pl_cache_bytes l else 0) + block * pl_page_bytes l)))"

definition pl_byte_offset :: "kv_kind \<Rightarrow> nat \<Rightarrow> nat \<Rightarrow> nat \<Rightarrow> nat \<Rightarrow> paged_kv_layout \<Rightarrow> nat res" where
  "pl_byte_offset kind block head token dimension l =
     bind_res (pl_page_byte_offset kind block l) (\<lambda>page.
       if head \<ge> pl_num_kv_heads l \<or> token \<ge> pl_block_size l \<or> dimension \<ge> pl_head_size l then Inl OutOfRange
       else
         let element = (head * pl_block_size l + token) * pl_head_size l + dimension
         in Inr (size_wrap (page + element * pl_element_bytes l)))"

definition pl_slot_byte_offset :: "kv_kind \<Rightarrow> nat \<Rightarrow> nat \<Rightarrow> nat \<Rightarrow> paged_kv_layout \<Rightarrow> nat res" where
  "pl_slot_byte_offset kind slot head dimension l =
     (if slot \<ge> pl_slot_count l then Inl OutOfRange
      else pl_byte_offset kind (slot div pl_block_size l) head (slot mod pl_block_size l) dimension l)"

section \<open>Offsets as row-major indices\<close>

text \<open>What the constructor establishes.\<close>

definition pl_inv :: "paged_kv_layout \<Rightarrow> bool" where
  "pl_inv l \<longleftrightarrow>
     0 < pl_num_blocks l \<and> 0 < pl_num_kv_heads l \<and> 0 < pl_block_size l \<and> 0 < pl_head_size l \<and>
     bytes_for_dtype (pl_dtype l) = Inr (pl_element_bytes l) \<and> 0 < pl_element_bytes l \<and>
     pl_page_bytes l = pl_num_kv_heads l * pl_block_size l * pl_head_size l * pl_element_bytes l \<and>
     pl_cache_bytes l = pl_num_blocks l * pl_page_bytes l \<and> pl_total_bytes l = 2 * pl_cache_bytes l \<and>
     pl_slot_count l = pl_num_blocks l * pl_block_size l \<and> pl_total_bytes l \<le> size_max"

lemma pl_invD:
  assumes "pl_inv l"
  shows "0 < pl_num_blocks l" "0 < pl_num_kv_heads l" "0 < pl_block_size l" "0 < pl_head_size l" "0 < pl_element_bytes l"
    and "bytes_for_dtype (pl_dtype l) = Inr (pl_element_bytes l)"
    and "pl_page_bytes l = pl_num_kv_heads l * pl_block_size l * pl_head_size l * pl_element_bytes l"
    and "pl_cache_bytes l = pl_num_blocks l * pl_page_bytes l" and "pl_total_bytes l = 2 * pl_cache_bytes l"
    and "pl_slot_count l = pl_num_blocks l * pl_block_size l" and "pl_total_bytes l \<le> size_max"
  using assms unfolding pl_inv_def by blast+

lemma bytes_for_dtype_pos: "bytes_for_dtype t = Inr n \<Longrightarrow> 0 < n"
  by (cases t) auto

lemma pl_create_inv:
  assumes "pl_create nb h b n t = Inr l"
  shows "pl_inv l \<and> pl_num_blocks l = nb \<and> pl_num_kv_heads l = h \<and> pl_block_size l = b \<and>
    pl_head_size l = n \<and> pl_dtype l = t"
  using assms bytes_for_dtype_pos
  by (auto simp: pl_create_def pl_inv_def bind_res_Inr_iff checked_multiply_iff split: if_splits)

text \<open>The index of an element, over all dimensions.\<close>

definition pl_coordinate :: "nat \<Rightarrow> nat \<Rightarrow> nat \<Rightarrow> nat \<Rightarrow> paged_kv_layout \<Rightarrow> (nat \<times> nat) list" where
  "pl_coordinate block head token dimension l =
     [(pl_num_blocks l, block), (pl_num_kv_heads l, head), (pl_block_size l, token), (pl_head_size l, dimension)]"

definition pl_index :: "kv_kind \<Rightarrow> nat \<Rightarrow> nat \<Rightarrow> nat \<Rightarrow> nat \<Rightarrow> paged_kv_layout \<Rightarrow> nat" where
  "pl_index kind block head token dimension l =
     horner (kind_index kind) (pl_coordinate block head token dimension l)"

definition pl_elements :: "paged_kv_layout \<Rightarrow> nat" where
  "pl_elements l = pl_num_blocks l * pl_num_kv_heads l * pl_block_size l * pl_head_size l"

lemma pl_total: "pl_inv l \<Longrightarrow> pl_total_bytes l = 2 * pl_elements l * pl_element_bytes l"
  by (simp add: pl_inv_def pl_elements_def mult.assoc)

definition pl_valid :: "kv_kind \<Rightarrow> nat \<Rightarrow> nat \<Rightarrow> nat \<Rightarrow> nat \<Rightarrow> paged_kv_layout \<Rightarrow> bool" where
  "pl_valid kind block head token dimension l \<longleftrightarrow>
     (kind = Key \<or> kind = Value) \<and> block < pl_num_blocks l \<and> head < pl_num_kv_heads l \<and>
     token < pl_block_size l \<and> dimension < pl_head_size l"

lemma pl_index_less:
  assumes "pl_valid kind block head token dimension l"
  shows "pl_index kind block head token dimension l < 2 * pl_elements l"
proof -
  have "kind_index kind < 2" by (simp add: kind_index_def)
  from horner_less [OF this, of "pl_coordinate block head token dimension l"] show ?thesis
    using assms by (simp add: pl_index_def pl_valid_def pl_coordinate_def pl_elements_def mult.assoc)
qed

lemma pl_index_inject:
  assumes "pl_valid kind block head token dimension l" and "pl_valid kind' block' head' token' dimension' l"
    and "pl_index kind block head token dimension l = pl_index kind' block' head' token' dimension' l"
  shows "kind = kind' \<and> block = block' \<and> head = head' \<and> token = token' \<and> dimension = dimension'"
proof -
  let ?r = "pl_coordinate block head token dimension l" and ?r' = "pl_coordinate block' head' token' dimension' l"
  have "map fst ?r = map fst ?r'" by (simp add: pl_coordinate_def)
  from horner_inject [OF this, of "kind_index kind" "kind_index kind'"] have
    "kind_index kind = kind_index kind'" "?r = ?r'"
    using assms by (auto simp: pl_valid_def pl_index_def pl_coordinate_def)
  then show ?thesis using assms(1,2) by (auto simp: pl_valid_def pl_coordinate_def kind_index_def split: if_splits)
qed

lemma pl_byte_offset_index:
  assumes inv: "pl_inv l"
  shows "pl_byte_offset kind block head token dimension l = Inr x \<longleftrightarrow>
    pl_valid kind block head token dimension l \<and>
    x = pl_index kind block head token dimension l * pl_element_bytes l"
proof (cases "pl_valid kind block head token dimension l")
  case False
  then show ?thesis
    by (auto simp: pl_byte_offset_def pl_page_byte_offset_def pl_valid_def bind_res_Inr_iff split: if_splits)
next
  case True
  let ?i = "pl_index kind block head token dimension l" and ?w = "pl_element_bytes l"
  let ?page = "(if kind = Value then pl_cache_bytes l else 0) + block * pl_page_bytes l"
  let ?element = "(head * pl_block_size l + token) * pl_head_size l + dimension"
  have eq: "?i * ?w = ?page + ?element * ?w"
    using inv True by (auto simp: pl_index_def pl_coordinate_def kind_index_def pl_inv_def pl_valid_def algebra_simps)
  have "?i * ?w \<le> 2 * pl_elements l * ?w" using pl_index_less [OF True] by (intro mult_le_mono1) simp
  also have "\<dots> = pl_total_bytes l" using pl_total [OF inv] by simp
  also have "\<dots> \<le> size_max" using inv unfolding pl_inv_def by blast
  finally have le: "?i * ?w \<le> size_max" .
  then have "size_wrap ?page = ?page" using eq by (intro size_wrap_id) simp
  then show ?thesis
    using True le eq
    by (auto simp: pl_byte_offset_def pl_page_byte_offset_def pl_valid_def bind_res_Inr_iff size_wrap_id Let_def)
qed

text \<open>A slot stands for the page and the position in it.\<close>

lemma pl_slot_split:
  assumes "pl_inv l" and "slot < pl_slot_count l"
  shows "slot div pl_block_size l < pl_num_blocks l" and "slot mod pl_block_size l < pl_block_size l"
  using assms by (auto simp: pl_inv_def less_mult_imp_div_less)

lemma pl_slot_byte_offset_index:
  assumes inv: "pl_inv l"
  shows "pl_slot_byte_offset kind slot head dimension l = Inr x \<longleftrightarrow>
    (kind = Key \<or> kind = Value) \<and> slot < pl_slot_count l \<and> head < pl_num_kv_heads l \<and> dimension < pl_head_size l \<and>
    x = pl_index kind (slot div pl_block_size l) head (slot mod pl_block_size l) dimension l * pl_element_bytes l"
  using pl_slot_split [OF inv, of slot] pl_byte_offset_index [OF inv]
  by (auto simp: pl_slot_byte_offset_def pl_valid_def)

section \<open>Properties\<close>

lemma multiples_image: "0 < w \<Longrightarrow> (\<lambda>i. i * w) ` {..<n} = {x. x < n * w \<and> w dvd x}" for w n :: nat
  by (auto simp: dvd_def mult.commute)

text \<open>C25: The elements of a layer tile its memory without gaps: \<open>slot_byte_offset\<close> accepts exactly
  the slots, heads and dimensions of the layout, and is a bijection from them onto the addresses
  below \<open>total_bytes\<close> that are multiples of the element size. So no two elements share a byte,
  every element lies inside the allocation, and no byte of the allocation is wasted.\<close>

theorem pl_slots_tile:
  assumes "pl_create nb h b n t = Inr l"
  shows "(\<forall>kind slot head d. (\<exists>x. pl_slot_byte_offset kind slot head d l = Inr x) \<longleftrightarrow>
      kind \<in> {Key, Value} \<and> slot < nb * b \<and> head < h \<and> d < n) \<and>
    bij_betw (\<lambda>(kind, slot, head, d). projr (pl_slot_byte_offset kind slot head d l))
      ({Key, Value} \<times> {..<nb * b} \<times> {..<h} \<times> {..<n})
      {x. x < pl_total_bytes l \<and> pl_element_bytes l dvd x}"
proof
  have inv: "pl_inv l" and f: "pl_num_blocks l = nb" "pl_num_kv_heads l = h" "pl_block_size l = b" "pl_head_size l = n"
    using pl_create_inv [OF assms] by simp_all
  have slots: "pl_slot_count l = nb * b" and w: "0 < pl_element_bytes l" using inv f by (simp_all add: pl_inv_def)
  show "\<forall>kind slot head d. (\<exists>x. pl_slot_byte_offset kind slot head d l = Inr x) \<longleftrightarrow>
      kind \<in> {Key, Value} \<and> slot < nb * b \<and> head < h \<and> d < n"
    by (simp add: pl_slot_byte_offset_index [OF inv] f slots)
  let ?S = "{Key, Value} \<times> {..<nb * b} \<times> {..<h} \<times> {..<n}"
  let ?i = "\<lambda>(kind, slot, head, d). pl_index kind (slot div b) head (slot mod b) d l"
  have valid: "pl_valid kind (slot div b) head (slot mod b) d l" if "(kind, slot, head, d) \<in> ?S" for kind slot head d
    using that pl_slot_split [OF inv, of slot] by (auto simp: pl_valid_def f slots)
  have inj: "inj_on ?i ?S"
  proof (rule inj_onI)
    fix x y assume x: "x \<in> ?S" and y: "y \<in> ?S" and eq: "?i x = ?i y"
    obtain kind slot head d where xs: "x = (kind, slot, head, d)" by (metis prod_cases4)
    obtain kind' slot' head' d' where ys: "y = (kind', slot', head', d')" by (metis prod_cases4)
    note v = valid [OF x [unfolded xs]] valid [OF y [unfolded ys]]
    have "kind = kind' \<and> slot div b = slot' div b \<and> head = head' \<and> slot mod b = slot' mod b \<and> d = d'"
      using pl_index_inject [OF v] eq unfolding xs ys prod.case by blast
    then show "x = y" using xs ys by (metis div_mult_mod_eq)
  qed
  have "?i ` ?S \<subseteq> {..<2 * pl_elements l}" using pl_index_less [OF valid] by auto
  moreover have "card (?i ` ?S) = card {..<2 * pl_elements l}"
    using card_image [OF inj] by (simp add: card_cartesian_product pl_elements_def f)
  ultimately have img: "?i ` ?S = {..<2 * pl_elements l}" by (intro card_subset_eq) simp_all
  have off: "(case x of (kind, slot, head, d) \<Rightarrow> projr (pl_slot_byte_offset kind slot head d l)) = ?i x * pl_element_bytes l"
    if x: "x \<in> ?S" for x
  proof -
    obtain kind slot head d where xs: "x = (kind, slot, head, d)" by (metis prod_cases4)
    then have "pl_slot_byte_offset kind slot head d l =
        Inr (pl_index kind (slot div b) head (slot mod b) d l * pl_element_bytes l)"
      using x by (simp add: pl_slot_byte_offset_index [OF inv] f slots)
    then show ?thesis by (simp add: xs)
  qed
  have "(\<lambda>i. i * pl_element_bytes l) ` {..<2 * pl_elements l} = {x. x < pl_total_bytes l \<and> pl_element_bytes l dvd x}"
    unfolding pl_total [OF inv] by (rule multiples_image [OF w])
  then have "bij_betw (\<lambda>x. ?i x * pl_element_bytes l) ?S {x. x < pl_total_bytes l \<and> pl_element_bytes l dvd x}"
    using bij_betw_trans [OF inj_on_imp_bij_betw [OF inj, unfolded img], of "\<lambda>i. i * pl_element_bytes l"] w
    by (simp add: bij_betw_def inj_on_def comp_def)
  then show "bij_betw (\<lambda>(kind, slot, head, d). projr (pl_slot_byte_offset kind slot head d l)) ?S
      {x. x < pl_total_bytes l \<and> pl_element_bytes l dvd x}"
    by (rule bij_betw_cong [THEN iffD2, rotated]) (rule off)
qed

definition small_layout :: paged_kv_layout where
  "small_layout = projr (pl_create 2 1 2 3 Float16)"

lemma pl_slots_tile_witness:
  "card {x. x < pl_total_bytes small_layout \<and> pl_element_bytes small_layout dvd x} = 2 * (4 * (1 * 3))"
proof -
  have "pl_create 2 1 2 3 Float16 = Inr small_layout"
    unfolding small_layout_def pl_create_def by (simp add: checked_multiply_def size_max_def)
  from pl_slots_tile [OF this] have
    "bij_betw (\<lambda>(kind, slot, head, d). projr (pl_slot_byte_offset kind slot head d small_layout))
      ({Key, Value} \<times> {..<2 * 2} \<times> {..<1} \<times> {..<3})
      {x. x < pl_total_bytes small_layout \<and> pl_element_bytes small_layout dvd x}" by blast
  from bij_betw_same_card [OF this] show ?thesis by (simp add: card_cartesian_product)
qed

end
