(* ===== verification/Batch_Views.thy ===== *)
theory Batch_Views
  imports Sequence_State Paged_Kv_Layout
begin

text \<open>
  \<open>slot_mapping\<close>, \<open>batch_block_table\<close> and \<open>paged_kv_read_table\<close> of v2: the read-only views of
  sequences that the kernels are given. They hold physical page numbers and no references. A
  pointer to a sequence is an option; all sequences that pass the pool checks live in the pool
  \<open>p\<close> of the first.
\<close>

section \<open>Slot mapping\<close>

record token_write =
  tw_sequence :: "sequence_state option"
  tw_token_position :: nat

definition physical_slot :: "sequence_state \<Rightarrow> nat \<Rightarrow> physical_block_pool \<Rightarrow> nat res" where
  "physical_slot q position p =
     bind_res (ss_token_location position (q, p)) (\<lambda>location.
       let bsize = ss_block_size q;
           block = tl_physical_block location;
           offset = tl_offset_in_block location
       in if block > (u64_max - offset) div bsize then Inl OverflowError
          else Inr (block * bsize + offset))"

fun slot_mapping_loop :: "v2_table \<Rightarrow> token_write list \<Rightarrow> physical_block_pool \<Rightarrow> nat list res" where
  "slot_mapping_loop first_table [] p = Inr []"
| "slot_mapping_loop first_table (w # ws) p =
     (case tw_sequence w of
        None \<Rightarrow> Inl InvalidArgument
      | Some q \<Rightarrow>
          if \<not> bt_shares_pool_with first_table (ss_table q) then Inl InvalidArgument
          else bind_res (physical_slot q (tw_token_position w) p)
                 (\<lambda>slot. bind_res (slot_mapping_loop first_table ws p) (\<lambda>slots. Inr (slot # slots))))"

definition build_slot_mapping :: "token_write list \<Rightarrow> physical_block_pool \<Rightarrow> nat list res" where
  "build_slot_mapping batch p =
     (case batch of
        [] \<Rightarrow> Inr []
      | w # ws \<Rightarrow>
          (case tw_sequence w of
             None \<Rightarrow> Inl InvalidArgument
           | Some q \<Rightarrow> slot_mapping_loop (ss_table q) batch p))"

section \<open>Batch block table\<close>

record batch_block_table =
  bb_max_blocks_per_sequence :: nat
  bb_block_table :: "nat list"
  bb_sequence_lengths :: "nat list"

definition bb_num_sequences :: "batch_block_table \<Rightarrow> nat" where
  "bb_num_sequences b = length (bb_sequence_lengths b)"

definition invalid_block :: nat where
  "invalid_block = size_max"

definition bb_physical_id :: "nat \<Rightarrow> nat \<Rightarrow> batch_block_table \<Rightarrow> nat res" where
  "bb_physical_id request logical_block b =
     (if request \<ge> bb_num_sequences b \<or> logical_block \<ge> bb_max_blocks_per_sequence b then Inl OutOfRange
      else
        let block = bb_block_table b ! (request * bb_max_blocks_per_sequence b + logical_block)
        in if block = invalid_block then Inl OutOfRange else Inr block)"

text \<open>The first loop: lengths and the longest table.\<close>

fun bb_scan :: "v2_table \<Rightarrow> sequence_state option list \<Rightarrow> batch_block_table \<Rightarrow> batch_block_table res" where
  "bb_scan first_table [] b = Inr b"
| "bb_scan first_table (s # ss) b =
     (case s of
        None \<Rightarrow> Inl InvalidArgument
      | Some q \<Rightarrow>
          if \<not> bt_shares_pool_with (ss_table q) first_table then Inl InvalidArgument
          else bb_scan first_table ss
                 (b\<lparr>bb_sequence_lengths := bb_sequence_lengths b @ [ss_num_tokens q],
                    bb_max_blocks_per_sequence :=
                      (if ss_num_allocated_blocks q > bb_max_blocks_per_sequence b
                       then ss_num_allocated_blocks q else bb_max_blocks_per_sequence b)\<rparr>))"

text \<open>The nested loops over requests and their pages.\<close>

fun bb_fill_row :: "sequence_state \<Rightarrow> physical_block_pool \<Rightarrow> nat \<Rightarrow> nat list \<Rightarrow> nat list \<Rightarrow> nat list res" where
  "bb_fill_row q p base [] t = Inr t"
| "bb_fill_row q p base (logical # ls) t =
     bind_res (ss_physical_block_id logical (q, p)) (\<lambda>block. bb_fill_row q p base ls (t[base + logical := block]))"

fun bb_fill :: "physical_block_pool \<Rightarrow> nat \<Rightarrow> nat \<Rightarrow> sequence_state list \<Rightarrow> nat list \<Rightarrow> nat list res" where
  "bb_fill p width request [] t = Inr t"
| "bb_fill p width request (q # qs) t =
     bind_res (bb_fill_row q p (request * width) [0..<ss_num_allocated_blocks q] t)
       (\<lambda>t. bb_fill p width (Suc request) qs t)"

definition build_batch_block_table :: "sequence_state option list \<Rightarrow> physical_block_pool \<Rightarrow> batch_block_table res" where
  "build_batch_block_table sequences p =
     (let result = \<lparr>bb_max_blocks_per_sequence = 0, bb_block_table = [], bb_sequence_lengths = []\<rparr>
      in case sequences of
           [] \<Rightarrow> Inr result
         | None # ss \<Rightarrow> Inl InvalidArgument
         | Some first # ss \<Rightarrow>
             bind_res (bb_scan (ss_table first) sequences result) (\<lambda>result.
               if bb_max_blocks_per_sequence result > size_max div length sequences then Inl OverflowError
               else
                 bind_res (bb_fill p (bb_max_blocks_per_sequence result) 0 (map the sequences)
                            (replicate (length sequences * bb_max_blocks_per_sequence result) invalid_block))
                   (\<lambda>t. Inr (result\<lparr>bb_block_table := t\<rparr>))))"

section \<open>Read table\<close>

fun read_table_loop :: "seq_state \<Rightarrow> nat list \<Rightarrow> nat list \<Rightarrow> nat list res" where
  "read_table_loop st [] blocks = Inr blocks"
| "read_table_loop st (logical # ls) blocks =
     bind_res (ss_physical_block_id logical st) (\<lambda>b. read_table_loop st ls (blocks @ [b]))"

definition build_read_block_table :: "seq_state \<Rightarrow> nat list res" where
  "build_read_block_table st = read_table_loop st [0..<ss_num_allocated_blocks (fst st)] []"

section \<open>Sequences of one pool\<close>

text \<open>The page of a logical block, and the sequences of a pool.\<close>

abbreviation ss_page :: "sequence_state \<Rightarrow> nat \<Rightarrow> nat" where
  "ss_page q i \<equiv> h_id (bt_blocks (ss_table q) ! i)"

definition ss_owned :: "pool_ref \<Rightarrow> physical_block_pool \<Rightarrow> sequence_state \<Rightarrow> bool" where
  "ss_owned r p q \<longleftrightarrow> (\<exists>others. ss_inv others (q, p)) \<and> bt_pool (ss_table q) = Some r"

lemma ss_ownedD:
  assumes "ss_owned r p q"
  shows "ss_block_size q = pp_block_size p" and "0 < ss_block_size q"
    and "ss_num_allocated_blocks q = ceil_blocks (ss_num_tokens q) (ss_block_size q)"
    and "i < ss_num_allocated_blocks q \<Longrightarrow> ss_page q i < pp_capacity p"
    and "ss_physical_block_id i (q, p) = (if i < ss_num_allocated_blocks q then Inr (ss_page q i) else Inl OutOfRange)"
    and "pp_capacity p \<le> size_max" and "ss_num_tokens q \<le> size_max"
proof -
  obtain others where inv: "ss_inv others (q, p)" using assms by (auto simp: ss_owned_def)
  note d = ss_invD [OF inv]
  show "ss_block_size q = pp_block_size p" using d(6) assms by (simp add: ss_owned_def)
  show "0 < ss_block_size q" by (rule d(2))
  show "ss_num_allocated_blocks q = ceil_blocks (ss_num_tokens q) (ss_block_size q)"
    using d(3) by (simp add: ss_num_allocated_blocks_def)
  show "ss_page q i < pp_capacity p" if "i < ss_num_allocated_blocks q"
    using bm_refs_live [OF bt_inv_owned [OF d(1) nth_mem [of i]]] that
    by (simp add: ss_num_allocated_blocks_def bm_live_def pp_capacity_def bm_capacity_def)
  show "ss_physical_block_id i (q, p) = (if i < ss_num_allocated_blocks q then Inr (ss_page q i) else Inl OutOfRange)"
    using bt_queries(1) [OF d(1)] by (simp add: ss_physical_block_id_def ss_num_allocated_blocks_def)
  have "pp_inv p" using d(1) bt_invD(1) by blast
  then show "pp_capacity p \<le> size_max"
    by (auto simp: bm_inv_def pp_capacity_def bm_capacity_def none_def dest: bm_repD(2))
  show "ss_num_tokens q \<le> size_max" by (rule d(4))
qed

text \<open>Different logical blocks of a sequence are on different pages.\<close>

lemma ss_page_inj:
  assumes "ss_owned r p q" and "i < ss_num_allocated_blocks q" "j < ss_num_allocated_blocks q"
    and "ss_page q i = ss_page q j"
  shows "i = j"
proof -
  obtain others where inv: "ss_inv others (q, p)" using assms(1) by (auto simp: ss_owned_def)
  have "bt_blocks (ss_table q) ! i = bt_blocks (ss_table q) ! j"
    using ss_live_ids_distinct [OF inv _ _ assms(4)] assms(2,3) nth_mem by (simp add: ss_num_allocated_blocks_def)
  then show ?thesis using ss_invD(5) [OF inv] assms(2,3) by (simp add: nth_eq_iff_index_eq ss_num_allocated_blocks_def)
qed

text \<open>The slot of a position.\<close>

definition ss_slot :: "sequence_state \<Rightarrow> nat \<Rightarrow> nat" where
  "ss_slot q i = ss_page q (i div ss_block_size q) * ss_block_size q + i mod ss_block_size q"

lemma ss_position_block:
  assumes "ss_owned r p q" and "i < ss_num_tokens q"
  shows "i div ss_block_size q < ss_num_allocated_blocks q"
  using ceil_blocks_div_less [OF ss_ownedD(2) [OF assms(1)] assms(2)] ss_ownedD(3) [OF assms(1)] by simp

lemma ss_slot_split:
  assumes "ss_owned r p q"
  shows "ss_slot q i div ss_block_size q = ss_page q (i div ss_block_size q)"
    and "ss_slot q i mod ss_block_size q = i mod ss_block_size q"
  using ss_ownedD(2) [OF assms] by (simp_all add: ss_slot_def)

lemma ss_slot_less:
  assumes "ss_owned r p q" and "i < ss_num_tokens q"
  shows "ss_slot q i < pp_capacity p * pp_block_size p"
proof -
  have "ss_page q (i div ss_block_size q) < pp_capacity p"
    using ss_ownedD(4) [OF assms(1) ss_position_block [OF assms]] .
  from horner_step_less [OF this, of "i mod ss_block_size q" "ss_block_size q"] show ?thesis
    using ss_ownedD(1,2) [OF assms(1)] by (simp add: ss_slot_def)
qed

lemma ss_slot_inj:
  assumes "ss_owned r p q" and "i < ss_num_tokens q" "j < ss_num_tokens q" and "ss_slot q i = ss_slot q j"
  shows "i = j"
proof -
  have "ss_page q (i div ss_block_size q) = ss_page q (j div ss_block_size q)" "i mod ss_block_size q = j mod ss_block_size q"
    using ss_slot_split [OF assms(1)] assms(4) by metis+
  then show ?thesis
    using ss_page_inj [OF assms(1) ss_position_block [OF assms(1,2)] ss_position_block [OF assms(1,3)]]
    by (metis div_mult_mod_eq)
qed

lemma physical_slot_cases:
  assumes own: "ss_owned r p q" and fits: "pp_capacity p * pp_block_size p \<le> u64_max"
  shows "physical_slot q i p = (if i < ss_num_tokens q then Inr (ss_slot q i) else Inl OutOfRange)"
proof -
  obtain others where inv: "ss_inv others (q, p)" using own by (auto simp: ss_owned_def)
  have "ss_page q (i div ss_block_size q) \<le> (u64_max - i mod ss_block_size q) div ss_block_size q"
    if i: "i < ss_num_tokens q"
  proof -
    have "ss_slot q i \<le> u64_max" using ss_slot_less [OF own i] fits by simp
    then show ?thesis using ss_ownedD(2) [OF own] by (simp add: ss_slot_def less_eq_div_iff_mult_less_eq)
  qed
  then show ?thesis
    by (cases "i < ss_num_tokens q")
      (simp_all add: physical_slot_def ss_token_location_ok [OF inv] Let_def ss_slot_def not_less)
qed

lemma slot_mapping_loop_ok:
  assumes "\<forall>w \<in> set ws. \<exists>q. tw_sequence w = Some q \<and> ss_owned r p q"
    and "bt_pool first_table = Some r" and "pp_capacity p * pp_block_size p \<le> u64_max"
  shows "slot_mapping_loop first_table ws p =
    (if \<forall>w \<in> set ws. tw_token_position w < ss_num_tokens (the (tw_sequence w))
     then Inr (map (\<lambda>w. ss_slot (the (tw_sequence w)) (tw_token_position w)) ws) else Inl OutOfRange)"
  using assms(1)
proof (induction ws)
  case (Cons w ws)
  then obtain q where q: "tw_sequence w = Some q" "ss_owned r p q" by auto
  then have "bt_shares_pool_with first_table (ss_table q)"
    using assms(2) by (simp add: bt_shares_pool_with_def ss_owned_def)
  then show ?case using Cons q physical_slot_cases [OF q(2) assms(3)] by simp
qed simp

lemma build_slot_mapping_ok:
  assumes "\<forall>w \<in> set ws. \<exists>q. tw_sequence w = Some q \<and> ss_owned r p q"
    and "pp_capacity p * pp_block_size p \<le> u64_max"
  shows "build_slot_mapping ws p =
    (if \<forall>w \<in> set ws. tw_token_position w < ss_num_tokens (the (tw_sequence w))
     then Inr (map (\<lambda>w. ss_slot (the (tw_sequence w)) (tw_token_position w)) ws) else Inl OutOfRange)"
proof (cases ws)
  case Nil
  then show ?thesis by (simp add: build_slot_mapping_def)
next
  case (Cons w rest)
  then obtain q where q: "tw_sequence w = Some q" "ss_owned r p q" using assms(1) by auto
  then have "build_slot_mapping ws p = slot_mapping_loop (ss_table q) ws p"
    using Cons by (simp add: build_slot_mapping_def)
  then show ?thesis using slot_mapping_loop_ok [OF assms(1) _ assms(2), of "ss_table q"] q(2) by (simp add: ss_owned_def)
qed

lemma read_table_loop_ok:
  assumes "ss_owned r p q"
  shows "\<forall>i \<in> set ls. i < ss_num_allocated_blocks q \<Longrightarrow>
    read_table_loop (q, p) ls blocks = Inr (blocks @ map (ss_page q) ls)"
  by (induction ls arbitrary: blocks) (auto simp: ss_ownedD(5) [OF assms])

lemma build_read_block_table_ok:
  "ss_owned r p q \<Longrightarrow> build_read_block_table (q, p) = Inr (map (ss_page q) [0..<ss_num_allocated_blocks q])"
  by (simp add: build_read_block_table_def read_table_loop_ok)

text \<open>Filling the table row by row.\<close>

lemma bb_fill_row_ok:
  assumes own: "ss_owned r p q" and n: "n \<le> ss_num_allocated_blocks q"
  shows "j \<le> n \<Longrightarrow> base + n \<le> length t \<Longrightarrow> \<exists>t'. bb_fill_row q p base [j..<n] t = Inr t' \<and> length t' = length t \<and>
    (\<forall>k. t' ! k = (if base + j \<le> k \<and> k < base + n then ss_page q (k - base) else t ! k))"
proof (induction "n - j" arbitrary: j t)
  case 0
  then show ?case by simp
next
  case (Suc m)
  then have j: "j < n" and m: "m = n - Suc j" by simp_all
  let ?t = "t[base + j := ss_page q j]"
  obtain t' where t': "bb_fill_row q p base [Suc j..<n] ?t = Inr t'" "length t' = length t"
    "\<forall>k. t' ! k = (if base + Suc j \<le> k \<and> k < base + n then ss_page q (k - base) else ?t ! k)"
    using Suc.hyps(1) [OF m, of ?t] Suc.prems j by auto
  have "bb_fill_row q p base [j..<n] t = Inr t'"
    using j n t'(1) ss_ownedD(5) [OF own, of j] by (simp add: upt_conv_Cons)
  moreover have "t' ! k = (if base + j \<le> k \<and> k < base + n then ss_page q (k - base) else t ! k)" for k
    using t'(3) j Suc.prems(2) by (cases "k = base + j") (auto simp: nth_list_update)
  ultimately show ?case using t'(2) by blast
qed

lemma bb_fill_ok:
  assumes "\<forall>q \<in> set qs. ss_owned r p q \<and> ss_num_allocated_blocks q \<le> width"
    and "(request + length qs) * width \<le> length t"
  shows "\<exists>t'. bb_fill p width request qs t = Inr t' \<and> length t' = length t \<and>
    (\<forall>k < request * width. t' ! k = t ! k) \<and>
    (\<forall>i < length qs. \<forall>j < width. t' ! ((request + i) * width + j) =
       (if j < ss_num_allocated_blocks (qs ! i) then ss_page (qs ! i) j else t ! ((request + i) * width + j)))"
  using assms
proof (induction qs arbitrary: request t)
  case Nil
  then show ?case by simp
next
  case (Cons q qs)
  let ?n = "ss_num_allocated_blocks q" and ?base = "request * width"
  have q: "ss_owned r p q" "?n \<le> width" using Cons.prems(1) by simp_all
  have room: "?base + width \<le> length t" "(Suc request + length qs) * width \<le> length t"
    using Cons.prems(2) by (simp_all add: algebra_simps)
  obtain t1 where t1: "bb_fill_row q p ?base [0..<?n] t = Inr t1" "length t1 = length t"
    "\<forall>k. t1 ! k = (if ?base + 0 \<le> k \<and> k < ?base + ?n then ss_page q (k - ?base) else t ! k)"
    using bb_fill_row_ok [OF q(1) order_refl, of 0 ?base t] q(2) room(1) by auto
  obtain t' where t': "bb_fill p width (Suc request) qs t1 = Inr t'" "length t' = length t1"
    "\<forall>k < Suc request * width. t' ! k = t1 ! k"
    "\<forall>i < length qs. \<forall>j < width. t' ! ((Suc request + i) * width + j) =
       (if j < ss_num_allocated_blocks (qs ! i) then ss_page (qs ! i) j else t1 ! ((Suc request + i) * width + j))"
    using Cons.IH [of "Suc request" t1] Cons.prems(1) room(2) t1(2) by auto
  have "t' ! ((request + i) * width + j) =
      (if j < ss_num_allocated_blocks ((q # qs) ! i) then ss_page ((q # qs) ! i) j else t ! ((request + i) * width + j))"
    if i: "i < length (q # qs)" and j: "j < width" for i j
  proof (cases i)
    case 0
    have "?base + j < Suc request * width" using j by simp
    then show ?thesis using 0 t'(3) t1(3) by simp
  next
    case (Suc i')
    have "t1 ! ((Suc request + i') * width + j) = t ! ((Suc request + i') * width + j)"
      using t1(3) q(2) by (simp add: algebra_simps)
    then show ?thesis using Suc i j t'(4) by simp
  qed
  moreover have "t' ! k = t ! k" if "k < request * width" for k
    using that t'(3) t1(3) by (simp add: trans_less_add1)
  ultimately show ?case using t1 t' by simp
qed

lemma bb_scan_ok:
  assumes "\<forall>s \<in> set ss. \<exists>q. s = Some q \<and> ss_owned r p q" and "bt_pool first_table = Some r"
  shows "\<exists>width. bb_scan first_table ss b =
      Inr (b\<lparr>bb_sequence_lengths := bb_sequence_lengths b @ map (ss_num_tokens \<circ> the) ss,
             bb_max_blocks_per_sequence := width\<rparr>) \<and>
    (\<forall>s \<in> set ss. ss_num_allocated_blocks (the s) \<le> width) \<and> bb_max_blocks_per_sequence b \<le> width \<and>
    (width = bb_max_blocks_per_sequence b \<or> (\<exists>s \<in> set ss. width = ss_num_allocated_blocks (the s)))"
  using assms(1)
proof (induction ss arbitrary: b)
  case Nil
  then show ?case by simp
next
  case (Cons s ss)
  then obtain q where q: "s = Some q" "ss_owned r p q" by auto
  define m where "m = (if ss_num_allocated_blocks q > bb_max_blocks_per_sequence b
            then ss_num_allocated_blocks q else bb_max_blocks_per_sequence b)"
  define b' where "b' = b\<lparr>bb_sequence_lengths := bb_sequence_lengths b @ [ss_num_tokens q], bb_max_blocks_per_sequence := m\<rparr>"
  have "bt_shares_pool_with (ss_table q) first_table"
    using q(2) assms(2) by (simp add: bt_shares_pool_with_def ss_owned_def)
  then have step: "bb_scan first_table (s # ss) b = bb_scan first_table ss b'" by (simp add: q(1) b'_def m_def)
  have rest: "\<forall>s \<in> set ss. \<exists>q. s = Some q \<and> ss_owned r p q" using Cons.prems by simp
  obtain width where w: "bb_scan first_table ss b' =
      Inr (b'\<lparr>bb_sequence_lengths := bb_sequence_lengths b' @ map (ss_num_tokens \<circ> the) ss,
             bb_max_blocks_per_sequence := width\<rparr>)"
    "\<forall>s \<in> set ss. ss_num_allocated_blocks (the s) \<le> width" "bb_max_blocks_per_sequence b' \<le> width"
    "width = bb_max_blocks_per_sequence b' \<or> (\<exists>s \<in> set ss. width = ss_num_allocated_blocks (the s))"
    using Cons.IH [OF rest, of b'] by (elim exE conjE)
  have m: "bb_max_blocks_per_sequence b' = m" "bb_max_blocks_per_sequence b \<le> m" "ss_num_allocated_blocks q \<le> m"
    "m = bb_max_blocks_per_sequence b \<or> m = ss_num_allocated_blocks q"
    by (auto simp: b'_def m_def)
  have "bb_scan first_table (s # ss) b =
      Inr (b\<lparr>bb_sequence_lengths := bb_sequence_lengths b @ map (ss_num_tokens \<circ> the) (s # ss),
             bb_max_blocks_per_sequence := width\<rparr>)"
    unfolding step w(1) by (simp add: b'_def q(1))
  then show ?case using w(2-4) m q(1) by (intro exI [of _ width]) auto
qed

lemma ss_blocks_le_capacity:
  assumes "ss_owned r p q"
  shows "ss_num_allocated_blocks q \<le> pp_capacity p"
proof -
  have "card {..<ss_num_allocated_blocks q} \<le> card {..<pp_capacity p}"
    by (rule card_inj_on_le [of "ss_page q"])
      (use ss_page_inj [OF assms] ss_ownedD(4) [OF assms] in \<open>auto simp: inj_on_def\<close>)
  then show ?thesis by simp
qed

text \<open>
  The table as a matrix: the pages of a request in its row, padding behind them. It can only fail
  to be built when its size overflows.
\<close>

lemma build_batch_block_table_ok:
  assumes own: "\<forall>s \<in> set ss. \<exists>q. s = Some q \<and> ss_owned r p q"
  shows "build_batch_block_table ss p = Inr b \<Longrightarrow>
      bb_sequence_lengths b = map (ss_num_tokens \<circ> the) ss \<and>
      length (bb_block_table b) = length ss * bb_max_blocks_per_sequence b \<and>
      (\<forall>s \<in> set ss. ss_num_allocated_blocks (the s) \<le> bb_max_blocks_per_sequence b) \<and>
      (\<forall>i < length ss. \<forall>j < bb_max_blocks_per_sequence b.
         bb_block_table b ! (i * bb_max_blocks_per_sequence b + j) =
           (if j < ss_num_allocated_blocks (the (ss ! i)) then ss_page (the (ss ! i)) j else invalid_block))"
    and "length ss * pp_capacity p \<le> size_max \<Longrightarrow> \<exists>b. build_batch_block_table ss p = Inr b"
proof -
  have "(build_batch_block_table ss p = Inr b \<longrightarrow>
      bb_sequence_lengths b = map (ss_num_tokens \<circ> the) ss \<and>
      length (bb_block_table b) = length ss * bb_max_blocks_per_sequence b \<and>
      (\<forall>s \<in> set ss. ss_num_allocated_blocks (the s) \<le> bb_max_blocks_per_sequence b) \<and>
      (\<forall>i < length ss. \<forall>j < bb_max_blocks_per_sequence b.
         bb_block_table b ! (i * bb_max_blocks_per_sequence b + j) =
           (if j < ss_num_allocated_blocks (the (ss ! i)) then ss_page (the (ss ! i)) j else invalid_block))) \<and>
    (length ss * pp_capacity p \<le> size_max \<longrightarrow> (\<exists>b. build_batch_block_table ss p = Inr b))"
  proof (cases ss)
    case Nil
    then show ?thesis by (auto simp: build_batch_block_table_def)
  next
    case (Cons s rest)
    then obtain first where first: "s = Some first" "ss_owned r p first" using own by auto
    define b0 where "b0 = \<lparr>bb_max_blocks_per_sequence = 0, bb_block_table = [], bb_sequence_lengths = []\<rparr>"
    obtain width where w: "bb_scan (ss_table first) ss b0 =
        Inr (b0\<lparr>bb_sequence_lengths := bb_sequence_lengths b0 @ map (ss_num_tokens \<circ> the) ss,
               bb_max_blocks_per_sequence := width\<rparr>)"
      "\<forall>s \<in> set ss. ss_num_allocated_blocks (the s) \<le> width"
      "width = bb_max_blocks_per_sequence b0 \<or> (\<exists>s \<in> set ss. width = ss_num_allocated_blocks (the s))"
      using bb_scan_ok [OF own, of "ss_table first" b0] first(2) unfolding ss_owned_def by blast
    let ?t = "replicate (length ss * width) invalid_block"
    have qs: "\<forall>q \<in> set (map the ss). ss_owned r p q \<and> ss_num_allocated_blocks q \<le> width"
      using own w(2) by fastforce
    obtain t where t: "bb_fill p width 0 (map the ss) ?t = Inr t" "length t = length ss * width"
      "\<forall>i < length ss. \<forall>j < width. t ! (i * width + j) =
         (if j < ss_num_allocated_blocks (the (ss ! i)) then ss_page (the (ss ! i)) j else ?t ! (i * width + j))"
      using bb_fill_ok [OF qs, of 0 ?t] by auto
    define b1 where "b1 = \<lparr>bb_max_blocks_per_sequence = width, bb_block_table = t,
        bb_sequence_lengths = map (ss_num_tokens \<circ> the) ss\<rparr>"
    have "build_batch_block_table ss p = bind_res (bb_scan (ss_table first) ss b0) (\<lambda>result.
                 if bb_max_blocks_per_sequence result > size_max div length ss then Inl OverflowError
                 else
                   bind_res (bb_fill p (bb_max_blocks_per_sequence result) 0 (map the ss)
                              (replicate (length ss * bb_max_blocks_per_sequence result) invalid_block))
                     (\<lambda>t. Inr (result\<lparr>bb_block_table := t\<rparr>)))"
      unfolding Cons first(1) build_batch_block_table_def b0_def Let_def by (simp only: list.case option.case)
    also have "\<dots> = (if width > size_max div length ss then Inl OverflowError else Inr b1)"
      using t(1) unfolding w(1) by (simp add: b1_def b0_def)
    finally have build: "build_batch_block_table ss p = (if width > size_max div length ss then Inl OverflowError else Inr b1)" .
    have pad: "?t ! (i * width + j) = invalid_block" if "i < length ss" "j < width" for i j
      using horner_step_less [OF that] by simp
    have "width \<le> pp_capacity p"
      using w(3) ss_blocks_le_capacity own by (fastforce simp: b0_def)
    then have "length ss * pp_capacity p \<le> size_max \<Longrightarrow> length ss * width \<le> size_max"
      by (meson le_trans mult_le_mono2)
    then have fits: "length ss * pp_capacity p \<le> size_max \<Longrightarrow> \<not> width > size_max div length ss"
      using Cons by (simp add: less_eq_div_iff_mult_less_eq mult.commute not_less)
    show ?thesis
    proof (intro conjI impI)
      assume "build_batch_block_table ss p = Inr b"
      then have b: "b = b1" using build by (simp split: if_splits)
      show "bb_sequence_lengths b = map (ss_num_tokens \<circ> the) ss"
        "length (bb_block_table b) = length ss * bb_max_blocks_per_sequence b"
        "\<forall>s \<in> set ss. ss_num_allocated_blocks (the s) \<le> bb_max_blocks_per_sequence b"
        using t(2) w(2) by (simp_all add: b b1_def)
      show "\<forall>i < length ss. \<forall>j < bb_max_blocks_per_sequence b.
         bb_block_table b ! (i * bb_max_blocks_per_sequence b + j) =
           (if j < ss_num_allocated_blocks (the (ss ! i)) then ss_page (the (ss ! i)) j else invalid_block)"
        using t(3) pad by (simp add: b b1_def)
    next
      assume "length ss * pp_capacity p \<le> size_max"
      then show "\<exists>b. build_batch_block_table ss p = Inr b" using build fits by simp
    qed
  qed
  then show "build_batch_block_table ss p = Inr b \<Longrightarrow>
      bb_sequence_lengths b = map (ss_num_tokens \<circ> the) ss \<and>
      length (bb_block_table b) = length ss * bb_max_blocks_per_sequence b \<and>
      (\<forall>s \<in> set ss. ss_num_allocated_blocks (the s) \<le> bb_max_blocks_per_sequence b) \<and>
      (\<forall>i < length ss. \<forall>j < bb_max_blocks_per_sequence b.
         bb_block_table b ! (i * bb_max_blocks_per_sequence b + j) =
           (if j < ss_num_allocated_blocks (the (ss ! i)) then ss_page (the (ss ! i)) j else invalid_block))"
    "length ss * pp_capacity p \<le> size_max \<Longrightarrow> \<exists>b. build_batch_block_table ss p = Inr b"
    by blast+
qed

section \<open>Properties\<close>

text \<open>C26: \<open>build_slot_mapping\<close> gives every requested token the slot of its page and offset, in the
  order of the batch and inside the pool; it throws \<open>out_of_range\<close> exactly when a position has
  not been reserved, its overflow check never fires for a pool whose slots can be numbered, and
  within one sequence two tokens never share a slot.\<close>

theorem slot_mapping_exact:
  assumes "\<forall>w \<in> set ws. \<exists>q. tw_sequence w = Some q \<and> ss_owned r p q"
    and "pp_capacity p * pp_block_size p \<le> u64_max"
  shows "case build_slot_mapping ws p of
      Inl e \<Rightarrow> e = OutOfRange \<and> (\<exists>w \<in> set ws. ss_num_tokens (the (tw_sequence w)) \<le> tw_token_position w)
    | Inr slots \<Rightarrow> length slots = length ws \<and>
        (\<forall>i < length ws. let q = the (tw_sequence (ws ! i)); n = tw_token_position (ws ! i) in
           n < ss_num_tokens q \<and> slots ! i < pp_capacity p * pp_block_size p \<and>
           slots ! i = ss_page q (n div ss_block_size q) * ss_block_size q + n mod ss_block_size q) \<and>
        (\<forall>i < length ws. \<forall>j < length ws.
           tw_sequence (ws ! i) = tw_sequence (ws ! j) \<and> slots ! i = slots ! j \<longrightarrow>
           tw_token_position (ws ! i) = tw_token_position (ws ! j))"
proof (cases "\<forall>w \<in> set ws. tw_token_position w < ss_num_tokens (the (tw_sequence w))")
  case False
  then show ?thesis using build_slot_mapping_ok [OF assms] by (auto simp: not_less)
next
  case True
  let ?slots = "map (\<lambda>w. ss_slot (the (tw_sequence w)) (tw_token_position w)) ws"
  have r: "build_slot_mapping ws p = Inr ?slots" using build_slot_mapping_ok [OF assms] True by simp
  have own: "ss_owned r p (the (tw_sequence (ws ! i)))"
    and pos: "tw_token_position (ws ! i) < ss_num_tokens (the (tw_sequence (ws ! i)))" if "i < length ws" for i
    using assms(1) True nth_mem [OF that] by fastforce+
  have inj: "tw_token_position (ws ! i) = tw_token_position (ws ! j)"
    if "i < length ws" "j < length ws" "tw_sequence (ws ! i) = tw_sequence (ws ! j)" "?slots ! i = ?slots ! j" for i j
    using ss_slot_inj [OF own pos, of i "tw_token_position (ws ! j)"] pos [of j] that by simp
  have each: "let q = the (tw_sequence (ws ! i)); n = tw_token_position (ws ! i) in
      n < ss_num_tokens q \<and> ?slots ! i < pp_capacity p * pp_block_size p \<and>
      ?slots ! i = ss_page q (n div ss_block_size q) * ss_block_size q + n mod ss_block_size q"
    if i: "i < length ws" for i
    using pos [OF i] ss_slot_less [OF own [OF i] pos [OF i]] i unfolding Let_def by (simp add: ss_slot_def)
  show ?thesis unfolding r sum.case
  proof (intro conjI allI impI)
    show "length ?slots = length ws" by simp
  next
    fix i assume "i < length ws"
    then show "let q = the (tw_sequence (ws ! i)); n = tw_token_position (ws ! i) in
      n < ss_num_tokens q \<and> ?slots ! i < pp_capacity p * pp_block_size p \<and>
      ?slots ! i = ss_page q (n div ss_block_size q) * ss_block_size q + n mod ss_block_size q" by (rule each)
  next
    fix i j assume "i < length ws" "j < length ws" "tw_sequence (ws ! i) = tw_sequence (ws ! j) \<and> ?slots ! i = ?slots ! j"
    then show "tw_token_position (ws ! i) = tw_token_position (ws ! j)" by (elim conjE) (rule inj)
  qed
qed

lemma demo_owned: "ss_owned 0 demo_p demo_q"
proof -
  have "bt_pool (ss_table demo_q) = Some 0" by code_simp
  then show ?thesis using demo_inv by (auto simp: ss_owned_def)
qed

lemma slot_mapping_exact_witness:
  "\<exists>slots. build_slot_mapping [\<lparr>tw_sequence = Some demo_q, tw_token_position = 2\<rparr>,
      \<lparr>tw_sequence = Some demo_q, tw_token_position = 0\<rparr>] demo_p = Inr slots \<and> slots ! 0 \<noteq> slots ! 1"
proof -
  let ?ws = "[\<lparr>tw_sequence = Some demo_q, tw_token_position = 2\<rparr>, \<lparr>tw_sequence = Some demo_q, tw_token_position = 0\<rparr>]"
  have n: "ss_num_tokens demo_q = 3" by code_simp
  have cap: "pp_capacity demo_p * pp_block_size demo_p \<le> u64_max" by code_simp
  have hyp: "\<forall>w \<in> set ?ws. \<exists>q. tw_sequence w = Some q \<and> ss_owned 0 demo_p q" using demo_owned by simp
  note c = slot_mapping_exact [OF hyp cap]
  show ?thesis
  proof (cases "build_slot_mapping ?ws demo_p")
    case (Inl e)
    then show ?thesis using c n by simp
  next
    case (Inr slots)
    have "\<forall>i < length ?ws. \<forall>j < length ?ws. tw_sequence (?ws ! i) = tw_sequence (?ws ! j) \<and> slots ! i = slots ! j \<longrightarrow>
        tw_token_position (?ws ! i) = tw_token_position (?ws ! j)"
      using c [unfolded Inr sum.case] by (elim conjE)
    from this [rule_format, of 0 1] show ?thesis using Inr by auto
  qed
qed

text \<open>\<open>build_batch_block_table\<close> is an exact snapshot: row by row it holds the token counts and the
  page numbers of the sequences; \<open>physical_id\<close> returns the page of every logical block a
  request has, and throws \<open>out_of_range\<close> for the padding and everything outside the table.\<close>

theorem batch_table_snapshot:
  assumes "\<forall>s \<in> set ss. \<exists>q. s = Some q \<and> ss_owned r p q" and "length ss * pp_capacity p \<le> size_max"
  shows "\<exists>b. build_batch_block_table ss p = Inr b \<and>
    bb_sequence_lengths b = map (ss_num_tokens \<circ> the) ss \<and>
    length (bb_block_table b) = length ss * bb_max_blocks_per_sequence b \<and>
    (\<forall>i j. bb_physical_id i j b =
       (if i < length ss \<and> j < ss_num_allocated_blocks (the (ss ! i)) then Inr (ss_page (the (ss ! i)) j)
        else Inl OutOfRange))"
proof -
  obtain b where build: "build_batch_block_table ss p = Inr b" using build_batch_block_table_ok(2) [OF assms] by blast
  note ok = build_batch_block_table_ok(1) [OF assms(1) build]
  have own: "ss_owned r p (the (ss ! i))" if "i < length ss" for i
    using assms(1) nth_mem [OF that] by fastforce
  have le: "ss_num_allocated_blocks (the (ss ! i)) \<le> bb_max_blocks_per_sequence b" if "i < length ss" for i
    using ok nth_mem [OF that] by blast
  have real_page: "ss_page (the (ss ! i)) j \<noteq> invalid_block" if "i < length ss" "j < ss_num_allocated_blocks (the (ss ! i))" for i j
    using ss_ownedD(4) [OF own that(2)] ss_ownedD(6) [OF own, of i] that(1) by (simp add: invalid_block_def)
  have "bb_physical_id i j b = (if i < length ss \<and> j < ss_num_allocated_blocks (the (ss ! i))
      then Inr (ss_page (the (ss ! i)) j) else Inl OutOfRange)" for i j
  proof (cases "i < length ss \<and> j < bb_max_blocks_per_sequence b")
    case False
    have "\<not> (i < length ss \<and> j < ss_num_allocated_blocks (the (ss ! i)))"
      using le [of i] False by (metis less_le_trans)
    then show ?thesis using ok False by (auto simp: bb_physical_id_def bb_num_sequences_def)
  next
    case True
    then show ?thesis using ok real_page [of i j] by (auto simp: bb_physical_id_def bb_num_sequences_def Let_def)
  qed
  then show ?thesis using build ok by blast
qed

lemma batch_table_snapshot_witness:
  "\<exists>b. build_batch_block_table [Some demo_q, Some demo_q] demo_p = Inr b \<and> bb_sequence_lengths b = [3, 3] \<and>
     bb_physical_id 1 1 b = Inr (ss_page demo_q 1) \<and> bb_physical_id 1 2 b = Inl OutOfRange"
proof -
  have n: "ss_num_tokens demo_q = 3" "ss_num_allocated_blocks demo_q = 2" by code_simp+
  have "length [Some demo_q, Some demo_q] * pp_capacity demo_p \<le> size_max" by code_simp
  from batch_table_snapshot [OF _ this, of 0] show ?thesis using demo_owned n by auto
qed

end
