(* ===== verification/Paged_Kv_Storage.thy ===== *)
theory Paged_Kv_Storage
  imports Gpu_Memory_Pool Batch_Views
begin

text \<open>
  \<open>include/kvflux/v2/paged_kv_storage.h\<close>, \<open>src/v2/paged_kv_storage.cpp\<close> and
  \<open>src/v2/copy_on_write.cpp\<close>: the device memory behind the pages of a pool, keys of all pages
  first, then the values. The pool itself is an argument of the operations. A device pointer is
  an offset in the memory of the backing pool.
\<close>

section \<open>Storage\<close>

record paged_kv_storage =
  ks_pool :: pool_ref
  ks_layout :: paged_kv_layout
  ks_backing :: gpu_memory_pool

definition backing_pages :: "nat \<Rightarrow> nat res" where
  "backing_pages physical_pages =
     (if physical_pages > size_max div 2 then Inl OverflowError else Inr (2 * physical_pages))"

definition ks_create :: "cuda \<Rightarrow> (nat \<Rightarrow> u8) \<Rightarrow> pool_ref \<Rightarrow> physical_block_pool \<Rightarrow> nat \<Rightarrow> nat \<Rightarrow> dtype \<Rightarrow> int \<Rightarrow>
    paged_kv_storage res" where
  "ks_create env fill r p num_kv_heads head_size dt device =
     bind_res (pl_create (pp_capacity p) num_kv_heads (pp_block_size p) head_size dt) (\<lambda>l.
     bind_res (backing_pages (pp_capacity p)) (\<lambda>pages.
     bind_res (gm_create env fill pages (pl_page_bytes l) (pp_block_size p) device) (\<lambda>b.
       Inr \<lparr>ks_pool = r, ks_layout = l, ks_backing = b\<rparr>)))"

definition ks_uses_pool :: "v2_table \<Rightarrow> paged_kv_storage \<Rightarrow> bool" where
  "ks_uses_pool t s = bt_uses_pool (ks_pool s) t"

definition ks_key_base :: "paged_kv_storage \<Rightarrow> nat res" where
  "ks_key_base s = gm_address_of_id 0 (ks_backing s)"

definition ks_value_base :: "physical_block_pool \<Rightarrow> paged_kv_storage \<Rightarrow> nat res" where
  "ks_value_base p s = gm_address_of_id (pp_capacity p) (ks_backing s)"

definition ks_page_address :: "kv_kind \<Rightarrow> block_handle \<Rightarrow> physical_block_pool \<Rightarrow> paged_kv_storage \<Rightarrow> nat res" where
  "ks_page_address kind h p s =
     bind_res (pp_id h p) (\<lambda>i.
     bind_res (pl_page_byte_offset kind i (ks_layout s)) (\<lambda>offset.
     bind_res (ks_key_base s) (\<lambda>base. Inr (base + offset))))"

definition ks_element_address :: "kv_kind \<Rightarrow> block_handle \<Rightarrow> nat \<Rightarrow> nat \<Rightarrow> nat \<Rightarrow> physical_block_pool \<Rightarrow>
    paged_kv_storage \<Rightarrow> nat res" where
  "ks_element_address kind h head token dimension p s =
     bind_res (pp_id h p) (\<lambda>i.
     bind_res (pl_byte_offset kind i head token dimension (ks_layout s)) (\<lambda>offset.
     bind_res (ks_key_base s) (\<lambda>base. Inr (base + offset))))"

definition ks_slot_address :: "kv_kind \<Rightarrow> nat \<Rightarrow> nat \<Rightarrow> nat \<Rightarrow> paged_kv_storage \<Rightarrow> nat res" where
  "ks_slot_address kind slot head dimension s =
     bind_res (pl_slot_byte_offset kind slot head dimension (ks_layout s)) (\<lambda>offset.
     bind_res (ks_key_base s) (\<lambda>base. Inr (base + offset)))"

text \<open>
  \<open>copy_block\<close>. A copy between device addresses ends, or fails after some bytes
  (\<open>Some n\<close>); the synchronisation in the handler leaves the memory as the copies left it.
\<close>

definition ks_put_memory :: "memory \<Rightarrow> paged_kv_storage \<Rightarrow> paged_kv_storage" where
  "ks_put_memory mem s = s\<lparr>ks_backing := (ks_backing s)\<lparr>gm_base := mem\<rparr>\<rparr>"

definition device_copy :: "nat option \<Rightarrow> nat \<Rightarrow> nat \<Rightarrow> nat \<Rightarrow> paged_kv_storage \<Rightarrow> unit res \<times> paged_kv_storage" where
  "device_copy answer destination source n s =
     (let mem = gm_base (ks_backing s)
      in case answer of
           None \<Rightarrow> (Inr (), ks_put_memory (patch destination (peek source n mem) mem) s)
         | Some k \<Rightarrow> (Inl RuntimeError, ks_put_memory (patch destination (peek source (min k n) mem) mem) s))"

definition ks_copy_page :: "nat option \<Rightarrow> kv_kind \<Rightarrow> block_handle \<Rightarrow> block_handle \<Rightarrow> physical_block_pool \<Rightarrow>
    paged_kv_storage \<Rightarrow> unit res \<times> paged_kv_storage" where
  "ks_copy_page answer kind source destination p s =
     (case bind_res (ks_page_address kind destination p s) (\<lambda>d.
             bind_res (ks_page_address kind source p s) (\<lambda>src. Inr (d, src))) of
        Inl e \<Rightarrow> (Inl e, s)
      | Inr (d, src) \<Rightarrow> device_copy answer d src (pl_page_bytes (ks_layout s)) s)"

definition ks_copy_block :: "cuda \<Rightarrow> nat option \<Rightarrow> nat option \<Rightarrow> block_handle \<Rightarrow> block_handle \<Rightarrow>
    physical_block_pool \<Rightarrow> paged_kv_storage \<Rightarrow> unit res \<times> paged_kv_storage" where
  "ks_copy_block env key_copy value_copy source destination p s =
     (case bind_res (pp_id source p) (\<lambda>source_id.
             bind_res (pp_id destination p) (\<lambda>destination_id.
               if source_id = destination_id then Inr True
               else bind_res (pp_ref_count destination p) (\<lambda>n.
                 if n \<noteq> 1 then Inr True else pp_is_published destination p))) of
        Inl e \<Rightarrow> (Inl e, s)
      | Inr refused \<Rightarrow>
          if refused then (Inl InvalidArgument, s)
          else if \<not> cu_guard env then (Inl RuntimeError, s)
          else
            and_then (ks_copy_page key_copy Key source destination p s) (\<lambda>_ s.
            and_then (ks_copy_page value_copy Value source destination p s) (\<lambda>_ s.
              if \<not> cu_sync env then (Inl RuntimeError, s) else (Inr (), s))))"

section \<open>Copy on write\<close>

text \<open>
  \<open>append_token_cow\<close>. When the callback runs, the pool is the one that the allocation of the
  new page has left.
\<close>

definition append_token_cow :: "(nat \<Rightarrow> bool) \<Rightarrow> cuda \<Rightarrow> nat option \<Rightarrow> nat option \<Rightarrow> seq_state \<times> paged_kv_storage \<Rightarrow>
    token_location res \<times> seq_state \<times> paged_kv_storage" where
  "append_token_cow grow env key_copy value_copy st =
     (case st of ((q, p), s) \<Rightarrow>
        if \<not> ks_uses_pool (ss_table q) s \<or> pl_block_size (ks_layout s) \<noteq> ss_block_size q
        then (Inl InvalidArgument, st)
        else ss_append_token_with_copy grow
               (Some (\<lambda>source destination. ks_copy_block env key_copy value_copy source destination (snd (pp_allocate p))))
               st)"

section \<open>The memory as an array of elements\<close>

definition ks_inv :: "physical_block_pool \<Rightarrow> paged_kv_storage \<Rightarrow> bool" where
  "ks_inv p s \<longleftrightarrow>
     pl_inv (ks_layout s) \<and> pl_num_blocks (ks_layout s) = pp_capacity p \<and>
     pl_block_size (ks_layout s) = pp_block_size p \<and> gm_inv (ks_backing s) \<and>
     gm_total_blocks (ks_backing s) = 2 * pp_capacity p \<and>
     gm_block_bytes (ks_backing s) = pl_page_bytes (ks_layout s)"

lemma ks_create_inv:
  assumes "ks_create env fill r p heads n t device = Inr s"
  shows "ks_inv p s \<and> ks_pool s = r"
proof -
  obtain l pages b where l: "pl_create (pp_capacity p) heads (pp_block_size p) n t = Inr l"
    and pages: "pages = 2 * pp_capacity p" and b: "gm_create env fill pages (pl_page_bytes l) (pp_block_size p) device = Inr b"
    and s: "s = \<lparr>ks_pool = r, ks_layout = l, ks_backing = b\<rparr>"
    using assms by (auto simp: ks_create_def backing_pages_def bind_res_Inr_iff split: if_splits)
  show ?thesis using pl_create_inv [OF l] gm_create_inv(1-3) [OF b] by (simp add: ks_inv_def s pages)
qed

lemma ks_inv_pool: "ks_inv p s \<Longrightarrow> pp_capacity p' = pp_capacity p \<Longrightarrow> pp_block_size p' = pp_block_size p \<Longrightarrow> ks_inv p' s"
  by (simp add: ks_inv_def)

text \<open>The element with a given index, as bytes.\<close>

definition ks_elem :: "nat \<Rightarrow> paged_kv_storage \<Rightarrow> memory" where
  "ks_elem i s = peek (i * pl_element_bytes (ks_layout s)) (pl_element_bytes (ks_layout s)) (gm_base (ks_backing s))"

lemma ks_memory_length:
  assumes "ks_inv p s"
  shows "length (gm_base (ks_backing s)) = 2 * pl_elements (ks_layout s) * pl_element_bytes (ks_layout s)"
proof -
  have inv: "pl_inv (ks_layout s)" and m: "gm_inv (ks_backing s)" "gm_total_blocks (ks_backing s) = 2 * pp_capacity p"
    "gm_block_bytes (ks_backing s) = pl_page_bytes (ks_layout s)" "pl_num_blocks (ks_layout s) = pp_capacity p"
    using assms by (simp_all add: ks_inv_def)
  have "length (gm_base (ks_backing s)) = gm_total_blocks (ks_backing s) * gm_block_bytes (ks_backing s)"
    using m(1) by (simp add: gm_inv_def)
  also have "\<dots> = pl_total_bytes (ks_layout s)" using m pl_invD(8,9) [OF inv] by (simp add: mult.assoc)
  finally show ?thesis using pl_total [OF inv] by simp
qed

lemma ks_put_memory_simps [simp]:
  "ks_pool (ks_put_memory mem s) = ks_pool s" "ks_layout (ks_put_memory mem s) = ks_layout s"
  "gm_base (ks_backing (ks_put_memory mem s)) = mem" "ks_put_memory m' (ks_put_memory mem s) = ks_put_memory m' s"
  "gm_total_blocks (ks_backing (ks_put_memory mem s)) = gm_total_blocks (ks_backing s)"
  "gm_block_bytes (ks_backing (ks_put_memory mem s)) = gm_block_bytes (ks_backing s)"
  by (simp_all add: ks_put_memory_def gm_total_blocks_def)

lemma ks_put_memory_inv:
  assumes "ks_inv p s" and "length mem = length (gm_base (ks_backing s))"
  shows "ks_inv p (ks_put_memory mem s)"
proof -
  have "gm_inv (ks_backing (ks_put_memory mem s))"
    using assms gm_put_inv(3) [of "ks_backing s" mem] by (simp add: ks_inv_def ks_put_memory_def)
  then show ?thesis using assms(1) by (simp add: ks_inv_def)
qed

lemma ks_bases:
  assumes "ks_inv p s"
  shows "ks_key_base s = Inr 0" and "ks_value_base p s = Inr (pl_cache_bytes (ks_layout s))"
proof -
  have "0 < pp_capacity p" using assms by (simp add: ks_inv_def pl_inv_def)
  then show "ks_key_base s = Inr 0" "ks_value_base p s = Inr (pl_cache_bytes (ks_layout s))"
    using assms by (auto simp: ks_key_base_def ks_value_base_def gm_address_of_id_def ks_inv_def pl_inv_def)
qed

lemma ks_slot_address_index:
  assumes "ks_inv p s"
  shows "ks_slot_address kind slot head d s = pl_slot_byte_offset kind slot head d (ks_layout s)"
  using ks_bases [OF assms] by (cases "pl_slot_byte_offset kind slot head d (ks_layout s)") (simp_all add: ks_slot_address_def)

text \<open>Pages as arrays of elements.\<close>

definition page_elements :: "paged_kv_layout \<Rightarrow> nat" where
  "page_elements l = pl_num_kv_heads l * pl_block_size l * pl_head_size l"

lemma page_bytes: "pl_inv l \<Longrightarrow> pl_page_bytes l = page_elements l * pl_element_bytes l"
  by (simp add: pl_inv_def page_elements_def)

definition page_index :: "kv_kind \<Rightarrow> nat \<Rightarrow> paged_kv_layout \<Rightarrow> nat" where
  "page_index kind i l = kind_index kind * pl_num_blocks l + i"

lemma ks_page_address_eq:
  assumes inv: "ks_inv p s" and k: "kind = Key \<or> kind = Value" and h: "0 < pp_refs p h"
  shows "ks_page_address kind h p s = Inr (page_index kind (h_id h) (ks_layout s) * pl_page_bytes (ks_layout s))"
    and "page_index kind (h_id h) (ks_layout s) < 2 * pp_capacity p"
proof -
  let ?l = "ks_layout s"
  have l: "pl_inv ?l" using inv by (simp add: ks_inv_def)
  have i: "h_id h < pl_num_blocks ?l" using bm_refs_live [OF h] inv
    by (simp add: ks_inv_def bm_live_def pp_capacity_def bm_capacity_def)
  then show lt: "page_index kind (h_id h) ?l < 2 * pp_capacity p"
    using inv by (simp add: page_index_def kind_index_def ks_inv_def)
  have "page_index kind (h_id h) ?l * pl_page_bytes ?l \<le> (2 * pp_capacity p) * pl_page_bytes ?l"
    using lt by (intro mult_le_mono1) simp
  also have "\<dots> = pl_total_bytes ?l" using inv pl_invD(8,9) [OF l] by (simp add: mult.assoc ks_inv_def)
  also have "\<dots> \<le> size_max" by (rule pl_invD(11) [OF l])
  finally have le: "page_index kind (h_id h) ?l * pl_page_bytes ?l \<le> size_max" .
  have "(if kind = Value then pl_cache_bytes ?l else 0) + h_id h * pl_page_bytes ?l =
      page_index kind (h_id h) ?l * pl_page_bytes ?l"
    using k pl_invD(8) [OF l] by (auto simp: page_index_def kind_index_def algebra_simps)
  then show "ks_page_address kind h p s = Inr (page_index kind (h_id h) ?l * pl_page_bytes ?l)"
    using h i k le ks_bases(1) [OF inv]
    by (auto simp: ks_page_address_def pp_id_cases pl_page_byte_offset_def size_wrap_id)
qed

text \<open>A page of memory.\<close>

definition ks_page :: "kv_kind \<Rightarrow> nat \<Rightarrow> paged_kv_storage \<Rightarrow> memory" where
  "ks_page kind i s =
     peek (page_index kind i (ks_layout s) * pl_page_bytes (ks_layout s)) (pl_page_bytes (ks_layout s))
       (gm_base (ks_backing s))"

lemma ks_page_copied:
  assumes inv: "ks_inv p s" and i: "i < 2 * pp_capacity p" and n: "length bs \<le> pl_page_bytes (ks_layout s)"
  defines "s' \<equiv> ks_put_memory (patch (i * pl_page_bytes (ks_layout s)) bs (gm_base (ks_backing s))) s"
  shows "ks_inv p s'"
    and "length bs = pl_page_bytes (ks_layout s) \<Longrightarrow> page_index kind j (ks_layout s) = i \<Longrightarrow> ks_page kind j s' = bs"
    and "page_index kind j (ks_layout s) \<noteq> i \<Longrightarrow> ks_page kind j s' = ks_page kind j s"
proof -
  let ?w = "pl_page_bytes (ks_layout s)" and ?mem = "gm_base (ks_backing s)"
  have len: "length ?mem = (2 * pp_capacity p) * ?w"
    using inv by (simp add: ks_inv_def gm_inv_def)
  have le: "i * ?w + length bs \<le> length ?mem" using block_end [OF i, of ?w] n len by linarith
  show "ks_inv p s'" unfolding s'_def by (rule ks_put_memory_inv [OF inv]) (use le in simp)
  show "ks_page kind j s' = bs" if "length bs = ?w" "page_index kind j (ks_layout s) = i"
    using peek_patch_same [OF le] that by (simp add: ks_page_def s'_def)
  show "ks_page kind j s' = ks_page kind j s" if ne: "page_index kind j (ks_layout s) \<noteq> i"
  proof -
    let ?k = "page_index kind j (ks_layout s)"
    have "?k * ?w + ?w \<le> i * ?w \<or> i * ?w + length bs \<le> ?k * ?w"
      using scaled_disjoint [OF ne, of ?w] n by linarith
    from peek_patch_other [OF le this] show ?thesis by (simp add: ks_page_def s'_def)
  qed
qed

lemma ks_copy_page_cases:
  assumes inv: "ks_inv p s" and k: "kind = Key \<or> kind = Value"
    and live: "0 < pp_refs p source" "0 < pp_refs p destination"
    and c: "ks_copy_page answer kind source destination p s = (r, s')"
  shows "ks_inv p s' \<and> ks_pool s' = ks_pool s \<and> ks_layout s' = ks_layout s \<and>
    (r = Inr () \<longrightarrow> ks_page kind (h_id destination) s' = ks_page kind (h_id source) s) \<and>
    (\<forall>kind' j. page_index kind' j (ks_layout s) \<noteq> page_index kind (h_id destination) (ks_layout s) \<longrightarrow>
       ks_page kind' j s' = ks_page kind' j s)"
proof -
  let ?l = "ks_layout s" and ?w = "pl_page_bytes (ks_layout s)" and ?mem = "gm_base (ks_backing s)"
  note d = ks_page_address_eq [OF inv k live(2)] and src = ks_page_address_eq [OF inv k live(1)]
  let ?d = "page_index kind (h_id destination) ?l" and ?src = "page_index kind (h_id source) ?l"
  have len: "length ?mem = (2 * pp_capacity p) * ?w" using inv by (simp add: ks_inv_def gm_inv_def)
  have room: "?src * ?w + ?w \<le> length ?mem" using block_end [OF src(2), of ?w] len by linarith
  obtain n where n: "n \<le> ?w" "r = Inr () \<Longrightarrow> n = ?w"
    and s': "s' = ks_put_memory (patch (?d * ?w) (peek (?src * ?w) n ?mem) ?mem) s"
  proof (cases answer)
    case None
    then show ?thesis using that [of ?w] c d(1) src(1) by (simp add: ks_copy_page_def device_copy_def Let_def)
  next
    case (Some m)
    then show ?thesis using that [of "min m ?w"] c d(1) src(1) by (auto simp: ks_copy_page_def device_copy_def Let_def)
  qed
  have lb: "length (peek (?src * ?w) n ?mem) = n" using room n(1) by simp
  note pc = ks_page_copied [OF inv d(2), of "peek (?src * ?w) n ?mem"]
  have "ks_page kind (h_id destination) s' = ks_page kind (h_id source) s" if "r = Inr ()"
    using pc(2) [of kind "h_id destination"] lb n(2) [OF that] by (simp add: s' ks_page_def)
  then show ?thesis using pc(1,3) lb n(1) by (simp add: s')
qed

lemma page_index_eq:
  "i < pl_num_blocks l \<Longrightarrow> j < pl_num_blocks l \<Longrightarrow> page_index k i l = page_index k' j l \<Longrightarrow>
     i = j \<and> kind_index k = kind_index k'"
  by (auto simp: page_index_def kind_index_def split: if_splits)

lemma live_id_less: "ks_inv p s \<Longrightarrow> 0 < pp_refs p h \<Longrightarrow> h_id h < pl_num_blocks (ks_layout s)"
  using bm_refs_live [of "pp_manager p" h] by (simp add: ks_inv_def bm_live_def pp_capacity_def bm_capacity_def)

lemma ks_copy_block_cases:
  assumes inv: "ks_inv p s" and c: "ks_copy_block env kc vc source destination p s = (r, s')"
  shows "ks_inv p s' \<and> ks_pool s' = ks_pool s \<and> ks_layout s' = ks_layout s \<and>
    (s' = s \<and> r \<noteq> Inr () \<or>
     0 < pp_refs p source \<and> pp_refs p destination = 1 \<and> \<not> pp_pub p destination \<and> h_id source \<noteq> h_id destination \<and>
     (\<forall>kind j. j < pp_capacity p \<longrightarrow> j \<noteq> h_id destination \<longrightarrow> kind = Key \<or> kind = Value \<longrightarrow>
        ks_page kind j s' = ks_page kind j s) \<and>
     (r = Inr () \<longrightarrow> (\<forall>kind \<in> {Key, Value}. ks_page kind (h_id destination) s' = ks_page kind (h_id source) s)))"
proof -
  define refused where "refused = bind_res (pp_id source p) (\<lambda>source_id.
             bind_res (pp_id destination p) (\<lambda>destination_id.
               if source_id = destination_id then Inr True
               else bind_res (pp_ref_count destination p) (\<lambda>n.
                 if n \<noteq> 1 then Inr True else pp_is_published destination p)))"
  note c' = c [unfolded ks_copy_block_def, folded refused_def]
  show ?thesis
  proof (cases "refused = Inr False \<and> cu_guard env")
    case False
    have "s' = s \<and> r \<noteq> Inr ()" using c' False by (cases refused) (auto split: if_splits)
    then show ?thesis using inv by simp
  next
    case True
    then have rf: "refused = Inr False" by simp
    have live: "0 < pp_refs p source" "pp_refs p destination = 1" "\<not> pp_pub p destination" "h_id source \<noteq> h_id destination"
      using rf unfolding refused_def
      by (auto simp: pp_id_cases pp_ref_count_cases pp_is_published_cases bind_res_Inr_iff split: if_splits)
    then have dl: "0 < pp_refs p destination" by simp
    note ids = live_id_less [OF inv live(1)] live_id_less [OF inv dl]
    have cap: "pl_num_blocks (ks_layout s) = pp_capacity p" using inv by (simp add: ks_inv_def)
    obtain x s1 where k: "ks_copy_page kc Key source destination p s = (x, s1)" by (metis surj_pair)
    have kk: "Key = Key \<or> Key = Value" "Value = Key \<or> Value = Value" by simp_all
    note kp = ks_copy_page_cases [OF inv kk(1) live(1) dl k]
    have idx: "page_index kind j (ks_layout s) \<noteq> page_index k' (h_id destination) (ks_layout s)"
      if "j < pp_capacity p" "j \<noteq> h_id destination" for kind j k'
      using page_index_eq [of j "ks_layout s" "h_id destination"] that ids(2) cap by auto
    have idv: "page_index Value j (ks_layout s) \<noteq> page_index Key (h_id destination) (ks_layout s)"
      "page_index Key j (ks_layout s) \<noteq> page_index Value (h_id destination) (ks_layout s)" if "j < pp_capacity p" for j
      using page_index_eq [of j "ks_layout s" "h_id destination" Value Key]
        page_index_eq [of j "ks_layout s" "h_id destination" Key Value] that ids(2) cap by (auto simp: kind_index_def)
    show ?thesis
    proof (cases x)
      case (Inl e)
      then have "s' = s1" "r = Inl e" using c' True k by auto
      then show ?thesis using kp live idx by auto
    next
      case (Inr u)
      have inv1: "ks_inv p s1" using kp by simp
      obtain y s2 where v: "ks_copy_page vc Value source destination p s1 = (y, s2)" by (metis surj_pair)
      note vp = ks_copy_page_cases [OF inv1 kk(2) live(1) dl v]
      have s': "s' = s2" and ry: "r = Inr () \<Longrightarrow> y = Inr ()"
        using c' True k Inr v by (cases y; auto split: if_splits)+
      have lay: "ks_layout s1 = ks_layout s" using kp by simp
      have other: "ks_page kind j s2 = ks_page kind j s" if "j < pp_capacity p" "j \<noteq> h_id destination" for kind j
        using kp vp idx [OF that] lay by simp
      have "ks_page Key (h_id destination) s2 = ks_page Key (h_id destination) s1"
        using vp idv(2) [of "h_id destination"] lay ids(2) cap by simp
      then have "ks_page Key (h_id destination) s2 = ks_page Key (h_id source) s" using kp Inr by simp
      moreover have "ks_page Value (h_id destination) s2 = ks_page Value (h_id source) s" if "y = Inr ()"
        using kp vp idv(1) [of "h_id source"] ids(1) cap that by simp
      ultimately show ?thesis using kp vp live other s' ry lay by auto
    qed
  qed
qed

section \<open>Properties\<close>

lemma ss_cow_memory:
  assumes "ss_append_token_with_copy grow (Some cp) ((q, p), m) = (r, st', m')"
  shows "m' = m \<or> (\<exists>old new p1 x. pp_allocate p = (Inr new, p1) \<and> cp old new m = (x, m'))"
  using assms
  by (auto simp: ss_append_token_with_copy_def Let_def split: if_splits sum.splits prod.splits bool.splits option.splits)

text \<open>A page fresh from the pool shares its number with no page in use.\<close>

lemma fresh_page:
  assumes "pp_inv p" and "pp_allocate p = (Inr new, p1)" and "0 < pp_refs p h"
  shows "h_id h \<noteq> h_id new"
proof
  assume eq: "h_id h = h_id new"
  note a = pp.alloc_ok [OF assms(1,2)]
  have ne: "h \<noteq> new" using a assms(3) by auto
  then have "pp_live p1 h" "pp_live p1 new" using a assms(3) by (auto intro!: bm_refs_live)
  then have "h = new" using eq by (intro handle_eqI) (auto simp: bm_live_def)
  then show False using ne by simp
qed

lemma append_token_cow_cases:
  assumes "append_token_cow grow env kc vc ((q, p), s) = (r, (q', p'), s')"
  obtains "r = Inl InvalidArgument" "q' = q" "p' = p" "s' = s"
  | "ss_append_token_with_copy grow
       (Some (\<lambda>source destination. ks_copy_block env kc vc source destination (snd (pp_allocate p)))) ((q, p), s) = (r, (q', p'), s')"
proof (cases "\<not> ks_uses_pool (ss_table q) s \<or> pl_block_size (ks_layout s) \<noteq> ss_block_size q")
  case True
  then show thesis using assms that(1) by (simp add: append_token_cow_def)
next
  case False
  then show thesis using assms that(2) by (simp add: append_token_cow_def)
qed

text \<open>Whatever the outcome, pages in use are not written.\<close>

lemma append_token_cow_frame:
  assumes inv: "ss_inv others (q, p)" and kinv: "ks_inv p s"
    and c: "append_token_cow grow env kc vc ((q, p), s) = (r, (q', p'), s')"
  shows "ks_inv p s' \<and> ks_pool s' = ks_pool s \<and> ks_layout s' = ks_layout s \<and>
    (\<forall>h. \<forall>kind \<in> {Key, Value}. 0 < pp_refs p h \<longrightarrow> ks_page kind (h_id h) s' = ks_page kind (h_id h) s)"
proof (cases rule: append_token_cow_cases [OF c])
  case 1
  then show ?thesis using kinv by simp
next
  case 2
  have pinv: "pp_inv p" using bt_invD(1) [OF ss_invD(1) [OF inv]] .
  show ?thesis
    using ss_cow_memory [OF 2]
  proof
    assume "s' = s"
    then show ?thesis using kinv by simp
  next
    assume "\<exists>old new p1 x. pp_allocate p = (Inr new, p1) \<and>
      ks_copy_block env kc vc old new (snd (pp_allocate p)) s = (x, s')"
    then obtain old new p1 x where a: "pp_allocate p = (Inr new, p1)" and k: "ks_copy_block env kc vc old new p1 s = (x, s')"
      by auto
    have p1: "pp_capacity p1 = pp_capacity p" "pp_block_size p1 = pp_block_size p"
      using pp.alloc_ok [OF pinv a] by (simp_all add: bm_config_def pp_capacity_def pp_block_size_def)
    note kc = ks_copy_block_cases [OF ks_inv_pool [OF kinv p1] k]
    have "ks_page kind (h_id h) s' = ks_page kind (h_id h) s" if "0 < pp_refs p h" "kind \<in> {Key, Value}" for h kind
    proof -
      have "h_id h < pp_capacity p1" using live_id_less [OF kinv that(1)] kinv p1 by (simp add: ks_inv_def)
      then show ?thesis using kc fresh_page [OF pinv a that(1)] that(2) by auto
    qed
    then show ?thesis using kc ks_inv_pool [of p1 s' p] p1 by auto
  qed
qed

text \<open>C27: Copy on write keeps everyone's data. Whatever \<open>append_token_cow\<close> does, also when a copy
  or the synchronisation fails half way, no page that anyone holds a reference to has changed;
  when it succeeds on a shared tail, the new tail page holds exactly the keys and values of
  the old one.\<close>

theorem cow_keeps_data:
  assumes "ss_inv others (q, p)" and "ks_inv p s"
    and "append_token_cow grow env kc vc ((q, p), s) = (r, (q', p'), s')"
  shows "ss_inv others (q', p') \<and> ks_inv p' s' \<and>
    (\<forall>h. \<forall>kind \<in> {Key, Value}. 0 < pp_refs p h \<longrightarrow> ks_page kind (h_id h) s' = ks_page kind (h_id h) s) \<and>
    (\<forall>l. r = Inr l \<and> ss_shared_tail (q, p) \<longrightarrow>
       (\<forall>kind \<in> {Key, Value}. ks_page kind (tl_physical_block l) s' =
          ks_page kind (h_id (last (bt_blocks (ss_table q)))) s))"
proof (cases rule: append_token_cow_cases [OF assms(3)])
  case 1
  then show ?thesis using assms by auto
next
  case 2
  have pinv: "pp_inv p" using bt_invD(1) [OF ss_invD(1) [OF assms(1)]] .
  note spec = ss_cow_spec [OF assms(1) 2] and frame = append_token_cow_frame [OF assms]
  have config: "pp_capacity p' = pp_capacity p" "pp_block_size p' = pp_block_size p"
    using spec by (simp_all add: bm_config_def pp_capacity_def pp_block_size_def)
  have "ks_page kind (tl_physical_block l) s' = ks_page kind (h_id (last (bt_blocks (ss_table q)))) s"
    if "r = Inr l" "ss_shared_tail (q, p)" "kind \<in> {Key, Value}" for l kind
  proof -
    let ?new = "last (bt_blocks (ss_table q'))"
    obtain x p1 where a: "pp_allocate p = (x, p1)" by (metis surj_pair)
    have sp: "ks_copy_block env kc vc (last (bt_blocks (ss_table q))) ?new p1 s = (Inr (), s')" "tl_physical_block l = h_id ?new"
      using spec that(1,2) a by auto
    have p1: "pp_config p1 = pp_config p"
      using pp.alloc_ok [OF pinv, of _ p1] pp.alloc_err [OF pinv, of _ p1] a by (cases x) auto
    then have "pp_capacity p1 = pp_capacity p" "pp_block_size p1 = pp_block_size p"
      by (simp_all add: bm_config_def pp_capacity_def pp_block_size_def)
    note inv1 = ks_inv_pool [OF assms(2) this]
    from ks_copy_block_cases [OF inv1 sp(1)] show ?thesis using that(3) sp(2) by auto
  qed
  then show ?thesis using spec frame ks_inv_pool [of p s' p'] config by auto
qed

definition demo_storage :: paged_kv_storage where
  "demo_storage = projr (ks_create good_cuda (\<lambda>i. of_nat i) 0 demo_pool 1 1 Float16 0)"

lemma demo_storage_inv: "ks_inv demo_pool demo_storage"
proof -
  have "\<not> isl (ks_create good_cuda (\<lambda>i. of_nat i) 0 demo_pool 1 1 Float16 0)" by code_simp
  then obtain s where "ks_create good_cuda (\<lambda>i. of_nat i) 0 demo_pool 1 1 Float16 0 = Inr s"
    by (cases "ks_create good_cuda (\<lambda>i. of_nat i) 0 demo_pool 1 1 Float16 0") auto
  then show ?thesis using ks_create_inv by (simp add: demo_storage_def)
qed

lemma cow_keeps_data_witness:
  "let res = append_token_cow (\<lambda>n. False) good_cuda None None ((demo_q, snd demo_fork), demo_storage) in
   fst res = Inr \<lparr>tl_physical_block = 2, tl_offset_in_block = 1\<rparr> \<and>
   ks_page Key 2 (snd (snd res)) = ks_page Key (h_id (last (bt_blocks (ss_table demo_q)))) demo_storage"
proof -
  let ?res = "append_token_cow (\<lambda>n. False) good_cuda None None ((demo_q, snd demo_fork), demo_storage)"
  obtain f p' where f: "ss_fork_shared (\<lambda>n. False) 2 (demo_q, demo_p) = (Inr f, p')"
    "demo_fork = (Inr f, p')" by (rule demo_fork_ok)
  have inv: "ss_inv (\<lambda>h. 0 + count_list (bt_blocks (ss_table f)) h) (demo_q, snd demo_fork)"
    unfolding f(2) snd_conv using ss_fork_spec [OF demo_inv f(1)] by auto
  have "pp_capacity (snd demo_fork) = pp_capacity demo_pool" "pp_block_size (snd demo_fork) = pp_block_size demo_pool"
    by code_simp+
  note sinv = ks_inv_pool [OF demo_storage_inv this]
  obtain r q1 p1 s1 where res: "?res = (r, (q1, p1), s1)" by (cases ?res) auto
  have c: "ss_shared_tail (demo_q, snd demo_fork)" "fst ?res = Inr \<lparr>tl_physical_block = 2, tl_offset_in_block = 1\<rparr>"
    by code_simp+
  then show ?thesis using cow_keeps_data [OF inv sinv res] res by (simp add: Let_def)
qed

end
