(* ===== verification/Paged_Kv_Kernels.thy ===== *)
theory Paged_Kv_Kernels
  imports Paged_Kv_Storage "HOL-Library.Multiset"
begin

text \<open>
  \<open>src/v2/paged_kv_write.cu\<close> and \<open>src/v2/paged_kv_read.cu\<close>: the kernels that scatter new keys and
  values into the pages of a storage and gather those of a sequence, with the checks of their
  host functions. A kernel is the loop body of one element, run for the elements of all threads
  in the order \<open>order\<close> in which the device happens to execute them.
\<close>

section \<open>The grid\<close>

definition launch_blocks :: "nat \<Rightarrow> nat" where
  "launch_blocks total_n =
     (let blocks_needed = total_n div 256 + (if total_n mod 256 \<noteq> 0 then 1 else 0) in min blocks_needed 1024)"

text \<open>
  The elements that one thread visits. A grid without threads is never launched, so the stride
  is positive.
\<close>

function grid_stride_loop :: "nat \<Rightarrow> nat \<Rightarrow> nat \<Rightarrow> nat list" where
  "grid_stride_loop total_n stride index =
     (if index < total_n \<and> 0 < stride then index # grid_stride_loop total_n stride (index + stride) else [])"
  by pat_completeness auto
termination
  by (relation "measure (\<lambda>(total_n, stride, index). total_n - index)") auto

declare grid_stride_loop.simps [simp del]

definition grid_threads :: "nat \<Rightarrow> nat list" where
  "grid_threads total_n =
     concat (map (\<lambda>block. map (\<lambda>thread. block * 256 + thread) [0..<256]) [0..<launch_blocks total_n])"

definition grid_elements :: "nat \<Rightarrow> nat list" where
  "grid_elements total_n =
     concat (map (grid_stride_loop total_n (256 * launch_blocks total_n)) (grid_threads total_n))"

definition is_schedule :: "nat \<Rightarrow> nat list \<Rightarrow> bool" where
  "is_schedule total_n order \<longleftrightarrow> mset order = mset (grid_elements total_n)"

section \<open>Device buffers\<close>

record device_buffer =
  db_address :: nat
  db_on_device :: bool
  db_memory :: memory

abbreviation null_pointer :: "device_buffer \<Rightarrow> bool" where
  "null_pointer b \<equiv> db_address b = 0"

definition validate_device_pointer :: "device_buffer \<Rightarrow> unit res" where
  "validate_device_pointer b = (if \<not> db_on_device b then Inl InvalidArgument else Inr ())"

definition overlaps :: "nat \<Rightarrow> nat \<Rightarrow> nat \<Rightarrow> nat \<Rightarrow> bool" where
  "overlaps first a_bytes second b_bytes =
     (if first \<le> second then second - first < a_bytes else first - second < b_bytes)"

section \<open>Write\<close>

fun kw_check_slots :: "nat \<Rightarrow> nat list \<Rightarrow> nat list \<Rightarrow> unit res" where
  "kw_check_slots slot_count seen [] = Inr ()"
| "kw_check_slots slot_count seen (slot # slots) =
     (if slot \<ge> slot_count then Inl OutOfRange
      else if slot \<in> set seen then Inl InvalidArgument
      else kw_check_slots slot_count (slot # seen) slots)"

definition kw_element :: "nat \<Rightarrow> device_buffer \<Rightarrow> device_buffer \<Rightarrow> nat list \<Rightarrow> nat \<Rightarrow> nat \<Rightarrow> nat \<Rightarrow> nat \<Rightarrow> nat \<Rightarrow>
    nat \<Rightarrow> memory \<Rightarrow> memory" where
  "kw_element width key_new value_new slots key_cache value_cache heads bsize head_size index mem =
     (let elements_per_token = heads * head_size;
          batch_index = index div elements_per_token;
          head = index div head_size mod heads;
          dimension = index mod head_size;
          slot = slots ! batch_index;
          physical_block = slot div bsize;
          token_offset = slot mod bsize;
          cache_index = ((physical_block * heads + head) * bsize + token_offset) * head_size + dimension
      in patch (value_cache + cache_index * width) (peek (index * width) width (db_memory value_new))
           (patch (key_cache + cache_index * width) (peek (index * width) width (db_memory key_new)) mem))"

definition launch_write :: "cuda \<Rightarrow> bool \<Rightarrow> nat list \<Rightarrow> nat \<Rightarrow> device_buffer \<Rightarrow> device_buffer \<Rightarrow> nat list \<Rightarrow> nat \<Rightarrow>
    physical_block_pool \<Rightarrow> paged_kv_storage \<Rightarrow> unit res \<times> paged_kv_storage" where
  "launch_write env launch order width key_new value_new slots total_elements p s =
     (case bind_res (ks_key_base s) (\<lambda>k. bind_res (ks_value_base p s) (\<lambda>v. Inr (k, v))) of
        Inl e \<Rightarrow> (Inl e, s)
      | Inr (key_cache, value_cache) \<Rightarrow>
          if \<not> launch then (Inl RuntimeError, s)
          else if length (db_memory key_new) < total_elements * width \<or> length (db_memory value_new) < total_elements * width
          then (Inl Undefined, s)
          else
            let l = ks_layout s
            in (Inr (), ks_put_memory
                  (fold (kw_element width key_new value_new slots key_cache value_cache
                           (pl_num_kv_heads l) (pl_block_size l) (pl_head_size l))
                     order (gm_base (ks_backing s))) s))"

definition write_paged_kv :: "cuda \<Rightarrow> bool \<Rightarrow> nat list \<Rightarrow> device_buffer \<Rightarrow> device_buffer \<Rightarrow> nat list \<Rightarrow>
    physical_block_pool \<Rightarrow> paged_kv_storage \<Rightarrow> unit res \<times> paged_kv_storage" where
  "write_paged_kv env launch order key_new value_new slot_mapping p s =
     (if slot_mapping = [] then (Inr (), s)
      else if null_pointer key_new \<or> null_pointer value_new then (Inl InvalidArgument, s)
      else
        let l = ks_layout s in
        (case bind_res (kw_check_slots (pl_slot_count l) [] slot_mapping) (\<lambda>_.
                bind_res (checked_multiply (length slot_mapping) (pl_num_kv_heads l)) (\<lambda>n.
                bind_res (checked_multiply n (pl_head_size l)) (\<lambda>total_elements.
                bind_res (checked_multiply total_elements (pl_element_bytes l)) (\<lambda>_.
                bind_res (checked_multiply (length slot_mapping) 8) (\<lambda>slot_bytes.
                  if \<not> cu_guard env then Inl RuntimeError
                  else bind_res (validate_device_pointer key_new) (\<lambda>_.
                    bind_res (validate_device_pointer value_new) (\<lambda>_.
                      if \<not> cu_malloc env then Inl RuntimeError
                      else if cu_copy env \<noteq> None then Inl RuntimeError
                      else bind_res (bytes_for_dtype (pl_dtype l)) (\<lambda>width. Inr (total_elements, width))))))))) of
           Inl e \<Rightarrow> (Inl e, s)
         | Inr (total_elements, width) \<Rightarrow>
             and_then (launch_write env launch order width key_new value_new slot_mapping total_elements p s) (\<lambda>_ s.
               if \<not> cu_sync env then (Inl RuntimeError, s) else (Inr (), s))))"

section \<open>Read\<close>

text \<open>The state is the memory of the two output buffers.\<close>

definition kr_element :: "nat \<Rightarrow> memory \<Rightarrow> nat list \<Rightarrow> nat \<Rightarrow> nat \<Rightarrow> nat \<Rightarrow> nat \<Rightarrow> nat \<Rightarrow> nat \<Rightarrow>
    memory \<times> memory \<Rightarrow> memory \<times> memory" where
  "kr_element width cache blocks key_cache value_cache heads bsize head_size index out =
     (let elements_per_token = heads * head_size;
          token = index div elements_per_token;
          head = index div head_size mod heads;
          dimension = index mod head_size;
          physical_block = blocks ! (token div bsize);
          token_offset = token mod bsize;
          cache_index = ((physical_block * heads + head) * bsize + token_offset) * head_size + dimension
      in (patch (index * width) (peek (key_cache + cache_index * width) width cache) (fst out),
          patch (index * width) (peek (value_cache + cache_index * width) width cache) (snd out)))"

definition launch_read :: "bool \<Rightarrow> nat list \<Rightarrow> nat \<Rightarrow> nat list \<Rightarrow> nat \<Rightarrow> physical_block_pool \<Rightarrow> paged_kv_storage \<Rightarrow>
    memory \<times> memory \<Rightarrow> unit res \<times> memory \<times> memory" where
  "launch_read launch order width blocks total_elements p s out =
     (case bind_res (ks_key_base s) (\<lambda>k. bind_res (ks_value_base p s) (\<lambda>v. Inr (k, v))) of
        Inl e \<Rightarrow> (Inl e, out)
      | Inr (key_cache, value_cache) \<Rightarrow>
          if \<not> launch then (Inl RuntimeError, out)
          else if length (fst out) < total_elements * width \<or> length (snd out) < total_elements * width
          then (Inl Undefined, out)
          else
            let l = ks_layout s
            in (Inr (), fold (kr_element width (gm_base (ks_backing s)) blocks key_cache value_cache
                          (pl_num_kv_heads l) (pl_block_size l) (pl_head_size l)) order out))"

definition read_paged_kv :: "cuda \<Rightarrow> bool \<Rightarrow> nat list \<Rightarrow> nat \<Rightarrow> device_buffer \<Rightarrow> device_buffer \<Rightarrow> seq_state \<Rightarrow>
    paged_kv_storage \<Rightarrow> unit res \<times> memory \<times> memory" where
  "read_paged_kv env launch order cache_address key_out value_out st s =
     (case st of (q, p) \<Rightarrow>
        let l = ks_layout s; out = (db_memory key_out, db_memory value_out) in
        if \<not> ks_uses_pool (ss_table q) s then (Inl InvalidArgument, out)
        else if ss_block_size q \<noteq> pl_block_size l then (Inl InvalidArgument, out)
        else if ss_num_tokens q = 0 then (Inr (), out)
        else if null_pointer key_out \<or> null_pointer value_out then (Inl InvalidArgument, out)
        else
          (case bind_res (build_read_block_table st) (\<lambda>blocks.
                  if \<exists>b \<in> set blocks. b \<ge> pl_num_blocks l then Inl OutOfRange
                  else
                    bind_res (checked_multiply (ss_num_tokens q) (pl_num_kv_heads l)) (\<lambda>n.
                    bind_res (checked_multiply n (pl_head_size l)) (\<lambda>total_elements.
                    bind_res (checked_multiply total_elements (pl_element_bytes l)) (\<lambda>output_bytes.
                    bind_res (checked_multiply (length blocks) 8) (\<lambda>table_bytes.
                      if \<not> cu_guard env then Inl RuntimeError
                      else bind_res (validate_device_pointer key_out) (\<lambda>_.
                        bind_res (validate_device_pointer value_out) (\<lambda>_.
                          if overlaps (db_address key_out) output_bytes (db_address value_out) output_bytes \<or>
                             overlaps (db_address key_out) output_bytes cache_address (pl_total_bytes l) \<or>
                             overlaps (db_address value_out) output_bytes cache_address (pl_total_bytes l)
                          then Inl InvalidArgument
                          else if \<not> cu_malloc env then Inl RuntimeError
                          else if cu_copy env \<noteq> None then Inl RuntimeError
                          else bind_res (bytes_for_dtype (pl_dtype l)) (\<lambda>width. Inr (blocks, total_elements, width))))))))) of
             Inl e \<Rightarrow> (Inl e, out)
           | Inr (blocks, total_elements, width) \<Rightarrow>
               and_then (launch_read launch order width blocks total_elements p s out) (\<lambda>_ out.
                 if \<not> cu_sync env then (Inl RuntimeError, out) else (Inr (), out))))"

section \<open>The grid visits every element once\<close>

lemma grid_stride_loop_elements:
  assumes "0 < stride"
  shows "distinct (grid_stride_loop total_n stride index) \<and>
    (\<forall>j. j \<in> set (grid_stride_loop total_n stride index) \<longleftrightarrow> index \<le> j \<and> j < total_n \<and> j mod stride = index mod stride)"
  using assms
proof (induction total_n stride index rule: grid_stride_loop.induct)
  case (1 total_n stride index)
  show ?case
  proof (cases "index < total_n")
    case False
    then show ?thesis by (auto simp: grid_stride_loop.simps)
  next
    case True
    have ih: "distinct (grid_stride_loop total_n stride (index + stride))"
      "\<And>j. j \<in> set (grid_stride_loop total_n stride (index + stride)) \<longleftrightarrow>
         index + stride \<le> j \<and> j < total_n \<and> j mod stride = index mod stride"
      using 1 True by simp_all
    have "index + stride \<le> j" if "index \<le> j" "j \<noteq> index" "j mod stride = index mod stride" for j
    proof -
      have "stride dvd j - index" using that(1,3) by (metis mod_eq_dvd_iff_nat)
      then show ?thesis using that(1,2) by (auto dest!: dvd_imp_le)
    qed
    then show ?thesis using ih True 1(2) by (subst (1 2) grid_stride_loop.simps) auto
  qed
qed

lemma grid_threads_eq: "grid_threads total_n = [0..<256 * launch_blocks total_n]"
proof -
  have "concat (map (\<lambda>block. map (\<lambda>thread. block * 256 + thread) [0..<256]) [0..<n]) = [0..<256 * n]" for n
  proof (induction n)
    case (Suc n)
    have "map (\<lambda>thread. n * 256 + thread) [0..<256] = [256 * n..<256 * n + 256]"
      by (simp add: map_add_upt add.commute [of "n * 256"] mult.commute)
    moreover have "[0..<256 * Suc n] = [0..<256 * n] @ [256 * n..<256 * n + 256]"
      using upt_add_eq_append [of 0 "256 * n" 256] by (simp add: add.commute)
    ultimately show ?case using Suc by (simp only: upt_Suc_append map_append concat_append list.map concat.simps append_Nil2 le0)
  qed simp
  then show ?thesis by (simp add: grid_threads_def)
qed

lemma launch_blocks_pos: "0 < total_n \<Longrightarrow> 0 < launch_blocks total_n"
  by (auto simp: launch_blocks_def Let_def)

lemma distinct_concat_upt:
  "(\<And>i. i < n \<Longrightarrow> distinct (f i)) \<Longrightarrow> (\<And>i j. i < n \<Longrightarrow> j < n \<Longrightarrow> i \<noteq> j \<Longrightarrow> set (f i) \<inter> set (f j) = {}) \<Longrightarrow>
   distinct (concat (map f [0..<n]))"
proof (induction n)
  case (Suc n)
  have "set (f i) \<inter> set (f n) = {}" if "i < n" for i using Suc.prems(2) [of i n] that by simp
  then have "x \<notin> set (f n)" if "i < n" "x \<in> set (f i)" for i x using that by blast
  then have "set (concat (map f [0..<n])) \<inter> set (f n) = {}" by auto
  moreover have "distinct (concat (map f [0..<n]))" by (rule Suc.IH) (use Suc.prems in auto)
  ultimately show ?case using Suc.prems(1) [of n] by simp
qed simp

lemma grid_elements_all:
  assumes "0 < total_n"
  shows "distinct (grid_elements total_n)" and "set (grid_elements total_n) = {..<total_n}"
proof -
  let ?s = "256 * launch_blocks total_n"
  have s: "0 < ?s" using launch_blocks_pos [OF assms] by simp
  note e = grid_stride_loop_elements [OF s, of total_n]
  show "set (grid_elements total_n) = {..<total_n}"
  proof (rule set_eqI)
    fix j
    have "j \<in> set (grid_elements total_n) \<longleftrightarrow> (\<exists>i < ?s. i \<le> j \<and> j < total_n \<and> j mod ?s = i mod ?s)"
      using e by (auto simp: grid_elements_def grid_threads_eq)
    also have "\<dots> \<longleftrightarrow> j < total_n"
      using s by (auto intro!: exI [of _ "j mod ?s"])
    finally show "j \<in> set (grid_elements total_n) \<longleftrightarrow> j \<in> {..<total_n}" by simp
  qed
  show "distinct (grid_elements total_n)"
    unfolding grid_elements_def grid_threads_eq by (rule distinct_concat_upt) (auto simp: e)
qed

lemma is_schedule_iff:
  "0 < total_n \<Longrightarrow> is_schedule total_n order \<longleftrightarrow> distinct order \<and> set order = {..<total_n}"
  using grid_elements_all [of total_n] unfolding is_schedule_def
  by (metis mset_eq_imp_distinct_iff mset_eq_setD set_eq_iff_mset_eq_distinct)

section \<open>Arrays of elements\<close>

definition store_all :: "nat \<Rightarrow> (nat \<times> memory) list \<Rightarrow> memory \<Rightarrow> memory" where
  "store_all w ws mem = fold (\<lambda>(i, bs) mem. patch (i * w) bs mem) ws mem"

lemma store_all_ok:
  assumes "length mem = n * w" and "\<forall>(i, bs) \<in> set ws. i < n \<and> length bs = w"
  shows "length (store_all w ws mem) = n * w \<and>
    (\<forall>j. j \<notin> fst ` set ws \<longrightarrow> peek (j * w) w (store_all w ws mem) = peek (j * w) w mem) \<and>
    (\<forall>i bs. (i, bs) \<in> set ws \<and> (\<forall>bs'. (i, bs') \<in> set ws \<longrightarrow> bs' = bs) \<longrightarrow>
       peek (i * w) w (store_all w ws mem) = bs)"
  using assms
proof (induction ws arbitrary: mem)
  case Nil
  then show ?case by (simp add: store_all_def)
next
  case (Cons a ws)
  obtain i bs where a: "a = (i, bs)" by (cases a)
  have i: "i < n" "length bs = w" using Cons.prems(2) a by auto
  let ?mem = "patch (i * w) bs mem"
  have len: "length ?mem = n * w" using block_end [OF i(1), of w] i(2) Cons.prems(1) by simp
  have step: "store_all w (a # ws) mem = store_all w ws ?mem" by (simp add: store_all_def a)
  have pk: "peek (j * w) w ?mem = (if j = i then bs else peek (j * w) w mem)" for j
    by (rule peek_blocks [OF Cons.prems(1) i])
  have tl: "\<forall>(i, bs) \<in> set ws. i < n \<and> length bs = w" using Cons.prems(2) by simp
  note ih = Cons.IH [OF len tl]
  have ih: "length (store_all w ws ?mem) = n * w"
    "\<And>j. j \<notin> fst ` set ws \<Longrightarrow> peek (j * w) w (store_all w ws ?mem) = peek (j * w) w ?mem"
    "\<And>j cs. (j, cs) \<in> set ws \<Longrightarrow> \<forall>bs'. (j, bs') \<in> set ws \<longrightarrow> bs' = cs \<Longrightarrow> peek (j * w) w (store_all w ws ?mem) = cs"
    using ih by blast+
  have same: "peek (j * w) w (store_all w ws ?mem) = cs"
    if "(j, cs) \<in> set (a # ws)" "\<forall>bs'. (j, bs') \<in> set (a # ws) \<longrightarrow> bs' = cs" for j cs
  proof (cases "j \<in> fst ` set ws")
    case True
    then obtain ds where "(j, ds) \<in> set ws" by auto
    then show ?thesis using ih(3) [of j cs] that(2) by auto
  next
    case False
    then have "(j, cs) = a" using that(1) by force
    then show ?thesis using ih(2) [OF False] pk a by simp
  qed
  have other: "peek (j * w) w (store_all w ws ?mem) = peek (j * w) w mem" if "j \<notin> fst ` set (a # ws)" for j
    using ih(2) [of j] pk [of j] that a by auto
  show ?case unfolding step
  proof (intro conjI allI impI)
    show "length (store_all w ws ?mem) = n * w" by (rule ih(1))
    show "peek (j * w) w (store_all w ws ?mem) = peek (j * w) w mem" if "j \<notin> fst ` set (a # ws)" for j
      by (rule other [OF that])
    show "peek (j * w) w (store_all w ws ?mem) = cs"
      if "(j, cs) \<in> set (a # ws) \<and> (\<forall>bs'. (j, bs') \<in> set (a # ws) \<longrightarrow> bs' = cs)" for j cs
      using that by (elim conjE) (rule same)
  qed
qed

lemma fold_store_all:
  "(\<And>i mem. f i mem = store_all w (ws i) mem) \<Longrightarrow> fold f xs mem = store_all w (concat (map ws xs)) mem"
  by (induction xs arbitrary: mem) (simp_all add: store_all_def)

lemma arrays_eqI:
  assumes "length a = n * w" "length b = n * w" and "\<And>i. i < n \<Longrightarrow> peek (i * w) w a = peek (i * w) w b"
  shows "a = b"
proof (cases "w = 0")
  case True
  then show ?thesis using assms by simp
next
  case False
  show ?thesis
  proof (rule nth_equalityI)
    fix k assume k: "k < length a"
    have lt: "k div w < n" using k assms(1) by (simp add: less_mult_imp_div_less)
    have le: "k div w * w + w \<le> n * w" using block_end [OF lt] .
    have r: "k = k div w * w + k mod w" "k mod w < w" using False by simp_all
    have nth: "peek (k div w * w) w c ! (k mod w) = c ! k" if "length c = n * w" for c :: memory
    proof -
      have "k div w * w \<le> length c" using le that by linarith
      then show ?thesis using r(2) by (simp add: peek_def)
    qed
    show "a ! k = b ! k" using nth [OF assms(1)] nth [OF assms(2)] assms(3) [OF lt] by metis
  qed (simp add: assms(1,2))
qed

text \<open>The token, head and dimension of an element of a dense tensor.\<close>

lemma tensor_index:
  fixes n heads hs :: nat
  assumes "index < n * heads * hs"
  shows "index div (heads * hs) < n" "index div hs mod heads < heads" "index mod hs < hs"
    and "index = (index div (heads * hs) * heads + index div hs mod heads) * hs + index mod hs"
proof -
  have pos: "0 < heads" "0 < hs" using assms by (auto intro!: Nat.gr0I)
  show "index div (heads * hs) < n" using assms by (simp add: less_mult_imp_div_less mult.assoc)
  show "index div hs mod heads < heads" "index mod hs < hs" using pos by simp_all
  have "index div (heads * hs) = index div hs div heads" by (metis div_mult2_eq mult.commute)
  then show "index = (index div (heads * hs) * heads + index div hs mod heads) * hs + index mod hs" by simp
qed


section \<open>The kernels as array assignments\<close>

lemma kw_check_slots_ok:
  "kw_check_slots n seen slots = Inr () \<longleftrightarrow> (\<forall>s \<in> set slots. s < n \<and> s \<notin> set seen) \<and> distinct slots"
  by (induction slots arbitrary: seen) auto

text \<open>The index in the cache of an element of a new tensor, and of one of a gathered sequence.\<close>

definition kw_index :: "kv_kind \<Rightarrow> nat list \<Rightarrow> paged_kv_layout \<Rightarrow> nat \<Rightarrow> nat" where
  "kw_index kind slots l i =
     (let slot = slots ! (i div (pl_num_kv_heads l * pl_head_size l))
      in pl_index kind (slot div pl_block_size l) (i div pl_head_size l mod pl_num_kv_heads l)
           (slot mod pl_block_size l) (i mod pl_head_size l) l)"

definition kr_index :: "kv_kind \<Rightarrow> nat list \<Rightarrow> paged_kv_layout \<Rightarrow> nat \<Rightarrow> nat" where
  "kr_index kind blocks l i =
     (let token = i div (pl_num_kv_heads l * pl_head_size l)
      in pl_index kind (blocks ! (token div pl_block_size l)) (i div pl_head_size l mod pl_num_kv_heads l)
           (token mod pl_block_size l) (i mod pl_head_size l) l)"

lemma cache_offsets:
  assumes "pl_inv l"
  shows "0 + (((b * pl_num_kv_heads l + h) * pl_block_size l + t) * pl_head_size l + d) * pl_element_bytes l =
      pl_index Key b h t d l * pl_element_bytes l"
    and "pl_cache_bytes l + (((b * pl_num_kv_heads l + h) * pl_block_size l + t) * pl_head_size l + d) * pl_element_bytes l =
      pl_index Value b h t d l * pl_element_bytes l"
  by (simp_all add: pl_index_def pl_coordinate_def kind_index_def pl_invD(7,8) [OF assms] algebra_simps)

lemma kw_element_store:
  assumes "pl_inv l"
  defines "w \<equiv> pl_element_bytes l"
  shows "kw_element w kn vn slots 0 (pl_cache_bytes l) (pl_num_kv_heads l) (pl_block_size l) (pl_head_size l) i mem =
    store_all w [(kw_index Key slots l i, peek (i * w) w (db_memory kn)),
                 (kw_index Value slots l i, peek (i * w) w (db_memory vn))] mem"
  unfolding kw_element_def Let_def w_def cache_offsets [OF assms(1)] by (simp add: store_all_def kw_index_def Let_def)

lemma kw_index_valid:
  assumes "pl_inv l" and "i < length slots * pl_num_kv_heads l * pl_head_size l"
    and "\<forall>s \<in> set slots. s < pl_slot_count l" and "kind = Key \<or> kind = Value"
  shows "pl_valid kind (slots ! (i div (pl_num_kv_heads l * pl_head_size l)) div pl_block_size l)
      (i div pl_head_size l mod pl_num_kv_heads l) (slots ! (i div (pl_num_kv_heads l * pl_head_size l)) mod pl_block_size l)
      (i mod pl_head_size l) l"
proof -
  note t = tensor_index [OF assms(2)]
  have "slots ! (i div (pl_num_kv_heads l * pl_head_size l)) < pl_slot_count l" using assms(3) t(1) by simp
  from pl_slot_split [OF assms(1) this] show ?thesis using t(2,3) assms(4) by (simp add: pl_valid_def)
qed

lemma kw_index_inj:
  assumes inv: "pl_inv l" and i: "i < length slots * pl_num_kv_heads l * pl_head_size l"
    and j: "j < length slots * pl_num_kv_heads l * pl_head_size l"
    and ok: "\<forall>s \<in> set slots. s < pl_slot_count l" "distinct slots"
    and k: "kind = Key \<or> kind = Value" "kind' = Key \<or> kind' = Value"
    and eq: "kw_index kind slots l i = kw_index kind' slots l j"
  shows "kind = kind' \<and> i = j"
proof -
  let ?n = "pl_num_kv_heads l * pl_head_size l"
  from pl_index_inject [OF kw_index_valid [OF inv i ok(1) k(1)] kw_index_valid [OF inv j ok(1) k(2)]] eq
  have e: "kind = kind'" "slots ! (i div ?n) div pl_block_size l = slots ! (j div ?n) div pl_block_size l"
    "slots ! (i div ?n) mod pl_block_size l = slots ! (j div ?n) mod pl_block_size l"
    "i div pl_head_size l mod pl_num_kv_heads l = j div pl_head_size l mod pl_num_kv_heads l"
    "i mod pl_head_size l = j mod pl_head_size l"
    by (simp_all add: kw_index_def Let_def)
  have "slots ! (i div ?n) = slots ! (j div ?n)" using e(2,3) by (metis div_mult_mod_eq)
  then have "i div ?n = j div ?n"
    using nth_eq_iff_index_eq [OF ok(2) tensor_index(1) [OF i] tensor_index(1) [OF j]] by simp
  then have "i = j" using tensor_index(4) [OF i] tensor_index(4) [OF j] e(4,5) by metis
  then show ?thesis using e(1) by simp
qed

lemma launch_write_ok:
  assumes inv: "ks_inv p s" and w: "w = pl_element_bytes (ks_layout s)"
    and r: "launch_write env launch order w kn vn slots n p s = (Inr (), s')"
    and n: "n = length slots * pl_num_kv_heads (ks_layout s) * pl_head_size (ks_layout s)"
    and order: "set order = {..<n}" and ok: "\<forall>s' \<in> set slots. s' < pl_slot_count (ks_layout s)" "distinct slots"
  shows "ks_inv p s'" and "ks_pool s' = ks_pool s" and "ks_layout s' = ks_layout s"
    and "\<And>i. i < n \<Longrightarrow> ks_elem (kw_index Key slots (ks_layout s) i) s' = peek (i * w) w (db_memory kn)"
    and "\<And>i. i < n \<Longrightarrow> ks_elem (kw_index Value slots (ks_layout s) i) s' = peek (i * w) w (db_memory vn)"
    and "\<And>k. (\<And>i. i < n \<Longrightarrow> k \<noteq> kw_index Key slots (ks_layout s) i \<and> k \<noteq> kw_index Value slots (ks_layout s) i) \<Longrightarrow>
      ks_elem k s' = ks_elem k s"
proof -
  let ?l = "ks_layout s"
  have l: "pl_inv ?l" using inv by (simp add: ks_inv_def)
  let ?ws = "concat (map (\<lambda>i. [(kw_index Key slots ?l i, peek (i * w) w (db_memory kn)),
                 (kw_index Value slots ?l i, peek (i * w) w (db_memory vn))]) order)"
  let ?mem = "gm_base (ks_backing s)"
  have long: "n * w \<le> length (db_memory kn)" "n * w \<le> length (db_memory vn)"
    and s': "s' = ks_put_memory (store_all w ?ws ?mem) s"
    using r ks_bases [OF inv] fold_store_all [where f = "kw_element w kn vn slots 0 (pl_cache_bytes ?l)
        (pl_num_kv_heads ?l) (pl_block_size ?l) (pl_head_size ?l)", OF kw_element_store [OF l, of kn vn slots, folded w]]
    by (auto simp: launch_write_def Let_def split: if_splits)
  have kk: "Key = Key \<or> Key = Value" "Value = Key \<or> Value = Value" by simp_all
  have less: "kw_index kind slots ?l i < 2 * pl_elements ?l" if "i < n" "kind = Key \<or> kind = Value" for i kind
    using pl_index_less [OF kw_index_valid [OF l that(1) [unfolded n] ok(1) that(2)]] by (simp add: kw_index_def Let_def)
  have len: "length (peek (i * w) w (db_memory b)) = w" if "i < n" "n * w \<le> length (db_memory b)" for i b
    using block_end [OF that(1), of w] that(2) by simp
  have "\<forall>(i, bs) \<in> set ?ws. i < 2 * pl_elements ?l \<and> length bs = w"
    using order less len long by auto
  note so = store_all_ok [OF ks_memory_length [OF inv, folded w] this]
  have st1: "length (store_all w ?ws ?mem) = length ?mem"
    using conjunct1 [OF so] ks_memory_length [OF inv, folded w] by (rule trans [OF _ sym])
  note st2 = so [THEN conjunct2, THEN conjunct1, rule_format]
  note st3 = so [THEN conjunct2, THEN conjunct2, rule_format, OF conjI, OF _ allI, OF _ impI]
  show "ks_inv p s'" unfolding s' using ks_put_memory_inv [OF inv st1] .
  show "ks_pool s' = ks_pool s" "ks_layout s' = ks_layout s" by (simp_all add: s')
  have elem: "ks_elem k s' = peek (k * w) w (store_all w ?ws ?mem)" for k by (simp add: ks_elem_def s' w)
  note inj = kw_index_inj [OF l _ _ ok, folded n]
  show "ks_elem (kw_index Key slots ?l i) s' = peek (i * w) w (db_memory kn)" if i: "i < n" for i
    unfolding elem
  proof (rule st3)
    show "(kw_index Key slots ?l i, peek (i * w) w (db_memory kn)) \<in> set ?ws" using i order by auto
    show "bs' = peek (i * w) w (db_memory kn)" if "(kw_index Key slots ?l i, bs') \<in> set ?ws" for bs'
      using that order inj [OF i _ kk(1) kk(1)] inj [OF i _ kk(1) kk(2)] by auto
  qed
  show "ks_elem (kw_index Value slots ?l i) s' = peek (i * w) w (db_memory vn)" if i: "i < n" for i
    unfolding elem
  proof (rule st3)
    show "(kw_index Value slots ?l i, peek (i * w) w (db_memory vn)) \<in> set ?ws" using i order by auto
    show "bs' = peek (i * w) w (db_memory vn)" if "(kw_index Value slots ?l i, bs') \<in> set ?ws" for bs'
      using that order inj [OF i _ kk(2) kk(1)] inj [OF i _ kk(2) kk(2)] by auto
  qed
  show "ks_elem k s' = ks_elem k s"
    if "\<And>i. i < n \<Longrightarrow> k \<noteq> kw_index Key slots ?l i \<and> k \<noteq> kw_index Value slots ?l i" for k
  proof -
    have "fst ` set ?ws = kw_index Key slots ?l ` set order \<union> kw_index Value slots ?l ` set order"
      by (induction order) auto
    then have "k \<notin> fst ` set ?ws" using that order by blast
    from st2 [OF this] show ?thesis unfolding elem by (simp add: ks_elem_def w)
  qed
qed


lemma take_patch:
  assumes "off + length d \<le> n"
  shows "take n (patch off d mem) = patch off d (take n mem)"
proof -
  have "take (n - (off + length d)) (drop (off + length d) mem) = drop (off + length d) (take n mem)"
    by (simp add: drop_take)
  then show ?thesis using assms by (cases "n = off") (auto simp: patch_def min_def)
qed

lemma store_all_take:
  assumes "\<forall>(i, bs) \<in> set ws. i < n \<and> length bs = w" and "n * w \<le> length mem"
  shows "take (n * w) (store_all w ws mem) = store_all w ws (take (n * w) mem)"
  using assms
proof (induction ws arbitrary: mem)
  case Nil
  then show ?case by (simp add: store_all_def)
next
  case (Cons a ws)
  obtain i bs where a: "a = (i, bs)" by (cases a)
  have i: "i < n" "length bs = w" using Cons.prems(1) a by auto
  have le: "i * w + length bs \<le> n * w" using block_end [OF i(1), of w] i(2) by simp
  have step: "store_all w (a # ws) m = store_all w ws (patch (i * w) bs m)" for m
    by (simp add: store_all_def a)
  have tl: "\<forall>(i, bs) \<in> set ws. i < n \<and> length bs = w" using Cons.prems(1) by simp
  show ?case unfolding step
    using Cons.IH [OF tl, of "patch (i * w) bs mem"] le Cons.prems(2) by (simp add: take_patch)
qed

lemma peek_take: "off + n \<le> m \<Longrightarrow> peek off n (take m mem) = peek off n mem"
  by (simp add: peek_def drop_take min_def)

lemma fold_pair: "fold (\<lambda>i (a, b). (f i a, g i b)) xs (a, b) = (fold f xs a, fold g xs b)"
  by (induction xs arbitrary: a b) simp_all

lemma fold_singletons:
  "fold (\<lambda>i. patch (i * w) (h i)) xs mem = store_all w (map (\<lambda>i. (i, h i)) xs) mem"
  by (induction xs arbitrary: mem) (simp_all add: store_all_def)

lemma gather_ok:
  assumes "set order = {..<n}" and "\<And>i. i < n \<Longrightarrow> length (h i) = w" and "n * w \<le> length mem" and "i < n"
  shows "peek (i * w) w (fold (\<lambda>i. patch (i * w) (h i)) order mem) = h i"
proof -
  let ?ws = "map (\<lambda>i. (i, h i)) order"
  have ok: "\<forall>(i, bs) \<in> set ?ws. i < n \<and> length bs = w" using assms(1,2) by auto
  have len: "length (take (n * w) mem) = n * w" using assms(3) by simp
  note so = store_all_ok [OF len ok]
  have "peek (i * w) w (store_all w ?ws (take (n * w) mem)) = h i"
    by (rule so [THEN conjunct2, THEN conjunct2, rule_format]) (use assms(1,4) in auto)
  then show ?thesis
    using store_all_take [OF ok assms(3)] peek_take [OF block_end [OF assms(4), of w]]
    by (metis fold_singletons)
qed

lemma gather_length:
  assumes "set order = {..<n}" and "\<And>i. i < n \<Longrightarrow> length (h i) = w" and "n * w \<le> length mem"
  shows "n * w \<le> length (fold (\<lambda>i. patch (i * w) (h i)) order mem)"
proof -
  let ?ws = "map (\<lambda>i. (i, h i)) order"
  have ok: "\<forall>(i, bs) \<in> set ?ws. i < n \<and> length bs = w" using assms(1,2) by auto
  have "length (take (n * w) mem) = n * w" using assms(3) by simp
  from conjunct1 [OF store_all_ok [OF this ok]] have "length (take (n * w) (store_all w ?ws mem)) = n * w"
    unfolding store_all_take [OF ok assms(3)] .
  then show ?thesis unfolding fold_singletons by simp
qed

lemma launch_read_ok:
  assumes inv: "ks_inv p s" and w: "w = pl_element_bytes (ks_layout s)"
    and r: "launch_read launch order w blocks n p s out = (Inr (), (ko, vo))"
    and order: "set order = {..<n}" and i: "i < n"
    and valid: "\<And>i kind. i < n \<Longrightarrow> kind = Key \<or> kind = Value \<Longrightarrow> kr_index kind blocks (ks_layout s) i < 2 * pl_elements (ks_layout s)"
  shows "peek (i * w) w ko = ks_elem (kr_index Key blocks (ks_layout s) i) s"
    and "peek (i * w) w vo = ks_elem (kr_index Value blocks (ks_layout s) i) s"
    and "n * w \<le> length ko" and "n * w \<le> length vo"
proof -
  let ?l = "ks_layout s" and ?mem = "gm_base (ks_backing s)"
  have l: "pl_inv ?l" using inv by (simp add: ks_inv_def)
  let ?h = "\<lambda>kind i. peek (kr_index kind blocks ?l i * w) w ?mem"
  have el: "kr_element w ?mem blocks 0 (pl_cache_bytes ?l) (pl_num_kv_heads ?l) (pl_block_size ?l) (pl_head_size ?l) =
      (\<lambda>i (a, b). (patch (i * w) (?h Key i) a, patch (i * w) (?h Value i) b))"
    unfolding kr_element_def Let_def w cache_offsets [OF l] by (auto simp: fun_eq_iff kr_index_def Let_def)
  obtain a b where ab: "out = (a, b)" by (cases out)
  have long: "n * w \<le> length a" "n * w \<le> length b"
    and ko: "ko = fold (\<lambda>i. patch (i * w) (?h Key i)) order a" and vo: "vo = fold (\<lambda>i. patch (i * w) (?h Value i)) order b"
    using r ks_bases [OF inv] by (auto simp: launch_read_def Let_def el fold_pair ab split: if_splits)
  have len: "length (?h kind i) = w" if "i < n" "kind = Key \<or> kind = Value" for i kind
    using block_end [OF valid [OF that], of w] ks_memory_length [OF inv, folded w] by simp
  have lens: "length (?h Key i) = w" "length (?h Value i) = w" if "i < n" for i using len [OF that] by simp_all
  show "peek (i * w) w ko = ks_elem (kr_index Key blocks ?l i) s"
    unfolding ko using gather_ok [OF order lens(1) long(1) i] by (simp add: ks_elem_def w)
  show "peek (i * w) w vo = ks_elem (kr_index Value blocks ?l i) s"
    unfolding vo using gather_ok [OF order lens(2) long(2) i] by (simp add: ks_elem_def w)
  show "n * w \<le> length ko" unfolding ko using gather_length [OF order lens(1) long(1)] .
  show "n * w \<le> length vo" unfolding vo using gather_length [OF order lens(2) long(2)] .
qed

text \<open>What the host functions establish before they launch.\<close>

lemma write_paged_kv_launches:
  assumes inv: "ks_inv p s" and r: "write_paged_kv env launch order kn vn slots p s = (Inr (), s')" and ne: "slots \<noteq> []"
  defines "l \<equiv> ks_layout s" defines "n \<equiv> length slots * pl_num_kv_heads l * pl_head_size l"
  shows "launch_write env launch order (pl_element_bytes l) kn vn slots n p s = (Inr (), s')"
    and "\<forall>s \<in> set slots. s < pl_slot_count l" and "distinct slots"
proof -
  have l: "pl_inv l" using inv by (simp add: ks_inv_def l_def)
  note dt = pl_invD(6) [OF l]
  have "kw_check_slots (pl_slot_count l) [] slots = Inr ()"
    using r ne unfolding write_paged_kv_def Let_def
    by (auto simp: bind_res_Inr_iff l_def [symmetric] split: if_splits sum.splits)
  then show "\<forall>s \<in> set slots. s < pl_slot_count l" "distinct slots" by (simp_all add: kw_check_slots_ok)
  show "launch_write env launch order (pl_element_bytes l) kn vn slots n p s = (Inr (), s')"
    using r ne dt unfolding write_paged_kv_def Let_def n_def
    by (auto simp: bind_res_Inr_iff and_then_Inr_iff checked_multiply_iff l_def [symmetric] split: if_splits sum.splits)
qed

lemma read_paged_kv_launches:
  assumes inv: "ks_inv p s" and own: "ss_owned r p q"
    and r: "read_paged_kv env launch order base ko vo (q, p) s = (Inr (), out)" and ne: "ss_num_tokens q \<noteq> 0"
  defines "l \<equiv> ks_layout s" defines "n \<equiv> ss_num_tokens q * pl_num_kv_heads l * pl_head_size l"
  shows "launch_read launch order (pl_element_bytes l) (map (ss_page q) [0..<ss_num_allocated_blocks q]) n p s
      (db_memory ko, db_memory vo) = (Inr (), out)"
proof -
  have l: "pl_inv l" using inv by (simp add: ks_inv_def l_def)
  note dt = pl_invD(6) [OF l]
  show ?thesis
    using r ne dt build_read_block_table_ok [OF own] unfolding read_paged_kv_def Let_def n_def
    by (auto simp: bind_res_Inr_iff and_then_Inr_iff checked_multiply_iff l_def [symmetric] split: if_splits sum.splits)
qed


section \<open>Properties\<close>

text \<open>C28: The grid of every launch terminates and covers its work: all threads together visit each
  element exactly once, however many elements there are, with at most 1024 blocks of 256
  threads.\<close>

theorem grid_visits_once:
  "mset (grid_elements n) = mset [0..<n] \<and> length (grid_threads n) \<le> 1024 * 256"
proof
  have "mset (grid_elements n) = mset [0..<n]" if "0 < n"
    using grid_elements_all [OF that] set_eq_iff_mset_eq_distinct [of "grid_elements n" "[0..<n]"]
    by (simp add: atLeast0LessThan)
  moreover have "grid_elements 0 = []" by (simp add: grid_elements_def grid_threads_eq launch_blocks_def Let_def)
  ultimately show "mset (grid_elements n) = mset [0..<n]" by (cases "n = 0") auto
  show "length (grid_threads n) \<le> 1024 * 256" by (simp add: grid_threads_eq launch_blocks_def Let_def)
qed

lemma sequence_indices:
  assumes own: "ss_owned r p q" and inv: "ks_inv p s"
    and i: "i < ss_num_tokens q * pl_num_kv_heads (ks_layout s) * pl_head_size (ks_layout s)"
  shows "kr_index kind (map (ss_page q) [0..<ss_num_allocated_blocks q]) (ks_layout s) i =
    kw_index kind (map (ss_slot q) [0..<ss_num_tokens q]) (ks_layout s) i"
proof -
  let ?t = "i div (pl_num_kv_heads (ks_layout s) * pl_head_size (ks_layout s))"
  have t: "?t < ss_num_tokens q" using tensor_index(1) [OF i] .
  have b: "pl_block_size (ks_layout s) = ss_block_size q" using inv ss_ownedD(1) [OF own] by (simp add: ks_inv_def)
  show ?thesis
    using t ss_position_block [OF own t] ss_slot_split [OF own, of ?t] by (simp add: kr_index_def kw_index_def Let_def b)
qed

lemma element_cut: "i < n \<Longrightarrow> peek (i * w) w (take (n * w) mem) = peek (i * w) w mem"
  by (rule peek_take) (rule block_end)

text \<open>C29: What is written through a slot mapping is what the sequence reads: after the keys and values
  of all tokens of a sequence have been written to the slots that \<open>build_slot_mapping\<close> assigned,
  \<open>read_paged_kv\<close> returns exactly these tensors, byte for byte, for every page table, layout and
  order in which the device runs the threads of the two kernels.\<close>

theorem kv_write_read:
  assumes "ss_owned r p q" and "ks_inv p s"
    and "build_slot_mapping (map (\<lambda>i. \<lparr>tw_sequence = Some q, tw_token_position = i\<rparr>) [0..<ss_num_tokens q]) p = Inr slots"
    and "write_paged_kv env launch order kn vn slots p s = (Inr (), s1)"
    and "read_paged_kv env' launch' order' base ko vo (q, p) s1 = (Inr (), (k, v))"
    and "n = ss_num_tokens q * pl_num_kv_heads (ks_layout s) * pl_head_size (ks_layout s)"
    and "is_schedule n order" and "is_schedule n order'"
    and "pp_capacity p * pp_block_size p \<le> u64_max"
  shows "take (n * pl_element_bytes (ks_layout s)) k = take (n * pl_element_bytes (ks_layout s)) (db_memory kn) \<and>
    take (n * pl_element_bytes (ks_layout s)) v = take (n * pl_element_bytes (ks_layout s)) (db_memory vn)"
proof (cases "ss_num_tokens q = 0")
  case True
  then show ?thesis by (simp add: assms(6))
next
  case False
  let ?l = "ks_layout s" and ?w = "pl_element_bytes (ks_layout s)"
  have l: "pl_inv ?l" using assms(2) by (simp add: ks_inv_def)
  have n: "0 < n" using False pl_invD(2,4) [OF l] by (simp add: assms(6))
  have ord: "set order = {..<n}" "set order' = {..<n}" using assms(7,8) is_schedule_iff [OF n] by auto
  have slots: "slots = map (ss_slot q) [0..<ss_num_tokens q]"
    using build_slot_mapping_ok [OF _ assms(9), of "map (\<lambda>i. \<lparr>tw_sequence = Some q, tw_token_position = i\<rparr>) [0..<ss_num_tokens q]" r]
      assms(1,3) by (auto simp: comp_def split: if_splits)
  have ne: "slots \<noteq> []" and len: "length slots = ss_num_tokens q" using False slots by simp_all
  note wl = write_paged_kv_launches [OF assms(2,4) ne]
  note ok = launch_write_ok [OF assms(2) refl wl(1) _ _ wl(2,3), unfolded len, folded assms(6), OF refl ord(1)]
  have lay: "ks_layout s1 = ?l" and inv1: "ks_inv p s1" by (rule ok(3), rule ok(1))
  note rl = read_paged_kv_launches [OF inv1 assms(1,5) False, unfolded lay, folded assms(6)]
  have idx: "kr_index kind (map (ss_page q) [0..<ss_num_allocated_blocks q]) ?l i = kw_index kind slots ?l i" if "i < n" for kind i
    using sequence_indices [OF assms(1,2)] that by (simp add: assms(6) slots)
  have less: "kw_index kind slots ?l i < 2 * pl_elements ?l" if "i < n" "kind = Key \<or> kind = Value" for kind i
    using pl_index_less [OF kw_index_valid [OF l _ wl(2) that(2), unfolded len, folded assms(6), OF that(1)]]
    by (simp add: kw_index_def Let_def)
  note rd = launch_read_ok [OF inv1 _ rl ord(2), unfolded lay, OF refl]
  have k: "peek (i * ?w) ?w k = peek (i * ?w) ?w (db_memory kn)"
    and v: "peek (i * ?w) ?w v = peek (i * ?w) ?w (db_memory vn)" if i: "i < n" for i
    using rd [OF i] ok(4,5) [OF i] idx [OF i] idx less by simp_all
  have long: "n * ?w \<le> length (db_memory kn)" "n * ?w \<le> length (db_memory vn)"
    using wl(1) ks_bases [OF assms(2)] by (auto simp: launch_write_def len assms(6) split: if_splits)
  have outl: "n * ?w \<le> length k" "n * ?w \<le> length v"
    using rd(3,4) [OF n] less idx by simp_all
  show ?thesis
  proof
    show "take (n * ?w) k = take (n * ?w) (db_memory kn)"
      by (rule arrays_eqI [of _ n ?w]) (use long outl k in \<open>simp_all add: element_cut\<close>)
    show "take (n * ?w) v = take (n * ?w) (db_memory vn)"
      by (rule arrays_eqI [of _ n ?w]) (use long outl v in \<open>simp_all add: element_cut\<close>)
  qed
qed

definition demo_buffer :: "nat \<Rightarrow> 8 word list \<Rightarrow> device_buffer" where
  "demo_buffer address bytes = \<lparr>db_address = address, db_on_device = True, db_memory = bytes\<rparr>"

lemma kv_write_read_witness:
  "let new_k = demo_buffer 1000 [1, 2, 3, 4, 5, 6]; new_v = demo_buffer 2000 [7, 8, 9, 10, 11, 12];
       out = demo_buffer 3000 (replicate 6 0); out' = demo_buffer 4000 (replicate 6 0);
       s1 = snd (write_paged_kv good_cuda True [2, 0, 1] new_k new_v [0, 1, 2] demo_p demo_storage)
   in read_paged_kv good_cuda True [1, 2, 0] 100000 out out' (demo_q, demo_p) s1 =
      (Inr (), ([1, 2, 3, 4, 5, 6], [7, 8, 9, 10, 11, 12]))"
proof -
  let ?k = "demo_buffer 1000 [1, 2, 3, 4, 5, 6]" and ?v = "demo_buffer 2000 [7, 8, 9, 10, 11, 12]"
  let ?o = "demo_buffer 3000 (replicate 6 0)" and ?o' = "demo_buffer 4000 (replicate 6 0)"
  let ?w = "write_paged_kv good_cuda True [2, 0, 1] ?k ?v [0, 1, 2] demo_p demo_storage"
  let ?r = "read_paged_kv good_cuda True [1, 2, 0] 100000 ?o ?o' (demo_q, demo_p) (snd ?w)"
  have p: "pp_capacity demo_p = pp_capacity demo_pool" "pp_block_size demo_p = pp_block_size demo_pool"
    "pp_capacity demo_p * pp_block_size demo_p \<le> u64_max" by code_simp+
  note inv = ks_inv_pool [OF demo_storage_inv p(1,2)]
  have b: "build_slot_mapping (map (\<lambda>i. \<lparr>tw_sequence = Some demo_q, tw_token_position = i\<rparr>) [0..<ss_num_tokens demo_q]) demo_p =
      Inr [0, 1, 2]" by code_simp
  have n: "3 = ss_num_tokens demo_q * pl_num_kv_heads (ks_layout demo_storage) * pl_head_size (ks_layout demo_storage)"
    "pl_element_bytes (ks_layout demo_storage) = 2" by code_simp+
  have sch: "is_schedule 3 [2, 0, 1]" "is_schedule 3 [1, 2, 0]"
    by (auto simp: is_schedule_iff)
  have ok: "fst ?w = Inr ()" "fst ?r = Inr ()" "length (fst (snd ?r)) = 6" "length (snd (snd ?r)) = 6"
    by code_simp+
  have w: "?w = (Inr (), snd ?w)" and r: "?r = (Inr (), (fst (snd ?r), snd (snd ?r)))"
    using ok by (metis prod.collapse)+
  note kv_write_read [OF demo_owned inv b w r n(1) sch p(3)]
  then have "fst (snd ?r) = [1, 2, 3, 4, 5, 6] \<and> snd (snd ?r) = [7, 8, 9, 10, 11, 12]"
    using ok(3,4) by (simp add: n(2) demo_buffer_def)
  then show ?thesis using r by (simp add: Let_def)
qed

end
