(* ===== verification/Paged_Attention.thy ===== *)
theory Paged_Attention
  imports Paged_Kv_Kernels Complex_Main
begin

text \<open>
  \<open>src/v2/reference_attention.cpp\<close> and \<open>src/v2/paged_attention.cu\<close>: the attention of a
  sequence, as the slow reference on dense tensors and as the kernels that read the pages and
  compute the softmax in one pass. The floating-point operations are the components of a
  record, so that everything that does not depend on rounding holds for the arithmetic of any
  device; \<open>exact\<close> is the record of the real numbers.
\<close>

section \<open>Arithmetic\<close>

text \<open>
  \<open>'f\<close> is \<open>float\<close> and \<open>'d\<close> is \<open>double\<close>. A compiler may contract \<open>x * y + z\<close> to one
  operation, so it is one here. \<open>ar_decode\<close> converts the bytes of an element of the cache.
\<close>

record ('f, 'd) arith =
  ar_widen :: "'f \<Rightarrow> 'd"
  ar_narrow :: "'d \<Rightarrow> 'f"
  ar_of_nat :: "nat \<Rightarrow> 'd"
  ar_minus_infinity :: 'd
  ar_muladd :: "'d \<Rightarrow> 'd \<Rightarrow> 'd \<Rightarrow> 'd"
  ar_add :: "'d \<Rightarrow> 'd \<Rightarrow> 'd"
  ar_sub :: "'d \<Rightarrow> 'd \<Rightarrow> 'd"
  ar_mul :: "'d \<Rightarrow> 'd \<Rightarrow> 'd"
  ar_div :: "'d \<Rightarrow> 'd \<Rightarrow> 'd"
  ar_less :: "'d \<Rightarrow> 'd \<Rightarrow> bool"
  ar_exp :: "'d \<Rightarrow> 'd"
  ar_sqrt :: "'d \<Rightarrow> 'd"
  ar_isfinite :: "'f \<Rightarrow> bool"
  ar_decode :: "dtype \<Rightarrow> memory \<Rightarrow> 'f"

definition attention_scale :: "('f, 'd) arith \<Rightarrow> nat \<Rightarrow> 'd" where
  "attention_scale ar head_size = ar_div ar (ar_of_nat ar 1) (ar_sqrt ar (ar_of_nat ar head_size))"

section \<open>The reference\<close>

record attention_shape =
  as_query_tokens :: nat
  as_kv_tokens :: nat
  as_query_heads :: nat
  as_kv_heads :: nat
  as_head_size :: nat

definition check_finite :: "('f, 'd) arith \<Rightarrow> 'f list \<Rightarrow> unit res" where
  "check_finite ar tensor = (if \<exists>x \<in> set tensor. \<not> ar_isfinite ar x then Inl InvalidArgument else Inr ())"

definition ref_score :: "('f, 'd) arith \<Rightarrow> 'f list \<Rightarrow> 'f list \<Rightarrow> attention_shape \<Rightarrow> nat \<Rightarrow> nat \<Rightarrow> nat \<Rightarrow> 'd" where
  "ref_score ar query key_t sh q_offset kv_head kv_token =
     (let k_offset = (kv_token * as_kv_heads sh + kv_head) * as_head_size sh;
          dot = fold (\<lambda>d dot. ar_muladd ar (ar_widen ar (query ! (q_offset + d))) (ar_widen ar (key_t ! (k_offset + d))) dot)
                  [0..<as_head_size sh] (ar_of_nat ar 0)
      in ar_mul ar dot (attention_scale ar (as_head_size sh)))"

text \<open>The first loop over the tokens: the scores and their maximum.\<close>

definition ref_scores :: "('f, 'd) arith \<Rightarrow> 'f list \<Rightarrow> 'f list \<Rightarrow> attention_shape \<Rightarrow> nat \<Rightarrow> nat \<Rightarrow> nat \<Rightarrow>
    'd list \<Rightarrow> 'd list \<times> 'd" where
  "ref_scores ar query key_t sh q_offset kv_head last_visible scores =
     fold (\<lambda>kv_token (scores, maximum).
             let score = ref_score ar query key_t sh q_offset kv_head kv_token
             in (scores[kv_token := score], if ar_less ar maximum score then score else maximum))
       [0..<Suc last_visible] (scores, ar_minus_infinity ar)"

text \<open>The second: the weights and the denominator.\<close>

definition ref_weights :: "('f, 'd) arith \<Rightarrow> nat \<Rightarrow> 'd list \<times> 'd \<Rightarrow> 'd list \<times> 'd" where
  "ref_weights ar last_visible st =
     (case st of (scores, maximum) \<Rightarrow>
        fold (\<lambda>kv_token (scores, denominator).
                let weight = ar_exp ar (ar_sub ar (scores ! kv_token) maximum)
                in (scores[kv_token := weight], ar_add ar denominator weight))
          [0..<Suc last_visible] (scores, ar_of_nat ar 0))"

definition ref_output :: "('f, 'd) arith \<Rightarrow> 'f list \<Rightarrow> attention_shape \<Rightarrow> nat \<Rightarrow> nat \<Rightarrow> 'd list \<times> 'd \<Rightarrow> nat \<Rightarrow> 'f" where
  "ref_output ar value_t sh kv_head last_visible st d =
     (case st of (weights, denominator) \<Rightarrow>
        ar_narrow ar (fold (\<lambda>kv_token result.
            let v_offset = (kv_token * as_kv_heads sh + kv_head) * as_head_size sh
            in ar_muladd ar (ar_div ar (weights ! kv_token) denominator) (ar_widen ar (value_t ! (v_offset + d))) result)
          [0..<Suc last_visible] (ar_of_nat ar 0)))"

text \<open>
  The body of the loop over the heads of a query token. The vector of the scores lives across
  the iterations; only its first \<open>last_visible + 1\<close> entries are used, after they are written.
\<close>

definition ref_head :: "('f, 'd) arith \<Rightarrow> 'f list \<Rightarrow> 'f list \<Rightarrow> 'f list \<Rightarrow> attention_shape \<Rightarrow> nat \<Rightarrow> nat \<Rightarrow>
    'd list \<times> 'f list \<Rightarrow> 'd list \<times> 'f list" where
  "ref_head ar query key_t value_t sh q_token q_head st =
     (case st of (scores, output) \<Rightarrow>
        let last_visible = as_kv_tokens sh - as_query_tokens sh + q_token;
            kv_head = q_head div (as_query_heads sh div as_kv_heads sh);
            q_offset = (q_token * as_query_heads sh + q_head) * as_head_size sh;
            wd = ref_weights ar last_visible (ref_scores ar query key_t sh q_offset kv_head last_visible scores)
        in (fst wd,
            fold (\<lambda>d output. output[q_offset + d := ref_output ar value_t sh kv_head last_visible wd d])
              [0..<as_head_size sh] output))"

definition reference_attention :: "('f, 'd) arith \<Rightarrow> 'f list \<Rightarrow> 'f list \<Rightarrow> 'f list \<Rightarrow> attention_shape \<Rightarrow> 'f list res" where
  "reference_attention ar query key_t value_t sh =
     (if as_query_heads sh = 0 \<or> as_kv_heads sh = 0 \<or> as_head_size sh = 0 \<or>
         as_query_heads sh mod as_kv_heads sh \<noteq> 0 \<or> as_query_tokens sh > as_kv_tokens sh
      then Inl InvalidArgument
      else
        bind_res (checked_multiply (as_query_tokens sh) (as_query_heads sh)) (\<lambda>n.
        bind_res (checked_multiply n (as_head_size sh)) (\<lambda>query_elements.
        bind_res (checked_multiply (as_kv_tokens sh) (as_kv_heads sh)) (\<lambda>n.
        bind_res (checked_multiply n (as_head_size sh)) (\<lambda>kv_elements.
          if length query \<noteq> query_elements \<or> length key_t \<noteq> kv_elements \<or> length value_t \<noteq> kv_elements
          then Inl InvalidArgument
          else
            bind_res (check_finite ar query) (\<lambda>_.
            bind_res (check_finite ar key_t) (\<lambda>_.
            bind_res (check_finite ar value_t) (\<lambda>_.
              let output = replicate query_elements (ar_narrow ar (ar_of_nat ar 0)) in
              if as_query_tokens sh = 0 then Inr output
              else Inr (snd (fold (\<lambda>q_token. fold (ref_head ar query key_t value_t sh q_token) [0..<as_query_heads sh])
                          [0..<as_query_tokens sh]
                          (replicate (as_kv_tokens sh) (ar_of_nat ar 0), output)))))))))))"

section \<open>The kernels\<close>

text \<open>Typed device pointers are functions from the index of an element.\<close>

record 'f float_buffer =
  fb_address :: nat
  fb_on_device :: bool
  fb_elements :: "'f list"

definition validate_float_pointer :: "'f float_buffer \<Rightarrow> unit res" where
  "validate_float_pointer b = (if \<not> fb_on_device b then Inl InvalidArgument else Inr ())"

definition attention_step :: "('f, 'd) arith \<Rightarrow> (nat \<Rightarrow> 'f) \<Rightarrow> (nat \<Rightarrow> 'f) \<Rightarrow> (nat \<Rightarrow> 'f) \<Rightarrow> nat list \<Rightarrow> nat \<Rightarrow> nat \<Rightarrow> nat \<Rightarrow>
    nat \<Rightarrow> nat \<Rightarrow> nat \<Rightarrow> 'd \<Rightarrow> nat \<Rightarrow> 'd \<times> 'd \<times> 'd \<Rightarrow> 'd \<times> 'd \<times> 'd" where
  "attention_step ar query key_cache value_cache blocks query_base dimension kv_head kv_heads head_size bsize scale token st =
     (case st of (maximum, denominator, numerator) \<Rightarrow>
        let physical_block = blocks ! (token div bsize);
            cache_base = ((physical_block * kv_heads + kv_head) * bsize + token mod bsize) * head_size;
            dot = fold (\<lambda>d dot. ar_muladd ar (ar_widen ar (query (query_base + d)))
                                     (ar_widen ar (key_cache (cache_base + d))) dot)
                    [0..<head_size] (ar_of_nat ar 0);
            score = ar_mul ar dot scale;
            next_maximum = (if ar_less ar maximum score then score else maximum);
            rescale = ar_exp ar (ar_sub ar maximum next_maximum);
            weight = ar_exp ar (ar_sub ar score next_maximum)
        in (next_maximum, ar_muladd ar denominator rescale weight,
            ar_add ar (ar_mul ar numerator rescale) (ar_mul ar weight (ar_widen ar (value_cache (cache_base + dimension))))))"

definition attention_element :: "('f, 'd) arith \<Rightarrow> (nat \<Rightarrow> 'f) \<Rightarrow> (nat \<Rightarrow> 'f) \<Rightarrow> (nat \<Rightarrow> 'f) \<Rightarrow> nat list \<Rightarrow> nat \<Rightarrow> nat \<Rightarrow>
    nat \<Rightarrow> nat \<Rightarrow> nat \<Rightarrow> nat \<Rightarrow> nat \<Rightarrow> 'd \<Rightarrow> 'f" where
  "attention_element ar query key_cache value_cache blocks query_base dimension kv_head kv_heads head_size bsize last_visible scale =
     (case fold (attention_step ar query key_cache value_cache blocks query_base dimension kv_head kv_heads head_size bsize scale)
             [0..<Suc last_visible] (ar_minus_infinity ar, ar_of_nat ar 0, ar_of_nat ar 0) of
        (maximum, denominator, numerator) \<Rightarrow> ar_narrow ar (ar_div ar numerator denominator))"

definition paged_attention_kernel :: "('f, 'd) arith \<Rightarrow> (nat \<Rightarrow> 'f) \<Rightarrow> (nat \<Rightarrow> 'f) \<Rightarrow> (nat \<Rightarrow> 'f) \<Rightarrow> nat list \<Rightarrow> nat \<Rightarrow>
    nat \<Rightarrow> nat \<Rightarrow> nat \<Rightarrow> nat \<Rightarrow> nat \<Rightarrow> 'd \<Rightarrow> nat \<Rightarrow> 'f list \<Rightarrow> 'f list" where
  "paged_attention_kernel ar query key_cache value_cache blocks query_tokens kv_tokens query_heads kv_heads head_size bsize scale
     index output =
     (let dimension = index mod head_size;
          query_head = index div head_size mod query_heads;
          query_token = index div (query_heads * head_size);
          kv_head = query_head div (query_heads div kv_heads);
          last_visible = kv_tokens - query_tokens + query_token
      in output[index := attention_element ar query key_cache value_cache blocks (index - dimension) dimension kv_head kv_heads
                           head_size bsize last_visible scale])"

definition paged_attention_batch_kernel :: "('f, 'd) arith \<Rightarrow> (nat \<Rightarrow> 'f) \<Rightarrow> (nat \<Rightarrow> 'f) \<Rightarrow> (nat \<Rightarrow> 'f) \<Rightarrow> nat list \<Rightarrow>
    nat list \<Rightarrow> nat \<Rightarrow> nat \<Rightarrow> nat \<Rightarrow> nat \<Rightarrow> nat \<Rightarrow> 'd \<Rightarrow> nat \<Rightarrow> 'f list \<Rightarrow> 'f list" where
  "paged_attention_batch_kernel ar query key_cache value_cache blocks sequence_lengths max_blocks query_heads kv_heads head_size
     bsize scale index output =
     (let elements_per_request = query_heads * head_size;
          request = index div elements_per_request;
          dimension = index mod head_size;
          query_head = index div head_size mod query_heads;
          kv_head = query_head div (query_heads div kv_heads);
          row = drop (request * max_blocks) blocks
      in output[index := attention_element ar query key_cache value_cache row (index - dimension) dimension kv_head kv_heads
                           head_size bsize (size_dec (sequence_lengths ! request)) scale])"

section \<open>The host functions\<close>

text \<open>The pages seen as arrays of elements.\<close>

definition cache_array :: "('f, 'd) arith \<Rightarrow> dtype \<Rightarrow> nat \<Rightarrow> nat \<Rightarrow> memory \<Rightarrow> nat \<Rightarrow> 'f" where
  "cache_array ar dt width base mem i = ar_decode ar dt (peek (base + i * width) width mem)"

definition launch_attention :: "('f, 'd) arith \<Rightarrow> bool \<Rightarrow> nat list \<Rightarrow> nat \<Rightarrow> nat list \<Rightarrow> 'f list \<Rightarrow> nat \<Rightarrow> nat \<Rightarrow> nat \<Rightarrow> nat \<Rightarrow>
    physical_block_pool \<Rightarrow> paged_kv_storage \<Rightarrow> 'f list \<Rightarrow> unit res \<times> 'f list" where
  "launch_attention ar launch order width blocks query total_elements query_tokens kv_tokens query_heads p s output =
     (case bind_res (ks_key_base s) (\<lambda>k. bind_res (ks_value_base p s) (\<lambda>v. Inr (k, v))) of
        Inl e \<Rightarrow> (Inl e, output)
      | Inr (key_base, value_base) \<Rightarrow>
          if \<not> launch then (Inl RuntimeError, output)
          else if length query < total_elements \<or> length output < total_elements then (Inl Undefined, output)
          else
            let l = ks_layout s; mem = gm_base (ks_backing s)
            in (Inr (), fold (paged_attention_kernel ar ((!) query)
                  (cache_array ar (pl_dtype l) width key_base mem) (cache_array ar (pl_dtype l) width value_base mem)
                  blocks query_tokens kv_tokens query_heads (pl_num_kv_heads l) (pl_head_size l) (pl_block_size l)
                  (attention_scale ar (pl_head_size l))) order output))"

definition launch_attention_batch :: "('f, 'd) arith \<Rightarrow> bool \<Rightarrow> nat list \<Rightarrow> nat \<Rightarrow> nat list \<Rightarrow> nat list \<Rightarrow> 'f list \<Rightarrow> nat \<Rightarrow>
    nat \<Rightarrow> nat \<Rightarrow> physical_block_pool \<Rightarrow> paged_kv_storage \<Rightarrow> 'f list \<Rightarrow> unit res \<times> 'f list" where
  "launch_attention_batch ar launch order width blocks lengths query total_elements max_blocks query_heads p s output =
     (case bind_res (ks_key_base s) (\<lambda>k. bind_res (ks_value_base p s) (\<lambda>v. Inr (k, v))) of
        Inl e \<Rightarrow> (Inl e, output)
      | Inr (key_base, value_base) \<Rightarrow>
          if \<not> launch then (Inl RuntimeError, output)
          else if length query < total_elements \<or> length output < total_elements then (Inl Undefined, output)
          else
            let l = ks_layout s; mem = gm_base (ks_backing s)
            in (Inr (), fold (paged_attention_batch_kernel ar ((!) query)
                  (cache_array ar (pl_dtype l) width key_base mem) (cache_array ar (pl_dtype l) width value_base mem)
                  blocks lengths max_blocks query_heads (pl_num_kv_heads l) (pl_head_size l) (pl_block_size l)
                  (attention_scale ar (pl_head_size l))) order output))"

text \<open>
  What both host functions do once the table is built: the checks of the device and of the
  buffers, and the uploads, each of which has an answer of its own in \<open>envs\<close>.
\<close>

definition attention_buffers :: "cuda list \<Rightarrow> nat \<Rightarrow> 'f float_buffer \<Rightarrow> 'f float_buffer \<Rightarrow> nat \<Rightarrow> paged_kv_storage \<Rightarrow> unit res" where
  "attention_buffers envs cache_address query output n_bytes s =
     (if \<exists>env \<in> set envs. \<not> cu_guard env then Inl RuntimeError
      else bind_res (validate_float_pointer query) (\<lambda>_.
        bind_res (validate_float_pointer output) (\<lambda>_.
          if overlaps (fb_address query) n_bytes (fb_address output) n_bytes \<or>
             overlaps (fb_address query) n_bytes cache_address (pl_total_bytes (ks_layout s)) \<or>
             overlaps (fb_address output) n_bytes cache_address (pl_total_bytes (ks_layout s))
          then Inl InvalidArgument
          else if \<exists>env \<in> set envs. \<not> cu_malloc env then Inl RuntimeError
          else if \<exists>env \<in> set envs. cu_copy env \<noteq> None then Inl RuntimeError
          else Inr ())))"

definition paged_attention :: "('f, 'd) arith \<Rightarrow> cuda \<Rightarrow> bool \<Rightarrow> nat list \<Rightarrow> nat \<Rightarrow> 'f float_buffer \<Rightarrow> 'f float_buffer \<Rightarrow> nat \<Rightarrow>
    nat \<Rightarrow> seq_state \<Rightarrow> paged_kv_storage \<Rightarrow> unit res \<times> 'f list" where
  "paged_attention ar env launch order cache_address query output query_tokens query_heads st s =
     (case st of (q, p) \<Rightarrow>
        let l = ks_layout s; out = fb_elements output in
        if \<not> ks_uses_pool (ss_table q) s then (Inl InvalidArgument, out)
        else if ss_block_size q \<noteq> pl_block_size l \<or> query_heads = 0 \<or>
           query_heads mod pl_num_kv_heads l \<noteq> 0 \<or> query_tokens > ss_num_tokens q then (Inl InvalidArgument, out)
        else
          (case bind_res (checked_multiply query_tokens query_heads) (\<lambda>n.
                  bind_res (checked_multiply n (pl_head_size l)) (\<lambda>total_elements.
                  bind_res (checked_multiply total_elements 4) (\<lambda>output_bytes. Inr (total_elements, output_bytes)))) of
             Inl e \<Rightarrow> (Inl e, out)
           | Inr (total_elements, output_bytes) \<Rightarrow>
               if query_tokens = 0 then (Inr (), out)
               else if fb_address query = 0 \<or> fb_address output = 0 then (Inl InvalidArgument, out)
               else
                 (case bind_res (build_read_block_table st) (\<lambda>blocks.
                         if \<exists>b \<in> set blocks. b \<ge> pl_num_blocks l then Inl OutOfRange
                         else
                           bind_res (checked_multiply (length blocks) 8) (\<lambda>table_bytes.
                           bind_res (attention_buffers [env] cache_address query output output_bytes s) (\<lambda>_.
                           bind_res (bytes_for_dtype (pl_dtype l)) (\<lambda>width. Inr (blocks, width))))) of
                    Inl e \<Rightarrow> (Inl e, out)
                  | Inr (blocks, width) \<Rightarrow>
                      and_then (launch_attention ar launch order width blocks (fb_elements query) total_elements query_tokens
                                  (ss_num_tokens q) query_heads p s out) (\<lambda>_ out.
                        if \<not> cu_sync env then (Inl RuntimeError, out) else (Inr (), out)))))"

fun batch_sequences_ok :: "paged_kv_storage \<Rightarrow> sequence_state list \<Rightarrow> nat list \<Rightarrow> unit res" where
  "batch_sequences_ok s (q # qs) (n # ns) =
     (if \<not> ks_uses_pool (ss_table q) s \<or> ss_block_size q \<noteq> pl_block_size (ks_layout s) \<or> n = 0
      then Inl InvalidArgument else batch_sequences_ok s qs ns)"
| "batch_sequences_ok s qs ns = Inr ()"

definition paged_attention_batch :: "('f, 'd) arith \<Rightarrow> cuda \<Rightarrow> cuda \<Rightarrow> bool \<Rightarrow> nat list \<Rightarrow> nat \<Rightarrow> 'f float_buffer \<Rightarrow>
    'f float_buffer \<Rightarrow> nat \<Rightarrow> sequence_state option list \<Rightarrow> physical_block_pool \<Rightarrow> paged_kv_storage \<Rightarrow> unit res \<times> 'f list" where
  "paged_attention_batch ar env env_lengths launch order cache_address query output query_heads sequences p s =
     (let l = ks_layout s; out = fb_elements output in
      if query_heads = 0 \<or> query_heads mod pl_num_kv_heads l \<noteq> 0 then (Inl InvalidArgument, out)
      else
        (case bind_res (build_batch_block_table sequences p) (\<lambda>t.
                bind_res (batch_sequences_ok s (map the sequences) (bb_sequence_lengths t)) (\<lambda>_.
                if \<exists>b \<in> set (bb_block_table t). b \<noteq> invalid_block \<and> b \<ge> pl_num_blocks l then Inl OutOfRange
                else
                  bind_res (checked_multiply (length sequences) query_heads) (\<lambda>n.
                  bind_res (checked_multiply n (pl_head_size l)) (\<lambda>total_elements.
                  bind_res (checked_multiply total_elements 4) (\<lambda>tensor_bytes. Inr (t, total_elements, tensor_bytes)))))) of
           Inl e \<Rightarrow> (Inl e, out)
         | Inr (t, total_elements, tensor_bytes) \<Rightarrow>
             if sequences = [] then (Inr (), out)
             else if fb_address query = 0 \<or> fb_address output = 0 then (Inl InvalidArgument, out)
             else
               (case bind_res (checked_multiply (length (bb_block_table t)) 8) (\<lambda>table_bytes.
                       bind_res (checked_multiply (length sequences) 8) (\<lambda>lengths_bytes.
                       bind_res (attention_buffers [env, env_lengths] cache_address query output tensor_bytes s) (\<lambda>_.
                       bytes_for_dtype (pl_dtype l)))) of
                  Inl e \<Rightarrow> (Inl e, out)
                | Inr width \<Rightarrow>
                    and_then (launch_attention_batch ar launch order width (bb_block_table t) (bb_sequence_lengths t)
                                (fb_elements query) total_elements (bb_max_blocks_per_sequence t) query_heads p s out) (\<lambda>_ out.
                      if \<not> cu_sync env then (Inl RuntimeError, out) else (Inr (), out)))))"

section \<open>The order of the threads does not matter\<close>

lemma fold_update_length: "length (fold (\<lambda>i out. out[i := F i]) order out) = length out"
  by (induction order arbitrary: out) simp_all

lemma fold_update_nth:
  "i < length out \<Longrightarrow> fold (\<lambda>i out. out[i := F i]) order out ! i = (if i \<in> set order then F i else out ! i)"
  by (induction order arbitrary: out) (auto simp: nth_list_update)

lemma fold_update_upto: "length out = n \<Longrightarrow> fold (\<lambda>i out. out[i := F i]) [0..<n] out = map F [0..<n]"
  by (rule nth_equalityI) (simp_all add: fold_update_length fold_update_nth)

section \<open>One pass of the softmax\<close>

text \<open>The fold of \<open>attention_element\<close>, for the scores \<open>sc\<close> and the values \<open>v\<close> of the tokens.\<close>

definition online_step :: "('f, 'd) arith \<Rightarrow> (nat \<Rightarrow> 'd) \<Rightarrow> (nat \<Rightarrow> 'f) \<Rightarrow> nat \<Rightarrow> 'd \<times> 'd \<times> 'd \<Rightarrow> 'd \<times> 'd \<times> 'd" where
  "online_step ar sc v token st =
     (case st of (maximum, denominator, numerator) \<Rightarrow>
        let next_maximum = (if ar_less ar maximum (sc token) then sc token else maximum);
            rescale = ar_exp ar (ar_sub ar maximum next_maximum);
            weight = ar_exp ar (ar_sub ar (sc token) next_maximum)
        in (next_maximum, ar_muladd ar denominator rescale weight,
            ar_add ar (ar_mul ar numerator rescale) (ar_mul ar weight (ar_widen ar (v token)))))"

definition online_softmax :: "('f, 'd) arith \<Rightarrow> (nat \<Rightarrow> 'd) \<Rightarrow> (nat \<Rightarrow> 'f) \<Rightarrow> nat \<Rightarrow> 'f" where
  "online_softmax ar sc v k =
     (case fold (online_step ar sc v) [0..<Suc k] (ar_minus_infinity ar, ar_of_nat ar 0, ar_of_nat ar 0) of
        (maximum, denominator, numerator) \<Rightarrow> ar_narrow ar (ar_div ar numerator denominator))"

definition dot_product :: "('f, 'd) arith \<Rightarrow> (nat \<Rightarrow> 'f) \<Rightarrow> (nat \<Rightarrow> 'f) \<Rightarrow> nat \<Rightarrow> 'd" where
  "dot_product ar a b n = fold (\<lambda>d dot. ar_muladd ar (ar_widen ar (a d)) (ar_widen ar (b d)) dot) [0..<n] (ar_of_nat ar 0)"

lemma dot_product_cong:
  "(\<And>d. d < n \<Longrightarrow> a d = a' d) \<Longrightarrow> (\<And>d. d < n \<Longrightarrow> b d = b' d) \<Longrightarrow> dot_product ar a b n = dot_product ar a' b' n"
  unfolding dot_product_def by (rule fold_cong) auto

lemma online_softmax_cong:
  "(\<And>t. t \<le> k \<Longrightarrow> sc t = sc' t) \<Longrightarrow> (\<And>t. t \<le> k \<Longrightarrow> v t = v' t) \<Longrightarrow> online_softmax ar sc v k = online_softmax ar sc' v' k"
proof -
  assume "\<And>t. t \<le> k \<Longrightarrow> sc t = sc' t" and "\<And>t. t \<le> k \<Longrightarrow> v t = v' t"
  then have "fold (online_step ar sc v) [0..<Suc k] st = fold (online_step ar sc' v') [0..<Suc k] st" for st
    by (intro fold_cong) (auto simp: online_step_def fun_eq_iff less_Suc_eq_le)
  then show ?thesis by (simp only: online_softmax_def)
qed

lemma attention_element_online:
  "attention_element ar query key_cache value_cache blocks query_base dimension kv_head kv_heads head_size bsize last_visible scale =
   (let base = \<lambda>token. ((blocks ! (token div bsize) * kv_heads + kv_head) * bsize + token mod bsize) * head_size
    in online_softmax ar
         (\<lambda>token. ar_mul ar (dot_product ar (\<lambda>d. query (query_base + d)) (\<lambda>d. key_cache (base token + d)) head_size) scale)
         (\<lambda>token. value_cache (base token + dimension)) last_visible)"
proof -
  have "attention_step ar query key_cache value_cache blocks query_base dimension kv_head kv_heads head_size bsize scale =
    online_step ar (\<lambda>token. ar_mul ar (dot_product ar (\<lambda>d. query (query_base + d))
        (\<lambda>d. key_cache (((blocks ! (token div bsize) * kv_heads + kv_head) * bsize + token mod bsize) * head_size + d)) head_size) scale)
      (\<lambda>token. value_cache (((blocks ! (token div bsize) * kv_heads + kv_head) * bsize + token mod bsize) * head_size + dimension))"
    by (intro ext) (simp add: attention_step_def online_step_def dot_product_def Let_def split: prod.split)
  then show ?thesis by (simp only: attention_element_def online_softmax_def Let_def)
qed

section \<open>Dense tensors\<close>

text \<open>The element of the dense tensor \<open>[token][head][dimension]\<close> of a sequence.\<close>

definition dense_index :: "paged_kv_layout \<Rightarrow> nat \<Rightarrow> nat \<Rightarrow> nat \<Rightarrow> nat" where
  "dense_index l token head d = (token * pl_num_kv_heads l + head) * pl_head_size l + d"

definition dense :: "('f, 'd) arith \<Rightarrow> kv_kind \<Rightarrow> nat list \<Rightarrow> paged_kv_storage \<Rightarrow> nat \<Rightarrow> 'f" where
  "dense ar kind blocks s i = ar_decode ar (pl_dtype (ks_layout s)) (ks_elem (kr_index kind blocks (ks_layout s) i) s)"

lemma index_parts:
  fixes t h d heads hs :: nat
  assumes "h < heads" and "d < hs"
  shows "((t * heads + h) * hs + d) div (heads * hs) = t" and "((t * heads + h) * hs + d) div hs mod heads = h"
    and "((t * heads + h) * hs + d) mod hs = d"
proof -
  have a: "((t * heads + h) * hs + d) div hs = t * heads + h" using assms(2) by simp
  then show "((t * heads + h) * hs + d) div hs mod heads = h" using assms(1) by simp
  have "((t * heads + h) * hs + d) div (heads * hs) = ((t * heads + h) * hs + d) div hs div heads"
    by (metis div_mult2_eq mult.commute)
  then show "((t * heads + h) * hs + d) div (heads * hs) = t" unfolding a using assms(1) by simp
  show "((t * heads + h) * hs + d) mod hs = d" using assms(2) by simp
qed

text \<open>What a thread reads at a token of the pages is the element of the dense tensor.\<close>

lemma cache_array_dense:
  assumes inv: "pl_inv (ks_layout s)" and hd: "head < pl_num_kv_heads (ks_layout s)" "d < pl_head_size (ks_layout s)"
  defines "l \<equiv> ks_layout s"
  shows "cache_array ar (pl_dtype l) (pl_element_bytes l) 0 (gm_base (ks_backing s))
        (((blocks ! (token div pl_block_size l) * pl_num_kv_heads l + head) * pl_block_size l + token mod pl_block_size l) * pl_head_size l + d) =
      dense ar Key blocks s (dense_index l token head d)" (is ?k)
    and "cache_array ar (pl_dtype l) (pl_element_bytes l) (pl_cache_bytes l) (gm_base (ks_backing s))
        (((blocks ! (token div pl_block_size l) * pl_num_kv_heads l + head) * pl_block_size l + token mod pl_block_size l) * pl_head_size l + d) =
      dense ar Value blocks s (dense_index l token head d)" (is ?v)
proof -
  have kr: "kr_index kind blocks (ks_layout s) (dense_index (ks_layout s) token head d) =
      pl_index kind (blocks ! (token div pl_block_size (ks_layout s))) head (token mod pl_block_size (ks_layout s)) d (ks_layout s)" for kind
    using index_parts [OF hd] by (simp add: kr_index_def dense_index_def Let_def)
  show ?k and ?v
    unfolding cache_array_def l_def cache_offsets [OF inv] by (simp_all add: dense_def ks_elem_def kr)
qed

text \<open>One output of attention over dense tensors, in the arithmetic \<open>ar\<close>.\<close>

definition dense_attention :: "('f, 'd) arith \<Rightarrow> (nat \<Rightarrow> 'f) \<Rightarrow> (nat \<Rightarrow> 'f) \<Rightarrow> (nat \<Rightarrow> 'f) \<Rightarrow> paged_kv_layout \<Rightarrow> nat \<Rightarrow> nat \<Rightarrow>
    nat \<Rightarrow> 'f" where
  "dense_attention ar query kd vd l query_heads last_visible index =
     (let head = index div pl_head_size l mod query_heads div (query_heads div pl_num_kv_heads l);
          d = index mod pl_head_size l
      in online_softmax ar
           (\<lambda>token. ar_mul ar (dot_product ar (\<lambda>d'. query (index - d + d')) (\<lambda>d'. kd (dense_index l token head d')) (pl_head_size l))
                      (attention_scale ar (pl_head_size l)))
           (\<lambda>token. vd (dense_index l token head d)) last_visible)"

lemma kv_head_less:
  fixes query_heads kv_heads :: nat
  assumes "query_heads mod kv_heads = 0" and "0 < query_heads" and "0 < kv_heads"
  shows "x mod query_heads div (query_heads div kv_heads) < kv_heads"
proof -
  have "query_heads = kv_heads * (query_heads div kv_heads)" using assms(1) by auto
  moreover have "x mod query_heads < query_heads" using assms(2) by simp
  ultimately have "x mod query_heads < kv_heads * (query_heads div kv_heads)" by simp
  then show ?thesis by (rule less_mult_imp_div_less)
qed

lemma attention_element_dense:
  assumes inv: "pl_inv (ks_layout s)" and qh: "query_heads mod pl_num_kv_heads (ks_layout s) = 0" "0 < query_heads"
  defines "l \<equiv> ks_layout s" defines "w \<equiv> pl_element_bytes l" defines "mem \<equiv> gm_base (ks_backing s)"
  shows "attention_element ar query (cache_array ar (pl_dtype l) w 0 mem) (cache_array ar (pl_dtype l) w (pl_cache_bytes l) mem)
      blocks (index - index mod pl_head_size l) (index mod pl_head_size l)
      (index div pl_head_size l mod query_heads div (query_heads div pl_num_kv_heads l)) (pl_num_kv_heads l) (pl_head_size l)
      (pl_block_size l) last_visible (attention_scale ar (pl_head_size l)) =
    dense_attention ar query (dense ar Key blocks s) (dense ar Value blocks s) l query_heads last_visible index"
proof -
  have h: "index div pl_head_size l mod query_heads div (query_heads div pl_num_kv_heads l) < pl_num_kv_heads (ks_layout s)"
    unfolding l_def by (rule kv_head_less [OF qh]) (rule pl_invD(2) [OF inv])
  have d: "index mod pl_head_size l < pl_head_size (ks_layout s)" using pl_invD(4) [OF inv] by (simp add: l_def)
  note ca = cache_array_dense [OF inv h, folded l_def, of _ ar blocks]
  show ?thesis unfolding attention_element_online dense_attention_def Let_def w_def mem_def
    by (rule online_softmax_cong)
       (auto intro!: arg_cong [of _ _ "\<lambda>x. ar_mul ar x _"] dot_product_cong simp: ca d [folded l_def])
qed

section \<open>What the launches compute\<close>

lemma launch_attention_ok:
  assumes inv: "ks_inv p s" and w: "w = pl_element_bytes (ks_layout s)"
    and qh: "query_heads mod pl_num_kv_heads (ks_layout s) = 0" "0 < query_heads" and order: "set order = {..<n}"
    and r: "launch_attention ar launch order w blocks query n query_tokens kv_tokens query_heads p s out = (Inr (), out')"
  shows "n \<le> length query" and "n \<le> length out" and "length out' = length out"
    and "i < n \<Longrightarrow> out' ! i = dense_attention ar ((!) query) (dense ar Key blocks s) (dense ar Value blocks s) (ks_layout s)
           query_heads (kv_tokens - query_tokens + i div (query_heads * pl_head_size (ks_layout s))) i"
proof -
  have l: "pl_inv (ks_layout s)" using inv by (simp add: ks_inv_def)
  let ?F = "\<lambda>i. dense_attention ar ((!) query) (dense ar Key blocks s) (dense ar Value blocks s) (ks_layout s)
           query_heads (kv_tokens - query_tokens + i div (query_heads * pl_head_size (ks_layout s))) i"
  have k: "paged_attention_kernel ar ((!) query) (cache_array ar (pl_dtype (ks_layout s)) w 0 (gm_base (ks_backing s)))
      (cache_array ar (pl_dtype (ks_layout s)) w (pl_cache_bytes (ks_layout s)) (gm_base (ks_backing s)))
      blocks query_tokens kv_tokens query_heads (pl_num_kv_heads (ks_layout s)) (pl_head_size (ks_layout s))
      (pl_block_size (ks_layout s)) (attention_scale ar (pl_head_size (ks_layout s))) = (\<lambda>i out. out[i := ?F i])"
    unfolding w paged_attention_kernel_def Let_def attention_element_dense [OF l qh] ..
  have out': "n \<le> length query" "n \<le> length out" "out' = fold (\<lambda>i out. out[i := ?F i]) order out"
    using r ks_bases [OF inv] by (auto simp: launch_attention_def Let_def k split: if_splits)
  show "n \<le> length query" "n \<le> length out" by (fact out')+
  show "length out' = length out" unfolding out'(3) by (rule fold_update_length)
  show "out' ! i = ?F i" if "i < n" unfolding out'(3) using that out'(2) order by (simp add: fold_update_nth)
qed

lemma launch_attention_batch_ok:
  assumes inv: "ks_inv p s" and w: "w = pl_element_bytes (ks_layout s)"
    and qh: "query_heads mod pl_num_kv_heads (ks_layout s) = 0" "0 < query_heads" and order: "set order = {..<n}"
    and r: "launch_attention_batch ar launch order w blocks lengths query n width query_heads p s out = (Inr (), out')"
  shows "n \<le> length query" and "n \<le> length out" and "length out' = length out"
    and "i < n \<Longrightarrow> out' ! i = (let request = i div (query_heads * pl_head_size (ks_layout s)); row = drop (request * width) blocks
           in dense_attention ar ((!) query) (dense ar Key row s) (dense ar Value row s) (ks_layout s) query_heads
                (size_dec (lengths ! request)) i)"
proof -
  have l: "pl_inv (ks_layout s)" using inv by (simp add: ks_inv_def)
  let ?F = "\<lambda>i. let request = i div (query_heads * pl_head_size (ks_layout s)); row = drop (request * width) blocks
           in dense_attention ar ((!) query) (dense ar Key row s) (dense ar Value row s) (ks_layout s) query_heads
                (size_dec (lengths ! request)) i"
  have k: "paged_attention_batch_kernel ar ((!) query) (cache_array ar (pl_dtype (ks_layout s)) w 0 (gm_base (ks_backing s)))
      (cache_array ar (pl_dtype (ks_layout s)) w (pl_cache_bytes (ks_layout s)) (gm_base (ks_backing s)))
      blocks lengths width query_heads (pl_num_kv_heads (ks_layout s)) (pl_head_size (ks_layout s))
      (pl_block_size (ks_layout s)) (attention_scale ar (pl_head_size (ks_layout s))) = (\<lambda>i out. out[i := ?F i])"
    unfolding w paged_attention_batch_kernel_def Let_def attention_element_dense [OF l qh] ..
  have out': "n \<le> length query" "n \<le> length out" "out' = fold (\<lambda>i out. out[i := ?F i]) order out"
    using r ks_bases [OF inv] by (auto simp: launch_attention_batch_def Let_def k [unfolded Let_def] split: if_splits)
  show "n \<le> length query" "n \<le> length out" by (fact out')+
  show "length out' = length out" unfolding out'(3) by (rule fold_update_length)
  show "out' ! i = ?F i" if "i < n" unfolding out'(3) using that out'(2) order by (simp add: fold_update_nth)
qed

text \<open>The dense tensor does not depend on pages behind those that are read.\<close>

lemma dense_attention_cong:
  assumes "\<And>i. i < (k + 1) * pl_num_kv_heads l * pl_head_size l \<Longrightarrow> kd i = kd' i \<and> vd i = vd' i"
    and "query_heads mod pl_num_kv_heads l = 0" "0 < query_heads" "0 < pl_num_kv_heads l" "0 < pl_head_size l"
    and "\<And>d. d < pl_head_size l \<Longrightarrow> query (index - index mod pl_head_size l + d) = query' (index' - index' mod pl_head_size l + d)"
    and "index mod pl_head_size l = index' mod pl_head_size l"
    and "index div pl_head_size l mod query_heads = index' div pl_head_size l mod query_heads"
  shows "dense_attention ar query kd vd l query_heads k index = dense_attention ar query' kd' vd' l query_heads k index'"
proof -
  let ?h = "index' div pl_head_size l mod query_heads div (query_heads div pl_num_kv_heads l)"
  have h: "?h < pl_num_kv_heads l" by (rule kv_head_less) (use assms in auto)
  have less: "dense_index l t ?h d < (k + 1) * pl_num_kv_heads l * pl_head_size l" if "t \<le> k" "d < pl_head_size l" for t d
  proof -
    have "t * pl_num_kv_heads l + ?h < (k + 1) * pl_num_kv_heads l"
    proof -
      have "t * pl_num_kv_heads l + pl_num_kv_heads l \<le> (k + 1) * pl_num_kv_heads l"
        by (rule block_end) (use that(1) in simp)
      then show ?thesis using h by linarith
    qed
    from block_end [OF this, of "pl_head_size l"] show ?thesis using that(2) by (simp add: dense_index_def)
  qed
  have d: "index' mod pl_head_size l < pl_head_size l" using assms(5) by simp
  show ?thesis unfolding dense_attention_def Let_def assms(7,8)
  proof (rule online_softmax_cong)
    fix t assume "t \<le> k"
    then show "vd (dense_index l t ?h (index' mod pl_head_size l)) = vd' (dense_index l t ?h (index' mod pl_head_size l))"
      using assms(1) less d by blast
    show "ar_mul ar (dot_product ar (\<lambda>d'. query (index - index' mod pl_head_size l + d')) (\<lambda>d'. kd (dense_index l t ?h d')) (pl_head_size l))
            (attention_scale ar (pl_head_size l)) =
          ar_mul ar (dot_product ar (\<lambda>d'. query' (index' - index' mod pl_head_size l + d')) (\<lambda>d'. kd' (dense_index l t ?h d')) (pl_head_size l))
            (attention_scale ar (pl_head_size l))"
      using assms(1,6) less \<open>t \<le> k\<close> unfolding assms(7)
      by (intro arg_cong [of _ _ "\<lambda>x. ar_mul ar x _"] dot_product_cong) blast+
  qed
qed

text \<open>What the host functions establish before they launch.\<close>

lemma paged_attention_launches:
  assumes inv: "ks_inv p s" and own: "ss_owned r p q"
    and r: "paged_attention ar env launch order base query output query_tokens query_heads (q, p) s = (Inr (), out)"
    and ne: "query_tokens \<noteq> 0"
  defines "l \<equiv> ks_layout s"
  shows "launch_attention ar launch order (pl_element_bytes l) (map (ss_page q) [0..<ss_num_allocated_blocks q]) (fb_elements query)
      (query_tokens * query_heads * pl_head_size l) query_tokens (ss_num_tokens q) query_heads p s (fb_elements output) = (Inr (), out)"
    and "query_heads mod pl_num_kv_heads l = 0" and "0 < query_heads" and "query_tokens \<le> ss_num_tokens q"
proof -
  have l: "pl_inv l" using inv by (simp add: ks_inv_def l_def)
  note dt = pl_invD(6) [OF l]
  have c: "ks_uses_pool (ss_table q) s \<and> \<not> (ss_block_size q \<noteq> pl_block_size l \<or> query_heads = 0 \<or>
           query_heads mod pl_num_kv_heads l \<noteq> 0 \<or> query_tokens > ss_num_tokens q)"
  proof (rule ccontr)
    assume "\<not> ?thesis"
    then have "paged_attention ar env launch order base query output query_tokens query_heads (q, p) s = (Inl InvalidArgument, fb_elements output)"
      unfolding paged_attention_def Let_def prod.case l_def by presburger
    then show False using r by simp
  qed
  then show "query_heads mod pl_num_kv_heads l = 0" "0 < query_heads" "query_tokens \<le> ss_num_tokens q" by auto
  show "launch_attention ar launch order (pl_element_bytes l) (map (ss_page q) [0..<ss_num_allocated_blocks q]) (fb_elements query)
      (query_tokens * query_heads * pl_head_size l) query_tokens (ss_num_tokens q) query_heads p s (fb_elements output) = (Inr (), out)"
    using r c ne dt build_read_block_table_ok [OF own] unfolding paged_attention_def Let_def prod.case
    by (auto simp: bind_res_Inr_iff and_then_Inr_iff checked_multiply_iff l_def [symmetric] split: if_splits sum.splits)
qed

section \<open>Exact arithmetic\<close>

text \<open>
  The reals with \<open>- \<infinity>\<close>, which the kernels use as the maximum of no score at all. Operations
  on \<open>- \<infinity>\<close> other than those the code performs have no meaning.
\<close>

datatype ext = Minus_Inf | Fin real

fun fin2 :: "(real \<Rightarrow> real \<Rightarrow> real) \<Rightarrow> ext \<Rightarrow> ext \<Rightarrow> ext" where
  "fin2 f (Fin a) (Fin b) = Fin (f a b)"
| "fin2 f _ _ = Minus_Inf"

fun ext_less :: "ext \<Rightarrow> ext \<Rightarrow> bool" where
  "ext_less (Fin a) (Fin b) = (a < b)"
| "ext_less Minus_Inf (Fin b) = True"
| "ext_less _ _ = False"

fun ext_exp :: "ext \<Rightarrow> ext" where
  "ext_exp (Fin a) = Fin (exp a)"
| "ext_exp Minus_Inf = Fin 0"

fun ext_sqrt :: "ext \<Rightarrow> ext" where
  "ext_sqrt (Fin a) = Fin (sqrt a)"
| "ext_sqrt Minus_Inf = Minus_Inf"

fun ext_real :: "ext \<Rightarrow> real" where
  "ext_real (Fin a) = a"
| "ext_real Minus_Inf = 0"

definition exact :: "(dtype \<Rightarrow> memory \<Rightarrow> real) \<Rightarrow> (real, ext) arith" where
  "exact decode = \<lparr>ar_widen = Fin, ar_narrow = ext_real, ar_of_nat = (\<lambda>n. Fin (real n)), ar_minus_infinity = Minus_Inf,
     ar_muladd = (\<lambda>x y z. fin2 (+) (fin2 (*) x y) z), ar_add = fin2 (+), ar_sub = fin2 (-), ar_mul = fin2 (*),
     ar_div = fin2 (/), ar_less = ext_less, ar_exp = ext_exp, ar_sqrt = ext_sqrt, ar_isfinite = (\<lambda>x. True),
     ar_decode = decode\<rparr>"

lemma exact_simps [simp]:
  "ar_widen (exact dec) = Fin" "ar_narrow (exact dec) = ext_real" "ar_of_nat (exact dec) n = Fin (real n)"
  "ar_minus_infinity (exact dec) = Minus_Inf" "ar_muladd (exact dec) x y z = fin2 (+) (fin2 (*) x y) z"
  "ar_add (exact dec) = fin2 (+)" "ar_sub (exact dec) = fin2 (-)" "ar_mul (exact dec) = fin2 (*)" "ar_div (exact dec) = fin2 (/)"
  "ar_less (exact dec) = ext_less" "ar_exp (exact dec) = ext_exp" "ar_sqrt (exact dec) = ext_sqrt"
  "ar_isfinite (exact dec) a = True" "ar_decode (exact dec) = dec"
  by (simp_all add: exact_def)

definition softmax_average :: "(nat \<Rightarrow> real) \<Rightarrow> (nat \<Rightarrow> real) \<Rightarrow> nat \<Rightarrow> real" where
  "softmax_average sc v k = (\<Sum>t\<le>k. exp (sc t) * v t) / (\<Sum>t\<le>k. exp (sc t))"

lemma softmax_average_shift: "(\<Sum>t\<le>k. exp (sc t - m) * v t) / (\<Sum>t\<le>k. exp (sc t - m)) = softmax_average sc v k"
proof -
  have e: "exp (sc t - m) = exp (sc t) * exp (- m)" for t by (simp add: exp_add [symmetric])
  have "(\<Sum>t\<le>k. exp (sc t - m) * w t) = (\<Sum>t\<le>k. exp (sc t) * w t) * exp (- m)" for w
    unfolding e sum_distrib_right by (intro sum.cong) simp_all
  from this [of v] this [of "\<lambda>t. 1"] show ?thesis by (simp add: softmax_average_def)
qed

lemma fold_sum: "fold (\<lambda>d acc. fin2 (+) (fin2 (*) (Fin (a d)) (Fin (b d))) acc) [0..<n] (Fin c) = Fin (c + (\<Sum>d<n. a d * b d))"
  by (induction n) simp_all

lemma dot_product_exact: "dot_product (exact dec) a b n = Fin (\<Sum>d<n. a d * b d)"
  using fold_sum [of a b n 0] by (simp add: dot_product_def)

lemma attention_scale_exact: "attention_scale (exact dec) n = Fin (1 / sqrt (real n))"
  by (simp add: attention_scale_def)

text \<open>The maximum of the scores up to a token, as both programs compute it.\<close>

fun score_max :: "(nat \<Rightarrow> real) \<Rightarrow> nat \<Rightarrow> real" where
  "score_max sc 0 = sc 0"
| "score_max sc (Suc k) = max (score_max sc k) (sc (Suc k))"

lemma online_exact:
  "fold (online_step (exact dec) (\<lambda>t. Fin (sc t)) v) [0..<Suc k] (Minus_Inf, Fin 0, Fin 0) =
     (Fin (score_max sc k), Fin (\<Sum>t\<le>k. exp (sc t - score_max sc k)), Fin (\<Sum>t\<le>k. exp (sc t - score_max sc k) * v t))"
proof (induction k)
  case 0
  then show ?case by (simp add: online_step_def)
next
  case (Suc k)
  let ?m = "score_max sc k" and ?m' = "score_max sc (Suc k)"
  have m: "(if ?m < sc (Suc k) then Fin (sc (Suc k)) else Fin ?m) = Fin ?m'" by auto
  have r: "x * exp (?m - ?m') = (\<Sum>t\<le>k. exp (sc t - ?m') * w t)" if "x = (\<Sum>t\<le>k. exp (sc t - ?m) * w t)" for x w
    unfolding that sum_distrib_right by (intro sum.cong) (simp_all add: exp_diff field_simps)
  have "fold (online_step (exact dec) (\<lambda>t. Fin (sc t)) v) [0..<Suc (Suc k)] (Minus_Inf, Fin 0, Fin 0) =
      online_step (exact dec) (\<lambda>t. Fin (sc t)) v (Suc k)
        (Fin ?m, Fin (\<Sum>t\<le>k. exp (sc t - ?m)), Fin (\<Sum>t\<le>k. exp (sc t - ?m) * v t))"
    using Suc by simp
  also have "\<dots> = (Fin ?m', Fin ((\<Sum>t\<le>k. exp (sc t - ?m)) * exp (?m - ?m') + exp (sc (Suc k) - ?m')),
      Fin ((\<Sum>t\<le>k. exp (sc t - ?m) * v t) * exp (?m - ?m') + exp (sc (Suc k) - ?m') * v (Suc k)))"
    unfolding online_step_def Let_def prod.case exact_simps ext_less.simps m by simp
  also have "\<dots> = (Fin ?m', Fin (\<Sum>t\<le>Suc k. exp (sc t - ?m')), Fin (\<Sum>t\<le>Suc k. exp (sc t - ?m') * v t))"
    using r [of "\<Sum>t\<le>k. exp (sc t - ?m)" "\<lambda>t. 1"] r [OF refl, of v] by simp
  finally show ?case .
qed

lemma online_softmax_exact:
  "online_softmax (exact dec) (\<lambda>t. Fin (sc t)) v k = softmax_average sc v k"
  unfolding online_softmax_def by (simp only: exact_simps semiring_1_class.of_nat_0 online_exact prod.case fin2.simps ext_real.simps softmax_average_shift)

text \<open>Attention as it is defined: the average of the values with the weights \<open>exp (q k / sqrt head_size)\<close>.\<close>

definition ideal_attention :: "(nat \<Rightarrow> real) \<Rightarrow> (nat \<Rightarrow> real) \<Rightarrow> (nat \<Rightarrow> real) \<Rightarrow> nat \<Rightarrow> nat \<Rightarrow> nat \<Rightarrow> nat \<Rightarrow> nat \<Rightarrow> real" where
  "ideal_attention query kd vd query_heads kv_heads head_size k index =
     (let head = index div head_size mod query_heads div (query_heads div kv_heads);
          d = index mod head_size
      in softmax_average
           (\<lambda>t. (\<Sum>d'<head_size. query (index - d + d') * kd ((t * kv_heads + head) * head_size + d')) * (1 / sqrt (real head_size)))
           (\<lambda>t. vd ((t * kv_heads + head) * head_size + d)) k)"

lemma dense_attention_exact:
  "dense_attention (exact dec) query kd vd l query_heads k index =
     ideal_attention query kd vd query_heads (pl_num_kv_heads l) (pl_head_size l) k index"
  unfolding dense_attention_def ideal_attention_def Let_def dot_product_exact attention_scale_exact exact_simps fin2.simps
    online_softmax_exact dense_index_def ..

section \<open>The reference in exact arithmetic\<close>

definition ref_sc :: "real list \<Rightarrow> real list \<Rightarrow> attention_shape \<Rightarrow> nat \<Rightarrow> nat \<Rightarrow> nat \<Rightarrow> real" where
  "ref_sc query key_t sh q_offset kv_head t =
     (\<Sum>d<as_head_size sh. query ! (q_offset + d) * key_t ! ((t * as_kv_heads sh + kv_head) * as_head_size sh + d)) *
       (1 / sqrt (real (as_head_size sh)))"

lemma ref_score_exact: "ref_score (exact dec) query key_t sh q_offset kv_head t = Fin (ref_sc query key_t sh q_offset kv_head t)"
  using fold_sum [of "\<lambda>d. query ! (q_offset + d)" "\<lambda>d. key_t ! ((t * as_kv_heads sh + kv_head) * as_head_size sh + d)" _ 0]
  by (simp add: ref_score_def ref_sc_def attention_scale_exact Let_def)

lemma ref_scores_exact:
  "ref_scores (exact dec) query key_t sh q_offset kv_head k scores =
     (fold (\<lambda>t s. s[t := Fin (ref_sc query key_t sh q_offset kv_head t)]) [0..<Suc k] scores,
      Fin (score_max (ref_sc query key_t sh q_offset kv_head) k))"
  unfolding ref_scores_def ref_score_exact
proof (induction k)
  case (Suc k)
  then show ?case by (auto simp: Let_def max_def)
qed (simp add: Let_def)

lemma ref_weights_exact:
  assumes "\<And>t. t \<le> k \<Longrightarrow> scores ! t = Fin (sc t)" and "k < length scores"
  obtains ws where "ref_weights (exact dec) k (scores, Fin m) = (ws, Fin (\<Sum>t\<le>k. exp (sc t - m)))"
    and "length ws = length scores" and "\<And>t. t \<le> k \<Longrightarrow> ws ! t = Fin (exp (sc t - m))"
proof -
  have "\<exists>ws. fold (\<lambda>t (scores, denominator).
        let weight = ar_exp (exact dec) (ar_sub (exact dec) (scores ! t) (Fin m))
        in (scores[t := weight], ar_add (exact dec) denominator weight)) [0..<n] (scores, Fin 0) =
        (ws, Fin (\<Sum>t<n. exp (sc t - m))) \<and> length ws = length scores \<and>
      (\<forall>t. t < n \<longrightarrow> ws ! t = Fin (exp (sc t - m))) \<and> (\<forall>t. n \<le> t \<longrightarrow> ws ! t = scores ! t)" if "n \<le> Suc k" for n
    using that
  proof (induction n)
    case (Suc n)
    then obtain ws where ih: "fold (\<lambda>t (scores, denominator).
        let weight = ar_exp (exact dec) (ar_sub (exact dec) (scores ! t) (Fin m))
        in (scores[t := weight], ar_add (exact dec) denominator weight)) [0..<n] (scores, Fin 0) =
        (ws, Fin (\<Sum>t<n. exp (sc t - m)))" "length ws = length scores"
      "\<forall>t. t < n \<longrightarrow> ws ! t = Fin (exp (sc t - m))" "\<forall>t. n \<le> t \<longrightarrow> ws ! t = scores ! t" by auto
    have "ws ! n = Fin (sc n)" "n < length ws" using ih(2,4) assms Suc.prems by auto
    then show ?case using ih by (auto simp: Let_def nth_list_update)
  qed simp
  from this [OF order.refl] show thesis
    using that by (auto simp: ref_weights_def lessThan_Suc_atMost less_Suc_eq_le)
qed

lemma fold_sum_atMost:
  "fold (\<lambda>t acc. fin2 (+) (fin2 (*) (fin2 (/) (Fin (w t)) (Fin den)) (Fin (v t))) acc) [0..<Suc k] (Fin 0) =
     Fin ((\<Sum>t\<le>k. w t * v t) / den)"
  by (induction k) (simp_all add: add_divide_distrib)

lemma ref_output_exact:
  assumes "\<And>t. t \<le> k \<Longrightarrow> ws ! t = Fin (w t)"
  shows "ref_output (exact dec) value_t sh kv_head k (ws, Fin den) d =
    (\<Sum>t\<le>k. w t * value_t ! ((t * as_kv_heads sh + kv_head) * as_head_size sh + d)) / den"
proof -
  let ?v = "\<lambda>t. value_t ! ((t * as_kv_heads sh + kv_head) * as_head_size sh + d)"
  have "fold (\<lambda>t acc. fin2 (+) (fin2 (*) (fin2 (/) (ws ! t) (Fin den)) (Fin (?v t))) acc) [0..<Suc k] (Fin 0) =
    fold (\<lambda>t acc. fin2 (+) (fin2 (*) (fin2 (/) (Fin (w t)) (Fin den)) (Fin (?v t))) acc) [0..<Suc k] (Fin 0)"
    by (rule fold_cong) (use assms in \<open>auto simp: less_Suc_eq_le\<close>)
  then show ?thesis unfolding fold_sum_atMost by (simp add: ref_output_def Let_def)
qed

text \<open>The body of the loop over the heads writes one row of the output.\<close>

lemma ref_head_exact:
  assumes k: "as_kv_tokens sh - as_query_tokens sh + q_token < length scores"
    and qh: "q_head < as_query_heads sh"
  obtains scores' where "length scores' = length scores"
    and "ref_head (exact dec) query key_t value_t sh q_token q_head (scores, out) =
      (scores', fold (\<lambda>i out. out[i := ideal_attention ((!) query) ((!) key_t) ((!) value_t) (as_query_heads sh) (as_kv_heads sh)
                                        (as_head_size sh) (as_kv_tokens sh - as_query_tokens sh + i div (as_query_heads sh * as_head_size sh)) i])
         [(q_token * as_query_heads sh + q_head) * as_head_size sh ..<
          (q_token * as_query_heads sh + q_head) * as_head_size sh + as_head_size sh] out)"
proof -
  let ?k = "as_kv_tokens sh - as_query_tokens sh + q_token" and ?h = "q_head div (as_query_heads sh div as_kv_heads sh)"
  let ?o = "(q_token * as_query_heads sh + q_head) * as_head_size sh"
  let ?sc = "ref_sc query key_t sh ?o ?h"
  define sl where "sl = fold (\<lambda>t s. s[t := Fin (?sc t)]) [0..<Suc ?k] scores"
  have len: "length sl = length scores" by (simp only: sl_def fold_update_length)
  have nth: "sl ! t = Fin (?sc t)" if "t \<le> ?k" for t
    using that k unfolding sl_def by (subst fold_update_nth) (auto simp: less_Suc_eq_le)
  have "?k < length sl" using k len by simp
  obtain ws where ws: "ref_weights (exact dec) ?k (sl, Fin (score_max ?sc ?k)) = (ws, Fin (\<Sum>t\<le>?k. exp (?sc t - score_max ?sc ?k)))"
    "length ws = length sl" "\<And>t. t \<le> ?k \<Longrightarrow> ws ! t = Fin (exp (?sc t - score_max ?sc ?k))"
    using ref_weights_exact [OF nth \<open>?k < length sl\<close>] by metis
  have out: "ref_output (exact dec) value_t sh ?h ?k (ws, Fin (\<Sum>t\<le>?k. exp (?sc t - score_max ?sc ?k))) d =
      ideal_attention ((!) query) ((!) key_t) ((!) value_t) (as_query_heads sh) (as_kv_heads sh) (as_head_size sh)
        (as_kv_tokens sh - as_query_tokens sh + (?o + d) div (as_query_heads sh * as_head_size sh)) (?o + d)"
    if d: "d < as_head_size sh" for d
  proof -
    have "ref_output (exact dec) value_t sh ?h ?k (ws, Fin (\<Sum>t\<le>?k. exp (?sc t - score_max ?sc ?k))) d =
      softmax_average ?sc (\<lambda>t. value_t ! ((t * as_kv_heads sh + ?h) * as_head_size sh + d)) ?k"
      using ref_output_exact [where w = "\<lambda>t. exp (?sc t - score_max ?sc ?k)", OF ws(3)] softmax_average_shift [of ?sc "score_max ?sc ?k"]
      by simp
    moreover have "ideal_attention ((!) query) ((!) key_t) ((!) value_t) (as_query_heads sh) (as_kv_heads sh) (as_head_size sh) k (?o + d) =
        softmax_average ?sc (\<lambda>t. value_t ! ((t * as_kv_heads sh + ?h) * as_head_size sh + d)) k" for k
      unfolding ideal_attention_def Let_def index_parts(2,3) [OF qh d] ref_sc_def [abs_def] by simp
    ultimately show ?thesis using index_parts(1) [OF qh d] by simp
  qed
  have mp: "map (\<lambda>d. ?o + d) [0..<as_head_size sh] = [?o ..< ?o + as_head_size sh]"
    using map_add_upt [of ?o "as_head_size sh"] by (simp add: add.commute)
  have shift: "fold (\<lambda>d out. out[?o + d := F (?o + d)]) [0..<as_head_size sh] out =
      fold (\<lambda>i out. out[i := F i]) [?o ..< ?o + as_head_size sh] out" for F :: "nat \<Rightarrow> real" and out
    by (simp only: mp [symmetric] fold_map comp_def)
  have fst_eq: "ref_weights (exact dec) ?k (ref_scores (exact dec) query key_t sh ?o ?h ?k scores) =
      (ws, Fin (\<Sum>t\<le>?k. exp (?sc t - score_max ?sc ?k)))"
    unfolding ref_scores_exact sl_def [symmetric] by (rule ws(1))
  define G where "G = (\<lambda>i. ideal_attention ((!) query) ((!) key_t) ((!) value_t) (as_query_heads sh) (as_kv_heads sh) (as_head_size sh)
      (as_kv_tokens sh - as_query_tokens sh + i div (as_query_heads sh * as_head_size sh)) i)"
  have "fold (\<lambda>d output. output[?o + d := ref_output (exact dec) value_t sh ?h ?k (ws, Fin (\<Sum>t\<le>?k. exp (?sc t - score_max ?sc ?k))) d])
      [0..<as_head_size sh] out = fold (\<lambda>d output. output[?o + d := G (?o + d)]) [0..<as_head_size sh] out"
    by (rule fold_cong) (auto simp: out G_def)
  note upd = trans [OF this shift]
  show thesis
  proof (rule that)
    show "length ws = length scores" using ws(2) len by simp
    show "ref_head (exact dec) query key_t value_t sh q_token q_head (scores, out) =
      (ws, fold (\<lambda>i out. out[i := ideal_attention ((!) query) ((!) key_t) ((!) value_t) (as_query_heads sh) (as_kv_heads sh)
                                        (as_head_size sh) (as_kv_tokens sh - as_query_tokens sh + i div (as_query_heads sh * as_head_size sh)) i])
         [?o ..< ?o + as_head_size sh] out)"
      unfolding ref_head_def Let_def prod.case fst_eq fst_conv upd unfolding G_def ..
  qed
qed

definition ideal_row :: "real list \<Rightarrow> real list \<Rightarrow> real list \<Rightarrow> attention_shape \<Rightarrow> nat \<Rightarrow> real" where
  "ideal_row query key_t value_t sh i =
     ideal_attention ((!) query) ((!) key_t) ((!) value_t) (as_query_heads sh) (as_kv_heads sh) (as_head_size sh)
       (as_kv_tokens sh - as_query_tokens sh + i div (as_query_heads sh * as_head_size sh)) i"

lemma fold_upt_extend: "a \<le> b \<Longrightarrow> fold f [b..<b + n] (fold f [a..<b] x) = fold f [a..<b + n] x"
  unfolding upt_add_eq_append [of a b n] fold_append comp_apply ..

lemma ref_heads_exact:
  assumes k: "as_kv_tokens sh - as_query_tokens sh + q_token < length scores" and m: "m \<le> as_query_heads sh"
  shows "\<exists>scores'. length scores' = length scores \<and>
    fold (ref_head (exact dec) query key_t value_t sh q_token) [0..<m] (scores, out) =
      (scores', fold (\<lambda>i out. out[i := ideal_row query key_t value_t sh i])
         [q_token * as_query_heads sh * as_head_size sh ..< q_token * as_query_heads sh * as_head_size sh + m * as_head_size sh] out)"
  using m
proof (induction m)
  case (Suc m)
  let ?upd = "\<lambda>i out. out[i := ideal_row query key_t value_t sh i]" and ?b = "q_token * as_query_heads sh * as_head_size sh"
  let ?hs = "as_head_size sh"
  obtain sc where sc: "length sc = length scores"
    "fold (ref_head (exact dec) query key_t value_t sh q_token) [0..<m] (scores, out) = (sc, fold ?upd [?b ..< ?b + m * ?hs] out)"
    using Suc by auto
  have o': "(q_token * as_query_heads sh + m) * ?hs = ?b + m * ?hs" by (simp add: add_mult_distrib)
  have "as_kv_tokens sh - as_query_tokens sh + q_token < length sc" using k sc(1) by simp
  from ref_head_exact [OF this, of m dec query key_t value_t "fold ?upd [?b ..< ?b + m * ?hs] out"] Suc.prems
  obtain sc' where sc': "length sc' = length sc"
    "ref_head (exact dec) query key_t value_t sh q_token m (sc, fold ?upd [?b ..< ?b + m * ?hs] out) =
      (sc', fold ?upd [?b + m * ?hs ..< ?b + m * ?hs + ?hs] (fold ?upd [?b ..< ?b + m * ?hs] out))"
    unfolding o' ideal_row_def [symmetric] by auto
  have "fold (ref_head (exact dec) query key_t value_t sh q_token) [0..<Suc m] (scores, out) =
      (sc', fold ?upd [?b + m * ?hs ..< ?b + m * ?hs + ?hs] (fold ?upd [?b ..< ?b + m * ?hs] out))"
    using sc(2) sc'(2) by simp
  also have "\<dots> = (sc', fold ?upd [?b ..< ?b + Suc m * ?hs] out)"
    using fold_upt_extend [of ?b "?b + m * ?hs" ?upd ?hs out] by (simp add: add.assoc add.commute [of ?hs])
  finally show ?case using sc(1) sc'(1) by auto
qed simp

lemma ref_tokens_exact:
  assumes le: "as_query_tokens sh \<le> as_kv_tokens sh" and len: "length scores = as_kv_tokens sh" and m: "m \<le> as_query_tokens sh"
  shows "\<exists>scores'. length scores' = length scores \<and>
    fold (\<lambda>q_token. fold (ref_head (exact dec) query key_t value_t sh q_token) [0..<as_query_heads sh]) [0..<m] (scores, out) =
      (scores', fold (\<lambda>i out. out[i := ideal_row query key_t value_t sh i])
         [0 ..< m * as_query_heads sh * as_head_size sh] out)"
  using m
proof (induction m)
  case (Suc m)
  let ?upd = "\<lambda>i out. out[i := ideal_row query key_t value_t sh i]" and ?b = "m * as_query_heads sh * as_head_size sh"
  obtain sc where sc: "length sc = length scores"
    "fold (\<lambda>q_token. fold (ref_head (exact dec) query key_t value_t sh q_token) [0..<as_query_heads sh]) [0..<m] (scores, out) =
       (sc, fold ?upd [0..<?b] out)"
    using Suc by auto
  have "as_kv_tokens sh - as_query_tokens sh + m < length sc" using le len sc(1) Suc.prems by simp
  from ref_heads_exact [OF this order.refl, of dec query key_t value_t "fold ?upd [0..<?b] out"]
  obtain sc' where sc': "length sc' = length sc"
    "fold (ref_head (exact dec) query key_t value_t sh m) [0..<as_query_heads sh] (sc, fold ?upd [0..<?b] out) =
      (sc', fold ?upd [?b ..< ?b + as_query_heads sh * as_head_size sh] (fold ?upd [0..<?b] out))"
    by auto
  have "?b + as_query_heads sh * as_head_size sh = Suc m * as_query_heads sh * as_head_size sh" by (simp add: add_mult_distrib)
  then show ?case
    using sc sc' fold_upt_extend [of 0 ?b ?upd "as_query_heads sh * as_head_size sh" out] by simp
qed simp

lemma reference_attention_exact:
  assumes "0 < as_query_heads sh" "0 < as_kv_heads sh" "0 < as_head_size sh" "as_query_heads sh mod as_kv_heads sh = 0"
    and le: "as_query_tokens sh \<le> as_kv_tokens sh"
    and "length query = as_query_tokens sh * as_query_heads sh * as_head_size sh"
    and "length key_t = as_kv_tokens sh * as_kv_heads sh * as_head_size sh" and "length value_t = length key_t"
    and "length query \<le> size_max" "length key_t \<le> size_max"
  shows "reference_attention (exact dec) query key_t value_t sh = Inr (map (ideal_row query key_t value_t sh) [0..<length query])"
proof -
  have pos: "as_query_tokens sh * as_query_heads sh \<le> size_max" "as_kv_tokens sh * as_kv_heads sh \<le> size_max"
    using assms(3,6,7,9,10) by (metis le_trans mult.commute mult_le_mono1 mult_1 Suc_leI One_nat_def)+
  have mult: "checked_multiply a b = Inr (a * b)" if "a * b \<le> size_max" for a b
    using that by (simp add: checked_multiply_iff)
  obtain sc where "fold (\<lambda>q_token. fold (ref_head (exact dec) query key_t value_t sh q_token) [0..<as_query_heads sh])
      [0..<as_query_tokens sh] (replicate (as_kv_tokens sh) (Fin 0), replicate (length query) 0) =
      (sc, fold (\<lambda>i out. out[i := ideal_row query key_t value_t sh i]) [0 ..< length query] (replicate (length query) 0))"
    using ref_tokens_exact [OF le, of "replicate (as_kv_tokens sh) (Fin 0)", OF _ order.refl] unfolding assms(6) by fastforce
  then have run: "snd (fold (\<lambda>q_token. fold (ref_head (exact dec) query key_t value_t sh q_token) [0..<as_query_heads sh])
      [0..<as_query_tokens sh] (replicate (as_kv_tokens sh) (Fin 0), replicate (length query) 0)) =
      map (ideal_row query key_t value_t sh) [0..<length query]"
    by (simp add: fold_update_upto)
  show ?thesis
  proof (cases "as_query_tokens sh = 0")
    case True
    then show ?thesis using assms pos by (simp add: reference_attention_def mult check_finite_def Let_def)
  next
    case False
    then show ?thesis using assms pos run
      by (simp add: reference_attention_def mult check_finite_def Let_def del: replicate.simps)
  qed
qed

section \<open>Paged against dense\<close>

lemma kr_index_less:
  assumes own: "ss_owned r p q" and inv: "ks_inv p s" and kind: "kind = Key \<or> kind = Value"
    and i: "i < ss_num_tokens q * pl_num_kv_heads (ks_layout s) * pl_head_size (ks_layout s)"
  shows "kr_index kind (map (ss_page q) [0..<ss_num_allocated_blocks q]) (ks_layout s) i < 2 * pl_elements (ks_layout s)"
proof -
  have l: "pl_inv (ks_layout s)" and cap: "pl_num_blocks (ks_layout s) = pp_capacity p"
    and bs: "pl_block_size (ks_layout s) = ss_block_size q"
    using inv ss_ownedD(1) [OF own] by (simp_all add: ks_inv_def)
  note t = tensor_index [OF i]
  note b = ss_position_block [OF own t(1)]
  have "pl_valid kind (map (ss_page q) [0..<ss_num_allocated_blocks q] !
      (i div (pl_num_kv_heads (ks_layout s) * pl_head_size (ks_layout s)) div pl_block_size (ks_layout s)))
      (i div pl_head_size (ks_layout s) mod pl_num_kv_heads (ks_layout s))
      (i div (pl_num_kv_heads (ks_layout s) * pl_head_size (ks_layout s)) mod pl_block_size (ks_layout s))
      (i mod pl_head_size (ks_layout s)) (ks_layout s)"
    using t(2,3) kind b ss_ownedD(2,4) [OF own] by (simp add: pl_valid_def bs cap)
  from pl_index_less [OF this] show ?thesis by (simp add: kr_index_def Let_def)
qed

lemma paged_attention_shape:
  assumes "paged_attention ar env launch order base query output query_tokens query_heads (q, p) s = (Inr (), out)"
  shows "query_heads mod pl_num_kv_heads (ks_layout s) = 0" and "0 < query_heads" and "query_tokens \<le> ss_num_tokens q"
    and "query_tokens * query_heads * pl_head_size (ks_layout s) \<le> size_max" and "query_tokens = 0 \<Longrightarrow> out = fb_elements output"
proof -
  let ?l = "ks_layout s"
  have c: "ks_uses_pool (ss_table q) s \<and> \<not> (ss_block_size q \<noteq> pl_block_size ?l \<or> query_heads = 0 \<or>
           query_heads mod pl_num_kv_heads ?l \<noteq> 0 \<or> query_tokens > ss_num_tokens q)"
  proof (rule ccontr)
    assume "\<not> ?thesis"
    then have "paged_attention ar env launch order base query output query_tokens query_heads (q, p) s = (Inl InvalidArgument, fb_elements output)"
      unfolding paged_attention_def Let_def prod.case by presburger
    then show False using assms by simp
  qed
  then show "query_heads mod pl_num_kv_heads ?l = 0" "0 < query_heads" "query_tokens \<le> ss_num_tokens q" by auto
  show "query_tokens * query_heads * pl_head_size ?l \<le> size_max"
    using assms c unfolding paged_attention_def Let_def prod.case
    by (auto simp: bind_res_Inr_iff checked_multiply_iff split: if_splits sum.splits)
  show "out = fb_elements output" if "query_tokens = 0"
    using assms c that unfolding paged_attention_def Let_def prod.case
    by (auto simp: bind_res_Inr_iff checked_multiply_iff split: if_splits sum.splits)
qed

lemma read_paged_kv_size:
  assumes "read_paged_kv env launch order base ko vo (q, p) s = (Inr (), kv)"
  shows "ss_num_tokens q * pl_num_kv_heads (ks_layout s) * pl_head_size (ks_layout s) \<le> size_max"
proof (cases "ss_num_tokens q = 0")
  case False
  then show ?thesis using assms unfolding read_paged_kv_def Let_def prod.case
    by (auto simp: bind_res_Inr_iff checked_multiply_iff split: if_splits sum.splits)
qed simp

text \<open>The tensors that \<open>read_paged_kv\<close> gathers are the dense tensors.\<close>

lemma read_paged_kv_dense:
  assumes inv: "ks_inv p s" and own: "ss_owned r p q"
    and rd: "read_paged_kv env launch order base ko vo (q, p) s = (Inr (), (k, v))"
    and sched: "is_schedule n order" and n: "n = ss_num_tokens q * pl_num_kv_heads (ks_layout s) * pl_head_size (ks_layout s)"
    and i: "i < n"
  defines "w \<equiv> pl_element_bytes (ks_layout s)" and "blocks \<equiv> map (ss_page q) [0..<ss_num_allocated_blocks q]"
  shows "ar_decode ar (pl_dtype (ks_layout s)) (peek (i * w) w k) = dense ar Key blocks s i"
    and "ar_decode ar (pl_dtype (ks_layout s)) (peek (i * w) w v) = dense ar Value blocks s i"
proof -
  have ne: "ss_num_tokens q \<noteq> 0" using i unfolding n by (intro notI) simp
  have ord: "set order = {..<n}" using is_schedule_iff [of n order] sched i by auto
  note rl = read_paged_kv_launches [OF inv own rd ne, folded n]
  note ok = launch_read_ok [OF inv refl rl ord i kr_index_less [OF own inv]]
  have "peek (i * w) w k = ks_elem (kr_index Key blocks (ks_layout s) i) s"
    "peek (i * w) w v = ks_elem (kr_index Value blocks (ks_layout s) i) s"
    unfolding w_def blocks_def by (rule ok(1) ok(2); simp add: n)+
  then show "ar_decode ar (pl_dtype (ks_layout s)) (peek (i * w) w k) = dense ar Key blocks s i"
    "ar_decode ar (pl_dtype (ks_layout s)) (peek (i * w) w v) = dense ar Value blocks s i" by (simp_all add: dense_def)
qed

text \<open>Every output of \<open>paged_attention\<close>, in any arithmetic.\<close>

lemma paged_attention_dense:
  assumes inv: "ks_inv p s" and own: "ss_owned r p q"
    and pa: "paged_attention ar env launch order base query output query_tokens query_heads (q, p) s = (Inr (), out)"
    and sched: "is_schedule n order" and n: "n = query_tokens * query_heads * pl_head_size (ks_layout s)" and i: "i < n"
  defines "blocks \<equiv> map (ss_page q) [0..<ss_num_allocated_blocks q]"
  shows "n \<le> length (fb_elements query)" and "length out = length (fb_elements output)" and "n \<le> length out"
    and "out ! i = dense_attention ar ((!) (fb_elements query)) (dense ar Key blocks s) (dense ar Value blocks s) (ks_layout s) query_heads
      (ss_num_tokens q - query_tokens + i div (query_heads * pl_head_size (ks_layout s))) i"
proof -
  have ne: "query_tokens \<noteq> 0" using i unfolding n by (intro notI) simp
  have ord: "set order = {..<n}" using is_schedule_iff [of n order] sched i by auto
  note pl = paged_attention_launches [OF inv own pa ne, folded n]
  note ok = launch_attention_ok [OF inv refl pl(2,3) ord pl(1)]
  show "n \<le> length (fb_elements query)" "length out = length (fb_elements output)" "n \<le> length out" using ok(1-3) by simp_all
  show "out ! i = dense_attention ar ((!) (fb_elements query)) (dense ar Key blocks s) (dense ar Value blocks s) (ks_layout s) query_heads
      (ss_num_tokens q - query_tokens + i div (query_heads * pl_head_size (ks_layout s))) i"
    unfolding blocks_def by (rule ok(4) [OF i])
qed

section \<open>Properties\<close>

text \<open>C31: Paged attention computes attention. In exact arithmetic the kernels, which look every token
  up in the page table and accumulate the softmax in a single rescaled pass, produce exactly the
  output of the CPU reference on the dense tensors that \<open>read_paged_kv\<close> gathers for the
  sequence, for every page table, grouping of heads, causal offset and thread order. So the two
  programs differ by rounding only.\<close>

theorem paged_attention_is_reference:
  fixes decode :: "dtype \<Rightarrow> memory \<Rightarrow> real"
  assumes "ss_owned r p q" and "ks_inv p s"
    and "paged_attention (exact decode) env launch order base query output query_tokens query_heads (q, p) s = (Inr (), out)"
    and "read_paged_kv env' launch' order' base' ko vo (q, p) s = (Inr (), (k, v))"
    and "n = query_tokens * query_heads * pl_head_size (ks_layout s)" and "is_schedule n order"
    and "m = ss_num_tokens q * pl_num_kv_heads (ks_layout s) * pl_head_size (ks_layout s)" and "is_schedule m order'"
    and "element = (\<lambda>b i. decode (pl_dtype (ks_layout s)) (peek (i * pl_element_bytes (ks_layout s)) (pl_element_bytes (ks_layout s)) b))"
  shows "reference_attention (exact decode) (take n (fb_elements query)) (map (element k) [0..<m]) (map (element v) [0..<m])
      \<lparr>as_query_tokens = query_tokens, as_kv_tokens = ss_num_tokens q, as_query_heads = query_heads,
       as_kv_heads = pl_num_kv_heads (ks_layout s), as_head_size = pl_head_size (ks_layout s)\<rparr> = Inr (take n out)"
proof -
  let ?l = "ks_layout s" and ?q = "take n (fb_elements query)" and ?k = "map (element k) [0..<m]" and ?v = "map (element v) [0..<m]"
  let ?sh = "\<lparr>as_query_tokens = query_tokens, as_kv_tokens = ss_num_tokens q, as_query_heads = query_heads,
       as_kv_heads = pl_num_kv_heads ?l, as_head_size = pl_head_size ?l\<rparr>"
  let ?blocks = "map (ss_page q) [0..<ss_num_allocated_blocks q]"
  have l: "pl_inv ?l" using assms(2) by (simp add: ks_inv_def)
  note pos = pl_invD(2,4) [OF l]
  note shp = paged_attention_shape [OF assms(3)]
  note paged = paged_attention_dense [OF assms(2,1,3,6,5)]
  have lq: "length ?q = n" and lo: "length (take n out) = n" using paged(1,3) by (cases "n = 0"; simp)+
  have ref: "reference_attention (exact decode) ?q ?k ?v ?sh = Inr (map (ideal_row ?q ?k ?v ?sh) [0..<length ?q])"
    by (rule reference_attention_exact)
      (use shp pos lq assms(5,7) read_paged_kv_size [OF assms(4)] in simp_all)
  have kv: "?k ! i = dense (exact decode) Key ?blocks s i \<and> ?v ! i = dense (exact decode) Value ?blocks s i" if "i < m" for i
    using read_paged_kv_dense [OF assms(2,1,4,8,7) that, where ar = "exact decode"] that by (simp add: assms(9))
  have row: "ideal_row ?q ?k ?v ?sh i = out ! i" if i: "i < n" for i
  proof -
    let ?c = "ss_num_tokens q - query_tokens + i div (query_heads * pl_head_size ?l)"
    have "i div (query_heads * pl_head_size ?l) < query_tokens"
      using tensor_index(1) [of i query_tokens query_heads "pl_head_size ?l"] i assms(5) by simp
    then have c: "?c + 1 \<le> ss_num_tokens q" using shp(3) by simp
    have m: "(?c + 1) * pl_num_kv_heads ?l * pl_head_size ?l \<le> m" unfolding assms(7) by (intro mult_le_mono1 c)
    have q: "?q ! (i - i mod pl_head_size ?l + d) = fb_elements query ! (i - i mod pl_head_size ?l + d)" if "d < pl_head_size ?l" for d
    proof -
      have "i div pl_head_size ?l < query_tokens * query_heads" using i assms(5) by (simp add: less_mult_imp_div_less)
      from block_end [OF this, of "pl_head_size ?l"] have "i div pl_head_size ?l * pl_head_size ?l + d < n"
        using that assms(5) by linarith
      then show ?thesis by (simp add: minus_mod_eq_div_mult)
    qed
    have "out ! i = dense_attention (exact decode) ((!) (fb_elements query)) (dense (exact decode) Key ?blocks s)
        (dense (exact decode) Value ?blocks s) ?l query_heads ?c i" by (rule paged(4) [OF i])
    also have "\<dots> = dense_attention (exact decode) ((!) ?q) ((!) ?k) ((!) ?v) ?l query_heads ?c i"
      by (rule dense_attention_cong) (use kv m shp(1,2) pos q in auto)
    finally show ?thesis by (simp add: ideal_row_def dense_attention_exact)
  qed
  have "map (ideal_row ?q ?k ?v ?sh) [0..<n] = take n out"
    by (rule nth_equalityI) (use row lo in simp_all)
  then show ?thesis using ref lq by simp
qed


text \<open>Whether a call succeeds does not depend on the arithmetic.\<close>

lemma and_then_fst:
  "fst m = fst m' \<Longrightarrow> (\<And>x s s'. fst (f x s) = fst (g x s')) \<Longrightarrow> fst (and_then m f) = fst (and_then m' g)"
  by (cases "(m, f)" rule: and_then.cases; cases "(m', g)" rule: and_then.cases) auto

lemma launch_attention_fst:
  fixes ar :: "('f, 'd) arith" and ar' :: "('f, 'e) arith"
  shows "fst (launch_attention ar launch order w blocks query n qt kt qh p s out) =
    fst (launch_attention ar' launch order w blocks query n qt kt qh p s out)"
  by (simp add: launch_attention_def Let_def split: sum.split prod.split)

lemma paged_attention_fst:
  fixes ar :: "('f, 'd) arith" and ar' :: "('f, 'e) arith"
  shows "fst (paged_attention ar env launch order base query output qt qh st s) =
    fst (paged_attention ar' env launch order base query output qt qh st s)"
  unfolding paged_attention_def Let_def
  by (auto split: sum.split prod.split intro!: and_then_fst launch_attention_fst)

definition no_arith :: "(real, unit) arith" where
  "no_arith = \<lparr>ar_widen = (\<lambda>x. ()), ar_narrow = (\<lambda>x. 0), ar_of_nat = (\<lambda>n. ()), ar_minus_infinity = (),
     ar_muladd = (\<lambda>x y z. ()), ar_add = (\<lambda>x y. ()), ar_sub = (\<lambda>x y. ()), ar_mul = (\<lambda>x y. ()),
     ar_div = (\<lambda>x y. ()), ar_less = (\<lambda>x y. False), ar_exp = (\<lambda>x. ()), ar_sqrt = (\<lambda>x. ()), ar_isfinite = (\<lambda>x. True),
     ar_decode = (\<lambda>dt bs. 0)\<rparr>"

definition demo_floats :: "nat \<Rightarrow> real list \<Rightarrow> real float_buffer" where
  "demo_floats address xs = \<lparr>fb_address = address, fb_on_device = True, fb_elements = xs\<rparr>"

definition first_byte :: "dtype \<Rightarrow> memory \<Rightarrow> real" where
  "first_byte dt bs = real (unat (hd bs))"

definition demo_paged :: "unit res \<times> real list" where
  "demo_paged = paged_attention (exact first_byte) good_cuda True [1, 0] 100000 (demo_floats 1000 [1, 2]) (demo_floats 2000 [0, 0])
     1 2 (demo_q, demo_p) demo_storage"

definition demo_dense :: "unit res \<times> memory \<times> memory" where
  "demo_dense = read_paged_kv good_cuda True [1, 2, 0] 100000 (demo_buffer 3000 (replicate 6 0)) (demo_buffer 4000 (replicate 6 0))
     (demo_q, demo_p) demo_storage"

lemma paged_attention_is_reference_witness:
  "reference_attention (exact first_byte) [1, 2]
     (map (\<lambda>i. first_byte Float16 (peek (i * 2) 2 (fst (snd demo_dense)))) [0..<3])
     (map (\<lambda>i. first_byte Float16 (peek (i * 2) 2 (snd (snd demo_dense)))) [0..<3])
     \<lparr>as_query_tokens = 1, as_kv_tokens = 3, as_query_heads = 2, as_kv_heads = 1, as_head_size = 1\<rparr> = Inr (take 2 (snd demo_paged))"
proof -
  have "fst demo_paged = fst (paged_attention no_arith good_cuda True [1, 0] 100000 (demo_floats 1000 [1, 2]) (demo_floats 2000 [0, 0])
     1 2 (demo_q, demo_p) demo_storage)" unfolding demo_paged_def by (rule paged_attention_fst)
  also have "\<dots> = Inr ()" by code_simp
  finally have pa: "demo_paged = (Inr (), snd demo_paged)" by (metis prod.collapse)
  have "fst demo_dense = Inr ()" by code_simp
  then have rd: "demo_dense = (Inr (), (fst (snd demo_dense), snd (snd demo_dense)))" by (metis prod.collapse)
  have p: "pp_capacity demo_p = pp_capacity demo_pool" "pp_block_size demo_p = pp_block_size demo_pool" by code_simp+
  note inv = ks_inv_pool [OF demo_storage_inv p]
  have n: "ss_num_tokens demo_q = 3" "pl_num_kv_heads (ks_layout demo_storage) = 1" "pl_head_size (ks_layout demo_storage) = 1"
    "pl_element_bytes (ks_layout demo_storage) = 2" "pl_dtype (ks_layout demo_storage) = Float16" by code_simp+
  have sch: "is_schedule 2 [1, 0]" "is_schedule 3 [1, 2, 0]" by (auto simp: is_schedule_iff)
  have mn: "2 = 1 * 2 * pl_head_size (ks_layout demo_storage)"
    "3 = ss_num_tokens demo_q * pl_num_kv_heads (ks_layout demo_storage) * pl_head_size (ks_layout demo_storage)"
    by (simp_all add: n)
  note c = paged_attention_is_reference [OF demo_owned inv pa [unfolded demo_paged_def] rd [unfolded demo_dense_def]
      mn(1) sch(1) mn(2) sch(2) refl,
      folded demo_paged_def demo_dense_def, unfolded n]
  have "fb_elements (demo_floats 1000 [1, 2]) = [1, 2]" by (simp add: demo_floats_def)
  then show ?thesis using c by simp
qed


lemma batch_sequences_ok_iff:
  "length ns = length qs \<Longrightarrow> batch_sequences_ok s qs ns = Inr () \<longleftrightarrow>
     (\<forall>i < length qs. ks_uses_pool (ss_table (qs ! i)) s \<and> ss_block_size (qs ! i) = pl_block_size (ks_layout s) \<and> ns ! i \<noteq> 0)"
proof (induction s qs ns rule: batch_sequences_ok.induct)
  case (1 s q qs n ns)
  then show ?case by (auto simp: less_Suc_eq_0_disj split: if_splits)
qed auto

lemma paged_attention_batch_launches:
  assumes inv: "ks_inv p s" and own: "\<forall>x \<in> set ss. \<exists>q. x = Some q \<and> ss_owned r p q"
    and pa: "paged_attention_batch ar env env_lengths launch order base query output query_heads ss p s = (Inr (), out)"
    and ne: "ss \<noteq> []"
  defines "l \<equiv> ks_layout s"
  obtains t where "build_batch_block_table ss p = Inr t"
    and "launch_attention_batch ar launch order (pl_element_bytes l) (bb_block_table t) (bb_sequence_lengths t) (fb_elements query)
           (length ss * query_heads * pl_head_size l) (bb_max_blocks_per_sequence t) query_heads p s (fb_elements output) = (Inr (), out)"
    and "query_heads mod pl_num_kv_heads l = 0" and "0 < query_heads"
    and "\<And>i. i < length ss \<Longrightarrow> ss_num_tokens (the (ss ! i)) \<noteq> 0"
proof -
  have l: "pl_inv l" using inv by (simp add: ks_inv_def l_def)
  note dt = pl_invD(6) [OF l]
  have qh: "query_heads mod pl_num_kv_heads l = 0" "0 < query_heads"
    using pa unfolding paged_attention_batch_def Let_def l_def by (auto split: if_splits)
  define X where "X = bind_res (build_batch_block_table ss p) (\<lambda>t.
      bind_res (batch_sequences_ok s (map the ss) (bb_sequence_lengths t)) (\<lambda>_.
      if \<exists>b \<in> set (bb_block_table t). b \<noteq> invalid_block \<and> b \<ge> pl_num_blocks l then Inl OutOfRange
      else
        bind_res (checked_multiply (length ss) query_heads) (\<lambda>n.
        bind_res (checked_multiply n (pl_head_size l)) (\<lambda>total_elements.
        bind_res (checked_multiply total_elements 4) (\<lambda>tensor_bytes. Inr (t, total_elements, tensor_bytes))))))"
  define Y where "Y = (\<lambda>(t :: batch_block_table) tensor_bytes. bind_res (checked_multiply (length (bb_block_table t)) 8) (\<lambda>table_bytes.
      bind_res (checked_multiply (length ss) 8) (\<lambda>lengths_bytes.
      bind_res (attention_buffers [env, env_lengths] base query output tensor_bytes s) (\<lambda>_.
      bytes_for_dtype (pl_dtype l)))))"
  define run where "run = (\<lambda>(t :: batch_block_table) n w. and_then (launch_attention_batch ar launch order w (bb_block_table t) (bb_sequence_lengths t)
      (fb_elements query) n (bb_max_blocks_per_sequence t) query_heads p s (fb_elements output))
      (\<lambda>_ out. if \<not> cu_sync env then (Inl RuntimeError, out) else (Inr (), out)))"
  have pa: "(case X of Inl e \<Rightarrow> (Inl e, fb_elements output)
      | Inr (t, n, tensor_bytes) \<Rightarrow>
          if fb_address query = 0 \<or> fb_address output = 0 then (Inl InvalidArgument, fb_elements output)
          else (case Y t tensor_bytes of Inl e \<Rightarrow> (Inl e, fb_elements output) | Inr w \<Rightarrow> run t n w)) = (Inr (), out)"
    using pa qh ne unfolding paged_attention_batch_def Let_def X_def Y_def run_def l_def by (simp only: if_False de_Morgan_disj not_gr0) simp
  then obtain t n tensor_bytes where x: "X = Inr (t, n, tensor_bytes)" by (cases X) auto
  then obtain w where y: "Y t tensor_bytes = Inr w" and r: "run t n w = (Inr (), out)"
    using pa by (cases "Y t tensor_bytes") (auto split: if_splits)
  obtain t0 where b: "build_batch_block_table ss p = Inr t0"
    using x unfolding X_def by (cases "build_batch_block_table ss p") simp_all
  have sq: "batch_sequences_ok s (map the ss) (bb_sequence_lengths t0) = Inr ()"
    using x b unfolding X_def by (cases "batch_sequences_ok s (map the ss) (bb_sequence_lengths t0)") simp_all
  have m: "bind_res (checked_multiply (length ss) query_heads) (\<lambda>n.
        bind_res (checked_multiply n (pl_head_size l)) (\<lambda>total_elements.
        bind_res (checked_multiply total_elements 4) (\<lambda>tensor_bytes. Inr (t0, total_elements, tensor_bytes)))) = Inr (t, n, tensor_bytes)"
    using x b sq unfolding X_def by (simp split: if_splits)
  obtain n1 where n1: "checked_multiply (length ss) query_heads = Inr n1"
    using m by (cases "checked_multiply (length ss) query_heads") simp_all
  obtain n2 where n2: "checked_multiply n1 (pl_head_size l) = Inr n2"
    using m n1 by (cases "checked_multiply n1 (pl_head_size l)") simp_all
  obtain n3 where n3: "checked_multiply n2 4 = Inr n3"
    using m n1 n2 by (cases "checked_multiply n2 4") simp_all
  have m: "t0 = t" "n2 = n" using m n1 n2 n3 by simp_all
  have t: "build_batch_block_table ss p = Inr t" "batch_sequences_ok s (map the ss) (bb_sequence_lengths t) = Inr ()"
    "n = length ss * query_heads * pl_head_size l"
    using b sq n1 n2 m by (simp_all add: checked_multiply_iff)
  note ok = build_batch_block_table_ok(1) [OF own t(1)]
  have pos: "ss_num_tokens (the (ss ! i)) \<noteq> 0" if "i < length ss" for i
    using batch_sequences_ok_iff [of "bb_sequence_lengths t" "map the ss" s] ok t(2) that by simp
  have "w = pl_element_bytes l" using y dt unfolding Y_def by (auto simp: bind_res_Inr_iff)
  then have la: "launch_attention_batch ar launch order (pl_element_bytes l) (bb_block_table t) (bb_sequence_lengths t) (fb_elements query)
           (length ss * query_heads * pl_head_size l) (bb_max_blocks_per_sequence t) query_heads p s (fb_elements output) = (Inr (), out)"
    using r unfolding run_def t(3) by (auto simp: and_then_Inr_iff split: if_splits)
  show thesis by (rule that [OF t(1) la qh pos])
qed

text \<open>Two page tables that agree on the pages of the first tokens give the same tensor there.\<close>

lemma dense_table_cong:
  assumes "i < n * pl_num_kv_heads (ks_layout s) * pl_head_size (ks_layout s)"
    and "\<And>t. t < n \<Longrightarrow> row ! (t div pl_block_size (ks_layout s)) = blocks ! (t div pl_block_size (ks_layout s))"
  shows "dense ar kind row s i = dense ar kind blocks s i"
  using assms(2) [OF tensor_index(1) [OF assms(1)]] by (simp add: dense_def kr_index_def Let_def)

text \<open>C32: Batched decoding changes nothing. In every arithmetic, so bit for bit on every device, the row
  that \<open>paged_attention_batch\<close> computes for a request is the output that \<open>paged_attention\<close>
  computes for that request alone with its last token as the query, whatever the other
  requests of the batch, the padding of the table and the order of the threads are.\<close>

theorem batch_row_is_single:
  assumes "ks_inv p s" and "\<forall>x \<in> set ss. \<exists>q. x = Some q \<and> ss_owned r p q"
    and "paged_attention_batch ar env env_lengths launch order base query output query_heads ss p s = (Inr (), out)"
    and "i < length ss" and "ss ! i = Some q"
    and "paged_attention ar env' launch' order' base' query' output' 1 query_heads (q, p) s = (Inr (), out')"
    and "n = query_heads * pl_head_size (ks_layout s)" and "is_schedule (length ss * n) order" and "is_schedule n order'"
    and "take n (drop (i * n) (fb_elements query)) = take n (fb_elements query')"
  shows "take n (drop (i * n) out) = take n out'"
proof -
  let ?l = "ks_layout s" and ?hs = "pl_head_size (ks_layout s)"
  have l: "pl_inv ?l" using assms(1) by (simp add: ks_inv_def)
  note pos = pl_invD(2,4) [OF l]
  have own: "ss_owned r p q" using assms(2,4,5) nth_mem by fastforce
  have ne: "ss \<noteq> []" using assms(4) by auto
  obtain t where t: "build_batch_block_table ss p = Inr t"
    "launch_attention_batch ar launch order (pl_element_bytes ?l) (bb_block_table t) (bb_sequence_lengths t) (fb_elements query)
           (length ss * n) (bb_max_blocks_per_sequence t) query_heads p s (fb_elements output) = (Inr (), out)"
    "query_heads mod pl_num_kv_heads ?l = 0" "0 < query_heads"
    "\<And>i. i < length ss \<Longrightarrow> ss_num_tokens (the (ss ! i)) \<noteq> 0"
    using paged_attention_batch_launches [OF assms(1,2,3) ne] unfolding assms(7) mult.assoc by blast
  note tab = build_batch_block_table_ok(1) [OF assms(2) t(1)]
  let ?w = "bb_max_blocks_per_sequence t" and ?blocks = "map (ss_page q) [0..<ss_num_allocated_blocks q]"
  let ?row = "drop (i * ?w) (bb_block_table t)"
  have n: "0 < n" using t(4) pos by (simp add: assms(7))
  have ord: "set order = {..<length ss * n}" using is_schedule_iff [of "length ss * n" order] assms(8) n ne by auto
  note ok = launch_attention_batch_ok [OF assms(1) refl t(3,4) ord t(2), folded assms(7)]
  have "n = 1 * query_heads * ?hs" by (simp add: assms(7))
  note single = paged_attention_dense [OF assms(1) own assms(6,9) this]
  have alloc: "ss_num_allocated_blocks q \<le> ?w" using tab nth_mem [OF assms(4)] assms(5) by fastforce
  have len: "bb_sequence_lengths t ! i = ss_num_tokens q" "ss_num_tokens q \<noteq> 0"
    using tab t(5) [OF assms(4)] assms(4,5) by simp_all
  have row: "?row ! (tok div pl_block_size ?l) = ?blocks ! (tok div pl_block_size ?l)" if "tok < ss_num_tokens q" for tok
  proof -
    have bs: "pl_block_size ?l = ss_block_size q" using assms(1) ss_ownedD(1) [OF own] by (simp add: ks_inv_def)
    note b = ss_position_block [OF own that, folded bs]
    have "i * ?w + ?w \<le> length ss * ?w" by (rule block_end [OF assms(4)])
    then have "?row ! (tok div pl_block_size ?l) = bb_block_table t ! (i * ?w + tok div pl_block_size ?l)"
      by (intro nth_drop) (use tab in linarith)
    then show ?thesis using tab assms(4,5) b alloc by simp
  qed
  have eq: "out ! (i * n + j) = out' ! j" if j: "j < n" for j
  proof -
    have I: "i * n + j < length ss * n" using horner_step_less [OF assms(4) j] .
    have split: "i * n + j = j + (i * query_heads) * ?hs" by (simp add: assms(7))
    have parts: "(i * n + j) div n = i" "(i * n + j) mod ?hs = j mod ?hs" "(i * n + j) div ?hs = i * query_heads + j div ?hs"
    proof -
      show "(i * n + j) div n = i" using j by simp
      show "(i * n + j) mod ?hs = j mod ?hs" by (simp add: split)
      show "(i * n + j) div ?hs = i * query_heads + j div ?hs"
        unfolding split using div_mult_self1 [of ?hs j "i * query_heads"] pos by simp
    qed
    have jq: "j - j mod ?hs + d < n" if "d < ?hs" for d
    proof -
      have "j div ?hs < query_heads" using j by (simp add: assms(7) less_mult_imp_div_less)
      from block_end [OF this, of ?hs] show ?thesis using that assms(7) by (simp add: minus_mod_eq_div_mult)
    qed
    have shift: "i * n + j - j mod ?hs = i * n + (j - j mod ?hs)" by simp
    have q: "fb_elements query ! (i * n + j - (i * n + j) mod ?hs + d) = fb_elements query' ! (j - j mod ?hs + d)" if "d < ?hs" for d
    proof -
      define x where "x = j - j mod ?hs + d"
      have "take n (drop (i * n) (fb_elements query)) ! x = take n (fb_elements query') ! x" using assms(10) by simp
      moreover have "i * n \<le> length (fb_elements query)" using ok(1) I by linarith
      moreover have "x < n" using jq [OF that] by (simp add: x_def)
      ultimately have "fb_elements query ! (i * n + x) = fb_elements query' ! x" by simp
      moreover have "i * n + j - (i * n + j) mod ?hs + d = i * n + x" using mod_less_eq_dividend [of j ?hs] unfolding parts(2) x_def by linarith
      ultimately show ?thesis by (simp only: x_def)
    qed
    have "out ! (i * n + j) = dense_attention ar ((!) (fb_elements query)) (dense ar Key ?row s) (dense ar Value ?row s) ?l query_heads
        (size_dec (bb_sequence_lengths t ! i)) (i * n + j)"
      using ok(4) [OF I] by (simp add: Let_def parts(1))
    also have "size_dec (bb_sequence_lengths t ! i) = ss_num_tokens q - 1 + j div n"
      using len j by (simp add: size_dec_def)
    also have "dense_attention ar ((!) (fb_elements query)) (dense ar Key ?row s) (dense ar Value ?row s) ?l query_heads
        (ss_num_tokens q - 1 + j div n) (i * n + j) =
      dense_attention ar ((!) (fb_elements query')) (dense ar Key ?blocks s) (dense ar Value ?blocks s) ?l query_heads
        (ss_num_tokens q - 1 + j div n) j"
    proof (rule dense_attention_cong)
      show "dense ar Key ?row s x = dense ar Key ?blocks s x \<and> dense ar Value ?row s x = dense ar Value ?blocks s x"
        if "x < (ss_num_tokens q - 1 + j div n + 1) * pl_num_kv_heads ?l * ?hs" for x
        using dense_table_cong [of x "ss_num_tokens q" s ?row ?blocks ar] row that len(2) j by simp
    qed (use t(3,4) pos q parts(2,3) in auto)
    also have "\<dots> = out' ! j" using single(4) [OF j] by (simp add: assms(7))
    finally show ?thesis .
  qed
  have "length (take n out') = n" using single(3) n by simp
  moreover have "i * n + n \<le> length out" using block_end [OF assms(4), of n] ok(2,3) by linarith
  ultimately show ?thesis by (intro nth_equalityI) (use eq in simp_all)
qed

text \<open>For the witness: integers in place of floats, with two to the power in place of \<open>exp\<close>.\<close>

definition int_arith :: "(int, int) arith" where
  "int_arith = \<lparr>ar_widen = (\<lambda>x. x), ar_narrow = (\<lambda>x. x), ar_of_nat = int, ar_minus_infinity = -100,
     ar_muladd = (\<lambda>x y z. x * y + z), ar_add = (+), ar_sub = (-), ar_mul = (*),
     ar_div = (div), ar_less = (<), ar_exp = (\<lambda>x. if x < 0 then 0 else 1), ar_sqrt = (\<lambda>x. x), ar_isfinite = (\<lambda>x. True),
     ar_decode = (\<lambda>dt bs. uint (hd bs))\<rparr>"

definition demo_ints :: "nat \<Rightarrow> int list \<Rightarrow> int float_buffer" where
  "demo_ints address xs = \<lparr>fb_address = address, fb_on_device = True, fb_elements = xs\<rparr>"

definition demo_batch :: "unit res \<times> int list" where
  "demo_batch = paged_attention_batch int_arith good_cuda good_cuda True [3, 0, 1, 2] 100000 (demo_ints 1000 [1, 2, 3, 4])
     (demo_ints 2000 [0, 0, 0, 0]) 2 [Some demo_q, Some demo_q] demo_p demo_storage"

definition demo_single :: "unit res \<times> int list" where
  "demo_single = paged_attention int_arith good_cuda True [1, 0] 100000 (demo_ints 1000 [3, 4])
     (demo_ints 2000 [0, 0]) 1 2 (demo_q, demo_p) demo_storage"

lemma batch_row_is_single_witness: "fst demo_batch = Inr () \<and> take 2 (drop 2 (snd demo_batch)) = snd demo_single"
proof -
  have ok: "fst demo_batch = Inr ()" "fst demo_single = Inr ()" "length (snd demo_single) = 2" by code_simp+
  then have b: "demo_batch = (Inr (), snd demo_batch)" and d: "demo_single = (Inr (), snd demo_single)"
    by (metis prod.collapse)+
  have p: "pp_capacity demo_p = pp_capacity demo_pool" "pp_block_size demo_p = pp_block_size demo_pool" by code_simp+
  note inv = ks_inv_pool [OF demo_storage_inv p]
  have own: "\<forall>x \<in> set [Some demo_q, Some demo_q]. \<exists>q. x = Some q \<and> ss_owned 0 demo_p q" using demo_owned by simp
  have i: "1 < length [Some demo_q, Some demo_q]" "[Some demo_q, Some demo_q] ! 1 = Some demo_q" by simp_all
  have n: "2 = 2 * pl_head_size (ks_layout demo_storage)" by code_simp
  have sch: "is_schedule (length [Some demo_q, Some demo_q] * 2) [3, 0, 1, 2]" "is_schedule 2 [1, 0]"
    by (auto simp: is_schedule_iff)
  have q: "take 2 (drop (1 * 2) (fb_elements (demo_ints 1000 [1, 2, 3, 4]))) = take 2 (fb_elements (demo_ints 1000 [3, 4]))"
    by (simp add: demo_ints_def)
  have "take 2 (drop (1 * 2) (snd demo_batch)) = take 2 (snd demo_single)"
    by (rule batch_row_is_single [OF inv own b [unfolded demo_batch_def] i d [unfolded demo_single_def] n sch q,
        folded demo_batch_def demo_single_def])
  then show ?thesis using ok by simp
qed

end
