(* ===== verification/Sequence_Lifecycle.thy ===== *)
theory Sequence_Lifecycle
  imports Paged_Attention
begin

text \<open>
  \<open>src/v2/sequence_lifecycle.cpp\<close>: one request from its prompt to its end, on top of the pool,
  the storage and the kernels. The class owns the sequence; pool and storage are shared with
  other requests and are components of the state. The buffer for the output of attention is
  returned beside it.
\<close>

record sequence_lifecycle =
  lc_sequence :: "sequence_state option"
  lc_query_heads :: nat
  lc_prefilled :: bool

type_synonym life_state = "sequence_lifecycle \<times> physical_block_pool \<times> paged_kv_storage"

text \<open>
  What the device answers during a call: the runtime calls, whether the launch succeeds and the
  order in which the threads run, for the write and for the attention.
\<close>

record device_answers =
  da_write :: cuda
  da_write_launch :: bool
  da_write_order :: "nat list"
  da_attention :: cuda
  da_attention_launch :: bool
  da_attention_order :: "nat list"
  da_cache_address :: nat
  da_copy :: cuda
  da_key_copy :: "nat option"
  da_value_copy :: "nat option"

definition lc_create :: "u64 \<Rightarrow> pool_ref \<Rightarrow> physical_block_pool \<Rightarrow> paged_kv_storage \<Rightarrow> nat \<Rightarrow> sequence_lifecycle res" where
  "lc_create request_id r p s query_heads =
     (let q = ss_create request_id r p
      in if \<not> ks_uses_pool (ss_table q) s \<or> query_heads = 0 \<or> query_heads mod pl_num_kv_heads (ks_layout s) \<noteq> 0
         then Inl InvalidArgument
         else Inr \<lparr>lc_sequence = Some q, lc_query_heads = query_heads, lc_prefilled = False\<rparr>)"

definition lc_finished :: "sequence_lifecycle \<Rightarrow> bool" where
  "lc_finished lc \<longleftrightarrow> lc_sequence lc = None"

definition lc_get_sequence :: "sequence_lifecycle \<Rightarrow> sequence_state res" where
  "lc_get_sequence lc = (case lc_sequence lc of None \<Rightarrow> Inl LogicError | Some q \<Rightarrow> Inr q)"

text \<open>The destructor of the sequence gives the references of its table back.\<close>

definition lc_finish :: "life_state \<Rightarrow> unit res \<times> life_state" where
  "lc_finish st =
     (case st of (lc, p, s) \<Rightarrow>
        case lc_sequence lc of
          None \<Rightarrow> (Inr (), (lc\<lparr>lc_prefilled := False\<rparr>, p, s))
        | Some q \<Rightarrow>
            (case bt_clear (ss_table q, p) of
               (Inl e, (t, p')) \<Rightarrow> (Inl e, (lc\<lparr>lc_sequence := Some (q\<lparr>ss_table := t\<rparr>)\<rparr>, p', s))
             | (Inr u, (t, p')) \<Rightarrow> (Inr (), (lc\<lparr>lc_sequence := None, lc_prefilled := False\<rparr>, p', s))))"

text \<open>Waiting for the device after a failure is best effort and changes no state of the model.\<close>

definition lc_abort_after_failure :: "exn \<Rightarrow> life_state \<Rightarrow> 'a res \<times> life_state" where
  "lc_abort_after_failure e st =
     (case lc_finish st of (Inl e', st') \<Rightarrow> (Inl e', st') | (Inr u, st') \<Rightarrow> (Inl e, st'))"

text \<open>What both phases do with the positions that have been reserved.\<close>

definition lc_write_and_attend :: "('f, 'd) arith \<Rightarrow> device_answers \<Rightarrow> device_buffer \<Rightarrow> device_buffer \<Rightarrow> 'f float_buffer \<Rightarrow>
    'f float_buffer \<Rightarrow> nat list \<Rightarrow> nat \<Rightarrow> seq_state \<Rightarrow> paged_kv_storage \<Rightarrow> unit res \<times> paged_kv_storage \<times> 'f list" where
  "lc_write_and_attend ar da key_in value_in query output positions query_heads st s =
     (case build_slot_mapping (map (\<lambda>i. \<lparr>tw_sequence = Some (fst st), tw_token_position = i\<rparr>) positions) (snd st) of
        Inl e \<Rightarrow> (Inl e, (s, fb_elements output))
      | Inr slots \<Rightarrow>
          (case write_paged_kv (da_write da) (da_write_launch da) (da_write_order da) key_in value_in slots (snd st) s of
             (Inl e, s1) \<Rightarrow> (Inl e, (s1, fb_elements output))
           | (Inr u, s1) \<Rightarrow>
               (case paged_attention ar (da_attention da) (da_attention_launch da) (da_attention_order da) (da_cache_address da)
                       query output (length positions) query_heads st s1 of
                  (r, out) \<Rightarrow> (r, (s1, out)))))"

definition lc_prefill :: "('f, 'd) arith \<Rightarrow> (nat \<Rightarrow> bool) \<Rightarrow> device_answers \<Rightarrow> nat \<Rightarrow> device_buffer \<Rightarrow> device_buffer \<Rightarrow>
    'f float_buffer \<Rightarrow> 'f float_buffer \<Rightarrow> life_state \<Rightarrow> (unit res \<times> life_state) \<times> 'f list" where
  "lc_prefill ar grow da token_count key_in value_in query output st =
     (case st of (lc, p, s) \<Rightarrow>
        case lc_sequence lc of
          None \<Rightarrow> ((Inl LogicError, st), fb_elements output)
        | Some q \<Rightarrow>
            if lc_prefilled lc then ((Inl LogicError, st), fb_elements output)
            else if token_count = 0 \<or> null_pointer key_in \<or> null_pointer value_in \<or> fb_address query = 0 \<or> fb_address output = 0
            then ((Inl InvalidArgument, st), fb_elements output)
            else
              (case ss_append_tokens grow token_count (q, p) of
                 (Inl e, (q1, p1)) \<Rightarrow> (lc_abort_after_failure e (lc\<lparr>lc_sequence := Some q1\<rparr>, p1, s), fb_elements output)
               | (Inr u, (q1, p1)) \<Rightarrow>
                   (case lc_write_and_attend ar da key_in value_in query output [0..<token_count] (lc_query_heads lc) (q1, p1) s of
                      (Inl e, (s1, out)) \<Rightarrow> (lc_abort_after_failure e (lc\<lparr>lc_sequence := Some q1\<rparr>, p1, s1), out)
                    | (Inr u, (s1, out)) \<Rightarrow>
                        ((Inr (), (lc\<lparr>lc_sequence := Some q1, lc_prefilled := True\<rparr>, p1, s1)), out))))"

definition lc_decode :: "('f, 'd) arith \<Rightarrow> (nat \<Rightarrow> bool) \<Rightarrow> device_answers \<Rightarrow> device_buffer \<Rightarrow> device_buffer \<Rightarrow>
    'f float_buffer \<Rightarrow> 'f float_buffer \<Rightarrow> life_state \<Rightarrow> (token_location res \<times> life_state) \<times> 'f list" where
  "lc_decode ar grow da key_in value_in query output st =
     (case st of (lc, p, s) \<Rightarrow>
        case lc_sequence lc of
          None \<Rightarrow> ((Inl LogicError, st), fb_elements output)
        | Some q \<Rightarrow>
            if \<not> lc_prefilled lc then ((Inl LogicError, st), fb_elements output)
            else if null_pointer key_in \<or> null_pointer value_in \<or> fb_address query = 0 \<or> fb_address output = 0
            then ((Inl InvalidArgument, st), fb_elements output)
            else
              (case append_token_cow grow (da_copy da) (da_key_copy da) (da_value_copy da) ((q, p), s) of
                 (Inl e, (q1, p1), s1) \<Rightarrow> (lc_abort_after_failure e (lc\<lparr>lc_sequence := Some q1\<rparr>, p1, s1), fb_elements output)
               | (Inr location, (q1, p1), s1) \<Rightarrow>
                   (case lc_write_and_attend ar da key_in value_in query output [ss_num_tokens q] (lc_query_heads lc) (q1, p1) s1 of
                      (Inl e, (s2, out)) \<Rightarrow> (lc_abort_after_failure e (lc\<lparr>lc_sequence := Some q1\<rparr>, p1, s2), out)
                    | (Inr u, (s2, out)) \<Rightarrow>
                        ((Inr location, (lc\<lparr>lc_sequence := Some q1\<rparr>, p1, s2)), out))))"

section \<open>What a write leaves alone\<close>

text \<open>A launch whose synchronisation fails has written all the same.\<close>

lemma write_paged_kv_outcome:
  assumes "write_paged_kv env launch order kn vn slots p s = (r, s')"
  shows "s' = s \<or> write_paged_kv (env\<lparr>cu_sync := True\<rparr>) launch order kn vn slots p s = (Inr (), s')"
proof (cases "slots = [] \<or> null_pointer kn \<or> null_pointer vn")
  case True
  then show ?thesis using assms by (auto simp: write_paged_kv_def split: if_splits)
next
  case False
  have le: "launch_write (env\<lparr>cu_sync := True\<rparr>) = launch_write env" by (intro ext) (simp add: launch_write_def)
  have ls: "launch_write env launch order w kn vn slots n p s = (Inl e, s1) \<Longrightarrow> s1 = s" for w n e s1
    by (auto simp: launch_write_def Let_def split: sum.splits if_splits)
  have sel: "cu_guard (env\<lparr>cu_sync := True\<rparr>) = cu_guard env" "cu_malloc (env\<lparr>cu_sync := True\<rparr>) = cu_malloc env"
    "cu_copy (env\<lparr>cu_sync := True\<rparr>) = cu_copy env" "cu_sync (env\<lparr>cu_sync := True\<rparr>) = True" by simp_all
  have run: "s' = s \<or> and_then m (\<lambda>_ s. if \<not> True then (Inl RuntimeError, s) else (Inr (), s)) = (Inr (), s')"
    if "and_then m (\<lambda>_ s. if \<not> cu_sync env then (Inl RuntimeError, s) else (Inr (), s)) = (r, s')" "\<And>e s1. m = (Inl e, s1) \<Longrightarrow> s1 = s"
    for m :: "unit res \<times> paged_kv_storage"
    using that by (cases "fst m"; cases m) (auto split: if_splits)
  show ?thesis using assms False unfolding write_paged_kv_def Let_def le sel
    by (auto simp del: not_True_eq_False split: sum.splits dest!: run intro: ls)
qed

lemma ks_page_eqI:
  assumes inv: "ks_inv p s" and inv': "ks_inv p s'" and l: "ks_layout s' = ks_layout s"
    and kind: "kind = Key \<or> kind = Value" and j: "j < pl_num_blocks (ks_layout s)"
    and eq: "\<And>e. e < page_elements (ks_layout s) \<Longrightarrow>
      ks_elem (page_index kind j (ks_layout s) * page_elements (ks_layout s) + e) s' =
      ks_elem (page_index kind j (ks_layout s) * page_elements (ks_layout s) + e) s"
  shows "ks_page kind j s' = ks_page kind j s"
proof -
  let ?l = "ks_layout s" and ?w = "pl_element_bytes (ks_layout s)" and ?i = "page_index kind j (ks_layout s)"
  let ?pe = "page_elements (ks_layout s)"
  have pl: "pl_inv ?l" using inv by (simp add: ks_inv_def)
  have i: "?i < 2 * pp_capacity p"
    using j inv by (simp add: page_index_def kind_index_def ks_inv_def)
  have pb: "pl_page_bytes ?l = ?pe * ?w" by (rule page_bytes [OF pl])
  have len: "length (gm_base (ks_backing s'')) = 2 * pp_capacity p * (?pe * ?w)"
    if "ks_inv p s''" "ks_layout s'' = ?l" for s''
    using that pb by (simp add: ks_inv_def gm_inv_def)
  have room: "?i * (?pe * ?w) + ?pe * ?w \<le> 2 * pp_capacity p * (?pe * ?w)" using block_end [OF i, of "?pe * ?w"] .
  have pp: "peek (e * ?w) ?w (peek (?i * (?pe * ?w)) (?pe * ?w) mem) = peek ((?i * ?pe + e) * ?w) ?w mem"
    if e: "e < ?pe" for e and mem :: memory
  proof -
    have "e * ?w + ?w \<le> ?pe * ?w" by (rule block_end [OF e])
    then show ?thesis by (simp add: peek_def take_drop drop_drop add_mult_distrib mult.assoc add.assoc add.commute)
  qed
  show ?thesis
    unfolding ks_page_def l pb
  proof (rule arrays_eqI)
    show "length (peek (?i * (?pe * ?w)) (?pe * ?w) (gm_base (ks_backing s'))) = ?pe * ?w"
      "length (peek (?i * (?pe * ?w)) (?pe * ?w) (gm_base (ks_backing s))) = ?pe * ?w"
      using len [OF inv' l] len [OF inv refl] room by simp_all
    show "peek (e * ?w) ?w (peek (?i * (?pe * ?w)) (?pe * ?w) (gm_base (ks_backing s'))) =
        peek (e * ?w) ?w (peek (?i * (?pe * ?w)) (?pe * ?w) (gm_base (ks_backing s)))" if "e < ?pe" for e
      using eq [OF that] unfolding pp [OF that] by (simp add: ks_elem_def l)
  qed
qed

lemma pl_index_page:
  "pl_index kind b h t d l = page_index kind b l * page_elements l + ((h * pl_block_size l + t) * pl_head_size l + d)"
  by (simp add: pl_index_def pl_coordinate_def page_index_def page_elements_def algebra_simps)

lemma page_part_less:
  assumes "h < pl_num_kv_heads l" "t < pl_block_size l" "d < pl_head_size l"
  shows "(h * pl_block_size l + t) * pl_head_size l + d < page_elements l"
  using horner_step_less [OF horner_step_less [OF assms(1,2)] assms(3)] by (simp add: page_elements_def)

lemma write_paged_kv_frame:
  assumes inv: "ks_inv p s" and r: "write_paged_kv env launch order kn vn slots p s = (r, s')"
    and sched: "is_schedule (length slots * pl_num_kv_heads (ks_layout s) * pl_head_size (ks_layout s)) order"
  shows "ks_inv p s' \<and> ks_pool s' = ks_pool s \<and> ks_layout s' = ks_layout s \<and>
    (\<forall>kind \<in> {Key, Value}. \<forall>j < pl_num_blocks (ks_layout s). (\<forall>slot \<in> set slots. slot div pl_block_size (ks_layout s) \<noteq> j) \<longrightarrow>
       ks_page kind j s' = ks_page kind j s)"
proof (cases "slots = [] \<or> s' = s")
  case True
  then show ?thesis using r inv by (auto simp: write_paged_kv_def)
next
  case False
  let ?l = "ks_layout s"
  let ?n = "length slots * pl_num_kv_heads ?l * pl_head_size ?l"
  have l: "pl_inv ?l" using inv by (simp add: ks_inv_def)
  have ne: "slots \<noteq> []" and w: "write_paged_kv (env\<lparr>cu_sync := True\<rparr>) launch order kn vn slots p s = (Inr (), s')"
    using False write_paged_kv_outcome [OF r] by auto
  have n: "0 < ?n" using ne pl_invD(2,4) [OF l] by simp
  have ord: "set order = {..<?n}" using is_schedule_iff [OF n] sched by simp
  note wl = write_paged_kv_launches [OF inv w ne]
  note ok = launch_write_ok [OF inv refl wl(1) refl ord wl(2,3)]
  have "ks_page kind j s' = ks_page kind j s"
    if kind: "kind = Key \<or> kind = Value" and j: "j < pl_num_blocks ?l" and other: "\<forall>slot \<in> set slots. slot div pl_block_size ?l \<noteq> j" for kind j
  proof (rule ks_page_eqI [OF inv ok(1,3) kind j], rule ok(6))
    fix e i assume e: "e < page_elements ?l" and i: "i < ?n"
    have apart: "page_index kind j ?l * page_elements ?l + e \<noteq> kw_index kind' slots ?l i" if k': "kind' = Key \<or> kind' = Value" for kind'
    proof
      let ?slot = "slots ! (i div (pl_num_kv_heads ?l * pl_head_size ?l))"
      note v = kw_index_valid [OF l i wl(2) k', unfolded pl_valid_def]
      assume "page_index kind j ?l * page_elements ?l + e = kw_index kind' slots ?l i"
      then have "(page_index kind j ?l * page_elements ?l + e) div page_elements ?l =
          (page_index kind' (?slot div pl_block_size ?l) ?l * page_elements ?l +
            ((i div pl_head_size ?l mod pl_num_kv_heads ?l * pl_block_size ?l + ?slot mod pl_block_size ?l) * pl_head_size ?l +
             i mod pl_head_size ?l)) div page_elements ?l"
        by (simp add: kw_index_def Let_def pl_index_page)
      then have "page_index kind j ?l = page_index kind' (?slot div pl_block_size ?l) ?l"
        using e page_part_less [of _ ?l] v by simp
      then have "j = ?slot div pl_block_size ?l" using page_index_eq [OF j] v by blast
      moreover have "?slot \<in> set slots" using tensor_index(1) [OF i] by simp
      ultimately show False using other by blast
    qed
    show "page_index kind j ?l * page_elements ?l + e \<noteq> kw_index Key slots ?l i \<and>
        page_index kind j ?l * page_elements ?l + e \<noteq> kw_index Value slots ?l i"
      using apart [of Key] apart [of Value] by simp
  qed
  then show ?thesis using ok(1-3) by auto
qed

section \<open>The invariant of a request\<close>

text \<open>
  \<open>others\<close> counts the references that other owners hold. A finished request holds none.
\<close>

definition life_inv :: "(block_handle \<Rightarrow> nat) \<Rightarrow> life_state \<Rightarrow> bool" where
  "life_inv others st \<longleftrightarrow>
     (case st of (lc, p, s) \<Rightarrow>
        ks_inv p s \<and>
        (case lc_sequence lc of
           None \<Rightarrow> pp_inv p \<and> pp_refs p = others \<and> \<not> lc_prefilled lc
         | Some q \<Rightarrow> ss_inv others (q, p) \<and> bt_pool (ss_table q) = Some (ks_pool s) \<and>
             (\<not> lc_prefilled lc \<longrightarrow> ss_num_tokens q = 0)))"

definition life_storage :: "life_state \<Rightarrow> paged_kv_storage" where
  "life_storage st = snd (snd st)"

definition pages_kept :: "(block_handle \<Rightarrow> nat) \<Rightarrow> paged_kv_storage \<Rightarrow> paged_kv_storage \<Rightarrow> bool" where
  "pages_kept others s s' \<longleftrightarrow>
     ks_layout s' = ks_layout s \<and> ks_pool s' = ks_pool s \<and>
     (\<forall>h. \<forall>kind \<in> {Key, Value}. 0 < others h \<longrightarrow> ks_page kind (h_id h) s' = ks_page kind (h_id h) s)"

lemma pages_kept_refl [simp]: "pages_kept others s s"
  by (simp add: pages_kept_def)

lemma pages_kept_trans: "pages_kept others s s1 \<Longrightarrow> pages_kept others s1 s2 \<Longrightarrow> pages_kept others s s2"
  by (simp add: pages_kept_def)

lemma config_ks_inv: "pp_config p' = pp_config p \<Longrightarrow> ks_inv p s \<Longrightarrow> ks_inv p' s"
  by (rule ks_inv_pool) (simp_all add: bm_config_def pp_capacity_def pp_block_size_def)

lemma lc_finish_ok:
  assumes "ks_inv p s" and "ss_inv others (q, p)" and "lc_sequence lc = Some q"
  obtains p' where "lc_finish (lc, p, s) = (Inr (), (lc\<lparr>lc_sequence := None, lc_prefilled := False\<rparr>, p', s))"
    and "life_inv others (lc\<lparr>lc_sequence := None, lc_prefilled := False\<rparr>, p', s)"
proof -
  obtain p' where p': "bt_clear (ss_table q, p) = (Inr (), ((ss_table q)\<lparr>bt_blocks := []\<rparr>, p'))"
    "bt_inv others ((ss_table q)\<lparr>bt_blocks := []\<rparr>, p')" "pp_config p' = pp_config p" "pp_refs p' = others"
    by (rule bt_clear_total [OF ss_invD(1) [OF assms(2)]])
  show thesis
    by (rule that [of p'])
      (use p' assms(3) config_ks_inv [OF p'(3) assms(1)] bt_invD(1) [OF p'(2)] in \<open>simp_all add: lc_finish_def life_inv_def\<close>)
qed

lemma lc_abort_ok:
  assumes "ks_inv p s" and "ss_inv others (q, p)" and "lc_sequence lc = Some q"
  obtains p' where "lc_abort_after_failure e (lc, p, s) = (Inl e, (lc\<lparr>lc_sequence := None, lc_prefilled := False\<rparr>, p', s))"
    and "life_inv others (lc\<lparr>lc_sequence := None, lc_prefilled := False\<rparr>, p', s)"
proof -
  obtain p' where p': "lc_finish (lc, p, s) = (Inr (), (lc\<lparr>lc_sequence := None, lc_prefilled := False\<rparr>, p', s))"
    "life_inv others (lc\<lparr>lc_sequence := None, lc_prefilled := False\<rparr>, p', s)" by (rule lc_finish_ok [OF assms])
  show thesis by (rule that [of p']) (use p' in \<open>simp_all add: lc_abort_after_failure_def\<close>)
qed

lemma slots_numbered: "ks_inv p s \<Longrightarrow> pp_capacity p * pp_block_size p \<le> u64_max"
proof -
  assume inv: "ks_inv p s"
  let ?l = "ks_layout s"
  have l: "pl_inv ?l" using inv by (simp add: ks_inv_def)
  note d = pl_invD [OF l]
  have "pl_num_blocks ?l * pl_block_size ?l * 1 \<le> pl_num_blocks ?l * pl_block_size ?l * (2 * pl_num_kv_heads ?l * pl_head_size ?l * pl_element_bytes ?l)"
    using d(2,4,5) by (intro mult_le_mono2) simp
  also have "\<dots> = pl_total_bytes ?l" using d(7,8,9) by (simp add: algebra_simps)
  finally show ?thesis using d(11) inv by (simp add: ks_inv_def size_max_def u64_max_def)
qed

text \<open>Writing the reserved positions touches the pages of these positions only.\<close>

lemma lc_write_frame:
  assumes inv: "ks_inv p s" and own: "ss_owned r p q" and pos: "\<forall>i \<in> set positions. i < ss_num_tokens q"
    and w: "lc_write_and_attend ar da key_in value_in query output positions query_heads (q, p) s = (x, (s', out))"
    and sched: "is_schedule (length positions * pl_num_kv_heads (ks_layout s) * pl_head_size (ks_layout s)) (da_write_order da)"
    and apart: "\<And>h i. 0 < others h \<Longrightarrow> h_id h < pl_num_blocks (ks_layout s) \<and> (i \<in> set positions \<longrightarrow> ss_page q (i div ss_block_size q) \<noteq> h_id h)"
  shows "ks_inv p s' \<and> pages_kept others s s'"
proof -
  let ?ws = "map (\<lambda>i. \<lparr>tw_sequence = Some q, tw_token_position = i\<rparr>) positions"
  have b: "build_slot_mapping ?ws p = Inr (map (ss_slot q) positions)"
    using build_slot_mapping_ok [OF _ slots_numbered [OF inv], of ?ws r] own pos by (simp add: comp_def)
  have bs: "pl_block_size (ks_layout s) = ss_block_size q" using inv ss_ownedD(1) [OF own] by (simp add: ks_inv_def)
  obtain y s1 where wr: "write_paged_kv (da_write da) (da_write_launch da) (da_write_order da) key_in value_in
      (map (ss_slot q) positions) p s = (y, s1)" by (metis surj_pair)
  have s': "s' = s1" using w b wr by (auto simp: lc_write_and_attend_def split: sum.splits prod.splits)
  have "is_schedule (length (map (ss_slot q) positions) * pl_num_kv_heads (ks_layout s) * pl_head_size (ks_layout s)) (da_write_order da)"
    using sched by simp
  note fr = write_paged_kv_frame [OF inv wr this]
  have "ks_page kind (h_id h) s1 = ks_page kind (h_id h) s" if "0 < others h" "kind \<in> {Key, Value}" for h kind
    using fr apart [OF that(1)] that(2) ss_slot_split(1) [OF own] bs by auto
  then show ?thesis using fr by (simp add: s' pages_kept_def)
qed

lemma shared_id_eq:
  assumes "ss_inv others (q, p)" and "0 < others h" and "g \<in> set (bt_blocks (ss_table q))" and "h_id g = h_id h"
  shows "g = h"
proof -
  note b = ss_invD(1) [OF assms(1)]
  have "0 < pp_refs p h" using bt_invD(3) [OF b, of h] assms(2) by simp
  then have "pp_live p g" "pp_live p h" using bt_inv_owned [OF b assms(3)] by (auto intro: bm_refs_live)
  then show ?thesis using assms(4) by (intro handle_eqI) (auto simp: bm_live_def)
qed

lemma others_id_less: "ks_inv p s \<Longrightarrow> ss_inv others (q, p) \<Longrightarrow> 0 < others h \<Longrightarrow> h_id h < pl_num_blocks (ks_layout s)"
  using bt_invD(3) [OF ss_invD(1), of others q p h] by (intro live_id_less [of p]) auto

lemma ss_append_token_with_copy_pool:
  assumes "ss_inv others (q, p)" and "ss_append_token_with_copy grow copy ((q, p), m) = (r, (q', p'), m')"
  shows "bt_pool (ss_table q') = bt_pool (ss_table q)"
proof -
  have a: "bt_pool (ss_table q1) = bt_pool (ss_table q)" if t: "ss_append_token grow (q, p) = (x, (q1, p1))" for x q1 p1
  proof -
    obtain y q2 p2 where b: "ss_append_tokens grow 1 (q, p) = (y, (q2, p2))" by (metis prod_cases3)
    then have "q1 = q2" using t by (cases y) (auto simp: ss_append_token_def Let_def)
    then show ?thesis using ss_append_tokens_spec [OF assms(1) b] by (cases y) auto
  qed
  have c: "bt_pool (ss_table q1) = bt_pool (ss_table q)" if "ss_on_table (bt_replace_last_owned new) (q, p1) = (x, (q1, p2))"
    for new p1 x q1 p2
    using that by (auto simp: ss_on_table_eq bt_replace_last_owned_def split: if_splits sum.splits prod.splits)
  show ?thesis using assms(2) unfolding ss_append_token_with_copy_def Let_def prod.case
    by (auto dest!: a c split: if_splits sum.splits prod.splits bool.splits option.splits)
qed

section \<open>The phases\<close>

lemma ss_inv_owned: "ss_inv others (q, p) \<Longrightarrow> bt_pool (ss_table q) = Some r \<Longrightarrow> ss_owned r p q"
  by (auto simp: ss_owned_def)

lemma lc_create_inv:
  assumes "pp_inv p" and "ks_inv p s" and "lc_create request_id (ks_pool s) p s query_heads = Inr lc"
  shows "life_inv (pp_refs p) (lc, p, s)"
  using assms ss_create_inv [OF assms(1), of request_id "ks_pool s"]
  by (auto simp: lc_create_def life_inv_def Let_def ss_create_def bt_create_def split: if_splits)

text \<open>The calls that a phase refuses before it does anything.\<close>

definition lc_prefill_refused :: "nat \<Rightarrow> sequence_lifecycle \<Rightarrow> device_buffer \<Rightarrow> device_buffer \<Rightarrow> 'f float_buffer \<Rightarrow>
    'f float_buffer \<Rightarrow> bool" where
  "lc_prefill_refused n lc key_in value_in query output \<longleftrightarrow>
     lc_sequence lc = None \<or> lc_prefilled lc \<or> n = 0 \<or> null_pointer key_in \<or> null_pointer value_in \<or>
     fb_address query = 0 \<or> fb_address output = 0"

definition lc_decode_refused :: "sequence_lifecycle \<Rightarrow> device_buffer \<Rightarrow> device_buffer \<Rightarrow> 'f float_buffer \<Rightarrow>
    'f float_buffer \<Rightarrow> bool" where
  "lc_decode_refused lc key_in value_in query output \<longleftrightarrow>
     lc_sequence lc = None \<or> \<not> lc_prefilled lc \<or> null_pointer key_in \<or> null_pointer value_in \<or>
     fb_address query = 0 \<or> fb_address output = 0"

lemma lc_prefill_step:
  assumes inv: "life_inv others (lc, p, s)"
    and sched: "is_schedule (n * pl_num_kv_heads (ks_layout s) * pl_head_size (ks_layout s)) (da_write_order da)"
    and r: "lc_prefill ar grow da n key_in value_in query output (lc, p, s) = ((x, st'), out)"
  shows "life_inv others st' \<and> pages_kept others s (life_storage st') \<and>
    (case x of
       Inl e \<Rightarrow> if lc_prefill_refused n lc key_in value_in query output then st' = (lc, p, s) else lc_finished (fst st')
     | Inr u \<Rightarrow> (\<exists>q. lc_sequence (fst st') = Some q \<and> ss_num_tokens q = n))"
proof (cases "lc_prefill_refused n lc key_in value_in query output")
  case True
  then have "st' = (lc, p, s) \<and> (x = Inl LogicError \<or> x = Inl InvalidArgument)"
    using r by (auto simp: lc_prefill_def lc_prefill_refused_def split: option.splits if_splits)
  then show ?thesis using True inv by (auto simp: life_storage_def)
next
  case refused: False
  note False = refused [unfolded lc_prefill_refused_def]
  then obtain q where q: "lc_sequence lc = Some q" by auto
  have i: "ks_inv p s" "ss_inv others (q, p)" "bt_pool (ss_table q) = Some (ks_pool s)" "ss_num_tokens q = 0"
    using inv False q by (simp_all add: life_inv_def)
  have empty: "bt_blocks (ss_table q) = []" using ss_invD(3) [OF i(2)] i(4) by simp
  obtain y q1 p1 where a: "ss_append_tokens grow n (q, p) = (y, (q1, p1))" by (metis prod_cases3)
  note sp = ss_append_tokens_spec [OF i(2) a]
  have inv1: "ss_inv others (q1, p1)" and k1: "ks_inv p1 s" using sp config_ks_inv [OF _ i(1)] by auto
  show ?thesis
  proof (cases y)
    case (Inl e)
    obtain p2 where ab: "lc_abort_after_failure e (lc\<lparr>lc_sequence := Some q1\<rparr>, p1, s) =
        (Inl e :: unit res, (lc\<lparr>lc_sequence := Some q1, lc_sequence := None, lc_prefilled := False\<rparr>, p2, s))"
      "life_inv others (lc\<lparr>lc_sequence := Some q1, lc_sequence := None, lc_prefilled := False\<rparr>, p2, s)"
      by (rule lc_abort_ok [OF k1 inv1, of "lc\<lparr>lc_sequence := Some q1\<rparr>"]) simp_all
    have "x = Inl e" "st' = (lc\<lparr>lc_sequence := None, lc_prefilled := False\<rparr>, p2, s)"
      using r False q a Inl ab(1) by (auto simp: lc_prefill_def)
    then show ?thesis using ab(2) refused by (simp add: life_storage_def lc_finished_def)
  next
    case (Inr u)
    obtain new where new: "q1 = q\<lparr>ss_num_tokens := n, ss_table := (ss_table q)\<lparr>bt_blocks := new\<rparr>\<rparr>"
      "\<forall>h \<in> set new. pp_refs p h = 0" using sp Inr i(4) empty by auto
    have own: "ss_owned (ks_pool s) p1 q1" by (rule ss_inv_owned [OF inv1]) (simp add: new i(3))
    obtain z s1 out1 where w: "lc_write_and_attend ar da key_in value_in query output [0..<n] (lc_query_heads lc) (q1, p1) s = (z, (s1, out1))"
      by (metis prod_cases3)
    have apart: "h_id h < pl_num_blocks (ks_layout s) \<and> (j \<in> set [0..<n] \<longrightarrow> ss_page q1 (j div ss_block_size q1) \<noteq> h_id h)"
      if o: "0 < others h" for h j
    proof (intro conjI impI notI)
      show "h_id h < pl_num_blocks (ks_layout s)" by (rule others_id_less [OF k1 inv1 o])
      assume j: "j \<in> set [0..<n]" and eq: "ss_page q1 (j div ss_block_size q1) = h_id h"
      have "j div ss_block_size q1 < ss_num_allocated_blocks q1" by (rule ss_position_block [OF own]) (use j new(1) in simp)
      then have mem: "bt_blocks (ss_table q1) ! (j div ss_block_size q1) \<in> set (bt_blocks (ss_table q1))"
        by (simp add: ss_num_allocated_blocks_def)
      then have "h \<in> set new" using shared_id_eq [OF inv1 o mem eq] new(1) by simp
      then have "pp_refs p h = 0" using new(2) by blast
      then show False using bt_invD(3) [OF ss_invD(1) [OF i(2)], of h] o by simp
    qed
    have len: "is_schedule (length [0..<n] * pl_num_kv_heads (ks_layout s) * pl_head_size (ks_layout s)) (da_write_order da)"
      using sched by simp
    note fr = lc_write_frame [OF k1 own _ w len apart]
    have fr: "ks_inv p1 s1" "pages_kept others s s1" using fr new(1) by auto
    show ?thesis
    proof (cases z)
      case (Inl e)
      obtain p2 where ab: "lc_abort_after_failure e (lc\<lparr>lc_sequence := Some q1\<rparr>, p1, s1) =
          (Inl e :: unit res, (lc\<lparr>lc_sequence := Some q1, lc_sequence := None, lc_prefilled := False\<rparr>, p2, s1))"
        "life_inv others (lc\<lparr>lc_sequence := Some q1, lc_sequence := None, lc_prefilled := False\<rparr>, p2, s1)"
        by (rule lc_abort_ok [OF fr(1) inv1, of "lc\<lparr>lc_sequence := Some q1\<rparr>"]) simp_all
      have "x = Inl e" "st' = (lc\<lparr>lc_sequence := None, lc_prefilled := False\<rparr>, p2, s1)"
        using r False q a \<open>y = Inr u\<close> w Inl ab(1) by (auto simp: lc_prefill_def)
      then show ?thesis using ab(2) fr(2) refused by (simp add: life_storage_def lc_finished_def)
    next
      case (Inr v)
      then have "x = Inr ()" "st' = (lc\<lparr>lc_sequence := Some q1, lc_prefilled := True\<rparr>, p1, s1)"
        using r False q a \<open>y = Inr u\<close> w by (auto simp: lc_prefill_def)
      then show ?thesis using fr inv1 i(3) new(1) by (simp add: life_storage_def life_inv_def pages_kept_def)
    qed
  qed
qed

lemma lc_decode_step:
  assumes inv: "life_inv others (lc, p, s)"
    and sched: "is_schedule (pl_num_kv_heads (ks_layout s) * pl_head_size (ks_layout s)) (da_write_order da)"
    and r: "lc_decode ar grow da key_in value_in query output (lc, p, s) = ((x, st'), out)"
  shows "life_inv others st' \<and> pages_kept others s (life_storage st') \<and>
    (case x of
       Inl e \<Rightarrow> if lc_decode_refused lc key_in value_in query output then st' = (lc, p, s) else lc_finished (fst st')
     | Inr u \<Rightarrow> (\<exists>q q'. lc_sequence lc = Some q \<and> lc_sequence (fst st') = Some q' \<and> ss_num_tokens q' = ss_num_tokens q + 1))"
proof (cases "lc_decode_refused lc key_in value_in query output")
  case True
  then have "st' = (lc, p, s) \<and> (x = Inl LogicError \<or> x = Inl InvalidArgument)"
    using r by (auto simp: lc_decode_def lc_decode_refused_def split: option.splits if_splits)
  then show ?thesis using True inv by (auto simp: life_storage_def)
next
  case refused: False
  note False = refused [unfolded lc_decode_refused_def]
  then obtain q where q: "lc_sequence lc = Some q" by auto
  have i: "ks_inv p s" "ss_inv others (q, p)" "bt_pool (ss_table q) = Some (ks_pool s)"
    using inv False q by (simp_all add: life_inv_def)
  obtain y q1 p1 s1 where a: "append_token_cow grow (da_copy da) (da_key_copy da) (da_value_copy da) ((q, p), s) = (y, (q1, p1), s1)"
    by (metis prod_cases3 prod.collapse)
  note frame = append_token_cow_frame [OF i(2,1) a]
  have pos: "0 < others h \<Longrightarrow> 0 < pp_refs p h" for h using bt_invD(3) [OF ss_invD(1) [OF i(2)], of h] by simp
  then have kept: "pages_kept others s s1" using frame by (auto simp: pages_kept_def)
  have more: "ss_inv others (q1, p1) \<and> pp_config p1 = pp_config p \<and> bt_pool (ss_table q1) = bt_pool (ss_table q)"
  proof (cases rule: append_token_cow_cases [OF a])
    case 2
    then show ?thesis using ss_cow_spec [OF i(2) 2] ss_append_token_with_copy_pool [OF i(2) 2] by simp
  qed (use i(2) in simp)
  have inv1: "ss_inv others (q1, p1)" using more by simp
  have k1: "ks_inv p1 s1" using frame more config_ks_inv [of p1 p s1] by simp
  show ?thesis
  proof (cases y)
    case (Inl e)
    obtain p2 where ab: "lc_abort_after_failure e (lc\<lparr>lc_sequence := Some q1\<rparr>, p1, s1) =
        (Inl e :: token_location res, (lc\<lparr>lc_sequence := Some q1, lc_sequence := None, lc_prefilled := False\<rparr>, p2, s1))"
      "life_inv others (lc\<lparr>lc_sequence := Some q1, lc_sequence := None, lc_prefilled := False\<rparr>, p2, s1)"
      by (rule lc_abort_ok [OF k1 inv1, of "lc\<lparr>lc_sequence := Some q1\<rparr>"]) simp_all
    have "x = Inl e" "st' = (lc\<lparr>lc_sequence := None, lc_prefilled := False\<rparr>, p2, s1)"
      using r False q a Inl ab(1) by (auto simp: lc_decode_def)
    then show ?thesis using ab(2) kept refused by (simp add: life_storage_def lc_finished_def)
  next
    case (Inr l)
    have c: "ss_append_token_with_copy grow (Some (\<lambda>source destination.
        ks_copy_block (da_copy da) (da_key_copy da) (da_value_copy da) source destination (snd (pp_allocate p)))) ((q, p), s) = (Inr l, (q1, p1), s1)"
      by (cases rule: append_token_cow_cases [OF a]) (use Inr in simp_all)
    note spec = ss_cow_spec [OF i(2) c]
    let ?last = "last (bt_blocks (ss_table q1))"
    have n1: "ss_num_tokens q1 = ss_num_tokens q + 1" and one: "pp_refs p1 ?last = 1" and ne: "bt_blocks (ss_table q1) \<noteq> []"
      and page: "ss_page q1 (ss_num_tokens q div ss_block_size q1) = h_id ?last"
      using spec ss_token_location_ok [OF inv1, of "ss_num_tokens q"] by auto
    have own: "ss_owned (ks_pool s) p1 q1" by (rule ss_inv_owned [OF inv1]) (use more i(3) in simp)
    obtain z s2 out1 where w: "lc_write_and_attend ar da key_in value_in query output [ss_num_tokens q] (lc_query_heads lc) (q1, p1) s1 = (z, (s2, out1))"
      by (metis prod_cases3)
    have lay: "ks_layout s1 = ks_layout s" "ks_pool s1 = ks_pool s" using frame by simp_all
    have apart: "h_id h < pl_num_blocks (ks_layout s1) \<and>
        (j \<in> set [ss_num_tokens q] \<longrightarrow> ss_page q1 (j div ss_block_size q1) \<noteq> h_id h)" if o: "0 < others h" for h j
    proof (intro conjI impI notI)
      show "h_id h < pl_num_blocks (ks_layout s1)" by (rule others_id_less [OF k1 inv1 o])
      assume j: "j \<in> set [ss_num_tokens q]" and eq: "ss_page q1 (j div ss_block_size q1) = h_id h"
      have "?last = h" by (rule shared_id_eq [OF inv1 o]) (use j eq page ne in simp_all)
      moreover have "0 < count_list (bt_blocks (ss_table q1)) ?last" using ne by (simp add: count_list_pos)
      ultimately show False using bt_invD(3) [OF ss_invD(1) [OF inv1], of h] o one by simp
    qed
    have len: "is_schedule (length [ss_num_tokens q] * pl_num_kv_heads (ks_layout s1) * pl_head_size (ks_layout s1)) (da_write_order da)"
      using sched by (simp add: lay)
    note fr = lc_write_frame [OF k1 own _ w len apart]
    have fr: "ks_inv p1 s2" "pages_kept others s s2" using fr n1 pages_kept_trans [OF kept] by auto
    show ?thesis
    proof (cases z)
      case (Inl e)
      obtain p2 where ab: "lc_abort_after_failure e (lc\<lparr>lc_sequence := Some q1\<rparr>, p1, s2) =
          (Inl e :: token_location res, (lc\<lparr>lc_sequence := Some q1, lc_sequence := None, lc_prefilled := False\<rparr>, p2, s2))"
        "life_inv others (lc\<lparr>lc_sequence := Some q1, lc_sequence := None, lc_prefilled := False\<rparr>, p2, s2)"
        by (rule lc_abort_ok [OF fr(1) inv1, of "lc\<lparr>lc_sequence := Some q1\<rparr>"]) simp_all
      have "x = Inl e" "st' = (lc\<lparr>lc_sequence := None, lc_prefilled := False\<rparr>, p2, s2)"
        using r False q a \<open>y = Inr l\<close> w Inl ab(1) by (auto simp: lc_decode_def)
      then show ?thesis using ab(2) fr(2) refused by (simp add: life_storage_def lc_finished_def)
    next
      case (Inr v)
      then have "x = Inr l" "st' = (lc\<lparr>lc_sequence := Some q1\<rparr>, p1, s2)"
        using r False q a \<open>y = Inr l\<close> w by (auto simp: lc_decode_def)
      then show ?thesis using fr inv1 i(3) more False n1 q by (simp add: life_storage_def life_inv_def pages_kept_def)
    qed
  qed
qed

lemma lc_finish_step:
  assumes inv: "life_inv others (lc, p, s)" and r: "lc_finish (lc, p, s) = (x, st')"
  shows "x = Inr () \<and> life_inv others st' \<and> life_storage st' = s \<and> lc_finished (fst st')"
proof (cases "lc_sequence lc")
  case None
  then show ?thesis using inv r by (auto simp: lc_finish_def life_inv_def life_storage_def lc_finished_def)
next
  case (Some q)
  then have "ks_inv p s" "ss_inv others (q, p)" using inv by (simp_all add: life_inv_def)
  then obtain p' where "lc_finish (lc, p, s) = (Inr (), (lc\<lparr>lc_sequence := None, lc_prefilled := False\<rparr>, p', s))"
    "life_inv others (lc\<lparr>lc_sequence := None, lc_prefilled := False\<rparr>, p', s)" by (rule lc_finish_ok [OF _ _ Some])
  then show ?thesis using r by (simp add: life_storage_def lc_finished_def)
qed

section \<open>Runs\<close>

text \<open>
  The calls that a user of the class makes, in any order, with any device answers. The thread
  orders are those of the launches that the calls make.
\<close>

inductive lifecycle_step :: "('f, 'd) arith \<Rightarrow> life_state \<Rightarrow> life_state \<Rightarrow> bool" for ar where
  prefill: "lc_prefill ar grow da n key_in value_in query output (lc, p, s) = ((r, st'), out) \<Longrightarrow>
    is_schedule (n * pl_num_kv_heads (ks_layout s) * pl_head_size (ks_layout s)) (da_write_order da) \<Longrightarrow>
    lifecycle_step ar (lc, p, s) st'"
| decode: "lc_decode ar grow da key_in value_in query output (lc, p, s) = ((r', st'), out) \<Longrightarrow>
    is_schedule (pl_num_kv_heads (ks_layout s) * pl_head_size (ks_layout s)) (da_write_order da) \<Longrightarrow>
    lifecycle_step ar (lc, p, s) st'"
| finish: "lc_finish st = (r, st') \<Longrightarrow> lifecycle_step ar st st'"

lemma lifecycle_step_ok:
  "lifecycle_step ar st st' \<Longrightarrow> life_inv others st \<Longrightarrow>
     life_inv others st' \<and> pages_kept others (life_storage st) (life_storage st')"
proof (induction rule: lifecycle_step.induct)
  case (prefill grow da n a b c d lc p s r st' out)
  then show ?case using lc_prefill_step [OF prefill(3,2,1)] by (simp add: life_storage_def)
next
  case (decode grow da a b c d lc p s r' st' out)
  then show ?case using lc_decode_step [OF decode(3,2,1)] by (simp add: life_storage_def)
next
  case (finish st r st')
  obtain lc p s where st: "st = (lc, p, s)" by (metis prod_cases3)
  show ?case using lc_finish_step [of others lc p s r st'] finish by (simp add: st life_storage_def)
qed

section \<open>Properties\<close>

text \<open>A request that is over holds no reference.\<close>

lemma life_inv_finished:
  "life_inv others st \<Longrightarrow> lc_finished (fst st) \<Longrightarrow> lc_sequence (fst st) = None \<and> pp_refs (fst (snd st)) = others"
  by (cases st) (simp add: life_inv_def lc_finished_def)

lemma lc_finish_ends:
  assumes "life_inv others st" and "lc_finish st = (x, ended)"
  shows "x = Inr () \<and> lc_sequence (fst ended) = None \<and> pp_refs (fst (snd ended)) = others"
proof -
  obtain lc p s where st: "st = (lc, p, s)" by (metis prod_cases3)
  show ?thesis
    using lc_finish_step [of others lc p s x ended] life_inv_finished [of others ended] assms by (simp add: st)
qed

lemma lc_prefill_ends:
  assumes "life_inv others st"
    and "is_schedule (n * pl_num_kv_heads (ks_layout (life_storage st)) * pl_head_size (ks_layout (life_storage st))) (da_write_order da)"
    and "lc_prefill ar grow da n key_in value_in query output st = ((Inl e, ended), out)"
  shows "if lc_prefill_refused n (fst st) key_in value_in query output then ended = st
    else lc_sequence (fst ended) = None \<and> pp_refs (fst (snd ended)) = others"
proof -
  obtain lc p s where st: "st = (lc, p, s)" by (metis prod_cases3)
  note a = assms [unfolded st life_storage_def fst_conv snd_conv]
  show ?thesis
    using lc_prefill_step [OF a] life_inv_finished [of others ended] by (simp add: st split: if_splits)
qed

lemma lc_decode_ends:
  assumes "life_inv others st"
    and "is_schedule (pl_num_kv_heads (ks_layout (life_storage st)) * pl_head_size (ks_layout (life_storage st))) (da_write_order da)"
    and "lc_decode ar grow da key_in value_in query output st = ((Inl e, ended), out)"
  shows "if lc_decode_refused (fst st) key_in value_in query output then ended = st
    else lc_sequence (fst ended) = None \<and> pp_refs (fst (snd ended)) = others"
proof -
  obtain lc p s where st: "st = (lc, p, s)" by (metis prod_cases3)
  note a = assms [unfolded st life_storage_def fst_conv snd_conv]
  show ?thesis
    using lc_decode_step [OF a] life_inv_finished [of others ended] by (simp add: st split: if_splits)
qed

text \<open>C33: Requests are isolated and leak nothing. Whatever calls a request makes (prefill, decode,
  finish, in any order) and whatever fails on the way (the pool, the host allocator, device
  copies, launches, synchronisation), no page that another owner references is written and the
  reference counts stay exact. In every state so reached \<open>finish\<close> ends the request; a phase
  that throws has refused the call before it began and changed nothing (finished request, wrong
  phase, null pointer, no tokens), or it has ended the request; and a request that is over holds
  no reference.\<close>

theorem lifecycle_isolated:
  assumes "life_inv others st" and "(lifecycle_step ar)\<^sup>*\<^sup>* st st'"
  shows "(\<forall>h. \<forall>kind \<in> {Key, Value}. 0 < others h \<longrightarrow>
      ks_page kind (h_id h) (life_storage st') = ks_page kind (h_id h) (life_storage st)) \<and>
    (case st' of (lc', p', s') \<Rightarrow>
       ks_inv p' s' \<and>
       (\<forall>h. pp_refs p' h = others h +
          (case lc_sequence lc' of None \<Rightarrow> 0 | Some q \<Rightarrow> count_list (bt_blocks (ss_table q)) h))) \<and>
    (\<forall>x ended. lc_finish st' = (x, ended) \<longrightarrow>
       x = Inr () \<and> lc_sequence (fst ended) = None \<and> pp_refs (fst (snd ended)) = others) \<and>
    (\<forall>grow da n key_in value_in query output e ended out.
       is_schedule (n * pl_num_kv_heads (ks_layout (life_storage st')) * pl_head_size (ks_layout (life_storage st'))) (da_write_order da) \<longrightarrow>
       lc_prefill ar grow da n key_in value_in query output st' = ((Inl e, ended), out) \<longrightarrow>
       (if lc_prefill_refused n (fst st') key_in value_in query output then ended = st'
        else lc_sequence (fst ended) = None \<and> pp_refs (fst (snd ended)) = others)) \<and>
    (\<forall>grow da key_in value_in query output e ended out.
       is_schedule (pl_num_kv_heads (ks_layout (life_storage st')) * pl_head_size (ks_layout (life_storage st'))) (da_write_order da) \<longrightarrow>
       lc_decode ar grow da key_in value_in query output st' = ((Inl e, ended), out) \<longrightarrow>
       (if lc_decode_refused (fst st') key_in value_in query output then ended = st'
        else lc_sequence (fst ended) = None \<and> pp_refs (fst (snd ended)) = others))"
proof -
  have *: "life_inv others st' \<and> pages_kept others (life_storage st) (life_storage st')"
    using assms(2,1)
  proof (induction rule: rtranclp_induct)
    case (step y z)
    then show ?case using lifecycle_step_ok [OF step(2), of others] pages_kept_trans by blast
  qed simp
  moreover obtain lc' p' s' where st': "st' = (lc', p', s')" by (metis prod_cases3)
  ultimately have A: "\<forall>h. \<forall>kind \<in> {Key, Value}. 0 < others h \<longrightarrow>
      ks_page kind (h_id h) (life_storage st') = ks_page kind (h_id h) (life_storage st)"
    and B: "case st' of (lc', p', s') \<Rightarrow> ks_inv p' s' \<and> (\<forall>h. pp_refs p' h = others h +
          (case lc_sequence lc' of None \<Rightarrow> 0 | Some q \<Rightarrow> count_list (bt_blocks (ss_table q)) h))"
    using bt_invD(3) [OF ss_invD(1)]
    by (auto simp: pages_kept_def life_inv_def fun_eq_iff split: option.splits)
  note inv = conjunct1 [OF *]
  show ?thesis
    by (rule conjI [OF A], rule conjI [OF B], intro conjI; intro allI impI;
        (erule lc_finish_ends [OF inv] | (rule lc_prefill_ends [OF inv]; assumption) | (rule lc_decode_ends [OF inv]; assumption)))
qed

text \<open>For the witness: a request of three tokens next to \<open>demo_q\<close>, then one decoded token and the end.\<close>

definition demo_request :: sequence_lifecycle where
  "demo_request = \<lparr>lc_sequence = Some (ss_create 7 0 demo_pool), lc_query_heads = 2, lc_prefilled = False\<rparr>"

definition demo_answers :: "nat list \<Rightarrow> nat list \<Rightarrow> device_answers" where
  "demo_answers wo ao = \<lparr>da_write = good_cuda, da_write_launch = True, da_write_order = wo, da_attention = good_cuda,
     da_attention_launch = True, da_attention_order = ao, da_cache_address = 100000, da_copy = good_cuda,
     da_key_copy = None, da_value_copy = None\<rparr>"

definition demo_prefilled :: "(unit res \<times> life_state) \<times> int list" where
  "demo_prefilled = lc_prefill int_arith (\<lambda>n. False) (demo_answers [2, 0, 1] [5, 4, 3, 2, 1, 0]) 3
     (demo_buffer 1000 [1, 2, 3, 4, 5, 6]) (demo_buffer 2000 [7, 8, 9, 10, 11, 12])
     (demo_ints 3000 [1, 2, 3, 4, 5, 6]) (demo_ints 4000 [0, 0, 0, 0, 0, 0]) (demo_request, demo_pool, demo_storage)"

definition demo_failed :: "(token_location res \<times> life_state) \<times> int list" where
  "demo_failed = lc_decode int_arith (\<lambda>n. False) ((demo_answers [0] [1, 0])\<lparr>da_attention_launch := False\<rparr>)
     (demo_buffer 1000 [1, 2]) (demo_buffer 2000 [7, 8]) (demo_ints 3000 [1, 2]) (demo_ints 4000 [0, 0])
     (snd (fst demo_prefilled))"

lemma lifecycle_isolated_witness:
  "fst (fst demo_prefilled) = Inr () \<and> fst (fst demo_failed) = Inl RuntimeError \<and>
   lc_sequence (fst (snd (fst demo_failed))) = None \<and> (\<forall>h. pp_refs (fst (snd (snd (fst demo_failed)))) h = 0)"
proof -
  have ok: "fst (fst demo_prefilled) = Inr ()" "fst (fst demo_failed) = Inl RuntimeError"
    "lc_sequence (fst (snd (fst demo_failed))) = None" by code_simp+
  have n: "pl_num_kv_heads (ks_layout demo_storage) = 1" "pl_head_size (ks_layout demo_storage) = 1" "ks_pool demo_storage = 0"
    "pl_num_kv_heads (ks_layout (life_storage (snd (fst demo_prefilled)))) = 1"
    "pl_head_size (ks_layout (life_storage (snd (fst demo_prefilled)))) = 1" by code_simp+
  have inv: "life_inv (\<lambda>h. 0) (demo_request, demo_pool, demo_storage)"
    using demo_storage_inv ss_create_inv [OF demo_pool_start(1), of 7 0] demo_pool_start(2)
    by (simp add: life_inv_def demo_request_def n(3)) (simp add: ss_create_def bt_create_def)
  have e1: "lc_prefill int_arith (\<lambda>n. False) (demo_answers [2, 0, 1] [5, 4, 3, 2, 1, 0]) 3
     (demo_buffer 1000 [1, 2, 3, 4, 5, 6]) (demo_buffer 2000 [7, 8, 9, 10, 11, 12])
     (demo_ints 3000 [1, 2, 3, 4, 5, 6]) (demo_ints 4000 [0, 0, 0, 0, 0, 0]) (demo_request, demo_pool, demo_storage) =
     ((fst (fst demo_prefilled), snd (fst demo_prefilled)), snd demo_prefilled)"
    unfolding demo_prefilled_def by (simp only: prod.collapse)
  have s1: "lifecycle_step int_arith (demo_request, demo_pool, demo_storage) (snd (fst demo_prefilled))"
    by (rule lifecycle_step.prefill [OF e1], unfold n) (auto simp: demo_answers_def is_schedule_iff)
  obtain lc p s where st: "snd (fst demo_prefilled) = (lc, p, s)" by (metis prod_cases3)
  have e2: "lc_decode int_arith (\<lambda>n. False) ((demo_answers [0] [1, 0])\<lparr>da_attention_launch := False\<rparr>)
     (demo_buffer 1000 [1, 2]) (demo_buffer 2000 [7, 8]) (demo_ints 3000 [1, 2]) (demo_ints 4000 [0, 0]) (lc, p, s) =
     ((fst (fst demo_failed), snd (fst demo_failed)), snd demo_failed)"
    unfolding demo_failed_def st by (simp only: prod.collapse)
  have l: "pl_num_kv_heads (ks_layout s) = 1" "pl_head_size (ks_layout s) = 1" using n(4,5) by (simp_all add: st life_storage_def)
  have s2: "lifecycle_step int_arith (lc, p, s) (snd (fst demo_failed))"
    by (rule lifecycle_step.decode [OF e2], unfold l) (auto simp: demo_answers_def is_schedule_iff)
  have "(lifecycle_step int_arith)\<^sup>*\<^sup>* (demo_request, demo_pool, demo_storage) (snd (fst demo_failed))"
    using s1 s2 unfolding st by (meson rtranclp.rtrancl_into_rtrancl rtranclp.rtrancl_refl)
  from lifecycle_isolated [OF inv this] ok show ?thesis by (auto split: prod.splits)
qed

end
