(* ===== verification/Copy_Engine.thy ===== *)
theory Copy_Engine
  imports Directory_View Host_Buffers
begin

text \<open>
  What the asynchronous movers of v3 share (\<open>v3/gpu_cpu_transfer\<close>, \<open>v3/migration_manager\<close>): a
  directory, the memory of the GPU and CPU slots and a CUDA stream (\<open>cuda_stream.cpp\<close>). A copy
  is queued at once and carried out by the device at some later moment; an event completes when
  the device has carried out everything queued before it. The moments are not determined by the
  code, so the progress of the device is a step of its own.
\<close>

section \<open>Slots of both memories\<close>

datatype place = At (at_tier: storage_tier) (at_slot: nat)

record chunk_memory =
  cm_gpu :: gpu_chunk_store
  cm_cpu :: host_buffers

fun cm_load :: "place \<Rightarrow> chunk_memory \<Rightarrow> memory res" where
  "cm_load (At GPU i) m = gs_load i (cm_gpu m)"
| "cm_load (At CPU i) m = hb_load i (cm_cpu m)"
| "cm_load (At NVME i) m = Inl Undefined"
| "cm_load (At (OtherTier t) i) m = Inl Undefined"

fun cm_store :: "place \<Rightarrow> memory \<Rightarrow> chunk_memory \<Rightarrow> unit res \<times> chunk_memory" where
  "cm_store (At GPU i) bs m = (case gs_store i bs (cm_gpu m) of (r, g) \<Rightarrow> (r, m\<lparr>cm_gpu := g\<rparr>))"
| "cm_store (At CPU i) bs m = (case hb_store i bs (cm_cpu m) of (r, h) \<Rightarrow> (r, m\<lparr>cm_cpu := h\<rparr>))"
| "cm_store (At NVME i) bs m = (Inl Undefined, m)"
| "cm_store (At (OtherTier t) i) bs m = (Inl Undefined, m)"

text \<open>Forming the address of a slot throws when the slot does not exist.\<close>

definition cm_pointer :: "place \<Rightarrow> chunk_memory \<Rightarrow> unit res" where
  "cm_pointer a m = bind_res (cm_load a m) (\<lambda>bs. Inr ())"

section \<open>The stream\<close>

text \<open>
  \<open>ce_faulted\<close> is a fault of the device: in CUDA such an error is sticky, nothing queued runs
  any more and every later call on the stream reports it.
\<close>

datatype stream_op = Copy place place | Event nat

record copy_engine =
  ce_directory :: cache_directory
  ce_memory :: chunk_memory
  ce_queue :: "stream_op list"
  ce_next_event :: nat
  ce_faulted :: bool

fun stream_exec :: "stream_op \<Rightarrow> chunk_memory \<Rightarrow> chunk_memory" where
  "stream_exec (Copy a b) m = (case cm_load a m of Inl e \<Rightarrow> m | Inr bs \<Rightarrow> snd (cm_store b bs m))"
| "stream_exec (Event n) m = m"

definition ce_step :: "copy_engine \<Rightarrow> copy_engine" where
  "ce_step e = (case ce_queue e of [] \<Rightarrow> e | x # q \<Rightarrow> e\<lparr>ce_queue := q, ce_memory := stream_exec x (ce_memory e)\<rparr>)"

text \<open>A fault may interrupt a copy, which leaves anything in its destination.\<close>

definition ce_fault :: "memory \<Rightarrow> copy_engine \<Rightarrow> copy_engine" where
  "ce_fault bs e =
     e\<lparr>ce_faulted := True, ce_queue := [],
       ce_memory := (case ce_queue e of
           Copy a b # q \<Rightarrow> if length bs = gs_chunk_bytes (cm_gpu (ce_memory e)) then snd (cm_store b bs (ce_memory e)) else ce_memory e
         | _ \<Rightarrow> ce_memory e)\<rparr>"

text \<open>The constructor of \<open>CudaStream\<close>.\<close>

definition stream_create :: "cuda \<Rightarrow> int \<Rightarrow> unit res" where
  "stream_create env device =
     (case cu_device_count env of
        None \<Rightarrow> Inl RuntimeError
      | Some n \<Rightarrow>
          if device < 0 \<or> device \<ge> n then Inl InvalidArgument
          else if \<not> cu_guard env \<or> \<not> cu_malloc env then Inl RuntimeError
          else Inr ())"

text \<open>
  The answers of the runtime during one call of a mover. Calls that depend on the device fail
  after a fault; they may also fail for reasons of their own.
\<close>

record stream_answers =
  sa_event_create :: bool
  sa_copy :: bool
  sa_record :: bool
  sa_sync :: bool
  sa_event_sync :: bool
  sa_event_destroy :: bool

definition good_answers :: stream_answers where
  "good_answers = \<lparr>sa_event_create = True, sa_copy = True, sa_record = True, sa_sync = True, sa_event_sync = True,
     sa_event_destroy = True\<rparr>"

definition ce_dir :: "(cache_directory \<Rightarrow> 'a res \<times> cache_directory) \<Rightarrow> copy_engine \<Rightarrow> 'a res \<times> copy_engine" where
  "ce_dir f e = (case f (ce_directory e) of (r, d) \<Rightarrow> (r, e\<lparr>ce_directory := d\<rparr>))"

definition event_create :: "stream_answers \<Rightarrow> copy_engine \<Rightarrow> nat res \<times> copy_engine" where
  "event_create env e =
     (if \<not> sa_event_create env then (Inl RuntimeError, e)
      else (Inr (ce_next_event e), e\<lparr>ce_next_event := ce_next_event e + 1\<rparr>))"

definition memcpy_async :: "stream_answers \<Rightarrow> place \<Rightarrow> place \<Rightarrow> copy_engine \<Rightarrow> unit res \<times> copy_engine" where
  "memcpy_async env source destination e =
     (if \<not> sa_copy env \<or> ce_faulted e then (Inl RuntimeError, e)
      else (Inr (), e\<lparr>ce_queue := ce_queue e @ [Copy source destination]\<rparr>))"

definition event_record :: "stream_answers \<Rightarrow> nat \<Rightarrow> copy_engine \<Rightarrow> unit res \<times> copy_engine" where
  "event_record env n e =
     (if \<not> sa_record env \<or> ce_faulted e then (Inl RuntimeError, e)
      else (Inr (), e\<lparr>ce_queue := ce_queue e @ [Event n]\<rparr>))"

text \<open>\<open>CudaStream::synchronize\<close> returns when the device has emptied the queue.\<close>

definition stream_synchronize :: "stream_answers \<Rightarrow> copy_engine \<Rightarrow> unit res \<times> copy_engine" where
  "stream_synchronize env e =
     (if \<not> sa_sync env \<or> ce_faulted e then (Inl RuntimeError, e)
      else (Inr (), e\<lparr>ce_queue := [], ce_memory := fold stream_exec (ce_queue e) (ce_memory e)\<rparr>))"

text \<open>Waiting for an event: the device works until it has passed it.\<close>

fun run_until :: "nat \<Rightarrow> stream_op list \<Rightarrow> chunk_memory \<Rightarrow> stream_op list \<times> chunk_memory" where
  "run_until n [] m = ([], m)"
| "run_until n (x # q) m = (if x = Event n then (q, m) else run_until n q (stream_exec x m))"

definition event_done :: "nat \<Rightarrow> copy_engine \<Rightarrow> bool" where
  "event_done n e \<longleftrightarrow> Event n \<notin> set (ce_queue e)"

definition event_synchronize :: "stream_answers \<Rightarrow> nat \<Rightarrow> copy_engine \<Rightarrow> unit res \<times> copy_engine" where
  "event_synchronize env n e =
     (if \<not> sa_event_sync env \<or> ce_faulted e then (Inl RuntimeError, e)
      else if event_done n e then (Inr (), e)
      else (Inr (), (case run_until n (ce_queue e) (ce_memory e) of (q, m) \<Rightarrow> e\<lparr>ce_queue := q, ce_memory := m\<rparr>)))"

text \<open>\<open>cudaEventQuery\<close>: \<open>None\<close> is \<open>cudaErrorNotReady\<close>.\<close>

definition event_query :: "nat \<Rightarrow> copy_engine \<Rightarrow> unit res option" where
  "event_query n e =
     (if ce_faulted e then Some (Inl RuntimeError) else if event_done n e then Some (Inr ()) else None)"

section \<open>The memory as one array of slots\<close>

definition cm_inv :: "chunk_memory \<Rightarrow> bool" where
  "cm_inv m \<longleftrightarrow> gs_inv (cm_gpu m) \<and> hb_inv (cm_cpu m) \<and> gs_chunk_bytes (cm_gpu m) = hb_chunk_bytes (cm_cpu m)"

definition cm_bytes :: "chunk_memory \<Rightarrow> nat" where
  "cm_bytes m = gs_chunk_bytes (cm_gpu m)"

definition cm_shape :: "chunk_memory \<Rightarrow> nat \<times> nat \<times> nat" where
  "cm_shape m = (gs_slots (cm_gpu m), hb_slots (cm_cpu m), cm_bytes m)"

lemma cm_load_length:
  assumes inv: "cm_inv m" and l: "cm_load a m = Inr bs"
  shows "length bs = cm_bytes m"
proof -
  obtain t i where a: "a = At t i" by (cases a)
  show ?thesis
  proof (cases t)
    case GPU
    then have "i < gs_slots (cm_gpu m)"
      using inv l a gs.load_err [of "cm_gpu m" i] by (fastforce simp: cm_inv_def not_less)
    then show ?thesis using GPU inv l a gs.load_ok [of "cm_gpu m" i] by (auto simp: cm_inv_def cm_bytes_def)
  next
    case CPU
    then have "i < hb_slots (cm_cpu m)"
      using inv l a hb.load_err [of "cm_cpu m" i] by (fastforce simp: cm_inv_def not_less)
    then show ?thesis using CPU inv l a hb.load_ok [of "cm_cpu m" i] by (auto simp: cm_inv_def cm_bytes_def)
  qed (use l a in simp_all)
qed

lemma cm_store_cases:
  assumes inv: "cm_inv m" and s: "cm_store b bs m = (r, m')" and n: "length bs = cm_bytes m"
  shows "cm_inv m' \<and> cm_shape m' = cm_shape m \<and>
    (r = Inr () \<and> (\<exists>x. cm_load b m = Inr x) \<and> (\<forall>a. cm_load a m' = (if a = b then Inr bs else cm_load a m)) \<or>
     (\<exists>e. r = Inl e) \<and> (\<exists>e. cm_load b m = Inl e) \<and> m' = m)"
proof -
  obtain t i where b: "b = At t i" by (cases b)
  show ?thesis
  proof (cases t)
    case GPU
    obtain q g where q: "gs_store i bs (cm_gpu m) = (q, g)" by (metis surj_pair)
    have g: "gs_inv (cm_gpu m)" "length bs = gs_chunk_bytes (cm_gpu m)" using inv n by (simp_all add: cm_inv_def cm_bytes_def)
    have m': "m' = m\<lparr>cm_gpu := g\<rparr>" "r = q" using s q b GPU by simp_all
    note c = gs.store_cases [OF g(1) q g(2)]
    have other: "cm_load a m' = (if a = b then Inr bs else cm_load a m)"
      if "\<forall>j. gs_load j g = (if j = i then Inr bs else gs_load j (cm_gpu m))" for a
    proof -
      obtain t' j where "a = At t' j" by (cases a)
      then show ?thesis using that m' b GPU by (cases t') auto
    qed
    show ?thesis
      using c inv m' b GPU other gs.load_err [OF g(1), of i] gs.load_ok [OF g(1), of i]
      by (auto simp: cm_inv_def cm_shape_def cm_bytes_def)
  next
    case CPU
    obtain q h where q: "hb_store i bs (cm_cpu m) = (q, h)" by (metis surj_pair)
    have g: "hb_inv (cm_cpu m)" "length bs = hb_chunk_bytes (cm_cpu m)" using inv n by (simp_all add: cm_inv_def cm_bytes_def)
    have m': "m' = m\<lparr>cm_cpu := h\<rparr>" "r = q" using s q b CPU by simp_all
    note c = hb.store_cases [OF g(1) q g(2)]
    have other: "cm_load a m' = (if a = b then Inr bs else cm_load a m)"
      if "\<forall>j. hb_load j h = (if j = i then Inr bs else hb_load j (cm_cpu m))" for a
    proof -
      obtain t' j where "a = At t' j" by (cases a)
      then show ?thesis using that m' b CPU by (cases t') auto
    qed
    show ?thesis
      using c inv m' b CPU other hb.load_err [OF g(1), of i] hb.load_ok [OF g(1), of i]
      by (auto simp: cm_inv_def cm_shape_def cm_bytes_def)
  qed (use s b inv in auto)
qed

lemma stream_exec_inv [simp]:
  assumes "cm_inv m"
  shows "cm_inv (stream_exec x m)" "cm_shape (stream_exec x m) = cm_shape m"
proof -
  have "cm_inv (stream_exec x m) \<and> cm_shape (stream_exec x m) = cm_shape m"
  proof (cases x)
    case (Copy a b)
    show ?thesis
    proof (cases "cm_load a m")
      case (Inr bs)
      obtain r m' where s: "cm_store b bs m = (r, m')" by (metis surj_pair)
      then show ?thesis using cm_store_cases [OF assms s cm_load_length [OF assms Inr]] Copy Inr by simp
    qed (use assms Copy in simp)
  qed (use assms in simp)
  then show "cm_inv (stream_exec x m)" "cm_shape (stream_exec x m) = cm_shape m" by simp_all
qed

text \<open>Which loads succeed depends on the shape only.\<close>

lemma cm_load_defined:
  assumes "cm_inv m" "cm_inv m'" "cm_shape m' = cm_shape m"
  shows "(\<exists>x. cm_load a m' = Inr x) = (\<exists>x. cm_load a m = Inr x)"
proof -
  have "(\<exists>x. gs_load i (cm_gpu n) = Inr x) = (i < gs_slots (cm_gpu n))" "(\<exists>x. hb_load i (cm_cpu n) = Inr x) = (i < hb_slots (cm_cpu n))"
    if "cm_inv n" for n i
    using that gs.load_ok [of "cm_gpu n" i] gs.load_err [of "cm_gpu n" i] hb.load_ok [of "cm_cpu n" i] hb.load_err [of "cm_cpu n" i]
    unfolding cm_inv_def by (metis Inl_Inr_False not_less)+
  moreover obtain t i where "a = At t i" by (cases a)
  ultimately show ?thesis using assms by (cases t) (simp_all add: cm_shape_def)
qed

lemma stream_exec_load:
  assumes inv: "cm_inv m"
  shows "cm_load c (stream_exec x m) =
    (case x of Copy a b \<Rightarrow> if c = b \<and> (\<exists>y. cm_load b m = Inr y) \<and> (\<exists>y. cm_load a m = Inr y) then cm_load a m else cm_load c m
     | Event n \<Rightarrow> cm_load c m)"
proof (cases x)
  case (Copy a b)
  show ?thesis
  proof (cases "cm_load a m")
    case (Inr bs)
    obtain r m' where s: "cm_store b bs m = (r, m')" by (metis surj_pair)
    then show ?thesis
      using cm_store_cases [OF inv s cm_load_length [OF inv Inr]] Copy Inr by auto
  qed (use Copy in simp)
qed simp

lemma fold_exec_inv: "cm_inv m \<Longrightarrow> cm_inv (fold stream_exec q m) \<and> cm_shape (fold stream_exec q m) = cm_shape m"
  by (induction q arbitrary: m) simp_all

text \<open>A place that is not the destination of any queued copy keeps its content.\<close>

definition untouched :: "place \<Rightarrow> stream_op list \<Rightarrow> bool" where
  "untouched c q \<longleftrightarrow> (\<forall>a. Copy a c \<notin> set q)"

lemma exec_untouched: "cm_inv m \<Longrightarrow> (\<forall>a. x \<noteq> Copy a c) \<Longrightarrow> cm_load c (stream_exec x m) = cm_load c m"
  by (cases x) (auto simp: stream_exec_load simp del: stream_exec.simps)

lemma fold_untouched: "cm_inv m \<Longrightarrow> untouched c q \<Longrightarrow> cm_load c (fold stream_exec q m) = cm_load c m"
proof (induction q arbitrary: m)
  case (Cons x q)
  then have "cm_load c (stream_exec x m) = cm_load c m" by (intro exec_untouched) (auto simp: untouched_def)
  then show ?case using Cons by (simp add: untouched_def)
qed simp

section \<open>Flights\<close>

text \<open>
  A flight is a copy of a chunk from one level to another that has been started and not been
  finished: an entry of \<open>pending_\<close> of one mover, an unfinished task of the other. \<open>fl_event\<close> is
  the event behind its copy on the stream; a flight to or from a file has none.
\<close>

record flight =
  fl_source :: storage_tier
  fl_destination :: storage_tier
  fl_source_loc :: tier_location
  fl_destination_loc :: tier_location
  fl_event :: "nat option"

definition fl_from :: "flight \<Rightarrow> place" where "fl_from f = At (fl_source f) (loc_slot (fl_source_loc f))"
definition fl_to :: "flight \<Rightarrow> place" where "fl_to f = At (fl_destination f) (loc_slot (fl_destination_loc f))"

definition busy :: "chunk_state \<Rightarrow> bool" where
  "busy st \<longleftrightarrow> st \<noteq> READY \<and> st \<noteq> ERROR"

lemma busy_simps [simp]: "\<not> busy READY" "\<not> busy ERROR" "busy COPYING" "busy LOADING" "busy EVICTING"
  by (simp_all add: busy_def)

definition occupied :: "cache_directory \<Rightarrow> cache_key \<Rightarrow> place \<Rightarrow> bool" where
  "occupied d k a \<longleftrightarrow> (\<exists>x. cd_rep d (at_tier a) k = Some x \<and> loc_slot (rp_location x) = at_slot a \<and> busy (rp_state x))"

definition clear :: "place \<Rightarrow> stream_op list \<Rightarrow> bool" where
  "clear c q \<longleftrightarrow> (\<forall>a b. Copy a b \<in> set q \<longrightarrow> a \<noteq> c \<and> b \<noteq> c)"

lemma clear_untouched: "clear c q \<Longrightarrow> untouched c q"
  by (auto simp: clear_def untouched_def)

lemma clear_simps [simp]:
  "clear c []" "clear c (Event n # q) = clear c q" "clear c (Copy a b # q) \<longleftrightarrow> a \<noteq> c \<and> b \<noteq> c \<and> clear c q"
  "clear c (q @ q') \<longleftrightarrow> clear c q \<and> clear c q'"
  by (auto simp: clear_def)

text \<open>Where the stream stands when it has passed an event.\<close>

definition pass :: "nat \<Rightarrow> copy_engine \<Rightarrow> stream_op list \<times> chunk_memory" where
  "pass n e = (if event_done n e then (ce_queue e, ce_memory e) else run_until n (ce_queue e) (ce_memory e))"

text \<open>The bytes of the source will be in the destination, and no copy of the chunk is left behind.\<close>

definition arrives :: "(cache_key \<Rightarrow> memory) \<Rightarrow> nat \<Rightarrow> cache_key \<Rightarrow> flight \<Rightarrow> copy_engine \<Rightarrow> bool" where
  "arrives data n k f e \<longleftrightarrow>
     (case pass n e of (q, m) \<Rightarrow> clear (fl_from f) q \<and> clear (fl_to f) q \<and> cm_load (fl_to f) m = Inr (data k))"

abbreviation "ce_rep e \<equiv> cd_rep (ce_directory e)"
abbreviation "ce_pins e \<equiv> cd_pins (ce_directory e)"

definition fl_held :: "cache_directory \<Rightarrow> cache_key \<Rightarrow> flight \<Rightarrow> bool" where
  "fl_held d k f \<longleftrightarrow>
     fl_source f \<noteq> fl_destination f \<and>
     cd_rep d (fl_source f) k = Some \<lparr>rp_location = fl_source_loc f, rp_state = COPYING\<rparr> \<and>
     (\<exists>st. busy st \<and> cd_rep d (fl_destination f) k = Some \<lparr>rp_location = fl_destination_loc f, rp_state = st\<rparr>) \<and>
     (\<exists>n. cd_pins d k = Some n \<and> 0 < n)"

definition fl_ok :: "(cache_key \<Rightarrow> memory) \<Rightarrow> copy_engine \<Rightarrow> cache_key \<Rightarrow> flight \<Rightarrow> bool" where
  "fl_ok data e k f \<longleftrightarrow>
     fl_held (ce_directory e) k f \<and> untouched (fl_from f) (ce_queue e) \<and>
     (case fl_event f of
        None \<Rightarrow> clear (fl_from f) (ce_queue e) \<and> clear (fl_to f) (ce_queue e)
      | Some n \<Rightarrow> n < ce_next_event e \<and> {fl_source f, fl_destination f} = {GPU, CPU} \<and>
          (\<not> ce_faulted e \<longrightarrow> arrives data n k f e))"

lemma fl_okI:
  assumes "fl_ok data e k f" and "fl_held (ce_directory e') k f"
    and "untouched (fl_from f) (ce_queue e) \<Longrightarrow> untouched (fl_from f) (ce_queue e')"
    and "\<And>c. c \<in> {fl_from f, fl_to f} \<Longrightarrow> clear c (ce_queue e) \<Longrightarrow> clear c (ce_queue e')"
    and "ce_next_event e \<le> ce_next_event e'" and "ce_faulted e \<Longrightarrow> ce_faulted e'"
    and "\<And>n. fl_event f = Some n \<Longrightarrow> n < ce_next_event e \<Longrightarrow> \<not> ce_faulted e' \<Longrightarrow> arrives data n k f e \<Longrightarrow> arrives data n k f e'"
  shows "fl_ok data e' k f"
  using assms by (cases "fl_event f") (auto simp: fl_ok_def)

text \<open>
  The invariant of the shared part. \<open>data\<close> gives the content of every chunk: all READY replicas
  in memory hold it, and so do the sources of flights. Every queued copy is between replicas of
  one chunk which the directory refuses to give up.
\<close>

definition coherent :: "(cache_key \<Rightarrow> memory) \<Rightarrow> (cache_key \<rightharpoonup> flight) \<Rightarrow> cache_directory \<Rightarrow> chunk_memory \<Rightarrow> bool" where
  "coherent data F d m \<longleftrightarrow>
     (\<forall>k t x. t \<in> {GPU, CPU} \<longrightarrow> cd_rep d t k = Some x \<longrightarrow>
        rp_state x = READY \<or> (\<exists>f. F k = Some f \<and> fl_source f = t) \<longrightarrow>
        cm_load (At t (loc_slot (rp_location x))) m = Inr (data k))"

definition queue_ok :: "cache_directory \<Rightarrow> stream_op list \<Rightarrow> bool" where
  "queue_ok d q \<longleftrightarrow> (\<forall>a b. Copy a b \<in> set q \<longrightarrow> {at_tier a, at_tier b} = {GPU, CPU} \<and> (\<exists>k. occupied d k a \<and> occupied d k b))"

definition events_ok :: "copy_engine \<Rightarrow> bool" where
  "events_ok e \<longleftrightarrow>
     (\<forall>n. count_list (ce_queue e) (Event n) \<le> 1) \<and> (\<forall>n. Event n \<in> set (ce_queue e) \<longrightarrow> n < ce_next_event e)"

lemma events_okD:
  assumes "events_ok e"
  shows "count_list (ce_queue e) (Event n) \<le> 1" "Event n \<in> set (ce_queue e) \<Longrightarrow> n < ce_next_event e"
  using assms by (simp_all add: events_ok_def)

definition en_inv :: "(cache_key \<Rightarrow> memory) \<Rightarrow> (cache_key \<rightharpoonup> flight) \<Rightarrow> copy_engine \<Rightarrow> bool" where
  "en_inv data F e \<longleftrightarrow>
     cd_inv (ce_directory e) \<and> cm_inv (ce_memory e) \<and> queue_ok (ce_directory e) (ce_queue e) \<and>
     (ce_faulted e \<longrightarrow> ce_queue e = []) \<and> coherent data F (ce_directory e) (ce_memory e) \<and> events_ok e \<and>
     (\<forall>k f. F k = Some f \<longrightarrow> fl_ok data e k f)"

lemma en_invD:
  assumes "en_inv data F e"
  shows "cd_inv (ce_directory e)" "cm_inv (ce_memory e)" "queue_ok (ce_directory e) (ce_queue e)"
    "ce_faulted e \<Longrightarrow> ce_queue e = []" "coherent data F (ce_directory e) (ce_memory e)"
    "\<And>k f. F k = Some f \<Longrightarrow> fl_ok data e k f" "events_ok e"
  using assms by (simp_all add: en_inv_def)

lemma coherentD:
  "coherent data F d m \<Longrightarrow> t \<in> {GPU, CPU} \<Longrightarrow> cd_rep d t k = Some x \<Longrightarrow>
     rp_state x = READY \<or> (\<exists>f. F k = Some f \<and> fl_source f = t) \<Longrightarrow>
     cm_load (At t (loc_slot (rp_location x))) m = Inr (data k)"
  unfolding coherent_def by blast

section \<open>Slots belong to one chunk\<close>

lemma cd_slot_unique:
  assumes inv: "cd_inv d" and x: "cd_rep d t k = Some x" and y: "cd_rep d t k' = Some y"
    and s: "loc_slot (rp_location x) = loc_slot (rp_location y)"
  shows "k = k'"
proof -
  obtain tt where m: "tier_matches t tt (cd_locs d t)" using cd_rep_level [OF x] inv by (auto simp: cd_inv_def)
  have lx: "cd_locs d t k = Some (rp_location x)" "cd_locs d t k' = Some (rp_location y)"
    using x y by (simp_all add: cd_locs_rep)
  then have live: "rp_location x \<in> tier_live tt" "rp_location y \<in> tier_live tt"
    using m by (auto simp: tier_matches_def intro: ranI)
  have "rp_location x = rp_location y"
    using m live s by (intro tier.slot_unique [of tt]) (simp_all add: tier_matches_def)
  then have "cd_locs d t k = cd_locs d t k'" using lx by simp
  then show ?thesis using lx m inj_onD [of "cd_locs d t" "dom (cd_locs d t)" k k'] by (auto simp: tier_matches_def)
qed

lemma occupied_unique:
  assumes "cd_inv d" and "occupied d k a" and "occupied d k' a"
  shows "k = k'"
  using assms cd_slot_unique [OF assms(1), of "at_tier a" k _ k'] by (auto simp: occupied_def)

lemma ready_clear:
  assumes inv: "cd_inv d" and q: "queue_ok d q" and x: "cd_rep d t k = Some x" and r: "\<not> busy (rp_state x)"
  shows "clear (At t (loc_slot (rp_location x))) q"
proof -
  have "\<not> occupied d k' (At t (loc_slot (rp_location x)))" for k'
    using cd_slot_unique [OF inv x, of k'] x r by (auto simp: occupied_def)
  then show ?thesis using q unfolding clear_def queue_ok_def by blast
qed

lemma free_clear:
  assumes inv: "cd_inv d" and q: "queue_ok d q" and x: "\<And>k x. cd_rep d t k = Some x \<Longrightarrow> loc_slot (rp_location x) \<noteq> i"
  shows "clear (At t i) q"
proof -
  have "\<not> occupied d k (At t i)" for k using x by (auto simp: occupied_def)
  then show ?thesis using q unfolding clear_def queue_ok_def by blast
qed

lemma held_occupied:
  assumes "fl_held d k f"
  shows "occupied d k (fl_from f)" "occupied d k (fl_to f)" "at_tier (fl_from f) \<noteq> at_tier (fl_to f)"
  using assms by (auto simp: fl_held_def occupied_def fl_from_def fl_to_def)

section \<open>The device makes progress\<close>

lemma clear_run: "clear c q \<Longrightarrow> clear c (fst (run_until n q m))"
proof (induction n q m rule: run_until.induct)
  case (2 n x q m)
  then have "clear c q" by (cases x) simp_all
  then show ?case using 2 by simp
qed simp

lemma exec_clear: "cm_inv m \<Longrightarrow> clear c (x # q) \<Longrightarrow> cm_load c (stream_exec x m) = cm_load c m"
  by (rule exec_untouched) (auto simp: clear_def)

lemma run_clear: "cm_inv m \<Longrightarrow> clear c q \<Longrightarrow> cm_load c (snd (run_until n q m)) = cm_load c m"
proof (induction n q m rule: run_until.induct)
  case (2 n x q m)
  then have "clear c q" by (cases x) simp_all
  moreover have "cm_load c (stream_exec x m) = cm_load c m" using exec_clear 2 by blast
  ultimately show ?case using 2 by simp
qed simp

lemma clear_Cons: "clear c (x # q) \<Longrightarrow> clear c q"
  by (cases x) simp_all

text \<open>One step does not change where the stream will stand, except that a passed event is passed.\<close>

lemma arrives_step:
  assumes inv: "cm_inv (ce_memory e)" and q: "ce_queue e = x # q" and a: "arrives data n k f e"
  shows "arrives data n k f (ce_step e)"
proof -
  let ?e = "ce_step e"
  have e': "ce_queue ?e = q" "ce_memory ?e = stream_exec x (ce_memory e)" using q by (simp_all add: ce_step_def)
  consider (same) "pass n ?e = pass n e" | (gone) "event_done n e" | (now) "x = Event n"
  proof (cases "event_done n e \<or> x = Event n")
    case False
    then have "Event n \<in> set q" "x \<noteq> Event n" using q by (auto simp: event_done_def)
    then have "pass n ?e = pass n e" using q e' by (simp add: pass_def event_done_def)
    then show ?thesis using that by blast
  qed (use that in blast)
  then show ?thesis
  proof cases
    case same
    then show ?thesis using a by (simp add: arrives_def)
  next
    case gone
    then have "clear (fl_from f) (x # q)" "clear (fl_to f) (x # q)" "cm_load (fl_to f) (ce_memory e) = Inr (data k)" "event_done n ?e"
      using a q e' by (auto simp: arrives_def pass_def event_done_def)
    then show ?thesis using clear_Cons exec_clear [OF inv] e' by (simp add: arrives_def pass_def)
  next
    case now
    then have "clear (fl_from f) q" "clear (fl_to f) q" "cm_load (fl_to f) (ce_memory e) = Inr (data k)"
      using a q by (auto simp: arrives_def pass_def event_done_def)
    then show ?thesis
      using now e' clear_run run_clear [OF inv] by (simp add: arrives_def pass_def split: prod.split) (metis fst_conv snd_conv)
  qed
qed

lemma queue_ok_Cons: "queue_ok d (x # q) \<Longrightarrow> queue_ok d q"
  by (auto simp: queue_ok_def)

text \<open>What the invariant calls coherent is never the destination of a queued copy.\<close>

lemma kept_untouched:
  assumes inv: "en_inv data F e" and y: "ce_rep e t k = Some y"
    and h: "rp_state y = READY \<or> (\<exists>f. F k = Some f \<and> fl_source f = t)"
  shows "untouched (At t (loc_slot (rp_location y))) (ce_queue e)"
  using h
proof
  assume "rp_state y = READY"
  then show ?thesis using ready_clear [OF en_invD(1,3) [OF inv] y] by (simp add: clear_untouched)
next
  assume "\<exists>f. F k = Some f \<and> fl_source f = t"
  then obtain f where "F k = Some f" "fl_source f = t" by blast
  then show ?thesis using en_invD(6) [OF inv, of k f] y by (auto simp: fl_ok_def fl_held_def fl_from_def)
qed

lemma en_step:
  assumes inv: "en_inv data F e"
  shows "en_inv data F (ce_step e)"
proof (cases "ce_queue e")
  case Nil
  then show ?thesis using inv by (simp add: ce_step_def)
next
  case (Cons x q)
  note i = en_invD [OF inv]
  let ?e = "ce_step e" and ?m = "stream_exec x (ce_memory e)"
  have e': "ce_queue ?e = q" "ce_memory ?e = ?m" "ce_directory ?e = ce_directory e" "ce_faulted ?e = ce_faulted e"
    "ce_next_event ?e = ce_next_event e"
    using Cons by (simp_all add: ce_step_def)
  have "coherent data F (ce_directory e) ?m"
    unfolding coherent_def
  proof (intro allI impI)
    fix k t y
    assume t: "t \<in> {GPU, CPU}" and y: "ce_rep e t k = Some y"
      and h: "rp_state y = READY \<or> (\<exists>f. F k = Some f \<and> fl_source f = t)"
    let ?c = "At t (loc_slot (rp_location y))"
    have "untouched ?c (ce_queue e)" by (rule kept_untouched [OF inv y h])
    then have "cm_load ?c ?m = cm_load ?c (ce_memory e)"
      using Cons by (intro exec_untouched [OF i(2)]) (auto simp: untouched_def)
    then show "cm_load ?c ?m = Inr (data k)" using coherentD [OF i(5) t y h] by simp
  qed
  moreover have "fl_ok data ?e k f" if "F k = Some f" for k f
  proof -
    note fo = i(6) [OF that]
    have "\<not> ce_faulted e \<Longrightarrow> fl_event f = Some n \<Longrightarrow> arrives data n k f ?e" for n
      using fo arrives_step [OF i(2) Cons] by (auto simp: fl_ok_def)
    then show ?thesis
      using fo Cons clear_Cons [of _ x q] e' by (auto simp: fl_ok_def untouched_def split: option.splits)
  qed
  moreover have "events_ok ?e"
    unfolding events_ok_def e'
  proof (intro conjI allI impI)
    fix n
    show "count_list q (Event n) \<le> 1" using events_okD(1) [OF i(7), of n] Cons by (simp split: if_splits)
    show "n < ce_next_event e" if "Event n \<in> set q" using events_okD(2) [OF i(7), of n] Cons that by simp
  qed
  moreover have "\<not> ce_faulted e" using i(4) Cons by auto
  ultimately show ?thesis using i(1-3) queue_ok_Cons [of _ x q] Cons by (simp add: en_inv_def e')
qed

lemma ce_step_fields [simp]:
  "ce_directory ((ce_step ^^ n) e) = ce_directory e" "ce_next_event ((ce_step ^^ n) e) = ce_next_event e"
  "ce_faulted ((ce_step ^^ n) e) = ce_faulted e"
proof -
  have "ce_directory (ce_step e) = ce_directory e \<and> ce_next_event (ce_step e) = ce_next_event e \<and>
      ce_faulted (ce_step e) = ce_faulted e" for e
    by (cases "ce_queue e") (simp_all add: ce_step_def)
  then show "ce_directory ((ce_step ^^ n) e) = ce_directory e" "ce_next_event ((ce_step ^^ n) e) = ce_next_event e"
    "ce_faulted ((ce_step ^^ n) e) = ce_faulted e" by (induction n) simp_all
qed

lemma en_steps: "en_inv data F e \<Longrightarrow> en_inv data F ((ce_step ^^ n) e)"
  by (induction n) (simp_all add: en_step)

lemma run_steps:
  "\<exists>j. (case run_until n (ce_queue e) (ce_memory e) of (q, m) \<Rightarrow> e\<lparr>ce_queue := q, ce_memory := m\<rparr>) = (ce_step ^^ j) e"
proof (induction "ce_queue e" arbitrary: e)
  case Nil
  then show ?case by (intro exI [of _ 0]) (simp add: Nil [symmetric])
next
  case (Cons x q)
  have e': "ce_queue (ce_step e) = q" "ce_memory (ce_step e) = stream_exec x (ce_memory e)"
    "\<And>q' m'. (ce_step e)\<lparr>ce_queue := q', ce_memory := m'\<rparr> = e\<lparr>ce_queue := q', ce_memory := m'\<rparr>"
    using Cons(2) [symmetric] by (simp_all add: ce_step_def)
  show ?case
  proof (cases "x = Event n")
    case True
    then show ?thesis using Cons(2) [symmetric] by (intro exI [of _ 1]) (simp add: ce_step_def)
  next
    case False
    obtain j where "(case run_until n q (ce_memory (ce_step e)) of (q, m) \<Rightarrow> (ce_step e)\<lparr>ce_queue := q, ce_memory := m\<rparr>) =
        (ce_step ^^ j) (ce_step e)" using Cons(1) [of "ce_step e"] e'(1) by auto
    then show ?thesis
      using False Cons(2) [symmetric] e' by (intro exI [of _ "Suc j"]) (simp add: funpow_swap1)
  qed
qed

lemma all_steps:
  "e\<lparr>ce_queue := [], ce_memory := fold stream_exec (ce_queue e) (ce_memory e)\<rparr> = (ce_step ^^ length (ce_queue e)) e"
proof (induction "ce_queue e" arbitrary: e)
  case Nil
  then show ?case by (simp add: Nil [symmetric])
next
  case (Cons x q)
  have e': "ce_queue (ce_step e) = q" "ce_memory (ce_step e) = stream_exec x (ce_memory e)"
    "\<And>q' m'. (ce_step e)\<lparr>ce_queue := q', ce_memory := m'\<rparr> = e\<lparr>ce_queue := q', ce_memory := m'\<rparr>"
    using Cons(2) [symmetric] by (simp_all add: ce_step_def)
  show ?case using Cons(1) [of "ce_step e"] e' Cons(2) [symmetric] by (simp add: funpow_swap1)
qed

lemma en_sync:
  assumes "en_inv data F e" and "stream_synchronize env e = (r, e')"
  shows "en_inv data F e' \<and> ce_directory e' = ce_directory e \<and> ce_next_event e' = ce_next_event e \<and> ce_faulted e' = ce_faulted e \<and>
    (r = Inr () \<and> ce_queue e' = [] \<and> \<not> ce_faulted e \<or> r = Inl RuntimeError \<and> e' = e \<and> (\<not> sa_sync env \<or> ce_faulted e))"
  using assms en_steps [OF assms(1), of "length (ce_queue e)"] by (auto simp: stream_synchronize_def all_steps [symmetric] split: if_splits)

lemma run_until_done: "count_list q (Event n) \<le> 1 \<Longrightarrow> Event n \<notin> set (fst (run_until n q m))"
  by (induction n q m rule: run_until.induct) (auto simp: count_list_0_iff split: if_splits)

lemma en_event_sync:
  assumes "en_inv data F e" and "event_synchronize env n e = (r, e')"
  shows "en_inv data F e' \<and> ce_directory e' = ce_directory e \<and> ce_next_event e' = ce_next_event e \<and> ce_faulted e' = ce_faulted e \<and>
    (r = Inr () \<and> \<not> ce_faulted e \<and> event_done n e' \<and> (ce_queue e', ce_memory e') = pass n e \<or>
     r = Inl RuntimeError \<and> e' = e \<and> (\<not> sa_event_sync env \<or> ce_faulted e))"
proof -
  obtain j where "(case run_until n (ce_queue e) (ce_memory e) of (q, m) \<Rightarrow> e\<lparr>ce_queue := q, ce_memory := m\<rparr>) = (ce_step ^^ j) e"
    using run_steps by blast
  then show ?thesis
    using assms en_steps [OF assms(1), of j] ce_step_fields [of j e] run_until_done [of "ce_queue e" n "ce_memory e"]
      events_okD(1) [OF en_invD(7) [OF assms(1)], of n]
    by (cases "run_until n (ce_queue e) (ce_memory e)")
      (auto simp: event_synchronize_def event_done_def pass_def split: if_splits simp del: ce_step_fields)
qed

lemma en_fault:
  assumes inv: "en_inv data F e"
  shows "en_inv data F (ce_fault bs e)"
proof -
  note i = en_invD [OF inv]
  let ?e = "ce_fault bs e"
  have e': "ce_queue ?e = []" "ce_directory ?e = ce_directory e" "ce_faulted ?e" "ce_next_event ?e = ce_next_event e"
    by (simp_all add: ce_fault_def)
  have m: "cm_inv (ce_memory ?e) \<and> (\<forall>c. untouched c (ce_queue e) \<longrightarrow> cm_load c (ce_memory ?e) = cm_load c (ce_memory e))"
  proof (cases "\<exists>a b q. ce_queue e = Copy a b # q \<and> length bs = gs_chunk_bytes (cm_gpu (ce_memory e))")
    case True
    then obtain a b q where q: "ce_queue e = Copy a b # q" "length bs = cm_bytes (ce_memory e)"
      by (auto simp: cm_bytes_def)
    obtain r m' where s: "cm_store b bs (ce_memory e) = (r, m')" by (metis surj_pair)
    then have "ce_memory ?e = m'" using q by (simp add: ce_fault_def cm_bytes_def)
    then show ?thesis using cm_store_cases [OF i(2) s q(2)] q(1) by (auto simp: untouched_def)
  next
    case False
    then have "ce_memory ?e = ce_memory e" by (auto simp: ce_fault_def split: list.splits stream_op.splits)
    then show ?thesis using i(2) by simp
  qed
  have "coherent data F (ce_directory e) (ce_memory ?e)"
    unfolding coherent_def
  proof (intro allI impI)
    fix k t y
    assume t: "t \<in> {GPU, CPU}" and y: "ce_rep e t k = Some y"
      and h: "rp_state y = READY \<or> (\<exists>f. F k = Some f \<and> fl_source f = t)"
    have "untouched (At t (loc_slot (rp_location y))) (ce_queue e)" by (rule kept_untouched [OF inv y h])
    then show "cm_load (At t (loc_slot (rp_location y))) (ce_memory ?e) = Inr (data k)"
      using m coherentD [OF i(5) t y h] by simp
  qed
  moreover have "fl_ok data ?e k f" if "F k = Some f" for k f
    using i(6) [OF that] e' by (auto simp: fl_ok_def untouched_def split: option.splits)
  ultimately show ?thesis using i(1) m by (simp add: en_inv_def e' queue_ok_def events_ok_def)
qed

section \<open>The owner changes the directory\<close>

text \<open>The directory may change at one chunk, \<open>k\<close>, whose flight, if it had one, then ends.\<close>

lemma en_dir:
  assumes inv: "en_inv data F e" and d': "cd_inv d'"
    and other: "\<And>t j. j \<noteq> k \<Longrightarrow> cd_rep d' t j = ce_rep e t j" "\<And>j. j \<noteq> k \<Longrightarrow> cd_pins d' j = ce_pins e j"
    and F': "F' = F(k := None) \<or> F' = F \<and> (\<forall>f. F k = Some f \<longrightarrow> fl_held d' k f)"
    and busy: "\<And>t x. t \<in> {GPU, CPU} \<Longrightarrow> ce_rep e t k = Some x \<Longrightarrow> busy (rp_state x) \<Longrightarrow>
      occupied d' k (At t (loc_slot (rp_location x))) \<or> clear (At t (loc_slot (rp_location x))) (ce_queue e)"
    and ready: "\<And>t x. t \<in> {GPU, CPU} \<Longrightarrow> cd_rep d' t k = Some x \<Longrightarrow> rp_state x = READY \<Longrightarrow>
      ce_rep e t k = Some x \<or> cm_load (At t (loc_slot (rp_location x))) (ce_memory e) = Inr (data k)"
  shows "en_inv data F' (e\<lparr>ce_directory := d'\<rparr>)"
proof -
  note i = en_invD [OF inv]
  let ?e = "e\<lparr>ce_directory := d'\<rparr>"
  have "queue_ok d' (ce_queue e)"
    unfolding queue_ok_def
  proof (intro allI impI conjI)
    fix a b assume c: "Copy a b \<in> set (ce_queue e)"
    then show tiers: "{at_tier a, at_tier b} = {GPU, CPU}" using i(3) by (simp add: queue_ok_def)
    obtain j where j: "occupied (ce_directory e) j a" "occupied (ce_directory e) j b"
      using i(3) c unfolding queue_ok_def by blast
    have "occupied d' j p" if p: "p \<in> {a, b}" for p
    proof (cases "j = k")
      case True
      obtain x where x: "ce_rep e (at_tier p) k = Some x" "loc_slot (rp_location x) = at_slot p" "busy (rp_state x)"
        using j p True by (auto simp: occupied_def)
      have "\<not> clear p (ce_queue e)" using c p by (auto simp: clear_def)
      moreover have "at_tier p \<in> {GPU, CPU}" using tiers p by auto
      ultimately show ?thesis using busy [OF _ x(1,3)] x(2) True by (cases p) auto
    next
      case False
      then show ?thesis using j p other(1) by (auto simp: occupied_def)
    qed
    then show "\<exists>j. occupied d' j a \<and> occupied d' j b" by blast
  qed
  moreover have "coherent data F' d' (ce_memory e)"
    unfolding coherent_def
  proof (intro allI impI)
    fix j t y
    assume t: "t \<in> {GPU, CPU}" and y: "cd_rep d' t j = Some y"
      and h: "rp_state y = READY \<or> (\<exists>f. F' j = Some f \<and> fl_source f = t)"
    have h': "rp_state y = READY \<or> (\<exists>f. F j = Some f \<and> fl_source f = t)" using h F' by (auto split: if_splits)
    show "cm_load (At t (loc_slot (rp_location y))) (ce_memory e) = Inr (data j)"
    proof (cases "ce_rep e t j = Some y")
      case True
      then show ?thesis by (rule coherentD [OF i(5) t _ h'])
    next
      case False
      then have j: "j = k" using other(1) y by metis
      have "rp_state y = READY"
      proof (rule ccontr)
        assume n: "rp_state y \<noteq> READY"
        then obtain f where f: "F' k = Some f" "fl_source f = t" using h j by blast
        then have "F k = Some f" "fl_held d' k f" using F' by auto
        then show False using i(6) [of k f] f(2) y False j by (auto simp: fl_ok_def fl_held_def)
      qed
      then show ?thesis using ready [OF t] y False j by blast
    qed
  qed
  moreover have "fl_ok data ?e j f" if f: "F' j = Some f" for j f
  proof -
    have "F j = Some f" using f F' by (auto split: if_splits)
    note fo = i(6) [OF this]
    have held: "fl_held d' j f"
    proof (cases "j = k")
      case True
      then show ?thesis using F' f by auto
    next
      case False
      then show ?thesis using fo other by (auto simp: fl_ok_def fl_held_def)
    qed
    have "arrives data n j f ?e = arrives data n j f e" for n by (simp add: arrives_def pass_def event_done_def)
    then show ?thesis using held by (intro fl_okI [OF fo]) simp_all
  qed
  ultimately show ?thesis using i(2,4,7) d' by (simp add: en_inv_def events_ok_def)
qed

section \<open>Queueing\<close>

lemma run_until_append: "Event n \<in> set q \<Longrightarrow> run_until n (q @ q') m = (fst (run_until n q m) @ q', snd (run_until n q m))"
  by (induction n q m rule: run_until.induct) auto

lemma run_until_last: "Event n \<notin> set q \<Longrightarrow> run_until n (q @ [Event n]) m = ([], fold stream_exec q m)"
  by (induction n q m rule: run_until.induct) auto

lemma pass_append:
  assumes "event_done n e \<longrightarrow> Event n \<notin> set q"
  shows "pass n (e\<lparr>ce_queue := ce_queue e @ q\<rparr>) = (case pass n e of (q', m) \<Rightarrow> (q' @ q, m))"
  using assms run_until_append [of n "ce_queue e" q "ce_memory e"] by (auto simp: pass_def event_done_def split: prod.split)

lemma en_queue_copy:
  assumes inv: "en_inv data F e" and nf: "\<not> ce_faulted e" and k: "F k = None"
    and occ: "occupied (ce_directory e) k a" "occupied (ce_directory e) k b" and t: "{at_tier a, at_tier b} = {GPU, CPU}"
  shows "en_inv data F (e\<lparr>ce_queue := ce_queue e @ [Copy a b]\<rparr>)"
proof -
  note i = en_invD [OF inv]
  let ?e = "e\<lparr>ce_queue := ce_queue e @ [Copy a b]\<rparr>"
  have "queue_ok (ce_directory e) (ce_queue e @ [Copy a b])" using i(3) occ t by (auto simp: queue_ok_def)
  moreover have "fl_ok data ?e j f" if f: "F j = Some f" for j f
  proof -
    note fo = i(6) [OF f]
    have jk: "j \<noteq> k" using f k by auto
    have held: "fl_held (ce_directory e) j f" using fo by (simp add: fl_ok_def)
    have ne: "a \<noteq> fl_from f" "b \<noteq> fl_from f" "a \<noteq> fl_to f" "b \<noteq> fl_to f"
      using occupied_unique [OF i(1)] occ held_occupied [OF held] jk by metis+
    have "arrives data n j f e \<Longrightarrow> arrives data n j f ?e" for n
      using pass_append [of n e "[Copy a b]"] ne by (simp add: arrives_def split: prod.splits)
    then show ?thesis using held ne by (intro fl_okI [OF fo]) (auto simp: untouched_def)
  qed
  ultimately show ?thesis using i(1,2,5,7) nf by (simp add: en_inv_def events_ok_def)
qed

lemma en_queue_event:
  assumes inv: "en_inv data F e" and nf: "\<not> ce_faulted e"
    and n: "n < ce_next_event e" "event_done n e" "\<And>k f. F k = Some f \<Longrightarrow> fl_event f \<noteq> Some n"
  shows "en_inv data F (e\<lparr>ce_queue := ce_queue e @ [Event n]\<rparr>)"
proof -
  note i = en_invD [OF inv]
  let ?e = "e\<lparr>ce_queue := ce_queue e @ [Event n]\<rparr>"
  have "queue_ok (ce_directory e) (ce_queue e @ [Event n])" using i(3) by (auto simp: queue_ok_def)
  moreover have "fl_ok data ?e j f" if f: "F j = Some f" for j f
  proof -
    note fo = i(6) [OF f]
    have "arrives data l j f e \<Longrightarrow> l \<noteq> n \<Longrightarrow> arrives data l j f ?e" for l
      using pass_append [of l e "[Event n]"] by (simp add: arrives_def split: prod.splits)
    then show ?thesis using fo n(3) [OF f] by (intro fl_okI [OF fo]) (auto simp: untouched_def fl_ok_def)
  qed
  moreover have "events_ok ?e"
    unfolding events_ok_def
  proof (intro conjI allI impI)
    fix l
    show "count_list (ce_queue ?e) (Event l) \<le> 1"
      using events_okD(1) [OF i(7), of l] n(2) by (auto simp: event_done_def count_list_0_iff)
    show "l < ce_next_event ?e" if "Event l \<in> set (ce_queue ?e)"
      using events_okD(2) [OF i(7), of l] n(1) that by auto
  qed
  ultimately show ?thesis using i(1,2,5) nf by (simp add: en_inv_def)
qed

lemma en_new_event:
  assumes "en_inv data F e"
  shows "en_inv data F (e\<lparr>ce_next_event := ce_next_event e + 1\<rparr>)"
proof -
  note i = en_invD [OF assms]
  let ?e = "e\<lparr>ce_next_event := ce_next_event e + 1\<rparr>"
  have "arrives data n k f ?e = arrives data n k f e" for n k f by (simp add: arrives_def pass_def event_done_def)
  then have "fl_ok data ?e k f" if "F k = Some f" for k f
    using i(6) [OF that] by (intro fl_okI [OF i(6) [OF that]]) (simp_all add: fl_ok_def)
  moreover have "events_ok (e\<lparr>ce_next_event := ce_next_event e + 1\<rparr>)"
    using i(7) by (auto simp: events_ok_def less_Suc_eq)
  ultimately show ?thesis using i(1-5) by (simp add: en_inv_def)
qed

lemma fresh_event: "en_inv data F e \<Longrightarrow> event_done (ce_next_event e) e"
  using events_okD(2) [OF en_invD(7), of data F e "ce_next_event e"] by (auto simp: event_done_def)

section \<open>Take-off, arrival and writes by others\<close>

lemma coherent_fly:
  assumes "coherent data F d m" and "fl_held d k f" and "fl_source f \<in> {GPU, CPU} \<Longrightarrow> cm_load (fl_from f) m = Inr (data k)"
  shows "coherent data (F(k \<mapsto> f)) d m"
  unfolding coherent_def
proof (intro allI impI)
  fix j t y
  assume t: "t \<in> {GPU, CPU}" and y: "cd_rep d t j = Some y" and h: "rp_state y = READY \<or> (\<exists>g. (F(k \<mapsto> f)) j = Some g \<and> fl_source g = t)"
  show "cm_load (At t (loc_slot (rp_location y))) m = Inr (data j)"
  proof (cases "j = k \<and> fl_source f = t")
    case True
    then show ?thesis using assms(2,3) t y by (auto simp: fl_held_def fl_from_def)
  next
    case False
    then have "rp_state y = READY \<or> (\<exists>g. F j = Some g \<and> fl_source g = t)" using h by (auto split: if_splits)
    then show ?thesis by (rule coherentD [OF assms(1) t y])
  qed
qed

lemma en_fly:
  assumes inv: "en_inv data F e" and nf: "\<not> ce_faulted e" and held: "fl_held (ce_directory e) k f"
    and t: "{fl_source f, fl_destination f} = {GPU, CPU}" and n: "fl_event f = Some n" "n < ce_next_event e"
    and q: "ce_queue e = q @ [Copy (fl_from f) (fl_to f), Event n]" "Event n \<notin> set q" "clear (fl_from f) q" "clear (fl_to f) q"
    and src: "cm_load (fl_from f) (ce_memory e) = Inr (data k)" and dst: "\<exists>y. cm_load (fl_to f) (ce_memory e) = Inr y"
  shows "en_inv data (F(k \<mapsto> f)) e"
proof -
  note i = en_invD [OF inv]
  have ne: "fl_from f \<noteq> fl_to f" using held_occupied(3) [OF held] by auto
  let ?m = "fold stream_exec q (ce_memory e)"
  have m: "cm_inv ?m" "cm_shape ?m = cm_shape (ce_memory e)" using fold_exec_inv [OF i(2)] by auto
  have "cm_load (fl_from f) ?m = Inr (data k)" using fold_untouched [OF i(2) clear_untouched [OF q(3)]] src by simp
  moreover have "\<exists>y. cm_load (fl_to f) ?m = Inr y" using fold_untouched [OF i(2) clear_untouched [OF q(4)]] dst by simp
  ultimately have at: "cm_load (fl_to f) (stream_exec (Copy (fl_from f) (fl_to f)) ?m) = Inr (data k)"
    using stream_exec_load [OF m(1), of "fl_to f" "Copy (fl_from f) (fl_to f)"] by simp
  have "run_until n ((q @ [Copy (fl_from f) (fl_to f)]) @ [Event n]) (ce_memory e) =
      ([], fold stream_exec (q @ [Copy (fl_from f) (fl_to f)]) (ce_memory e))"
    by (rule run_until_last) (use q(2) in simp)
  then have "pass n e = ([], stream_exec (Copy (fl_from f) (fl_to f)) ?m)" by (simp add: pass_def event_done_def q(1))
  then have "arrives data n k f e" using at by (simp add: arrives_def)
  moreover have "untouched (fl_from f) (ce_queue e)" using q ne by (auto simp: untouched_def clear_def)
  ultimately have "fl_ok data e k f" using held t n by (simp add: fl_ok_def)
  then have "fl_ok data e j g" if "(F(k \<mapsto> f)) j = Some g" for j g using i(6) that by (auto split: if_splits)
  then show ?thesis using i(1-4,7) coherent_fly [OF i(5) held src] unfolding en_inv_def by blast
qed

lemma en_fly_file:
  assumes inv: "en_inv data F e" and held: "fl_held (ce_directory e) k f" and n: "fl_event f = None"
    and q: "clear (fl_from f) (ce_queue e)" "clear (fl_to f) (ce_queue e)"
    and src: "fl_source f \<in> {GPU, CPU} \<Longrightarrow> cm_load (fl_from f) (ce_memory e) = Inr (data k)"
  shows "en_inv data (F(k \<mapsto> f)) e"
proof -
  note i = en_invD [OF inv]
  have "fl_ok data e k f" using held n q clear_untouched [OF q(1)] by (simp add: fl_ok_def)
  then have "fl_ok data e j g" if "(F(k \<mapsto> f)) j = Some g" for j g using i(6) that by (auto split: if_splits)
  then show ?thesis using i(1-4,7) coherent_fly [OF i(5) held src] unfolding en_inv_def by blast
qed

text \<open>What holds when the event of a flight has completed.\<close>

lemma en_arrived:
  assumes inv: "en_inv data F e" and f: "F k = Some f" "fl_event f = Some n" and d: "\<not> ce_faulted e" "event_done n e"
  shows "cm_load (fl_to f) (ce_memory e) = Inr (data k)" "clear (fl_from f) (ce_queue e)" "clear (fl_to f) (ce_queue e)"
  using en_invD(6) [OF inv f(1)] f(2) d by (auto simp: fl_ok_def arrives_def pass_def)

text \<open>Memories that differ at most in one slot stay so while the stream does not touch it.\<close>

definition same_but :: "place \<Rightarrow> chunk_memory \<Rightarrow> chunk_memory \<Rightarrow> bool" where
  "same_but c m m' \<longleftrightarrow> cm_inv m \<and> cm_inv m' \<and> cm_shape m' = cm_shape m \<and> (\<forall>a. a \<noteq> c \<longrightarrow> cm_load a m' = cm_load a m)"

lemma same_but_exec:
  assumes s: "same_but c m m'" and x: "clear c [x]"
  shows "same_but c (stream_exec x m) (stream_exec x m')"
proof -
  have i: "cm_inv m" "cm_inv m'" and sh: "cm_shape m' = cm_shape m" using s by (simp_all add: same_but_def)
  have "cm_load a (stream_exec x m') = cm_load a (stream_exec x m)" if a: "a \<noteq> c" for a
  proof (cases x)
    case (Copy p q)
    then have "p \<noteq> c" "q \<noteq> c" using x by simp_all
    then show ?thesis
      unfolding stream_exec_load [OF i(1)] stream_exec_load [OF i(2)] using s a Copy by (auto simp: same_but_def)
  next
    case (Event n)
    then show ?thesis using s a by (simp add: same_but_def)
  qed
  then show ?thesis using i sh by (simp add: same_but_def)
qed

lemma clear_split: "clear c (x # q) \<longleftrightarrow> clear c [x] \<and> clear c q"
  by (cases x) auto

lemma same_but_run:
  "same_but c m m' \<Longrightarrow> clear c q \<Longrightarrow>
     fst (run_until n q m') = fst (run_until n q m) \<and> same_but c (snd (run_until n q m)) (snd (run_until n q m'))"
proof (induction q arbitrary: m m')
  case (Cons x q)
  then have "clear c [x]" "clear c q" using clear_split [of c x q] by simp_all
  then show ?case using Cons same_but_exec [of c m m' x] by simp
qed simp

lemma en_store:
  assumes inv: "en_inv data F e" and occ: "occupied (ce_directory e) k c" and cl: "clear c (ce_queue e)"
    and own: "\<And>f. F k = Some f \<Longrightarrow> fl_event f = None \<and> c = fl_to f"
    and s: "cm_store c bs (ce_memory e) = (r, m')" and n: "length bs = cm_bytes (ce_memory e)"
  shows "en_inv data F (e\<lparr>ce_memory := m'\<rparr>)"
proof -
  note i = en_invD [OF inv] and sc = cm_store_cases [OF en_invD(2) [OF inv] s n]
  let ?e = "e\<lparr>ce_memory := m'\<rparr>"
  have sb: "same_but c (ce_memory e) m'" using i(2) sc by (auto simp: same_but_def)
  have ne: "At t (loc_slot (rp_location y)) \<noteq> c"
    if y: "ce_rep e t j = Some y" and h: "rp_state y = READY \<or> (\<exists>f. F j = Some f \<and> fl_source f = t)" for t j y
  proof
    assume c: "At t (loc_slot (rp_location y)) = c"
    obtain x where x: "ce_rep e t k = Some x" "loc_slot (rp_location x) = loc_slot (rp_location y)" "busy (rp_state x)"
      using occ c by (auto simp: occupied_def)
    have "k = j" using cd_slot_unique [OF i(1) x(1) y x(2)] .
    then obtain f where f: "F k = Some f" "fl_source f = t" using h x y by auto
    then have "c = fl_to f" "fl_source f \<noteq> fl_destination f" using own i(6) [of k f] by (auto simp: fl_ok_def fl_held_def)
    then show False using c f(2) by (auto simp: fl_to_def)
  qed
  have "coherent data F (ce_directory e) m'"
    unfolding coherent_def
  proof (intro allI impI)
    fix j t y
    assume t: "t \<in> {GPU, CPU}" and y: "ce_rep e t j = Some y"
      and h: "rp_state y = READY \<or> (\<exists>f. F j = Some f \<and> fl_source f = t)"
    show "cm_load (At t (loc_slot (rp_location y))) m' = Inr (data j)"
      using coherentD [OF i(5) t y h] ne [OF y h] sb by (simp add: same_but_def)
  qed
  moreover have "fl_ok data ?e j f" if f: "F j = Some f" for j f
  proof (rule fl_okI [OF i(6) [OF f]])
    fix l assume l: "fl_event f = Some l" and a: "arrives data l j f e"
    have held: "fl_held (ce_directory e) j f" using i(6) [OF f] by (simp add: fl_ok_def)
    have "j \<noteq> k" using own f l by auto
    then have to: "fl_to f \<noteq> c" using occupied_unique [OF i(1) occ] held_occupied(2) [OF held] by metis
    have "fst (pass l ?e) = fst (pass l e) \<and> cm_load (fl_to f) (snd (pass l ?e)) = cm_load (fl_to f) (snd (pass l e))"
      using same_but_run [OF sb cl, of l] sb to by (simp add: pass_def event_done_def same_but_def)
    then show "arrives data l j f ?e" using a by (simp add: arrives_def split_beta)
  qed (use i(6) [OF f] in \<open>simp_all add: fl_ok_def\<close>)
  ultimately show ?thesis using i(1,3,4,7) sb by (simp add: en_inv_def same_but_def events_ok_def)
qed

section \<open>New replicas\<close>

text \<open>A slot that has just been handed out occurs in no queued copy.\<close>

lemma placed_clear:
  assumes "cd_inv d" and "cd_inv d'" and q: "queue_ok d q" and none: "cd_rep d s k = None"
    and r: "cd_rep d' = upd (cd_rep d) s k (Some \<lparr>rp_location = l, rp_state = st\<rparr>)"
  shows "clear (At s (loc_slot l)) q"
proof (rule free_clear [OF assms(1) q])
  fix j x assume x: "cd_rep d s j = Some x"
  then have "j \<noteq> k" using none by auto
  then have "cd_rep d' s j = Some x" "cd_rep d' s k = Some \<lparr>rp_location = l, rp_state = st\<rparr>" using x r by auto
  then show "loc_slot (rp_location x) \<noteq> loc_slot l"
    using cd_slot_unique [OF assms(2), of s j x k "\<lparr>rp_location = l, rp_state = st\<rparr>"] \<open>j \<noteq> k\<close> by auto
qed

section \<open>What the owner of the directory may do meanwhile\<close>

lemma cd_lookup_view:
  assumes "cd_lookup k d f = (r, d')"
    and "\<And>c. map_of (cd_records d) k = Some c \<Longrightarrow> (\<forall>t. replica_at t (snd (f c)) = replica_at t c) \<and> cr_pin_count (snd (f c)) = cr_pin_count c"
  shows "cd_rep d' = cd_rep d \<and> cd_pins d' = cd_pins d"
proof (cases "map_of (cd_records d) k")
  case None
  then show ?thesis using assms(1) by (simp add: cd_lookup_def)
next
  case (Some c)
  obtain x c' where f: "f c = (x, c')" by (metis surj_pair)
  then have d': "d' = cd_put k c' d" using assms(1) Some by (simp add: cd_lookup_def)
  have "cd_rep d' t j = cd_rep d t j" for t j
    using assms(2) [OF Some] f cd_rep_record [OF Some] by (simp add: d' cd_rep_put)
  moreover have "cd_pins d' j = cd_pins d j" for j
    using assms(2) [OF Some] f Some by (simp add: d' cd_pins_put) (simp add: cd_pins_def)
  ultimately show ?thesis by (simp add: fun_eq_iff)
qed

lemma cd_counter_view:
  assumes inv: "cd_inv d"
  shows "cd_add_ref k d = (r, d') \<Longrightarrow> cd_inv d' \<and> cd_rep d' = cd_rep d \<and> cd_pins d' = cd_pins d"
    and "cd_release_ref k d = (r, d') \<Longrightarrow> cd_inv d' \<and> cd_rep d' = cd_rep d \<and> cd_pins d' = cd_pins d"
    and "cd_touch now k d = (r, d') \<Longrightarrow> cd_inv d' \<and> cd_rep d' = cd_rep d \<and> cd_pins d' = cd_pins d"
    and "cd_bump_version k d = (r, d') \<Longrightarrow> cd_inv d' \<and> cd_rep d' = cd_rep d \<and> cd_pins d' = cd_pins d"
  using cd_lookup_ops_inv [OF inv] unfolding cd_add_ref_def cd_release_ref_def cd_touch_def cd_bump_version_def
  by (auto dest: cd_lookup_view)

lemma empty_record [simp]:
  "replica_at t \<lparr>cr_key = k, cr_version = v, cr_ref_count = n, cr_pin_count = p, cr_last_access = a,
     cr_gpu = None, cr_cpu = None, cr_nvme = None\<rparr> = None"
  by (cases t) (simp_all add: replica_at_def)

lemma cd_create_view:
  assumes "cd_inv d" and "cd_create now k d = (r, d')"
  shows "cd_inv d' \<and> cd_rep d' = cd_rep d \<and> (\<forall>j. j \<noteq> k \<longrightarrow> cd_pins d' j = cd_pins d j)"
proof (cases "cd_contains k d")
  case False
  then have "cd_rep d t k = None" for t by (simp add: cd_rep_def cd_contains_def)
  then show ?thesis
    using False assms cd_create_inv [OF assms] by (auto simp: cd_create_def cd_rep_put cd_pins_put fun_eq_iff)
qed (use assms in \<open>simp add: cd_create_def\<close>)

lemma cd_destroy_view:
  assumes inv: "cd_inv d" and a: "cd_destroy k d = (r, d')"
  shows "cd_inv d' \<and> cd_rep d' = cd_rep d \<and> (\<forall>j. j \<noteq> k \<longrightarrow> cd_pins d' j = cd_pins d j)"
proof (cases "r = Inr ()")
  case True
  note c = cd_destroy_cases [OF inv a]
  have d': "d' = d\<lparr>cd_records := AList.delete k (cd_records d)\<rparr>"
    using a True by (auto simp: cd_destroy_def split: sum.splits if_splits)
  have "cd_rep d t k = None" for t using c(2) [OF True] by (simp add: cd_locs_rep)
  then have "cd_rep d' t j = cd_rep d t j" for t j by (simp add: d' cd_rep_def delete_conv')
  moreover have "cd_pins d' j = cd_pins d j" if "j \<noteq> k" for j using that by (simp add: d' cd_pins_def delete_conv')
  ultimately show ?thesis using c(1) by (simp add: fun_eq_iff)
qed (use cd_destroy_cases(3) [OF inv a] inv in simp)

lemma cd_destroy_replicas:
  assumes "cd_rep d t k = Some x"
  shows "cd_destroy k d = (Inl LogicError, d)"
proof -
  obtain c where c: "map_of (cd_records d) k = Some c" "replica_at t c = Some x" using cd_rep_exists [OF assms] by blast
  then show ?thesis using replica_level [OF c(2)] by (auto simp: cd_destroy_def cd_at_iff [THEN iffD2] replica_at_def)
qed

text \<open>
  The calls a client makes beside the mover. It may do anything to chunks that are not in
  flight; of a chunk in flight it may neither change the state of its replicas nor take back a
  pin that is not its own. \<open>fill\<close> is the production of a chunk: its bytes are written to a
  replica that has been placed, which then becomes READY.
\<close>

inductive client_step :: "(cache_key \<Rightarrow> memory) \<Rightarrow> (cache_key \<rightharpoonup> flight) \<Rightarrow> copy_engine \<Rightarrow> copy_engine \<Rightarrow> bool"
  for data F where
  call: "op \<in> {Create k, AddRef k, ReleaseRef k, Pin k, Touch k, BumpVersion k, Destroy k, Remove k s} \<Longrightarrow>
    op = Pin k \<longrightarrow> ce_pins e k \<noteq> Some size_max \<Longrightarrow> cd_apply now op (ce_directory e) = (r, d) \<Longrightarrow>
    client_step data F e (e\<lparr>ce_directory := d\<rparr>)"
| unpin: "F k = None \<or> ce_pins e k \<noteq> Some 1 \<Longrightarrow> cd_unpin k (ce_directory e) = (r, d) \<Longrightarrow>
    client_step data F e (e\<lparr>ce_directory := d\<rparr>)"
| place: "s = NVME \<or> st \<noteq> READY \<Longrightarrow> cd_spare s (ce_directory e) \<Longrightarrow> cd_place now k s st (ce_directory e) = (r, d) \<Longrightarrow>
    client_step data F e (e\<lparr>ce_directory := d\<rparr>)"
| set_state: "F k = None \<Longrightarrow> s = NVME \<or> st \<noteq> READY \<Longrightarrow> ce_rep e s k = Some x \<Longrightarrow>
    clear (At s (loc_slot (rp_location x))) (ce_queue e) \<Longrightarrow> cd_set_state k s st (ce_directory e) = (r, d) \<Longrightarrow>
    client_step data F e (e\<lparr>ce_directory := d\<rparr>)"
| fill: "F k = None \<Longrightarrow> s \<in> {GPU, CPU} \<Longrightarrow> ce_rep e s k = Some x \<Longrightarrow> busy (rp_state x) \<Longrightarrow>
    clear (At s (loc_slot (rp_location x))) (ce_queue e) \<Longrightarrow> length (data k) = cm_bytes (ce_memory e) \<Longrightarrow>
    cm_store (At s (loc_slot (rp_location x))) (data k) (ce_memory e) = (Inr (), m) \<Longrightarrow>
    cd_set_state k s READY (ce_directory e) = (r, d) \<Longrightarrow>
    client_step data F e (e\<lparr>ce_directory := d, ce_memory := m\<rparr>)"

lemma cd_remove_none:
  assumes "cd_rep d s k = None"
  shows "\<exists>x. cd_remove now k s d = (Inl x, d)"
proof (cases "map_of (cd_records d) k")
  case (Some c)
  then have "replica_at s c = None" using assms by (simp add: cd_rep_def)
  then have "(\<exists>x. replica_slot c s = Inl x) \<or> replica_slot c s = Inr None"
    by (cases "replica_slot c s") (auto simp: replica_at_def)
  then show ?thesis using Some by (auto simp: cd_remove_def cd_at_iff [THEN iffD2])
qed (simp add: cd_remove_def cd_at_def)

text \<open>Changes that leave the replicas alone.\<close>

lemma en_dir_rep:
  assumes inv: "en_inv data F e" and d': "cd_inv d'" and rep: "cd_rep d' = ce_rep e"
    and pins: "\<And>j. j \<noteq> k \<Longrightarrow> cd_pins d' j = ce_pins e j" "F k \<noteq> None \<Longrightarrow> \<exists>n. cd_pins d' k = Some n \<and> 0 < n"
  shows "en_inv data F (e\<lparr>ce_directory := d'\<rparr>)"
proof (rule en_dir [OF inv d', of k])
  show "F = F(k := None) \<or> F = F \<and> (\<forall>f. F k = Some f \<longrightarrow> fl_held d' k f)"
    using en_invD(6) [OF inv, of k] pins(2) rep by (auto simp: fl_ok_def fl_held_def)
qed (use rep pins in \<open>auto simp: occupied_def\<close>)

text \<open>Changes of one replica of a chunk that is not in flight, or of one that the flight does not use.\<close>

lemma en_dir_replica:
  assumes inv: "en_inv data F e" and d': "cd_inv d'"
    and rep: "cd_rep d' = upd (ce_rep e) s k y" and pins: "cd_pins d' = ce_pins e"
    and F: "\<And>f. F k = Some f \<Longrightarrow> s \<noteq> fl_source f \<and> s \<noteq> fl_destination f"
    and old: "\<And>x. s \<in> {GPU, CPU} \<Longrightarrow> ce_rep e s k = Some x \<Longrightarrow> busy (rp_state x) \<Longrightarrow>
       clear (At s (loc_slot (rp_location x))) (ce_queue e)"
    and new: "\<And>x. s \<in> {GPU, CPU} \<Longrightarrow> y = Some x \<Longrightarrow> rp_state x = READY \<Longrightarrow>
      cm_load (At s (loc_slot (rp_location x))) (ce_memory e) = Inr (data k)"
  shows "en_inv data F (e\<lparr>ce_directory := d'\<rparr>)"
proof (rule en_dir [OF inv d', of k])
  show "F = F(k := None) \<or> F = F \<and> (\<forall>f. F k = Some f \<longrightarrow> fl_held d' k f)"
    using en_invD(6) [OF inv, of k] F rep pins by (auto simp: fl_ok_def fl_held_def)
  show "occupied d' k (At t (loc_slot (rp_location x))) \<or> clear (At t (loc_slot (rp_location x))) (ce_queue e)"
    if "t \<in> {GPU, CPU}" "ce_rep e t k = Some x" "busy (rp_state x)" for t x
    using old that rep by (cases "t = s") (auto simp: occupied_def)
  show "ce_rep e t k = Some x \<or> cm_load (At t (loc_slot (rp_location x))) (ce_memory e) = Inr (data k)"
    if "t \<in> {GPU, CPU}" "cd_rep d' t k = Some x" "rp_state x = READY" for t x
    using new that rep by (cases "t = s") auto
qed (use rep pins in auto)

lemma and_then_state: "and_then m (\<lambda>x d. (Inr (g x), d)) = (r, d') \<Longrightarrow> \<exists>q. m = (q, d')"
  by (cases m; cases "fst m") auto

lemma flight_view:
  assumes inv: "en_inv data F e" and F: "F k = Some f"
  shows "fl_source f \<noteq> fl_destination f"
    and "\<exists>x. ce_rep e (fl_source f) k = Some x \<and> busy (rp_state x)"
    and "\<exists>y. ce_rep e (fl_destination f) k = Some y \<and> busy (rp_state y)"
    and "\<exists>n. ce_pins e k = Some n \<and> 0 < n"
  using en_invD(6) [OF inv F] by (auto simp: fl_ok_def fl_held_def)

lemma en_client_call:
  assumes inv: "en_inv data F e" and p: "op = Pin k \<longrightarrow> ce_pins e k \<noteq> Some size_max"
    and a: "cd_apply now op (ce_directory e) = (r, d)"
    and op: "op \<in> {Create k, AddRef k, ReleaseRef k, Pin k, Touch k, BumpVersion k, Destroy k, Remove k s}"
  shows "en_inv data F (e\<lparr>ce_directory := d\<rparr>)"
proof -
  let ?d = "ce_directory e"
  note i = en_invD(1) [OF inv]
  have pins: "\<exists>n. ce_pins e k = Some n \<and> 0 < n" if "F k \<noteq> None"
    using flight_view(4) [OF inv, of k] that by auto
  have rep: ?thesis if "cd_inv d \<and> cd_rep d = ce_rep e \<and> (\<forall>j. j \<noteq> k \<longrightarrow> cd_pins d j = ce_pins e j)"
    "F k \<noteq> None \<Longrightarrow> \<exists>n. cd_pins d k = Some n \<and> 0 < n"
    using en_dir_rep [OF inv _ _ _ that(2)] that(1) by blast
  have same: ?thesis if "d = ?d" using inv that by simp
  consider (create) "op = Create k" | (count) "op \<in> {AddRef k, ReleaseRef k, Touch k, BumpVersion k}" | (pin) "op = Pin k"
    | (destroy) "op = Destroy k" | (remove) "op = Remove k s" using op by auto
  then show ?thesis
  proof cases
    case create
    then obtain q where q: "cd_create now k ?d = (q, d)" using a and_then_state by fastforce
    show ?thesis
    proof (cases "cd_contains k ?d")
      case True
      then show ?thesis using q same by (simp add: cd_create_def)
    next
      case False
      then have "ce_pins e k = None" by (simp add: cd_contains_def cd_pins_def)
      then show ?thesis using rep cd_create_view [OF i q] pins by auto
    qed
  next
    case count
    then have "cd_inv d \<and> cd_rep d = ce_rep e \<and> cd_pins d = ce_pins e"
      using a cd_counter_view [OF i] by (auto dest!: and_then_state)
    then show ?thesis using rep pins by auto
  next
    case pin
    then obtain q where q: "cd_pin k ?d = (q, d)" using a and_then_state by fastforce
    show ?thesis
    proof (cases "ce_pins e k")
      case None
      then have "d = ?d" using q by (simp add: cd_pin_def cd_lookup_def cd_pins_def)
      then show ?thesis by (rule same)
    next
      case (Some n)
      then have "cd_inv d \<and> cd_rep d = ce_rep e \<and> cd_pins d = (ce_pins e)(k \<mapsto> size_inc n)" "n \<noteq> size_max"
        using cd_pin_ok [OF i Some] q p pin by auto
      then show ?thesis using rep by (auto simp: size_inc_def)
    qed
  next
    case destroy
    then obtain q where q: "cd_destroy k ?d = (q, d)" using a and_then_state by fastforce
    show ?thesis
    proof (cases "F k")
      case None
      then show ?thesis using rep cd_destroy_view [OF i q] by auto
    next
      case (Some f)
      then obtain x where "ce_rep e (fl_source f) k = Some x" using flight_view(2) [OF inv] by blast
      then have "d = ?d" using cd_destroy_replicas q by fastforce
      then show ?thesis by (rule same)
    qed
  next
    case remove
    then obtain q where q: "cd_remove now k s ?d = (q, d)" using a and_then_state by fastforce
    show ?thesis
    proof (cases "ce_rep e s k")
      case None
      then have "d = ?d" using q cd_remove_none [OF None, of now] by auto
      then show ?thesis by (rule same)
    next
      case (Some x)
      show ?thesis
      proof (cases "busy (rp_state x)")
        case True
        then have "d = ?d" using q cd_remove_busy [OF i Some] by (auto simp: busy_def)
        then show ?thesis by (rule same)
      next
        case False
        then have "cd_inv d \<and> cd_rep d = upd (ce_rep e) s k None \<and> cd_pins d = ce_pins e"
          using cd_remove_ok [OF i Some, of now] q by (auto simp: busy_def)
        then show ?thesis
          using False Some flight_view(2,3) [OF inv] by (intro en_dir_replica [OF inv, of d s k None]) fastforce+
      qed
    qed
  qed
qed

lemma en_client:
  assumes inv: "en_inv data F e" and c: "client_step data F e e'"
  shows "en_inv data F e'"
  using c
proof cases
  case (call op k s now r d)
  then show ?thesis using en_client_call [OF inv] by auto
next
  case (unpin k r d)
  note i = en_invD(1) [OF inv]
  have same: ?thesis if "d = ce_directory e" using inv that unpin by simp
  show ?thesis
  proof (cases "ce_pins e k = None \<or> ce_pins e k = Some 0")
    case True
    then have "d = ce_directory e" using unpin by (auto simp: cd_unpin_def cd_lookup_def cd_pins_def cd_put_same split: option.splits)
    then show ?thesis by (rule same)
  next
    case False
    then obtain n where n: "ce_pins e k = Some n" "0 < n" by auto
    have "cd_inv d \<and> cd_rep d = ce_rep e \<and> cd_pins d = (ce_pins e)(k \<mapsto> n - 1)"
      using cd_unpin_ok [OF i n] unpin by auto
    moreover have "F k \<noteq> None \<Longrightarrow> 0 < n - 1" using unpin n by auto
    ultimately show ?thesis using unpin by (auto intro!: en_dir_rep [OF inv, of d k])
  qed
next
  case (place s st now k r d)
  note i = en_invD(1) [OF inv]
  from cd_place_view [OF i place(4)] show ?thesis
  proof
    assume "\<exists>e'. r = Inl e' \<and> cd_rep d = ce_rep e \<and> cd_pins d = ce_pins e \<and> (e' = OverflowError \<or> d = ce_directory e)"
    then have "d = ce_directory e" using cd_spare_place [OF place(3), of now k st] place by auto
    then show ?thesis using inv place by simp
  next
    assume "\<exists>l. r = Inr l \<and> cd_inv d \<and> ce_rep e s k = None \<and> s \<in> {GPU, CPU, NVME} \<and>
        cd_rep d = upd (ce_rep e) s k (Some \<lparr>rp_location = l, rp_state = st\<rparr>) \<and> cd_pins d = ce_pins e \<and>
        (\<forall>k y. ce_rep e s k = Some y \<longrightarrow> rp_location y \<noteq> l)"
    then obtain l where l: "cd_inv d" "ce_rep e s k = None" "cd_rep d = upd (ce_rep e) s k (Some \<lparr>rp_location = l, rp_state = st\<rparr>)"
      "cd_pins d = ce_pins e" by blast
    show ?thesis
      unfolding place(1)
      using place(2) l(2) flight_view(2,3) [OF inv]
      by (intro en_dir_replica [OF inv l(1,3,4)]) fastforce+
  qed
next
  case (set_state k s st x r d)
  note i = en_invD(1) [OF inv]
  have d: "cd_inv d \<and> cd_rep d = upd (ce_rep e) s k (Some (x\<lparr>rp_state := st\<rparr>)) \<and> cd_pins d = ce_pins e"
    using cd_set_state_ok [OF i set_state(4), of st] set_state by auto
  show ?thesis
    unfolding set_state(1) using set_state d by (intro en_dir_replica [OF inv, of d s k "Some (x\<lparr>rp_state := st\<rparr>)"]) auto
next
  case (fill k s x m r d)
  note i = en_invD [OF inv]
  have occ: "occupied (ce_directory e) k (At s (loc_slot (rp_location x)))" using fill by (auto simp: occupied_def)
  have e1: "en_inv data F (e\<lparr>ce_memory := m\<rparr>)"
    using fill by (intro en_store [OF inv occ fill(6) _ fill(8,7)]) simp
  have d: "cd_inv d \<and> cd_rep d = upd (ce_rep e) s k (Some (x\<lparr>rp_state := READY\<rparr>)) \<and> cd_pins d = ce_pins e"
    using cd_set_state_ok [OF i(1) fill(4), of READY] fill by auto
  have at: "cm_load (At s (loc_slot (rp_location x))) m = Inr (data k)"
    using cm_store_cases [OF i(2) fill(8,7)] by simp
  have "en_inv data F (e\<lparr>ce_memory := m, ce_directory := d\<rparr>)"
    using fill d at by (intro en_dir_replica [OF e1, of d s k "Some (x\<lparr>rp_state := READY\<rparr>)", simplified]) auto
  moreover have "e\<lparr>ce_memory := m, ce_directory := d\<rparr> = e'" unfolding fill(1) by (cases e) simp
  ultimately show ?thesis by (simp only:)
qed

section \<open>Taking off and turning back\<close>

text \<open>
  The state of a mover between the moment it has closed the source replica and the moment the
  copy is on its way. \<open>ce_ready\<close> gives what a failed attempt can fall back on.
\<close>

definition boarding :: "(cache_key \<Rightarrow> memory) \<Rightarrow> (cache_key \<rightharpoonup> flight) \<Rightarrow> cache_key \<Rightarrow> storage_tier \<Rightarrow> storage_tier \<Rightarrow>
    tier_location \<Rightarrow> copy_engine \<Rightarrow> bool" where
  "boarding data F k s d src e \<longleftrightarrow>
     en_inv data F e \<and> F k = None \<and> s \<noteq> d \<and> ce_rep e s k = Some \<lparr>rp_location = src, rp_state = COPYING\<rparr> \<and>
     (\<forall>y. ce_rep e d k = Some y \<longrightarrow> busy (rp_state y)) \<and> untouched (At s (loc_slot src)) (ce_queue e) \<and>
     (s \<in> {GPU, CPU} \<longrightarrow> cm_load (At s (loc_slot src)) (ce_memory e) = Inr (data k))"

lemma boardingD:
  assumes "boarding data F k s d src e"
  shows "en_inv data F e" "F k = None" "s \<noteq> d" "ce_rep e s k = Some \<lparr>rp_location = src, rp_state = COPYING\<rparr>"
    "\<And>y. ce_rep e d k = Some y \<Longrightarrow> busy (rp_state y)" "untouched (At s (loc_slot src)) (ce_queue e)"
    "s \<in> {GPU, CPU} \<Longrightarrow> cm_load (At s (loc_slot src)) (ce_memory e) = Inr (data k)"
  using assms by (simp_all add: boarding_def)

lemma ce_dir_iff: "ce_dir f e = (r, e') \<longleftrightarrow> (\<exists>d. f (ce_directory e) = (r, d) \<and> e' = e\<lparr>ce_directory := d\<rparr>)"
  by (auto simp: ce_dir_def split: prod.splits)

lemma boarding_start:
  assumes inv: "en_inv data F e" and F: "F k = None" and ne: "s \<noteq> d"
    and src: "ce_rep e s k = Some \<lparr>rp_location = src, rp_state = READY\<rparr>" and dst: "ce_rep e d k = None"
    and c: "ce_dir (cd_set_state k s COPYING) e = (r, e')"
  shows "r = Inr () \<and> boarding data F k s d src e' \<and> ce_queue e' = ce_queue e \<and> ce_memory e' = ce_memory e \<and>
    ce_next_event e' = ce_next_event e \<and> ce_faulted e' = ce_faulted e \<and> ce_pins e' = ce_pins e \<and>
    ce_rep e' = upd (ce_rep e) s k (Some \<lparr>rp_location = src, rp_state = COPYING\<rparr>) \<and>
    clear (At s (loc_slot src)) (ce_queue e') \<and> (\<forall>t. cd_spare t (ce_directory e') = cd_spare t (ce_directory e))"
proof -
  note i = en_invD [OF inv]
  obtain dd where dd: "cd_set_state k s COPYING (ce_directory e) = (Inr (), dd)" "cd_inv dd"
    "cd_rep dd = upd (ce_rep e) s k (Some \<lparr>rp_location = src, rp_state = COPYING\<rparr>)" "cd_pins dd = ce_pins e"
    using cd_set_state_ok [OF i(1) src, of COPYING] by auto
  have e': "r = Inr ()" "e' = e\<lparr>ce_directory := dd\<rparr>" using c dd(1) by (auto simp: ce_dir_iff)
  have inv': "en_inv data F e'"
    unfolding e' using F src by (intro en_dir_replica [OF inv dd(2-4)]) auto
  have cl: "clear (At s (loc_slot src)) (ce_queue e)" using ready_clear [OF i(1,3) src] by simp
  have "s \<in> {GPU, CPU} \<Longrightarrow> cm_load (At s (loc_slot src)) (ce_memory e) = Inr (data k)"
    using coherentD [OF i(5) _ src] by simp
  then show ?thesis
    using inv' F ne dst dd cl clear_untouched [OF cl] cd_spare_set_state [OF dd(1)] e' by (auto simp: boarding_def)
qed

lemma boarding_place:
  assumes b: "boarding data F k s d src e" and st: "busy st" and sp: "cd_spare d (ce_directory e)"
    and c: "ce_dir (cd_place now k d st) e = (r, e')"
  shows "boarding data F k s d src e' \<and> ce_queue e' = ce_queue e \<and> ce_memory e' = ce_memory e \<and>
    ce_next_event e' = ce_next_event e \<and> ce_faulted e' = ce_faulted e \<and> ce_pins e' = ce_pins e \<and>
    (case r of
       Inl x \<Rightarrow> ce_rep e' = ce_rep e
     | Inr l \<Rightarrow> ce_rep e d k = None \<and> ce_rep e' = upd (ce_rep e) d k (Some \<lparr>rp_location = l, rp_state = st\<rparr>) \<and>
         clear (At d (loc_slot l)) (ce_queue e'))"
proof -
  note bd = boardingD [OF b] and i = en_invD [OF boardingD(1) [OF b]]
  obtain dd where dd: "cd_place now k d st (ce_directory e) = (r, dd)" and e': "e' = e\<lparr>ce_directory := dd\<rparr>"
    using c by (auto simp: ce_dir_iff)
  from cd_place_view [OF i(1) dd] show ?thesis
  proof
    assume "\<exists>x. r = Inl x \<and> cd_rep dd = ce_rep e \<and> cd_pins dd = ce_pins e \<and> (x = OverflowError \<or> dd = ce_directory e)"
    then have "e' = e" "isl r" using cd_spare_place [OF sp, of now k st] dd e' by auto
    then show ?thesis using b by (cases r) simp_all
  next
    assume "\<exists>l. r = Inr l \<and> cd_inv dd \<and> ce_rep e d k = None \<and> d \<in> {GPU, CPU, NVME} \<and>
        cd_rep dd = upd (ce_rep e) d k (Some \<lparr>rp_location = l, rp_state = st\<rparr>) \<and> cd_pins dd = ce_pins e \<and>
        (\<forall>k y. ce_rep e d k = Some y \<longrightarrow> rp_location y \<noteq> l)"
    then obtain l where l: "r = Inr l" "cd_inv dd" "ce_rep e d k = None"
      "cd_rep dd = upd (ce_rep e) d k (Some \<lparr>rp_location = l, rp_state = st\<rparr>)" "cd_pins dd = ce_pins e" by blast
    have "en_inv data F e'"
      unfolding e' using bd(2) l(3) st by (intro en_dir_replica [OF bd(1) l(2,4,5)]) auto
    moreover have "clear (At d (loc_slot l)) (ce_queue e)" by (rule placed_clear [OF i(1) l(2) i(3) l(3,4)])
    ultimately show ?thesis using bd st l e' by (auto simp: boarding_def)
  qed
qed

text \<open>Queueing the copy and its event.\<close>

definition queue_copy :: "stream_answers \<Rightarrow> place \<Rightarrow> place \<Rightarrow> nat \<Rightarrow> copy_engine \<Rightarrow> unit res \<times> copy_engine" where
  "queue_copy env a b n e = and_then (memcpy_async env a b e) (\<lambda>_. event_record env n)"

lemma boarding_copy:
  assumes b: "boarding data F k s d src e" and t: "{s, d} = {GPU, CPU}"
    and dst: "ce_rep e d k = Some \<lparr>rp_location = l, rp_state = st\<rparr>"
    and n: "n < ce_next_event e" "event_done n e" "\<And>k f. F k = Some f \<Longrightarrow> fl_event f \<noteq> Some n"
    and c: "queue_copy env (At s (loc_slot src)) (At d (loc_slot l)) n e = (r, e')"
  shows "boarding data F k s d src e' \<and> ce_directory e' = ce_directory e \<and> ce_memory e' = ce_memory e \<and>
    ce_next_event e' = ce_next_event e \<and> ce_faulted e' = ce_faulted e \<and>
    (r = Inr () \<longrightarrow> \<not> ce_faulted e \<and> ce_queue e' = ce_queue e @ [Copy (At s (loc_slot src)) (At d (loc_slot l)), Event n])"
proof -
  note bd = boardingD [OF b]
  let ?a = "At s (loc_slot src)" and ?b = "At d (loc_slot l)"
  let ?e1 = "e\<lparr>ce_queue := ce_queue e @ [Copy ?a ?b]\<rparr>"
  let ?e2 = "?e1\<lparr>ce_queue := ce_queue ?e1 @ [Event n]\<rparr>"
  consider (none) "e' = e" "r = Inl RuntimeError" | (copy) "\<not> ce_faulted e" "e' = ?e1" "r = Inl RuntimeError"
    | (both) "\<not> ce_faulted e" "e' = ?e2" "r = Inr ()"
  proof (cases "\<not> sa_copy env \<or> ce_faulted e")
    case True
    then show ?thesis using c none by (simp add: queue_copy_def memcpy_async_def)
  next
    case False
    then have "event_record env n ?e1 = (r, e')" using c by (simp add: queue_copy_def memcpy_async_def)
    then show ?thesis using False copy both by (cases "sa_record env") (simp_all add: event_record_def)
  qed
  then show ?thesis
  proof cases
    case none
    then show ?thesis using b by simp
  next
    case copy
    have "en_inv data F ?e1"
      using bd(2,4) dst bd(5) [OF dst] t by (intro en_queue_copy [OF bd(1) copy(1)]) (auto simp: occupied_def)
    then show ?thesis using copy bd by (auto simp: boarding_def untouched_def)
  next
    case both
    have i1: "en_inv data F ?e1"
      using bd(2,4) dst bd(5) [OF dst] t by (intro en_queue_copy [OF bd(1) both(1)]) (auto simp: occupied_def)
    have "en_inv data F ?e2"
      by (rule en_queue_event [OF i1 _ _ _ n(3)]) (use both n in \<open>auto simp: event_done_def\<close>)
    then show ?thesis using both bd by (auto simp: boarding_def untouched_def)
  qed
qed

lemma boarding_sync:
  assumes b: "boarding data F k s d src e" and c: "stream_synchronize env e = (r, e')"
  shows "boarding data F k s d src e' \<and> ce_directory e' = ce_directory e \<and>
    (r = Inr () \<and> ce_queue e' = [] \<or> r = Inl RuntimeError \<and> (\<not> sa_sync env \<or> ce_faulted e))"
proof -
  note bd = boardingD [OF b] and s = en_sync [OF boardingD(1) [OF b] c]
  have "cm_load (At s (loc_slot src)) (ce_memory e') = cm_load (At s (loc_slot src)) (ce_memory e)"
    using c fold_untouched [OF en_invD(2) [OF bd(1)] bd(6)] by (auto simp: stream_synchronize_def split: if_splits)
  then show ?thesis using s bd by (auto simp: boarding_def untouched_def)
qed

lemma boarding_back:
  assumes b: "boarding data F k s d src e" and q: "ce_queue e = []" and c: "ce_dir (cd_rollback now k s d) e = (r, e')"
  shows "r = Inr () \<and> en_inv data F e' \<and> ce_pins e' = ce_pins e \<and> ce_queue e' = [] \<and>
    ce_rep e' = upd (upd (ce_rep e) d k None) s k (Some \<lparr>rp_location = src, rp_state = READY\<rparr>)"
proof -
  note bd = boardingD [OF b] and i = en_invD [OF boardingD(1) [OF b]]
  obtain dd where dd: "cd_rollback now k s d (ce_directory e) = (Inr (), dd)" "cd_inv dd" "cd_pins dd = ce_pins e"
    "cd_rep dd = upd (upd (ce_rep e) d k None) s k (Some \<lparr>rp_location = src, rp_state = READY\<rparr>)"
    using cd_rollback_ok [OF i(1) bd(4) bd(3) [symmetric], of now] by auto
  have e': "r = Inr ()" "e' = e\<lparr>ce_directory := dd\<rparr>" using c dd(1) by (auto simp: ce_dir_iff)
  have "en_inv data F e'"
    unfolding e'
  proof (rule en_dir [OF bd(1) dd(2), of k])
    show "ce_rep e t k = Some x \<or> cm_load (At t (loc_slot (rp_location x))) (ce_memory e) = Inr (data k)"
      if "t \<in> {GPU, CPU}" "cd_rep dd t k = Some x" "rp_state x = READY" for t x
      using that bd(7) dd(4) by (cases "t = s"; cases "t = d") auto
  qed (use bd(2) q dd(3,4) in auto)
  then show ?thesis using e' dd q by simp
qed

text \<open>
  Publishing a copy that has arrived: destination and source become READY, the pin is given
  back and the source may be released. Both movers end like this.
\<close>

lemma cd_publish:
  assumes inv: "cd_inv d" and held: "fl_held d k f"
  shows "\<exists>d1 d2 d3 n. cd_set_state k (fl_destination f) READY d = (Inr (), d1) \<and> cd_set_state k (fl_source f) READY d1 = (Inr (), d2) \<and>
    cd_unpin k d2 = (Inr (), d3) \<and> cd_inv d3 \<and> cd_pins d k = Some n \<and> 0 < n \<and> cd_pins d3 = (cd_pins d)(k \<mapsto> n - 1) \<and>
    cd_rep d3 = upd (upd (cd_rep d) (fl_destination f) k (Some \<lparr>rp_location = fl_destination_loc f, rp_state = READY\<rparr>))
      (fl_source f) k (Some \<lparr>rp_location = fl_source_loc f, rp_state = READY\<rparr>)"
proof -
  let ?s = "fl_source f" and ?t = "fl_destination f"
  obtain st n where ne: "?s \<noteq> ?t" and src: "cd_rep d ?s k = Some \<lparr>rp_location = fl_source_loc f, rp_state = COPYING\<rparr>"
    and dst: "cd_rep d ?t k = Some \<lparr>rp_location = fl_destination_loc f, rp_state = st\<rparr>" and n: "cd_pins d k = Some n" "0 < n"
    using held by (auto simp: fl_held_def)
  obtain d1 where d1: "cd_set_state k ?t READY d = (Inr (), d1)" "cd_inv d1" "cd_pins d1 = cd_pins d"
    "cd_rep d1 = upd (cd_rep d) ?t k (Some \<lparr>rp_location = fl_destination_loc f, rp_state = READY\<rparr>)"
    using cd_set_state_ok [OF inv dst, of READY] by auto
  have "cd_rep d1 ?s k = Some \<lparr>rp_location = fl_source_loc f, rp_state = COPYING\<rparr>" using src ne by (simp add: d1(4))
  then obtain d2 where d2: "cd_set_state k ?s READY d1 = (Inr (), d2)" "cd_inv d2" "cd_pins d2 = cd_pins d1"
    "cd_rep d2 = upd (cd_rep d1) ?s k (Some \<lparr>rp_location = fl_source_loc f, rp_state = READY\<rparr>)"
    using cd_set_state_ok [OF d1(2), of ?s k _ READY] by fastforce
  have "cd_pins d2 k = Some n" using n d1 d2 by simp
  then obtain d3 where d3: "cd_unpin k d2 = (Inr (), d3)" "cd_inv d3" "cd_rep d3 = cd_rep d2" "cd_pins d3 = (cd_pins d2)(k \<mapsto> n - 1)"
    using cd_unpin_ok [OF d2(2) _ n(2)] by blast
  show ?thesis using d1 d2 d3 n by auto
qed

text \<open>Ending a flight whose bytes have arrived keeps the invariant.\<close>

lemma en_land:
  assumes inv: "en_inv data F e" and f: "F k = Some f" and d': "cd_inv d'"
    and other: "\<And>j. j \<noteq> k \<Longrightarrow> cd_pins d' j = ce_pins e j"
    and rep: "cd_rep d' = upd (upd (ce_rep e) (fl_destination f) k y) (fl_source f) k x"
    and y: "\<And>z. fl_destination f \<in> {GPU, CPU} \<Longrightarrow> y = Some z \<Longrightarrow> rp_state z = READY \<Longrightarrow>
      rp_location z = fl_destination_loc f \<and> cm_load (fl_to f) (ce_memory e) = Inr (data k)"
    and x: "\<And>z. x = Some z \<Longrightarrow> rp_state z = READY \<Longrightarrow> rp_location z = fl_source_loc f"
    and cl: "clear (fl_from f) (ce_queue e)" "clear (fl_to f) (ce_queue e)"
  shows "en_inv data (F(k := None)) (e\<lparr>ce_directory := d'\<rparr>)"
proof (rule en_dir [OF inv d', of k])
  have held: "fl_held (ce_directory e) k f" using en_invD(6) [OF inv f] by (simp add: fl_ok_def)
  note c = coherentD [OF en_invD(5) [OF inv]]
  show "occupied d' k (At t (loc_slot (rp_location z))) \<or> clear (At t (loc_slot (rp_location z))) (ce_queue e)"
    if t: "t \<in> {GPU, CPU}" "ce_rep e t k = Some z" "busy (rp_state z)" for t z
  proof (cases "t = fl_source f \<or> t = fl_destination f")
    case True
    then have "At t (loc_slot (rp_location z)) \<in> {fl_from f, fl_to f}"
      using t held by (auto simp: fl_held_def fl_from_def fl_to_def)
    then show ?thesis using cl by auto
  next
    case False
    then show ?thesis using t rep by (simp add: occupied_def)
  qed
  show "ce_rep e t k = Some z \<or> cm_load (At t (loc_slot (rp_location z))) (ce_memory e) = Inr (data k)"
    if t: "t \<in> {GPU, CPU}" "cd_rep d' t k = Some z" "rp_state z = READY" for t z
  proof -
    consider "t = fl_source f" | "t = fl_destination f" "t \<noteq> fl_source f" | "t \<noteq> fl_source f" "t \<noteq> fl_destination f" by blast
    then show ?thesis
    proof cases
      case 1
      have src: "ce_rep e t k = Some \<lparr>rp_location = fl_source_loc f, rp_state = COPYING\<rparr>" using held 1 by (simp add: fl_held_def)
      have "rp_location z = fl_source_loc f" using x [of z] t(2,3) rep 1 by simp
      moreover have "rp_state z = READY \<or> (\<exists>g. F k = Some g \<and> fl_source g = t)" using f 1 by simp
      ultimately show ?thesis using c [OF t(1) src] f 1 by simp
    next
      case 2
      then show ?thesis using y [of z] t rep by (simp add: fl_to_def)
    next
      case 3
      then show ?thesis using t rep by simp
    qed
  qed
qed (use rep other in auto)

end
