(* ===== verification/Mover_Interface.thy ===== *)
theory Mover_Interface
  imports Copy_Engine
begin

text \<open>
  The interface through which both asynchronous movers guarantee what they do to the copy engine,
  and what the engine leaves alone while they work.
\<close>

section \<open>The interface of a mover\<close>

text \<open>
  What the clients of a mover rely on: whatever it does, its flights keep the invariant of the
  engine. Both asynchronous movers provide it.
\<close>

locale chunk_mover =
  fixes inv :: "(cache_key \<Rightarrow> memory) \<Rightarrow> 'm \<Rightarrow> bool"
    and step :: "(cache_key \<Rightarrow> memory) \<Rightarrow> 'm \<Rightarrow> 'm \<Rightarrow> bool"
    and engine :: "'m \<Rightarrow> copy_engine"
    and flights :: "'m \<Rightarrow> cache_key \<rightharpoonup> flight"
  assumes inv_engine: "inv data m \<Longrightarrow> en_inv data (flights m) (engine m)"
    and step_inv: "inv data m \<Longrightarrow> step data m m' \<Longrightarrow> inv data m'"
begin

lemma runs_inv: "(step data)\<^sup>*\<^sup>* m m' \<Longrightarrow> inv data m \<Longrightarrow> inv data m'"
  by (induction rule: rtranclp_induct) (auto intro: step_inv)

text \<open>READY replicas in memory hold the bytes of their chunk.\<close>

lemma ready_coherent:
  assumes "inv data m" and "s \<in> {GPU, CPU}" and "ce_rep (engine m) s k = Some x" and "rp_state x = READY"
  shows "cm_load (At s (loc_slot (rp_location x))) (ce_memory (engine m)) = Inr (data k)"
  using coherentD [OF en_invD(5) [OF inv_engine [OF assms(1)]] assms(2,3)] assms(4) by blast

text \<open>The directory gives up neither the replicas of a chunk in flight nor the chunk.\<close>

lemma flight_guarded:
  assumes i: "inv data m" and f: "flights m k = Some f" and d: "d = ce_directory (engine m)"
  shows "s \<in> {fl_source f, fl_destination f} \<Longrightarrow> cd_remove now k s d = (Inl LogicError, d)"
    and "cd_destroy k d = (Inl LogicError, d)"
proof -
  note fv = flight_view [OF inv_engine [OF i] f]
  show "cd_remove now k s d = (Inl LogicError, d)" if "s \<in> {fl_source f, fl_destination f}"
  proof -
    have "\<exists>x. ce_rep (engine m) s k = Some x \<and> busy (rp_state x)"
      using that by (elim insertE emptyE) (simp_all only: fv(2,3))
    then obtain x where "ce_rep (engine m) s k = Some x" "busy (rp_state x)" by blast
    then show ?thesis using cd_remove_busy [OF en_invD(1) [OF inv_engine [OF i]]] d by (auto simp: busy_def)
  qed
  show "cd_destroy k d = (Inl LogicError, d)" using cd_destroy_replicas fv(2) d by blast
qed

end

text \<open>
  What the engine does to the slots it is not asked to write: the size of a slot never changes,
  and the destination of a flight that has no copy on the stream keeps its content.
\<close>

definition fl_still :: "(cache_key \<rightharpoonup> flight) \<Rightarrow> copy_engine \<Rightarrow> copy_engine \<Rightarrow> bool" where
  "fl_still F e e' \<longleftrightarrow> cm_bytes (ce_memory e') = cm_bytes (ce_memory e) \<and>
     (\<forall>k f. F k = Some f \<longrightarrow> fl_event f = None \<longrightarrow> cm_load (fl_to f) (ce_memory e') = cm_load (fl_to f) (ce_memory e))"

lemma fl_still_memory: "ce_memory e' = ce_memory e \<Longrightarrow> fl_still F e e'"
  by (simp add: fl_still_def)

lemma fl_still_trans: "fl_still F e1 e2 \<Longrightarrow> fl_still F e2 e3 \<Longrightarrow> fl_still F e1 e3"
  by (simp add: fl_still_def)

lemma still_step:
  assumes inv: "en_inv data F e"
  shows "fl_still F e (ce_step e)"
proof (cases "ce_queue e")
  case Nil
  then show ?thesis by (simp add: ce_step_def fl_still_def)
next
  case (Cons x q)
  have m: "ce_memory (ce_step e) = stream_exec x (ce_memory e)" using Cons by (simp add: ce_step_def)
  have "cm_shape (stream_exec x (ce_memory e)) = cm_shape (ce_memory e)" using en_invD(2) [OF inv] by simp
  moreover have "cm_load (fl_to f) (stream_exec x (ce_memory e)) = cm_load (fl_to f) (ce_memory e)"
    if "F k = Some f" "fl_event f = None" for k f
    using en_invD(6) [OF inv that(1)] that(2) Cons by (intro exec_clear [OF en_invD(2) [OF inv], of _ _ q]) (simp add: fl_ok_def)
  ultimately show ?thesis by (auto simp: fl_still_def m cm_shape_def)
qed

lemma still_steps: "en_inv data F e \<Longrightarrow> fl_still F e ((ce_step ^^ n) e)"
proof (induction n)
  case (Suc n)
  then show ?case using still_step [OF en_steps [OF Suc.prems, of n]] fl_still_trans by auto
qed (simp add: fl_still_def)

lemma still_fault:
  assumes inv: "en_inv data F e"
  shows "fl_still F e (ce_fault bs e)"
proof (cases "\<exists>a b q. ce_queue e = Copy a b # q \<and> length bs = gs_chunk_bytes (cm_gpu (ce_memory e))")
  case True
  then obtain a b q where q: "ce_queue e = Copy a b # q" "length bs = cm_bytes (ce_memory e)"
    by (auto simp: cm_bytes_def)
  obtain r m' where s: "cm_store b bs (ce_memory e) = (r, m')" by (metis surj_pair)
  then have m: "ce_memory (ce_fault bs e) = m'" using q by (simp add: ce_fault_def cm_bytes_def)
  note c = cm_store_cases [OF en_invD(2) [OF inv] s q(2)]
  have "fl_to f \<noteq> b" if "F k = Some f" "fl_event f = None" for k f
    using en_invD(6) [OF inv that(1)] that(2) q by (auto simp: fl_ok_def)
  then show ?thesis using c by (auto simp: fl_still_def m cm_shape_def)
next
  case False
  then have "ce_memory (ce_fault bs e) = ce_memory e" by (auto simp: ce_fault_def split: list.splits stream_op.splits)
  then show ?thesis by (rule fl_still_memory)
qed

lemma still_sync:
  assumes "en_inv data F e" and "stream_synchronize env e = (r, e')"
  shows "fl_still F e e'"
  using assms still_steps [OF assms(1), of "length (ce_queue e)"]
  by (auto simp: stream_synchronize_def all_steps [symmetric] fl_still_memory split: if_splits)

lemma still_event_sync:
  assumes "en_inv data F e" and "event_synchronize env n e = (r, e')"
  shows "fl_still F e e'"
proof -
  obtain j where "(case run_until n (ce_queue e) (ce_memory e) of (q, m) \<Rightarrow> e\<lparr>ce_queue := q, ce_memory := m\<rparr>) = (ce_step ^^ j) e"
    using run_steps by blast
  then show ?thesis
    using assms still_steps [OF assms(1), of j] by (auto simp: event_synchronize_def fl_still_memory split: if_splits prod.splits)
qed

lemma still_client:
  assumes inv: "en_inv data F e" and c: "client_step data F e e'"
  shows "fl_still F e e'"
  using c
proof cases
  case (fill k s x m r d)
  note i = en_invD [OF inv] and sc = cm_store_cases [OF en_invD(2) [OF inv] fill(8,7)]
  have occ: "occupied (ce_directory e) k (At s (loc_slot (rp_location x)))" using fill by (auto simp: occupied_def)
  have "fl_to f \<noteq> At s (loc_slot (rp_location x))" if f: "F j = Some f" for j f
  proof
    assume "fl_to f = At s (loc_slot (rp_location x))"
    then have "occupied (ce_directory e) j (At s (loc_slot (rp_location x)))"
      using held_occupied(2) [of "ce_directory e" j f] i(6) [OF f] by (simp add: fl_ok_def)
    then show False using occupied_unique [OF i(1) occ] fill(2) f by auto
  qed
  then show ?thesis using sc fill(1) by (auto simp: fl_still_def cm_shape_def)
qed (auto intro: fl_still_memory)

lemma flight_event_less: "en_inv data F e \<Longrightarrow> F k = Some f \<Longrightarrow> fl_event f = Some n \<Longrightarrow> n < ce_next_event e"
  using en_invD(6) [of data F e k f] by (auto simp: fl_ok_def)

text \<open>Throwing away the destination of a flight and reopening the source.\<close>

lemma cd_discard:
  assumes inv: "cd_inv d" and held: "fl_held d k f"
  shows "\<exists>d1 d2 d3 d4 n. cd_set_state k (fl_destination f) ERROR d = (Inr (), d1) \<and>
    cd_remove now k (fl_destination f) d1 = (Inr (), d2) \<and> cd_set_state k (fl_source f) READY d2 = (Inr (), d3) \<and>
    cd_unpin k d3 = (Inr (), d4) \<and> cd_inv d4 \<and> cd_pins d k = Some n \<and> cd_pins d4 = (cd_pins d)(k \<mapsto> n - 1) \<and>
    cd_rep d4 = upd (upd (cd_rep d) (fl_destination f) k None) (fl_source f) k (Some \<lparr>rp_location = fl_source_loc f, rp_state = READY\<rparr>)"
proof -
  let ?s = "fl_source f" and ?t = "fl_destination f"
  obtain st n where ne: "?s \<noteq> ?t" and src: "cd_rep d ?s k = Some \<lparr>rp_location = fl_source_loc f, rp_state = COPYING\<rparr>"
    and dst: "cd_rep d ?t k = Some \<lparr>rp_location = fl_destination_loc f, rp_state = st\<rparr>" and n: "cd_pins d k = Some n" "0 < n"
    using held by (auto simp: fl_held_def)
  obtain d1 where d1: "cd_set_state k ?t ERROR d = (Inr (), d1)" "cd_inv d1" "cd_pins d1 = cd_pins d"
    "cd_rep d1 = upd (cd_rep d) ?t k (Some \<lparr>rp_location = fl_destination_loc f, rp_state = ERROR\<rparr>)"
    using cd_set_state_ok [OF inv dst, of ERROR] by auto
  have "cd_rep d1 ?t k = Some \<lparr>rp_location = fl_destination_loc f, rp_state = ERROR\<rparr>" by (simp add: d1(4))
  then obtain d2 where d2: "cd_remove now k ?t d1 = (Inr (), d2)" "cd_inv d2" "cd_pins d2 = cd_pins d1"
    "cd_rep d2 = upd (cd_rep d1) ?t k None"
    using cd_remove_ok [OF d1(2), of ?t k _ now] by fastforce
  have "cd_rep d2 ?s k = Some \<lparr>rp_location = fl_source_loc f, rp_state = COPYING\<rparr>" using src ne by (simp add: d1(4) d2(4))
  then obtain d3 where d3: "cd_set_state k ?s READY d2 = (Inr (), d3)" "cd_inv d3" "cd_pins d3 = cd_pins d2"
    "cd_rep d3 = upd (cd_rep d2) ?s k (Some \<lparr>rp_location = fl_source_loc f, rp_state = READY\<rparr>)"
    using cd_set_state_ok [OF d2(2), of ?s k _ READY] by fastforce
  have "cd_pins d3 k = Some n" using n d1 d2 d3 by simp
  then obtain d4 where d4: "cd_unpin k d3 = (Inr (), d4)" "cd_inv d4" "cd_rep d4 = cd_rep d3" "cd_pins d4 = (cd_pins d3)(k \<mapsto> n - 1)"
    using cd_unpin_ok [OF d3(2) _ n(2)] by blast
  have "cd_rep d4 = upd (upd (cd_rep d) ?t k None) ?s k (Some \<lparr>rp_location = fl_source_loc f, rp_state = READY\<rparr>)"
    by (simp add: d4(3) d3(4) d2(4) d1(4) fun_eq_iff)
  moreover have "cd_pins d4 = (cd_pins d)(k \<mapsto> n - 1)" by (simp add: d4(4) d3(3) d2(3) d1(3))
  ultimately show ?thesis using d1(1) d2(1) d3(1) d4(1,2) n(1) by blast
qed

end
