(* ===== verification/Migration_Manager.thy ===== *)
theory Migration_Manager
  imports Mover_Interface Nvme_Transfer
begin

text \<open>
  \<open>include/kvflux/v3/migration_manager.h\<close>, \<open>src/v3/migration_manager.cpp\<close>: asynchronous
  migration of chunks between neighbouring levels. The owner thread submits, polls, waits for
  and cancels tasks; copies between GPU and CPU run on the stream, file transfers on a pool of
  worker threads. Tasks are shared between the map of the owner and the queue of the workers, so
  the queue and the workers hold their ids. Every region under the mutex and every file transfer
  is one step. Ids are natural numbers: 2 ^ 64 submissions are out of reach.
\<close>

section \<open>Tasks\<close>

datatype migration_state = QUEUED | RUNNING | COMPLETED | FAILED | CANCELLED

record migration_task =
  mt_id :: nat
  mt_key :: cache_key
  mt_source :: storage_tier
  mt_destination :: storage_tier
  mt_priority :: int
  mt_source_loc :: tier_location
  mt_destination_loc :: tier_location
  mt_meta :: chunk_file_meta
  mt_state :: migration_state
  mt_cancel_requested :: bool
  mt_io_result :: int
  mt_error :: "exn option"
  mt_done :: "nat option"

definition uses_cuda :: "migration_task \<Rightarrow> bool" where
  "uses_cuda task \<longleftrightarrow> mt_source task = GPU \<or> mt_destination task = GPU"

record migration_manager =
  mm_engine :: copy_engine
  mm_store :: chunk_file_store
  mm_next_id :: nat
  mm_tasks :: "(nat \<times> migration_task) list"
  mm_io_queue :: "nat list"
  mm_workers :: "nat option list"

text \<open>A worker is idle (\<open>None\<close>) or holds the task it has taken from the queue.\<close>

definition mm_create :: "cuda \<Rightarrow> cache_directory \<Rightarrow> gpu_chunk_store \<Rightarrow> host_buffers \<Rightarrow> chunk_file_store \<Rightarrow> nat \<Rightarrow>
    migration_manager res" where
  "mm_create env directory gpu_store cpu_buffers store io_threads =
     bind_res (stream_create env (gm_device (gs_pool gpu_store))) (\<lambda>_.
       if gs_chunk_bytes gpu_store \<noteq> hb_chunk_bytes cpu_buffers then Inl InvalidArgument
       else if io_threads = 0 then Inl InvalidArgument
       else Inr \<lparr>mm_engine = \<lparr>ce_directory = directory, ce_memory = \<lparr>cm_gpu = gpu_store, cm_cpu = cpu_buffers\<rparr>,
                              ce_queue = [], ce_next_event = 0, ce_faulted = False\<rparr>,
                 mm_store = store, mm_next_id = 1, mm_tasks = [], mm_io_queue = [],
                 mm_workers = replicate io_threads None\<rparr>)"

definition mm_find :: "nat \<Rightarrow> migration_manager \<Rightarrow> migration_task res" where
  "mm_find tid s = (case map_of (mm_tasks s) tid of None \<Rightarrow> Inl OutOfRange | Some task \<Rightarrow> Inr task)"

definition mm_put :: "nat \<Rightarrow> migration_task \<Rightarrow> migration_manager \<Rightarrow> migration_manager" where
  "mm_put tid task s = s\<lparr>mm_tasks := AList.update tid task (mm_tasks s)\<rparr>"

definition mm_dir :: "(cache_directory \<Rightarrow> 'a res \<times> cache_directory) \<Rightarrow> migration_manager \<Rightarrow> 'a res \<times> migration_manager" where
  "mm_dir f s = (case ce_dir f (mm_engine s) of (r, e) \<Rightarrow> (r, s\<lparr>mm_engine := e\<rparr>))"

record migration_task_info =
  ti_id :: nat
  ti_key :: cache_key
  ti_source :: storage_tier
  ti_destination :: storage_tier
  ti_state :: migration_state
  ti_priority :: int
  ti_error :: "exn option"

definition mm_info :: "nat \<Rightarrow> migration_manager \<Rightarrow> migration_task_info res" where
  "mm_info tid s =
     bind_res (mm_find tid s) (\<lambda>task.
       Inr \<lparr>ti_id = mt_id task, ti_key = mt_key task, ti_source = mt_source task, ti_destination = mt_destination task,
            ti_state = mt_state task, ti_priority = mt_priority task, ti_error = mt_error task\<rparr>)"

definition mm_pending_count :: "migration_manager \<Rightarrow> nat" where
  "mm_pending_count s =
     foldl (\<lambda>n (tid, task). if mt_state task = QUEUED \<or> mt_state task = RUNNING then n + 1 else n) 0 (mm_tasks s)"

section \<open>Submission\<close>

text \<open>The loop that looks for the only READY replica from which the destination can be reached.\<close>

fun infer_source :: "storage_tier \<Rightarrow> (storage_tier \<Rightarrow> replica option) \<Rightarrow> storage_tier option \<Rightarrow> storage_tier list \<Rightarrow>
    storage_tier option res" where
  "infer_source destination replica_of found [] = Inr found"
| "infer_source destination replica_of found (t # ts) =
     (if t = destination \<or> t = GPU \<and> destination = NVME \<or> t = NVME \<and> destination = GPU
      then infer_source destination replica_of found ts
      else case replica_of t of
        None \<Rightarrow> infer_source destination replica_of found ts
      | Some x \<Rightarrow>
          if rp_state x \<noteq> READY then infer_source destination replica_of found ts
          else if found \<noteq> None then Inl LogicError
          else infer_source destination replica_of (Some t) ts)"

text \<open>The \<open>try\<close> block: the task that comes out has its destination and, on the stream, its event.\<close>

definition mm_launch :: "stream_answers \<Rightarrow> nat \<Rightarrow> migration_task \<Rightarrow> copy_engine \<Rightarrow> migration_task res \<times> copy_engine" where
  "mm_launch env now task e =
     and_then (ce_dir (cd_place now (mt_key task) (mt_destination task)
                         (if mt_destination task = GPU then LOADING else COPYING)) e) (\<lambda>destination e.
     and_then (ce_dir (cd_pin (mt_key task)) e) (\<lambda>_ e.
       let task = task\<lparr>mt_destination_loc := destination\<rparr>;
           source = At (mt_source task) (loc_slot (mt_source_loc task));
           target = At (mt_destination task) (loc_slot destination)
       in if uses_cuda task then
            (case bind_res (cm_pointer target (ce_memory e)) (\<lambda>_. cm_pointer source (ce_memory e)) of
               Inl x \<Rightarrow> (Inl x, e)
             | Inr _ \<Rightarrow>
                 and_then (event_create env e) (\<lambda>done e.
                 and_then (queue_copy env source target done e) (\<lambda>_ e.
                   (Inr (task\<lparr>mt_done := Some done, mt_state := RUNNING\<rparr>), e))))
          else (Inr task, e)))"

definition mm_rollback_submit :: "stream_answers \<Rightarrow> nat \<Rightarrow> migration_task \<Rightarrow> exn \<Rightarrow> copy_engine \<Rightarrow> 'a res \<times> copy_engine" where
  "mm_rollback_submit env now task x e =
     and_then (stream_synchronize env e) (\<lambda>_ e.
       case cd_at (mt_key task) (ce_directory e) of
         Inl y \<Rightarrow> (Inl y, e)
       | Inr r \<Rightarrow>
           and_then
             (if replica_at (mt_destination task) r \<noteq> None
              then
                and_then (ce_dir (cd_set_state (mt_key task) (mt_destination task) ERROR) e) (\<lambda>_ e.
                and_then (ce_dir (cd_remove now (mt_key task) (mt_destination task)) e) (\<lambda>_ e.
                  ce_dir (cd_unpin (mt_key task)) e))
              else (Inr (), e))
             (\<lambda>_ e. and_then (ce_dir (cd_set_state (mt_key task) (mt_source task) READY) e) (\<lambda>_ e. (Inl x, e))))"

definition mm_submit :: "stream_answers \<Rightarrow> nat \<Rightarrow> cache_key \<Rightarrow> storage_tier \<Rightarrow> u64 \<Rightarrow> int \<Rightarrow> migration_manager \<Rightarrow>
    nat res \<times> migration_manager" where
  "mm_submit env now key destination valid_tokens priority s =
     (case cd_at key (ce_directory (mm_engine s)) of
        Inl x \<Rightarrow> (Inl x, s)
      | Inr r \<Rightarrow>
     case infer_source destination (\<lambda>t. replica_at t r) None [GPU, CPU, NVME] of
        Inl x \<Rightarrow> (Inl x, s)
      | Inr None \<Rightarrow> (Inl LogicError, s)
      | Inr (Some source) \<Rightarrow>
     case replica_slot r destination of
        Inl x \<Rightarrow> (Inl x, s)
      | Inr (Some y) \<Rightarrow> (Inl LogicError, s)
      | Inr None \<Rightarrow>
     if source = GPU \<and> destination = NVME \<or> source = NVME \<and> destination = GPU then (Inl InvalidArgument, s)
     else
       (case replica_at source r of
          None \<Rightarrow> (Inl Undefined, s)
        | Some src \<Rightarrow>
            let tid = mm_next_id s;
                task = \<lparr>mt_id = tid, mt_key = key, mt_source = source, mt_destination = destination, mt_priority = priority,
                        mt_source_loc = rp_location src, mt_destination_loc = \<lparr>loc_slot = 0, loc_generation = 0\<rparr>,
                        mt_meta = make_file_meta key valid_tokens (of_nat (hb_chunk_bytes (cm_cpu (ce_memory (mm_engine s))))),
                        mt_state = QUEUED, mt_cancel_requested = False, mt_io_result = 0, mt_error = None, mt_done = None\<rparr>;
                s = s\<lparr>mm_next_id := tid + 1\<rparr>
            in case and_then (ce_dir (cd_set_state key source COPYING) (mm_engine s)) (\<lambda>_ e.
                    catch_all (mm_launch env now task e) (mm_rollback_submit env now task)) of
                 (Inl x, e) \<Rightarrow> (Inl x, s\<lparr>mm_engine := e\<rparr>)
               | (Inr task, e) \<Rightarrow>
                   (Inr tid, mm_put tid task (s\<lparr>mm_engine := e,
                      mm_io_queue := (if uses_cuda task then mm_io_queue s else mm_io_queue s @ [tid])\<rparr>))))"

section \<open>The end of a task\<close>

definition mm_finalize_cancelled :: "io \<Rightarrow> nat \<Rightarrow> migration_task \<Rightarrow> migration_manager \<Rightarrow> unit res \<times> migration_manager" where
  "mm_finalize_cancelled env now task s =
     and_then
       (if mt_destination task = NVME \<and> cs_exists (loc_slot (mt_destination_loc task)) (mm_store s)
        then (case cs_erase env (loc_slot (mt_destination_loc task)) (mm_store s) of (r, st) \<Rightarrow> (r, s\<lparr>mm_store := st\<rparr>))
        else (Inr (), s)) (\<lambda>_ s.
     and_then (mm_dir (cd_set_state (mt_key task) (mt_destination task) ERROR) s) (\<lambda>_ s.
     and_then (mm_dir (cd_remove now (mt_key task) (mt_destination task)) s) (\<lambda>_ s.
     and_then (mm_dir (cd_set_state (mt_key task) (mt_source task) READY) s) (\<lambda>_ s.
     and_then (mm_dir (cd_unpin (mt_key task)) s) (\<lambda>_ s.
       (Inr (), mm_put (mt_id task) (task\<lparr>mt_state := CANCELLED\<rparr>) s))))))"

definition mm_finalize :: "io \<Rightarrow> nat \<Rightarrow> migration_task \<Rightarrow> migration_manager \<Rightarrow> unit res \<times> migration_manager" where
  "mm_finalize env now task s =
     (if mt_cancel_requested task then mm_finalize_cancelled env now task s
      else
        and_then (mm_dir (cd_set_state (mt_key task) (mt_destination task) READY) s) (\<lambda>_ s.
        and_then (mm_dir (cd_set_state (mt_key task) (mt_source task) READY) s) (\<lambda>_ s.
        and_then (mm_dir (cd_unpin (mt_key task)) s) (\<lambda>_ s.
          (Inr (), mm_put (mt_id task) (task\<lparr>mt_state := COMPLETED\<rparr>) s)))))"

definition mm_fail :: "nat \<Rightarrow> migration_task \<Rightarrow> migration_manager \<Rightarrow> unit res \<times> migration_manager" where
  "mm_fail now task s =
     (let s = mm_put (mt_id task) (task\<lparr>mt_state := FAILED\<rparr>) s in
      and_then (mm_dir (cd_set_state (mt_key task) (mt_destination task) ERROR) s) (\<lambda>_ s.
      and_then (mm_dir (cd_remove now (mt_key task) (mt_destination task)) s) (\<lambda>_ s.
      and_then (mm_dir (cd_set_state (mt_key task) (mt_source task) READY) s) (\<lambda>_ s.
        mm_dir (cd_unpin (mt_key task)) s))))"

definition mm_state :: "nat \<Rightarrow> migration_manager \<Rightarrow> migration_state res" where
  "mm_state tid s = bind_res (mm_find tid s) (\<lambda>task. Inr (mt_state task))"

definition mm_poll :: "io \<Rightarrow> nat \<Rightarrow> nat \<Rightarrow> migration_manager \<Rightarrow> migration_state res \<times> migration_manager" where
  "mm_poll env now tid s =
     (case mm_find tid s of
        Inl x \<Rightarrow> (Inl x, s)
      | Inr task \<Rightarrow>
          if mt_state task \<noteq> RUNNING then (Inr (mt_state task), s)
          else if uses_cuda task then
            (case mt_done task of
               None \<Rightarrow> (Inl Undefined, s)
             | Some n \<Rightarrow>
                 (case event_query n (mm_engine s) of
                    None \<Rightarrow> (Inr RUNNING, s)
                  | Some (Inl x) \<Rightarrow>
                      and_then (mm_fail now (task\<lparr>mt_error := Some x\<rparr>) s) (\<lambda>_ s. (mm_state tid s, s))
                  | Some (Inr _) \<Rightarrow> and_then (mm_finalize env now task s) (\<lambda>_ s. (mm_state tid s, s))))
          else if mt_io_result task = 0 then (Inr RUNNING, s)
          else if mt_io_result task > 0 then and_then (mm_finalize env now task s) (\<lambda>_ s. (mm_state tid s, s))
          else and_then (mm_fail now task s) (\<lambda>_ s. (mm_state tid s, s)))"

definition terminal :: "migration_state \<Rightarrow> bool" where
  "terminal st \<longleftrightarrow> st = COMPLETED \<or> st = FAILED \<or> st = CANCELLED"

text \<open>
  \<open>wait\<close> up to the next point at which it would block: \<open>None\<close> is a wait for a condition that
  does not hold yet, after which the function goes on as if called again.
\<close>

definition mm_wait :: "stream_answers \<Rightarrow> io \<Rightarrow> nat \<Rightarrow> nat \<Rightarrow> migration_manager \<Rightarrow> migration_state option res \<times> migration_manager" where
  "mm_wait senv env now tid s =
     (case mm_find tid s of
        Inl x \<Rightarrow> (Inl x, s)
      | Inr task \<Rightarrow>
          if terminal (mt_state task) then (Inr (Some (mt_state task)), s)
          else if mt_state task = QUEUED then (Inr None, s)
          else if uses_cuda task then
            (case mt_done task of
               None \<Rightarrow> (Inl Undefined, s)
             | Some n \<Rightarrow>
                 (case event_synchronize senv n (mm_engine s) of
                    (Inl x, e) \<Rightarrow> (Inl x, s\<lparr>mm_engine := e\<rparr>)
                  | (Inr _, e) \<Rightarrow> and_then (mm_poll env now tid (s\<lparr>mm_engine := e\<rparr>)) (\<lambda>st s. (Inr (Some st), s))))
          else if mt_io_result task = 0 then (Inr None, s)
          else and_then (mm_poll env now tid s) (\<lambda>st s. (Inr (Some st), s)))"

text \<open>
  One round of the loop of \<open>cancel\<close>; \<open>None\<close> means that it goes round again, because a worker has
  taken the task between the look at its state and the look into the queue.
\<close>

definition mm_cancel :: "io \<Rightarrow> nat \<Rightarrow> nat \<Rightarrow> migration_manager \<Rightarrow> bool option res \<times> migration_manager" where
  "mm_cancel env now tid s =
     (case mm_find tid s of
        Inl x \<Rightarrow> (Inl x, s)
      | Inr task \<Rightarrow>
          if terminal (mt_state task) then (Inr (Some False), s)
          else
            let task' = task\<lparr>mt_cancel_requested := True\<rparr>; s = mm_put tid task' s in
            if mt_state task = RUNNING then (Inr (Some True), s)
            else if tid \<in> set (mm_io_queue s) then
              and_then (mm_finalize_cancelled env now task' (s\<lparr>mm_io_queue := remove1 tid (mm_io_queue s)\<rparr>))
                (\<lambda>_ s. (Inr (Some True), s))
            else (Inr None, s))"

section \<open>The workers\<close>

definition mm_priority :: "nat \<Rightarrow> migration_manager \<Rightarrow> int" where
  "mm_priority tid s = (case map_of (mm_tasks s) tid of None \<Rightarrow> 0 | Some task \<Rightarrow> mt_priority task)"

definition mm_best :: "migration_manager \<Rightarrow> nat" where
  "mm_best s =
     foldl (\<lambda>best it. if mm_priority it s > mm_priority best s \<or> mm_priority it s = mm_priority best s \<and> it < best
                        then it else best)
       (hd (mm_io_queue s)) (mm_io_queue s)"

definition mm_worker_take :: "nat \<Rightarrow> migration_manager \<Rightarrow> migration_manager" where
  "mm_worker_take w s =
     (let tid = mm_best s in
      case map_of (mm_tasks s) tid of
        None \<Rightarrow> s
      | Some task \<Rightarrow>
          mm_put tid (task\<lparr>mt_state := RUNNING\<rparr>)
            (s\<lparr>mm_io_queue := remove1 tid (mm_io_queue s), mm_workers := (mm_workers s)[w := Some tid]\<rparr>))"

text \<open>\<open>junk\<close> is what a failed read leaves in the slot of the CPU level.\<close>

definition mm_do_io :: "io \<Rightarrow> memory \<Rightarrow> migration_task \<Rightarrow> migration_manager \<Rightarrow> unit res \<times> migration_manager" where
  "mm_do_io env junk task s =
     (let mem = ce_memory (mm_engine s); cpu = cm_cpu mem in
      if mt_destination task = NVME then
        (case hb_load (loc_slot (mt_source_loc task)) cpu of
           Inl x \<Rightarrow> (Inl x, s)
         | Inr payload \<Rightarrow>
             (case cs_write env (loc_slot (mt_destination_loc task)) (mt_meta task) payload (mm_store s) of
                (r, st) \<Rightarrow> (r, s\<lparr>mm_store := st\<rparr>)))
      else
        (case hb_load (loc_slot (mt_destination_loc task)) cpu of
           Inl x \<Rightarrow> (Inl x, s)
         | Inr old \<Rightarrow>
             (case cs_read env (loc_slot (mt_source_loc task)) (mt_meta task) (hb_chunk_bytes cpu) (mm_store s) of
                Inl x \<Rightarrow>
                  (Inl x, s\<lparr>mm_engine := (mm_engine s)\<lparr>ce_memory :=
                     (if length junk = length old then snd (cm_store (At CPU (loc_slot (mt_destination_loc task))) junk mem)
                      else mem)\<rparr>\<rparr>)
              | Inr None \<Rightarrow> (Inl ChunkMissError, s)
              | Inr (Some (out, m)) \<Rightarrow>
                  (case cm_store (At CPU (loc_slot (mt_destination_loc task))) (patch 0 out old) mem of
                     (r, mem') \<Rightarrow> (r, s\<lparr>mm_engine := (mm_engine s)\<lparr>ce_memory := mem'\<rparr>\<rparr>)))))"

definition mm_worker_io :: "io \<Rightarrow> memory \<Rightarrow> nat \<Rightarrow> migration_manager \<Rightarrow> migration_manager" where
  "mm_worker_io env junk w s =
     (case mm_workers s ! w of
        None \<Rightarrow> s
      | Some tid \<Rightarrow>
          (case map_of (mm_tasks s) tid of
             None \<Rightarrow> s
           | Some task \<Rightarrow>
               (case (if mt_cancel_requested task then (Inr (), s) else mm_do_io env junk task s) of
                  (r, s) \<Rightarrow>
                    mm_put tid (case r of Inr _ \<Rightarrow> task\<lparr>mt_io_result := 1\<rparr>
                                       | Inl x \<Rightarrow> task\<lparr>mt_error := Some x, mt_io_result := -1\<rparr>)
                      (s\<lparr>mm_workers := (mm_workers s)[w := None]\<rparr>))))"

section \<open>Destruction\<close>

text \<open>
  The destructor cancels every unfinished task and then waits for all of them; the tasks are given
  in the order in which the map yields them. \<open>False\<close> means that the loop goes round again
  (\<open>cancel\<close>) or blocks (\<open>wait\<close>) at this point. An exception of \<open>cancel\<close> leaves the destructor,
  which is \<open>noexcept\<close>: the program is terminated. An exception of \<open>wait\<close> is swallowed.
\<close>

fun mm_cancel_all :: "io \<Rightarrow> nat \<Rightarrow> nat list \<Rightarrow> migration_manager \<Rightarrow> bool res \<times> migration_manager" where
  "mm_cancel_all env now [] s = (Inr True, s)"
| "mm_cancel_all env now (tid # tids) s =
     (case mm_state tid s of
        Inl x \<Rightarrow> (Inl x, s)
      | Inr st \<Rightarrow>
          if st = QUEUED \<or> st = RUNNING then
            (case mm_cancel env now tid s of
               (Inl x, s) \<Rightarrow> (Inl x, s)
             | (Inr None, s) \<Rightarrow> (Inr False, s)
             | (Inr (Some _), s) \<Rightarrow> mm_cancel_all env now tids s)
          else mm_cancel_all env now tids s)"

fun mm_wait_all :: "stream_answers \<Rightarrow> io \<Rightarrow> nat \<Rightarrow> nat list \<Rightarrow> migration_manager \<Rightarrow> bool \<times> migration_manager" where
  "mm_wait_all senv env now [] s = (True, s)"
| "mm_wait_all senv env now (tid # tids) s =
     (case mm_wait senv env now tid s of
        (Inr None, s) \<Rightarrow> (False, s)
      | (_, s) \<Rightarrow> mm_wait_all senv env now tids s)"

end
