(* ===== verification/Migration_Invariant.thy ===== *)
theory Migration_Invariant
  imports Migration_Manager
begin

text \<open>
  The invariant of \<open>Migration_Manager\<close> and that every operation of the owner and every step of a
  worker keeps it: each unfinished task is a flight of the copy engine, its destination is not
  visible to anyone before its bytes have arrived, and the files of READY replicas hold the bytes
  of their chunks.
\<close>

section \<open>What a chunk file holds\<close>

text \<open>The file of the slot is the file of a chunk with these bytes.\<close>

definition file_holds :: "nat \<Rightarrow> bytes \<Rightarrow> chunk_file_store \<Rightarrow> bool" where
  "file_holds i bs st \<longleftrightarrow>
     (\<exists>meta. meta_ok meta \<and> unat (fm_payload_size meta) = length bs \<and> cs_file i st = Some (file_header meta bs @ bs))"

lemma file_content_unique:
  assumes "meta_ok meta" and "length p = unat (fm_payload_size meta)" and "meta_ok m" and "length out = unat (fm_payload_size m)"
    and eq: "file_header m out @ out @ rest = file_header meta p @ p"
  shows "out = p"
proof -
  have h: "file_header m out @ r = fill_checksum (serialize_header m) (chunk_checksum out) @
      put_u64 (chunk_checksum (fill_checksum (serialize_header m) (chunk_checksum out))) @ r" for m out r
    by (simp add: file_header_def Let_def)
  have rh: "\<exists>a. read_header (fill_checksum (serialize_header m) c @ r, []) = (Inr (m, c), r, a)" if "meta_ok m" for m c r
    by (rule read_header_print [OF that, of "[]" c r]) auto
  obtain a1 where r1: "read_header (file_header m out @ out @ rest, []) =
      (Inr (m, chunk_checksum out), put_u64 (chunk_checksum (fill_checksum (serialize_header m) (chunk_checksum out))) @ out @ rest, a1)"
    unfolding h using rh [OF assms(3)] by blast
  obtain a2 where r2: "read_header (file_header meta p @ p, []) =
      (Inr (meta, chunk_checksum p), put_u64 (chunk_checksum (fill_checksum (serialize_header meta) (chunk_checksum p))) @ p, a2)"
    unfolding h using rh [OF assms(1)] by blast
  have "m = meta" "out @ rest = p" using r1 r2 unfolding eq by auto
  then show ?thesis using assms(2,4) by auto
qed

lemma written_holds:
  assumes "cs_write env i meta payload st = (Inr (), st')" and "meta_ok meta" and "unat (fm_payload_size meta) = length payload"
  shows "file_holds i payload st'"
  using cs_write_publishes(1) [OF assms(1), of i] assms(2,3) by (auto simp: file_holds_def file_content_def)

text \<open>Whoever manages to read the file gets these bytes.\<close>

lemma file_holds_read:
  assumes h: "file_holds i bs st" and r: "cs_read env i expected cap st = Inr (Some (out, m))"
  shows "out = bs"
proof -
  obtain meta where meta: "meta_ok meta" "unat (fm_payload_size meta) = length bs" "cs_file i st = Some (file_header meta bs @ bs)"
    using h by (auto simp: file_holds_def)
  then obtain st1 where "read_body expected cap (file_header meta bs @ bs, io_answers env) = (Inr (Some (out, m)), st1)"
    using r by (auto simp: cs_read_def prod_eq_iff split: if_splits)
  note s = read_body_sound [OF this]
  show ?thesis by (rule file_content_unique [OF meta(1) meta(2) [symmetric] s(2,4) s(1) [symmetric]])
qed

lemma file_holds_cong: "cs_file i st' = cs_file i st \<Longrightarrow> file_holds i bs st' = file_holds i bs st"
  by (simp add: file_holds_def)

lemma cs_write_other: "cs_write env i meta payload st = (r, st') \<Longrightarrow> j \<noteq> i \<Longrightarrow> cs_file j st' = cs_file j st"
  using cs_write_cases [of env i meta payload st r st'] suffix_names(3) [of j i] chunk_name_inj [of j i]
  by (auto simp: Let_def cs_file_def delete_conv' update_conv')

lemma cs_erase_other: "cs_erase env i st = (r, st') \<Longrightarrow> j \<noteq> i \<Longrightarrow> cs_file j st' = cs_file j st"
  using chunk_name_inj [of j i] by (auto simp: cs_erase_def cs_file_def delete_conv' split: option.splits if_splits)

section \<open>The invariant\<close>

abbreviation active :: "migration_task \<Rightarrow> bool" where
  "active task \<equiv> \<not> terminal (mt_state task)"

definition task_flight :: "migration_task \<Rightarrow> flight" where
  "task_flight task = \<lparr>fl_source = mt_source task, fl_destination = mt_destination task, fl_source_loc = mt_source_loc task,
     fl_destination_loc = mt_destination_loc task, fl_event = mt_done task\<rparr>"

definition flights_of :: "(nat \<times> migration_task) list \<Rightarrow> cache_key \<rightharpoonup> flight" where
  "flights_of ts k = map_option (\<lambda>(i, t). task_flight t) (List.find (\<lambda>(i, t). mt_key t = k \<and> active t) ts)"

definition mm_flights :: "migration_manager \<Rightarrow> cache_key \<rightharpoonup> flight" where
  "mm_flights s = flights_of (mm_tasks s)"

text \<open>Every chunk has at most one unfinished task.\<close>

definition tasks_wf :: "(nat \<times> migration_task) list \<Rightarrow> bool" where
  "tasks_wf ts \<longleftrightarrow> distinct (map fst ts) \<and>
     (\<forall>i j t u. map_of ts i = Some t \<longrightarrow> map_of ts j = Some u \<longrightarrow> active t \<longrightarrow> active u \<longrightarrow> mt_key t = mt_key u \<longrightarrow> i = j)"

lemma flights_of_iff:
  assumes "tasks_wf ts"
  shows "flights_of ts k = Some f \<longleftrightarrow> (\<exists>i t. map_of ts i = Some t \<and> active t \<and> mt_key t = k \<and> f = task_flight t)"
proof
  assume "flights_of ts k = Some f"
  then obtain i t where "List.find (\<lambda>(i, t). mt_key t = k \<and> active t) ts = Some (i, t)" "f = task_flight t"
    by (auto simp: flights_of_def)
  then have "(i, t) \<in> set ts" "mt_key t = k" "active t" by (auto simp: find_Some_iff in_set_conv_nth)
  then show "\<exists>i t. map_of ts i = Some t \<and> active t \<and> mt_key t = k \<and> f = task_flight t"
    using assms \<open>f = task_flight t\<close> by (auto simp: tasks_wf_def)
next
  assume "\<exists>i t. map_of ts i = Some t \<and> active t \<and> mt_key t = k \<and> f = task_flight t"
  then obtain i t where t: "map_of ts i = Some t" "active t" "mt_key t = k" "f = task_flight t" by blast
  then have "List.find (\<lambda>(i, t). mt_key t = k \<and> active t) ts \<noteq> None"
    by (auto simp: find_None_iff dest!: map_of_SomeD)
  then obtain j u where f: "List.find (\<lambda>(i, t). mt_key t = k \<and> active t) ts = Some (j, u)" by auto
  then have "(j, u) \<in> set ts" "mt_key u = k" "active u" by (auto simp: find_Some_iff in_set_conv_nth)
  then have "map_of ts j = Some u" using assms by (simp add: tasks_wf_def)
  moreover from this have "j = i"
    using assms t \<open>mt_key u = k\<close> \<open>active u\<close> unfolding tasks_wf_def by metis
  ultimately show "flights_of ts k = Some f" using f t by (simp add: flights_of_def)
qed

lemma flights_of_None:
  "tasks_wf ts \<Longrightarrow> flights_of ts k = None \<longleftrightarrow> (\<forall>i t. map_of ts i = Some t \<longrightarrow> active t \<longrightarrow> mt_key t \<noteq> k)"
  using flights_of_iff [of ts k] by (metis not_None_eq)

text \<open>The three changes of the map of tasks.\<close>

lemma wf_keep:
  assumes wf: "tasks_wf ts" and t: "map_of ts i = Some t" and k: "mt_key t' = mt_key t" and a: "active t' \<longleftrightarrow> active t"
    and f: "active t \<Longrightarrow> task_flight t' = task_flight t"
  shows "tasks_wf (AList.update i t' ts)" and "flights_of (AList.update i t' ts) = flights_of ts"
proof -
  let ?ts = "AList.update i t' ts"
  have m: "map_of ?ts j = (if j = i then Some t' else map_of ts j)" for j by (simp add: update_conv')
  have uniq: "j = l" if h: "map_of ts j = Some u" "map_of ts l = Some v" "active u" "active v" "mt_key u = mt_key v" for j l u v
    using wf h unfolding tasks_wf_def by blast
  show wf': "tasks_wf ?ts"
    unfolding tasks_wf_def
  proof (intro conjI allI impI)
    show "distinct (map fst ?ts)" using wf by (simp add: tasks_wf_def distinct_update)
    fix j l u v
    assume "map_of ?ts j = Some u" "map_of ?ts l = Some v" "active u" "active v" "mt_key u = mt_key v"
    then show "j = l" using uniq [of j "if j = i then t else u" l "if l = i then t else v"] t k a unfolding m by (auto split: if_splits)
  qed
  show "flights_of ?ts = flights_of ts"
  proof
    fix q
    have "flights_of ?ts q = Some g \<longleftrightarrow> flights_of ts q = Some g" for g
      unfolding flights_of_iff [OF wf'] flights_of_iff [OF wf] m using t k a f by (metis option.inject)
    then show "flights_of ?ts q = flights_of ts q" by (metis not_Some_eq)
  qed
qed

lemma wf_end:
  assumes wf: "tasks_wf ts" and t: "map_of ts i = Some t" "active t" and t': "\<not> active t'"
  shows "tasks_wf (AList.update i t' ts)" and "flights_of (AList.update i t' ts) = (flights_of ts)(mt_key t := None)"
proof -
  let ?ts = "AList.update i t' ts"
  have m: "map_of ?ts j = (if j = i then Some t' else map_of ts j)" for j by (simp add: update_conv')
  show wf': "tasks_wf ?ts"
    using wf t' unfolding tasks_wf_def m by (auto simp: distinct_update split: if_splits)
  show "flights_of ?ts = (flights_of ts)(mt_key t := None)"
  proof
    fix q
    have "flights_of ?ts q = Some g \<longleftrightarrow> q \<noteq> mt_key t \<and> flights_of ts q = Some g" for g
      unfolding flights_of_iff [OF wf'] flights_of_iff [OF wf] m
      using t t' wf unfolding tasks_wf_def by (metis option.inject)
    then show "flights_of ?ts q = ((flights_of ts)(mt_key t := None)) q" by (metis fun_upd_apply not_Some_eq)
  qed
qed

lemma wf_new:
  assumes wf: "tasks_wf ts" and i: "map_of ts i = None" and t: "active t" and n: "flights_of ts (mt_key t) = None"
  shows "tasks_wf (AList.update i t ts)" and "flights_of (AList.update i t ts) = (flights_of ts)(mt_key t \<mapsto> task_flight t)"
proof -
  let ?ts = "AList.update i t ts"
  have m: "map_of ?ts j = (if j = i then Some t else map_of ts j)" for j by (simp add: update_conv')
  note no = n [unfolded flights_of_None [OF wf], rule_format]
  show wf': "tasks_wf ?ts"
    unfolding tasks_wf_def
  proof (intro conjI allI impI)
    show "distinct (map fst ?ts)" using wf by (simp add: tasks_wf_def distinct_update)
    fix j l u v
    assume h: "map_of ?ts j = Some u" "map_of ?ts l = Some v" "active u" "active v" "mt_key u = mt_key v"
    show "j = l"
    proof (cases "j = i \<or> l = i")
      case True
      then show ?thesis using h no [of j u] no [of l v] unfolding m by (auto split: if_splits)
    next
      case False
      then show ?thesis using h wf unfolding m tasks_wf_def by (auto split: if_splits)
    qed
  qed
  show "flights_of ?ts = (flights_of ts)(mt_key t \<mapsto> task_flight t)"
  proof
    fix q
    have "flights_of ?ts q = Some g \<longleftrightarrow> ((flights_of ts)(mt_key t \<mapsto> task_flight t)) q = Some g" for g
    proof (cases "q = mt_key t")
      case True
      then show ?thesis unfolding flights_of_iff [OF wf'] m using no t by (auto split: if_splits)
    next
      case False
      then have "flights_of ?ts q = Some g \<longleftrightarrow> flights_of ts q = Some g"
        unfolding flights_of_iff [OF wf'] flights_of_iff [OF wf] m using i by (metis option.distinct(1) option.inject)
      then show ?thesis using False by simp
    qed
    then show "flights_of ?ts q = ((flights_of ts)(mt_key t \<mapsto> task_flight t)) q" by (metis not_Some_eq)
  qed
qed

abbreviation "mm_rep s \<equiv> ce_rep (mm_engine s)"
abbreviation "mm_memory s \<equiv> ce_memory (mm_engine s)"

definition task_arrived :: "(cache_key \<Rightarrow> memory) \<Rightarrow> migration_manager \<Rightarrow> migration_task \<Rightarrow> bool" where
  "task_arrived data s t \<longleftrightarrow>
     (if mt_destination t = NVME then file_holds (loc_slot (mt_destination_loc t)) (data (mt_key t)) (mm_store s)
      else cm_load (At CPU (loc_slot (mt_destination_loc t))) (mm_memory s) = Inr (data (mt_key t)))"

definition task_ok :: "(cache_key \<Rightarrow> memory) \<Rightarrow> migration_manager \<Rightarrow> nat \<Rightarrow> migration_task \<Rightarrow> bool" where
  "task_ok data s tid t \<longleftrightarrow>
     mt_id t = tid \<and> tid < mm_next_id s \<and>
     (if terminal (mt_state t) then tid \<notin> set (mm_io_queue s) \<and> Some tid \<notin> set (mm_workers s)
      else if uses_cuda t then
        mt_state t = RUNNING \<and> mt_done t \<noteq> None \<and> tid \<notin> set (mm_io_queue s) \<and> Some tid \<notin> set (mm_workers s)
      else
        mt_done t = None \<and> {mt_source t, mt_destination t} = {CPU, NVME} \<and>
        meta_ok (mt_meta t) \<and> unat (fm_payload_size (mt_meta t)) = cm_bytes (mm_memory s) \<and>
        (if mt_state t = QUEUED
         then Some tid \<notin> set (mm_workers s) \<and> mt_io_result t = 0 \<and> (tid \<notin> set (mm_io_queue s) \<longrightarrow> mt_cancel_requested t)
         else tid \<notin> set (mm_io_queue s) \<and> (Some tid \<in> set (mm_workers s) \<longleftrightarrow> mt_io_result t = 0) \<and>
           (mt_io_result t > 0 \<and> \<not> mt_cancel_requested t \<longrightarrow> task_arrived data s t)))"

lemma task_ok_cong:
  assumes "mm_next_id s' = mm_next_id s" "(tid \<in> set (mm_io_queue s')) = (tid \<in> set (mm_io_queue s))"
    "(Some tid \<in> set (mm_workers s')) = (Some tid \<in> set (mm_workers s))" "cm_bytes (mm_memory s') = cm_bytes (mm_memory s)"
    "task_arrived data s' t = task_arrived data s t"
  shows "task_ok data s' tid t = task_ok data s tid t"
  by (simp only: task_ok_def assms)

definition files_ok :: "(cache_key \<Rightarrow> memory) \<Rightarrow> migration_manager \<Rightarrow> bool" where
  "files_ok data s \<longleftrightarrow>
     (\<forall>k x. mm_rep s NVME k = Some x \<longrightarrow> rp_state x = READY \<or> (\<exists>f. mm_flights s k = Some f \<and> fl_source f = NVME) \<longrightarrow>
        file_holds (loc_slot (rp_location x)) (data k) (mm_store s))"

definition queue_wf :: "migration_manager \<Rightarrow> bool" where
  "queue_wf s \<longleftrightarrow>
     distinct (mm_io_queue s) \<and> (\<forall>i \<in> set (mm_io_queue s). map_of (mm_tasks s) i \<noteq> None) \<and>
     (\<forall>i. Some i \<in> set (mm_workers s) \<longrightarrow> map_of (mm_tasks s) i \<noteq> None) \<and>
     (\<forall>w v i. w < length (mm_workers s) \<longrightarrow> v < length (mm_workers s) \<longrightarrow>
        mm_workers s ! w = Some i \<longrightarrow> mm_workers s ! v = Some i \<longrightarrow> w = v)"

definition mm_inv :: "(cache_key \<Rightarrow> memory) \<Rightarrow> migration_manager \<Rightarrow> bool" where
  "mm_inv data s \<longleftrightarrow>
     en_inv data (mm_flights s) (mm_engine s) \<and> tasks_wf (mm_tasks s) \<and> queue_wf s \<and> files_ok data s \<and>
     (\<forall>k. length (data k) = cm_bytes (mm_memory s)) \<and> cm_bytes (mm_memory s) \<le> u64_max \<and>
     (\<forall>tid t. map_of (mm_tasks s) tid = Some t \<longrightarrow> task_ok data s tid t)"

lemma mm_invD:
  assumes "mm_inv data s"
  shows "en_inv data (mm_flights s) (mm_engine s)" "tasks_wf (mm_tasks s)" "queue_wf s" "files_ok data s"
    "length (data k) = cm_bytes (mm_memory s)" "cm_bytes (mm_memory s) \<le> u64_max"
    "map_of (mm_tasks s) tid = Some t \<Longrightarrow> task_ok data s tid t"
  using assms by (simp_all add: mm_inv_def)

lemma task_flight_of:
  assumes "mm_inv data s" and "map_of (mm_tasks s) tid = Some t" and "active t"
  shows "mm_flights s (mt_key t) = Some (task_flight t)"
  using assms flights_of_iff [OF mm_invD(2) [OF assms(1)]] by (auto simp: mm_flights_def)

lemma task_flight_simps [simp]:
  "fl_source (task_flight t) = mt_source t" "fl_destination (task_flight t) = mt_destination t"
  "fl_source_loc (task_flight t) = mt_source_loc t" "fl_destination_loc (task_flight t) = mt_destination_loc t"
  "fl_event (task_flight t) = mt_done t"
  by (simp_all add: task_flight_def)

lemma task_held:
  assumes "mm_inv data s" and "map_of (mm_tasks s) tid = Some t" and "active t"
  shows "fl_held (ce_directory (mm_engine s)) (mt_key t) (task_flight t)"
  using en_invD(6) [OF mm_invD(1) [OF assms(1)] task_flight_of [OF assms]] by (simp add: fl_ok_def)

text \<open>Changes of the engine alone.\<close>

lemma mm_engine_change:
  assumes inv: "mm_inv data s" and e: "en_inv data (mm_flights s) e" and still: "fl_still (mm_flights s) (mm_engine s) e"
    and files: "\<And>k x. ce_rep e NVME k = Some x \<Longrightarrow> rp_state x = READY \<Longrightarrow>
      mm_rep s NVME k = Some x \<or> file_holds (loc_slot (rp_location x)) (data k) (mm_store s)"
  shows "mm_inv data (s\<lparr>mm_engine := e\<rparr>)"
proof -
  let ?s = "s\<lparr>mm_engine := e\<rparr>"
  note i = mm_invD [OF inv]
  have F: "mm_flights ?s = mm_flights s" by (simp add: mm_flights_def)
  have b: "cm_bytes (ce_memory e) = cm_bytes (mm_memory s)" using still by (simp add: fl_still_def)
  have "files_ok data ?s"
    unfolding files_ok_def F
  proof (intro allI impI)
    fix k x
    assume x: "mm_rep ?s NVME k = Some x" and h: "rp_state x = READY \<or> (\<exists>f. mm_flights s k = Some f \<and> fl_source f = NVME)"
    have "mm_rep s NVME k = Some x \<or> file_holds (loc_slot (rp_location x)) (data k) (mm_store s)"
    proof (cases "rp_state x = READY")
      case True
      then show ?thesis using files [of k x] x by simp
    next
      case False
      then obtain f where f: "mm_flights s k = Some f" "fl_source f = NVME" using h by blast
      then show ?thesis
        using en_invD(6) [OF i(1) f(1)] en_invD(6) [OF e f(1)] x by (auto simp: fl_ok_def fl_held_def)
    qed
    then show "file_holds (loc_slot (rp_location x)) (data k) (mm_store ?s)" using i(4) h by (auto simp: files_ok_def)
  qed
  moreover have "task_ok data ?s tid t" if t: "map_of (mm_tasks s) tid = Some t" for tid t
  proof -
    have "task_arrived data ?s t = task_arrived data s t"
      if a: "active t" "\<not> uses_cuda t" "mt_done t = None" "{mt_source t, mt_destination t} = {CPU, NVME}"
    proof (cases "mt_destination t = NVME")
      case False
      then have "mt_destination t = CPU" using a(4) by (auto simp: doubleton_eq_iff)
      moreover have "cm_load (fl_to (task_flight t)) (ce_memory e) = cm_load (fl_to (task_flight t)) (mm_memory s)"
        using still task_flight_of [OF inv t a(1)] a(3) unfolding fl_still_def by (metis task_flight_simps(5))
      ultimately have "cm_load (At CPU (loc_slot (mt_destination_loc t))) (ce_memory e) =
          cm_load (At CPU (loc_slot (mt_destination_loc t))) (mm_memory s)" by (simp add: fl_to_def)
      then show ?thesis using False by (simp add: task_arrived_def)
    qed (simp add: task_arrived_def)
    then show ?thesis using i(7) [OF t] b by (auto simp: task_ok_def)
  qed
  ultimately show ?thesis using i e F b by (simp add: mm_inv_def queue_wf_def)
qed

text \<open>Changes of one task that leave its flight alone.\<close>

lemma mm_put_keep:
  assumes inv: "mm_inv data s" and t: "map_of (mm_tasks s) tid = Some t"
    and k: "mt_key t' = mt_key t" and a: "active t' \<longleftrightarrow> active t" and f: "active t \<Longrightarrow> task_flight t' = task_flight t"
    and q: "set q \<subseteq> set (mm_io_queue s)" "set (mm_io_queue s) - {tid} \<subseteq> set q" "distinct q"
    and w: "length w = length (mm_workers s)" "\<And>j i. j < length w \<Longrightarrow> w ! j = Some i \<Longrightarrow> i \<noteq> tid \<Longrightarrow> mm_workers s ! j = Some i"
      "\<And>j i. j < length w \<Longrightarrow> mm_workers s ! j = Some i \<Longrightarrow> i \<noteq> tid \<Longrightarrow> w ! j = Some i"
      "\<And>j l. j < length w \<Longrightarrow> l < length w \<Longrightarrow> w ! j = Some tid \<Longrightarrow> w ! l = Some tid \<Longrightarrow> j = l"
    and ok: "task_ok data (s\<lparr>mm_io_queue := q, mm_workers := w\<rparr>) tid t'"
  shows "mm_inv data (mm_put tid t' (s\<lparr>mm_io_queue := q, mm_workers := w\<rparr>))"
proof -
  let ?s = "mm_put tid t' (s\<lparr>mm_io_queue := q, mm_workers := w\<rparr>)"
  note i = mm_invD [OF inv]
  note wf = wf_keep [OF i(2) t k a f]
  have F: "mm_flights ?s = mm_flights s" using wf(2) by (simp add: mm_flights_def mm_put_def)
  have m: "map_of (mm_tasks ?s) j = (if j = tid then Some t' else map_of (mm_tasks s) j)" for j
    by (simp add: mm_put_def update_conv')
  have sel: "mm_engine ?s = mm_engine s" "mm_store ?s = mm_store s" "mm_io_queue ?s = q" "mm_workers ?s = w"
    "mm_next_id ?s = mm_next_id s" by (simp_all add: mm_put_def)
  have arr: "task_arrived data ?s u = task_arrived data s u" "task_arrived data (s\<lparr>mm_io_queue := q, mm_workers := w\<rparr>) u = task_arrived data s u"
    for u by (simp_all add: task_arrived_def sel)
  have ws: "Some j \<in> set w \<longleftrightarrow> Some j \<in> set (mm_workers s)" if "j \<noteq> tid" for j
    using that w(1-3) by (metis in_set_conv_nth)
  have "queue_wf ?s"
    unfolding queue_wf_def sel m
  proof (intro conjI allI impI ballI)
    show "(if j = tid then Some t' else map_of (mm_tasks s) j) \<noteq> None" if "Some j \<in> set w" for j
      using that ws [of j] i(3) by (auto simp: queue_wf_def)
    fix j l x
    assume h: "j < length w" "l < length w" "w ! j = Some x" "w ! l = Some x"
    show "j = l"
    proof (cases "x = tid")
      case True
      then show ?thesis using w(4) h by blast
    next
      case False
      then have "mm_workers s ! j = Some x" "mm_workers s ! l = Some x" using w(2) h by blast+
      then show ?thesis using i(3) h w(1) unfolding queue_wf_def by metis
    qed
  qed (use q i(3) in \<open>auto simp: queue_wf_def\<close>)
  moreover have "task_ok data ?s j u" if u: "map_of (mm_tasks ?s) j = Some u" for j u
  proof (cases "j = tid")
    case True
    then have "u = t'" using u m by simp
    moreover have "task_ok data ?s tid t' = task_ok data (s\<lparr>mm_io_queue := q, mm_workers := w\<rparr>) tid t'"
      by (rule task_ok_cong) (simp_all add: sel arr)
    ultimately show ?thesis using ok True by simp
  next
    case False
    then have "map_of (mm_tasks s) j = Some u" using u m by simp
    from i(7) [OF this] have "task_ok data s j u" .
    moreover have "j \<in> set q \<longleftrightarrow> j \<in> set (mm_io_queue s)" using q False by blast
    moreover have "task_ok data ?s j u = task_ok data s j u"
      by (rule task_ok_cong) (simp_all only: sel arr ws [OF False] \<open>(j \<in> set q) = (j \<in> set (mm_io_queue s))\<close>)
    ultimately show ?thesis by simp
  qed
  moreover have "files_ok data ?s" using i(4) by (simp add: files_ok_def F sel)
  moreover have "tasks_wf (mm_tasks ?s)" using wf(1) by (simp add: mm_put_def)
  ultimately show ?thesis using i(1,5,6) F sel by (simp add: mm_inv_def)
qed

text \<open>
  The end of a task: its flight is over, the destination is published or gone, the source is
  READY again.
\<close>

lemma mm_end:
  assumes inv: "mm_inv data s" and t: "map_of (mm_tasks s) tid = Some t" "active t"
    and t': "mt_id t' = tid" "\<not> active t'" and idle: "tid \<notin> set (mm_io_queue s)" "Some tid \<notin> set (mm_workers s)"
    and d': "cd_inv d'" and pins: "cd_pins d' = (ce_pins (mm_engine s))(mt_key t \<mapsto> n)"
    and rep: "cd_rep d' = upd (upd (mm_rep s) (mt_destination t) (mt_key t) y) (mt_source t) (mt_key t)
      (Some \<lparr>rp_location = mt_source_loc t, rp_state = READY\<rparr>)"
    and y: "y = None \<or> y = Some \<lparr>rp_location = mt_destination_loc t, rp_state = READY\<rparr> \<and> st' = mm_store s \<and>
      (if mt_destination t = NVME then file_holds (loc_slot (mt_destination_loc t)) (data (mt_key t)) st'
       else cm_load (fl_to (task_flight t)) (mm_memory s) = Inr (data (mt_key t)))"
    and st': "\<And>j. mt_destination t \<noteq> NVME \<or> j \<noteq> loc_slot (mt_destination_loc t) \<Longrightarrow> cs_file j st' = cs_file j (mm_store s)"
    and cl: "clear (fl_from (task_flight t)) (ce_queue (mm_engine s))" "clear (fl_to (task_flight t)) (ce_queue (mm_engine s))"
  shows "mm_inv data (mm_put tid t' (s\<lparr>mm_engine := (mm_engine s)\<lparr>ce_directory := d'\<rparr>, mm_store := st'\<rparr>))"
proof -
  let ?k = "mt_key t" and ?f = "task_flight t"
  let ?e = "(mm_engine s)\<lparr>ce_directory := d'\<rparr>"
  let ?s = "mm_put tid t' (s\<lparr>mm_engine := ?e, mm_store := st'\<rparr>)"
  note i = mm_invD [OF inv]
  note fl = task_flight_of [OF inv t] and held = task_held [OF inv t]
  note wf = wf_end [OF i(2) t t'(2)]
  have F: "mm_flights ?s = (mm_flights s)(?k := None)" using wf(2) by (simp add: mm_flights_def mm_put_def)
  have m: "map_of (mm_tasks ?s) j = (if j = tid then Some t' else map_of (mm_tasks s) j)" for j
    by (simp add: mm_put_def update_conv')
  have sel: "mm_engine ?s = ?e" "mm_store ?s = st'" "mm_io_queue ?s = mm_io_queue s" "mm_workers ?s = mm_workers s"
    "mm_next_id ?s = mm_next_id s" "mm_memory ?s = mm_memory s" by (simp_all add: mm_put_def)
  have ne: "mt_source t \<noteq> mt_destination t" using held by (simp add: fl_held_def)
  have en: "en_inv data (mm_flights ?s) ?e"
    unfolding F
  proof (rule en_land [OF i(1) fl d' _ _ _ _ cl, of y "Some \<lparr>rp_location = mt_source_loc t, rp_state = READY\<rparr>"])
    show "cd_rep d' = upd (upd (mm_rep s) (fl_destination ?f) ?k y) (fl_source ?f) ?k (Some \<lparr>rp_location = mt_source_loc t, rp_state = READY\<rparr>)"
      using rep by simp
    show "rp_location z = fl_destination_loc ?f \<and> cm_load (fl_to ?f) (mm_memory s) = Inr (data ?k)"
      if "fl_destination ?f \<in> {GPU, CPU}" "y = Some z" "rp_state z = READY" for z
      using y that by (auto split: if_splits)
  qed (use pins in auto)
  have other: "file_holds (loc_slot (rp_location x)) (data k) st'"
    if x: "mm_rep s NVME k = Some x" and k: "k \<noteq> ?k" and h: "rp_state x = READY \<or> (\<exists>f. mm_flights s k = Some f \<and> fl_source f = NVME)"
    for k x
  proof -
    have "mt_destination t \<noteq> NVME \<or> loc_slot (rp_location x) \<noteq> loc_slot (mt_destination_loc t)"
      using held cd_slot_unique [OF en_invD(1) [OF i(1)] x, of ?k] k by (auto simp: fl_held_def)
    then have "cs_file (loc_slot (rp_location x)) st' = cs_file (loc_slot (rp_location x)) (mm_store s)" by (rule st')
    then show ?thesis using i(4) x h file_holds_cong unfolding files_ok_def by blast
  qed
  have "files_ok data ?s"
    unfolding files_ok_def F sel
  proof (intro allI impI)
    fix k x
    assume x: "ce_rep ?e NVME k = Some x" and h: "rp_state x = READY \<or> (\<exists>f. ((mm_flights s)(?k := None)) k = Some f \<and> fl_source f = NVME)"
    show "file_holds (loc_slot (rp_location x)) (data k) st'"
    proof (cases "k = ?k")
      case False
      then have "mm_rep s NVME k = Some x" using x rep by (auto split: if_splits)
      then show ?thesis using other False h by simp
    next
      case True
      then have ready: "rp_state x = READY" using h by simp
      consider (src) "mt_source t = NVME" | (dst) "mt_destination t = NVME" | (no) "mt_source t \<noteq> NVME" "mt_destination t \<noteq> NVME" by blast
      then show ?thesis
      proof cases
        case src
        then have loc: "rp_location x = mt_source_loc t" using x rep True by auto
        have "mm_rep s NVME ?k = Some \<lparr>rp_location = mt_source_loc t, rp_state = COPYING\<rparr>" using held src by (simp add: fl_held_def)
        then have "file_holds (loc_slot (mt_source_loc t)) (data ?k) (mm_store s)"
          using i(4) fl src unfolding files_ok_def by fastforce
        moreover have "cs_file j st' = cs_file j (mm_store s)" for j using st' ne src by simp
        ultimately show ?thesis using loc True file_holds_cong by metis
      next
        case dst
        then have "y = Some x" using x rep True ne by auto
        then show ?thesis using y dst True by auto
      next
        case no
        then have "mm_rep s NVME ?k = Some x" using x rep True by auto
        moreover have "cs_file j st' = cs_file j (mm_store s)" for j using st' no by simp
        ultimately show ?thesis using i(4) ready True file_holds_cong unfolding files_ok_def by metis
      qed
    qed
  qed
  moreover have "task_ok data ?s j u" if u: "map_of (mm_tasks ?s) j = Some u" for j u
  proof (cases "j = tid")
    case True
    have "tid < mm_next_id s" using i(7) [OF t(1)] by (simp add: task_ok_def)
    then have "task_ok data ?s tid t'" using t' idle by (simp add: task_ok_def sel)
    then show ?thesis using u m True by simp
  next
    case False
    then have u': "map_of (mm_tasks s) j = Some u" using u m by simp
    have "task_arrived data ?s u = task_arrived data s u" if a: "active u"
    proof (cases "mt_destination u = NVME")
      case True
      have "mt_key u \<noteq> ?k" using i(2) u' t a False unfolding tasks_wf_def by blast
      then have "mt_destination t \<noteq> NVME \<or> loc_slot (mt_destination_loc u) \<noteq> loc_slot (mt_destination_loc t)"
        using held task_held [OF inv u' a] True cd_slot_unique [OF en_invD(1) [OF i(1)], of NVME "mt_key u" _ ?k]
        by (fastforce simp: fl_held_def)
      then have "cs_file (loc_slot (mt_destination_loc u)) st' = cs_file (loc_slot (mt_destination_loc u)) (mm_store s)" by (rule st')
      from file_holds_cong [OF this] show ?thesis using True by (simp add: task_arrived_def sel)
    qed (simp add: task_arrived_def sel)
    note arr = this
    have "task_ok data ?s j u = task_ok data s j u"
    proof (cases "active u")
      case True
      show ?thesis by (rule task_ok_cong) (simp_all add: sel arr [OF True])
    next
      case False
      then have "terminal (mt_state u)" by blast
      then show ?thesis by (simp only: task_ok_def sel if_True)
    qed
    then show ?thesis using i(7) [OF u'] by simp
  qed
  moreover have "queue_wf ?s" using i(3) by (auto simp: queue_wf_def sel m)
  moreover have "tasks_wf (mm_tasks ?s)" using wf(1) by (simp add: mm_put_def)
  ultimately show ?thesis using i(5,6) en by (simp add: mm_inv_def sel)
qed

text \<open>What the code writes when a task ends, with the state of the task at that point.\<close>

definition mm_settled :: "migration_task \<Rightarrow> migration_state \<Rightarrow> replica option \<Rightarrow> migration_manager \<Rightarrow> migration_manager \<Rightarrow> bool" where
  "mm_settled t st y s s' \<longleftrightarrow>
     mm_tasks s' = AList.update (mt_id t) (t\<lparr>mt_state := st\<rparr>) (mm_tasks s) \<and>
     mm_memory s' = mm_memory s \<and> mm_io_queue s' = mm_io_queue s \<and> mm_workers s' = mm_workers s \<and>
     mm_rep s' = upd (upd (mm_rep s) (mt_destination t) (mt_key t) y) (mt_source t) (mt_key t)
       (Some \<lparr>rp_location = mt_source_loc t, rp_state = READY\<rparr>)"

lemma active_update [simp]: "active (t\<lparr>mt_state := st\<rparr>) \<longleftrightarrow> \<not> terminal st"
  by simp

lemma mm_id: "mm_inv data s \<Longrightarrow> map_of (mm_tasks s) tid = Some t \<Longrightarrow> mt_id t = tid"
  using mm_invD(7) by (fastforce simp: task_ok_def)

lemma cd_discard_task:
  assumes inv: "mm_inv data s" and t: "map_of (mm_tasks s) tid = Some t" "active t"
  shows "\<exists>d1 d2 d3 d4 n. cd_set_state (mt_key t) (mt_destination t) ERROR (ce_directory (mm_engine s)) = (Inr (), d1) \<and>
    cd_remove now (mt_key t) (mt_destination t) d1 = (Inr (), d2) \<and> cd_set_state (mt_key t) (mt_source t) READY d2 = (Inr (), d3) \<and>
    cd_unpin (mt_key t) d3 = (Inr (), d4) \<and> cd_inv d4 \<and> cd_pins d4 = (ce_pins (mm_engine s))(mt_key t \<mapsto> n) \<and>
    cd_rep d4 = upd (upd (mm_rep s) (mt_destination t) (mt_key t) None) (mt_source t) (mt_key t)
      (Some \<lparr>rp_location = mt_source_loc t, rp_state = READY\<rparr>)"
  using cd_discard [OF en_invD(1) [OF mm_invD(1) [OF inv]] task_held [OF inv t], of now] unfolding task_flight_simps by blast

lemma mm_cancelled_ok:
  assumes inv: "mm_inv data s" and t: "map_of (mm_tasks s) tid = Some t" "active t"
    and idle: "tid \<notin> set (mm_io_queue s)" "Some tid \<notin> set (mm_workers s)"
    and cl: "clear (fl_from (task_flight t)) (ce_queue (mm_engine s))" "clear (fl_to (task_flight t)) (ce_queue (mm_engine s))"
    and c: "mm_finalize_cancelled env now t s = (r, s')"
  shows "if mt_destination t = NVME \<and> cs_exists (loc_slot (mt_destination_loc t)) (mm_store s) \<and> \<not> io_unlink env
    then r = Inl ChunkStoreError \<and> s' = s
    else r = Inr () \<and> mm_inv data s' \<and> mm_settled t CANCELLED None s s'"
proof -
  let ?slot = "loc_slot (mt_destination_loc t)"
  define er where "er = (if mt_destination t = NVME \<and> cs_exists ?slot (mm_store s) then cs_erase env ?slot (mm_store s) else (Inr (), mm_store s))"
  obtain re st where er': "er = (re, st)" by (cases er)
  have st: "cs_file j st = cs_file j (mm_store s)" if "mt_destination t \<noteq> NVME \<or> j \<noteq> ?slot" for j
    using that er' cs_erase_other unfolding er_def by (auto split: if_splits)
  have re: "re = (if mt_destination t = NVME \<and> cs_exists ?slot (mm_store s) \<and> \<not> io_unlink env then Inl ChunkStoreError else Inr ())"
    and same: "isl re \<Longrightarrow> st = mm_store s"
    using er' unfolding er_def by (auto simp: cs_erase_def cs_exists_def split: option.splits if_splits)
  have run: "mm_finalize_cancelled env now t s = and_then (re, s\<lparr>mm_store := st\<rparr>) (\<lambda>_ s.
     and_then (mm_dir (cd_set_state (mt_key t) (mt_destination t) ERROR) s) (\<lambda>_ s.
     and_then (mm_dir (cd_remove now (mt_key t) (mt_destination t)) s) (\<lambda>_ s.
     and_then (mm_dir (cd_set_state (mt_key t) (mt_source t) READY) s) (\<lambda>_ s.
     and_then (mm_dir (cd_unpin (mt_key t)) s) (\<lambda>_ s.
       (Inr (), mm_put (mt_id t) (t\<lparr>mt_state := CANCELLED\<rparr>) s))))))"
    using er' unfolding er_def mm_finalize_cancelled_def by (auto split: if_splits)
  show ?thesis
  proof (cases "isl re")
    case True
    then show ?thesis using re same run c by auto
  next
    case False
    then have re': "re = Inr ()" by (cases re) simp_all
    obtain d1 d2 d3 d4 n where d: "cd_set_state (mt_key t) (mt_destination t) ERROR (ce_directory (mm_engine s)) = (Inr (), d1)"
      "cd_remove now (mt_key t) (mt_destination t) d1 = (Inr (), d2)" "cd_set_state (mt_key t) (mt_source t) READY d2 = (Inr (), d3)"
      "cd_unpin (mt_key t) d3 = (Inr (), d4)" and d4: "cd_inv d4" "cd_pins d4 = (ce_pins (mm_engine s))(mt_key t \<mapsto> n)"
      and rep: "cd_rep d4 = upd (upd (mm_rep s) (mt_destination t) (mt_key t) None) (mt_source t) (mt_key t)
        (Some \<lparr>rp_location = mt_source_loc t, rp_state = READY\<rparr>)" using cd_discard_task [OF inv t] by blast
    have id: "mt_id t = tid" using mm_id [OF inv t(1)] .
    have s': "r = Inr ()" "s' = mm_put tid (t\<lparr>mt_state := CANCELLED\<rparr>) (s\<lparr>mm_engine := (mm_engine s)\<lparr>ce_directory := d4\<rparr>, mm_store := st\<rparr>)"
      using c d by (auto simp: run re' mm_dir_def ce_dir_def id mm_put_def)
    have "mm_inv data s'"
      unfolding s' by (rule mm_end [OF inv t _ _ idle d4 rep _ st cl]) (auto simp: id terminal_def)
    moreover have "mm_settled t CANCELLED None s s'" by (simp add: mm_settled_def s' mm_put_def id rep)
    ultimately show ?thesis using s'(1) re unfolding re' by (simp split: if_splits)
  qed
qed

lemma mm_fail_ok:
  assumes inv: "mm_inv data s" and t: "map_of (mm_tasks s) tid = Some t" "active t"
    and idle: "tid \<notin> set (mm_io_queue s)" "Some tid \<notin> set (mm_workers s)"
    and cl: "clear (fl_from (task_flight t)) (ce_queue (mm_engine s))" "clear (fl_to (task_flight t)) (ce_queue (mm_engine s))"
  shows "\<exists>s'. mm_fail now (t\<lparr>mt_error := x\<rparr>) s = (Inr (), s') \<and> mm_inv data s' \<and> mm_settled (t\<lparr>mt_error := x\<rparr>) FAILED None s s'"
proof -
  obtain d1 d2 d3 d4 n where d: "cd_set_state (mt_key t) (mt_destination t) ERROR (ce_directory (mm_engine s)) = (Inr (), d1)"
    "cd_remove now (mt_key t) (mt_destination t) d1 = (Inr (), d2)" "cd_set_state (mt_key t) (mt_source t) READY d2 = (Inr (), d3)"
    "cd_unpin (mt_key t) d3 = (Inr (), d4)" and d4: "cd_inv d4" "cd_pins d4 = (ce_pins (mm_engine s))(mt_key t \<mapsto> n)"
    and rep: "cd_rep d4 = upd (upd (mm_rep s) (mt_destination t) (mt_key t) None) (mt_source t) (mt_key t)
      (Some \<lparr>rp_location = mt_source_loc t, rp_state = READY\<rparr>)" using cd_discard_task [OF inv t] by blast
  have id: "mt_id t = tid" using mm_id [OF inv t(1)] .
  let ?t = "t\<lparr>mt_error := x, mt_state := FAILED\<rparr>"
  let ?s = "mm_put tid ?t (s\<lparr>mm_engine := (mm_engine s)\<lparr>ce_directory := d4\<rparr>, mm_store := mm_store s\<rparr>)"
  have "mm_fail now (t\<lparr>mt_error := x\<rparr>) s = (Inr (), ?s)"
    using d by (simp add: mm_fail_def mm_dir_def ce_dir_def id mm_put_def)
  moreover have "mm_inv data ?s"
    by (rule mm_end [OF inv t _ _ idle d4 rep _ _ cl]) (auto simp: id terminal_def)
  moreover have "mm_settled (t\<lparr>mt_error := x\<rparr>) FAILED None s ?s" by (simp add: mm_settled_def mm_put_def id rep)
  ultimately show ?thesis by blast
qed

lemma mm_completed_ok:
  assumes inv: "mm_inv data s" and t: "map_of (mm_tasks s) tid = Some t" "active t" and nc: "\<not> mt_cancel_requested t"
    and idle: "tid \<notin> set (mm_io_queue s)" "Some tid \<notin> set (mm_workers s)"
    and cl: "clear (fl_from (task_flight t)) (ce_queue (mm_engine s))" "clear (fl_to (task_flight t)) (ce_queue (mm_engine s))"
    and here: "if mt_destination t = NVME then file_holds (loc_slot (mt_destination_loc t)) (data (mt_key t)) (mm_store s)
       else cm_load (fl_to (task_flight t)) (mm_memory s) = Inr (data (mt_key t))"
  shows "\<exists>s'. mm_finalize env now t s = (Inr (), s') \<and> mm_inv data s' \<and>
    mm_settled t COMPLETED (Some \<lparr>rp_location = mt_destination_loc t, rp_state = READY\<rparr>) s s'"
proof -
  let ?y = "Some \<lparr>rp_location = mt_destination_loc t, rp_state = READY\<rparr>"
  obtain d1 d2 d3 n where d: "cd_set_state (mt_key t) (mt_destination t) READY (ce_directory (mm_engine s)) = (Inr (), d1)"
    "cd_set_state (mt_key t) (mt_source t) READY d1 = (Inr (), d2)" "cd_unpin (mt_key t) d2 = (Inr (), d3)"
    and d3: "cd_inv d3" "cd_pins d3 = (ce_pins (mm_engine s))(mt_key t \<mapsto> n - 1)"
    and rep: "cd_rep d3 = upd (upd (mm_rep s) (mt_destination t) (mt_key t) ?y) (mt_source t) (mt_key t)
      (Some \<lparr>rp_location = mt_source_loc t, rp_state = READY\<rparr>)"
    using cd_publish [OF en_invD(1) [OF mm_invD(1) [OF inv]] task_held [OF inv t]] unfolding task_flight_simps by blast
  have id: "mt_id t = tid" using mm_id [OF inv t(1)] .
  let ?t = "t\<lparr>mt_state := COMPLETED\<rparr>"
  let ?s = "mm_put tid ?t (s\<lparr>mm_engine := (mm_engine s)\<lparr>ce_directory := d3\<rparr>, mm_store := mm_store s\<rparr>)"
  have "mm_finalize env now t s = (Inr (), ?s)"
    using d nc by (simp add: mm_finalize_def mm_dir_def ce_dir_def id mm_put_def)
  moreover have "mm_inv data ?s"
    by (rule mm_end [OF inv t _ _ idle d3 rep _ _ cl]) (use here in \<open>auto simp: id terminal_def\<close>)
  moreover have "mm_settled t COMPLETED ?y s ?s" by (simp add: mm_settled_def mm_put_def id rep)
  ultimately show ?thesis by blast
qed

section \<open>The life of a task\<close>

definition legal :: "migration_state \<Rightarrow> migration_state \<Rightarrow> bool" where
  "legal st st' \<longleftrightarrow> st' = st \<or> st = QUEUED \<and> (st' = RUNNING \<or> st' = CANCELLED) \<or> st = RUNNING \<and> terminal st'"

definition same_job :: "migration_task \<Rightarrow> migration_task \<Rightarrow> bool" where
  "same_job t t' \<longleftrightarrow> task_flight t' = task_flight t \<and> mt_key t' = mt_key t \<and> mt_priority t' = mt_priority t \<and>
     (mt_cancel_requested t \<longrightarrow> mt_cancel_requested t')"

definition moves :: "migration_manager \<Rightarrow> migration_manager \<Rightarrow> bool" where
  "moves s s' \<longleftrightarrow> (\<forall>tid t. map_of (mm_tasks s) tid = Some t \<longrightarrow>
     (\<exists>t'. map_of (mm_tasks s') tid = Some t' \<and> same_job t t' \<and> legal (mt_state t) (mt_state t')))"

lemma legal_refl [simp]: "legal st st"
  by (simp add: legal_def)

lemma legal_terminal: "terminal st \<Longrightarrow> legal st st' \<Longrightarrow> st' = st"
  by (auto simp: legal_def terminal_def)

lemma same_job_refl [simp]: "same_job t t"
  by (simp add: same_job_def)

lemma moves_tasks: "mm_tasks s' = mm_tasks s \<Longrightarrow> moves s s'"
  by (simp add: moves_def)

lemma moves_update:
  assumes "map_of (mm_tasks s) tid = Some t" and "mm_tasks s' = AList.update tid t' (mm_tasks s)"
    and "same_job t t'" and "legal (mt_state t) (mt_state t')"
  shows "moves s s'"
  using assms by (auto simp: moves_def update_conv')

lemma moves_new:
  assumes "map_of (mm_tasks s) tid = None" and "mm_tasks s' = AList.update tid t (mm_tasks s)"
  shows "moves s s'"
  using assms by (auto simp: moves_def update_conv')

lemma settled_task:
  assumes "mm_settled t st y s s'" and "mt_id t = tid"
  shows "map_of (mm_tasks s') tid = Some (t\<lparr>mt_state := st\<rparr>)"
  using assms by (simp add: mm_settled_def update_conv')

lemma settled_moves:
  assumes "mm_settled t' st y s s'" and "map_of (mm_tasks s) tid = Some t" and "mt_id t' = tid"
    and "legal (mt_state t) st" and "same_job t t'"
  shows "moves s s'"
  using assms by (intro moves_update [of s tid t s' "t'\<lparr>mt_state := st\<rparr>"]) (auto simp: mm_settled_def same_job_def task_flight_def)

lemma flight_levels:
  assumes "fl_ok data e k f" and "fl_event f = Some n"
  shows "fl_source f = GPU \<and> fl_destination f = CPU \<or> fl_source f = CPU \<and> fl_destination f = GPU"
proof -
  have "{fl_source f, fl_destination f} = {GPU, CPU}"
    using assms(1) unfolding fl_ok_def assms(2) option.case by (elim conjE)
  then show ?thesis by (simp only: doubleton_eq_iff)
qed

lemma task_levels:
  assumes "task_ok data s tid t" and "active t" and "\<not> uses_cuda t"
  shows "mt_destination t = NVME \<or> mt_destination t = CPU"
proof -
  have "{mt_source t, mt_destination t} = {CPU, NVME}"
    using assms(1) unfolding task_ok_def if_not_P [OF assms(2)] if_not_P [OF assms(3)] by (elim conjE)
  then show ?thesis by blast
qed

text \<open>A running task whose copy has ended, in whichever way, is off the queue, the workers and the stream.\<close>

lemma flight_clear:
  assumes inv: "mm_inv data s" and t: "map_of (mm_tasks s) tid = Some t" "active t"
    and d: "\<And>n. mt_done t = Some n \<Longrightarrow> ce_faulted (mm_engine s) \<or> event_done n (mm_engine s)"
  shows "clear (fl_from (task_flight t)) (ce_queue (mm_engine s))" "clear (fl_to (task_flight t)) (ce_queue (mm_engine s))"
proof -
  let ?e = "mm_engine s"
  note e = en_invD [OF mm_invD(1) [OF inv]]
  have f: "fl_ok data ?e (mt_key t) (task_flight t)" by (rule e(6) [OF task_flight_of [OF inv t]])
  have "clear (fl_from (task_flight t)) (ce_queue ?e) \<and> clear (fl_to (task_flight t)) (ce_queue ?e)"
  proof (cases "mt_done t")
    case None
    then show ?thesis using f unfolding fl_ok_def by simp
  next
    case (Some n)
    show ?thesis
    proof (cases "ce_faulted ?e")
      case True
      then show ?thesis using e(4) by simp
    next
      case False
      then have "arrives data n (mt_key t) (task_flight t) ?e" using f Some unfolding fl_ok_def by simp
      then show ?thesis using d [OF Some] False by (simp add: arrives_def pass_def)
    qed
  qed
  then show "clear (fl_from (task_flight t)) (ce_queue ?e)" "clear (fl_to (task_flight t)) (ce_queue ?e)" by blast+
qed

lemma running_idle:
  assumes inv: "mm_inv data s" and t: "map_of (mm_tasks s) tid = Some t" "mt_state t = RUNNING"
    and d: "\<not> uses_cuda t \<Longrightarrow> mt_io_result t \<noteq> 0"
  shows "tid \<notin> set (mm_io_queue s)" "Some tid \<notin> set (mm_workers s)"
proof -
  have ok: "task_ok data s tid t" by (rule mm_invD(7) [OF inv t(1)])
  have a: "\<not> terminal (mt_state t)" "mt_state t \<noteq> QUEUED" using t(2) by (simp_all add: terminal_def)
  show "tid \<notin> set (mm_io_queue s)" using ok a unfolding task_ok_def by (cases "uses_cuda t") simp_all
  show "Some tid \<notin> set (mm_workers s)" using ok a d unfolding task_ok_def by (cases "uses_cuda t") simp_all
qed

text \<open>What \<open>poll\<close> does to a running task, and what it needs to get there.\<close>

definition poll_ready :: "migration_task \<Rightarrow> copy_engine \<Rightarrow> bool" where
  "poll_ready t e \<longleftrightarrow> (case mt_done t of
     Some n \<Rightarrow> ce_faulted e \<or> event_done n e
   | None \<Rightarrow> mt_io_result t \<noteq> 0)"

definition poll_end :: "io \<Rightarrow> migration_task \<Rightarrow> migration_manager \<Rightarrow> migration_state res \<Rightarrow> migration_manager \<Rightarrow> bool" where
  "poll_end env t s r s' \<longleftrightarrow>
     (if (mt_done t \<noteq> None \<longrightarrow> ce_faulted (mm_engine s)) \<and> (mt_done t = None \<longrightarrow> mt_io_result t < 0)
      then r = Inr FAILED \<and> (\<exists>x. mm_settled (t\<lparr>mt_error := x\<rparr>) FAILED None s s')
      else if mt_cancel_requested t
      then (if mt_destination t = NVME \<and> cs_exists (loc_slot (mt_destination_loc t)) (mm_store s) \<and> \<not> io_unlink env
            then r = Inl ChunkStoreError \<and> s' = s
            else r = Inr CANCELLED \<and> mm_settled t CANCELLED None s s')
      else r = Inr COMPLETED \<and> mm_settled t COMPLETED (Some \<lparr>rp_location = mt_destination_loc t, rp_state = READY\<rparr>) s s')"

lemma mm_poll_ok:
  assumes inv: "mm_inv data s" and t: "map_of (mm_tasks s) tid = Some t" "mt_state t = RUNNING"
    and c: "mm_poll env now tid s = (r, s')"
  shows "mm_inv data s' \<and> (if poll_ready t (mm_engine s) then poll_end env t s r s' else r = Inr RUNNING \<and> s' = s)"
proof -
  have a: "active t" using t(2) by (simp add: terminal_def)
  have ok: "task_ok data s tid t" by (rule mm_invD(7) [OF inv t(1)])
  have dn: "mt_done t \<noteq> None \<longleftrightarrow> uses_cuda t"
    using ok a unfolding task_ok_def by (cases "uses_cuda t") simp_all
  have find: "mm_find tid s = Inr t" using t(1) by (simp add: mm_find_def)
  have id: "mt_id t = tid" by (rule mm_id [OF inv t(1)])
  have state: "mm_state tid u = Inr st" if "mm_settled v st y s u" "mt_id v = tid" for u v st y
    using settled_task [OF that] by (simp add: mm_state_def mm_find_def)
  show ?thesis
  proof (cases "poll_ready t (mm_engine s)")
    case False
    then show ?thesis
      using c inv t(2) dn find by (auto simp: mm_poll_def poll_ready_def event_query_def split: option.splits if_splits)
  next
    case ready: True
    have idle: "tid \<notin> set (mm_io_queue s)" "Some tid \<notin> set (mm_workers s)"
      using running_idle [OF inv t] ready dn by (auto simp: poll_ready_def split: option.splits)
    have cl: "clear (fl_from (task_flight t)) (ce_queue (mm_engine s))" "clear (fl_to (task_flight t)) (ce_queue (mm_engine s))"
      by (rule flight_clear [OF inv t(1) a]; use ready in \<open>simp add: poll_ready_def\<close>)+
    note fail = mm_fail_ok [OF inv t(1) a idle cl, of now]
    show ?thesis
    proof (cases "(mt_done t \<noteq> None \<longrightarrow> ce_faulted (mm_engine s)) \<and> (mt_done t = None \<longrightarrow> mt_io_result t < 0)")
      case bad: True
      have "\<exists>x. mm_poll env now tid s = and_then (mm_fail now (t\<lparr>mt_error := x\<rparr>) s) (\<lambda>_ s. (mm_state tid s, s))"
      proof (cases "mt_done t")
        case None
        then have "mm_poll env now tid s = and_then (mm_fail now (t\<lparr>mt_error := mt_error t\<rparr>) s) (\<lambda>_ s. (mm_state tid s, s))"
          using bad find t(2) dn by (auto simp: mm_poll_def)
        then show ?thesis by blast
      next
        case (Some n)
        then have "mm_poll env now tid s = and_then (mm_fail now (t\<lparr>mt_error := Some RuntimeError\<rparr>) s) (\<lambda>_ s. (mm_state tid s, s))"
          using bad find t(2) dn by (auto simp: mm_poll_def event_query_def)
        then show ?thesis by blast
      qed
      then obtain x where run: "mm_poll env now tid s = and_then (mm_fail now (t\<lparr>mt_error := x\<rparr>) s) (\<lambda>_ s. (mm_state tid s, s))" by blast
      obtain u where u: "mm_fail now (t\<lparr>mt_error := x\<rparr>) s = (Inr (), u)" "mm_inv data u" "mm_settled (t\<lparr>mt_error := x\<rparr>) FAILED None s u"
        using fail [of x] by blast
      have "mm_state tid u = Inr FAILED" using state [OF u(3)] id by simp
      then have "r = Inr FAILED" "s' = u" using c run u(1) by simp_all
      then show ?thesis using u ready bad unfolding poll_end_def by auto
    next
      case good: False
      have run: "mm_poll env now tid s = and_then (mm_finalize env now t s) (\<lambda>_ s. (mm_state tid s, s))"
        using good ready find t(2) dn
        by (cases "mt_done t") (auto simp: mm_poll_def event_query_def poll_ready_def)
      show ?thesis
      proof (cases "mt_cancel_requested t")
        case cr: True
        obtain q u where q: "mm_finalize_cancelled env now t s = (q, u)" by (metis surj_pair)
        note z = mm_cancelled_ok [OF inv t(1) a idle cl q]
        show ?thesis
        proof (cases "mt_destination t = NVME \<and> cs_exists (loc_slot (mt_destination_loc t)) (mm_store s) \<and> \<not> io_unlink env")
          case True
          then have "r = Inl ChunkStoreError" "s' = s" using c run q z cr by (simp_all add: mm_finalize_def)
          then show ?thesis using inv ready good cr True unfolding poll_end_def by simp
        next
          case False
          then have qu: "q = Inr ()" "mm_inv data u" "mm_settled t CANCELLED None s u" using z by (simp_all split: if_splits)
          have "mm_state tid u = Inr CANCELLED" by (rule state [OF qu(3) id])
          then have "r = Inr CANCELLED" "s' = u" using c run q qu(1) cr by (simp_all add: mm_finalize_def)
          then show ?thesis using qu ready good cr False unfolding poll_end_def by simp
        qed
      next
        case nc: False
        have here: "if mt_destination t = NVME then file_holds (loc_slot (mt_destination_loc t)) (data (mt_key t)) (mm_store s)
            else cm_load (fl_to (task_flight t)) (mm_memory s) = Inr (data (mt_key t))"
        proof (cases "mt_done t")
          case None
          then have nu: "\<not> uses_cuda t" using dn by blast
          have "mt_io_result t > 0" using good ready None by (auto simp: poll_ready_def)
          have lv: "mt_destination t = NVME \<or> mt_destination t = CPU" by (rule task_levels [OF ok a nu])
          have arr: "task_arrived data s t"
            using ok a nu nc t(2) \<open>mt_io_result t > 0\<close> unfolding task_ok_def by simp
          show ?thesis using arr lv by (auto simp: task_arrived_def fl_to_def)
        next
          case (Some n)
          then have ev: "\<not> ce_faulted (mm_engine s)" "event_done n (mm_engine s)" using good ready by (auto simp: poll_ready_def)
          have "mt_destination t \<noteq> NVME"
            using flight_levels [OF en_invD(6) [OF mm_invD(1) [OF inv] task_flight_of [OF inv t(1) a]], of n] Some by auto
          then show ?thesis using en_arrived(1) [OF mm_invD(1) [OF inv] task_flight_of [OF inv t(1) a] _ ev] Some by simp
        qed
        obtain u where u: "mm_finalize env now t s = (Inr (), u)" "mm_inv data u"
          "mm_settled t COMPLETED (Some \<lparr>rp_location = mt_destination_loc t, rp_state = READY\<rparr>) s u"
          using mm_completed_ok [OF inv t(1) a nc idle cl here] by blast
        have "mm_state tid u = Inr COMPLETED" by (rule state [OF u(3) id])
        then have "r = Inr COMPLETED" "s' = u" using c run u(1) by simp_all
        then show ?thesis using u ready good nc unfolding poll_end_def by simp
      qed
    qed
  qed
qed

lemma poll_end_cases:
  assumes p: "poll_end env t s r s'" and t: "map_of (mm_tasks s) tid = Some t" "mt_state t = RUNNING" "mt_id t = tid"
  shows "moves s s' \<and> mm_workers s' = mm_workers s \<and> (r = Inl ChunkStoreError \<and> s' = s \<and> \<not> io_unlink env \<or>
    (\<exists>st t'. r = Inr st \<and> terminal st \<and> map_of (mm_tasks s') tid = Some t' \<and> mt_state t' = st))"
proof -
  have "moves s s' \<and> mm_workers s' = mm_workers s \<and> (\<exists>t'. map_of (mm_tasks s') tid = Some t' \<and> mt_state t' = st)"
    if h: "mm_settled (t\<lparr>mt_error := x\<rparr>) st y s s' \<or> mm_settled t st y s s'" "terminal st" for x st y
  proof -
    obtain v where v: "mm_settled v st y s s'" "mt_id v = tid" "same_job t v" using h(1) t(3) by (auto simp: same_job_def task_flight_def)
    have "mm_workers s' = mm_workers s" using v(1) by (simp add: mm_settled_def)
    then show ?thesis using settled_moves [OF v(1) t(1) v(2) _ v(3)] settled_task [OF v(1,2)] h(2) t(2) by (simp add: legal_def)
  qed
  note fin = this
  have "r = Inl ChunkStoreError \<and> s' = s \<and> \<not> io_unlink env \<or>
      (\<exists>st x y. r = Inr st \<and> terminal st \<and> (mm_settled (t\<lparr>mt_error := x\<rparr>) st y s s' \<or> mm_settled t st y s s'))"
    using p unfolding poll_end_def terminal_def by (metis (no_types, lifting))
  then show ?thesis using fin by (elim disjE exE conjE) (simp_all add: moves_tasks, blast+)
qed

lemma poll_keeps:
  assumes inv: "mm_inv data s" and c: "mm_poll env now tid s = (r, s')"
  shows "mm_inv data s' \<and> moves s s' \<and> mm_workers s' = mm_workers s"
proof (cases "\<exists>t. map_of (mm_tasks s) tid = Some t \<and> mt_state t = RUNNING")
  case True
  then obtain t where t: "map_of (mm_tasks s) tid = Some t" "mt_state t = RUNNING" by blast
  note p = mm_poll_ok [OF inv t c]
  show ?thesis
  proof (cases "poll_ready t (mm_engine s)")
    case True
    then have "mm_inv data s'" "poll_end env t s r s'" using p by simp_all
    then show ?thesis using poll_end_cases [OF _ t mm_id [OF inv t(1)]] by blast
  next
    case False
    then show ?thesis using p inv by (simp add: moves_tasks)
  qed
next
  case False
  then have "s' = s" using c by (auto simp: mm_poll_def mm_find_def split: option.splits if_splits)
  then show ?thesis using inv by (simp add: moves_tasks)
qed

lemma wait_engine:
  assumes inv: "mm_inv data s" and e: "event_synchronize senv n (mm_engine s) = (q, e)"
  shows "mm_inv data (s\<lparr>mm_engine := e\<rparr>)"
proof -
  note i = mm_invD(1) [OF inv]
  show ?thesis
    by (rule mm_engine_change [OF inv _ still_event_sync [OF i e]]) (use en_event_sync [OF i e] in auto)
qed

lemma wait_keeps:
  assumes inv: "mm_inv data s" and c: "mm_wait senv env now tid s = (r, s')"
  shows "mm_inv data s' \<and> moves s s' \<and> mm_workers s' = mm_workers s"
proof -
  have m: "moves s s'" if "moves (s\<lparr>mm_engine := e\<rparr>) s'" for e using that by (simp add: moves_def)
  have poll: "mm_inv data s'" "moves s s'" "mm_workers s' = mm_workers s"
    if "and_then (mm_poll env now tid (s\<lparr>mm_engine := e\<rparr>)) (\<lambda>st s. (Inr (Some st), s)) = (r, s')" "mm_inv data (s\<lparr>mm_engine := e\<rparr>)" for e
  proof -
    obtain q u where q: "mm_poll env now tid (s\<lparr>mm_engine := e\<rparr>) = (q, u)" by (metis surj_pair)
    have "s' = u" using that(1) q by (cases q) simp_all
    then show "mm_inv data s'" "moves s s'" "mm_workers s' = mm_workers s" using poll_keeps [OF that(2) q] m by auto
  qed
  have self: "s\<lparr>mm_engine := mm_engine s\<rparr> = s" by simp
  note poll0 = poll [of "mm_engine s", unfolded self]
  show ?thesis
    using c wait_engine [OF inv] poll poll0 inv
    by (auto simp: mm_wait_def moves_tasks split: sum.splits if_splits option.splits prod.splits)
qed

text \<open>\<open>wait\<close> on a running task whose copy can end: it returns a terminal state.\<close>

lemma wait_returns:
  assumes inv: "mm_inv data s" and t: "map_of (mm_tasks s) tid = Some t"
    and st: "mt_state t \<noteq> QUEUED" "mt_state t = RUNNING \<Longrightarrow> \<not> uses_cuda t \<Longrightarrow> mt_io_result t \<noteq> 0"
    and ok: "\<not> ce_faulted (mm_engine s)" "sa_event_sync senv" "io_unlink env"
  shows "\<exists>st s'. mm_wait senv env now tid s = (Inr (Some st), s') \<and> terminal st"
proof (cases "mt_state t = RUNNING")
  case False
  then have "terminal (mt_state t)" using st(1) by (cases "mt_state t") (simp_all add: terminal_def)
  then show ?thesis using t by (simp add: mm_wait_def mm_find_def)
next
  case run: True
  have a: "active t" using run by (simp add: terminal_def)
  have tok: "task_ok data s tid t" by (rule mm_invD(7) [OF inv t])
  have poll: "\<exists>st s'. mm_poll env now tid u = (Inr st, s') \<and> terminal st"
    if u: "mm_inv data u" "mm_tasks u = mm_tasks s" "poll_ready t (mm_engine u)" for u
  proof -
    have t': "map_of (mm_tasks u) tid = Some t" using t u(2) by simp
    obtain r s' where r: "mm_poll env now tid u = (r, s')" by (metis surj_pair)
    have "poll_end env t u r s'" using mm_poll_ok [OF u(1) t' run r] u(3) by simp
    then show ?thesis using r poll_end_cases [OF _ t' run mm_id [OF inv t]] ok(3) by blast
  qed
  show ?thesis
  proof (cases "uses_cuda t")
    case False
    have "mt_done t = None" using tok False unfolding task_ok_def if_not_P [OF a] if_not_P [OF False] by (elim conjE)
    then have "poll_ready t (mm_engine s)" using st(2) [OF run False] by (simp add: poll_ready_def)
    then show ?thesis using poll [OF inv refl] st(2) [OF run False] False t run
      by (auto simp: mm_wait_def mm_find_def terminal_def)
  next
    case True
    then obtain n where n: "mt_done t = Some n" using tok a unfolding task_ok_def by auto
    obtain q e where e: "event_synchronize senv n (mm_engine s) = (q, e)" by (metis surj_pair)
    note es = en_event_sync [OF mm_invD(1) [OF inv] e]
    have q: "q = Inr ()" "event_done n e" using es ok by auto
    have "poll_ready t e" using n q by (simp add: poll_ready_def)
    then obtain st s' where "mm_poll env now tid (s\<lparr>mm_engine := e\<rparr>) = (Inr st, s')" "terminal st"
      using poll [OF wait_engine [OF inv e]] by auto
    then show ?thesis using True n e q t run by (auto simp: mm_wait_def mm_find_def terminal_def)
  qed
qed

text \<open>A request to cancel changes nothing but the flag; a queued task may leave the queue with it.\<close>

lemma request_cancel:
  assumes inv: "mm_inv data s" and t: "map_of (mm_tasks s) tid = Some t" "active t"
    and q: "q = mm_io_queue s \<or> mt_state t = QUEUED \<and> q = remove1 tid (mm_io_queue s)"
  shows "mm_inv data (mm_put tid (t\<lparr>mt_cancel_requested := True\<rparr>) (s\<lparr>mm_io_queue := q\<rparr>))"
proof -
  let ?t = "t\<lparr>mt_cancel_requested := True\<rparr>"
  have self: "s\<lparr>mm_io_queue := q, mm_workers := mm_workers s\<rparr> = s\<lparr>mm_io_queue := q\<rparr>" by simp
  have d: "distinct (mm_io_queue s)" using mm_invD(3) [OF inv] by (simp add: queue_wf_def)
  have ok: "task_ok data s tid t" by (rule mm_invD(7) [OF inv t(1)])
  have sub: "tid \<in> set q \<Longrightarrow> tid \<in> set (mm_io_queue s)" using q d by auto
  have same: "task_arrived data (s\<lparr>mm_io_queue := q\<rparr>) ?t = task_arrived data s t" by (simp add: task_arrived_def)
  have u: "uses_cuda ?t = uses_cuda t" by (simp add: uses_cuda_def)
  have "task_ok data (s\<lparr>mm_io_queue := q\<rparr>) tid ?t"
  proof (cases "uses_cuda t")
    case True
    then show ?thesis using ok t(2) sub u unfolding task_ok_def by simp blast
  next
    case False
    show ?thesis
    proof (cases "mt_state t = QUEUED")
      case True
      then show ?thesis using ok t(2) False u unfolding task_ok_def by simp
    next
      case nq: False
      then have "q = mm_io_queue s" using q by blast
      then show ?thesis using ok t(2) False nq u unfolding task_ok_def by simp
    qed
  qed
  then have ok': "task_ok data (s\<lparr>mm_io_queue := q, mm_workers := mm_workers s\<rparr>) tid ?t" by (simp only: self)
  have inj: "j < length (mm_workers s) \<Longrightarrow> l < length (mm_workers s) \<Longrightarrow> mm_workers s ! j = Some tid \<Longrightarrow>
      mm_workers s ! l = Some tid \<Longrightarrow> j = l" for j l
    using mm_invD(3) [OF inv] unfolding queue_wf_def by blast
  have qs: "set q \<subseteq> set (mm_io_queue s)" "set (mm_io_queue s) - {tid} \<subseteq> set q" "distinct q"
    using q d by (auto simp: set_remove1_eq)
  have "mm_inv data (mm_put tid ?t (s\<lparr>mm_io_queue := q, mm_workers := mm_workers s\<rparr>))"
    by (rule mm_put_keep [OF inv t(1) _ _ _ qs refl _ _ inj ok']) (simp_all add: task_flight_def)
  then show ?thesis by (simp only: self)
qed

lemma mm_cancel_ok:
  assumes inv: "mm_inv data s" and t: "map_of (mm_tasks s) tid = Some t" and c: "mm_cancel env now tid s = (r, s')"
  shows "mm_inv data s' \<and> moves s s' \<and> mm_workers s' = mm_workers s \<and>
    (if terminal (mt_state t) then r = Inr (Some False) \<and> s' = s
     else if mt_state t = RUNNING then r = Inr (Some True) \<and> s' = mm_put tid (t\<lparr>mt_cancel_requested := True\<rparr>) s
     else if tid \<notin> set (mm_io_queue s) then r = Inr None \<and> s' = s
     else if mt_destination t = NVME \<and> cs_exists (loc_slot (mt_destination_loc t)) (mm_store s) \<and> \<not> io_unlink env
     then r = Inl ChunkStoreError \<and> s' = mm_put tid (t\<lparr>mt_cancel_requested := True\<rparr>) (s\<lparr>mm_io_queue := remove1 tid (mm_io_queue s)\<rparr>)
     else r = Inr (Some True) \<and> mm_io_queue s' = remove1 tid (mm_io_queue s) \<and>
       (\<exists>t'. map_of (mm_tasks s') tid = Some t' \<and> mt_state t' = CANCELLED))"
proof -
  let ?t = "t\<lparr>mt_cancel_requested := True\<rparr>"
  have find: "mm_find tid s = Inr t" using t by (simp add: mm_find_def)
  have ws: "mm_workers (mm_put tid ?t (s\<lparr>mm_io_queue := q\<rparr>)) = mm_workers s" "mm_workers (mm_put tid ?t s) = mm_workers s" for q
    by (simp_all add: mm_put_def)
  have job: "same_job t ?t" "legal (mt_state t) (mt_state ?t)" by (simp_all add: same_job_def task_flight_def)
  have mv: "moves s (mm_put tid ?t (s\<lparr>mm_io_queue := q\<rparr>))" for q
    by (rule moves_update [OF t _ job]) (simp add: mm_put_def)
  show ?thesis
  proof (cases "terminal (mt_state t)")
    case True
    then show ?thesis using c find inv by (simp add: mm_cancel_def moves_tasks)
  next
    case a: False
    have s1: "mm_inv data (mm_put tid ?t s)" using request_cancel [OF inv t a, of "mm_io_queue s"] by simp
    have m1: "moves s (mm_put tid ?t s)" using mv [of "mm_io_queue s"] by simp
    show ?thesis
    proof (cases "mt_state t = RUNNING")
      case True
      then show ?thesis using c find a s1 m1 ws by (simp add: mm_cancel_def)
    next
      case False
      then have qd: "mt_state t = QUEUED" using a by (cases "mt_state t") (simp_all add: terminal_def)
      have ok: "task_ok data s tid t" by (rule mm_invD(7) [OF inv t])
      have nu: "\<not> uses_cuda t" using ok qd a unfolding task_ok_def by auto
      have off: "tid \<notin> set (mm_io_queue s) \<Longrightarrow> mt_cancel_requested t" and nw: "Some tid \<notin> set (mm_workers s)" and dn: "mt_done t = None"
        using ok a qd nu unfolding task_ok_def by simp_all
      show ?thesis
      proof (cases "tid \<in> set (mm_io_queue s)")
        case False
        then have "?t = t" using off by simp
        moreover have "mm_put tid t s = s"
          using t by (simp add: mm_put_def AList.update_triv)
        ultimately show ?thesis using c find a qd False inv by (simp add: mm_cancel_def moves_tasks)
      next
        case True
        let ?s = "mm_put tid ?t (s\<lparr>mm_io_queue := remove1 tid (mm_io_queue s)\<rparr>)"
        have i: "mm_inv data ?s" by (rule request_cancel [OF inv t a]) (use qd in simp)
        have t': "map_of (mm_tasks ?s) tid = Some ?t" by (simp add: mm_put_def update_conv')
        have a': "active ?t" using a by simp
        have idle: "tid \<notin> set (mm_io_queue ?s)" "Some tid \<notin> set (mm_workers ?s)"
          using nw mm_invD(3) [OF inv] by (auto simp: mm_put_def queue_wf_def)
        obtain q u where q: "mm_finalize_cancelled env now ?t ?s = (q, u)" by (metis surj_pair)
        have sw: "s\<lparr>mm_tasks := AList.update tid ?t (mm_tasks s), mm_io_queue := remove1 tid (mm_io_queue s)\<rparr> = ?s"
          by (simp add: mm_put_def)
        have run: "and_then (q, u) (\<lambda>_ s. (Inr (Some True), s)) = (r, s')"
          using c find a qd True q [folded sw] by (simp add: mm_cancel_def Let_def mm_put_def)
        note z = mm_cancelled_ok [OF i t' a' idle flight_clear [OF i t' a'] q]
        have st: "mm_store ?s = mm_store s" by (simp add: mm_put_def)
        show ?thesis
        proof (cases "mt_destination t = NVME \<and> cs_exists (loc_slot (mt_destination_loc t)) (mm_store s) \<and> \<not> io_unlink env")
          case bad: True
          then have "q = Inl ChunkStoreError" "u = ?s" using z dn st by simp_all
          then show ?thesis using run i mv [of "remove1 tid (mm_io_queue s)"] ws(1) [of "remove1 tid (mm_io_queue s)"] bad a qd True by auto
        next
          case False
          then have z': "q = Inr ()" "mm_inv data u" "mm_settled ?t CANCELLED None ?s u" using z dn st by (simp_all split: if_splits)
          have id: "mt_id ?t = tid" using mm_id [OF inv t] by simp
          have "moves s u"
            by (rule moves_update [OF t, of _ "?t\<lparr>mt_state := CANCELLED\<rparr>"])
              (use z'(3) id qd in \<open>auto simp: mm_settled_def mm_put_def same_job_def task_flight_def legal_def\<close>)
          moreover have "mm_io_queue u = remove1 tid (mm_io_queue s)" "mm_workers u = mm_workers s"
            using z'(3) by (simp_all add: mm_settled_def mm_put_def)
          moreover have "r = Inr (Some True)" "s' = u" using run z'(1) by simp_all
          ultimately show ?thesis using z'(2) settled_task [OF z'(3) id] False a qd True by auto
        qed
      qed
    qed
  qed
qed

text \<open>The worker takes the oldest of the most urgent tasks.\<close>

definition sooner :: "migration_manager \<Rightarrow> nat \<Rightarrow> nat \<Rightarrow> bool" where
  "sooner s i j \<longleftrightarrow> mm_priority i s > mm_priority j s \<or> mm_priority i s = mm_priority j s \<and> i \<le> j"

lemma foldl_best:
  assumes pick: "\<And>b x. f b x = b \<or> f b x = x" and best: "\<And>b x. R (f b x) b" "\<And>b x. R (f b x) x"
    and R: "\<And>x. R x x" "\<And>x y z. R x y \<Longrightarrow> R y z \<Longrightarrow> R x z"
  shows "foldl f b q \<in> insert b (set q) \<and> (\<forall>i \<in> insert b (set q). R (foldl f b q) i)"
proof (induction q arbitrary: b)
  case Nil
  show ?case by (simp add: R)
next
  case (Cons x q)
  have m: "foldl f (f b x) q \<in> insert (f b x) (set q)" using Cons.IH by blast
  have r: "R (foldl f (f b x) q) i" if "i \<in> insert (f b x) (set q)" for i using Cons.IH that by blast
  have "R (foldl f (f b x) q) (f b x)" by (rule r) simp
  then have "R (foldl f (f b x) q) b" "R (foldl f (f b x) q) x" using R(2) best by blast+
  then show ?case using m r pick [of b x] by auto
qed

lemma best_loop:
  assumes "f = (\<lambda>best it. if mm_priority it s > mm_priority best s \<or> mm_priority it s = mm_priority best s \<and> it < best
      then it else best)"
  shows "foldl f b q \<in> insert b (set q) \<and> (\<forall>i \<in> insert b (set q). sooner s (foldl f b q) i)"
  by (rule foldl_best) (auto simp: assms sooner_def)

lemma mm_best:
  assumes "mm_io_queue s \<noteq> []"
  shows "mm_best s \<in> set (mm_io_queue s)" "i \<in> set (mm_io_queue s) \<Longrightarrow> sooner s (mm_best s) i"
  using best_loop [OF refl, of s "hd (mm_io_queue s)" "mm_io_queue s"] assms by (simp_all add: mm_best_def insert_absorb)

lemma queued_task:
  assumes inv: "mm_inv data s" and q: "tid \<in> set (mm_io_queue s)" and t: "map_of (mm_tasks s) tid = Some t"
  shows "mt_state t = QUEUED" "\<not> uses_cuda t" "Some tid \<notin> set (mm_workers s)" "mt_io_result t = 0"
proof -
  have ok: "task_ok data s tid t" by (rule mm_invD(7) [OF inv t])
  have a: "active t" using ok q unfolding task_ok_def by auto
  show u: "\<not> uses_cuda t" using ok q a unfolding task_ok_def by auto
  show st: "mt_state t = QUEUED" by (rule ccontr) (use ok q a u in \<open>simp add: task_ok_def\<close>)
  show "Some tid \<notin> set (mm_workers s)" "mt_io_result t = 0" using ok a u st unfolding task_ok_def by simp_all
qed

lemma worker_take_ok:
  assumes inv: "mm_inv data s" and w: "w < length (mm_workers s)" "mm_workers s ! w = None" and q: "mm_io_queue s \<noteq> []"
  shows "\<exists>t. map_of (mm_tasks s) (mm_best s) = Some t \<and> mt_state t = QUEUED \<and>
    mm_worker_take w s = mm_put (mm_best s) (t\<lparr>mt_state := RUNNING\<rparr>)
      (s\<lparr>mm_io_queue := remove1 (mm_best s) (mm_io_queue s), mm_workers := (mm_workers s)[w := Some (mm_best s)]\<rparr>) \<and>
    mm_inv data (mm_worker_take w s) \<and> moves s (mm_worker_take w s)"
proof -
  let ?i = "mm_best s" and ?q = "remove1 (mm_best s) (mm_io_queue s)" and ?w = "(mm_workers s)[w := Some (mm_best s)]"
  note qi = mm_best(1) [OF q]
  obtain t where t: "map_of (mm_tasks s) ?i = Some t" using mm_invD(3) [OF inv] qi unfolding queue_wf_def by blast
  note qt = queued_task [OF inv qi t]
  let ?t = "t\<lparr>mt_state := RUNNING\<rparr>"
  have run: "mm_worker_take w s = mm_put ?i ?t (s\<lparr>mm_io_queue := ?q, mm_workers := ?w\<rparr>)"
    using t by (simp add: mm_worker_take_def Let_def)
  have a: "active t" using qt(1) by (simp add: terminal_def)
  have a': "active ?t \<longleftrightarrow> active t" using a by (simp add: terminal_def)
  have ok: "task_ok data s ?i t" by (rule mm_invD(7) [OF inv t])
  have d: "distinct (mm_io_queue s)" using mm_invD(3) [OF inv] by (simp add: queue_wf_def)
  have here: "Some ?i \<in> set ?w" using w(1) by (rule set_update_memI)
  have "uses_cuda ?t = uses_cuda t" by (simp add: uses_cuda_def)
  then have ok': "task_ok data (s\<lparr>mm_io_queue := ?q, mm_workers := ?w\<rparr>) ?i ?t"
    using ok a qt d here by (simp add: task_ok_def terminal_def)
  have qs: "set ?q \<subseteq> set (mm_io_queue s)" "set (mm_io_queue s) - {?i} \<subseteq> set ?q" "distinct ?q"
    using d by (auto simp: set_remove1_eq)
  have nth: "?w ! j = (if j = w then Some ?i else mm_workers s ! j)" if "j < length ?w" for j
    using that by (simp add: nth_list_update)
  have no: "mm_workers s ! j \<noteq> Some ?i" if "j < length ?w" for j using qt(3) that by (metis length_list_update nth_mem)
  have "mm_inv data (mm_worker_take w s)"
    unfolding run
  proof (rule mm_put_keep [OF inv t _ a' _ qs _ _ _ _ ok'])
    fix j i
    assume j: "j < length ?w"
    show "?w ! j = Some i \<Longrightarrow> i \<noteq> ?i \<Longrightarrow> mm_workers s ! j = Some i" using nth [OF j] by (simp split: if_splits)
    show "mm_workers s ! j = Some i \<Longrightarrow> i \<noteq> ?i \<Longrightarrow> ?w ! j = Some i" using nth [OF j] w(2) by (simp split: if_splits)
  next
    fix j l
    assume "j < length ?w" "l < length ?w" "?w ! j = Some ?i" "?w ! l = Some ?i"
    then show "j = l" using nth [of j] nth [of l] no [of j] no [of l] by (simp split: if_splits)
  qed (simp_all add: task_flight_def)
  moreover have "moves s (mm_worker_take w s)"
    unfolding run by (rule moves_update [OF t, of _ ?t]) (simp_all add: mm_put_def same_job_def task_flight_def legal_def qt)
  ultimately show ?thesis using t qt(1) run by blast
qed

text \<open>What a worker may touch: the destination of its own task.\<close>

lemma mm_io_change:
  assumes inv: "mm_inv data s" and t: "map_of (mm_tasks s) tid = Some t" "active t" "\<not> uses_cuda t" "mt_io_result t = 0"
    and e: "en_inv data (mm_flights s) ((mm_engine s)\<lparr>ce_memory := m\<rparr>)" "cm_bytes m = cm_bytes (mm_memory s)"
    and mem: "\<And>a. a \<noteq> fl_to (task_flight t) \<Longrightarrow> cm_load a m = cm_load a (mm_memory s)"
    and st: "\<And>j. mt_destination t \<noteq> NVME \<or> j \<noteq> loc_slot (mt_destination_loc t) \<Longrightarrow> cs_file j st = cs_file j (mm_store s)"
  shows "mm_inv data (s\<lparr>mm_engine := (mm_engine s)\<lparr>ce_memory := m\<rparr>, mm_store := st\<rparr>)"
proof -
  let ?s = "s\<lparr>mm_engine := (mm_engine s)\<lparr>ce_memory := m\<rparr>, mm_store := st\<rparr>" and ?d = "ce_directory (mm_engine s)"
  note i = mm_invD [OF inv] and held = task_held [OF inv t(1,2)]
  have F: "mm_flights ?s = mm_flights s" by (simp add: mm_flights_def)
  have fixed: "cs_file (loc_slot l) st = cs_file (loc_slot l) (mm_store s)"
    if x: "cd_rep ?d NVME k = Some x" "rp_location x = l" "k \<noteq> mt_key t" for k x l
  proof (rule st, rule ccontr)
    assume "\<not> (mt_destination t \<noteq> NVME \<or> loc_slot l \<noteq> loc_slot (mt_destination_loc t))"
    then show False
      using held cd_slot_unique [OF en_invD(1) [OF i(1)] x(1), of "mt_key t"] x(2,3) by (auto simp: fl_held_def)
  qed
  have "files_ok data ?s"
    unfolding files_ok_def F
  proof (intro allI impI)
    fix k x
    assume x: "mm_rep ?s NVME k = Some x" and h: "rp_state x = READY \<or> (\<exists>f. mm_flights s k = Some f \<and> fl_source f = NVME)"
    have old: "file_holds (loc_slot (rp_location x)) (data k) (mm_store s)" using i(4) x h by (auto simp: files_ok_def)
    have "cs_file (loc_slot (rp_location x)) st = cs_file (loc_slot (rp_location x)) (mm_store s)"
    proof (cases "k = mt_key t")
      case False
      then show ?thesis using fixed [of k x] x by simp
    next
      case True
      have "mt_destination t \<noteq> NVME"
      proof
        assume n: "mt_destination t = NVME"
        then have "busy (rp_state x)" using held x True by (auto simp: fl_held_def)
        then have "rp_state x \<noteq> READY" by (auto simp: busy_def)
        then have "mt_source t = NVME" using h True task_flight_of [OF inv t(1,2)] by auto
        then show False using held n by (simp add: fl_held_def)
      qed
      then show ?thesis by (intro st) blast
    qed
    from file_holds_cong [OF this] old show "file_holds (loc_slot (rp_location x)) (data k) (mm_store ?s)" by simp
  qed
  moreover have "task_ok data ?s j u" if u: "map_of (mm_tasks s) j = Some u" for j u
  proof (cases "active u \<and> \<not> uses_cuda u \<and> j \<noteq> tid")
    case True
    then have a: "active u" "\<not> uses_cuda u" by blast+
    from True have k: "mt_key u \<noteq> mt_key t" using i(2) u t(1,2) unfolding tasks_wf_def by blast
    note hu = task_held [OF inv u a(1)]
    have "task_arrived data ?s u = task_arrived data s u"
    proof (cases "mt_destination u = NVME")
      case True
      then have "cs_file (loc_slot (mt_destination_loc u)) st = cs_file (loc_slot (mt_destination_loc u)) (mm_store s)"
        using fixed [of "mt_key u"] hu k by (auto simp: fl_held_def)
      from file_holds_cong [OF this] show ?thesis using True by (simp add: task_arrived_def)
    next
      case False
      then have cpu: "mt_destination u = CPU" using task_levels [OF i(7) [OF u] a] by blast
      have "At CPU (loc_slot (mt_destination_loc u)) \<noteq> fl_to (task_flight t)"
      proof
        assume "At CPU (loc_slot (mt_destination_loc u)) = fl_to (task_flight t)"
        then have "occupied ?d (mt_key u) (fl_to (task_flight t))"
          using held_occupied(2) [OF hu] cpu by (simp add: fl_to_def)
        then show False using occupied_unique [OF en_invD(1) [OF i(1)] _ held_occupied(2) [OF held]] k by blast
      qed
      from mem [OF this] show ?thesis using cpu by (simp add: task_arrived_def)
    qed
    then have "task_ok data ?s j u = task_ok data s j u" by (intro task_ok_cong) (simp_all add: e(2))
    then show ?thesis using i(7) [OF u] by simp
  next
    case False
    have ok: "task_ok data s j u" by (rule i(7) [OF u])
    have "terminal (mt_state u) \<or> active u \<and> uses_cuda u \<or> u = t \<and> j = tid" using False u t(1) by auto
    then show ?thesis
      using ok t(2-4) e(2) unfolding task_ok_def by (elim disjE conjE) (simp, simp, simp split: if_splits)
  qed
  ultimately show ?thesis using i e F by (simp add: mm_inv_def queue_wf_def)
qed

lemma doubleton_levels: "{a, b} = {CPU, NVME} \<Longrightarrow> a = CPU \<and> b = NVME \<or> a = NVME \<and> b = CPU"
  by (simp only: doubleton_eq_iff)

lemma held_task:
  assumes inv: "mm_inv data s" and w: "Some tid \<in> set (mm_workers s)" and t: "map_of (mm_tasks s) tid = Some t"
  shows "active t" "mt_state t = RUNNING" "\<not> uses_cuda t" "mt_io_result t = 0" "tid \<notin> set (mm_io_queue s)" "mt_done t = None"
    and "mt_source t = CPU \<and> mt_destination t = NVME \<or> mt_source t = NVME \<and> mt_destination t = CPU"
    and "meta_ok (mt_meta t)" "unat (fm_payload_size (mt_meta t)) = cm_bytes (mm_memory s)"
proof -
  have ok: "task_ok data s tid t" by (rule mm_invD(7) [OF inv t])
  show a: "active t" using ok w unfolding task_ok_def by auto
  show u: "\<not> uses_cuda t" using ok w a unfolding task_ok_def by auto
  have nq: "mt_state t \<noteq> QUEUED"
  proof
    assume "mt_state t = QUEUED"
    then have "Some tid \<notin> set (mm_workers s)" using ok a u unfolding task_ok_def by simp
    then show False using w by blast
  qed
  then show "mt_state t = RUNNING" using a by (cases "mt_state t") (simp_all add: terminal_def)
  show "mt_io_result t = 0" "tid \<notin> set (mm_io_queue s)" using ok a u nq w unfolding task_ok_def by simp_all
  show "mt_done t = None" using ok unfolding task_ok_def if_not_P [OF a] if_not_P [OF u] by (elim conjE)
  show "mt_source t = CPU \<and> mt_destination t = NVME \<or> mt_source t = NVME \<and> mt_destination t = CPU"
    by (rule doubleton_levels) (use ok in \<open>unfold task_ok_def if_not_P [OF a] if_not_P [OF u], elim conjE\<close>)
  show "meta_ok (mt_meta t)" using ok unfolding task_ok_def if_not_P [OF a] if_not_P [OF u] by (elim conjE)
  show "unat (fm_payload_size (mt_meta t)) = cm_bytes (mm_memory s)"
    using ok unfolding task_ok_def if_not_P [OF a] if_not_P [OF u] by (elim conjE)
qed

lemma do_io_ok:
  assumes inv: "mm_inv data s" and w: "Some tid \<in> set (mm_workers s)" and t: "map_of (mm_tasks s) tid = Some t"
    and c: "mm_do_io env junk t s = (r, s')"
  shows "\<exists>m st. s' = s\<lparr>mm_engine := (mm_engine s)\<lparr>ce_memory := m\<rparr>, mm_store := st\<rparr> \<and> mm_inv data s' \<and>
    cm_bytes m = cm_bytes (mm_memory s) \<and> (r = Inr () \<longrightarrow> task_arrived data s' t)"
proof -
  note h = held_task [OF inv w t] and i = mm_invD [OF inv] and e = en_invD [OF mm_invD(1) [OF inv]]
  note held = task_held [OF inv t h(1)] and F = task_flight_of [OF inv t h(1)]
  let ?mem = "mm_memory s" and ?k = "mt_key t"
  have self: "s\<lparr>mm_engine := (mm_engine s)\<lparr>ce_memory := ?mem\<rparr>, mm_store := st\<rparr> = s\<lparr>mm_store := st\<rparr>" for st by simp
  have en: "en_inv data (mm_flights s) ((mm_engine s)\<lparr>ce_memory := ?mem\<rparr>)" using i(1) by simp
  have none: "mm_inv data (s\<lparr>mm_engine := (mm_engine s)\<lparr>ce_memory := ?mem\<rparr>, mm_store := mm_store s\<rparr>)" using inv by simp
  from h(7) show ?thesis
  proof (elim disjE conjE)
    assume src: "mt_source t = CPU" and dst: "mt_destination t = NVME"
    have rep: "mm_rep s CPU ?k = Some \<lparr>rp_location = mt_source_loc t, rp_state = COPYING\<rparr>" using held src by (simp add: fl_held_def)
    have "cm_load (At CPU (loc_slot (mt_source_loc t))) ?mem = Inr (data ?k)"
      using coherentD [OF e(5) _ rep] F src by auto
    then have load: "hb_load (loc_slot (mt_source_loc t)) (cm_cpu ?mem) = Inr (data ?k)" by simp
    obtain q st where q: "cs_write env (loc_slot (mt_destination_loc t)) (mt_meta t) (data ?k) (mm_store s) = (q, st)" by (metis surj_pair)
    have s': "r = q" "s' = s\<lparr>mm_engine := (mm_engine s)\<lparr>ce_memory := ?mem\<rparr>, mm_store := st\<rparr>"
      using c load q dst by (simp_all add: mm_do_io_def)
    have "mm_inv data s'"
      unfolding s' by (rule mm_io_change [OF inv t h(1,3,4) en]) (use cs_write_other [OF q] dst in auto)
    moreover have "task_arrived data s' t" if "r = Inr ()"
    proof -
      have "file_holds (loc_slot (mt_destination_loc t)) (data ?k) st"
        using written_holds [of env _ "mt_meta t" "data ?k"] q h(8,9) i(5) that s'(1) by simp
      then show ?thesis using dst by (simp add: task_arrived_def s')
    qed
    ultimately show ?thesis using s' by blast
  next
    assume src: "mt_source t = NVME" and dst: "mt_destination t = CPU"
    let ?a = "At CPU (loc_slot (mt_destination_loc t))"
    have to: "fl_to (task_flight t) = ?a" using dst by (simp add: fl_to_def)
    have cl: "clear ?a (ce_queue (mm_engine s))" using flight_clear(2) [OF inv t h(1)] h(6) to by simp
    have bytes: "length (data ?k) = cm_bytes ?mem" by (rule i(5))
    show ?thesis
    proof (cases "hb_load (loc_slot (mt_destination_loc t)) (cm_cpu ?mem)")
      case (Inl x)
      then have "r = Inl x" "s' = s" using c dst by (simp_all add: mm_do_io_def)
      then show ?thesis using none by (intro exI [of _ ?mem] exI [of _ "mm_store s"]) simp
    next
      case (Inr old)
      then have old: "cm_load ?a ?mem = Inr old" by simp
      have len: "length old = cm_bytes ?mem" by (rule cm_load_length [OF e(2) old])
      have store: "mm_inv data (s\<lparr>mm_engine := (mm_engine s)\<lparr>ce_memory := m\<rparr>, mm_store := mm_store s\<rparr>) \<and> q = Inr () \<and>
          cm_bytes m = cm_bytes ?mem \<and> cm_load ?a m = Inr bs"
        if st: "cm_store ?a bs ?mem = (q, m)" and n: "length bs = cm_bytes ?mem" for bs q m
      proof -
        note sc = cm_store_cases [OF e(2) st n]
        have en': "en_inv data (mm_flights s) ((mm_engine s)\<lparr>ce_memory := m\<rparr>)"
          using held_occupied(2) [OF held] to F h(6) by (intro en_store [OF i(1) _ cl _ st n]) auto
        have b: "cm_bytes m = cm_bytes ?mem" using sc by (simp add: cm_shape_def)
        have "mm_inv data (s\<lparr>mm_engine := (mm_engine s)\<lparr>ce_memory := m\<rparr>, mm_store := mm_store s\<rparr>)"
          by (rule mm_io_change [OF inv t h(1,3,4) en' b]) (use sc to old in auto)
        then show ?thesis using sc old b by auto
      qed
      let ?r = "cs_read env (loc_slot (mt_source_loc t)) (mt_meta t) (hb_chunk_bytes (cm_cpu ?mem)) (mm_store s)"
      show ?thesis
      proof (cases "?r = Inr None \<or> isl ?r \<and> length junk \<noteq> length old")
        case True
        then have "s' = s" "isl r" using c Inr dst by (auto simp: mm_do_io_def isl_def)
        then show ?thesis using none by (intro exI [of _ ?mem] exI [of _ "mm_store s"]) auto
      next
        case go: False
        show ?thesis
        proof (cases "isl ?r")
          case True
          obtain q m where q: "cm_store ?a junk ?mem = (q, m)" by (metis surj_pair)
          have s': "s' = s\<lparr>mm_engine := (mm_engine s)\<lparr>ce_memory := m\<rparr>, mm_store := mm_store s\<rparr>" and r: "isl r"
            using c Inr dst go True q by (auto simp: mm_do_io_def isl_def)
          note z = store [OF q]
          show ?thesis
            unfolding s' using z r go True len by (intro exI [of _ m] exI [of _ "mm_store s"]) auto
        next
          case False
          then obtain out mt where o: "?r = Inr (Some (out, mt))" using go by (cases ?r; cases "projr ?r") (auto simp: isl_def)
          have rep: "mm_rep s NVME ?k = Some \<lparr>rp_location = mt_source_loc t, rp_state = COPYING\<rparr>"
            using held src by (simp add: fl_held_def)
          have "file_holds (loc_slot (mt_source_loc t)) (data ?k) (mm_store s)"
            using i(4) rep F src unfolding files_ok_def by fastforce
          then have out: "out = data ?k" using o by (rule file_holds_read)
          obtain q m where q: "cm_store ?a (patch 0 out old) ?mem = (q, m)" by (metis surj_pair)
          have p: "patch 0 out old = data ?k" using out bytes len by (simp add: patch_whole)
          have "s' = s\<lparr>mm_engine := (mm_engine s)\<lparr>ce_memory := m\<rparr>\<rparr>"
            using c Inr dst o q by (auto simp: mm_do_io_def)
          then have s': "s' = s\<lparr>mm_engine := (mm_engine s)\<lparr>ce_memory := m\<rparr>, mm_store := mm_store s\<rparr>" by simp
          note z = store [OF q [unfolded p] bytes]
          then have "task_arrived data s' t" using dst by (simp add: task_arrived_def s')
          then show ?thesis using z s' by blast
        qed
      qed
    qed
  qed
qed

lemma worker_io_ok:
  assumes inv: "mm_inv data s" and w: "w < length (mm_workers s)" "mm_workers s ! w = Some tid"
  shows "\<exists>t t'. map_of (mm_tasks s) tid = Some t \<and> mt_state t = RUNNING \<and> \<not> uses_cuda t \<and>
    mm_tasks (mm_worker_io env junk w s) = AList.update tid t' (mm_tasks s) \<and> mt_io_result t' \<noteq> 0 \<and>
    mm_io_queue (mm_worker_io env junk w s) = mm_io_queue s \<and>
    mm_workers (mm_worker_io env junk w s) = (mm_workers s)[w := None] \<and>
    ce_faulted (mm_engine (mm_worker_io env junk w s)) = ce_faulted (mm_engine s) \<and>
    mm_inv data (mm_worker_io env junk w s) \<and> moves s (mm_worker_io env junk w s)"
proof -
  have m: "Some tid \<in> set (mm_workers s)" using w by (metis nth_mem)
  obtain t where t: "map_of (mm_tasks s) tid = Some t" using mm_invD(3) [OF inv] m unfolding queue_wf_def by blast
  note h = held_task [OF inv m t]
  obtain r s1 where rs: "(if mt_cancel_requested t then (Inr (), s) else mm_do_io env junk t s) = (r, s1)" by (metis surj_pair)
  define t' where "t' = (case r of Inr _ \<Rightarrow> t\<lparr>mt_io_result := 1\<rparr> | Inl x \<Rightarrow> t\<lparr>mt_error := Some x, mt_io_result := -1\<rparr>)"
  let ?w = "(mm_workers s)[w := None]"
  let ?s = "mm_put tid t' (s1\<lparr>mm_workers := ?w\<rparr>)"
  have f1: "\<exists>m st. s1 = s\<lparr>mm_engine := (mm_engine s)\<lparr>ce_memory := m\<rparr>, mm_store := st\<rparr> \<and> mm_inv data s1 \<and>
      cm_bytes m = cm_bytes (mm_memory s) \<and> (r = Inr () \<and> \<not> mt_cancel_requested t \<longrightarrow> task_arrived data s1 t)"
  proof (cases "mt_cancel_requested t")
    case True
    then show ?thesis using rs inv by (intro exI [of _ "mm_memory s"] exI [of _ "mm_store s"]) auto
  next
    case False
    then show ?thesis using rs do_io_ok [OF inv m t, of env junk r s1] by auto
  qed
  then obtain mem st where s1: "s1 = s\<lparr>mm_engine := (mm_engine s)\<lparr>ce_memory := mem\<rparr>, mm_store := st\<rparr>" and inv1: "mm_inv data s1"
    and b: "cm_bytes mem = cm_bytes (mm_memory s)" and arr: "r = Inr () \<Longrightarrow> \<not> mt_cancel_requested t \<Longrightarrow> task_arrived data s1 t"
    by blast
  have sel: "mm_tasks s1 = mm_tasks s" "mm_io_queue s1 = mm_io_queue s" "mm_workers s1 = mm_workers s" by (simp_all add: s1)
  have t1: "map_of (mm_tasks s1) tid = Some t" using t sel by simp
  have run: "mm_worker_io env junk w s = ?s" using w(2) t rs sel by (simp add: mm_worker_io_def t'_def)
  have t': "mt_key t' = mt_key t" "mt_state t' = mt_state t" "task_flight t' = task_flight t" "mt_priority t' = mt_priority t"
    "mt_cancel_requested t' = mt_cancel_requested t" "mt_id t' = mt_id t" "mt_done t' = mt_done t" "mt_source t' = mt_source t"
    "mt_destination t' = mt_destination t" "mt_destination_loc t' = mt_destination_loc t" "mt_meta t' = mt_meta t"
    "mt_io_result t' = (case r of Inr _ \<Rightarrow> 1 | Inl _ \<Rightarrow> -1)"
    by (cases r; simp add: t'_def task_flight_def)+
  have nth: "?w ! j = (if j = w then None else mm_workers s ! j)" if "j < length ?w" for j
    using that by (simp add: nth_list_update)
  have only: "j = w" if "j < length (mm_workers s)" "mm_workers s ! j = Some tid" for j
    using mm_invD(3) [OF inv] that w unfolding queue_wf_def by blast
  have off: "?w ! j \<noteq> Some tid" if "j < length ?w" for j using nth [OF that] only [of j] that by auto
  then have free: "Some tid \<notin> set ?w" by (metis in_set_conv_nth)
  have arr': "task_arrived data (s1\<lparr>mm_io_queue := mm_io_queue s1, mm_workers := ?w\<rparr>) t' = task_arrived data s1 t"
    using t'(9,10) t'(1) by (simp add: task_arrived_def)
  have u': "uses_cuda t' = uses_cuda t" using t' by (simp add: uses_cuda_def)
  have ok1: "task_ok data s1 tid t" by (rule mm_invD(7) [OF inv1 t1])
  have ok': "task_ok data (s1\<lparr>mm_io_queue := mm_io_queue s1, mm_workers := ?w\<rparr>) tid t'"
    using ok1 h(1-5) free arr sel unfolding task_ok_def arr' u' t'
    by (cases r) (simp_all add: terminal_def)
  have d: "distinct (mm_io_queue s1)" using mm_invD(3) [OF inv1] by (simp add: queue_wf_def)
  have eq: "s1\<lparr>mm_io_queue := mm_io_queue s1, mm_workers := ?w\<rparr> = s1\<lparr>mm_workers := ?w\<rparr>" by simp
  have "mm_inv data (mm_put tid t' (s1\<lparr>mm_io_queue := mm_io_queue s1, mm_workers := ?w\<rparr>))"
  proof (rule mm_put_keep [OF inv1 t1 t'(1) _ _ _ _ d _ _ _ _ ok'])
    fix j i
    assume j: "j < length ?w"
    show "?w ! j = Some i \<Longrightarrow> i \<noteq> tid \<Longrightarrow> mm_workers s1 ! j = Some i" using nth [OF j] sel by (simp split: if_splits)
    show "mm_workers s1 ! j = Some i \<Longrightarrow> i \<noteq> tid \<Longrightarrow> ?w ! j = Some i" using nth [OF j] w(2) sel by (simp split: if_splits)
  next
    fix j l
    assume "j < length ?w" "?w ! j = Some tid"
    then show "j = l" using off by blast
  qed (simp_all add: t' sel)
  then have inv': "mm_inv data ?s" by (simp only: eq)
  have tasks: "mm_tasks ?s = AList.update tid t' (mm_tasks s)" by (simp add: mm_put_def sel)
  have "moves s ?s" by (rule moves_update [OF t tasks]) (simp_all add: same_job_def t')
  moreover have "mt_io_result t' \<noteq> 0" by (simp add: t' split: sum.splits)
  moreover have "ce_faulted (mm_engine ?s) = ce_faulted (mm_engine s)" by (simp add: mm_put_def s1)
  moreover have "mm_io_queue ?s = mm_io_queue s" "mm_workers ?s = ?w" by (simp_all add: mm_put_def sel)
  ultimately show ?thesis unfolding run using t h(2,3) tasks inv' by blast
qed

section \<open>Submission\<close>

text \<open>An event, the copy and the record of the event, for a destination that is in place.\<close>

lemma launch_copy:
  assumes b: "boarding data F k s d src e" and t: "{s, d} = {GPU, CPU}"
    and dst: "ce_rep e d k = Some \<lparr>rp_location = l, rp_state = st\<rparr>"
    and cl: "clear (At s (loc_slot src)) (ce_queue e)" "clear (At d (loc_slot l)) (ce_queue e)"
    and c: "and_then (event_create env e) (\<lambda>n e.
      and_then (queue_copy env (At s (loc_slot src)) (At d (loc_slot l)) n e) (\<lambda>_ e. (Inr (g n), e))) = (r, e')"
  shows "boarding data F k s d src e' \<and> ce_directory e' = ce_directory e \<and> ce_memory e' = ce_memory e \<and>
    ce_faulted e' = ce_faulted e \<and>
    (\<forall>x. r = Inr x \<longrightarrow> \<not> ce_faulted e' \<and> (\<exists>n q. x = g n \<and> n < ce_next_event e' \<and>
       ce_queue e' = q @ [Copy (At s (loc_slot src)) (At d (loc_slot l)), Event n] \<and> Event n \<notin> set q \<and>
       clear (At s (loc_slot src)) q \<and> clear (At d (loc_slot l)) q))"
proof (cases "sa_event_create env")
  case False
  then show ?thesis using c b by (auto simp: event_create_def)
next
  case True
  let ?n = "ce_next_event e"
  define e2 where "e2 = e\<lparr>ce_next_event := ?n + 1\<rparr>"
  have f2: "ce_directory e2 = ce_directory e" "ce_memory e2 = ce_memory e" "ce_queue e2 = ce_queue e"
    "ce_faulted e2 = ce_faulted e" "ce_next_event e2 = ?n + 1" by (simp_all add: e2_def)
  have i: "en_inv data F e" using b by (rule boardingD)
  have b2: "boarding data F k s d src e2" using b en_new_event [OF i] by (simp add: boarding_def e2_def)
  obtain q e3 where q: "queue_copy env (At s (loc_slot src)) (At d (loc_slot l)) ?n e2 = (q, e3)" by (metis surj_pair)
  have rep2: "ce_rep e2 d k = Some \<lparr>rp_location = l, rp_state = st\<rparr>" using dst f2 by simp
  have ev: "event_done ?n e2" using fresh_event [OF i] f2 by (simp add: event_done_def)
  have nof: "F j = Some f \<Longrightarrow> fl_event f \<noteq> Some ?n" for j f using flight_event_less [OF i] by fastforce
  note bc = boarding_copy [OF b2 t rep2 _ ev nof q]
  have "e' = e3" "r = (case q of Inl x \<Rightarrow> Inl x | Inr _ \<Rightarrow> Inr (g ?n))"
    using c True q by (cases q; simp add: event_create_def e2_def)+
  then show ?thesis using bc f2 cl ev by (cases q) (auto simp: event_done_def)
qed

lemma boarding_pin:
  assumes b: "boarding data F k s d src e" and n: "ce_pins e k = Some n" and c: "ce_dir (cd_pin k) e = (r, e')"
  shows "r = Inr () \<and> boarding data F k s d src e' \<and> ce_rep e' = ce_rep e \<and> ce_pins e' = (ce_pins e)(k \<mapsto> size_inc n) \<and>
    ce_queue e' = ce_queue e \<and> ce_memory e' = ce_memory e \<and> ce_faulted e' = ce_faulted e"
proof -
  note bd = boardingD [OF b]
  obtain dd where dd: "cd_pin k (ce_directory e) = (Inr (), dd)" "cd_inv dd" "cd_rep dd = ce_rep e"
    "cd_pins dd = (ce_pins e)(k \<mapsto> size_inc n)" using cd_pin_ok [OF en_invD(1) [OF bd(1)] n] by blast
  have e': "r = Inr ()" "e' = e\<lparr>ce_directory := dd\<rparr>" using c dd(1) by (auto simp: ce_dir_iff)
  have "en_inv data F e'"
    unfolding e' using bd(2) by (intro en_dir_rep [OF bd(1) dd(2,3), of k]) (simp_all add: dd(4))
  then show ?thesis using bd dd e' by (auto simp: boarding_def)
qed

text \<open>The attempt to start a task.\<close>

lemma mm_launch_cases:
  assumes b: "boarding data F (mt_key task) (mt_source task) (mt_destination task) (mt_source_loc task) e"
    and t: "uses_cuda task \<Longrightarrow> {mt_source task, mt_destination task} = {GPU, CPU}"
    and sp: "cd_spare (mt_destination task) (ce_directory e)" and n: "ce_pins e (mt_key task) = Some n"
    and cl: "clear (At (mt_source task) (loc_slot (mt_source_loc task))) (ce_queue e)"
    and none: "ce_rep e (mt_destination task) (mt_key task) = None"
    and c: "mm_launch env now task e = (r, e')"
  shows "boarding data F (mt_key task) (mt_source task) (mt_destination task) (mt_source_loc task) e' \<and>
    ce_faulted e' = ce_faulted e \<and> ce_memory e' = ce_memory e \<and>
    (case r of
       Inl x \<Rightarrow> ce_rep e' = ce_rep e \<and> ce_pins e' = ce_pins e \<or>
         (\<exists>y. ce_rep e' = upd (ce_rep e) (mt_destination task) (mt_key task) (Some y)) \<and>
         ce_pins e' = (ce_pins e)(mt_key task \<mapsto> size_inc n)
     | Inr task' \<Rightarrow> \<exists>l.
         ce_rep e' = upd (ce_rep e) (mt_destination task) (mt_key task)
           (Some \<lparr>rp_location = l, rp_state = (if mt_destination task = GPU then LOADING else COPYING)\<rparr>) \<and>
         ce_pins e' = (ce_pins e)(mt_key task \<mapsto> size_inc n) \<and>
         (if uses_cuda task
          then \<not> ce_faulted e' \<and> (\<exists>y. cm_load (At (mt_destination task) (loc_slot l)) (ce_memory e') = Inr y) \<and>
            (\<exists>m q. task' = task\<lparr>mt_destination_loc := l, mt_done := Some m, mt_state := RUNNING\<rparr> \<and> m < ce_next_event e' \<and>
               ce_queue e' = q @ [Copy (At (mt_source task) (loc_slot (mt_source_loc task)))
                 (At (mt_destination task) (loc_slot l)), Event m] \<and> Event m \<notin> set q \<and>
               clear (At (mt_source task) (loc_slot (mt_source_loc task))) q \<and> clear (At (mt_destination task) (loc_slot l)) q)
          else task' = task\<lparr>mt_destination_loc := l\<rparr> \<and>
            clear (At (mt_source task) (loc_slot (mt_source_loc task))) (ce_queue e') \<and>
            clear (At (mt_destination task) (loc_slot l)) (ce_queue e')))"
proof -
  let ?k = "mt_key task" and ?s = "mt_source task" and ?d = "mt_destination task" and ?src = "mt_source_loc task"
  let ?st = "if ?d = GPU then LOADING else COPYING"
  have st: "busy ?st" by simp
  obtain p e1 where p: "ce_dir (cd_place now ?k ?d ?st) e = (p, e1)" by (metis surj_pair)
  note bp = boarding_place [OF b st sp p]
  show ?thesis
  proof (cases p)
    case (Inl x)
    then have "r = Inl x" "e' = e1" using c p by (simp_all add: mm_launch_def)
    then show ?thesis using bp Inl by auto
  next
    case (Inr l)
    have b1: "boarding data F ?k ?s ?d ?src e1" and rep1: "ce_rep e1 = upd (ce_rep e) ?d ?k (Some \<lparr>rp_location = l, rp_state = ?st\<rparr>)"
      and cl1: "clear (At ?d (loc_slot l)) (ce_queue e1)" and eq1: "ce_queue e1 = ce_queue e" "ce_pins e1 = ce_pins e" "ce_faulted e1 = ce_faulted e" "ce_memory e1 = ce_memory e"
      using bp Inr by auto
    have n1: "ce_pins e1 ?k = Some n" using n eq1 by simp
    obtain z e2 where z: "ce_dir (cd_pin ?k) e1 = (z, e2)" by (metis surj_pair)
    note pn = boarding_pin [OF b1 n1 z]
    have b2: "boarding data F ?k ?s ?d ?src e2" and z': "z = Inr ()" and rep2: "ce_rep e2 = upd (ce_rep e) ?d ?k (Some \<lparr>rp_location = l, rp_state = ?st\<rparr>)"
      and pins2: "ce_pins e2 = (ce_pins e)(?k \<mapsto> size_inc n)" and eq2: "ce_queue e2 = ce_queue e" "ce_faulted e2 = ce_faulted e" "ce_memory e2 = ce_memory e"
      using pn rep1 eq1 by auto
    have dst: "ce_rep e2 ?d ?k = Some \<lparr>rp_location = l, rp_state = ?st\<rparr>" by (simp add: rep2)
    have cls: "clear (At ?s (loc_slot ?src)) (ce_queue e2)" "clear (At ?d (loc_slot l)) (ce_queue e2)" using cl cl1 eq1 eq2 by simp_all
    let ?task = "task\<lparr>mt_destination_loc := l\<rparr>"
    have u: "uses_cuda ?task = uses_cuda task" by (simp add: uses_cuda_def)
    show ?thesis
    proof (cases "uses_cuda task")
      case False
      then have "r = Inr ?task" "e' = e2" using c p Inr z z' u by (simp_all add: mm_launch_def Let_def)
      then show ?thesis using b2 rep2 pins2 eq2 cls False by auto
    next
      case cuda: True
      let ?p = "bind_res (cm_pointer (At ?d (loc_slot l)) (ce_memory e2)) (\<lambda>_. cm_pointer (At ?s (loc_slot ?src)) (ce_memory e2))"
      show ?thesis
      proof (cases ?p)
        case (Inl x)
        then have "r = Inl x" "e' = e2" using c p \<open>p = Inr l\<close> z z' u cuda by (simp_all add: mm_launch_def Let_def)
        then show ?thesis using b2 rep2 pins2 eq2 by auto
      next
        case ptr: (Inr w)
        have run: "and_then (event_create env e2) (\<lambda>m e.
            and_then (queue_copy env (At ?s (loc_slot ?src)) (At ?d (loc_slot l)) m e)
              (\<lambda>_ e. (Inr (?task\<lparr>mt_done := Some m, mt_state := RUNNING\<rparr>), e))) = (r, e')"
          using c p \<open>p = Inr l\<close> z z' u cuda ptr by (simp add: mm_launch_def Let_def)
        note lc = launch_copy [OF b2 t [OF cuda] dst cls run]
        have load: "\<exists>y. cm_load (At ?d (loc_slot l)) (ce_memory e2) = Inr y"
          using ptr by (auto simp: bind_res_Inr_iff cm_pointer_def)
        show ?thesis
        proof (cases r)
          case (Inl x)
          then show ?thesis using lc rep2 pins2 eq2 by auto
        next
          case (Inr task')
          then have q: "\<not> ce_faulted e' \<and> (\<exists>m q. task' = ?task\<lparr>mt_done := Some m, mt_state := RUNNING\<rparr> \<and> m < ce_next_event e' \<and>
              ce_queue e' = q @ [Copy (At ?s (loc_slot ?src)) (At ?d (loc_slot l)), Event m] \<and> Event m \<notin> set q \<and>
              clear (At ?s (loc_slot ?src)) q \<and> clear (At ?d (loc_slot l)) q)" using lc by blast
          have same: "ce_directory e' = ce_directory e2" "ce_memory e' = ce_memory e" "ce_faulted e' = ce_faulted e"
            and b': "boarding data F ?k ?s ?d ?src e'" using lc eq2 by simp_all
          show ?thesis
            using q load unfolding Inr sum.case same rep2 pins2 eq2(3) if_P [OF cuda]
            by (intro conjI b' refl exI [of _ l]) blast+
        qed
      qed
    qed
  qed
qed

lemma mm_rollback_cases:
  assumes b: "boarding data F (mt_key task) (mt_source task) (mt_destination task) (mt_source_loc task) e"
    and m: "ce_rep e (mt_destination task) (mt_key task) \<noteq> None \<longrightarrow> ce_pins e (mt_key task) = Some m \<and> 0 < m"
    and d: "mt_destination task \<in> {GPU, CPU, NVME}"
    and c: "mm_rollback_submit env now task x e = (r, e')"
  shows "(\<exists>z. r = Inl z) \<and> en_inv data F e' \<and> fl_still F e e' \<and>
    (ce_rep e' = upd (upd (ce_rep e) (mt_destination task) (mt_key task) None) (mt_source task) (mt_key task)
       (Some \<lparr>rp_location = mt_source_loc task, rp_state = READY\<rparr>) \<and>
     ce_pins e' = (if ce_rep e (mt_destination task) (mt_key task) = None then ce_pins e else (ce_pins e)(mt_key task \<mapsto> m - 1)) \<or>
     ce_directory e' = ce_directory e \<and> (\<not> sa_sync env \<or> ce_faulted e))"
proof -
  let ?k = "mt_key task" and ?s = "mt_source task" and ?d = "mt_destination task" and ?src = "mt_source_loc task"
  obtain q e1 where q: "stream_synchronize env e = (q, e1)" by (metis surj_pair)
  note bs = boarding_sync [OF b q] and still = still_sync [OF boardingD(1) [OF b] q]
  show ?thesis
  proof (cases q)
    case (Inl y)
    then have "r = Inl y" "e' = e1" using c q by (simp_all add: mm_rollback_submit_def)
    then show ?thesis using bs boardingD(1) [of data F ?k ?s ?d ?src e1] still Inl by auto
  next
    case (Inr u)
    have b1: "boarding data F ?k ?s ?d ?src e1" and empty: "ce_queue e1 = []" and dir: "ce_directory e1 = ce_directory e" using bs Inr by auto
    note bd = boardingD [OF b1] and i = en_invD [OF boardingD(1) [OF b1]]
    let ?D = "ce_directory e"
    have inv: "cd_inv ?D" using i(1) dir by simp
    have src: "cd_rep ?D ?s ?k = Some \<lparr>rp_location = ?src, rp_state = COPYING\<rparr>" using bd(4) dir by simp
    obtain rc where rc: "cd_at ?k ?D = Inr rc" using cd_at_rep [OF src] by blast
    then have ra: "replica_at ?d rc = cd_rep ?D ?d ?k" by (simp add: cd_at_iff cd_rep_def)
    have "\<exists>d3. cd_inv d3 \<and> cd_rep d3 = upd (cd_rep ?D) ?d ?k None \<and>
        cd_pins d3 = (if cd_rep ?D ?d ?k = None then cd_pins ?D else (cd_pins ?D)(?k \<mapsto> m - 1)) \<and>
        (if replica_at ?d rc \<noteq> None
         then and_then (ce_dir (cd_set_state ?k ?d ERROR) e1) (\<lambda>_ e. and_then (ce_dir (cd_remove now ?k ?d) e) (\<lambda>_ e. ce_dir (cd_unpin ?k) e))
         else (Inr (), e1)) = (Inr (), e1\<lparr>ce_directory := d3\<rparr>)"
    proof (cases "cd_rep ?D ?d ?k")
      case None
      then have "upd (cd_rep ?D) ?d ?k None = cd_rep ?D" by (simp add: fun_eq_iff)
      then show ?thesis using None ra inv dir by (intro exI [of _ ?D]) simp
    next
      case (Some y)
      have pm: "cd_pins ?D ?k = Some m" "0 < m" using m Some by auto
      obtain d1 where d1: "cd_set_state ?k ?d ERROR ?D = (Inr (), d1)" "cd_inv d1" "cd_pins d1 = cd_pins ?D"
        "cd_rep d1 = upd (cd_rep ?D) ?d ?k (Some (y\<lparr>rp_state := ERROR\<rparr>))" using cd_set_state_ok [OF inv Some, of ERROR] by blast
      have "cd_rep d1 ?d ?k = Some (y\<lparr>rp_state := ERROR\<rparr>)" by (simp add: d1(4))
      then obtain d2 where d2: "cd_remove now ?k ?d d1 = (Inr (), d2)" "cd_inv d2" "cd_pins d2 = cd_pins d1"
        "cd_rep d2 = upd (cd_rep d1) ?d ?k None" using cd_remove_ok [OF d1(2), of ?d ?k _ now] by fastforce
      have "cd_pins d2 ?k = Some m" using pm d1 d2 by simp
      then obtain d3 where d3: "cd_unpin ?k d2 = (Inr (), d3)" "cd_inv d3" "cd_rep d3 = cd_rep d2" "cd_pins d3 = (cd_pins d2)(?k \<mapsto> m - 1)"
        using cd_unpin_ok [OF d2(2) _ pm(2)] by blast
      have "cd_rep d3 = upd (cd_rep ?D) ?d ?k None" by (simp add: d3(3) d2(4) d1(4) fun_eq_iff)
      then show ?thesis using ra Some d1(1) d2(1,3) d3 d1(3) dir by (intro exI [of _ d3]) (simp add: ce_dir_def)
    qed
    then obtain d3 where d3: "cd_inv d3" "cd_rep d3 = upd (cd_rep ?D) ?d ?k None"
      "cd_pins d3 = (if cd_rep ?D ?d ?k = None then cd_pins ?D else (cd_pins ?D)(?k \<mapsto> m - 1))"
      and run: "(if replica_at ?d rc \<noteq> None
         then and_then (ce_dir (cd_set_state ?k ?d ERROR) e1) (\<lambda>_ e. and_then (ce_dir (cd_remove now ?k ?d) e) (\<lambda>_ e. ce_dir (cd_unpin ?k) e))
         else (Inr (), e1)) = (Inr (), e1\<lparr>ce_directory := d3\<rparr>)" by blast
    have "cd_rep d3 ?s ?k = Some \<lparr>rp_location = ?src, rp_state = COPYING\<rparr>" using src bd(3) d3(2) by simp
    then obtain d4 where d4: "cd_set_state ?k ?s READY d3 = (Inr (), d4)" "cd_inv d4" "cd_pins d4 = cd_pins d3"
      "cd_rep d4 = upd (cd_rep d3) ?s ?k (Some \<lparr>rp_location = ?src, rp_state = READY\<rparr>)"
      using cd_set_state_ok [OF d3(1), of ?s ?k _ READY] by fastforce
    have e': "r = Inl x" "e' = e1\<lparr>ce_directory := d4\<rparr>"
      using c q Inr dir rc run d4(1) by (simp_all add: mm_rollback_submit_def ce_dir_def)
    have rep4: "cd_rep d4 = upd (upd (cd_rep ?D) ?d ?k None) ?s ?k (Some \<lparr>rp_location = ?src, rp_state = READY\<rparr>)"
      by (simp add: d4(4) d3(2))
    have "en_inv data F e'"
      unfolding e'
    proof (rule en_dir [OF bd(1) d4(2), of ?k])
      show "ce_rep e1 t ?k = Some x \<or> cm_load (At t (loc_slot (rp_location x))) (ce_memory e1) = Inr (data ?k)"
        if "t \<in> {GPU, CPU}" "cd_rep d4 t ?k = Some x" "rp_state x = READY" for t x
        using that bd(7) rep4 dir by (cases "t = ?s"; cases "t = ?d") auto
    qed (use bd(2) empty rep4 d4(3) d3(3) dir in auto)
    moreover have "fl_still F e e'" using still by (simp add: e' fl_still_def)
    ultimately show ?thesis using e' rep4 d4(3) d3(3) by simp
  qed
qed

lemma infer_source_ok:
  assumes "infer_source d f None [GPU, CPU, NVME] = Inr (Some t)"
  shows "t \<in> {GPU, CPU, NVME} \<and> t \<noteq> d \<and> \<not> (t = GPU \<and> d = NVME \<or> t = NVME \<and> d = GPU) \<and>
    (\<exists>x. f t = Some x \<and> rp_state x = READY) \<and>
    (\<forall>t' x. t' \<in> {GPU, CPU, NVME} \<longrightarrow> t' \<noteq> d \<longrightarrow> \<not> (t' = GPU \<and> d = NVME \<or> t' = NVME \<and> d = GPU) \<longrightarrow>
       f t' = Some x \<longrightarrow> rp_state x = READY \<longrightarrow> t' = t)"
  using assms by (auto split: if_splits option.splits)

lemma replica_slot_level: "replica_slot r d = Inr y \<Longrightarrow> d \<in> {GPU, CPU, NVME} \<and> y = replica_at d r"
  by (cases d) (auto simp: replica_at_def)

lemma active_cpu:
  assumes inv: "mm_inv data s" and t: "map_of (mm_tasks s) tid = Some t" "active t"
  shows "mt_source t = CPU \<or> mt_destination t = CPU"
proof (cases "uses_cuda t")
  case False
  have "{mt_source t, mt_destination t} = {CPU, NVME}"
    using mm_invD(7) [OF inv t(1)] unfolding task_ok_def if_not_P [OF t(2)] if_not_P [OF False] by (elim conjE)
  then show ?thesis using doubleton_levels by blast
next
  case True
  obtain n where n: "mt_done t = Some n" using mm_invD(7) [OF inv t(1)] t(2) True unfolding task_ok_def by auto
  then show ?thesis
    using flight_levels [OF en_invD(6) [OF mm_invD(1) [OF inv] task_flight_of [OF inv t]], of n] by auto
qed

text \<open>A chunk in flight has no READY source for the level it is missing from.\<close>

lemma no_flight:
  assumes inv: "mm_inv data s" and src: "mm_rep s source k = Some \<lparr>rp_location = l, rp_state = READY\<rparr>" and dst: "mm_rep s d k = None"
    and lv: "source \<in> {GPU, CPU, NVME}" "d \<in> {GPU, CPU, NVME}" "source \<noteq> d" "\<not> (source = GPU \<and> d = NVME \<or> source = NVME \<and> d = GPU)"
  shows "mm_flights s k = None"
proof (rule ccontr)
  assume "mm_flights s k \<noteq> None"
  then obtain tid t where t: "map_of (mm_tasks s) tid = Some t" "active t" "mt_key t = k"
    using flights_of_None [OF mm_invD(2) [OF inv]] by (auto simp: mm_flights_def)
  have "\<exists>y. mm_rep s CPU k = Some y \<and> busy (rp_state y)"
    using active_cpu [OF inv t(1,2)] task_held [OF inv t(1,2)] t(3) by (auto simp: fl_held_def)
  then show False using src dst lv by auto
qed

lemma mm_next: "mm_inv data s \<Longrightarrow> n \<ge> mm_next_id s \<Longrightarrow> mm_inv data (s\<lparr>mm_next_id := n\<rparr>)"
proof -
  assume inv: "mm_inv data s" and n: "n \<ge> mm_next_id s"
  let ?s = "s\<lparr>mm_next_id := n\<rparr>"
  note i = mm_invD [OF inv]
  have "task_arrived data ?s u = task_arrived data s u" for u by (simp add: task_arrived_def)
  then have "task_ok data s j u \<Longrightarrow> task_ok data ?s j u" for j u
    unfolding task_ok_def using n by simp
  then show ?thesis using i by (simp add: mm_inv_def files_ok_def queue_wf_def mm_flights_def)
qed

lemma mm_fresh:
  assumes inv: "mm_inv data s" and n: "n \<ge> mm_next_id s"
  shows "map_of (mm_tasks s) n = None" "n \<notin> set (mm_io_queue s)" "Some n \<notin> set (mm_workers s)"
proof -
  show f: "map_of (mm_tasks s) n = None"
    using mm_invD(7) [OF inv, of n] n by (cases "map_of (mm_tasks s) n") (auto simp: task_ok_def)
  show "n \<notin> set (mm_io_queue s)" "Some n \<notin> set (mm_workers s)" using mm_invD(3) [OF inv] f unfolding queue_wf_def by blast+
qed

text \<open>A new task joins.\<close>

lemma mm_join:
  assumes inv: "mm_inv data s" and id: "mt_id t = mm_next_id s" and a: "active t"
    and F: "mm_flights s (mt_key t) = None"
    and e: "en_inv data ((mm_flights s)(mt_key t \<mapsto> task_flight t)) e" and mem: "ce_memory e = mm_memory s"
    and rep: "\<And>l j. j \<noteq> mt_key t \<Longrightarrow> ce_rep e l j = mm_rep s l j"
      "mt_source t = NVME \<Longrightarrow> mm_rep s NVME (mt_key t) = Some \<lparr>rp_location = mt_source_loc t, rp_state = READY\<rparr>"
      "mt_source t \<noteq> NVME \<Longrightarrow> mt_destination t \<noteq> NVME \<Longrightarrow> ce_rep e NVME (mt_key t) = mm_rep s NVME (mt_key t)"
    and q: "q = (if uses_cuda t then mm_io_queue s else mm_io_queue s @ [mm_next_id s])"
    and st: "if uses_cuda t then mt_state t = RUNNING \<and> mt_done t \<noteq> None
      else mt_state t = QUEUED \<and> mt_done t = None \<and> {mt_source t, mt_destination t} = {CPU, NVME} \<and> mt_io_result t = 0 \<and>
        meta_ok (mt_meta t) \<and> unat (fm_payload_size (mt_meta t)) = cm_bytes (mm_memory s)"
  shows "mm_inv data (mm_put (mm_next_id s) t (s\<lparr>mm_next_id := mm_next_id s + 1, mm_engine := e, mm_io_queue := q\<rparr>))"
proof -
  let ?tid = "mm_next_id s" and ?k = "mt_key t"
  let ?s = "mm_put ?tid t (s\<lparr>mm_next_id := mm_next_id s + 1, mm_engine := e, mm_io_queue := q\<rparr>)"
  note i = mm_invD [OF inv] and fresh = mm_fresh [OF inv order_refl]
  note wf = wf_new [OF i(2) fresh(1) a, folded mm_flights_def, OF F]
  have sel: "mm_engine ?s = e" "mm_store ?s = mm_store s" "mm_io_queue ?s = q" "mm_workers ?s = mm_workers s"
    "mm_next_id ?s = ?tid + 1" by (simp_all add: mm_put_def)
  have m: "map_of (mm_tasks ?s) j = (if j = ?tid then Some t else map_of (mm_tasks s) j)" for j
    by (simp add: mm_put_def update_conv')
  have Fl: "mm_flights ?s = (mm_flights s)(?k \<mapsto> task_flight t)" using wf(2) by (simp add: mm_flights_def mm_put_def)
  have held: "fl_held (ce_directory e) ?k (task_flight t)" using en_invD(6) [OF e, of ?k] by (simp add: fl_ok_def)
  have "files_ok data ?s"
    unfolding files_ok_def sel Fl
  proof (intro allI impI)
    fix k x
    assume x: "ce_rep e NVME k = Some x"
      and h: "rp_state x = READY \<or> (\<exists>f. ((mm_flights s)(?k \<mapsto> task_flight t)) k = Some f \<and> fl_source f = NVME)"
    show "file_holds (loc_slot (rp_location x)) (data k) (mm_store s)"
    proof (cases "k = ?k")
      case False
      then have "mm_rep s NVME k = Some x" "rp_state x = READY \<or> (\<exists>f. mm_flights s k = Some f \<and> fl_source f = NVME)"
        using x h rep(1) [OF False] by simp_all
      then show ?thesis using i(4) unfolding files_ok_def by blast
    next
      case True
      show ?thesis
      proof (cases "mt_source t = NVME")
        case True
        then have "rp_location x = mt_source_loc t" using held x \<open>k = ?k\<close> by (auto simp: fl_held_def)
        moreover have "file_holds (loc_slot (mt_source_loc t)) (data ?k) (mm_store s)"
          using i(4) rep(2) [OF True] unfolding files_ok_def by fastforce
        ultimately show ?thesis using \<open>k = ?k\<close> by simp
      next
        case False
        then have ready: "rp_state x = READY" using h \<open>k = ?k\<close> by simp
        then have "mt_destination t \<noteq> NVME" using held x \<open>k = ?k\<close> by (auto simp: fl_held_def)
        then show ?thesis using i(4) x ready rep(3) [OF False] \<open>k = ?k\<close> unfolding files_ok_def by simp
      qed
    qed
  qed
  moreover have "task_ok data ?s j u" if u: "map_of (mm_tasks ?s) j = Some u" for j u
  proof (cases "j = ?tid")
    case True
    then have "u = t" using u m by simp
    then show ?thesis
      using True id a st fresh q unfolding task_ok_def sel mem by (cases "uses_cuda t") simp_all
  next
    case False
    have "task_arrived data ?s u = task_arrived data s u" by (simp only: task_arrived_def sel mem)
    moreover have "j \<in> set q \<longleftrightarrow> j \<in> set (mm_io_queue s)" using q False by simp
    moreover have "task_ok data s j u" using i(7) u m False by simp
    ultimately show ?thesis unfolding task_ok_def sel mem by simp
  qed
  moreover have "queue_wf ?s"
    using i(3) fresh(2,3) q unfolding queue_wf_def sel m by (cases "uses_cuda t") auto
  moreover have "tasks_wf (mm_tasks ?s)" using wf(1) by (simp add: mm_put_def)
  ultimately show ?thesis using i(5,6) e Fl sel mem by (simp add: mm_inv_def)
qed

lemma mm_submit_enter:
  assumes inv: "mm_inv data s" and c: "mm_submit env now key d valid priority s = (r, s')"
  obtains (refused) x where "r = Inl x" and "s' = s"
  | (go) source src where "source \<in> {GPU, CPU, NVME}" and "d \<in> {GPU, CPU, NVME}" and "source \<noteq> d"
    and "\<not> (source = GPU \<and> d = NVME \<or> source = NVME \<and> d = GPU)"
    and "mm_rep s source key = Some \<lparr>rp_location = src, rp_state = READY\<rparr>" and "mm_rep s d key = None"
    and "(let task = \<lparr>mt_id = mm_next_id s, mt_key = key, mt_source = source, mt_destination = d, mt_priority = priority,
              mt_source_loc = src, mt_destination_loc = \<lparr>loc_slot = 0, loc_generation = 0\<rparr>,
              mt_meta = make_file_meta key valid (of_nat (cm_bytes (mm_memory s))),
              mt_state = QUEUED, mt_cancel_requested = False, mt_io_result = 0, mt_error = None, mt_done = None\<rparr>
          in case and_then (ce_dir (cd_set_state key source COPYING) (mm_engine s)) (\<lambda>_ e.
                  catch_all (mm_launch env now task e) (mm_rollback_submit env now task)) of
               (Inl x, e) \<Rightarrow> (Inl x, s\<lparr>mm_next_id := mm_next_id s + 1, mm_engine := e\<rparr>)
             | (Inr task, e) \<Rightarrow>
                 (Inr (mm_next_id s), mm_put (mm_next_id s) task (s\<lparr>mm_next_id := mm_next_id s + 1, mm_engine := e,
                    mm_io_queue := (if uses_cuda task then mm_io_queue s else mm_io_queue s @ [mm_next_id s])\<rparr>))) = (r, s')"
proof (cases "cd_at key (ce_directory (mm_engine s))")
  case (Inl x)
  then show ?thesis using c refused [of x] by (simp add: mm_submit_def)
next
  case (Inr rc)
  have ra: "replica_at l rc = mm_rep s l key" for l using Inr by (simp add: cd_at_iff cd_rep_def)
  have bytes: "hb_chunk_bytes (cm_cpu (mm_memory s)) = cm_bytes (mm_memory s)"
    using en_invD(2) [OF mm_invD(1) [OF inv]] by (simp add: cm_inv_def cm_bytes_def)
  show ?thesis
  proof (cases "infer_source d (\<lambda>t. replica_at t rc) None [GPU, CPU, NVME]")
    case (Inl x)
    then show ?thesis using c Inr refused [of x] unfolding mm_submit_def by simp
  next
    case inf: (Inr found)
    show ?thesis
    proof (cases found)
      case None
      then show ?thesis using c Inr inf refused [of LogicError] unfolding mm_submit_def by simp
    next
      case (Some source)
      note inf' = infer_source_ok [OF inf [unfolded Some]]
      obtain x where x: "replica_at source rc = Some x" "rp_state x = READY" using inf' by blast
      show ?thesis
      proof (cases "replica_slot rc d")
        case (Inl y)
        then show ?thesis using c Inr inf Some refused [of y] unfolding mm_submit_def by simp
      next
        case slot: (Inr y)
        note dl = replica_slot_level [OF slot]
        show ?thesis
        proof (cases y)
          case (Some z)
          then show ?thesis using c Inr inf \<open>found = Some source\<close> slot refused [of LogicError] unfolding mm_submit_def by simp
        next
          case None
          have lv: "\<not> (source = GPU \<and> d = NVME \<or> source = NVME \<and> d = GPU)" using inf' by blast
          note run = c [unfolded mm_submit_def Inr sum.case inf \<open>found = Some source\<close> option.case slot None if_not_P [OF lv] x(1)]
          show ?thesis
          proof (rule go)
            show "mm_rep s source key = Some \<lparr>rp_location = rp_location x, rp_state = READY\<rparr>" using x ra by (cases x) simp
            show "mm_rep s d key = None" using None dl ra by simp
            show "source \<in> {GPU, CPU, NVME}" "source \<noteq> d" "\<not> (source = GPU \<and> d = NVME \<or> source = NVME \<and> d = GPU)"
              using inf' by blast+
            show "d \<in> {GPU, CPU, NVME}" using dl by blast
          qed (use run in \<open>simp add: Let_def bytes cong: prod.case_cong sum.case_cong if_cong\<close>)
        qed
      qed
    qed
  qed
qed

lemma submit_levels:
  assumes "s \<in> {GPU, CPU, NVME}" and "d \<in> {GPU, CPU, NVME}" and "s \<noteq> d" and "\<not> (s = GPU \<and> d = NVME \<or> s = NVME \<and> d = GPU)"
  shows "s = GPU \<or> d = GPU \<Longrightarrow> {s, d} = {GPU, CPU}" and "\<not> (s = GPU \<or> d = GPU) \<Longrightarrow> {s, d} = {CPU, NVME}"
  using assms by (simp_all only: doubleton_eq_iff insert_iff empty_iff) blast+

lemma mm_submit_ok:
  assumes inv: "mm_inv data s" and sp: "cd_spare d (ce_directory (mm_engine s))" and pin: "ce_pins (mm_engine s) key \<noteq> Some size_max"
    and meta: "meta_ok (make_file_meta key valid 0)" and c: "mm_submit env now key d valid priority s = (r, s')"
  shows "mm_inv data s' \<and> moves s s' \<and> mm_store s' = mm_store s \<and> mm_workers s' = mm_workers s \<and>
    (case r of
       Inl x \<Rightarrow> mm_tasks s' = mm_tasks s \<and> mm_io_queue s' = mm_io_queue s \<and>
         (sa_sync env \<and> \<not> ce_faulted (mm_engine s) \<longrightarrow> mm_rep s' = mm_rep s \<and> ce_pins (mm_engine s') = ce_pins (mm_engine s))
     | Inr tid \<Rightarrow> tid = mm_next_id s \<and>
         (\<exists>t. mm_tasks s' = AList.update tid t (mm_tasks s) \<and> active t \<and> mt_key t = key \<and> mt_destination t = d \<and> mt_priority t = priority \<and>
            mm_rep s (mt_source t) key = Some \<lparr>rp_location = mt_source_loc t, rp_state = READY\<rparr> \<and>
            mm_io_queue s' = (if uses_cuda t then mm_io_queue s else mm_io_queue s @ [tid])))"
  using inv c
proof (cases rule: mm_submit_enter)
  case (refused x)
  then show ?thesis using inv by (simp add: moves_tasks)
next
  case (go source src)
  let ?e = "mm_engine s" and ?F = "mm_flights s"
  note i = mm_invD [OF inv] and F = no_flight [OF inv go(5,6,1-4)] and lv = submit_levels [OF go(1-4)]
  define task where "task = \<lparr>mt_id = mm_next_id s, mt_key = key, mt_source = source, mt_destination = d, mt_priority = priority,
      mt_source_loc = src, mt_destination_loc = \<lparr>loc_slot = 0, loc_generation = 0\<rparr>,
      mt_meta = make_file_meta key valid (of_nat (cm_bytes (mm_memory s))),
      mt_state = QUEUED, mt_cancel_requested = False, mt_io_result = 0, mt_error = None, mt_done = None\<rparr>"
  have tk: "mt_key task = key" "mt_source task = source" "mt_destination task = d" "mt_source_loc task = src"
    "uses_cuda task \<longleftrightarrow> source = GPU \<or> d = GPU" by (simp_all add: task_def uses_cuda_def)
  obtain r1 e1 where s1: "ce_dir (cd_set_state key source COPYING) ?e = (r1, e1)" by (metis surj_pair)
  note bs = boarding_start [OF i(1) F go(3,5,6) s1]
  have b1: "boarding data ?F key source d src e1" and r1: "r1 = Inr ()" and cl1: "clear (At source (loc_slot src)) (ce_queue e1)"
    and rep1: "ce_rep e1 = upd (mm_rep s) source key (Some \<lparr>rp_location = src, rp_state = COPYING\<rparr>)" "ce_pins e1 = ce_pins ?e"
      "ce_faulted e1 = ce_faulted ?e" "ce_memory e1 = mm_memory s"
    and sp1: "cd_spare d (ce_directory e1) = cd_spare d (ce_directory ?e)" using bs by blast+
  have none1: "ce_rep e1 d key = None" using rep1(1) go(3,6) by simp
  obtain n where n: "ce_pins ?e key = Some n" using cd_rep_exists [OF go(5)] by (auto simp: cd_pins_def)
  have inc: "size_inc n = n + 1" using n pin by (simp add: size_inc_def)
  have n1: "ce_pins e1 key = Some n" using n rep1 by simp
  obtain q e2 where q: "mm_launch env now task e1 = (q, e2)" by (metis surj_pair)
  note lc' = mm_launch_cases [of data ?F task e1 n env now q e2, unfolded tk, OF b1 lv(1) _ n1 cl1 none1 q]
  have lc: "boarding data ?F key source d src e2" "ce_faulted e2 = ce_faulted ?e" "ce_memory e2 = mm_memory s"
    "q = Inl x \<Longrightarrow> ce_rep e2 = ce_rep e1 \<and> ce_pins e2 = ce_pins e1 \<or>
       (\<exists>y. ce_rep e2 = upd (ce_rep e1) d key (Some y)) \<and> ce_pins e2 = (ce_pins e1)(key \<mapsto> n + 1)" for x
    using lc' sp sp1 rep1 inc by simp_all
  note rest = go(7) [folded task_def, unfolded Let_def s1 r1 and_then.simps q]
  show ?thesis
  proof (cases q)
    case (Inl x)
    obtain z e3 where z: "mm_rollback_submit env now task x e2 = (z :: migration_task res, e3)" by (metis surj_pair)
    have "ce_rep e2 d key \<noteq> None \<longrightarrow> ce_pins e2 key = Some (n + 1) \<and> 0 < n + 1" using lc(4) [OF Inl] none1 by auto
    note rb = mm_rollback_cases [of data ?F task e2 "n + 1" env now x z e3, unfolded tk, OF lc(1) this go(2) z]
    obtain y where y: "z = Inl y" using rb by blast
    have en3: "en_inv data ?F e3" and still: "fl_still ?F e2 e3" using rb by blast+
    have s': "r = Inl y" "s' = s\<lparr>mm_next_id := mm_next_id s + 1, mm_engine := e3\<rparr>" using rest Inl z y by auto
    have undone: "upd (upd (ce_rep e2) d key None) source key (Some \<lparr>rp_location = src, rp_state = READY\<rparr>) = mm_rep s"
      using lc(4) [OF Inl] rep1(1) go(3,5,6) upd_rollback [of "mm_rep s" d key source, OF go(6,5) go(3) [symmetric]]
      by (elim disjE exE conjE) (auto simp: fun_eq_iff)
    have files: "mm_rep s NVME k = Some w" if w: "ce_rep e3 NVME k = Some w" "rp_state w = READY" for k w
    proof -
      have "ce_rep e3 = upd (upd (ce_rep e2) d key None) source key (Some \<lparr>rp_location = src, rp_state = READY\<rparr>) \<or>
        ce_directory e3 = ce_directory e2" using rb by blast
      then show ?thesis
    proof
      assume "ce_rep e3 = upd (upd (ce_rep e2) d key None) source key (Some \<lparr>rp_location = src, rp_state = READY\<rparr>)"
      then have "ce_rep e3 = mm_rep s" using undone by (rule trans)
      then show ?thesis using w(1) by (simp only:)
    next
      assume "ce_directory e3 = ce_directory e2"
      then have w2: "ce_rep e2 NVME k = Some w" using w(1) by simp
      have "k \<noteq> key \<or> NVME \<noteq> source \<and> NVME \<noteq> d"
        using w2 w(2) boardingD(4,5) [OF lc(1)] by auto
      then show ?thesis using w2 lc(4) [OF Inl] rep1(1) by (auto split: if_splits)
    qed
    qed
    have "fl_still ?F ?e e3" using fl_still_trans [OF fl_still_memory [OF lc(3)] still] .
    from mm_next [OF mm_engine_change [OF inv en3 this]] files
    have "mm_inv data (s\<lparr>mm_engine := e3, mm_next_id := mm_next_id s + 1\<rparr>)" by simp
    moreover have "s\<lparr>mm_engine := e3, mm_next_id := mm_next_id s + 1\<rparr> = s'" by (simp add: s')
    ultimately have "mm_inv data s'" by (simp only:)
    moreover have "mm_rep s' = mm_rep s \<and> ce_pins (mm_engine s') = ce_pins ?e" if "sa_sync env" "\<not> ce_faulted ?e"
    proof -
      have "\<not> ce_faulted e2" using that lc(2) by simp
      then have "ce_rep e3 = upd (upd (ce_rep e2) d key None) source key (Some \<lparr>rp_location = src, rp_state = READY\<rparr>)"
        and p: "ce_pins e3 = (if ce_rep e2 d key = None then ce_pins e2 else (ce_pins e2)(key \<mapsto> n + 1 - 1))"
        using rb that(1) by blast+
      then have "ce_rep e3 = mm_rep s" using undone by (blast intro: trans)
      moreover have "ce_pins e3 = ce_pins ?e"
        using p lc(4) [OF Inl] rep1(2) n none1 by (elim disjE exE conjE) (auto simp: fun_eq_iff)
      ultimately show ?thesis by (simp add: s')
    qed
    ultimately show ?thesis unfolding s' by (simp add: moves_tasks)
  next
    case (Inr task')
    let ?st = "if d = GPU then LOADING else COPYING"
    have s': "r = Inr (mm_next_id s)" "s' = mm_put (mm_next_id s) task' (s\<lparr>mm_next_id := mm_next_id s + 1, mm_engine := e2,
        mm_io_queue := (if uses_cuda task' then mm_io_queue s else mm_io_queue s @ [mm_next_id s])\<rparr>)"
      using rest Inr by auto
    obtain l where rep2: "ce_rep e2 = upd (ce_rep e1) d key (Some \<lparr>rp_location = l, rp_state = ?st\<rparr>)"
      and pins2: "ce_pins e2 = (ce_pins e1)(key \<mapsto> n + 1)"
      and how: "if source = GPU \<or> d = GPU
        then \<not> ce_faulted e2 \<and> (\<exists>y. cm_load (At d (loc_slot l)) (ce_memory e2) = Inr y) \<and>
          (\<exists>m q. task' = task\<lparr>mt_destination_loc := l, mt_done := Some m, mt_state := RUNNING\<rparr> \<and> m < ce_next_event e2 \<and>
             ce_queue e2 = q @ [Copy (At source (loc_slot src)) (At d (loc_slot l)), Event m] \<and> Event m \<notin> set q \<and>
             clear (At source (loc_slot src)) q \<and> clear (At d (loc_slot l)) q)
        else task' = task\<lparr>mt_destination_loc := l\<rparr> \<and>
          clear (At source (loc_slot src)) (ce_queue e2) \<and> clear (At d (loc_slot l)) (ce_queue e2)"
      using lc' sp sp1 inc unfolding Inr sum.case by auto
    have shape: "mt_id task' = mm_next_id s" "mt_key task' = key" "mt_source task' = source" "mt_destination task' = d"
      "mt_priority task' = priority" "mt_source_loc task' = src" "mt_destination_loc task' = l" "mt_meta task' = mt_meta task"
      "mt_io_result task' = 0" "uses_cuda task' \<longleftrightarrow> source = GPU \<or> d = GPU" and act: "active task'"
      using how by (auto simp: task_def uses_cuda_def terminal_def split: if_splits)
    have fl: "fl_source (task_flight task') = source" "fl_destination (task_flight task') = d" "fl_source_loc (task_flight task') = src"
      "fl_destination_loc (task_flight task') = l" "fl_event (task_flight task') = mt_done task'" by (simp_all add: shape)
    have held: "fl_held (ce_directory e2) key (task_flight task')"
      unfolding fl_held_def fl using boardingD(4) [OF lc(1)] go(3) rep2 pins2 by auto
    have ft: "fl_from (task_flight task') = At source (loc_slot src)" "fl_to (task_flight task') = At d (loc_slot l)"
      by (simp_all only: fl_from_def fl_to_def fl)
    have src2: "cm_load (At source (loc_slot src)) (ce_memory e2) = Inr (data key)" if "source \<in> {GPU, CPU}"
      using boardingD(7) [OF lc(1) that] .
    have en: "en_inv data (?F(key \<mapsto> task_flight task')) e2"
    proof (cases "source = GPU \<or> d = GPU")
      case True
      then obtain m qq where m: "mt_done task' = Some m" "m < ce_next_event e2"
        "ce_queue e2 = qq @ [Copy (At source (loc_slot src)) (At d (loc_slot l)), Event m]" "Event m \<notin> set qq"
        "clear (At source (loc_slot src)) qq" "clear (At d (loc_slot l)) qq" using how by auto
      have nf: "\<not> ce_faulted e2" and ld: "\<exists>y. cm_load (At d (loc_slot l)) (ce_memory e2) = Inr y" using how True by auto
      have "source \<in> {GPU, CPU}" using True go(1,4) by auto
      from en_fly [OF boardingD(1) [OF lc(1)] nf held _ _ m(2) _ m(4)] m src2 [OF this] ld lv(1) [OF True] fl ft
      show ?thesis by simp
    next
      case False
      then have "mt_done task' = None" "clear (At source (loc_slot src)) (ce_queue e2)" "clear (At d (loc_slot l)) (ce_queue e2)"
        using how by (auto simp: task_def)
      then show ?thesis using en_fly_file [OF boardingD(1) [OF lc(1)] held] src2 fl ft by simp
    qed
    have "mm_inv data s'"
      unfolding s'(2)
    proof (rule mm_join [OF inv shape(1) act])
      show "mm_flights s (mt_key task') = None" using F shape(2) by simp
      show "en_inv data ((mm_flights s)(mt_key task' \<mapsto> task_flight task')) e2" using en by (simp add: shape)
      show "ce_rep e2 l' j = mm_rep s l' j" if "j \<noteq> mt_key task'" for l' j using that rep2 rep1(1) by (simp add: shape)
      show "if uses_cuda task' then mt_state task' = RUNNING \<and> mt_done task' \<noteq> None
        else mt_state task' = QUEUED \<and> mt_done task' = None \<and> {mt_source task', mt_destination task'} = {CPU, NVME} \<and>
          mt_io_result task' = 0 \<and> meta_ok (mt_meta task') \<and> unat (fm_payload_size (mt_meta task')) = cm_bytes (mm_memory s)"
      proof (cases "source = GPU \<or> d = GPU")
        case True
        then show ?thesis using how by (auto simp: shape)
      next
        case False
        have "unat (of_nat (cm_bytes (mm_memory s)) :: u64) = cm_bytes (mm_memory s)"
          using i(6) by (simp add: unat_of_nat u64_max_def)
        moreover have "mt_state task' = QUEUED" "mt_done task' = None" using how False by (auto simp: task_def)
        ultimately show ?thesis
          using False lv(2) [OF False] meta by (simp add: shape) (simp add: task_def make_file_meta_def meta_ok_def)
      qed
    qed (use lc(3) go rep1(1) rep2 in \<open>auto simp: shape\<close>)
    moreover have t': "mm_tasks s' = AList.update (mm_next_id s) task' (mm_tasks s)" by (simp add: s' mm_put_def)
    moreover have "moves s s'" by (rule moves_new [OF mm_fresh(1) [OF inv order_refl] t'])
    moreover have "mm_io_queue s' = (if uses_cuda task' then mm_io_queue s else mm_io_queue s @ [mm_next_id s])"
      "mm_store s' = mm_store s" "mm_workers s' = mm_workers s" by (simp_all add: s'(2) mm_put_def)
    ultimately show ?thesis unfolding s'(1) sum.case using act shape go(5) by blast
  qed
qed

text \<open>The destructor.\<close>

lemma mm_cancel_keeps:
  assumes inv: "mm_inv data s" and c: "mm_cancel env now tid s = (r, s')"
  shows "mm_inv data s'"
proof (cases "map_of (mm_tasks s) tid")
  case None
  then show ?thesis using c inv by (simp add: mm_cancel_def mm_find_def)
next
  case (Some t)
  show ?thesis using mm_cancel_ok [OF inv Some c] by blast
qed

lemma mm_cancel_all_keeps: "mm_inv data s \<Longrightarrow> mm_inv data (snd (mm_cancel_all env now tids s))"
proof (induction tids arbitrary: s)
  case (Cons tid tids)
  obtain r s' where c: "mm_cancel env now tid s = (r, s')" by (metis surj_pair)
  note mm_cancel_keeps [OF Cons.prems c]
  then show ?case using Cons c by (auto split: sum.splits option.splits)
qed simp

lemma mm_wait_all_keeps: "mm_inv data s \<Longrightarrow> mm_inv data (snd (mm_wait_all senv env now tids s))"
proof (induction tids arbitrary: s)
  case (Cons tid tids)
  obtain r s' where w: "mm_wait senv env now tid s = (r, s')" by (metis surj_pair)
  have "mm_inv data s'" using wait_keeps [OF Cons.prems w] by blast
  then show ?case using Cons.IH [of s'] w by (auto split: sum.splits option.splits)
qed simp

lemma mm_pending_count: "mm_pending_count s = length (filter (\<lambda>(tid, t). active t) (mm_tasks s))"
proof -
  have "foldl (\<lambda>n (tid, task). if mt_state task = QUEUED \<or> mt_state task = RUNNING then n + 1 else n) n ts =
      n + length (filter (\<lambda>(tid, t). active t) ts)" for n and ts :: "(nat \<times> migration_task) list"
  proof (induction ts arbitrary: n)
    case (Cons x ts)
    obtain tid t where "x = (tid, t)" by (cases x)
    then show ?case using Cons by (cases "mt_state t") (simp_all add: terminal_def)
  qed simp
  then show ?thesis by (simp add: mm_pending_count_def)
qed

text \<open>
  A task that is cancelled in the queue while the stale file of its destination cannot be erased
  is stranded: it is off the queue and still QUEUED, so \<open>wait\<close> blocks and \<open>cancel\<close> goes round for
  ever, since no worker will touch it again.
\<close>

lemma cancel_strands_task:
  assumes inv: "mm_inv data s" and t: "map_of (mm_tasks s) tid = Some t" "tid \<in> set (mm_io_queue s)"
    and stale: "mt_destination t = NVME" "cs_exists (loc_slot (mt_destination_loc t)) (mm_store s)" "\<not> io_unlink env"
    and c: "mm_cancel env now tid s = (r, s')"
  shows "r = Inl ChunkStoreError \<and> tid \<notin> set (mm_io_queue s') \<and> Some tid \<notin> set (mm_workers s') \<and>
    mm_cancel env' now' tid s' = (Inr None, s') \<and> mm_wait senv env' now' tid s' = (Inr None, s')"
proof -
  note q = queued_task [OF inv t(2,1)]
  let ?t = "t\<lparr>mt_cancel_requested := True\<rparr>"
  have r: "r = Inl ChunkStoreError" and s': "s' = mm_put tid ?t (s\<lparr>mm_io_queue := remove1 tid (mm_io_queue s)\<rparr>)" and inv': "mm_inv data s'"
    using mm_cancel_ok [OF inv t(1) c] q(1) t(2) stale by (auto simp: terminal_def)
  have t': "map_of (mm_tasks s') tid = Some ?t" by (simp add: s' mm_put_def update_conv')
  have off: "tid \<notin> set (mm_io_queue s')" "Some tid \<notin> set (mm_workers s')"
    using q(3) mm_invD(3) [OF inv] by (auto simp: s' mm_put_def queue_wf_def)
  obtain x u where u: "mm_cancel env' now' tid s' = (x, u)" by (metis surj_pair)
  have "x = Inr None \<and> u = s'" using mm_cancel_ok [OF inv' t' u] off(1) q(1) by (auto simp: terminal_def)
  moreover have "mm_wait senv env' now' tid s' = (Inr None, s')" using t' q(1) by (simp add: mm_wait_def mm_find_def terminal_def)
  ultimately show ?thesis using r off u by blast
qed

end
