(* ===== verification/Gpu_Cpu_Transfer.thy ===== *)
theory Gpu_Cpu_Transfer
  imports Mover_Interface Nvme_Transfer
begin

text \<open>
  \<open>include/kvflux/v3/gpu_cpu_transfer.h\<close>, \<open>src/v3/gpu_cpu_transfer.cpp\<close>: moves of chunks
  between the GPU and the CPU level in two halves. \<open>begin_\<close> queues the copy, \<open>finish_\<close> waits for
  its event and publishes the new replica. Between the halves anything may happen: other
  transfers, steps of the device, a fault, calls of the owner of the directory. The destructor,
  which destroys the events that are left, is not modelled.
\<close>

record pending_transfer =
  pt_source :: tier_location
  pt_destination :: tier_location
  pt_offload :: bool
  pt_done :: nat

record gpu_cpu_transfer =
  gc_engine :: copy_engine
  gc_pending :: "(cache_key \<times> pending_transfer) list"

definition gc_create :: "cuda \<Rightarrow> int \<Rightarrow> cache_directory \<Rightarrow> gpu_chunk_store \<Rightarrow> host_buffers \<Rightarrow> gpu_cpu_transfer res" where
  "gc_create env device directory gpu_store cpu_buffers =
     bind_res (stream_create env device) (\<lambda>_.
       if gs_chunk_bytes gpu_store \<noteq> hb_chunk_bytes cpu_buffers then Inl InvalidArgument
       else Inr \<lparr>gc_engine = \<lparr>ce_directory = directory, ce_memory = \<lparr>cm_gpu = gpu_store, cm_cpu = cpu_buffers\<rparr>,
                              ce_queue = [], ce_next_event = 0, ce_faulted = False\<rparr>,
                 gc_pending = []\<rparr>)"

definition gc_has_pending :: "cache_key \<Rightarrow> gpu_cpu_transfer \<Rightarrow> bool" where
  "gc_has_pending key t \<longleftrightarrow> map_of (gc_pending t) key \<noteq> None"

text \<open>
  The two functions \<open>begin_offload\<close> and \<open>begin_onload\<close> are the same text with the levels
  exchanged: \<open>s\<close> is the level of the source, \<open>d\<close> that of the destination, \<open>st\<close> the state of the
  new replica. \<open>gc_enqueue\<close> is the \<open>try\<close> block, \<open>gc_undo\<close> its handler, where destroying the
  event cannot fail visibly but waiting for the stream can throw.
\<close>

definition gc_enqueue :: "stream_answers \<Rightarrow> nat \<Rightarrow> cache_key \<Rightarrow> storage_tier \<Rightarrow> storage_tier \<Rightarrow> chunk_state \<Rightarrow> tier_location \<Rightarrow>
    copy_engine \<Rightarrow> (tier_location \<times> nat) res \<times> copy_engine" where
  "gc_enqueue env now key s d st source e =
     and_then (ce_dir (cd_place now key d st) e) (\<lambda>destination e.
     and_then (event_create env e) (\<lambda>done e.
       case bind_res (cm_pointer (At d (loc_slot destination)) (ce_memory e))
              (\<lambda>_. cm_pointer (At s (loc_slot source)) (ce_memory e)) of
         Inl x \<Rightarrow> (Inl x, e)
       | Inr _ \<Rightarrow>
           and_then (queue_copy env (At s (loc_slot source)) (At d (loc_slot destination)) done e) (\<lambda>_ e.
             (Inr (destination, done), e))))"

definition gc_undo :: "stream_answers \<Rightarrow> nat \<Rightarrow> cache_key \<Rightarrow> storage_tier \<Rightarrow> storage_tier \<Rightarrow> exn \<Rightarrow>
    copy_engine \<Rightarrow> 'a res \<times> copy_engine" where
  "gc_undo env now key s d x e =
     and_then (stream_synchronize env e) (\<lambda>_ e. and_then (ce_dir (cd_rollback now key s d) e) (\<lambda>_ e. (Inl x, e)))"

definition gc_begin :: "stream_answers \<Rightarrow> nat \<Rightarrow> cache_key \<Rightarrow> storage_tier \<Rightarrow> storage_tier \<Rightarrow> chunk_state \<Rightarrow>
    gpu_cpu_transfer \<Rightarrow> unit res \<times> gpu_cpu_transfer" where
  "gc_begin env now key s d st t =
     (if gc_has_pending key t then (Inl LogicError, t)
      else case cd_at key (ce_directory (gc_engine t)) of
        Inl x \<Rightarrow> (Inl x, t)
      | Inr r \<Rightarrow>
        (case replica_at s r of
           None \<Rightarrow> (Inl LogicError, t)
         | Some replica \<Rightarrow>
             if rp_state replica \<noteq> READY then (Inl LogicError, t)
             else if replica_at d r \<noteq> None then (Inl LogicError, t)
             else
               (case and_then (ce_dir (cd_set_state key s COPYING) (gc_engine t)) (\<lambda>_ e.
                     and_then (catch_all (gc_enqueue env now key s d st (rp_location replica) e) (gc_undo env now key s d)) (\<lambda>res e.
                     and_then (ce_dir (cd_pin key) e) (\<lambda>_ e. (Inr res, e)))) of
                  (Inl x, e) \<Rightarrow> (Inl x, t\<lparr>gc_engine := e\<rparr>)
                | (Inr (destination, done), e) \<Rightarrow>
                    (Inr (), t\<lparr>gc_engine := e, gc_pending := AList.update key
                       \<lparr>pt_source = rp_location replica, pt_destination = destination, pt_offload = (s = GPU),
                        pt_done = done\<rparr> (gc_pending t)\<rparr>))))"

definition gc_begin_offload :: "stream_answers \<Rightarrow> nat \<Rightarrow> cache_key \<Rightarrow> gpu_cpu_transfer \<Rightarrow> unit res \<times> gpu_cpu_transfer" where
  "gc_begin_offload env now key t = gc_begin env now key GPU CPU COPYING t"

definition gc_begin_onload :: "stream_answers \<Rightarrow> nat \<Rightarrow> cache_key \<Rightarrow> gpu_cpu_transfer \<Rightarrow> unit res \<times> gpu_cpu_transfer" where
  "gc_begin_onload env now key t = gc_begin env now key CPU GPU LOADING t"

text \<open>The second part of \<open>finish\<close>, after the event.\<close>

definition gc_land :: "nat \<Rightarrow> cache_key \<Rightarrow> bool \<Rightarrow> bool \<Rightarrow> pending_transfer \<Rightarrow> copy_engine \<Rightarrow> unit res \<times> copy_engine" where
  "gc_land now key offload release_source p e =
     (let source_tier = (if offload then GPU else CPU);
          destination_tier = (if offload then CPU else GPU)
      in case cd_at key (ce_directory e) of
           Inl x \<Rightarrow> (Inl x, e)
         | Inr r \<Rightarrow>
             if (case (cr_gpu r, cr_cpu r) of
                   (Some gpu, Some cpu) \<Rightarrow>
                     rp_location cpu = (if offload then pt_destination p else pt_source p) \<and>
                     rp_location gpu = (if offload then pt_source p else pt_destination p)
                 | _ \<Rightarrow> False)
             then
               and_then (ce_dir (cd_set_state key destination_tier READY) e) (\<lambda>_ e.
               and_then (ce_dir (cd_set_state key source_tier READY) e) (\<lambda>_ e.
               and_then (ce_dir (cd_unpin key) e) (\<lambda>_ e.
                 if release_source then ce_dir (cd_remove now key source_tier) e else (Inr (), e))))
             else (Inl LogicError, e))"

definition gc_finish :: "stream_answers \<Rightarrow> nat \<Rightarrow> cache_key \<Rightarrow> bool \<Rightarrow> bool \<Rightarrow> gpu_cpu_transfer \<Rightarrow> unit res \<times> gpu_cpu_transfer" where
  "gc_finish env now key offload release_source t =
     (case map_of (gc_pending t) key of
        None \<Rightarrow> (Inl LogicError, t)
      | Some p \<Rightarrow>
          if pt_offload p \<noteq> offload then (Inl LogicError, t)
          else
            (case event_synchronize env (pt_done p) (gc_engine t) of
               (Inl x, e) \<Rightarrow> (Inl x, t\<lparr>gc_engine := e\<rparr>)
             | (Inr _, e) \<Rightarrow>
                 if \<not> sa_event_destroy env then (Inl RuntimeError, t\<lparr>gc_engine := e\<rparr>)
                 else
                   (case gc_land now key offload release_source p e of
                      (r, e) \<Rightarrow> (r, t\<lparr>gc_engine := e, gc_pending := AList.delete key (gc_pending t)\<rparr>))))"

definition gc_finish_offload :: "stream_answers \<Rightarrow> nat \<Rightarrow> cache_key \<Rightarrow> bool \<Rightarrow> gpu_cpu_transfer \<Rightarrow> unit res \<times> gpu_cpu_transfer" where
  "gc_finish_offload env now key release_gpu t = gc_finish env now key True release_gpu t"

definition gc_finish_onload :: "stream_answers \<Rightarrow> nat \<Rightarrow> cache_key \<Rightarrow> bool \<Rightarrow> gpu_cpu_transfer \<Rightarrow> unit res \<times> gpu_cpu_transfer" where
  "gc_finish_onload env now key release_cpu t = gc_finish env now key False release_cpu t"

section \<open>The invariant\<close>

definition pt_flight :: "pending_transfer \<Rightarrow> flight" where
  "pt_flight p = \<lparr>fl_source = (if pt_offload p then GPU else CPU), fl_destination = (if pt_offload p then CPU else GPU),
     fl_source_loc = pt_source p, fl_destination_loc = pt_destination p, fl_event = Some (pt_done p)\<rparr>"

definition gc_flights :: "gpu_cpu_transfer \<Rightarrow> cache_key \<rightharpoonup> flight" where
  "gc_flights t key = map_option pt_flight (map_of (gc_pending t) key)"

definition gc_inv :: "(cache_key \<Rightarrow> memory) \<Rightarrow> gpu_cpu_transfer \<Rightarrow> bool" where
  "gc_inv data t \<longleftrightarrow> en_inv data (gc_flights t) (gc_engine t)"

abbreviation "gc_rep t \<equiv> ce_rep (gc_engine t)"
abbreviation "gc_pins t \<equiv> ce_pins (gc_engine t)"

lemma gc_flights_engine [simp]: "gc_flights (t\<lparr>gc_engine := e\<rparr>) = gc_flights t"
  by (simp add: gc_flights_def fun_eq_iff)

lemma gc_flights_update:
  "gc_flights (t\<lparr>gc_engine := e, gc_pending := AList.update key p (gc_pending t)\<rparr>) = (gc_flights t)(key \<mapsto> pt_flight p)"
  by (simp add: gc_flights_def fun_eq_iff update_conv')

lemma gc_flights_delete:
  "gc_flights (t\<lparr>gc_engine := e, gc_pending := AList.delete key (gc_pending t)\<rparr>) = (gc_flights t)(key := None)"
  by (simp add: gc_flights_def fun_eq_iff delete_conv')

text \<open>The attempt: it leaves the engine boarding, and boarding with everything queued when it succeeds.\<close>

lemma gc_enqueue_cases:
  assumes b: "boarding data F k s d src e" and t: "{s, d} = {GPU, CPU}" and st: "busy st" and sp: "cd_spare d (ce_directory e)"
    and cl: "clear (At s (loc_slot src)) (ce_queue e)" and none: "ce_rep e d k = None"
    and c: "gc_enqueue env now k s d st src e = (r, e')"
  shows "boarding data F k s d src e' \<and> ce_pins e' = ce_pins e \<and> ce_faulted e' = ce_faulted e \<and> (\<exists>y. ce_rep e' = upd (ce_rep e) d k y) \<and>
    (\<forall>l n. r = Inr (l, n) \<longrightarrow>
       ce_rep e' = upd (ce_rep e) d k (Some \<lparr>rp_location = l, rp_state = st\<rparr>) \<and> \<not> ce_faulted e' \<and> n < ce_next_event e' \<and>
       (\<exists>y. cm_load (At d (loc_slot l)) (ce_memory e') = Inr y) \<and>
       (\<exists>q. ce_queue e' = q @ [Copy (At s (loc_slot src)) (At d (loc_slot l)), Event n] \<and> Event n \<notin> set q \<and>
          clear (At s (loc_slot src)) q \<and> clear (At d (loc_slot l)) q))"
proof -
  have same: "ce_rep e = upd (ce_rep e) d k None" using none by (simp add: fun_eq_iff)
  obtain p e1 where p: "ce_dir (cd_place now k d st) e = (p, e1)" by (metis surj_pair)
  note bp = boarding_place [OF b st sp p]
  show ?thesis
  proof (cases p)
    case (Inl x)
    then have "r = Inl x" "e' = e1" using c p by (simp_all add: gc_enqueue_def)
    then show ?thesis using bp Inl same by auto
  next
    case (Inr l)
    have b1: "boarding data F k s d src e1" and rep1: "ce_rep e1 = upd (ce_rep e) d k (Some \<lparr>rp_location = l, rp_state = st\<rparr>)"
      and cl1: "clear (At d (loc_slot l)) (ce_queue e1)" and eq1: "ce_queue e1 = ce_queue e" "ce_pins e1 = ce_pins e" "ce_faulted e1 = ce_faulted e"
      using bp Inr by auto
    show ?thesis
    proof (cases "sa_event_create env")
      case False
      then have "r = Inl RuntimeError" "e' = e1" using c p Inr by (simp_all add: gc_enqueue_def event_create_def)
      then show ?thesis using b1 rep1 eq1 by auto
    next
      case True
      let ?n = "ce_next_event e1"
      define e2 where "e2 = e1\<lparr>ce_next_event := ?n + 1\<rparr>"
      have f2: "ce_directory e2 = ce_directory e1" "ce_memory e2 = ce_memory e1" "ce_queue e2 = ce_queue e1"
        "ce_faulted e2 = ce_faulted e1" "ce_next_event e2 = ?n + 1" by (simp_all add: e2_def)
      have i1: "en_inv data F e1" using b1 by (rule boardingD)
      have b2: "boarding data F k s d src e2"
        using b1 en_new_event [OF i1] by (simp add: boarding_def e2_def)
      show ?thesis
      proof (cases "bind_res (cm_pointer (At d (loc_slot l)) (ce_memory e2)) (\<lambda>_. cm_pointer (At s (loc_slot src)) (ce_memory e2))")
        case (Inl x)
        then have "r = Inl x" "e' = e2" using c p Inr True by (simp_all add: gc_enqueue_def event_create_def e2_def)
        then show ?thesis using b2 rep1 eq1 f2 by auto
      next
        case ptr: (Inr u)
        obtain q e3 where q: "queue_copy env (At s (loc_slot src)) (At d (loc_slot l)) ?n e2 = (q, e3)" by (metis surj_pair)
        have rep2: "ce_rep e2 d k = Some \<lparr>rp_location = l, rp_state = st\<rparr>" using rep1 f2 by simp
        have ev: "event_done ?n e2" using fresh_event [OF i1] f2 by (simp add: event_done_def)
        have nof: "F j = Some f \<Longrightarrow> fl_event f \<noteq> Some ?n" for j f using flight_event_less [OF i1] by fastforce
        note bc = boarding_copy [OF b2 t rep2 _ ev nof q]
        have e': "e' = e3" "r = (case q of Inl x \<Rightarrow> Inl x | Inr _ \<Rightarrow> Inr (l, ?n))"
          using c p Inr True ptr q by (cases q; simp add: gc_enqueue_def event_create_def e2_def)+
        have "\<exists>y. cm_load (At d (loc_slot l)) (ce_memory e2) = Inr y"
          using ptr by (auto simp: bind_res_Inr_iff cm_pointer_def)
        then show ?thesis using bc e' f2 rep1 cl cl1 eq1 ev by (cases q) (auto simp: event_done_def)
      qed
    qed
  qed
qed

lemma gc_begin_enter:
  assumes "gc_begin env now k s d st t = (r, t')"
  obtains (refused) x where "r = Inl x" and "t' = t"
  | (go) src where "gc_flights t k = None" and "gc_rep t s k = Some \<lparr>rp_location = src, rp_state = READY\<rparr>" and "gc_rep t d k = None"
    and "(case and_then (ce_dir (cd_set_state k s COPYING) (gc_engine t)) (\<lambda>_ e.
             and_then (catch_all (gc_enqueue env now k s d st src e) (gc_undo env now k s d)) (\<lambda>res e.
             and_then (ce_dir (cd_pin k) e) (\<lambda>_ e. (Inr res, e)))) of
            (Inl x, e) \<Rightarrow> (Inl x, t\<lparr>gc_engine := e\<rparr>)
          | (Inr (dst, done), e) \<Rightarrow>
              (Inr (), t\<lparr>gc_engine := e, gc_pending := AList.update k
                 \<lparr>pt_source = src, pt_destination = dst, pt_offload = (s = GPU), pt_done = done\<rparr> (gc_pending t)\<rparr>)) = (r, t')"
proof (cases "gc_has_pending k t")
  case True
  then show ?thesis using assms refused [of LogicError] by (simp add: gc_begin_def)
next
  case pend: False
  show ?thesis
  proof (cases "cd_at k (ce_directory (gc_engine t))")
    case (Inl x)
    then show ?thesis using assms pend refused [of x] by (simp add: gc_begin_def)
  next
    case (Inr c)
    then have ra: "replica_at l c = gc_rep t l k" for l by (simp add: cd_at_iff cd_rep_def)
    show ?thesis
    proof (cases "\<exists>x. gc_rep t s k = Some x \<and> rp_state x = READY \<and> gc_rep t d k = None")
      case False
      then show ?thesis
        using assms pend Inr ra refused [of LogicError] by (auto simp: gc_begin_def split: option.splits if_splits)
    next
      case True
      then obtain x where x: "gc_rep t s k = Some x" "rp_state x = READY" "gc_rep t d k = None" by blast
      show ?thesis
      proof (rule go)
        show "gc_rep t s k = Some \<lparr>rp_location = rp_location x, rp_state = READY\<rparr>" using x by (cases x) simp
        show "gc_flights t k = None" using pend by (simp add: gc_has_pending_def gc_flights_def)
      qed (use assms pend Inr ra x in \<open>simp_all add: gc_begin_def\<close>)
    qed
  qed
qed

lemma gc_undo_cases:
  assumes b: "boarding data F k s d src e" and c: "gc_undo env now k s d x e = (r, e')"
  shows "(\<exists>y. r = Inl y) \<and> en_inv data F e' \<and> ce_pins e' = ce_pins e \<and>
    (ce_rep e' = upd (upd (ce_rep e) d k None) s k (Some \<lparr>rp_location = src, rp_state = READY\<rparr>) \<or>
     e' = e \<and> (\<not> sa_sync env \<or> ce_faulted e))"
proof -
  obtain q e1 where q: "stream_synchronize env e = (q, e1)" by (metis surj_pair)
  note bs = boarding_sync [OF b q]
  show ?thesis
  proof (cases q)
    case (Inl y)
    then have "e' = e1" "r = Inl y" "e1 = e" using c q by (simp_all add: gc_undo_def stream_synchronize_def split: if_splits)
    then show ?thesis using bs boardingD(1) [OF b] Inl by auto
  next
    case (Inr u)
    obtain z e2 where z: "ce_dir (cd_rollback now k s d) e1 = (z, e2)" by (metis surj_pair)
    have "boarding data F k s d src e1" "ce_queue e1 = []" "ce_directory e1 = ce_directory e" using bs Inr by auto
    from boarding_back [OF this(1,2) z] this(3) show ?thesis using c q z Inr by (auto simp: gc_undo_def)
  qed
qed

lemma gc_begin_ok:
  assumes inv: "gc_inv data t" and tiers: "{s, d} = {GPU, CPU}" and st: "busy st"
    and sp: "cd_spare d (ce_directory (gc_engine t))" and pin: "gc_pins t k \<noteq> Some size_max"
    and c: "gc_begin env now k s d st t = (r, t')"
  shows "gc_inv data t' \<and>
    (case r of
       Inl x \<Rightarrow> gc_pending t' = gc_pending t \<and>
         (sa_sync env \<and> \<not> ce_faulted (gc_engine t) \<longrightarrow> gc_rep t' = gc_rep t \<and> gc_pins t' = gc_pins t)
     | Inr u \<Rightarrow> \<exists>src dst n. gc_rep t s k = Some \<lparr>rp_location = src, rp_state = READY\<rparr> \<and> gc_rep t d k = None \<and>
         gc_rep t' = upd (upd (gc_rep t) s k (Some \<lparr>rp_location = src, rp_state = COPYING\<rparr>)) d k
           (Some \<lparr>rp_location = dst, rp_state = st\<rparr>) \<and>
         map_of (gc_pending t') k =
           Some \<lparr>pt_source = src, pt_destination = dst, pt_offload = (s = GPU), pt_done = n\<rparr>)"
  using c
proof (cases rule: gc_begin_enter)
  case (refused x)
  then show ?thesis using inv by simp
next
  case (go src)
  let ?F = "gc_flights t" and ?e = "gc_engine t"
  have i: "en_inv data ?F ?e" using inv by (simp add: gc_inv_def)
  have tiers': "s = GPU \<and> d = CPU \<or> s = CPU \<and> d = GPU" using tiers by (simp only: doubleton_eq_iff)
  have ne: "s \<noteq> d" using tiers' by (elim disjE conjE) simp_all
  obtain r1 e1 where s1: "ce_dir (cd_set_state k s COPYING) ?e = (r1, e1)" by (metis surj_pair)
  note bs = boarding_start [OF i go(1) ne go(2,3) s1]
  have b1: "boarding data ?F k s d src e1" and r1: "r1 = Inr ()" and cl1: "clear (At s (loc_slot src)) (ce_queue e1)"
    and r1': "ce_rep e1 = upd (gc_rep t) s k (Some \<lparr>rp_location = src, rp_state = COPYING\<rparr>)" "ce_pins e1 = gc_pins t"
      "ce_faulted e1 = ce_faulted ?e" and sp1: "cd_spare d (ce_directory e1) = cd_spare d (ce_directory ?e)" using bs by blast+
  have sp1: "cd_spare d (ce_directory e1)" and none1: "ce_rep e1 d k = None" using sp1 sp r1' go(3) ne by simp_all
  obtain q e2 where q: "gc_enqueue env now k s d st src e1 = (q, e2)" by (metis surj_pair)
  note be = gc_enqueue_cases [OF b1 tiers st sp1 cl1 none1 q]
  note rest = go(4) [unfolded s1 r1 and_then.simps q]
  show ?thesis
  proof (cases q)
    case (Inl x)
    obtain z e3 where z: "gc_undo env now k s d x e2 = (z :: (tier_location \<times> nat) res, e3)" by (metis surj_pair)
    have b2: "boarding data ?F k s d src e2" using be by blast
    obtain y where z': "z = Inl y" using gc_undo_cases [OF b2 z] by blast
    have t': "t' = t\<lparr>gc_engine := e3\<rparr>" "r = Inl y" using rest Inl z z' by auto
    obtain w where w: "ce_rep e2 = upd (ce_rep e1) d k w" using be by blast
    have f2: "ce_faulted e2 = ce_faulted e1" using be by blast
    have undone: "upd (upd (ce_rep e2) d k None) s k (Some \<lparr>rp_location = src, rp_state = READY\<rparr>) = gc_rep t"
      unfolding w r1' using upd_rollback [of "gc_rep t" d k s, OF go(3,2) ne [symmetric]] by simp
    have p2: "ce_pins e2 = gc_pins t" using be r1' by simp
    note u = gc_undo_cases [OF b2 z, unfolded undone p2 f2 r1'(3)]
    have "gc_inv data t'" using u by (simp add: gc_inv_def t')
    moreover have "sa_sync env \<and> \<not> ce_faulted ?e \<Longrightarrow> ce_rep e3 = gc_rep t \<and> ce_pins e3 = gc_pins t" using u by blast
    ultimately show ?thesis by (simp add: t')
  next
    case (Inr ln)
    obtain l n where ln: "ln = (l, n)" by (cases ln)
    have b2: "boarding data ?F k s d src e2" using be by blast
    note bd = boardingD [OF b2] and i2 = en_invD [OF boardingD(1) [OF b2]]
    have rep2: "ce_rep e2 = upd (ce_rep e1) d k (Some \<lparr>rp_location = l, rp_state = st\<rparr>)" and nf: "\<not> ce_faulted e2"
      and n: "n < ce_next_event e2" and ptr: "\<exists>y. cm_load (At d (loc_slot l)) (ce_memory e2) = Inr y"
      using be Inr ln by blast+
    obtain qq where qq: "ce_queue e2 = qq @ [Copy (At s (loc_slot src)) (At d (loc_slot l)), Event n]" "Event n \<notin> set qq"
      "clear (At s (loc_slot src)) qq" "clear (At d (loc_slot l)) qq" using be Inr ln by blast
    obtain m where m: "ce_pins e2 k = Some m"
      using bd(4) cd_rep_exists by (fastforce simp: cd_pins_def)
    have "ce_pins e2 = gc_pins t" using be r1' by simp
    then have "m \<noteq> size_max" using pin m by auto
    obtain dd where dd: "cd_pin k (ce_directory e2) = (Inr (), dd)" "cd_inv dd" "cd_rep dd = ce_rep e2"
      "cd_pins dd = (ce_pins e2)(k \<mapsto> size_inc m)" using cd_pin_ok [OF i2(1) m] by blast
    define e3 where "e3 = e2\<lparr>ce_directory := dd\<rparr>"
    have f3: "ce_rep e3 = ce_rep e2" "ce_memory e3 = ce_memory e2" "ce_queue e3 = ce_queue e2" "ce_faulted e3 = ce_faulted e2"
      "ce_next_event e3 = ce_next_event e2" "ce_pins e3 k = Some (size_inc m)" using dd by (simp_all add: e3_def)
    have i3: "en_inv data ?F e3"
      unfolding e3_def using bd(2) by (intro en_dir_rep [OF bd(1) dd(2,3), of k]) (auto simp: dd(4))
    let ?p = "\<lparr>pt_source = src, pt_destination = l, pt_offload = (s = GPU), pt_done = n\<rparr>"
    have fl: "fl_source (pt_flight ?p) = s" "fl_destination (pt_flight ?p) = d" "fl_source_loc (pt_flight ?p) = src"
      "fl_destination_loc (pt_flight ?p) = l" "fl_event (pt_flight ?p) = Some n"
      using tiers' by (elim disjE conjE; simp add: pt_flight_def)+
    have "0 < size_inc m" using \<open>m \<noteq> size_max\<close> by (simp add: size_inc_def)
    then have held: "fl_held (ce_directory e3) k (pt_flight ?p)"
      unfolding fl_held_def fl using ne st bd(4) rep2 f3 by auto
    have "s \<in> {GPU, CPU}" using tiers' by (elim disjE conjE) simp_all
    then have src: "cm_load (At s (loc_slot src)) (ce_memory e2) = Inr (data k)" using bd(7) by simp
    have i4: "en_inv data (?F(k \<mapsto> pt_flight ?p)) e3"
      by (rule en_fly [OF i3 _ held _ _ _ _ qq(2)]) (simp_all only: fl fl_from_def fl_to_def tiers nf n ptr qq f3 src not_False_eq_True)
    have t': "r = Inr ()" "t' = t\<lparr>gc_engine := e3, gc_pending := AList.update k ?p (gc_pending t)\<rparr>"
      using rest Inr ln dd(1) by (auto simp: ce_dir_def e3_def)
    have "gc_inv data t'" using i4 by (simp add: gc_inv_def t' gc_flights_update)
    moreover have "ce_rep e3 = upd (upd (gc_rep t) s k (Some \<lparr>rp_location = src, rp_state = COPYING\<rparr>)) d k
           (Some \<lparr>rp_location = l, rp_state = st\<rparr>)" using f3 rep2 r1' by simp
    ultimately show ?thesis using t' go(2,3) by (auto simp: update_conv')
  qed
qed

lemma gc_land_ok:
  assumes inv: "en_inv data F e" and f: "F k = Some (pt_flight p)" and nf: "\<not> ce_faulted e" and ev: "event_done (pt_done p) e"
  shows "\<exists>e'. gc_land now k (pt_offload p) release p e = (Inr (), e') \<and> en_inv data (F(k := None)) e' \<and>
    ce_rep e' = upd (upd (ce_rep e) (fl_destination (pt_flight p)) k (Some \<lparr>rp_location = pt_destination p, rp_state = READY\<rparr>))
      (fl_source (pt_flight p)) k (if release then None else Some \<lparr>rp_location = pt_source p, rp_state = READY\<rparr>) \<and>
    (\<exists>n. ce_pins e k = Some n \<and> ce_pins e' = (ce_pins e)(k \<mapsto> n - 1)) \<and> ce_memory e' = ce_memory e"
proof -
  let ?f = "pt_flight p" and ?d = "ce_directory e"
  note i = en_invD [OF inv]
  have fp: "fl_source_loc ?f = pt_source p" "fl_destination_loc ?f = pt_destination p" "fl_event ?f = Some (pt_done p)"
    "fl_source ?f = (if pt_offload p then GPU else CPU)" "fl_destination ?f = (if pt_offload p then CPU else GPU)"
    by (simp_all add: pt_flight_def)
  have held: "fl_held ?d k ?f" using i(6) [OF f] by (simp add: fl_ok_def)
  note arr = en_arrived [OF inv f fp(3) nf ev]
  from cd_publish [OF i(1) held] obtain d1 d2 d3 n where
    d: "cd_set_state k (fl_destination ?f) READY ?d = (Inr (), d1)" "cd_set_state k (fl_source ?f) READY d1 = (Inr (), d2)"
    "cd_unpin k d2 = (Inr (), d3)" and d3: "cd_inv d3" "cd_pins d3 = (ce_pins e)(k \<mapsto> n - 1)"
    "cd_rep d3 = upd (upd (ce_rep e) (fl_destination ?f) k (Some \<lparr>rp_location = pt_destination p, rp_state = READY\<rparr>))
      (fl_source ?f) k (Some \<lparr>rp_location = pt_source p, rp_state = READY\<rparr>)" and n: "ce_pins e k = Some n"
    unfolding fp(1,2) by blast
  obtain c where c: "cd_at k ?d = Inr c" using held cd_at_rep [of ?d "fl_source ?f" k] by (auto simp: fl_held_def)
  note cf = cd_at_field [OF c]
  define step where "step = (\<lambda>e. if release then ce_dir (cd_remove now k (fl_source ?f)) e else (Inr (), e))"
  have run: "gc_land now k (pt_offload p) release p e = step (e\<lparr>ce_directory := d3\<rparr>)"
    using d held c cf unfolding fp fl_held_def gc_land_def step_def
    by (cases "pt_offload p") (auto simp: ce_dir_def)
  have "\<exists>d4. step (e\<lparr>ce_directory := d3\<rparr>) = (Inr (), e\<lparr>ce_directory := d4\<rparr>) \<and> cd_inv d4 \<and> cd_pins d4 = cd_pins d3 \<and>
    cd_rep d4 = upd (upd (ce_rep e) (fl_destination ?f) k (Some \<lparr>rp_location = pt_destination p, rp_state = READY\<rparr>))
      (fl_source ?f) k (if release then None else Some \<lparr>rp_location = pt_source p, rp_state = READY\<rparr>)"
  proof (cases release)
    case True
    have "cd_rep d3 (fl_source ?f) k = Some \<lparr>rp_location = pt_source p, rp_state = READY\<rparr>" by (simp add: d3)
    then show ?thesis using cd_remove_ok [OF d3(1), of "fl_source ?f" k _ now] True d3 by (fastforce simp: step_def ce_dir_def)
  next
    case False
    show ?thesis by (rule exI [of _ d3]) (simp only: False step_def d3 if_False simp_thms)
  qed
  then obtain d4 where d4: "step (e\<lparr>ce_directory := d3\<rparr>) = (Inr (), e\<lparr>ce_directory := d4\<rparr>)" "cd_inv d4" "cd_pins d4 = cd_pins d3"
    "cd_rep d4 = upd (upd (ce_rep e) (fl_destination ?f) k (Some \<lparr>rp_location = pt_destination p, rp_state = READY\<rparr>))
      (fl_source ?f) k (if release then None else Some \<lparr>rp_location = pt_source p, rp_state = READY\<rparr>)" by blast
  have "en_inv data (F(k := None)) (e\<lparr>ce_directory := d4\<rparr>)"
    by (rule en_land [OF inv f d4(2) _ d4(4) _ _ arr(2,3)]) (use arr(1) d3 d4(3) in \<open>auto simp: fp split: if_splits\<close>)
  then show ?thesis using run d4 d3(2) n by simp
qed

lemma gc_finish_ok:
  assumes inv: "gc_inv data t" and c: "gc_finish env now k offload release t = (r, t')"
  shows "gc_inv data t' \<and>
    (\<forall>p. map_of (gc_pending t) k = Some p \<longrightarrow> pt_offload p = offload \<longrightarrow>
      (case r of
         Inl x \<Rightarrow> x = RuntimeError \<and> gc_rep t' = gc_rep t \<and> gc_pins t' = gc_pins t \<and> gc_pending t' = gc_pending t \<and>
           (\<not> sa_event_sync env \<or> \<not> sa_event_destroy env \<or> ce_faulted (gc_engine t))
       | Inr u \<Rightarrow>
           gc_rep t' = upd (upd (gc_rep t) (if offload then CPU else GPU) k (Some \<lparr>rp_location = pt_destination p, rp_state = READY\<rparr>))
             (if offload then GPU else CPU) k (if release then None else Some \<lparr>rp_location = pt_source p, rp_state = READY\<rparr>) \<and>
           (\<exists>n. gc_pins t k = Some n \<and> gc_pins t' = (gc_pins t)(k \<mapsto> n - 1)) \<and>
           gc_pending t' = AList.delete k (gc_pending t)))"
proof (cases "map_of (gc_pending t) k")
  case None
  then show ?thesis using inv c by (simp add: gc_finish_def)
next
  case (Some p)
  show ?thesis
  proof (cases "pt_offload p = offload")
    case False
    then show ?thesis using inv c Some by (simp add: gc_finish_def)
  next
    case True
    have i: "en_inv data (gc_flights t) (gc_engine t)" using inv by (simp add: gc_inv_def)
    have f: "gc_flights t k = Some (pt_flight p)" using Some by (simp add: gc_flights_def)
    obtain q e1 where q: "event_synchronize env (pt_done p) (gc_engine t) = (q, e1)" by (metis surj_pair)
    note es = en_event_sync [OF i q]
    show ?thesis
    proof (cases "isl q \<or> \<not> sa_event_destroy env")
      case True
      then have "t' = t\<lparr>gc_engine := e1\<rparr>" "r = Inl RuntimeError"
        using c Some \<open>pt_offload p = offload\<close> q es by (auto simp: gc_finish_def split: if_splits)
      then show ?thesis using es True Some by (auto simp: gc_inv_def)
    next
      case False
      then have ok: "q = Inr ()" "\<not> ce_faulted e1" "event_done (pt_done p) e1" using es by auto
      have i1: "en_inv data (gc_flights t) e1" using es by blast
      from gc_land_ok [OF i1 f ok(2,3), of now release] obtain e2 where
        e2: "gc_land now k (pt_offload p) release p e1 = (Inr (), e2)" "en_inv data ((gc_flights t)(k := None)) e2"
        "ce_rep e2 = upd (upd (ce_rep e1) (fl_destination (pt_flight p)) k (Some \<lparr>rp_location = pt_destination p, rp_state = READY\<rparr>))
          (fl_source (pt_flight p)) k (if release then None else Some \<lparr>rp_location = pt_source p, rp_state = READY\<rparr>)"
        "\<exists>n. ce_pins e1 k = Some n \<and> ce_pins e2 = (ce_pins e1)(k \<mapsto> n - 1)" by blast
      have t': "r = Inr ()" "t' = t\<lparr>gc_engine := e2, gc_pending := AList.delete k (gc_pending t)\<rparr>"
        using c Some True q ok False e2(1) by (simp_all add: gc_finish_def)
      have "gc_inv data t'" using e2(2) by (simp add: gc_inv_def t' gc_flights_delete)
      then show ?thesis using t' e2(3,4) es Some True by (simp add: pt_flight_def)
    qed
  qed
qed

section \<open>Runs\<close>

text \<open>
  A run interleaves the calls of the class, with any answers of the runtime, with the progress
  or the failure of the device and the calls of other owners of the directory. A begun transfer
  needs a destination level whose next slot is not worn out and a pin counter that is not full.
\<close>

inductive gc_step :: "(cache_key \<Rightarrow> memory) \<Rightarrow> gpu_cpu_transfer \<Rightarrow> gpu_cpu_transfer \<Rightarrow> bool" for data where
  begin_offload: "cd_spare CPU (ce_directory (gc_engine t)) \<Longrightarrow> gc_pins t k \<noteq> Some size_max \<Longrightarrow>
    gc_step data t (snd (gc_begin_offload env now k t))"
| begin_onload: "cd_spare GPU (ce_directory (gc_engine t)) \<Longrightarrow> gc_pins t k \<noteq> Some size_max \<Longrightarrow>
    gc_step data t (snd (gc_begin_onload env now k t))"
| finish_offload: "gc_step data t (snd (gc_finish_offload env now k release t))"
| finish_onload: "gc_step data t (snd (gc_finish_onload env now k release t))"
| device: "gc_step data t (t\<lparr>gc_engine := ce_step (gc_engine t)\<rparr>)"
| fault: "gc_step data t (t\<lparr>gc_engine := ce_fault bs (gc_engine t)\<rparr>)"
| client: "client_step data (gc_flights t) (gc_engine t) e \<Longrightarrow> gc_step data t (t\<lparr>gc_engine := e\<rparr>)"

lemma gc_step_inv:
  assumes inv: "gc_inv data t" and s: "gc_step data t t'"
  shows "gc_inv data t'"
  using s
proof cases
  case (begin_offload k env now)
  obtain r where "gc_begin env now k GPU CPU COPYING t = (r, t')"
    using begin_offload(1) by (metis gc_begin_offload_def prod.collapse)
  from gc_begin_ok [OF inv _ _ begin_offload(2,3) this] show ?thesis by simp
next
  case (begin_onload k env now)
  obtain r where "gc_begin env now k CPU GPU LOADING t = (r, t')"
    using begin_onload(1) by (metis gc_begin_onload_def prod.collapse)
  from gc_begin_ok [OF inv _ _ begin_onload(2,3) this] show ?thesis by (simp add: insert_commute)
next
  case (finish_offload env now k release)
  then show ?thesis using gc_finish_ok [OF inv] by (metis gc_finish_offload_def prod.collapse)
next
  case (finish_onload env now k release)
  then show ?thesis using gc_finish_ok [OF inv] by (metis gc_finish_onload_def prod.collapse)
next
  case device
  then show ?thesis using inv en_step by (simp add: gc_inv_def)
next
  case (fault bs)
  then show ?thesis using inv en_fault by (simp add: gc_inv_def)
next
  case (client e)
  then show ?thesis using inv en_client by (simp add: gc_inv_def)
qed

interpretation gc: chunk_mover gc_inv gc_step gc_engine gc_flights
  by unfold_locales (simp_all add: gc_inv_def gc_step_inv [unfolded gc_inv_def])

lemma gc_create_inv:
  assumes "gc_create env device d g c = Inr t" and "cd_inv d" "gs_inv g" "hb_inv c"
    and "\<And>k s x. s \<in> {GPU, CPU} \<Longrightarrow> cd_rep d s k = Some x \<Longrightarrow> rp_state x = READY \<Longrightarrow>
      cm_load (At s (loc_slot (rp_location x))) \<lparr>cm_gpu = g, cm_cpu = c\<rparr> = Inr (data k)"
  shows "gc_inv data t"
proof -
  have bytes: "gs_chunk_bytes g = hb_chunk_bytes c" and t: "t = \<lparr>gc_engine = \<lparr>ce_directory = d, ce_memory = \<lparr>cm_gpu = g, cm_cpu = c\<rparr>,
      ce_queue = [], ce_next_event = 0, ce_faulted = False\<rparr>, gc_pending = []\<rparr>"
    using assms(1) by (auto simp: gc_create_def bind_res_Inr_iff split: if_splits)
  have F: "gc_flights t = (\<lambda>k. None)" by (simp add: t gc_flights_def fun_eq_iff)
  have "coherent data (\<lambda>k. None) d \<lparr>cm_gpu = g, cm_cpu = c\<rparr>" using assms(5) by (simp add: coherent_def)
  then show ?thesis
    using assms(2-4) bytes F by (simp add: gc_inv_def en_inv_def t cm_inv_def queue_ok_def events_ok_def)
qed

lemma gc_finish_delivers:
  assumes inv: "gc_inv data t" and p: "map_of (gc_pending t) k = Some p" and nf: "\<not> ce_faulted (gc_engine t)"
  shows "\<exists>t''. gc_finish good_answers now k (pt_offload p) release t = (Inr (), t'') \<and>
    gc_rep t'' (if pt_offload p then CPU else GPU) k = Some \<lparr>rp_location = pt_destination p, rp_state = READY\<rparr> \<and>
    cm_load (At (if pt_offload p then CPU else GPU) (loc_slot (pt_destination p))) (ce_memory (gc_engine t'')) = Inr (data k)"
proof -
  obtain r t'' where c: "gc_finish good_answers now k (pt_offload p) release t = (r, t'')" by (metis surj_pair)
  note ok = gc_finish_ok [OF inv c]
  have r: "r = Inr ()" using ok p nf by (cases r) (auto simp: good_answers_def)
  then have rep: "gc_rep t'' (if pt_offload p then CPU else GPU) k = Some \<lparr>rp_location = pt_destination p, rp_state = READY\<rparr>"
    using ok p by auto
  have "en_inv data (gc_flights t'') (gc_engine t'')" using ok by (simp add: gc_inv_def)
  then have "cm_load (At (if pt_offload p then CPU else GPU) (loc_slot (pt_destination p))) (ce_memory (gc_engine t'')) = Inr (data k)"
    using coherentD [OF en_invD(5) _ rep] by simp
  then show ?thesis using c r rep by blast
qed

section \<open>Properties\<close>

text \<open>C34: Asynchronous copies between GPU and CPU never deliver wrong bytes and are never disturbed.
  Take any run of the mover in which transfers of many chunks are begun and finished in any
  order, calls of the CUDA runtime fail, the device works off its queue at its own pace or
  breaks down, and other owners place, fill, publish, pin, remove and destroy chunks. At every
  moment each READY replica in GPU or CPU memory holds exactly the bytes of its chunk. While a
  chunk is in flight the directory refuses to remove its two replicas and to destroy it. And
  unless the device has broken down, a begun transfer can always be finished: \<open>finish\<close> then
  returns with a READY replica at the destination that holds the bytes of the chunk.\<close>

theorem transfers_deliver:
  assumes "gc_create env device d g c = Inr t" and "cd_inv d" "gs_inv g" "hb_inv c"
    and "\<And>k s x. s \<in> {GPU, CPU} \<Longrightarrow> cd_rep d s k = Some x \<Longrightarrow> rp_state x = READY \<Longrightarrow>
      cm_load (At s (loc_slot (rp_location x))) \<lparr>cm_gpu = g, cm_cpu = c\<rparr> = Inr (data k)"
    and "(gc_step data)\<^sup>*\<^sup>* t t'"
  shows "(\<forall>k s x. s \<in> {GPU, CPU} \<longrightarrow> gc_rep t' s k = Some x \<longrightarrow> rp_state x = READY \<longrightarrow>
      cm_load (At s (loc_slot (rp_location x))) (ce_memory (gc_engine t')) = Inr (data k)) \<and>
    (\<forall>k p now. map_of (gc_pending t') k = Some p \<longrightarrow>
      (let d = ce_directory (gc_engine t'); s = (if pt_offload p then CPU else GPU)
       in cd_remove now k GPU d = (Inl LogicError, d) \<and> cd_remove now k CPU d = (Inl LogicError, d) \<and>
          cd_destroy k d = (Inl LogicError, d) \<and>
          (\<not> ce_faulted (gc_engine t') \<longrightarrow>
             (\<forall>release. \<exists>t''. gc_finish good_answers now k (pt_offload p) release t' = (Inr (), t'') \<and>
                gc_rep t'' s k = Some \<lparr>rp_location = pt_destination p, rp_state = READY\<rparr> \<and>
                cm_load (At s (loc_slot (pt_destination p))) (ce_memory (gc_engine t'')) = Inr (data k)))))"
proof -
  have inv: "gc_inv data t'" by (rule gc.runs_inv [OF assms(6) gc_create_inv [OF assms(1-5)]])
  have guard: "s \<in> {GPU, CPU} \<Longrightarrow> cd_remove now k s (ce_directory (gc_engine t')) = (Inl LogicError, ce_directory (gc_engine t'))"
    "cd_destroy k (ce_directory (gc_engine t')) = (Inl LogicError, ce_directory (gc_engine t'))"
    if "map_of (gc_pending t') k = Some p" for k p now s
    using gc.flight_guarded [OF inv _ refl, of k "pt_flight p"] that by (auto simp: gc_flights_def pt_flight_def split: if_splits)
  show ?thesis
    unfolding Let_def
    using gc.ready_coherent [OF inv] guard gc_finish_delivers [OF inv] by (intro conjI allI impI) simp_all
qed

text \<open>For the witness: the chunk of \<open>demo_mover\<close> is loaded into device memory.\<close>

definition demo_chunk_store :: gpu_chunk_store where
  "demo_chunk_store = (case gs_create good_cuda (\<lambda>i. 0) 2 2 0 of Inr s \<Rightarrow> s)"

definition demo_transfer :: gpu_cpu_transfer where
  "demo_transfer = (case gc_create good_cuda 0 demo_cpu_ready demo_chunk_store (nt_cpu demo_mover) of Inr t \<Rightarrow> t)"

definition demo_onload :: gpu_cpu_transfer where
  "demo_onload = snd (gc_begin_onload good_answers 9 demo_key demo_transfer)"

definition demo_record :: chunk_record where
  "demo_record = \<lparr>cr_key = demo_key, cr_version = 1, cr_ref_count = 0, cr_pin_count = 0, cr_last_access = 2,
     cr_gpu = None, cr_cpu = Some (demo_chunk_at 0), cr_nvme = None\<rparr>"

lemma demo_transfer_start:
  "gc_create good_cuda 0 demo_cpu_ready demo_chunk_store (nt_cpu demo_mover) = Inr demo_transfer"
  "cd_inv demo_cpu_ready" "gs_inv demo_chunk_store" "hb_inv (nt_cpu demo_mover)"
  "cd_records demo_cpu_ready = [(demo_key, demo_record)]"
  "cd_spare GPU (ce_directory (gc_engine demo_transfer))" "gc_pins demo_transfer demo_key \<noteq> Some size_max"
proof -
  have "\<not> isl (gc_create good_cuda 0 demo_cpu_ready demo_chunk_store (nt_cpu demo_mover))" by code_simp
  then show "gc_create good_cuda 0 demo_cpu_ready demo_chunk_store (nt_cpu demo_mover) = Inr demo_transfer"
    unfolding demo_transfer_def by (auto simp: isl_def split: sum.splits)
  show "cd_inv demo_cpu_ready" "hb_inv (nt_cpu demo_mover)"
    using demo_mover_inv by (simp_all add: nt_inv_def demo_mover_def)
  obtain m where m: "gm_create good_cuda (\<lambda>i. 0) 2 2 1 0 = Inr m"
    by (auto simp: gm_create_def checked_pool_bytes_def size_max_def good_cuda_def bm_create_def)
  show "gs_inv demo_chunk_store"
    unfolding demo_chunk_store_def gs_create_def gs_inv_def m using gm_create_inv(1) [OF m] by simp
  show "cd_records demo_cpu_ready = [(demo_key, demo_record)]" by code_simp
  show "cd_spare GPU (ce_directory (gc_engine demo_transfer))" by code_simp
  show "gc_pins demo_transfer demo_key \<noteq> Some size_max" by code_simp
qed

lemma transfers_deliver_witness:
  "\<exists>p t''. map_of (gc_pending demo_onload) demo_key = Some p \<and>
    gc_finish good_answers 10 demo_key False True demo_onload = (Inr (), t'') \<and>
    cm_load (At GPU (loc_slot (pt_destination p))) (ce_memory (gc_engine t'')) = Inr [10, 20]"
proof -
  note st = demo_transfer_start
  have ready: "cm_load (At s (loc_slot (rp_location x))) \<lparr>cm_gpu = demo_chunk_store, cm_cpu = nt_cpu demo_mover\<rparr> = Inr [10, 20]"
    if "s \<in> {GPU, CPU}" "cd_rep demo_cpu_ready s k = Some x" for k s x
    using that by (auto simp: cd_rep_def st(5) demo_record_def replica_at_def demo_mover_def hp_data_def peek_def split: if_splits)
  have run: "(gc_step (\<lambda>k. [10, 20]))\<^sup>*\<^sup>* demo_transfer demo_onload"
    unfolding demo_onload_def by (rule r_into_rtranclp, rule gc_step.begin_onload [OF st(6,7)])
  obtain p where p: "map_of (gc_pending demo_onload) demo_key = Some p" "\<not> pt_offload p"
  proof -
    have "map_option pt_offload (map_of (gc_pending demo_onload) demo_key) = Some False" by code_simp
    then show ?thesis using that by auto
  qed
  have nf: "\<not> ce_faulted (gc_engine demo_onload)" by code_simp
  have "let d = ce_directory (gc_engine demo_onload); s = (if pt_offload p then CPU else GPU)
       in cd_remove 10 demo_key GPU d = (Inl LogicError, d) \<and> cd_remove 10 demo_key CPU d = (Inl LogicError, d) \<and>
          cd_destroy demo_key d = (Inl LogicError, d) \<and>
          (\<not> ce_faulted (gc_engine demo_onload) \<longrightarrow>
             (\<forall>release. \<exists>t''. gc_finish good_answers 10 demo_key (pt_offload p) release demo_onload = (Inr (), t'') \<and>
                gc_rep t'' s demo_key = Some \<lparr>rp_location = pt_destination p, rp_state = READY\<rparr> \<and>
                cm_load (At s (loc_slot (pt_destination p))) (ce_memory (gc_engine t'')) = Inr [10, 20]))"
    by (rule conjunct2 [OF transfers_deliver [OF st(1-4) _ run], rule_format, OF _ p(1)]) (rule ready)
  then show ?thesis using p nf by (auto simp: Let_def)
qed

end
