(* ===== verification/Migration_Runs.thy ===== *)
theory Migration_Runs
  imports Migration_Invariant Gpu_Cpu_Transfer
begin

text \<open>
  Runs of \<open>Migration_Manager\<close>: the step relation of everything that may happen, with the
  properties that hold in every run, and that the workers and \<open>wait\<close> bring every task to its end.
\<close>

section \<open>Everything that may happen\<close>

text \<open>
  The calls of the owner, the workers, the device and the other users of directory, memory and
  files. A user who registers a READY replica in the NVMe level has put its file there first, and
  nobody else writes the file of a slot that is taken.
\<close>

inductive mm_step :: "(cache_key \<Rightarrow> memory) \<Rightarrow> migration_manager \<Rightarrow> migration_manager \<Rightarrow> bool" for data where
  submit: "cd_spare d (ce_directory (mm_engine s)) \<Longrightarrow> ce_pins (mm_engine s) key \<noteq> Some size_max \<Longrightarrow>
    meta_ok (make_file_meta key valid 0) \<Longrightarrow> mm_step data s (snd (mm_submit env now key d valid priority s))"
| poll: "mm_step data s (snd (mm_poll env now tid s))"
| wait: "mm_step data s (snd (mm_wait senv env now tid s))"
| cancel: "mm_step data s (snd (mm_cancel env now tid s))"
| take: "w < length (mm_workers s) \<Longrightarrow> mm_workers s ! w = None \<Longrightarrow> mm_io_queue s \<noteq> [] \<Longrightarrow> mm_step data s (mm_worker_take w s)"
| io: "w < length (mm_workers s) \<Longrightarrow> mm_workers s ! w = Some tid \<Longrightarrow> mm_step data s (mm_worker_io env junk w s)"
| device: "mm_step data s (s\<lparr>mm_engine := ce_step (mm_engine s)\<rparr>)"
| fault: "mm_step data s (s\<lparr>mm_engine := ce_fault bs (mm_engine s)\<rparr>)"
| client: "client_step data (mm_flights s) (mm_engine s) e \<Longrightarrow>
    (\<And>k x. ce_rep e NVME k = Some x \<Longrightarrow> rp_state x = READY \<Longrightarrow>
       mm_rep s NVME k = Some x \<or> file_holds (loc_slot (rp_location x)) (data k) (mm_store s)) \<Longrightarrow>
    mm_step data s (s\<lparr>mm_engine := e\<rparr>)"
| client_file: "(\<And>k x. mm_rep s NVME k = Some x \<Longrightarrow>
       cs_file (loc_slot (rp_location x)) st = cs_file (loc_slot (rp_location x)) (mm_store s)) \<Longrightarrow>
    mm_step data s (s\<lparr>mm_store := st\<rparr>)"

lemma mm_client_file:
  assumes inv: "mm_inv data s"
    and st: "\<And>k x. mm_rep s NVME k = Some x \<Longrightarrow>
      cs_file (loc_slot (rp_location x)) st = cs_file (loc_slot (rp_location x)) (mm_store s)"
  shows "mm_inv data (s\<lparr>mm_store := st\<rparr>)"
proof -
  let ?s = "s\<lparr>mm_store := st\<rparr>"
  note i = mm_invD [OF inv]
  have F: "mm_flights ?s = mm_flights s" by (simp add: mm_flights_def)
  have "files_ok data ?s"
    unfolding files_ok_def F
  proof (intro allI impI)
    fix k x
    assume x: "mm_rep ?s NVME k = Some x" and h: "rp_state x = READY \<or> (\<exists>f. mm_flights s k = Some f \<and> fl_source f = NVME)"
    then have "mm_rep s NVME k = Some x" by simp
    then have "file_holds (loc_slot (rp_location x)) (data k) (mm_store s)" using i(4) h unfolding files_ok_def by blast
    then show "file_holds (loc_slot (rp_location x)) (data k) (mm_store ?s)" using file_holds_cong [OF st] x by simp
  qed
  moreover have "task_ok data ?s j u" if u: "map_of (mm_tasks s) j = Some u" for j u
  proof (cases "active u")
    case False
    then have "terminal (mt_state u)" by blast
    then show ?thesis using i(7) [OF u] unfolding task_ok_def by simp
  next
    case True
    have "task_arrived data ?s u = task_arrived data s u"
    proof (cases "mt_destination u = NVME")
      case False
      then show ?thesis by (simp add: task_arrived_def)
    next
      case nv: True
      then obtain x where "mm_rep s NVME (mt_key u) = Some x" "rp_location x = mt_destination_loc u"
        using task_held [OF inv u True] by (auto simp: fl_held_def)
      then have "cs_file (loc_slot (mt_destination_loc u)) st = cs_file (loc_slot (mt_destination_loc u)) (mm_store s)" using st [of "mt_key u" x] by simp
      from file_holds_cong [OF this] show ?thesis using nv by (simp add: task_arrived_def)
    qed
    then have "task_ok data ?s j u = task_ok data s j u" by (intro task_ok_cong) simp_all
    then show ?thesis using i(7) [OF u] by simp
  qed
  ultimately show ?thesis using i F by (simp add: mm_inv_def queue_wf_def)
qed

lemma mm_step_ok:
  assumes inv: "mm_inv data s" and st: "mm_step data s s'"
  shows "mm_inv data s' \<and> moves s s' \<and> length (mm_workers s') = length (mm_workers s)"
  using st
proof cases
  case (submit d key valid env now priority)
  then obtain r where r: "mm_submit env now key d valid priority s = (r, s')" by (metis prod.collapse)
  show ?thesis using mm_submit_ok [OF inv submit(2-4) r] by simp
next
  case (poll env now tid)
  then show ?thesis using poll_keeps [OF inv, of env now tid] by (metis prod.collapse)
next
  case (wait senv env now tid)
  then show ?thesis using wait_keeps [OF inv, of senv env now tid] by (metis prod.collapse)
next
  case (cancel env now tid)
  show ?thesis
  proof (cases "map_of (mm_tasks s) tid")
    case None
    then show ?thesis using cancel inv by (simp add: mm_cancel_def mm_find_def moves_tasks)
  next
    case (Some t)
    obtain r where r: "mm_cancel env now tid s = (r, s')" using cancel by (metis prod.collapse)
    show ?thesis using mm_cancel_ok [OF inv Some r] by (simp only: simp_thms) 
  qed
next
  case (take w)
  then obtain i t where "mm_worker_take w s = mm_put i t (s\<lparr>mm_io_queue := remove1 i (mm_io_queue s), mm_workers := (mm_workers s)[w := Some i]\<rparr>)"
    "mm_inv data s'" "moves s s'" using worker_take_ok [OF inv take(2-4)] by metis
  then show ?thesis using take(1) by (simp add: mm_put_def)
next
  case (io w tid env junk)
  then have "mm_workers s' = (mm_workers s)[w := None]" "mm_inv data s'" "moves s s'"
    using worker_io_ok [OF inv io(2,3), of env junk] by blast+
  then show ?thesis by simp
next
  case device
  note e = en_step [OF mm_invD(1) [OF inv]]
  have "mm_inv data s'"
    unfolding device by (rule mm_engine_change [OF inv e still_step [OF mm_invD(1) [OF inv]]]) (simp add: ce_step_def split: list.splits)
  then show ?thesis using device by (simp add: moves_tasks)
next
  case (fault bs)
  note e = en_fault [OF mm_invD(1) [OF inv]]
  have "mm_inv data s'"
    unfolding fault by (rule mm_engine_change [OF inv e still_fault [OF mm_invD(1) [OF inv]]]) (simp add: ce_fault_def)
  then show ?thesis using fault by (simp add: moves_tasks)
next
  case (client e)
  have "mm_inv data s'"
    unfolding client(1)
    by (rule mm_engine_change [OF inv en_client [OF mm_invD(1) [OF inv] client(2)] still_client [OF mm_invD(1) [OF inv] client(2)] client(3)])
  then show ?thesis using client(1) by (simp add: moves_tasks)
next
  case (client_file st)
  have "mm_inv data s'" unfolding client_file(1) by (rule mm_client_file [OF inv client_file(2)])
  then show ?thesis using client_file(1) by (simp add: moves_tasks)
qed

interpretation mm: chunk_mover mm_inv mm_step mm_engine mm_flights
  by unfold_locales (use mm_invD(1) mm_step_ok in blast)+

lemma mm_create_inv:
  assumes "mm_create env d g c st io_threads = Inr s" and "cd_inv d" "gs_inv g" "hb_inv c"
    and "\<And>k l x. l \<in> {GPU, CPU} \<Longrightarrow> cd_rep d l k = Some x \<Longrightarrow> rp_state x = READY \<Longrightarrow>
      cm_load (At l (loc_slot (rp_location x))) \<lparr>cm_gpu = g, cm_cpu = c\<rparr> = Inr (data k)"
    and "\<And>k x. cd_rep d NVME k = Some x \<Longrightarrow> rp_state x = READY \<Longrightarrow> file_holds (loc_slot (rp_location x)) (data k) st"
    and "\<And>k. length (data k) = hb_chunk_bytes c" and "hb_chunk_bytes c \<le> u64_max"
  shows "mm_inv data s \<and> mm_workers s \<noteq> []"
proof -
  have bytes: "gs_chunk_bytes g = hb_chunk_bytes c" and t: "s = \<lparr>mm_engine = \<lparr>ce_directory = d, ce_memory = \<lparr>cm_gpu = g, cm_cpu = c\<rparr>,
      ce_queue = [], ce_next_event = 0, ce_faulted = False\<rparr>, mm_store = st, mm_next_id = 1, mm_tasks = [], mm_io_queue = [],
      mm_workers = replicate io_threads None\<rparr>" and n: "io_threads \<noteq> 0"
    using assms(1) by (auto simp: mm_create_def bind_res_Inr_iff split: if_splits)
  have F: "mm_flights s = (\<lambda>k. None)" by (simp add: t mm_flights_def flights_of_def fun_eq_iff)
  have "coherent data (\<lambda>k. None) d \<lparr>cm_gpu = g, cm_cpu = c\<rparr>" using assms(5) by (simp add: coherent_def)
  then have "en_inv data (mm_flights s) (mm_engine s)"
    using assms(2-4) bytes F by (simp add: en_inv_def t cm_inv_def queue_ok_def events_ok_def)
  moreover have "files_ok data s" using assms(6) F by (simp add: files_ok_def t)
  ultimately show ?thesis
    using assms(7,8) bytes n by (simp add: mm_inv_def t queue_wf_def tasks_wf_def cm_bytes_def)
qed

lemma mm_runs_workers:
  assumes "(mm_step data)\<^sup>*\<^sup>* s s'" and "mm_inv data s"
  shows "length (mm_workers s') = length (mm_workers s)"
  using assms
proof (induction rule: rtranclp_induct)
  case (step y z)
  then have "mm_inv data y" using mm.runs_inv by blast
  then show ?case using mm_step_ok [OF _ step.hyps(2)] step by simp
qed simp

section \<open>The workers finish\<close>

inductive worker_step :: "migration_manager \<Rightarrow> migration_manager \<Rightarrow> bool" where
  "w < length (mm_workers s) \<Longrightarrow> mm_workers s ! w = None \<Longrightarrow> mm_io_queue s \<noteq> [] \<Longrightarrow> worker_step s (mm_worker_take w s)"
| "w < length (mm_workers s) \<Longrightarrow> mm_workers s ! w = Some tid \<Longrightarrow> worker_step s (mm_worker_io env junk w s)"

text \<open>The work left: two steps for a task in the queue, one for a task in the hands of a worker.\<close>

definition busy_workers :: "migration_manager \<Rightarrow> nat" where
  "busy_workers s = length (filter (\<lambda>x. x \<noteq> None) (mm_workers s))"

definition work :: "migration_manager \<Rightarrow> nat" where
  "work s = 2 * length (mm_io_queue s) + busy_workers s"

text \<open>A task that the workers or the device will bring to its end.\<close>

definition attended :: "migration_manager \<Rightarrow> nat \<Rightarrow> bool" where
  "attended s tid \<longleftrightarrow> (\<exists>t. map_of (mm_tasks s) tid = Some t \<and> (mt_state t = QUEUED \<longrightarrow> tid \<in> set (mm_io_queue s)))"

lemma count_update:
  "w < length xs \<Longrightarrow>
     length (filter P (xs[w := y])) + (if P (xs ! w) then 1 else 0) = length (filter P xs) + (if P y then 1 else 0)"
proof (induction xs arbitrary: w)
  case (Cons x xs)
  then show ?case
  proof (cases w)
    case (Suc v)
    then show ?thesis using Cons.IH [of v] Cons.prems by (cases "P (xs ! v)"; cases "P y"; cases "P x") simp_all
  qed simp
qed simp

lemma worker_progress:
  assumes inv: "mm_inv data s" and st: "worker_step s s'"
  shows "mm_inv data s' \<and> work s' < work s \<and> ce_faulted (mm_engine s') = ce_faulted (mm_engine s) \<and>
    length (mm_workers s') = length (mm_workers s) \<and> (attended s tid \<longrightarrow> attended s' tid)"
  using st
proof cases
  case (1 w)
  let ?i = "mm_best s"
  obtain t where t: "map_of (mm_tasks s) ?i = Some t" and s': "s' = mm_put ?i (t\<lparr>mt_state := RUNNING\<rparr>)
      (s\<lparr>mm_io_queue := remove1 ?i (mm_io_queue s), mm_workers := (mm_workers s)[w := Some ?i]\<rparr>)"
    and inv': "mm_inv data s'" using worker_take_ok [OF inv 1(2-4)] 1(1) by blast
  have "length (remove1 ?i (mm_io_queue s)) < length (mm_io_queue s)"
    using mm_best(1) [OF 1(4)] 1(4) by (simp add: length_remove1)
  moreover have "length (filter (\<lambda>x. x \<noteq> None) ((mm_workers s)[w := Some ?i])) = Suc (busy_workers s)"
    using count_update [OF 1(2), of "\<lambda>x. x \<noteq> None" "Some ?i"] 1(3) by (simp add: busy_workers_def)
  ultimately have "work s' < work s" by (simp add: s' work_def busy_workers_def mm_put_def)
  moreover have "attended s' tid" if a: "attended s tid"
  proof (cases "tid = ?i")
    case True
    then show ?thesis by (simp add: attended_def s' mm_put_def update_conv')
  next
    case False
    then show ?thesis using a by (auto simp: attended_def s' mm_put_def update_conv' in_set_remove1)
  qed
  ultimately show ?thesis using inv' by (simp add: s' mm_put_def)
next
  case (2 w tid' env junk)
  obtain t t' where t: "map_of (mm_tasks s) tid' = Some t" "mt_state t = RUNNING" and s': "mm_tasks s' = AList.update tid' t' (mm_tasks s)"
    "mm_io_queue s' = mm_io_queue s" "mm_workers s' = (mm_workers s)[w := None]"
    "ce_faulted (mm_engine s') = ce_faulted (mm_engine s)" and inv': "mm_inv data s'" and mv: "moves s s'"
    using worker_io_ok [OF inv 2(2,3), of env junk] 2(1) by blast
  obtain t'' where "map_of (mm_tasks s') tid' = Some t''" "legal (mt_state t) (mt_state t'')"
    using mv t(1) unfolding moves_def by blast
  then have "legal (mt_state t) (mt_state t')" by (simp add: s'(1) update_conv')
  then have nq: "mt_state t' \<noteq> QUEUED" using t(2) by (auto simp: legal_def terminal_def)
  have "length (filter (\<lambda>x. x \<noteq> None) ((mm_workers s)[w := None])) + 1 = busy_workers s"
    using count_update [OF 2(2), of "\<lambda>x. x \<noteq> None" None] 2(3) by (simp add: busy_workers_def)
  then have "work s' < work s" by (simp add: s' work_def busy_workers_def)
  moreover have "attended s' tid" if "attended s tid"
    using that nq by (auto simp: attended_def s' update_conv')
  ultimately show ?thesis using inv' s'(3,4) by simp
qed

lemma workers_progress:
  assumes "worker_step\<^sup>*\<^sup>* s s'" and "mm_inv data s"
  shows "mm_inv data s' \<and> ce_faulted (mm_engine s') = ce_faulted (mm_engine s) \<and>
    length (mm_workers s') = length (mm_workers s) \<and> (attended s tid \<longrightarrow> attended s' tid)"
  using assms
proof (induction rule: rtranclp_induct)
  case base
  then show ?case by simp
next
  case (step y z)
  then have i: "mm_inv data y" by blast
  from worker_progress [OF i step.hyps(2), of tid] step show ?case by simp
qed

text \<open>Nothing left to do for the workers.\<close>

definition idle :: "migration_manager \<Rightarrow> bool" where
  "idle s \<longleftrightarrow> mm_io_queue s = [] \<and> (\<forall>x \<in> set (mm_workers s). x = None)"

lemma idle_or_step:
  assumes "mm_workers s \<noteq> []" and "\<not> idle s"
  shows "\<exists>s'. worker_step s s'"
proof (cases "\<exists>x \<in> set (mm_workers s). x \<noteq> None")
  case True
  then obtain w tid where "w < length (mm_workers s)" "mm_workers s ! w = Some tid" by (auto simp: in_set_conv_nth)
  then show ?thesis using worker_step.intros(2) by blast
next
  case False
  then have "mm_io_queue s \<noteq> []" "0 < length (mm_workers s)" "mm_workers s ! 0 = None" using assms by (auto simp: idle_def)
  then show ?thesis using worker_step.intros(1) by blast
qed

lemma workers_become_idle:
  assumes "mm_inv data s" and "mm_workers s \<noteq> []"
  shows "\<exists>s'. worker_step\<^sup>*\<^sup>* s s' \<and> idle s'"
  using assms
proof (induction "work s" arbitrary: s rule: less_induct)
  case less
  show ?case
  proof (cases "idle s")
    case True
    then show ?thesis by blast
  next
    case False
    then obtain y where y: "worker_step s y" using idle_or_step less.prems(2) by blast
    note p = worker_progress [OF less.prems(1) y]
    have "mm_workers y \<noteq> []" using p less.prems(2) by (metis length_0_conv)
    then obtain s' where "worker_step\<^sup>*\<^sup>* y s'" "idle s'" using less.hyps [of y] p by blast
    then show ?thesis using y converse_rtranclp_into_rtranclp [of worker_step s y s'] by blast
  qed
qed

lemma no_endless_work:
  assumes "mm_inv data (f 0)" and "\<And>i. worker_step (f i) (f (Suc i))"
  shows False
proof -
  have inv: "mm_inv data (f i)" for i
    by (induction i) (use assms worker_progress in blast)+
  have "work (f i) + i \<le> work (f 0)" for i
  proof (induction i)
    case (Suc i)
    have "work (f (Suc i)) < work (f i)" using worker_progress [OF inv assms(2)] by blast
    then show ?case using Suc by simp
  qed simp
  from this [of "Suc (work (f 0))"] show False by simp
qed

lemma idle_wait:
  assumes inv: "mm_inv data s" and idle: "idle s" and a: "attended s tid"
    and ok: "\<not> ce_faulted (mm_engine s)" "sa_event_sync senv" "io_unlink env"
  shows "\<exists>st s'. mm_wait senv env now tid s = (Inr (Some st), s') \<and> terminal st"
proof -
  obtain t where t: "map_of (mm_tasks s) tid = Some t" "mt_state t \<noteq> QUEUED" using a idle by (auto simp: attended_def idle_def)
  have "mt_io_result t \<noteq> 0" if "mt_state t = RUNNING" "\<not> uses_cuda t"
  proof -
    have tok: "task_ok data s tid t" by (rule mm_invD(7) [OF inv t(1)])
    have "\<not> terminal (mt_state t)" using that(1) by (simp add: terminal_def)
    then have "Some tid \<in> set (mm_workers s) \<longleftrightarrow> mt_io_result t = 0" using tok that unfolding task_ok_def by simp
    then show ?thesis using idle by (auto simp: idle_def)
  qed
  note res = this
  show ?thesis by (rule wait_returns [OF inv t]) (use res ok in blast)+
qed

section \<open>Properties\<close>

text \<open>C35: Migrations never publish wrong bytes and never disturb each other. Take any run in which
  chunks are submitted, polled, awaited and cancelled in any order, worker threads take tasks and
  do their file transfers with any failures, the device works at its own pace or breaks down, and
  other owners of the directory, the memory and the files do what they may. At every moment a
  READY replica in memory holds exactly the bytes of its chunk, and the file of a READY replica
  in the NVMe level is a well-formed chunk file with these bytes. While a task is not finished,
  the directory refuses to remove its source and its destination and to destroy the chunk. Every
  next step moves each task along the states QUEUED, RUNNING and one of COMPLETED, FAILED and
  CANCELLED (or from QUEUED to CANCELLED), never out of a final state, and changes neither its
  chunk nor its locations nor its priority.\<close>

theorem migrations_safe:
  assumes "mm_create env d g c st io_threads = Inr s" and "cd_inv d" "gs_inv g" "hb_inv c"
    and "\<And>k l x. l \<in> {GPU, CPU} \<Longrightarrow> cd_rep d l k = Some x \<Longrightarrow> rp_state x = READY \<Longrightarrow>
      cm_load (At l (loc_slot (rp_location x))) \<lparr>cm_gpu = g, cm_cpu = c\<rparr> = Inr (data k)"
    and "\<And>k x. cd_rep d NVME k = Some x \<Longrightarrow> rp_state x = READY \<Longrightarrow> file_holds (loc_slot (rp_location x)) (data k) st"
    and "\<And>k. length (data k) = hb_chunk_bytes c" and "hb_chunk_bytes c \<le> u64_max"
    and "(mm_step data)\<^sup>*\<^sup>* s s'"
  shows "(\<forall>k l x. mm_rep s' l k = Some x \<longrightarrow> rp_state x = READY \<longrightarrow>
      (l \<in> {GPU, CPU} \<longrightarrow> cm_load (At l (loc_slot (rp_location x))) (mm_memory s') = Inr (data k)) \<and>
      (l = NVME \<longrightarrow> file_holds (loc_slot (rp_location x)) (data k) (mm_store s'))) \<and>
    (\<forall>tid t l now. map_of (mm_tasks s') tid = Some t \<longrightarrow> active t \<longrightarrow> l \<in> {mt_source t, mt_destination t} \<longrightarrow>
      (let d = ce_directory (mm_engine s')
       in cd_remove now (mt_key t) l d = (Inl LogicError, d) \<and> cd_destroy (mt_key t) d = (Inl LogicError, d))) \<and>
    (\<forall>s'' tid t. mm_step data s' s'' \<longrightarrow> map_of (mm_tasks s') tid = Some t \<longrightarrow>
      (\<exists>t'. map_of (mm_tasks s'') tid = Some t' \<and> same_job t t' \<and> legal (mt_state t) (mt_state t')))"
proof -
  have inv: "mm_inv data s'" by (rule mm.runs_inv [OF assms(9) conjunct1 [OF mm_create_inv [OF assms(1-8)]]])
  have nvme: "file_holds (loc_slot (rp_location x)) (data k) (mm_store s')"
    if "mm_rep s' NVME k = Some x" "rp_state x = READY" for k x
    using mm_invD(4) [OF inv] that unfolding files_ok_def by blast
  have guard: "cd_remove now (mt_key t) l d = (Inl LogicError, d) \<and> cd_destroy (mt_key t) d = (Inl LogicError, d)"
    if "map_of (mm_tasks s') tid = Some t" "active t" "l \<in> {mt_source t, mt_destination t}" "d = ce_directory (mm_engine s')" for tid t l now d
    using mm.flight_guarded [OF inv task_flight_of [OF inv that(1,2)] that(4)] that(3) unfolding task_flight_simps by blast
  have mv: "mm_step data s' s'' \<Longrightarrow> moves s' s''" for s'' using mm_step_ok [OF inv] by blast
  show ?thesis
    unfolding Let_def
  proof (intro conjI allI impI)
    show "cm_load (At l (loc_slot (rp_location x))) (mm_memory s') = Inr (data k)"
      if "mm_rep s' l k = Some x" "rp_state x = READY" "l \<in> {GPU, CPU}" for k l x
      by (rule mm.ready_coherent [OF inv that(3,1,2)])
    show "file_holds (loc_slot (rp_location x)) (data k) (mm_store s')"
      if "mm_rep s' l k = Some x" "rp_state x = READY" "l = NVME" for k l x
      by (rule nvme [OF _ that(2)]) (use that in simp)
    show "\<exists>t'. map_of (mm_tasks s'') tid = Some t' \<and> same_job t t' \<and> legal (mt_state t) (mt_state t')"
      if "mm_step data s' s''" "map_of (mm_tasks s') tid = Some t" for s'' tid t
      using mv [OF that(1)] that(2) unfolding moves_def by blast
  qed (use guard [OF _ _ _ refl] in blast)+
qed

text \<open>C36: Migrations finish, under conditions that the statement names. Take any state of such a run
  in which the device has not failed, and a task that is attended: known, and not a QUEUED task
  that has left the queue (a \<open>cancel\<close> whose unlink fails leaves such a task, lemma
  \<open>cancel_strands_task\<close>, and it never finishes). The worker threads can be scheduled so that they
  empty the queue, and however they are scheduled they cannot go on for ever. Once there is
  nothing left for them to do, a call of \<open>wait\<close> on the task finds its condition true, does not
  block and returns a final state, whatever files could not be read or written, provided the
  runtime waits for the event and the file of a cancelled task can be erased. Whether a \<open>wait\<close>
  that went to sleep before is woken up is not part of this claim; the next one shows that it
  may not be.\<close>

theorem migrations_finish:
  assumes "mm_create env d g c st io_threads = Inr s" and "cd_inv d" "gs_inv g" "hb_inv c"
    and "\<And>k l x. l \<in> {GPU, CPU} \<Longrightarrow> cd_rep d l k = Some x \<Longrightarrow> rp_state x = READY \<Longrightarrow>
      cm_load (At l (loc_slot (rp_location x))) \<lparr>cm_gpu = g, cm_cpu = c\<rparr> = Inr (data k)"
    and "\<And>k x. cd_rep d NVME k = Some x \<Longrightarrow> rp_state x = READY \<Longrightarrow> file_holds (loc_slot (rp_location x)) (data k) st"
    and "\<And>k. length (data k) = hb_chunk_bytes c" and "hb_chunk_bytes c \<le> u64_max"
    and "(mm_step data)\<^sup>*\<^sup>* s s'" and "\<not> ce_faulted (mm_engine s')" and "attended s' tid"
  shows "(\<exists>u. worker_step\<^sup>*\<^sup>* s' u \<and> idle u) \<and>
    \<not> (\<exists>f. f 0 = s' \<and> (\<forall>i. worker_step (f i) (f (Suc i)))) \<and>
    (\<forall>u senv env now. worker_step\<^sup>*\<^sup>* s' u \<longrightarrow> \<not> (\<exists>v. worker_step u v) \<longrightarrow> sa_event_sync senv \<longrightarrow> io_unlink env \<longrightarrow>
      (\<exists>st v. mm_wait senv env now tid u = (Inr (Some st), v) \<and> terminal st))"
proof -
  have "mm_inv data s \<and> mm_workers s \<noteq> []" by (rule mm_create_inv [OF assms(1-8)])
  then have start: "mm_inv data s" "mm_workers s \<noteq> []" by blast+
  have inv: "mm_inv data s'" by (rule mm.runs_inv [OF assms(9) start(1)])
  have ws: "mm_workers s' \<noteq> []" using mm_runs_workers [OF assms(9) start(1)] start(2) by (metis length_0_conv)
  have "\<exists>st v. mm_wait senv env now tid u = (Inr (Some st), v) \<and> terminal st"
    if u: "worker_step\<^sup>*\<^sup>* s' u" "\<not> (\<exists>v. worker_step u v)" "sa_event_sync senv" "io_unlink env" for u senv env now
  proof -
    note p = workers_progress [OF u(1) inv, of tid]
    have "mm_workers u \<noteq> []" using p ws by (metis length_0_conv)
    then have "idle u" using idle_or_step u(2) by blast
    then show ?thesis using p assms(10,11) u(3,4) by (intro idle_wait [of data]) simp_all
  qed
  then show ?thesis using workers_become_idle [OF inv ws] no_endless_work [of data] inv by blast
qed

text \<open>For the witnesses: the chunk of \<open>demo_mover\<close> is written to a file.\<close>

definition demo_manager :: migration_manager where
  "demo_manager =
     (case mm_create good_cuda demo_cpu_ready demo_chunk_store (nt_cpu demo_mover) demo_store 1 of Inr s \<Rightarrow> s)"

definition demo_submitted :: migration_manager where
  "demo_submitted = snd (mm_submit good_answers 9 demo_key NVME 1 0 demo_manager)"

lemma demo_manager_start:
  "mm_create good_cuda demo_cpu_ready demo_chunk_store (nt_cpu demo_mover) demo_store 1 = Inr demo_manager"
  "cd_spare NVME (ce_directory (mm_engine demo_manager))" "ce_pins (mm_engine demo_manager) demo_key \<noteq> Some size_max"
  "meta_ok (make_file_meta demo_key 1 0)"
proof -
  have "\<not> isl (mm_create good_cuda demo_cpu_ready demo_chunk_store (nt_cpu demo_mover) demo_store 1)" by code_simp
  then show "mm_create good_cuda demo_cpu_ready demo_chunk_store (nt_cpu demo_mover) demo_store 1 = Inr demo_manager"
    unfolding demo_manager_def by (auto simp: isl_def split: sum.splits)
  show "cd_spare NVME (ce_directory (mm_engine demo_manager))" by code_simp
  show "ce_pins (mm_engine demo_manager) demo_key \<noteq> Some size_max" by code_simp
  show "meta_ok (make_file_meta demo_key 1 0)" by (simp add: meta_ok_def make_file_meta_def demo_key_def)
qed

lemma demo_submitted_run:
  "(mm_step (\<lambda>k. [10, 20]))\<^sup>*\<^sup>* demo_manager demo_submitted"
  "map_of (mm_tasks demo_submitted) 1 \<noteq> None" "mm_io_queue demo_submitted = [1]" "\<not> ce_faulted (mm_engine demo_submitted)"
  "map_option mt_destination (map_of (mm_tasks demo_submitted) 1) = Some NVME"
  "map_option mt_key (map_of (mm_tasks demo_submitted) 1) = Some demo_key"
  "map_option mt_state (map_of (mm_tasks demo_submitted) 1) = Some QUEUED"
proof -
  show "(mm_step (\<lambda>k. [10, 20]))\<^sup>*\<^sup>* demo_manager demo_submitted"
    unfolding demo_submitted_def by (rule r_into_rtranclp, rule mm_step.submit [OF demo_manager_start(2-4)])
  show "map_of (mm_tasks demo_submitted) 1 \<noteq> None" by code_simp
  show "mm_io_queue demo_submitted = [1]" by code_simp
  show "\<not> ce_faulted (mm_engine demo_submitted)" by code_simp
  show "map_option mt_destination (map_of (mm_tasks demo_submitted) 1) = Some NVME" by code_simp
  show "map_option mt_key (map_of (mm_tasks demo_submitted) 1) = Some demo_key" by code_simp
  show "map_option mt_state (map_of (mm_tasks demo_submitted) 1) = Some QUEUED" by code_simp
qed

lemma demo_contents:
  assumes "cd_rep demo_cpu_ready l k = Some x"
  shows "l = CPU \<and> cm_load (At l (loc_slot (rp_location x))) \<lparr>cm_gpu = demo_chunk_store, cm_cpu = nt_cpu demo_mover\<rparr> = Inr [10, 20]"
  using assms by (cases l) (auto simp: cd_rep_def demo_transfer_start(5) demo_record_def replica_at_def demo_mover_def hp_data_def
    peek_def split: if_splits)

lemma demo_bytes: "length ([10, 20] :: memory) = hb_chunk_bytes (nt_cpu demo_mover)" "hb_chunk_bytes (nt_cpu demo_mover) \<le> u64_max"
  by (simp_all add: demo_mover_def u64_max_def)

lemma migrations_safe_witness:
  "cd_remove 5 demo_key NVME (ce_directory (mm_engine demo_submitted)) = (Inl LogicError, ce_directory (mm_engine demo_submitted))"
proof -
  obtain t where t: "map_of (mm_tasks demo_submitted) 1 = Some t" "mt_destination t = NVME" "mt_key t = demo_key" "active t"
    using demo_submitted_run(2,5-7) by (auto simp: terminal_def)
  have "cd_remove 5 (mt_key t) NVME (ce_directory (mm_engine demo_submitted)) = (Inl LogicError, ce_directory (mm_engine demo_submitted))"
    by (rule migrations_safe [OF demo_manager_start(1) demo_transfer_start(2-4) _ _ demo_bytes demo_submitted_run(1),
        THEN conjunct2, THEN conjunct1, unfolded Let_def, rule_format, OF _ _ t(1,4), THEN conjunct1])
      (use demo_contents t(2) in auto)
  then show ?thesis by (simp only: t(3))
qed

lemma migrations_finish_witness:
  "\<exists>u st v. worker_step\<^sup>*\<^sup>* demo_submitted u \<and> mm_wait good_answers good_io 7 1 u = (Inr (Some st), v) \<and> terminal st"
proof -
  have att: "attended demo_submitted 1" using demo_submitted_run(2,3) by (auto simp: attended_def)
  have all: "(\<exists>u. worker_step\<^sup>*\<^sup>* demo_submitted u \<and> idle u) \<and>
    \<not> (\<exists>f. f 0 = demo_submitted \<and> (\<forall>i. worker_step (f i) (f (Suc i)))) \<and>
    (\<forall>u senv env now. worker_step\<^sup>*\<^sup>* demo_submitted u \<longrightarrow> \<not> (\<exists>v. worker_step u v) \<longrightarrow> sa_event_sync senv \<longrightarrow> io_unlink env \<longrightarrow>
      (\<exists>st v. mm_wait senv env now 1 u = (Inr (Some st), v) \<and> terminal st))"
    by (rule migrations_finish [OF demo_manager_start(1) demo_transfer_start(2-4) _ _ demo_bytes demo_submitted_run(1,4) att])
      (use demo_contents in blast)+
  then obtain u where u: "worker_step\<^sup>*\<^sup>* demo_submitted u" "idle u" by blast
  have "\<not> (\<exists>v. worker_step u v)" using u(2) by (auto simp: idle_def all_set_conv_all_nth elim!: worker_step.cases)
  then show ?thesis using all u(1) by (fastforce simp: good_answers_def good_io_def)
qed

end
