(* ===== verification/Io_Wait.thy ===== *)
theory Io_Wait
  imports Main
begin

text \<open>
  The handshake between \<open>wait\<close> of \<open>MigrationManager\<close> and the worker that holds the task
  (\<open>src/v3/migration_manager.cpp\<close>), at the grain of single accesses. The owner locks \<open>io_mu_\<close>,
  tests \<open>io_result\<close> and, if it is still 0, goes to sleep on \<open>io_done_cv_\<close>, which releases the
  mutex. The worker stores the result and then notifies, both without the mutex. A notification
  wakes only a sleeper; spurious wake-ups, which the standard allows but does not promise, are
  left out.
\<close>

datatype iw_waiter = Testing | Decided | Asleep | Returned

datatype iw_worker = Transferring | Stored | Notified

record io_wait =
  iw_result :: int
  iw_waiter :: iw_waiter
  iw_worker :: iw_worker

definition iw_start :: io_wait where
  "iw_start = \<lparr>iw_result = 0, iw_waiter = Testing, iw_worker = Transferring\<rparr>"

inductive iw_step :: "io_wait \<Rightarrow> io_wait \<Rightarrow> bool" where
  store: "iw_worker s = Transferring \<Longrightarrow> r = 1 \<or> r = -1 \<Longrightarrow> iw_step s (s\<lparr>iw_result := r, iw_worker := Stored\<rparr>)"
| notify: "iw_worker s = Stored \<Longrightarrow>
    iw_step s (s\<lparr>iw_worker := Notified, iw_waiter := (if iw_waiter s = Asleep then Testing else iw_waiter s)\<rparr>)"
| test: "iw_waiter s = Testing \<Longrightarrow> iw_step s (s\<lparr>iw_waiter := (if iw_result s \<noteq> 0 then Returned else Decided)\<rparr>)"
| sleep: "iw_waiter s = Decided \<Longrightarrow> iw_step s (s\<lparr>iw_waiter := Asleep\<rparr>)"

code_pred iw_step .

text \<open>The reachable states.\<close>

definition iw_inv :: "io_wait \<Rightarrow> bool" where
  "iw_inv s \<longleftrightarrow> (iw_result s \<noteq> 0 \<longleftrightarrow> iw_worker s \<noteq> Transferring) \<and> (iw_waiter s = Returned \<longrightarrow> iw_result s \<noteq> 0)"

lemma iw_runs_inv: "iw_step\<^sup>*\<^sup>* iw_start s \<Longrightarrow> iw_inv s"
  by (induction rule: rtranclp_induct) (auto simp: iw_inv_def iw_start_def elim!: iw_step.cases)

text \<open>A state without a next step: either the wait has returned, or its wake-up was lost.\<close>

lemma iw_stuck_iff:
  "iw_inv s \<Longrightarrow> \<not> (\<exists>s'. iw_step s s') \<longleftrightarrow> iw_worker s = Notified \<and> (iw_waiter s = Returned \<or> iw_waiter s = Asleep)"
  by (cases "iw_waiter s"; cases "iw_worker s") (auto intro: iw_step.intros elim!: iw_step.cases)

text \<open>C37: \<open>wait\<close> can sleep for ever on a task whose file transfer has ended. If the worker stores the
  result and notifies between the test of the owner and its falling asleep, the notification
  reaches nobody: the owner sleeps although the result is there, and neither of the two has a
  step left. In every other run that comes to its end the wait has returned with the result.\<close>

theorem wait_loses_wakeup:
  "(\<exists>s. iw_step\<^sup>*\<^sup>* iw_start s \<and> iw_waiter s = Asleep \<and> iw_result s = 1 \<and> \<not> (\<exists>s'. iw_step s s')) \<and>
   \<not> (\<exists>s. iw_step\<^sup>*\<^sup>* iw_start s \<and> \<not> (\<exists>s'. iw_step s s') \<and> \<not> (iw_worker s = Notified \<and> iw_result s \<noteq> 0 \<and>
      (iw_waiter s = Returned \<or> iw_waiter s = Asleep)))"
proof
  let ?s = "\<lambda>r o' w. \<lparr>iw_result = r, iw_waiter = o', iw_worker = w\<rparr>"
  have "iw_step iw_start (?s 0 Decided Transferring)"
    using iw_step.test [of iw_start] by (simp add: iw_start_def)
  moreover have "iw_step (?s 0 Decided Transferring) (?s 1 Decided Stored)"
    using iw_step.store [of "?s 0 Decided Transferring" 1] by simp
  moreover have "iw_step (?s 1 Decided Stored) (?s 1 Decided Notified)"
    using iw_step.notify [of "?s 1 Decided Stored"] by simp
  moreover have "iw_step (?s 1 Decided Notified) (?s 1 Asleep Notified)"
    using iw_step.sleep [of "?s 1 Decided Notified"] by simp
  ultimately have run: "iw_step\<^sup>*\<^sup>* iw_start (?s 1 Asleep Notified)"
    by (meson converse_rtranclp_into_rtranclp rtranclp.rtrancl_refl)
  have "\<not> (\<exists>s'. iw_step (?s 1 Asleep Notified) s')" by (auto elim!: iw_step.cases)
  then show "\<exists>s. iw_step\<^sup>*\<^sup>* iw_start s \<and> iw_waiter s = Asleep \<and> iw_result s = 1 \<and> \<not> (\<exists>s'. iw_step s s')"
    using run by (intro exI [of _ "?s 1 Asleep Notified"]) simp
  show "\<not> (\<exists>s. iw_step\<^sup>*\<^sup>* iw_start s \<and> \<not> (\<exists>s'. iw_step s s') \<and> \<not> (iw_worker s = Notified \<and> iw_result s \<noteq> 0 \<and>
      (iw_waiter s = Returned \<or> iw_waiter s = Asleep)))"
  proof
    assume "\<exists>s. iw_step\<^sup>*\<^sup>* iw_start s \<and> \<not> (\<exists>s'. iw_step s s') \<and> \<not> (iw_worker s = Notified \<and> iw_result s \<noteq> 0 \<and>
      (iw_waiter s = Returned \<or> iw_waiter s = Asleep))"
    then obtain s where "iw_step\<^sup>*\<^sup>* iw_start s" and stuck: "\<not> (\<exists>s'. iw_step s s')"
      and no: "\<not> (iw_worker s = Notified \<and> iw_result s \<noteq> 0 \<and> (iw_waiter s = Returned \<or> iw_waiter s = Asleep))" by blast
    then have inv: "iw_inv s" by (blast intro: iw_runs_inv)
    then show False using iw_stuck_iff [OF inv] stuck no by (auto simp: iw_inv_def)
  qed
qed

end
