(* ===== verification/Async_Transfer.thy ===== *)
theory Async_Transfer
  imports Copy_Engine
begin

text \<open>
  \<open>include/kvflux/async_transfer.h\<close>, \<open>src/async_transfer.cpp\<close>: batches of blocks copied between
  a \<open>GpuMemoryPool\<close> and pinned buffers by a stream. \<open>submit\<close> queues the copies and returns; the
  device carries them out at some later moment, which is a step of its own here; \<open>synchronize\<close>
  waits and settles the books. While a batch is under way its blocks hold an extra reference and
  are marked in flight and its buffer is marked busy. The pinned buffers are numbered, because
  the runtime shares their memory with the caller. The milliseconds that the events measure are
  left out of the metrics. Of the destructors, the one of the runtime synchronizes; the others free
  events.
\<close>

section \<open>Data\<close>

record direction_metrics =
  md_bytes :: u64
  md_batches :: u64

record transfer_metrics =
  mx_gpu_to_cpu :: direction_metrics
  mx_cpu_to_gpu :: direction_metrics
  mx_failed_batches :: u64

record batch =
  ba_blocks :: "block_handle list"
  ba_buffer :: nat
  ba_write :: bool

text \<open>A copy that \<open>cudaMemcpyAsync\<close> has queued: device pointer, buffer and offset into it.\<close>

record dma =
  dm_write :: bool
  dm_device :: nat
  dm_buffer :: nat
  dm_host :: nat
  dm_bytes :: nat

text \<open>
  \<open>ar_recycled\<close> counts the finished \<open>Pending\<close> objects kept for their events. \<open>ar_faulted\<close> is a fault
  of the device, as in \<open>Copy_Engine\<close>. \<open>ar_fence\<close> says how many of the queued copies the compute
  stream has to wait for.
\<close>

record async_runtime =
  ar_pool :: gpu_memory_pool
  ar_buffers :: "pinned_buffer list"
  ar_queue :: "dma list"
  ar_faulted :: bool
  ar_fence :: nat
  ar_pending :: "batch list"
  ar_recycled :: nat
  ar_metrics :: transfer_metrics

text \<open>The answers of the CUDA runtime during one call; a fault makes the later calls fail too.\<close>

record transfer_answers =
  xa_create :: bool
  xa_guard :: bool
  xa_begin :: bool
  xa_copy :: "nat \<Rightarrow> bool"
  xa_end :: bool
  xa_sync :: bool
  xa_elapsed :: "nat \<Rightarrow> bool"

definition good_transfer :: transfer_answers where
  "good_transfer = \<lparr>xa_create = True, xa_guard = True, xa_begin = True, xa_copy = (\<lambda>i. True), xa_end = True,
     xa_sync = True, xa_elapsed = (\<lambda>i. True)\<rparr>"

definition no_metrics :: transfer_metrics where
  "no_metrics = \<lparr>mx_gpu_to_cpu = \<lparr>md_bytes = 0, md_batches = 0\<rparr>, mx_cpu_to_gpu = \<lparr>md_bytes = 0, md_batches = 0\<rparr>,
     mx_failed_batches = 0\<rparr>"

text \<open>The two streams are created one after the other.\<close>

definition ar_create :: "cuda \<Rightarrow> cuda \<Rightarrow> gpu_memory_pool \<Rightarrow> pinned_buffer list \<Rightarrow> async_runtime res" where
  "ar_create compute transfer pool buffers =
     bind_res (stream_create compute (gm_device pool)) (\<lambda>_.
     bind_res (stream_create transfer (gm_device pool)) (\<lambda>_.
       Inr \<lparr>ar_pool = pool, ar_buffers = buffers, ar_queue = [], ar_faulted = False, ar_fence = 0, ar_pending = [],
            ar_recycled = 0, ar_metrics = no_metrics\<rparr>))"

section \<open>The device\<close>

definition ar_buffer :: "nat \<Rightarrow> async_runtime \<Rightarrow> pinned_buffer" where
  "ar_buffer i t = ar_buffers t ! i"

definition ar_put_buffer :: "nat \<Rightarrow> pinned_buffer \<Rightarrow> async_runtime \<Rightarrow> async_runtime" where
  "ar_put_buffer i b t = t\<lparr>ar_buffers := (ar_buffers t)[i := b]\<rparr>"

text \<open>\<open>landing\<close>: the bytes that arrive, all of them in the regular case.\<close>

definition dma_source :: "dma \<Rightarrow> async_runtime \<Rightarrow> memory" where
  "dma_source x t =
     (if dm_write x then peek (dm_host x) (dm_bytes x) (pb_memory (ar_buffer (dm_buffer x) t))
      else peek (dm_device x) (dm_bytes x) (gm_base (ar_pool t)))"

definition dma_land :: "dma \<Rightarrow> memory \<Rightarrow> async_runtime \<Rightarrow> async_runtime" where
  "dma_land x bs t =
     (if dm_write x then t\<lparr>ar_pool := (ar_pool t)\<lparr>gm_base := patch (dm_device x) bs (gm_base (ar_pool t))\<rparr>\<rparr>
      else let b = ar_buffer (dm_buffer x) t in
        ar_put_buffer (dm_buffer x) (b\<lparr>pb_memory := patch (dm_host x) bs (pb_memory b)\<rparr>) t)"

definition dma_exec :: "dma \<Rightarrow> async_runtime \<Rightarrow> async_runtime" where
  "dma_exec x t = dma_land x (dma_source x t) t"

definition ar_step :: "async_runtime \<Rightarrow> async_runtime" where
  "ar_step t =
     (case ar_queue t of
        [] \<Rightarrow> t
      | x # q \<Rightarrow> (dma_exec x t)\<lparr>ar_queue := q, ar_fence := ar_fence t - 1\<rparr>)"

text \<open>A fault may interrupt a copy, which leaves anything in its destination.\<close>

definition ar_fault :: "(nat \<Rightarrow> u8) \<Rightarrow> async_runtime \<Rightarrow> async_runtime" where
  "ar_fault junk t =
     (case ar_queue t of [] \<Rightarrow> t | x # q \<Rightarrow> dma_land x (map junk [0..<dm_bytes x]) t)
       \<lparr>ar_queue := [], ar_fence := 0, ar_faulted := True\<rparr>"

text \<open>Waiting for the stream: the device works until the queue is empty.\<close>

definition ar_wait_stream :: "transfer_answers \<Rightarrow> async_runtime \<Rightarrow> unit res \<times> async_runtime" where
  "ar_wait_stream env t =
     (if \<not> xa_sync env \<or> ar_faulted t then (Inl RuntimeError, t)
      else (Inr (), (ar_step ^^ length (ar_queue t)) t))"

section \<open>Finishing\<close>

definition ar_finish_block :: "bool \<Rightarrow> bool \<Rightarrow> block_handle \<Rightarrow> gpu_memory_pool \<Rightarrow> unit res \<times> gpu_memory_pool" where
  "ar_finish_block success write h m =
     (let m = (if write then m\<lparr>gm_initialized := (gm_initialized m)[h_id h := success]\<rparr> else m);
          m = m\<lparr>gm_in_flight := (gm_in_flight m)[h_id h := False]\<rparr>
      in gm_release h m)"

definition ar_finish_batch :: "bool \<Rightarrow> batch \<Rightarrow> async_runtime \<Rightarrow> unit res \<times> async_runtime" where
  "ar_finish_batch success b t =
     (case for_each (ar_finish_block success (ba_write b)) (ba_blocks b) (ar_pool t) of
        (Inl e, m) \<Rightarrow> (Inl Terminated, t\<lparr>ar_pool := m\<rparr>)
      | (Inr u, m) \<Rightarrow>
          (Inr (), (ar_put_buffer (ba_buffer b) ((ar_buffer (ba_buffer b) t)\<lparr>pb_busy := False\<rparr>) t)
                     \<lparr>ar_pool := m, ar_recycled := ar_recycled t + 1\<rparr>))"

text \<open>\<open>finish\<close> is \<open>noexcept\<close>.\<close>

definition ar_finish :: "bool \<Rightarrow> async_runtime \<Rightarrow> unit res \<times> async_runtime" where
  "ar_finish success t =
     (let t = (if success then t
               else t\<lparr>ar_metrics := (ar_metrics t)\<lparr>mx_failed_batches :=
                        mx_failed_batches (ar_metrics t) + of_nat (length (ar_pending t))\<rparr>\<rparr>)
      in and_then (for_each (ar_finish_batch success) (ar_pending t) t)
           (\<lambda>u t. (Inr (), t\<lparr>ar_pending := []\<rparr>)))"

section \<open>Submitting\<close>

fun ar_validate :: "bool \<Rightarrow> nat list \<Rightarrow> block_handle list \<Rightarrow> gpu_memory_pool \<Rightarrow> unit res" where
  "ar_validate write seen [] m = Inr ()"
| "ar_validate write seen (h # hs) m =
     bind_res (gm_device_address h m) (\<lambda>p.
       if h_id h \<in> set seen then Inl InvalidArgument
       else if gm_in_flight m ! h_id h then Inl LogicError
       else if write \<and> (gm_ref_count h m \<noteq> Inr 1 \<or> bm_is_published h (gm_manager m) = Inr True)
         then Inl InvalidArgument
       else if \<not> write \<and> \<not> gm_initialized m ! h_id h then Inl InvalidArgument
       else ar_validate write (h_id h # seen) hs m)"

definition ar_mark :: "bool \<Rightarrow> block_handle \<Rightarrow> gpu_memory_pool \<Rightarrow> gpu_memory_pool" where
  "ar_mark write h m =
     (let m = m\<lparr>gm_in_flight := (gm_in_flight m)[h_id h := True]\<rparr>
      in if write then m\<lparr>gm_initialized := (gm_initialized m)[h_id h := False]\<rparr> else m)"

text \<open>The copy of the block with index \<open>i\<close> of a batch, whose device pointer is \<open>p\<close>.\<close>

definition ar_copy :: "nat \<Rightarrow> batch \<Rightarrow> nat \<Rightarrow> nat \<Rightarrow> dma" where
  "ar_copy block_bytes b i p =
     \<lparr>dm_write = ba_write b, dm_device = p, dm_buffer = ba_buffer b, dm_host = i * block_bytes, dm_bytes = block_bytes\<rparr>"

fun ar_enqueue :: "transfer_answers \<Rightarrow> batch \<Rightarrow> nat \<Rightarrow> block_handle list \<Rightarrow> async_runtime \<Rightarrow> unit res \<times> async_runtime" where
  "ar_enqueue env b i [] t = (Inr (), t)"
| "ar_enqueue env b i (h # hs) t =
     (case gm_device_address h (ar_pool t) of
        Inl e \<Rightarrow> (Inl e, t)
      | Inr p \<Rightarrow>
          if \<not> xa_copy env i \<or> ar_faulted t then (Inl RuntimeError, t)
          else ar_enqueue env b (i + 1) hs
                 (t\<lparr>ar_queue := ar_queue t @ [ar_copy (gm_block_bytes (ar_pool t)) b i p]\<rparr>))"

text \<open>The \<open>try\<close> block that queues the work, and its handler.\<close>

definition ar_launch :: "transfer_answers \<Rightarrow> batch \<Rightarrow> async_runtime \<Rightarrow> unit res \<times> async_runtime" where
  "ar_launch env b t =
     (if \<not> xa_begin env \<or> ar_faulted t then (Inl RuntimeError, t)
      else and_then (ar_enqueue env b 0 (ba_blocks b) t) (\<lambda>u t.
        if \<not> xa_end env \<or> ar_faulted t then (Inl RuntimeError, t) else (Inr (), t)))"

definition ar_abandon :: "transfer_answers \<Rightarrow> exn \<Rightarrow> async_runtime \<Rightarrow> unit res \<times> async_runtime" where
  "ar_abandon env e t = and_then (ar_finish False (snd (ar_wait_stream env t))) (\<lambda>u t. (Inl e, t))"

text \<open>The batch is entered in the books before anything is queued.\<close>

definition ar_enter :: "batch \<Rightarrow> async_runtime \<Rightarrow> async_runtime" where
  "ar_enter b t =
     (ar_put_buffer (ba_buffer b) ((ar_buffer (ba_buffer b) t)\<lparr>pb_busy := True\<rparr>) t)
       \<lparr>ar_pool := fold (ar_mark (ba_write b)) (ba_blocks b) (ar_pool t), ar_pending := ar_pending t @ [b]\<rparr>"

definition ar_submit :: "transfer_answers \<Rightarrow> block_handle list \<Rightarrow> nat \<Rightarrow> bool \<Rightarrow> async_runtime \<Rightarrow> unit res \<times> async_runtime" where
  "ar_submit env blocks buffer write t =
     (let bb = gm_block_bytes (ar_pool t); bytes = pb_size (ar_buffer buffer t) in
      if blocks = [] then (Inl InvalidArgument, t)
      else if bytes div bb \<noteq> length blocks \<or> bytes mod bb \<noteq> 0 then (Inl InvalidArgument, t)
      else if pb_busy (ar_buffer buffer t) then (Inl LogicError, t)
      else case ar_validate write [] blocks (ar_pool t) of
        Inl e \<Rightarrow> (Inl e, t)
      | Inr u \<Rightarrow>
          if ar_recycled t = 0 \<and> \<not> xa_create env then (Inl RuntimeError, t)
          else
            let b = \<lparr>ba_blocks = blocks, ba_buffer = buffer, ba_write = write\<rparr>;
                t = t\<lparr>ar_recycled := ar_recycled t - 1\<rparr> in
            if \<not> xa_guard env then (Inl RuntimeError, t)
            else (case retain_all gm_retain gm_release [] blocks (ar_pool t) of
                (Inl e, m) \<Rightarrow> (Inl e, t\<lparr>ar_pool := m\<rparr>)
              | (Inr u, m) \<Rightarrow>
                  catch_all (ar_launch env b (ar_enter b (t\<lparr>ar_pool := m\<rparr>))) (ar_abandon env)))"

definition ar_write_batch :: "transfer_answers \<Rightarrow> block_handle list \<Rightarrow> nat \<Rightarrow> async_runtime \<Rightarrow> unit res \<times> async_runtime" where
  "ar_write_batch env blocks source t = ar_submit env blocks source True t"

definition ar_read_batch :: "transfer_answers \<Rightarrow> block_handle list \<Rightarrow> nat \<Rightarrow> async_runtime \<Rightarrow> unit res \<times> async_runtime" where
  "ar_read_batch env blocks destination t = ar_submit env blocks destination False t"

definition ar_write_block :: "transfer_answers \<Rightarrow> block_handle \<Rightarrow> nat \<Rightarrow> async_runtime \<Rightarrow> unit res \<times> async_runtime" where
  "ar_write_block env h source t = ar_write_batch env [h] source t"

definition ar_read_block :: "transfer_answers \<Rightarrow> block_handle \<Rightarrow> nat \<Rightarrow> async_runtime \<Rightarrow> unit res \<times> async_runtime" where
  "ar_read_block env h destination t = ar_read_batch env [h] destination t"

section \<open>Synchronizing\<close>

text \<open>The metrics are updated in a copy, which is stored when every event could be read.\<close>

definition ar_account :: "batch \<Rightarrow> async_runtime \<Rightarrow> transfer_metrics \<Rightarrow> transfer_metrics" where
  "ar_account b t m =
     (let n = of_nat (pb_size (ar_buffer (ba_buffer b) t));
          add = (\<lambda>d. d\<lparr>md_bytes := md_bytes d + n, md_batches := md_batches d + 1\<rparr>)
      in if ba_write b then m\<lparr>mx_cpu_to_gpu := add (mx_cpu_to_gpu m)\<rparr> else m\<lparr>mx_gpu_to_cpu := add (mx_gpu_to_cpu m)\<rparr>)"

fun ar_account_all :: "transfer_answers \<Rightarrow> nat \<Rightarrow> batch list \<Rightarrow> async_runtime \<Rightarrow> transfer_metrics \<Rightarrow> transfer_metrics res" where
  "ar_account_all env i [] t m = Inr m"
| "ar_account_all env i (b # bs) t m =
     (if \<not> xa_elapsed env i then Inl RuntimeError else ar_account_all env (i + 1) bs t (ar_account b t m))"

definition ar_settle :: "transfer_answers \<Rightarrow> async_runtime \<Rightarrow> unit res \<times> async_runtime" where
  "ar_settle env t =
     (if \<not> xa_guard env then (Inl RuntimeError, t)
      else and_then (ar_wait_stream env t) (\<lambda>u t.
        case ar_account_all env 0 (ar_pending t) t (ar_metrics t) of
          Inl e \<Rightarrow> (Inl e, t)
        | Inr m \<Rightarrow> (Inr (), t\<lparr>ar_metrics := m\<rparr>)))"

definition ar_synchronize :: "transfer_answers \<Rightarrow> async_runtime \<Rightarrow> unit res \<times> async_runtime" where
  "ar_synchronize env t =
     (case ar_settle env t of
        (Inl e, t) \<Rightarrow> and_then (ar_finish False t) (\<lambda>u t. (Inl e, t))
      | (Inr u, t) \<Rightarrow> ar_finish True t)"

definition ar_destroy :: "transfer_answers \<Rightarrow> async_runtime \<Rightarrow> async_runtime" where
  "ar_destroy env t = snd (ar_synchronize env t)"

text \<open>
  \<open>cudaStreamQuery\<close> on the transfer stream: \<open>None\<close> is \<open>cudaErrorNotReady\<close>, and the answer is only
  used to tell that case from the others.
\<close>

definition ar_query :: "async_runtime \<Rightarrow> unit res option" where
  "ar_query t = (if ar_faulted t then Some (Inl RuntimeError) else if ar_queue t = [] then Some (Inr ()) else None)"

definition ar_pending_batches :: "async_runtime \<Rightarrow> nat" where
  "ar_pending_batches t = length (ar_pending t)"

text \<open>
  Work submitted to the compute stream after this call starts when the copies queued before it
  are done. Destroying the event can fail as well.
\<close>

definition ar_compute_wait :: "transfer_answers \<Rightarrow> async_runtime \<Rightarrow> unit res \<times> async_runtime" where
  "ar_compute_wait env t =
     (if \<not> xa_guard env then (Inl RuntimeError, t)
      else if \<not> xa_create env then (Inl RuntimeError, t)
      else if \<not> xa_begin env \<or> ar_faulted t then (Inl RuntimeError, t)
      else if \<not> xa_copy env 0 then (Inl RuntimeError, t)
      else let t = t\<lparr>ar_fence := length (ar_queue t)\<rparr> in
        if \<not> xa_end env then (Inl RuntimeError, t) else (Inr (), t))"

definition ar_compute_ready :: "async_runtime \<Rightarrow> bool" where
  "ar_compute_ready t \<longleftrightarrow> ar_fence t = 0"

section \<open>Calls of the pool and of the buffers\<close>

definition ar_gm :: "(gpu_memory_pool \<Rightarrow> 'a res \<times> gpu_memory_pool) \<Rightarrow> async_runtime \<Rightarrow> 'a res \<times> async_runtime" where
  "ar_gm f t = (case f (ar_pool t) of (r, m) \<Rightarrow> (r, t\<lparr>ar_pool := m\<rparr>))"

definition ar_pb :: "nat \<Rightarrow> (pinned_buffer \<Rightarrow> 'a res \<times> pinned_buffer) \<Rightarrow> async_runtime \<Rightarrow> 'a res \<times> async_runtime" where
  "ar_pb i f t = (case f (ar_buffer i t) of (r, b) \<Rightarrow> (r, ar_put_buffer i b t))"

end
