(* ===== verification/Async_Invariant.thy ===== *)
theory Async_Invariant
  imports Async_Transfer
begin

text \<open>
  What \<open>AsyncTransferRuntime\<close> keeps true between two calls: its references, its marks on blocks
  and buffers, and what the queued copies will bring. The pool takes part as an instance of
  \<open>ref_counted\<close>. Each operation of the runtime is shown to keep the invariant, on every branch.
\<close>

section \<open>The pool as a reference-counted store\<close>

definition gm_config :: "gpu_memory_pool \<Rightarrow> memory \<times> nat \<times> bool list \<times> nat" where
  "gm_config m = (gm_base m, gm_block_bytes m, gm_in_flight m, gm_total_blocks m)"

abbreviation gm_pub :: "gpu_memory_pool \<Rightarrow> block_handle \<Rightarrow> bool" where
  "gm_pub m \<equiv> bm_pub (gm_manager m)"

lemma gm_put_manager:
  assumes "gm_inv m" and "bm_inv b" and "bm_capacity b = bm_capacity (gm_manager m)"
  shows "gm_inv (m\<lparr>gm_manager := b\<rparr>)" and "gm_config (m\<lparr>gm_manager := b\<rparr>) = gm_config m"
  using assms by (simp_all add: gm_inv_def gm_total_blocks_def gm_config_def)

lemma bm_config_capacity: "bm_config b = bm_config b' \<Longrightarrow> bm_capacity b = bm_capacity b'"
  by (simp add: bm_config_def)

lemma gm_inv_manager: "gm_inv m \<Longrightarrow> bm_inv (gm_manager m)"
  by (simp add: gm_inv_def)

interpretation gm: ref_counted gm_inv "\<lambda>m. gm_refs m" "\<lambda>m. gm_live m" gm_pub gm_config gm_allocate gm_retain gm_release
proof unfold_locales
  fix s s' :: gpu_memory_pool and h g :: block_handle and e
  show "gm_refs s h \<le> size_max" if "gm_inv s" using gm_inv_manager [OF that] by (rule bm.refs_le)
  show "gm_live s h" if "0 < gm_refs s h" using that by (rule bm.refs_live)
  show "gm_inv s' \<and> gm_refs s h = 0 \<and> gm_refs s' = (gm_refs s)(h := 1) \<and> \<not> gm_pub s' h \<and> gm_config s' = gm_config s"
    if "gm_inv s" "gm_allocate s = (Inr h, s')"
    using gm_allocate_ok [OF that] by (simp add: gm_config_def)
  show "gm_pub s' g = gm_pub s g" if "gm_inv s" "gm_allocate s = (Inr h, s')" "0 < gm_refs s g"
    using that bm.alloc_pub [OF gm_inv_manager [OF that(1)]]
    by (auto simp: gm_allocate_def and_then_Inr_iff gm_call_iff)
  show "s' = s" if "gm_inv s" "gm_allocate s = (Inl e, s')"
    using that bm.alloc_err [OF gm_inv_manager [OF that(1)]]
    by (auto simp: gm_allocate_def and_then_Inl_iff gm_call_iff)
  show "gm_inv s' \<and> gm_refs s' = (gm_refs s)(h := gm_refs s h + 1) \<and> gm_config s' = gm_config s"
    "gm_pub s' g = gm_pub s g" "gm_live s h \<and> (gm_live s g \<longrightarrow> gm_live s' g)"
    if I: "gm_inv s" and R: "gm_retain h s = (Inr (), s')"
  proof -
    obtain b where b: "bm_retain h (gm_manager s) = (Inr (), b)" "s' = s\<lparr>gm_manager := b\<rparr>"
      using R by (auto simp: gm_retain_def gm_call_iff)
    note inv = gm_inv_manager [OF I]
    have c: "bm_capacity b = bm_capacity (gm_manager s)" using bm.retain_ok [OF inv b(1)] bm_config_capacity by blast
    have i: "bm_inv b" using bm.retain_ok [OF inv b(1)] by simp
    show "gm_inv s' \<and> gm_refs s' = (gm_refs s)(h := gm_refs s h + 1) \<and> gm_config s' = gm_config s"
      using gm_put_manager [OF I i c] bm.retain_ok [OF inv b(1)] unfolding b(2) by simp
    show "gm_pub s' g = gm_pub s g" using bm.retain_pub [OF inv b(1)] by (simp add: b(2))
    show "gm_live s h \<and> (gm_live s g \<longrightarrow> gm_live s' g)" using bm.retain_live [OF inv b(1)] by (simp add: b(2))
  qed
  show "\<exists>s'. gm_retain h s = (Inr (), s')" if "gm_inv s" "gm_live s h" "gm_refs s h < size_max"
    using bm.retain_total [OF gm_inv_manager [OF that(1)] that(2,3)] by (auto simp: gm_retain_def gm_call_iff)
  show "s' = s" if "gm_inv s" "gm_retain h s = (Inl e, s')"
    using that bm.retain_err [OF gm_inv_manager [OF that(1)]] by (auto simp: gm_retain_def gm_call_iff)
  show "gm_inv s' \<and> gm_refs s' = (gm_refs s)(h := gm_refs s h - 1) \<and> gm_config s' = gm_config s"
    "gm_pub s' g = gm_pub s g"
    if I: "gm_inv s" and R: "gm_release h s = (Inr (), s')"
  proof -
    obtain b where b: "bm_release h (gm_manager s) = (Inr (), b)" "s' = s\<lparr>gm_manager := b\<rparr>"
      using R by (auto simp: gm_release_def gm_call_iff)
    note inv = gm_inv_manager [OF I]
    have c: "bm_capacity b = bm_capacity (gm_manager s)" using bm.free_ok [OF inv b(1)] bm_config_capacity by blast
    have i: "bm_inv b" using bm.free_ok [OF inv b(1)] by simp
    show "gm_inv s' \<and> gm_refs s' = (gm_refs s)(h := gm_refs s h - 1) \<and> gm_config s' = gm_config s"
      using gm_put_manager [OF I i c] bm.free_ok [OF inv b(1)] unfolding b(2) by simp
    show "gm_pub s' g = gm_pub s g" using bm.free_pub [OF inv b(1)] by (simp add: b(2))
  qed
  show "\<exists>s'. gm_release h s = (Inr (), s')" if "gm_inv s" "0 < gm_refs s h"
    using bm.free_total [OF gm_inv_manager [OF that(1)] that(2)] by (auto simp: gm_release_def gm_call_iff)
qed

text \<open>Taking and giving back references touches nothing but the manager.\<close>

lemma gm_release_fields: "gm_release h m = (r, m') \<Longrightarrow> \<exists>b. m' = m\<lparr>gm_manager := b\<rparr>"
  by (auto simp: gm_release_def gm_call_iff)

lemma gm_releases_fields: "for_each gm_release hs m = (r, m') \<Longrightarrow> \<exists>b. m' = m\<lparr>gm_manager := b\<rparr>"
proof (induction hs arbitrary: m)
  case Nil
  then show ?case by (auto intro: exI [of _ "gm_manager m"])
next
  case (Cons h hs)
  obtain q n where q: "gm_release h m = (q, n)" by (metis surj_pair)
  obtain b where n: "n = m\<lparr>gm_manager := b\<rparr>" using gm_release_fields [OF q] by blast
  show ?case
  proof (cases q)
    case (Inr u)
    then have "for_each gm_release hs n = (r, m')" using Cons.prems q by simp
    then show ?thesis using Cons.IH [of n] n by auto
  qed (use Cons.prems q n in auto)
qed

lemma gm_retains_fields: "retain_all gm_retain gm_release held hs m = (r, m') \<Longrightarrow> \<exists>b. m' = m\<lparr>gm_manager := b\<rparr>"
proof (induction hs arbitrary: m held)
  case Nil
  then show ?case by (auto intro: exI [of _ "gm_manager m"])
next
  case (Cons h hs)
  obtain q n where q: "gm_retain h m = (q, n)" by (metis surj_pair)
  obtain b where n: "n = m\<lparr>gm_manager := b\<rparr>" using q by (auto simp: gm_retain_def gm_call_iff)
  show ?case
  proof (cases q)
    case (Inl e)
    obtain p l where p: "for_each gm_release held n = (p, l)" by (metis surj_pair)
    obtain c where "l = n\<lparr>gm_manager := c\<rparr>" using gm_releases_fields [OF p] by blast
    moreover have "m' = l" using Cons.prems q Inl p by (cases p) auto
    ultimately show ?thesis using n by auto
  next
    case (Inr u)
    then have "retain_all gm_retain gm_release (held @ [h]) hs n = (r, m')" using Cons.prems q by simp
    then show ?thesis using Cons.IH [of "held @ [h]" n] n by auto
  qed
qed

lemma gm_same_id:
  assumes "0 < gm_refs m g" and "0 < gm_refs m h" and "h_id g = h_id h"
  shows "g = h"
  using assms by (auto simp: bm_refs_def bm_live_def split: if_splits)

lemma gm_allocate_id:
  assumes "gm_inv m" and "gm_allocate m = (Inr h, m')" and "0 < gm_refs m g"
  shows "h_id g \<noteq> h_id h"
proof
  assume i: "h_id g = h_id h"
  have z: "gm_refs m h = 0" "gm_refs m' = (gm_refs m)(h := 1)" using gm_allocate_ok [OF assms(1,2)] by simp_all
  then have "0 < gm_refs m' g" "0 < gm_refs m' h" using assms(3) by (auto simp: fun_eq_iff)
  from gm_same_id [OF this i] show False using z assms(3) by simp
qed

section \<open>The books\<close>

abbreviation ar_blocks :: "batch list \<Rightarrow> block_handle list" where
  "ar_blocks bs \<equiv> concat (map ba_blocks bs)"

text \<open>\<open>m\<close> and \<open>m'\<close> hold the same bytes and the same published blocks.\<close>

definition gm_same :: "gpu_memory_pool \<Rightarrow> gpu_memory_pool \<Rightarrow> bool" where
  "gm_same m m' \<longleftrightarrow> gm_base m' = gm_base m \<and> gm_block_bytes m' = gm_block_bytes m \<and>
     gm_total_blocks m' = gm_total_blocks m \<and> (\<forall>h. gm_pub m' h = gm_pub m h)"

lemma gm_same_refl [simp]: "gm_same m m"
  by (simp add: gm_same_def)

lemma gm_same_trans: "gm_same m m1 \<Longrightarrow> gm_same m1 m2 \<Longrightarrow> gm_same m m2"
  by (simp add: gm_same_def)

lemma gm_same_block: "gm_same m m' \<Longrightarrow> gm_block m' i = gm_block m i"
  by (simp add: gm_same_def gm_block_def)

lemma gm_lengths:
  "gm_inv m \<Longrightarrow> length (gm_initialized m) = gm_total_blocks m \<and> length (gm_in_flight m) = gm_total_blocks m"
  by (simp add: gm_inv_def)

lemma ar_finish_block_ok:
  assumes inv: "gm_inv m" and pos: "0 < gm_refs m h"
  shows "\<exists>m'. ar_finish_block s w h m = (Inr (), m') \<and> gm_inv m' \<and> gm_same m m' \<and>
    gm_refs m' = (gm_refs m)(h := gm_refs m h - 1) \<and>
    (\<forall>i < gm_total_blocks m. gm_in_flight m' ! i = (gm_in_flight m ! i \<and> i \<noteq> h_id h) \<and>
       gm_initialized m' ! i = (if w \<and> i = h_id h then s else gm_initialized m ! i))"
proof -
  define n where "n = (if w then m\<lparr>gm_initialized := (gm_initialized m)[h_id h := s]\<rparr> else m)"
  define l where "l = n\<lparr>gm_in_flight := (gm_in_flight n)[h_id h := False]\<rparr>"
  have n: "gm_inv n" using gm_put_inv(1) [OF inv] inv by (simp add: n_def)
  have l: "gm_inv l" unfolding l_def by (rule gm_put_inv(2) [OF n])
  have f: "gm_manager l = gm_manager m" "gm_base l = gm_base m" "gm_block_bytes l = gm_block_bytes m"
    "gm_in_flight l = (gm_in_flight m)[h_id h := False]"
    "gm_initialized l = (if w then (gm_initialized m)[h_id h := s] else gm_initialized m)"
    by (simp_all add: l_def n_def)
  have "0 < gm_refs l h" using pos f by simp
  then obtain m' where r: "gm_release h l = (Inr (), m')" using gm.free_total [OF l] by blast
  obtain b where b: "m' = l\<lparr>gm_manager := b\<rparr>" using gm_release_fields [OF r] by blast
  note ok = gm.free_ok [OF l r] gm.free_pub [OF l r]
  have "ar_finish_block s w h m = (Inr (), m')" using r by (simp add: ar_finish_block_def Let_def l_def n_def)
  moreover have "gm_same m m'" using ok f by (simp add: gm_same_def gm_config_def gm_total_blocks_def)
  moreover have "gm_refs m' = (gm_refs m)(h := gm_refs m h - 1)" using ok f by simp
  moreover have "gm_in_flight m' = gm_in_flight l" "gm_initialized m' = gm_initialized l" by (simp_all add: b)
  moreover have "h_id h < gm_total_blocks m" using gm_refs_index pos by blast
  ultimately show ?thesis using ok f gm_lengths [OF inv] by (auto simp: nth_list_update)
qed

lemma ar_finish_blocks_ok:
  assumes "gm_inv m" and "\<And>h. count_list hs h \<le> gm_refs m h"
  shows "\<exists>m'. for_each (ar_finish_block s w) hs m = (Inr (), m') \<and> gm_inv m' \<and> gm_same m m' \<and>
    gm_refs m' = (\<lambda>h. gm_refs m h - count_list hs h) \<and>
    (\<forall>i < gm_total_blocks m. gm_in_flight m' ! i = (gm_in_flight m ! i \<and> i \<notin> h_id ` set hs) \<and>
       gm_initialized m' ! i = (if w \<and> i \<in> h_id ` set hs then s else gm_initialized m ! i))"
  using assms
proof (induction hs arbitrary: m)
  case (Cons h hs)
  have "0 < gm_refs m h" using Cons.prems(2) [of h] by simp
  then obtain n where n: "ar_finish_block s w h m = (Inr (), n)" "gm_inv n" "gm_same m n"
    "gm_refs n = (gm_refs m)(h := gm_refs m h - 1)"
    "\<forall>i < gm_total_blocks m. gm_in_flight n ! i = (gm_in_flight m ! i \<and> i \<noteq> h_id h) \<and>
       gm_initialized n ! i = (if w \<and> i = h_id h then s else gm_initialized m ! i)"
    using ar_finish_block_ok [OF Cons.prems(1), of h s w] by blast
  have "count_list hs g \<le> gm_refs n g" for g using Cons.prems(2) [of g] n(4) by (auto split: if_splits)
  then obtain m' where m': "for_each (ar_finish_block s w) hs n = (Inr (), m')" "gm_inv m'" "gm_same n m'"
    "gm_refs m' = (\<lambda>h. gm_refs n h - count_list hs h)"
    "\<forall>i < gm_total_blocks n. gm_in_flight m' ! i = (gm_in_flight n ! i \<and> i \<notin> h_id ` set hs) \<and>
       gm_initialized m' ! i = (if w \<and> i \<in> h_id ` set hs then s else gm_initialized n ! i)"
    using Cons.IH [OF n(2)] by blast
  have tb: "gm_total_blocks n = gm_total_blocks m" using n(3) by (simp add: gm_same_def)
  have "gm_refs m' = (\<lambda>g. gm_refs m g - count_list (h # hs) g)" using m'(4) n(4) by (auto simp: fun_eq_iff)
  moreover have "for_each (ar_finish_block s w) (h # hs) m = (Inr (), m')" using n(1) m'(1) by simp
  moreover have "gm_in_flight m' ! i = (gm_in_flight m ! i \<and> i \<notin> h_id ` set (h # hs)) \<and>
      gm_initialized m' ! i = (if w \<and> i \<in> h_id ` set (h # hs) then s else gm_initialized m ! i)"
    if "i < gm_total_blocks m" for i
    using n(5) m'(5) that tb by auto
  ultimately show ?case using m'(2) gm_same_trans [OF n(3) m'(3)] by blast
qed (simp add: fun_eq_iff)

text \<open>
  \<open>ar_held own bs t\<close>: the batches \<open>bs\<close> are under way. Every handle has the references of its
  owners and one for a batch that holds it; exactly the blocks of the batches are marked in
  flight, exactly their buffers busy.
\<close>

definition ar_held :: "(block_handle \<Rightarrow> nat) \<Rightarrow> batch list \<Rightarrow> async_runtime \<Rightarrow> bool" where
  "ar_held own bs t \<longleftrightarrow>
     gm_inv (ar_pool t) \<and> distinct (map h_id (ar_blocks bs)) \<and> distinct (map ba_buffer bs) \<and>
     (\<forall>h. gm_refs (ar_pool t) h = own h + count_list (ar_blocks bs) h) \<and>
     (\<forall>i < gm_total_blocks (ar_pool t). gm_in_flight (ar_pool t) ! i = (i \<in> h_id ` set (ar_blocks bs))) \<and>
     (\<forall>i < length (ar_buffers t). pb_busy (ar_buffer i t) = (i \<in> ba_buffer ` set bs)) \<and>
     (\<forall>b \<in> set bs. ba_buffer b < length (ar_buffers t) \<and>
        pb_size (ar_buffer (ba_buffer b) t) = length (ba_blocks b) * gm_block_bytes (ar_pool t))"

lemma ar_heldD:
  assumes "ar_held own bs t"
  shows "gm_inv (ar_pool t)" "distinct (map h_id (ar_blocks bs))" "distinct (map ba_buffer bs)"
    "gm_refs (ar_pool t) h = own h + count_list (ar_blocks bs) h"
    "i < gm_total_blocks (ar_pool t) \<Longrightarrow> gm_in_flight (ar_pool t) ! i = (i \<in> h_id ` set (ar_blocks bs))"
    "j < length (ar_buffers t) \<Longrightarrow> pb_busy (ar_buffer j t) = (j \<in> ba_buffer ` set bs)"
    "b \<in> set bs \<Longrightarrow> ba_buffer b < length (ar_buffers t)"
    "b \<in> set bs \<Longrightarrow> pb_size (ar_buffer (ba_buffer b) t) = length (ba_blocks b) * gm_block_bytes (ar_pool t)"
  using assms by (simp_all add: ar_held_def)

text \<open>The memories of \<open>t\<close> and of \<open>t'\<close> hold the same.\<close>

definition ar_same :: "async_runtime \<Rightarrow> async_runtime \<Rightarrow> bool" where
  "ar_same t t' \<longleftrightarrow> gm_same (ar_pool t) (ar_pool t') \<and> map pb_memory (ar_buffers t') = map pb_memory (ar_buffers t) \<and>
     ar_queue t' = ar_queue t \<and> ar_faulted t' = ar_faulted t \<and> ar_fence t' = ar_fence t"

lemma ar_same_refl [simp]: "ar_same t t"
  by (simp add: ar_same_def)

lemma ar_same_trans: "ar_same t t1 \<Longrightarrow> ar_same t1 t2 \<Longrightarrow> ar_same t t2"
  using gm_same_trans by (auto simp: ar_same_def)

lemma ar_same_buffer:
  assumes "ar_same t t'"
  shows "length (ar_buffers t') = length (ar_buffers t)"
    and "i < length (ar_buffers t) \<Longrightarrow> pb_memory (ar_buffer i t') = pb_memory (ar_buffer i t)"
proof -
  have m: "map pb_memory (ar_buffers t') = map pb_memory (ar_buffers t)" using assms by (simp add: ar_same_def)
  then show l: "length (ar_buffers t') = length (ar_buffers t)" by (metis length_map)
  show "pb_memory (ar_buffer i t') = pb_memory (ar_buffer i t)" if "i < length (ar_buffers t)"
    using arg_cong [OF m, of "\<lambda>xs. xs ! i"] that l by (simp add: ar_buffer_def)
qed

lemma ar_finish_batch_ok:
  assumes held: "ar_held own (b # bs) t"
  shows "\<exists>t'. ar_finish_batch s b t = (Inr (), t') \<and> ar_held own bs t' \<and> ar_same t t' \<and> ar_pending t' = ar_pending t \<and>
    (\<forall>i < gm_total_blocks (ar_pool t). gm_initialized (ar_pool t') ! i =
       (if ba_write b \<and> i \<in> h_id ` set (ba_blocks b) then s else gm_initialized (ar_pool t) ! i))"
proof -
  let ?m = "ar_pool t"
  note h = ar_heldD [OF held]
  have "count_list (ba_blocks b) g \<le> gm_refs ?m g" for g using h(4) [of g] by simp
  then obtain m where m: "for_each (ar_finish_block s (ba_write b)) (ba_blocks b) ?m = (Inr (), m)" "gm_inv m" "gm_same ?m m"
    "gm_refs m = (\<lambda>h. gm_refs ?m h - count_list (ba_blocks b) h)"
    "\<And>i. i < gm_total_blocks ?m \<Longrightarrow> gm_in_flight m ! i = (gm_in_flight ?m ! i \<and> i \<notin> h_id ` set (ba_blocks b)) \<and>
       gm_initialized m ! i = (if ba_write b \<and> i \<in> h_id ` set (ba_blocks b) then s else gm_initialized ?m ! i)"
    using ar_finish_blocks_ok [OF h(1), of "ba_blocks b" s "ba_write b"] by blast
  define t' where "t' = (ar_put_buffer (ba_buffer b) ((ar_buffer (ba_buffer b) t)\<lparr>pb_busy := False\<rparr>) t)
      \<lparr>ar_pool := m, ar_recycled := ar_recycled t + 1\<rparr>"
  have e: "ar_finish_batch s b t = (Inr (), t')" using m(1) by (simp add: ar_finish_batch_def t'_def)
  have f: "ar_pool t' = m" "ar_queue t' = ar_queue t" "ar_faulted t' = ar_faulted t" "ar_fence t' = ar_fence t"
    "ar_pending t' = ar_pending t" "ar_buffers t' = (ar_buffers t)[ba_buffer b := (ar_buffer (ba_buffer b) t)\<lparr>pb_busy := False\<rparr>]"
    by (simp_all add: t'_def ar_put_buffer_def)
  have mem: "map pb_memory (ar_buffers t') = map pb_memory (ar_buffers t)"
    by (simp add: f(6) map_update ar_buffer_def) (metis list_update_id map_update)
  have same: "ar_same t t'" using m(3) f mem by (simp add: ar_same_def)
  have dis: "h_id ` set (ba_blocks b) \<inter> h_id ` set (ar_blocks bs) = {}" using h(2) by auto
  have "gm_refs m h = own h + count_list (ar_blocks bs) h" for h using m(4) h(4) [of h] by simp
  moreover have "gm_in_flight m ! i = (i \<in> h_id ` set (ar_blocks bs))" if "i < gm_total_blocks m" for i
    using m(5) [of i] h(5) [of i] that m(3) dis unfolding gm_same_def by auto
  moreover have "pb_busy (ar_buffer i t') = (i \<in> ba_buffer ` set bs)" if "i < length (ar_buffers t')" for i
    using h(3) h(6) [of i] h(7) [of b] that f(6) by (auto simp: ar_buffer_def nth_list_update)
  moreover have "ba_buffer x < length (ar_buffers t') \<and>
      pb_size (ar_buffer (ba_buffer x) t') = length (ba_blocks x) * gm_block_bytes m" if "x \<in> set bs" for x
    using h(7,8) [of x] that ar_same_buffer [OF same] m(3) by (simp add: pb_size_def gm_same_def)
  ultimately have "ar_held own bs t'" using m(2) h(2,3) f(1) by (simp add: ar_held_def)
  then show ?thesis using e same m(5) f by (metis (no_types, lifting))
qed

lemma ar_finish_all_ok:
  assumes "ar_held own bs t"
  shows "\<exists>t'. for_each (ar_finish_batch s) bs t = (Inr (), t') \<and> ar_held own [] t' \<and> ar_same t t' \<and>
    (\<forall>i < gm_total_blocks (ar_pool t). gm_initialized (ar_pool t') ! i =
       (if \<exists>b \<in> set bs. ba_write b \<and> i \<in> h_id ` set (ba_blocks b) then s else gm_initialized (ar_pool t) ! i))"
  using assms
proof (induction bs arbitrary: t)
  case (Cons b bs)
  obtain n where n: "ar_finish_batch s b t = (Inr (), n)" "ar_held own bs n" "ar_same t n"
    "\<forall>i < gm_total_blocks (ar_pool t). gm_initialized (ar_pool n) ! i =
       (if ba_write b \<and> i \<in> h_id ` set (ba_blocks b) then s else gm_initialized (ar_pool t) ! i)"
    using ar_finish_batch_ok [OF Cons.prems] by blast
  obtain t' where t': "for_each (ar_finish_batch s) bs n = (Inr (), t')" "ar_held own [] t'" "ar_same n t'"
    "\<forall>i < gm_total_blocks (ar_pool n). gm_initialized (ar_pool t') ! i =
       (if \<exists>b \<in> set bs. ba_write b \<and> i \<in> h_id ` set (ba_blocks b) then s else gm_initialized (ar_pool n) ! i)"
    using Cons.IH [OF n(2)] by blast
  have tb: "gm_total_blocks (ar_pool n) = gm_total_blocks (ar_pool t)" using n(3) by (simp add: ar_same_def gm_same_def)
  have "gm_initialized (ar_pool t') ! i =
       (if \<exists>b \<in> set (b # bs). ba_write b \<and> i \<in> h_id ` set (ba_blocks b) then s else gm_initialized (ar_pool t) ! i)"
    if "i < gm_total_blocks (ar_pool t)" for i
    using n(4) t'(4) that tb by auto
  moreover have "for_each (ar_finish_batch s) (b # bs) t = (Inr (), t')" using n(1) t'(1) by simp
  ultimately show ?case using t'(2) ar_same_trans [OF n(3) t'(3)] by blast
qed simp

lemma ar_finish_ok:
  assumes "ar_held own (ar_pending t) t"
  shows "\<exists>t'. ar_finish s t = (Inr (), t') \<and> ar_held own [] t' \<and> ar_same t t' \<and> ar_pending t' = [] \<and>
    (\<forall>i < gm_total_blocks (ar_pool t). gm_initialized (ar_pool t') ! i =
       (if \<exists>b \<in> set (ar_pending t). ba_write b \<and> i \<in> h_id ` set (ba_blocks b) then s else gm_initialized (ar_pool t) ! i))"
proof -
  define n where "n = (if s then t else t\<lparr>ar_metrics := (ar_metrics t)\<lparr>mx_failed_batches :=
                        mx_failed_batches (ar_metrics t) + of_nat (length (ar_pending t))\<rparr>\<rparr>)"
  have f: "ar_pool n = ar_pool t" "ar_buffers n = ar_buffers t" "ar_queue n = ar_queue t" "ar_faulted n = ar_faulted t"
    "ar_fence n = ar_fence t" "ar_pending n = ar_pending t"
    by (simp_all add: n_def)
  have "ar_held own (ar_pending n) n" using assms f by (simp add: ar_held_def ar_buffer_def)
  then obtain m where m: "for_each (ar_finish_batch s) (ar_pending n) n = (Inr (), m)" "ar_held own [] m" "ar_same n m"
    "\<forall>i < gm_total_blocks (ar_pool n). gm_initialized (ar_pool m) ! i =
       (if \<exists>b \<in> set (ar_pending n). ba_write b \<and> i \<in> h_id ` set (ba_blocks b) then s else gm_initialized (ar_pool n) ! i)"
    using ar_finish_all_ok by blast
  have "ar_finish s t = (Inr (), m\<lparr>ar_pending := []\<rparr>)" using m(1) by (simp add: ar_finish_def Let_def n_def [symmetric])
  moreover have "ar_held own [] (m\<lparr>ar_pending := []\<rparr>)" using m(2) by (simp add: ar_held_def ar_buffer_def)
  moreover have "ar_same t (m\<lparr>ar_pending := []\<rparr>)" using m(3) f by (simp add: ar_same_def)
  ultimately show ?thesis using m(4) unfolding f by (intro exI [of _ "m\<lparr>ar_pending := []\<rparr>"]) simp
qed

section \<open>What the queue will do\<close>

text \<open>The copy of one block of a batch, its bytes in the buffer, and whether both sides agree.\<close>

definition ar_dma :: "async_runtime \<Rightarrow> batch \<Rightarrow> nat \<Rightarrow> dma" where
  "ar_dma t b i = ar_copy (gm_block_bytes (ar_pool t)) b i (h_id (ba_blocks b ! i) * gm_block_bytes (ar_pool t))"

definition ar_part :: "async_runtime \<Rightarrow> batch \<Rightarrow> nat \<Rightarrow> memory" where
  "ar_part t b i = peek (i * gm_block_bytes (ar_pool t)) (gm_block_bytes (ar_pool t)) (pb_memory (ar_buffer (ba_buffer b) t))"

definition ar_landed :: "async_runtime \<Rightarrow> batch \<Rightarrow> nat \<Rightarrow> bool" where
  "ar_landed t b i \<longleftrightarrow> gm_block (ar_pool t) (h_id (ba_blocks b ! i)) = ar_part t b i"

text \<open>
  The invariant between two calls. While \<open>submit\<close> queues a batch, what its copies promise holds
  for the batches \<open>P\<close> only.
\<close>

definition ar_inv_on :: "(block_handle \<Rightarrow> nat) \<Rightarrow> batch set \<Rightarrow> async_runtime \<Rightarrow> bool" where
  "ar_inv_on own P t \<longleftrightarrow>
     ar_held own (ar_pending t) t \<and>
     (\<forall>b \<in> set (ar_pending t). \<forall>h \<in> set (ba_blocks b).
        if ba_write b then \<not> gm_initialized (ar_pool t) ! h_id h \<and> \<not> gm_pub (ar_pool t) h
        else gm_initialized (ar_pool t) ! h_id h) \<and>
     (ar_faulted t \<longrightarrow> ar_queue t = []) \<and> ar_fence t \<le> length (ar_queue t) \<and>
     (\<forall>x \<in> set (ar_queue t). \<exists>b \<in> set (ar_pending t). \<exists>i < length (ba_blocks b). x = ar_dma t b i) \<and>
     (\<forall>b \<in> set (ar_pending t) \<inter> P. \<forall>i < length (ba_blocks b).
        ar_faulted t \<or> ar_dma t b i \<in> set (ar_queue t) \<or> ar_landed t b i)"

abbreviation ar_inv :: "(block_handle \<Rightarrow> nat) \<Rightarrow> async_runtime \<Rightarrow> bool" where
  "ar_inv own t \<equiv> ar_inv_on own UNIV t"

lemma ar_invD:
  assumes "ar_inv_on own P t"
  shows "ar_held own (ar_pending t) t"
    "b \<in> set (ar_pending t) \<Longrightarrow> h \<in> set (ba_blocks b) \<Longrightarrow> ba_write b \<Longrightarrow>
       \<not> gm_initialized (ar_pool t) ! h_id h \<and> \<not> gm_pub (ar_pool t) h"
    "b \<in> set (ar_pending t) \<Longrightarrow> h \<in> set (ba_blocks b) \<Longrightarrow> \<not> ba_write b \<Longrightarrow> gm_initialized (ar_pool t) ! h_id h"
    "ar_faulted t \<Longrightarrow> ar_queue t = []" "ar_fence t \<le> length (ar_queue t)"
    "x \<in> set (ar_queue t) \<Longrightarrow> \<exists>b \<in> set (ar_pending t). \<exists>i < length (ba_blocks b). x = ar_dma t b i"
    "b \<in> set (ar_pending t) \<Longrightarrow> b \<in> P \<Longrightarrow> i < length (ba_blocks b) \<Longrightarrow> \<not> ar_faulted t \<Longrightarrow> ar_dma t b i \<notin> set (ar_queue t) \<Longrightarrow> ar_landed t b i"
  using assms by (auto simp: ar_inv_on_def)

text \<open>Blocks and buffers identify the batch.\<close>

lemma ar_held_buffer_eq:
  "ar_held own bs t \<Longrightarrow> b \<in> set bs \<Longrightarrow> c \<in> set bs \<Longrightarrow> ba_buffer b = ba_buffer c \<Longrightarrow> b = c"
  using ar_heldD(3) by (metis distinct_map inj_on_def)

lemma ar_held_block_eq:
  assumes held: "ar_held own bs t" and b: "b \<in> set bs" "i < length (ba_blocks b)" and c: "c \<in> set bs" "j < length (ba_blocks c)"
    and e: "h_id (ba_blocks b ! i) = h_id (ba_blocks c ! j)"
  shows "b = c \<and> i = j"
proof -
  note d = ar_heldD(2) [OF held]
  have "b = c"
  proof (rule ccontr)
    assume ne: "b \<noteq> c"
    obtain as cs where bs: "bs = as @ b # cs" using b(1) by (meson split_list)
    have "c \<in> set as \<union> set cs" using ne c(1) bs by auto
    then have "ba_blocks c ! j \<in> set (ar_blocks as) \<union> set (ar_blocks cs)"
      using nth_mem [OF c(2)] by auto
    moreover have "h_id ` set (ba_blocks b) \<inter> h_id ` (set (ar_blocks as) \<union> set (ar_blocks cs)) = {}"
      using d unfolding bs by (simp add: image_Un Int_Un_distrib Int_commute)
    moreover have "ba_blocks b ! i \<in> set (ba_blocks b)" using b(2) by simp
    ultimately show False using e by (metis IntI empty_iff imageI)
  qed
  moreover have "distinct (map h_id (ba_blocks b))"
    using d split_list [OF b(1)] by auto
  ultimately show ?thesis using b(2) c(2) e by (auto simp: distinct_conv_nth)
qed

lemma ar_held_block:
  assumes held: "ar_held own bs t" and b: "b \<in> set bs" "h \<in> set (ba_blocks b)"
  shows "0 < gm_refs (ar_pool t) h" and "h_id h < gm_total_blocks (ar_pool t)" and "gm_in_flight (ar_pool t) ! h_id h"
proof -
  have "h \<in> set (ar_blocks bs)" using b by auto
  then have "0 < count_list (ar_blocks bs) h" by (metis count_list_0_iff neq0_conv)
  then show r: "0 < gm_refs (ar_pool t) h" using ar_heldD(4) [OF held, of h] by simp
  show i: "h_id h < gm_total_blocks (ar_pool t)" using gm_refs_index [OF r] .
  show "gm_in_flight (ar_pool t) ! h_id h" using ar_heldD(5) [OF held i] b by auto
qed

text \<open>What a copy that arrives changes: one block, or one part of one buffer.\<close>

lemma ar_dma_simps [simp]:
  "dm_write (ar_dma t b i) = ba_write b" "dm_buffer (ar_dma t b i) = ba_buffer b"
  "dm_bytes (ar_dma t b i) = gm_block_bytes (ar_pool t)" "dm_host (ar_dma t b i) = i * gm_block_bytes (ar_pool t)"
  "dm_device (ar_dma t b i) = h_id (ba_blocks b ! i) * gm_block_bytes (ar_pool t)"
  by (simp_all add: ar_dma_def ar_copy_def)

lemma ar_put_buffer_simps [simp]:
  "ar_pool (ar_put_buffer k x t) = ar_pool t" "ar_queue (ar_put_buffer k x t) = ar_queue t"
  "ar_faulted (ar_put_buffer k x t) = ar_faulted t" "ar_fence (ar_put_buffer k x t) = ar_fence t"
  "ar_pending (ar_put_buffer k x t) = ar_pending t" "length (ar_buffers (ar_put_buffer k x t)) = length (ar_buffers t)"
  "k < length (ar_buffers t) \<Longrightarrow> ar_buffer l (ar_put_buffer k x t) = (if l = k then x else ar_buffer l t)"
  by (simp_all add: ar_put_buffer_def ar_buffer_def)

lemma ar_buffer_pool [simp]: "ar_buffer k (t\<lparr>ar_pool := m\<rparr>) = ar_buffer k t"
  by (simp add: ar_buffer_def)

lemma ar_held_cong:
  assumes held: "ar_held own bs t"
    and pool: "gm_inv (ar_pool t')" "gm_manager (ar_pool t') = gm_manager (ar_pool t)"
      "gm_in_flight (ar_pool t') = gm_in_flight (ar_pool t)" "gm_block_bytes (ar_pool t') = gm_block_bytes (ar_pool t)"
    and buf: "length (ar_buffers t') = length (ar_buffers t)"
      "\<And>k. k < length (ar_buffers t) \<Longrightarrow> pb_busy (ar_buffer k t') = pb_busy (ar_buffer k t) \<and>
         pb_size (ar_buffer k t') = pb_size (ar_buffer k t)"
  shows "ar_held own bs t'"
  using ar_heldD [OF held] pool buf by (simp add: ar_held_def gm_total_blocks_def)

lemma dma_land_effect:
  assumes held: "ar_held own (ar_pending t) t" and b: "b \<in> set (ar_pending t)" "i < length (ba_blocks b)"
    and len: "length bs = gm_block_bytes (ar_pool t)"
  defines "t' \<equiv> dma_land (ar_dma t b i) bs t"
  shows "ar_held own (ar_pending t) t'" and "ar_pool t' = (ar_pool t)\<lparr>gm_base := gm_base (ar_pool t')\<rparr>"
    and "ar_queue t' = ar_queue t" and "ar_faulted t' = ar_faulted t" and "ar_fence t' = ar_fence t" and "ar_pending t' = ar_pending t"
    and "length (ar_buffers t') = length (ar_buffers t)"
    and "gm_block (ar_pool t') k = (if ba_write b \<and> k = h_id (ba_blocks b ! i) then bs else gm_block (ar_pool t) k)"
    and "c \<in> set (ar_pending t) \<Longrightarrow> ar_part t' c j = (if \<not> ba_write b \<and> c = b \<and> j = i then bs else ar_part t c j)"
    and "ba_write b \<or> l \<noteq> ba_buffer b \<Longrightarrow> ar_buffer l t' = ar_buffer l t"
proof -
  let ?m = "ar_pool t" and ?h = "ba_blocks b ! i"
  note h = ar_heldD [OF held]
  have id: "h_id ?h < gm_total_blocks ?m" using ar_held_block(2) [OF held b(1)] b(2) by simp
  have n: "ba_buffer b < length (ar_buffers t)" using h(7) [OF b(1)] .
  have sz: "length (pb_memory (ar_buffer (ba_buffer b) t)) = length (ba_blocks b) * gm_block_bytes ?m"
    using h(8) [OF b(1)] by (simp add: pb_size_def)
  have "ar_held own (ar_pending t) t' \<and> ar_pool t' = ?m\<lparr>gm_base := gm_base (ar_pool t')\<rparr> \<and>
    ar_queue t' = ar_queue t \<and> ar_faulted t' = ar_faulted t \<and> ar_fence t' = ar_fence t \<and> ar_pending t' = ar_pending t \<and>
    length (ar_buffers t') = length (ar_buffers t) \<and>
    (\<forall>k. gm_block (ar_pool t') k = (if ba_write b \<and> k = h_id ?h then bs else gm_block ?m k)) \<and>
    (\<forall>c j. c \<in> set (ar_pending t) \<longrightarrow> ar_part t' c j = (if \<not> ba_write b \<and> c = b \<and> j = i then bs else ar_part t c j)) \<and>
    (\<forall>l. ba_write b \<or> l \<noteq> ba_buffer b \<longrightarrow> ar_buffer l t' = ar_buffer l t)"
  proof (cases "ba_write b")
    case True
    have t': "t' = t\<lparr>ar_pool := ?m\<lparr>gm_base := patch (h_id ?h * gm_block_bytes ?m) bs (gm_base ?m)\<rparr>\<rparr>"
      using True by (simp add: t'_def dma_land_def)
    note p = gm_block_patch [OF h(1) id eq_imp_le [OF len]]
    have "gm_inv (ar_pool t')" using gm_put_inv(3) [OF h(1) p(3)] by (simp add: t')
    then have "ar_held own (ar_pending t) t'" by (rule ar_held_cong [OF held]) (simp_all add: t')
    then show ?thesis using True p(1) [OF len] p(2) by (simp add: t' ar_part_def)
  next
    case False
    let ?x = "ar_buffer (ba_buffer b) t"
    let ?mem = "patch (i * gm_block_bytes ?m) bs (pb_memory ?x)"
    have t': "t' = ar_put_buffer (ba_buffer b) (?x\<lparr>pb_memory := ?mem\<rparr>) t"
      using False by (simp add: t'_def dma_land_def Let_def)
    have le: "i * gm_block_bytes ?m + length bs \<le> length (pb_memory ?x)"
      using sz len block_end [OF b(2), of "gm_block_bytes ?m"] by simp
    have "ar_held own (ar_pending t) t'"
      by (rule ar_held_cong [OF held]) (use h(1) n le in \<open>simp_all add: t' pb_size_def\<close>)
    moreover have "ar_part t' c j = (if c = b \<and> j = i then bs else ar_part t c j)" if "c \<in> set (ar_pending t)" for c j
    proof (cases "ba_buffer c = ba_buffer b")
      case True
      then have "c = b" using ar_held_buffer_eq [OF held that b(1)] by simp
      then show ?thesis using n peek_blocks [OF sz b(2) len, of j] by (simp add: ar_part_def t')
    next
      case False
      then show ?thesis using n by (auto simp: ar_part_def t')
    qed
    ultimately show ?thesis using False n by (simp add: t')
  qed
  then show "ar_held own (ar_pending t) t'" "ar_pool t' = ?m\<lparr>gm_base := gm_base (ar_pool t')\<rparr>"
    "ar_queue t' = ar_queue t" "ar_faulted t' = ar_faulted t" "ar_fence t' = ar_fence t" "ar_pending t' = ar_pending t"
    "length (ar_buffers t') = length (ar_buffers t)"
    "gm_block (ar_pool t') k = (if ba_write b \<and> k = h_id (ba_blocks b ! i) then bs else gm_block (ar_pool t) k)"
    "c \<in> set (ar_pending t) \<Longrightarrow> ar_part t' c j = (if \<not> ba_write b \<and> c = b \<and> j = i then bs else ar_part t c j)"
    "ba_write b \<or> l \<noteq> ba_buffer b \<Longrightarrow> ar_buffer l t' = ar_buffer l t"
    by (blast | simp)+
qed

text \<open>The bytes a queued copy carries: those of the block or those in the buffer.\<close>

lemma dma_source_eq:
  "dma_source (ar_dma t b i) t = (if ba_write b then ar_part t b i else gm_block (ar_pool t) (h_id (ba_blocks b ! i)))"
  by (simp add: dma_source_def ar_part_def gm_block_def)

lemma dma_source_length:
  assumes held: "ar_held own (ar_pending t) t" and b: "b \<in> set (ar_pending t)" "i < length (ba_blocks b)"
  shows "length (dma_source (ar_dma t b i) t) = gm_block_bytes (ar_pool t)"
proof (cases "ba_write b")
  case True
  have "length (pb_memory (ar_buffer (ba_buffer b) t)) = length (ba_blocks b) * gm_block_bytes (ar_pool t)"
    using ar_heldD(8) [OF held b(1)] by (simp add: pb_size_def)
  then show ?thesis using True block_end [OF b(2), of "gm_block_bytes (ar_pool t)"] by (simp add: dma_source_eq ar_part_def)
next
  case False
  have "h_id (ba_blocks b ! i) < gm_total_blocks (ar_pool t)" using ar_held_block(2) [OF held b(1)] b(2) by simp
  then show ?thesis using False gm_region [OF ar_heldD(1) [OF held]] by (simp add: dma_source_eq gm_block_def)
qed

lemma ar_dma_pool: "gm_block_bytes (ar_pool t') = gm_block_bytes (ar_pool t) \<Longrightarrow> ar_dma t' b i = ar_dma t b i"
  by (simp add: ar_dma_def)

text \<open>The bytes that a batch under way carries to its destination.\<close>

definition ar_source :: "async_runtime \<Rightarrow> batch \<Rightarrow> nat \<Rightarrow> memory" where
  "ar_source t b i = (if ba_write b then ar_part t b i else gm_block (ar_pool t) (h_id (ba_blocks b ! i)))"

definition ar_target :: "async_runtime \<Rightarrow> batch \<Rightarrow> nat \<Rightarrow> memory" where
  "ar_target t b i = (if ba_write b then gm_block (ar_pool t) (h_id (ba_blocks b ! i)) else ar_part t b i)"

lemma ar_landed_iff: "ar_landed t b i \<longleftrightarrow> ar_target t b i = ar_source t b i"
  by (auto simp: ar_landed_def ar_target_def ar_source_def)

lemma dma_land_source:
  assumes held: "ar_held own (ar_pending t) t" and b: "b \<in> set (ar_pending t)" "i < length (ba_blocks b)"
    and len: "length bs = gm_block_bytes (ar_pool t)" and c: "c \<in> set (ar_pending t)" "j < length (ba_blocks c)"
  shows "ar_source (dma_land (ar_dma t b i) bs t) c j = ar_source t c j"
    and "ar_target (dma_land (ar_dma t b i) bs t) c j = (if c = b \<and> j = i then bs else ar_target t c j)"
proof -
  note e = dma_land_effect [OF held b len]
  have eq: "h_id (ba_blocks c ! j) = h_id (ba_blocks b ! i) \<Longrightarrow> c = b \<and> j = i"
    using ar_held_block_eq [OF held c b] by blast
  show "ar_source (dma_land (ar_dma t b i) bs t) c j = ar_source t c j"
    using eq e(8) [of "h_id (ba_blocks c ! j)"] e(9) [OF c(1), of j] by (auto simp: ar_source_def)
  show "ar_target (dma_land (ar_dma t b i) bs t) c j = (if c = b \<and> j = i then bs else ar_target t c j)"
    using eq e(8) [of "h_id (ba_blocks c ! j)"] e(9) [OF c(1), of j] by (auto simp: ar_target_def)
qed

lemma ar_flags_cong:
  "ar_part (t\<lparr>ar_queue := q, ar_fence := n, ar_faulted := f\<rparr>) = ar_part t"
  "ar_dma (t\<lparr>ar_queue := q, ar_fence := n, ar_faulted := f\<rparr>) = ar_dma t"
  "ar_held own bs (t\<lparr>ar_queue := q, ar_fence := n, ar_faulted := f\<rparr>) = ar_held own bs t"
  "ar_source (t\<lparr>ar_queue := q, ar_fence := n, ar_faulted := f\<rparr>) = ar_source t"
  "ar_target (t\<lparr>ar_queue := q, ar_fence := n, ar_faulted := f\<rparr>) = ar_target t"
  by (simp_all add: fun_eq_iff ar_part_def ar_dma_def ar_held_def ar_source_def ar_target_def ar_buffer_def)

text \<open>
  The device: bytes \<open>bs\<close> arrive for the first copy, and either it is done or the device has
  failed.
\<close>

lemma ar_device_inv:
  assumes inv: "ar_inv_on own P t" and q: "ar_queue t = x # q" and len: "length bs = gm_block_bytes (ar_pool t)"
    and f: "f \<or> bs = dma_source x t"
  defines "t' \<equiv> (dma_land x bs t)\<lparr>ar_queue := (if f then [] else q), ar_fence := (if f then 0 else ar_fence t - 1), ar_faulted := f\<rparr>"
  shows "ar_inv_on own P t'" and "ar_pending t' = ar_pending t"
    and "c \<in> set (ar_pending t) \<Longrightarrow> j < length (ba_blocks c) \<Longrightarrow> ar_source t' c j = ar_source t c j"
    and "gm_manager (ar_pool t') = gm_manager (ar_pool t)"
    and "(\<And>c. c \<in> set (ar_pending t) \<Longrightarrow> ba_write c \<Longrightarrow> k \<notin> h_id ` set (ba_blocks c)) \<Longrightarrow>
      gm_block (ar_pool t') k = gm_block (ar_pool t) k"
    and "l \<notin> ba_buffer ` set (ar_pending t) \<Longrightarrow> ar_buffer l t' = ar_buffer l t"
    and "gm_initialized (ar_pool t') = gm_initialized (ar_pool t)"
proof -
  note d = ar_invD [OF inv]
  obtain b i where b: "b \<in> set (ar_pending t)" "i < length (ba_blocks b)" and x: "x = ar_dma t b i"
    using d(6) [of x] q by auto
  note held = d(1)
  note e = dma_land_effect [OF held b len, folded x]
  note s = dma_land_source [OF held b len, folded x]
  define n where "n = dma_land x bs t"
  have t': "t' = n\<lparr>ar_queue := (if f then [] else q), ar_fence := (if f then 0 else ar_fence t - 1), ar_faulted := f\<rparr>"
    by (simp add: t'_def n_def)
  have bb: "gm_block_bytes (ar_pool n) = gm_block_bytes (ar_pool t)" 
    using arg_cong [OF e(2), of gm_block_bytes] by (simp add: n_def)
  have nf: "\<not> ar_faulted t" using d(4) q by auto
  show pend: "ar_pending t' = ar_pending t" by (simp add: t' n_def e(6))
  show src: "c \<in> set (ar_pending t) \<Longrightarrow> j < length (ba_blocks c) \<Longrightarrow> ar_source t' c j = ar_source t c j" for c j
    using s(1) by (simp add: t' n_def ar_flags_cong)
  show mgr: "gm_manager (ar_pool t') = gm_manager (ar_pool t)"
    using arg_cong [OF e(2), of gm_manager] by (simp add: t' n_def)
  show ini: "gm_initialized (ar_pool t') = gm_initialized (ar_pool t)"
    using arg_cong [OF e(2), of gm_initialized] by (simp add: t' n_def)
  have dma: "ar_dma t' c j = ar_dma t c j" for c j using ar_dma_pool [OF bb] by (simp add: t' ar_flags_cong)
  have land: "ar_landed t' c j" if c: "c \<in> set (ar_pending t)" "j < length (ba_blocks c)" "\<not> f"
    "c = b \<and> j = i \<or> ar_landed t c j" for c j
  proof -
    have bs: "bs = ar_source t b i" using f c(3) by (simp add: x dma_source_eq ar_source_def)
    show ?thesis using c(4) s [OF c(1,2)] bs by (auto simp: ar_landed_iff t' n_def ar_flags_cong)
  qed
  have "ar_held own (ar_pending t') t'" using e(1) pend by (simp add: t' n_def ar_flags_cong)
  moreover have "ar_faulted t' \<or> ar_dma t' c j \<in> set (ar_queue t') \<or> ar_landed t' c j"
    if c: "c \<in> set (ar_pending t)" "j < length (ba_blocks c)" and P: "c \<in> P" for c j
  proof (cases f)
    case False
    have "ar_dma t c j = x \<Longrightarrow> c = b \<and> j = i"
    proof -
      assume a: "ar_dma t c j = x"
      have "0 < gm_block_bytes (ar_pool t)" using ar_heldD(1) [OF held] by (simp add: gm_inv_def)
      then have "h_id (ba_blocks c ! j) = h_id (ba_blocks b ! i)" using arg_cong [OF a, of dm_device] by (simp add: x)
      then show ?thesis using ar_held_block_eq [OF held c b] by blast
    qed
    then show ?thesis using d(7) [OF c(1) P c(2) nf] q land [OF c False] False dma by (auto simp: t')
  qed (simp add: t')
  moreover have "\<exists>c \<in> set (ar_pending t). \<exists>j < length (ba_blocks c). y = ar_dma t' c j" if "y \<in> set (ar_queue t')" for y
    using d(6) [of y] q that dma by (auto simp: t' split: if_splits)
  moreover have "ar_fence t - 1 \<le> length q" using d(5) q by simp
  ultimately show "ar_inv_on own P t'"
    using d(2,3) q pend mgr ini by (simp add: ar_inv_on_def t')
  show "gm_block (ar_pool t') k = gm_block (ar_pool t) k"
    if "\<And>c. c \<in> set (ar_pending t) \<Longrightarrow> ba_write c \<Longrightarrow> k \<notin> h_id ` set (ba_blocks c)"
    using that [OF b(1)] b(2) e(8) [of k] by (auto simp: t' n_def)
  show "l \<notin> ba_buffer ` set (ar_pending t) \<Longrightarrow> ar_buffer l t' = ar_buffer l t"
    using e(10) [of l] b(1) by (auto simp: t' n_def ar_buffer_def)
qed

text \<open>What the device changes: nothing but the destinations of the batches under way.\<close>

definition ar_progress :: "async_runtime \<Rightarrow> async_runtime \<Rightarrow> bool" where
  "ar_progress t t' \<longleftrightarrow>
     ar_pending t' = ar_pending t \<and> gm_manager (ar_pool t') = gm_manager (ar_pool t) \<and>
     gm_initialized (ar_pool t') = gm_initialized (ar_pool t) \<and> gm_block_bytes (ar_pool t') = gm_block_bytes (ar_pool t) \<and>
     length (ar_buffers t') = length (ar_buffers t) \<and>
     (\<forall>l < length (ar_buffers t). pb_size (ar_buffer l t') = pb_size (ar_buffer l t)) \<and>
     (\<forall>c \<in> set (ar_pending t). \<forall>j < length (ba_blocks c). ar_source t' c j = ar_source t c j) \<and>
     (\<forall>k. (\<forall>c \<in> set (ar_pending t). ba_write c \<longrightarrow> k \<notin> h_id ` set (ba_blocks c)) \<longrightarrow>
        gm_block (ar_pool t') k = gm_block (ar_pool t) k) \<and>
     (\<forall>l. (\<forall>c \<in> set (ar_pending t). \<not> ba_write c \<longrightarrow> l \<noteq> ba_buffer c) \<longrightarrow> ar_buffer l t' = ar_buffer l t)"

lemma ar_progress_refl [simp]: "ar_progress t t"
  by (simp add: ar_progress_def)

lemma ar_progress_trans: "ar_progress t t1 \<Longrightarrow> ar_progress t1 t2 \<Longrightarrow> ar_progress t t2"
  by (simp add: ar_progress_def)

lemma ar_device:
  assumes "ar_inv_on own P t" and "ar_queue t = x # q" and "length bs = dm_bytes x" and "f \<or> bs = dma_source x t"
  shows "ar_inv_on own P ((dma_land x bs t)\<lparr>ar_queue := (if f then [] else q), ar_fence := (if f then 0 else ar_fence t - 1), ar_faulted := f\<rparr>) \<and>
    ar_progress t ((dma_land x bs t)\<lparr>ar_queue := (if f then [] else q), ar_fence := (if f then 0 else ar_fence t - 1), ar_faulted := f\<rparr>)"
proof -
  obtain b i where b: "b \<in> set (ar_pending t)" "i < length (ba_blocks b)" and x: "x = ar_dma t b i"
    using ar_invD(6) [OF assms(1), of x] assms(2) by auto
  have len: "length bs = gm_block_bytes (ar_pool t)" using assms(3) x by simp
  note held = ar_invD(1) [OF assms(1)]
  note e = dma_land_effect [OF held b len, folded x]
  note i = ar_device_inv [OF assms(1,2) len assms(4)]
  have 1: "gm_block_bytes (ar_pool (dma_land x bs t)) = gm_block_bytes (ar_pool t)"
    using arg_cong [OF e(2), of gm_block_bytes] by simp
  have 2: "ar_buffer l (dma_land x bs t) = ar_buffer l t" if "\<forall>c \<in> set (ar_pending t). \<not> ba_write c \<longrightarrow> l \<noteq> ba_buffer c" for l
    using e(10) [of l] that b(1) by blast
  have 3: "pb_size (ar_buffer l (dma_land x bs t)) = pb_size (ar_buffer l t)" for l
  proof (cases "l \<in> ba_buffer ` set (ar_pending t)")
    case True
    then obtain c where c: "c \<in> set (ar_pending t)" "l = ba_buffer c" by blast
    then show ?thesis using ar_heldD(8) [OF held c(1)] ar_heldD(8) [OF e(1) c(1)] 1 by simp
  next
    case False
    then show ?thesis using 2 [of l] by fastforce
  qed
  show ?thesis using i(1-5,7) 1 2 3 e(7) by (simp add: ar_progress_def ar_buffer_def)
qed

lemma ar_step_inv:
  assumes inv: "ar_inv_on own P t"
  shows "ar_inv_on own P (ar_step t) \<and> ar_progress t (ar_step t)"
proof (cases "ar_queue t")
  case (Cons x q)
  have nf: "\<not> ar_faulted t" using ar_invD(4) [OF inv] Cons by auto
  obtain b i where b: "b \<in> set (ar_pending t)" "i < length (ba_blocks b)" and x: "x = ar_dma t b i"
    using ar_invD(6) [OF inv, of x] Cons by auto
  have len: "length (dma_source x t) = dm_bytes x"
    unfolding x using dma_source_length [OF ar_invD(1) [OF inv] b] by simp
  have fa: "ar_faulted (dma_land x (dma_source x t) t) = ar_faulted t"
    using dma_land_effect(4) [OF ar_invD(1) [OF inv] b] len by (simp add: x)
  have "ar_step t = (dma_land x (dma_source x t) t)\<lparr>ar_queue := q, ar_fence := ar_fence t - 1, ar_faulted := False\<rparr>"
    using Cons nf fa by (simp add: ar_step_def dma_exec_def)
  then show ?thesis using ar_device [OF inv Cons len, of False] by simp
qed (use inv in \<open>simp add: ar_step_def\<close>)

lemma ar_fault_inv:
  assumes inv: "ar_inv_on own P t"
  shows "ar_inv_on own P (ar_fault junk t) \<and> ar_progress t (ar_fault junk t)"
proof (cases "ar_queue t")
  case Nil
  have "ar_fault junk t = t\<lparr>ar_queue := [], ar_fence := 0, ar_faulted := True\<rparr>" using Nil by (simp add: ar_fault_def)
  then show ?thesis using inv by (simp add: ar_inv_on_def ar_progress_def ar_flags_cong ar_buffer_def)
next
  case (Cons x q)
  then show ?thesis using ar_device [OF inv Cons, of "map junk [0..<dm_bytes x]" True] by (simp add: ar_fault_def)
qed

lemma ar_steps_inv: "ar_inv_on own P t \<Longrightarrow> ar_inv_on own P ((ar_step ^^ n) t) \<and> ar_progress t ((ar_step ^^ n) t)"
proof (induction n)
  case (Suc n)
  then show ?case using ar_step_inv [of own P "(ar_step ^^ n) t"] ar_progress_trans by auto
qed simp

lemma dma_land_queue [simp]: "ar_queue (dma_land x bs t) = ar_queue t" "ar_faulted (dma_land x bs t) = ar_faulted t"
  by (simp_all add: dma_land_def Let_def)

lemma ar_step_queue [simp]: "ar_queue (ar_step t) = tl (ar_queue t)" "ar_faulted (ar_step t) = ar_faulted t"
  by (simp_all add: ar_step_def dma_exec_def split: list.split)

lemma ar_steps_queue: "ar_queue ((ar_step ^^ n) t) = drop n (ar_queue t) \<and> ar_faulted ((ar_step ^^ n) t) = ar_faulted t"
  by (induction n) (simp_all add: drop_Suc tl_drop)

text \<open>
  An answer that waiting has failed is honest when the device has failed: nothing is under way
  any more.
\<close>

definition xa_waits :: "transfer_answers \<Rightarrow> async_runtime \<Rightarrow> bool" where
  "xa_waits env t \<longleftrightarrow> ar_faulted t \<or> xa_guard env \<and> xa_sync env"

lemma ar_wait_stream_inv:
  assumes inv: "ar_inv_on own P t" and w: "xa_waits env t" and r: "ar_wait_stream env t = (r, t')"
  shows "ar_inv_on own P t'" and "ar_progress t t'" and "ar_queue t' = []" and "r = Inr () \<longleftrightarrow> \<not> ar_faulted t'"
proof -
  have "ar_inv_on own P t' \<and> ar_progress t t' \<and> ar_queue t' = [] \<and> (r = Inr () \<longleftrightarrow> \<not> ar_faulted t')"
  proof (cases "ar_faulted t")
    case True
    then show ?thesis using r inv ar_invD(4) [OF inv] by (auto simp: ar_wait_stream_def)
  next
    case False
    then show ?thesis using r w inv ar_steps_inv [OF inv] ar_steps_queue by (auto simp: ar_wait_stream_def xa_waits_def)
  qed
  then show "ar_inv_on own P t'" "ar_progress t t'" "ar_queue t' = []" "r = Inr () \<longleftrightarrow> \<not> ar_faulted t'" by simp_all
qed

text \<open>
  \<open>ar_settled s t t'\<close>: every batch that was under way in \<open>t\<close> is over in \<open>t'\<close>. With success the
  destinations hold what the sources held; without, the blocks that were to be written cannot be
  read.
\<close>

definition ar_settled :: "bool \<Rightarrow> async_runtime \<Rightarrow> async_runtime \<Rightarrow> bool" where
  "ar_settled s t t' \<longleftrightarrow>
     ar_pending t' = [] \<and> ar_queue t' = [] \<and> gm_block_bytes (ar_pool t') = gm_block_bytes (ar_pool t) \<and>
     gm_total_blocks (ar_pool t') = gm_total_blocks (ar_pool t) \<and> length (ar_buffers t') = length (ar_buffers t) \<and>
     (\<forall>h. gm_pub (ar_pool t') h = gm_pub (ar_pool t) h) \<and>
     (\<forall>l < length (ar_buffers t). pb_size (ar_buffer l t') = pb_size (ar_buffer l t)) \<and>
     (\<forall>b \<in> set (ar_pending t). \<forall>i < length (ba_blocks b).
        (ba_write b \<longrightarrow> gm_initialized (ar_pool t') ! h_id (ba_blocks b ! i) = s) \<and>
        (s \<longrightarrow> ar_target t' b i = ar_source t b i)) \<and>
     (\<forall>k < gm_total_blocks (ar_pool t). (\<forall>c \<in> set (ar_pending t). ba_write c \<longrightarrow> k \<notin> h_id ` set (ba_blocks c)) \<longrightarrow>
        gm_block (ar_pool t') k = gm_block (ar_pool t) k \<and> gm_initialized (ar_pool t') ! k = gm_initialized (ar_pool t) ! k) \<and>
     (\<forall>l < length (ar_buffers t). (\<forall>c \<in> set (ar_pending t). \<not> ba_write c \<longrightarrow> l \<noteq> ba_buffer c) \<longrightarrow>
        pb_memory (ar_buffer l t') = pb_memory (ar_buffer l t))"

lemma ar_finish_settles:
  assumes inv: "ar_inv_on own P n" and p: "ar_progress t n" and q: "ar_queue n = []" and s: "s \<Longrightarrow> \<not> ar_faulted n" "s \<Longrightarrow> P = UNIV"
  shows "\<exists>t'. ar_finish s n = (Inr (), t') \<and> ar_inv own t' \<and> ar_settled s t t'"
proof -
  note held = ar_invD(1) [OF inv]
  obtain t' where f: "ar_finish s n = (Inr (), t')" "ar_held own [] t'" "ar_same n t'" "ar_pending t' = []"
    "\<forall>i < gm_total_blocks (ar_pool n). gm_initialized (ar_pool t') ! i =
       (if \<exists>b \<in> set (ar_pending n). ba_write b \<and> i \<in> h_id ` set (ba_blocks b) then s else gm_initialized (ar_pool n) ! i)"
    using ar_finish_ok [OF held] by blast
  have same: "gm_same (ar_pool n) (ar_pool t')" "ar_queue t' = []" "ar_fence t' = 0"
    using f(3) q ar_invD(5) [OF inv] by (simp_all add: ar_same_def)
  have inv': "ar_inv own t'" using f(2,4) same by (simp add: ar_inv_on_def)
  have pr: "ar_pending n = ar_pending t" "gm_manager (ar_pool n) = gm_manager (ar_pool t)"
    "gm_initialized (ar_pool n) = gm_initialized (ar_pool t)" "gm_block_bytes (ar_pool n) = gm_block_bytes (ar_pool t)"
    "length (ar_buffers n) = length (ar_buffers t)"
    using p by (simp_all add: ar_progress_def)
  have tb: "gm_total_blocks (ar_pool n) = gm_total_blocks (ar_pool t)" using pr(2) by (simp add: gm_total_blocks_def)
  have target: "ar_target t' b i = ar_target n b i" if "b \<in> set (ar_pending n)" for b i
    using gm_same_block [OF same(1)] ar_same_buffer(2) [OF f(3) ar_heldD(7) [OF held that]] same(1)
    by (simp add: ar_target_def ar_part_def gm_same_def)
  have landed: "ar_target t' b i = ar_source t b i" if b: "b \<in> set (ar_pending t)" "i < length (ba_blocks b)" "s" for b i
  proof -
    have "ar_landed n b i" using ar_invD(7) [OF inv, of b i] b s q pr(1) by simp
    then show ?thesis using target [of b i] b pr(1) p by (simp add: ar_landed_iff ar_progress_def)
  qed
  have ini: "gm_initialized (ar_pool t') ! h_id (ba_blocks b ! i) = s"
    if b: "b \<in> set (ar_pending t)" "i < length (ba_blocks b)" "ba_write b" for b i
  proof -
    have bn: "b \<in> set (ar_pending n)" "ba_blocks b ! i \<in> set (ba_blocks b)" using b pr(1) by simp_all
    then show ?thesis using f(5) ar_held_block(2) [OF held bn] b(3) by auto
  qed
  have keep: "gm_initialized (ar_pool t') ! k = gm_initialized (ar_pool t) ! k"
    if "k < gm_total_blocks (ar_pool t)" "\<forall>c \<in> set (ar_pending t). ba_write c \<longrightarrow> k \<notin> h_id ` set (ba_blocks c)" for k
    using f(5) that tb pr by auto
  have "ar_settled s t t'"
    unfolding ar_settled_def
  proof (intro conjI)
    show "gm_block_bytes (ar_pool t') = gm_block_bytes (ar_pool t)" "gm_total_blocks (ar_pool t') = gm_total_blocks (ar_pool t)"
      "length (ar_buffers t') = length (ar_buffers t)"
      using same(1) pr(4,5) tb ar_same_buffer(1) [OF f(3)] by (simp_all add: gm_same_def)
    show "\<forall>h. gm_pub (ar_pool t') h = gm_pub (ar_pool t) h" using same(1) pr(2) by (simp add: gm_same_def)
    show "\<forall>l < length (ar_buffers t). pb_size (ar_buffer l t') = pb_size (ar_buffer l t)"
      using ar_same_buffer(2) [OF f(3)] p by (simp add: ar_progress_def pb_size_def)
    show "\<forall>k < gm_total_blocks (ar_pool t). (\<forall>c \<in> set (ar_pending t). ba_write c \<longrightarrow> k \<notin> h_id ` set (ba_blocks c)) \<longrightarrow>
        gm_block (ar_pool t') k = gm_block (ar_pool t) k \<and> gm_initialized (ar_pool t') ! k = gm_initialized (ar_pool t) ! k"
      using keep gm_same_block [OF same(1)] p by (simp add: ar_progress_def)
    show "\<forall>l < length (ar_buffers t). (\<forall>c \<in> set (ar_pending t). \<not> ba_write c \<longrightarrow> l \<noteq> ba_buffer c) \<longrightarrow>
        pb_memory (ar_buffer l t') = pb_memory (ar_buffer l t)"
      using ar_same_buffer(2) [OF f(3)] p by (simp add: ar_progress_def)
  qed (use f(4) same(2) landed ini in auto)
  then show ?thesis using f(1) inv' by blast
qed

lemma ar_settle_cases:
  assumes inv: "ar_inv_on own P t" and w: "xa_waits env t" and r: "ar_settle env t = (r, n)"
  shows "ar_inv_on own P n \<and> ar_progress t n \<and> ar_queue n = [] \<and> (r = Inr () \<longrightarrow> \<not> ar_faulted n) \<and> (r = Inr () \<or> r = Inl RuntimeError)"
proof -
  obtain q l where q: "ar_wait_stream env t = (q, l)" by (metis surj_pair)
  note wt = ar_wait_stream_inv [OF inv w q]
  have qc: "q = Inr () \<or> q = Inl RuntimeError" using q by (auto simp: ar_wait_stream_def split: if_splits)
  have acc: "ar_account_all env i bs s m = Inl e \<Longrightarrow> e = RuntimeError" for i bs s m e
    by (induction env i bs s m rule: ar_account_all.induct) (auto split: if_splits)
  have put: "ar_inv_on own P (l\<lparr>ar_metrics := m\<rparr>) \<and> ar_progress t (l\<lparr>ar_metrics := m\<rparr>)" for m
  proof -
    have "ar_part (l\<lparr>ar_metrics := m\<rparr>) = ar_part l" "ar_dma (l\<lparr>ar_metrics := m\<rparr>) = ar_dma l"
      "ar_source (l\<lparr>ar_metrics := m\<rparr>) = ar_source l" "ar_landed (l\<lparr>ar_metrics := m\<rparr>) = ar_landed l"
      by (simp_all add: fun_eq_iff ar_part_def ar_dma_def ar_source_def ar_landed_def ar_buffer_def)
    then have "ar_inv_on own P (l\<lparr>ar_metrics := m\<rparr>)" "ar_progress l (l\<lparr>ar_metrics := m\<rparr>)"
      using wt(1) by (simp_all add: ar_inv_on_def ar_held_def ar_progress_def ar_buffer_def)
    then show ?thesis using ar_progress_trans [OF wt(2)] by blast
  qed
  show ?thesis
  proof (cases "xa_guard env")
    case False
    then have "r = Inl RuntimeError" "n = t" using r by (simp_all add: ar_settle_def)
    moreover have "ar_queue t = []" using w False ar_invD(4) [OF inv] by (simp add: xa_waits_def)
    ultimately show ?thesis using inv by simp
  next
    case True
    show ?thesis
    proof (cases "ar_account_all env 0 (ar_pending l) l (ar_metrics l)")
      case (Inl e)
      then show ?thesis using True r q wt qc acc [OF Inl] by (auto simp: ar_settle_def)
    next
      case (Inr m)
      then show ?thesis using True r q wt qc put [of m] by (auto simp: ar_settle_def)
    qed
  qed
qed

lemma ar_synchronize_inv:
  assumes inv: "ar_inv own t" and w: "xa_waits env t" and r: "ar_synchronize env t = (r, t')"
  shows "ar_inv own t'" and "ar_settled (r = Inr ()) t t'" and "r = Inr () \<or> r = Inl RuntimeError"
proof -
  obtain q n where q: "ar_settle env t = (q, n)" by (metis surj_pair)
  note s = ar_settle_cases [OF inv w q]
  have fin: "\<exists>t'. ar_finish ok n = (Inr (), t') \<and> ar_inv own t' \<and> ar_settled ok t t'" if "ok \<Longrightarrow> q = Inr ()" for ok
    using ar_finish_settles [of own UNIV n t ok] s that by blast
  have "ar_inv own t' \<and> ar_settled (r = Inr ()) t t' \<and> (r = Inr () \<or> r = Inl RuntimeError)"
  proof (cases q)
    case (Inl e)
    then show ?thesis using r q s fin [of False] by (auto simp: ar_synchronize_def)
  next
    case (Inr u)
    then show ?thesis using r q s fin [of True] by (auto simp: ar_synchronize_def)
  qed
  then show "ar_inv own t'" "ar_settled (r = Inr ()) t t'" "r = Inr () \<or> r = Inl RuntimeError" by simp_all
qed

section \<open>Submitting keeps the books\<close>

lemma ar_validate_ok:
  assumes "ar_validate w seen hs m = Inr ()"
  shows "distinct (map h_id hs) \<and> h_id ` set hs \<inter> set seen = {} \<and>
    (\<forall>h \<in> set hs. 0 < gm_refs m h \<and> \<not> gm_in_flight m ! h_id h \<and> (w \<longrightarrow> gm_refs m h = 1 \<and> \<not> gm_pub m h) \<and>
       (\<not> w \<longrightarrow> gm_initialized m ! h_id h))"
  using assms
proof (induction hs arbitrary: seen)
  case (Cons h hs)
  have live: "0 < gm_refs m h \<Longrightarrow> gm_live m h" using bm_refs_live by blast
  have c: "0 < gm_refs m h" "h_id h \<notin> set seen" "\<not> gm_in_flight m ! h_id h"
    "w \<Longrightarrow> gm_refs m h = 1 \<and> \<not> gm_pub m h" "\<not> w \<Longrightarrow> gm_initialized m ! h_id h"
    "ar_validate w (h_id h # seen) hs m = Inr ()"
    using Cons.prems live
    by (auto simp: gm_device_address_cases gm_ref_count_def bm_ref_count_cases bm_is_published_cases split: if_splits)
  show ?case using Cons.IH [OF c(6)] c(1-5) by auto
qed simp

lemma ar_mark_fold:
  assumes "gm_inv m" and "\<forall>h \<in> set hs. h_id h < gm_total_blocks m"
  shows "gm_inv (fold (ar_mark w) hs m)" and "gm_manager (fold (ar_mark w) hs m) = gm_manager m"
    and "gm_base (fold (ar_mark w) hs m) = gm_base m" and "gm_block_bytes (fold (ar_mark w) hs m) = gm_block_bytes m"
    and "i < gm_total_blocks m \<Longrightarrow> gm_in_flight (fold (ar_mark w) hs m) ! i = (gm_in_flight m ! i \<or> i \<in> h_id ` set hs)"
    and "i < gm_total_blocks m \<Longrightarrow> gm_initialized (fold (ar_mark w) hs m) ! i = (gm_initialized m ! i \<and> (w \<longrightarrow> i \<notin> h_id ` set hs))"
proof -
  have "gm_inv (fold (ar_mark w) hs m) \<and> gm_manager (fold (ar_mark w) hs m) = gm_manager m \<and>
    gm_base (fold (ar_mark w) hs m) = gm_base m \<and> gm_block_bytes (fold (ar_mark w) hs m) = gm_block_bytes m \<and>
    (\<forall>i < gm_total_blocks m. gm_in_flight (fold (ar_mark w) hs m) ! i = (gm_in_flight m ! i \<or> i \<in> h_id ` set hs) \<and>
      gm_initialized (fold (ar_mark w) hs m) ! i = (gm_initialized m ! i \<and> (w \<longrightarrow> i \<notin> h_id ` set hs)))"
    using assms
  proof (induction hs arbitrary: m)
    case (Cons h hs)
    define n where "n = ar_mark w h m"
    have inv: "gm_inv n" using gm_put_inv(1,2) gm_put_inv(1) [OF gm_put_inv(2) [OF Cons.prems(1)]] Cons.prems(1)
      by (simp add: n_def ar_mark_def Let_def)
    have f: "gm_manager n = gm_manager m" "gm_base n = gm_base m" "gm_block_bytes n = gm_block_bytes m"
      "gm_in_flight n = (gm_in_flight m)[h_id h := True]"
      "gm_initialized n = (if w then (gm_initialized m)[h_id h := False] else gm_initialized m)"
      by (simp_all add: n_def ar_mark_def Let_def)
    have tb: "gm_total_blocks n = gm_total_blocks m" using f(1) by (simp add: gm_total_blocks_def)
    have le: "length (gm_in_flight m) = gm_total_blocks m" "length (gm_initialized m) = gm_total_blocks m"
      using gm_lengths [OF Cons.prems(1)] by simp_all
    show ?case
      using Cons.IH [OF inv] Cons.prems(2) f tb le by (auto simp: n_def [symmetric] nth_list_update)
  qed simp
  then show "gm_inv (fold (ar_mark w) hs m)" "gm_manager (fold (ar_mark w) hs m) = gm_manager m"
    "gm_base (fold (ar_mark w) hs m) = gm_base m" "gm_block_bytes (fold (ar_mark w) hs m) = gm_block_bytes m"
    "i < gm_total_blocks m \<Longrightarrow> gm_in_flight (fold (ar_mark w) hs m) ! i = (gm_in_flight m ! i \<or> i \<in> h_id ` set hs)"
    "i < gm_total_blocks m \<Longrightarrow> gm_initialized (fold (ar_mark w) hs m) ! i = (gm_initialized m ! i \<and> (w \<longrightarrow> i \<notin> h_id ` set hs))"
    by simp_all
qed

text \<open>
  \<open>ar_entered b t t'\<close>: the batch \<open>b\<close>, which passed the checks of \<open>submit\<close>, has been added to those
  under way; no byte has moved.
\<close>

definition ar_entered :: "batch \<Rightarrow> async_runtime \<Rightarrow> async_runtime \<Rightarrow> bool" where
  "ar_entered b t t' \<longleftrightarrow>
     ba_blocks b \<noteq> [] \<and> distinct (map h_id (ba_blocks b)) \<and> ba_buffer b < length (ar_buffers t) \<and> \<not> pb_busy (ar_buffer (ba_buffer b) t) \<and>
     pb_size (ar_buffer (ba_buffer b) t) = length (ba_blocks b) * gm_block_bytes (ar_pool t) \<and>
     (\<forall>h \<in> set (ba_blocks b). 0 < gm_refs (ar_pool t) h \<and> \<not> gm_in_flight (ar_pool t) ! h_id h \<and>
        (ba_write b \<longrightarrow> gm_refs (ar_pool t) h = 1 \<and> \<not> gm_pub (ar_pool t) h) \<and> (\<not> ba_write b \<longrightarrow> gm_initialized (ar_pool t) ! h_id h)) \<and>
     ar_pending t' = ar_pending t @ [b] \<and> gm_same (ar_pool t) (ar_pool t') \<and>
     map pb_memory (ar_buffers t') = map pb_memory (ar_buffers t) \<and>
     (\<forall>i < gm_total_blocks (ar_pool t). gm_initialized (ar_pool t') ! i =
        (gm_initialized (ar_pool t) ! i \<and> (ba_write b \<longrightarrow> i \<notin> h_id ` set (ba_blocks b))))"

lemma ar_enter_inv:
  assumes inv: "ar_inv own t" and n: "ba_buffer b < length (ar_buffers t)"
    and ne: "ba_blocks b \<noteq> []" and sz: "pb_size (ar_buffer (ba_buffer b) t) = length (ba_blocks b) * gm_block_bytes (ar_pool t)"
    and nb: "\<not> pb_busy (ar_buffer (ba_buffer b) t)"
    and v: "ar_validate (ba_write b) [] (ba_blocks b) (ar_pool t) = Inr ()"
    and ra: "retain_all gm_retain gm_release [] (ba_blocks b) (ar_pool t) = (Inr (), m)"
    and t': "t' = ar_enter b (t\<lparr>ar_recycled := k, ar_pool := m\<rparr>)"
  shows "ar_inv_on own (set (ar_pending t)) t'" and "ar_entered b t t'"
    and "ar_queue t' = ar_queue t" and "ar_fence t' = ar_fence t" and "ar_faulted t' = ar_faulted t"
proof -
  note d = ar_invD [OF inv]
  note held = d(1)
  note h = ar_heldD [OF held]
  note ok = ar_validate_ok [OF v]
  obtain bm where bm: "m = (ar_pool t)\<lparr>gm_manager := bm\<rparr>" using gm_retains_fields [OF ra] by blast
  have m: "gm_inv m" "gm_config m = gm_config (ar_pool t)"
    "gm_refs m = (\<lambda>h. gm_refs (ar_pool t) h + count_list (ba_blocks b) h)" "\<And>h. gm_pub m h = gm_pub (ar_pool t) h"
    using gm.retain_all_ok [OF h(1) ra] by auto
  have f: "gm_initialized m = gm_initialized (ar_pool t)" "gm_in_flight m = gm_in_flight (ar_pool t)" by (simp_all add: bm)
  have tb: "gm_total_blocks m = gm_total_blocks (ar_pool t)" "gm_base m = gm_base (ar_pool t)" "gm_block_bytes m = gm_block_bytes (ar_pool t)"
    using m(2) by (simp_all add: gm_config_def)
  have idx: "\<forall>h \<in> set (ba_blocks b). h_id h < gm_total_blocks m" using ok gm_refs_index tb(1) by fastforce
  note mk = ar_mark_fold [OF m(1) idx, where w = "ba_write b"]
  have p: "ar_pool t' = fold (ar_mark (ba_write b)) (ba_blocks b) m" "ar_pending t' = ar_pending t @ [b]"
    "length (ar_buffers t') = length (ar_buffers t)"
    by (simp_all add: t' ar_enter_def)
  show q: "ar_queue t' = ar_queue t" "ar_fence t' = ar_fence t" "ar_faulted t' = ar_faulted t"
    by (simp_all add: t' ar_enter_def)
  have buf: "ar_buffer l t' = (if l = ba_buffer b then (ar_buffer l t)\<lparr>pb_busy := True\<rparr> else ar_buffer l t)" for l
    using n by (simp add: t' ar_enter_def ar_put_buffer_def ar_buffer_def)
  have sizes: "pb_size (ar_buffer l t') = pb_size (ar_buffer l t)" for l using buf by (simp add: pb_size_def)
  have mem: "map pb_memory (ar_buffers t') = map pb_memory (ar_buffers t)"
    using buf p(3) by (intro nth_equalityI) (auto simp: ar_buffer_def)
  have tb': "gm_total_blocks (ar_pool t') = gm_total_blocks (ar_pool t)" using mk(2) p(1) tb(1) by (simp add: gm_total_blocks_def)
  have same: "gm_same (ar_pool t) (ar_pool t')" using p(1) mk(2-4) tb tb' m(4) by (simp add: gm_same_def)
  have "h_id g \<notin> h_id ` set (ar_blocks (ar_pending t))" if "g \<in> set (ba_blocks b)" for g
    using h(5) [of "h_id g"] idx ok that tb(1) by simp
  then have fresh: "h_id ` set (ba_blocks b) \<inter> h_id ` set (ar_blocks (ar_pending t)) = {}" by blast
  have nbuf: "ba_buffer b \<notin> ba_buffer ` set (ar_pending t)" using h(6) [OF n] nb by blast
  have held': "ar_held own (ar_pending t') t'"
    unfolding ar_held_def
  proof (intro conjI)
    show "gm_inv (ar_pool t')" using mk(1) p(1) by simp
    show "distinct (map h_id (ar_blocks (ar_pending t')))" using ok h(2) fresh p(2) by (auto simp: Int_commute)
    show "distinct (map ba_buffer (ar_pending t'))" using h(3) nbuf p(2) by simp
    show "\<forall>g. gm_refs (ar_pool t') g = own g + count_list (ar_blocks (ar_pending t')) g"
      using h(4) m(3) mk(2) p by simp
    show "\<forall>i < gm_total_blocks (ar_pool t'). gm_in_flight (ar_pool t') ! i = (i \<in> h_id ` set (ar_blocks (ar_pending t')))"
      using h(5) mk(5) tb tb' p f(2) by auto
    show "\<forall>i < length (ar_buffers t'). pb_busy (ar_buffer i t') = (i \<in> ba_buffer ` set (ar_pending t'))"
      using h(6) buf p(2,3) by simp
    show "\<forall>c \<in> set (ar_pending t'). ba_buffer c < length (ar_buffers t') \<and>
        pb_size (ar_buffer (ba_buffer c) t') = length (ba_blocks c) * gm_block_bytes (ar_pool t')"
      using h(7,8) n sz sizes p(2,3) same by (auto simp: gm_same_def simp del: mult_cancel2)
  qed
  have bb: "gm_block_bytes (ar_pool t') = gm_block_bytes (ar_pool t)" using same by (simp add: gm_same_def)
  have ini: "gm_initialized (ar_pool t') ! i = (gm_initialized (ar_pool t) ! i \<and> (ba_write b \<longrightarrow> i \<notin> h_id ` set (ba_blocks b)))"
    if "i < gm_total_blocks (ar_pool t)" for i
    using mk(6) that tb p(1) f by simp
  show ent: "ar_entered b t t'" using ne ok n nb sz p(2) same mem ini by (simp add: ar_entered_def)
  have part: "ar_part t' c i = ar_part t c i" if "c \<in> set (ar_pending t)" for c i
    using that bb buf by (simp add: ar_part_def)
  have flag: "if ba_write c then \<not> gm_initialized (ar_pool t') ! h_id g \<and> \<not> gm_pub (ar_pool t') g else gm_initialized (ar_pool t') ! h_id g"
    if "c \<in> set (ar_pending t')" "g \<in> set (ba_blocks c)" for c g
  proof -
    have i: "h_id g < gm_total_blocks (ar_pool t)" using ar_held_block(2) [OF held' that] tb' by simp
    show ?thesis
    proof (cases "c = b")
      case True
      then show ?thesis using that ok ini [OF i] same by (auto simp: gm_same_def)
    next
      case False
      then have c: "c \<in> set (ar_pending t)" using that p(2) by simp
      then have "h_id g \<notin> h_id ` set (ba_blocks b)" using fresh that(2) by auto
      then show ?thesis using d(2,3) [OF c that(2)] ini [OF i] same by (auto simp: gm_same_def)
    qed
  qed
  have dma: "ar_dma t' = ar_dma t" using ar_dma_pool [OF bb] by (simp add: fun_eq_iff)
  show "ar_inv_on own (set (ar_pending t)) t'"
    unfolding ar_inv_on_def
  proof (intro conjI)
    show "\<forall>x \<in> set (ar_queue t'). \<exists>c \<in> set (ar_pending t'). \<exists>i < length (ba_blocks c). x = ar_dma t' c i"
      using d(6) q p(2) dma by auto
    show "\<forall>c \<in> set (ar_pending t') \<inter> set (ar_pending t). \<forall>i < length (ba_blocks c).
        ar_faulted t' \<or> ar_dma t' c i \<in> set (ar_queue t') \<or> ar_landed t' c i"
      using d(7) q dma part gm_same_block [OF same] by (auto simp: ar_landed_def)
  qed (use held' flag d(4,5) q in auto)
qed

text \<open>Some of the copies of the batch are queued, all of them when \<open>ar_enqueue\<close> succeeds.\<close>

lemma ar_enqueue_cases:
  assumes "ar_enqueue env b i hs t = (r, t')" and "\<forall>h \<in> set hs. 0 < gm_refs (ar_pool t) h"
    and "hs = drop i (ba_blocks b)" and "i \<le> length (ba_blocks b)"
  shows "\<exists>k. i \<le> k \<and> k \<le> length (ba_blocks b) \<and> t' = t\<lparr>ar_queue := ar_queue t @ map (ar_dma t b) [i..<k]\<rparr> \<and>
    (r = Inr () \<and> k = length (ba_blocks b) \<or> r = Inl RuntimeError)"
  using assms
proof (induction env b i hs t arbitrary: r rule: ar_enqueue.induct)
  case (1 env b i t)
  then show ?case by (intro exI [of _ i]) simp
next
  case (2 env b i h hs t)
  have lt: "i < length (ba_blocks b)" using 2(4) by (metis drop_all list.distinct(1) not_le)
  have "h # hs = ba_blocks b ! i # drop (i + 1) (ba_blocks b)"
    using 2(4) Cons_nth_drop_Suc [OF lt] by (metis Suc_eq_plus1)
  then have h: "h = ba_blocks b ! i" "hs = drop (i + 1) (ba_blocks b)" by simp_all
  have a: "gm_device_address h (ar_pool t) = Inr (h_id h * gm_block_bytes (ar_pool t))"
    using 2(3) by (simp add: gm_device_address_cases)
  show ?case
  proof (cases "\<not> xa_copy env i \<or> ar_faulted t")
    case True
    then show ?thesis using 2(2) a lt by (intro exI [of _ i]) auto
  next
    case False
    define n where "n = t\<lparr>ar_queue := ar_queue t @ [ar_copy (gm_block_bytes (ar_pool t)) b i (h_id h * gm_block_bytes (ar_pool t))]\<rparr>"
    have n: "n = t\<lparr>ar_queue := ar_queue t @ [ar_dma t b i]\<rparr>" by (simp add: n_def ar_dma_def h(1))
    have e: "ar_enqueue env b (i + 1) hs n = (r, t')" using 2(2) a False by (simp add: n_def)
    obtain k where k: "i + 1 \<le> k" "k \<le> length (ba_blocks b)" "t' = n\<lparr>ar_queue := ar_queue n @ map (ar_dma n b) [i + 1..<k]\<rparr>"
      "r = Inr () \<and> k = length (ba_blocks b) \<or> r = Inl RuntimeError"
      using 2(1) [OF a False, folded n_def, OF e] 2(3) h(2) lt n by auto
    have "ar_dma n = ar_dma t" by (simp add: n ar_dma_def fun_eq_iff)
    then have "t' = t\<lparr>ar_queue := ar_queue t @ map (ar_dma t b) [i..<k]\<rparr>" using k n upt_conv_Cons [of i k] by simp
    then show ?thesis using k by (intro exI [of _ k]) simp
  qed
qed

lemma ar_queue_inv:
  assumes inv: "ar_inv_on own P t" and b: "b \<in> set (ar_pending t)" and nf: "\<not> ar_faulted t" and k: "k \<le> length (ba_blocks b)"
    and Q: "Q = P \<or> k = length (ba_blocks b) \<and> set (ar_pending t) \<inter> Q \<subseteq> insert b P"
  shows "ar_inv_on own Q (t\<lparr>ar_queue := ar_queue t @ map (ar_dma t b) [0..<k]\<rparr>)"
proof -
  note d = ar_invD [OF inv]
  define n where "n = t\<lparr>ar_queue := ar_queue t @ map (ar_dma t b) [0..<k]\<rparr>"
  have f: "ar_dma n = ar_dma t" "ar_landed n = ar_landed t" "ar_held own bs n = ar_held own bs t" for bs
    by (simp_all add: n_def fun_eq_iff ar_dma_def ar_landed_def ar_part_def ar_held_def ar_buffer_def)
  have g: "ar_pending n = ar_pending t" "ar_pool n = ar_pool t" "ar_faulted n = ar_faulted t" "ar_fence n = ar_fence t"
    "ar_queue n = ar_queue t @ map (ar_dma t b) [0..<k]"
    by (simp_all add: n_def)
  have "\<exists>c \<in> set (ar_pending t). \<exists>i < length (ba_blocks c). x = ar_dma t c i" if "x \<in> set (ar_queue n)" for x
  proof (cases "x \<in> set (ar_queue t)")
    case False
    then have "x \<in> ar_dma t b ` set [0..<k]" using that by (simp add: g)
    then obtain i where "i < k" "x = ar_dma t b i" by auto
    then have "i < length (ba_blocks b)" using k by simp
    then show ?thesis using b \<open>x = ar_dma t b i\<close> by blast
  qed (use d(6) in blast)
  moreover have "ar_dma t c i \<in> set (ar_queue n) \<or> ar_landed t c i"
    if "c \<in> set (ar_pending t)" "c \<in> Q" "i < length (ba_blocks c)" for c i
    using that d(7) [of c i] nf Q by (fastforce simp: g)
  ultimately have "ar_inv_on own Q n" unfolding ar_inv_on_def f g using d(1-3,5) nf by simp
  then show ?thesis by (simp add: n_def)
qed

lemma ar_launch_cases:
  assumes inv: "ar_inv_on own P t" and b: "b \<in> set (ar_pending t)" and P: "set (ar_pending t) \<subseteq> insert b P"
    and r: "ar_launch env b t = (r, t')"
  shows "(r = Inr () \<and> ar_inv own t' \<or> r = Inl RuntimeError \<and> ar_inv_on own P t') \<and>
    (\<exists>q. t' = t\<lparr>ar_queue := ar_queue t @ q\<rparr> \<and> (r = Inr () \<longrightarrow> q = map (ar_dma t b) [0..<length (ba_blocks b)]))"
proof (cases "\<not> xa_begin env \<or> ar_faulted t")
  case True
  then show ?thesis using r inv by (auto simp: ar_launch_def intro: exI [of _ "[]"])
next
  case False
  obtain q n where q: "ar_enqueue env b 0 (ba_blocks b) t = (q, n)" by (metis surj_pair)
  have "\<forall>h \<in> set (ba_blocks b). 0 < gm_refs (ar_pool t) h" using ar_held_block(1) [OF ar_invD(1) [OF inv] b] by blast
  from ar_enqueue_cases [OF q this] obtain k where k: "k \<le> length (ba_blocks b)"
    "n = t\<lparr>ar_queue := ar_queue t @ map (ar_dma t b) [0..<k]\<rparr>" "q = Inr () \<and> k = length (ba_blocks b) \<or> q = Inl RuntimeError"
    by auto
  have part: "ar_inv_on own P n" using ar_queue_inv [OF inv b _ k(1), of P] False k(2) by simp
  show ?thesis
  proof (cases "q = Inr () \<and> xa_end env \<and> \<not> ar_faulted n")
    case True
    then have full: "k = length (ba_blocks b)" using k(3) by auto
    have "ar_inv own n" using ar_queue_inv [OF inv b _ k(1), of UNIV] False full P k(2) by simp
    then show ?thesis using r q True False full k(2) by (auto simp: ar_launch_def)
  next
    case fail: False
    then have "r = Inl RuntimeError" "t' = n" using r q False k(3) by (auto simp: ar_launch_def split: if_splits)
    then show ?thesis using part k(2) by auto
  qed
qed

text \<open>All that \<open>submit\<close> can do.\<close>

lemma ar_submit_cases:
  assumes inv: "ar_inv own t" and n: "buffer < length (ar_buffers t)" and w: "xa_waits env t"
    and s: "ar_submit env blocks buffer wr t = (r, t')"
  defines "b \<equiv> \<lparr>ba_blocks = blocks, ba_buffer = buffer, ba_write = wr\<rparr>"
  shows "ar_inv own t'" and
    "r = Inr () \<and> ar_entered b t t' \<and> ar_queue t' = ar_queue t @ map (ar_dma t b) [0..<length blocks] \<and> ar_fence t' = ar_fence t \<or>
     (\<exists>e t1. r = Inl e \<and> ar_entered b t t1 \<and> ar_settled False t1 t') \<or>
     (\<exists>e. r = Inl e \<and> ar_same t t' \<and> ar_pending t' = ar_pending t \<and> gm_initialized (ar_pool t') = gm_initialized (ar_pool t))"
proof -
  let ?bb = "gm_block_bytes (ar_pool t)" and ?m = "ar_pool t"
  note held = ar_invD(1) [OF inv]
  have field: "ar_inv own (t\<lparr>ar_recycled := k, ar_pool := m\<rparr>)"
    if c: "gm_inv m" "m = ?m\<lparr>gm_manager := bm\<rparr>" "gm_same ?m m" "gm_refs m = gm_refs ?m" for k m bm
  proof -
    define l where "l = t\<lparr>ar_recycled := k, ar_pool := m\<rparr>"
    have e: "ar_dma l = ar_dma t" "ar_landed l = ar_landed t"
      using c(3) gm_same_block [OF c(3)] by (simp_all add: fun_eq_iff l_def ar_dma_def ar_landed_def ar_part_def ar_buffer_def gm_same_def)
    have g: "gm_initialized m = gm_initialized ?m" "gm_in_flight m = gm_in_flight ?m" "\<And>h. gm_pub m h = gm_pub ?m h"
      "gm_block_bytes m = ?bb" "gm_total_blocks m = gm_total_blocks ?m"
      using c(2,3) by (simp_all add: gm_same_def)
    have "ar_held own (ar_pending t) l" using held c(1,4) g by (simp add: ar_held_def l_def ar_buffer_def)
    then have "ar_inv own l" using inv g e unfolding ar_inv_on_def by (simp add: l_def)
    then show ?thesis by (simp add: l_def)
  qed
  have rej: "ar_inv own (t\<lparr>ar_recycled := k\<rparr>)" for k
    using field [of ?m "gm_manager ?m" k] ar_heldD(1) [OF held] by simp
  have "ar_inv own t' \<and>
    (r = Inr () \<and> ar_entered b t t' \<and> ar_queue t' = ar_queue t @ map (ar_dma t b) [0..<length blocks] \<and> ar_fence t' = ar_fence t \<or>
     (\<exists>e t1. r = Inl e \<and> ar_entered b t t1 \<and> ar_settled False t1 t') \<or>
     (\<exists>e. r = Inl e \<and> ar_same t t' \<and> ar_pending t' = ar_pending t \<and> gm_initialized (ar_pool t') = gm_initialized (ar_pool t)))"
  proof (cases "blocks \<noteq> [] \<and> pb_size (ar_buffer buffer t) div ?bb = length blocks \<and> pb_size (ar_buffer buffer t) mod ?bb = 0 \<and>
      \<not> pb_busy (ar_buffer buffer t) \<and> ar_validate wr [] blocks ?m = Inr () \<and> (ar_recycled t = 0 \<longrightarrow> xa_create env) \<and> xa_guard env")
    case False
    have "r \<noteq> Inr () \<and> (\<exists>k. t' = t\<lparr>ar_recycled := k\<rparr>)"
      using s False
      by (cases "ar_validate wr [] blocks ?m")
        (auto simp: ar_submit_def Let_def split: if_splits intro: exI [of _ "ar_recycled t"])
    then show ?thesis using rej by (cases r) (auto simp: ar_same_def)
  next
    case True
    obtain q m where q: "retain_all gm_retain gm_release [] blocks ?m = (q, m)" by (metis surj_pair)
    obtain bm where bm: "m = ?m\<lparr>gm_manager := bm\<rparr>" using gm_retains_fields [OF q] by blast
    show ?thesis
    proof (cases q)
      case (Inl e)
      have t': "t' = t\<lparr>ar_recycled := ar_recycled t - 1, ar_pool := m\<rparr>" "r = Inl e"
        using s True q Inl by (auto simp: ar_submit_def Let_def)
      have mm: "gm_inv m \<and> gm_config m = gm_config ?m \<and> gm_refs m = gm_refs ?m \<and> (\<forall>h. gm_pub m h = gm_pub ?m h)"
        using gm.retain_all_err [OF ar_heldD(1) [OF held] _ q [unfolded Inl]] by simp
      then have same: "gm_same ?m m" by (simp add: gm_same_def gm_config_def)
      have "ar_inv own t'" using field [OF _ bm same] mm t' by simp
      moreover have "ar_same t t'" "ar_pending t' = ar_pending t" "gm_initialized (ar_pool t') = gm_initialized ?m"
        using t' same bm by (simp_all add: ar_same_def)
      ultimately show ?thesis using t'(2) by blast
    next
      case (Inr u)
      define t1 where "t1 = ar_enter b (t\<lparr>ar_recycled := ar_recycled t - 1, ar_pool := m\<rparr>)"
      have s': "catch_all (ar_launch env b t1) (ar_abandon env) = (r, t')"
        using s True q Inr by (auto simp: ar_submit_def Let_def t1_def b_def)
      have sz: "pb_size (ar_buffer (ba_buffer b) t) = length (ba_blocks b) * ?bb"
        using True div_mult_mod_eq [of "pb_size (ar_buffer buffer t)" ?bb] by (simp add: b_def)
      have v: "ar_validate (ba_write b) [] (ba_blocks b) ?m = Inr ()" and ra: "retain_all gm_retain gm_release [] (ba_blocks b) ?m = (Inr (), m)"
        using True q Inr by (simp_all add: b_def)
      note ent = ar_enter_inv [OF inv _ _ sz _ v ra t1_def]
      have e: "ar_inv_on own (set (ar_pending t)) t1" "ar_entered b t t1" "ar_queue t1 = ar_queue t" "ar_fence t1 = ar_fence t"
        "ar_faulted t1 = ar_faulted t"
        using ent n True by (simp_all add: b_def)
      have pend: "ar_pending t1 = ar_pending t @ [b]" and bb: "gm_block_bytes (ar_pool t1) = ?bb"
        using e(2) by (simp_all add: ar_entered_def gm_same_def)
      obtain p l where p: "ar_launch env b t1 = (p, l)" by (metis surj_pair)
      have c: "(p = Inr () \<and> ar_inv own l \<or> p = Inl RuntimeError \<and> ar_inv_on own (set (ar_pending t)) l) \<and>
        (\<exists>q. l = t1\<lparr>ar_queue := ar_queue t1 @ q\<rparr> \<and> (p = Inr () \<longrightarrow> q = map (ar_dma t1 b) [0..<length (ba_blocks b)]))"
        by (rule ar_launch_cases [OF e(1) _ _ p]) (use pend in auto)
      then obtain q where l: "l = t1\<lparr>ar_queue := ar_queue t1 @ q\<rparr>" "p = Inr () \<Longrightarrow> q = map (ar_dma t1 b) [0..<length (ba_blocks b)]"
        by blast
      have ent: "ar_entered b t l" using e(2) l(1) by (simp add: ar_entered_def)
      show ?thesis
      proof (cases p)
        case (Inr u)
        then have "r = Inr ()" "t' = l" using s' p by simp_all
        moreover have "ar_dma t1 = ar_dma t" using ar_dma_pool [OF bb] by (simp add: fun_eq_iff)
        ultimately show ?thesis using c Inr l ent e(3,4) by (auto simp: b_def)
      next
        case (Inl x)
        have a: "ar_abandon env x l = (r, t')" using s' p Inl by simp
        obtain z y where z: "ar_wait_stream env l = (z, y)" by (metis surj_pair)
        have inv: "ar_inv_on own (set (ar_pending t)) l" using c Inl by auto
        have "xa_waits env l" using w l(1) e(5) by (simp add: xa_waits_def)
        note wt = ar_wait_stream_inv [OF inv this z]
        obtain y' where y': "ar_finish False y = (Inr (), y')" "ar_inv own y'" "ar_settled False l y'"
          using ar_finish_settles [OF wt(1,2,3), of False] by auto
        have "r = Inl x" "t' = y'" using a z y'(1) by (auto simp: ar_abandon_def)
        then show ?thesis using y'(2,3) ent by blast
      qed
    qed
  qed
  then show "ar_inv own t'" and
    "r = Inr () \<and> ar_entered b t t' \<and> ar_queue t' = ar_queue t @ map (ar_dma t b) [0..<length blocks] \<and> ar_fence t' = ar_fence t \<or>
     (\<exists>e t1. r = Inl e \<and> ar_entered b t t1 \<and> ar_settled False t1 t') \<or>
     (\<exists>e. r = Inl e \<and> ar_same t t' \<and> ar_pending t' = ar_pending t \<and> gm_initialized (ar_pool t') = gm_initialized (ar_pool t))"
    by blast+
qed

end
