(* ===== verification/Async_Runs.thy ===== *)
theory Async_Runs
  imports Async_Invariant
begin

text \<open>
  The calls of the pool and of the buffers that may come between those of the runtime, runs of
  the whole system, and what holds in every state of a run.
\<close>

section \<open>The callers\<close>

text \<open>A call that leaves the blocks and buffers under way alone keeps the invariant.\<close>

lemma ar_pool_inv:
  assumes inv: "ar_inv own t" and m: "gm_inv m" "gm_in_flight m = gm_in_flight (ar_pool t)"
      "gm_block_bytes m = gm_block_bytes (ar_pool t)" "gm_total_blocks m = gm_total_blocks (ar_pool t)"
    and refs: "\<And>h. gm_refs m h + own h = gm_refs (ar_pool t) h + own' h"
    and keep: "\<And>h. h \<in> set (ar_blocks (ar_pending t)) \<Longrightarrow>
      gm_block m (h_id h) = gm_block (ar_pool t) (h_id h) \<and> gm_initialized m ! h_id h = gm_initialized (ar_pool t) ! h_id h \<and>
      gm_pub m h = gm_pub (ar_pool t) h"
  shows "ar_inv own' (t\<lparr>ar_pool := m\<rparr>)"
    and "c \<in> set (ar_pending t) \<Longrightarrow> j < length (ba_blocks c) \<Longrightarrow> ar_source (t\<lparr>ar_pool := m\<rparr>) c j = ar_source t c j"
proof -
  define n where "n = t\<lparr>ar_pool := m\<rparr>"
  note held = ar_invD(1) [OF inv]
  have in_blocks: "h \<in> set (ar_blocks (ar_pending t))" if "c \<in> set (ar_pending t)" "h \<in> set (ba_blocks c)" for c h
    using that by auto
  have blk: "gm_block m (h_id (ba_blocks c ! j)) = gm_block (ar_pool t) (h_id (ba_blocks c ! j))"
    if "c \<in> set (ar_pending t)" "j < length (ba_blocks c)" for c j
    using keep in_blocks [OF that(1) nth_mem [OF that(2)]] by blast
  have part: "ar_part n c j = ar_part t c j" for c j using m(3) by (simp add: n_def ar_part_def)
  have dma: "ar_dma n = ar_dma t" using m(3) by (simp add: n_def ar_dma_def fun_eq_iff)
  have "gm_refs m h = own' h + count_list (ar_blocks (ar_pending t)) h" for h
    using refs [of h] ar_heldD(4) [OF held, of h] by simp
  then have "ar_held own' (ar_pending t) n" using held m by (simp add: ar_held_def n_def)
  moreover have "if ba_write c then \<not> gm_initialized m ! h_id g \<and> \<not> gm_pub m g else gm_initialized m ! h_id g"
    if "c \<in> set (ar_pending t)" "g \<in> set (ba_blocks c)" for c g
    using keep [OF in_blocks [OF that]] ar_invD(2,3) [OF inv that] by simp
  moreover have "ar_faulted t \<or> ar_dma t c i \<in> set (ar_queue t) \<or> ar_landed n c i"
    if "c \<in> set (ar_pending t)" "i < length (ba_blocks c)" for c i
    using ar_invD(7) [OF inv that(1) _ that(2)] blk [OF that] part by (auto simp: ar_landed_def n_def)
  ultimately have "ar_inv own' n" using ar_invD(4-6) [OF inv] unfolding ar_inv_on_def dma by (simp add: n_def)
  then show "ar_inv own' (t\<lparr>ar_pool := m\<rparr>)" by (simp add: n_def)
  show "c \<in> set (ar_pending t) \<Longrightarrow> j < length (ba_blocks c) \<Longrightarrow> ar_source (t\<lparr>ar_pool := m\<rparr>) c j = ar_source t c j"
    using blk part by (simp add: ar_source_def n_def)
qed

lemma ar_gm_iff: "ar_gm f t = (r, t') \<longleftrightarrow> (\<exists>m. f (ar_pool t) = (r, m) \<and> t' = t\<lparr>ar_pool := m\<rparr>)"
  by (auto simp: ar_gm_def split: prod.splits)

definition ar_kept :: "async_runtime \<Rightarrow> async_runtime \<Rightarrow> bool" where
  "ar_kept t t' \<longleftrightarrow> gm_block_bytes (ar_pool t') = gm_block_bytes (ar_pool t) \<and> (\<forall>c \<in> set (ar_pending t). c \<in> set (ar_pending t') \<longrightarrow>
     (\<forall>j < length (ba_blocks c). ar_source t' c j = ar_source t c j))"

lemma ar_under_way:
  assumes "ar_inv own t" and "h \<in> set (ar_blocks (ar_pending t))"
  shows "0 < gm_refs (ar_pool t) h" "gm_in_flight (ar_pool t) ! h_id h" "h_id h < gm_total_blocks (ar_pool t)"
  using ar_held_block [OF ar_invD(1) [OF assms(1)], of _ h] assms(2) by auto

lemma ar_allocate_inv:
  assumes inv: "ar_inv own t" and a: "ar_gm gm_allocate t = (Inr h, t')"
  shows "ar_inv (own(h := own h + 1)) t'" and "ar_kept t t'"
proof -
  obtain m where m: "gm_allocate (ar_pool t) = (Inr h, m)" "t' = t\<lparr>ar_pool := m\<rparr>" using a by (auto simp: ar_gm_iff)
  note gi = ar_heldD(1) [OF ar_invD(1) [OF inv]]
  note ok = gm_allocate_ok [OF gi m(1)]
  have z: "gm_refs (ar_pool t) g + (own(h := own h + 1)) g = gm_refs m g + own g" for g using ok(2,3) by simp
  have id: "h_id g \<noteq> h_id h \<and> gm_pub m g = gm_pub (ar_pool t) g" if "g \<in> set (ar_blocks (ar_pending t))" for g
    using gm_allocate_id [OF gi m(1)] gm.alloc_pub [OF gi m(1)] ar_under_way(1) [OF inv that] by simp
  have keep: "gm_block m (h_id g) = gm_block (ar_pool t) (h_id g) \<and> gm_initialized m ! h_id g = gm_initialized (ar_pool t) ! h_id g \<and>
      gm_pub m g = gm_pub (ar_pool t) g" if "g \<in> set (ar_blocks (ar_pending t))" for g
    using id [OF that] ok(5,6,7) by (metis gm_block_def nth_list_update_neq)
  note p = ar_pool_inv [OF inv ok(1,8,6,10) z [symmetric] keep]
  show "ar_inv (own(h := own h + 1)) t'" unfolding m(2) by (rule p(1))
  show "ar_kept t t'" using p(2) ok(6) by (simp add: ar_kept_def m(2))
qed

text \<open>Calls that move no byte and mark no block.\<close>

lemma ar_quiet_inv:
  assumes inv: "ar_inv own t" and m: "gm_inv m" "gm_config m = gm_config (ar_pool t)" "gm_initialized m = gm_initialized (ar_pool t)"
    and refs: "\<And>h. gm_refs m h + own h = gm_refs (ar_pool t) h + own' h"
    and pub: "\<And>g. g \<in> set (ar_blocks (ar_pending t)) \<Longrightarrow> gm_pub m g = gm_pub (ar_pool t) g"
  shows "ar_inv own' (t\<lparr>ar_pool := m\<rparr>)" and "ar_kept t (t\<lparr>ar_pool := m\<rparr>)"
proof -
  have f: "gm_in_flight m = gm_in_flight (ar_pool t)" "gm_block_bytes m = gm_block_bytes (ar_pool t)"
    "gm_total_blocks m = gm_total_blocks (ar_pool t)" "gm_base m = gm_base (ar_pool t)"
    using m(2) by (simp_all add: gm_config_def)
  have keep: "gm_block m (h_id g) = gm_block (ar_pool t) (h_id g) \<and> gm_initialized m ! h_id g = gm_initialized (ar_pool t) ! h_id g \<and>
      gm_pub m g = gm_pub (ar_pool t) g" if "g \<in> set (ar_blocks (ar_pending t))" for g
    using pub [OF that] f m(3) by (simp add: gm_block_def)
  note p = ar_pool_inv [OF inv m(1) f(1-3) refs keep]
  show "ar_inv own' (t\<lparr>ar_pool := m\<rparr>)" by (rule p(1))
  show "ar_kept t (t\<lparr>ar_pool := m\<rparr>)" using p(2) f by (simp add: ar_kept_def)
qed

lemma ar_retain_inv:
  assumes inv: "ar_inv own t" and a: "ar_gm (gm_retain h) t = (Inr (), t')"
  shows "ar_inv (own(h := own h + 1)) t'" and "ar_kept t t'"
proof -
  obtain m where m: "gm_retain h (ar_pool t) = (Inr (), m)" "t' = t\<lparr>ar_pool := m\<rparr>" using a by (auto simp: ar_gm_iff)
  note gi = ar_heldD(1) [OF ar_invD(1) [OF inv]]
  note ok = gm.retain_ok [OF gi m(1)] gm.retain_pub [OF gi m(1)]
  have ini: "gm_initialized m = gm_initialized (ar_pool t)" using m(1) by (auto simp: gm_retain_def gm_call_iff)
  note q = ar_quiet_inv [OF inv _ _ ini, of "own(h := own h + 1)"]
  show "ar_inv (own(h := own h + 1)) t'" "ar_kept t t'" unfolding m(2) by (rule q; use ok in simp)+
qed

lemma ar_release_inv:
  assumes inv: "ar_inv own t" and a: "ar_gm (gm_release h) t = (Inr (), t')" and o: "0 < own h"
  shows "ar_inv (own(h := own h - 1)) t'" and "ar_kept t t'"
proof -
  obtain m where m: "gm_release h (ar_pool t) = (Inr (), m)" "t' = t\<lparr>ar_pool := m\<rparr>" using a by (auto simp: ar_gm_iff)
  note gi = ar_heldD(1) [OF ar_invD(1) [OF inv]]
  note ok = gm.free_ok [OF gi m(1)] gm.free_pub [OF gi m(1)]
  have ini: "gm_initialized m = gm_initialized (ar_pool t)" using m(1) by (auto simp: gm_release_def gm_call_iff)
  have "own h \<le> gm_refs (ar_pool t) h" using ar_heldD(4) [OF ar_invD(1) [OF inv], of h] by simp
  then have refs: "gm_refs m g + own g = gm_refs (ar_pool t) g + (own(h := own h - 1)) g" for g using ok o by simp
  note q = ar_quiet_inv [OF inv _ _ ini refs]
  show "ar_inv (own(h := own h - 1)) t'" "ar_kept t t'" unfolding m(2) by (rule q; use ok in simp)+
qed

lemma ar_lookup_inv:
  assumes inv: "ar_inv own t" and a: "ar_gm (gm_lookup prefix) t = (Inr (Some h), t')"
  shows "ar_inv (own(h := own h + 1)) t'" and "ar_kept t t'"
proof -
  obtain b where b: "bm_lookup prefix (gm_manager (ar_pool t)) = (Inr (Some h), b)" "t' = t\<lparr>ar_pool := (ar_pool t)\<lparr>gm_manager := b\<rparr>\<rparr>"
    using a by (auto simp: ar_gm_iff gm_lookup_def gm_call_iff)
  note gi = ar_heldD(1) [OF ar_invD(1) [OF inv]]
  have ok: "bm_inv b \<and> bm_refs b = (gm_refs (ar_pool t))(h := gm_refs (ar_pool t) h + 1) \<and>
      bm_config b = bm_config (gm_manager (ar_pool t)) \<and> (\<forall>g. bm_pub b g = gm_pub (ar_pool t) g)"
    using bm_lookup_spec(2) [OF gm_inv_manager [OF gi] b(1)] by simp
  then have "bm_capacity b = bm_capacity (gm_manager (ar_pool t))" using bm_config_capacity by blast
  note p = gm_put_manager [OF gi _ this]
  note q = ar_quiet_inv [OF inv, of "(ar_pool t)\<lparr>gm_manager := b\<rparr>" "own(h := own h + 1)"]
  show "ar_inv (own(h := own h + 1)) t'" "ar_kept t t'" unfolding b(2) by (rule q; use ok p in simp)+
qed

lemma ar_publish_inv:
  assumes inv: "ar_inv own t" and a: "ar_gm (gm_publish h prefix) t = (r, t')"
  shows "ar_inv own t'" and "ar_kept t t'"
proof -
  obtain m where m: "gm_publish h prefix (ar_pool t) = (r, m)" "t' = t\<lparr>ar_pool := m\<rparr>" using a by (auto simp: ar_gm_iff)
  note gi = ar_heldD(1) [OF ar_invD(1) [OF inv]]
  have "ar_inv own t' \<and> ar_kept t t'"
  proof (cases "m = ar_pool t")
    case True
    then show ?thesis using inv m(2) by (simp add: ar_kept_def)
  next
    case False
    then have nf: "\<not> gm_in_flight (ar_pool t) ! h_id h" and "gm_call (bm_publish h prefix) (ar_pool t) = (r, m)"
      using m(1) by (auto simp: gm_publish_def split: sum.splits if_splits)
    then obtain b where b: "bm_publish h prefix (gm_manager (ar_pool t)) = (r, b)" "m = (ar_pool t)\<lparr>gm_manager := b\<rparr>"
      by (auto simp: gm_call_iff)
    note ok = bm_publish_cases [OF gm_inv_manager [OF gi] b(1)]
    have "bm_capacity b = bm_capacity (gm_manager (ar_pool t))" using ok(6) by (simp add: bm_capacity_def)
    note p = gm_put_manager [OF gi ok(2) this]
    have pub: "gm_pub m g = gm_pub (ar_pool t) g" if "g \<in> set (ar_blocks (ar_pending t))" for g
      using ok(8) [of g] ar_under_way(2) [OF inv that] nf b(2) by auto
    note q = ar_quiet_inv [OF inv p [folded b(2)], of own]
    show ?thesis using q ok(3) pub b(2) m(2) by simp
  qed
  then show "ar_inv own t'" "ar_kept t t'" by simp_all
qed

lemma ar_write_inv:
  assumes inv: "ar_inv own t" and a: "ar_gm (gm_write_block env h host n) t = (r, t')"
  shows "ar_inv own t'" and "ar_kept t t'"
proof -
  obtain m where m: "gm_write_block env h host n (ar_pool t) = (r, m)" "t' = t\<lparr>ar_pool := m\<rparr>" using a by (auto simp: ar_gm_iff)
  note gi = ar_heldD(1) [OF ar_invD(1) [OF inv]]
  have "ar_inv own t' \<and> ar_kept t t'"
  proof (cases "m = ar_pool t")
    case True
    then show ?thesis using inv m(2) by (simp add: ar_kept_def)
  next
    case False
    then have c: "\<not> gm_in_flight (ar_pool t) ! h_id h" "gm_inv m" "gm_manager m = gm_manager (ar_pool t)"
      "gm_block_bytes m = gm_block_bytes (ar_pool t)" "gm_in_flight m = gm_in_flight (ar_pool t)"
      "\<And>j. j \<noteq> h_id h \<Longrightarrow> gm_block m j = gm_block (ar_pool t) j"
      "gm_initialized m = (gm_initialized (ar_pool t))[h_id h := (r = Inr ())]"
      using gm_write_cases [OF gi m(1)] by auto
    have keep: "gm_block m (h_id g) = gm_block (ar_pool t) (h_id g) \<and> gm_initialized m ! h_id g = gm_initialized (ar_pool t) ! h_id g \<and>
        gm_pub m g = gm_pub (ar_pool t) g" if "g \<in> set (ar_blocks (ar_pending t))" for g
    proof -
      have "h_id g \<noteq> h_id h" using ar_under_way(2) [OF inv that] c(1) by auto
      then show ?thesis using c(3,6,7) by (metis nth_list_update_neq)
    qed
    have tb: "gm_total_blocks m = gm_total_blocks (ar_pool t)" using c(3) by (simp add: gm_total_blocks_def)
    have refs: "gm_refs m g + own g = gm_refs (ar_pool t) g + own g" for g by (simp add: c(3))
    note p = ar_pool_inv [OF inv c(2,5,4) tb refs keep]
    have "ar_inv own t'" unfolding m(2) by (rule p(1))
    moreover have "ar_kept t t'" using p(2) c(4) by (simp add: ar_kept_def m(2))
    ultimately show ?thesis ..
  qed
  then show "ar_inv own t'" "ar_kept t t'" by simp_all
qed

lemma ar_copy_from_inv:
  assumes inv: "ar_inv own t" and i: "i < length (ar_buffers t)" and c: "ar_pb i (pb_copy_from source n offset) t = (r, t')"
  shows "ar_inv own t'" and "ar_kept t t'" and "ar_pool t' = ar_pool t" and "ar_pending t' = ar_pending t" and "ar_queue t' = ar_queue t"
    and "ar_fence t' = ar_fence t" and "ar_faulted t' = ar_faulted t" and "length (ar_buffers t') = length (ar_buffers t)"
    and "k \<noteq> i \<Longrightarrow> ar_buffer k t' = ar_buffer k t"
proof -
  obtain b where b: "pb_copy_from source n offset (ar_buffer i t) = (r, b)" "t' = ar_put_buffer i b t"
    using c by (auto simp: ar_pb_def split: prod.splits)
  show f: "ar_pool t' = ar_pool t" "ar_pending t' = ar_pending t" "ar_queue t' = ar_queue t" "ar_fence t' = ar_fence t"
    "ar_faulted t' = ar_faulted t" "length (ar_buffers t') = length (ar_buffers t)"
    by (simp_all add: b(2))
  have buf: "ar_buffer k t' = (if k = i then b else ar_buffer k t)" for k using i by (simp add: b(2))
  then show "k \<noteq> i \<Longrightarrow> ar_buffer k t' = ar_buffer k t" by simp
  have size: "pb_size b = pb_size (ar_buffer i t) \<and> pb_busy b = pb_busy (ar_buffer i t) \<and> (pb_busy (ar_buffer i t) \<longrightarrow> b = ar_buffer i t)"
    using b(1) by (auto simp: pb_copy_from_def pb_data_def pb_size_def split: if_splits)
  note held = ar_invD(1) [OF inv]
  have held': "ar_held own (ar_pending t') t'"
    unfolding f(2) by (rule ar_held_cong [OF held]) (use ar_heldD(1) [OF held] buf size f in auto)
  have same: "ar_buffer (ba_buffer c) t' = ar_buffer (ba_buffer c) t" if "c \<in> set (ar_pending t)" for c
    using that buf size ar_heldD(6) [OF held i] by auto
  have part: "ar_part t' c j = ar_part t c j" if "c \<in> set (ar_pending t)" for c j
    using same [OF that] f(1) by (simp add: ar_part_def)
  have dma: "ar_dma t' = ar_dma t" using f(1) by (simp add: ar_dma_def fun_eq_iff)
  have "ar_landed t' c j = ar_landed t c j" if "c \<in> set (ar_pending t)" for c j
    using part [OF that] f(1) by (simp add: ar_landed_def)
  then show "ar_inv own t'" using inv held' f unfolding ar_inv_on_def dma by simp
  show "ar_kept t t'" using part f(1) by (simp add: ar_kept_def ar_source_def)
qed

lemma ar_compute_wait_cases: "ar_compute_wait env t = (r, t') \<Longrightarrow> t' = t \<or> t' = t\<lparr>ar_fence := length (ar_queue t)\<rparr>"
  by (auto simp: ar_compute_wait_def Let_def split: if_splits)

lemma ar_fence_inv:
  assumes "ar_inv own t"
  shows "ar_inv own (t\<lparr>ar_fence := length (ar_queue t)\<rparr>)" and "ar_kept t (t\<lparr>ar_fence := length (ar_queue t)\<rparr>)"
proof -
  have "ar_part (t\<lparr>ar_fence := n\<rparr>) = ar_part t" "ar_dma (t\<lparr>ar_fence := n\<rparr>) = ar_dma t"
    "ar_source (t\<lparr>ar_fence := n\<rparr>) = ar_source t" "ar_landed (t\<lparr>ar_fence := n\<rparr>) = ar_landed t"
    "ar_held own bs (t\<lparr>ar_fence := n\<rparr>) = ar_held own bs t" for n bs
    by (simp_all add: fun_eq_iff ar_part_def ar_dma_def ar_source_def ar_landed_def ar_buffer_def ar_held_def)
  then show "ar_inv own (t\<lparr>ar_fence := length (ar_queue t)\<rparr>)" "ar_kept t (t\<lparr>ar_fence := length (ar_queue t)\<rparr>)"
    using assms by (simp_all add: ar_inv_on_def ar_kept_def)
qed

section \<open>Runs\<close>

text \<open>
  One step of the system: a call of the runtime, of the pool or of a buffer, or the device. The
  first component counts the references that the callers hold; they give back only those.
\<close>

inductive ar_move :: "(block_handle \<Rightarrow> nat) \<times> async_runtime \<Rightarrow> (block_handle \<Rightarrow> nat) \<times> async_runtime \<Rightarrow> bool" where
  submit: "buffer < length (ar_buffers t) \<Longrightarrow> xa_waits env t \<Longrightarrow> ar_submit env blocks buffer wr t = (r, t') \<Longrightarrow>
    ar_move (own, t) (own, t')"
| synchronize: "xa_waits env t \<Longrightarrow> ar_synchronize env t = (r, t') \<Longrightarrow> ar_move (own, t) (own, t')"
| compute_wait: "ar_compute_wait env t = (r, t') \<Longrightarrow> ar_move (own, t) (own, t')"
| device: "ar_move (own, t) (own, ar_step t)"
| fault: "ar_move (own, t) (own, ar_fault junk t)"
| allocate: "ar_gm gm_allocate t = (Inr h, t') \<Longrightarrow> ar_move (own, t) (own(h := own h + 1), t')"
| retain: "ar_gm (gm_retain h) t = (Inr (), t') \<Longrightarrow> ar_move (own, t) (own(h := own h + 1), t')"
| release: "0 < own h \<Longrightarrow> ar_gm (gm_release h) t = (Inr (), t') \<Longrightarrow> ar_move (own, t) (own(h := own h - 1), t')"
| lookup: "ar_gm (gm_lookup prefix) t = (Inr (Some h), t') \<Longrightarrow> ar_move (own, t) (own(h := own h + 1), t')"
| publish: "ar_gm (gm_publish h prefix) t = (r, t') \<Longrightarrow> ar_move (own, t) (own, t')"
| write_block: "ar_gm (gm_write_block cu h host n) t = (r, t') \<Longrightarrow> ar_move (own, t) (own, t')"
| copy_from: "i < length (ar_buffers t) \<Longrightarrow> ar_pb i (pb_copy_from source n offset) t = (r, t') \<Longrightarrow> ar_move (own, t) (own, t')"

lemma ar_settled_kept: "ar_settled s t t' \<Longrightarrow> gm_block_bytes (ar_pool t) = gm_block_bytes (ar_pool u) \<Longrightarrow> ar_kept u t'"
  by (simp add: ar_settled_def ar_kept_def)

lemma ar_same_source:
  assumes "ar_same t t'" and "ba_buffer c < length (ar_buffers t)"
  shows "ar_source t' c j = ar_source t c j"
  using ar_same_buffer(2) [OF assms] gm_same_block assms(1)
  by (auto simp: ar_source_def ar_part_def ar_same_def gm_same_def gm_block_def)

lemma ar_entered_source:
  assumes "ar_entered b t t'" and n: "ba_buffer c < length (ar_buffers t)"
  shows "ar_source t' c j = ar_source t c j"
proof -
  have m: "map pb_memory (ar_buffers t') = map pb_memory (ar_buffers t)" and s: "gm_same (ar_pool t) (ar_pool t')"
    using assms(1) by (simp_all add: ar_entered_def)
  have "length (ar_buffers t') = length (ar_buffers t)" using arg_cong [OF m, of length] by simp
  then have "pb_memory (ar_buffer (ba_buffer c) t') = pb_memory (ar_buffer (ba_buffer c) t)"
    using arg_cong [OF m, of "\<lambda>xs. xs ! ba_buffer c"] n by (simp add: ar_buffer_def)
  then show ?thesis using s gm_same_block [OF s] by (simp add: ar_source_def ar_part_def gm_same_def)
qed

lemma ar_move_inv:
  assumes "ar_move (own, t) (own', t')" and inv: "ar_inv own t"
  shows "ar_inv own' t' \<and> ar_kept t t'"
  using assms(1)
proof cases
  case (submit buffer env blocks wr r)
  note c = ar_submit_cases [OF inv submit(2-4)]
  have held: "ba_buffer c < length (ar_buffers t)" if "c \<in> set (ar_pending t)" for c
    using ar_heldD(7) [OF ar_invD(1) [OF inv] that] .
  have 1: "ar_kept t u" "gm_block_bytes (ar_pool u) = gm_block_bytes (ar_pool t)" if "ar_entered b t u" for b u
    using ar_entered_source [OF that held] that by (simp_all add: ar_kept_def ar_entered_def gm_same_def)
  have 2: "ar_kept t u" if "ar_same t u" for u
    using ar_same_source [OF that held] that by (simp add: ar_kept_def ar_same_def gm_same_def)
  have "ar_kept t t'" using c(2) by (elim disjE exE conjE) (blast intro: 1 2 ar_settled_kept)+
  then show ?thesis using c(1) submit(1) by simp
next
  case (synchronize env r)
  then show ?thesis using ar_synchronize_inv [OF inv synchronize(2,3)] ar_settled_kept by blast
next
  case (compute_wait env r)
  then show ?thesis using ar_compute_wait_cases [OF compute_wait(2)] ar_fence_inv [OF inv] inv by (auto simp: ar_kept_def)
next
  case device
  then show ?thesis using ar_step_inv [OF inv] by (simp add: ar_progress_def ar_kept_def)
next
  case (fault junk)
  then show ?thesis using ar_fault_inv [OF inv, of junk] by (simp add: ar_progress_def ar_kept_def)
next
  case (allocate h)
  then show ?thesis using ar_allocate_inv [OF inv allocate(2)] by simp
next
  case (retain h)
  then show ?thesis using ar_retain_inv [OF inv retain(2)] by simp
next
  case (release h)
  then show ?thesis using ar_release_inv [OF inv release(3,2)] by simp
next
  case (lookup prefix h)
  then show ?thesis using ar_lookup_inv [OF inv lookup(2)] by simp
next
  case (publish h prefix r)
  then show ?thesis using ar_publish_inv [OF inv publish(2)] by simp
next
  case (write_block cu h host n r)
  then show ?thesis using ar_write_inv [OF inv write_block(2)] by simp
next
  case (copy_from i source n offset r)
  then show ?thesis using ar_copy_from_inv(1,2) [OF inv copy_from(2,3)] by simp
qed

text \<open>The states a program can reach from a runtime on an idle pool.\<close>

inductive ar_run :: "(block_handle \<Rightarrow> nat) \<Rightarrow> async_runtime \<Rightarrow> bool" where
  start: "gm_inv pool \<Longrightarrow> True \<notin> set (gm_in_flight pool) \<Longrightarrow> \<forall>b \<in> set buffers. \<not> pb_busy b \<Longrightarrow>
    ar_create compute transfer pool buffers = Inr t \<Longrightarrow> ar_run (gm_refs pool) t"
| move: "ar_run own t \<Longrightarrow> ar_move (own, t) (own', t') \<Longrightarrow> ar_run own' t'"

lemma ar_run_inv: "ar_run own t \<Longrightarrow> ar_inv own t"
proof (induction rule: ar_run.induct)
  case (start pool buffers compute transfer t)
  then have t: "t = \<lparr>ar_pool = pool, ar_buffers = buffers, ar_queue = [], ar_faulted = False, ar_fence = 0, ar_pending = [],
            ar_recycled = 0, ar_metrics = no_metrics\<rparr>"
    by (auto simp: ar_create_def bind_res_Inr_iff)
  have "\<not> gm_in_flight pool ! i" if "i < gm_total_blocks pool" for i
    using start(2) that gm_lengths [OF start(1)] by (metis nth_mem)
  then show ?case using start by (auto simp: t ar_inv_on_def ar_held_def ar_buffer_def)
next
  case (move own t own' t')
  then show ?case using ar_move_inv by blast
qed

section \<open>Properties\<close>

text \<open>A batch is refused to everyone while it is under way.\<close>

lemma ar_exclusive:
  assumes inv: "ar_inv own t" and b: "b \<in> set (ar_pending t)"
  shows "pb_data (ar_buffer (ba_buffer b) t) = Inl LogicError"
    and "h \<in> set (ba_blocks b) \<Longrightarrow> gm_write_block cu h host n (ar_pool t) = (Inl LogicError, ar_pool t)"
    and "h \<in> set (ba_blocks b) \<Longrightarrow> gm_read_block cu h dest n (ar_pool t) = Inl LogicError"
    and "h \<in> set (ba_blocks b) \<Longrightarrow> gm_publish h prefix (ar_pool t) = (Inl LogicError, ar_pool t)"
proof -
  note held = ar_invD(1) [OF inv]
  show "pb_data (ar_buffer (ba_buffer b) t) = Inl LogicError"
    using ar_heldD(6,7) [OF held] b by (simp add: pb_data_def)
  have c: "gm_device_address h (ar_pool t) = Inr (h_id h * gm_block_bytes (ar_pool t)) \<and> gm_in_flight (ar_pool t) ! h_id h"
    if "h \<in> set (ba_blocks b)"
    using ar_held_block [OF held b that] by (simp add: gm_device_address_cases)
  show "h \<in> set (ba_blocks b) \<Longrightarrow> gm_write_block cu h host n (ar_pool t) = (Inl LogicError, ar_pool t)"
    "h \<in> set (ba_blocks b) \<Longrightarrow> gm_read_block cu h dest n (ar_pool t) = Inl LogicError"
    "h \<in> set (ba_blocks b) \<Longrightarrow> gm_publish h prefix (ar_pool t) = (Inl LogicError, ar_pool t)"
    using c by (simp_all add: gm_write_block_def gm_read_block_def gm_publish_def)
qed

text \<open>C38: Whatever the callers, the device and a fault of it do, the runtime holds one reference on each
  block under way and no other; blocks and buffers under way are refused to readers, writers and
  publishers; and once a call of \<open>synchronize\<close> has returned, with success or without, every
  reference is back, no block is in flight and no buffer is busy.\<close>

theorem transfers_balanced:
  assumes run: "ar_run own t"
  shows "(\<forall>h. gm_refs (ar_pool t) h = own h + count_list (ar_blocks (ar_pending t)) h) \<and>
    (\<forall>b \<in> set (ar_pending t). pb_data (ar_buffer (ba_buffer b) t) = Inl LogicError \<and>
       (\<forall>h \<in> set (ba_blocks b). \<forall>cu host dest n prefix.
          gm_write_block cu h host n (ar_pool t) = (Inl LogicError, ar_pool t) \<and>
          gm_read_block cu h dest n (ar_pool t) = Inl LogicError \<and>
          gm_publish h prefix (ar_pool t) = (Inl LogicError, ar_pool t))) \<and>
    (\<forall>env r t'. xa_waits env t \<longrightarrow> ar_synchronize env t = (r, t') \<longrightarrow>
       ar_pending t' = [] \<and> gm_refs (ar_pool t') = own \<and> True \<notin> set (gm_in_flight (ar_pool t')) \<and>
       (\<forall>b \<in> set (ar_buffers t'). \<not> pb_busy b))"
proof (intro conjI)
  note inv = ar_run_inv [OF run]
  show "\<forall>h. gm_refs (ar_pool t) h = own h + count_list (ar_blocks (ar_pending t)) h"
    using ar_heldD(4) [OF ar_invD(1) [OF inv]] by blast
  show "\<forall>b \<in> set (ar_pending t). pb_data (ar_buffer (ba_buffer b) t) = Inl LogicError \<and>
       (\<forall>h \<in> set (ba_blocks b). \<forall>cu host dest n prefix.
          gm_write_block cu h host n (ar_pool t) = (Inl LogicError, ar_pool t) \<and>
          gm_read_block cu h dest n (ar_pool t) = Inl LogicError \<and>
          gm_publish h prefix (ar_pool t) = (Inl LogicError, ar_pool t))"
    using ar_exclusive [OF inv] by blast
  show "\<forall>env r t'. xa_waits env t \<longrightarrow> ar_synchronize env t = (r, t') \<longrightarrow>
       ar_pending t' = [] \<and> gm_refs (ar_pool t') = own \<and> True \<notin> set (gm_in_flight (ar_pool t')) \<and>
       (\<forall>b \<in> set (ar_buffers t'). \<not> pb_busy b)"
  proof (intro allI impI)
    fix env r t'
    assume w: "xa_waits env t" and s: "ar_synchronize env t = (r, t')"
    note y = ar_synchronize_inv [OF inv w s]
    have p: "ar_pending t' = []" using y(2) by (simp add: ar_settled_def)
    note h = ar_heldD [OF ar_invD(1) [OF y(1)], unfolded p]
    have "\<not> gm_in_flight (ar_pool t') ! i" if "i < length (gm_in_flight (ar_pool t'))" for i
      using h(5) [of i] that gm_lengths [OF h(1)] by simp
    then have "True \<notin> set (gm_in_flight (ar_pool t'))" by (auto simp: in_set_conv_nth)
    moreover have "\<not> pb_busy b" if "b \<in> set (ar_buffers t')" for b
      using h(6) that by (auto simp: in_set_conv_nth ar_buffer_def)
    moreover have "gm_refs (ar_pool t') = own" using h(4) by (simp add: fun_eq_iff)
    ultimately show "ar_pending t' = [] \<and> gm_refs (ar_pool t') = own \<and> True \<notin> set (gm_in_flight (ar_pool t')) \<and>
       (\<forall>b \<in> set (ar_buffers t'). \<not> pb_busy b)"
      using p by blast
  qed
qed

text \<open>Steps that leave a batch under way.\<close>

definition ar_while :: "batch \<Rightarrow> (block_handle \<Rightarrow> nat) \<times> async_runtime \<Rightarrow> (block_handle \<Rightarrow> nat) \<times> async_runtime \<Rightarrow> bool" where
  "ar_while b s s' \<longleftrightarrow> ar_move s s' \<and> b \<in> set (ar_pending (snd s'))"

lemma ar_while_source:
  assumes "(ar_while b)\<^sup>*\<^sup>* s s'" and "ar_inv (fst s) (snd s)" and "b \<in> set (ar_pending (snd s))" and "j < length (ba_blocks b)"
  shows "ar_inv (fst s') (snd s') \<and> b \<in> set (ar_pending (snd s')) \<and> ar_source (snd s') b j = ar_source (snd s) b j \<and>
    gm_block_bytes (ar_pool (snd s')) = gm_block_bytes (ar_pool (snd s))"
  using assms
proof (induction rule: rtranclp_induct)
  case (step u v)
  have "ar_move (fst u, snd u) (fst v, snd v)" "b \<in> set (ar_pending (snd v))" using step(2) by (simp_all add: ar_while_def)
  then show ?case using ar_move_inv [of "fst u" "snd u" "fst v" "snd v"] step by (auto simp: ar_kept_def)
qed simp

text \<open>C39: Bytes arrive: when \<open>submit\<close> has accepted a batch and, whatever happened meanwhile, the call of
  \<open>synchronize\<close> that ends it succeeds, a batch of writes has stored in each block the part of the
  buffer that \<open>submit\<close> found there, and \<open>read_block\<close> returns it to whoever holds the block; a batch of reads
  has stored in each part of the buffer what the block held at the call of \<open>submit\<close>.\<close>

theorem batch_delivers:
  assumes run: "ar_run own t" and n: "buffer < length (ar_buffers t)" and w: "xa_waits env t"
    and s: "ar_submit env blocks buffer wr t = (Inr (), t1)"
    and between: "(ar_while \<lparr>ba_blocks = blocks, ba_buffer = buffer, ba_write = wr\<rparr>)\<^sup>*\<^sup>* (own, t1) (own2, t2)"
    and w2: "xa_waits env2 t2" and y: "ar_synchronize env2 t2 = (Inr (), t3)"
    and i: "i < length blocks" and cu: "cu_guard cu" "cu_copy cu = None"
  shows "if wr then 0 < own2 (blocks ! i) \<longrightarrow>
        gm_read_block cu (blocks ! i) True (gm_block_bytes (ar_pool t)) (ar_pool t3) =
          Inr (peek (i * gm_block_bytes (ar_pool t)) (gm_block_bytes (ar_pool t)) (pb_memory (ar_buffer buffer t)))
      else pb_copy_to True (gm_block_bytes (ar_pool t)) (i * gm_block_bytes (ar_pool t)) (ar_buffer buffer t3) =
          Inr (gm_block (ar_pool t) (h_id (blocks ! i)))"
proof -
  define b where "b = \<lparr>ba_blocks = blocks, ba_buffer = buffer, ba_write = wr\<rparr>"
  let ?bb = "gm_block_bytes (ar_pool t)"
  have b: "ba_blocks b = blocks" "ba_buffer b = buffer" "ba_write b = wr" by (simp_all add: b_def)
  note sub = ar_submit_cases [OF ar_run_inv [OF run] n w s, folded b_def]
  have ent: "ar_entered b t t1" and inv1: "ar_inv own t1" using sub by auto
  have p1: "b \<in> set (ar_pending t1)" using ent by (simp add: ar_entered_def)
  have iv: "i < length (ba_blocks b)" using i by (simp add: b)
  have src1: "ar_source t1 b i = ar_source t b i" by (rule ar_entered_source [OF ent]) (use n in \<open>simp add: b\<close>)
  have src2: "ar_inv own2 t2" "b \<in> set (ar_pending t2)" "ar_source t2 b i = ar_source t1 b i"
    "gm_block_bytes (ar_pool t2) = gm_block_bytes (ar_pool t1)"
    using ar_while_source [OF between [folded b_def] _ _ iv] inv1 p1 by simp_all
  note sy = ar_synchronize_inv [OF src2(1) w2 y]
  have tgt: "ar_target t3 b i = ar_source t b i" and ini: "wr \<Longrightarrow> gm_initialized (ar_pool t3) ! h_id (blocks ! i)"
    using sy(2) src2(2,3) src1 iv b by (auto simp: ar_settled_def)
  have bytes: "gm_block_bytes (ar_pool t1) = ?bb" "gm_block_bytes (ar_pool t2) = ?bb" "gm_block_bytes (ar_pool t3) = ?bb"
    using ent src2(4) sy(2) by (simp_all add: ar_entered_def gm_same_def ar_settled_def)
  have "buffer < length (ar_buffers t3)"
    using ar_heldD(7) [OF ar_invD(1) [OF src2(1)] src2(2)] sy(2) b by (simp add: ar_settled_def)
  then have nb: "\<not> pb_busy (ar_buffer buffer t3)"
    using ar_heldD(6) [OF ar_invD(1) [OF sy(1)]] sy(2) by (simp add: ar_settled_def)
  show ?thesis
  proof (cases wr)
    case True
    have "gm_refs (ar_pool t3) (blocks ! i) = own2 (blocks ! i)"
      using ar_heldD(4) [OF ar_invD(1) [OF sy(1)]] sy(2) by (simp add: ar_settled_def)
    moreover have "\<not> gm_in_flight (ar_pool t3) ! h_id (blocks ! i)" if "0 < own2 (blocks ! i)"
      using that ar_heldD(5) [OF ar_invD(1) [OF sy(1)]] sy(2) gm_refs_index [of "ar_pool t3" "blocks ! i"] calculation
      by (simp add: ar_settled_def)
    ultimately show ?thesis
      using True tgt ini bytes cu b by (simp add: gm_read_iff ar_target_def ar_source_def ar_part_def)
  next
    case False
    have "length (dma_source (ar_dma t2 b i) t2) = ?bb"
      using dma_source_length [OF ar_invD(1) [OF src2(1)] src2(2) iv] bytes by simp
    then have "length (ar_part t3 b i) = ?bb" "0 < ?bb"
      using False b tgt src1 src2(3) ar_heldD(1) [OF ar_invD(1) [OF ar_run_inv [OF run]]]
      by (simp_all add: dma_source_eq ar_target_def ar_source_def gm_inv_def)
    then have "i * ?bb \<le> pb_size (ar_buffer buffer t3)" "?bb \<le> pb_size (ar_buffer buffer t3) - i * ?bb"
      using bytes b by (auto simp: ar_part_def peek_def pb_size_def)
    then show ?thesis
      using False tgt b bytes nb by (simp add: pb_copy_to_def pb_data_def ar_target_def ar_source_def ar_part_def)
  qed
qed

text \<open>None of the copies of \<open>b\<close> comes after the ones that the compute stream waits for.\<close>

definition ar_fenced :: "batch \<Rightarrow> async_runtime \<Rightarrow> bool" where
  "ar_fenced b t \<longleftrightarrow> (\<forall>i < length (ba_blocks b). ar_dma t b i \<notin> set (drop (ar_fence t) (ar_queue t)))"

lemma ar_fenced_same:
  "ar_fenced b t \<Longrightarrow> ar_fence t' = ar_fence t \<Longrightarrow> ar_queue t' = ar_queue t \<Longrightarrow>
    gm_block_bytes (ar_pool t') = gm_block_bytes (ar_pool t) \<Longrightarrow> ar_fenced b t'"
  by (simp add: ar_fenced_def ar_dma_def)

lemma ar_fenced_submit:
  assumes inv: "ar_inv own t" and b: "b \<in> set (ar_pending t)" and f: "ar_fenced b t" and ent: "ar_entered c t t'"
    and q: "ar_queue t' = ar_queue t @ map (ar_dma t c) [0..<length (ba_blocks c)]" "ar_fence t' = ar_fence t"
  shows "ar_fenced b t'"
  unfolding ar_fenced_def
proof (intro allI impI)
  fix i
  assume i: "i < length (ba_blocks b)"
  have bb: "ar_dma t' b i = ar_dma t b i" using ent by (intro ar_dma_pool) (simp add: ar_entered_def gm_same_def)
  note held = ar_invD(1) [OF inv]
  have "ar_dma t b i \<noteq> ar_dma t c j" if "j < length (ba_blocks c)" for j
  proof
    assume e: "ar_dma t b i = ar_dma t c j"
    have "0 < gm_block_bytes (ar_pool t)" using ar_heldD(1) [OF held] by (simp add: gm_inv_def)
    then have "h_id (ba_blocks b ! i) = h_id (ba_blocks c ! j)" using arg_cong [OF e, of dm_device] by simp
    moreover have "gm_in_flight (ar_pool t) ! h_id (ba_blocks b ! i)" using ar_held_block(3) [OF held b] i by simp
    moreover have "\<not> gm_in_flight (ar_pool t) ! h_id (ba_blocks c ! j)" using ent that by (simp add: ar_entered_def)
    ultimately show False by simp
  qed
  then have "ar_dma t b i \<notin> set (map (ar_dma t c) [0..<length (ba_blocks c)])"
    unfolding set_map by (metis atLeastLessThan_iff imageE set_upt)
  moreover have "ar_dma t b i \<notin> set (drop (ar_fence t) (ar_queue t))" using f i by (simp add: ar_fenced_def)
  ultimately show "ar_dma t' b i \<notin> set (drop (ar_fence t') (ar_queue t'))"
    using ar_invD(5) [OF inv] by (simp add: bb q)
qed

lemma ar_fenced_step:
  assumes inv: "ar_inv own t" and f: "ar_fenced b t"
  shows "ar_fenced b (ar_step t)"
proof (cases "ar_queue t")
  case (Cons x q)
  have 1: "ar_dma (ar_step t) b i = ar_dma t b i" for i
    using ar_step_inv [OF inv] by (intro ar_dma_pool) (simp add: ar_progress_def)
  have 2: "ar_fence (ar_step t) = ar_fence t - 1" using Cons by (simp add: ar_step_def)
  have "set (drop (ar_fence t - 1) q) \<subseteq> set (drop (ar_fence t) (ar_queue t))"
    by (cases "ar_fence t") (auto simp: Cons)
  then show ?thesis using f Cons unfolding ar_fenced_def 1 2 by auto
qed (use f in \<open>simp add: ar_step_def\<close>)

lemma ar_move_fenced:
  assumes mv: "ar_move (own, t) (own', t')" and inv: "ar_inv own t" and b: "b \<in> set (ar_pending t)" "b \<in> set (ar_pending t')"
    and f: "ar_fenced b t"
  shows "ar_fenced b t'"
proof -
  have bytes: "gm_block_bytes (ar_pool t') = gm_block_bytes (ar_pool t)" using ar_move_inv [OF mv inv] by (simp add: ar_kept_def)
  have pool: "ar_fenced b t'" if "\<exists>m. t' = t\<lparr>ar_pool := m\<rparr>"
    using that bytes f by (auto simp: ar_fenced_def ar_dma_def)
  show ?thesis
    using mv
  proof cases
    case (submit buffer env blocks wr r)
    then show ?thesis
      using ar_submit_cases(2) [OF inv submit(2-4)] ar_fenced_submit [OF inv b(1) f] b(2) f bytes
      by (elim disjE exE conjE) (auto simp: ar_settled_def ar_same_def gm_same_def intro: ar_fenced_same)
  next
    case (synchronize env r)
    then show ?thesis using ar_synchronize_inv(2) [OF inv synchronize(2,3)] b(2) by (simp add: ar_settled_def)
  next
    case (compute_wait env r)
    then show ?thesis using ar_compute_wait_cases [OF compute_wait(2)] f by (auto simp: ar_fenced_def)
  next
    case device
    then show ?thesis using ar_fenced_step [OF inv f] by simp
  next
    case (fault junk)
    then show ?thesis by (simp add: ar_fenced_def ar_fault_def)
  next
    case (copy_from i source n offset r)
    note c = ar_copy_from_inv [OF inv copy_from(2,3)]
    show ?thesis by (rule ar_fenced_same [OF f c(6,5) bytes])
  qed (rule pool; auto simp: ar_gm_iff)+
qed

lemma ar_while_fenced:
  assumes "(ar_while b)\<^sup>*\<^sup>* s s'" and "ar_inv (fst s) (snd s)" and "b \<in> set (ar_pending (snd s))" and "ar_fenced b (snd s)"
  shows "ar_inv (fst s') (snd s') \<and> b \<in> set (ar_pending (snd s')) \<and> ar_fenced b (snd s')"
  using assms
proof (induction rule: rtranclp_induct)
  case (step u v)
  have mv: "ar_move (fst u, snd u) (fst v, snd v)" and b: "b \<in> set (ar_pending (snd v))" using step(2) by (simp_all add: ar_while_def)
  have u: "ar_inv (fst u) (snd u)" "b \<in> set (ar_pending (snd u))" "ar_fenced b (snd u)" using step by simp_all
  show ?case using ar_move_inv [OF mv u(1)] ar_move_fenced [OF mv u(1,2) b u(3)] b by simp
qed simp

text \<open>C40: The compute stream sees the data: of a batch that was under way when \<open>compute_wait_for_transfers\<close>
  returned, every byte has arrived as soon as the compute stream may go on, though the host has not yet
  synchronized and whatever else was submitted meanwhile.\<close>

theorem compute_sees_transfers:
  assumes run: "ar_run own t" and b: "b \<in> set (ar_pending t)" and w: "ar_compute_wait env t = (Inr (), t1)"
    and between: "(ar_while b)\<^sup>*\<^sup>* (own, t1) (own2, t2)" and ready: "ar_compute_ready t2" and nf: "\<not> ar_faulted t2"
    and i: "i < length (ba_blocks b)"
  shows "ar_target t2 b i = ar_source t b i"
proof -
  note inv = ar_run_inv [OF run]
  have t1: "t1 = t\<lparr>ar_fence := length (ar_queue t)\<rparr>"
    using w by (auto simp: ar_compute_wait_def Let_def split: if_splits)
  note f = ar_fence_inv [OF inv, folded t1]
  have 1: "b \<in> set (ar_pending t1)" "ar_fenced b t1" using b by (simp_all add: t1 ar_fenced_def)
  have src: "ar_source t1 b i = ar_source t b i" using f(2) b 1(1) i by (simp add: ar_kept_def)
  have a: "ar_inv own2 t2 \<and> b \<in> set (ar_pending t2) \<and> ar_fenced b t2"
    using ar_while_fenced [OF between] f(1) 1 by simp
  then have "ar_landed t2 b i"
    using ready nf i ar_invD(7) [of own2 UNIV t2 b i] by (simp add: ar_fenced_def ar_compute_ready_def)
  moreover have "ar_source t2 b i = ar_source t1 b i" using ar_while_source [OF between] f(1) 1(1) i by simp
  ultimately show ?thesis using src by (simp add: ar_landed_iff)
qed

section \<open>Witnesses\<close>

definition demo_runtime :: async_runtime where
  "demo_runtime = (case ar_create good_cuda good_cuda demo_gpu_pool [\<lparr>pb_memory = [1, 2, 3, 4, 5, 6], pb_busy = False\<rparr>] of
     Inr t \<Rightarrow> snd (ar_gm gm_allocate (snd (ar_gm gm_allocate t))))"

definition demo_second :: block_handle where
  "demo_second = \<lparr>h_id = 1, h_generation = 1\<rparr>"

definition demo_writes :: batch where
  "demo_writes = \<lparr>ba_blocks = [demo_block, demo_second], ba_buffer = 0, ba_write = True\<rparr>"

definition demo_sent :: async_runtime where
  "demo_sent = snd (ar_submit good_transfer (ba_blocks demo_writes) 0 True demo_runtime)"

definition demo_fenced :: async_runtime where
  "demo_fenced = snd (ar_compute_wait good_transfer demo_sent)"

definition demo_landed :: async_runtime where
  "demo_landed = ar_step (ar_step demo_fenced)"

definition demo_own :: "block_handle \<Rightarrow> nat" where
  "demo_own = (\<lambda>h. 0)(demo_block := 1, demo_second := 1)"

lemma demo_runtime_run: "ar_run demo_own demo_runtime"
proof -
  define bufs :: "pinned_buffer list" where "bufs = [\<lparr>pb_memory = [1, 2, 3, 4, 5, 6], pb_busy = False\<rparr>]"
  obtain m where m: "gm_create good_cuda (\<lambda>i. 0) 2 3 4 0 = Inr m"
    by (auto simp: gm_create_def checked_pool_bytes_def size_max_def good_cuda_def bm_create_def)
  then have d: "demo_gpu_pool = m" by (simp add: demo_gpu_pool_def)
  note gm = gm_create_inv [OF m, folded d]
  have z: "gm_refs demo_gpu_pool = (\<lambda>h. 0)" using gm(4) by (simp add: fun_eq_iff)
  have "gm_in_flight demo_gpu_pool = [False, False]" by code_simp
  then have nf: "True \<notin> set (gm_in_flight demo_gpu_pool)" by simp
  have dev: "gm_device demo_gpu_pool = 0" by code_simp
  define t0 where "t0 = (case ar_create good_cuda good_cuda demo_gpu_pool bufs of Inr t \<Rightarrow> t)"
  have c: "ar_create good_cuda good_cuda demo_gpu_pool bufs = Inr t0"
    by (simp add: t0_def ar_create_def stream_create_def good_cuda_def dev)
  have r0: "ar_run (\<lambda>h. 0) t0"
    using ar_run.start [OF demo_gpu_pool_inv nf _ c] z by (simp add: bufs_def)
  define t1 where "t1 = snd (ar_gm gm_allocate t0)"
  define t2 where "t2 = snd (ar_gm gm_allocate t1)"
  have "fst (ar_gm gm_allocate t0) = Inr demo_block" unfolding t0_def bufs_def by code_simp
  then have "ar_gm gm_allocate t0 = (Inr demo_block, t1)" by (metis t1_def prod.collapse)
  from ar_run.move [OF r0 ar_move.allocate [OF this]] have r1: "ar_run ((\<lambda>h. 0)(demo_block := 1)) t1" by simp
  have "fst (ar_gm gm_allocate t1) = Inr demo_second" unfolding t1_def t0_def bufs_def by code_simp
  then have "ar_gm gm_allocate t1 = (Inr demo_second, t2)" by (metis t2_def prod.collapse)
  from ar_run.move [OF r1 ar_move.allocate [OF this]] have "ar_run demo_own t2"
    by (simp add: demo_own_def demo_block_def demo_second_def)
  moreover have "demo_runtime = t2" using c by (simp add: demo_runtime_def t2_def t1_def bufs_def)
  ultimately show ?thesis by simp
qed

lemma demo_calls:
  "ar_submit good_transfer (ba_blocks demo_writes) 0 True demo_runtime = (Inr (), demo_sent)"
  "ar_compute_wait good_transfer demo_sent = (Inr (), demo_fenced)"
  "ar_pending demo_sent = [demo_writes]" "ar_pending demo_fenced = [demo_writes]"
  "ar_pending (ar_step demo_fenced) = [demo_writes]" "ar_pending demo_landed = [demo_writes]"
  "ar_faulted demo_landed = False" "ar_compute_ready demo_landed" "length (ar_buffers demo_runtime) = 1"
  "gm_block_bytes (ar_pool demo_runtime) = 3" "pb_memory (ar_buffer 0 demo_runtime) = [1, 2, 3, 4, 5, 6]"
  "fst (ar_synchronize good_transfer demo_landed) = Inr ()" "xa_waits good_transfer t"
proof -
  have "fst (ar_submit good_transfer (ba_blocks demo_writes) 0 True demo_runtime) = Inr ()" by code_simp
  then show "ar_submit good_transfer (ba_blocks demo_writes) 0 True demo_runtime = (Inr (), demo_sent)"
    by (metis demo_sent_def prod.collapse)
  have "fst (ar_compute_wait good_transfer demo_sent) = Inr ()" by code_simp
  then show "ar_compute_wait good_transfer demo_sent = (Inr (), demo_fenced)" by (metis demo_fenced_def prod.collapse)
  show "ar_pending demo_sent = [demo_writes]" "ar_pending demo_fenced = [demo_writes]" by code_simp+
  show "ar_pending (ar_step demo_fenced) = [demo_writes]" "ar_pending demo_landed = [demo_writes]" by code_simp+
  show "ar_faulted demo_landed = False" "ar_compute_ready demo_landed" "length (ar_buffers demo_runtime) = 1" by code_simp+
  show "gm_block_bytes (ar_pool demo_runtime) = 3" "pb_memory (ar_buffer 0 demo_runtime) = [1, 2, 3, 4, 5, 6]" by code_simp+
  show "fst (ar_synchronize good_transfer demo_landed) = Inr ()" by code_simp
  show "xa_waits good_transfer t" by (simp add: xa_waits_def good_transfer_def)
qed

lemma demo_sent_run: "ar_run demo_own demo_sent"
proof -
  have n: "0 < length (ar_buffers demo_runtime)" by (simp add: demo_calls(9))
  show ?thesis by (rule ar_run.move [OF demo_runtime_run ar_move.submit [OF n demo_calls(13,1)]])
qed

lemma demo_while: "(ar_while demo_writes)\<^sup>*\<^sup>* (demo_own, demo_fenced) (demo_own, demo_landed)"
  "ar_while demo_writes (demo_own, demo_sent) (demo_own, demo_fenced)"
proof -
  have 1: "ar_while demo_writes (demo_own, demo_fenced) (demo_own, ar_step demo_fenced)"
    using ar_move.device by (simp add: ar_while_def demo_calls(5))
  have 2: "ar_while demo_writes (demo_own, ar_step demo_fenced) (demo_own, demo_landed)"
    using ar_move.device [of demo_own "ar_step demo_fenced"] demo_calls(6) by (simp add: ar_while_def demo_landed_def)
  show "(ar_while demo_writes)\<^sup>*\<^sup>* (demo_own, demo_fenced) (demo_own, demo_landed)"
    using 1 2 by (meson r_into_rtranclp rtranclp_trans)
  show "ar_while demo_writes (demo_own, demo_sent) (demo_own, demo_fenced)"
    using ar_move.compute_wait [OF demo_calls(2)] by (simp add: ar_while_def demo_calls(4))
qed

lemma transfers_balanced_witness:
  "gm_refs (ar_pool demo_sent) demo_block = 2 \<and>
   gm_read_block good_cuda demo_block True 3 (ar_pool demo_sent) = Inl LogicError"
  using transfers_balanced [OF demo_sent_run]
  by (simp add: demo_calls(3) demo_own_def demo_writes_def demo_block_def demo_second_def)

lemma batch_delivers_witness:
  "gm_read_block good_cuda demo_second True 3 (ar_pool (snd (ar_synchronize good_transfer demo_landed))) = Inr [4, 5, 6]"
proof -
  have n: "0 < length (ar_buffers demo_runtime)" by (simp add: demo_calls(9))
  have y: "ar_synchronize good_transfer demo_landed = (Inr (), snd (ar_synchronize good_transfer demo_landed))"
    using demo_calls(12) by (metis prod.collapse)
  have b: "\<lparr>ba_blocks = ba_blocks demo_writes, ba_buffer = 0, ba_write = True\<rparr> = demo_writes" by (simp add: demo_writes_def)
  have "(ar_while demo_writes)\<^sup>*\<^sup>* (demo_own, demo_sent) (demo_own, demo_landed)"
    using demo_while by (meson converse_rtranclp_into_rtranclp)
  from batch_delivers [OF demo_runtime_run n demo_calls(13,1), unfolded b, OF this demo_calls(13) y, of 1 good_cuda]
  show ?thesis
    by (simp add: demo_writes_def demo_own_def demo_calls(10,11) good_cuda_def peek_def)
qed

lemma compute_sees_transfers_witness:
  "gm_block (ar_pool demo_landed) 1 = [4, 5, 6]"
proof -
  have b: "demo_writes \<in> set (ar_pending demo_sent)" by (simp add: demo_calls(3))
  have 1: "ar_source demo_sent demo_writes 1 = [4, 5, 6]" by code_simp
  show ?thesis
    using compute_sees_transfers [OF demo_sent_run b demo_calls(2) demo_while(1) demo_calls(8), of 1] 1
    by (simp add: demo_calls(7) ar_target_def demo_writes_def demo_second_def)
qed

end
