(* ===== verification/Spec2Isabelle.thy ===== *)
theory Spec2Isabelle
  imports Block_Manager_Runs Kv_Layout Sequence_State Chunk_File_Store Nvme_Transfer Prefix_Cache
    Sequence_Lifecycle Paged_Attention Migration_Runs
    Io_Wait Async_Runs
begin

text \<open>
  KVFlux is a C++/CUDA library that keeps the key/value cache of a language model in fixed-size
  blocks. Its core is control code: who owns which block, where a token lives, what a failed
  call leaves behind. This development models that code and proves it correct.

  Parts of the program and their theories.

  Generation v0, the block manager.
  \<open>Index_Lru\<close> is \<open>detail/index_lru.h\<close>, a doubly linked list threaded through an array, shown to
  refine plain lists. \<open>Block_Manager\<close> is \<open>block_manager.h/.cpp\<close>: slots with generation and
  reference count, the free list, the index from prefix hashes to slots and the queue of idle
  cached slots. \<open>bm_rep\<close> is its representation invariant; \<open>bm_refs\<close>, \<open>bm_live\<close>, \<open>bm_pub\<close> and
  \<open>bm_cache\<close> are the abstract state (reference counts, valid handles, published handles, the
  map from prefixes to handles) in which every operation is specified. \<open>Block_Manager_Runs\<close>
  closes the operations under sequences of calls and holds the properties of whole runs.
  \<open>Ref_Counting\<close> is the interface \<open>ref_counted\<close> through which all clients use reference counts;
  it is interpreted on \<open>BlockManager\<close> and on \<open>PhysicalBlockPool\<close>.

  Generation v1, memory.
  \<open>Kv_Layout\<close> is \<open>kv_layout.h/.cpp\<close>, the arithmetic of one block in 64-bit words.
  \<open>Gpu_Memory_Pool\<close> is \<open>gpu_memory_pool.h/.cpp\<close>: a block manager over one device allocation,
  whose bytes are an explicit list. \<open>Host_Buffers\<close> has the pinned and heap buffers
  (\<open>pinned_storage.h\<close>, \<open>pinned_memory.cpp\<close>, \<open>v3/host_buffers\<close>, \<open>v3/pinned_chunk_pool\<close>) behind
  the interface \<open>slot_memory\<close>, and \<open>v3/gpu_chunk_store\<close>.
  \<open>Async_Transfer\<close> is \<open>async_transfer.h/.cpp\<close>: batches of block copies on two streams, the books of
  blocks and buffers under way, \<open>submit\<close>, \<open>compute_wait_for_transfers\<close> and \<open>synchronize\<close>.
  \<open>Async_Invariant\<close> shows what every step keeps, \<open>Async_Runs\<close> interleaves the calls with the
  device, its faults and the other users of the pool.

  Generation v2, paged sequences.
  \<open>Physical_Block_Pool\<close>, \<open>Block_Table\<close> and \<open>Sequence_State\<close> are \<open>physical_block_pool\<close>,
  \<open>v2/block_table\<close> and \<open>v2/sequence_state\<close>: the tables of the requests over one shared pool.
  \<open>bt_inv\<close> and \<open>ss_inv\<close> say that a table owns exactly one reference per entry beside those of
  the other owners, so a leak or a double release is a violated equation. \<open>Prefix_Cache\<close> is
  \<open>v2/prefix_cache\<close>, sharing of published prefixes. \<open>Paged_Kv_Layout\<close>, \<open>Batch_Views\<close>
  (\<open>slot_mapping\<close>, \<open>batch_block_table\<close>, \<open>paged_kv_read_table\<close>), \<open>Paged_Kv_Storage\<close> (with
  \<open>copy_on_write\<close>) and \<open>Paged_Kv_Kernels\<close> (\<open>paged_kv_write.cu\<close>, \<open>paged_kv_read.cu\<close>) lead from
  there to the bytes on the device. \<open>Paged_Attention\<close> is \<open>v2/paged_attention.cu\<close> beside
  \<open>v2/reference_attention\<close>, and \<open>Sequence_Lifecycle\<close> is \<open>v2/sequence_lifecycle\<close>, which drives a
  request through prefill, decoding and abort.

  Generation v3, three tiers of chunks.
  \<open>Tier\<close> is \<open>v3/tier\<close> with the interface \<open>chunk_tier\<close>; \<open>Cache_Directory\<close> is
  \<open>v3/cache_directory\<close>, shown to refine three partial maps, and \<open>Directory_View\<close> restates its
  operations for clients. \<open>Chunk_File_Store\<close> is \<open>v3/chunk_file_store\<close>, the file format byte for
  byte over a store of files whose system calls may fail or transfer part of the data.
  \<open>Nvme_Transfer\<close> is \<open>v3/nvme_transfer\<close>, the synchronous moves between memory and files.
  \<open>Copy_Engine\<close> is what asynchronous moves work on: directory, memory, the queue of a stream with
  its copies and events (\<open>cuda_stream\<close>), which a device executes one operation at a time while the
  host goes on. \<open>Gpu_Cpu_Transfer\<close> is \<open>v3/gpu_cpu_transfer\<close>, moves in two halves: \<open>gc_step\<close> is
  the step relation of everything that may happen between the halves.
  \<open>Migration_Manager\<close> is \<open>v3/migration_manager\<close>: tasks that the owner submits, polls, awaits and
  cancels, with copies on the stream and file transfers on worker threads. A region under its
  mutex or one file transfer is one step; a call that would block returns the value \<open>None\<close>.
  \<open>Migration_Invariant\<close> shows that every operation keeps the invariant \<open>mm_inv\<close> (each unfinished
  task is a flight of the engine), \<open>Migration_Runs\<close> has the step relation \<open>mm_step\<close> and the
  properties of runs. Both movers are instances of the interface \<open>chunk_mover\<close>
  (\<open>Mover_Interface\<close>). \<open>Io_Wait\<close> is the handshake of \<open>wait\<close> with a worker, access by access.

  Conventions. An exception is a value and does not undo what was written before it: an
  operation on a state \<open>'s\<close> has type \<open>'s \<Rightarrow> 'a res \<times> 's\<close> (\<open>KV_Prelude\<close>). Undefined behaviour is
  the result \<open>Undefined\<close>, which the properties exclude. \<open>std::size_t\<close> has 64 bits; unchecked
  arithmetic wraps (\<open>size_wrap\<close> or words). References between objects become components of
  one state. What the code does not determine is an argument: the hasher, the clock, the
  answers of system calls and of the CUDA runtime, whether a vector can grow, and the order in
  which a device runs the threads of a kernel.

  Loops are recursive functions with proofs of termination: bounded by the length of a table
  (\<open>bt_shrink_to\<close>, \<open>attach_undo\<close>), by the pages still missing (\<open>bt_grow_to\<close>), by the tokens left
  (\<open>attach_loop\<close>), by the elements left (\<open>grid_stride_loop\<close>) and by the bytes left of a transfer
  (\<open>read_all\<close>, \<open>write_all\<close>). No fuel is used.

  What the properties show. Runs of the block manager never corrupt its lists, lose or duplicate
  no reference, never accept or reissue a stale handle, evict by age and find exactly what was
  published (C1 to C7); layouts and addresses tile memory without overlap (C8, C25); operations
  on tables and sequences account for every reference, and a failure gives back what it took
  (C9 to C13; what it evicted from the idle cache on the way stays evicted, which the statements
  bound); tiers and directory refine their abstract maps and guard replicas in use (C14 to C17);
  chunk files round-trip and the quota is exact under any failures (C18 to C21); device memory
  returns what was written and a failed write is never read (C22); synchronous moves between
  tiers are atomic and lossless (C23, C24); what the kernels write through a slot mapping is
  what the sequence reads back, and copy on write keeps everyone's data (C26 to C29); a cached
  prefix is attached exactly (C30); the attention kernels compute the reference in exact
  arithmetic, and a batch row is the single request in every arithmetic (C31, C32); a request
  never writes a page of another owner and ends without references (C33); asynchronous moves and
  migrations never publish a replica before its bytes have arrived (C34, C35), and migrations
  come to their end (C36) except for a wake-up that the code can lose (C37); the batches of the
  transfer runtime hold exactly their references, deliver the bytes of the moment of submission
  and are ordered before the compute stream by its fence (C38 to C40).

  Not modelled. The residency policy \<open>tiered_block_manager\<close> of v1, a client of the runtime above;
  metrics, which have no logic; benchmarks, examples and scripts; destructors that only give handles back to the
  driver; failure of the host allocator outside the vectors named in \<open>KV_Prelude\<close>; the
  interleaving of several file transfers inside \<open>ChunkFileStore\<close>, which has no lock.
\<close>

text \<open>
  The two 64-bit hashes of the repository use the same round but not the same start: the
  checksum of the chunk files is not FNV-1a.
\<close>

lemma chunk_checksum_not_fnv1a: "chunk_checksum [] \<noteq> fnv1a []"
  by (simp add: chunk_checksum_def fnv1a_def)

end
